(* ===== verification/Zipr_Prelude.thy ===== *)
theory Zipr_Prelude
  imports Main "HOL-Library.Word"
begin

text \<open>
  Shared vocabulary of the development: the machine types of the rewriter, the outcomes a
  C++ run can have besides returning, the sequencing of steps that may stop, and generic
  lemmas on words and lists.

  The rewriter runs on a 64-bit host. \<open>RangeAddress_t\<close> and \<open>VirtualOffset_t\<close> are
  the host's \<open>uintptr_t\<close>, so addresses are 64-bit words whose arithmetic wraps;
  \<open>size_t\<close> has the same width, \<open>unsigned int\<close> and \<open>int\<close> have 32 bits.
\<close>

unbundle bit_operations_syntax

section \<open>Machine types\<close>

type_synonym addr = "64 word"
type_synonym size_t = "64 word"
type_synonym uint32 = "32 word"
type_synonym byte = "8 word"

section \<open>Outcomes\<close>

text \<open>
  \<open>AssertFail\<close>: a failed \<open>assert\<close>. \<open>NullDeref\<close>: a null pointer or an end iterator
  is dereferenced. \<open>SignedOverflow\<close> and \<open>OutOfBounds\<close>: undefined behaviour of the
  language (signed overflow, an element read past the end of a vector).
  \<open>ExitCode\<close>: \<open>exit(n)\<close>. \<open>DomainError\<close>, \<open>OutOfRange\<close>, \<open>LengthError\<close>: the
  exceptions \<open>std::domain_error\<close>, \<open>std::out_of_range\<close> and \<open>std::length_error\<close>. \<open>OutOfFuel\<close>: the model gave up; each
  definition with fuel has a lemma that says how much is enough.
\<close>

datatype error =
    AssertFail
  | NullDeref
  | SignedOverflow
  | OutOfBounds
  | ExitCode nat
  | DomainError
  | OutOfRange
  | LengthError
  | OutOfFuel

type_synonym 'a result = "error + 'a"

definition bindR :: "'a result \<Rightarrow> ('a \<Rightarrow> 'b result) \<Rightarrow> 'b result" where
  "bindR m f = (case m of Inl e \<Rightarrow> Inl e | Inr x \<Rightarrow> f x)"

definition assertR :: "bool \<Rightarrow> (unit \<Rightarrow> 'a result) \<Rightarrow> 'a result" where
  "assertR b k = (if b then k () else Inl AssertFail)"

definition mapR :: "('a \<Rightarrow> 'b) \<Rightarrow> 'a result \<Rightarrow> 'b result" where
  "mapR f m = bindR m (\<lambda>x. Inr (f x))"

fun foldR :: "('x \<Rightarrow> 's \<Rightarrow> 's result) \<Rightarrow> 'x list \<Rightarrow> 's \<Rightarrow> 's result" where
  "foldR f [] s = Inr s"
| "foldR f (x # xs) s = bindR (f x s) (foldR f xs)"

lemma bindR_Inr [simp]: "bindR (Inr x) f = f x"
  by (simp add: bindR_def)

lemma bindR_Inl [simp]: "bindR (Inl e) f = Inl e"
  by (simp add: bindR_def)

lemma bindR_eq_Inr: "bindR m f = Inr y \<longleftrightarrow> (\<exists>x. m = Inr x \<and> f x = Inr y)"
  by (cases m) auto

lemma bindR_cong [fundef_cong]:
  "m = m' \<Longrightarrow> (\<And>x. m' = Inr x \<Longrightarrow> f x = f' x) \<Longrightarrow> bindR m f = bindR m' f'"
  by (cases m') auto

lemma bindR_assoc: "bindR (bindR m f) g = bindR m (\<lambda>x. bindR (f x) g)"
  by (cases m) auto

lemma bindR_Inr_right [simp]: "bindR m Inr = m"
  by (cases m) auto

lemma assertR_True [simp]: "assertR True k = k ()"
  by (simp add: assertR_def)

lemma assertR_False [simp]: "assertR False k = Inl AssertFail"
  by (simp add: assertR_def)

lemma assertR_eq_Inr: "assertR b k = Inr y \<longleftrightarrow> b \<and> k () = Inr y"
  by (simp add: assertR_def)

lemma assertR_cong [fundef_cong]:
  "b = b' \<Longrightarrow> (b' \<Longrightarrow> k () = k' ()) \<Longrightarrow> assertR b k = assertR b' k'"
  by (simp add: assertR_def)

lemma mapR_eq_Inr: "mapR f m = Inr y \<longleftrightarrow> (\<exists>x. m = Inr x \<and> y = f x)"
  by (auto simp: mapR_def bindR_eq_Inr)

lemma foldR_append: "foldR f (xs @ ys) s = bindR (foldR f xs s) (foldR f ys)"
proof (induction xs arbitrary: s)
  case (Cons x xs)
  then have "foldR f (xs @ ys) = (\<lambda>t. bindR (foldR f xs t) (foldR f ys))" by (rule ext)
  then show ?case by (simp add: bindR_assoc)
qed simp

lemma foldR_preserves:
  assumes "\<And>x s s'. x \<in> set xs \<Longrightarrow> P s \<Longrightarrow> f x s = Inr s' \<Longrightarrow> P s'"
    and "P s" and "foldR f xs s = Inr s'"
  shows "P s'"
  using assms
proof (induction xs arbitrary: s)
  case (Cons x xs)
  from Cons.prems(3) obtain t where t: "f x s = Inr t" "foldR f xs t = Inr s'"
    by (auto simp: bindR_eq_Inr)
  have "P t" using Cons.prems(1) [of x s t] Cons.prems(2) t(1) by simp
  then show ?case using Cons.IH [of t] Cons.prems(1) t(2) by auto
qed simp

section \<open>Facts that components share\<close>

named_theorems ranges  \<open>facts on address ranges and sets of them\<close>
named_theorems frame   \<open>what an operation leaves unchanged\<close>

lemmas result_simps = bindR_eq_Inr assertR_eq_Inr mapR_eq_Inr

section \<open>Words\<close>

lemma word_max_not_less [simp]: "\<not> (- 1 :: 'a::len word) < x"
  by (simp add: not_less)

lemma word_less_Suc_le:
  fixes a b :: "'a::len word"
  assumes "b \<noteq> - 1"
  shows "a < b + 1 \<longleftrightarrow> a \<le> b"
  using assms by (metis inc_le inc_less_eq_iff leD leI order_less_le_trans)

lemma word_Suc_le_iff:
  fixes a b :: "'a::len word"
  assumes "a \<noteq> - 1"
  shows "a + 1 \<le> b \<longleftrightarrow> a < b"
  using assms by (metis inc_le inc_less_eq_iff leD leI order_less_le_trans)

lemma word_le_pred_iff:
  fixes a b :: "'a::len word"
  assumes "b \<noteq> 0"
  shows "a \<le> b - 1 \<longleftrightarrow> a < b"
  using word_less_Suc_le [of "b - 1" a] assms by simp

lemma word_pred_less_iff:
  fixes a b :: "'a::len word"
  assumes "b \<noteq> 0"
  shows "b - 1 < a \<longleftrightarrow> b \<le> a"
  using word_le_pred_iff [OF assms, of a] by (simp add: not_le [symmetric])

lemma word_Suc_ne_self [simp]: "(a :: 'a::len word) + 1 \<noteq> a" "a \<noteq> a + 1"
  by simp_all

lemma word_Suc_eq_0: "(a :: 'a::len word) + 1 = 0 \<longleftrightarrow> a = - 1"
  by (metis eq_neg_iff_add_eq_0)

lemma word_less_max: "(a :: 'a::len word) < b \<Longrightarrow> a \<noteq> - 1"
  by auto

lemma word_greater_zero: "(a :: 'a::len word) < b \<Longrightarrow> b \<noteq> 0"
  by auto

lemma unat_addr_less: "unat (a :: addr) < 2 ^ 64"
  using unsigned_less [of a] by simp

lemma word_of_int_nat: "0 \<le> sz \<Longrightarrow> (word_of_int sz :: 'a::len word) = word_of_nat (nat sz)"
  by (metis of_int_of_nat_eq int_nat_eq)

lemma unat_of_nat_64: "n < 2 ^ 64 \<Longrightarrow> unat (word_of_nat n :: 64 word) = n"
  by (simp add: unat_of_nat)

lemma unat_of_nat_32: "n < 2 ^ 32 \<Longrightarrow> unat (word_of_nat n :: 32 word) = n"
  by (simp add: unat_of_nat)

text \<open>The addresses \<open>a, a + 1, \<dots>\<close> a loop \<open>for (i = 0; i < n; i++)\<close> visits.\<close>

definition addrs :: "addr \<Rightarrow> nat \<Rightarrow> addr list" where
  "addrs a n = map (\<lambda>i. a + of_nat i) [0..<n]"

lemma addrs_0 [simp]: "addrs a 0 = []"
  by (simp add: addrs_def)

lemma addrs_Suc: "addrs a (Suc n) = a # addrs (a + 1) n"
proof -
  have "map (\<lambda>i. a + word_of_nat i) [0..<Suc n] =
      map (\<lambda>i. a + word_of_nat i) (0 # map Suc [0..<n])"
    by (simp only: upt_conv_Cons map_Suc_upt zero_less_Suc)
  also have "\<dots> = a # addrs (a + 1) n"
    by (simp add: addrs_def comp_def add.assoc)
  finally show ?thesis by (simp only: addrs_def)
qed

lemma length_addrs [simp]: "length (addrs a n) = n"
  by (simp add: addrs_def)

lemma set_addrs: "set (addrs a n) = (\<lambda>i. a + of_nat i) ` {..<n}"
  by (auto simp: addrs_def)

lemma addrs_snoc: "addrs a (Suc n) = addrs a n @ [a + of_nat n]"
  by (simp add: addrs_def)

lemma addrs_append: "addrs a (m + n) = addrs a m @ addrs (a + of_nat m) n"
  by (induction n) (simp_all add: addrs_snoc add.assoc)

lemma addrs_4: "addrs a 4 = [a, a + 1, a + 2, a + 3]"
  by (simp add: addrs_def upt_rec)

lemma distinct_addrs:
  assumes "n \<le> 2 ^ 64"
  shows "distinct (addrs a n)"
proof -
  have "inj_on (\<lambda>i. a + word_of_nat i) {0..<n}"
  proof (rule inj_onI)
    fix i j
    assume ij: "i \<in> {0..<n}" "j \<in> {0..<n}" and "a + word_of_nat i = a + word_of_nat j"
    then have "unat (word_of_nat i :: addr) = unat (word_of_nat j :: addr)" by simp
    then show "i = j" using ij assms by (simp add: unat_of_nat)
  qed
  then show ?thesis by (simp add: addrs_def distinct_map)
qed

end
