(* ===== verification/Zipr_Range.thy ===== *)
theory Zipr_Range
  imports Zipr_Prelude
begin

text \<open>
  \<open>Range_t\<close> and its comparator (\<open>zipr/src/range.cpp\<close>), and \<open>RangeSet_t\<close>, the
  \<open>std::set\<close> of ranges under that comparator. The set is the list of its elements in
  order, as the iterators of \<open>std::set\<close> visit them; an iterator is the element it
  points to, \<open>None\<close> the end iterator.
\<close>

section \<open>Range\_t\<close>

record range_t =
  r_start :: addr
  r_end :: addr

definition mk_range :: "addr \<Rightarrow> addr \<Rightarrow> range_t" where
  "mk_range s e = \<lparr>r_start = s, r_end = e\<rparr>"

definition default_range :: range_t where
  "default_range = mk_range 0 0"

definition getSize :: "range_t \<Rightarrow> size_t" where
  "getSize r = r_end r - r_start r + 1"

definition setStart :: "addr \<Rightarrow> range_t \<Rightarrow> range_t" where
  "setStart s r = r\<lparr>r_start := s\<rparr>"

definition setEnd :: "addr \<Rightarrow> range_t \<Rightarrow> range_t" where
  "setEnd e r = r\<lparr>r_end := e\<rparr>"

definition is2ByteRange :: "range_t \<Rightarrow> bool" where
  "is2ByteRange r \<longleftrightarrow> r_end r - r_start r = 2"

definition is5ByteRange :: "range_t \<Rightarrow> bool" where
  "is5ByteRange r \<longleftrightarrow> r_end r - r_start r = 5"

definition isInfiniteRange :: "range_t \<Rightarrow> bool" where
  "isInfiniteRange r \<longleftrightarrow> r_end r = - 1"

definition range_less :: "range_t \<Rightarrow> range_t \<Rightarrow> bool" where
  "range_less first second \<longleftrightarrow> r_end first < r_start second"

lemma mk_range_sel [simp]:
  "r_start (mk_range s e) = s" "r_end (mk_range s e) = e"
  by (simp_all add: mk_range_def)

lemma mk_range_eq [simp]: "mk_range s e = mk_range s' e' \<longleftrightarrow> s = s' \<and> e = e'"
  by (simp add: mk_range_def)

lemma mk_range_collapse [simp]: "mk_range (r_start r) (r_end r) = r"
  by (simp add: mk_range_def)

lemma setStart_eq [simp]: "setStart s r = mk_range s (r_end r)"
  by (cases r) (simp add: setStart_def mk_range_def)

lemma setEnd_eq [simp]: "setEnd e r = mk_range (r_start r) e"
  by (cases r) (simp add: setEnd_def mk_range_def)

lemma range_t_eqI: "r_start r = r_start q \<Longrightarrow> r_end r = r_end q \<Longrightarrow> r = (q :: range_t)"
  by (cases r, cases q) simp

section \<open>RangeSet\_t\<close>

text \<open>
  \<open>find\<close>, \<open>insert\<close> and \<open>erase\<close> of \<open>std::set\<close> see the comparator only: two keys
  are the same when neither is less than the other, which for \<open>range_less\<close> is
  \<open>the ranges overlap\<close>. \<open>lower_bound\<close> is the first element not less than the key.
\<close>

type_synonym range_set = "range_t list"

definition rs_lower_bound :: "range_t \<Rightarrow> range_set \<Rightarrow> range_set" where
  "rs_lower_bound k xs = dropWhile (\<lambda>r. range_less r k) xs"

definition rs_find :: "range_t \<Rightarrow> range_set \<Rightarrow> range_t option" where
  "rs_find k xs =
     (case rs_lower_bound k xs of
        [] \<Rightarrow> None
      | r # _ \<Rightarrow> if range_less k r then None else Some r)"

definition rs_insert :: "range_t \<Rightarrow> range_set \<Rightarrow> range_set" where
  "rs_insert v xs =
     (case rs_find v xs of
        Some _ \<Rightarrow> xs
      | None \<Rightarrow> takeWhile (\<lambda>r. range_less r v) xs @ v # rs_lower_bound v xs)"

definition rs_erase_key :: "range_t \<Rightarrow> range_set \<Rightarrow> range_set" where
  "rs_erase_key k xs = filter (\<lambda>r. range_less r k \<or> range_less k r) xs"

definition rs_erase_at :: "range_t \<Rightarrow> range_set \<Rightarrow> range_set" where
  "rs_erase_at r xs = remove1 r xs"

section \<open>Well-formed range sets and the bytes they stand for\<close>

definition range_bytes :: "range_t \<Rightarrow> addr set" where
  "range_bytes r = {r_start r..r_end r}"

definition range_ok :: "range_t \<Rightarrow> bool" where
  "range_ok r \<longleftrightarrow> r_start r \<le> r_end r \<and> \<not> (r_start r = 0 \<and> r_end r = - 1)"

definition rs_ok :: "range_set \<Rightarrow> bool" where
  "rs_ok xs \<longleftrightarrow> sorted_wrt range_less xs \<and> (\<forall>r \<in> set xs. range_ok r)"

definition rs_bytes :: "range_set \<Rightarrow> addr set" where
  "rs_bytes xs = \<Union> (range_bytes ` set xs)"

definition overlap :: "range_t \<Rightarrow> range_t \<Rightarrow> bool" where
  "overlap a b \<longleftrightarrow> \<not> range_less a b \<and> \<not> range_less b a"

lemma mem_range_bytes [ranges]: "a \<in> range_bytes r \<longleftrightarrow> r_start r \<le> a \<and> a \<le> r_end r"
  by (simp add: range_bytes_def)

lemma mem_rs_bytes [ranges]: "a \<in> rs_bytes xs \<longleftrightarrow> (\<exists>r \<in> set xs. r_start r \<le> a \<and> a \<le> r_end r)"
  by (auto simp: rs_bytes_def range_bytes_def)

lemma rs_bytes_Nil [simp]: "rs_bytes [] = {}"
  by (simp add: rs_bytes_def)

lemma rs_bytes_Cons [simp]: "rs_bytes (r # xs) = range_bytes r \<union> rs_bytes xs"
  by (simp add: rs_bytes_def)

lemma rs_bytes_append [simp]: "rs_bytes (xs @ ys) = rs_bytes xs \<union> rs_bytes ys"
  by (simp add: rs_bytes_def)

lemma rs_ok_Nil [simp]: "rs_ok []"
  by (simp add: rs_ok_def)

lemma rs_ok_Cons: "rs_ok (r # xs) \<longleftrightarrow> (\<forall>q \<in> set xs. range_less r q) \<and> range_ok r \<and> rs_ok xs"
  by (auto simp: rs_ok_def)

lemma rs_ok_append:
  "rs_ok (xs @ ys) \<longleftrightarrow> rs_ok xs \<and> rs_ok ys \<and> (\<forall>x \<in> set xs. \<forall>y \<in> set ys. range_less x y)"
  by (auto simp: rs_ok_def sorted_wrt_append)

lemma rs_okD: "rs_ok xs \<Longrightarrow> r \<in> set xs \<Longrightarrow> range_ok r"
  by (simp add: rs_ok_def)

lemma rs_ok_le: "rs_ok xs \<Longrightarrow> r \<in> set xs \<Longrightarrow> r_start r \<le> r_end r"
  by (simp add: rs_ok_def range_ok_def)

lemma range_less_irrefl: "r_start r \<le> r_end r \<Longrightarrow> \<not> range_less r r"
  by (simp add: range_less_def)

lemma range_less_trans:
  "range_less a b \<Longrightarrow> range_less b c \<Longrightarrow> r_start b \<le> r_end b \<Longrightarrow> range_less a c"
  by (simp add: range_less_def)

lemma overlap_single: "overlap r (mk_range a a) \<longleftrightarrow> r_start r \<le> a \<and> a \<le> r_end r"
  by (auto simp: overlap_def range_less_def not_less)

lemma overlap_disjoint:
  assumes "r_start a \<le> r_end a" and "r_start b \<le> r_end b"
  shows "overlap a b \<longleftrightarrow> range_bytes a \<inter> range_bytes b \<noteq> {}"
proof
  assume "overlap a b"
  then have "max (r_start a) (r_start b) \<in> range_bytes a \<inter> range_bytes b"
    using assms by (auto simp: overlap_def range_less_def mem_range_bytes max_def not_less)
  then show "range_bytes a \<inter> range_bytes b \<noteq> {}" by blast
qed (auto simp: overlap_def range_less_def mem_range_bytes)

lemma rs_ok_distinct: "rs_ok xs \<Longrightarrow> distinct xs"
proof (induction xs)
  case (Cons r xs)
  then show ?case
    using range_less_irrefl [of r] by (auto simp: rs_ok_Cons range_ok_def)
qed simp

text \<open>Two elements that overlap are the same element.\<close>

lemma rs_ok_disjoint:
  assumes "rs_ok xs" "r \<in> set xs" "q \<in> set xs" "a \<in> range_bytes r" "a \<in> range_bytes q"
  shows "r = q"
  using assms
proof (induction xs)
  case (Cons x xs)
  then show ?case by (auto simp: rs_ok_Cons range_less_def mem_range_bytes)
qed simp

lemma rs_ok_split:
  assumes "rs_ok xs"
  shows "xs = takeWhile (\<lambda>r. range_less r k) xs @ rs_lower_bound k xs"
  by (simp add: rs_lower_bound_def)

lemma rs_ok_sublists:
  assumes "rs_ok xs"
  shows "rs_ok (takeWhile P xs)" "rs_ok (dropWhile P xs)" "rs_ok (filter P xs)"
    "rs_ok (remove1 r xs)"
proof -
  have "rs_ok (takeWhile P xs @ dropWhile P xs)" using assms by simp
  then show "rs_ok (takeWhile P xs)" "rs_ok (dropWhile P xs)" by (simp_all only: rs_ok_append)
  show "rs_ok (filter P xs)" using assms by (auto simp: rs_ok_def sorted_wrt_filter)
  show "rs_ok (remove1 r xs)" using assms
    by (induction xs) (auto simp: rs_ok_Cons dest: notin_set_remove1)
qed

text \<open>
  In a well-formed set the elements less than a key are a prefix: past the lower bound
  none is.
\<close>

lemma rs_lower_bound_not_less:
  assumes "rs_ok xs" "r \<in> set (rs_lower_bound k xs)"
  shows "\<not> range_less r k"
  using assms
proof (induction xs)
  case (Cons x xs)
  show ?case
  proof (cases "range_less x k \<or> r = x")
    case True
    then show ?thesis using Cons by (auto simp: rs_lower_bound_def rs_ok_Cons split: if_splits)
  next
    case False
    then have "range_less x r" "range_ok r" using Cons.prems
      by (auto simp: rs_lower_bound_def rs_ok_Cons dest: rs_okD)
    then show ?thesis using False by (auto simp: range_less_def range_ok_def)
  qed
qed (simp add: rs_lower_bound_def)

lemma rs_find_Some:
  assumes "rs_ok xs" "rs_find k xs = Some r"
  shows "r \<in> set xs" "overlap r k"
proof -
  from assms(2) obtain ys where ys: "rs_lower_bound k xs = r # ys" and "\<not> range_less k r"
    by (auto simp: rs_find_def split: list.splits if_splits)
  moreover have "\<not> range_less r k" using ys
    by (metis dropWhile_eq_Cons_conv rs_lower_bound_def)
  ultimately show "overlap r k" by (simp add: overlap_def)
  have "r \<in> set (rs_lower_bound k xs)" using ys by simp
  then show "r \<in> set xs" unfolding rs_lower_bound_def by (rule set_dropWhileD)
qed

lemma rs_find_None:
  assumes "rs_ok xs" "r_start k \<le> r_end k" "rs_find k xs = None" "r \<in> set xs"
  shows "\<not> overlap r k"
proof (cases "r \<in> set (takeWhile (\<lambda>r. range_less r k) xs)")
  case True
  then have "range_less r k" by (meson set_takeWhileD)
  then show ?thesis by (simp add: overlap_def)
next
  case False
  then have r: "r \<in> set (rs_lower_bound k xs)"
    using assms(4) rs_ok_split [OF assms(1), of k] by (metis UnE set_append)
  then obtain q ys where q: "rs_lower_bound k xs = q # ys"
    by (cases "rs_lower_bound k xs") auto
  with assms(3) have kq: "range_less k q" by (auto simp: rs_find_def split: if_splits)
  have "rs_ok (q # ys)" using rs_ok_sublists(2) [OF assms(1)] q
    by (metis rs_lower_bound_def)
  then have "r = q \<or> range_less q r" and "r_start q \<le> r_end q"
    using r q by (auto simp: rs_ok_Cons range_ok_def)
  then have "range_less k r" using kq range_less_trans [of k q r] by auto
  then show ?thesis by (simp add: overlap_def)
qed

lemma rs_find_iff:
  assumes "rs_ok xs" "r_start k \<le> r_end k"
  shows "rs_find k xs = None \<longleftrightarrow> (\<forall>r \<in> set xs. \<not> overlap r k)"
  using rs_find_None [OF assms]
  by (cases "rs_find k xs") (auto dest: rs_find_Some [OF assms(1)])

lemma rs_find_member:
  assumes "rs_ok xs" "r \<in> set xs" "r_start r \<le> a" "a \<le> r_end r"
  shows "rs_find (mk_range a a) xs = Some r"
proof -
  have "overlap r (mk_range a a)" using assms(3,4) by (simp add: overlap_single)
  then have "rs_find (mk_range a a) xs \<noteq> None"
    using assms(1,2) rs_find_iff [of xs "mk_range a a"] by auto
  then obtain q where q: "rs_find (mk_range a a) xs = Some q" by auto
  have "q \<in> set xs" "r_start q \<le> a" "a \<le> r_end q"
    using rs_find_Some [OF assms(1) q] by (auto simp: overlap_single)
  then have "q = r" using rs_ok_disjoint [OF assms(1)] assms by (simp add: mem_range_bytes)
  then show ?thesis using q by simp
qed

lemma rs_find_single:
  assumes "rs_ok xs"
  shows "rs_find (mk_range a a) xs = Some r \<longleftrightarrow> r \<in> set xs \<and> r_start r \<le> a \<and> a \<le> r_end r"
proof
  assume f: "rs_find (mk_range a a) xs = Some r"
  show "r \<in> set xs \<and> r_start r \<le> a \<and> a \<le> r_end r"
    using rs_find_Some [OF assms f] by (simp add: overlap_single)
qed (auto intro: rs_find_member [OF assms])

lemma rs_find_byte:
  assumes "rs_ok xs"
  shows "rs_find (mk_range a a) xs \<noteq> None \<longleftrightarrow> a \<in> rs_bytes xs"
  using rs_find_single [OF assms, of a] by (auto simp: mem_rs_bytes)

lemma rs_insert_overlap:
  assumes "rs_find v xs \<noteq> None"
  shows "rs_insert v xs = xs"
  using assms by (auto simp: rs_insert_def)

lemma rs_insert_fresh:
  assumes ok: "rs_ok xs" and v: "range_ok v" and fresh: "\<And>r. r \<in> set xs \<Longrightarrow> \<not> overlap r v"
  shows "rs_ok (rs_insert v xs)" "set (rs_insert v xs) = insert v (set xs)"
proof -
  let ?t = "takeWhile (\<lambda>r. range_less r v) xs" and ?d = "rs_lower_bound v xs"
  have xs: "xs = ?t @ ?d" by (rule rs_ok_split [OF ok])
  have "rs_find v xs = None"
    using fresh by (cases "rs_find v xs") (auto dest: rs_find_Some [OF ok])
  then have ins: "rs_insert v xs = ?t @ v # ?d" by (simp add: rs_insert_def)
  have t: "range_less r v" if "r \<in> set ?t" for r using that by (meson set_takeWhileD)
  have d: "range_less v r" if "r \<in> set ?d" for r
  proof -
    have "r \<in> set xs" using that xs by (metis UnCI set_append)
    then show ?thesis using fresh [of r] rs_lower_bound_not_less [OF ok that]
      by (simp add: overlap_def)
  qed
  have "rs_ok (?t @ ?d)" using ok xs by simp
  then have parts: "rs_ok ?t" "rs_ok ?d" "\<forall>x \<in> set ?t. \<forall>y \<in> set ?d. range_less x y"
    unfolding rs_ok_append by blast+
  have "rs_ok (v # ?d)" unfolding rs_ok_Cons using d by (intro conjI ballI parts v)
  moreover have "\<forall>x \<in> set ?t. \<forall>y \<in> set (v # ?d). range_less x y"
    using parts(3) t unfolding list.set by blast
  ultimately show "rs_ok (rs_insert v xs)"
    using parts(1) unfolding ins by (simp only: rs_ok_append simp_thms)
  show "set (rs_insert v xs) = insert v (set xs)"
    using arg_cong [OF xs, of set] by (auto simp: ins)
qed

lemma rs_insert_bytes:
  assumes "set (rs_insert v xs) = insert v (set xs)"
  shows "rs_bytes (rs_insert v xs) = range_bytes v \<union> rs_bytes xs"
  using assms by (auto simp: rs_bytes_def)

lemma rs_erase_at:
  assumes "rs_ok xs" "r \<in> set xs"
  shows "rs_ok (rs_erase_at r xs)" "set (rs_erase_at r xs) = set xs - {r}"
    "rs_bytes (rs_erase_at r xs) = rs_bytes xs - range_bytes r"
proof -
  show "rs_ok (rs_erase_at r xs)" using assms by (simp add: rs_erase_at_def rs_ok_sublists)
  show set: "set (rs_erase_at r xs) = set xs - {r}"
    using rs_ok_distinct [OF assms(1)] by (simp add: rs_erase_at_def)
  show "rs_bytes (rs_erase_at r xs) = rs_bytes xs - range_bytes r"
    using rs_ok_disjoint [OF assms(1)] assms(2) by (fastforce simp: rs_bytes_def set)
qed

lemma rs_erase_key:
  assumes "rs_ok xs" "r_start k \<le> r_end k"
  shows "rs_ok (rs_erase_key k xs)" "set (rs_erase_key k xs) = {r \<in> set xs. \<not> overlap r k}"
  using assms by (auto simp: rs_erase_key_def overlap_def rs_ok_sublists)

lemma overlap_self: "range_ok r \<Longrightarrow> overlap r r"
  by (simp add: overlap_def range_less_def range_ok_def not_less)

lemma rs_overlap_unique:
  assumes "rs_ok xs" "r \<in> set xs" "q \<in> set xs"
  shows "overlap r q \<longleftrightarrow> r = q"
proof -
  have "range_ok r" "range_ok q" using assms rs_okD by auto
  then show ?thesis
    using rs_ok_disjoint [OF assms] overlap_self [of r]
    by (auto simp: overlap_disjoint range_ok_def)
qed

text \<open>The elements determine the list: a well-formed set has one representation.\<close>

lemma rs_ok_set_eq:
  assumes "rs_ok xs" "rs_ok ys" "set xs = set ys"
  shows "xs = ys"
  using assms
proof (induction xs arbitrary: ys)
  case (Cons x xs)
  then obtain y ys' where ys: "ys = y # ys'" by (cases ys) auto
  have less: "\<not> (range_less a b \<and> range_less b a)" if "range_ok a" "range_ok b" for a b
    using that by (auto simp: range_less_def range_ok_def)
  have "x = y"
    using Cons.prems less [of x y] unfolding ys by (auto simp: rs_ok_Cons)
  moreover have "x \<notin> set xs" "y \<notin> set ys'"
    using rs_ok_distinct [OF Cons.prems(1)] rs_ok_distinct [OF Cons.prems(2)] ys by auto
  ultimately have "set xs = set ys'" using Cons.prems(3) unfolding ys by auto
  then show ?case
    using Cons \<open>x = y\<close> unfolding ys by (simp add: rs_ok_Cons)
qed simp

section \<open>The interface of an ordered range container\<close>

text \<open>
  What the free-range structures rely on: a container of ranges with an invariant, the set
  of its elements, and the three operations. The laws are those of a set of pairwise
  disjoint ranges; \<open>std::set\<close> under \<open>Range_tCompare\<close> provides them.
\<close>

locale range_container =
  fixes find_r :: "range_t \<Rightarrow> 'c \<Rightarrow> range_t option"
    and insert_r :: "range_t \<Rightarrow> 'c \<Rightarrow> 'c"
    and erase_r :: "range_t \<Rightarrow> 'c \<Rightarrow> 'c"
    and mems :: "'c \<Rightarrow> range_t set"
    and invar :: "'c \<Rightarrow> bool"
  assumes mem_ok: "invar c \<Longrightarrow> r \<in> mems c \<Longrightarrow> range_ok r"
    and mem_disjoint: "invar c \<Longrightarrow> r \<in> mems c \<Longrightarrow> q \<in> mems c \<Longrightarrow> overlap r q \<Longrightarrow> r = q"
    and find_hit: "invar c \<Longrightarrow> find_r k c = Some r \<Longrightarrow> r \<in> mems c \<and> overlap r k"
    and find_miss: "invar c \<Longrightarrow> range_ok k \<Longrightarrow> find_r k c = None \<Longrightarrow> r \<in> mems c \<Longrightarrow> \<not> overlap r k"
    and insert_new: "invar c \<Longrightarrow> range_ok v \<Longrightarrow> (\<And>r. r \<in> mems c \<Longrightarrow> \<not> overlap r v) \<Longrightarrow>
        invar (insert_r v c) \<and> mems (insert_r v c) = insert v (mems c)"
    and insert_old: "invar c \<Longrightarrow> r \<in> mems c \<Longrightarrow> overlap r v \<Longrightarrow> range_ok v \<Longrightarrow> insert_r v c = c"
    and erase_mem: "invar c \<Longrightarrow> r \<in> mems c \<Longrightarrow>
        invar (erase_r r c) \<and> mems (erase_r r c) = mems c - {r}"
begin

definition bytes :: "'c \<Rightarrow> addr set" where
  "bytes c = \<Union> (range_bytes ` mems c)"

lemma find_after_insert:
  assumes "invar c" "range_ok v" "\<And>r. r \<in> mems c \<Longrightarrow> \<not> overlap r v"
  shows "find_r v (insert_r v c) = Some v"
proof -
  have ins: "invar (insert_r v c)" "mems (insert_r v c) = insert v (mems c)"
    using insert_new [OF assms] by auto
  have "overlap v v" using assms(2) by (rule overlap_self)
  then have "find_r v (insert_r v c) \<noteq> None"
    using find_miss [OF ins(1) assms(2)] ins(2) by auto
  then obtain q where q: "find_r v (insert_r v c) = Some q" by auto
  then have "q \<in> insert v (mems c)" "overlap q v" using find_hit [OF ins(1) q] ins(2) by auto
  then show ?thesis using assms(3) q by auto
qed

lemma bytes_insert:
  assumes "invar c" "range_ok v" "range_bytes v \<inter> bytes c = {}"
  shows "bytes (insert_r v c) = range_bytes v \<union> bytes c"
proof -
  have "\<not> overlap r v" if "r \<in> mems c" for r
    using assms mem_ok [OF assms(1) that] that
    by (auto simp: bytes_def overlap_disjoint range_ok_def)
  then show ?thesis using insert_new [OF assms(1,2)] by (simp add: bytes_def)
qed

lemma bytes_erase:
  assumes "invar c" "r \<in> mems c"
  shows "bytes (erase_r r c) = bytes c - range_bytes r"
proof -
  have "range_bytes q \<inter> range_bytes r = {}" if "q \<in> mems c" "q \<noteq> r" for q
  proof -
    have "\<not> overlap q r" using mem_disjoint [OF assms(1) that(1) assms(2)] that(2) by auto
    then show ?thesis using mem_ok [OF assms(1)] that(1) assms(2)
      by (auto simp: overlap_disjoint range_ok_def)
  qed
  then show ?thesis using erase_mem [OF assms] assms(2) by (auto simp: bytes_def)
qed

end

interpretation rs: range_container rs_find rs_insert rs_erase_at set rs_ok
proof unfold_locales
  fix c :: range_set and k r assume "rs_ok c" "range_ok k" "rs_find k c = None" "r \<in> set c"
  then show "\<not> overlap r k" using rs_find_None [of c k r] by (simp add: range_ok_def)
next
  fix c r v assume "rs_ok c" "r \<in> set c" "overlap r v" "range_ok v"
  then have "rs_find v c \<noteq> None" using rs_find_iff [of c v] by (auto simp: range_ok_def)
  then show "rs_insert v c = c" by (rule rs_insert_overlap)
qed (auto simp: rs_okD rs_overlap_unique rs_erase_at rs_insert_fresh dest: rs_find_Some)

lemma rs_bytes_eq: "rs.bytes c = rs_bytes c"
  by (simp add: rs.bytes_def rs_bytes_def)

end
