(* ===== verification/Zipr_FreeRanges.thy ===== *)
theory Zipr_FreeRanges
  imports Zipr_Range
begin

text \<open>
  \<open>FreeRanges_t\<close> (\<open>zipr/include/zipr_mem_space.h\<close>): the free ranges ordered by address,
  and the same ranges in 32 buckets by the logarithm of their size. The bucket functions
  take an \<open>unsigned int\<close>, so a size is truncated to 32 bits before its logarithm is taken.
\<close>

section \<open>Logarithms\<close>

function integerlog2floor :: "uint32 \<Rightarrow> nat" where
  "integerlog2floor index =
     (let index' = drop_bit 1 index
      in if index' \<noteq> 0 then Suc (integerlog2floor index') else 0)"
  by pat_completeness auto

text \<open>The loop of \<open>integerlog2ceil\<close> after its first statement \<open>--index\<close>.\<close>

function log2ceil_loop :: "uint32 \<Rightarrow> nat" where
  "log2ceil_loop index = (if index > 0 then Suc (log2ceil_loop (drop_bit 1 index)) else 0)"
  by pat_completeness auto

definition integerlog2ceil :: "uint32 \<Rightarrow> nat" where
  "integerlog2ceil index = log2ceil_loop (index - 1)"

lemma unat_drop_bit_1: "unat (drop_bit 1 (w :: 'a::len word)) = unat w div 2"
  by (metis unat_drop_bit_eq drop_bit_eq_div power_one_right)

lemma unat_gt_0_word: "0 < unat (w :: 'a::len word) \<longleftrightarrow> w \<noteq> 0"
  by (simp add: unat_gt_0)

termination integerlog2floor
proof (relation "measure unat")
  fix index index' :: uint32
  assume "index' = drop_bit 1 index" "index' \<noteq> 0"
  then have "0 < unat index div 2"
    by (metis unat_drop_bit_1 unat_gt_0_word)
  then have "unat index div 2 < unat index" by (simp add: div_less_dividend)
  then show "(index', index) \<in> measure unat"
    using \<open>index' = _\<close> by (simp add: unat_drop_bit_1 del: One_nat_def)
qed simp

termination log2ceil_loop
  by (relation "measure unat") (auto simp: unat_drop_bit_1 word_less_nat_alt simp del: One_nat_def)

declare integerlog2floor.simps [simp del] log2ceil_loop.simps [simp del]

lemma integerlog2floor_bounds:
  assumes "i \<noteq> 0"
  shows "2 ^ integerlog2floor i \<le> unat i \<and> unat i < 2 ^ Suc (integerlog2floor i)"
  using assms
proof (induction i rule: integerlog2floor.induct)
  case (1 i)
  let ?j = "drop_bit 1 i"
  have i: "integerlog2floor i = (if ?j \<noteq> 0 then Suc (integerlog2floor ?j) else 0)"
    by (subst integerlog2floor.simps) (simp only: Let_def)
  have j: "unat ?j = unat i div 2" by (rule unat_drop_bit_1)
  have pos: "0 < unat i" using "1.prems" by (simp add: unat_gt_0)
  show ?case
  proof (cases "?j = 0")
    case True
    then have "unat i div 2 = 0" using j by (simp only: unat_0)
    then show ?thesis using True pos unfolding i by simp
  next
    case False
    then have "2 ^ integerlog2floor ?j \<le> unat i div 2 \<and> unat i div 2 < 2 ^ Suc (integerlog2floor ?j)"
      using "1.IH" [OF refl] j by simp
    then show ?thesis using False unfolding i by (auto simp: div_less_iff_less_mult less_eq_div_iff_mult_less_eq mult.commute)
  qed
qed

lemma integerlog2floor_0 [simp]: "integerlog2floor 0 = 0"
  by (subst integerlog2floor.simps) simp

lemma integerlog2floor_less: "integerlog2floor i < 32"
proof (cases "i = 0")
  case False
  then have "2 ^ integerlog2floor i \<le> unat i" using integerlog2floor_bounds by blast
  also have "unat i < 2 ^ 32" using unsigned_less [of i] by simp
  finally show ?thesis by (simp only: power_strict_increasing_iff)
qed simp

lemma log2ceil_loop_bounds:
  "unat i < 2 ^ log2ceil_loop i \<and> (i \<noteq> 0 \<longrightarrow> 2 ^ (log2ceil_loop i - 1) \<le> unat i \<and> 0 < log2ceil_loop i)"
proof (induction i rule: log2ceil_loop.induct)
  case (1 i)
  let ?j = "drop_bit 1 i"
  have i: "log2ceil_loop i = (if i \<noteq> 0 then Suc (log2ceil_loop ?j) else 0)"
    by (subst log2ceil_loop.simps) (simp only: word_greater_zero_iff)
  have j: "unat ?j = unat i div 2" by (rule unat_drop_bit_1)
  show ?case
  proof (cases "i = 0")
    case False
    then have IH: "unat i div 2 < 2 ^ log2ceil_loop ?j"
        "?j \<noteq> 0 \<Longrightarrow> 2 ^ (log2ceil_loop ?j - 1) \<le> unat i div 2 \<and> 0 < log2ceil_loop ?j"
      using "1.IH" j by (simp_all add: word_greater_zero_iff)
    have pos: "0 < unat i" using False by (simp add: unat_gt_0)
    have up: "unat i < 2 ^ log2ceil_loop i"
      using IH(1) False unfolding i by (simp add: div_less_iff_less_mult mult.commute)
    moreover have "2 ^ log2ceil_loop ?j \<le> unat i"
    proof (cases "?j = 0")
      case True
      then have "log2ceil_loop ?j = 0" by (simp add: log2ceil_loop.simps [of 0])
      then show ?thesis using pos by simp
    next
      case jn: False
      then obtain n where "log2ceil_loop ?j = Suc n" using IH(2) by (cases "log2ceil_loop ?j") auto
      then show ?thesis using IH(2) [OF jn] by simp
    qed
    ultimately show ?thesis using False unfolding i by simp
  next
    case True
    then show ?thesis unfolding i by simp
  qed
qed

text \<open>For \<open>1 < s\<close> the result is the least power of two that is at least \<open>s\<close>.\<close>

lemma integerlog2ceil_bounds:
  assumes "0 < unat s"
  shows "unat s \<le> 2 ^ integerlog2ceil s"
    and "1 < unat s \<Longrightarrow> 2 ^ (integerlog2ceil s - 1) < unat s"
proof -
  have m: "unat (s - 1) = unat s - 1" using assms unat_minus_one by (auto simp: unat_gt_0)
  show "unat s \<le> 2 ^ integerlog2ceil s"
    using log2ceil_loop_bounds [of "s - 1"] assms m by (simp add: integerlog2ceil_def) linarith
  assume "1 < unat s"
  then have "s \<noteq> 1" by auto
  then have "2 ^ (integerlog2ceil s - 1) \<le> unat s - 1"
    using log2ceil_loop_bounds [of "s - 1"] m by (simp add: integerlog2ceil_def)
  then show "2 ^ (integerlog2ceil s - 1) < unat s" using assms by linarith
qed

lemma integerlog2ceil_less:
  assumes "0 < unat s" "unat s \<le> 2 ^ 31"
  shows "integerlog2ceil s < 32"
proof (cases "unat s = 1")
  case True
  then have "s = 1" by (metis unat_1 word_unat_eq_iff)
  then show ?thesis by (simp add: integerlog2ceil_def log2ceil_loop.simps [of 0])
next
  case False
  then have "(2::nat) ^ (integerlog2ceil s - 1) < 2 ^ 31"
    using integerlog2ceil_bounds(2) [OF assms(1)] assms by linarith
  then have "integerlog2ceil s - 1 < 31"
    by (rule power_less_imp_less_exp [of "2::nat", rotated]) simp
  then show ?thesis by simp
qed

section \<open>FreeRanges\_t\<close>

record free_ranges_t =
  by_address :: range_set
  by_size :: "range_set list"

definition FreeRanges_init :: free_ranges_t where
  "FreeRanges_init = \<lparr>by_address = [], by_size = replicate 32 []\<rparr>"

definition fr_bucket :: "range_t \<Rightarrow> nat" where
  "fr_bucket r = integerlog2floor (ucast (getSize r))"

definition fr_find :: "range_t \<Rightarrow> free_ranges_t \<Rightarrow> range_t option" where
  "fr_find key fr = rs_find key (by_address fr)"

definition fr_insert :: "range_t \<Rightarrow> free_ranges_t \<Rightarrow> free_ranges_t result" where
  "fr_insert value fr = assertR (1 \<le> getSize value) (\<lambda>_.
     let bucket = fr_bucket value in
     Inr (fr\<lparr>by_size := (by_size fr)[bucket := rs_insert value (by_size fr ! bucket)],
             by_address := rs_insert value (by_address fr)\<rparr>))"

definition fr_erase_at :: "range_t option \<Rightarrow> free_ranges_t \<Rightarrow> free_ranges_t result" where
  "fr_erase_at pos fr = assertR (pos \<noteq> None) (\<lambda>_.
     let theRange = the pos in
     assertR (1 \<le> getSize theRange) (\<lambda>_.
     let bucket = fr_bucket theRange in
     Inr (fr\<lparr>by_size := (by_size fr)[bucket := rs_erase_key theRange (by_size fr ! bucket)],
             by_address := rs_erase_at theRange (by_address fr)\<rparr>)))"

definition fr_erase :: "range_t \<Rightarrow> free_ranges_t \<Rightarrow> free_ranges_t result" where
  "fr_erase rng fr = fr_erase_at (fr_find rng fr) fr"

definition bySize :: "size_t \<Rightarrow> free_ranges_t \<Rightarrow> range_set result" where
  "bySize sz fr = assertR (1 \<le> sz) (\<lambda>_.
     let bucket = integerlog2ceil (ucast sz) in
     if bucket < length (by_size fr) then Inr (by_size fr ! bucket) else Inl OutOfBounds)"

definition fr_size :: "free_ranges_t \<Rightarrow> nat" where
  "fr_size fr = length (by_address fr)"

section \<open>The two views agree\<close>

text \<open>
  Every bucket holds exactly the free ranges whose truncated size has its logarithm.
\<close>

definition fr_ok :: "free_ranges_t \<Rightarrow> bool" where
  "fr_ok fr \<longleftrightarrow> rs_ok (by_address fr) \<and> length (by_size fr) = 32 \<and>
     (\<forall>b < 32. rs_ok (by_size fr ! b) \<and>
        set (by_size fr ! b) = {r \<in> set (by_address fr). fr_bucket r = b})"

definition fr_bytes :: "free_ranges_t \<Rightarrow> addr set" where
  "fr_bytes fr = rs_bytes (by_address fr)"

lemma fr_bucket_less [simp]: "fr_bucket r < 32"
  by (simp add: fr_bucket_def integerlog2floor_less)

lemma fr_ok_init: "fr_ok FreeRanges_init"
  by (simp add: fr_ok_def FreeRanges_init_def)

lemma fr_ok_rs: "fr_ok fr \<Longrightarrow> rs_ok (by_address fr)"
  by (simp add: fr_ok_def)

lemma getSize_ge_1: "range_ok r \<Longrightarrow> 1 \<le> getSize r"
proof -
  assume ok: "range_ok r"
  have "getSize r \<noteq> 0"
  proof
    assume "getSize r = 0"
    then have e: "r_end r = r_start r - 1" by (simp add: getSize_def algebra_simps)
    show False
    proof (cases "r_start r = 0")
      case False
      then have "r_end r < r_start r" unfolding e by (rule word_pred_less_iff [THEN iffD2]) simp
      then show False using ok by (simp add: range_ok_def not_less [symmetric])
    qed (use ok e in \<open>simp add: range_ok_def\<close>)
  qed
  then show ?thesis by (simp add: word_le_nat_alt unat_gt_0 Suc_le_eq)
qed

lemma unat_getSize:
  assumes "range_ok r"
  shows "unat (getSize r) = unat (r_end r) - unat (r_start r) + 1"
proof -
  have "0 < unat (getSize r)" using getSize_ge_1 [OF assms] by (simp add: word_le_nat_alt)
  moreover from this have "unat (getSize r - 1) = unat (getSize r) - 1"
    by (metis unat_minus_one unat_gt_0)
  ultimately have "unat (getSize r) = unat (getSize r - 1) + 1" by linarith
  also have "getSize r - 1 = r_end r - r_start r" by (simp add: getSize_def)
  finally show ?thesis
    using assms by (simp add: range_ok_def unat_sub)
qed

text \<open>A range in bucket \<open>b\<close> has at least \<open>2 ^ b\<close> bytes, whatever truncation did to its size.\<close>

lemma fr_bucket_size:
  assumes "range_ok r"
  shows "2 ^ fr_bucket r \<le> unat (getSize r)"
proof (cases "ucast (getSize r) = (0 :: uint32)")
  case True
  then show ?thesis using getSize_ge_1 [OF assms] by (simp add: fr_bucket_def word_le_nat_alt)
next
  case False
  then have "2 ^ fr_bucket r \<le> unat (ucast (getSize r) :: uint32)"
    using integerlog2floor_bounds by (simp add: fr_bucket_def)
  also have "\<dots> \<le> unat (getSize r)"
    by (simp add: unsigned_ucast_eq take_bit_eq_mod)
  finally show ?thesis .
qed

lemma fr_insert_ok:
  assumes ok: "fr_ok fr" and v: "range_ok v" and fresh: "range_bytes v \<inter> fr_bytes fr = {}"
  shows "\<exists>fr'. fr_insert v fr = Inr fr' \<and> fr_ok fr' \<and>
           set (by_address fr') = insert v (set (by_address fr)) \<and>
           fr_bytes fr' = range_bytes v \<union> fr_bytes fr"
proof -
  have no: "\<not> overlap r v" if "r \<in> set (by_address fr)" for r
    using fresh that v rs_okD [OF fr_ok_rs [OF ok] that]
    by (auto simp: overlap_disjoint range_ok_def fr_bytes_def rs_bytes_def)
  note A = rs_insert_fresh [OF fr_ok_rs [OF ok] v no]
  let ?b = "fr_bucket v"
  have B: "rs_ok (rs_insert v (by_size fr ! ?b))"
      "set (rs_insert v (by_size fr ! ?b)) = insert v (set (by_size fr ! ?b))"
    using ok no by (intro rs_insert_fresh [OF _ v]; simp add: fr_ok_def)+
  define fr' where "fr' = fr\<lparr>by_size := (by_size fr)[?b := rs_insert v (by_size fr ! ?b)],
      by_address := rs_insert v (by_address fr)\<rparr>"
  have "fr_insert v fr = Inr fr'"
    using getSize_ge_1 [OF v] by (simp add: fr_insert_def fr'_def Let_def)
  moreover have "fr_ok fr'"
    using ok A B unfolding fr_ok_def fr'_def by (auto simp: nth_list_update)
  moreover have "fr_bytes fr' = range_bytes v \<union> fr_bytes fr"
    using rs_insert_bytes [OF A(2)] by (simp add: fr'_def fr_bytes_def)
  ultimately show ?thesis using A(2) by (simp add: fr'_def)
qed

lemma fr_erase_at_ok:
  assumes ok: "fr_ok fr" and r: "r \<in> set (by_address fr)"
  shows "\<exists>fr'. fr_erase_at (Some r) fr = Inr fr' \<and> fr_ok fr' \<and>
           set (by_address fr') = set (by_address fr) - {r} \<and>
           fr_bytes fr' = fr_bytes fr - range_bytes r"
proof -
  have rs: "rs_ok (by_address fr)" by (rule fr_ok_rs [OF ok])
  have rok: "range_ok r" by (rule rs_okD [OF rs r])
  note A = rs_erase_at [OF rs r]
  let ?b = "fr_bucket r"
  have b: "rs_ok (by_size fr ! ?b)" "set (by_size fr ! ?b) = {q \<in> set (by_address fr). fr_bucket q = ?b}"
    using ok by (simp_all add: fr_ok_def)
  have B: "rs_ok (rs_erase_key r (by_size fr ! ?b))"
      "set (rs_erase_key r (by_size fr ! ?b)) = set (by_size fr ! ?b) - {r}"
    using rs_erase_key [OF b(1), of r] rok b(2) rs_overlap_unique [OF rs _ r]
    by (auto simp: range_ok_def)
  define fr' where "fr' = fr\<lparr>by_size := (by_size fr)[?b := rs_erase_key r (by_size fr ! ?b)],
      by_address := rs_erase_at r (by_address fr)\<rparr>"
  have "fr_erase_at (Some r) fr = Inr fr'"
    using getSize_ge_1 [OF rok] by (simp add: fr_erase_at_def fr'_def Let_def)
  moreover have "fr_ok fr'"
    using ok A B unfolding fr_ok_def fr'_def by (auto simp: nth_list_update)
  ultimately show ?thesis using A(2,3) by (simp add: fr'_def fr_bytes_def)
qed

lemma fr_find_byte: "fr_ok fr \<Longrightarrow> fr_find (mk_range a a) fr \<noteq> None \<longleftrightarrow> a \<in> fr_bytes fr"
  unfolding fr_find_def fr_bytes_def by (rule rs_find_byte) (rule fr_ok_rs)

lemma fr_find_single:
  "fr_ok fr \<Longrightarrow> fr_find (mk_range a a) fr = Some r \<longleftrightarrow>
     r \<in> set (by_address fr) \<and> r_start r \<le> a \<and> a \<le> r_end r"
  by (simp add: fr_find_def rs_find_single fr_ok_rs)

lemma fr_ok_range: "fr_ok fr \<Longrightarrow> r \<in> set (by_address fr) \<Longrightarrow> range_ok r"
  by (auto dest: fr_ok_rs rs_okD)

lemma bySize_ok:
  assumes "fr_ok fr" "bySize sz fr = Inr rs" "r \<in> set rs"
  shows "r \<in> set (by_address fr)" "range_ok r" "fr_bucket r = integerlog2ceil (ucast sz)"
  using assms
  by (auto simp: bySize_def Let_def result_simps fr_ok_def split: if_splits dest: rs_okD)

end
