(* ===== verification/Zipr_MemorySpace.thy ===== *)
theory Zipr_MemorySpace
  imports Zipr_FreeRanges
begin

text \<open>
  \<open>ZiprMemorySpace_t\<close> (\<open>zipr/src/memory_space.cpp\<close>, \<open>zipr/include/zipr_mem_space.h\<close>):
  the bytes of the output program, with the ranges that are still free. A memory space
  is a \<open>std::map\<close> from addresses to bytes: reading through \<open>operator[]\<close> inserts a
  zero byte at an address that has none.
\<close>

section \<open>State\<close>

record memory_space =
  free_ranges :: free_ranges_t
  original_free_ranges :: range_set
  ms_bytes :: "addr \<rightharpoonup> byte"
  max_plopped :: addr
  min_plopped :: addr

definition ms_init :: memory_space where
  "ms_init = \<lparr>free_ranges = FreeRanges_init, original_free_ranges = [], ms_bytes = Map.empty,
     max_plopped = 0, min_plopped = - 1\<rparr>"

text \<open>\<open>memory_space[a]\<close> read, and \<open>memory_space[a] = b\<close>.\<close>

definition ms_peek :: "addr \<Rightarrow> memory_space \<Rightarrow> byte" where
  "ms_peek a ms = (case ms_bytes ms a of Some b \<Rightarrow> b | None \<Rightarrow> 0)"

definition ms_get :: "addr \<Rightarrow> memory_space \<Rightarrow> byte \<times> memory_space" where
  "ms_get a ms = (ms_peek a ms, ms\<lparr>ms_bytes := (ms_bytes ms)(a \<mapsto> ms_peek a ms)\<rparr>)"

definition ms_put :: "addr \<Rightarrow> byte \<Rightarrow> memory_space \<Rightarrow> memory_space" where
  "ms_put a b ms = ms\<lparr>ms_bytes := (ms_bytes ms)(a \<mapsto> b)\<rparr>"

fun ms_put_list :: "addr \<Rightarrow> byte list \<Rightarrow> memory_space \<Rightarrow> memory_space" where
  "ms_put_list a [] ms = ms"
| "ms_put_list a (b # bs) ms = ms_put_list (a + 1) bs (ms_put a b ms)"

definition lift_fr :: "(free_ranges_t \<Rightarrow> free_ranges_t result) \<Rightarrow> memory_space \<Rightarrow> memory_space result" where
  "lift_fr f ms = bindR (f (free_ranges ms)) (\<lambda>fr. Inr (ms\<lparr>free_ranges := fr\<rparr>))"

section \<open>Free ranges\<close>

definition FindFreeRange :: "addr \<Rightarrow> memory_space \<Rightarrow> range_t option" where
  "FindFreeRange a ms = fr_find (mk_range a a) (free_ranges ms)"

definition IsValidRange :: "range_t option \<Rightarrow> bool" where
  "IsValidRange it \<longleftrightarrow> it \<noteq> None"

definition IsByteFree :: "addr \<Rightarrow> memory_space \<Rightarrow> bool" where
  "IsByteFree a ms = IsValidRange (FindFreeRange a ms)"

definition AreBytesFree :: "addr \<Rightarrow> nat \<Rightarrow> memory_space \<Rightarrow> bool" where
  "AreBytesFree a num_bytes ms = list_all (\<lambda>x. IsByteFree x ms) (addrs a num_bytes)"

definition SplitFreeRange :: "addr \<Rightarrow> memory_space \<Rightarrow> memory_space result" where
  "SplitFreeRange a ms =
     (let it = FindFreeRange a ms in
      assertR (IsValidRange it) (\<lambda>_.
      let r = the it in
      if r_start r = r_end r then
        assertR (a = r_end r) (\<lambda>_. lift_fr (fr_erase_at it) ms)
      else if a = r_start r then
        bindR (lift_fr (fr_erase_at it) ms) (lift_fr (fr_insert (mk_range (r_start r + 1) (r_end r))))
      else if a = r_end r then
        bindR (lift_fr (fr_erase_at it) ms) (lift_fr (fr_insert (mk_range (r_start r) (r_end r - 1))))
      else
        bindR (lift_fr (fr_erase_at it) ms) (\<lambda>ms.
        bindR (lift_fr (fr_insert (mk_range (r_start r) (a - 1))) ms)
              (lift_fr (fr_insert (mk_range (a + 1) (r_end r)))))))"

definition MergeFreeRange :: "addr \<Rightarrow> memory_space \<Rightarrow> memory_space result" where
  "MergeFreeRange a ms =
     (let itp1 = FindFreeRange (a + 1) ms;
          itm1 = FindFreeRange (a - 1) ms
      in if IsValidRange itp1 then
        let r = the itp1 in
        assertR (a + 1 = r_start r) (\<lambda>_.
        let nr = mk_range a (r_end r) in
        bindR (if IsValidRange itm1
               then bindR (lift_fr (fr_erase_at itm1) ms)
                      (\<lambda>ms. Inr (setStart (r_start (the itm1)) nr, ms))
               else Inr (nr, ms)) (\<lambda>(nr, ms).
        bindR (lift_fr (fr_erase_at itp1) ms) (lift_fr (fr_insert nr))))
      else if IsValidRange itm1 then
        let r = the itm1 in
        assertR (a - 1 = r_end r) (\<lambda>_.
        bindR (lift_fr (fr_erase_at itm1) ms) (lift_fr (fr_insert (mk_range (r_start r) a))))
      else lift_fr (fr_insert (mk_range a a)) ms)"

text \<open>
  The loops over a range stop at its end without visiting it: \<open>counter != end\<close>. The
  counter wraps, so the addresses are \<open>start, \<dots>, end - 1\<close>.
\<close>

definition loop_addrs :: "range_t \<Rightarrow> addr list" where
  "loop_addrs r = addrs (r_start r) (unat (r_end r - r_start r))"

definition SplitFreeRange_range :: "range_t \<Rightarrow> memory_space \<Rightarrow> memory_space result" where
  "SplitFreeRange_range split_from = foldR SplitFreeRange (loop_addrs split_from)"

definition MergeFreeRange_range :: "range_t \<Rightarrow> memory_space \<Rightarrow> memory_space result" where
  "MergeFreeRange_range rng = foldR MergeFreeRange (loop_addrs rng)"

definition GetLargeRange :: "memory_space \<Rightarrow> range_t result" where
  "GetLargeRange ms =
     (let rng = FindFreeRange (- 1) ms in assertR (IsValidRange rng) (\<lambda>_. Inr (the rng)))"

definition getInfiniteFreeRange :: "memory_space \<Rightarrow> range_t result" where
  "getInfiniteFreeRange ms =
     (case find (\<lambda>r. r_end r = - 1) (by_address (free_ranges ms)) of
        Some r \<Rightarrow> Inr r
      | None \<Rightarrow> Inl AssertFail)"

text \<open>
  \<open>getFreeRange\<close> takes an \<open>int\<close>. It looks in one bucket only, keeps at most 101 of its
  ranges, and when the bucket is empty asks again for twice the size. The value of
  \<open>std::rand()\<close> is the parameter \<open>rnd\<close>. A negative size reaches the doubling only when it
  is \<open>INT_MIN\<close> (for any other one the bucket number is 32), and there it overflows too.
\<close>

definition int_max :: int where
  "int_max = 2 ^ 31 - 1"

function getFreeRange :: "nat \<Rightarrow> int \<Rightarrow> memory_space \<Rightarrow> range_t result" where
  "getFreeRange rnd sz ms =
     (let sz = if sz = 0 then sz + 1 else sz in
      bindR (bySize (word_of_int sz) (free_ranges ms)) (\<lambda>rs.
      let v = take 101 rs in
      assertR (list_all (\<lambda>r. ucast (word_of_int sz :: uint32) \<le> getSize r) v) (\<lambda>_.
      if v = [] then
        (if sz < 0 \<or> int_max < sz * 2 then Inl SignedOverflow else getFreeRange rnd (sz * 2) ms)
      else Inr (v ! (rnd mod length v)))))"
  by pat_completeness auto
termination
  by (relation "measure (\<lambda>(rnd, sz, ms). nat (int_max + 1 - sz))")
    (auto simp: int_max_def split: if_splits)

declare getFreeRange.simps [simp del]

definition AddFreeRange :: "range_t \<Rightarrow> memory_space \<Rightarrow> memory_space result" where
  "AddFreeRange newRange = lift_fr (fr_insert (mk_range (r_start newRange) (r_end newRange)))"

definition AddFreeRange_original :: "range_t \<Rightarrow> bool \<Rightarrow> memory_space \<Rightarrow> memory_space result" where
  "AddFreeRange_original newRange original ms =
     AddFreeRange newRange
       (if original then
          ms\<lparr>original_free_ranges :=
               rs_insert (mk_range (r_start newRange) (r_end newRange)) (original_free_ranges ms)\<rparr>
        else ms)"

definition RemoveFreeRange :: "range_t \<Rightarrow> memory_space \<Rightarrow> memory_space result" where
  "RemoveFreeRange oldRange = lift_fr (fr_erase (mk_range (r_start oldRange) (r_end oldRange)))"

definition GetRangeCount :: "memory_space \<Rightarrow> nat" where
  "GetRangeCount ms = fr_size (free_ranges ms)"

section \<open>Writing bytes\<close>

definition PlopByte :: "addr \<Rightarrow> byte \<Rightarrow> memory_space \<Rightarrow> memory_space result" where
  "PlopByte a the_byte ms =
     (let ms = ms\<lparr>min_plopped := min a (min_plopped ms), max_plopped := max a (max_plopped ms)\<rparr>;
          is_free_addr = IsValidRange (FindFreeRange a ms)
      in bindR (if is_free_addr then SplitFreeRange a ms else Inr ms)
           (\<lambda>ms. Inr (ms_put a the_byte ms)))"

fun PlopBytes :: "addr \<Rightarrow> byte list \<Rightarrow> memory_space \<Rightarrow> memory_space result" where
  "PlopBytes a [] ms = Inr ms"
| "PlopBytes a (b # bs) ms = bindR (PlopByte a b ms) (PlopBytes (a + 1) bs)"

definition PlopJump :: "addr \<Rightarrow> memory_space \<Rightarrow> memory_space result" where
  "PlopJump a = PlopBytes a [0xe9, 0, 0, 0, 0]"

section \<open>The set of free addresses\<close>

text \<open>
  The abstract state of the allocator is the set of addresses that are free. An operation
  of the code refines a set operation on it.
\<close>

definition ms_ok :: "memory_space \<Rightarrow> bool" where
  "ms_ok ms \<longleftrightarrow> fr_ok (free_ranges ms)"

definition free_set :: "memory_space \<Rightarrow> addr set" where
  "free_set ms = fr_bytes (free_ranges ms)"

text \<open>No two free ranges touch: they could have been one range.\<close>

definition coalesced :: "memory_space \<Rightarrow> bool" where
  "coalesced ms \<longleftrightarrow>
     (\<forall>r \<in> set (by_address (free_ranges ms)). \<forall>q \<in> set (by_address (free_ranges ms)).
        r_end r \<noteq> - 1 \<longrightarrow> r_end r + 1 \<noteq> r_start q)"

lemma ms_ok_init: "ms_ok ms_init" "free_set ms_init = {}"
  using fr_ok_init
  by (simp_all add: ms_ok_def ms_init_def free_set_def fr_bytes_def FreeRanges_init_def)

lemma IsByteFree_iff: "ms_ok ms \<Longrightarrow> IsByteFree a ms \<longleftrightarrow> a \<in> free_set ms"
  by (simp add: IsByteFree_def IsValidRange_def FindFreeRange_def fr_find_byte ms_ok_def free_set_def
      del: not_None_eq)

lemma AreBytesFree_iff: "ms_ok ms \<Longrightarrow> AreBytesFree a n ms \<longleftrightarrow> set (addrs a n) \<subseteq> free_set ms"
  by (auto simp: AreBytesFree_def list_all_iff IsByteFree_iff)

lemma FindFreeRange_iff:
  "ms_ok ms \<Longrightarrow> FindFreeRange a ms = Some r \<longleftrightarrow>
     r \<in> set (by_address (free_ranges ms)) \<and> r_start r \<le> a \<and> a \<le> r_end r"
  by (simp add: FindFreeRange_def ms_ok_def fr_find_single)

lemma FindFreeRange_None: "ms_ok ms \<Longrightarrow> FindFreeRange a ms = None \<longleftrightarrow> a \<notin> free_set ms"
  using IsByteFree_iff [of ms a] by (auto simp: IsByteFree_def IsValidRange_def)

definition elems :: "memory_space \<Rightarrow> range_t set" where
  "elems ms = set (by_address (free_ranges ms))"

text \<open>Everything but the free ranges is as before.\<close>

definition only_free :: "memory_space \<Rightarrow> memory_space \<Rightarrow> bool" where
  "only_free ms ms' \<longleftrightarrow> ms' = ms\<lparr>free_ranges := free_ranges ms'\<rparr>"

lemma only_free_refl [simp]: "only_free ms ms"
  by (simp add: only_free_def)

lemma only_free_trans: "only_free a b \<Longrightarrow> only_free b c \<Longrightarrow> only_free a c"
  by (cases a, cases b, cases c) (auto simp: only_free_def)

lemma only_freeD [frame]:
  assumes "only_free ms ms'"
  shows "ms_bytes ms' = ms_bytes ms" "max_plopped ms' = max_plopped ms"
    "min_plopped ms' = min_plopped ms" "original_free_ranges ms' = original_free_ranges ms"
    "ms_peek a ms' = ms_peek a ms"
  using assms by (cases ms, cases ms', simp add: only_free_def ms_peek_def)+

lemma free_set_elems: "free_set ms = \<Union> (range_bytes ` elems ms)"
  by (simp add: free_set_def fr_bytes_def rs_bytes_def elems_def)

lemma elems_ok: "ms_ok ms \<Longrightarrow> r \<in> elems ms \<Longrightarrow> range_ok r"
  by (simp add: ms_ok_def elems_def fr_ok_range)

lemma elems_unique:
  assumes "ms_ok ms" "r \<in> elems ms" "q \<in> elems ms" "a \<in> range_bytes r" "a \<in> range_bytes q"
  shows "r = q"
  using assms rs_ok_disjoint [OF fr_ok_rs] by (simp add: ms_ok_def elems_def)

lemma ms_erase:
  assumes "ms_ok ms" "r \<in> elems ms"
  obtains ms' where "lift_fr (fr_erase_at (Some r)) ms = Inr ms'" "ms_ok ms'"
    "elems ms' = elems ms - {r}" "free_set ms' = free_set ms - range_bytes r" "only_free ms ms'"
proof -
  from assms fr_erase_at_ok [of "free_ranges ms" r] obtain fr' where
    "fr_erase_at (Some r) (free_ranges ms) = Inr fr'" "fr_ok fr'"
    "set (by_address fr') = elems ms - {r}" "fr_bytes fr' = free_set ms - range_bytes r"
    by (auto simp: ms_ok_def elems_def free_set_def)
  then show ?thesis
    by (intro that [of "ms\<lparr>free_ranges := fr'\<rparr>"])
      (simp_all add: lift_fr_def ms_ok_def elems_def free_set_def only_free_def)
qed

lemma ms_insert:
  assumes "ms_ok ms" "range_ok v" "range_bytes v \<inter> free_set ms = {}"
  obtains ms' where "lift_fr (fr_insert v) ms = Inr ms'" "ms_ok ms'"
    "elems ms' = insert v (elems ms)" "free_set ms' = range_bytes v \<union> free_set ms"
    "only_free ms ms'"
proof -
  from assms fr_insert_ok [of "free_ranges ms" v] obtain fr' where
    "fr_insert v (free_ranges ms) = Inr fr'" "fr_ok fr'"
    "set (by_address fr') = insert v (elems ms)" "fr_bytes fr' = range_bytes v \<union> free_set ms"
    by (auto simp: ms_ok_def elems_def free_set_def)
  then show ?thesis
    by (intro that [of "ms\<lparr>free_ranges := fr'\<rparr>"])
      (simp_all add: lift_fr_def ms_ok_def elems_def free_set_def only_free_def)
qed

lemma find_elem:
  assumes "ms_ok ms"
  shows "FindFreeRange a ms = Some r \<longleftrightarrow> r \<in> elems ms \<and> a \<in> range_bytes r"
  using FindFreeRange_iff [OF assms] by (simp add: elems_def mem_range_bytes)

subsection \<open>Splitting takes one address out\<close>

text \<open>What replaces the range \<open>r\<close> when \<open>a\<close> is taken out of it.\<close>

definition split_parts :: "range_t \<Rightarrow> addr \<Rightarrow> range_t set" where
  "split_parts r a =
     (if r_start r = r_end r then {}
      else if a = r_start r then {mk_range (r_start r + 1) (r_end r)}
      else if a = r_end r then {mk_range (r_start r) (r_end r - 1)}
      else {mk_range (r_start r) (a - 1), mk_range (a + 1) (r_end r)})"

lemma split_parts_ok:
  assumes "range_ok r" "a \<in> range_bytes r" "p \<in> split_parts r a"
  shows "range_ok p" "range_bytes p \<subseteq> range_bytes r - {a}"
proof -
  have r: "r_start r \<le> a" "a \<le> r_end r" using assms(2) by (simp_all add: mem_range_bytes)
  have s: "r_start r \<noteq> - 1" if "r_start r < r_end r" using that word_less_max by blast
  have e: "r_end r \<noteq> 0" if "r_start r < r_end r" using that word_greater_zero by blast
  have lt: "r_start r < r_end r" using assms(3) r by (auto simp: split_parts_def split: if_splits)
  consider "a = r_start r" | "a = r_end r" "a \<noteq> r_start r" | "r_start r < a" "a < r_end r"
    using r by force
  then have "range_ok p \<and> range_bytes p \<subseteq> range_bytes r - {a}"
  proof cases
    case 1
    then have p: "p = mk_range (r_start r + 1) (r_end r)"
      using assms(3) lt by (auto simp: split_parts_def split: if_splits)
    show ?thesis using 1 lt s [OF lt] unfolding p
      by (auto simp: range_ok_def range_bytes_def word_Suc_le_iff word_Suc_eq_0)
  next
    case 2
    then have p: "p = mk_range (r_start r) (r_end r - 1)"
      using assms(3) lt by (auto simp: split_parts_def split: if_splits)
    show ?thesis using 2 lt e [OF lt] unfolding p
      by (auto simp: range_ok_def range_bytes_def word_le_pred_iff)
  next
    case 3
    then have "a \<noteq> 0" "a \<noteq> - 1" using word_less_max word_greater_zero by blast+
    moreover have "p = mk_range (r_start r) (a - 1) \<or> p = mk_range (a + 1) (r_end r)"
      using assms(3) lt 3 by (auto simp: split_parts_def split: if_splits)
    ultimately show ?thesis using 3
      by (auto simp: range_ok_def range_bytes_def word_le_pred_iff word_Suc_le_iff word_Suc_eq_0)
  qed
  then show "range_ok p" "range_bytes p \<subseteq> range_bytes r - {a}" by auto
qed

lemma split_parts_bytes:
  assumes "range_ok r" "a \<in> range_bytes r"
  shows "\<Union> (range_bytes ` split_parts r a) = range_bytes r - {a}"
proof
  show "\<Union> (range_bytes ` split_parts r a) \<subseteq> range_bytes r - {a}"
    using split_parts_ok(2) [OF assms] by blast
  show "range_bytes r - {a} \<subseteq> \<Union> (range_bytes ` split_parts r a)"
  proof
    fix x assume "x \<in> range_bytes r - {a}"
    then have x: "r_start r \<le> x" "x \<le> r_end r" "x \<noteq> a" by (auto simp: mem_range_bytes)
    have a: "r_start r \<le> a" "a \<le> r_end r" using assms(2) by (simp_all add: mem_range_bytes)
    show "x \<in> \<Union> (range_bytes ` split_parts r a)"
    proof (cases "x < a")
      case True
      then have "x \<le> a - 1" "r_start r \<noteq> r_end r" "r_start r \<noteq> a"
        using word_le_pred_iff [OF word_greater_zero [OF True]] a x by auto
      then show ?thesis using a x by (auto simp: split_parts_def range_bytes_def)
    next
      case False
      then have ax: "a < x" using x by simp
      then have "a + 1 \<le> x" "r_start r \<noteq> r_end r" "r_end r \<noteq> a"
        using word_Suc_le_iff [OF word_less_max [OF ax]] a x by auto
      then show ?thesis using a x by (auto simp: split_parts_def range_bytes_def)
    qed
  qed
qed

lemma SplitFreeRange_found:
  assumes "FindFreeRange a ms = Some r"
  shows "SplitFreeRange a ms =
    (if r_start r = r_end r then assertR (a = r_end r) (\<lambda>_. lift_fr (fr_erase_at (Some r)) ms)
     else bindR (lift_fr (fr_erase_at (Some r)) ms)
       (if a = r_start r then lift_fr (fr_insert (mk_range (r_start r + 1) (r_end r)))
        else if a = r_end r then lift_fr (fr_insert (mk_range (r_start r) (r_end r - 1)))
        else (\<lambda>ms. bindR (lift_fr (fr_insert (mk_range (r_start r) (a - 1))) ms)
               (lift_fr (fr_insert (mk_range (a + 1) (r_end r)))))))"
  by (simp add: SplitFreeRange_def IsValidRange_def Let_def assms)

lemma SplitFreeRange_ok:
  assumes ok: "ms_ok ms" and a: "a \<in> free_set ms"
  obtains ms' r where "SplitFreeRange a ms = Inr ms'" "ms_ok ms'" "only_free ms ms'"
    "r \<in> elems ms" "a \<in> range_bytes r"
    "elems ms' = elems ms - {r} \<union> split_parts r a" "free_set ms' = free_set ms - {a}"
proof -
  obtain r where f: "FindFreeRange a ms = Some r"
    using FindFreeRange_None [OF ok, of a] a by auto
  then have r: "r \<in> elems ms" "a \<in> range_bytes r" by (simp_all add: find_elem [OF ok])
  have rok: "range_ok r" by (rule elems_ok [OF ok r(1)])
  obtain m1 where m1: "lift_fr (fr_erase_at (Some r)) ms = Inr m1" "ms_ok m1"
      "elems m1 = elems ms - {r}" "free_set m1 = free_set ms - range_bytes r" "only_free ms m1"
    using ms_erase [OF ok r(1)] .
  have sub: "range_bytes r \<subseteq> free_set ms" using r by (auto simp: free_set_elems)
  note parts = split_parts_ok [OF rok r(2)]
  have fresh: "range_bytes p \<inter> free_set m1 = {}" if "p \<in> split_parts r a" for p
    using parts(2) [OF that] m1(4) by auto
  have res: "\<exists>ms'. SplitFreeRange a ms = Inr ms' \<and> ms_ok ms' \<and> only_free ms ms' \<and>
      elems ms' = elems ms - {r} \<union> split_parts r a"
  proof (cases "r_start r = r_end r \<or> a = r_start r \<or> a = r_end r")
    case True
    show ?thesis
    proof (cases "r_start r = r_end r")
      case True
      then have "a = r_end r" "split_parts r a = {}"
        using r(2) by (auto simp: mem_range_bytes split_parts_def)
      moreover from this have "SplitFreeRange a ms = Inr m1"
        using True m1(1) unfolding SplitFreeRange_found [OF f] by simp
      ultimately show ?thesis using m1 by simp
    next
      case False
      with True obtain p where p: "split_parts r a = {p}"
          "p = (if a = r_start r then mk_range (r_start r + 1) (r_end r)
                else mk_range (r_start r) (r_end r - 1))"
        by (auto simp: split_parts_def)
      have P: "range_ok p" "range_bytes p \<inter> free_set m1 = {}" using parts(1) fresh p(1) by auto
      obtain m2 where m2: "lift_fr (fr_insert p) m1 = Inr m2" "ms_ok m2"
          "elems m2 = insert p (elems m1)" "free_set m2 = range_bytes p \<union> free_set m1" "only_free m1 m2"
        using ms_insert [OF m1(2) P] .
      have "SplitFreeRange a ms = Inr m2"
        using m2(1) False True unfolding p(2) SplitFreeRange_found [OF f] m1(1)
        by (auto split: if_splits)
      then show ?thesis using m2 m1 p(1) only_free_trans by auto
    qed
  next
    case False
    define p q where "p = mk_range (r_start r) (a - 1)" and "q = mk_range (a + 1) (r_end r)"
    have pq: "split_parts r a = {p, q}" using False by (simp add: split_parts_def p_def q_def)
    have PQ: "range_ok p" "range_ok q" "range_bytes p \<inter> free_set m1 = {}"
      using parts(1) fresh pq by auto
    obtain m2 where m2: "lift_fr (fr_insert p) m1 = Inr m2" "ms_ok m2"
        "elems m2 = insert p (elems m1)" "free_set m2 = range_bytes p \<union> free_set m1" "only_free m1 m2"
      using ms_insert [OF m1(2) PQ(1,3)] .
    have "range_bytes q \<inter> range_bytes p = {}"
    proof -
      have "r_start r < a" "a < r_end r" using False r(2) by (auto simp: mem_range_bytes)
      then have "a \<noteq> - 1" "a \<noteq> 0" by (auto dest: word_less_max word_greater_zero)
      then have "a - 1 < a" "a < a + 1" by (simp_all add: word_pred_less_iff word_less_Suc_le)
      then show ?thesis by (auto simp: p_def q_def range_bytes_def)
    qed
    then have Q: "range_bytes q \<inter> free_set m2 = {}" using m2(4) fresh [of q] pq by auto
    obtain m3 where m3: "lift_fr (fr_insert q) m2 = Inr m3" "ms_ok m3"
        "elems m3 = insert q (elems m2)" "free_set m3 = range_bytes q \<union> free_set m2" "only_free m2 m3"
      using ms_insert [OF m2(2) PQ(2) Q] .
    have "SplitFreeRange a ms = Inr m3"
      using False m1(1) m2(1) m3(1) unfolding p_def q_def by (simp add: SplitFreeRange_found [OF f])
    moreover have "only_free ms m3" using m1(5) m2(5) m3(5) only_free_trans by blast
    ultimately show ?thesis using m3 m2 m1 pq by auto
  qed
  then obtain ms' where ms': "SplitFreeRange a ms = Inr ms'" "ms_ok ms'" "only_free ms ms'"
      "elems ms' = elems ms - {r} \<union> split_parts r a" by blast
  have "free_set ms' = \<Union> (range_bytes ` (elems ms - {r})) \<union> (range_bytes r - {a})"
    using split_parts_bytes [OF rok r(2)] by (simp add: free_set_elems ms'(4))
  also have "\<dots> = free_set ms - {a}"
    using m1(3,4) sub r(2) by (auto simp: free_set_elems)
  finally show ?thesis using that ms' r by blast
qed

lemma SplitFreeRange_busy:
  assumes "ms_ok ms" "a \<notin> free_set ms"
  shows "SplitFreeRange a ms = Inl AssertFail"
  using FindFreeRange_None [OF assms(1), of a] assms(2)
  by (simp add: SplitFreeRange_def IsValidRange_def)

text \<open>The form in which clients use it.\<close>

lemma SplitFreeRange_Inr:
  assumes "ms_ok ms" "SplitFreeRange a ms = Inr ms'"
  shows "a \<in> free_set ms" "ms_ok ms'" "free_set ms' = free_set ms - {a}" "only_free ms ms'"
proof -
  show a: "a \<in> free_set ms" using assms SplitFreeRange_busy [of ms a] by force
  show "ms_ok ms'" "free_set ms' = free_set ms - {a}" "only_free ms ms'"
    using SplitFreeRange_ok [OF assms(1) a] assms(2) by auto
qed

subsection \<open>Merging gives one address back\<close>

definition merge_start :: "addr \<Rightarrow> memory_space \<Rightarrow> addr" where
  "merge_start a ms = (case FindFreeRange (a - 1) ms of None \<Rightarrow> a | Some r \<Rightarrow> r_start r)"

definition merge_end :: "addr \<Rightarrow> memory_space \<Rightarrow> addr" where
  "merge_end a ms = (case FindFreeRange (a + 1) ms of None \<Rightarrow> a | Some r \<Rightarrow> r_end r)"

lemma range_above:
  assumes "ms_ok ms" "a \<notin> free_set ms" "a \<noteq> - 1" "FindFreeRange (a + 1) ms = Some r"
  shows "r \<in> elems ms" "r_start r = a + 1" "a < r_end r"
proof -
  have r: "r \<in> elems ms" "r_start r \<le> a + 1" "a < r_end r"
    using assms by (simp_all add: find_elem mem_range_bytes word_Suc_le_iff)
  have "\<not> r_start r \<le> a" using r(1,3) assms(2) by (auto simp: free_set_elems mem_range_bytes)
  then show "r \<in> elems ms" "r_start r = a + 1" "a < r_end r"
    using r word_Suc_le_iff [OF assms(3), of "r_start r"] by auto
qed

lemma range_below:
  assumes "ms_ok ms" "a \<notin> free_set ms" "a \<noteq> 0" "FindFreeRange (a - 1) ms = Some r"
  shows "r \<in> elems ms" "r_end r = a - 1" "r_start r < a"
proof -
  have r: "r \<in> elems ms" "r_start r < a" "a - 1 \<le> r_end r"
    using assms by (simp_all add: find_elem mem_range_bytes word_le_pred_iff)
  have "\<not> a \<le> r_end r" using r(1,2) assms(2) by (auto simp: free_set_elems mem_range_bytes)
  then show "r \<in> elems ms" "r_end r = a - 1" "r_start r < a"
    using r word_le_pred_iff [OF assms(3), of "r_end r"] by auto
qed

text \<open>The ranges that touch \<open>a\<close>; they and \<open>a\<close> make up the merged range.\<close>

definition touching :: "addr \<Rightarrow> memory_space \<Rightarrow> range_t set" where
  "touching a ms = set_option (FindFreeRange (a - 1) ms) \<union> set_option (FindFreeRange (a + 1) ms)"

lemma touching_bytes:
  assumes "ms_ok ms" "a \<notin> free_set ms" "a \<noteq> 0" "a \<noteq> - 1"
  shows "range_bytes (mk_range (merge_start a ms) (merge_end a ms)) =
           insert a (\<Union> (range_bytes ` touching a ms))"
    and "touching a ms \<subseteq> elems ms" and "merge_start a ms \<le> a" and "a \<le> merge_end a ms"
proof -
  have lo: "{merge_start a ms..a} = insert a (\<Union> (range_bytes ` set_option (FindFreeRange (a - 1) ms)))"
  proof (cases "FindFreeRange (a - 1) ms")
    case (Some r)
    then show ?thesis using range_below [OF assms(1-3) Some]
      by (auto simp: merge_start_def range_bytes_def word_le_pred_iff assms(3))
  qed (simp add: merge_start_def)
  have hi: "{a..merge_end a ms} = insert a (\<Union> (range_bytes ` set_option (FindFreeRange (a + 1) ms)))"
  proof (cases "FindFreeRange (a + 1) ms")
    case (Some r)
    then show ?thesis using range_above [OF assms(1,2,4) Some]
      by (auto simp: merge_end_def range_bytes_def word_Suc_le_iff assms(4))
  qed (simp add: merge_end_def)
  have se: "merge_start a ms \<le> a" "a \<le> merge_end a ms"
    using lo hi by (metis atLeastAtMost_iff insertI1)+
  show "merge_start a ms \<le> a" "a \<le> merge_end a ms" by (rule se)+
  have "{merge_start a ms..merge_end a ms} = {merge_start a ms..a} \<union> {a..merge_end a ms}"
    using se by auto
  then show "range_bytes (mk_range (merge_start a ms) (merge_end a ms)) =
      insert a (\<Union> (range_bytes ` touching a ms))"
    unfolding lo hi by (auto simp: range_bytes_def touching_def)
  show "touching a ms \<subseteq> elems ms"
    using find_elem [OF assms(1)] by (auto simp: touching_def)
qed

text \<open>Both touching ranges are erased, the lower one first.\<close>

lemma erase_opt:
  assumes ok: "ms_ok ms" and x: "set_option x \<subseteq> elems ms"
  obtains ms' where "(if x \<noteq> None then lift_fr (fr_erase_at x) ms else Inr ms) = Inr ms'" "ms_ok ms'"
    "elems ms' = elems ms - set_option x"
    "free_set ms' = free_set ms - \<Union> (range_bytes ` set_option x)" "only_free ms ms'"
proof (cases x)
  case None
  then show ?thesis using that [of ms] ok by simp
next
  case (Some r)
  then have "r \<in> elems ms" using x by simp
  from ms_erase [OF ok this] show ?thesis using that Some by auto
qed

lemma MergeFreeRange_eq:
  assumes ok: "ms_ok ms" and a: "a \<notin> free_set ms" and bnd: "a \<noteq> 0" "a \<noteq> - 1"
  shows "MergeFreeRange a ms =
     bindR (if FindFreeRange (a - 1) ms \<noteq> None then lift_fr (fr_erase_at (FindFreeRange (a - 1) ms)) ms else Inr ms)
     (\<lambda>m. bindR (if FindFreeRange (a + 1) ms \<noteq> None then lift_fr (fr_erase_at (FindFreeRange (a + 1) ms)) m else Inr m)
      (lift_fr (fr_insert (mk_range (merge_start a ms) (merge_end a ms)))))"
proof (cases "FindFreeRange (a + 1) ms")
  case (Some h)
  note hi = range_above [OF ok a bnd(2) Some]
  show ?thesis
  proof (cases "FindFreeRange (a - 1) ms")
    case None
    then show ?thesis using Some hi
      by (simp add: MergeFreeRange_def Let_def IsValidRange_def merge_start_def merge_end_def)
  next
    case lo: (Some l)
    then show ?thesis using Some hi
      by (simp add: MergeFreeRange_def Let_def IsValidRange_def merge_start_def merge_end_def bindR_assoc)
  qed
next
  case None
  show ?thesis
  proof (cases "FindFreeRange (a - 1) ms")
    case lo: (Some l)
    then show ?thesis using None range_below [OF ok a bnd(1) lo]
      by (simp add: MergeFreeRange_def Let_def IsValidRange_def merge_start_def merge_end_def)
  qed (simp add: None MergeFreeRange_def IsValidRange_def merge_start_def merge_end_def)
qed

lemma MergeFreeRange_ok:
  assumes ok: "ms_ok ms" and a: "a \<notin> free_set ms" and bnd: "a \<noteq> 0" "a \<noteq> - 1"
    and room: "insert a (free_set ms) \<noteq> UNIV"
  obtains ms' where "MergeFreeRange a ms = Inr ms'" "ms_ok ms'" "only_free ms ms'"
    "elems ms' = insert (mk_range (merge_start a ms) (merge_end a ms)) (elems ms - touching a ms)"
    "free_set ms' = insert a (free_set ms)"
proof -
  let ?l = "FindFreeRange (a - 1) ms" and ?h = "FindFreeRange (a + 1) ms"
  let ?v = "mk_range (merge_start a ms) (merge_end a ms)"
  note t = touching_bytes [OF ok a bnd]
  have lh: "set_option ?l \<subseteq> elems ms" "set_option ?h \<subseteq> elems ms" using t(2) by (auto simp: touching_def)
  have ne: "set_option ?l \<inter> set_option ?h = {}"
  proof -
    have "?l \<noteq> Some r" if h: "?h = Some r" for r
    proof
      assume l: "?l = Some r"
      have "a < a - 1" using range_above(3) [OF ok a bnd(2) h] range_below(2) [OF ok a bnd(1) l] by simp
      moreover have "a - 1 < a" by (simp add: word_pred_less_iff bnd)
      ultimately show False by (rule order.asym)
    qed
    then show ?thesis by auto
  qed
  obtain m1 where m1: "(if ?l \<noteq> None then lift_fr (fr_erase_at ?l) ms else Inr ms) = Inr m1" "ms_ok m1"
      "elems m1 = elems ms - set_option ?l"
      "free_set m1 = free_set ms - \<Union> (range_bytes ` set_option ?l)" "only_free ms m1"
    using erase_opt [OF ok lh(1)] .
  have h1: "set_option ?h \<subseteq> elems m1" using lh(2) ne m1(3) by auto
  obtain m2 where m2: "(if ?h \<noteq> None then lift_fr (fr_erase_at ?h) m1 else Inr m1) = Inr m2" "ms_ok m2"
      "elems m2 = elems m1 - set_option ?h"
      "free_set m2 = free_set m1 - \<Union> (range_bytes ` set_option ?h)" "only_free m1 m2"
    using erase_opt [OF m1(2) h1] .
  have sub: "\<Union> (range_bytes ` touching a ms) \<subseteq> free_set ms" using t(2) by (auto simp: free_set_elems)
  have f2: "free_set m2 = free_set ms - \<Union> (range_bytes ` touching a ms)"
    using m1(4) m2(4) by (auto simp: touching_def)
  have v: "range_ok ?v"
  proof -
    have "range_bytes ?v \<subseteq> insert a (free_set ms)" unfolding t(1) using sub by auto
    then have "range_bytes ?v \<noteq> UNIV" using room by auto
    then show ?thesis using t(3,4) by (auto simp: range_ok_def range_bytes_def)
  qed
  have dis: "range_bytes ?v \<inter> free_set m2 = {}" using t(1) f2 a by auto
  obtain m3 where m3: "lift_fr (fr_insert ?v) m2 = Inr m3" "ms_ok m3"
      "elems m3 = insert ?v (elems m2)" "free_set m3 = range_bytes ?v \<union> free_set m2" "only_free m2 m3"
    using ms_insert [OF m2(2) v dis] .
  show ?thesis
  proof (rule that)
    show "MergeFreeRange a ms = Inr m3"
      unfolding MergeFreeRange_eq [OF ok a bnd] m1(1) m2(1) bindR_Inr by (rule m3(1))
    show "ms_ok m3" by (rule m3(2))
    show "only_free ms m3" using m1(5) m2(5) m3(5) only_free_trans by blast
    show "elems m3 = insert ?v (elems ms - touching a ms)"
      using m1(3) m2(3) m3(3) by (auto simp: touching_def)
    show "free_set m3 = insert a (free_set ms)" using m3(4) f2 t(1) sub by auto
  qed
qed

subsection \<open>Free ranges that touch are one range\<close>

lemma coalesced_iff:
  assumes ok: "ms_ok ms"
  shows "coalesced ms \<longleftrightarrow> (\<forall>x. x \<noteq> - 1 \<longrightarrow> x \<in> free_set ms \<longrightarrow> x + 1 \<in> free_set ms \<longrightarrow>
           (\<exists>r \<in> elems ms. x \<in> range_bytes r \<and> x + 1 \<in> range_bytes r))"
proof
  assume c: "coalesced ms"
  show "\<forall>x. x \<noteq> - 1 \<longrightarrow> x \<in> free_set ms \<longrightarrow> x + 1 \<in> free_set ms \<longrightarrow>
           (\<exists>r \<in> elems ms. x \<in> range_bytes r \<and> x + 1 \<in> range_bytes r)"
  proof (intro allI impI)
    fix x assume x: "x \<noteq> - 1" "x \<in> free_set ms" "x + 1 \<in> free_set ms"
    then obtain r q where r: "r \<in> elems ms" "x \<in> range_bytes r" and q: "q \<in> elems ms" "x + 1 \<in> range_bytes q"
      by (auto simp: free_set_elems)
    show "\<exists>r \<in> elems ms. x \<in> range_bytes r \<and> x + 1 \<in> range_bytes r"
    proof (rule ccontr)
      assume no: "\<not> ?thesis"
      then have "x + 1 \<notin> range_bytes r" using r by blast
      moreover have "x < x + 1" using x(1) by (simp add: word_less_Suc_le)
      ultimately have "r_end r = x" using r(2) x(1) by (auto simp: range_bytes_def word_Suc_le_iff)
      moreover have "\<not> r_start q \<le> x" using no q x(1) by (auto simp: range_bytes_def word_Suc_le_iff)
      then have "r_start q = x + 1"
        using q(2) x(1) by (simp add: range_bytes_def word_Suc_le_iff [symmetric] not_le)
      ultimately show False using c r(1) q(1) x(1) unfolding coalesced_def elems_def by metis
    qed
  qed
next
  assume same: "\<forall>x. x \<noteq> - 1 \<longrightarrow> x \<in> free_set ms \<longrightarrow> x + 1 \<in> free_set ms \<longrightarrow>
           (\<exists>r \<in> elems ms. x \<in> range_bytes r \<and> x + 1 \<in> range_bytes r)"
  have "r_end r + 1 \<noteq> r_start q"
    if rq: "r \<in> elems ms" "q \<in> elems ms" "r_end r \<noteq> - 1" for r q
  proof
    assume e: "r_end r + 1 = r_start q"
    have in_r: "r_end r \<in> range_bytes r" and in_q: "r_end r + 1 \<in> range_bytes q"
      using elems_ok [OF ok rq(1)] elems_ok [OF ok rq(2)] e
      by (auto simp: range_ok_def range_bytes_def)
    then obtain p where p: "p \<in> elems ms" "r_end r \<in> range_bytes p" "r_end r + 1 \<in> range_bytes p"
      using same rq by (fastforce simp: free_set_elems)
    have "p = r" by (rule elems_unique [OF ok p(1) rq(1) p(2) in_r])
    then show False using p(3) rq(3) by (auto simp: range_bytes_def word_Suc_le_iff)
  qed
  then show "coalesced ms" by (auto simp: coalesced_def elems_def)
qed

lemma coalesced_init: "coalesced ms_init"
  by (simp add: coalesced_def ms_init_def FreeRanges_init_def)

lemma SplitFreeRange_coalesced:
  assumes ok: "ms_ok ms" and c: "coalesced ms" and s: "SplitFreeRange a ms = Inr ms'"
  shows "coalesced ms'"
proof -
  have a: "a \<in> free_set ms" by (rule SplitFreeRange_Inr(1) [OF ok s])
  obtain m r where m: "SplitFreeRange a ms = Inr m" "ms_ok m" "only_free ms m" "r \<in> elems ms"
      "a \<in> range_bytes r" "elems m = elems ms - {r} \<union> split_parts r a" "free_set m = free_set ms - {a}"
    using SplitFreeRange_ok [OF ok a] .
  have "\<exists>p \<in> elems m. x \<in> range_bytes p \<and> x + 1 \<in> range_bytes p"
    if x: "x \<noteq> - 1" "x \<in> free_set m" "x + 1 \<in> free_set m" for x
  proof -
    from x m(7) have x': "x \<noteq> a" "x + 1 \<noteq> a" "x \<in> free_set ms" "x + 1 \<in> free_set ms" by auto
    with c x(1) obtain q where q: "q \<in> elems ms" "x \<in> range_bytes q" "x + 1 \<in> range_bytes q"
      unfolding coalesced_iff [OF ok] by blast
    show ?thesis
    proof (cases "q = r")
      case True
      have rx: "r_start r \<le> x" "x < r_end r" and ra: "r_start r \<le> a" "a \<le> r_end r"
        using q m(5) x(1) True by (simp_all add: range_bytes_def word_Suc_le_iff)
      have "\<exists>p \<in> split_parts r a. x \<in> range_bytes p \<and> x + 1 \<in> range_bytes p"
      proof (cases "x < a")
        case True
        then have xa: "x + 1 < a" "r_start r < a" "a \<noteq> 0"
          using word_Suc_le_iff [OF x(1), of a] x'(2) rx(1) by auto
        then have "mk_range (r_start r) (a - 1) \<in> split_parts r a"
          using rx ra by (auto simp: split_parts_def)
        moreover have "x \<in> range_bytes (mk_range (r_start r) (a - 1))"
            "x + 1 \<in> range_bytes (mk_range (r_start r) (a - 1))"
          using xa rx True q(3) \<open>q = r\<close> by (auto simp: range_bytes_def word_le_pred_iff)
        ultimately show ?thesis by blast
      next
        case False
        then have ax: "a < x" using x'(1) by simp
        then have am: "a \<noteq> - 1" by (rule word_less_max)
        have "a < r_end r" using ax rx by order
        then have "mk_range (a + 1) (r_end r) \<in> split_parts r a"
          using rx ra by (auto simp: split_parts_def)
        moreover have "a < x + 1" using ax x(1) by (simp add: word_less_Suc_le)
        then have "x \<in> range_bytes (mk_range (a + 1) (r_end r))"
            "x + 1 \<in> range_bytes (mk_range (a + 1) (r_end r))"
          using ax rx q(3) \<open>q = r\<close> by (auto simp: range_bytes_def word_Suc_le_iff am)
        ultimately show ?thesis by blast
      qed
      then show ?thesis using m(6) by auto
    qed (use q m(6) in auto)
  qed
  then show ?thesis using s m(1,2) by (simp add: coalesced_iff)
qed

lemma MergeFreeRange_coalesced:
  assumes ok: "ms_ok ms" and a: "a \<notin> free_set ms" and bnd: "a \<noteq> 0" "a \<noteq> - 1"
    and room: "insert a (free_set ms) \<noteq> UNIV" and c: "coalesced ms"
    and s: "MergeFreeRange a ms = Inr ms'"
  shows "coalesced ms'"
proof -
  obtain m where m: "MergeFreeRange a ms = Inr m" "ms_ok m" "only_free ms m"
    "elems m = insert (mk_range (merge_start a ms) (merge_end a ms)) (elems ms - touching a ms)"
    "free_set m = insert a (free_set ms)"
    using MergeFreeRange_ok [OF ok a bnd room] .
  let ?v = "mk_range (merge_start a ms) (merge_end a ms)"
  note t = touching_bytes [OF ok a bnd]
  have near: "x \<in> range_bytes ?v" if "x = a \<or> (x \<in> free_set ms \<and> (x = a + 1 \<or> x = a - 1))" for x
  proof (cases "x = a")
    case False
    then have x: "x \<in> free_set ms" "x = a + 1 \<or> x = a - 1" using that by auto
    then obtain r where "FindFreeRange x ms = Some r" using FindFreeRange_None [OF ok, of x] by auto
    then have "r \<in> touching a ms" "x \<in> range_bytes r"
      using x(2) find_elem [OF ok, of x r] by (auto simp: touching_def)
    then show ?thesis unfolding t(1) by auto
  qed (simp add: t(1))
  have "\<exists>p \<in> elems m. x \<in> range_bytes p \<and> x + 1 \<in> range_bytes p"
    if x: "x \<noteq> - 1" "x \<in> free_set m" "x + 1 \<in> free_set m" for x
  proof (cases "x = a \<or> x + 1 = a")
    case True
    then have "x \<in> range_bytes ?v" "x + 1 \<in> range_bytes ?v"
      using near [of x] near [of "x + 1"] x m(5) by auto
    then show ?thesis using m(4) by auto
  next
    case False
    then obtain q where q: "q \<in> elems ms" "x \<in> range_bytes q" "x + 1 \<in> range_bytes q"
      using c x m(5) unfolding coalesced_iff [OF ok] by blast
    show ?thesis
    proof (cases "q \<in> touching a ms")
      case True
      then have "x \<in> range_bytes ?v" "x + 1 \<in> range_bytes ?v" using q(2,3) unfolding t(1) by auto
      then show ?thesis using m(4) by auto
    qed (use q m(4) in auto)
  qed
  then show ?thesis using s m(1,2) by (simp add: coalesced_iff)
qed

text \<open>The set of free addresses determines the free ranges.\<close>

lemma coalesced_bounds:
  assumes ok: "ms_ok A" and c: "coalesced A" and sub: "free_set B \<subseteq> free_set A"
    and r: "r \<in> elems A" and q: "q \<in> elems B" and x: "x \<in> range_bytes r" "x \<in> range_bytes q"
  shows "r_start r \<le> r_start q" "r_end q \<le> r_end r"
proof -
  have inA: "y \<in> free_set A" if "y \<in> range_bytes r \<or> y \<in> range_bytes q" for y
    using that r q sub by (auto simp: free_set_elems)
  have xr: "r_start r \<le> x" "x \<le> r_end r" "r_start q \<le> x" "x \<le> r_end q"
    using x by (simp_all add: range_bytes_def)
  show "r_start r \<le> r_start q"
  proof (rule ccontr)
    assume "\<not> ?thesis"
    then have lt: "r_start q < r_start r" by simp
    then have s0: "r_start r \<noteq> 0" by (rule word_greater_zero)
    let ?y = "r_start r - 1"
    have y: "?y < r_start r" "r_start q \<le> ?y" "?y \<noteq> - 1"
      using lt s0 by (auto simp: word_pred_less_iff word_le_pred_iff)
    then have "?y \<in> free_set A" "?y + 1 \<in> free_set A"
      using xr by (auto intro!: inA simp: range_bytes_def)
    then obtain p where p: "p \<in> elems A" "?y \<in> range_bytes p" "?y + 1 \<in> range_bytes p"
      using c y(3) unfolding coalesced_iff [OF ok] by blast
    have "p = r" by (rule elems_unique [OF ok p(1) r p(3)]) (use xr in \<open>simp add: range_bytes_def\<close>)
    then have "r_start r \<le> ?y" using p(2) by (simp add: range_bytes_def)
    then show False using y(1) by (simp add: not_le [symmetric])
  qed
  show "r_end q \<le> r_end r"
  proof (rule ccontr)
    assume "\<not> ?thesis"
    then have lt: "r_end r < r_end q" by simp
    then have m: "r_end r \<noteq> - 1" by (rule word_less_max)
    let ?y = "r_end r"
    have y: "?y < ?y + 1" "?y + 1 \<le> r_end q" using lt m by (auto simp: word_Suc_le_iff word_less_Suc_le)
    then have "?y \<in> free_set A" "?y + 1 \<in> free_set A"
      using xr by (auto intro!: inA simp: range_bytes_def)
    then obtain p where p: "p \<in> elems A" "?y \<in> range_bytes p" "?y + 1 \<in> range_bytes p"
      using c m unfolding coalesced_iff [OF ok] by blast
    have "p = r" by (rule elems_unique [OF ok p(1) r p(2)]) (use xr in \<open>simp add: range_bytes_def\<close>)
    then show False using p(3) y(1) by (auto simp: range_bytes_def)
  qed
qed

lemma coalesced_unique:
  assumes "ms_ok A" "ms_ok B" "coalesced A" "coalesced B" "free_set A = free_set B"
  shows "by_address (free_ranges A) = by_address (free_ranges B)"
proof -
  have sub: "r \<in> elems B"
    if A: "ms_ok A" and B: "ms_ok B" and c: "coalesced A" "coalesced B" and eq: "free_set A = free_set B"
      and r: "r \<in> elems A" for A B r
  proof -
    have in_r: "r_start r \<in> range_bytes r"
      using elems_ok [OF A r] by (simp add: range_ok_def range_bytes_def)
    then obtain q where q: "q \<in> elems B" "r_start r \<in> range_bytes q"
      using r eq unfolding free_set_elems by blast
    have "r = q"
      using coalesced_bounds [OF A c(1) _ r q(1) in_r q(2)] coalesced_bounds [OF B c(2) _ q(1) r q(2) in_r] eq
      by (intro range_t_eqI) auto
    then show ?thesis using q(1) by simp
  qed
  have "elems A = elems B"
    using sub [OF assms] sub [OF assms(2,1,4,3) assms(5) [symmetric]] by blast
  then show ?thesis using assms(1,2) rs_ok_set_eq fr_ok_rs by (simp add: ms_ok_def elems_def)
qed

section \<open>The interface of a byte allocator\<close>

text \<open>
  What the placement code relies on: single addresses are taken out of the free space and
  given back, taking an address that is not free stops the program, and the free space
  changes by exactly that address. Address 0 is never part of the free space.
\<close>

locale byte_allocator =
  fixes take_a :: "addr \<Rightarrow> 's \<Rightarrow> 's result"
    and give_a :: "addr \<Rightarrow> 's \<Rightarrow> 's result"
    and free_a :: "'s \<Rightarrow> addr set"
    and invar :: "'s \<Rightarrow> bool"
  assumes take_free: "invar s \<Longrightarrow> a \<in> free_a s \<Longrightarrow>
        \<exists>s'. take_a a s = Inr s' \<and> invar s' \<and> free_a s' = free_a s - {a}"
    and take_busy: "invar s \<Longrightarrow> a \<notin> free_a s \<Longrightarrow> take_a a s = Inl AssertFail"
    and give_busy: "invar s \<Longrightarrow> 0 \<notin> free_a s \<Longrightarrow> a \<notin> free_a s \<Longrightarrow> a \<noteq> 0 \<Longrightarrow> a \<noteq> - 1 \<Longrightarrow>
        \<exists>s'. give_a a s = Inr s' \<and> invar s' \<and> free_a s' = insert a (free_a s)"
begin

lemma take_Inr:
  assumes "invar s" "take_a a s = Inr s'"
  shows "a \<in> free_a s" "invar s'" "free_a s' = free_a s - {a}"
proof -
  show a: "a \<in> free_a s" using assms take_busy [of s a] by force
  show "invar s'" "free_a s' = free_a s - {a}" using take_free [OF assms(1) a] assms(2) by auto
qed

lemma take_all:
  assumes "invar s" "distinct xs" "set xs \<subseteq> free_a s"
  shows "\<exists>s'. foldR take_a xs s = Inr s' \<and> invar s' \<and> free_a s' = free_a s - set xs"
  using assms
proof (induction xs arbitrary: s)
  case (Cons x xs)
  obtain t where t: "take_a x s = Inr t" "invar t" "free_a t = free_a s - {x}"
    using take_free [of s x] Cons.prems by auto
  have "set xs \<subseteq> free_a t" "distinct xs" using Cons.prems t(3) by auto
  then obtain s' where s': "foldR take_a xs t = Inr s'" "invar s'" "free_a s' = free_a t - set xs"
    using Cons.IH [OF t(2)] by blast
  have "foldR take_a (x # xs) s = Inr s'" using t(1) s'(1) by simp
  moreover have "free_a s' = free_a s - set (x # xs)" using s'(3) t(3) by auto
  ultimately show ?case using s'(2) by blast
qed simp

lemma take_all_stuck:
  assumes "invar s" "\<not> (distinct xs \<and> set xs \<subseteq> free_a s)"
  shows "foldR take_a xs s = Inl AssertFail"
  using assms
proof (induction xs arbitrary: s)
  case (Cons x xs)
  show ?case
  proof (cases "x \<in> free_a s")
    case True
    obtain t where t: "take_a x s = Inr t" "invar t" "free_a t = free_a s - {x}"
      using take_free [OF Cons.prems(1) True] by auto
    have "\<not> (distinct xs \<and> set xs \<subseteq> free_a t)" using Cons.prems(2) True t(3) by auto
    then show ?thesis using Cons.IH [OF t(2)] t(1) by simp
  qed (use take_busy [OF Cons.prems(1)] in simp)
qed simp

lemma give_all:
  assumes "invar s" "0 \<notin> free_a s" "distinct xs" "set xs \<inter> free_a s = {}" "0 \<notin> set xs" "- 1 \<notin> set xs"
  shows "\<exists>s'. foldR give_a xs s = Inr s' \<and> invar s' \<and> free_a s' = free_a s \<union> set xs"
  using assms
proof (induction xs arbitrary: s)
  case (Cons x xs)
  have x: "x \<notin> free_a s" "x \<noteq> 0" "x \<noteq> - 1" using Cons.prems by auto
  obtain t where t: "give_a x s = Inr t" "invar t" "free_a t = insert x (free_a s)"
    using give_busy [OF Cons.prems(1,2) x] by blast
  have "0 \<notin> free_a t" "set xs \<inter> free_a t = {}" using Cons.prems t(3) by auto
  then obtain s' where "foldR give_a xs t = Inr s'" "invar s'" "free_a s' = free_a t \<union> set xs"
    using Cons.IH [OF t(2)] Cons.prems(3,5,6) by auto
  then show ?case using t by auto
qed simp

text \<open>What is taken can be given back.\<close>

lemma give_after_take:
  assumes "invar s" "0 \<notin> free_a s" "a \<noteq> - 1" "take_a a s = Inr t"
  shows "\<exists>s'. give_a a t = Inr s' \<and> invar s' \<and> free_a s' = free_a s"
proof -
  note t = take_Inr [OF assms(1,4)]
  then have "0 \<notin> free_a t" "a \<notin> free_a t" "a \<noteq> 0" using assms(2) by auto
  from give_busy [OF t(2) this assms(3)] show ?thesis using t by auto
qed

end

interpretation ms: byte_allocator SplitFreeRange MergeFreeRange free_set ms_ok
proof unfold_locales
  fix s :: memory_space and a assume s: "ms_ok s"
  { assume a: "a \<in> free_set s"
    show "\<exists>s'. SplitFreeRange a s = Inr s' \<and> ms_ok s' \<and> free_set s' = free_set s - {a}"
      using SplitFreeRange_ok [OF s a] by metis }
  { assume "a \<notin> free_set s" then show "SplitFreeRange a s = Inl AssertFail"
      by (rule SplitFreeRange_busy [OF s]) }
  { assume z: "0 \<notin> free_set s" and a: "a \<notin> free_set s" "a \<noteq> 0" "a \<noteq> - 1"
    then have "insert a (free_set s) \<noteq> UNIV" by auto
    from MergeFreeRange_ok [OF s a this]
    show "\<exists>s'. MergeFreeRange a s = Inr s' \<and> ms_ok s' \<and> free_set s' = insert a (free_set s)" by metis }
qed

lemma set_loop_addrs:
  assumes "r_start r \<le> r_end r"
  shows "set (loop_addrs r) = range_bytes r - {r_end r}" "distinct (loop_addrs r)"
proof -
  let ?n = "unat (r_end r - r_start r)"
  have n: "?n \<le> 2 ^ 64" by (rule less_imp_le [OF unat_addr_less])
  show "distinct (loop_addrs r)" unfolding loop_addrs_def by (rule distinct_addrs [OF n])
  have u: "?n = unat (r_end r) - unat (r_start r)" using assms by (simp add: unat_sub)
  show "set (loop_addrs r) = range_bytes r - {r_end r}"
  proof (intro subset_antisym subsetI)
    fix x assume "x \<in> set (loop_addrs r)"
    then obtain i where i: "i < ?n" "x = r_start r + word_of_nat i"
      by (auto simp: loop_addrs_def set_addrs)
    have "unat (r_start r) + i < 2 ^ 64" using i(1) u unat_addr_less [of "r_end r"] by linarith
    then have "unat x = unat (r_start r) + i"
      unfolding i(2) by (simp add: unat_word_ariths unat_of_nat)
    then show "x \<in> range_bytes r - {r_end r}"
      using i(1) u by (auto simp: range_bytes_def word_le_nat_alt)
  next
    fix x assume x: "x \<in> range_bytes r - {r_end r}"
    then have lt: "unat (r_start r) \<le> unat x" "unat x < unat (r_end r)"
      by (auto simp: range_bytes_def word_le_nat_alt order_less_le word_unat_eq_iff)
    have "x = r_start r + word_of_nat (unat x - unat (r_start r))"
      using lt(1) by (simp add: of_nat_diff)
    then show "x \<in> set (loop_addrs r)"
      unfolding loop_addrs_def set_addrs
      by (rule image_eqI) (use lt u in simp)
  qed
qed

section \<open>Looking for a free range of a given size\<close>

text \<open>The bucket a request looks in.\<close>

definition req_bucket :: "int \<Rightarrow> nat" where
  "req_bucket sz = integerlog2ceil (ucast (word_of_int sz :: size_t))"

lemma unat_request:
  assumes "0 \<le> sz" "sz \<le> int_max"
  shows "unat (word_of_int sz :: size_t) = nat sz" "unat (word_of_int sz :: uint32) = nat sz"
    "ucast (word_of_int sz :: size_t) = (word_of_int sz :: uint32)"
proof -
  have "nat sz < 2 ^ 31" using assms by (simp add: int_max_def)
  then have "nat sz < 2 ^ 64" "nat sz < 2 ^ 32" by simp_all
  then show "unat (word_of_int sz :: size_t) = nat sz" "unat (word_of_int sz :: uint32) = nat sz"
    unfolding word_of_int_nat [OF assms(1)] by (simp_all only: unat_of_nat_64 unat_of_nat_32)
  then show "ucast (word_of_int sz :: size_t) = (word_of_int sz :: uint32)"
    using \<open>nat sz < 2 ^ 32\<close> by (simp add: word_unat_eq_iff unsigned_ucast_eq take_bit_nat_eq_self)
qed

lemma req_bucket_bounds:
  assumes "1 \<le> sz" "sz \<le> int_max"
  shows "nat sz \<le> 2 ^ req_bucket sz" "1 < sz \<Longrightarrow> 2 ^ (req_bucket sz - 1) < nat sz"
    "req_bucket sz < 32"
proof -
  have u: "unat (word_of_int sz :: uint32) = nat sz" using unat_request [of sz] assms by simp
  have eq: "req_bucket sz = integerlog2ceil (word_of_int sz)"
    using unat_request [of sz] assms by (simp add: req_bucket_def)
  have "0 < unat (word_of_int sz :: uint32)" "unat (word_of_int sz :: uint32) \<le> 2 ^ 31"
    using u assms by (simp_all add: int_max_def nat_le_iff)
  then show "nat sz \<le> 2 ^ req_bucket sz" "1 < sz \<Longrightarrow> 2 ^ (req_bucket sz - 1) < nat sz"
      "req_bucket sz < 32"
    using integerlog2ceil_bounds [of "word_of_int sz"] integerlog2ceil_less [of "word_of_int sz"] u assms
    unfolding eq by auto
qed

lemma req_bucket_1 [simp]: "req_bucket 1 = 0"
  by (simp add: req_bucket_def integerlog2ceil_def log2ceil_loop.simps [of 0])

lemma req_bucket_double:
  assumes "1 \<le> sz" "sz * 2 \<le> int_max"
  shows "req_bucket (sz * 2) = Suc (req_bucket sz)"
proof -
  have a: "nat (sz * 2) \<le> 2 ^ req_bucket (sz * 2)" "2 ^ (req_bucket (sz * 2) - 1) < nat (sz * 2)"
    and b: "nat sz \<le> 2 ^ req_bucket sz" "1 < sz \<Longrightarrow> 2 ^ (req_bucket sz - 1) < nat sz"
    using req_bucket_bounds [of sz] req_bucket_bounds [of "sz * 2"] assms by auto
  have d: "nat (sz * 2) = nat sz * 2" using assms by (simp add: nat_mult_distrib)
  have "(2::nat) ^ (req_bucket (sz * 2) - 1) < 2 ^ Suc (req_bucket sz)"
    using a(2) b(1) d unfolding power_Suc by linarith
  then have up: "req_bucket (sz * 2) - 1 < Suc (req_bucket sz)"
    by (rule power_less_imp_less_exp [rotated]) simp
  have "req_bucket sz < req_bucket (sz * 2)"
  proof (cases "sz = 1")
    case True
    have "req_bucket (sz * 2) \<noteq> 0"
    proof
      assume "req_bucket (sz * 2) = 0"
      with a(1) show False unfolding True by simp
    qed
    then show ?thesis using True by simp
  next
    case False
    then have s: "2 ^ (req_bucket sz - 1) < nat sz" using b(2) assms by simp
    have "req_bucket sz \<noteq> 0" using b(1) False assms by (cases "req_bucket sz") auto
    then have "(2::nat) ^ req_bucket sz = 2 * 2 ^ (req_bucket sz - 1)" by (cases "req_bucket sz") auto
    then have "(2::nat) ^ req_bucket sz < 2 ^ req_bucket (sz * 2)" using s a(1) d by linarith
    then show ?thesis by (rule power_less_imp_less_exp [rotated]) simp
  qed
  then show ?thesis using up by simp
qed

definition size_bucket :: "nat \<Rightarrow> memory_space \<Rightarrow> range_set" where
  "size_bucket b ms = by_size (free_ranges ms) ! b"

lemma size_bucket_iff: "ms_ok ms \<Longrightarrow> b < 32 \<Longrightarrow> set (size_bucket b ms) = {r \<in> elems ms. fr_bucket r = b}"
  by (simp add: ms_ok_def fr_ok_def size_bucket_def elems_def)

lemma request_fits:
  assumes "ms_ok ms" "1 \<le> sz" "sz \<le> int_max" "r \<in> set (size_bucket (req_bucket sz) ms)"
  shows "r \<in> elems ms" "fr_bucket r = req_bucket sz" "nat sz \<le> unat (getSize r)"
proof -
  have r: "r \<in> elems ms" "fr_bucket r = req_bucket sz"
    using assms size_bucket_iff [OF assms(1) req_bucket_bounds(3) [OF assms(2,3)]] by auto
  have "nat sz \<le> 2 ^ fr_bucket r" using req_bucket_bounds(1) [OF assms(2,3)] r(2) by simp
  also have "\<dots> \<le> unat (getSize r)" by (rule fr_bucket_size [OF elems_ok [OF assms(1) r(1)]])
  finally show "r \<in> elems ms" "fr_bucket r = req_bucket sz" "nat sz \<le> unat (getSize r)" using r by auto
qed

lemma getFreeRange_step:
  assumes ok: "ms_ok ms" and sz: "1 \<le> sz" "sz \<le> int_max"
  shows "getFreeRange rnd sz ms =
    (let v = take 101 (size_bucket (req_bucket sz) ms) in
     if v = [] then (if int_max < sz * 2 then Inl SignedOverflow else getFreeRange rnd (sz * 2) ms)
     else Inr (v ! (rnd mod length v)))"
proof -
  have len: "length (by_size (free_ranges ms)) = 32" using ok by (simp add: ms_ok_def fr_ok_def)
  have "1 \<le> (word_of_int sz :: size_t)"
    using unat_request(1) [of sz] sz by (simp add: word_le_nat_alt)
  then have b: "bySize (word_of_int sz) (free_ranges ms) = Inr (size_bucket (req_bucket sz) ms)"
    using req_bucket_bounds(3) [OF sz] len
    by (simp add: bySize_def Let_def size_bucket_def req_bucket_def)
  have fits: "list_all (\<lambda>r. ucast (word_of_int sz :: uint32) \<le> getSize r)
      (take 101 (size_bucket (req_bucket sz) ms))"
  proof -
    have "unat (ucast (word_of_int sz :: uint32) :: size_t) = nat sz"
      using unat_request [of sz] sz by (simp add: int_max_def unsigned_ucast_eq take_bit_nat_eq_self)
    then show ?thesis
      using request_fits(3) [OF ok sz] by (auto simp: list_all_iff word_le_nat_alt dest: in_set_takeD)
  qed
  show ?thesis
    using sz by (subst getFreeRange.simps) (simp add: Let_def b fits)
qed

lemma getFreeRange_spec:
  assumes ok: "ms_ok ms" and sz: "1 \<le> sz" "sz \<le> int_max"
  shows "case getFreeRange rnd sz ms of
      Inr r \<Rightarrow> r \<in> elems ms \<and> nat sz \<le> unat (getSize r) \<and>
        (\<exists>i. sz * 2 ^ i \<le> int_max \<and> fr_bucket r = req_bucket sz + i \<and>
          (\<forall>q \<in> elems ms. \<forall>j < i. fr_bucket q \<noteq> req_bucket sz + j))
    | Inl e \<Rightarrow> e = SignedOverflow \<and>
        (\<forall>q \<in> elems ms. \<forall>i. sz * 2 ^ i \<le> int_max \<longrightarrow> fr_bucket q \<noteq> req_bucket sz + i)"
  using sz
proof (induction "nat (int_max + 1 - sz)" arbitrary: sz rule: less_induct)
  case less
  let ?v = "take 101 (size_bucket (req_bucket sz) ms)"
  note step = getFreeRange_step [OF ok less.prems, of rnd]
  show ?case
  proof (cases "?v = []")
    case False
    then have "?v ! (rnd mod length ?v) \<in> set ?v" by (intro nth_mem mod_less_divisor) simp
    then have m: "?v ! (rnd mod length ?v) \<in> set (size_bucket (req_bucket sz) ms)" by (rule in_set_takeD)
    have "getFreeRange rnd sz ms = Inr (?v ! (rnd mod length ?v))"
      using False by (simp only: step Let_def if_False)
    then show ?thesis using request_fits [OF ok less.prems m] less.prems by (auto intro!: exI [of _ 0])
  next
    case True
    have none: "fr_bucket q \<noteq> req_bucket sz" if "q \<in> elems ms" for q
      using True that size_bucket_iff [OF ok req_bucket_bounds(3) [OF less.prems]] by auto
    show ?thesis
    proof (cases "int_max < sz * 2")
      case ov: True
      have "i = 0" if "sz * 2 ^ i \<le> int_max" for i
      proof (rule ccontr)
        assume "i \<noteq> 0"
        then have "(2::int) \<le> 2 ^ i" by (cases i) auto
        then have "sz * 2 \<le> sz * 2 ^ i" using less.prems by (intro mult_left_mono) auto
        then show False using that ov by linarith
      qed
      then have "fr_bucket q \<noteq> req_bucket sz + i" if "q \<in> elems ms" "sz * 2 ^ i \<le> int_max" for q i
        using none that by (metis add_0_right)
      then show ?thesis using True ov by (simp add: step Let_def)
    next
      case False
      have eq: "getFreeRange rnd sz ms = getFreeRange rnd (sz * 2) ms"
        using True False by (simp add: step Let_def)
      have IH: "case getFreeRange rnd (sz * 2) ms of
          Inr r \<Rightarrow> r \<in> elems ms \<and> nat (sz * 2) \<le> unat (getSize r) \<and>
            (\<exists>i. sz * 2 * 2 ^ i \<le> int_max \<and> fr_bucket r = req_bucket (sz * 2) + i \<and>
              (\<forall>q \<in> elems ms. \<forall>j < i. fr_bucket q \<noteq> req_bucket (sz * 2) + j))
        | Inl e \<Rightarrow> e = SignedOverflow \<and>
            (\<forall>q \<in> elems ms. \<forall>i. sz * 2 * 2 ^ i \<le> int_max \<longrightarrow> fr_bucket q \<noteq> req_bucket (sz * 2) + i)"
        using less.prems False by (intro less.hyps) auto
      have d: "req_bucket (sz * 2) = Suc (req_bucket sz)"
        using req_bucket_double less.prems False by simp
      show ?thesis
      proof (cases "getFreeRange rnd (sz * 2) ms")
        case (Inr r)
        then obtain i where i: "r \<in> elems ms" "nat (sz * 2) \<le> unat (getSize r)" "sz * 2 * 2 ^ i \<le> int_max"
            "fr_bucket r = req_bucket sz + Suc i" "\<forall>q \<in> elems ms. \<forall>j < i. fr_bucket q \<noteq> req_bucket sz + Suc j"
          using IH d by auto
        have "fr_bucket q \<noteq> req_bucket sz + j" if "q \<in> elems ms" "j < Suc i" for q j
          using that i(5) none by (cases j) auto
        moreover have "nat sz \<le> unat (getSize r)" using i(2) by simp
        moreover have "sz * 2 ^ Suc i \<le> int_max" using i(3) by (simp add: mult.assoc)
        ultimately show ?thesis unfolding eq Inr using i(1,4) by auto
      next
        case (Inl e)
        then have e: "e = SignedOverflow" "\<And>q i. q \<in> elems ms \<Longrightarrow> sz * 2 * 2 ^ i \<le> int_max \<Longrightarrow>
            fr_bucket q \<noteq> Suc (req_bucket sz + i)" using IH d by auto
        have "fr_bucket q \<noteq> req_bucket sz + i" if "q \<in> elems ms" "sz * 2 ^ i \<le> int_max" for q i
          using that e(2) [of q "i - 1"] none by (cases i) (auto simp: mult.assoc)
        then show ?thesis unfolding eq Inl using e(1) by auto
      qed
    qed
  qed
qed

lemma getFreeRange_0: "getFreeRange rnd 0 ms = getFreeRange rnd 1 ms"
  by (subst (1 2) getFreeRange.simps) (simp only: simp_thms if_True if_False add_0 zero_neq_one [symmetric])

section \<open>Writing bytes claims them\<close>

lemma ms_ok_update [simp]:
  "ms_ok (ms\<lparr>ms_bytes := f\<rparr>) = ms_ok ms" "free_set (ms\<lparr>ms_bytes := f\<rparr>) = free_set ms"
  "ms_ok (ms\<lparr>min_plopped := x, max_plopped := y\<rparr>) = ms_ok ms"
  "free_set (ms\<lparr>min_plopped := x, max_plopped := y\<rparr>) = free_set ms"
  "ms_ok (ms_put a b ms) = ms_ok ms" "free_set (ms_put a b ms) = free_set ms"
  by (simp_all add: ms_ok_def free_set_def ms_put_def)

lemma PlopByte_ok:
  assumes "ms_ok ms"
  shows "\<exists>ms'. PlopByte a b ms = Inr ms' \<and> ms_ok ms' \<and> free_set ms' = free_set ms - {a} \<and>
           ms_bytes ms' = (ms_bytes ms)(a \<mapsto> b) \<and>
           min_plopped ms' = min a (min_plopped ms) \<and> max_plopped ms' = max a (max_plopped ms) \<and>
           original_free_ranges ms' = original_free_ranges ms"
proof -
  let ?ms = "ms\<lparr>min_plopped := min a (min_plopped ms), max_plopped := max a (max_plopped ms)\<rparr>"
  have ok: "ms_ok ?ms" using assms by simp
  show ?thesis
  proof (cases "a \<in> free_set ms")
    case True
    then have "a \<in> free_set ?ms" by simp
    then obtain m r where m: "SplitFreeRange a ?ms = Inr m" "ms_ok m" "only_free ?ms m" "r \<in> elems ?ms"
        "a \<in> range_bytes r" "elems m = elems ?ms - {r} \<union> split_parts r a" "free_set m = free_set ?ms - {a}"
      using SplitFreeRange_ok [OF ok] by metis
    have "FindFreeRange a ?ms \<noteq> None" using FindFreeRange_None [OF ok, of a] True by simp
    then have "PlopByte a b ms = Inr (ms_put a b m)"
      using m(1) by (simp add: PlopByte_def Let_def IsValidRange_def)
    moreover have "ms_bytes (ms_put a b m) = (ms_bytes ms)(a \<mapsto> b)"
      using only_freeD(1) [OF m(3)] by (simp add: ms_put_def)
    ultimately show ?thesis using m(2,7) only_freeD [OF m(3)] by (simp add: ms_put_def)
  next
    case False
    then have "FindFreeRange a ?ms = None" using FindFreeRange_None [OF ok, of a] by simp
    then have "PlopByte a b ms = Inr (ms_put a b ?ms)"
      by (simp add: PlopByte_def Let_def IsValidRange_def)
    then show ?thesis using False assms by (simp add: ms_put_def)
  qed
qed

lemma PlopBytes_ok:
  assumes "ms_ok ms" "length bs \<le> 2 ^ 64"
  shows "\<exists>ms'. PlopBytes a bs ms = Inr ms' \<and> ms_ok ms' \<and>
           free_set ms' = free_set ms - set (addrs a (length bs)) \<and>
           ms_bytes ms' = ms_bytes ms ++ map_of (zip (addrs a (length bs)) bs) \<and>
           original_free_ranges ms' = original_free_ranges ms"
  using assms
proof (induction bs arbitrary: a ms)
  case (Cons b bs)
  obtain m where m: "PlopByte a b ms = Inr m" "ms_ok m" "free_set m = free_set ms - {a}"
      "ms_bytes m = (ms_bytes ms)(a \<mapsto> b)" "original_free_ranges m = original_free_ranges ms"
    using PlopByte_ok [OF Cons.prems(1)] by blast
  obtain m' where m': "PlopBytes (a + 1) bs m = Inr m'" "ms_ok m'"
      "free_set m' = free_set m - set (addrs (a + 1) (length bs))"
      "ms_bytes m' = ms_bytes m ++ map_of (zip (addrs (a + 1) (length bs)) bs)"
      "original_free_ranges m' = original_free_ranges m"
    using Cons.IH [OF m(2), of "a + 1"] Cons.prems(2) by auto
  have "distinct (addrs a (length (b # bs)))" by (rule distinct_addrs [OF Cons.prems(2)])
  then have "a \<notin> set (addrs (a + 1) (length bs))" by (simp add: addrs_Suc)
  then have "a \<notin> dom (map_of (zip (addrs (a + 1) (length bs)) bs))" by (simp add: dom_map_of_zip)
  then have "ms_bytes m' = ms_bytes ms ++ map_of (zip (addrs a (length (b # bs))) (b # bs))"
    unfolding m'(4) m(4) by (simp add: addrs_Suc map_add_upd_left)
  moreover have "free_set m' = free_set ms - set (addrs a (length (b # bs)))"
    using m'(3) m(3) by (auto simp: addrs_Suc)
  ultimately show ?case using m(1,5) m'(1,2,5) by auto
qed simp

lemma PlopBytes_peek:
  assumes "ms_ok ms" "length bs \<le> 2 ^ 64" "PlopBytes a bs ms = Inr ms'"
  shows "i < length bs \<Longrightarrow> ms_peek (a + of_nat i) ms' = bs ! i"
    and "x \<notin> set (addrs a (length bs)) \<Longrightarrow> ms_peek x ms' = ms_peek x ms"
proof -
  have b: "ms_bytes ms' = ms_bytes ms ++ map_of (zip (addrs a (length bs)) bs)"
    using PlopBytes_ok [OF assms(1,2), of a] assms(3) by auto
  { assume i: "i < length bs"
    have "map_of (zip (addrs a (length bs)) bs) (addrs a (length bs) ! i) = Some (bs ! i)"
      using distinct_addrs [OF assms(2)] i by (intro map_of_zip_nth) auto
    then show "ms_peek (a + of_nat i) ms' = bs ! i"
      using i by (simp add: ms_peek_def b addrs_def) }
  { assume "x \<notin> set (addrs a (length bs))"
    then have "map_of (zip (addrs a (length bs)) bs) x = None" by (simp add: map_of_zip_is_None)
    then show "ms_peek x ms' = ms_peek x ms" by (simp only: ms_peek_def b map_add_def option.case) }
qed

lemma merge_all_coalesced:
  assumes "ms_ok ms" "coalesced ms" "0 \<notin> free_set ms" "distinct xs" "set xs \<inter> free_set ms = {}"
    "0 \<notin> set xs" "- 1 \<notin> set xs" "foldR MergeFreeRange xs ms = Inr ms'"
  shows "coalesced ms'"
  using assms
proof (induction xs arbitrary: ms)
  case (Cons x xs)
  have x: "x \<notin> free_set ms" "x \<noteq> 0" "x \<noteq> - 1" "insert x (free_set ms) \<noteq> UNIV" using Cons.prems by auto
  obtain t where t: "MergeFreeRange x ms = Inr t" "ms_ok t" "free_set t = insert x (free_set ms)"
    using ms.give_busy [OF Cons.prems(1,3) x(1-3)] by blast
  have "coalesced t" by (rule MergeFreeRange_coalesced [OF Cons.prems(1) x Cons.prems(2) t(1)])
  then show ?case using Cons.IH [OF t(2)] Cons.prems t by auto
qed simp

section \<open>Properties\<close>

text \<open>A memory space with one free range, for the witnesses.\<close>

definition sample_space :: memory_space where
  "sample_space = ms_init\<lparr>free_ranges := FreeRanges_init\<lparr>
     by_address := [mk_range 0x100 0x1ff],
     by_size := (replicate 32 [])[8 := [mk_range 0x100 0x1ff]]\<rparr>\<rparr>"

lemma sample_bucket: "fr_bucket (mk_range 0x100 0x1ff) = 8"
  by (simp add: fr_bucket_def getSize_def integerlog2floor.simps Let_def)

lemma sample_space_ok:
  "ms_ok sample_space" "coalesced sample_space" "free_set sample_space = {0x100..0x1ff}"
  using sample_bucket
  by (auto simp: sample_space_def ms_ok_def fr_ok_def rs_ok_def range_ok_def nth_list_update
      coalesced_def free_set_def fr_bytes_def range_bytes_def ms_init_def FreeRanges_init_def)

text \<open>C11: \<open>SplitFreeRange(addr)\<close> claims exactly one address. When the address is free the
  call returns, the free addresses are those before it without \<open>addr\<close>, both views of the
  free ranges (by address and by size) stay consistent, ranges that did not touch still do
  not, and nothing but the free ranges changes. When the address is not free the call fails
  its assertion.\<close>

theorem SplitFreeRange_refines:
  assumes "ms_ok ms"
  shows "case SplitFreeRange a ms of
      Inr ms' \<Rightarrow> IsByteFree a ms \<and> ms_ok ms' \<and> free_set ms' = free_set ms - {a} \<and>
        (coalesced ms \<longrightarrow> coalesced ms') \<and> only_free ms ms'
    | Inl e \<Rightarrow> e = AssertFail \<and> \<not> IsByteFree a ms"
proof (cases "SplitFreeRange a ms")
  case (Inl e)
  then show ?thesis using ms.take_free [OF assms, of a] ms.take_busy [OF assms, of a]
    by (auto simp: IsByteFree_iff assms)
next
  case (Inr m)
  then show ?thesis
    using SplitFreeRange_Inr [OF assms Inr] SplitFreeRange_coalesced [OF assms _ Inr]
    by (simp add: IsByteFree_iff assms)
qed

theorem SplitFreeRange_refines_witness:
  "\<exists>m. SplitFreeRange 0x180 sample_space = Inr m \<and> free_set m = {0x100..0x1ff} - {0x180}"
  using SplitFreeRange_refines [OF sample_space_ok(1), of "0x180"]
  by (auto simp: IsByteFree_iff sample_space_ok split: sum.splits)





text \<open>C14: \<open>getFreeRange(size)\<close> for a positive \<open>size\<close> terminates without failing its own
  assertion. What it returns is a free range with room for \<open>size\<close> bytes, from the first
  non-empty bucket at or above the rounded-up logarithm of \<open>size\<close>, for every value of
  \<open>std::rand()\<close>. Otherwise every bucket it looked in was empty and the doubled request left
  the range of \<open>int\<close>.\<close>

theorem getFreeRange_sound:
  assumes "ms_ok ms" and "1 \<le> sz" and "sz \<le> int_max"
  shows "case getFreeRange rnd sz ms of
      Inr r \<Rightarrow> r \<in> set (by_address (free_ranges ms)) \<and> nat sz \<le> unat (getSize r) \<and>
        (\<exists>i. sz * 2 ^ i \<le> int_max \<and> fr_bucket r = req_bucket sz + i \<and>
          (\<forall>q \<in> set (by_address (free_ranges ms)). \<forall>j < i. fr_bucket q \<noteq> req_bucket sz + j))
    | Inl e \<Rightarrow> e = SignedOverflow \<and>
        (\<forall>q \<in> set (by_address (free_ranges ms)). \<forall>i. sz * 2 ^ i \<le> int_max \<longrightarrow> fr_bucket q \<noteq> req_bucket sz + i)"
  using getFreeRange_spec [OF assms] unfolding elems_def .

theorem getFreeRange_sound_witness:
  "getFreeRange 7 5 sample_space = Inr (mk_range 0x100 0x1ff)"
proof -
  have b: "req_bucket 5 = 3"
    by (simp add: req_bucket_def integerlog2ceil_def log2ceil_loop.simps)
  have el: "set (by_address (free_ranges sample_space)) = {mk_range 0x100 0x1ff}"
    by (simp add: sample_space_def)
  have le: "(5::int) * 2 ^ 5 \<le> int_max" "(1::int) \<le> 5" "(5::int) \<le> int_max"
    by (simp_all add: int_max_def)
  note spec = getFreeRange_sound [OF sample_space_ok(1) le(2,3), of 7, unfolded el b]
  show ?thesis
  proof (cases "getFreeRange 7 5 sample_space")
    case (Inl e)
    then have "\<forall>i. 5 * 2 ^ i \<le> int_max \<longrightarrow> fr_bucket (mk_range 0x100 0x1ff) \<noteq> 3 + i" using spec by simp
    from this [rule_format, OF le(1)] have "fr_bucket (mk_range 0x100 0x1ff) \<noteq> 3 + 5" .
    then show ?thesis by (simp add: sample_bucket)
  qed (use spec in simp)
qed

text \<open>A request for a power of two of bytes never reaches the last bucket, because the
  doubled \<open>int\<close> overflows first. When all free ranges are there, as the one open-ended range
  at the end of the address space can be, \<open>getFreeRange\<close> of 1, 2, 4, \<dots> bytes is undefined
  behaviour although there is room.\<close>

theorem getFreeRange_power_of_two_overflows:
  assumes "ms_ok ms" and "k \<le> 30"
    and "\<And>r. r \<in> set (by_address (free_ranges ms)) \<Longrightarrow> fr_bucket r = 31"
  shows "getFreeRange rnd (2 ^ k) ms = Inl SignedOverflow"
proof -
  have le: "(2::int) ^ k \<le> 2 ^ 30" using assms(2) by (intro power_increasing) auto
  then have k: "1 \<le> (2::int) ^ k" "(2::int) ^ k \<le> int_max" by (auto simp: int_max_def)
  have "nat (2 ^ k) = 2 ^ k" by (simp add: nat_power_eq)
  then have b: "req_bucket (2 ^ k) \<le> k"
  proof (cases "k = 0")
    case False
    then have "(1::int) < 2 ^ k" by simp
    then have "(2::nat) ^ (req_bucket (2 ^ k) - 1) < 2 ^ k"
      using req_bucket_bounds(2) [OF k] \<open>nat (2 ^ k) = 2 ^ k\<close> by simp
    then have "req_bucket (2 ^ k) - 1 < k" by (rule power_less_imp_less_exp [rotated]) simp
    then show ?thesis by simp
  qed simp
  show ?thesis
  proof (cases "getFreeRange rnd (2 ^ k) ms")
    case (Inl e)
    then show ?thesis using getFreeRange_spec [OF assms(1) k, of rnd] by simp
  next
    case (Inr r)
    then obtain i where i: "r \<in> elems ms" "(2::int) ^ k * 2 ^ i \<le> int_max"
        "fr_bucket r = req_bucket (2 ^ k) + i"
      using getFreeRange_spec [OF assms(1) k, of rnd] by auto
    then have "31 \<le> k + i" using b assms(3) by (simp add: elems_def)
    then have "(2::int) ^ 31 \<le> 2 ^ (k + i)" by (intro power_increasing) auto
    then show ?thesis using i(2) by (simp add: int_max_def power_add)
  qed
qed

text \<open>The free space after a program that ends at \<open>0x600000\<close>: one range to the last address.\<close>

definition tail_space :: memory_space where
  "tail_space = ms_init\<lparr>free_ranges := FreeRanges_init\<lparr>
     by_address := [mk_range 0x600000 (- 1)],
     by_size := (replicate 32 [])[31 := [mk_range 0x600000 (- 1)]]\<rparr>\<rparr>"

lemma tail_bucket: "fr_bucket (mk_range 0x600000 (- 1)) = 31"
  by (simp add: fr_bucket_def getSize_def integerlog2floor.simps Let_def)

lemma tail_space_ok: "ms_ok tail_space"
  using tail_bucket
  by (auto simp: tail_space_def ms_ok_def fr_ok_def rs_ok_def range_ok_def nth_list_update
      ms_init_def FreeRanges_init_def)

theorem getFreeRange_power_of_two_overflows_witness:
  "getFreeRange 0 4 tail_space = Inl SignedOverflow"
  using getFreeRange_power_of_two_overflows [OF tail_space_ok, of 2 0] tail_bucket
  by (simp add: tail_space_def)

text \<open>\<open>PlopBytes\<close> never fails: the addresses written stop being free (those that were free
  already stay so), every byte reads back at its address, every other address reads as
  before, and the free-range structures stay consistent.\<close>

theorem PlopBytes_writes:
  assumes "ms_ok ms" and "length bs \<le> 2 ^ 64"
  shows "\<exists>ms'. PlopBytes a bs ms = Inr ms' \<and> ms_ok ms' \<and>
           free_set ms' = free_set ms - set (addrs a (length bs)) \<and>
           (\<forall>i < length bs. ms_peek (a + of_nat i) ms' = bs ! i) \<and>
           (\<forall>x. x \<notin> set (addrs a (length bs)) \<longrightarrow> ms_peek x ms' = ms_peek x ms)"
proof -
  obtain ms' where "PlopBytes a bs ms = Inr ms'" "ms_ok ms'"
      "free_set ms' = free_set ms - set (addrs a (length bs))"
    using PlopBytes_ok [OF assms, of a] by blast
  then show ?thesis using PlopBytes_peek [OF assms] by blast
qed

theorem PlopBytes_writes_witness:
  "\<exists>ms'. PlopBytes 0x100 [0xe9, 1, 2, 3, 4] sample_space = Inr ms' \<and> ms_peek 0x104 ms' = 4 \<and>
     \<not> IsByteFree 0x104 ms'"
proof -
  let ?bs = "[0xe9, 1, 2, 3, 4] :: byte list"
  have len: "length ?bs = 5" "length ?bs \<le> 2 ^ 64" by simp_all
  obtain ms' where ms': "PlopBytes 0x100 ?bs sample_space = Inr ms'" "ms_ok ms'"
    "free_set ms' = free_set sample_space - set (addrs 0x100 5)"
    "\<forall>i < 5. ms_peek (0x100 + of_nat i) ms' = ?bs ! i"
    using PlopBytes_writes [OF sample_space_ok(1) len(2), of "0x100"] unfolding len(1) by blast
  have "ms_peek 0x104 ms' = 4" using ms'(4) [rule_format, of 4] by simp
  moreover have "0x104 \<in> set (addrs 0x100 5)" by (simp add: addrs_def upt_rec)
  ultimately show ?thesis using ms'(1-3) by (auto simp: IsByteFree_iff)
qed

end
