(* ===== verification/Zipr_IR.thy ===== *)
theory Zipr_IR
  imports Zipr_Prelude
begin

text \<open>
  The instructions of the program being rewritten. The rewriter holds pointers to the
  instruction objects of the IR; here an instruction is named by a number and \<open>ir\<close> maps
  names to objects. The database behind the IR is not part of this repository's sources.

  Code the rewriter adds itself is given to an assembler as text. The four forms it uses
  are kept as such (\<open>Asm\<close>); everything else is the bytes of the instruction.
\<close>

type_synonym iid = nat

datatype asm =
    Hlt
  | LeaSp int              \<comment> \<open>\<open>lea rsp, [rsp+n]\<close>\<close>
  | CmpSp int uint32       \<comment> \<open>\<open>cmp qword [rsp+n], v\<close>\<close>

datatype insn_text =
    DataBits "byte list"
  | Asm asm

record insn =
  i_text :: insn_text
  i_ft :: "iid option"           \<comment> \<open>fallthrough\<close>
  i_tgt :: "iid option"          \<comment> \<open>target of a direct branch\<close>
  i_ibta :: "addr option"        \<comment> \<open>indirect branch target address; \<open>Some 0\<close> is not pinned\<close>
  i_ibta_in_file :: bool         \<comment> \<open>that address has a file\<close>
  i_callback :: string
  i_function :: "nat option"

record ir =
  ir_insns :: "iid \<rightharpoonup> insn"
  ir_next :: iid

definition new_insn :: "insn_text \<Rightarrow> insn" where
  "new_insn t = \<lparr>i_text = t, i_ft = None, i_tgt = None, i_ibta = None, i_ibta_in_file = False,
     i_callback = '''', i_function = None\<rparr>"

definition the_insn :: "ir \<Rightarrow> iid \<Rightarrow> insn" where
  "the_insn f i = the (ir_insns f i)"

text \<open>\<open>addNewAssembly\<close> and \<open>addNewDataBits\<close>: a fresh instruction with nothing linked.\<close>

definition add_new :: "insn_text \<Rightarrow> ir \<Rightarrow> iid \<times> ir" where
  "add_new t f = (ir_next f,
     f\<lparr>ir_insns := (ir_insns f)(ir_next f \<mapsto> new_insn t), ir_next := Suc (ir_next f)\<rparr>)"

definition update_insn :: "iid \<Rightarrow> (insn \<Rightarrow> insn) \<Rightarrow> ir \<Rightarrow> ir" where
  "update_insn i u f = f\<lparr>ir_insns := (ir_insns f)(i := map_option u (ir_insns f i))\<rparr>"

definition set_ft :: "iid \<Rightarrow> iid option \<Rightarrow> ir \<Rightarrow> ir" where
  "set_ft i x = update_insn i (\<lambda>n. n\<lparr>i_ft := x\<rparr>)"

definition set_tgt :: "iid \<Rightarrow> iid option \<Rightarrow> ir \<Rightarrow> ir" where
  "set_tgt i x = update_insn i (\<lambda>n. n\<lparr>i_tgt := x\<rparr>)"

text \<open>\<open>getFallthrough\<close>, \<open>getTarget\<close>, \<open>getIndirectBranchTargetAddress\<close>, \<open>getFunction\<close>.\<close>

definition ft_of :: "ir \<Rightarrow> iid \<Rightarrow> iid option" where
  "ft_of f i = (case ir_insns f i of None \<Rightarrow> None | Some n \<Rightarrow> i_ft n)"

definition tgt_of :: "ir \<Rightarrow> iid \<Rightarrow> iid option" where
  "tgt_of f i = (case ir_insns f i of None \<Rightarrow> None | Some n \<Rightarrow> i_tgt n)"

definition ibta_of :: "ir \<Rightarrow> iid \<Rightarrow> addr option" where
  "ibta_of f i = (case ir_insns f i of None \<Rightarrow> None | Some n \<Rightarrow> i_ibta n)"

definition function_of :: "ir \<Rightarrow> iid \<Rightarrow> nat option" where
  "function_of f i = (case ir_insns f i of None \<Rightarrow> None | Some n \<Rightarrow> i_function n)"

text \<open>
  Fallthrough chains end: every instruction lies further from the end than its
  fallthrough. \<open>r\<close> witnesses that the fallthroughs have no cycle.
\<close>

definition ft_rank :: "ir \<Rightarrow> (iid \<Rightarrow> nat) \<Rightarrow> bool" where
  "ft_rank f r \<longleftrightarrow> (\<forall>i j. ft_of f i = Some j \<longrightarrow> r j < r i)"

lemma ft_rankD: "ft_rank f r \<Longrightarrow> ft_of f i = Some j \<Longrightarrow> r j < r i"
  by (simp add: ft_rank_def)

definition ir_fresh :: "ir \<Rightarrow> bool" where
  "ir_fresh f \<longleftrightarrow> (\<forall>i \<ge> ir_next f. ir_insns f i = None)"

text \<open>\<open>ir_extends f f'\<close>: \<open>f'\<close> has the instructions of \<open>f\<close> unchanged, and perhaps more.\<close>

definition ir_extends :: "ir \<Rightarrow> ir \<Rightarrow> bool" where
  "ir_extends f f' \<longleftrightarrow> ir_next f \<le> ir_next f' \<and> (\<forall>i < ir_next f. ir_insns f' i = ir_insns f i)"

lemma ir_extends_refl [simp]: "ir_extends f f"
  by (simp add: ir_extends_def)

lemma ir_extends_trans: "ir_extends f g \<Longrightarrow> ir_extends g h \<Longrightarrow> ir_extends f h"
  by (simp add: ir_extends_def)

lemma update_insn_next [simp]: "ir_next (update_insn i u f) = ir_next f"
  by (simp add: update_insn_def)

lemma update_insn_get [simp]:
  "ir_insns (update_insn i u f) j = (if j = i then map_option u (ir_insns f i) else ir_insns f j)"
  by (simp add: update_insn_def)

lemma set_ft_simps [simp]:
  "ir_next (set_ft i x f) = ir_next f"
  "ir_insns (set_ft i x f) j = (if j = i then map_option (\<lambda>n. n\<lparr>i_ft := x\<rparr>) (ir_insns f i) else ir_insns f j)"
  by (simp_all add: set_ft_def)

lemma set_tgt_simps [simp]:
  "ir_next (set_tgt i x f) = ir_next f"
  "ir_insns (set_tgt i x f) j = (if j = i then map_option (\<lambda>n. n\<lparr>i_tgt := x\<rparr>) (ir_insns f i) else ir_insns f j)"
  by (simp_all add: set_tgt_def)

lemma ir_extends_get: "ir_extends f f' \<Longrightarrow> ir_fresh f \<Longrightarrow> ir_insns f i = Some n \<Longrightarrow> ir_insns f' i = Some n"
  unfolding ir_extends_def ir_fresh_def by (metis leI option.distinct(1))

end
