(* ===== verification/Zipr_Dollop.thy ===== *)
theory Zipr_Dollop
  imports Zipr_IR
begin

text \<open>
  Dollops (\<open>zipr/include/zipr_dollop.h\<close>, \<open>zipr/src/dollop.cpp\<close>): straight-line runs of
  instructions that are placed together. The objects live in a heap, because entries keep
  their identity when a dollop is split and other components hold pointers to them.
  Dollops and entries are named by numbers, counted up by \<open>new\<close>.

  The manager's sizing of an entry is a parameter (\<open>ev_esize\<close>), as is the architecture's
  \<open>TRAMPOLINE_SIZE\<close> (\<open>ev_tramp\<close>).
\<close>

type_synonym did = nat
type_synonym eid = nat

section \<open>Placeable\_t, DollopEntry\_t, Dollop\_t\<close>

record placeable =
  pl_placed :: bool
  pl_place :: addr

definition Place :: "addr \<Rightarrow> 'a placeable_scheme \<Rightarrow> 'a placeable_scheme result" where
  "Place place p = assertR (\<not> pl_placed p) (\<lambda>_. Inr (p\<lparr>pl_placed := True, pl_place := place\<rparr>))"

record dentry = placeable +
  de_insn :: iid
  de_tgt :: "did option"
  de_member :: "did option"

definition mk_dentry :: "iid \<Rightarrow> did option \<Rightarrow> dentry" where
  "mk_dentry insn member_of = \<lparr>pl_placed = False, pl_place = 0, de_insn = insn, de_tgt = None, de_member = member_of\<rparr>"

record dollop = placeable +
  d_entries :: "eid list"
  d_size :: nat
  d_ft :: "did option"              \<comment> \<open>\<open>m_fallthrough_dollop\<close>\<close>
  d_fb :: "did option"              \<comment> \<open>\<open>m_fallback_dollop\<close>\<close>
  d_ft_patched :: bool
  d_coalesced :: bool
  d_truncated :: bool

definition empty_dollop :: dollop where
  "empty_dollop = \<lparr>pl_placed = False, pl_place = 0, d_entries = [], d_size = 0, d_ft = None, d_fb = None,
     d_ft_patched = False, d_coalesced = False, d_truncated = False\<rparr>"

section \<open>The heap\<close>

record dheap =
  h_ents :: "eid \<rightharpoonup> dentry"
  h_dls :: "did \<rightharpoonup> dollop"
  h_enext :: eid
  h_dnext :: did

record denv =
  ev_ir :: ir
  ev_esize :: "iid \<Rightarrow> nat"          \<comment> \<open>\<open>determineDollopEntrySize\<close> of an entry with this instruction\<close>
  ev_tramp :: nat

definition ent :: "'a dheap_scheme \<Rightarrow> eid \<Rightarrow> dentry" where
  "ent h e = the (h_ents h e)"

definition dl :: "'a dheap_scheme \<Rightarrow> did \<Rightarrow> dollop" where
  "dl h d = the (h_dls h d)"

definition upd_ent :: "eid \<Rightarrow> (dentry \<Rightarrow> dentry) \<Rightarrow> 'a dheap_scheme \<Rightarrow> 'a dheap_scheme" where
  "upd_ent e u h = h\<lparr>h_ents := (h_ents h)(e \<mapsto> u (ent h e))\<rparr>"

definition upd_dl :: "did \<Rightarrow> (dollop \<Rightarrow> dollop) \<Rightarrow> 'a dheap_scheme \<Rightarrow> 'a dheap_scheme" where
  "upd_dl d u h = h\<lparr>h_dls := (h_dls h)(d \<mapsto> u (dl h d))\<rparr>"

definition alloc_dollop :: "'a dheap_scheme \<Rightarrow> did \<times> 'a dheap_scheme" where
  "alloc_dollop h = (h_dnext h, h\<lparr>h_dls := (h_dls h)(h_dnext h \<mapsto> empty_dollop), h_dnext := Suc (h_dnext h)\<rparr>)"

definition einsn :: "'a dheap_scheme \<Rightarrow> eid \<Rightarrow> iid" where
  "einsn h e = de_insn (ent h e)"

definition dinsns :: "'a dheap_scheme \<Rightarrow> did \<Rightarrow> iid list" where
  "dinsns h d = map (einsn h) (d_entries (dl h d))"

section \<open>Operations of Dollop\_t\<close>

definition setFallthroughDollop :: "did option \<Rightarrow> did \<Rightarrow> 'a dheap_scheme \<Rightarrow> 'a dheap_scheme" where
  "setFallthroughDollop x d = upd_dl d (\<lambda>D. D\<lparr>d_ft := x\<rparr>)"

definition setFallbackDollop :: "did option \<Rightarrow> did \<Rightarrow> 'a dheap_scheme \<Rightarrow> 'a dheap_scheme" where
  "setFallbackDollop x d = upd_dl d (\<lambda>D. D\<lparr>d_fb := x\<rparr>)"

definition setTargetDollop :: "did option \<Rightarrow> eid \<Rightarrow> 'a dheap_scheme \<Rightarrow> 'a dheap_scheme" where
  "setTargetDollop x e = upd_ent e (\<lambda>E. E\<lparr>de_tgt := x\<rparr>)"

text \<open>\<open>back()\<close> of an empty list is undefined.\<close>

definition CalculateSize :: "denv \<Rightarrow> did \<Rightarrow> 'a dheap_scheme \<Rightarrow> nat result" where
  "CalculateSize ev d h =
     (let total_dollop_entry_size = sum_list (map (ev_esize ev) (dinsns h d))
      in if d_ft_patched (dl h d) \<or> d_coalesced (dl h d) then Inr total_dollop_entry_size
      else if d_ft (dl h d) \<noteq> None then Inr (total_dollop_entry_size + ev_tramp ev)
      else if dinsns h d = [] then Inl OutOfBounds
      else if ft_of (ev_ir ev) (last (dinsns h d)) \<noteq> None then Inr (total_dollop_entry_size + ev_tramp ev)
      else Inr total_dollop_entry_size)"

definition reCalculateSize :: "denv \<Rightarrow> did \<Rightarrow> 'a dheap_scheme \<Rightarrow> 'a dheap_scheme result" where
  "reCalculateSize ev d h = bindR (CalculateSize ev d h) (\<lambda>n. Inr (upd_dl d (\<lambda>D. D\<lparr>d_size := n\<rparr>) h))"

definition setCoalesced :: "denv \<Rightarrow> bool \<Rightarrow> did \<Rightarrow> 'a dheap_scheme \<Rightarrow> 'a dheap_scheme result" where
  "setCoalesced ev coalesced d h = reCalculateSize ev d (upd_dl d (\<lambda>D. D\<lparr>d_coalesced := coalesced\<rparr>) h)"

definition setFallthroughPatched :: "denv \<Rightarrow> bool \<Rightarrow> did \<Rightarrow> 'a dheap_scheme \<Rightarrow> 'a dheap_scheme result" where
  "setFallthroughPatched ev patched d h = reCalculateSize ev d (upd_dl d (\<lambda>D. D\<lparr>d_ft_patched := patched\<rparr>) h)"

text \<open>The instructions the constructor's \<open>do\<close> loop visits; a cycle of fallthroughs never ends.\<close>

fun insn_run :: "nat \<Rightarrow> ir \<Rightarrow> iid \<Rightarrow> iid list result" where
  "insn_run 0 f loop = Inl OutOfFuel"
| "insn_run (Suc n) f loop =
     (case ft_of f loop of
        None \<Rightarrow> Inr [loop]
      | Some next \<Rightarrow> if ibta_of f next = None then mapR ((#) loop) (insn_run n f next) else Inr [loop])"

definition push_entry :: "did \<Rightarrow> iid \<Rightarrow> 'a dheap_scheme \<Rightarrow> 'a dheap_scheme" where
  "push_entry d i h =
     upd_dl d (\<lambda>D. D\<lparr>d_entries := d_entries D @ [h_enext h]\<rparr>)
       (h\<lparr>h_ents := (h_ents h)(h_enext h \<mapsto> mk_dentry i (Some d)), h_enext := Suc (h_enext h)\<rparr>)"

definition createNewDollop :: "nat \<Rightarrow> denv \<Rightarrow> iid \<Rightarrow> 'a dheap_scheme \<Rightarrow> (did \<times> 'a dheap_scheme) result" where
  "createNewDollop n ev start h =
     bindR (insn_run n (ev_ir ev) start) (\<lambda>insns.
     let (d, h) = alloc_dollop h;
         h = fold (push_entry d) insns h
     in mapR (\<lambda>h. (d, h)) (reCalculateSize ev d h))"

definition getFallthroughDollopEntry :: "'a dheap_scheme \<Rightarrow> did \<Rightarrow> eid \<Rightarrow> eid option" where
  "getFallthroughDollopEntry h d entry =
     (case dropWhile (\<lambda>e. e \<noteq> entry) (d_entries (dl h d)) of _ # e # _ \<Rightarrow> Some e | _ \<Rightarrow> None)"

text \<open>\<open>split\<close> moves the entries from the split point on, with their identity.\<close>

definition move_entry :: "did \<Rightarrow> eid \<Rightarrow> 'a dheap_scheme \<Rightarrow> 'a dheap_scheme" where
  "move_entry n e h = upd_dl n (\<lambda>D. D\<lparr>d_entries := d_entries D @ [e]\<rparr>) (upd_ent e (\<lambda>E. E\<lparr>de_member := Some n\<rparr>) h)"

definition split :: "denv \<Rightarrow> iid \<Rightarrow> did \<Rightarrow> 'a dheap_scheme \<Rightarrow> (did option \<times> 'a dheap_scheme) result" where
  "split ev split_point this h =
     (let kept = takeWhile (\<lambda>e. einsn h e \<noteq> split_point) (d_entries (dl h this));
          moved = dropWhile (\<lambda>e. einsn h e \<noteq> split_point) (d_entries (dl h this))
      in if moved = [] then Inr (None, h) else
      let (n, h) = alloc_dollop h;
          h = (case d_ft (dl h this) of None \<Rightarrow> h | Some x \<Rightarrow> setFallbackDollop (Some n) x h);
          h = setFallbackDollop (Some this) n h;
          h = setFallthroughDollop (d_ft (dl h this)) n h;
          h = setFallthroughDollop (Some n) this h;
          h = upd_dl this (\<lambda>D. D\<lparr>d_entries := kept\<rparr>) h;
          h = fold (move_entry n) moved h
      in bindR (reCalculateSize ev n h) (\<lambda>h.
         mapR (\<lambda>h. (Some n, h)) (reCalculateSize ev this h)))"

definition removeDollopEntries :: "denv \<Rightarrow> nat \<Rightarrow> nat \<Rightarrow> did \<Rightarrow> 'a dheap_scheme \<Rightarrow> 'a dheap_scheme result" where
  "removeDollopEntries ev from till d h =
     reCalculateSize ev d (upd_dl d (\<lambda>D. D\<lparr>d_entries := take from (d_entries D) @ drop till (d_entries D)\<rparr>) h)"

definition canCoalesce :: "ir \<Rightarrow> 'a dheap_scheme \<Rightarrow> did option \<Rightarrow> did option \<Rightarrow> bool result" where
  "canCoalesce f h first fallthrough =
     (case (first, fallthrough) of
        (Some a, Some b) \<Rightarrow>
          if dinsns h a = [] \<or> dinsns h b = [] then Inl OutOfBounds else
          let firstBackInsn = last (dinsns h a);
              fallthroughFrontInsn = hd (dinsns h b);
              fallthroughIsIBTA = (ibta_of f fallthroughFrontInsn \<noteq> None);
              sameFunction = (function_of f fallthroughFrontInsn = function_of f firstBackInsn)
          in Inr (\<not> fallthroughIsIBTA \<or> sameFunction)
      | _ \<Rightarrow> Inr True)"

section \<open>Reading the heap after an update\<close>

named_theorems heap  \<open>reads after updates of the dollop heap\<close>

lemma upd_dl_sel [heap]:
  "dl (upd_dl d u h) x = (if x = d then u (dl h d) else dl h x)" "ent (upd_dl d u h) = ent h"
  "h_ents (upd_dl d u h) = h_ents h" "h_enext (upd_dl d u h) = h_enext h" "h_dnext (upd_dl d u h) = h_dnext h"
  "h_dls (upd_dl d u h) x = (if x = d then Some (u (dl h d)) else h_dls h x)"
  "einsn (upd_dl d u h) = einsn h"
  by (auto simp: dl_def ent_def upd_dl_def einsn_def fun_eq_iff)

lemma upd_ent_sel [heap]:
  "ent (upd_ent e u h) x = (if x = e then u (ent h e) else ent h x)" "dl (upd_ent e u h) = dl h"
  "h_dls (upd_ent e u h) = h_dls h" "h_enext (upd_ent e u h) = h_enext h" "h_dnext (upd_ent e u h) = h_dnext h"
  "h_ents (upd_ent e u h) x = (if x = e then Some (u (ent h e)) else h_ents h x)"
  by (auto simp: dl_def ent_def upd_ent_def fun_eq_iff)

lemma alloc_dollop_sel [heap]:
  "fst (alloc_dollop h) = h_dnext h" "dl (snd (alloc_dollop h)) x = (if x = h_dnext h then empty_dollop else dl h x)"
  "ent (snd (alloc_dollop h)) = ent h" "h_ents (snd (alloc_dollop h)) = h_ents h"
  "h_enext (snd (alloc_dollop h)) = h_enext h" "h_dnext (snd (alloc_dollop h)) = Suc (h_dnext h)"
  "h_dls (snd (alloc_dollop h)) x = (if x = h_dnext h then Some empty_dollop else h_dls h x)"
  by (auto simp: alloc_dollop_def dl_def ent_def fun_eq_iff)

lemma setters_sel [heap]:
  "dl (setFallthroughDollop y d h) x = (if x = d then (dl h d)\<lparr>d_ft := y\<rparr> else dl h x)"
  "dl (setFallbackDollop y d h) x = (if x = d then (dl h d)\<lparr>d_fb := y\<rparr> else dl h x)"
  "ent (setFallthroughDollop y d h) = ent h" "ent (setFallbackDollop y d h) = ent h"
  "h_ents (setFallthroughDollop y d h) = h_ents h" "h_ents (setFallbackDollop y d h) = h_ents h"
  "h_enext (setFallthroughDollop y d h) = h_enext h" "h_enext (setFallbackDollop y d h) = h_enext h"
  "h_dnext (setFallthroughDollop y d h) = h_dnext h" "h_dnext (setFallbackDollop y d h) = h_dnext h"
  "h_dls (setFallthroughDollop y d h) x = (if x = d then Some ((dl h d)\<lparr>d_ft := y\<rparr>) else h_dls h x)"
  "h_dls (setFallbackDollop y d h) x = (if x = d then Some ((dl h d)\<lparr>d_fb := y\<rparr>) else h_dls h x)"
  by (simp_all add: setFallthroughDollop_def setFallbackDollop_def heap)

lemma setters_insns [heap]:
  "einsn (setFallthroughDollop y d h) = einsn h" "einsn (setFallbackDollop y d h) = einsn h"
  "dinsns (setFallthroughDollop y d h) x = dinsns h x" "dinsns (setFallbackDollop y d h) x = dinsns h x"
  by (simp_all add: einsn_def dinsns_def heap fun_eq_iff)

lemma setTargetDollop_sel [heap]:
  "dl (setTargetDollop y e h) = dl h" "h_dls (setTargetDollop y e h) = h_dls h"
  "h_enext (setTargetDollop y e h) = h_enext h" "h_dnext (setTargetDollop y e h) = h_dnext h"
  "ent (setTargetDollop y e h) x = (if x = e then (ent h e)\<lparr>de_tgt := y\<rparr> else ent h x)"
  "h_ents (setTargetDollop y e h) x = (if x = e then Some ((ent h e)\<lparr>de_tgt := y\<rparr>) else h_ents h x)"
  "einsn (setTargetDollop y e h) = einsn h" "dinsns (setTargetDollop y e h) = dinsns h"
  by (auto simp: setTargetDollop_def heap einsn_def dinsns_def fun_eq_iff)

lemma push_entry_sel [heap]:
  "dl (push_entry d i h) x = (if x = d then (dl h d)\<lparr>d_entries := d_entries (dl h d) @ [h_enext h]\<rparr> else dl h x)"
  "ent (push_entry d i h) x = (if x = h_enext h then mk_dentry i (Some d) else ent h x)"
  "h_enext (push_entry d i h) = Suc (h_enext h)" "h_dnext (push_entry d i h) = h_dnext h"
  "h_dls (push_entry d i h) x = (if x = d then Some ((dl h d)\<lparr>d_entries := d_entries (dl h d) @ [h_enext h]\<rparr>) else h_dls h x)"
  "h_ents (push_entry d i h) x = (if x = h_enext h then Some (mk_dentry i (Some d)) else h_ents h x)"
  by (simp_all add: push_entry_def heap) (simp_all add: dl_def ent_def)

lemma move_entry_sel [heap]:
  "dl (move_entry n e h) x = (if x = n then (dl h n)\<lparr>d_entries := d_entries (dl h n) @ [e]\<rparr> else dl h x)"
  "ent (move_entry n e h) x = (if x = e then (ent h e)\<lparr>de_member := Some n\<rparr> else ent h x)"
  "h_enext (move_entry n e h) = h_enext h" "h_dnext (move_entry n e h) = h_dnext h"
  "h_dls (move_entry n e h) x = (if x = n then Some ((dl h n)\<lparr>d_entries := d_entries (dl h n) @ [e]\<rparr>) else h_dls h x)"
  "h_ents (move_entry n e h) x = (if x = e then Some ((ent h e)\<lparr>de_member := Some n\<rparr>) else h_ents h x)"
  "einsn (move_entry n e h) = einsn h"
  by (simp_all add: move_entry_def heap) (simp_all add: heap einsn_def fun_eq_iff)

text \<open>Recomputing a size changes the size only.\<close>

lemma upd_size_insns [heap]: "dinsns (upd_dl d (\<lambda>D. D\<lparr>d_size := n\<rparr>) h) x = dinsns h x"
  by (simp add: dinsns_def heap)

lemma reCalculateSize_Inr: "reCalculateSize ev d h = Inr h' \<longleftrightarrow>
    (\<exists>n. CalculateSize ev d h = Inr n \<and> h' = upd_dl d (\<lambda>D. D\<lparr>d_size := n\<rparr>) h)"
  by (auto simp: reCalculateSize_def bindR_eq_Inr)

lemma CalculateSize_total: "dinsns h d \<noteq> [] \<or> d_ft (dl h d) \<noteq> None \<Longrightarrow> \<exists>n. CalculateSize ev d h = Inr n"
  by (auto simp: CalculateSize_def Let_def)

lemma CalculateSize_upd [heap]: "CalculateSize ev d (upd_dl x (\<lambda>D. D\<lparr>d_size := n\<rparr>) h) = CalculateSize ev d h"
  by (simp add: CalculateSize_def heap Let_def cong: if_cong)

text \<open>Building the entries of a new dollop.\<close>

lemma push_entries:
  assumes h': "h' = fold (push_entry d) insns h"
  shows "d_entries (dl h' d) = d_entries (dl h d) @ [h_enext h ..< h_enext h + length insns]"
    and "h_enext h' = h_enext h + length insns" and "h_dnext h' = h_dnext h"
    and "dl h' d = (dl h d)\<lparr>d_entries := d_entries (dl h' d)\<rparr>"
    and "\<And>x. x \<noteq> d \<Longrightarrow> dl h' x = dl h x" and "\<And>x. x \<noteq> d \<Longrightarrow> h_dls h' x = h_dls h x"
    and "\<And>e. e < h_enext h \<Longrightarrow> ent h' e = ent h e" and "\<And>e. e < h_enext h \<Longrightarrow> h_ents h' e = h_ents h e"
    and "\<And>k. k < length insns \<Longrightarrow> h_ents h' (h_enext h + k) = Some (mk_dentry (insns ! k) (Some d))"
    and "insns \<noteq> [] \<Longrightarrow> h_dls h' d \<noteq> None"
    and "\<And>e. h_enext h' \<le> e \<Longrightarrow> h_ents h' e = h_ents h e"
proof -
  have "d_entries (dl h' d) = d_entries (dl h d) @ [h_enext h ..< h_enext h + length insns] \<and>
    h_enext h' = h_enext h + length insns \<and> h_dnext h' = h_dnext h \<and>
    dl h' d = (dl h d)\<lparr>d_entries := d_entries (dl h' d)\<rparr> \<and>
    (\<forall>x. x \<noteq> d \<longrightarrow> dl h' x = dl h x \<and> h_dls h' x = h_dls h x) \<and>
    (\<forall>e < h_enext h. ent h' e = ent h e \<and> h_ents h' e = h_ents h e) \<and>
    (\<forall>k < length insns. h_ents h' (h_enext h + k) = Some (mk_dentry (insns ! k) (Some d))) \<and>
    (insns \<noteq> [] \<longrightarrow> h_dls h' d \<noteq> None) \<and> (\<forall>e \<ge> h_enext h'. h_ents h' e = h_ents h e)"
    unfolding h'
  proof (induction insns rule: rev_induct)
    case (snoc i insns)
    then show ?case by (auto simp: heap nth_append less_Suc_eq)
  qed simp
  then show "d_entries (dl h' d) = d_entries (dl h d) @ [h_enext h ..< h_enext h + length insns]"
    "h_enext h' = h_enext h + length insns" "h_dnext h' = h_dnext h"
    "dl h' d = (dl h d)\<lparr>d_entries := d_entries (dl h' d)\<rparr>"
    "\<And>x. x \<noteq> d \<Longrightarrow> dl h' x = dl h x" "\<And>x. x \<noteq> d \<Longrightarrow> h_dls h' x = h_dls h x"
    "\<And>e. e < h_enext h \<Longrightarrow> ent h' e = ent h e" "\<And>e. e < h_enext h \<Longrightarrow> h_ents h' e = h_ents h e"
    "\<And>k. k < length insns \<Longrightarrow> h_ents h' (h_enext h + k) = Some (mk_dentry (insns ! k) (Some d))"
    "insns \<noteq> [] \<Longrightarrow> h_dls h' d \<noteq> None" "\<And>e. h_enext h' \<le> e \<Longrightarrow> h_ents h' e = h_ents h e" by blast+
qed

end
