(* ===== verification/Zipr_DollopMan.thy ===== *)
theory Zipr_DollopMan
  imports Zipr_Dollop
begin

text \<open>
  The dollop manager (\<open>zipr/src/zipr_dollop_man.cpp\<close>, \<open>zipr/include/zipr_dollop_man.h\<close>) and
  \<open>ZiprImpl_t::CreateDollops\<close>. The manager's state extends the heap of dollops by the set
  of dollops, the map from instructions to dollops, and the patches of each dollop.

  \<open>m_dollops\<close> is a \<open>std::set\<close> of pointers, iterated in the order of the addresses the
  allocator chose. The list here is in the order of insertion; where the code iterates, the
  argument \<open>ord\<close> gives the order.
\<close>

record dpatch = placeable +
  dp_target :: "did option"

record dman = dheap +
  dm_dollops :: "did list"
  dm_map :: "iid \<rightharpoonup> did"                       \<comment> \<open>\<open>m_insn_to_dollop\<close>\<close>
  dm_patches :: "did option \<rightharpoonup> dpatch list"    \<comment> \<open>\<open>m_patches_to_dollops\<close>\<close>
  dm_refresh_stats :: bool
  dm_total_entries :: nat
  dm_total_dollops :: nat
  dm_truncated_dollops :: nat

definition dman_init :: dman where
  "dman_init = \<lparr>h_ents = Map.empty, h_dls = Map.empty, h_enext = 0, h_dnext = 0, dm_dollops = [],
     dm_map = Map.empty, dm_patches = Map.empty, dm_refresh_stats = True, dm_total_entries = 0,
     dm_total_dollops = 0, dm_truncated_dollops = 0\<rparr>"

definition getContainingDollop :: "iid \<Rightarrow> dman \<Rightarrow> did option" where
  "getContainingDollop insn m = dm_map m insn"

definition addDollop :: "did \<Rightarrow> dman \<Rightarrow> dman" where
  "addDollop dollop m =
     m\<lparr>dm_map := fold (\<lambda>i mp. mp(i \<mapsto> dollop)) (dinsns m dollop) (dm_map m),
       dm_dollops := List.insert dollop (dm_dollops m),
       dm_refresh_stats := True\<rparr>"

text \<open>The chain of fallthrough dollops; a cyclic one is never left.\<close>

fun AddDollops :: "nat \<Rightarrow> did option \<Rightarrow> dman \<Rightarrow> dman result" where
  "AddDollops n None m = Inr (m\<lparr>dm_refresh_stats := True\<rparr>)"
| "AddDollops 0 (Some dollop) m = Inl OutOfFuel"
| "AddDollops (Suc n) (Some dollop) m =
     (let m = addDollop dollop m in AddDollops n (d_ft (dl m dollop)) m)"

text \<open>
  \<open>AddNewDollops\<close> and its last loop, which continues with the dollop linked last
  (\<open>follow_fallthroughs\<close>). The first loop looks for the first entry that is already in a
  dollop.
\<close>

fun AddNewDollops :: "nat \<Rightarrow> denv \<Rightarrow> iid \<Rightarrow> dman \<Rightarrow> (did option \<times> dman) result"
  and follow_fallthroughs :: "nat \<Rightarrow> denv \<Rightarrow> did \<Rightarrow> dman \<Rightarrow> dman result"
where
  "AddNewDollops 0 ev start m = Inl OutOfFuel"
| "AddNewDollops (Suc n) ev start m =
     (case getContainingDollop start m of
        Some existing_dollop \<Rightarrow>
          if dinsns m existing_dollop \<noteq> [] \<and> hd (dinsns m existing_dollop) = start then Inr (Some existing_dollop, m)
          else bindR (split ev start existing_dollop m) (\<lambda>(new_dollop, m).
               mapR (\<lambda>m. (new_dollop, m)) (AddDollops n new_dollop m))
      | None \<Rightarrow>
          bindR (createNewDollop n ev start m) (\<lambda>(new_dollop, m).
          let overlap = dropWhile (\<lambda>i. getContainingDollop i m = None) (dinsns m new_dollop);
              it = length (dinsns m new_dollop) - length overlap
          in if overlap \<noteq> [] then
               bindR (AddNewDollops n ev (hd overlap) m) (\<lambda>(fallthrough_dollop, m).
               case fallthrough_dollop of None \<Rightarrow> Inl NullDeref | Some x \<Rightarrow>
               let m = setFallthroughDollop (Some x) new_dollop m;
                   m = setFallbackDollop (Some new_dollop) x m
               in bindR (removeDollopEntries ev it (length (dinsns m new_dollop)) new_dollop m) (\<lambda>m.
                  Inr (Some new_dollop, addDollop new_dollop m)))
             else
               bindR (follow_fallthroughs n ev new_dollop m) (\<lambda>m.
               mapR (\<lambda>m. (Some new_dollop, m)) (AddDollops n (Some new_dollop) m))))"
| "follow_fallthroughs 0 ev new_dollop m = Inl OutOfFuel"
| "follow_fallthroughs (Suc n) ev new_dollop m =
     (if dinsns m new_dollop = [] then Inl OutOfBounds else
      case ft_of (ev_ir ev) (last (dinsns m new_dollop)) of
        None \<Rightarrow> Inr m
      | Some fallthrough \<Rightarrow>
          case getContainingDollop fallthrough m of
            Some existing_dollop \<Rightarrow>
              if dinsns m existing_dollop = [] then Inl OutOfBounds else
              assertR (hd (dinsns m existing_dollop) = fallthrough) (\<lambda>_.
              let m = setFallthroughDollop (Some existing_dollop) new_dollop m
              in Inr (setFallbackDollop (Some new_dollop) existing_dollop m))
          | None \<Rightarrow>
              bindR (AddNewDollops n ev fallthrough m) (\<lambda>(x, m).
              let previous_dollop = new_dollop;
                  m = setFallthroughDollop x previous_dollop m
              in case x of None \<Rightarrow> Inl NullDeref | Some x \<Rightarrow>
                 follow_fallthroughs n ev x (setFallbackDollop (Some previous_dollop) x m)))"

declare AddNewDollops.simps [simp del] follow_fallthroughs.simps [simp del]

text \<open>\<open>UpdateTargets\<close> runs over a copy of the entries, since creating a target can split the dollop.\<close>

definition UpdateTarget :: "nat \<Rightarrow> denv \<Rightarrow> eid \<Rightarrow> bool \<times> dman \<Rightarrow> (bool \<times> dman) result" where
  "UpdateTarget n ev entry = (\<lambda>(changed, m).
     case tgt_of (ev_ir ev) (einsn m entry) of
       None \<Rightarrow> Inr (changed, m)
     | Some target \<Rightarrow>
         bindR (AddNewDollops n ev target m) (\<lambda>(new_target, m).
         if new_target \<noteq> de_tgt (ent m entry) then Inr (True, setTargetDollop new_target entry m)
         else Inr (changed, m)))"

definition UpdateTargets :: "nat \<Rightarrow> denv \<Rightarrow> did \<Rightarrow> dman \<Rightarrow> (bool \<times> dman) result" where
  "UpdateTargets n ev dollop m = foldR (UpdateTarget n ev) (d_entries (dl m dollop)) (False, m)"

definition UpdateRound :: "nat \<Rightarrow> denv \<Rightarrow> (did list \<Rightarrow> did list) \<Rightarrow> dman \<Rightarrow> (bool \<times> dman) result" where
  "UpdateRound n ev ord m =
     foldR (\<lambda>d (changed, m). mapR (\<lambda>(c, m). (changed \<or> c, m)) (UpdateTargets n ev d m)) (ord (dm_dollops m)) (False, m)"

fun UpdateLoop :: "nat \<Rightarrow> nat \<Rightarrow> denv \<Rightarrow> (did list \<Rightarrow> did list) \<Rightarrow> dman \<Rightarrow> dman result" where
  "UpdateLoop 0 n ev ord m = Inl OutOfFuel"
| "UpdateLoop (Suc k) n ev ord m =
     bindR (UpdateRound n ev ord m) (\<lambda>(changed, m). if changed then UpdateLoop k n ev ord m else Inr m)"

text \<open>\<open>relocs\<close>: for each relocation, the instruction its \<open>getWRT\<close> is, if it is one.\<close>

definition UpdateAllTargets ::
    "nat \<Rightarrow> nat \<Rightarrow> denv \<Rightarrow> (did list \<Rightarrow> did list) \<Rightarrow> iid option list \<Rightarrow> dman \<Rightarrow> dman result" where
  "UpdateAllTargets k n ev ord relocs m =
     bindR (foldR (\<lambda>wrt m. case wrt of None \<Rightarrow> Inr m | Some i \<Rightarrow> mapR snd (AddNewDollops n ev i m)) relocs m)
       (UpdateLoop k n ev ord)"

definition CalculateStats :: "dman \<Rightarrow> dman" where
  "CalculateStats m = m\<lparr>
     dm_truncated_dollops := length (filter (\<lambda>d. d_truncated (dl m d)) (dm_dollops m)),
     dm_total_entries := sum_list (map (\<lambda>d. length (d_entries (dl m d))) (dm_dollops m)),
     dm_total_dollops := length (dm_dollops m),
     dm_refresh_stats := False\<rparr>"

definition AddDollopPatch :: "dpatch \<Rightarrow> dman \<Rightarrow> dman" where
  "AddDollopPatch new_patch m = m\<lparr>dm_patches := (dm_patches m)(dp_target new_patch \<mapsto>
     (case dm_patches m (dp_target new_patch) of None \<Rightarrow> [] | Some ps \<Rightarrow> ps) @ [new_patch])\<rparr>"

definition PatchesToDollop :: "did option \<Rightarrow> dman \<Rightarrow> dpatch list result" where
  "PatchesToDollop target m = (case dm_patches m target of None \<Rightarrow> Inl OutOfRange | Some ps \<Rightarrow> Inr ps)"

text \<open>\<open>CreateDollops\<close>: dollops for the pins, in the order of the patch list, then all targets.\<close>

definition CreateDollops ::
    "nat \<Rightarrow> nat \<Rightarrow> denv \<Rightarrow> (did list \<Rightarrow> did list) \<Rightarrow> iid option list \<Rightarrow> iid list \<Rightarrow> dman \<Rightarrow> dman result" where
  "CreateDollops k n ev ord relocs patches m =
     bindR (foldR (\<lambda>i m. mapR snd (AddNewDollops n ev i m)) patches m)
       (UpdateAllTargets k n ev ord relocs)"

definition RecalculateDollopSizes :: "denv \<Rightarrow> dman \<Rightarrow> dman result" where
  "RecalculateDollopSizes ev m = foldR (reCalculateSize ev) (dm_dollops m) m"

section \<open>Well-formed managers\<close>

abbreviation live :: "dman \<Rightarrow> did set" where
  "live m \<equiv> set (dm_dollops m)"

text \<open>
  A dollop is a non-empty run of fallthroughs. An instruction with an indirect branch
  target address can only be its first one.
\<close>

definition fallthrough_run :: "denv \<Rightarrow> iid list \<Rightarrow> bool" where
  "fallthrough_run ev is \<longleftrightarrow> successively (\<lambda>i j. ft_of (ev_ir ev) i = Some j \<and> ibta_of (ev_ir ev) j = None) is"

definition dollop_wf :: "denv \<Rightarrow> did \<Rightarrow> dman \<Rightarrow> bool" where
  "dollop_wf ev d m \<longleftrightarrow> d < h_dnext m \<and> d_entries (dl m d) \<noteq> [] \<and>
     (\<forall>e \<in> set (d_entries (dl m d)). e < h_enext m \<and> de_member (ent m e) = Some d) \<and>
     fallthrough_run ev (dinsns m d)"

text \<open>The fallthrough of the last instruction is the first one of the fallthrough dollop.\<close>

definition dollop_linked :: "denv \<Rightarrow> did \<Rightarrow> dman \<Rightarrow> bool" where
  "dollop_linked ev d m \<longleftrightarrow>
     (case ft_of (ev_ir ev) (last (dinsns m d)) of
        None \<Rightarrow> d_ft (dl m d) = None
      | Some j \<Rightarrow> \<exists>x \<in> live m. d_ft (dl m d) = Some x \<and> hd (dinsns m x) = j)"

definition man_ok :: "denv \<Rightarrow> dman \<Rightarrow> bool" where
  "man_ok ev m \<longleftrightarrow> distinct (dm_dollops m) \<and>
     (\<forall>d \<in> live m. dollop_wf ev d m \<and> dollop_linked ev d m \<and> CalculateSize ev d m = Inr (d_size (dl m d))) \<and>
     (\<forall>i d. dm_map m i = Some d \<longleftrightarrow> d \<in> live m \<and> i \<in> set (dinsns m d))"

text \<open>
  What every operation of the manager keeps. \<open>N\<close> and \<open>E\<close> bound the dollops and entries
  that existed at a reference point: of those, a dollop outside the manager is untouched.
\<close>

definition man_ext :: "did \<Rightarrow> eid \<Rightarrow> dman \<Rightarrow> dman \<Rightarrow> bool" where
  "man_ext N E m m' \<longleftrightarrow> live m \<subseteq> live m' \<and> (\<forall>d \<in> live m'. d < N \<longrightarrow> d \<in> live m) \<and>
     (\<forall>d \<in> live m. hd (dinsns m' d) = hd (dinsns m d)) \<and>
     h_enext m \<le> h_enext m' \<and> h_dnext m \<le> h_dnext m' \<and>
     (\<forall>e < h_enext m. einsn m' e = einsn m e \<and> de_tgt (ent m' e) = de_tgt (ent m e)) \<and>
     (\<forall>e. h_enext m \<le> e \<and> e < h_enext m' \<longrightarrow> de_tgt (ent m' e) = None) \<and>
     (\<forall>d \<in> live m. \<forall>e \<in> set (d_entries (dl m d)). \<exists>d' \<in> live m'. e \<in> set (d_entries (dl m' d'))) \<and>
     (\<forall>d < N. d \<notin> live m \<longrightarrow> dl m' d = dl m d) \<and>
     (\<forall>e < E. \<forall>d. de_member (ent m e) = Some d \<and> d \<notin> live m \<and> d < N \<longrightarrow> ent m' e = ent m e)"

lemma man_ext_refl [simp]: "man_ext N E m m"
  by (auto simp: man_ext_def)

lemma man_ext_mono:
  assumes "man_ext N E m m'" "N' \<le> N" "E' \<le> E"
  shows "man_ext N' E' m m'"
proof -
  have "d < N" if "d < N'" for d using that assms(2) by simp
  moreover have "e < E" if "e < E'" for e using that assms(3) by simp
  ultimately show ?thesis using assms(1) unfolding man_ext_def by simp
qed

lemma man_ext_trans:
  assumes "man_ext N E m m'" "man_ext N E m' m''"
  shows "man_ext N E m m''"
proof -
  note 1 = assms(1) [unfolded man_ext_def] and 2 = assms(2) [unfolded man_ext_def]
  have "\<exists>d' \<in> live m''. e \<in> set (d_entries (dl m'' d'))" if "d \<in> live m" "e \<in> set (d_entries (dl m d))" for d e
    using 1 2 that by meson
  moreover have "hd (dinsns m'' d) = hd (dinsns m d)" if "d \<in> live m" for d
    using 1 2 that by (metis subsetD)
  moreover have "dl m'' d = dl m d" if "d < N" "d \<notin> live m" for d
    using 1 2 that by metis
  moreover have "ent m'' e = ent m e" if "e < E" "de_member (ent m e) = Some d" "d \<notin> live m" "d < N" for e d
    using 1 2 that by metis
  moreover have "live m \<subseteq> live m''" "\<forall>d \<in> live m''. d < N \<longrightarrow> d \<in> live m"
    "h_enext m \<le> h_enext m''" "h_dnext m \<le> h_dnext m''" using 1 2 by (auto intro: order_trans)
  moreover have "\<forall>e < h_enext m. einsn m'' e = einsn m e \<and> de_tgt (ent m'' e) = de_tgt (ent m e)"
    using 1 2 by (simp add: order_less_le_trans)
  moreover have "\<forall>e. h_enext m \<le> e \<and> e < h_enext m'' \<longrightarrow> de_tgt (ent m'' e) = None"
  proof (intro allI impI)
    fix e assume e: "h_enext m \<le> e \<and> e < h_enext m''"
    have "de_tgt (ent m'' e) = de_tgt (ent m' e)" if "e < h_enext m'" using 2 that by blast
    moreover have "de_tgt (ent m' e) = None" if "e < h_enext m'" using 1 e that by blast
    moreover have "de_tgt (ent m'' e) = None" if "\<not> e < h_enext m'" using 2 e that by (simp add: not_less)
    ultimately show "de_tgt (ent m'' e) = None" by metis
  qed
  ultimately show ?thesis unfolding man_ext_def by blast
qed

lemma dinsns_cong: "d_entries (dl m' d) = d_entries (dl m d) \<Longrightarrow>
    (\<And>e. e \<in> set (d_entries (dl m d)) \<Longrightarrow> einsn m' e = einsn m e) \<Longrightarrow> dinsns m' d = dinsns m d"
  by (simp add: dinsns_def)

lemma CalculateSize_cong:
  "dinsns m' d = dinsns m d \<Longrightarrow> d_ft_patched (dl m' d) = d_ft_patched (dl m d) \<Longrightarrow>
   d_coalesced (dl m' d) = d_coalesced (dl m d) \<Longrightarrow>
   d_ft (dl m' d) = d_ft (dl m d) \<or> d_ft (dl m' d) \<noteq> None \<and> ft_of (ev_ir ev) (last (dinsns m d)) \<noteq> None \<and> dinsns m d \<noteq> [] \<Longrightarrow>
   CalculateSize ev d m' = CalculateSize ev d m"
  by (auto simp: CalculateSize_def Let_def)

text \<open>A dollop outside the manager keeps its shape.\<close>

lemma man_ext_outside:
  assumes "man_ext N E m m'" "dollop_wf ev d m" "d \<notin> live m" "d < N" "h_enext m \<le> E"
  shows "dl m' d = dl m d" "dinsns m' d = dinsns m d" "dollop_wf ev d m'"
proof -
  note x = assms(1) [unfolded man_ext_def] and w = assms(2) [unfolded dollop_wf_def]
  show dl: "dl m' d = dl m d" using x assms(3,4) by blast
  have e: "ent m' e = ent m e" if "e \<in> set (d_entries (dl m d))" for e
    using x w that assms(3-5) by (meson less_le_trans)
  show ins: "dinsns m' d = dinsns m d" by (rule dinsns_cong) (simp_all add: dl einsn_def e)
  show "dollop_wf ev d m'" using x w e unfolding dollop_wf_def ins dl
    by (metis less_le_trans)
qed

lemma man_okD:
  assumes "man_ok ev m" "d \<in> live m"
  shows "dollop_wf ev d m" "dollop_linked ev d m" "CalculateSize ev d m = Inr (d_size (dl m d))"
    "dinsns m d \<noteq> []" "d < h_dnext m" "\<And>i. i \<in> set (dinsns m d) \<Longrightarrow> dm_map m i = Some d"
    "\<And>e. e \<in> set (d_entries (dl m d)) \<Longrightarrow> e < h_enext m"
  using assms by (auto simp: man_ok_def dollop_wf_def dinsns_def)

lemma man_ok_map: "man_ok ev m \<Longrightarrow> dm_map m i = Some d \<Longrightarrow> d \<in> live m \<and> i \<in> set (dinsns m d)"
  by (simp add: man_ok_def)

lemma man_ext_map:
  assumes "man_ext N E m m'" "man_ok ev m" "man_ok ev m'" "dm_map m i \<noteq> None"
  shows "dm_map m' i \<noteq> None"
proof -
  from assms(4) obtain d where d: "dm_map m i = Some d" by blast
  from man_ok_map [OF assms(2) d] obtain e where e: "d \<in> live m" "e \<in> set (d_entries (dl m d))" "i = einsn m e"
    by (auto simp: dinsns_def)
  have "e < h_enext m" by (rule man_okD(7) [OF assms(2) e(1,2)])
  then have i: "einsn m' e = i" using assms(1) e(3) by (simp add: man_ext_def)
  obtain d' where "d' \<in> live m'" "e \<in> set (d_entries (dl m' d'))"
    using assms(1) e unfolding man_ext_def by blast
  then have "dm_map m' i = Some d'" using i man_okD(6) [OF assms(3), of d' i] by (auto simp: dinsns_def)
  then show ?thesis by simp
qed

text \<open>Ranks decrease along a dollop, so its instructions are distinct.\<close>

lemma run_sorted:
  assumes "ft_rank (ev_ir ev) r" "fallthrough_run ev is"
  shows "sorted_wrt (\<lambda>i j. r j < r i) is"
proof -
  have "successively (\<lambda>i j. r j < r i) is"
    using assms(2) unfolding fallthrough_run_def
    by (rule successively_mono) (auto dest: ft_rankD [OF assms(1)])
  then show ?thesis by (simp add: successively_conv_sorted_wrt transp_def)
qed

lemma run_rank:
  assumes "ft_rank (ev_ir ev) r" "fallthrough_run ev is" "i \<in> set is"
  shows "r i \<le> r (hd is)" "r (last is) \<le> r i"
proof -
  note s = run_sorted [OF assms(1,2)]
  show "r i \<le> r (hd is)" using s assms(3) by (cases "is") auto
  show "r (last is) \<le> r i"
    using s assms(3) by (induction "is" rule: rev_induct) (auto simp: sorted_wrt_append)
qed

lemma run_distinct:
  assumes "ft_rank (ev_ir ev) r" "fallthrough_run ev is"
  shows "distinct is"
  using run_sorted [OF assms] by (induction "is") auto

text \<open>An instruction with an indirect branch target address heads its dollop.\<close>

lemma run_head:
  assumes "fallthrough_run ev is" "i \<in> set is" "ibta_of (ev_ir ev) i \<noteq> None"
  shows "i = hd is"
  using assms(1,2)
proof (induction "is")
  case (Cons a xs)
  show ?case
  proof (cases "i = a")
    case False
    then have "i \<in> set xs" "xs \<noteq> []" using Cons.prems by auto
    then have "ibta_of (ev_ir ev) (hd xs) = None" "i = hd xs" using Cons by (auto simp: fallthrough_run_def successively_Cons)
    then show ?thesis using assms(3) by simp
  qed simp
qed simp

lemma run_append:
  "fallthrough_run ev (is @ js) \<longleftrightarrow> fallthrough_run ev is \<and> fallthrough_run ev js \<and>
    (is = [] \<or> js = [] \<or> ft_of (ev_ir ev) (last is) = Some (hd js) \<and> ibta_of (ev_ir ev) (hd js) = None)"
  by (auto simp: fallthrough_run_def successively_append_iff)

section \<open>Registering dollops\<close>

lemma fold_map_upd: "fold (\<lambda>i mp. mp(i \<mapsto> d)) is mp x = (if x \<in> set is then Some d else mp x)"
  by (induction "is" arbitrary: mp) auto

lemma addDollop_sel [heap]:
  "dl (addDollop d m) = dl m" "ent (addDollop d m) = ent m" "einsn (addDollop d m) = einsn m"
  "dinsns (addDollop d m) = dinsns m" "h_enext (addDollop d m) = h_enext m" "h_dnext (addDollop d m) = h_dnext m"
  "live (addDollop d m) = insert d (live m)" "CalculateSize ev x (addDollop d m) = CalculateSize ev x m"
  "dm_map (addDollop d m) i = (if i \<in> set (dinsns m d) then Some d else dm_map m i)"
  "dollop_wf ev x (addDollop d m) = dollop_wf ev x m"
  by (simp_all add: addDollop_def dl_def ent_def einsn_def dinsns_def fun_eq_iff CalculateSize_def
      fold_map_upd dollop_wf_def comp_def Let_def cong: if_cong map_cong)

lemma addDollop_live:
  assumes "man_ok ev m" "d \<in> live m"
  shows "addDollop d m = m\<lparr>dm_refresh_stats := True\<rparr>"
proof -
  have "fold (\<lambda>i mp. mp(i \<mapsto> d)) (dinsns m d) (dm_map m) = dm_map m"
    using man_okD(6) [OF assms] by (auto simp: fun_eq_iff fold_map_upd)
  then show ?thesis using assms(2) by (simp add: addDollop_def)
qed

lemma refresh_sel [heap]:
  "dl (m\<lparr>dm_refresh_stats := b\<rparr>) = dl m" "ent (m\<lparr>dm_refresh_stats := b\<rparr>) = ent m"
  "einsn (m\<lparr>dm_refresh_stats := b\<rparr>) = einsn m" "dinsns (m\<lparr>dm_refresh_stats := b\<rparr>) = dinsns m"
  "CalculateSize ev x (m\<lparr>dm_refresh_stats := b\<rparr>) = CalculateSize ev x m"
  by (simp_all add: dl_def ent_def einsn_def dinsns_def fun_eq_iff CalculateSize_def comp_def Let_def cong: if_cong map_cong)

lemma man_ok_refresh: "man_ok ev (m\<lparr>dm_refresh_stats := b\<rparr>) = man_ok ev m"
  by (simp add: man_ok_def dollop_wf_def dollop_linked_def heap cong: option.case_cong)

text \<open>Walking a chain of registered dollops only marks the statistics.\<close>

lemma AddDollops_idle:
  assumes "ft_rank (ev_ir ev) r"
  shows "man_ok ev m \<Longrightarrow> (\<And>d. x = Some d \<Longrightarrow> d \<in> live m \<and> r (hd (dinsns m d)) < k) \<Longrightarrow>
    AddDollops k x m = Inr (m\<lparr>dm_refresh_stats := True\<rparr>)"
proof (induction k arbitrary: x m)
  case 0
  then show ?case by (cases x) auto
next
  case (Suc k)
  show ?case
  proof (cases x)
    case (Some d)
    then have d: "d \<in> live m" "r (hd (dinsns m d)) < Suc k" using Suc.prems(2) by auto
    note ok = man_okD [OF Suc.prems(1) d(1)]
    have last: "r (last (dinsns m d)) \<le> r (hd (dinsns m d))"
      using run_rank(1) [OF assms, of "dinsns m d" "last (dinsns m d)"] ok(1,4) by (simp add: dollop_wf_def)
    have "y \<in> live m \<and> r (hd (dinsns m y)) < k" if "d_ft (dl m d) = Some y" for y
      using ok(2) that last d(2) ft_rankD [OF assms, of "last (dinsns m d)"]
      unfolding dollop_linked_def by (auto split: option.splits)
    then have "AddDollops k (d_ft (dl m d)) (m\<lparr>dm_refresh_stats := True\<rparr>) = Inr (m\<lparr>dm_refresh_stats := True\<rparr>)"
      using Suc.IH [of "m\<lparr>dm_refresh_stats := True\<rparr>" "d_ft (dl m d)"] Suc.prems(1) by (simp add: man_ok_refresh heap)
    then show ?thesis using Some addDollop_live [OF Suc.prems(1) d(1)] by (simp add: heap)
  qed simp
qed

section \<open>Splitting\<close>

lemma move_entries:
  assumes h': "h' = fold (move_entry n) es h"
  shows "d_entries (dl h' n) = d_entries (dl h n) @ es"
    and "dl h' n = (dl h n)\<lparr>d_entries := d_entries (dl h' n)\<rparr>" and "\<And>x. x \<noteq> n \<Longrightarrow> dl h' x = dl h x"
    and "einsn h' = einsn h" and "\<And>e. e \<notin> set es \<Longrightarrow> ent h' e = ent h e"
    and "\<And>e. e \<in> set es \<Longrightarrow> ent h' e = (ent h e)\<lparr>de_member := Some n\<rparr>"
    and "h_enext h' = h_enext h" and "h_dnext h' = h_dnext h"
proof -
  have "d_entries (dl h' n) = d_entries (dl h n) @ es \<and>
    dl h' n = (dl h n)\<lparr>d_entries := d_entries (dl h' n)\<rparr> \<and> (\<forall>x. x \<noteq> n \<longrightarrow> dl h' x = dl h x) \<and>
    einsn h' = einsn h \<and> (\<forall>e. e \<notin> set es \<longrightarrow> ent h' e = ent h e) \<and>
    (\<forall>e \<in> set es. ent h' e = (ent h e)\<lparr>de_member := Some n\<rparr>) \<and> h_enext h' = h_enext h \<and> h_dnext h' = h_dnext h"
    unfolding h'
  proof (induction es rule: rev_induct)
    case (snoc e es)
    then show ?case by (cases "e \<in> set es") (auto simp: heap)
  qed simp
  then show "d_entries (dl h' n) = d_entries (dl h n) @ es"
    "dl h' n = (dl h n)\<lparr>d_entries := d_entries (dl h' n)\<rparr>" "\<And>x. x \<noteq> n \<Longrightarrow> dl h' x = dl h x"
    "einsn h' = einsn h" "\<And>e. e \<notin> set es \<Longrightarrow> ent h' e = ent h e"
    "\<And>e. e \<in> set es \<Longrightarrow> ent h' e = (ent h e)\<lparr>de_member := Some n\<rparr>"
    "h_enext h' = h_enext h" "h_dnext h' = h_dnext h" by blast+
qed

text \<open>The manager's own fields do not take part in the heap operations.\<close>

definition same_man :: "dman \<Rightarrow> dman \<Rightarrow> bool" where
  "same_man m m' \<longleftrightarrow> dm_dollops m' = dm_dollops m \<and> dm_map m' = dm_map m"

lemma same_man_refl [simp]: "same_man m m"
  by (simp add: same_man_def)

lemma same_man_trans: "same_man m m' \<Longrightarrow> same_man m' m'' \<Longrightarrow> same_man m m''"
  by (simp add: same_man_def)

lemma same_man_ops [simp]:
  "same_man m (upd_dl d u h) = same_man m h" "same_man m (upd_ent e v h) = same_man m h"
  "same_man m (snd (alloc_dollop h)) = same_man m h"
  "same_man m (setFallthroughDollop x d h) = same_man m h" "same_man m (setFallbackDollop x d h) = same_man m h"
  "same_man m (setTargetDollop x e h) = same_man m h" "same_man m (push_entry d i h) = same_man m h"
  "same_man m (move_entry d e h) = same_man m h"
  by (simp_all add: same_man_def upd_dl_def upd_ent_def alloc_dollop_def setFallthroughDollop_def
      setFallbackDollop_def setTargetDollop_def push_entry_def move_entry_def)

lemma same_man_fold: "(\<And>x m. same_man m (f x m)) \<Longrightarrow> same_man m (fold f xs m)"
  by (induction xs arbitrary: m) (auto intro: same_man_trans)

lemma split_records:
  assumes "d \<noteq> h_dnext m" "sp \<in> set (dinsns m d)"
  defines "kept \<equiv> takeWhile (\<lambda>e. einsn m e \<noteq> sp) (d_entries (dl m d))"
    and "moved \<equiv> dropWhile (\<lambda>e. einsn m e \<noteq> sp) (d_entries (dl m d))"
    and "n \<equiv> h_dnext m"
  obtains m' where "split ev sp d m = Inr (Some n, m')" "same_man m m'"
    "d_entries (dl m' d) = kept" "d_entries (dl m' n) = moved"
    "d_ft (dl m' d) = Some n" "d_ft (dl m' n) = d_ft (dl m d)"
    "d_ft_patched (dl m' d) = d_ft_patched (dl m d)" "d_coalesced (dl m' d) = d_coalesced (dl m d)"
    "CalculateSize ev d m' = Inr (d_size (dl m' d))" "CalculateSize ev n m' = Inr (d_size (dl m' n))"
    "\<forall>x. x \<noteq> d \<longrightarrow> x \<noteq> n \<longrightarrow> dl m' x = (dl m x)\<lparr>d_fb := d_fb (dl m' x)\<rparr>"
    "\<forall>x. x \<noteq> d \<longrightarrow> x \<noteq> n \<longrightarrow> d_ft (dl m d) \<noteq> Some x \<longrightarrow> dl m' x = dl m x"
    "einsn m' = einsn m" "\<forall>e. e \<notin> set moved \<longrightarrow> ent m' e = ent m e"
    "\<forall>e. e \<in> set moved \<longrightarrow> ent m' e = (ent m e)\<lparr>de_member := Some n\<rparr>"
    "h_enext m' = h_enext m" "h_dnext m' = Suc n"
    "dl m' d = (dl m d)\<lparr>d_entries := kept, d_ft := Some n, d_size := d_size (dl m' d), d_fb := d_fb (dl m' d)\<rparr>"
    "dl m' n = empty_dollop\<lparr>d_entries := moved, d_ft := d_ft (dl m d), d_size := d_size (dl m' n), d_fb := d_fb (dl m' n)\<rparr>"
proof -
  obtain e0 where "e0 \<in> set (d_entries (dl m d))" "einsn m e0 = sp" using assms(2) by (auto simp: dinsns_def)
  then have mv: "moved \<noteq> []" unfolding moved_def by (auto simp: dropWhile_eq_Nil_conv)
  define m1 where "m1 = snd (alloc_dollop m)"
  define m2 where "m2 = (case d_ft (dl m1 d) of None \<Rightarrow> m1 | Some x \<Rightarrow> setFallbackDollop (Some n) x m1)"
  define m3 where "m3 = setFallbackDollop (Some d) n m2"
  define m4 where "m4 = setFallthroughDollop (d_ft (dl m3 d)) n m3"
  define m5 where "m5 = setFallthroughDollop (Some n) d m4"
  define m6 where "m6 = upd_dl d (\<lambda>D. D\<lparr>d_entries := kept\<rparr>) m5"
  define m7 where "m7 = fold (move_entry n) moved m6"
  note mv7 = move_entries [OF m7_def]
  have dn: "d \<noteq> n" using assms(1) by (simp add: n_def)
  have ents: "ent m6 = ent m" "einsn m6 = einsn m" "h_enext m6 = h_enext m" "h_dnext m6 = Suc n"
    by (auto simp: m6_def m5_def m4_def m3_def m2_def m1_def heap n_def einsn_def fun_eq_iff split: option.splits)
  have d6: "d_entries (dl m6 d) = kept" "d_ft (dl m6 d) = Some n"
    "d_ft_patched (dl m6 d) = d_ft_patched (dl m d)" "d_coalesced (dl m6 d) = d_coalesced (dl m d)"
    using dn by (auto simp: m6_def m5_def m4_def m3_def m2_def m1_def heap n_def split: option.splits)
  have n6: "d_entries (dl m6 n) = []" "d_ft (dl m6 n) = d_ft (dl m d)"
    using dn by (auto simp: m6_def m5_def m4_def m3_def m2_def m1_def heap n_def empty_dollop_def split: option.splits)
  have x6: "dl m6 x = (dl m x)\<lparr>d_fb := d_fb (dl m6 x)\<rparr>" "d_ft (dl m d) \<noteq> Some x \<Longrightarrow> dl m6 x = dl m x"
    if "x \<noteq> d" "x \<noteq> n" for x
    using that dn by (auto simp: m6_def m5_def m4_def m3_def m2_def m1_def heap n_def split: option.splits)
  have r6: "dl m6 d = (dl m d)\<lparr>d_entries := kept, d_ft := Some n, d_fb := d_fb (dl m6 d)\<rparr>"
    "dl m6 n = empty_dollop\<lparr>d_ft := d_ft (dl m d), d_fb := d_fb (dl m6 n)\<rparr>"
    using dn by (auto simp: m6_def m5_def m4_def m3_def m2_def m1_def heap n_def split: option.splits)
  have s6: "same_man m m6"
    by (simp add: m6_def m5_def m4_def m3_def m2_def m1_def split: option.splits)
  have e7: "d_entries (dl m7 d) = kept" "d_ft (dl m7 d) = Some n" "d_entries (dl m7 n) = moved"
    "d_ft (dl m7 n) = d_ft (dl m d)" "d_ft_patched (dl m7 d) = d_ft_patched (dl m d)"
    "d_coalesced (dl m7 d) = d_coalesced (dl m d)"
    using dn d6 n6 mv7(1) mv7(3) [of d] arg_cong [OF mv7(2), of d_ft] by simp_all
  have "dinsns m7 n \<noteq> []" using mv by (simp add: dinsns_def e7)
  then obtain a where a: "CalculateSize ev n m7 = Inr a" using CalculateSize_total by blast
  define m8 where "m8 = upd_dl n (\<lambda>D. D\<lparr>d_size := a\<rparr>) m7"
  obtain b where b: "CalculateSize ev d m8 = Inr b"
    using CalculateSize_total [of m8 d ev] e7(2) dn by (auto simp: m8_def heap)
  define m9 where "m9 = upd_dl d (\<lambda>D. D\<lparr>d_size := b\<rparr>) m8"
  have al: "alloc_dollop m = (n, m1)" by (simp add: m1_def n_def alloc_dollop_def)
  have "split ev sp d m = bindR (reCalculateSize ev n m7) (\<lambda>h. mapR (\<lambda>h. (Some n, h)) (reCalculateSize ev d h))"
    using mv unfolding m7_def m6_def m5_def m4_def m3_def m2_def
    by (simp only: split_def Let_def al case_prod_conv moved_def [symmetric] kept_def [symmetric] if_False)
  then have "split ev sp d m = Inr (Some n, m9)"
    using a b by (simp add: reCalculateSize_def m9_def m8_def mapR_def)
  moreover have "same_man m m9"
    using same_man_trans [OF s6 same_man_fold [of "move_entry n"]] by (simp add: m9_def m8_def m7_def)
  moreover have "CalculateSize ev d m9 = Inr (d_size (dl m9 d))" "CalculateSize ev n m9 = Inr (d_size (dl m9 n))"
    using a b dn by (simp_all add: m9_def m8_def heap)
  moreover have r9: "dl m9 d = (dl m d)\<lparr>d_entries := kept, d_ft := Some n, d_size := d_size (dl m9 d), d_fb := d_fb (dl m9 d)\<rparr>"
    "dl m9 n = empty_dollop\<lparr>d_entries := moved, d_ft := d_ft (dl m d), d_size := d_size (dl m9 n), d_fb := d_fb (dl m9 n)\<rparr>"
  proof -
    obtain x y where x: "dl m6 d = (dl m d)\<lparr>d_entries := kept, d_ft := Some n, d_fb := x\<rparr>"
      and y: "dl m6 n = empty_dollop\<lparr>d_ft := d_ft (dl m d), d_fb := y\<rparr>" using r6 by metis
    show "dl m9 d = (dl m d)\<lparr>d_entries := kept, d_ft := Some n, d_size := d_size (dl m9 d), d_fb := d_fb (dl m9 d)\<rparr>"
      "dl m9 n = empty_dollop\<lparr>d_entries := moved, d_ft := d_ft (dl m d), d_size := d_size (dl m9 n), d_fb := d_fb (dl m9 n)\<rparr>"
      using mv7(1-3) dn by (simp_all add: m9_def m8_def heap x y empty_dollop_def)
  qed
  ultimately show ?thesis
    using that [of m9] dn e7 ents mv7 x6 r9 by (simp add: m9_def m8_def heap)
qed

lemma split_result:
  assumes "d \<noteq> h_dnext m" "sp \<in> set (dinsns m d)"
  defines "kept \<equiv> takeWhile (\<lambda>e. einsn m e \<noteq> sp) (d_entries (dl m d))"
    and "moved \<equiv> dropWhile (\<lambda>e. einsn m e \<noteq> sp) (d_entries (dl m d))"
    and "n \<equiv> h_dnext m"
  obtains m' where "split ev sp d m = Inr (Some n, m')" "same_man m m'"
    "d_entries (dl m' d) = kept" "d_entries (dl m' n) = moved"
    "d_ft (dl m' d) = Some n" "d_ft (dl m' n) = d_ft (dl m d)"
    "d_ft_patched (dl m' d) = d_ft_patched (dl m d)" "d_coalesced (dl m' d) = d_coalesced (dl m d)"
    "CalculateSize ev d m' = Inr (d_size (dl m' d))" "CalculateSize ev n m' = Inr (d_size (dl m' n))"
    "\<forall>x. x \<noteq> d \<longrightarrow> x \<noteq> n \<longrightarrow> dl m' x = (dl m x)\<lparr>d_fb := d_fb (dl m' x)\<rparr>"
    "\<forall>x. x \<noteq> d \<longrightarrow> x \<noteq> n \<longrightarrow> d_ft (dl m d) \<noteq> Some x \<longrightarrow> dl m' x = dl m x"
    "einsn m' = einsn m" "\<forall>e. e \<notin> set moved \<longrightarrow> ent m' e = ent m e"
    "\<forall>e. e \<in> set moved \<longrightarrow> ent m' e = (ent m e)\<lparr>de_member := Some n\<rparr>"
    "h_enext m' = h_enext m" "h_dnext m' = Suc n"
  by (rule split_records [OF assms(1,2), of ev]) (use that in \<open>simp add: kept_def moved_def n_def\<close>)

text \<open>Splitting a registered dollop and registering the second part.\<close>

lemma split_register:
  assumes ok: "man_ok ev m" and rk: "ft_rank (ev_ir ev) r" and d: "d \<in> live m"
    and i: "i \<in> set (dinsns m d)" "i \<noteq> hd (dinsns m d)" and fuel: "r i < k"
  obtains n m1 m' where "split ev i d m = Inr (Some n, m1)" "AddDollops k (Some n) m1 = Inr m'" "man_ok ev m'"
    "n \<in> live m'" "hd (dinsns m' n) = i" "man_ext (h_dnext m) (h_enext m) m m'"
    "\<forall>j. dm_map m' j \<noteq> None \<longrightarrow> dm_map m j \<noteq> None" "dinsns m' d @ dinsns m' n = dinsns m d"
proof -
  note okd = man_okD [OF ok d]
  have dn: "d \<noteq> h_dnext m" using okd(5) by simp
  define n where "n = h_dnext m"
  define kept where "kept = takeWhile (\<lambda>e. einsn m e \<noteq> i) (d_entries (dl m d))"
  define moved where "moved = dropWhile (\<lambda>e. einsn m e \<noteq> i) (d_entries (dl m d))"
  obtain m1 where s: "split ev i d m = Inr (Some n, m1)" "same_man m m1"
    "d_entries (dl m1 d) = kept" "d_entries (dl m1 n) = moved"
    "d_ft (dl m1 d) = Some n" "d_ft (dl m1 n) = d_ft (dl m d)"
    "d_ft_patched (dl m1 d) = d_ft_patched (dl m d)" "d_coalesced (dl m1 d) = d_coalesced (dl m d)"
    "CalculateSize ev d m1 = Inr (d_size (dl m1 d))" "CalculateSize ev n m1 = Inr (d_size (dl m1 n))"
    "\<forall>x. x \<noteq> d \<longrightarrow> x \<noteq> n \<longrightarrow> dl m1 x = (dl m x)\<lparr>d_fb := d_fb (dl m1 x)\<rparr>"
    "\<forall>x. x \<noteq> d \<longrightarrow> x \<noteq> n \<longrightarrow> d_ft (dl m d) \<noteq> Some x \<longrightarrow> dl m1 x = dl m x"
    "einsn m1 = einsn m" "\<forall>e. e \<notin> set moved \<longrightarrow> ent m1 e = ent m e"
    "\<forall>e. e \<in> set moved \<longrightarrow> ent m1 e = (ent m e)\<lparr>de_member := Some n\<rparr>"
    "h_enext m1 = h_enext m" "h_dnext m1 = Suc n"
    using split_result [OF dn i(1), of ev, folded n_def kept_def moved_def] .
  note s = s [rule_format]
  have km: "d_entries (dl m d) = kept @ moved" by (simp add: kept_def moved_def)
  have insd: "dinsns m1 d = takeWhile (\<lambda>j. j \<noteq> i) (dinsns m d)" "dinsns m1 n = dropWhile (\<lambda>j. j \<noteq> i) (dinsns m d)"
    by (simp_all add: dinsns_def s kept_def moved_def takeWhile_map dropWhile_map comp_def)
  have cat: "dinsns m1 d @ dinsns m1 n = dinsns m d" by (simp add: insd)
  have ne: "dinsns m1 d \<noteq> []" "dinsns m1 n \<noteq> []" "hd (dinsns m1 n) = i"
    using i okd(4) hd_dropWhile [of "\<lambda>j. j \<noteq> i" "dinsns m d"]
    by (auto simp: insd takeWhile_eq_Nil_iff dropWhile_eq_Nil_conv)
  have ents: "d_entries (dl m1 x) = d_entries (dl m x)" "d_ft (dl m1 x) = d_ft (dl m x)"
    "d_ft_patched (dl m1 x) = d_ft_patched (dl m x)" "d_coalesced (dl m1 x) = d_coalesced (dl m x)"
    "d_size (dl m1 x) = d_size (dl m x)" if "x \<noteq> d" "x \<noteq> n" for x
    using arg_cong [OF s(11) [OF that], of d_entries] arg_cong [OF s(11) [OF that], of d_ft]
      arg_cong [OF s(11) [OF that], of d_ft_patched] arg_cong [OF s(11) [OF that], of d_coalesced]
      arg_cong [OF s(11) [OF that], of d_size] by simp_all
  have insx: "dinsns m1 x = dinsns m x" if "x \<noteq> d" "x \<noteq> n" for x
    by (simp add: dinsns_def ents [OF that] s(13))
  have nl: "n \<notin> live m" using man_okD(5) [OF ok, of n] by (auto simp: n_def)
  have run: "fallthrough_run ev (dinsns m1 d @ dinsns m1 n)" using okd(1) by (simp add: cat dollop_wf_def)
  have dist: "distinct (dinsns m1 d @ dinsns m1 n)" by (rule run_distinct [OF rk run])
  have hd1: "hd (dinsns m1 x) = hd (dinsns m x)" if "x \<in> live m" for x
  proof (cases "x = d")
    case True
    then show ?thesis using arg_cong [OF cat, of hd] ne(1) by simp
  next
    case False
    moreover have "x \<noteq> n" using that nl by blast
    ultimately show ?thesis by (simp add: insx)
  qed
  have mem: "de_member (ent m e) = Some x" if "x \<in> live m" "e \<in> set (d_entries (dl m x))" for x e
    using man_okD(1) [OF ok that(1)] that(2) by (simp add: dollop_wf_def)
  have other: "e \<notin> set moved" if "x \<in> live m" "x \<noteq> d" "e \<in> set (d_entries (dl m x))" for x e
  proof
    assume "e \<in> set moved"
    then have "de_member (ent m e) = Some d" by (intro mem [OF d]) (simp add: km)
    then show False using mem [OF that(1,3)] that(2) by simp
  qed
  have lt: "d < n" using okd(5) by (simp add: n_def)
  have nes: "kept \<noteq> []" "moved \<noteq> []" using ne(1,2) by (simp_all add: dinsns_def s)
  have runs: "fallthrough_run ev (dinsns m1 d)" "fallthrough_run ev (dinsns m1 n)" using run by (simp_all add: run_append)
  have kmm: "\<forall>e \<in> set kept \<union> set moved. e < h_enext m \<and> de_member (ent m e) = Some d"
    using okd(1) by (simp add: dollop_wf_def km)
  have wf: "dollop_wf ev x m1" if x: "x \<in> insert n (live m)" for x
  proof -
    consider (d) "x = d" | (n) "x = n" | (o) "x \<in> live m" "x \<noteq> d" "x \<noteq> n" using x by blast
    then show ?thesis
    proof cases
      case d
      have "e \<notin> set moved" if "e \<in> set kept" for e
      proof -
        have "einsn m e \<noteq> einsn m e'" if "e' \<in> set moved" for e'
          using dist \<open>e \<in> set kept\<close> that by (auto simp: dinsns_def s)
        then show ?thesis by blast
      qed
      then show ?thesis using
        lt nes runs kmm unfolding dollop_wf_def by (auto simp: d s)
    next
      case n
      then show ?thesis using nes runs kmm unfolding dollop_wf_def by (auto simp: s)
    next
      case o
      have "x < Suc n" using man_okD(5) [OF ok o(1)] by (simp add: n_def)
      then show ?thesis using man_okD(1) [OF ok o(1)] other [OF o(1,2)]
        unfolding dollop_wf_def by (auto simp: ents [OF o(2,3)] insx [OF o(2,3)] s)
    qed
  qed
  have size: "CalculateSize ev x m1 = Inr (d_size (dl m1 x))" if "x \<in> insert n (live m)" for x
  proof (cases "x = d \<or> x = n")
    case False
    then have "CalculateSize ev x m1 = CalculateSize ev x m"
      by (intro CalculateSize_cong) (simp_all add: ents insx)
    then show ?thesis using False that man_okD(3) [OF ok, of x] by (simp add: ents)
  qed (use s(9,10) in auto)
  define m2 where "m2 = addDollop n m1"
  have live2: "live m2 = insert n (live m)" using s(2) by (simp add: m2_def heap same_man_def)
  have linked: "dollop_linked ev x m2" if x: "x \<in> insert n (live m)" for x
  proof -
    have tr: "dollop_linked ev x m2" if "y \<in> live m" "last (dinsns m1 x) = last (dinsns m y)" "d_ft (dl m1 x) = d_ft (dl m y)" for y
      using man_okD(2) [OF ok that(1)] hd1 that(2,3) unfolding dollop_linked_def m2_def heap
      by (auto split: option.splits simp: s(2) [unfolded same_man_def])
    consider (d) "x = d" | (n) "x = n" | (o) "x \<in> live m" "x \<noteq> d" "x \<noteq> n" using x by blast
    then show ?thesis
    proof cases
      case d
      have "ft_of (ev_ir ev) (last (dinsns m1 d)) = Some i" using run ne by (simp add: run_append)
      then show ?thesis unfolding dollop_linked_def using s(5) ne(3) live2
        by (simp add: d m2_def heap)
    next
      case n
      have "last (dinsns m1 n) = last (dinsns m d)" using ne(2) cat by (metis last_appendR)
      then show ?thesis using tr [OF \<open>d \<in> live m\<close>] s(6) n by simp
    next
      case o
      then show ?thesis using tr [OF o(1)] ents(2) insx by simp
    qed
  qed
  have map: "dm_map m2 j = Some x \<longleftrightarrow> x \<in> live m2 \<and> j \<in> set (dinsns m2 x)" for j x
  proof -
    have u: "dm_map m j = Some y \<longleftrightarrow> y \<in> live m \<and> j \<in> set (dinsns m y)" for y
      using ok by (simp add: man_ok_def)
    have m2j: "dm_map m2 j = (if j \<in> set (dinsns m1 n) then Some n else dm_map m j)"
      using s(2) by (simp add: m2_def heap same_man_def)
    have dj: "j \<in> set (dinsns m d) \<longleftrightarrow> j \<in> set (dinsns m1 d) \<or> j \<in> set (dinsns m1 n)" by (simp flip: cat)
    have dis: "\<not> (j \<in> set (dinsns m1 d) \<and> j \<in> set (dinsns m1 n))" using dist by auto
    have ins2: "dinsns m2 = dinsns m1" by (simp add: m2_def heap)
    consider (d) "x = d" | (n) "x = n" | (o) "x \<noteq> d" "x \<noteq> n" by blast
    then show ?thesis
    proof cases
      case d
      then show ?thesis using u [of d] dj dis dn n_def \<open>d \<in> live m\<close> by (auto simp: m2j ins2 live2)
    next
      case n
      then show ?thesis using u [of n] nl by (auto simp: m2j ins2 live2)
    next
      case o
      have "j \<notin> set (dinsns m1 n)" if "x \<in> live m" "j \<in> set (dinsns m x)"
        using that u [of x] u [of d] dj \<open>d \<in> live m\<close> o by auto
      then show ?thesis using u [of x] o by (auto simp: m2j ins2 live2 insx)
    qed
  qed
  have "distinct (dm_dollops m2)" using ok s(2) by (simp add: m2_def addDollop_def man_ok_def same_man_def)
  moreover have "dollop_wf ev x m2 \<and> dollop_linked ev x m2 \<and> CalculateSize ev x m2 = Inr (d_size (dl m2 x))"
    if "x \<in> live m2" for x
  proof -
    have x: "x \<in> insert n (live m)" using that live2 by simp
    show ?thesis using wf [OF x] size [OF x] linked [OF x] by (simp add: m2_def heap)
  qed
  ultimately have ok2: "man_ok ev m2" using map unfolding man_ok_def by blast
  obtain k' where k: "k = Suc k'" using fuel by (cases k) auto
  have idle: "AddDollops k' (d_ft (dl m2 n)) m2 = Inr (m2\<lparr>dm_refresh_stats := True\<rparr>)"
  proof (rule AddDollops_idle [OF rk ok2])
    fix y assume y: "d_ft (dl m2 n) = Some y"
    have "dollop_linked ev n m2" using linked by simp
    then have y2: "y \<in> live m2" "ft_of (ev_ir ev) (last (dinsns m2 n)) = Some (hd (dinsns m2 y))"
      using y by (auto simp: dollop_linked_def split: option.splits)
    have "r (last (dinsns m1 n)) \<le> r i"
      using run_rank(1) [OF rk, of "dinsns m1 n" "last (dinsns m1 n)"] run ne by (simp add: run_append)
    then show "y \<in> live m2 \<and> r (hd (dinsns m2 y)) < k'"
      using y2 ft_rankD [OF rk y2(2)] fuel k by (simp add: m2_def heap)
  qed
  have refr: "m2\<lparr>dm_refresh_stats := True\<rparr> = m2" by (simp add: m2_def addDollop_def)
  have A: "AddDollops k (Some n) m1 = Inr m2"
    using idle unfolding k refr by (simp add: m2_def [symmetric] heap)
  have ext: "man_ext (h_dnext m) (h_enext m) m m2"
    unfolding man_ext_def
  proof (intro conjI)
    show "live m \<subseteq> live m2" "\<forall>d \<in> live m2. d < h_dnext m \<longrightarrow> d \<in> live m" using live2 by (auto simp: n_def)
    show "\<forall>d \<in> live m. hd (dinsns m2 d) = hd (dinsns m d)" using hd1 by (simp add: m2_def heap)
    show "h_enext m \<le> h_enext m2" "h_dnext m \<le> h_dnext m2" using s(16,17) by (simp_all add: m2_def heap n_def)
    show "\<forall>e. h_enext m \<le> e \<and> e < h_enext m2 \<longrightarrow> de_tgt (ent m2 e) = None" using s(16) by (auto simp: m2_def heap)
    show "\<forall>e < h_enext m. einsn m2 e = einsn m e \<and> de_tgt (ent m2 e) = de_tgt (ent m e)"
    proof (intro allI impI)
      fix e
      show "einsn m2 e = einsn m e \<and> de_tgt (ent m2 e) = de_tgt (ent m e)"
        using s(13-15) by (cases "e \<in> set moved") (simp_all add: m2_def heap)
    qed
    show "\<forall>d \<in> live m. \<forall>e \<in> set (d_entries (dl m d)). \<exists>d' \<in> live m2. e \<in> set (d_entries (dl m2 d'))"
    proof (intro ballI)
      fix x e assume x: "x \<in> live m" "e \<in> set (d_entries (dl m x))"
      show "\<exists>d' \<in> live m2. e \<in> set (d_entries (dl m2 d'))"
      proof (cases "x = d")
        case True
        then have "e \<in> set (d_entries (dl m2 d)) \<or> e \<in> set (d_entries (dl m2 n))"
          using x km s(3,4) by (auto simp: m2_def heap)
        then show ?thesis using live2 d by blast
      next
        case False
        moreover have "x \<noteq> n" using x nl by blast
        ultimately have "e \<in> set (d_entries (dl m2 x))" using x by (simp add: ents m2_def heap)
        then show ?thesis using x live2 by blast
      qed
    qed
    show "\<forall>x < h_dnext m. x \<notin> live m \<longrightarrow> dl m2 x = dl m x"
    proof (intro allI impI)
      fix x assume x: "x < h_dnext m" "x \<notin> live m"
      have "d_ft (dl m d) \<noteq> Some x" using okd(2) x(2) by (auto simp: dollop_linked_def split: option.splits)
      then show "dl m2 x = dl m x" using s(12) [of x] x d by (auto simp: m2_def heap n_def)
    qed
    show "\<forall>e < h_enext m. \<forall>x. de_member (ent m e) = Some x \<and> x \<notin> live m \<and> x < h_dnext m \<longrightarrow> ent m2 e = ent m e"
    proof (intro allI impI)
      fix e x assume x: "de_member (ent m e) = Some x \<and> x \<notin> live m \<and> x < h_dnext m"
      have "e \<notin> set moved"
      proof
        assume "e \<in> set moved"
        then have "de_member (ent m e) = Some d" by (intro mem [OF d]) (simp add: km)
        then show False using x d by simp
      qed
      then show "ent m2 e = ent m e" using s(14) by (simp add: m2_def heap)
    qed
  qed
  have dom: "dm_map m j \<noteq> None" if "dm_map m2 j \<noteq> None" for j
  proof -
    have "j \<in> set (dinsns m d)" if "j \<in> set (dinsns m1 n)" using that by (simp flip: cat)
    then show ?thesis using that okd(6) s(2) by (auto simp: m2_def heap same_man_def split: if_splits)
  qed
  show ?thesis
    by (rule that [of n m1 m2, OF s(1) A ok2 _ _ ext]) (use dom in \<open>simp_all add: live2\<close>, simp_all add: m2_def heap ne cat)
qed

section \<open>Changes outside the manager\<close>

text \<open>The registered dollops are the same, up to their fallback pointers.\<close>

definition keeps :: "dman \<Rightarrow> dman \<Rightarrow> bool" where
  "keeps m m' \<longleftrightarrow> same_man m m' \<and> h_enext m \<le> h_enext m' \<and> h_dnext m \<le> h_dnext m' \<and>
     (\<forall>x \<in> live m. \<exists>y. dl m' x = (dl m x)\<lparr>d_fb := y\<rparr>) \<and>
     (\<forall>x \<in> live m. \<forall>e \<in> set (d_entries (dl m x)). ent m' e = ent m e)"

lemma fb_ex: "\<exists>z. D = D\<lparr>d_fb := z\<rparr>" for D :: dollop
  by (intro exI [of _ "d_fb D"]) simp

lemma keeps_refl: "keeps m m"
  unfolding keeps_def using fb_ex by simp

lemma keepsD:
  assumes "keeps m m'" "x \<in> live m"
  shows "d_entries (dl m' x) = d_entries (dl m x)" "d_ft (dl m' x) = d_ft (dl m x)"
    "d_size (dl m' x) = d_size (dl m x)" "d_ft_patched (dl m' x) = d_ft_patched (dl m x)"
    "d_coalesced (dl m' x) = d_coalesced (dl m x)" "dinsns m' x = dinsns m x"
proof -
  obtain y where y: "dl m' x = (dl m x)\<lparr>d_fb := y\<rparr>" using assms by (auto simp: keeps_def)
  then show "d_entries (dl m' x) = d_entries (dl m x)" "d_ft (dl m' x) = d_ft (dl m x)"
    "d_size (dl m' x) = d_size (dl m x)" "d_ft_patched (dl m' x) = d_ft_patched (dl m x)"
    "d_coalesced (dl m' x) = d_coalesced (dl m x)" by simp_all
  show "dinsns m' x = dinsns m x"
    by (rule dinsns_cong) (use assms y in \<open>auto simp: keeps_def einsn_def\<close>)
qed

lemma keeps_live: "keeps m m' \<Longrightarrow> live m' = live m" "keeps m m' \<Longrightarrow> dm_map m' = dm_map m"
  by (simp_all add: keeps_def same_man_def)

lemma keeps_linked:
  assumes "keeps m m'" "dinsns m' d = dinsns m d" "d_ft (dl m' d) = d_ft (dl m d)"
  shows "dollop_linked ev d m' = dollop_linked ev d m"
  using keepsD(6) [OF assms(1)] keeps_live [OF assms(1)] assms(2,3)
  by (auto simp: dollop_linked_def split: option.splits)

lemma keeps_ok:
  assumes k: "keeps m m'" and ok: "man_ok ev m"
  shows "man_ok ev m'"
proof -
  have "dollop_wf ev d m' \<and> dollop_linked ev d m' \<and> CalculateSize ev d m' = Inr (d_size (dl m' d))" if d: "d \<in> live m" for d
  proof (intro conjI)
    note okd = man_okD [OF ok d]
    have "\<forall>e \<in> set (d_entries (dl m d)). ent m' e = ent m e" "h_enext m \<le> h_enext m'" "h_dnext m \<le> h_dnext m'"
      using k d by (auto simp: keeps_def)
    then show "dollop_wf ev d m'" using okd(1) by (auto simp: dollop_wf_def keepsD [OF k d])
    show "dollop_linked ev d m'" using okd(2) keeps_linked [OF k] keepsD [OF k d] by simp
    show "CalculateSize ev d m' = Inr (d_size (dl m' d))"
      using okd(3) CalculateSize_cong [of m' d m ev] by (simp add: keepsD [OF k d])
  qed
  then show ?thesis using ok keepsD(6) [OF k] keeps_live [OF k] k
    unfolding man_ok_def keeps_def same_man_def by (metis (no_types, lifting))
qed

lemma keeps_ext:
  assumes k: "keeps m m'" and ok: "man_ok ev m"
    and "\<And>e. e < h_enext m \<Longrightarrow> einsn m' e = einsn m e \<and> de_tgt (ent m' e) = de_tgt (ent m e)"
    and "\<And>e. h_enext m \<le> e \<Longrightarrow> e < h_enext m' \<Longrightarrow> de_tgt (ent m' e) = None"
    and "\<And>d. d < N \<Longrightarrow> d \<notin> live m \<Longrightarrow> dl m' d = dl m d"
    and "\<And>e d. e < E \<Longrightarrow> de_member (ent m e) = Some d \<Longrightarrow> d \<notin> live m \<Longrightarrow> d < N \<Longrightarrow> ent m' e = ent m e"
  shows "man_ext N E m m'"
  unfolding man_ext_def
  using keepsD(1,6) [OF k] keeps_live [OF k] k assms(3-6) by (auto simp: keeps_def)

lemma keeps_trans: "keeps m m' \<Longrightarrow> keeps m' m'' \<Longrightarrow> keeps m m''"
  unfolding keeps_def same_man_def by (auto, metis dollop.surjective dollop.update_convs(4))

lemma keeps_fallback: "keeps m (setFallbackDollop y x m)"
  using fb_ex by (auto simp: keeps_def heap)

lemma keeps_fallthrough: "d \<notin> live m \<Longrightarrow> keeps m (setFallthroughDollop y d m)"
  using fb_ex by (auto simp: keeps_def heap)

lemma keeps_upd: "d \<notin> live m \<Longrightarrow> keeps m (upd_dl d u m)"
  using fb_ex by (auto simp: keeps_def heap)

section \<open>New dollops\<close>

lemma insn_run_ok:
  assumes "insn_run n (ev_ir ev) i = Inr is"
  shows "is \<noteq> []" "hd is = i" "fallthrough_run ev is"
    "\<And>j. ft_of (ev_ir ev) (last is) = Some j \<Longrightarrow> ibta_of (ev_ir ev) j \<noteq> None"
proof -
  have "is \<noteq> [] \<and> hd is = i \<and> fallthrough_run ev is \<and>
      (\<forall>j. ft_of (ev_ir ev) (last is) = Some j \<longrightarrow> ibta_of (ev_ir ev) j \<noteq> None)"
    using assms
  proof (induction n arbitrary: i "is")
    case (Suc n)
    then show ?case
      by (auto split: option.splits if_splits simp: mapR_eq_Inr fallthrough_run_def successively_Cons)
  qed simp
  then show "is \<noteq> []" "hd is = i" "fallthrough_run ev is"
    "\<And>j. ft_of (ev_ir ev) (last is) = Some j \<Longrightarrow> ibta_of (ev_ir ev) j \<noteq> None" by auto
qed

lemma insn_run_total: "ft_rank f r \<Longrightarrow> r i < n \<Longrightarrow> \<exists>is. insn_run n f i = Inr is"
proof (induction n arbitrary: i)
  case (Suc n)
  show ?case
  proof (cases "ft_of f i")
    case (Some j)
    then have "r j < n" using ft_rankD [OF Suc.prems(1)] Suc.prems(2) by (metis less_Suc_eq_le order_less_le_trans)
    then show ?thesis using Suc.IH [of j] Suc.prems(1) Some by (auto simp: mapR_eq_Inr)
  qed simp
qed simp

lemma createNewDollop_result:
  assumes run: "insn_run n (ev_ir ev) i = Inr is" and ok: "man_ok ev m"
  defines "D \<equiv> h_dnext m"
  obtains m1 where "createNewDollop n ev i m = Inr (D, m1)" "keeps m m1" "man_ext (h_dnext m) (h_enext m) m m1"
    "dinsns m1 D = is" "dollop_wf ev D m1" "d_ft (dl m1 D) = None" "h_dnext m1 = Suc D"
    "d_ft_patched (dl m1 D) = False" "d_coalesced (dl m1 D) = False"
    "CalculateSize ev D m1 = Inr (d_size (dl m1 D))"
proof -
  note i = insn_run_ok [OF run]
  define a where "a = snd (alloc_dollop m)"
  define b where "b = fold (push_entry D) is a"
  note pb = push_entries [OF b_def]
  have a: "alloc_dollop m = (D, a)" by (simp add: a_def D_def alloc_dollop_def)
  have sel: "h_enext a = h_enext m" "h_dnext a = Suc D" "dl a D = empty_dollop" "ent a = ent m"
    "\<And>x. x \<noteq> D \<Longrightarrow> dl a x = dl m x" by (simp_all add: a_def heap D_def)
  have ents: "d_entries (dl b D) = [h_enext m ..< h_enext m + length is]" using pb(1) by (simp add: sel empty_dollop_def)
  have ent: "ent b (h_enext m + k) = mk_dentry (is ! k) (Some D)" if "k < length is" for k
    using pb(9) [OF that] by (simp add: ent_def sel)
  have ins: "dinsns b D = is"
  proof (rule nth_equalityI)
    show "length (dinsns b D) = length is" by (simp add: dinsns_def ents)
    show "dinsns b D ! k = is ! k" if "k < length (dinsns b D)" for k
      using that ent [of k] by (simp add: dinsns_def ents einsn_def mk_dentry_def)
  qed
  have flags: "d_ft (dl b D) = None" "d_ft_patched (dl b D) = False" "d_coalesced (dl b D) = False"
    using arg_cong [OF pb(4), of d_ft] arg_cong [OF pb(4), of d_ft_patched] arg_cong [OF pb(4), of d_coalesced]
    by (simp_all add: sel empty_dollop_def)
  obtain z where z: "CalculateSize ev D b = Inr z" using CalculateSize_total [of b D ev] ins i(1) by auto
  define m1 where "m1 = upd_dl D (\<lambda>X. X\<lparr>d_size := z\<rparr>) b"
  have c: "createNewDollop n ev i m = Inr (D, m1)"
    using z by (simp add: createNewDollop_def run a b_def [symmetric] Let_def reCalculateSize_def m1_def mapR_def)
  have nl: "D \<notin> live m" using man_okD(5) [OF ok, of D] by (auto simp: D_def)
  have old: "ent m1 e = ent m e" if "e < h_enext m" for e
    using pb(7) [of e] that by (simp add: m1_def heap sel)
  have oldd: "dl m1 x = dl m x" if "x \<noteq> D" for x using pb(5) [of x] that by (simp add: m1_def heap sel)
  have "same_man a b" unfolding b_def by (rule same_man_fold) simp
  moreover have "same_man m a" by (simp add: a_def)
  ultimately have same: "same_man m m1" unfolding m1_def by (auto intro: same_man_trans)
  have k: "keeps m m1"
    unfolding keeps_def
  proof (intro conjI ballI same)
    show "h_enext m \<le> h_enext m1" "h_dnext m \<le> h_dnext m1" using pb(2,3) by (simp_all add: m1_def heap sel D_def)
    fix x assume x: "x \<in> live m"
    then have "dl m1 x = dl m x" using nl by (intro oldd) blast
    then show "\<exists>y. dl m1 x = (dl m x)\<lparr>d_fb := y\<rparr>" by (intro exI [of _ "d_fb (dl m x)"]) simp
    show "ent m1 e = ent m e" if "e \<in> set (d_entries (dl m x))" for e
      using old man_okD(7) [OF ok x that] by blast
  qed
  have ext: "man_ext (h_dnext m) (h_enext m) m m1"
  proof (rule keeps_ext [OF k ok])
    show "dl m1 d = dl m d" if "d < h_dnext m" for d using that by (intro oldd) (simp add: D_def)
    show "de_tgt (ent m1 e) = None" if "h_enext m \<le> e" "e < h_enext m1" for e
      using that pb(2) ent [of "e - h_enext m"] by (simp add: m1_def heap sel mk_dentry_def)
  qed (use old in \<open>simp_all add: einsn_def\<close>)
  have wf: "dollop_wf ev D m1"
    unfolding dollop_wf_def
  proof (intro conjI ballI)
    show "D < h_dnext m1" using pb(3) by (simp add: m1_def heap sel)
    show "d_entries (dl m1 D) \<noteq> []" using i(1) by (simp add: m1_def heap ents)
    show "fallthrough_run ev (dinsns m1 D)" using i(3) ins by (simp add: m1_def heap)
    fix e assume "e \<in> set (d_entries (dl m1 D))"
    then have "h_enext m \<le> e" "e < h_enext m + length is" by (auto simp: m1_def heap ents)
    then show "e < h_enext m1" "de_member (ent m1 e) = Some D"
      using pb(2) ent [of "e - h_enext m"] by (simp_all add: m1_def heap sel mk_dentry_def)
  qed
  show ?thesis
    by (rule that [OF c k ext _ wf]) (use ins flags z pb(3) sel in \<open>simp_all add: m1_def heap\<close>)
qed

text \<open>A linked dollop whose instructions are new can be registered.\<close>

lemma register_ok:
  assumes ok: "man_ok ev m" and d: "d \<notin> live m" "dollop_wf ev d m" "dollop_linked ev d m"
    and size: "CalculateSize ev d m = Inr (d_size (dl m d))"
    and new: "\<And>i. i \<in> set (dinsns m d) \<Longrightarrow> dm_map m i = None"
  shows "man_ok ev (addDollop d m)"
proof -
  let ?m = "addDollop d m"
  have lk: "dollop_linked ev x ?m" if "dollop_linked ev x m" for x
    using that by (auto simp: dollop_linked_def heap split: option.splits)
  have "distinct (dm_dollops ?m)" using ok by (simp add: addDollop_def man_ok_def)
  moreover have "dollop_wf ev x ?m \<and> dollop_linked ev x ?m \<and> CalculateSize ev x ?m = Inr (d_size (dl ?m x))"
    if "x \<in> live ?m" for x
    using that d size lk man_okD(1-3) [OF ok, of x] by (cases "x = d") (simp_all add: heap)
  moreover have "dm_map ?m i = Some x \<longleftrightarrow> x \<in> live ?m \<and> i \<in> set (dinsns ?m x)" for i x
  proof (cases "i \<in> set (dinsns m d)")
    case True
    then have "\<not> (y \<in> live m \<and> i \<in> set (dinsns m y))" for y
      using new [OF True] ok by (metis man_ok_def option.distinct(1))
    then show ?thesis using True d(1) by (auto simp: heap)
  next
    case False
    then show ?thesis using ok d(1) man_ok_map [OF ok, of i d] by (auto simp: heap man_ok_def)
  qed
  ultimately show ?thesis unfolding man_ok_def by blast
qed

text \<open>For a registered dollop the loop finds its link and only sets a fallback pointer.\<close>

lemma follow_live:
  assumes ok: "man_ok ev m" and d: "d \<in> live m"
  obtains m' where "follow_fallthroughs (Suc n) ev d m = Inr m'" "keeps m m'" "ent m' = ent m"
    "h_dnext m' = h_dnext m" "h_enext m' = h_enext m" "\<And>x. x \<notin> live m \<Longrightarrow> dl m' x = dl m x"
proof (cases "ft_of (ev_ir ev) (last (dinsns m d))")
  case None
  then have "follow_fallthroughs (Suc n) ev d m = Inr m"
    using man_okD(4) [OF ok d] by (simp add: follow_fallthroughs.simps)
  then show ?thesis using that [of m] by (simp add: keeps_refl)
next
  case (Some j)
  with man_okD(2) [OF ok d] obtain x where x: "x \<in> live m" "d_ft (dl m d) = Some x" "hd (dinsns m x) = j"
    by (auto simp: dollop_linked_def)
  have "j \<in> set (dinsns m x)" using hd_in_set [OF man_okD(4) [OF ok x(1)]] x(3) by simp
  then have map: "getContainingDollop j m = Some x" using man_okD(6) [OF ok x(1)] by (simp add: getContainingDollop_def)
  let ?m = "setFallbackDollop (Some d) x (setFallthroughDollop (Some x) d m)"
  have "follow_fallthroughs (Suc n) ev d m = Inr ?m"
    using man_okD(4) [OF ok d] man_okD(4) [OF ok x(1)] Some map x(3)
    by (simp add: follow_fallthroughs.simps assertR_def Let_def)
  moreover have "keeps m ?m"
  proof -
    have "(dl m d)\<lparr>d_ft := Some x\<rparr> = dl m d" using x(2) by (cases "dl m d") simp
    then have "dl (setFallthroughDollop (Some x) d m) = dl m" by (simp add: heap fun_eq_iff)
    then have "\<exists>z. dl ?m y = (dl m y)\<lparr>d_fb := z\<rparr>" for y
      using fb_ex [of "dl m y"] by (auto simp: heap)
    then show ?thesis by (simp add: keeps_def heap)
  qed
  ultimately show ?thesis
    by (rule that) (use d x(1) in \<open>auto simp: heap\<close>)
qed

section \<open>AddNewDollops\<close>

text \<open>The contract: a dollop that starts at the instruction, in a well-formed manager.\<close>

definition AddNew_post :: "denv \<Rightarrow> (iid \<Rightarrow> nat) \<Rightarrow> dman \<Rightarrow> iid \<Rightarrow> did \<Rightarrow> dman \<Rightarrow> bool" where
  "AddNew_post ev r m i d m' \<longleftrightarrow> man_ok ev m' \<and> d \<in> live m' \<and> hd (dinsns m' d) = i \<and>
     man_ext (h_dnext m) (h_enext m) m m' \<and> (\<forall>j. dm_map m' j \<noteq> None \<longrightarrow> dm_map m j \<noteq> None \<or> r j \<le> r i)"

definition AddNew_spec :: "denv \<Rightarrow> (iid \<Rightarrow> nat) \<Rightarrow> nat \<Rightarrow> bool" where
  "AddNew_spec ev r n \<longleftrightarrow> (\<forall>m i. man_ok ev m \<longrightarrow> 2 * r i + 2 \<le> n \<longrightarrow>
     (\<exists>d m'. AddNewDollops n ev i m = Inr (Some d, m') \<and> AddNew_post ev r m i d m'))"

lemma AddNew_specD:
  assumes "AddNew_spec ev r n" "man_ok ev m" "2 * r i + 2 \<le> n"
  obtains d m' where "AddNewDollops n ev i m = Inr (Some d, m')" "man_ok ev m'" "d \<in> live m'" "hd (dinsns m' d) = i"
    "man_ext (h_dnext m) (h_enext m) m m'" "\<And>j. dm_map m' j \<noteq> None \<Longrightarrow> dm_map m j \<noteq> None \<or> r j \<le> r i"
  using assms unfolding AddNew_spec_def AddNew_post_def by metis

text \<open>A dollop in the making: allocated, not registered.\<close>

definition pending :: "denv \<Rightarrow> did \<Rightarrow> iid list \<Rightarrow> dman \<Rightarrow> bool" where
  "pending ev d is m \<longleftrightarrow> d \<notin> live m \<and> dollop_wf ev d m \<and> dinsns m d = is \<and>
     CalculateSize ev d m = Inr (d_size (dl m d))"

lemma pending_keep:
  assumes "pending ev d is m" "man_ext (h_dnext m) (h_enext m) m m'"
  shows "pending ev d is m'" "dl m' d = dl m d" "d < h_dnext m"
proof -
  have p: "d \<notin> live m" "dollop_wf ev d m" "d < h_dnext m" using assms(1) by (auto simp: pending_def dollop_wf_def)
  note o = man_ext_outside [OF assms(2) p(2,1,3) order_refl]
  have "CalculateSize ev d m' = CalculateSize ev d m" by (rule CalculateSize_cong) (simp_all add: o)
  then show "pending ev d is m'" using o assms p by (auto simp: pending_def man_ext_def)
  show "dl m' d = dl m d" "d < h_dnext m" by (rule o(1), rule p(3))
qed

text \<open>Linking a pending dollop: to a registered dollop that begins with its last fallthrough.\<close>

lemma link_pending:
  assumes ok: "man_ok ev m" and p: "pending ev d is m" and x: "x \<in> live m"
    and ft: "ft_of (ev_ir ev) (last is) = Some (hd (dinsns m x))"
  defines "m' \<equiv> setFallbackDollop (Some d) x (setFallthroughDollop (Some x) d m)"
  shows "man_ok ev m'" "pending ev d is m'" "dollop_linked ev d m'" "keeps m m'" "dl m' d = (dl m d)\<lparr>d_ft := Some x\<rparr>"
    "ent m' = ent m" "h_dnext m' = h_dnext m" "h_enext m' = h_enext m" "\<And>y. y \<notin> live m \<Longrightarrow> y \<noteq> d \<Longrightarrow> dl m' y = dl m y"
proof -
  have nl: "d \<notin> live m" "x \<noteq> d" using p x by (auto simp: pending_def)
  show k: "keeps m m'"
    using keeps_trans [OF keeps_fallthrough [OF nl(1)] keeps_fallback] by (simp add: m'_def)
  show "man_ok ev m'" by (rule keeps_ok [OF k ok])
  show dl: "dl m' d = (dl m d)\<lparr>d_ft := Some x\<rparr>" using nl by (simp add: m'_def heap)
  show ent: "ent m' = ent m" and nx: "h_dnext m' = h_dnext m" "h_enext m' = h_enext m"
    and "\<And>y. y \<notin> live m \<Longrightarrow> y \<noteq> d \<Longrightarrow> dl m' y = dl m y" using x by (auto simp: m'_def heap)
  have ins: "dinsns m' d = dinsns m d" by (rule dinsns_cong) (simp_all add: dl einsn_def ent)
  have insx: "dinsns m' x = dinsns m x" by (rule keepsD(6) [OF k x])
  have "CalculateSize ev d m' = CalculateSize ev d m"
  proof (rule CalculateSize_cong)
    show "d_ft (dl m' d) = d_ft (dl m d) \<or> d_ft (dl m' d) \<noteq> None \<and>
        ft_of (ev_ir ev) (last (dinsns m d)) \<noteq> None \<and> dinsns m d \<noteq> []"
      using p ft by (auto simp: dl pending_def dollop_wf_def) (simp add: dinsns_def)
  qed (simp_all add: ins dl)
  then show "pending ev d is m'"
    using p keeps_live [OF k] by (auto simp: pending_def dollop_wf_def ins dl ent nx)
  show "dollop_linked ev d m'"
    using ft p x keeps_live [OF k] by (simp add: dollop_linked_def ins dl insx pending_def)
qed

text \<open>Cutting a pending dollop where it runs into a registered one.\<close>

lemma cut_pending:
  assumes ok: "man_ok ev m" and p: "pending ev d (pre @ ov) m" and ne: "pre \<noteq> []" "ov \<noteq> []"
    and x: "x \<in> live m" "hd (dinsns m x) = hd ov"
  defines "m1 \<equiv> setFallbackDollop (Some d) x (setFallthroughDollop (Some x) d m)"
  obtains m' where "removeDollopEntries ev (length pre) (length (pre @ ov)) d m1 = Inr m'"
    "man_ok ev m'" "pending ev d pre m'" "dollop_linked ev d m'" "keeps m m'"
    "ent m' = ent m" "h_dnext m' = h_dnext m" "h_enext m' = h_enext m" "\<forall>y. y \<notin> live m \<longrightarrow> y \<noteq> d \<longrightarrow> dl m' y = dl m y"
proof -
  have nl: "d \<notin> live m" "x \<noteq> d" and wf: "dollop_wf ev d m" and ins: "dinsns m d = pre @ ov"
    using p x by (auto simp: pending_def)
  have k1: "keeps m m1"
    using keeps_trans [OF keeps_fallthrough [OF nl(1)] keeps_fallback] by (simp add: m1_def)
  have d1: "dl m1 d = (dl m d)\<lparr>d_ft := Some x\<rparr>" "ent m1 = ent m" "h_dnext m1 = h_dnext m" "h_enext m1 = h_enext m"
    using nl by (auto simp: m1_def heap)
  define m2 where "m2 = upd_dl d (\<lambda>D. D\<lparr>d_entries := take (length pre) (d_entries D) @ drop (length (pre @ ov)) (d_entries D)\<rparr>) m1"
  have len: "length (d_entries (dl m d)) = length (pre @ ov)" using ins by (metis dinsns_def length_map)
  have e2: "d_entries (dl m2 d) = take (length pre) (d_entries (dl m d))"
    using len by (simp add: m2_def heap d1)
  have i2: "dinsns m2 d = pre"
  proof -
    have "dinsns m2 d = take (length pre) (map (einsn m) (d_entries (dl m d)))"
      by (simp add: dinsns_def e2 take_map) (simp add: m2_def heap einsn_def d1)
    then show ?thesis using ins by (simp add: dinsns_def)
  qed
  have ft2: "d_ft (dl m2 d) = Some x" by (simp add: m2_def heap d1)
  obtain z where z: "CalculateSize ev d m2 = Inr z" using CalculateSize_total [of m2 d ev] ft2 by auto
  define m' where "m' = upd_dl d (\<lambda>D. D\<lparr>d_size := z\<rparr>) m2"
  have r: "removeDollopEntries ev (length pre) (length (pre @ ov)) d m1 = Inr m'"
    unfolding removeDollopEntries_def m2_def [symmetric] reCalculateSize_def m'_def z by simp
  have k: "keeps m m'"
    unfolding m'_def m2_def
    by (intro keeps_trans [OF k1] keeps_trans [OF keeps_upd keeps_upd]) (simp_all add: nl keeps_live [OF k1] upd_dl_def)
  have ok': "man_ok ev m'" by (rule keeps_ok [OF k ok])
  have run: "fallthrough_run ev (pre @ ov)" using wf ins by (simp add: dollop_wf_def)
  have i': "dinsns m' d = pre" using i2 by (simp add: m'_def heap)
  have wf': "dollop_wf ev d m'"
    unfolding dollop_wf_def
  proof (intro conjI ballI)
    show "d < h_dnext m'" using wf by (simp add: m'_def m2_def heap d1 dollop_wf_def)
    show "d_entries (dl m' d) \<noteq> []" using len ne(1) by (auto simp: m'_def heap e2)
    show "fallthrough_run ev (dinsns m' d)" using run by (simp add: i' run_append)
    fix e assume "e \<in> set (d_entries (dl m' d))"
    then have "e \<in> set (d_entries (dl m d))" by (auto simp: m'_def heap e2 dest: in_set_takeD)
    then show "e < h_enext m'" "de_member (ent m' e) = Some d"
      using wf by (auto simp: dollop_wf_def m'_def m2_def heap d1)
  qed
  have "CalculateSize ev d m' = Inr (d_size (dl m' d))" using z by (simp add: m'_def heap)
  then have p': "pending ev d pre m'" using wf' nl(1) i' keeps_live(1) [OF k] by (simp add: pending_def)
  have "ft_of (ev_ir ev) (last pre) = Some (hd ov)" using run ne by (simp add: run_append)
  then have "dollop_linked ev d m'"
    using x keepsD(6) [OF k x(1)] keeps_live(1) [OF k] ft2 i'
    by (simp add: dollop_linked_def m'_def heap)
  moreover have "ent m' = ent m" "h_dnext m' = h_dnext m" "h_enext m' = h_enext m"
    by (simp_all add: m'_def m2_def heap d1)
  moreover have "\<forall>y. y \<notin> live m \<longrightarrow> y \<noteq> d \<longrightarrow> dl m' y = dl m y"
    using x(1) by (auto simp: m'_def m2_def heap m1_def)
  ultimately show ?thesis by (rule that [OF r ok' p' _ k])
qed

lemma register_ext:
  assumes "N \<le> d" "d \<notin> live m"
  shows "man_ext N E m (addDollop d m)"
  using assms by (auto simp: man_ext_def heap)

text \<open>The last step: registering the new dollop.\<close>

lemma finish_pending:
  assumes ok: "man_ok ev m" and p: "pending ev d is m" "dollop_linked ev d m" and new: "\<And>j. j \<in> set is \<Longrightarrow> dm_map m j = None"
    and rk: "ft_rank (ev_ir ev) r" and fuel: "r (hd is) < k"
  shows "man_ok ev (addDollop d m)" "AddDollops k (Some d) m = Inr (addDollop d m)"
proof -
  have p': "d \<notin> live m" "dollop_wf ev d m" "dinsns m d = is" "CalculateSize ev d m = Inr (d_size (dl m d))"
    using p(1) by (auto simp: pending_def)
  show ok': "man_ok ev (addDollop d m)"
    using new p' by (intro register_ok [OF ok _ _ p(2)]) auto
  obtain k' where k: "k = Suc k'" using fuel by (cases k) auto
  have ne: "is \<noteq> []" using p'(2,3) by (auto simp: dollop_wf_def dinsns_def)
  have "AddDollops k' (d_ft (dl m d)) (addDollop d m) = Inr ((addDollop d m)\<lparr>dm_refresh_stats := True\<rparr>)"
  proof (rule AddDollops_idle [OF rk ok'])
    fix x assume "d_ft (dl m d) = Some x"
    then have x: "x \<in> live m" "ft_of (ev_ir ev) (last is) = Some (hd (dinsns m x))"
      using p(2) p'(3) by (auto simp: dollop_linked_def split: option.splits)
    have "r (last is) \<le> r (hd is)" using run_rank(1) [OF rk, of "is"] p'(2,3) ne by (simp add: dollop_wf_def)
    then show "x \<in> live (addDollop d m) \<and> r (hd (dinsns (addDollop d m) x)) < k'"
      using x ft_rankD [OF rk x(2)] fuel k by (simp add: heap)
  qed
  then show "AddDollops k (Some d) m = Inr (addDollop d m)" unfolding k by (simp add: heap) (simp add: addDollop_def)
qed

text \<open>Every outcome of following the fallthroughs of a pending dollop links it.\<close>

lemma follow_pending:
  assumes spec: "AddNew_spec ev r k" and rk: "ft_rank (ev_ir ev) r"
    and ok: "man_ok ev m" and p: "pending ev d is m" "d_ft (dl m d) = None"
    and stop: "\<And>j. ft_of (ev_ir ev) (last is) = Some j \<Longrightarrow> ibta_of (ev_ir ev) j \<noteq> None"
    and fuel: "2 * r (last is) \<le> k" and N: "N \<le> d" "E \<le> h_enext m"
  obtains m' where "follow_fallthroughs (Suc k) ev d m = Inr m'" "man_ok ev m'" "pending ev d is m'"
    "dollop_linked ev d m'" "man_ext N E m m'"
    "\<And>j. dm_map m' j \<noteq> None \<Longrightarrow> dm_map m j \<noteq> None \<or> r j < r (last is)"
proof -
  have d: "dinsns m d = is" "is \<noteq> []" "d \<notin> live m" "d < h_dnext m"
    using p(1) by (auto simp: pending_def dollop_wf_def dinsns_def)
  show ?thesis
  proof (cases "ft_of (ev_ir ev) (last is)")
    case None
    then have "follow_fallthroughs (Suc k) ev d m = Inr m" "dollop_linked ev d m"
      using d p(2) by (simp_all add: follow_fallthroughs.simps dollop_linked_def)
    then show ?thesis by (rule that [OF _ ok p(1)]) simp_all
  next
    case (Some j)
    have rj: "r j < r (last is)" by (rule ft_rankD [OF rk Some])
    have keep_ext: "man_ext N E m1 m2" if "keeps m1 m2" "man_ok ev m1" "ent m2 = ent m1" "h_enext m2 = h_enext m1"
      "\<And>y. y \<notin> live m1 \<Longrightarrow> y \<noteq> d \<Longrightarrow> dl m2 y = dl m1 y" for m1 m2
      by (rule keeps_ext [OF that(1,2)]) (use that N in \<open>simp_all add: einsn_def\<close>)
    show ?thesis
    proof (cases "dm_map m j")
      case x: (Some x)
      then have live: "x \<in> live m" "j \<in> set (dinsns m x)" using man_ok_map [OF ok] by auto
      have "fallthrough_run ev (dinsns m x)" using man_okD(1) [OF ok live(1)] by (simp add: dollop_wf_def)
      then have hd: "j = hd (dinsns m x)" using run_head live(2) stop [OF Some] by blast
      let ?m = "setFallbackDollop (Some d) x (setFallthroughDollop (Some x) d m)"
      have "follow_fallthroughs (Suc k) ev d m = Inr ?m"
        using d Some x hd man_okD(4) [OF ok live(1)]
        by (simp add: follow_fallthroughs.simps getContainingDollop_def Let_def)
      moreover note l = link_pending [OF ok p(1) live(1), unfolded hd [symmetric], OF Some]
      moreover have "man_ext N E m ?m" by (rule keep_ext [OF l(4) ok l(6) l(8) l(9)])
      ultimately show ?thesis using that [of ?m] keeps_live(2) [OF l(4)] by metis
    next
      case None
      obtain k' where k: "k = Suc k'" using fuel rj by (cases k) auto
      have "2 * r j + 2 \<le> k" using fuel rj by simp
      then obtain x m2 where a: "AddNewDollops k ev j m = Inr (Some x, m2)" "man_ok ev m2" "x \<in> live m2"
        "hd (dinsns m2 x) = j" "man_ext (h_dnext m) (h_enext m) m m2"
        "\<And>i. dm_map m2 i \<noteq> None \<Longrightarrow> dm_map m i \<noteq> None \<or> r i \<le> r j"
        using AddNew_specD [OF spec ok] by metis
      note p2 = pending_keep [OF p(1) a(5)]
      have ft2: "ft_of (ev_ir ev) (last is) = Some (hd (dinsns m2 x))" using Some a(4) by simp
      let ?m3 = "setFallbackDollop (Some d) x (setFallthroughDollop (Some x) d m2)"
      note l = link_pending [OF a(2) p2(1) a(3) ft2]
      have x3: "x \<in> live ?m3" using keeps_live(1) [OF l(4)] a(3) by simp
      obtain m4 where f: "follow_fallthroughs (Suc k') ev x ?m3 = Inr m4" "keeps ?m3 m4" "ent m4 = ent ?m3"
        "h_dnext m4 = h_dnext ?m3" "h_enext m4 = h_enext ?m3" "\<And>y. y \<notin> live ?m3 \<Longrightarrow> dl m4 y = dl ?m3 y"
        using follow_live [OF l(1) x3] by metis
      have run: "follow_fallthroughs (Suc k) ev d m = Inr m4"
        using d Some None a(1) f(1) [folded k]
        by (simp add: follow_fallthroughs.simps(2) [of k] getContainingDollop_def Let_def)
      have e34: "man_ext (h_dnext ?m3) (h_enext ?m3) ?m3 m4"
        by (rule keeps_ext [OF f(2) l(1)]) (use f in \<open>simp_all add: einsn_def\<close>)
      have ok4: "man_ok ev m4" by (rule keeps_ok [OF f(2) l(1)])
      note p4 = pending_keep [OF l(2) e34]
      have "dinsns m4 d = dinsns ?m3 d" using p4(1) l(2) by (simp add: pending_def)
      then have lk: "dollop_linked ev d m4" using l(3) keeps_linked [OF f(2)] p4(2) by simp
      have dm: "N \<le> h_dnext m" using N d(4) by simp
      have "man_ext N E m m2" using man_ext_mono [OF a(5) dm N(2)] .
      moreover have "man_ext N E m2 ?m3" by (rule keep_ext [OF l(4) a(2) l(6) l(8) l(9)])
      moreover have "man_ext N E ?m3 m4" by (rule keep_ext [OF f(2) l(1) f(3) f(5) f(6)])
      ultimately have ext: "man_ext N E m m4" by (blast intro: man_ext_trans)
      have new: "dm_map m i \<noteq> None \<or> r i < r (last is)" if "dm_map m4 i \<noteq> None" for i
        using a(6) [of i] that rj keeps_live(2) [OF f(2)] keeps_live(2) [OF l(4)] by fastforce
      show ?thesis by (rule that [OF run ok4 p4(1) lk ext new])
    qed
  qed
qed

lemma AddNew_spec_0: "AddNew_spec ev r 0"
  by (simp add: AddNew_spec_def)

lemma dropWhile_parts:
  assumes "xs \<noteq> []" "P (hd xs)" "dropWhile P xs \<noteq> []"
  obtains pre where "xs = pre @ dropWhile P xs" "pre \<noteq> []" "length pre = length xs - length (dropWhile P xs)"
    "\<And>x. x \<in> set pre \<Longrightarrow> P x" "\<not> P (hd (dropWhile P xs))"
proof
  show "xs = takeWhile P xs @ dropWhile P xs" by simp
  show "takeWhile P xs \<noteq> []" using assms by (cases xs) auto
  have "length (takeWhile P xs) + length (dropWhile P xs) = length xs"
    by (metis length_append takeWhile_dropWhile_id)
  then show "length (takeWhile P xs) = length xs - length (dropWhile P xs)" by simp
  show "P x" if "x \<in> set (takeWhile P xs)" for x using that by (rule set_takeWhileD [THEN conjunct2])
  show "\<not> P (hd (dropWhile P xs))" by (rule hd_dropWhile [OF assms(3)])
qed

text \<open>The three ways to add a dollop.\<close>

lemma AddNew_existing:
  assumes ok: "man_ok ev m" and rk: "ft_rank (ev_ir ev) r" and fuel: "2 * r i + 2 \<le> Suc k" and i: "dm_map m i = Some d"
  shows "\<exists>d m'. AddNewDollops (Suc k) ev i m = Inr (Some d, m') \<and> AddNew_post ev r m i d m'"
proof -
  have d: "d \<in> live m" "i \<in> set (dinsns m d)" using man_ok_map [OF ok i] by auto
  show ?thesis
  proof (cases "hd (dinsns m d) = i")
    case True
    then have "AddNewDollops (Suc k) ev i m = Inr (Some d, m)"
      using i d(2) by (auto simp: AddNewDollops.simps getContainingDollop_def)
    moreover have "AddNew_post ev r m i d m" using ok d(1) True by (simp add: AddNew_post_def)
    ultimately show ?thesis by blast
  next
    case False
    have rik: "r i < k" using fuel by simp
    obtain n m1 m' where s: "split ev i d m = Inr (Some n, m1)" "AddDollops k (Some n) m1 = Inr m'"
      "man_ok ev m'" "n \<in> live m'" "hd (dinsns m' n) = i" "man_ext (h_dnext m) (h_enext m) m m'"
      "\<forall>j. dm_map m' j \<noteq> None \<longrightarrow> dm_map m j \<noteq> None" "dinsns m' d @ dinsns m' n = dinsns m d"
      using split_register [OF ok rk d False [symmetric] rik] .
    have "AddNewDollops (Suc k) ev i m = Inr (Some n, m')"
      using i False s(1,2) by (simp add: AddNewDollops.simps getContainingDollop_def mapR_def)
    moreover have "AddNew_post ev r m i n m'" using s by (auto simp: AddNew_post_def)
    ultimately show ?thesis by blast
  qed
qed

lemma run_before:
  assumes "ft_rank (ev_ir ev) r" "fallthrough_run ev (pre @ ov)" "ov \<noteq> []" "j \<in> set pre"
  shows "r (hd ov) < r j"
  using run_sorted [OF assms(1,2)] assms(3,4) by (simp add: sorted_wrt_append)

lemma AddNew_overlap:
  assumes spec: "AddNew_spec ev r k" and rk: "ft_rank (ev_ir ev) r" and ok: "man_ok ev m"
    and fuel: "2 * r i + 2 \<le> Suc k" and i: "dm_map m i = None"
    and c: "createNewDollop k ev i m = Inr (D, m1)" "D = h_dnext m" "keeps m m1"
      "man_ext (h_dnext m) (h_enext m) m m1" "pending ev D is m1" "hd is = i"
    and ov: "dropWhile (\<lambda>j. dm_map m1 j = None) is \<noteq> []"
  shows "\<exists>m'. AddNewDollops (Suc k) ev i m = Inr (Some D, m') \<and> AddNew_post ev r m i D m'"
proof -
  define ov where "ov = dropWhile (\<lambda>j. dm_map m1 j = None) is"
  have isd: "dinsns m1 D = is" "dollop_wf ev D m1" "is \<noteq> []" using c(5) by (auto simp: pending_def dollop_wf_def dinsns_def)
  have "dm_map m1 (hd is) = None" using i c(6) keeps_live(2) [OF c(3)] by simp
  from dropWhile_parts [of "is" "\<lambda>j. dm_map m1 j = None", OF isd(3) this ov, folded ov_def] obtain pre where
    pre: "is = pre @ ov" "pre \<noteq> []" "length pre = length is - length ov" "\<And>j. j \<in> set pre \<Longrightarrow> dm_map m1 j = None"
    "dm_map m1 (hd ov) \<noteq> None" by metis
  have run: "fallthrough_run ev (pre @ ov)" using isd(1,2) pre(1) by (simp add: dollop_wf_def)
  have hp: "hd pre = i" using pre(1,2) c(6) by (metis hd_append2)
  note ov = ov [folded ov_def]
  note before = run_before [OF rk run ov]
  have "r (hd ov) < r i" using before [of i] pre(2) hp by (metis hd_in_set)
  then have "2 * r (hd ov) + 2 \<le> k" using fuel by simp
  then obtain x m2 where a: "AddNewDollops k ev (hd ov) m1 = Inr (Some x, m2)" "man_ok ev m2" "x \<in> live m2"
    "hd (dinsns m2 x) = hd ov" "man_ext (h_dnext m1) (h_enext m1) m1 m2"
    "\<And>j. dm_map m2 j \<noteq> None \<Longrightarrow> dm_map m1 j \<noteq> None \<or> r j \<le> r (hd ov)"
    using AddNew_specD [OF spec keeps_ok [OF c(3) ok]] by metis
  note p2 = pending_keep(1) [OF c(5) a(5)]
  obtain m3 where r: "removeDollopEntries ev (length pre) (length is) D
      (setFallbackDollop (Some D) x (setFallthroughDollop (Some x) D m2)) = Inr m3"
    "man_ok ev m3" "pending ev D pre m3" "dollop_linked ev D m3" "keeps m2 m3" "ent m3 = ent m2"
    "h_dnext m3 = h_dnext m2" "h_enext m3 = h_enext m2" "\<forall>y. y \<notin> live m2 \<longrightarrow> y \<noteq> D \<longrightarrow> dl m3 y = dl m2 y"
    using cut_pending [OF a(2) p2 [unfolded pre(1)] pre(2) ov a(3,4), folded pre(1)] .
  have new: "dm_map m3 j = None" if "j \<in> set pre" for j
    using pre(4) [OF that] a(6) [of j] before [OF that] keeps_live(2) [OF r(5)] by fastforce
  have rik: "r (hd pre) < k" using fuel hp by simp
  note fin = finish_pending(1) [OF r(2-4) new rk rik]
  have Dn: "D \<notin> live m3" using r(3) by (simp add: pending_def)
  have "length (dinsns m2 D) = length is"
    using p2 by (simp add: pending_def)
  then have len: "length (dinsns (setFallbackDollop (Some D) x (setFallthroughDollop (Some x) D m2)) D) = length is"
    by (simp add: heap)
  have some_mapped: "\<not> (\<forall>j \<in> set is. dm_map m1 j = None)" using ov by (auto simp: ov_def)
  have res: "AddNewDollops (Suc k) ev i m = Inr (Some D, addDollop D m3)"
    using i c(1) isd ov some_mapped a(1) pre(3) r(1) len
    by (simp add: ov_def [symmetric] AddNewDollops.simps(2) getContainingDollop_def Let_def)
  have 0: "h_dnext m \<le> h_dnext m1" "h_enext m \<le> h_enext m1" using c(3) by (simp_all add: keeps_def)
  have "man_ext (h_dnext m) (h_enext m) m1 m2" using man_ext_mono [OF a(5) 0] .
  moreover have "man_ext (h_dnext m) (h_enext m) m2 m3"
    by (rule keeps_ext [OF r(5) a(2)]) (use r(6,8,9) c(2) in \<open>simp_all add: einsn_def\<close>)
  moreover have "man_ext (h_dnext m) (h_enext m) m3 (addDollop D m3)"
    by (rule register_ext) (use c(2) Dn in simp_all)
  ultimately have ext: "man_ext (h_dnext m) (h_enext m) m (addDollop D m3)"
    using c(4) by (blast intro: man_ext_trans)
  have ins: "dinsns m3 D = pre" using r(3) by (simp add: pending_def)
  have runp: "fallthrough_run ev pre" using run by (simp add: run_append)
  have dom: "dm_map m j \<noteq> None \<or> r j \<le> r i" if "dm_map (addDollop D m3) j \<noteq> None" for j
  proof (cases "j \<in> set pre")
    case True
    then show ?thesis using run_rank(1) [OF rk runp True] hp by simp
  next
    case False
    then show ?thesis using that a(6) [of j] keeps_live(2) [OF r(5)] keeps_live(2) [OF c(3)] \<open>r (hd ov) < r i\<close>
      by (auto simp: heap ins)
  qed
  have "AddNew_post ev r m i D (addDollop D m3)"
    using fin ext dom hp by (simp add: AddNew_post_def heap ins)
  with res show ?thesis by blast
qed

lemma AddNew_fresh:
  assumes spec: "AddNew_spec ev r k'" and rk: "ft_rank (ev_ir ev) r" and ok: "man_ok ev m"
    and fuel: "2 * r i + 2 \<le> Suc (Suc k')" and i: "dm_map m i = None"
    and c: "createNewDollop (Suc k') ev i m = Inr (D, m1)" "D = h_dnext m" "keeps m m1"
      "man_ext (h_dnext m) (h_enext m) m m1" "pending ev D is m1" "hd is = i" "d_ft (dl m1 D) = None"
    and stop: "\<And>j. ft_of (ev_ir ev) (last is) = Some j \<Longrightarrow> ibta_of (ev_ir ev) j \<noteq> None"
    and ov: "dropWhile (\<lambda>j. dm_map m1 j = None) is = []"
  shows "\<exists>m'. AddNewDollops (Suc (Suc k')) ev i m = Inr (Some D, m') \<and> AddNew_post ev r m i D m'"
proof -
  have isd: "dinsns m1 D = is" "dollop_wf ev D m1" "is \<noteq> []" using c(5) by (auto simp: pending_def dollop_wf_def dinsns_def)
  have run: "fallthrough_run ev is" using isd(1,2) by (simp add: dollop_wf_def)
  have li: "r (last is) \<le> r i" using run_rank(1) [OF rk run, of "last is"] isd(3) c(6) by simp
  have fu: "2 * r (last is) \<le> k'" using li fuel by simp
  have 0: "h_dnext m \<le> D" "h_enext m \<le> h_enext m1" using c(2,3) by (simp_all add: keeps_def)
  obtain m2 where f: "follow_fallthroughs (Suc k') ev D m1 = Inr m2" "man_ok ev m2" "pending ev D is m2"
    "dollop_linked ev D m2" "man_ext (h_dnext m) (h_enext m) m1 m2"
    "\<And>j. dm_map m2 j \<noteq> None \<Longrightarrow> dm_map m1 j \<noteq> None \<or> r j < r (last is)"
    using follow_pending [OF spec rk keeps_ok [OF c(3) ok] c(5,7) stop fu 0] by metis
  have new: "dm_map m2 j = None" if "j \<in> set is" for j
    using ov that f(6) [of j] run_rank(2) [OF rk run that] by (fastforce simp: dropWhile_eq_Nil_conv)
  have rik: "r (hd is) < Suc k'" using fuel c(6) by simp
  note fin = finish_pending [OF f(2-4) new rk rik]
  have Dn: "D \<notin> live m2" "dinsns m2 D = is" using f(3) by (simp_all add: pending_def)
  have res: "AddNewDollops (Suc (Suc k')) ev i m = Inr (Some D, addDollop D m2)"
    using i c(1) isd ov f(1) fin(2)
    by (simp add: AddNewDollops.simps(2) [of "Suc k'"] getContainingDollop_def Let_def mapR_def del: AddDollops.simps)
  have "man_ext (h_dnext m) (h_enext m) m2 (addDollop D m2)" by (rule register_ext [OF 0(1) Dn(1)])
  then have ext: "man_ext (h_dnext m) (h_enext m) m (addDollop D m2)"
    using c(4) f(5) by (blast intro: man_ext_trans)
  have dom: "dm_map m j \<noteq> None \<or> r j \<le> r i" if "dm_map (addDollop D m2) j \<noteq> None" for j
  proof (cases "j \<in> set is")
    case True
    then show ?thesis using run_rank(1) [OF rk run True] c(6) by simp
  next
    case False
    then show ?thesis using that f(6) [of j] keeps_live(2) [OF c(3)] li by (auto simp: heap Dn)
  qed
  have "AddNew_post ev r m i D (addDollop D m2)"
    using fin(1) ext dom c(6) by (simp add: AddNew_post_def heap Dn)
  with res show ?thesis by blast
qed

text \<open>Fuel for twice the length of the fallthrough chain is enough.\<close>

lemma AddNewDollops_spec:
  assumes rk: "ft_rank (ev_ir ev) r"
  shows "AddNew_spec ev r n"
proof (induction n rule: less_induct)
  case (less n)
  show ?case
    unfolding AddNew_spec_def
  proof (intro allI impI)
    fix m i assume ok: "man_ok ev m" and fuel: "2 * r i + 2 \<le> n"
    have "n = Suc (Suc (n - 2))" using fuel by simp
    then obtain k' where n: "n = Suc (Suc k')" by blast
    show "\<exists>d m'. AddNewDollops n ev i m = Inr (Some d, m') \<and> AddNew_post ev r m i d m'"
    proof (cases "dm_map m i")
      case (Some d)
      then show ?thesis using AddNew_existing [OF ok rk, of i "Suc k'"] fuel n by blast
    next
      case None
      have "r i < Suc k'" using fuel n by simp
      then obtain "is" where run: "insn_run (Suc k') (ev_ir ev) i = Inr is" using insn_run_total [OF rk] by metis
      note ri = insn_run_ok [OF run]
      obtain m1 where c: "createNewDollop (Suc k') ev i m = Inr (h_dnext m, m1)" "keeps m m1"
        "man_ext (h_dnext m) (h_enext m) m m1" "dinsns m1 (h_dnext m) = is" "dollop_wf ev (h_dnext m) m1"
        "d_ft (dl m1 (h_dnext m)) = None" "h_dnext m1 = Suc (h_dnext m)"
        "d_ft_patched (dl m1 (h_dnext m)) = False" "d_coalesced (dl m1 (h_dnext m)) = False"
        "CalculateSize ev (h_dnext m) m1 = Inr (d_size (dl m1 (h_dnext m)))"
        using createNewDollop_result [OF run ok] .
      have "h_dnext m \<notin> live m1" using keeps_live(1) [OF c(2)] man_okD(5) [OF ok, of "h_dnext m"] by auto
      then have p: "pending ev (h_dnext m) is m1" using c by (simp add: pending_def)
      show ?thesis
      proof (cases "dropWhile (\<lambda>j. dm_map m1 j = None) is = []")
        case True
        have "AddNew_spec ev r k'" using less n by simp
        from AddNew_fresh [OF this rk ok _ None c(1) refl c(2,3) p ri(2) c(6) ri(4) True] show ?thesis
          using fuel n by blast
      next
        case False
        have "AddNew_spec ev r (Suc k')" using less n by simp
        from AddNew_overlap [OF this rk ok _ None c(1) refl c(2,3) p ri(2) False] show ?thesis
          using fuel n by blast
      qed
    qed
  qed
qed

end
