(* ===== verification/Zipr_State.thy ===== *)
theory Zipr_State
  imports Zipr_MemorySpace Zipr_DollopMan
begin

text \<open>
  The state the phases of the rewriter share (the data members of \<open>ZiprImpl_t\<close>,
  \<open>zipr/include/zipr_impl.h\<close>), and the records of unresolved instructions and patches
  (\<open>zipr/include/unresolved.h\<close>).
\<close>

datatype UnresolvedType_t = CondJump | UncondJump_rel8 | UncondJump_rel32 | UncondJump_rel26 | Call | Data32 | Data64

record patch_t =
  pt_from :: addr
  pt_type :: UnresolvedType_t

definition patch_getSize :: "patch_t \<Rightarrow> size_t" where
  "patch_getSize p = (case pt_type p of UncondJump_rel8 \<Rightarrow> 2 | UncondJump_rel32 \<Rightarrow> 5 | _ \<Rightarrow> 0)"

text \<open>\<open>UnresolvedUnpinned_t\<close> is its instruction; a patch of one is a pair.\<close>

type_synonym unresolved_patch = "iid \<times> patch_t"

record zipr =
  z_ms :: memory_space
  z_ir :: ir
  z_dm :: dman
  z_patch_at :: "addr \<rightharpoonup> unresolved_patch"        \<comment> \<open>\<open>m_PatchAtAddrs\<close>\<close>
  z_patch_list :: "unresolved_patch list"             \<comment> \<open>a multimap; in order of insertion\<close>
  z_queue :: "(did option \<times> addr) list"              \<comment> \<open>\<open>placement_queue\<close>, a set\<close>
  z_locs :: "iid \<rightharpoonup> addr"                          \<comment> \<open>\<open>final_insn_locations\<close>\<close>

text \<open>\<open>map::insert\<close> keeps an existing entry, \<open>map::at\<close> throws.\<close>

definition RecordNewPatch :: "addr \<Rightarrow> unresolved_patch \<Rightarrow> 'a zipr_scheme \<Rightarrow> 'a zipr_scheme" where
  "RecordNewPatch a p z = (case z_patch_at z a of Some _ \<Rightarrow> z | None \<Rightarrow> z\<lparr>z_patch_at := (z_patch_at z)(a \<mapsto> p)\<rparr>)"

definition FindPatch :: "addr \<Rightarrow> 'a zipr_scheme \<Rightarrow> unresolved_patch result" where
  "FindPatch a z = (case z_patch_at z a of None \<Rightarrow> Inl OutOfRange | Some p \<Rightarrow> Inr p)"

definition RemovePatch :: "addr \<Rightarrow> 'a zipr_scheme \<Rightarrow> 'a zipr_scheme result" where
  "RemovePatch a z = assertR (z_patch_at z a \<noteq> None) (\<lambda>_. Inr (z\<lparr>z_patch_at := (z_patch_at z)(a := None)\<rparr>))"

definition FindPatchTargetAtAddr :: "addr \<Rightarrow> 'a zipr_scheme \<Rightarrow> iid option" where
  "FindPatchTargetAtAddr a z = map_option fst (z_patch_at z a)"

definition AddPatch :: "iid \<Rightarrow> patch_t \<Rightarrow> 'a zipr_scheme \<Rightarrow> 'a zipr_scheme" where
  "AddPatch uu thepatch z = z\<lparr>z_patch_list := z_patch_list z @ [(uu, thepatch)]\<rparr>"

definition queue_insert :: "did option \<times> addr \<Rightarrow> 'a zipr_scheme \<Rightarrow> 'a zipr_scheme" where
  "queue_insert p z = z\<lparr>z_queue := List.insert p (z_queue z)\<rparr>"

text \<open>Running an operation of one part on the whole state.\<close>

definition on_ms :: "(memory_space \<Rightarrow> memory_space result) \<Rightarrow> 'a zipr_scheme \<Rightarrow> 'a zipr_scheme result" where
  "on_ms f z = bindR (f (z_ms z)) (\<lambda>ms. Inr (z\<lparr>z_ms := ms\<rparr>))"

definition on_dm :: "(dman \<Rightarrow> ('b \<times> dman) result) \<Rightarrow> 'a zipr_scheme \<Rightarrow> ('b \<times> 'a zipr_scheme) result" where
  "on_dm f z = bindR (f (z_dm z)) (\<lambda>(x, m). Inr (x, z\<lparr>z_dm := m\<rparr>))"

definition cur_env :: "denv \<Rightarrow> 'a zipr_scheme \<Rightarrow> denv" where
  "cur_env ev z = ev\<lparr>ev_ir := z_ir z\<rparr>"

lemma on_ms_Inr: "on_ms f z = Inr z' \<longleftrightarrow> (\<exists>ms. f (z_ms z) = Inr ms \<and> z' = z\<lparr>z_ms := ms\<rparr>)"
  by (auto simp: on_ms_def bindR_eq_Inr)

section \<open>Writing bytes that nothing has been written to\<close>

text \<open>
  The loop all pinners use: an address that already holds a byte stops the rewriter
  (\<open>busy\<close> says how), otherwise the byte is written and reserved.
\<close>

definition reserve_byte :: "error \<Rightarrow> addr \<times> byte \<Rightarrow> memory_space \<Rightarrow> memory_space result" where
  "reserve_byte busy = (\<lambda>(a, b) ms. if ms_bytes ms a \<noteq> None then Inl busy else SplitFreeRange a (ms_put a b ms))"

definition reserve_bytes :: "error \<Rightarrow> addr \<Rightarrow> byte list \<Rightarrow> memory_space \<Rightarrow> memory_space result" where
  "reserve_bytes busy a bs = foldR (reserve_byte busy) (zip (addrs a (length bs)) bs)"

text \<open>What is written stays, and was not written before.\<close>

lemma reserve_byte_Inr:
  assumes "reserve_byte busy (a, b) ms = Inr ms'" "ms_ok ms"
  shows "ms_bytes ms a = None" "ms_bytes ms' = (ms_bytes ms)(a \<mapsto> b)" "ms_ok ms'" "a \<in> free_set ms"
    "free_set ms' = free_set ms - {a}"
proof -
  have s: "ms_bytes ms a = None" "SplitFreeRange a (ms_put a b ms) = Inr ms'"
    using assms(1) by (auto simp: reserve_byte_def split: if_splits)
  have ok: "ms_ok (ms_put a b ms)" "free_set (ms_put a b ms) = free_set ms"
    using assms(2) by (simp_all add: ms_ok_def free_set_def ms_put_def)
  note r = SplitFreeRange_Inr [OF ok(1) s(2)]
  have "ms_bytes ms' = ms_bytes (ms_put a b ms)" by (rule only_freeD(1) [OF r(4)])
  then show "ms_bytes ms a = None" "ms_bytes ms' = (ms_bytes ms)(a \<mapsto> b)" "ms_ok ms'" "a \<in> free_set ms"
    "free_set ms' = free_set ms - {a}"
    using s(1) ok(2) r(1-3) by (simp_all add: ms_put_def)
qed

lemma reserve_fold_Inr:
  assumes "foldR (reserve_byte busy) ps ms = Inr ms'" "ms_ok ms"
  shows "ms_ok ms'" "distinct (map fst ps)" "\<And>a b. (a, b) \<in> set ps \<Longrightarrow> ms_bytes ms a = None \<and> ms_bytes ms' a = Some b \<and> a \<in> free_set ms"
    "\<And>a. a \<notin> fst ` set ps \<Longrightarrow> ms_bytes ms' a = ms_bytes ms a" "free_set ms' = free_set ms - fst ` set ps"
proof -
  have "ms_ok ms' \<and> distinct (map fst ps) \<and>
    (\<forall>(a, b) \<in> set ps. ms_bytes ms a = None \<and> ms_bytes ms' a = Some b \<and> a \<in> free_set ms) \<and>
    (\<forall>a. a \<notin> fst ` set ps \<longrightarrow> ms_bytes ms' a = ms_bytes ms a) \<and> free_set ms' = free_set ms - fst ` set ps"
    using assms
  proof (induction ps arbitrary: ms)
    case (Cons p ps)
    obtain a b where p: "p = (a, b)" by (cases p)
    obtain ms1 where 1: "reserve_byte busy (a, b) ms = Inr ms1" "foldR (reserve_byte busy) ps ms1 = Inr ms'"
      using Cons.prems(1) by (auto simp: p bindR_eq_Inr)
    note r = reserve_byte_Inr [OF 1(1) Cons.prems(2)]
    note IH = Cons.IH [OF 1(2) r(3)]
    have a: "a \<notin> fst ` set ps" using IH r(2) by fastforce
    show ?case
    proof (intro conjI)
      show "distinct (map fst (p # ps))" using IH a by (simp add: p)
      show "\<forall>(x, y) \<in> set (p # ps). ms_bytes ms x = None \<and> ms_bytes ms' x = Some y \<and> x \<in> free_set ms"
        using IH r a by (auto simp: p split: if_splits)
      show "\<forall>x. x \<notin> fst ` set (p # ps) \<longrightarrow> ms_bytes ms' x = ms_bytes ms x" using IH r(2) by (simp add: p)
      show "free_set ms' = free_set ms - fst ` set (p # ps)" using IH r(5) by (auto simp: p)
    qed (use IH in simp)
  qed simp
  then show "ms_ok ms'" "distinct (map fst ps)" "\<And>a b. (a, b) \<in> set ps \<Longrightarrow> ms_bytes ms a = None \<and> ms_bytes ms' a = Some b \<and> a \<in> free_set ms"
    "\<And>a. a \<notin> fst ` set ps \<Longrightarrow> ms_bytes ms' a = ms_bytes ms a" "free_set ms' = free_set ms - fst ` set ps"
    by auto
qed

text \<open>Free addresses without a byte can be written.\<close>

lemma reserve_fold_total:
  assumes "ms_ok ms" "distinct (map fst ps)" "\<And>a. a \<in> fst ` set ps \<Longrightarrow> ms_bytes ms a = None \<and> a \<in> free_set ms"
  shows "\<exists>ms'. foldR (reserve_byte busy) ps ms = Inr ms'"
  using assms
proof (induction ps arbitrary: ms)
  case (Cons p ps)
  obtain a b where p: "p = (a, b)" by (cases p)
  have a: "ms_bytes ms a = None" "a \<in> free_set ms" using Cons.prems(3) [of a] by (simp_all add: p)
  have ok: "ms_ok (ms_put a b ms)" "a \<in> free_set (ms_put a b ms)"
    using Cons.prems(1) a(2) by (simp_all add: ms_ok_def free_set_def ms_put_def)
  obtain ms1 where "SplitFreeRange a (ms_put a b ms) = Inr ms1" by (rule SplitFreeRange_ok [OF ok])
  then have 1: "reserve_byte busy (a, b) ms = Inr ms1" by (simp add: reserve_byte_def a)
  note r = reserve_byte_Inr [OF 1 Cons.prems(1)]
  have "ms_bytes ms1 x = None \<and> x \<in> free_set ms1" if "x \<in> fst ` set ps" for x
  proof -
    have "x \<noteq> a" using Cons.prems(2) that by (auto simp: p)
    then show ?thesis using Cons.prems(3) [of x] that r(2,5) by (simp add: p)
  qed
  then have "\<exists>ms'. foldR (reserve_byte busy) ps ms1 = Inr ms'"
    using Cons.IH [OF r(3)] Cons.prems(2) by simp
  then show ?case by (simp add: p 1)
qed simp

lemma reserve_bytes_total:
  assumes "ms_ok ms" "length bs \<le> 2 ^ 64" "\<And>x. x \<in> set (addrs a (length bs)) \<Longrightarrow> ms_bytes ms x = None \<and> x \<in> free_set ms"
  shows "\<exists>ms'. reserve_bytes busy a bs ms = Inr ms'"
  unfolding reserve_bytes_def
proof (rule reserve_fold_total [OF assms(1)])
  show "distinct (map fst (zip (addrs a (length bs)) bs))" using distinct_addrs [OF assms(2)] by simp
  fix x assume "x \<in> fst ` set (zip (addrs a (length bs)) bs)"
  then show "ms_bytes ms x = None \<and> x \<in> free_set ms" using assms(3) by (auto dest: set_zip_leftD)
qed

end
