(* ===== verification/Zipr_Bits.thy ===== *)
theory Zipr_Bits
  imports Zipr_MemorySpace
begin

text \<open>
  Bytes of machine words in memory, sign extension and the offset arithmetic that the
  patchers of all four architectures share.
\<close>

section \<open>Reading and writing words in the memory space\<close>

text \<open>Reading \<open>memory_space[a]\<close> leaves a zero byte behind at an address that had none.\<close>

definition ms_touch :: "addr \<Rightarrow> memory_space \<Rightarrow> memory_space" where
  "ms_touch a ms = snd (ms_get a ms)"

lemma ms_touch [simp]:
  "ms_peek x (ms_touch a ms) = ms_peek x ms" "free_ranges (ms_touch a ms) = free_ranges ms"
  "ms_ok (ms_touch a ms) = ms_ok ms" "free_set (ms_touch a ms) = free_set ms"
  by (simp_all add: ms_touch_def ms_get_def ms_peek_def ms_ok_def free_set_def split: option.splits)

lemma ms_put [simp]:
  "ms_peek x (ms_put a b ms) = (if x = a then b else ms_peek x ms)"
  "free_ranges (ms_put a b ms) = free_ranges ms"
  by (simp_all add: ms_put_def ms_peek_def)

lemma IsByteFree_cong: "free_ranges ms = free_ranges ms' \<Longrightarrow> IsByteFree a ms = IsByteFree a ms'"
  by (simp add: IsByteFree_def FindFreeRange_def)

lemma ms_put_list_free [simp]: "free_ranges (ms_put_list a bs ms) = free_ranges ms"
  by (induction bs arbitrary: a ms) simp_all

lemma ms_put_list_ok [simp]:
  "ms_ok (ms_put_list a bs ms) = ms_ok ms" "free_set (ms_put_list a bs ms) = free_set ms"
  by (simp_all add: ms_ok_def free_set_def)

lemma ms_put_list_peek_other: "x \<notin> set (addrs a (length bs)) \<Longrightarrow> ms_peek x (ms_put_list a bs ms) = ms_peek x ms"
  by (induction bs arbitrary: a ms) (simp_all add: addrs_Suc)

lemma ms_put_list_peek:
  assumes "length bs \<le> 2 ^ 64" "i < length bs"
  shows "ms_peek (a + of_nat i) (ms_put_list a bs ms) = bs ! i"
  using assms
proof (induction bs arbitrary: a i ms)
  case (Cons b bs)
  have "distinct (addrs a (length (b # bs)))" by (rule distinct_addrs [OF Cons.prems(1)])
  then have a: "a \<notin> set (addrs (a + 1) (length bs))" by (simp add: addrs_Suc)
  show ?case
  proof (cases i)
    case 0
    then show ?thesis using ms_put_list_peek_other [OF a] by simp
  next
    case (Suc j)
    then show ?thesis using Cons.IH [of j "a + 1"] Cons.prems by (simp add: algebra_simps)
  qed
qed simp

text \<open>Byte \<open>k\<close> of a word, and the little-endian word of four bytes.\<close>

definition byte_of :: "nat \<Rightarrow> uint32 \<Rightarrow> byte" where
  "byte_of k w = ucast (drop_bit (8 * k) w)"

definition word4 :: "byte \<Rightarrow> byte \<Rightarrow> byte \<Rightarrow> byte \<Rightarrow> uint32" where
  "word4 b0 b1 b2 b3 =
     ucast b0 OR push_bit 8 (ucast b1) OR push_bit 16 (ucast b2) OR push_bit 24 (ucast b3)"

definition le_bytes :: "uint32 \<Rightarrow> byte list" where
  "le_bytes w = [byte_of 0 w, byte_of 1 w, byte_of 2 w, byte_of 3 w]"

definition ms_word :: "addr \<Rightarrow> memory_space \<Rightarrow> uint32" where
  "ms_word a ms = word4 (ms_peek a ms) (ms_peek (a + 1) ms) (ms_peek (a + 2) ms) (ms_peek (a + 3) ms)"

lemma word4_bytes [simp]: "word4 (byte_of 0 w) (byte_of 1 w) (byte_of 2 w) (byte_of 3 w) = w"
proof (rule bit_word_eqI)
  fix n assume "n < LENGTH(32)"
  then have n: "n < 32" by simp
  consider "n < 8" | "8 \<le> n" "n < 16" | "16 \<le> n" "n < 24" | "24 \<le> n" using n by linarith
  then show "bit (word4 (byte_of 0 w) (byte_of 1 w) (byte_of 2 w) (byte_of 3 w)) n = bit w n"
    using n by cases (auto simp: word4_def byte_of_def bit_simps)
qed

lemma byte_of_word4:
  "byte_of 0 (word4 a b c d) = a" "byte_of 1 (word4 a b c d) = b"
  "byte_of 2 (word4 a b c d) = c" "byte_of 3 (word4 a b c d) = d"
  by (rule bit_word_eqI; auto simp: word4_def byte_of_def bit_simps dest: bit_imp_le_length)+

lemma ms_word_touch [simp]: "ms_word a (ms_touch x ms) = ms_word a ms"
  by (simp add: ms_word_def)

lemma word_offset_ne [simp]:
  "(a::addr) + 2 \<noteq> a + 1" "(a::addr) + 3 \<noteq> a + 1" "(a::addr) + 3 \<noteq> a + 2" "(a::addr) + 1 \<noteq> a + 2"
  "(a::addr) + 1 \<noteq> a + 3" "(a::addr) + 2 \<noteq> a + 3"
  by (simp_all only: add_left_cancel) simp_all

lemma ms_word_put_bytes [simp]: "ms_word a (ms_put_list a (le_bytes w) ms) = w"
proof -
  have "a + 1 + 1 = a + 2" "a + 1 + 1 + 1 = a + 3" by simp_all
  then show ?thesis
    by (simp add: ms_word_def le_bytes_def word4_bytes [unfolded One_nat_def])
qed

section \<open>Offsets\<close>

lemma ucast_diff: "(ucast (x - y :: addr) :: uint32) = ucast x - ucast y"
proof -
  have "uint (ucast (x - y) :: uint32) = uint (ucast x - ucast y :: uint32)"
    by (simp add: unsigned_ucast_eq uint_word_ariths take_bit_eq_mod mod_simps mod_mod_cancel)
  then show ?thesis by (simp only: word_uint_eq_iff)
qed

lemma ucast_add: "(ucast (x + y :: addr) :: uint32) = ucast x + ucast y"
proof -
  have "uint (ucast (x + y) :: uint32) = uint (ucast x + ucast y :: uint32)"
    by (simp add: unsigned_ucast_eq uint_word_ariths take_bit_eq_mod mod_simps mod_mod_cancel)
  then show ?thesis by (simp only: word_uint_eq_iff)
qed

lemma ucast_scast: "(ucast (scast w :: addr) :: uint32) = w"
proof (rule bit_word_eqI)
  fix n assume "n < LENGTH(32)"
  then show "bit (ucast (scast w :: addr) :: uint32) n = bit w n"
    by (cases "n = 31") (auto simp: bit_simps min_def)
qed

lemma scast_ucast_fits:
  fixes d :: addr
  shows "scast (ucast d :: uint32) = d \<longleftrightarrow> - (2 ^ 31) \<le> sint d \<and> sint d < 2 ^ 31"
proof -
  have "sint (scast (ucast d :: uint32) :: addr) = signed_take_bit 31 (sint d)"
    by (rule bit_eqI) (auto simp: bit_simps min_def)
  then have "scast (ucast d :: uint32) = d \<longleftrightarrow> signed_take_bit 31 (sint d) = sint d"
    by (metis signed_word_eqI)
  then show ?thesis by (simp add: signed_take_bit_int_eq_self_iff)
qed

text \<open>
  The word offset of the fixed-width architectures, \<open>(int32_t)(to - from) >> 2\<close>, and their
  overflow check, \<open>(int64_t)(offset << m) == ((int64_t)offset) << m\<close>: the shift on the left
  is of an \<open>int\<close>, so it drops the upper \<open>m\<close> bits.
\<close>

definition word_offset :: "addr \<Rightarrow> addr \<Rightarrow> uint32" where
  "word_offset from to = signed_drop_bit 2 (ucast (to - from))"

definition shift_fits :: "nat \<Rightarrow> uint32 \<Rightarrow> bool" where
  "shift_fits m x \<longleftrightarrow> (scast (push_bit m x) :: addr) = push_bit m (scast x)"

lemma shift_fits_signed_take:
  assumes "shift_fits m x" "m < 32"
  shows "signed_take_bit (31 - m) x = x"
proof (rule bit_word_eqI)
  fix n assume "n < LENGTH(32)"
  then have n: "n < 32" by simp
  show "bit (signed_take_bit (31 - m) x) n = bit x n"
  proof (cases "n < 31 - m")
    case False
    have "bit (scast (push_bit m x) :: addr) (n + m) = bit (push_bit m (scast x) :: addr) (n + m)"
      using assms(1) by (simp add: shift_fits_def)
    then have "bit x (31 - m) = bit x n"
      using False n assms(2) by (cases "n = 31") (auto simp: bit_simps min_def split: if_splits)
    then show ?thesis using False n by (cases "n = 31") (auto simp: bit_simps min_def)
  qed (use n in \<open>simp add: bit_simps min_def\<close>)
qed

lemma signed_take_shift_fits:
  assumes "signed_take_bit (31 - m) x = x" "m < 32"
  shows "shift_fits m x"
  unfolding shift_fits_def
proof (rule bit_word_eqI)
  fix n assume "n < LENGTH(64)"
  have up: "bit x j = bit x (31 - m)" if "31 - m \<le> j" "j \<le> 31" for j
  proof -
    have "bit x j = bit (signed_take_bit (31 - m) x) j" using assms(1) by simp
    also have "\<dots> = bit x (31 - m)" using that by (cases "j = 31 - m") (auto simp: bit_simps min_def)
    finally show ?thesis .
  qed
  have up31: "bit x 31 = bit x (31 - m)" by (rule up) simp_all
  show "bit (scast (push_bit m x) :: addr) n = bit (push_bit m (scast x) :: addr) n"
    using up [of "n - m"] up31 \<open>n < LENGTH(64)\<close> assms(2)
    by (cases "m \<le> n"; cases "n \<le> 31"; cases "n - m \<le> 31") (auto simp: bit_simps min_def split: if_splits)
qed

lemma shift_fits_iff:
  assumes "m < 32"
  shows "shift_fits m x \<longleftrightarrow> - (2 ^ (31 - m)) \<le> sint x \<and> sint x < 2 ^ (31 - m)"
proof -
  have "sint (signed_take_bit (31 - m) x) = signed_take_bit (31 - m) (sint x)"
    by (rule bit_eqI) (cases "m = 0"; auto simp: bit_simps min_def)
  then have "signed_take_bit (31 - m) x = x \<longleftrightarrow> signed_take_bit (31 - m) (sint x) = sint x"
    by (metis signed_word_eqI)
  then show ?thesis
    using shift_fits_signed_take [OF _ assms] signed_take_shift_fits [OF _ assms]
    by (auto simp: signed_take_bit_int_eq_self_iff)
qed

lemma word_offset_target:
  assumes fits: "scast (ucast (to - from) :: uint32) = to - from" and al: "take_bit 2 (to - from) = 0"
  shows "from + push_bit 2 (scast (word_offset from to)) = to"
proof -
  let ?d = "to - from"
  have hi: "bit ?d n = bit ?d 31" if "31 \<le> n" "n < 64" for n
  proof -
    have "bit ?d n = bit (scast (ucast ?d :: uint32) :: addr) n" using fits by simp
    also have "\<dots> = bit ?d 31" using that by (simp add: bit_simps min_def)
    finally show ?thesis .
  qed
  have lo: "\<not> bit ?d n" if "n < 2" for n
  proof -
    have "bit (take_bit 2 ?d) n = False" using al by simp
    then show ?thesis using that by (simp add: bit_simps)
  qed
  have "push_bit 2 (scast (word_offset from to)) = ?d"
  proof (rule bit_word_eqI)
    fix n assume "n < LENGTH(64)"
    then have n: "n < 64" by simp
    show "bit (push_bit 2 (scast (word_offset from to)) :: addr) n = bit ?d n"
    proof (cases "n < 2")
      case True
      then show ?thesis using lo by (simp add: bit_simps)
    next
      case False
      then obtain k where "n = k + 2" using le_Suc_ex [of 2 n] by (auto simp: add.commute)
      then show ?thesis
        using n hi [of n] by (cases "k < 30") (auto simp: word_offset_def bit_simps min_def not_less)
    qed
  qed
  then show ?thesis by simp
qed

lemma signed_take_bit_low:
  "signed_take_bit k (x AND mask (Suc k) :: uint32) = signed_take_bit k x"
  by (rule bit_word_eqI) (auto simp: bit_simps min_def)

end
