(* ===== verification/Zipr_Patcher_X86.thy ===== *)
theory Zipr_Patcher_X86
  imports Zipr_Bits
begin

text \<open>
  The interface of the patchers, and the x86 patcher (\<open>zipr/src/patcher_x86.cpp\<close>): it
  writes the displacement of a branch that is already in the memory space.
\<close>

section \<open>The interface of a patcher\<close>

text \<open>
  \<open>patch a t\<close> redirects the branch at \<open>a\<close> to \<open>t\<close>. \<open>target a\<close> is where the processor goes
  from it, \<open>foot a\<close> the addresses of its bytes, and \<open>reach a t\<close> says that its displacement
  field can express \<open>t\<close>. The laws: the branch then goes to \<open>t\<close>, only its own bytes change,
  and no byte is claimed or freed.
\<close>

locale branch_patcher =
  fixes patch :: "addr \<Rightarrow> addr \<Rightarrow> memory_space \<Rightarrow> memory_space result"
    and target :: "addr \<Rightarrow> memory_space \<Rightarrow> addr option"
    and foot :: "addr \<Rightarrow> memory_space \<Rightarrow> addr set"
    and reach :: "addr \<Rightarrow> addr \<Rightarrow> memory_space \<Rightarrow> bool"
  assumes patch_target: "patch a t ms = Inr ms' \<Longrightarrow> reach a t ms \<Longrightarrow> target a ms' = Some t"
    and patch_other: "patch a t ms = Inr ms' \<Longrightarrow> reach a t ms \<Longrightarrow> x \<notin> foot a ms \<Longrightarrow> ms_peek x ms' = ms_peek x ms"
    and patch_foot: "patch a t ms = Inr ms' \<Longrightarrow> reach a t ms \<Longrightarrow> foot a ms' = foot a ms"
    and patch_free: "patch a t ms = Inr ms' \<Longrightarrow> free_ranges ms' = free_ranges ms"
    and site_local: "(\<And>x. x \<in> foot a ms \<Longrightarrow> ms_peek x ms' = ms_peek x ms) \<Longrightarrow>
        target a ms' = target a ms \<and> foot a ms' = foot a ms \<and> reach a t ms' = reach a t ms"
begin

definition patches :: "(addr \<times> addr) list \<Rightarrow> memory_space \<Rightarrow> memory_space result" where
  "patches ps = foldR (\<lambda>(a, t). patch a t) ps"

text \<open>Patching one branch leaves the branches elsewhere alone.\<close>

lemma patch_elsewhere:
  assumes "patch a t ms = Inr ms'" "reach a t ms" "foot b ms \<inter> foot a ms = {}"
  shows "target b ms' = target b ms" "foot b ms' = foot b ms" "reach b u ms' = reach b u ms"
proof -
  have "ms_peek x ms' = ms_peek x ms" if "x \<in> foot b ms" for x
    using patch_other [OF assms(1,2)] assms(3) that by blast
  then show "target b ms' = target b ms" "foot b ms' = foot b ms" "reach b u ms' = reach b u ms"
    using site_local by blast+
qed

text \<open>A branch can be patched again: the last target counts.\<close>

lemma patch_again:
  assumes "patch a t ms = Inr ms1" "patch a u ms1 = Inr ms2" "reach a u ms1"
  shows "target a ms2 = Some u"
  using patch_target [OF assms(2,3)] .

definition sites_ok :: "(addr \<times> addr) list \<Rightarrow> memory_space \<Rightarrow> bool" where
  "sites_ok ps ms \<longleftrightarrow> distinct (map fst ps) \<and> (\<forall>a t. (a, t) \<in> set ps \<longrightarrow> reach a t ms) \<and>
     (\<forall>a t c u. (a, t) \<in> set ps \<longrightarrow> (c, u) \<in> set ps \<longrightarrow> a \<noteq> c \<longrightarrow> foot a ms \<inter> foot c ms = {})"

lemma sites_ok_step:
  assumes "sites_ok ((a, t) # ps) ms" "patch a t ms = Inr m"
  shows "reach a t ms" "sites_ok ps m"
    and "(c, u) \<in> set ps \<Longrightarrow> foot c m = foot c ms \<and> foot c ms \<inter> foot a ms = {}"
proof -
  show r: "reach a t ms" using assms(1) by (simp add: sites_ok_def)
  have sep: "foot c ms \<inter> foot a ms = {}" if "(c, u) \<in> set ps" for c u
  proof -
    have "c \<noteq> a" using assms(1) that by (auto simp: sites_ok_def image_iff)
    moreover have "(c, u) \<in> set ((a, t) # ps)" "(a, t) \<in> set ((a, t) # ps)" using that by simp_all
    ultimately show ?thesis using assms(1) unfolding sites_ok_def by blast
  qed
  have fc: "foot c m = foot c ms" "reach c u m = reach c u ms" if "(c, u) \<in> set ps" for c u
    using patch_elsewhere [OF assms(2) r sep [OF that]] by auto
  then show "(c, u) \<in> set ps \<Longrightarrow> foot c m = foot c ms \<and> foot c ms \<inter> foot a ms = {}"
    using sep by blast
  have old: "foot c ms \<inter> foot d ms = {}" "reach c u ms"
    if "(c, u) \<in> set ps" "(d, v) \<in> set ps" "c \<noteq> d" for c d u v
    using assms(1) that unfolding sites_ok_def by (meson list.set_intros(2))+
  have "reach c u ms" if "(c, u) \<in> set ps" for c u
    using assms(1) that by (simp add: sites_ok_def)
  moreover have "distinct (map fst ps)" using assms(1) by (simp add: sites_ok_def)
  ultimately show "sites_ok ps m" using fc old unfolding sites_ok_def by metis
qed

lemma patches_Cons: "patches ((a, t) # ps) ms = bindR (patch a t ms) (patches ps)"
  by (simp add: patches_def)

lemma patches_elsewhere:
  assumes "patches ps ms = Inr ms'" "sites_ok ps ms" "\<And>a t. (a, t) \<in> set ps \<Longrightarrow> foot b ms \<inter> foot a ms = {}"
  shows "target b ms' = target b ms \<and> foot b ms' = foot b ms"
  using assms
proof (induction ps arbitrary: ms)
  case (Cons p ps)
  obtain a t where p: "p = (a, t)" by (cases p)
  obtain m where m: "patch a t ms = Inr m" "patches ps m = Inr ms'"
    using Cons.prems(1) by (auto simp: patches_Cons p bindR_eq_Inr)
  note st = sites_ok_step [OF Cons.prems(2) [unfolded p] m(1)]
  have "foot b ms \<inter> foot a ms = {}" using Cons.prems(3) [of a t] p by simp
  note keep = patch_elsewhere(1,2) [OF m(1) st(1) this]
  have "foot b m \<inter> foot c m = {}" if "(c, u) \<in> set ps" for c u
    using st(3) [OF that] Cons.prems(3) [of c u] that keep by simp
  then have "target b ms' = target b m \<and> foot b ms' = foot b m" by (rule Cons.IH [OF m(2) st(2)])
  then show ?case using keep by simp
qed (simp add: patches_def)

text \<open>A list of patches at disjoint branches: afterwards every branch goes to its target.\<close>

lemma patches_targets:
  assumes "patches ps ms = Inr ms'" "sites_ok ps ms" "(b, v) \<in> set ps"
  shows "target b ms' = Some v"
  using assms
proof (induction ps arbitrary: ms)
  case (Cons p ps)
  obtain a t where p: "p = (a, t)" by (cases p)
  obtain m where m: "patch a t ms = Inr m" "patches ps m = Inr ms'"
    using Cons.prems(1) by (auto simp: patches_Cons p bindR_eq_Inr)
  note st = sites_ok_step [OF Cons.prems(2) [unfolded p] m(1)]
  show ?case
  proof (cases "(b, v) = (a, t)")
    case True
    have "foot a m = foot a ms" by (rule patch_foot [OF m(1) st(1)])
    then have "foot a m \<inter> foot c m = {}" if "(c, u) \<in> set ps" for c u
      using st(3) [OF that] by auto
    then have "target a ms' = target a m" using patches_elsewhere [OF m(2) st(2)] by blast
    then show ?thesis using patch_target [OF m(1) st(1)] True by simp
  qed (use Cons.IH [OF m(2) st(2)] Cons.prems(3) p in auto)
qed simp

text \<open>When each patch alone succeeds on any memory that has the branch, the list does.\<close>

lemma patches_total:
  assumes "sites_ok ps ms"
    and "\<And>a t m. (a, t) \<in> set ps \<Longrightarrow> target a m \<noteq> None \<Longrightarrow> reach a t m \<Longrightarrow> free_ranges m = free_ranges ms \<Longrightarrow> \<exists>m'. patch a t m = Inr m'"
    and "\<And>a t. (a, t) \<in> set ps \<Longrightarrow> target a ms \<noteq> None"
  shows "\<exists>ms'. patches ps ms = Inr ms'"
  using assms
proof (induction ps arbitrary: ms)
  case (Cons p ps)
  obtain a t where p: "p = (a, t)" by (cases p)
  have "target a ms \<noteq> None" by (rule Cons.prems(3) [of a t]) (simp add: p)
  moreover have "reach a t ms" using Cons.prems(1) by (simp add: p sites_ok_def)
  ultimately have "\<exists>m. patch a t ms = Inr m" using Cons.prems(2) [of a t ms] by (simp add: p)
  then obtain m where m: "patch a t ms = Inr m" ..
  note st = sites_ok_step [OF Cons.prems(1) [unfolded p] m]
  have t: "target c m \<noteq> None" if "(c, u) \<in> set ps" for c u
  proof -
    have "target c m = target c ms" by (rule patch_elsewhere(1) [OF m st(1)]) (use st(3) [OF that] in blast)
    then show ?thesis using Cons.prems(3) [of c u] that by (simp del: not_None_eq)
  qed
  have "\<exists>ms'. patches ps m = Inr ms'"
  proof (rule Cons.IH [OF st(2)])
    fix c u n assume "(c, u) \<in> set ps" "target c n \<noteq> None" "reach c u n" "free_ranges n = free_ranges m"
    then show "\<exists>m'. patch c u n = Inr m'" using Cons.prems(2) [of c u n] patch_free [OF m] by simp
  qed (rule t)
  then show ?case by (simp add: p patches_Cons m)
qed (simp add: patches_def)

lemma patches_free:
  assumes "patches ps ms = Inr ms'"
  shows "free_ranges ms' = free_ranges ms"
  using assms
proof (induction ps arbitrary: ms)
  case (Cons p ps)
  then show ?case using patch_free by (cases p) (force simp: patches_Cons bindR_eq_Inr)
qed (simp add: patches_def)

end

section \<open>The x86 patcher\<close>

definition x86_RewritePCRelOffset ::
    "addr \<Rightarrow> addr \<Rightarrow> uint32 \<Rightarrow> addr \<Rightarrow> memory_space \<Rightarrow> memory_space" where
  "x86_RewritePCRelOffset from_addr to_addr insn_length offset_pos ms =
     (let new_offset = ucast to_addr - ucast from_addr - insn_length
      in ms_put_list (from_addr + offset_pos) (le_bytes new_offset) ms)"

definition x86_ApplyNopToPatch :: "addr \<Rightarrow> memory_space \<Rightarrow> memory_space" where
  "x86_ApplyNopToPatch a = ms_put_list a [0x0f, 0x1f, 0x44, 0, 0]"

definition x86_prefixes :: "byte list" where
  "x86_prefixes = [0xf0, 0xf2, 0xf3, 0x2e, 0x36, 0x3e, 0x26, 0x64, 0x65, 0x66, 0x67]"

text \<open>
  \<open>ApplyPatch\<close> calls itself at the next address for every prefix byte. The first argument
  bounds these calls; an x86 instruction has at most 15 bytes, so 15 is enough for one.
\<close>

fun x86_ApplyPatch :: "nat \<Rightarrow> nat \<Rightarrow> addr \<Rightarrow> addr \<Rightarrow> memory_space \<Rightarrow> memory_space result" where
  "x86_ApplyPatch 0 bits from_addr to_addr ms = Inl OutOfFuel"
| "x86_ApplyPatch (Suc fuel) bits from_addr to_addr ms =
     (let insn_first_byte = ms_peek from_addr ms; ms = ms_touch from_addr ms;
          insn_second_byte = ms_peek (from_addr + 1) ms; ms = ms_touch (from_addr + 1) ms
      in if insn_first_byte = 0x0f then
        assertR (insn_second_byte \<in> set [0x80, 0x81, 0x82, 0x83, 0x84, 0x85, 0x86, 0x87,
                                         0x88, 0x89, 0x8a, 0x8b, 0x8c, 0x8d, 0x8e, 0x8f])
          (\<lambda>_. Inr (x86_RewritePCRelOffset from_addr to_addr 6 2 ms))
      else if insn_first_byte = 0xe8 \<or> insn_first_byte = 0xe9 then
        Inr (x86_RewritePCRelOffset from_addr to_addr 5 1 ms)
      else if insn_first_byte \<in> set x86_prefixes then
        x86_ApplyPatch fuel bits (from_addr + 1) to_addr ms
      else if insn_first_byte = 0xc7 then
        assertR (insn_second_byte = 0xf8) (\<lambda>_. Inr ms)
      else if bits = 64 \<and> 0x40 \<le> insn_first_byte \<and> insn_first_byte \<le> 0x4f then
        x86_ApplyPatch fuel bits (from_addr + 1) to_addr ms
      else Inl AssertFail)"

definition sext8 :: "byte \<Rightarrow> addr" where
  "sext8 b = scast b"

definition x86_PatchJump :: "addr \<Rightarrow> addr \<Rightarrow> memory_space \<Rightarrow> memory_space result" where
  "x86_PatchJump at_addr to_addr ms =
     (let off = to_addr - at_addr - 2 in
      assertR (\<not> IsByteFree at_addr ms) (\<lambda>_.
      let opcode = ms_peek at_addr ms; ms = ms_touch at_addr ms in
      if opcode = 0xe9 then Inr (x86_RewritePCRelOffset at_addr to_addr 5 1 ms)
      else if opcode = 0xeb then
        assertR (off = sext8 (ucast off)) (\<lambda>_.
        assertR (\<not> IsByteFree (at_addr + 1) ms) (\<lambda>_.
        Inr (ms_put (at_addr + 1) (ucast off) ms)))
      else Inl AssertFail))"

definition x86_PatchCall :: "addr \<Rightarrow> addr \<Rightarrow> memory_space \<Rightarrow> memory_space result" where
  "x86_PatchCall at_addr to_addr ms =
     (let off = to_addr - at_addr - 5 in
      assertR (\<not> IsByteFree at_addr ms) (\<lambda>_.
      let opcode = ms_peek at_addr ms; ms = ms_touch at_addr ms in
      if opcode = 0xe8 then
        assertR (\<not> AreBytesFree (at_addr + 1) 4 ms) (\<lambda>_.
        Inr (ms_put_list (at_addr + 1) (le_bytes (ucast off)) ms))
      else Inl AssertFail))"

definition x86_CallToNop :: "addr \<Rightarrow> memory_space \<Rightarrow> memory_space result" where
  "x86_CallToNop at_addr = PlopBytes at_addr [0x90, 0x90, 0x90, 0x90, 0x90]"

section \<open>Where an x86 branch goes\<close>

text \<open>
  A branch at \<open>a\<close> with a 32-bit displacement: \<open>k\<close> prefix bytes, then an opcode of \<open>q\<close> bytes
  (one for call and jump, two for a conditional jump), then the displacement, relative to
  the end of the instruction.
\<close>

fun x86_site :: "nat \<Rightarrow> nat \<Rightarrow> addr \<Rightarrow> memory_space \<Rightarrow> (nat \<times> nat) option" where
  "x86_site 0 bits a ms = None"
| "x86_site (Suc fuel) bits a ms =
     (if ms_peek a ms = 0x0f then
        (if 0x80 \<le> ms_peek (a + 1) ms \<and> ms_peek (a + 1) ms \<le> 0x8f then Some (0, 2) else None)
      else if ms_peek a ms = 0xe8 \<or> ms_peek a ms = 0xe9 then Some (0, 1)
      else if ms_peek a ms \<in> set x86_prefixes \<or>
              (ms_peek a ms \<noteq> 0xc7 \<and> bits = 64 \<and> 0x40 \<le> ms_peek a ms \<and> ms_peek a ms \<le> 0x4f)
      then map_option (map_prod Suc id) (x86_site fuel bits (a + 1) ms)
      else None)"

definition x86_target :: "nat \<Rightarrow> nat \<Rightarrow> addr \<Rightarrow> memory_space \<Rightarrow> addr option" where
  "x86_target fuel bits a ms =
     (case x86_site fuel bits a ms of None \<Rightarrow> None
      | Some (k, q) \<Rightarrow> Some (a + of_nat (k + q + 4) + scast (ms_word (a + of_nat (k + q)) ms)))"

definition x86_foot :: "nat \<Rightarrow> nat \<Rightarrow> addr \<Rightarrow> memory_space \<Rightarrow> addr set" where
  "x86_foot fuel bits a ms =
     (case x86_site fuel bits a ms of None \<Rightarrow> UNIV | Some (k, q) \<Rightarrow> set (addrs a (k + q + 4)))"

text \<open>The displacement fits 32 bits, signed.\<close>

definition x86_reach :: "nat \<Rightarrow> nat \<Rightarrow> addr \<Rightarrow> addr \<Rightarrow> memory_space \<Rightarrow> bool" where
  "x86_reach fuel bits a t ms =
     (case x86_site fuel bits a ms of None \<Rightarrow> False
      | Some (k, q) \<Rightarrow> scast (ucast (t - (a + of_nat (k + q + 4))) :: uint32) = t - (a + of_nat (k + q + 4)))"

lemma x86_rewrite_eq:
  "x86_RewritePCRelOffset p t 6 2 m = ms_put_list (p + 2) (le_bytes (ucast (t - (p + 6)))) m"
  "x86_RewritePCRelOffset p t 5 1 m = ms_put_list (p + 1) (le_bytes (ucast (t - (p + 5)))) m"
  by (simp_all add: x86_RewritePCRelOffset_def ucast_diff ucast_add diff_diff_eq)

lemma x86_jcc_second:
  "b \<in> set [0x80, 0x81, 0x82, 0x83, 0x84, 0x85, 0x86, 0x87,
            0x88, 0x89, 0x8a, 0x8b, 0x8c, 0x8d, 0x8e, 0x8f] \<longleftrightarrow> 0x80 \<le> b \<and> b \<le> (0x8f :: byte)"
proof
  assume "0x80 \<le> b \<and> b \<le> (0x8f :: byte)"
  then have "128 \<le> unat b" "unat b \<le> 143" by (simp_all add: word_le_nat_alt)
  then have "unat b \<in> set [128..<144]" unfolding set_upt by (simp add: less_Suc_eq_le)
  then show "b \<in> set [0x80, 0x81, 0x82, 0x83, 0x84, 0x85, 0x86, 0x87,
            0x88, 0x89, 0x8a, 0x8b, 0x8c, 0x8d, 0x8e, 0x8f]"
    by (simp add: upt_rec word_unat_eq_iff del: set_upt)
qed auto

lemma x86_site_cong:
  assumes "\<And>x. ms_peek x ms' = ms_peek x ms"
  shows "x86_site fuel bits a ms' = x86_site fuel bits a ms"
  using assms by (induction fuel arbitrary: a) simp_all

lemma x86_site_bounds: "x86_site fuel bits a ms = Some (k, q) \<Longrightarrow> k < fuel \<and> (q = 1 \<or> q = 2)"
  by (induction fuel arbitrary: a k) (auto split: if_splits)

lemma x86_site_local:
  assumes "x86_site fuel bits a ms = Some (k, q)"
    and "\<And>x. x \<in> set (addrs a (k + q)) \<Longrightarrow> ms_peek x ms' = ms_peek x ms"
  shows "x86_site fuel bits a ms' = Some (k, q)"
  using assms
proof (induction fuel arbitrary: a k)
  case (Suc fuel)
  have q: "q = 1 \<or> q = 2" using x86_site_bounds [OF Suc.prems(1)] by simp
  then obtain m where m: "k + q = Suc m" by (cases "k + q") auto
  have a: "ms_peek a ms' = ms_peek a ms" using Suc.prems(2) [of a] by (simp add: m addrs_Suc)
  show ?case
  proof (cases k)
    case 0
    have "ms_peek (a + 1) ms' = ms_peek (a + 1) ms" if "q = 2"
      using Suc.prems(2) [of "a + 1"] that 0 by (simp add: addrs_def upt_rec numeral_2_eq_2)
    then show ?thesis using Suc.prems(1) a 0 q by (auto split: if_splits)
  next
    case (Suc j)
    have rec: "x86_site fuel bits (a + 1) ms = Some (j, q)" 
        "ms_peek a ms \<noteq> 0x0f" "ms_peek a ms \<noteq> 0xe8" "ms_peek a ms \<noteq> 0xe9"
        "ms_peek a ms \<in> set x86_prefixes \<or>
              (ms_peek a ms \<noteq> 0xc7 \<and> bits = 64 \<and> 0x40 \<le> ms_peek a ms \<and> ms_peek a ms \<le> 0x4f)"
      using Suc.prems(1) Suc by (auto split: if_splits)
    have "x86_site fuel bits (a + 1) ms' = Some (j, q)"
      using Suc.prems(2) Suc by (intro Suc.IH [OF rec(1)]) (simp add: addrs_Suc)
    then show ?thesis using rec a Suc by simp
  qed
qed simp

lemma x86_ApplyPatch_free:
  "x86_ApplyPatch fuel bits a t ms = Inr ms' \<Longrightarrow> free_ranges ms' = free_ranges ms"
  by (induction fuel bits a t ms rule: x86_ApplyPatch.induct)
    (auto simp: Let_def x86_RewritePCRelOffset_def result_simps split: if_splits)

lemma x86_ApplyPatch_site:
  assumes "x86_site fuel bits a ms = Some (k, q)"
  shows "\<exists>m. x86_ApplyPatch fuel bits a t ms =
             Inr (ms_put_list (a + of_nat (k + q)) (le_bytes (ucast (t - (a + of_nat (k + q + 4))))) m) \<and>
           (\<forall>x. ms_peek x m = ms_peek x ms) \<and> free_ranges m = free_ranges ms"
  using assms
proof (induction fuel arbitrary: a k ms)
  case (Suc fuel)
  let ?m = "ms_touch (a + 1) (ms_touch a ms)"
  show ?case
  proof (cases k)
    case 0
    then have site: "ms_peek a ms = 0x0f \<and> 0x80 \<le> ms_peek (a + 1) ms \<and> ms_peek (a + 1) ms \<le> 0x8f \<and> q = 2 \<or>
        (ms_peek a ms = 0xe8 \<or> ms_peek a ms = 0xe9) \<and> q = 1"
      using Suc.prems by (auto split: if_splits)
    have "x86_ApplyPatch (Suc fuel) bits a t ms =
        Inr (x86_RewritePCRelOffset a t (of_nat (q + 4)) (of_nat q) ?m)"
      using site by (auto simp: Let_def x86_jcc_second assertR_def simp del: set_simps)
    also have "x86_RewritePCRelOffset a t (of_nat (q + 4)) (of_nat q) ?m =
        ms_put_list (a + of_nat q) (le_bytes (ucast (t - (a + of_nat (q + 4))))) ?m"
      using site x86_rewrite_eq by auto
    finally show ?thesis using 0 by (intro exI [of _ ?m]) simp
  next
    case (Suc j)
    have rec: "x86_site fuel bits (a + 1) ms = Some (j, q)"
        "ms_peek a ms \<noteq> 0x0f" "ms_peek a ms \<noteq> 0xe8" "ms_peek a ms \<noteq> 0xe9"
        "ms_peek a ms \<in> set x86_prefixes \<or>
              (ms_peek a ms \<noteq> 0xc7 \<and> bits = 64 \<and> 0x40 \<le> ms_peek a ms \<and> ms_peek a ms \<le> 0x4f)"
      using Suc.prems Suc by (auto split: if_splits)
    have "x86_site fuel bits (a + 1) ?m = Some (j, q)"
      using rec(1) x86_site_cong [of ?m ms] by simp
    moreover have "x86_ApplyPatch (Suc fuel) bits a t ms = x86_ApplyPatch fuel bits (a + 1) t ?m"
      using rec by (auto simp: Let_def)
    ultimately show ?thesis using Suc.IH [of "a + 1" ?m j] Suc by (simp add: algebra_simps)
  qed
qed simp

text \<open>The effect of a patch on memory, with and without a displacement that fits.\<close>

lemma x86_ApplyPatch_effect:
  assumes site: "x86_site fuel bits a ms = Some (k, q)" and fuel: "fuel \<le> 2 ^ 32"
  obtains ms' where "x86_ApplyPatch fuel bits a t ms = Inr ms'"
    "x86_site fuel bits a ms' = Some (k, q)"
    "ms_word (a + of_nat (k + q)) ms' = ucast (t - (a + of_nat (k + q + 4)))"
    "\<forall>x. x \<notin> set (addrs a (k + q + 4)) \<longrightarrow> ms_peek x ms' = ms_peek x ms"
    "free_ranges ms' = free_ranges ms"
proof -
  let ?w = "ucast (t - (a + of_nat (k + q + 4))) :: uint32" and ?p = "a + of_nat (k + q)"
  obtain m where m: "x86_ApplyPatch fuel bits a t ms = Inr (ms_put_list ?p (le_bytes ?w) m)"
      "\<And>x. ms_peek x m = ms_peek x ms" "free_ranges m = free_ranges ms"
    using x86_ApplyPatch_site [OF site] by blast
  have len: "length (le_bytes ?w) = 4" by (simp add: le_bytes_def)
  have "distinct (addrs a (k + q + 4))"
    using x86_site_bounds [OF site] fuel by (intro distinct_addrs) auto
  moreover have app: "addrs a (k + q + 4) = addrs a (k + q) @ addrs ?p 4" by (rule addrs_append)
  ultimately have dis: "set (addrs a (k + q)) \<inter> set (addrs ?p 4) = {}" by simp
  have other: "ms_peek x (ms_put_list ?p (le_bytes ?w) m) = ms_peek x ms" if "x \<notin> set (addrs ?p 4)" for x
    using ms_put_list_peek_other [of x ?p "le_bytes ?w" m] that m(2) len by simp
  show ?thesis
  proof (rule that [OF m(1)])
    show "x86_site fuel bits a (ms_put_list ?p (le_bytes ?w) m) = Some (k, q)"
      using other dis by (intro x86_site_local [OF site]) blast
    show "\<forall>x. x \<notin> set (addrs a (k + q + 4)) \<longrightarrow> ms_peek x (ms_put_list ?p (le_bytes ?w) m) = ms_peek x ms"
      using other app by simp
  qed (use m(3) in simp_all)
qed

lemma x86_target_after:
  assumes "x86_site fuel bits a ms = Some (k, q)" "ms_word (a + of_nat (k + q)) ms = ucast (t - (a + of_nat (k + q + 4)))"
  shows "x86_target fuel bits a ms =
           Some (a + of_nat (k + q + 4) + scast (ucast (t - (a + of_nat (k + q + 4))) :: uint32))"
  using assms by (simp add: x86_target_def)

interpretation x86: branch_patcher "x86_ApplyPatch 15 bits" "x86_target 15 bits" "x86_foot 15 bits" "x86_reach 15 bits"
  for bits
proof unfold_locales
  fix a t ms ms' x
  assume p: "x86_ApplyPatch 15 bits a t ms = Inr ms'" and r: "x86_reach 15 bits a t ms"
  obtain k q where site: "x86_site 15 bits a ms = Some (k, q)"
    and fit: "scast (ucast (t - (a + of_nat (k + q + 4))) :: uint32) = t - (a + of_nat (k + q + 4))"
    using r by (auto simp: x86_reach_def split: option.splits)
  have fuel: "(15::nat) \<le> 2 ^ 32" by simp
  obtain m where m: "x86_ApplyPatch 15 bits a t ms = Inr m" "x86_site 15 bits a m = Some (k, q)"
      "ms_word (a + of_nat (k + q)) m = ucast (t - (a + of_nat (k + q + 4)))"
      "\<forall>x. x \<notin> set (addrs a (k + q + 4)) \<longrightarrow> ms_peek x m = ms_peek x ms" "free_ranges m = free_ranges ms"
    using x86_ApplyPatch_effect [OF site fuel, where t = t] .
  have e: "m = ms'" using p m(1) by simp
  show "x86_target 15 bits a ms' = Some t"
    using x86_target_after [OF m(2,3)] fit e by simp
  show "x86_foot 15 bits a ms' = x86_foot 15 bits a ms"
    using site m(2) e by (simp add: x86_foot_def)
  { assume "x \<notin> x86_foot 15 bits a ms"
    then show "ms_peek x ms' = ms_peek x ms" using site m(4) e by (simp add: x86_foot_def) }
next
  fix a t ms ms' assume "x86_ApplyPatch 15 bits a t ms = Inr ms'"
  then show "free_ranges ms' = free_ranges ms" by (rule x86_ApplyPatch_free)
next
  fix a t ms ms' assume same: "\<And>x. x \<in> x86_foot 15 bits a ms \<Longrightarrow> ms_peek x ms' = ms_peek x ms"
  show "x86_target 15 bits a ms' = x86_target 15 bits a ms \<and> x86_foot 15 bits a ms' = x86_foot 15 bits a ms \<and>
      x86_reach 15 bits a t ms' = x86_reach 15 bits a t ms"
  proof (cases "x86_site 15 bits a ms")
    case None
    then have "x86_site 15 bits a ms' = None" using same x86_site_cong [of ms' ms] by (simp add: x86_foot_def)
    then show ?thesis using None by (simp add: x86_target_def x86_foot_def x86_reach_def)
  next
    case (Some kq)
    obtain k q where kq: "kq = (k, q)" by (cases kq)
    have app: "addrs a (k + q + 4) = addrs a (k + q) @ addrs (a + of_nat (k + q)) 4" by (rule addrs_append)
    have eq: "ms_peek x ms' = ms_peek x ms" if "x \<in> set (addrs a (k + q + 4))" for x
      using same that Some kq by (simp add: x86_foot_def)
    have lo: "ms_peek x ms' = ms_peek x ms" if "x \<in> set (addrs a (k + q))" for x
      by (rule eq) (use that in \<open>simp only: app set_append Un_iff simp_thms\<close>)
    have "x86_site 15 bits a ms' = Some (k, q)"
      using x86_site_local [OF Some [unfolded kq] lo] .
    moreover have "ms_peek (a + of_nat (k + q) + i) ms' = ms_peek (a + of_nat (k + q) + i) ms"
      if "i \<in> {0, 1, 2, 3}" for i
    proof (rule eq)
      show "a + of_nat (k + q) + i \<in> set (addrs a (k + q + 4))"
        using that unfolding app addrs_4 set_append by auto
    qed
    then have "ms_word (a + of_nat (k + q)) ms' = ms_word (a + of_nat (k + q)) ms"
      unfolding ms_word_def by (metis add.right_neutral insertCI)
    ultimately show ?thesis using Some kq unfolding x86_target_def x86_foot_def x86_reach_def by simp
  qed
qed

text \<open>More fuel than one instruction has bytes changes nothing.\<close>

lemma x86_site_fuel: "x86_site fuel bits a ms = Some kq \<Longrightarrow> x86_site (fuel + n) bits a ms = Some kq"
  by (induction fuel arbitrary: a kq) (auto split: if_splits)

lemma x86_ApplyPatch_fuel:
  "x86_ApplyPatch fuel bits a t ms \<noteq> Inl OutOfFuel \<Longrightarrow>
     x86_ApplyPatch (fuel + n) bits a t ms = x86_ApplyPatch fuel bits a t ms"
proof (induction fuel bits a t ms rule: x86_ApplyPatch.induct)
  case (2 fuel bits a t ms)
  then show ?case by (auto simp: Let_def split: if_splits)
qed simp

section \<open>Properties\<close>

text \<open>Memory that holds given bytes, for the witnesses.\<close>

definition bytes_at :: "addr \<Rightarrow> byte list \<Rightarrow> memory_space" where
  "bytes_at a bs = ms_put_list a bs ms_init"

text \<open>C15: \<open>ZiprPatcherX86_t::ApplyPatch\<close> on a call, a jump or a conditional jump, behind any
  prefix bytes: the call returns, only the bytes of the instruction change, no byte is
  claimed or freed, and the branch goes to an address that agrees with the requested target
  in its low 32 bits. It goes to the target itself exactly when the distance fits a signed
  32-bit displacement; otherwise it is misdirected without an error.\<close>

theorem x86_ApplyPatch_retargets:
  assumes "x86_site 15 bits from_addr ms = Some (k, q)"
  shows "\<exists>ms' t. x86_ApplyPatch 15 bits from_addr to_addr ms = Inr ms' \<and>
           free_ranges ms' = free_ranges ms \<and>
           (\<forall>x. x \<notin> set (addrs from_addr (k + q + 4)) \<longrightarrow> ms_peek x ms' = ms_peek x ms) \<and>
           x86_target 15 bits from_addr ms' = Some t \<and> (ucast t :: uint32) = ucast to_addr \<and>
           (t = to_addr \<longleftrightarrow> - (2 ^ 31) \<le> sint (to_addr - (from_addr + of_nat (k + q + 4))) \<and>
              sint (to_addr - (from_addr + of_nat (k + q + 4))) < 2 ^ 31)"
proof -
  let ?n = "from_addr + of_nat (k + q + 4)"
  let ?t = "?n + scast (ucast (to_addr - ?n) :: uint32)"
  have fuel: "(15::nat) \<le> 2 ^ 32" by simp
  obtain m where m: "x86_ApplyPatch 15 bits from_addr to_addr ms = Inr m" "x86_site 15 bits from_addr m = Some (k, q)"
      "ms_word (from_addr + of_nat (k + q)) m = ucast (to_addr - ?n)"
      "\<forall>x. x \<notin> set (addrs from_addr (k + q + 4)) \<longrightarrow> ms_peek x m = ms_peek x ms" "free_ranges m = free_ranges ms"
    using x86_ApplyPatch_effect [OF assms fuel, where t = to_addr] .
  have "x86_target 15 bits from_addr m = Some ?t" by (rule x86_target_after [OF m(2,3)])
  moreover have "(ucast (scast (ucast (to_addr - ?n) :: uint32) :: addr) :: uint32) = ucast (to_addr - ?n)"
    by (rule ucast_scast)
  then have "(ucast ?t :: uint32) = ucast to_addr" by (simp add: ucast_add ucast_diff)
  moreover have "?t = to_addr \<longleftrightarrow> scast (ucast (to_addr - ?n) :: uint32) = to_addr - ?n"
    by (simp only: eq_diff_eq add.commute)
  ultimately show ?thesis using m(1,4,5) unfolding scast_ucast_fits by (intro exI conjI) assumption+
qed

theorem x86_ApplyPatch_retargets_witness:
  "\<exists>ms' t. x86_ApplyPatch 15 64 0x1000 0x2000 (bytes_at 0x1000 [0x3e, 0x0f, 0x85, 0, 0, 0, 0]) = Inr ms' \<and>
     x86_target 15 64 0x1000 ms' = Some t \<and> t = 0x2000"
proof -
  let ?ms = "bytes_at 0x1000 [0x3e, 0x0f, 0x85, 0, 0, 0, 0]"
  have "x86_site (Suc (Suc 0)) 64 0x1000 ?ms = Some (1, 2)"
    by (simp add: bytes_at_def x86_prefixes_def)
  then have "x86_site 15 64 0x1000 ?ms = Some (1, 2)"
    using x86_site_fuel [of "Suc (Suc 0)" 64 "0x1000" ?ms _ 13] by simp
  from x86_ApplyPatch_retargets [OF this, of "0x2000"] show ?thesis by auto
qed

text \<open>The short form of \<open>PatchJump\<close>.\<close>

lemma sext8_fits: "x = sext8 (ucast x) \<longleftrightarrow> - 128 \<le> sint x \<and> sint x < 128" for x :: addr
proof -
  have "sint (sext8 (ucast x)) = signed_take_bit 7 (sint x)"
    unfolding sext8_def by (rule bit_eqI) (auto simp: bit_simps min_def)
  then have "x = sext8 (ucast x) \<longleftrightarrow> signed_take_bit 7 (sint x) = sint x"
    by (metis signed_word_eqI)
  then show ?thesis by (simp add: signed_take_bit_int_eq_self_iff)
qed

lemma x86_PatchJump_eb:
  assumes "ms_peek a ms = 0xeb"
  shows "x86_PatchJump a t ms =
    (if IsByteFree a ms \<or> IsByteFree (a + 1) ms \<or> \<not> (- 128 \<le> sint (t - a - 2) \<and> sint (t - a - 2) < 128)
     then Inl AssertFail else Inr (ms_put (a + 1) (ucast (t - a - 2)) (ms_touch a ms)))"
proof -
  have cong: "IsByteFree x (ms_touch a ms) = IsByteFree x ms" for x
    by (rule IsByteFree_cong) simp
  show ?thesis
    unfolding x86_PatchJump_def Let_def assertR_def cong sext8_fits by (simp add: assms)
qed

text \<open>\<open>ZiprPatcherX86_t::PatchJump\<close> retargets a jump that has been claimed: the five-byte
  form as \<open>ApplyPatch\<close> does, and the two-byte form exactly when the displacement fits a
  signed byte and the displacement byte is claimed; then the short jump goes to the target.
  Every other opcode, and a jump on free bytes, fails an assertion.\<close>

theorem x86_PatchJump_short:
  assumes "ms_peek a ms = 0xeb"
  shows "case x86_PatchJump a t ms of
      Inr ms' \<Rightarrow> a + 2 + sext8 (ms_peek (a + 1) ms') = t \<and> ms_peek a ms' = 0xeb \<and>
        (\<forall>x. x \<noteq> a + 1 \<longrightarrow> ms_peek x ms' = ms_peek x ms) \<and>
        \<not> IsByteFree a ms \<and> \<not> IsByteFree (a + 1) ms
    | Inl e \<Rightarrow> e = AssertFail \<and>
        (IsByteFree a ms \<or> IsByteFree (a + 1) ms \<or> \<not> (- 128 \<le> sint (t - a - 2) \<and> sint (t - a - 2) < 128))"
proof (cases "IsByteFree a ms \<or> IsByteFree (a + 1) ms \<or> \<not> (- 128 \<le> sint (t - a - 2) \<and> sint (t - a - 2) < 128)")
  case True
  then show ?thesis unfolding x86_PatchJump_eb [OF assms] by auto
next
  case False
  then have "a + 2 + sext8 (ucast (t - a - 2)) = a + 2 + (t - a - 2)" using sext8_fits [of "t - a - 2"] by simp
  then show ?thesis using False assms unfolding x86_PatchJump_eb [OF assms] by simp
qed

theorem x86_PatchJump_short_witness:
  "\<exists>ms'. x86_PatchJump 0x1000 0x1010 (bytes_at 0x1000 [0xeb, 0]) = Inr ms' \<and>
     0x1000 + 2 + sext8 (ms_peek (0x1000 + 1) ms') = 0x1010"
proof -
  let ?ms = "bytes_at 0x1000 [0xeb, 0]"
  have p: "ms_peek 0x1000 ?ms = 0xeb" by (simp add: bytes_at_def)
  have f: "\<not> IsByteFree x ?ms" for x
    by (simp add: bytes_at_def IsByteFree_def IsValidRange_def FindFreeRange_def fr_find_def rs_find_def
        rs_lower_bound_def ms_init_def FreeRanges_init_def)
  show ?thesis using x86_PatchJump_short [OF p, of "0x1010"] f
    by (cases "x86_PatchJump 0x1000 0x1010 ?ms") auto
qed

text \<open>C16: Patching a list of x86 branches that share no byte, in any order, leaves every one
  of them going to its own target: no patch disturbs another one.\<close>

theorem x86_patches_independent:
  assumes "foldR (\<lambda>(a, t). x86_ApplyPatch 15 bits a t) ps ms = Inr ms'"
    and "distinct (map fst ps)" and "\<forall>a t. (a, t) \<in> set ps \<longrightarrow> x86_reach 15 bits a t ms"
    and "\<forall>a t c u. (a, t) \<in> set ps \<longrightarrow> (c, u) \<in> set ps \<longrightarrow> a \<noteq> c \<longrightarrow>
           x86_foot 15 bits a ms \<inter> x86_foot 15 bits c ms = {}"
    and "(b, v) \<in> set ps"
  shows "x86_target 15 bits b ms' = Some v \<and> free_ranges ms' = free_ranges ms"
proof -
  have p: "x86.patches bits ps ms = Inr ms'" using assms(1) by (simp add: x86.patches_def)
  have s: "x86.sites_ok bits ps ms" using assms(2-4) by (simp add: x86.sites_ok_def)
  show ?thesis using x86.patches_targets [OF p s assms(5)] x86.patches_free [OF p] by blast
qed

theorem x86_patches_independent_witness:
  "\<exists>ms'. foldR (\<lambda>(a, t). x86_ApplyPatch 15 64 a t) [(0x1000, 0x2000), (0x1005, 0x1000)]
       (bytes_at 0x1000 [0xe8, 0, 0, 0, 0, 0xe9, 0, 0, 0, 0]) = Inr ms' \<and>
     x86_target 15 64 0x1000 ms' = Some 0x2000"
proof -
  let ?ms = "bytes_at 0x1000 [0xe8, 0, 0, 0, 0, 0xe9, 0, 0, 0, 0]"
  have f: "(15::nat) \<le> 2 ^ 32" by simp
  have site: "x86_site 15 64 a ms = Some (0, 1)" if "ms_peek a ms = 0xe8 \<or> ms_peek a ms = 0xe9" for a ms
    using x86_site_fuel [of "Suc 0" 64 a ms "(0, 1)" 14] that by (auto simp: x86_prefixes_def)
  have s: "x86_site 15 64 0x1000 ?ms = Some (0, 1)" "x86_site 15 64 0x1005 ?ms = Some (0, 1)"
    by (rule site; simp add: bytes_at_def)+
  obtain m where m: "x86_ApplyPatch 15 64 0x1000 0x2000 ?ms = Inr m"
      "\<forall>x. x \<notin> set (addrs 0x1000 (0 + 1 + 4)) \<longrightarrow> ms_peek x m = ms_peek x ?ms"
    using x86_ApplyPatch_effect [OF s(1) f, where t = "0x2000"] by metis
  have "0x1005 \<notin> set (addrs 0x1000 (0 + 1 + 4))" by (simp add: addrs_def upt_rec)
  then have "ms_peek 0x1005 m = 0xe9" using m(2) by (simp add: bytes_at_def)
  then obtain m' where m': "x86_ApplyPatch 15 64 0x1005 0x1000 m = Inr m'"
    using x86_ApplyPatch_effect [OF site f, where t = "0x1000"] by metis
  have five: "(0::nat) + 1 + 4 = 5" by simp
  have "x86_foot 15 64 0x1000 ?ms = set (addrs 0x1000 5)" "x86_foot 15 64 0x1005 ?ms = set (addrs 0x1005 5)"
    unfolding x86_foot_def s option.case prod.case five by (rule refl)+
  then have foot: "x86_foot 15 64 0x1000 ?ms \<inter> x86_foot 15 64 0x1005 ?ms = {}"
      "x86_foot 15 64 0x1005 ?ms \<inter> x86_foot 15 64 0x1000 ?ms = {}"
    by (simp_all add: addrs_def upt_rec)
  have run: "foldR (\<lambda>(a, t). x86_ApplyPatch 15 64 a t) [(0x1000, 0x2000), (0x1005, 0x1000)] ?ms = Inr m'"
    using m(1) m' by simp
  have "x86_target 15 64 0x1000 m' = Some 0x2000 \<and> free_ranges m' = free_ranges ?ms"
  proof (rule x86_patches_independent [OF run])
    show "\<forall>a t. (a, t) \<in> set [(0x1000, 0x2000), (0x1005, 0x1000)] \<longrightarrow> x86_reach 15 64 a t ?ms"
      using s by (auto simp: x86_reach_def)
    show "\<forall>a t c u. (a, t) \<in> set [(0x1000, 0x2000), (0x1005, 0x1000)] \<longrightarrow>
        (c, u) \<in> set [(0x1000, 0x2000), (0x1005, 0x1000)] \<longrightarrow> a \<noteq> c \<longrightarrow>
        x86_foot 15 64 a ?ms \<inter> x86_foot 15 64 c ?ms = {}"
      using foot by auto
  qed simp_all
  then show ?thesis using run by blast
qed

end
