(* ===== verification/Zipr_Patcher_RISC.thy ===== *)
theory Zipr_Patcher_RISC
  imports Zipr_Patcher_X86
begin

text \<open>
  The patchers of the fixed-width architectures (\<open>zipr/src/patcher_arm32.cpp\<close>,
  \<open>patcher_mips32.cpp\<close>, \<open>patcher_arm64.cpp\<close>). The offset of a branch counts words and sits
  in a bit field of the instruction; the patcher checks that it fits, and the ARM64 one
  builds a trampoline for a conditional branch that does not reach its target.
\<close>

section \<open>Offset fields\<close>

text \<open>The signed value of the \<open>k\<close>-bit field at bit \<open>sh\<close>, and the word with the field replaced.\<close>

definition field :: "nat \<Rightarrow> nat \<Rightarrow> uint32 \<Rightarrow> uint32" where
  "field sh k w = signed_take_bit (k - 1) (drop_bit sh w)"

definition set_field :: "nat \<Rightarrow> nat \<Rightarrow> uint32 \<Rightarrow> uint32 \<Rightarrow> uint32" where
  "set_field sh k x w = (w AND NOT (push_bit sh (mask k))) OR push_bit sh (x AND mask k)"

lemma bit_set_field:
  assumes "sh + k \<le> 32" "n < 32"
  shows "bit (set_field sh k x w) n = (if sh \<le> n \<and> n < sh + k then bit x (n - sh) else bit w n)"
  using assms by (auto simp: set_field_def bit_simps)

lemma field_set_field:
  assumes "sh + k \<le> 32" "0 < k"
  shows "field sh k (set_field sh k x w) = signed_take_bit (k - 1) x"
proof (rule bit_word_eqI)
  fix n assume "n < LENGTH(32)"
  then show "bit (field sh k (set_field sh k x w)) n = bit (signed_take_bit (k - 1) x) n"
    using assms by (auto simp: field_def bit_simps bit_set_field min_def)
qed

lemma field_fits:
  assumes "sh + k \<le> 32" "0 < k" "shift_fits (32 - k) x"
  shows "field sh k (set_field sh k x w) = x"
proof -
  have "31 - (32 - k) = k - 1" using assms(1) by simp
  then show ?thesis
    using shift_fits_signed_take [OF assms(3)] field_set_field [OF assms(1,2)] assms(2) by simp
qed

text \<open>The address a word offset leads to from \<open>pc\<close>.\<close>

definition rel_target :: "addr \<Rightarrow> uint32 \<Rightarrow> addr" where
  "rel_target pc off = pc + push_bit 2 (scast off)"

text \<open>What the truncation to 32 bits and the shift keep of a distance.\<close>

definition word_reach :: "addr \<Rightarrow> addr \<Rightarrow> bool" where
  "word_reach from to \<longleftrightarrow> scast (ucast (to - from) :: uint32) = to - from \<and> take_bit 2 (to - from) = 0"

lemma rel_target_word_offset: "word_reach from to \<Longrightarrow> rel_target from (word_offset from to) = to"
  by (simp add: rel_target_def word_reach_def word_offset_target)

section \<open>ARM32\<close>

definition arm32_is_branch :: "byte \<Rightarrow> bool" where
  "arm32_is_branch first_byte \<longleftrightarrow> drop_bit 1 first_byte AND 7 = 5"

definition arm32_ApplyPatch :: "addr \<Rightarrow> addr \<Rightarrow> memory_space \<Rightarrow> memory_space result" where
  "arm32_ApplyPatch from_addr to_addr ms =
     (let first_byte = ms_peek (from_addr + 3) ms; ms = ms_touch (from_addr + 3) ms;
          new_offset = word_offset (from_addr + 8) to_addr
      in if arm32_is_branch first_byte then
        assertR (shift_fits 8 new_offset) (\<lambda>_.
        let trimmed_offset = new_offset AND mask 24 in
        Inr (ms_put_list from_addr
          [byte_of 0 trimmed_offset, byte_of 1 trimmed_offset, byte_of 2 trimmed_offset] ms))
      else Inl AssertFail)"

definition arm32_PatchJump :: "addr \<Rightarrow> addr \<Rightarrow> memory_space \<Rightarrow> memory_space result" where
  "arm32_PatchJump = arm32_ApplyPatch"

text \<open>\<open>B\<close> and \<open>BL\<close>: a 24-bit word offset from the address of the branch plus 8.\<close>

definition arm32_target :: "addr \<Rightarrow> memory_space \<Rightarrow> addr option" where
  "arm32_target a ms =
     (if arm32_is_branch (ms_peek (a + 3) ms) then Some (rel_target (a + 8) (field 0 24 (ms_word a ms)))
      else None)"

definition word_foot :: "addr \<Rightarrow> memory_space \<Rightarrow> addr set" where
  "word_foot a ms = set (addrs a 4)"

lemma word_foot_eq: "word_foot a ms = {a, a + 1, a + 2, a + 3}"
  by (auto simp: word_foot_def addrs_4)

lemma addr_offsets [simp]: "(a::addr) + 1 + 1 = a + 2" "(a::addr) + 2 + 1 = a + 3" "(a::addr) + 1 + 2 = a + 3"
  by simp_all

lemma arm32_word:
  "word4 (byte_of 0 (x AND mask 24)) (byte_of 1 (x AND mask 24)) (byte_of 2 (x AND mask 24)) b =
     set_field 0 24 x (word4 0 0 0 b)"
proof (rule bit_word_eqI)
  fix n assume "n < LENGTH(32)"
  then have n: "n < 32" by simp
  consider "n < 8" | "8 \<le> n" "n < 16" | "16 \<le> n" "n < 24" | "24 \<le> n" using n by linarith
  then show "bit (word4 (byte_of 0 (x AND mask 24)) (byte_of 1 (x AND mask 24)) (byte_of 2 (x AND mask 24)) b) n =
      bit (set_field 0 24 x (word4 0 0 0 b)) n"
    using n by cases (auto simp: bit_set_field word4_def byte_of_def bit_simps)
qed

lemma arm32_ApplyPatch_effect:
  assumes "arm32_ApplyPatch a t ms = Inr ms'"
  shows "arm32_is_branch (ms_peek (a + 3) ms)" "ms_peek (a + 3) ms' = ms_peek (a + 3) ms"
    "field 0 24 (ms_word a ms') = word_offset (a + 8) t" "x \<notin> word_foot a ms \<Longrightarrow> ms_peek x ms' = ms_peek x ms"
    "free_ranges ms' = free_ranges ms"
proof -
  let ?w = "word_offset (a + 8) t"
  let ?bs = "[byte_of 0 (?w AND mask 24), byte_of 1 (?w AND mask 24), byte_of 2 (?w AND mask 24)]"
  have ms': "ms' = ms_put_list a ?bs (ms_touch (a + 3) ms)" "shift_fits 8 ?w"
    and br: "arm32_is_branch (ms_peek (a + 3) ms)"
    using assms by (auto simp: arm32_ApplyPatch_def Let_def result_simps split: if_splits)
  show "arm32_is_branch (ms_peek (a + 3) ms)" by (rule br)
  show p3: "ms_peek (a + 3) ms' = ms_peek (a + 3) ms" by (simp add: ms'(1))
  have "ms_word a ms' = set_field 0 24 ?w (word4 0 0 0 (ms_peek (a + 3) ms))"
    unfolding arm32_word [symmetric] by (simp add: ms_word_def ms'(1))
  then show "field 0 24 (ms_word a ms') = ?w" using field_fits [of 0 24 ?w] ms'(2) by simp
  show "x \<notin> word_foot a ms \<Longrightarrow> ms_peek x ms' = ms_peek x ms"
    by (simp add: word_foot_eq ms'(1))
  show "free_ranges ms' = free_ranges ms" by (simp add: ms'(1))
qed

lemma word_foot_peek: "(\<And>x. x \<in> word_foot a ms \<Longrightarrow> ms_peek x ms' = ms_peek x ms) \<Longrightarrow>
    ms_word a ms' = ms_word a ms \<and> ms_peek a ms' = ms_peek a ms \<and> ms_peek (a + 1) ms' = ms_peek (a + 1) ms \<and>
    ms_peek (a + 2) ms' = ms_peek (a + 2) ms \<and> ms_peek (a + 3) ms' = ms_peek (a + 3) ms"
  by (simp add: word_foot_eq ms_word_def)

definition arm32_reach :: "addr \<Rightarrow> addr \<Rightarrow> memory_space \<Rightarrow> bool" where
  "arm32_reach a t ms \<longleftrightarrow> word_reach (a + 8) t"

interpretation arm32: branch_patcher arm32_ApplyPatch arm32_target word_foot arm32_reach
proof unfold_locales
  fix a t ms ms' assume p: "arm32_ApplyPatch a t ms = Inr ms'" and r: "arm32_reach a t ms"
  show "arm32_target a ms' = Some t"
    using arm32_ApplyPatch_effect(1-3) [OF p] rel_target_word_offset r
    by (simp add: arm32_target_def arm32_reach_def)
  show "word_foot a ms' = word_foot a ms" by (simp add: word_foot_def)
  fix x assume "x \<notin> word_foot a ms"
  then show "ms_peek x ms' = ms_peek x ms" by (rule arm32_ApplyPatch_effect(4) [OF p])
next
  fix a t ms ms' assume p: "arm32_ApplyPatch a t ms = Inr ms'"
  then show "free_ranges ms' = free_ranges ms" by (rule arm32_ApplyPatch_effect(5))
next
  fix a t ms ms' assume "\<And>x. x \<in> word_foot a ms \<Longrightarrow> ms_peek x ms' = ms_peek x ms"
  from word_foot_peek [OF this] show "arm32_target a ms' = arm32_target a ms \<and> word_foot a ms' = word_foot a ms \<and>
      arm32_reach a t ms' = arm32_reach a t ms"
    by (simp add: arm32_target_def arm32_reach_def word_foot_def)
qed

section \<open>MIPS32\<close>

text \<open>Instructions are stored most significant byte first.\<close>

definition mips32_is_branch :: "uint32 \<Rightarrow> uint32 \<Rightarrow> bool" where
  "mips32_is_branch top6bits top16bits_nocc \<longleftrightarrow>
     top6bits \<in> set [0b000100, 0b000001, 0b000111, 0b000110, 0b000101] \<or>
     top16bits_nocc = 0b0100010100000000 \<or> top16bits_nocc = 0b0100010100000001"

definition mips32_top6 :: "byte \<Rightarrow> uint32" where
  "mips32_top6 first_byte = drop_bit 2 (ucast first_byte) AND 0b111111"

definition mips32_top16_nocc :: "byte \<Rightarrow> byte \<Rightarrow> uint32" where
  "mips32_top16_nocc first_byte second_byte =
     (push_bit 8 (ucast first_byte) OR ucast second_byte) AND NOT 0b11100"

definition mips32_ApplyPatch :: "addr \<Rightarrow> addr \<Rightarrow> memory_space \<Rightarrow> memory_space result" where
  "mips32_ApplyPatch from_addr to_addr ms =
     (let first_byte = ms_peek from_addr ms; ms = ms_touch from_addr ms;
          second_byte = ms_peek (from_addr + 1) ms; ms = ms_touch (from_addr + 1) ms;
          top6bits = mips32_top6 first_byte;
          top16bits_nocc = mips32_top16_nocc first_byte second_byte
      in if mips32_is_branch top6bits top16bits_nocc then
        let new_offset = word_offset (from_addr + 4) to_addr in
        assertR (shift_fits 16 new_offset) (\<lambda>_.
        let trimmed_offset = new_offset AND mask 16;
            ms = ms_put (from_addr + 3) (byte_of 0 trimmed_offset) ms
        in Inr (ms_put (from_addr + 2) (byte_of 1 trimmed_offset) ms))
      else if top6bits = 0b00010 then
        let new_offset = signed_drop_bit 2 (ucast to_addr :: uint32) in
        assertR (shift_fits 6 new_offset) (\<lambda>_.
        let trimmed_offset = new_offset AND mask 26;
            ms = ms_put (from_addr + 3) (byte_of 0 trimmed_offset) ms;
            ms = ms_put (from_addr + 2) (byte_of 1 trimmed_offset) ms;
            ms = ms_put (from_addr + 1) (byte_of 2 trimmed_offset) ms
        in Inr (ms_put from_addr (ms_peek from_addr ms OR (byte_of 3 trimmed_offset AND 0b11)) ms))
      else Inl AssertFail)"

definition mips32_PatchJump :: "addr \<Rightarrow> addr \<Rightarrow> memory_space \<Rightarrow> memory_space result" where
  "mips32_PatchJump = mips32_ApplyPatch"

definition be_word :: "addr \<Rightarrow> memory_space \<Rightarrow> uint32" where
  "be_word a ms = word4 (ms_peek (a + 3) ms) (ms_peek (a + 2) ms) (ms_peek (a + 1) ms) (ms_peek a ms)"

text \<open>
  A branch has a 16-bit word offset from the next instruction, a \<open>j\<close> the lower 28 bits of
  its target, in the 256 MB region of the next instruction.
\<close>

definition mips32_branch_at :: "addr \<Rightarrow> memory_space \<Rightarrow> bool" where
  "mips32_branch_at a ms \<longleftrightarrow>
     mips32_is_branch (mips32_top6 (ms_peek a ms)) (mips32_top16_nocc (ms_peek a ms) (ms_peek (a + 1) ms))"

definition mips32_target :: "addr \<Rightarrow> memory_space \<Rightarrow> addr option" where
  "mips32_target a ms =
     (if mips32_branch_at a ms then Some (rel_target (a + 4) (field 0 16 (be_word a ms)))
      else if mips32_top6 (ms_peek a ms) = 0b000010 then
        Some (((a + 4) AND NOT (mask 28)) OR push_bit 2 (ucast (be_word a ms AND mask 26)))
      else None)"

text \<open>The branch goes to \<open>t\<close> when the patch of a branch succeeds.\<close>

definition mips32_reach :: "addr \<Rightarrow> addr \<Rightarrow> memory_space \<Rightarrow> bool" where
  "mips32_reach a t ms \<longleftrightarrow> mips32_branch_at a ms \<and> word_reach (a + 4) t"

lemma mips32_word:
  "word4 (byte_of 0 (x AND mask 16)) (byte_of 1 (x AND mask 16)) b c = set_field 0 16 x (word4 0 0 b c)"
proof (rule bit_word_eqI)
  fix n assume "n < LENGTH(32)"
  then have n: "n < 32" by simp
  consider "n < 8" | "8 \<le> n" "n < 16" | "16 \<le> n" "n < 24" | "24 \<le> n" using n by linarith
  then show "bit (word4 (byte_of 0 (x AND mask 16)) (byte_of 1 (x AND mask 16)) b c) n =
      bit (set_field 0 16 x (word4 0 0 b c)) n"
    using n by cases (auto simp: bit_set_field word4_def byte_of_def bit_simps)
qed

lemma mips32_branch_effect:
  assumes p: "mips32_ApplyPatch a t ms = Inr ms'" and b: "mips32_branch_at a ms"
  shows "mips32_branch_at a ms'" "field 0 16 (be_word a ms') = word_offset (a + 4) t"
    "x \<notin> word_foot a ms \<Longrightarrow> ms_peek x ms' = ms_peek x ms"
proof -
  let ?w = "word_offset (a + 4) t"
  have ms': "ms' = ms_put (a + 2) (byte_of 1 (?w AND mask 16)) (ms_put (a + 3) (byte_of 0 (?w AND mask 16))
      (ms_touch (a + 1) (ms_touch a ms)))" "shift_fits 16 ?w"
    using p b by (simp_all add: mips32_ApplyPatch_def mips32_branch_at_def Let_def assertR_def split: if_splits)
  show "mips32_branch_at a ms'" using b by (simp add: mips32_branch_at_def ms'(1))
  have "be_word a ms' = set_field 0 16 ?w (word4 0 0 (ms_peek (a + 1) ms) (ms_peek a ms))"
    unfolding mips32_word [symmetric] by (simp add: be_word_def ms'(1))
  then show "field 0 16 (be_word a ms') = ?w" using field_fits [of 0 16 ?w] ms'(2) by simp
  show "x \<notin> word_foot a ms \<Longrightarrow> ms_peek x ms' = ms_peek x ms" by (simp add: word_foot_eq ms'(1))
qed

lemma mips32_free: "mips32_ApplyPatch a t ms = Inr ms' \<Longrightarrow> free_ranges ms' = free_ranges ms"
  by (auto simp: mips32_ApplyPatch_def Let_def result_simps split: if_splits)

interpretation mips32: branch_patcher mips32_ApplyPatch mips32_target word_foot mips32_reach
proof unfold_locales
  fix a t ms ms' assume p: "mips32_ApplyPatch a t ms = Inr ms'" and r: "mips32_reach a t ms"
  then have b: "mips32_branch_at a ms" by (simp add: mips32_reach_def)
  show "mips32_target a ms' = Some t"
    using mips32_branch_effect(1,2) [OF p b] rel_target_word_offset r
    by (simp add: mips32_target_def mips32_reach_def)
  show "word_foot a ms' = word_foot a ms" by (simp add: word_foot_def)
  fix x assume "x \<notin> word_foot a ms"
  then show "ms_peek x ms' = ms_peek x ms" by (rule mips32_branch_effect(3) [OF p b])
next
  fix a t ms ms' assume "mips32_ApplyPatch a t ms = Inr ms'"
  then show "free_ranges ms' = free_ranges ms" by (rule mips32_free)
next
  fix a t ms ms' assume "\<And>x. x \<in> word_foot a ms \<Longrightarrow> ms_peek x ms' = ms_peek x ms"
  from word_foot_peek [OF this] show "mips32_target a ms' = mips32_target a ms \<and> word_foot a ms' = word_foot a ms \<and>
      mips32_reach a t ms' = mips32_reach a t ms"
    by (simp add: mips32_target_def mips32_reach_def word_foot_def mips32_branch_at_def be_word_def)
qed

text \<open>The comment at the second case says \<open>j and jal\<close>; \<open>jal\<close> (000011) matches neither case.\<close>

lemma mips32_top_bits: "bit (mips32_top16_nocc a b) 11 = bit (mips32_top6 a) 1"
  by (auto simp: mips32_top16_nocc_def mips32_top6_def bit_simps dest: bit_imp_le_length)

lemma mips32_jal_rejected:
  assumes "mips32_top6 (ms_peek a ms) = 0b000011"
  shows "mips32_ApplyPatch a t ms = Inl AssertFail"
proof -
  have "bit (mips32_top16_nocc (ms_peek a ms) (ms_peek (a + 1) ms)) 11"
    unfolding mips32_top_bits assms by (simp add: bit_simps)
  moreover have "\<not> bit (0b0100010100000000 :: uint32) 11" "\<not> bit (0b0100010100000001 :: uint32) 11"
    by (simp_all add: bit_simps)
  ultimately have "\<not> mips32_is_branch (mips32_top6 (ms_peek a ms))
      (mips32_top16_nocc (ms_peek a ms) (ms_peek (a + 1) ms))"
    unfolding mips32_is_branch_def assms by auto
  then show ?thesis by (simp add: mips32_ApplyPatch_def Let_def assms)
qed

section \<open>ARM64\<close>

record arm64_state =
  a64_ms :: memory_space
  redirect_map :: "addr \<rightharpoonup> addr"

definition arm64_uncond :: "byte \<Rightarrow> bool" where
  "arm64_uncond first_byte \<longleftrightarrow> drop_bit 2 first_byte = drop_bit 2 0x14 \<or> drop_bit 2 first_byte = drop_bit 2 0x97"

definition arm64_cond :: "byte \<Rightarrow> bool" where
  "arm64_cond first_byte \<longleftrightarrow> first_byte = 0x54 \<or> first_byte AND 0x7f = 0x35 \<or> first_byte AND 0x7f = 0x34"

definition arm64_test :: "byte \<Rightarrow> bool" where
  "arm64_test first_byte \<longleftrightarrow> first_byte AND 0x7f = 0x37 \<or> first_byte AND 0x7f = 0x36"

definition touch_word :: "addr \<Rightarrow> memory_space \<Rightarrow> memory_space" where
  "touch_word a ms = ms_touch a (ms_touch (a + 1) (ms_touch (a + 2) (ms_touch (a + 3) ms)))"

definition branch_bytes :: "byte list" where
  "branch_bytes = [0, 0, 0, 0x14]"

text \<open>\<open>memory_space[to+i] = memory_space[from+i]\<close>, for the four bytes of an instruction.\<close>

definition copy_byte :: "addr \<Rightarrow> addr \<Rightarrow> memory_space \<Rightarrow> memory_space" where
  "copy_byte to from ms = ms_put to (ms_peek from ms) (ms_touch from ms)"

definition copy_word :: "addr \<Rightarrow> addr \<Rightarrow> memory_space \<Rightarrow> memory_space" where
  "copy_word to from ms =
     copy_byte (to + 3) (from + 3) (copy_byte (to + 2) (from + 2)
       (copy_byte (to + 1) (from + 1) (copy_byte to from ms)))"

definition plop64 :: "addr \<Rightarrow> byte list \<Rightarrow> arm64_state \<Rightarrow> arm64_state result" where
  "plop64 a bs st = bindR (PlopBytes a bs (a64_ms st)) (\<lambda>ms. Inr (st\<lparr>a64_ms := ms\<rparr>))"

text \<open>
  \<open>ApplyPatch\<close> calls itself for the four branches of a trampoline; none of these calls builds
  another trampoline, so two levels of calls are enough (\<open>arm64_trampoline\<close> below runs on two).
  \<open>rnd\<close> is the value of \<open>std::rand()\<close>.
\<close>

fun arm64_ApplyPatch :: "nat \<Rightarrow> nat \<Rightarrow> addr \<Rightarrow> addr \<Rightarrow> arm64_state \<Rightarrow> arm64_state result" where
  "arm64_ApplyPatch 0 rnd from_addr to_addr st = Inl OutOfFuel"
| "arm64_ApplyPatch (Suc fuel) rnd from_addr to_addr st =
     (let first_byte = ms_peek (from_addr + 3) (a64_ms st);
          full_word = ms_word from_addr (a64_ms st);
          ms = touch_word from_addr (a64_ms st);
          st = st\<lparr>a64_ms := ms\<rparr>;
          new_offset = word_offset from_addr to_addr
      in if arm64_uncond first_byte then
        assertR (shift_fits 6 new_offset) (\<lambda>_.
        let trimmed_offset = new_offset AND mask 26 in
        Inr (st\<lparr>a64_ms := ms_put_list from_addr
          [byte_of 0 trimmed_offset, byte_of 1 trimmed_offset, byte_of 2 trimmed_offset,
           push_bit 2 (drop_bit 2 first_byte) OR byte_of 3 trimmed_offset] ms\<rparr>))
      else if arm64_cond first_byte then
        (if shift_fits 13 new_offset then
          Inr (st\<lparr>a64_ms := ms_put_list from_addr
            (le_bytes ((full_word AND NOT (push_bit 5 (mask 19))) OR push_bit 5 (new_offset AND mask 19))) ms\<rparr>)
        else
          bindR (case redirect_map st from_addr of
              None \<Rightarrow>
                bindR (getFreeRange rnd 12 ms) (\<lambda>tramp_range.
                let tramp_start = r_start tramp_range in
                bindR (SplitFreeRange_range (mk_range tramp_start (tramp_start + 12)) ms) (\<lambda>ms.
                Inr (tramp_start,
                     st\<lparr>a64_ms := ms, redirect_map := (redirect_map st)(from_addr \<mapsto> tramp_start)\<rparr>)))
            | Some tramp_start \<Rightarrow> Inr (tramp_start, st)) (\<lambda>(tramp_start, st).
          let FA = from_addr; FT = from_addr + 4;
              L0 = tramp_start; L1 = tramp_start + 4; L2 = tramp_start + 8;
              st = st\<lparr>a64_ms := copy_word L0 FA (a64_ms st)\<rparr>
          in bindR (arm64_ApplyPatch fuel rnd L0 L2 st) (\<lambda>st.
             bindR (plop64 FA branch_bytes st) (\<lambda>st.
             bindR (arm64_ApplyPatch fuel rnd FA L0 st) (\<lambda>st.
             bindR (plop64 L1 branch_bytes st) (\<lambda>st.
             bindR (arm64_ApplyPatch fuel rnd L1 FT st) (\<lambda>st.
             bindR (plop64 L2 branch_bytes st) (\<lambda>st.
             arm64_ApplyPatch fuel rnd L2 to_addr st))))))))
      else if arm64_test first_byte then
        assertR (shift_fits 18 new_offset) (\<lambda>_.
        Inr (st\<lparr>a64_ms := ms_put_list from_addr
          (le_bytes ((full_word AND NOT (push_bit 5 (mask 14))) OR push_bit 5 (new_offset AND mask 14))) ms\<rparr>))
      else Inl AssertFail)"

definition arm64_PatchJump :: "nat \<Rightarrow> addr \<Rightarrow> addr \<Rightarrow> arm64_state \<Rightarrow> arm64_state result" where
  "arm64_PatchJump rnd = arm64_ApplyPatch 2 rnd"

section \<open>Running ARM64 branches\<close>

text \<open>
  One branch instruction: where the processor goes from \<open>pc\<close> when the condition of a
  conditional branch is \<open>c\<close>. A branch changes no register the condition reads, so the same
  condition holds for the copy of the branch in the trampoline.
\<close>

definition arm64_step :: "bool \<Rightarrow> addr \<Rightarrow> memory_space \<Rightarrow> addr option" where
  "arm64_step c pc ms =
     (let b = ms_peek (pc + 3) ms; w = ms_word pc ms in
      if arm64_uncond b then Some (rel_target pc (field 0 26 w))
      else if arm64_cond b then Some (if c then rel_target pc (field 5 19 w) else pc + 4)
      else if arm64_test b then Some (if c then rel_target pc (field 5 14 w) else pc + 4)
      else None)"

fun arm64_run :: "nat \<Rightarrow> bool \<Rightarrow> addr \<Rightarrow> memory_space \<Rightarrow> addr option" where
  "arm64_run 0 c pc ms = Some pc"
| "arm64_run (Suc n) c pc ms =
     (case arm64_step c pc ms of None \<Rightarrow> None | Some pc' \<Rightarrow> arm64_run n c pc' ms)"

subsection \<open>Branches patched in place\<close>

lemma touch_word [simp]:
  "ms_peek x (touch_word a ms) = ms_peek x ms" "ms_word x (touch_word a ms) = ms_word x ms"
  "free_ranges (touch_word a ms) = free_ranges ms"
  "ms_ok (touch_word a ms) = ms_ok ms" "free_set (touch_word a ms) = free_set ms"
  by (simp_all add: touch_word_def ms_word_def)

lemma arm64_uncond_bits: "arm64_uncond b \<Longrightarrow> \<not> bit b 5 \<and> \<not> bit b 6"
proof -
  assume "arm64_uncond b"
  then have c: "drop_bit 2 b = 5 \<or> drop_bit 2 b = 0x25" by (simp add: arm64_uncond_def)
  have eq: "bit b 5 = bit (drop_bit 2 b) 3" "bit b 6 = bit (drop_bit 2 b) 4" by (simp_all add: bit_simps)
  show ?thesis unfolding eq using c by (elim disjE; simp only:; simp add: bit_simps)
qed

lemma arm64_cond_bits: "arm64_cond b \<Longrightarrow> bit b 5 \<or> bit b 6"
proof -
  assume "arm64_cond b"
  then have c: "b = 0x54 \<or> b AND 0x7f = 0x35 \<or> b AND 0x7f = 0x34" by (simp add: arm64_cond_def)
  have eq: "bit b 5 = bit (b AND 0x7f) 5" "bit b 6 = bit (b AND 0x7f) 6" by (simp_all add: bit_simps)
  show ?thesis unfolding eq using c by (elim disjE; simp only:; simp add: bit_simps)
qed

lemma arm64_test_bits: "arm64_test b \<Longrightarrow> bit b 5"
proof -
  assume "arm64_test b"
  then have c: "b AND 0x7f = 0x37 \<or> b AND 0x7f = 0x36" by (simp add: arm64_test_def)
  have eq: "bit b 5 = bit (b AND 0x7f) 5" by (simp add: bit_simps)
  show ?thesis unfolding eq using c by (elim disjE; simp only:; simp add: bit_simps)
qed

lemma arm64_classes:
  "arm64_uncond b \<Longrightarrow> \<not> arm64_cond b" "arm64_uncond b \<Longrightarrow> \<not> arm64_test b" "arm64_cond b \<Longrightarrow> \<not> arm64_test b"
  using arm64_uncond_bits [of b] arm64_cond_bits [of b] arm64_test_bits [of b]
  by (auto simp: arm64_cond_def arm64_test_def)

lemma arm64_uncond_word:
  "word4 (byte_of 0 (x AND mask 26)) (byte_of 1 (x AND mask 26)) (byte_of 2 (x AND mask 26))
     (push_bit 2 (drop_bit 2 b) OR byte_of 3 (x AND mask 26)) = set_field 0 26 x (word4 0 0 0 b)"
proof (rule bit_word_eqI)
  fix n assume "n < LENGTH(32)"
  then have n: "n < 32" by simp
  consider "n < 8" | "8 \<le> n" "n < 16" | "16 \<le> n" "n < 24" | "24 \<le> n" using n by linarith
  then show "bit (word4 (byte_of 0 (x AND mask 26)) (byte_of 1 (x AND mask 26)) (byte_of 2 (x AND mask 26))
     (push_bit 2 (drop_bit 2 b) OR byte_of 3 (x AND mask 26))) n = bit (set_field 0 26 x (word4 0 0 0 b)) n"
  proof cases
    case 4
    then have "n - 16 \<ge> 8" "n - 8 \<ge> 8" "\<not> n < 26 \<Longrightarrow> Suc (Suc (n - 26)) = n - 24" by auto
    then show ?thesis using n 4 by (auto simp: bit_set_field word4_def byte_of_def bit_simps)
  qed (use n in \<open>auto simp: bit_set_field word4_def byte_of_def bit_simps\<close>)
qed

lemma arm64_uncond_byte: "arm64_uncond (push_bit 2 (drop_bit 2 b) OR byte_of 3 (x AND mask 26)) = arm64_uncond b"
proof -
  have "drop_bit 2 (push_bit 2 (drop_bit 2 b) OR byte_of 3 (x AND mask 26)) = drop_bit 2 b"
    by (rule bit_word_eqI) (auto simp: byte_of_def bit_simps dest: bit_imp_le_length)
  then show ?thesis by (simp add: arm64_uncond_def)
qed

definition arm64_frame :: "addr \<Rightarrow> arm64_state \<Rightarrow> arm64_state \<Rightarrow> bool" where
  "arm64_frame a st st' \<longleftrightarrow> redirect_map st' = redirect_map st \<and>
     free_ranges (a64_ms st') = free_ranges (a64_ms st) \<and>
     (\<forall>x. x \<notin> {a, a + 1, a + 2, a + 3} \<longrightarrow> ms_peek x (a64_ms st') = ms_peek x (a64_ms st))"

lemma arm64_uncond_effect:
  assumes p: "arm64_ApplyPatch (Suc n) rnd a t st = Inr st'" and u: "arm64_uncond (ms_peek (a + 3) (a64_ms st))"
  shows "arm64_step c a (a64_ms st') = Some (rel_target a (word_offset a t))" "arm64_frame a st st'"
proof -
  let ?w = "word_offset a t" and ?b = "ms_peek (a + 3) (a64_ms st)"
  let ?tr = "?w AND mask 26"
  have st': "st' = st\<lparr>a64_ms := ms_put_list a [byte_of 0 ?tr, byte_of 1 ?tr, byte_of 2 ?tr,
      push_bit 2 (drop_bit 2 ?b) OR byte_of 3 ?tr] (touch_word a (a64_ms st))\<rparr>" "shift_fits 6 ?w"
    using p u by (auto simp: Let_def assertR_def split: if_splits)
  have b: "arm64_uncond (ms_peek (a + 3) (a64_ms st'))"
    using u by (simp add: st'(1) arm64_uncond_byte)
  have "ms_word a (a64_ms st') = set_field 0 26 ?w (word4 0 0 0 ?b)"
    unfolding arm64_uncond_word [symmetric] by (simp add: ms_word_def st'(1))
  then have "field 0 26 (ms_word a (a64_ms st')) = ?w" using field_fits [of 0 26 ?w] st'(2) by simp
  then show "arm64_step c a (a64_ms st') = Some (rel_target a ?w)"
    using b by (simp add: arm64_step_def)
  show "arm64_frame a st st'" by (simp add: arm64_frame_def st'(1))
qed

lemma arm64_field_effect:
  assumes st': "st' = st\<lparr>a64_ms := ms_put_list a
      (le_bytes ((w AND NOT (push_bit 5 (mask k))) OR push_bit 5 (x AND mask k))) (touch_word a (a64_ms st))\<rparr>"
    and w: "w = ms_word a (a64_ms st)" and k: "0 < k" "k \<le> 19" and fits: "shift_fits (32 - k) x"
  shows "field 5 k (ms_word a (a64_ms st')) = x" "ms_peek (a + 3) (a64_ms st') = ms_peek (a + 3) (a64_ms st)"
    "arm64_frame a st st'"
proof -
  have sf: "(w AND NOT (push_bit 5 (mask k))) OR push_bit 5 (x AND mask k) = set_field 5 k x w"
    by (simp add: set_field_def)
  have word: "ms_word a (a64_ms st') = set_field 5 k x w" unfolding st' sf by simp
  show "field 5 k (ms_word a (a64_ms st')) = x"
    unfolding word by (rule field_fits) (use k fits in auto)
  have "byte_of 3 (set_field 5 k x w) = byte_of 3 w"
    by (rule bit_word_eqI) (use k in \<open>auto simp: byte_of_def bit_simps bit_set_field\<close>)
  moreover have "byte_of 3 (ms_word a m) = ms_peek (a + 3) m" for m
    by (simp add: ms_word_def byte_of_word4)
  ultimately show "ms_peek (a + 3) (a64_ms st') = ms_peek (a + 3) (a64_ms st)" using word w by metis
  show "arm64_frame a st st'" unfolding st' by (simp add: arm64_frame_def le_bytes_def)
qed

lemma arm64_cond_effect:
  assumes p: "arm64_ApplyPatch (Suc n) rnd a t st = Inr st'" and u: "arm64_cond (ms_peek (a + 3) (a64_ms st))"
    and fits: "shift_fits 13 (word_offset a t)"
  shows "arm64_step c a (a64_ms st') = Some (if c then rel_target a (word_offset a t) else a + 4)" "arm64_frame a st st'"
proof -
  have nu: "\<not> arm64_uncond (ms_peek (a + 3) (a64_ms st))" using u arm64_classes by blast
  have st': "st' = st\<lparr>a64_ms := ms_put_list a (le_bytes ((ms_word a (a64_ms st) AND NOT (push_bit 5 (mask 19))) OR
      push_bit 5 (word_offset a t AND mask 19))) (touch_word a (a64_ms st))\<rparr>"
    using p u nu fits by (auto simp: Let_def split: if_splits)
  have "shift_fits (32 - 19) (word_offset a t)" using fits by simp
  note e = arm64_field_effect [OF st' refl _ _ this]
  show "arm64_step c a (a64_ms st') = Some (if c then rel_target a (word_offset a t) else a + 4)"
    using e u nu by (simp add: arm64_step_def Let_def)
  show "arm64_frame a st st'" using e by simp
qed

lemma arm64_test_effect:
  assumes p: "arm64_ApplyPatch (Suc n) rnd a t st = Inr st'" and u: "arm64_test (ms_peek (a + 3) (a64_ms st))"
  shows "arm64_step c a (a64_ms st') = Some (if c then rel_target a (word_offset a t) else a + 4)" "arm64_frame a st st'"
proof -
  have nu: "\<not> arm64_uncond (ms_peek (a + 3) (a64_ms st))" "\<not> arm64_cond (ms_peek (a + 3) (a64_ms st))"
    using u arm64_classes by blast+
  have st': "st' = st\<lparr>a64_ms := ms_put_list a (le_bytes ((ms_word a (a64_ms st) AND NOT (push_bit 5 (mask 14))) OR
      push_bit 5 (word_offset a t AND mask 14))) (touch_word a (a64_ms st))\<rparr>" "shift_fits 18 (word_offset a t)"
    using p u nu by (auto simp: Let_def assertR_def split: if_splits)
  have "shift_fits (32 - 14) (word_offset a t)" using st'(2) by simp
  note e = arm64_field_effect [OF st'(1) refl _ _ this]
  show "arm64_step c a (a64_ms st') = Some (if c then rel_target a (word_offset a t) else a + 4)"
    using e u nu by (simp add: arm64_step_def Let_def)
  show "arm64_frame a st st'" using e by simp
qed

subsection \<open>The trampoline\<close>

lemma arm64_step_local:
  assumes "\<And>x. x \<in> {a, a + 1, a + 2, a + 3} \<Longrightarrow> ms_peek x ms' = ms_peek x ms"
  shows "arm64_step c a ms' = arm64_step c a ms"
  using assms by (simp add: arm64_step_def ms_word_def)

text \<open>What a step of the construction may do: write the bytes in \<open>W\<close>, and claim them.\<close>

definition arm64_writes :: "addr set \<Rightarrow> arm64_state \<Rightarrow> arm64_state \<Rightarrow> bool" where
  "arm64_writes W st st' \<longleftrightarrow> redirect_map st' = redirect_map st \<and> ms_ok (a64_ms st') \<and>
     free_set (a64_ms st') \<union> W = free_set (a64_ms st) \<union> W \<and> free_set (a64_ms st') \<subseteq> free_set (a64_ms st) \<and>
     (\<forall>x. x \<notin> W \<longrightarrow> ms_peek x (a64_ms st') = ms_peek x (a64_ms st))"

lemma arm64_writes_trans:
  assumes "arm64_writes W st st1" "arm64_writes V st1 st2"
  shows "arm64_writes (W \<union> V) st st2"
  using assms unfolding arm64_writes_def by (auto 0 3)

lemma arm64_writes_step:
  assumes "arm64_writes W st st'" "W \<inter> {a, a + 1, a + 2, a + 3} = {}"
  shows "arm64_step c a (a64_ms st') = arm64_step c a (a64_ms st)"
  using assms by (intro arm64_step_local) (auto simp: arm64_writes_def)

lemma arm64_frame_writes:
  assumes "arm64_frame a st st'" "ms_ok (a64_ms st)"
  shows "arm64_writes {a, a + 1, a + 2, a + 3} st st'"
  using assms by (auto simp: arm64_frame_def arm64_writes_def ms_ok_def free_set_def)

text \<open>\<open>plopBytes(a, branch_bytes)\<close> and the patch of the branch it leaves at \<open>a\<close>.\<close>

lemma plop_branch:
  assumes ok: "ms_ok (a64_ms st)" and p: "plop64 a branch_bytes st = Inr st1"
    and q: "arm64_ApplyPatch (Suc n) rnd a t st1 = Inr st'"
  shows "arm64_writes {a, a + 1, a + 2, a + 3} st st'"
    "arm64_step c a (a64_ms st') = Some (rel_target a (word_offset a t))"
proof -
  have len: "length branch_bytes = 4" "length branch_bytes \<le> 2 ^ 64" by (simp_all add: branch_bytes_def)
  obtain m where m: "PlopBytes a branch_bytes (a64_ms st) = Inr m" "st1 = st\<lparr>a64_ms := m\<rparr>"
    using p by (auto simp: plop64_def bindR_eq_Inr)
  obtain m' where m': "PlopBytes a branch_bytes (a64_ms st) = Inr m'" "ms_ok m'"
      "free_set m' = free_set (a64_ms st) - set (addrs a 4)"
    using PlopBytes_ok [OF ok len(2), of a] unfolding len(1) by blast
  note peek = PlopBytes_peek [OF ok len(2) m(1), unfolded len(1)]
  have "ms_peek (a + 3) m = 0x14" using peek(1) [of 3] by (simp add: branch_bytes_def)
  then have u: "arm64_uncond (ms_peek (a + 3) (a64_ms st1))" by (simp add: m(2) arm64_uncond_def)
  have "arm64_writes {a, a + 1, a + 2, a + 3} st st1"
    using m m' peek(2) by (auto simp: arm64_writes_def addrs_4)
  moreover have "ms_ok (a64_ms st1)" using m m' by simp
  then have "arm64_writes {a, a + 1, a + 2, a + 3} st1 st'"
    using arm64_uncond_effect(2) [OF q u] by (rule arm64_frame_writes [rotated])
  ultimately show "arm64_writes {a, a + 1, a + 2, a + 3} st st'"
    using arm64_writes_trans by fastforce
  show "arm64_step c a (a64_ms st') = Some (rel_target a (word_offset a t))"
    by (rule arm64_uncond_effect(1) [OF q u])
qed

lemma copy_word_peek:
  assumes "{L, L + 1, L + 2, L + 3} \<inter> {a, a + 1, a + 2, a + 3} = {}"
  shows "ms_word L (copy_word L a ms) = ms_word a ms" "ms_peek (L + 3) (copy_word L a ms) = ms_peek (a + 3) ms"
    "x \<notin> {L, L + 1, L + 2, L + 3} \<Longrightarrow> ms_peek x (copy_word L a ms) = ms_peek x ms"
    "free_ranges (copy_word L a ms) = free_ranges ms"
  using assms by (auto simp: copy_word_def copy_byte_def ms_word_def)

lemma short_hop: "word_offset L (L + 8) = 2" "shift_fits 13 2" "rel_target L 2 = L + 8"
  by (simp_all add: word_offset_def shift_fits_def rel_target_def)

lemma arm64_tramp_sites:
  fixes L :: addr
  assumes "X \<inter> set (addrs L 12) = {}"
  shows "set (addrs L 12) = {L, L + 1, L + 2, L + 3} \<union> {L + 4, L + 4 + 1, L + 4 + 2, L + 4 + 3} \<union>
           {L + 8, L + 8 + 1, L + 8 + 2, L + 8 + 3}"
    "{L, L + 1, L + 2, L + 3} \<inter> {L + 4, L + 4 + 1, L + 4 + 2, L + 4 + 3} = {}"
    "{L, L + 1, L + 2, L + 3} \<inter> {L + 8, L + 8 + 1, L + 8 + 2, L + 8 + 3} = {}"
    "{L + 4, L + 4 + 1, L + 4 + 2, L + 4 + 3} \<inter> {L + 8, L + 8 + 1, L + 8 + 2, L + 8 + 3} = {}"
    "X \<inter> {L, L + 1, L + 2, L + 3} = {}" "X \<inter> {L + 4, L + 4 + 1, L + 4 + 2, L + 4 + 3} = {}"
    "X \<inter> {L + 8, L + 8 + 1, L + 8 + 2, L + 8 + 3} = {}"
proof -
  have "addrs L 12 = addrs L 4 @ addrs (L + 4) 4 @ addrs (L + 8) 4"
    using addrs_append [of L 4 8] addrs_append [of "L + 4" 4 4] by (simp add: add.assoc)
  then have eq: "addrs L 12 = [L, L + 1, L + 2, L + 3] @ [L + 4, L + 4 + 1, L + 4 + 2, L + 4 + 3] @
      [L + 8, L + 8 + 1, L + 8 + 2, L + 8 + 3]"
    by (simp only: addrs_4)
  show all: "set (addrs L 12) = {L, L + 1, L + 2, L + 3} \<union> {L + 4, L + 4 + 1, L + 4 + 2, L + 4 + 3} \<union>
           {L + 8, L + 8 + 1, L + 8 + 2, L + 8 + 3}"
    unfolding eq set_append by auto
  have "distinct ([L, L + 1, L + 2, L + 3] @ [L + 4, L + 4 + 1, L + 4 + 2, L + 4 + 3] @
      [L + 8, L + 8 + 1, L + 8 + 2, L + 8 + 3])"
    unfolding eq [symmetric] by (rule distinct_addrs) simp
  then have d: "set [L, L + 1, L + 2, L + 3] \<inter> set [L + 4, L + 4 + 1, L + 4 + 2, L + 4 + 3] = {}"
    "set [L, L + 1, L + 2, L + 3] \<inter> set [L + 8, L + 8 + 1, L + 8 + 2, L + 8 + 3] = {}"
    "set [L + 4, L + 4 + 1, L + 4 + 2, L + 4 + 3] \<inter> set [L + 8, L + 8 + 1, L + 8 + 2, L + 8 + 3] = {}"
    unfolding distinct_append set_append by blast+
  then show "{L, L + 1, L + 2, L + 3} \<inter> {L + 4, L + 4 + 1, L + 4 + 2, L + 4 + 3} = {}"
    "{L, L + 1, L + 2, L + 3} \<inter> {L + 8, L + 8 + 1, L + 8 + 2, L + 8 + 3} = {}"
    "{L + 4, L + 4 + 1, L + 4 + 2, L + 4 + 3} \<inter> {L + 8, L + 8 + 1, L + 8 + 2, L + 8 + 3} = {}"
    by (simp_all only: list.set)
  show "X \<inter> {L, L + 1, L + 2, L + 3} = {}" "X \<inter> {L + 4, L + 4 + 1, L + 4 + 2, L + 4 + 3} = {}"
    "X \<inter> {L + 8, L + 8 + 1, L + 8 + 2, L + 8 + 3} = {}"
    using assms unfolding all by blast+
qed

lemma copy_word_writes:
  assumes "ms_ok (a64_ms st)" "{L, L + 1, L + 2, L + 3} \<inter> {a, a + 1, a + 2, a + 3} = {}"
  shows "arm64_writes {L, L + 1, L + 2, L + 3} st (st\<lparr>a64_ms := copy_word L a (a64_ms st)\<rparr>)"
  using assms(1) copy_word_peek(3,4) [OF assms(2)]
  by (auto simp: arm64_writes_def ms_ok_def free_set_def)

lemma tramp_build:
  fixes FA L :: addr
  defines "F \<equiv> {FA, FA + 1, FA + 2, FA + 3}"
  assumes ok: "ms_ok (a64_ms st)" and br: "arm64_cond (ms_peek (FA + 3) (a64_ms st))"
    and dis: "F \<inter> set (addrs L 12) = {}"
    and s1: "arm64_ApplyPatch (Suc n) rnd L (L + 8) (st\<lparr>a64_ms := copy_word L FA (a64_ms st)\<rparr>) = Inr st1"
    and s2: "plop64 FA branch_bytes st1 = Inr st2" "arm64_ApplyPatch (Suc n) rnd FA L st2 = Inr st3"
    and s3: "plop64 (L + 4) branch_bytes st3 = Inr st4" "arm64_ApplyPatch (Suc n) rnd (L + 4) (FA + 4) st4 = Inr st5"
    and s4: "plop64 (L + 8) branch_bytes st5 = Inr st6" "arm64_ApplyPatch (Suc n) rnd (L + 8) to_addr st6 = Inr st'"
  shows "arm64_writes (F \<union> set (addrs L 12)) st st'"
    "arm64_step c FA (a64_ms st') = Some (rel_target FA (word_offset FA L))"
    "arm64_step c L (a64_ms st') = Some (if c then L + 8 else L + 4)"
    "arm64_step c (L + 4) (a64_ms st') = Some (rel_target (L + 4) (word_offset (L + 4) (FA + 4)))"
    "arm64_step c (L + 8) (a64_ms st') = Some (rel_target (L + 8) (word_offset (L + 8) to_addr))"
proof -
  let ?A = "{L, L + 1, L + 2, L + 3}" and ?B = "{L + 4, L + 4 + 1, L + 4 + 2, L + 4 + 3}"
  let ?C = "{L + 8, L + 8 + 1, L + 8 + 2, L + 8 + 3}"
  let ?st0 = "st\<lparr>a64_ms := copy_word L FA (a64_ms st)\<rparr>"
  note S = arm64_tramp_sites [OF dis]
  have AF: "?A \<inter> {FA, FA + 1, FA + 2, FA + 3} = {}" using S(5) by (auto simp: F_def)
  have w0: "arm64_writes ?A st ?st0" by (rule copy_word_writes [OF ok AF])
  have c0: "arm64_cond (ms_peek (L + 3) (a64_ms ?st0))"
    using br copy_word_peek(2) [OF AF] by simp
  have ok0: "ms_ok (a64_ms ?st0)" using w0 by (simp add: arm64_writes_def)
  have f0: "shift_fits 13 (word_offset L (L + 8))" by (simp only: short_hop)
  note e1 = arm64_cond_effect [OF s1 c0 f0, unfolded short_hop]
  have w1: "arm64_writes ?A ?st0 st1" by (rule arm64_frame_writes [OF e1(2) ok0])
  then have ok1: "ms_ok (a64_ms st1)" by (simp add: arm64_writes_def)
  note e2 = plop_branch [OF ok1 s2]
  then have ok3: "ms_ok (a64_ms st3)" by (simp add: arm64_writes_def)
  note e3 = plop_branch [OF ok3 s3]
  then have ok5: "ms_ok (a64_ms st5)" by (simp add: arm64_writes_def)
  note e4 = plop_branch [OF ok5 s4]
  have "arm64_writes (?A \<union> ?A \<union> F \<union> ?B \<union> ?C) st st'"
    using w0 w1 e2(1) e3(1) e4(1) unfolding F_def by (blast intro: arm64_writes_trans)
  then show "arm64_writes (F \<union> set (addrs L 12)) st st'"
    unfolding S(1) by (simp only: Un_ac Un_absorb Un_left_absorb)
  have sFA: "F \<inter> ?B = {}" "F \<inter> ?C = {}" using S(6,7) by auto
  show "arm64_step c FA (a64_ms st') = Some (rel_target FA (word_offset FA L))"
    using arm64_writes_step [OF e4(1), of FA] arm64_writes_step [OF e3(1), of FA] e2(2) sFA
    unfolding F_def by (simp only: Int_commute)
  have "arm64_step c L (a64_ms st') = arm64_step c L (a64_ms st1)"
    using arm64_writes_step [OF e4(1), of L] arm64_writes_step [OF e3(1), of L] arm64_writes_step [OF e2(1), of L]
      S(2,3,5) unfolding F_def by (simp only: Int_commute)
  then show "arm64_step c L (a64_ms st') = Some (if c then L + 8 else L + 4)" using e1(1) by simp
  show "arm64_step c (L + 4) (a64_ms st') = Some (rel_target (L + 4) (word_offset (L + 4) (FA + 4)))"
    using arm64_writes_step [OF e4(1), of "L + 4"] e3(2) S(4) by (simp only: Int_commute)
  show "arm64_step c (L + 8) (a64_ms st') = Some (rel_target (L + 8) (word_offset (L + 8) to_addr))"
    by (rule e4(2))
qed

lemma SplitFreeRange_range_frame:
  assumes "ms_ok ms" "SplitFreeRange_range r ms = Inr m"
  shows "only_free ms m"
proof -
  have "ms_ok m \<and> only_free ms m"
    by (rule foldR_preserves [where P = "\<lambda>m. ms_ok m \<and> only_free ms m",
          OF _ _ assms(2) [unfolded SplitFreeRange_range_def]])
      (use SplitFreeRange_Inr(2,4) only_free_trans assms(1) in \<open>blast | simp\<close>)+
  then show ?thesis by simp
qed

lemma arm64_far_eq:
  assumes br: "arm64_cond (ms_peek (FA + 3) (a64_ms st))"
    and far: "\<not> shift_fits 13 (word_offset FA to_addr)" and new: "redirect_map st FA = None"
  shows "arm64_ApplyPatch (Suc n) rnd FA to_addr st =
    bindR (getFreeRange rnd 12 (touch_word FA (a64_ms st))) (\<lambda>r.
    bindR (SplitFreeRange_range (mk_range (r_start r) (r_start r + 12)) (touch_word FA (a64_ms st))) (\<lambda>m.
    bindR (arm64_ApplyPatch n rnd (r_start r) (r_start r + 8)
       (st\<lparr>redirect_map := (redirect_map st)(FA \<mapsto> r_start r), a64_ms := copy_word (r_start r) FA m\<rparr>)) (\<lambda>st.
    bindR (plop64 FA branch_bytes st) (\<lambda>st.
    bindR (arm64_ApplyPatch n rnd FA (r_start r) st) (\<lambda>st.
    bindR (plop64 (r_start r + 4) branch_bytes st) (\<lambda>st.
    bindR (arm64_ApplyPatch n rnd (r_start r + 4) (FA + 4) st) (\<lambda>st.
    bindR (plop64 (r_start r + 8) branch_bytes st) (\<lambda>st.
    arm64_ApplyPatch n rnd (r_start r + 8) to_addr st))))))))"
proof -
  have nu: "\<not> arm64_uncond (ms_peek (FA + 3) (a64_ms st))" using br arm64_classes by blast
  then show ?thesis using br far new by (simp add: Let_def bindR_assoc)
qed

lemma getFreeRange_cong:
  "free_ranges ms' = free_ranges ms \<Longrightarrow> getFreeRange rnd sz ms' = getFreeRange rnd sz ms"
  by (induction rnd sz ms rule: getFreeRange.induct)
    (subst (1 2) getFreeRange.simps, auto intro!: bindR_cong assertR_cong simp: Let_def)

text \<open>Twelve free bytes, as \<open>getFreeRange(12)\<close> finds them.\<close>

lemma getFreeRange_bytes:
  assumes ok: "ms_ok ms" and g: "getFreeRange rnd 12 ms = Inr r"
  shows "set (addrs (r_start r) 12) \<subseteq> free_set ms"
proof -
  have r: "r \<in> elems ms" "12 \<le> unat (getSize r)"
    using getFreeRange_spec [OF ok, of 12 rnd] g by (simp_all add: int_max_def)
  have rok: "range_ok r" by (rule elems_ok [OF ok r(1)])
  have le: "unat (r_start r) \<le> unat (r_end r)" using rok by (simp add: range_ok_def word_le_nat_alt)
  have sz: "12 \<le> unat (r_end r) - unat (r_start r) + 1" using r(2) unat_getSize [OF rok] by simp
  have "r_start r + of_nat k \<in> range_bytes r" if "k < 12" for k
  proof -
    have "unat (r_start r) + k \<le> unat (r_end r)" using that sz le by linarith
    then have "unat (r_start r) + k < 2 ^ 64" using unat_addr_less [of "r_end r"] by linarith
    then have "unat (r_start r + of_nat k) = unat (r_start r) + k"
      by (simp add: unat_word_ariths unat_of_nat)
    then show ?thesis
      using \<open>unat (r_start r) + k \<le> unat (r_end r)\<close> by (simp add: range_bytes_def word_le_nat_alt)
  qed
  then show ?thesis using r(1) by (auto simp: set_addrs free_set_elems)
qed

text \<open>Within reach of an unconditional branch: 4-byte aligned and at most 128 MB away.\<close>

definition arm64_near :: "addr \<Rightarrow> addr \<Rightarrow> bool" where
  "arm64_near a t \<longleftrightarrow> word_reach a t \<and> shift_fits 6 (word_offset a t)"

lemma arm64_uncond_total:
  assumes "arm64_uncond (ms_peek (a + 3) (a64_ms st))" "shift_fits 6 (word_offset a t)"
  shows "\<exists>st'. arm64_ApplyPatch (Suc n) rnd a t st = Inr st'"
  using assms by (simp add: Let_def)

lemma arm64_cond_total:
  assumes "arm64_cond (ms_peek (a + 3) (a64_ms st))" "shift_fits 13 (word_offset a t)"
  shows "\<exists>st'. arm64_ApplyPatch (Suc n) rnd a t st = Inr st'"
  using assms arm64_classes by (auto simp: Let_def)

lemma plop_branch_total:
  assumes ok: "ms_ok (a64_ms st)" and fits: "shift_fits 6 (word_offset a t)"
  obtains st1 st' where "plop64 a branch_bytes st = Inr st1" "arm64_ApplyPatch (Suc n) rnd a t st1 = Inr st'"
    "ms_ok (a64_ms st')"
proof -
  have len: "length branch_bytes = 4" "length branch_bytes \<le> 2 ^ 64" by (simp_all add: branch_bytes_def)
  obtain m where m: "PlopBytes a branch_bytes (a64_ms st) = Inr m"
    using PlopBytes_ok [OF ok len(2), of a] by blast
  then have p: "plop64 a branch_bytes st = Inr (st\<lparr>a64_ms := m\<rparr>)" by (simp add: plop64_def)
  have "ms_peek (a + 3) m = 0x14"
    using PlopBytes_peek(1) [OF ok len(2) m, of 3] len(1) by (simp add: branch_bytes_def)
  then obtain st' where q: "arm64_ApplyPatch (Suc n) rnd a t (st\<lparr>a64_ms := m\<rparr>) = Inr st'"
    using arm64_uncond_total [of a "st\<lparr>a64_ms := m\<rparr>" t n rnd] fits by (auto simp: arm64_uncond_def)
  have "ms_ok (a64_ms st')" using plop_branch(1) [OF ok p q] by (simp add: arm64_writes_def)
  then show ?thesis using that p q by blast
qed

lemma arm64_ApplyPatch_far:
  assumes ok: "ms_ok (a64_ms st)" and br: "arm64_cond (ms_peek (FA + 3) (a64_ms st))"
    and far: "\<not> shift_fits 13 (word_offset FA to_addr)" and new: "redirect_map st FA = None"
    and own: "{FA, FA + 1, FA + 2, FA + 3} \<inter> free_set (a64_ms st) = {}"
    and g: "getFreeRange rnd 12 (a64_ms st) = Inr r"
    and near: "arm64_near FA (r_start r)" "arm64_near (r_start r + 4) (FA + 4)" "arm64_near (r_start r + 8) to_addr"
  defines "L \<equiv> r_start r"
  obtains st' where "arm64_ApplyPatch 2 rnd FA to_addr st = Inr st'"
    "redirect_map st' = (redirect_map st)(FA \<mapsto> L)"
    "set (addrs L 12) \<subseteq> free_set (a64_ms st)"
    "free_set (a64_ms st') = free_set (a64_ms st) - set (addrs L 12)" "ms_ok (a64_ms st')"
    "\<forall>x. x \<notin> {FA, FA + 1, FA + 2, FA + 3} \<union> set (addrs L 12) \<longrightarrow> ms_peek x (a64_ms st') = ms_peek x (a64_ms st)"
    "\<And>c. arm64_step c FA (a64_ms st') = Some (rel_target FA (word_offset FA L))"
    "\<And>c. arm64_step c L (a64_ms st') = Some (if c then L + 8 else L + 4)"
    "\<And>c. arm64_step c (L + 4) (a64_ms st') = Some (rel_target (L + 4) (word_offset (L + 4) (FA + 4)))"
    "\<And>c. arm64_step c (L + 8) (a64_ms st') = Some (rel_target (L + 8) (word_offset (L + 8) to_addr))"
proof -
  let ?ms = "touch_word FA (a64_ms st)"
  let ?L = "r_start r"
  have gt: "getFreeRange rnd 12 ?ms = Inr r" using g getFreeRange_cong [of ?ms "a64_ms st"] by simp
  have "unat (?L + 12 - ?L) = 12" by simp
  then have la: "loop_addrs (mk_range ?L (?L + 12)) = addrs ?L 12" by (simp add: loop_addrs_def)
  have okt: "ms_ok ?ms" using ok by simp
  have sub: "set (addrs ?L 12) \<subseteq> free_set ?ms" by (rule getFreeRange_bytes [OF okt gt])
  have dl: "distinct (addrs ?L 12)" by (rule distinct_addrs) simp
  obtain m where m: "SplitFreeRange_range (mk_range ?L (?L + 12)) ?ms = Inr m" "ms_ok m"
      "free_set m = free_set (a64_ms st) - set (addrs ?L 12)"
    using ms.take_all [OF okt dl sub] by (auto simp: SplitFreeRange_range_def la)
  have pk: "ms_peek x m = ms_peek x (a64_ms st)" for x
    using only_freeD(5) [OF SplitFreeRange_range_frame [OF okt m(1)], of x] by simp
  have dis: "{FA, FA + 1, FA + 2, FA + 3} \<inter> set (addrs ?L 12) = {}" using own sub by auto
  let ?st0 = "st\<lparr>redirect_map := (redirect_map st)(FA \<mapsto> ?L), a64_ms := m\<rparr>"
  let ?stc = "?st0\<lparr>a64_ms := copy_word ?L FA (a64_ms ?st0)\<rparr>"
  have ok0: "ms_ok (a64_ms ?st0)" and br0: "arm64_cond (ms_peek (FA + 3) (a64_ms ?st0))" using m br pk by simp_all
  note S = arm64_tramp_sites [OF dis]
  have AF: "{?L, ?L + 1, ?L + 2, ?L + 3} \<inter> {FA, FA + 1, FA + 2, FA + 3} = {}" using S(5) by auto
  have okc: "ms_ok (a64_ms ?stc)" using copy_word_writes [OF ok0 AF] by (simp add: arm64_writes_def)
  have brc: "arm64_cond (ms_peek (?L + 3) (a64_ms ?stc))"
    using br0 copy_word_peek(2) [OF AF, of m] by simp
  have f0: "shift_fits 13 (word_offset ?L (?L + 8))" by (simp only: short_hop)
  obtain st1 where st1: "arm64_ApplyPatch (Suc 0) rnd ?L (?L + 8) ?stc = Inr st1"
    using arm64_cond_total [OF brc f0] by blast
  have ok1: "ms_ok (a64_ms st1)"
    using arm64_frame_writes [OF arm64_cond_effect(2) [OF st1 brc f0] okc] by (simp add: arm64_writes_def)
  have fits: "shift_fits 6 (word_offset FA ?L)" "shift_fits 6 (word_offset (?L + 4) (FA + 4))"
      "shift_fits 6 (word_offset (?L + 8) to_addr)" using near by (simp_all add: arm64_near_def)
  obtain st2 st3 where st3: "plop64 FA branch_bytes st1 = Inr st2"
      "arm64_ApplyPatch (Suc 0) rnd FA ?L st2 = Inr st3" "ms_ok (a64_ms st3)"
    by (rule plop_branch_total [OF ok1 fits(1)])
  obtain st4 st5 where st5: "plop64 (?L + 4) branch_bytes st3 = Inr st4"
      "arm64_ApplyPatch (Suc 0) rnd (?L + 4) (FA + 4) st4 = Inr st5" "ms_ok (a64_ms st5)"
    by (rule plop_branch_total [OF st3(3) fits(2)])
  obtain st6 st' where st': "plop64 (?L + 8) branch_bytes st5 = Inr st6"
      "arm64_ApplyPatch (Suc 0) rnd (?L + 8) to_addr st6 = Inr st'" "ms_ok (a64_ms st')"
    by (rule plop_branch_total [OF st5(3) fits(3)])
  note T = tramp_build [OF ok0 br0 dis st1 st3(1,2) st5(1,2) st'(1,2)]
  have run: "arm64_ApplyPatch (Suc (Suc 0)) rnd FA to_addr st = Inr st'"
    unfolding arm64_far_eq [OF br far new] gt m(1) bindR_Inr
    using st1 st3 st5 st' by simp
  show ?thesis
  proof (rule that)
    show "arm64_ApplyPatch 2 rnd FA to_addr st = Inr st'" using run by (simp only: numeral_2_eq_2)
    show "redirect_map st' = (redirect_map st)(FA \<mapsto> L)" "ms_ok (a64_ms st')"
      using T(1) by (simp_all add: arm64_writes_def L_def)
    show "free_set (a64_ms st') = free_set (a64_ms st) - set (addrs L 12)"
      using T(1) m(3) own by (auto simp: arm64_writes_def L_def)
    show "set (addrs L 12) \<subseteq> free_set (a64_ms st)" using sub by (simp add: L_def)
    show "\<forall>x. x \<notin> {FA, FA + 1, FA + 2, FA + 3} \<union> set (addrs L 12) \<longrightarrow>
        ms_peek x (a64_ms st') = ms_peek x (a64_ms st)"
      using T(1) pk by (simp add: arm64_writes_def L_def)
  qed (unfold L_def, (rule T(2-5))+)
qed

section \<open>Properties\<close>

text \<open>A patched ARM32 or MIPS32 branch goes to the requested target. \<open>ApplyPatch\<close> on an ARM32
  branch returns exactly when the word offset from the branch plus 8 fits 24 bits, and then,
  for an aligned target whose distance fits 32 bits, the branch goes there; only the bytes
  of the branch change and none is claimed or freed.\<close>

theorem arm32_ApplyPatch_retargets:
  assumes "arm32_is_branch (ms_peek (a + 3) ms)" and "word_reach (a + 8) t"
  shows "case arm32_ApplyPatch a t ms of
      Inr ms' \<Rightarrow> arm32_target a ms' = Some t \<and> free_ranges ms' = free_ranges ms \<and>
        (\<forall>x. x \<notin> {a, a + 1, a + 2, a + 3} \<longrightarrow> ms_peek x ms' = ms_peek x ms) \<and>
        - (2 ^ 23) \<le> sint (word_offset (a + 8) t) \<and> sint (word_offset (a + 8) t) < 2 ^ 23
    | Inl e \<Rightarrow> e = AssertFail \<and>
        \<not> (- (2 ^ 23) \<le> sint (word_offset (a + 8) t) \<and> sint (word_offset (a + 8) t) < 2 ^ 23)"
proof (cases "arm32_ApplyPatch a t ms")
  case (Inl e)
  then have "e = AssertFail" "\<not> shift_fits 8 (word_offset (a + 8) t)"
    using assms(1) by (auto simp: arm32_ApplyPatch_def Let_def assertR_def split: if_splits)
  then show ?thesis using Inl shift_fits_iff [of 8] by simp
next
  case (Inr ms')
  then have "shift_fits 8 (word_offset (a + 8) t)"
    using assms(1) by (auto simp: arm32_ApplyPatch_def Let_def assertR_def split: if_splits)
  moreover have "arm32_target a ms' = Some t"
    by (rule arm32.patch_target [OF Inr]) (simp add: arm32_reach_def assms)
  ultimately show ?thesis
    using Inr arm32_ApplyPatch_effect(4,5) [OF Inr] shift_fits_iff [of 8] by (simp add: word_foot_eq)
qed

theorem arm32_ApplyPatch_retargets_witness:
  "\<exists>ms'. arm32_ApplyPatch 0x8000 0x9000 (bytes_at 0x8000 [0, 0, 0, 0xea]) = Inr ms' \<and>
     arm32_target 0x8000 ms' = Some 0x9000"
proof -
  let ?ms = "bytes_at 0x8000 [0, 0, 0, 0xea]"
  have b: "arm32_is_branch (ms_peek (0x8000 + 3) ?ms)" by (simp add: bytes_at_def arm32_is_branch_def)
  have r: "word_reach (0x8000 + 8) 0x9000" by (simp add: word_reach_def)
  have o: "word_offset (0x8000 + 8) 0x9000 = 0x3fe" by (simp add: word_offset_def)
  show ?thesis using arm32_ApplyPatch_retargets [OF b r] unfolding o
    by (cases "arm32_ApplyPatch 0x8000 0x9000 ?ms") auto
qed

text \<open>C17: An ARM64 branch that is patched in place goes to the requested target: an
  unconditional branch within 128 MB, a conditional or compare branch within 1 MB and a
  test branch within 32 KB; the fall through of a conditional one stays the next
  instruction. Only its own bytes change, and no trampoline is recorded.\<close>

theorem arm64_ApplyPatch_in_place:
  assumes "arm64_uncond (ms_peek (a + 3) (a64_ms st)) \<or>
      arm64_cond (ms_peek (a + 3) (a64_ms st)) \<and> shift_fits 13 (word_offset a t) \<or>
      arm64_test (ms_peek (a + 3) (a64_ms st))"
    and "word_reach a t" and "arm64_ApplyPatch 2 rnd a t st = Inr st'"
  shows "arm64_run 1 True a (a64_ms st') = Some t \<and>
    arm64_run 1 False a (a64_ms st') =
      Some (if arm64_uncond (ms_peek (a + 3) (a64_ms st)) then t else a + 4) \<and>
    redirect_map st' = redirect_map st \<and> free_ranges (a64_ms st') = free_ranges (a64_ms st) \<and>
    (\<forall>x. x \<notin> {a, a + 1, a + 2, a + 3} \<longrightarrow> ms_peek x (a64_ms st') = ms_peek x (a64_ms st))"
proof -
  have p: "arm64_ApplyPatch (Suc 1) rnd a t st = Inr st'" using assms(3) by (simp only: Suc_1)
  note rt = rel_target_word_offset [OF assms(2)]
  from assms(1) have "(\<forall>c. arm64_step c a (a64_ms st') =
      Some (if c \<or> arm64_uncond (ms_peek (a + 3) (a64_ms st)) then t else a + 4)) \<and> arm64_frame a st st'"
  proof (elim disjE conjE)
    assume u: "arm64_uncond (ms_peek (a + 3) (a64_ms st))"
    then show ?thesis using arm64_uncond_effect [OF p u] rt by simp
  next
    assume c: "arm64_cond (ms_peek (a + 3) (a64_ms st))" and f: "shift_fits 13 (word_offset a t)"
    then show ?thesis using arm64_cond_effect [OF p c f] arm64_classes(1) rt by auto
  next
    assume t: "arm64_test (ms_peek (a + 3) (a64_ms st))"
    then show ?thesis using arm64_test_effect [OF p t] arm64_classes(2) rt by auto
  qed
  then show ?thesis by (simp add: arm64_frame_def)
qed

text \<open>A state with an ARM64 instruction at \<open>0x1000\<close> and one free range.\<close>

definition arm64_sample :: "byte list \<Rightarrow> arm64_state" where
  "arm64_sample bs = \<lparr>a64_ms = ms_put_list 0x1000 bs sample_space, redirect_map = Map.empty\<rparr>"

theorem arm64_ApplyPatch_in_place_witness:
  "\<exists>st'. arm64_ApplyPatch 2 0 0x1000 0x4000 (arm64_sample [0, 0, 0, 0x14]) = Inr st' \<and>
     arm64_run 1 True 0x1000 (a64_ms st') = Some 0x4000"
proof -
  let ?st = "arm64_sample [0, 0, 0, 0x14]"
  have u: "arm64_uncond (ms_peek (0x1000 + 3) (a64_ms ?st))"
    by (simp add: arm64_sample_def arm64_uncond_def)
  have f: "shift_fits 6 (word_offset 0x1000 0x4000)" "word_reach 0x1000 0x4000"
    by (simp_all add: word_offset_def shift_fits_def word_reach_def)
  obtain st' where st': "arm64_ApplyPatch 2 0 0x1000 0x4000 ?st = Inr st'"
    using arm64_uncond_total [OF u f(1), of 1 0] unfolding Suc_1 by blast
  from arm64_ApplyPatch_in_place [OF disjI1 [OF u] f(2) st'] st' show ?thesis by blast
qed

text \<open>C18: A conditional ARM64 branch that does not reach its target gets a trampoline, and the
  program behaves as if it had reached it: when the condition holds, control goes from the
  branch to the target, otherwise to the instruction after the branch. The call returns, it
  claims exactly the twelve bytes of the trampoline, which were free, it changes no byte
  but those and the branch, and it records the trampoline. This needs 128 MB from the
  branch to the trampoline and from there to the target, and aligned addresses.\<close>

theorem arm64_trampoline:
  assumes "ms_ok (a64_ms st)" and "arm64_cond (ms_peek (FA + 3) (a64_ms st))"
    and "\<not> shift_fits 13 (word_offset FA to_addr)" and "redirect_map st FA = None"
    and "{FA, FA + 1, FA + 2, FA + 3} \<inter> free_set (a64_ms st) = {}"
    and "getFreeRange rnd 12 (a64_ms st) = Inr r" and "r_start r = L"
    and "arm64_near FA L" and "arm64_near (L + 4) (FA + 4)" and "arm64_near (L + 8) to_addr"
  shows "\<exists>st'. arm64_ApplyPatch 2 rnd FA to_addr st = Inr st' \<and>
    arm64_run 3 True FA (a64_ms st') = Some to_addr \<and>
    arm64_run 3 False FA (a64_ms st') = Some (FA + 4) \<and>
    redirect_map st' = (redirect_map st)(FA \<mapsto> L) \<and> ms_ok (a64_ms st') \<and>
    set (addrs L 12) \<subseteq> free_set (a64_ms st) \<and>
    free_set (a64_ms st') = free_set (a64_ms st) - set (addrs L 12) \<and>
    (\<forall>x. x \<notin> {FA, FA + 1, FA + 2, FA + 3} \<union> set (addrs L 12) \<longrightarrow>
       ms_peek x (a64_ms st') = ms_peek x (a64_ms st))"
proof -
  obtain st' where st': "arm64_ApplyPatch 2 rnd FA to_addr st = Inr st'"
    "redirect_map st' = (redirect_map st)(FA \<mapsto> r_start r)" "set (addrs (r_start r) 12) \<subseteq> free_set (a64_ms st)"
    "free_set (a64_ms st') = free_set (a64_ms st) - set (addrs (r_start r) 12)" "ms_ok (a64_ms st')"
    "\<forall>x. x \<notin> {FA, FA + 1, FA + 2, FA + 3} \<union> set (addrs (r_start r) 12) \<longrightarrow>
       ms_peek x (a64_ms st') = ms_peek x (a64_ms st)"
    "\<And>c. arm64_step c FA (a64_ms st') = Some (rel_target FA (word_offset FA (r_start r)))"
    "\<And>c. arm64_step c (r_start r) (a64_ms st') = Some (if c then r_start r + 8 else r_start r + 4)"
    "\<And>c. arm64_step c (r_start r + 4) (a64_ms st') =
       Some (rel_target (r_start r + 4) (word_offset (r_start r + 4) (FA + 4)))"
    "\<And>c. arm64_step c (r_start r + 8) (a64_ms st') =
       Some (rel_target (r_start r + 8) (word_offset (r_start r + 8) to_addr))"
    using arm64_ApplyPatch_far [OF assms(1-6) assms(8-10) [folded assms(7)]] by blast
  have "rel_target FA (word_offset FA L) = L" "rel_target (L + 4) (word_offset (L + 4) (FA + 4)) = FA + 4"
      "rel_target (L + 8) (word_offset (L + 8) to_addr) = to_addr"
    using assms(8-10) by (simp_all add: arm64_near_def rel_target_word_offset)
  then have "arm64_run 3 True FA (a64_ms st') = Some to_addr" "arm64_run 3 False FA (a64_ms st') = Some (FA + 4)"
    using st'(7-10) unfolding assms(7) by (simp_all add: numeral_3_eq_3)
  then show ?thesis using st'(1-6) unfolding assms(7) by blast
qed

lemma sample_getFreeRange_12: "getFreeRange 0 12 sample_space = Inr (mk_range 0x100 0x1ff)"
proof -
  have b: "req_bucket 12 = 4"
    by (simp add: req_bucket_def integerlog2ceil_def log2ceil_loop.simps)
  have el: "elems sample_space = {mk_range 0x100 0x1ff}" by (simp add: sample_space_def elems_def)
  have le: "(12::int) * 2 ^ 4 \<le> int_max" "(1::int) \<le> 12" "(12::int) \<le> int_max"
    by (simp_all add: int_max_def)
  note spec = getFreeRange_spec [OF sample_space_ok(1) le(2,3), of 0, unfolded el b]
  show ?thesis
  proof (cases "getFreeRange 0 12 sample_space")
    case (Inl e)
    then have "\<forall>i. 12 * 2 ^ i \<le> int_max \<longrightarrow> fr_bucket (mk_range 0x100 0x1ff) \<noteq> 4 + i" using spec by simp
    from this [rule_format, OF le(1)] have "fr_bucket (mk_range 0x100 0x1ff) \<noteq> 4 + 4" .
    then show ?thesis by (simp add: sample_bucket)
  qed (use spec in simp)
qed

theorem arm64_trampoline_witness:
  "\<exists>st'. arm64_ApplyPatch 2 0 0x1000 0x200000 (arm64_sample [0, 0, 0, 0x54]) = Inr st' \<and>
     arm64_run 3 True 0x1000 (a64_ms st') = Some 0x200000 \<and>
     arm64_run 3 False 0x1000 (a64_ms st') = Some 0x1004"
proof -
  let ?st = "arm64_sample [0, 0, 0, 0x54]"
  have 1: "ms_ok (a64_ms ?st)" by (simp add: arm64_sample_def sample_space_ok)
  have 2: "arm64_cond (ms_peek (0x1000 + 3) (a64_ms ?st))" by (simp add: arm64_sample_def arm64_cond_def)
  have 3: "\<not> shift_fits 13 (word_offset 0x1000 0x200000)" by (simp add: word_offset_def shift_fits_def)
  have 4: "redirect_map ?st 0x1000 = None" by (simp add: arm64_sample_def)
  have 5: "{0x1000, 0x1000 + 1, 0x1000 + 2, 0x1000 + 3} \<inter> free_set (a64_ms ?st) = {}"
    by (simp add: arm64_sample_def sample_space_ok)
  have 6: "getFreeRange 0 12 (a64_ms ?st) = Inr (mk_range 0x100 0x1ff)"
    using sample_getFreeRange_12 getFreeRange_cong [of "a64_ms ?st" sample_space 0 12]
    by (simp add: arm64_sample_def)
  have 7: "arm64_near 0x1000 0x100" "arm64_near (0x100 + 4) (0x1000 + 4)" "arm64_near (0x100 + 8) 0x200000"
    by (simp_all add: arm64_near_def word_reach_def word_offset_def shift_fits_def)
  have L: "r_start (mk_range 0x100 0x1ff) = 0x100" by simp
  from arm64_trampoline [OF 1 2 3 4 5 6 L 7] show ?thesis by auto
qed

text \<open>The overflow check of the ARM64 patcher does not see distances of 2 GB and more: the
  distance is truncated to 32 bits before it is checked. An unconditional branch whose
  target is \<open>2 ^ 32\<close> bytes away passes the check and is written as a branch to itself.\<close>

theorem arm64_overflow_unnoticed:
  assumes "arm64_uncond (ms_peek (a + 3) (a64_ms st))" and "t = a + 2 ^ 32"
  shows "\<exists>st'. arm64_ApplyPatch 2 rnd a t st = Inr st' \<and> arm64_run 1 c a (a64_ms st') = Some a \<and> t \<noteq> a"
proof -
  have w: "word_offset a t = 0" by (simp add: assms(2) word_offset_def)
  then have "shift_fits 6 (word_offset a t)" by (simp add: shift_fits_def)
  then obtain st' where st': "arm64_ApplyPatch (Suc 1) rnd a t st = Inr st'"
    using arm64_uncond_total [OF assms(1)] by blast
  have "arm64_step c a (a64_ms st') = Some a"
    using arm64_uncond_effect(1) [OF st' assms(1)] w by (simp add: rel_target_def)
  moreover have "t \<noteq> a" by (simp add: assms(2))
  ultimately show ?thesis using st' unfolding Suc_1 by auto
qed

theorem arm64_overflow_unnoticed_witness:
  "\<exists>st'. arm64_ApplyPatch 2 0 0x1000 0x100001000 (arm64_sample [0, 0, 0, 0x14]) = Inr st' \<and>
     arm64_run 1 True 0x1000 (a64_ms st') = Some 0x1000"
proof -
  have u: "arm64_uncond (ms_peek (0x1000 + 3) (a64_ms (arm64_sample [0, 0, 0, 0x14])))"
    by (simp add: arm64_sample_def arm64_uncond_def)
  have "(0x100001000 :: addr) = 0x1000 + 2 ^ 32" by simp
  from arm64_overflow_unnoticed [OF u this] show ?thesis by blast
qed

end
