(* ===== verification/Zipr_Sizer.thy ===== *)
theory Zipr_Sizer
  imports Zipr_State Zipr_Patcher_RISC
begin

text \<open>
  The sizers (\<open>zipr/src/sizer_base.cpp\<close>, \<open>sizer_x86.cpp\<close>, \<open>sizer_arm64.cpp\<close>,
  \<open>sizer_arm32.cpp\<close>, \<open>sizer_mips32.cpp\<close>): how much room an instruction and a dollop need,
  where a dollop goes, and how an instruction with a target is written. The bytes the
  assembler makes of a text (\<open>asmb\<close>) and the decoder's answers (\<open>is_tbz\<close>, \<open>is_branch\<close>) are
  parameters.
\<close>

section \<open>Constants\<close>

record sizes =
  CALLBACK_TRAMPOLINE_SIZE :: size_t
  TRAMPOLINE_SIZE :: size_t
  LONG_PIN_SIZE :: size_t
  SHORT_PIN_SIZE :: size_t
  ALIGNMENT :: size_t
  UNPIN_ALIGNMENT :: size_t

definition x86_sizes :: sizes where
  "x86_sizes = \<lparr>CALLBACK_TRAMPOLINE_SIZE = 10, TRAMPOLINE_SIZE = 5, LONG_PIN_SIZE = 2, SHORT_PIN_SIZE = 5,
     ALIGNMENT = 1, UNPIN_ALIGNMENT = 8\<rparr>"

definition arm64_sizes :: sizes where
  "arm64_sizes = \<lparr>CALLBACK_TRAMPOLINE_SIZE = 4, TRAMPOLINE_SIZE = 4, LONG_PIN_SIZE = 4, SHORT_PIN_SIZE = 4,
     ALIGNMENT = 4, UNPIN_ALIGNMENT = 8\<rparr>"

definition arm32_sizes :: sizes where
  "arm32_sizes = \<lparr>CALLBACK_TRAMPOLINE_SIZE = 4, TRAMPOLINE_SIZE = 4, LONG_PIN_SIZE = 4, SHORT_PIN_SIZE = 4,
     ALIGNMENT = 4, UNPIN_ALIGNMENT = 8\<rparr>"

definition mips32_sizes :: sizes where
  "mips32_sizes = \<lparr>CALLBACK_TRAMPOLINE_SIZE = 8, TRAMPOLINE_SIZE = 8, LONG_PIN_SIZE = 8, SHORT_PIN_SIZE = 8,
     ALIGNMENT = 4, UNPIN_ALIGNMENT = 8\<rparr>"

section \<open>Size and place of a dollop\<close>

text \<open>\<open>getFreeRange\<close> takes an \<open>int\<close>: the request is narrowed to 32 bits.\<close>

definition to_int :: "size_t \<Rightarrow> int" where
  "to_int n = sint (ucast n :: 32 word)"

definition front_insn :: "'a dheap_scheme \<Rightarrow> did \<Rightarrow> iid result" where
  "front_insn h d = (if dinsns h d = [] then Inl OutOfBounds else Inr (hd (dinsns h d)))"

definition align_up :: "addr \<Rightarrow> size_t \<Rightarrow> addr" where
  "align_up a n = (a + n - 1) AND NOT (n - 1)"

definition DoPlacement :: "sizes \<Rightarrow> nat \<Rightarrow> ir \<Rightarrow> 'a dheap_scheme \<Rightarrow> memory_space \<Rightarrow> size_t \<Rightarrow> did \<Rightarrow> range_t result" where
  "DoPlacement sz rnd f h ms p_size p_dollop =
     assertR (0 < d_size (dl h p_dollop)) (\<lambda>_.
     bindR (front_insn h p_dollop) (\<lambda>dollop_insn.
     let isUnpinnedIbta = (ibta_of f dollop_insn = Some 0);
         alignment = (if isUnpinnedIbta then UNPIN_ALIGNMENT sz else ALIGNMENT sz);
         sizeToAlloc = p_size + alignment - 1
     in bindR (getFreeRange rnd (to_int sizeToAlloc) ms) (\<lambda>new_place.
        Inr (mk_range (align_up (r_start new_place) alignment) (r_end new_place)))))"

text \<open>The sum is an \<open>unsigned int\<close>. A cycle of unplaced fallthrough dollops is never left.\<close>

fun DollopSizes :: "nat \<Rightarrow> sizes \<Rightarrow> ir \<Rightarrow> 'a dheap_scheme \<Rightarrow> did option \<Rightarrow> uint32 \<Rightarrow> uint32 result" where
  "DollopSizes n sz f h None wcds = Inr wcds"
| "DollopSizes 0 sz f h (Some d) wcds = Inl OutOfFuel"
| "DollopSizes (Suc n) sz f h (Some d) wcds =
     (let wcds = wcds + of_nat (d_size (dl h d));
          tramp = ucast (TRAMPOLINE_SIZE sz)
      in bindR (canCoalesce f h (Some d) (d_ft (dl h d))) (\<lambda>c.
         if \<not> c then Inr (wcds + tramp)
         else if pl_placed (dl h d) then Inr (wcds + tramp)
         else DollopSizes n sz f h (d_ft (dl h d)) (if d_ft (dl h d) \<noteq> None then wcds - tramp else wcds)))"

definition DetermineDollopSizeInclFallthrough :: "nat \<Rightarrow> sizes \<Rightarrow> ir \<Rightarrow> 'a dheap_scheme \<Rightarrow> did \<Rightarrow> size_t result" where
  "DetermineDollopSizeInclFallthrough n sz f h d = mapR ucast (DollopSizes n sz f h (Some d) 0)"

section \<open>Bytes of an instruction\<close>

definition data_bits :: "(asm \<Rightarrow> byte list) \<Rightarrow> ir \<Rightarrow> iid \<Rightarrow> byte list" where
  "data_bits asmb f i = (case i_text (the_insn f i) of DataBits bs \<Rightarrow> bs | Asm t \<Rightarrow> asmb t)"

text \<open>A string's element at its length is the null character.\<close>

definition first_byte :: "byte list \<Rightarrow> byte" where
  "first_byte bs = (case bs of [] \<Rightarrow> 0 | b # _ \<Rightarrow> b)"

text \<open>Where an entry is written, and where its target is, with the callers' overrides.\<close>

definition entry_place :: "dentry \<Rightarrow> addr \<Rightarrow> addr" where
  "entry_place E override_place = (if override_place = 0 then pl_place E else override_place)"

definition entry_target :: "'a dheap_scheme \<Rightarrow> dentry \<Rightarrow> addr \<Rightarrow> addr result" where
  "entry_target h E override_target =
     (if override_target \<noteq> 0 then Inr override_target
      else case de_tgt E of None \<Rightarrow> Inl NullDeref | Some d \<Rightarrow> Inr (pl_place (dl h d)))"

definition z_plop :: "addr \<Rightarrow> byte list \<Rightarrow> 'a zipr_scheme \<Rightarrow> 'a zipr_scheme result" where
  "z_plop a bs = on_ms (PlopBytes a bs)"

section \<open>x86\<close>

definition x86_DetermineInsnSize :: "(asm \<Rightarrow> byte list) \<Rightarrow> ir \<Rightarrow> iid \<Rightarrow> bool \<Rightarrow> nat" where
  "x86_DetermineInsnSize asmb f insn account_for_jump =
     (let bs = data_bits asmb f insn; b = first_byte bs;
          required_size =
            (if 0x70 \<le> b \<and> b \<le> 0x7f then 6
             else if b = 0xeb then (if tgt_of f insn \<noteq> None then 5 else length bs)
             else if 0xe0 \<le> b \<and> b \<le> 0xe3 then (if tgt_of f insn \<noteq> None then 12 else length bs)
             else if i_callback (the_insn f insn) \<noteq> '''' then 10 else length bs)
      in if account_for_jump then required_size + 5 else required_size)"

definition x86_patch :: "nat \<Rightarrow> addr \<Rightarrow> addr \<Rightarrow> 'a zipr_scheme \<Rightarrow> 'a zipr_scheme result" where
  "x86_patch bits a t = on_ms (x86_ApplyPatch 15 bits a t)"

text \<open>
  A loop instruction has only a short form: it jumps over a jump to the fallthrough to a jump
  to the target. Without a fallthrough nothing is written.
\<close>

definition x86_loop_fallthrough :: "'a dheap_scheme \<Rightarrow> eid \<Rightarrow> eid option result" where
  "x86_loop_fallthrough h e =
     (case de_member (ent h e) of None \<Rightarrow> Inl NullDeref
      | Some d \<Rightarrow>
          (case getFallthroughDollopEntry h d e of
             Some x \<Rightarrow> Inr (Some x)
           | None \<Rightarrow>
               (case d_ft (dl h d) of
                  None \<Rightarrow> Inr None
                | Some d' \<Rightarrow> (case d_entries (dl h d') of [] \<Rightarrow> Inl OutOfBounds | x # _ \<Rightarrow> Inr (Some x)))))"

definition x86_plop_loop :: "nat \<Rightarrow> eid \<Rightarrow> byte \<Rightarrow> addr \<Rightarrow> addr \<Rightarrow> 'a zipr_scheme \<Rightarrow> (addr \<times> 'a zipr_scheme) result" where
  "x86_plop_loop bits e b a target_addr z =
     bindR (x86_loop_fallthrough (z_dm z) e) (\<lambda>ft.
     case ft of
       None \<Rightarrow> Inr (a, z)
     | Some x \<Rightarrow>
         let ft_place = pl_place (ent (z_dm z) x) in
         assertR (pl_placed (ent (z_dm z) x)) (\<lambda>_.
         bindR (z_plop a [b, 5] z) (\<lambda>z.
         bindR (on_ms (PlopJump (a + 2)) z) (\<lambda>z.
         bindR (x86_patch bits (a + 2) ft_place z) (\<lambda>z.
         bindR (on_ms (PlopJump (a + 7)) z) (\<lambda>z.
         bindR (x86_patch bits (a + 7) target_addr z) (\<lambda>z. Inr (a + 12, z))))))))"

definition x86_PlopDollopEntryWithTarget ::
    "(asm \<Rightarrow> byte list) \<Rightarrow> nat \<Rightarrow> eid \<Rightarrow> addr \<Rightarrow> addr \<Rightarrow> 'a zipr_scheme \<Rightarrow> (addr \<times> 'a zipr_scheme) result" where
  "x86_PlopDollopEntryWithTarget asmb bits entry override_place override_target z =
     (let E = ent (z_dm z) entry; bs = data_bits asmb (z_ir z) (de_insn E); b = first_byte bs in
      assertR (de_tgt E \<noteq> None) (\<lambda>_.
      let a = entry_place E override_place in
      bindR (entry_target (z_dm z) E override_target) (\<lambda>target_addr.
      let plop_patch = (\<lambda>bytes. bindR (z_plop a bytes z) (\<lambda>z.
            bindR (x86_patch bits a target_addr z) (\<lambda>z. Inr (a + of_nat (length bytes), z))))
      in if 2 < length bs then plop_patch bs
         else if 0x70 \<le> b \<and> b \<le> 0x7f then plop_patch [0x0f, b + 0x10, 0, 0, 0, 0]
         else if b = 0xeb then plop_patch [0xe9, b + 0x10, 0, 0, 0]
         else if 0xe0 \<le> b \<and> b \<le> 0xe3 then x86_plop_loop bits entry b a target_addr z
         else Inl AssertFail)))"

section \<open>ARM64\<close>

text \<open>The redirect map of the ARM64 patcher is part of the state.\<close>

record zipr_arm64 = zipr +
  z_redirect :: "addr \<rightharpoonup> addr"

definition arm64_patch :: "nat \<Rightarrow> addr \<Rightarrow> addr \<Rightarrow> 'a zipr_arm64_scheme \<Rightarrow> 'a zipr_arm64_scheme result" where
  "arm64_patch rnd a t z =
     bindR (arm64_ApplyPatch 2 rnd a t \<lparr>a64_ms = z_ms z, redirect_map = z_redirect z\<rparr>) (\<lambda>st.
     Inr (z\<lparr>z_ms := a64_ms st, z_redirect := redirect_map st\<rparr>))"

definition arm64_DetermineInsnSize :: "(byte list \<Rightarrow> bool) \<Rightarrow> (asm \<Rightarrow> byte list) \<Rightarrow> ir \<Rightarrow> iid \<Rightarrow> bool \<Rightarrow> nat" where
  "arm64_DetermineInsnSize is_tbz asmb f insn account_for_jump =
     (let n = (if is_tbz (data_bits asmb f insn) then 12 else 4);
          jmp_size = (if account_for_jump then 4 else 0)
      in n + jmp_size)"

text \<open>Four bytes are copied from the instruction's string; its terminator is the last that may be read.\<close>

definition first4 :: "byte list \<Rightarrow> byte list result" where
  "first4 bs = (if length bs < 3 then Inl OutOfBounds else Inr (take 4 (bs @ [0])))"

definition arm64_tbz_plop ::
    "nat \<Rightarrow> byte list \<Rightarrow> addr \<Rightarrow> addr \<Rightarrow> 'a zipr_arm64_scheme \<Rightarrow> (addr \<times> 'a zipr_arm64_scheme) result" where
  "arm64_tbz_plop rnd bits a target_addr z =
     bindR (first4 bits) (\<lambda>bs.
     bindR (z_plop a bs z) (\<lambda>z.
     bindR (arm64_patch rnd a (a + 8) z) (\<lambda>z.
     bindR (z_plop (a + 4) branch_bytes z) (\<lambda>z.
     bindR (arm64_patch rnd (a + 4) (a + 12) z) (\<lambda>z.
     bindR (z_plop (a + 8) branch_bytes z) (\<lambda>z.
     bindR (arm64_patch rnd (a + 8) target_addr z) (\<lambda>z. Inr (a + 12, z))))))))"

definition arm64_TBZPlopDollopEntryWithTarget ::
    "nat \<Rightarrow> (asm \<Rightarrow> byte list) \<Rightarrow> eid \<Rightarrow> addr \<Rightarrow> addr \<Rightarrow> 'a zipr_arm64_scheme \<Rightarrow> (addr \<times> 'a zipr_arm64_scheme) result" where
  "arm64_TBZPlopDollopEntryWithTarget rnd asmb entry override_place override_target z =
     (let E = ent (z_dm z) entry in
      bindR (entry_target (z_dm z) E override_target) (\<lambda>target_addr.
      arm64_tbz_plop rnd (data_bits asmb (z_ir z) (de_insn E)) (entry_place E override_place) target_addr z))"

definition arm64_DefaultPlopDollopEntryWithTarget ::
    "nat \<Rightarrow> (asm \<Rightarrow> byte list) \<Rightarrow> eid \<Rightarrow> addr \<Rightarrow> addr \<Rightarrow> 'a zipr_arm64_scheme \<Rightarrow> (addr \<times> 'a zipr_arm64_scheme) result" where
  "arm64_DefaultPlopDollopEntryWithTarget rnd asmb entry override_place override_target z =
     (let E = ent (z_dm z) entry; a = entry_place E override_place in
      bindR (entry_target (z_dm z) E override_target) (\<lambda>target_addr.
      bindR (first4 (data_bits asmb (z_ir z) (de_insn E))) (\<lambda>bs.
      bindR (z_plop a bs z) (\<lambda>z.
      bindR (arm64_patch rnd a target_addr z) (\<lambda>z. Inr (a + 4, z))))))"

definition arm64_PlopDollopEntryWithTarget ::
    "nat \<Rightarrow> (byte list \<Rightarrow> bool) \<Rightarrow> (asm \<Rightarrow> byte list) \<Rightarrow> eid \<Rightarrow> addr \<Rightarrow> addr \<Rightarrow> 'a zipr_arm64_scheme \<Rightarrow> (addr \<times> 'a zipr_arm64_scheme) result" where
  "arm64_PlopDollopEntryWithTarget rnd is_tbz asmb entry override_place override_target z =
     assertR (de_tgt (ent (z_dm z) entry) \<noteq> None) (\<lambda>_.
     if is_tbz (data_bits asmb (z_ir z) (de_insn (ent (z_dm z) entry)))
     then arm64_TBZPlopDollopEntryWithTarget rnd asmb entry override_place override_target z
     else arm64_DefaultPlopDollopEntryWithTarget rnd asmb entry override_place override_target z)"

section \<open>ARM32 and MIPS32\<close>

definition word_plop :: "(addr \<Rightarrow> addr \<Rightarrow> memory_space \<Rightarrow> memory_space result) \<Rightarrow> (asm \<Rightarrow> byte list) \<Rightarrow>
    eid \<Rightarrow> addr \<Rightarrow> addr \<Rightarrow> 'a zipr_scheme \<Rightarrow> (addr \<times> 'a zipr_scheme) result" where
  "word_plop patch asmb entry override_place override_target z =
     (let E = ent (z_dm z) entry; a = entry_place E override_place in
      bindR (entry_target (z_dm z) E override_target) (\<lambda>target_addr.
      bindR (first4 (data_bits asmb (z_ir z) (de_insn E))) (\<lambda>bs.
      bindR (z_plop a bs z) (\<lambda>z.
      bindR (on_ms (patch a target_addr) z) (\<lambda>z. Inr (a + 4, z))))))"

definition arm32_PlopDollopEntryWithTarget ::
    "(asm \<Rightarrow> byte list) \<Rightarrow> eid \<Rightarrow> addr \<Rightarrow> addr \<Rightarrow> 'a zipr_scheme \<Rightarrow> (addr \<times> 'a zipr_scheme) result" where
  "arm32_PlopDollopEntryWithTarget = word_plop arm32_ApplyPatch"

definition mips32_PlopDollopEntryWithTarget ::
    "(asm \<Rightarrow> byte list) \<Rightarrow> eid \<Rightarrow> addr \<Rightarrow> addr \<Rightarrow> 'a zipr_scheme \<Rightarrow> (addr \<times> 'a zipr_scheme) result" where
  "mips32_PlopDollopEntryWithTarget = word_plop mips32_ApplyPatch"

definition arm32_DetermineInsnSize :: "bool \<Rightarrow> nat" where
  "arm32_DetermineInsnSize account_for_jump = 4 + (if account_for_jump then 4 else 0)"

definition mips32_DetermineInsnSize :: "(byte list \<Rightarrow> bool) \<Rightarrow> (asm \<Rightarrow> byte list) \<Rightarrow> ir \<Rightarrow> iid \<Rightarrow> bool \<Rightarrow> nat" where
  "mips32_DetermineInsnSize is_branch asmb f insn account_for_jump =
     (let delay_slot_size = (if is_branch (data_bits asmb f insn) then 4 else 0);
          jmp_size = (if account_for_jump then 8 + delay_slot_size else 0)
      in 4 + jmp_size)"

end
