(* ===== verification/Zipr_Plop.thy ===== *)
theory Zipr_Plop
  imports Zipr_Sizer
begin

text \<open>
  Writing the program once every dollop has its place (\<open>zipr/src/zipr.cpp\<close>): the entries of
  the dollops, the callbacks and the pins; and the plugin manager (\<open>zipr/src/plugin_man.cpp\<close>),
  which asks the plugins about each step.

  The plugins are loaded at run time. A plugin is a record of functions, one per entry point,
  that may read and change the whole state; the architecture is a record of the operations of
  its sizer and its patcher.
\<close>

record zplop = zipr_arm64 +
  z_plopping :: "iid \<rightharpoonup> nat list"            \<comment> \<open>\<open>plopping_plugins\<close>\<close>
  z_callbacks :: "(eid \<times> addr) list"           \<comment> \<open>\<open>unpatched_callbacks\<close>, a set\<close>
  z_replop :: "eid list"                        \<comment> \<open>\<open>m_des_to_replop\<close>\<close>

record 's plugin =
  pg_willPluginPlop :: "iid \<Rightarrow> 's \<Rightarrow> bool"
  pg_getDollopEntryOpeningSize :: "eid \<Rightarrow> 's \<Rightarrow> size_t"
  pg_getDollopEntryClosingSize :: "eid \<Rightarrow> 's \<Rightarrow> size_t"
  pg_getInsnSize :: "iid \<Rightarrow> bool \<Rightarrow> 's \<Rightarrow> size_t"
  pg_plopDollopEntry :: "eid \<Rightarrow> addr \<Rightarrow> addr \<Rightarrow> size_t \<Rightarrow> 's \<Rightarrow> (addr \<times> addr \<times> addr \<times> bool \<times> 's) result"
    \<comment> \<open>its result, then \<open>placed_address\<close>, \<open>target_address\<close> and \<open>pp_placed_insn\<close>\<close>
  pg_retargetPin :: "addr \<Rightarrow> did \<Rightarrow> addr \<Rightarrow> 's \<Rightarrow> bool \<times> addr \<times> 's"     \<comment> \<open>\<open>Must\<close>, the target\<close>
  pg_retargetCallback :: "addr \<Rightarrow> eid \<Rightarrow> addr \<Rightarrow> 's \<Rightarrow> bool \<times> addr \<times> 's"
  pg_addressDollop :: "did \<Rightarrow> addr \<Rightarrow> range_t \<Rightarrow> bool \<Rightarrow> bool \<Rightarrow> 's \<Rightarrow> bool \<times> range_t \<times> bool \<times> bool \<times> 's"
    \<comment> \<open>\<open>Must\<close>, the place, \<open>coalesce\<close> and \<open>fallthrough_allowed\<close>\<close>

record 's arch =
  ar_sizes :: sizes
  ar_bits :: nat
  ar_DetermineInsnSize :: "ir \<Rightarrow> iid \<Rightarrow> bool \<Rightarrow> nat"
  ar_PlopDollopEntryWithTarget :: "eid \<Rightarrow> addr \<Rightarrow> addr \<Rightarrow> 's \<Rightarrow> (addr \<times> 's) result"
  ar_ApplyPatch :: "addr \<Rightarrow> addr \<Rightarrow> 's \<Rightarrow> 's result"
  ar_PatchJump :: "addr \<Rightarrow> addr \<Rightarrow> 's \<Rightarrow> 's result"
  ar_PatchCall :: "addr \<Rightarrow> addr \<Rightarrow> 's \<Rightarrow> 's result"
  ar_CallToNop :: "addr \<Rightarrow> 's \<Rightarrow> 's result"

section \<open>The plugin manager\<close>

text \<open>The first plugin that says \<open>Must\<close> wins; the ones before it may have changed the target.\<close>

fun DoesPluginRetargetPin :: "'s plugin list \<Rightarrow> addr \<Rightarrow> did \<Rightarrow> addr \<Rightarrow> 's \<Rightarrow> bool \<times> addr \<times> 's" where
  "DoesPluginRetargetPin [] patch_addr d t z = (False, t, z)"
| "DoesPluginRetargetPin (p # ps) patch_addr d t z =
     (case pg_retargetPin p patch_addr d t z of
        (True, t, z) \<Rightarrow> (True, t, z)
      | (False, t, z) \<Rightarrow> DoesPluginRetargetPin ps patch_addr d t z)"

fun DoesPluginRetargetCallback :: "'s plugin list \<Rightarrow> addr \<Rightarrow> eid \<Rightarrow> addr \<Rightarrow> 's \<Rightarrow> bool \<times> addr \<times> 's" where
  "DoesPluginRetargetCallback [] callback_addr e t z = (False, t, z)"
| "DoesPluginRetargetCallback (p # ps) callback_addr e t z =
     (case pg_retargetCallback p callback_addr e t z of
        (True, t, z) \<Rightarrow> (True, t, z)
      | (False, t, z) \<Rightarrow> DoesPluginRetargetCallback ps callback_addr e t z)"

fun DoesPluginAddress :: "'s plugin list \<Rightarrow> did \<Rightarrow> addr \<Rightarrow> range_t \<Rightarrow> bool \<Rightarrow> bool \<Rightarrow> 's \<Rightarrow>
    bool \<times> range_t \<times> bool \<times> bool \<times> 's" where
  "DoesPluginAddress [] d source place c f z = (False, place, c, f, z)"
| "DoesPluginAddress (p # ps) d source place c f z =
     (case pg_addressDollop p d source place c f z of
        (True, place, c, f, z) \<Rightarrow> (True, place, c, f, z)
      | (False, place, c, f, z) \<Rightarrow> DoesPluginAddress ps d source place c f z)"

definition DoPluginsPlop :: "'s plugin list \<Rightarrow> iid \<Rightarrow> 's \<Rightarrow> bool \<times> nat list" where
  "DoPluginsPlop ps insn z =
     (let callbacks = List.filter (\<lambda>i. pg_willPluginPlop (ps ! i) insn z) [0..<length ps]
      in (callbacks \<noteq> [], callbacks))"

definition AskPluginsAboutPlopping :: "'a zplop_scheme plugin list \<Rightarrow> iid list \<Rightarrow> 'a zplop_scheme \<Rightarrow> 'a zplop_scheme" where
  "AskPluginsAboutPlopping ps insns = fold (\<lambda>insn z.
     let (found, l) = DoPluginsPlop ps insn z
     in if found then z\<lparr>z_plopping := (z_plopping z)(insn \<mapsto> l)\<rparr> else z) insns"

definition handles :: "'s plugin list \<Rightarrow> 'a zplop_scheme \<Rightarrow> iid \<Rightarrow> 's plugin list" where
  "handles ps z insn = (case z_plopping z insn of None \<Rightarrow> [] | Some l \<Rightarrow> map ((!) ps) l)"

section \<open>Sizes\<close>

definition DetermineInsnSize :: "'a zplop_scheme arch \<Rightarrow> 'a zplop_scheme plugin list \<Rightarrow> iid \<Rightarrow> bool \<Rightarrow> 'a zplop_scheme \<Rightarrow> size_t" where
  "DetermineInsnSize ar ps insn account_for_fallthrough z =
     (let default_worst_case_size = of_nat (ar_DetermineInsnSize ar (z_ir z) insn account_for_fallthrough);
          worst_case_size =
            (case z_plopping z insn of
               None \<Rightarrow> default_worst_case_size
             | Some _ \<Rightarrow> fold (\<lambda>p w. max (pg_getInsnSize p insn account_for_fallthrough z) w) (handles ps z insn) 0)
      in if worst_case_size = 0 then default_worst_case_size else worst_case_size)"

definition DetermineDollopEntrySize :: "'a zplop_scheme arch \<Rightarrow> 'a zplop_scheme plugin list \<Rightarrow> eid \<Rightarrow> bool \<Rightarrow> 'a zplop_scheme \<Rightarrow> size_t" where
  "DetermineDollopEntrySize ar ps e account_for_fallthrough z =
     (let insn = de_insn (ent (z_dm z) e);
          wcis = DetermineInsnSize ar ps insn account_for_fallthrough z;
          opening_size = sum_list (map (\<lambda>p. pg_getDollopEntryOpeningSize p e z) (handles ps z insn));
          closing_size = sum_list (map (\<lambda>p. pg_getDollopEntryClosingSize p e z) (handles ps z insn))
      in wcis + opening_size + closing_size)"

section \<open>Writing an entry\<close>

definition front_entry :: "'a dheap_scheme \<Rightarrow> did \<Rightarrow> eid result" where
  "front_entry h d = (case d_entries (dl h d) of [] \<Rightarrow> Inl OutOfBounds | e # _ \<Rightarrow> Inr e)"

definition PlopDollopEntryWithCallback :: "'a zplop_scheme arch \<Rightarrow> eid \<Rightarrow> addr \<Rightarrow> 'a zplop_scheme \<Rightarrow> (addr \<times> 'a zplop_scheme) result" where
  "PlopDollopEntryWithCallback ar e override_place z =
     (let originalAt = entry_place (ent (z_dm z) e) override_place in
      bindR (z_plop originalAt [0xe8, 0, 0, 0, 0] z) (\<lambda>z.
      let z = z\<lparr>z_callbacks := List.insert (e, originalAt) (z_callbacks z)\<rparr>; a = originalAt + 5 in
      bindR (if ar_bits ar = 64 then mapR (Pair (a + 5)) (z_plop a [0x48, 0x8d, 0x64, 0x24, 8] z)
             else if ar_bits ar = 32 then mapR (Pair (a + 4)) (z_plop a [0x8d, 0x64, 0x24, 4] z)
             else Inl AssertFail) (\<lambda>(a, z).
      assertR (CALLBACK_TRAMPOLINE_SIZE (ar_sizes ar) \<le> a - originalAt) (\<lambda>_. Inr (a, z)))))"

definition PlopDollopEntry :: "(asm \<Rightarrow> byte list) \<Rightarrow> 'a zplop_scheme arch \<Rightarrow> eid \<Rightarrow> addr \<Rightarrow> addr \<Rightarrow> 'a zplop_scheme \<Rightarrow> (addr \<times> 'a zplop_scheme) result" where
  "PlopDollopEntry asmb ar e override_place override_target z =
     (let E = ent (z_dm z) e; insn = de_insn E; a = entry_place E override_place;
          callback = i_callback (the_insn (z_ir z) insn) in
      case de_tgt E of
        Some d \<Rightarrow>
          if callback = '''' then
            bindR (front_entry (z_dm z) d) (\<lambda>target.
            let target_address =
              (if override_target = 0
               then (case z_locs z (de_insn (ent (z_dm z) target)) of Some x \<Rightarrow> x | None \<Rightarrow> 0)
               else override_target)
            in ar_PlopDollopEntryWithTarget ar e a target_address z)
          else PlopDollopEntryWithCallback ar e a z
      | None \<Rightarrow>
          if callback \<noteq> '''' then PlopDollopEntryWithCallback ar e a z
          else let bs = data_bits asmb (z_ir z) insn in
            bindR (z_plop a bs z) (\<lambda>z. Inr (a + of_nat (length bs), z)))"

fun plugins_plop :: "eid \<Rightarrow> size_t \<Rightarrow> 's plugin list \<Rightarrow> addr \<times> addr \<times> addr \<times> bool \<Rightarrow> 's \<Rightarrow>
    ((addr \<times> addr \<times> addr \<times> bool) \<times> 's) result" where
  "plugins_plop e wcis [] r z = Inr (r, z)"
| "plugins_plop e wcis (p # ps) (updated_addr, placed_address, target_address, placed_insn) z =
     bindR (pg_plopDollopEntry p e placed_address target_address wcis z)
       (\<lambda>(plugin_ret, placed_address, target_address, pp_placed_insn, z).
     plugins_plop e wcis ps
       (max plugin_ret updated_addr, placed_address, target_address, placed_insn \<or> pp_placed_insn) z)"

definition plop_entry :: "(asm \<Rightarrow> byte list) \<Rightarrow> 'a zplop_scheme arch \<Rightarrow> 'a zplop_scheme plugin list \<Rightarrow> eid \<Rightarrow> addr \<Rightarrow> 'a zplop_scheme \<Rightarrow>
    (addr \<times> 'a zplop_scheme) result" where
  "plop_entry asmb ar ps e override_address z =
     (let E = ent (z_dm z) e; insn = de_insn E;
          insn_wcis = DetermineInsnSize ar ps insn False z in
      bindR (case de_tgt E of
               None \<Rightarrow> Inr 0
             | Some d \<Rightarrow> mapR (\<lambda>x. case z_locs z (de_insn (ent (z_dm z) x)) of Some a \<Rightarrow> a | None \<Rightarrow> 0) (front_entry (z_dm z) d))
        (\<lambda>target_address.
      bindR (plugins_plop e insn_wcis (handles ps z insn) (0, entry_place E override_address, target_address, False) z)
        (\<lambda>((updated_addr, placed_address, target_address, placed_insn), z).
      bindR (if placed_insn then Inr (updated_addr, z)
             else mapR (\<lambda>(zipr_ret, z). (max zipr_ret updated_addr, z)) (PlopDollopEntry asmb ar e placed_address target_address z))
        (\<lambda>(updated_addr, z).
      Inr (updated_addr, z\<lparr>z_locs := (z_locs z)(insn \<mapsto> placed_address)\<rparr>)))))"

section \<open>Writing all dollops\<close>

definition write_entry :: "(asm \<Rightarrow> byte list) \<Rightarrow> 'a zplop_scheme arch \<Rightarrow> 'a zplop_scheme plugin list \<Rightarrow> eid \<Rightarrow> 'a zplop_scheme \<Rightarrow> 'a zplop_scheme result" where
  "write_entry asmb ar ps e z =
     bindR (plop_entry asmb ar ps e 0 z) (\<lambda>(de_end_loc, z).
     let should_end_at = pl_place (ent (z_dm z) e) + DetermineDollopEntrySize ar ps e False z in
     assertR (de_end_loc = should_end_at) (\<lambda>_.
     Inr (if de_tgt (ent (z_dm z) e) \<noteq> None then z\<lparr>z_replop := z_replop z @ [e]\<rparr> else z)))"

definition WriteDollops :: "(asm \<Rightarrow> byte list) \<Rightarrow> 'a zplop_scheme arch \<Rightarrow> 'a zplop_scheme plugin list \<Rightarrow> did list \<Rightarrow> 'a zplop_scheme \<Rightarrow> 'a zplop_scheme result" where
  "WriteDollops asmb ar ps = foldR (\<lambda>d z.
     if \<not> pl_placed (dl (z_dm z) d) then Inr z
     else foldR (write_entry asmb ar ps) (d_entries (dl (z_dm z) d)) z)"

definition loc_at :: "iid \<Rightarrow> 'a zipr_scheme \<Rightarrow> addr" where
  "loc_at i z = (case z_locs z i of Some a \<Rightarrow> a | None \<Rightarrow> 0)"

definition ReplopDollopEntriesWithTargets :: "(asm \<Rightarrow> byte list) \<Rightarrow> 'a zplop_scheme arch \<Rightarrow> 'a zplop_scheme plugin list \<Rightarrow> 'a zplop_scheme \<Rightarrow> 'a zplop_scheme result" where
  "ReplopDollopEntriesWithTargets asmb ar ps z = foldR (\<lambda>e z.
     let src_insn = de_insn (ent (z_dm z) e); src_insn_addr = loc_at src_insn z;
         z = z\<lparr>z_locs := (z_locs z)(src_insn \<mapsto> src_insn_addr)\<rparr>
     in mapR snd (plop_entry asmb ar ps e src_insn_addr z)) (z_replop z) z"

section \<open>Callbacks, pins and patches\<close>

text \<open>The set of callbacks is iterated in the order of its keys, a parameter.\<close>

definition UpdateCallback :: "'a zplop_scheme arch \<Rightarrow> 'a zplop_scheme plugin list \<Rightarrow> eid \<times> addr \<Rightarrow> 'a zplop_scheme \<Rightarrow> 'a zplop_scheme result" where
  "UpdateCallback ar ps = (\<lambda>(e, a) z.
     let (_, to, z) = DoesPluginRetargetCallback ps a e 0 z
     in if to \<noteq> 0 then ar_PatchCall ar a to z else ar_CallToNop ar a z)"

definition UpdateCallbacks :: "(eid \<times> addr \<Rightarrow> nat) \<Rightarrow> 'a zplop_scheme arch \<Rightarrow> 'a zplop_scheme plugin list \<Rightarrow> 'a zplop_scheme \<Rightarrow> 'a zplop_scheme result" where
  "UpdateCallbacks ord ar ps z =
     assertR (IsValidRange (FindFreeRange (- 1) (z_ms z))) (\<lambda>_.
     foldR (UpdateCallback ar ps) (sort_key ord (z_callbacks z)) z)"

text \<open>The multimap of patches is ordered by the instruction; \<open>ord\<close> is that order.\<close>

definition pin_target :: "'a zplop_scheme \<Rightarrow> eid \<Rightarrow> addr" where
  "pin_target z e = (case z_locs z (de_insn (ent (z_dm z) e)) of Some a \<Rightarrow> a | None \<Rightarrow> pl_place (ent (z_dm z) e))"

definition UpdatePin :: "'a zplop_scheme arch \<Rightarrow> 'a zplop_scheme plugin list \<Rightarrow> iid \<Rightarrow> patch_t \<Rightarrow> 'a zplop_scheme \<Rightarrow> 'a zplop_scheme result" where
  "UpdatePin ar ps uu p z =
     (case getContainingDollop uu (z_dm z) of
        None \<Rightarrow> Inl AssertFail
      | Some d \<Rightarrow>
          bindR (front_entry (z_dm z) d) (\<lambda>e.
          assertR (de_insn (ent (z_dm z) e) = uu) (\<lambda>_.
          let patch_addr = pt_from p;
              (retargeted, target_addr, z) = DoesPluginRetargetPin ps patch_addr d (pin_target z e) z
          in if retargeted then ar_PatchJump ar patch_addr target_addr z
             else assertR (de_insn (ent (z_dm z) e) = uu) (\<lambda>_. ar_PatchJump ar patch_addr (pin_target z e) z))))"

fun UpdatePins :: "nat \<Rightarrow> (iid \<Rightarrow> nat) \<Rightarrow> 'a zplop_scheme arch \<Rightarrow> 'a zplop_scheme plugin list \<Rightarrow> 'a zplop_scheme \<Rightarrow> 'a zplop_scheme result" where
  "UpdatePins n ord ar ps z =
     (case sort_key (ord \<circ> fst) (z_patch_list z) of
        [] \<Rightarrow> Inr z
      | (uu, p) # _ \<Rightarrow>
          (case n of
             0 \<Rightarrow> Inl OutOfFuel
           | Suc n \<Rightarrow>
               bindR (UpdatePin ar ps uu p z) (\<lambda>z.
               UpdatePins n ord ar ps (z\<lparr>z_patch_list := tl (sort_key (ord \<circ> fst) (z_patch_list z))\<rparr>))))"

definition PatchInstruction :: "'a zplop_scheme arch \<Rightarrow> addr \<Rightarrow> iid \<Rightarrow> 'a zplop_scheme \<Rightarrow> 'a zplop_scheme result" where
  "PatchInstruction ar from_addr to_insn z =
     (case z_locs z to_insn of
        None \<Rightarrow> Inr (AddPatch to_insn \<lparr>pt_from = from_addr, pt_type = UncondJump_rel32\<rparr> z)
      | Some to_addr \<Rightarrow> assertR (to_addr \<noteq> 0) (\<lambda>_. ar_ApplyPatch ar from_addr to_addr z))"

section \<open>The architectures\<close>

definition x86_arch :: "(asm \<Rightarrow> byte list) \<Rightarrow> nat \<Rightarrow> 'a zplop_scheme arch" where
  "x86_arch asmb bits = \<lparr>ar_sizes = x86_sizes, ar_bits = bits,
     ar_DetermineInsnSize = x86_DetermineInsnSize asmb,
     ar_PlopDollopEntryWithTarget = x86_PlopDollopEntryWithTarget asmb bits,
     ar_ApplyPatch = x86_patch bits, ar_PatchJump = (\<lambda>a t. on_ms (x86_PatchJump a t)),
     ar_PatchCall = (\<lambda>a t. on_ms (x86_PatchCall a t)), ar_CallToNop = (\<lambda>a. on_ms (x86_CallToNop a))\<rparr>"

text \<open>The other patchers have no calls to patch: they assert.\<close>

definition arm64_arch :: "nat \<Rightarrow> (byte list \<Rightarrow> bool) \<Rightarrow> (asm \<Rightarrow> byte list) \<Rightarrow> 'a zplop_scheme arch" where
  "arm64_arch rnd is_tbz asmb = \<lparr>ar_sizes = arm64_sizes, ar_bits = 64,
     ar_DetermineInsnSize = arm64_DetermineInsnSize is_tbz asmb,
     ar_PlopDollopEntryWithTarget = arm64_PlopDollopEntryWithTarget rnd is_tbz asmb,
     ar_ApplyPatch = arm64_patch rnd,
     ar_PatchJump = (\<lambda>a t z. bindR (arm64_PatchJump rnd a t \<lparr>a64_ms = z_ms z, redirect_map = z_redirect z\<rparr>) (\<lambda>st.
       Inr (z\<lparr>z_ms := a64_ms st, z_redirect := redirect_map st\<rparr>))),
     ar_PatchCall = (\<lambda>_ _ _. Inl AssertFail), ar_CallToNop = (\<lambda>_ _. Inl AssertFail)\<rparr>"

definition arm32_arch :: "(asm \<Rightarrow> byte list) \<Rightarrow> 'a zplop_scheme arch" where
  "arm32_arch asmb = \<lparr>ar_sizes = arm32_sizes, ar_bits = 32,
     ar_DetermineInsnSize = (\<lambda>_ _. arm32_DetermineInsnSize),
     ar_PlopDollopEntryWithTarget = arm32_PlopDollopEntryWithTarget asmb,
     ar_ApplyPatch = (\<lambda>a t. on_ms (arm32_ApplyPatch a t)), ar_PatchJump = (\<lambda>a t. on_ms (arm32_PatchJump a t)),
     ar_PatchCall = (\<lambda>_ _ _. Inl AssertFail), ar_CallToNop = (\<lambda>_ _. Inl AssertFail)\<rparr>"

definition mips32_arch :: "(byte list \<Rightarrow> bool) \<Rightarrow> (asm \<Rightarrow> byte list) \<Rightarrow> 'a zplop_scheme arch" where
  "mips32_arch is_branch asmb = \<lparr>ar_sizes = mips32_sizes, ar_bits = 32,
     ar_DetermineInsnSize = mips32_DetermineInsnSize is_branch asmb,
     ar_PlopDollopEntryWithTarget = mips32_PlopDollopEntryWithTarget asmb,
     ar_ApplyPatch = (\<lambda>a t. on_ms (mips32_ApplyPatch a t)), ar_PatchJump = (\<lambda>a t. on_ms (mips32_PatchJump a t)),
     ar_PatchCall = (\<lambda>_ _ _. Inl AssertFail), ar_CallToNop = (\<lambda>_ _. Inl AssertFail)\<rparr>"

end
