(* ===== verification/Zipr_Place.thy ===== *)
theory Zipr_Place
  imports Zipr_Plop
begin

text \<open>
  Placement (\<open>PlaceDollops\<close> of \<open>zipr/src/zipr.cpp\<close>) and the architecture helpers it uses
  (\<open>zipr/src/arch_base.cpp\<close>, \<open>arch_mips32.cpp\<close>, \<open>zipr/include/arch\<close>): every dollop that a pin
  needs, or a dollop placed before, gets an address; a dollop that does not fit is split, and
  one whose fallthrough fits behind it runs into it.

  Counters kept for statistics are left out. The order of the placement queue, a set of pairs
  of a pointer and an address, is a parameter, and so are the random numbers of
  \<open>getFreeRange\<close>. \<open>n\<close> bounds the loops that follow chains of dollops.
\<close>

section \<open>New instructions\<close>

text \<open>With an instruction given, the new one is linked in behind it.\<close>

definition addNewDataBits :: "iid option \<Rightarrow> byte list \<Rightarrow> ir \<Rightarrow> iid \<times> ir" where
  "addNewDataBits p_instr p_bits f =
     (let (newinstr, f') = add_new (DataBits p_bits) f
      in case p_instr of
           None \<Rightarrow> (newinstr, f')
         | Some p \<Rightarrow> (newinstr, set_ft p (Some newinstr)
             (update_insn newinstr (\<lambda>n. n\<lparr>i_ft := ft_of f' p, i_function := function_of f' p\<rparr>) f')))"

definition x86_createNewJumpInstruction :: "iid option \<Rightarrow> ir \<Rightarrow> iid \<times> ir" where
  "x86_createNewJumpInstruction p = addNewDataBits p [0xe9, 0, 0, 0, 0]"

definition x86_createNewHaltInstruction :: "iid option \<Rightarrow> ir \<Rightarrow> iid \<times> ir" where
  "x86_createNewHaltInstruction p = addNewDataBits p [0xf4]"

text \<open>On the other machines the decoder must accept the bytes; it does.\<close>

definition arm64_createNewJumpInstruction :: "iid option \<Rightarrow> ir \<Rightarrow> iid \<times> ir" where
  "arm64_createNewJumpInstruction p = addNewDataBits p [0x00, 0x00, 0x00, 0x14]"

definition arm64_createNewHaltInstruction :: "iid option \<Rightarrow> ir \<Rightarrow> iid \<times> ir" where
  "arm64_createNewHaltInstruction p = addNewDataBits p [0x00, 0x00, 0x40, 0xd4]"

definition arm32_createNewJumpInstruction :: "iid option \<Rightarrow> ir \<Rightarrow> iid \<times> ir" where
  "arm32_createNewJumpInstruction p = addNewDataBits p [0x00, 0x00, 0x00, 0xea]"

definition arm32_createNewHaltInstruction :: "iid option \<Rightarrow> ir \<Rightarrow> iid \<times> ir" where
  "arm32_createNewHaltInstruction p = addNewDataBits p [0x00, 0xf0, 0xa0, 0xe3]"

definition mips32_createNewJumpInstruction :: "iid option \<Rightarrow> ir \<Rightarrow> iid \<times> ir" where
  "mips32_createNewJumpInstruction p = addNewDataBits p [0x10, 0x00, 0x00, 0x00]"

definition mips32_createNewHaltInstruction :: "iid option \<Rightarrow> ir \<Rightarrow> iid \<times> ir" where
  "mips32_createNewHaltInstruction p = addNewDataBits p [0x00, 0x00, 0x00, 0x34]"

section \<open>Ending a dollop with a jump\<close>

text \<open>\<open>new DollopEntry_t(i, d)\<close>, not yet in the dollop.\<close>

definition new_entry :: "iid \<Rightarrow> did \<Rightarrow> dman \<Rightarrow> eid \<times> dman" where
  "new_entry i d m = (h_enext m, m\<lparr>h_ents := (h_ents m)(h_enext m \<mapsto> mk_dentry i (Some d)), h_enext := Suc (h_enext m)\<rparr>)"

definition place_entry :: "eid \<Rightarrow> addr \<Rightarrow> dman \<Rightarrow> dman result" where
  "place_entry e a m = bindR (Place a (ent m e)) (\<lambda>E. Inr (upd_ent e (\<lambda>_. E) m))"

definition place_dollop :: "did \<Rightarrow> addr \<Rightarrow> dman \<Rightarrow> dman result" where
  "place_dollop d a m = bindR (Place a (dl m d)) (\<lambda>D. Inr (upd_dl d (\<lambda>_. D) m))"

definition push_back :: "did \<Rightarrow> eid \<Rightarrow> dman \<Rightarrow> dman" where
  "push_back d e = upd_dl d (\<lambda>D. D\<lparr>d_entries := d_entries D @ [e]\<rparr>)"

definition z_upd_dm :: "(dman \<Rightarrow> dman) \<Rightarrow> 'a zipr_scheme \<Rightarrow> 'a zipr_scheme" where
  "z_upd_dm u z = z\<lparr>z_dm := u (z_dm z)\<rparr>"

definition on_dm_unit :: "(dman \<Rightarrow> dman result) \<Rightarrow> 'a zipr_scheme \<Rightarrow> 'a zipr_scheme result" where
  "on_dm_unit f z = bindR (f (z_dm z)) (\<lambda>m. Inr (z\<lparr>z_dm := m\<rparr>))"

text \<open>The default: a jump to the fallthrough.\<close>

definition base_splitDollop :: "(iid option \<Rightarrow> ir \<Rightarrow> iid \<times> ir) \<Rightarrow> denv \<Rightarrow> 'a zplop_scheme arch \<Rightarrow> 'a zplop_scheme plugin list \<Rightarrow>
    did \<Rightarrow> addr \<Rightarrow> 'a zplop_scheme \<Rightarrow> (addr \<times> 'a zplop_scheme) result" where
  "base_splitDollop jump ev ar ps to_split p_cur_addr z =
     (let ft = d_ft (dl (z_dm z) to_split);
          (patch, f) = jump None (z_ir z);
          (patch_de, m) = new_entry patch to_split (z_dm z);
          m = setTargetDollop ft patch_de m
      in bindR (place_entry patch_de p_cur_addr m) (\<lambda>m.
         let z = z\<lparr>z_ir := f, z_dm := m\<rparr>;
             cur_addr = p_cur_addr + DetermineDollopEntrySize ar ps patch_de False z;
             z = z_upd_dm (push_back to_split patch_de) z
         in bindR (on_dm_unit (setFallthroughPatched (cur_env ev z) True to_split) z) (\<lambda>z.
         Inr (cur_addr, AskPluginsAboutPlopping ps [patch] (queue_insert (ft, cur_addr) z)))))"

text \<open>
  MIPS has delay slots: a copy of the one of a branch that ends the dollop, a jump, and a nop.
  \<open>slot\<close> is the relocation for the delay slot of a branch, if there is one, and the
  instruction it names, if it does.
\<close>

definition mips32_add_instruction :: "'a zplop_scheme arch \<Rightarrow> 'a zplop_scheme plugin list \<Rightarrow> did \<Rightarrow> did option \<Rightarrow>
    iid \<Rightarrow> addr \<times> 'a zplop_scheme \<Rightarrow> (eid \<times> addr \<times> 'a zplop_scheme) result" where
  "mips32_add_instruction ar ps to_split ft patch = (\<lambda>(cur_addr, z).
     let (patch_de, m) = new_entry patch to_split (z_dm z) in
     bindR (place_entry patch_de cur_addr m) (\<lambda>m.
     let z = z\<lparr>z_dm := m\<rparr>;
         cur_addr = cur_addr + DetermineDollopEntrySize ar ps patch_de False z;
         z = queue_insert (ft, cur_addr) (z_upd_dm (push_back to_split patch_de) z)
     in Inr (patch_de, cur_addr, AskPluginsAboutPlopping ps [patch] z)))"

definition mips32_splitDollop :: "(asm \<Rightarrow> byte list) \<Rightarrow> (byte list \<Rightarrow> bool) \<Rightarrow> (iid \<Rightarrow> iid option option) \<Rightarrow> denv \<Rightarrow> 'a zplop_scheme arch \<Rightarrow>
    'a zplop_scheme plugin list \<Rightarrow> did \<Rightarrow> addr \<Rightarrow> 'a zplop_scheme \<Rightarrow> (addr \<times> 'a zplop_scheme) result" where
  "mips32_splitDollop asmb is_branch slot ev ar ps to_split p_cur_addr z =
     assertR (d_entries (dl (z_dm z) to_split) \<noteq> []) (\<lambda>_.
     let last_insn = de_insn (ent (z_dm z) (last (d_entries (dl (z_dm z) to_split))));
         nop_bits = [0, 0, 0, 0];
         ft = d_ft (dl (z_dm z) to_split)
     in bindR (if is_branch (data_bits asmb (z_ir z) last_insn) then
                 (case slot last_insn of
                    None \<Rightarrow> Inl AssertFail
                  | Some delay_slot_insn \<Rightarrow>
                      let (new_delay_slot, f) =
                        (case delay_slot_insn of
                           None \<Rightarrow> addNewDataBits None nop_bits (z_ir z)
                         | Some i \<Rightarrow> addNewDataBits (tgt_of (z_ir z) i) (data_bits asmb (z_ir z) i) (z_ir z))
                      in mapR snd (mips32_add_instruction ar ps to_split ft new_delay_slot (p_cur_addr, z\<lparr>z_ir := f\<rparr>)))
               else Inr (p_cur_addr, z)) (\<lambda>(cur_addr, z).
        case ft of None \<Rightarrow> Inl NullDeref | Some fd \<Rightarrow>
        bindR (front_entry (z_dm z) fd) (\<lambda>fe.
        let target_insn = ft_of (z_ir z) (de_insn (ent (z_dm z) fe));
            (jmp, f) = mips32_createNewJumpInstruction target_insn (z_ir z)
        in bindR (mips32_add_instruction ar ps to_split ft jmp (cur_addr, z\<lparr>z_ir := f\<rparr>)) (\<lambda>(de, cur_addr, z).
        let z = z_upd_dm (setTargetDollop ft de) z;
            (nop, f) = addNewDataBits None nop_bits (z_ir z)
        in bindR (mips32_add_instruction ar ps to_split ft nop (cur_addr, z\<lparr>z_ir := f\<rparr>)) (\<lambda>(_, cur_addr, z).
        bindR (on_dm_unit (setFallthroughPatched (cur_env ev z) True to_split) z) (\<lambda>z. Inr (cur_addr, z)))))))"

section \<open>The initial queue\<close>

text \<open>
  The pins' dollops, and those of every instruction a relocation or a landing pad refers to
  (\<open>refs\<close>, with the instruction's original address). \<open>self_validate\<close>: the environment has
  \<open>SELF_VALIDATE\<close>.
\<close>

definition queue_pin :: "unresolved_patch \<Rightarrow> 'a zipr_scheme \<Rightarrow> 'a zipr_scheme result" where
  "queue_pin = (\<lambda>(uu, patch) z.
     case getContainingDollop uu (z_dm z) of
       None \<Rightarrow> Inl AssertFail
     | Some target_dollop \<Rightarrow> Inr (queue_insert (Some target_dollop, pt_from patch) z))"

definition ensure_insn_is_placed :: "nat \<Rightarrow> denv \<Rightarrow> (iid \<Rightarrow> addr) \<Rightarrow> iid option \<Rightarrow> 'a zipr_scheme \<Rightarrow> 'a zipr_scheme result" where
  "ensure_insn_is_placed n ev orig insn z =
     (case insn of None \<Rightarrow> Inr z | Some i \<Rightarrow>
        bindR (on_dm (AddNewDollops n (cur_env ev z) i) z) (\<lambda>(containing, z).
        case containing of None \<Rightarrow> Inl AssertFail | Some d \<Rightarrow>
          Inr (if \<not> pl_placed (dl (z_dm z) d) then queue_insert (Some d, orig i) z else z)))"

definition init_queue :: "bool \<Rightarrow> nat \<Rightarrow> nat \<Rightarrow> denv \<Rightarrow> (did list \<Rightarrow> did list) \<Rightarrow> (iid \<Rightarrow> addr) \<Rightarrow> iid option list \<Rightarrow> iid option list \<Rightarrow>
    'a zipr_scheme \<Rightarrow> 'a zipr_scheme result" where
  "init_queue self_validate k n ev dord orig relocs landing_pads z =
     bindR (foldR queue_pin (z_patch_list z) z) (\<lambda>z.
     assertR (\<not> self_validate \<or> 3 < length (z_patch_list z)) (\<lambda>_.
     assertR (\<not> self_validate \<or> 3 < length (z_queue z)) (\<lambda>_.
     bindR (foldR (ensure_insn_is_placed n ev orig) relocs z) (\<lambda>z.
     bindR (foldR (ensure_insn_is_placed n ev orig) landing_pads z) (\<lambda>z.
     on_dm_unit (UpdateAllTargets k n (cur_env ev z) dord relocs) z)))))"

section \<open>Choosing a place\<close>

record placing =
  pc_placement :: range_t
  pc_abuts_pin :: bool                  \<comment> \<open>\<open>initial_placement_abuts_pin\<close>\<close>
  pc_abuts_fallthrough :: bool          \<comment> \<open>\<open>initial_placement_abuts_fallthrough\<close>\<close>
  pc_has_preplacement :: bool           \<comment> \<open>\<open>fallthrough_has_preplacement\<close>\<close>
  pc_fallthrough_place :: addr          \<comment> \<open>\<open>fallthrough_dollop_place\<close>\<close>
  pc_allowed_coalescing :: bool

definition front_ibta :: "ir \<Rightarrow> dman \<Rightarrow> did \<Rightarrow> addr option result" where
  "front_ibta f m d = mapR (\<lambda>e. ibta_of f (de_insn (ent m e))) (front_entry m d)"

definition dsize :: "dman \<Rightarrow> did \<Rightarrow> size_t" where
  "dsize m d = of_nat (d_size (dl m d))"

definition range_len :: "range_t \<Rightarrow> addr \<Rightarrow> size_t" where
  "range_len r a = r_end r - a"

text \<open>Where the fallthrough is, or where a plugin says it will be.\<close>

definition find_fallthrough :: "'a zplop_scheme plugin list \<Rightarrow> did option \<Rightarrow> addr \<Rightarrow> 'a zplop_scheme \<Rightarrow> (bool \<times> addr) \<times> 'a zplop_scheme" where
  "find_fallthrough ps ft from_address z =
     (case ft of
        None \<Rightarrow> ((False, 0), z)
      | Some x \<Rightarrow>
          if pl_placed (dl (z_dm z) x) then ((True, pl_place (dl (z_dm z) x)), z)
          else (case DoesPluginAddress ps x from_address (mk_range 0 0) False False z of
                  (True, fallthrough_placement, _, _, z) \<Rightarrow> ((True, r_start fallthrough_placement), z)
                | (False, _, _, _, z) \<Rightarrow> ((False, 0), z)))"

definition minimum_valid_req_size :: "nat \<Rightarrow> 'a zplop_scheme arch \<Rightarrow> 'a zplop_scheme plugin list \<Rightarrow> did \<Rightarrow> 'a zplop_scheme \<Rightarrow> size_t result" where
  "minimum_valid_req_size n ar ps d z =
     bindR (front_entry (z_dm z) d) (\<lambda>e.
     bindR (DetermineDollopSizeInclFallthrough n (ar_sizes ar) (z_ir z) (z_dm z) d) (\<lambda>s.
     Inr (min (DetermineDollopEntrySize ar ps e True z) s + 1)))"

definition plugin_placement :: "'a zplop_scheme arch \<Rightarrow> 'a zplop_scheme plugin list \<Rightarrow> size_t \<Rightarrow> did \<Rightarrow> addr \<Rightarrow> range_t \<Rightarrow> bool \<Rightarrow> bool \<Rightarrow>
    'a zplop_scheme \<Rightarrow> (bool \<times> placing \<times> 'a zplop_scheme) result" where
  "plugin_placement ar ps req to_place from_address placement allowed_coalescing allowed_fallthrough z =
     (let m = z_dm z; tramp = TRAMPOLINE_SIZE (ar_sizes ar); ft = d_ft (dl m to_place);
          abut = r_start placement + dsize m to_place - tramp
      in bindR (case ft of None \<Rightarrow> Inr None | Some x \<Rightarrow> front_ibta (z_ir z) m x) (\<lambda>ibta.
      let abuts_pin = (case ibta of None \<Rightarrow> False | Some a \<Rightarrow> a \<noteq> 0 \<and> a = abut);
          ((has_pre, ft_place), z) =
            (if allowed_fallthrough then find_fallthrough ps ft from_address z else ((False, 0), z));
          abuts_ft = (ft \<noteq> None \<and> has_pre \<and> ft_place = abut);
          fits_entirely = (dsize m to_place \<le> range_len placement (r_start placement));
          placed = \<not> (range_len placement (r_start placement) < req \<and> \<not> (abuts_pin \<or> abuts_ft \<or> fits_entirely))
      in Inr (placed, \<lparr>pc_placement = placement, pc_abuts_pin = abuts_pin, pc_abuts_fallthrough = abuts_ft,
           pc_has_preplacement = has_pre, pc_fallthrough_place = ft_place, pc_allowed_coalescing = allowed_coalescing\<rparr>, z)))"

definition choose_placement :: "nat \<Rightarrow> nat \<Rightarrow> 'a zplop_scheme arch \<Rightarrow> 'a zplop_scheme plugin list \<Rightarrow> did \<Rightarrow> addr \<Rightarrow> 'a zplop_scheme \<Rightarrow>
    (placing \<times> 'a zplop_scheme) result" where
  "choose_placement n rnd ar ps to_place from_address z =
     bindR (minimum_valid_req_size n ar ps to_place z) (\<lambda>req.
     let (addressed, placement, allowed_coalescing, allowed_fallthrough, z) =
           DoesPluginAddress ps to_place from_address (mk_range 0 0) True True z
     in bindR (if addressed then plugin_placement ar ps req to_place from_address placement allowed_coalescing allowed_fallthrough z
               else Inr (False, \<lparr>pc_placement = placement, pc_abuts_pin = False, pc_abuts_fallthrough = False,
                 pc_has_preplacement = False, pc_fallthrough_place = 0, pc_allowed_coalescing = allowed_coalescing\<rparr>, z))
          (\<lambda>(placed, pc, z).
        if placed then Inr (pc, z)
        else bindR (DoPlacement (ar_sizes ar) rnd (z_ir z) (z_dm z) (z_ms z) req to_place) (\<lambda>placement.
             assertR (req \<le> getSize placement) (\<lambda>_.
             Inr (pc\<lparr>pc_placement := placement, pc_allowed_coalescing := True\<rparr>, z)))))"

section \<open>A dollop atop its own pin\<close>

text \<open>
  The bytes of the jump that the pin had reserved are given back. The counter of the loop is an
  \<open>unsigned int\<close>, the bound a 64-bit address.
\<close>

fun unreserve_pin :: "nat \<Rightarrow> uint32 \<Rightarrow> addr \<Rightarrow> memory_space \<Rightarrow> memory_space result" where
  "unreserve_pin 0 j till ms = Inl OutOfFuel"
| "unreserve_pin (Suc n) j till ms =
     (if ucast j < till then bindR (MergeFreeRange (ucast j) ms) (unreserve_pin n (j + 1) till) else Inr ms)"

definition erase_patch :: "iid \<Rightarrow> unresolved_patch list \<Rightarrow> unresolved_patch list" where
  "erase_patch uu ps = takeWhile (\<lambda>p. fst p \<noteq> uu) ps @ tl (dropWhile (\<lambda>p. fst p \<noteq> uu) ps)"

definition clear_own_pin :: "nat \<Rightarrow> sizes \<Rightarrow> did \<Rightarrow> addr \<Rightarrow> 'a zipr_scheme \<Rightarrow> 'a zipr_scheme result" where
  "clear_own_pin n sz to_place cur_addr z =
     bindR (front_insn (z_dm z) to_place) (\<lambda>uu.
     case ibta_of (z_ir z) uu of None \<Rightarrow> Inr z | Some pinned_ibta_addr \<Rightarrow>
     if pinned_ibta_addr \<noteq> 0 \<and> cur_addr = pinned_ibta_addr then
       let (b, ms) = ms_get cur_addr (z_ms z);
           space_to_clear = (ucast (if b = 0xe9 then LONG_PIN_SIZE sz else SHORT_PIN_SIZE sz) :: uint32)
       in bindR (unreserve_pin n (ucast cur_addr) (cur_addr + ucast space_to_clear) ms) (\<lambda>ms.
          assertR (uu \<in> fst ` set (z_patch_list z)) (\<lambda>_.
          Inr (z\<lparr>z_ms := ms, z_patch_list := erase_patch uu (z_patch_list z)\<rparr>)))
     else Inr z)"

section \<open>Placing a dollop and its fallthroughs\<close>

text \<open>
  Whether an entry goes to the current address. \<open>tramp_fits\<close> is named as in the code, and
  holds when a trampoline does not fit.
\<close>

definition can_place :: "'a zplop_scheme arch \<Rightarrow> 'a zplop_scheme plugin list \<Rightarrow> placing \<Rightarrow> bool \<Rightarrow> bool \<Rightarrow> bool \<Rightarrow> did \<Rightarrow>
    eid \<Rightarrow> bool \<Rightarrow> addr \<Rightarrow> 'a zplop_scheme \<Rightarrow> bool" where
  "can_place ar ps pc allowed_coalescing fits_entirely all_fallthroughs_fit to_place e is_last_insn cur_addr z =
     (let till = r_end (pc_placement pc);
          de_and_fallthrough_fit = (cur_addr + DetermineDollopEntrySize ar ps e True z \<le> till);
          has_fallthrough_dollop = (d_ft (dl (z_dm z) to_place) \<noteq> None);
          fits_with_fallthrough = (cur_addr + DetermineDollopEntrySize ar ps e has_fallthrough_dollop z \<le> till);
          last_de_fits = (is_last_insn \<and> fits_with_fallthrough);
          could_fit_here = (de_and_fallthrough_fit \<or> fits_entirely \<or> last_de_fits \<or>
            pc_abuts_pin pc \<or> pc_abuts_fallthrough pc);
          tramp_fits = (till - (cur_addr + DetermineDollopEntrySize ar ps e False z) < TRAMPOLINE_SIZE (ar_sizes ar));
          allowed_override = (allowed_coalescing \<or> could_fit_here \<or> \<not> all_fallthroughs_fit \<or> \<not> tramp_fits);
          beneficial_to_override = (de_and_fallthrough_fit \<or> last_de_fits \<or> fits_entirely \<or>
            pc_abuts_fallthrough pc \<or> pc_abuts_pin pc \<or> all_fallthroughs_fit)
      in beneficial_to_override \<and> allowed_override)"

text \<open>\<open>may\<close> decides for an entry, whether it is the last one, and the address. The rest is what stays unplaced.\<close>

fun place_entries :: "'a zplop_scheme arch \<Rightarrow> 'a zplop_scheme plugin list \<Rightarrow> (eid \<Rightarrow> bool \<Rightarrow> addr \<Rightarrow> 'a zplop_scheme \<Rightarrow> bool) \<Rightarrow>
    eid list \<Rightarrow> addr \<Rightarrow> 'a zplop_scheme \<Rightarrow> (addr \<times> eid list \<times> 'a zplop_scheme) result" where
  "place_entries ar ps may [] cur_addr z = Inr (cur_addr, [], z)"
| "place_entries ar ps may (e # es) cur_addr z =
     (if may e (es = []) cur_addr z then
        bindR (on_dm_unit (place_entry e cur_addr) z) (\<lambda>z.
        let next_cur_addr = cur_addr + DetermineDollopEntrySize ar ps e False z
        in place_entries ar ps may es next_cur_addr
             (case de_tgt (ent (z_dm z) e) of None \<Rightarrow> z | Some t \<Rightarrow> queue_insert (Some t, next_cur_addr) z))
      else Inr (cur_addr, e # es, z))"

definition split_rest :: "nat \<Rightarrow> denv \<Rightarrow> did \<Rightarrow> eid list \<Rightarrow> 'a zipr_scheme \<Rightarrow> 'a zipr_scheme result" where
  "split_rest n ev to_place rest z =
     (case rest of [] \<Rightarrow> Inr z | e # _ \<Rightarrow>
        bindR (on_dm (split (cur_env ev z) (de_insn (ent (z_dm z) e)) to_place) z) (\<lambda>(split_dollop, z).
        bindR (on_dm_unit (AddDollops n split_dollop) z) (\<lambda>z.
        Inr (z_upd_dm (upd_dl to_place (\<lambda>D. D\<lparr>d_truncated := True\<rparr>)) z))))"

text \<open>
  What follows the dollop: its pinned fallthrough, its placed fallthrough, a jump to its
  fallthrough (\<open>spl\<close> is the architecture's \<open>splitDollop\<close>), or the fallthrough itself, which is
  then placed next.
\<close>

definition link_fallthrough :: "nat \<Rightarrow> denv \<Rightarrow> 'a zplop_scheme arch \<Rightarrow> 'a zplop_scheme plugin list \<Rightarrow>
    (did \<Rightarrow> addr \<Rightarrow> 'a zplop_scheme \<Rightarrow> (addr \<times> 'a zplop_scheme) result) \<Rightarrow> placing \<Rightarrow> bool \<Rightarrow> bool \<Rightarrow> did \<Rightarrow>
    addr \<Rightarrow> 'a zplop_scheme \<Rightarrow> (did option \<times> addr \<times> bool \<times> 'a zplop_scheme) result" where
  "link_fallthrough n ev ar ps spl pc am_coalescing allowed_coalescing to_place cur_addr z =
     (case d_ft (dl (z_dm z) to_place) of None \<Rightarrow> Inr (None, cur_addr, allowed_coalescing, z) | Some fallthrough \<Rightarrow>
      if d_coalesced (dl (z_dm z) to_place) then Inr (None, cur_addr, allowed_coalescing, z) else
      bindR (front_ibta (z_ir z) (z_dm z) fallthrough) (\<lambda>ibta.
      if (case ibta of None \<Rightarrow> False | Some pinned_ibta_addr \<Rightarrow> pinned_ibta_addr \<noteq> 0 \<and> cur_addr = pinned_ibta_addr)
      then Inr (None, cur_addr, allowed_coalescing, z)
      else if \<not> am_coalescing \<and> pc_has_preplacement pc \<and> pc_fallthrough_place pc = cur_addr
      then Inr (None, cur_addr, allowed_coalescing,
             if pl_placed (dl (z_dm z) fallthrough) then z else queue_insert (Some fallthrough, cur_addr) z)
      else
        bindR (if allowed_coalescing then canCoalesce (z_ir z) (z_dm z) (Some to_place) (Some fallthrough) else Inr True) (\<lambda>c.
        let allowed_coalescing = (allowed_coalescing \<and> c) in
        bindR (DetermineDollopSizeInclFallthrough n (ar_sizes ar) (z_ir z) (z_dm z) fallthrough) (\<lambda>fallthroughs_wcds.
        bindR (front_entry (z_dm z) fallthrough) (\<lambda>fe.
        let fallthrough_wcis = DetermineDollopEntrySize ar ps fe True z;
            remaining_size = r_end (pc_placement pc) - cur_addr;
            remaining_needed = min fallthrough_wcis fallthroughs_wcds
        in if remaining_size < remaining_needed \<or> pl_placed (dl (z_dm z) fallthrough) \<or> \<not> allowed_coalescing then
             bindR (spl to_place cur_addr z) (\<lambda>(cur_addr, z). Inr (None, cur_addr, allowed_coalescing, z))
           else
             bindR (on_dm_unit (setCoalesced (cur_env ev z) True to_place) z) (\<lambda>z.
             Inr (Some fallthrough, cur_addr, allowed_coalescing, z)))))))"

text \<open>The \<open>do\<close> loop.\<close>

fun place_chain :: "nat \<Rightarrow> denv \<Rightarrow> 'a zplop_scheme arch \<Rightarrow> 'a zplop_scheme plugin list \<Rightarrow>
    (did \<Rightarrow> addr \<Rightarrow> 'a zplop_scheme \<Rightarrow> (addr \<times> 'a zplop_scheme) result) \<Rightarrow> placing \<Rightarrow> nat \<Rightarrow> bool \<Rightarrow> bool \<Rightarrow> did \<Rightarrow>
    addr \<Rightarrow> 'a zplop_scheme \<Rightarrow> (addr \<times> 'a zplop_scheme) result" where
  "place_chain n ev ar ps spl pc 0 am_coalescing allowed_coalescing to_place cur_addr z = Inl OutOfFuel"
| "place_chain n ev ar ps spl pc (Suc k) am_coalescing allowed_coalescing to_place cur_addr z =
     bindR (on_dm_unit (reCalculateSize (cur_env ev z) to_place) z) (\<lambda>z.
     bindR (DetermineDollopSizeInclFallthrough n (ar_sizes ar) (z_ir z) (z_dm z) to_place) (\<lambda>wcds.
     bindR (on_dm_unit (place_dollop to_place cur_addr) z) (\<lambda>z.
     let remaining = r_end (pc_placement pc) - cur_addr;
         fits_entirely = (dsize (z_dm z) to_place \<le> remaining);
         all_fallthroughs_fit = (wcds \<le> remaining)
     in bindR (place_entries ar ps (can_place ar ps pc allowed_coalescing fits_entirely all_fallthroughs_fit to_place)
               (d_entries (dl (z_dm z) to_place)) cur_addr z) (\<lambda>(cur_addr, rest, z).
     bindR (split_rest n ev to_place rest z) (\<lambda>z.
     bindR (link_fallthrough n ev ar ps spl pc am_coalescing allowed_coalescing to_place cur_addr z)
       (\<lambda>(next, cur_addr, allowed_coalescing, z).
     case next of
       None \<Rightarrow> Inr (cur_addr, z)
     | Some fallthrough \<Rightarrow> place_chain n ev ar ps spl pc k True allowed_coalescing fallthrough cur_addr z))))))"

section \<open>The placement loop\<close>

definition place_one :: "nat \<Rightarrow> nat \<Rightarrow> denv \<Rightarrow> 'a zplop_scheme arch \<Rightarrow> 'a zplop_scheme plugin list \<Rightarrow>
    (did \<Rightarrow> addr \<Rightarrow> 'a zplop_scheme \<Rightarrow> (addr \<times> 'a zplop_scheme) result) \<Rightarrow> did \<Rightarrow> addr \<Rightarrow> 'a zplop_scheme \<Rightarrow> 'a zplop_scheme result" where
  "place_one n rnd ev ar ps spl to_place from_address z =
     bindR (on_dm_unit (reCalculateSize (cur_env ev z) to_place) z) (\<lambda>z.
     bindR (choose_placement n rnd ar ps to_place from_address z) (\<lambda>(pc, z).
     let start = r_start (pc_placement pc) in
     bindR (clear_own_pin n (ar_sizes ar) to_place start z) (\<lambda>z.
     assertR (d_size (dl (z_dm z) to_place) \<noteq> 0) (\<lambda>_.
     bindR (place_chain n ev ar ps spl pc n False (pc_allowed_coalescing pc) to_place start z) (\<lambda>(cur_addr, z).
     assertR (cur_addr - 1 \<le> r_end (pc_placement pc)) (\<lambda>_.
     on_ms (SplitFreeRange_range (mk_range start cur_addr)) z))))))"

fun place_queue :: "nat \<Rightarrow> nat \<Rightarrow> (nat \<Rightarrow> nat) \<Rightarrow> (did option \<times> addr \<Rightarrow> nat) \<Rightarrow> denv \<Rightarrow> 'a zplop_scheme arch \<Rightarrow>
    'a zplop_scheme plugin list \<Rightarrow> (did \<Rightarrow> addr \<Rightarrow> 'a zplop_scheme \<Rightarrow> (addr \<times> 'a zplop_scheme) result) \<Rightarrow>
    'a zplop_scheme \<Rightarrow> 'a zplop_scheme result" where
  "place_queue k n rnd ord ev ar ps spl z =
     (case sort_key ord (z_queue z) of
        [] \<Rightarrow> Inr z
      | pq # _ \<Rightarrow>
          (case k of 0 \<Rightarrow> Inl OutOfFuel | Suc k \<Rightarrow>
             let z = z\<lparr>z_queue := remove1 pq (z_queue z)\<rparr> in
             (case fst pq of
                None \<Rightarrow> Inl NullDeref
              | Some to_place \<Rightarrow>
                  if pl_placed (dl (z_dm z) to_place) then place_queue k n rnd ord ev ar ps spl z
                  else bindR (place_one n (rnd k) ev ar ps spl to_place (snd pq) z) (place_queue k n rnd ord ev ar ps spl))))"

declare place_queue.simps [simp del]

definition PlaceDollops :: "bool \<Rightarrow> nat \<Rightarrow> nat \<Rightarrow> (nat \<Rightarrow> nat) \<Rightarrow> (did option \<times> addr \<Rightarrow> nat) \<Rightarrow> (did list \<Rightarrow> did list) \<Rightarrow> (iid \<Rightarrow> addr) \<Rightarrow>
    iid option list \<Rightarrow> iid option list \<Rightarrow> denv \<Rightarrow> 'a zplop_scheme arch \<Rightarrow> 'a zplop_scheme plugin list \<Rightarrow>
    (did \<Rightarrow> addr \<Rightarrow> 'a zplop_scheme \<Rightarrow> (addr \<times> 'a zplop_scheme) result) \<Rightarrow> 'a zplop_scheme \<Rightarrow> 'a zplop_scheme result" where
  "PlaceDollops self_validate k n rnd ord dord orig relocs landing_pads ev ar ps spl z =
     bindR (init_queue self_validate k n ev dord orig relocs landing_pads z) (place_queue k n rnd ord ev ar ps spl)"

end
