(* ===== verification/Zipr_Sled.thy ===== *)
theory Zipr_Sled
  imports Zipr_IR Zipr_Range
begin

text \<open>
  68-sleds (\<open>zipr/include/sled.h\<close>, and \<open>Emit68Sled\<close> of \<open>zipr/src/pinner_x86.cpp\<close>). When pins
  are too dense for jumps, every byte from the first pin on becomes \<open>0x68\<close>, the opcode of
  \<open>push imm32\<close>, followed by four \<open>0x90\<close> (\<open>nop\<close>). Entered anywhere, the processor pushes
  constants until it reaches the end of the nops, and the pushed values tell where it came
  in. Code generated into the IR compares them and continues at the right instruction.
\<close>

section \<open>Sled\_t\<close>

record sled_t =
  s_range :: range_t
  s_jmp_pts :: "addr list"          \<comment> \<open>\<open>std::set\<close>, ascending\<close>
  s_disambiguation :: "iid option"

definition mk_sled :: "range_t \<Rightarrow> sled_t" where
  "mk_sled r = \<lparr>s_range = r, s_jmp_pts = [], s_disambiguation = None\<rparr>"

definition sled_overlaps :: "sled_t \<Rightarrow> sled_t \<Rightarrow> bool" where
  "sled_overlaps this candidate \<longleftrightarrow>
     r_start (s_range candidate) \<le> r_end (s_range this) \<and> r_end (s_range candidate) \<ge> r_start (s_range this)"

definition AddJumpPoint :: "addr \<Rightarrow> sled_t \<Rightarrow> sled_t" where
  "AddJumpPoint p s = s\<lparr>s_jmp_pts := insort_insert p (s_jmp_pts s)\<rparr>"

definition MergeSledJumpPoints :: "sled_t \<Rightarrow> sled_t \<Rightarrow> sled_t" where
  "MergeSledJumpPoints merging this = fold AddJumpPoint (s_jmp_pts merging) this"

definition MergeSled :: "sled_t \<Rightarrow> sled_t \<Rightarrow> sled_t result" where
  "MergeSled merging this =
     assertR (r_start (s_range merging) \<le> r_end (s_range this) \<and> r_end (s_range merging) \<ge> r_start (s_range this)) (\<lambda>_.
     let r = setStart (min (r_start (s_range merging)) (r_start (s_range this))) (s_range this);
         r = setEnd (max (r_end (s_range merging)) (r_end r)) r
     in Inr (MergeSledJumpPoints merging (this\<lparr>s_range := r\<rparr>)))"

definition sled_less :: "sled_t \<Rightarrow> sled_t \<Rightarrow> bool" where
  "sled_less lhs rhs \<longleftrightarrow> r_start (s_range lhs) < r_start (s_range rhs)"

lemma AddJumpPoint_set [simp]:
  "set (s_jmp_pts (AddJumpPoint p s)) = insert p (set (s_jmp_pts s))" "s_range (AddJumpPoint p s) = s_range s"
  "s_disambiguation (AddJumpPoint p s) = s_disambiguation s"
  by (simp_all add: AddJumpPoint_def set_insort_insert)

definition sled_ok :: "sled_t \<Rightarrow> bool" where
  "sled_ok s \<longleftrightarrow> sorted (s_jmp_pts s) \<and> distinct (s_jmp_pts s)"

lemma sled_ok_mk [simp]: "sled_ok (mk_sled r)"
  by (simp add: sled_ok_def mk_sled_def)

lemma sled_ok_Add [simp]: "sled_ok s \<Longrightarrow> sled_ok (AddJumpPoint p s)"
  by (simp add: sled_ok_def AddJumpPoint_def sorted_insort_insert distinct_insort_insert)

lemma MergeSledJumpPoints [simp]:
  "set (s_jmp_pts (MergeSledJumpPoints m s)) = set (s_jmp_pts m) \<union> set (s_jmp_pts s)"
  "s_range (MergeSledJumpPoints m s) = s_range s"
  "s_disambiguation (MergeSledJumpPoints m s) = s_disambiguation s"
proof -
  have "set (s_jmp_pts (fold AddJumpPoint xs s)) = set xs \<union> set (s_jmp_pts s) \<and>
      s_range (fold AddJumpPoint xs s) = s_range s \<and>
      s_disambiguation (fold AddJumpPoint xs s) = s_disambiguation s" for xs
    by (induction xs arbitrary: s) auto
  then show "set (s_jmp_pts (MergeSledJumpPoints m s)) = set (s_jmp_pts m) \<union> set (s_jmp_pts s)"
    "s_range (MergeSledJumpPoints m s) = s_range s"
    "s_disambiguation (MergeSledJumpPoints m s) = s_disambiguation s"
    by (simp_all add: MergeSledJumpPoints_def)
qed

lemma MergeSledJumpPoints_ok [simp]: "sled_ok s \<Longrightarrow> sled_ok (MergeSledJumpPoints m s)"
proof -
  have "sled_ok s \<Longrightarrow> sled_ok (fold AddJumpPoint xs s)" for xs
    by (induction xs arbitrary: s) auto
  then show "sled_ok s \<Longrightarrow> sled_ok (MergeSledJumpPoints m s)" by (simp add: MergeSledJumpPoints_def)
qed

text \<open>Merging covers both ranges and keeps every jump point.\<close>

lemma MergeSled_ok:
  assumes "sled_overlaps this merging" "sled_ok this"
  shows "\<exists>s. MergeSled merging this = Inr s \<and> sled_ok s \<and>
    set (s_jmp_pts s) = set (s_jmp_pts merging) \<union> set (s_jmp_pts this) \<and>
    r_start (s_range s) = min (r_start (s_range merging)) (r_start (s_range this)) \<and>
    r_end (s_range s) = max (r_end (s_range merging)) (r_end (s_range this)) \<and>
    s_disambiguation s = s_disambiguation this"
  using assms by (auto simp: MergeSled_def sled_overlaps_def Let_def sled_ok_def intro!: MergeSledJumpPoints_ok [unfolded sled_ok_def])

section \<open>Running into a sled\<close>

lemma all_less_Suc_split: "(\<forall>k < Suc n. P k) \<longleftrightarrow> P 0 \<and> (\<forall>k < n. P (Suc k))"
  by (auto simp: less_Suc_eq_0_disj)

text \<open>
  The processor on the bytes of a sled. The stack is a function from slots to words of the
  machine's width, slot 0 on top; a pushed constant is sign-extended.
\<close>

type_synonym 'w stack = "nat \<Rightarrow> 'w word"

definition push :: "'w::len word \<Rightarrow> 'w stack \<Rightarrow> 'w stack" where
  "push v S = (\<lambda>i. case i of 0 \<Rightarrow> v | Suc j \<Rightarrow> S j)"

definition pop_n :: "nat \<Rightarrow> 'w stack \<Rightarrow> 'w stack" where
  "pop_n n S = (\<lambda>i. S (i + n))"

text \<open>Offsets count from the start of the sled; \<open>n\<close> bytes \<open>0x68\<close>, then \<open>0x90\<close>.\<close>

definition sled_byte :: "nat \<Rightarrow> nat \<Rightarrow> byte" where
  "sled_byte n i = (if i < n then 0x68 else 0x90)"

definition imm_at :: "(nat \<Rightarrow> byte) \<Rightarrow> nat \<Rightarrow> uint32" where
  "imm_at m i = ucast (m i) OR push_bit 8 (ucast (m (i + 1))) OR push_bit 16 (ucast (m (i + 2))) OR
     push_bit 24 (ucast (m (i + 3)))"

definition cpu_step :: "(nat \<Rightarrow> byte) \<Rightarrow> nat \<times> 'w::len stack \<Rightarrow> (nat \<times> 'w stack) option" where
  "cpu_step m = (\<lambda>(pc, S).
     if m pc = 0x68 then Some (pc + 5, push (scast (imm_at m (pc + 1))) S)
     else if m pc = 0x90 then Some (pc + 1, S)
     else None)"

text \<open>Run until the program counter is \<open>stop\<close>.\<close>

fun cpu_run :: "nat \<Rightarrow> (nat \<Rightarrow> byte) \<Rightarrow> nat \<Rightarrow> nat \<times> 'w::len stack \<Rightarrow> (nat \<times> 'w stack) option" where
  "cpu_run fuel m stop (pc, S) =
     (if pc = stop then Some (pc, S)
      else case fuel of 0 \<Rightarrow> None
        | Suc fuel' \<Rightarrow> (case cpu_step m (pc, S) of None \<Rightarrow> None | Some s \<Rightarrow> cpu_run fuel' m stop s))"

declare cpu_run.simps [simp del]

section \<open>The pushed values\<close>

definition push_lookup :: "uint32 list" where
  "push_lookup = [0x68686868, 0x90686868, 0x90906868, 0x90909068, 0x90909090]"

definition ceildiv :: "nat \<Rightarrow> nat \<Rightarrow> nat" where
  "ceildiv a b = (a + b - 1) div b"

text \<open>
  What \<open>Emit68Sled\<close> expects on the stack for an entry \<open>d\<close> bytes before the nops, top first.
\<close>

definition pushed_values :: "nat \<Rightarrow> uint32 list" where
  "pushed_values d = (replicate (ceildiv d 5) 0x68686868)[0 := push_lookup ! (4 - ((d - 1) mod 5))]"

definition push_all :: "uint32 list \<Rightarrow> 'w::len stack \<Rightarrow> 'w stack" where
  "push_all vs S = (\<lambda>i. if i < length vs then scast (vs ! i) else S (i - length vs))"

lemma ceildiv_5: "0 < d \<Longrightarrow> ceildiv d 5 = Suc ((d - 1) div 5)"
  by (simp add: ceildiv_def)

lemma pushed_values_Cons: "0 < d \<Longrightarrow> pushed_values d =
    push_lookup ! (4 - ((d - 1) mod 5)) # replicate ((d - 1) div 5) 0x68686868"
  by (simp add: pushed_values_def ceildiv_5)

lemma length_pushed_values [simp]: "length (pushed_values d) = ceildiv d 5"
  by (simp add: pushed_values_def)

lemma pushed_values_step:
  assumes "5 < d"
  shows "pushed_values d = pushed_values (d - 5) @ [0x68686868]"
proof -
  have "(d - 1) div 5 = Suc ((d - 5 - 1) div 5)" "(d - 1) mod 5 = (d - 5 - 1) mod 5"
    using assms le_div_geq [of 5 "d - 1"] le_mod_geq [of 5 "d - 1"] by (simp_all add: diff_commute)
  then show ?thesis using assms by (simp add: pushed_values_Cons replicate_append_same)
qed

lemma push_all_append: "push_all (us @ vs) S = push_all us (push_all vs S)"
  by (auto simp: push_all_def nth_append fun_eq_iff)

lemma push_all_single: "push_all [v] S = push (scast v) S"
  by (auto simp: push_all_def push_def fun_eq_iff split: nat.splits)

lemma pop_push_all: "pop_n (length vs) (push_all vs S) = S"
  by (auto simp: push_all_def pop_n_def)

section \<open>Every entry resynchronizes\<close>

lemma imm_sled:
  "5 \<le> d \<Longrightarrow> d \<le> n \<Longrightarrow> imm_at (sled_byte n) (n - d + 1) = 0x68686868"
  "d = 4 \<Longrightarrow> d \<le> n \<Longrightarrow> imm_at (sled_byte n) (n - d + 1) = 0x90686868"
  "d = 3 \<Longrightarrow> d \<le> n \<Longrightarrow> imm_at (sled_byte n) (n - d + 1) = 0x90906868"
  "d = 2 \<Longrightarrow> d \<le> n \<Longrightarrow> imm_at (sled_byte n) (n - d + 1) = 0x90909068"
  "d = 1 \<Longrightarrow> d \<le> n \<Longrightarrow> imm_at (sled_byte n) (n - d + 1) = 0x90909090"
proof -
  have "5 \<le> d \<Longrightarrow> imm_at (sled_byte (k + d)) (k + 1) = 0x68686868"
    "d = 4 \<Longrightarrow> imm_at (sled_byte (k + d)) (k + 1) = 0x90686868"
    "d = 3 \<Longrightarrow> imm_at (sled_byte (k + d)) (k + 1) = 0x90906868"
    "d = 2 \<Longrightarrow> imm_at (sled_byte (k + d)) (k + 1) = 0x90909068"
    "d = 1 \<Longrightarrow> imm_at (sled_byte (k + d)) (k + 1) = 0x90909090" for k
    by (simp_all add: imm_at_def sled_byte_def)
  from this [of "n - d"] show "5 \<le> d \<Longrightarrow> d \<le> n \<Longrightarrow> imm_at (sled_byte n) (n - d + 1) = 0x68686868"
    "d = 4 \<Longrightarrow> d \<le> n \<Longrightarrow> imm_at (sled_byte n) (n - d + 1) = 0x90686868"
    "d = 3 \<Longrightarrow> d \<le> n \<Longrightarrow> imm_at (sled_byte n) (n - d + 1) = 0x90906868"
    "d = 2 \<Longrightarrow> d \<le> n \<Longrightarrow> imm_at (sled_byte n) (n - d + 1) = 0x90909068"
    "d = 1 \<Longrightarrow> d \<le> n \<Longrightarrow> imm_at (sled_byte n) (n - d + 1) = 0x90909090"
    by (simp_all only: le_add_diff_inverse2)
qed

lemma nops_run:
  assumes "n \<le> pc" "pc \<le> n + 4" "n + 4 - pc \<le> fuel"
  shows "cpu_run fuel (sled_byte n) (n + 4) (pc, S) = Some (n + 4, S)"
  using assms
proof (induction fuel arbitrary: pc)
  case 0
  then show ?case by (simp add: cpu_run.simps)
next
  case (Suc fuel)
  show ?case
  proof (cases "pc = n + 4")
    case False
    have "cpu_step (sled_byte n) (pc, S) = Some (pc + 1, S)"
      using Suc.prems by (simp add: cpu_step_def sled_byte_def)
    then show ?thesis using False Suc.prems Suc.IH [of "pc + 1"] by (simp add: cpu_run.simps)
  qed (simp add: cpu_run.simps)
qed

text \<open>The last push: its immediate may take nops, the rest of the nops follow.\<close>

lemma sled_last_push:
  assumes "0 < d" "d \<le> 5" "d \<le> n" "d \<le> fuel"
  shows "cpu_run (Suc fuel) (sled_byte n) (n + 4) (n - d, S) =
           Some (n + 4, push (scast (push_lookup ! (5 - d))) S)"
proof -
  have d: "d = 1 \<or> d = 2 \<or> d = 3 \<or> d = 4 \<or> d = 5" using assms by linarith
  have imm: "imm_at (sled_byte n) (n - d + 1) = push_lookup ! (5 - d)"
    using d imm_sled [where d = d] assms(3) by (elim disjE) (simp_all add: push_lookup_def numeral_eq_Suc)
  have "cpu_step (sled_byte n) (n - d, S) = Some (n - d + 5, push (scast (push_lookup ! (5 - d))) S)"
    using assms imm by (simp add: cpu_step_def sled_byte_def)
  moreover have "cpu_run fuel (sled_byte n) (n + 4) (n - d + 5, push (scast (push_lookup ! (5 - d))) S) =
      Some (n + 4, push (scast (push_lookup ! (5 - d))) S)"
    using assms by (intro nops_run) auto
  moreover have "n - d \<noteq> n + 4" using assms by simp
  ultimately show ?thesis unfolding cpu_run.simps [of "Suc fuel"] by simp
qed

lemma sled_run_aux:
  assumes "0 < d" "d \<le> n" "d + 4 \<le> fuel"
  shows "cpu_run fuel (sled_byte n) (n + 4) (n - d, S) = Some (n + 4, push_all (pushed_values d) S)"
  using assms
proof (induction d arbitrary: S fuel rule: less_induct)
  case (less d)
  then obtain f where f: "fuel = Suc f" by (cases fuel) auto
  show ?case
  proof (cases "d \<le> 5")
    case True
    then have "(d - 1) div 5 = 0" "(d - 1) mod 5 = d - 1" using less.prems by auto
    then have "pushed_values d = [push_lookup ! (5 - d)]"
      using less.prems by (simp add: pushed_values_Cons)
    then show ?thesis using sled_last_push [of d n f S] True less.prems f
      by (simp add: push_all_single)
  next
    case False
    then have "cpu_step (sled_byte n) (n - d, S) = Some (n - (d - 5), push (scast (0x68686868 :: uint32)) S)"
      using less.prems imm_sled(1) [of d n] by (simp add: cpu_step_def sled_byte_def)
    moreover have "cpu_run f (sled_byte n) (n + 4) (n - (d - 5), push (scast (0x68686868 :: uint32)) S) =
        Some (n + 4, push_all (pushed_values (d - 5)) (push (scast (0x68686868 :: uint32)) S))"
      using False less.prems f by (intro less.IH) auto
    moreover have "n - d \<noteq> n + 4" using less.prems by simp
    moreover have "pushed_values d = pushed_values (d - 5) @ [0x68686868]"
      using False by (intro pushed_values_step) simp
    ultimately show ?thesis unfolding f cpu_run.simps [of "Suc f"]
      by (simp add: push_all_append push_all_single)
  qed
qed

section \<open>The disambiguation code\<close>

definition jne_bits :: "byte list" where
  "jne_bits = [0x0f, 0x85, 0, 0, 0, 0]"

text \<open>The loop of \<open>Emit68Sled\<close> over the pushed values, from value \<open>i\<close> on.\<close>

fun emit_cmps :: "int \<Rightarrow> iid \<Rightarrow> nat \<Rightarrow> uint32 list \<Rightarrow> iid \<Rightarrow> ir \<Rightarrow> iid \<times> ir" where
  "emit_cmps sz next_sled i [] old_cmp f = (old_cmp, f)"
| "emit_cmps sz next_sled i (v # vs) old_cmp f =
     (let (cmp, f) = add_new (Asm (CmpSp (int i * sz) v)) f;
          (jne, f) = add_new (DataBits jne_bits) f;
          f = set_ft cmp (Some jne) f;
          f = set_tgt jne (Some next_sled) f;
          f = set_ft jne (Some old_cmp) f
      in emit_cmps sz next_sled (Suc i) vs cmp f)"

definition Emit68Sled_at ::
    "nat \<Rightarrow> (addr \<Rightarrow> iid option) \<Rightarrow> (addr \<Rightarrow> iid option) \<Rightarrow> addr \<Rightarrow> sled_t \<Rightarrow> iid \<Rightarrow> ir \<Rightarrow> (iid \<times> ir) result" where
  "Emit68Sled_at bits FindPinnedInsnAtAddr FindPatchTargetAtAddr a sled next_sled f =
     (let sled_number = a - r_start (s_range sled);
          sled_size = r_end (s_range sled) - r_start (s_range sled);
          sled_start_insn = (case FindPinnedInsnAtAddr a of Some i \<Rightarrow> Some i | None \<Rightarrow> FindPatchTargetAtAddr a)
      in assertR (sled_start_insn \<noteq> None) (\<lambda>_.
      let d = unat (sled_size - sled_number);
          number_of_pushed_values = ceildiv d 5
      in if number_of_pushed_values = 0 then Inl OutOfBounds else
      let stack_push_size = int (bits div 8);
          (lea, f) = add_new (Asm (LeaSp (stack_push_size * int number_of_pushed_values))) f;
          f = set_ft lea sled_start_insn f
      in Inr (emit_cmps stack_push_size next_sled 0 (pushed_values d) lea f)))"

definition Emit68Sled ::
    "nat \<Rightarrow> (addr \<Rightarrow> iid option) \<Rightarrow> (addr \<Rightarrow> iid option) \<Rightarrow> sled_t \<Rightarrow> ir \<Rightarrow> (iid \<times> ir) result" where
  "Emit68Sled bits pin patch sled f =
     foldR (\<lambda>a (top_of_sled, f). Emit68Sled_at bits pin patch a sled top_of_sled f)
       (rev (s_jmp_pts sled)) (add_new (Asm Hlt) f)"

text \<open>
  What the generated instructions do: \<open>cmp\<close> sets the zero flag from a stack slot, \<open>jne\<close> goes
  to its target when the flag is clear, \<open>lea\<close> drops slots. \<open>sz\<close> is the size of a slot. The
  code ends where it reaches any other instruction.
\<close>

inductive ir_step :: "int \<Rightarrow> ir \<Rightarrow> iid \<times> bool \<times> 'w::len stack \<Rightarrow> iid \<times> bool \<times> 'w stack \<Rightarrow> bool"
  for sz f where
  cmp: "ir_insns f i = Some n \<Longrightarrow> i_text n = Asm (CmpSp off v) \<Longrightarrow> i_ft n = Some j \<Longrightarrow>
    ir_step sz f (i, z, S) (j, S (nat (off div sz)) = scast v, S)"
| jne_taken: "ir_insns f i = Some n \<Longrightarrow> i_text n = DataBits jne_bits \<Longrightarrow> i_tgt n = Some j \<Longrightarrow>
    ir_step sz f (i, False, S) (j, False, S)"
| jne_not: "ir_insns f i = Some n \<Longrightarrow> i_text n = DataBits jne_bits \<Longrightarrow> i_ft n = Some j \<Longrightarrow>
    ir_step sz f (i, True, S) (j, True, S)"
| lea: "ir_insns f i = Some n \<Longrightarrow> i_text n = Asm (LeaSp k) \<Longrightarrow> i_ft n = Some j \<Longrightarrow>
    ir_step sz f (i, z, S) (j, z, pop_n (nat (k div sz)) S)"

inductive_cases ir_stepE: "ir_step sz f (i, z, S) st"

abbreviation ir_steps :: "int \<Rightarrow> ir \<Rightarrow> iid \<times> bool \<times> 'w::len stack \<Rightarrow> iid \<times> bool \<times> 'w stack \<Rightarrow> bool" where
  "ir_steps sz f \<equiv> (ir_step sz f)\<^sup>*\<^sup>*"

text \<open>The code is deterministic.\<close>

lemma ir_step_det: "ir_step sz f s t \<Longrightarrow> ir_step sz f s u \<Longrightarrow> t = u"
  by (cases s) (auto elim!: ir_stepE simp: jne_bits_def)

lemma ir_step_ext:
  assumes "ir_step sz f s t" "ir_extends f f'" "ir_fresh f"
  shows "ir_step sz f' s t"
  using assms(1)
proof cases
  case (cmp i n off v j z S)
  then show ?thesis using ir_extends_get [OF assms(2,3)] ir_step.cmp by metis
next
  case (jne_taken i n j S)
  then show ?thesis using ir_extends_get [OF assms(2,3)] ir_step.jne_taken by metis
next
  case (jne_not i n j S)
  then show ?thesis using ir_extends_get [OF assms(2,3)] ir_step.jne_not by metis
next
  case (lea i n k j z S)
  then show ?thesis using ir_extends_get [OF assms(2,3)] ir_step.lea by metis
qed

lemma ir_steps_ext:
  assumes "ir_steps sz f s t" "ir_extends f f'" "ir_fresh f"
  shows "ir_steps sz f' s t"
  using assms(1) by induction (auto intro: rtranclp.rtrancl_into_rtrancl ir_step_ext [OF _ assms(2,3)])

text \<open>One round of the loop: a \<open>cmp\<close> and its \<open>jne\<close>.\<close>

definition emit_pair :: "int \<Rightarrow> iid \<Rightarrow> nat \<Rightarrow> uint32 \<Rightarrow> iid \<Rightarrow> ir \<Rightarrow> ir" where
  "emit_pair sz next_sled i v old_cmp f = f\<lparr>ir_insns := (ir_insns f)
     (ir_next f \<mapsto> (new_insn (Asm (CmpSp (int i * sz) v)))\<lparr>i_ft := Some (Suc (ir_next f))\<rparr>,
      Suc (ir_next f) \<mapsto> (new_insn (DataBits jne_bits))\<lparr>i_tgt := Some next_sled, i_ft := Some old_cmp\<rparr>),
     ir_next := Suc (Suc (ir_next f))\<rparr>"

lemma emit_cmps_Cons:
  "emit_cmps sz next_sled i (v # vs) old_cmp f =
     emit_cmps sz next_sled (Suc i) vs (ir_next f) (emit_pair sz next_sled i v old_cmp f)"
proof -
  have "set_ft (Suc (ir_next f)) (Some old_cmp) (set_tgt (Suc (ir_next f)) (Some next_sled)
      (set_ft (ir_next f) (Some (Suc (ir_next f)))
        (snd (add_new (DataBits jne_bits) (snd (add_new (Asm (CmpSp (int i * sz) v)) f)))))) =
      emit_pair sz next_sled i v old_cmp f"
    by (simp add: emit_pair_def add_new_def set_ft_def set_tgt_def update_insn_def new_insn_def fun_upd_twist)
  then show ?thesis by (simp add: add_new_def)
qed

lemma emit_pair_ext:
  assumes "ir_fresh f"
  shows "ir_extends f (emit_pair sz nx i v old f)" "ir_fresh (emit_pair sz nx i v old f)"
    "ir_next (emit_pair sz nx i v old f) = Suc (Suc (ir_next f))"
  using assms by (auto simp: emit_pair_def ir_extends_def ir_fresh_def)

lemma emit_pair_run:
  assumes "0 < sz"
  shows "\<exists>z'. ir_steps sz (emit_pair sz nx i v old f) (ir_next f, z, S) (if S i = scast v then old else nx, z', S)"
proof -
  let ?f = "emit_pair sz nx i v old f"
  have "nat (int i * sz div sz) = i" using assms by simp
  moreover have "ir_step sz ?f (ir_next f, z, S) (Suc (ir_next f), S (nat (int i * sz div sz)) = scast v, S)"
    by (rule ir_step.cmp) (simp add: emit_pair_def new_insn_def, simp, simp)
  ultimately have c: "ir_step sz ?f (ir_next f, z, S) (Suc (ir_next f), S i = scast v, S)" by simp
  have "ir_step sz ?f (Suc (ir_next f), True, S) (old, True, S)"
    by (rule ir_step.jne_not) (simp add: emit_pair_def new_insn_def, simp, simp)
  moreover have "ir_step sz ?f (Suc (ir_next f), False, S) (nx, False, S)"
    by (rule ir_step.jne_taken) (simp add: emit_pair_def new_insn_def, simp, simp)
  ultimately have "ir_step sz ?f (Suc (ir_next f), S i = scast v, S) (if S i = scast v then old else nx, S i = scast v, S)"
    by simp
  with c show ?thesis by (meson converse_rtranclp_into_rtranclp r_into_rtranclp)
qed

lemma emit_cmps_run:
  assumes "emit_cmps sz nx i vs old f = (tp, f')" "ir_fresh f" "0 < sz"
  shows "ir_extends f f' \<and> ir_fresh f' \<and>
    (\<forall>z (S :: 'w::len stack). \<exists>z'. ir_steps sz f' (tp, z, S)
       (if \<forall>k < length vs. S (i + k) = scast (vs ! k) then old else nx, z', S))"
  using assms
proof (induction vs arbitrary: i old f)
  case Nil
  then show ?case by auto
next
  case (Cons v vs)
  let ?f = "emit_pair sz nx i v old f"
  note ext = emit_pair_ext [OF Cons.prems(2), of sz nx i v old]
  have rec: "emit_cmps sz nx (Suc i) vs (ir_next f) ?f = (tp, f')"
    using Cons.prems(1) by (simp only: emit_cmps_Cons)
  note IH = Cons.IH [OF rec ext(2) Cons.prems(3)]
  have IHr: "\<exists>z'. ir_steps sz f' (tp, z, S)
      (if \<forall>k < length vs. S (Suc i + k) = scast (vs ! k) then ir_next f else nx, z', S)"
    for z and S :: "'w stack"
    using IH by blast
  have all: "(\<forall>k < length (v # vs). S (i + k) = scast ((v # vs) ! k)) \<longleftrightarrow>
      S i = scast v \<and> (\<forall>k < length vs. S (Suc i + k) = scast (vs ! k))" for S :: "'w stack"
    by (auto simp: less_Suc_eq_0_disj)
  have "\<exists>z'. ir_steps sz f' (tp, z, S)
      (if \<forall>k < length (v # vs). S (i + k) = scast ((v # vs) ! k) then old else nx, z', S)" for z and S :: "'w stack"
  proof (cases "\<forall>k < length vs. S (Suc i + k) = scast (vs ! k)")
    case True
    then obtain z1 where 1: "ir_steps sz f' (tp, z, S) (ir_next f, z1, S)"
      using IHr [of z S, unfolded if_P [OF True]] by blast
    obtain z2 where "ir_steps sz ?f (ir_next f, z1, S) (if S i = scast v then old else nx, z2, S)"
      using emit_pair_run [OF Cons.prems(3)] by blast
    then have "ir_steps sz f' (ir_next f, z1, S) (if S i = scast v then old else nx, z2, S)"
      using IH ext(2) ir_steps_ext by blast
    from rtranclp_trans [OF 1 this]
    have "\<exists>z'. ir_steps sz f' (tp, z, S) (if S i = scast v then old else nx, z', S)" by blast
    then show ?thesis unfolding all using True by simp
  next
    case False
    then show ?thesis unfolding all using IHr [of z S, unfolded if_not_P [OF False]] False by (simp only: simp_thms if_False)
  qed
  then show ?case using IH ext(1) ir_extends_trans by blast
qed

text \<open>The values on top of the stack are those expected.\<close>

definition sled_matches :: "uint32 list \<Rightarrow> 'w::len stack \<Rightarrow> bool" where
  "sled_matches vs S \<longleftrightarrow> (\<forall>k < length vs. S k = scast (vs ! k))"

definition sled_target :: "(addr \<Rightarrow> iid option) \<Rightarrow> (addr \<Rightarrow> iid option) \<Rightarrow> addr \<Rightarrow> iid option" where
  "sled_target pin patch a = (case pin a of Some i \<Rightarrow> Some i | None \<Rightarrow> patch a)"

text \<open>Distance from an entry to the end of the pushes.\<close>

definition sled_dist :: "sled_t \<Rightarrow> addr \<Rightarrow> nat" where
  "sled_dist s a = unat ((r_end (s_range s) - r_start (s_range s)) - (a - r_start (s_range s)))"

lemma Emit68Sled_at_run:
  assumes t: "sled_target pin patch a = Some t" and d: "0 < sled_dist s a" and fresh: "ir_fresh f"
    and bits: "bits = 32 \<or> bits = 64"
  shows "\<exists>tp f'. Emit68Sled_at bits pin patch a s nx f = Inr (tp, f') \<and> ir_extends f f' \<and> ir_fresh f' \<and>
    (\<forall>z (S :: 'w::len stack). \<exists>z'. ir_steps (int (bits div 8)) f' (tp, z, S)
       (if sled_matches (pushed_values (sled_dist s a)) S
        then (t, z', pop_n (ceildiv (sled_dist s a) 5) S) else (nx, z', S)))"
proof -
  let ?d = "sled_dist s a" and ?sz = "int (bits div 8)"
  let ?k = "?sz * int (ceildiv ?d 5)"
  let ?l = "ir_next f"
  let ?f1 = "set_ft ?l (Some t) (snd (add_new (Asm (LeaSp ?k)) f))"
  have pos: "ceildiv ?d 5 \<noteq> 0" using d by (simp add: ceildiv_5)
  have sz: "0 < ?sz" using bits by auto
  have ext1: "ir_extends f ?f1" "ir_fresh ?f1"
    using fresh by (auto simp: add_new_def ir_extends_def ir_fresh_def)
  obtain tp f' where em: "emit_cmps ?sz nx 0 (pushed_values ?d) ?l ?f1 = (tp, f')"
    by (metis surj_pair)
  note run = emit_cmps_run [OF em ext1(2) sz]
  have go: "\<exists>z'. ir_steps ?sz f' (tp, z, S)
      (if sled_matches (pushed_values ?d) S then ?l else nx, z', S)" for z and S :: "'w stack"
    using run unfolding sled_matches_def add_0 by blast
  have "Emit68Sled_at bits pin patch a s nx f = Inr (tp, f')"
    using t pos em unfolding Emit68Sled_at_def sled_target_def sled_dist_def
    by (simp add: Let_def assertR_def add_new_def)
  moreover have "\<exists>z'. ir_steps ?sz f' (tp, z, S)
      (if sled_matches (pushed_values ?d) S then (t, z', pop_n (ceildiv ?d 5) S) else (nx, z', S))" for z and S :: "'w stack"
  proof (cases "sled_matches (pushed_values ?d) S")
    case True
    then obtain z1 where 1: "ir_steps ?sz f' (tp, z, S) (?l, z1, S)"
      using go [of z S, unfolded if_P [OF True]] by blast
    have k: "nat (?k div ?sz) = ceildiv ?d 5" using sz by simp
    have "ir_step ?sz ?f1 (?l, z1, S) (t, z1, pop_n (nat (?k div ?sz)) S)"
      by (rule ir_step.lea) (simp add: add_new_def new_insn_def, simp, simp)
    from ir_step_ext [OF this _ ext1(2), of f'] run
    have "ir_step ?sz f' (?l, z1, S) (t, z1, pop_n (ceildiv ?d 5) S)" unfolding k by blast
    with 1 show ?thesis using True by (auto intro: rtranclp.rtrancl_into_rtrancl)
  next
    case False
    then show ?thesis using go [of z S, unfolded if_not_P [OF False]] by (simp only: if_False)
  qed
  moreover have "ir_extends f f'" by (rule ir_extends_trans [OF ext1(1) conjunct1 [OF run]])
  moreover have "ir_fresh f'" by (rule conjunct1 [OF conjunct2 [OF run]])
  ultimately show ?thesis by blast
qed

text \<open>The tests run from the lowest jump point up; the first that matches decides.\<close>

definition sled_choice :: "sled_t \<Rightarrow> addr list \<Rightarrow> 'w::len stack \<Rightarrow> addr option" where
  "sled_choice s xs S = find (\<lambda>a. sled_matches (pushed_values (sled_dist s a)) S) xs"

lemma Emit68Sled_chain:
  assumes "\<And>a. a \<in> set xs \<Longrightarrow> sled_target pin patch a \<noteq> None \<and> 0 < sled_dist s a"
    and "ir_fresh f" and "bits = 32 \<or> bits = 64"
  shows "\<exists>tp f'. foldR (\<lambda>a (tp, f). Emit68Sled_at bits pin patch a s tp f) (rev xs) (nx, f) = Inr (tp, f') \<and>
    ir_extends f f' \<and> ir_fresh f' \<and>
    (\<forall>z (S :: 'w::len stack). \<exists>z'. ir_steps (int (bits div 8)) f' (tp, z, S)
       (case sled_choice s xs S of None \<Rightarrow> (nx, z', S)
        | Some a \<Rightarrow> (the (sled_target pin patch a), z', pop_n (ceildiv (sled_dist s a) 5) S)))"
  using assms(1)
proof (induction xs)
  case Nil
  have "\<exists>z'. ir_steps (int (bits div 8)) f (nx, z, S) (nx, z', S)" for z and S :: "'w stack" by blast
  then show ?case using assms(2) by (simp add: sled_choice_def)
next
  case (Cons a xs)
  have "\<And>b. b \<in> set xs \<Longrightarrow> sled_target pin patch b \<noteq> None \<and> 0 < sled_dist s b"
    using Cons.prems by simp
  from Cons.IH [OF this] obtain tp f1
    where 1: "foldR (\<lambda>a (tp, f). Emit68Sled_at bits pin patch a s tp f) (rev xs) (nx, f) = Inr (tp, f1)"
      "ir_extends f f1" "ir_fresh f1"
      "\<And>z (S :: 'w stack). \<exists>z'. ir_steps (int (bits div 8)) f1 (tp, z, S)
       (case sled_choice s xs S of None \<Rightarrow> (nx, z', S)
        | Some a \<Rightarrow> (the (sled_target pin patch a), z', pop_n (ceildiv (sled_dist s a) 5) S))"
    by blast
  obtain t where t: "sled_target pin patch a = Some t" "0 < sled_dist s a" using Cons.prems [of a] by auto
  from Emit68Sled_at_run [where 'w = 'w, OF t 1(3) assms(3), of tp] obtain tp' f' where
    2: "Emit68Sled_at bits pin patch a s tp f1 = Inr (tp', f')" "ir_extends f1 f'" "ir_fresh f'"
      "\<And>z (S :: 'w stack). \<exists>z'. ir_steps (int (bits div 8)) f' (tp', z, S)
       (if sled_matches (pushed_values (sled_dist s a)) S
        then (t, z', pop_n (ceildiv (sled_dist s a) 5) S) else (tp, z', S))"
    by blast
  have "foldR (\<lambda>a (tp, f). Emit68Sled_at bits pin patch a s tp f) (rev (a # xs)) (nx, f) = Inr (tp', f')"
    using 1(1) 2(1) by (simp add: foldR_append)
  moreover have "ir_extends f f'" by (rule ir_extends_trans [OF 1(2) 2(2)])
  moreover have "\<exists>z'. ir_steps (int (bits div 8)) f' (tp', z, S)
       (case sled_choice s (a # xs) S of None \<Rightarrow> (nx, z', S)
        | Some a \<Rightarrow> (the (sled_target pin patch a), z', pop_n (ceildiv (sled_dist s a) 5) S))"
    for z and S :: "'w stack"
  proof (cases "sled_matches (pushed_values (sled_dist s a)) S")
    case True
    then have "sled_choice s (a # xs) S = Some a" by (simp add: sled_choice_def)
    then show ?thesis using 2(4) [of z S, unfolded if_P [OF True]] t by simp
  next
    case False
    then have ch: "sled_choice s (a # xs) S = sled_choice s xs S" by (simp add: sled_choice_def)
    obtain z1 where go: "ir_steps (int (bits div 8)) f' (tp', z, S) (tp, z1, S)"
      using 2(4) [of z S, unfolded if_not_P [OF False]] by blast
    obtain z2 where "ir_steps (int (bits div 8)) f1 (tp, z1, S)
       (case sled_choice s xs S of None \<Rightarrow> (nx, z2, S)
        | Some a \<Rightarrow> (the (sled_target pin patch a), z2, pop_n (ceildiv (sled_dist s a) 5) S))"
      using 1(4) [of z1 S] by blast
    from rtranclp_trans [OF go ir_steps_ext [OF this 2(2) 1(3)]] show ?thesis unfolding ch by blast
  qed
  ultimately show ?case using 2(3) by blast
qed

section \<open>Which entry the comparisons recognize\<close>

lemma scast_inj:
  assumes "32 \<le> LENGTH('w::len)"
  shows "(scast (u :: uint32) :: 'w word) = scast v \<longleftrightarrow> u = v"
proof
  assume eq: "(scast u :: 'w word) = scast v"
  show "u = v"
  proof (rule bit_word_eqI)
    fix n assume "n < LENGTH(32)"
    moreover have "bit (scast u :: 'w word) n = bit (scast v :: 'w word) n" using eq by simp
    ultimately show "bit u n = bit v n"
      using assms by (cases "n = 31") (auto simp: bit_simps min_def split: if_splits)
  qed
qed simp

lemma push_lookup_inj: "i < 5 \<Longrightarrow> j < 5 \<Longrightarrow> push_lookup ! i = push_lookup ! j \<longleftrightarrow> i = j"
proof -
  have "distinct push_lookup" by (simp add: push_lookup_def)
  moreover assume "i < 5" "j < 5"
  ultimately show ?thesis by (intro nth_eq_iff_index_eq) (simp_all add: push_lookup_def)
qed

text \<open>
  Two entries, the first further from the end. The comparisons for the first one accept
  the stack of the second one in one case only: the distance between the entries is a
  multiple of five, and the words below the pushed ones look like pushed ones.
\<close>

lemma sled_confusion:
  assumes w: "32 \<le> LENGTH('w::len)" and d: "0 < d2" "d2 \<le> d1"
  shows "sled_matches (pushed_values d1) (push_all (pushed_values d2) (S :: 'w stack)) \<longleftrightarrow>
    (d1 - d2) mod 5 = 0 \<and> (\<forall>i < (d1 - d2) div 5. S i = scast (0x68686868 :: uint32))"
proof -
  let ?q1 = "(d1 - 1) div 5" and ?q2 = "(d2 - 1) div 5"
  let ?v1 = "push_lookup ! (4 - ((d1 - 1) mod 5))" and ?v2 = "push_lookup ! (4 - ((d2 - 1) mod 5))"
  have q: "?q2 \<le> ?q1" using d by (simp add: div_le_mono)
  have pv: "pushed_values d1 = ?v1 # replicate ?q1 0x68686868" "pushed_values d2 = ?v2 # replicate ?q2 0x68686868"
    using d by (simp_all add: pushed_values_Cons)
  have m: "(4::nat) - x mod 5 < 5" "x mod 5 \<le> (4::nat)" for x :: nat by (simp_all add: less_Suc_eq_le [symmetric])
  have v: "?v1 = ?v2 \<longleftrightarrow> (d1 - 1) mod 5 = (d2 - 1) mod 5"
    using push_lookup_inj [OF m(1) m(1)] m(2) [of "d1 - 1"] m(2) [of "d2 - 1"] by (metis diff_diff_cancel)
  have top0: "push_all (pushed_values d2) S 0 = scast ?v2" by (simp add: push_all_def pv)
  have mid: "push_all (pushed_values d2) S (Suc k) =
      (if k < ?q2 then scast (0x68686868 :: uint32) else S (k - ?q2))" for k
    by (simp add: push_all_def pv)
  have "sled_matches (pushed_values d1) (push_all (pushed_values d2) S) \<longleftrightarrow>
      ?v2 = ?v1 \<and> (\<forall>k < ?q1. push_all (pushed_values d2) S (Suc k) = scast (0x68686868 :: uint32))"
    unfolding sled_matches_def pv(1)
    by (simp add: all_less_Suc_split top0 scast_inj [OF w])
  also have "\<dots> \<longleftrightarrow> ?v1 = ?v2 \<and> (\<forall>i < ?q1 - ?q2. S i = scast (0x68686868 :: uint32))"
  proof -
    have "(\<forall>k < ?q1. push_all (pushed_values d2) S (Suc k) = scast (0x68686868 :: uint32)) \<longleftrightarrow>
        (\<forall>i < ?q1 - ?q2. S i = scast (0x68686868 :: uint32))"
    proof
      assume a: "\<forall>k < ?q1. push_all (pushed_values d2) S (Suc k) = scast (0x68686868 :: uint32)"
      show "\<forall>i < ?q1 - ?q2. S i = scast (0x68686868 :: uint32)"
      proof (intro allI impI)
        fix i assume "i < ?q1 - ?q2"
        then show "S i = scast (0x68686868 :: uint32)" using a [rule_format, of "i + ?q2"] by (simp add: mid)
      qed
    next
      assume a: "\<forall>i < ?q1 - ?q2. S i = scast (0x68686868 :: uint32)"
      show "\<forall>k < ?q1. push_all (pushed_values d2) S (Suc k) = scast (0x68686868 :: uint32)"
      proof (intro allI impI)
        fix k assume "k < ?q1"
        then show "push_all (pushed_values d2) S (Suc k) = scast (0x68686868 :: uint32)"
          using a [rule_format, of "k - ?q2"] diff_less_mono [of k ?q1 ?q2] by (auto simp: mid not_less)
      qed
    qed
    then show ?thesis by auto
  qed
  also have "?v1 = ?v2 \<longleftrightarrow> (d1 - d2) mod 5 = 0"
    unfolding v using d by (simp add: mod_eq_dvd_iff_nat mod_eq_0_iff_dvd)
  finally show ?thesis
  proof -
    assume 1: "sled_matches (pushed_values d1) (push_all (pushed_values d2) S) \<longleftrightarrow>
      (d1 - d2) mod 5 = 0 \<and> (\<forall>i < ?q1 - ?q2. S i = scast (0x68686868 :: uint32))"
    have "?q1 - ?q2 = (d1 - d2) div 5" if "(d1 - d2) mod 5 = 0"
    proof -
      have "5 dvd d1 - d2" using that by (simp add: mod_eq_0_iff_dvd)
      then obtain c where "d1 - d2 = 5 * c" by (rule dvdE)
      then have "d1 - 1 = (d2 - 1) + 5 * c" using d by simp
      then have "?q1 = ?q2 + c" by simp
      then show ?thesis using \<open>d1 - d2 = 5 * c\<close> by simp
    qed
    then show ?thesis using 1 by auto
  qed
qed

lemma find_lowest:
  assumes "sorted xs" "a \<in> set xs" "P a" "\<And>b. b \<in> set xs \<Longrightarrow> b < a \<Longrightarrow> \<not> P b"
  shows "find P xs = Some a"
  using assms
proof (induction xs)
  case (Cons x xs)
  show ?case
  proof (cases "x = a")
    case False
    then have "a \<in> set xs" "x < a" using Cons.prems(1,2) by (auto simp: less_le)
    then show ?thesis using Cons by auto
  qed (use Cons.prems in simp)
qed simp

text \<open>A well-placed sled: every jump point lies inside and has an instruction.\<close>

definition sled_placed :: "(addr \<Rightarrow> iid option) \<Rightarrow> (addr \<Rightarrow> iid option) \<Rightarrow> sled_t \<Rightarrow> bool" where
  "sled_placed pin patch s \<longleftrightarrow> sled_ok s \<and> (\<forall>a \<in> set (s_jmp_pts s).
     r_start (s_range s) \<le> a \<and> a < r_end (s_range s) \<and> sled_target pin patch a \<noteq> None)"

lemma sled_dist_eq: "sled_dist s a = unat (r_end (s_range s) - a)"
  by (simp add: sled_dist_def)

lemma sled_dist_less:
  assumes "a < r_end (s_range s)"
  shows "sled_dist s a = unat (r_end (s_range s)) - unat a" "0 < sled_dist s a"
proof -
  have "unat a < unat (r_end (s_range s))" using assms by (simp add: word_less_nat_alt)
  moreover have "sled_dist s a = unat (r_end (s_range s)) - unat a"
    unfolding sled_dist_eq by (rule unat_sub) (use assms in order)
  ultimately show "sled_dist s a = unat (r_end (s_range s)) - unat a" "0 < sled_dist s a" by simp_all
qed

lemma sled_dist_diff:
  assumes "b \<le> a" "a < r_end (s_range s)"
  shows "sled_dist s b - sled_dist s a = unat (a - b)" "sled_dist s a \<le> sled_dist s b"
  using assms sled_dist_less [of a s] sled_dist_less [of b s]
  by (auto simp: unat_sub word_le_nat_alt word_less_nat_alt)

lemma Emit68Sled_run:
  assumes p: "sled_placed pin patch s" and f: "ir_fresh f" and bits: "bits = 32 \<or> bits = 64"
  obtains tp f' where "Emit68Sled bits pin patch s f = Inr (tp, f')" "ir_extends f f'" "ir_fresh f'"
    "\<forall>z (S :: 'w::len stack). \<exists>z'. ir_steps (int (bits div 8)) f' (tp, z, S)
       (case sled_choice s (s_jmp_pts s) S of None \<Rightarrow> (ir_next f, z', S)
        | Some a \<Rightarrow> (the (sled_target pin patch a), z', pop_n (ceildiv (sled_dist s a) 5) S))"
proof -
  let ?f1 = "snd (add_new (Asm Hlt) f)"
  have f1: "ir_fresh ?f1" "ir_extends f ?f1" using f by (auto simp: add_new_def ir_fresh_def ir_extends_def)
  have pts: "sled_target pin patch a \<noteq> None \<and> 0 < sled_dist s a" if "a \<in> set (s_jmp_pts s)" for a
    using p that sled_dist_less [of a s] by (simp add: sled_placed_def)
  from Emit68Sled_chain [where 'w = 'w and nx = "ir_next f" and xs = "s_jmp_pts s" and s = s,
      OF pts f1(1) bits] obtain tp f' where
    r: "foldR (\<lambda>a (tp, f). Emit68Sled_at bits pin patch a s tp f) (rev (s_jmp_pts s)) (ir_next f, ?f1) = Inr (tp, f')"
      "ir_extends ?f1 f'" "ir_fresh f'"
      "\<forall>z (S :: 'w stack). \<exists>z'. ir_steps (int (bits div 8)) f' (tp, z, S)
       (case sled_choice s (s_jmp_pts s) S of None \<Rightarrow> (ir_next f, z', S)
        | Some a \<Rightarrow> (the (sled_target pin patch a), z', pop_n (ceildiv (sled_dist s a) 5) S))"
    by blast
  have "add_new (Asm Hlt) f = (ir_next f, ?f1)" by (simp add: add_new_def)
  then have "Emit68Sled bits pin patch s f = Inr (tp, f')" using r(1) by (simp add: Emit68Sled_def)
  then show ?thesis using that ir_extends_trans [OF f1(2) r(2)] r(3,4) by blast
qed

text \<open>Only the bytes up to the end of the nops matter.\<close>

lemma cpu_run_le: "cpu_run fuel m stop (pc, S) = Some r \<Longrightarrow> pc \<le> stop"
proof (induction fuel arbitrary: pc S)
  case (Suc fuel)
  then show ?case
    by (simp add: cpu_run.simps [of "Suc fuel"] cpu_step_def split: if_splits) (metis Suc_leD add_leD1)+
qed (auto simp: cpu_run.simps [of 0] split: if_splits)

lemma cpu_run_cong:
  assumes "\<And>i. i < stop \<Longrightarrow> m' i = m i"
  shows "cpu_run fuel m stop (pc, S) = Some r \<Longrightarrow> cpu_run fuel m' stop (pc, S) = Some r"
proof (induction fuel arbitrary: pc S)
  case (Suc fuel)
  show ?case
  proof (cases "pc = stop")
    case False
    then obtain pc' S' where st: "cpu_step m (pc, S) = Some (pc', S')" "cpu_run fuel m stop (pc', S') = Some r"
      using Suc.prems by (auto simp: cpu_run.simps [of "Suc fuel"] split: option.splits)
    have "pc' \<le> stop" by (rule cpu_run_le [OF st(2)])
    then have "cpu_step m' (pc, S) = Some (pc', S')"
      using st(1) assms by (auto simp: cpu_step_def imm_at_def split: if_splits)
    then show ?thesis using False Suc.IH [OF st(2)] by (simp add: cpu_run.simps [of "Suc fuel"])
  qed (use Suc.prems in \<open>auto simp: cpu_run.simps [of "Suc fuel"]\<close>)
qed (auto simp: cpu_run.simps [of 0] split: if_splits)

lemma Emit68Sled_at_entry:
  assumes "sled_placed pin patch s" and "ir_fresh f" and "bits = 32 \<or> bits = 64" and "32 \<le> LENGTH('w::len)"
    and "a \<in> set (s_jmp_pts s)"
    and "\<And>b. b \<in> set (s_jmp_pts s) \<Longrightarrow> b < a \<Longrightarrow> unat (a - b) mod 5 = 0 \<Longrightarrow>
           \<exists>i < unat (a - b) div 5. (S :: 'w stack) i \<noteq> scast (0x68686868 :: uint32)"
  shows "\<exists>tp f' z'. Emit68Sled bits pin patch s f = Inr (tp, f') \<and> ir_extends f f' \<and>
    ir_steps (int (bits div 8)) f' (tp, z, push_all (pushed_values (sled_dist s a)) S)
      (the (sled_target pin patch a), z', S)"
proof -
  let ?S = "push_all (pushed_values (sled_dist s a)) S"
  obtain tp f' where r: "Emit68Sled bits pin patch s f = Inr (tp, f')" "ir_extends f f'" "ir_fresh f'"
    "\<forall>z (S :: 'w stack). \<exists>z'. ir_steps (int (bits div 8)) f' (tp, z, S)
       (case sled_choice s (s_jmp_pts s) S of None \<Rightarrow> (ir_next f, z', S)
        | Some a \<Rightarrow> (the (sled_target pin patch a), z', pop_n (ceildiv (sled_dist s a) 5) S))"
    using Emit68Sled_run [where 'w = 'w, OF assms(1-3)] .
  have a: "a < r_end (s_range s)" and srt: "sorted (s_jmp_pts s)"
    using assms(1,5) by (auto simp: sled_placed_def sled_ok_def)
  have "sled_choice s (s_jmp_pts s) ?S = Some a"
    unfolding sled_choice_def
  proof (rule find_lowest [OF srt assms(5)])
    show "sled_matches (pushed_values (sled_dist s a)) ?S" by (simp add: sled_matches_def push_all_def)
    fix b assume b: "b \<in> set (s_jmp_pts s)" "b < a"
    note dd = sled_dist_diff [OF less_imp_le [OF b(2)] a]
    show "\<not> sled_matches (pushed_values (sled_dist s b)) ?S"
      unfolding sled_confusion [OF assms(4) sled_dist_less(2) [OF a] dd(2)] dd(1)
      using assms(6) [OF b] by metis
  qed
  then obtain z' where "ir_steps (int (bits div 8)) f' (tp, z, ?S)
      (the (sled_target pin patch a), z', pop_n (ceildiv (sled_dist s a) 5) ?S)"
    using r(4) [rule_format, of z ?S] by auto
  moreover have "pop_n (ceildiv (sled_dist s a) 5) ?S = S"
    using pop_push_all [of "pushed_values (sled_dist s a)" S] by simp
  ultimately show ?thesis using r(1,2) by auto
qed

section \<open>Properties\<close>

text \<open>C19: Wherever the processor enters a sled of \<open>n\<close> bytes \<open>0x68\<close> and four bytes \<open>0x90\<close>, it
  reaches the end of the nops, and what it has pushed by then are exactly the values
  \<open>Emit68Sled\<close> computes for that entry from \<open>push_lookup\<close>, the last one on top.\<close>

theorem sled_resynchronizes:
  assumes "k < n" and "n - k + 4 \<le> fuel"
  shows "cpu_run fuel (sled_byte n) (n + 4) (k, S) = Some (n + 4, push_all (pushed_values (n - k)) S)"
  using sled_run_aux [of "n - k" n fuel S] assms by simp

text \<open>A small sled: three jump points in eight bytes, the first five bytes before the last.\<close>

definition sample_sled :: sled_t where
  "sample_sled = \<lparr>s_range = \<lparr>r_start = 0x8000, r_end = 0x8008\<rparr>, s_jmp_pts = [0x8000, 0x8003, 0x8005],
     s_disambiguation = None\<rparr>"

definition sample_pins :: "addr \<Rightarrow> iid option" where
  "sample_pins = [0x8000 \<mapsto> 1, 0x8005 \<mapsto> 2]"

definition sample_patches :: "addr \<Rightarrow> iid option" where
  "sample_patches = [0x8003 \<mapsto> 3]"

definition sample_ir :: ir where
  "sample_ir = \<lparr>ir_insns = Map.empty, ir_next = 10\<rparr>"

lemma sample_sled_placed: "sled_placed sample_pins sample_patches sample_sled"
  by (simp add: sled_placed_def sled_ok_def sample_sled_def sample_pins_def sample_patches_def sled_target_def)

lemma sample_ir_fresh: "ir_fresh sample_ir"
  by (simp add: ir_fresh_def sample_ir_def)

lemma sample_pts: "s_jmp_pts sample_sled = [0x8000, 0x8003, 0x8005]"
  by (simp add: sample_sled_def)

theorem sled_resynchronizes_witness:
  "cpu_run 11 (sled_byte 7) 11 (0, \<lambda>_. 0 :: 64 word) = Some (11, push_all [0x90909068, 0x68686868] (\<lambda>_. 0))"
proof -
  have "pushed_values (7 - 0) = [0x90909068, 0x68686868]"
    by (simp add: pushed_values_def ceildiv_def push_lookup_def numeral_2_eq_2)
  then show ?thesis using sled_resynchronizes [of 0 7 11 "\<lambda>_. 0 :: 64 word"] by simp
qed

text \<open>C20: The code of \<open>Emit68Sled\<close> dispatches correctly: entered with the values of the jump
  point \<open>a\<close> on the stack, it removes them and continues at the instruction pinned or patched
  at \<open>a\<close> with the stack of the program as it was, provided that for no jump point a multiple
  of five bytes before \<open>a\<close> the program's own top of stack happens to consist of the pushed
  constant. The code is added to the IR without touching an existing instruction.\<close>

theorem Emit68Sled_dispatches:
  assumes "sled_placed pin patch s" and "ir_fresh f" and "bits = 32 \<or> bits = 64" and "32 \<le> LENGTH('w::len)"
    and "a \<in> set (s_jmp_pts s)"
    and "\<And>b. b \<in> set (s_jmp_pts s) \<Longrightarrow> b < a \<Longrightarrow> unat (a - b) mod 5 = 0 \<Longrightarrow>
           \<exists>i < unat (a - b) div 5. (S :: 'w stack) i \<noteq> scast (0x68686868 :: uint32)"
  shows "\<exists>tp f' z'. Emit68Sled bits pin patch s f = Inr (tp, f') \<and> ir_extends f f' \<and>
    ir_steps (int (bits div 8)) f' (tp, z, push_all (pushed_values (sled_dist s a)) S)
      (the (sled_target pin patch a), z', S)"
  using assms by (rule Emit68Sled_at_entry)

theorem Emit68Sled_dispatches_witness:
  "\<exists>tp f' z'. Emit68Sled 64 sample_pins sample_patches sample_sled sample_ir = Inr (tp, f') \<and>
    ir_extends sample_ir f' \<and>
    ir_steps 8 f' (tp, False, push_all (pushed_values (sled_dist sample_sled 0x8005)) (\<lambda>_. 0 :: 64 word))
      (2, z', \<lambda>_. 0)"
proof -
  have t: "the (sled_target sample_pins sample_patches 0x8005) = 2"
    by (simp add: sled_target_def sample_pins_def)
  have prov: "\<exists>i < unat (0x8005 - b) div 5. (0 :: 64 word) \<noteq> scast (0x68686868 :: uint32)"
    if "b \<in> set (s_jmp_pts sample_sled)" "b < 0x8005" "unat (0x8005 - b) mod 5 = 0" for b
  proof -
    have b: "b = 0x8000 \<or> b = 0x8003" using that by (auto simp: sample_pts)
    have "unat (0x8005 - b) \<noteq> 2" using that(3) by auto
    then have "unat (0x8005 - b) = 5" using b by auto
    then show ?thesis by (intro exI [of _ 0]) simp
  qed
  have mem: "0x8005 \<in> set (s_jmp_pts sample_sled)" by (simp add: sample_pts)
  have "(64 :: nat) = 32 \<or> (64 :: nat) = 64" "32 \<le> LENGTH(64)" by simp_all
  note Emit68Sled_dispatches [where 'w = 64 and S = "\<lambda>_. 0" and a = "0x8005" and z = False,
        OF sample_sled_placed sample_ir_fresh this mem prov]
  moreover have "int (64 div 8) = 8" by simp
  ultimately show ?thesis using t by metis
qed

text \<open>C21: The proviso is needed. When a jump point lies a multiple of five bytes before the
  entry and the words on top of the program's own stack are the pushed constant, the
  dispatch code continues at the instruction of an earlier jump point and removes words
  that belong to the program.\<close>

theorem Emit68Sled_misroutes:
  assumes "sled_placed pin patch s" and "ir_fresh f" and "bits = 32 \<or> bits = 64" and "32 \<le> LENGTH('w::len)"
    and "a \<in> set (s_jmp_pts s)" and "b \<in> set (s_jmp_pts s)" and "b < a" and "unat (a - b) mod 5 = 0"
    and "\<forall>i < unat (a - b) div 5. (S :: 'w stack) i = scast (0x68686868 :: uint32)"
  shows "\<exists>tp f' c z'. Emit68Sled bits pin patch s f = Inr (tp, f') \<and> c \<in> set (s_jmp_pts s) \<and> c < a \<and>
    ir_steps (int (bits div 8)) f' (tp, z, push_all (pushed_values (sled_dist s a)) S)
      (the (sled_target pin patch c), z',
       pop_n (ceildiv (sled_dist s c) 5) (push_all (pushed_values (sled_dist s a)) S))"
proof -
  let ?S = "push_all (pushed_values (sled_dist s a)) S"
  let ?P = "\<lambda>x. sled_matches (pushed_values (sled_dist s x)) ?S"
  obtain tp f' where r: "Emit68Sled bits pin patch s f = Inr (tp, f')" "ir_extends f f'" "ir_fresh f'"
    "\<forall>z (S :: 'w stack). \<exists>z'. ir_steps (int (bits div 8)) f' (tp, z, S)
       (case sled_choice s (s_jmp_pts s) S of None \<Rightarrow> (ir_next f, z', S)
        | Some a \<Rightarrow> (the (sled_target pin patch a), z', pop_n (ceildiv (sled_dist s a) 5) S))"
    using Emit68Sled_run [where 'w = 'w, OF assms(1-3)] .
  have a: "a < r_end (s_range s)" and srt: "sorted (s_jmp_pts s)"
    using assms(1,5) by (auto simp: sled_placed_def sled_ok_def)
  note dd = sled_dist_diff [OF less_imp_le [OF assms(7)] a]
  have "?P b" unfolding sled_confusion [OF assms(4) sled_dist_less(2) [OF a] dd(2)] dd(1) using assms(8,9) by blast
  let ?c = "Min {x \<in> set (s_jmp_pts s). ?P x}"
  have b: "b \<in> {x \<in> set (s_jmp_pts s). ?P x}" using \<open>?P b\<close> assms(6) by simp
  have fin: "finite {x \<in> set (s_jmp_pts s). ?P x}" by simp
  have c: "?c \<in> {x \<in> set (s_jmp_pts s). ?P x}" "?c \<le> b"
    using Min_in [OF fin] Min_le [OF fin b] b by blast+
  have "sled_choice s (s_jmp_pts s) ?S = Some ?c"
    unfolding sled_choice_def
  proof (rule find_lowest [OF srt])
    fix x assume x: "x \<in> set (s_jmp_pts s)" "x < ?c"
    show "\<not> ?P x"
    proof
      assume "?P x"
      then have "?c \<le> x" using x(1) by (intro Min_le [OF fin]) simp
      then show False using x(2) by (simp only: not_le [symmetric] simp_thms)
    qed
  qed (use c(1) in auto)
  then obtain z' where "ir_steps (int (bits div 8)) f' (tp, z, ?S)
      (the (sled_target pin patch ?c), z', pop_n (ceildiv (sled_dist s ?c) 5) ?S)"
    using r(4) [rule_format, of z ?S] by auto
  moreover have "?c < a" using c(2) assms(7) by order
  ultimately show ?thesis using r(1) c(1) by blast
qed

theorem Emit68Sled_misroutes_witness:
  "\<exists>tp f' c z'. Emit68Sled 64 sample_pins sample_patches sample_sled sample_ir = Inr (tp, f') \<and>
    c \<in> {0x8000, 0x8003, 0x8005} \<and> c < 0x8005 \<and>
    ir_steps 8 f' (tp, False, push_all (pushed_values (sled_dist sample_sled 0x8005))
        (\<lambda>_. scast (0x68686868 :: uint32) :: 64 word))
      (the (sled_target sample_pins sample_patches c), z', pop_n (ceildiv (sled_dist sample_sled c) 5)
        (push_all (pushed_values (sled_dist sample_sled 0x8005)) (\<lambda>_. scast (0x68686868 :: uint32))))"
  using Emit68Sled_misroutes [where 'w = 64 and S = "\<lambda>_. scast (0x68686868 :: uint32)" and a = "0x8005"
      and b = "0x8000" and z = False, OF sample_sled_placed sample_ir_fresh, of 64]
  by (simp add: sample_pts)

end
