(* ===== verification/Zipr_Pinner_X86.thy ===== *)
theory Zipr_Pinner_X86
  imports Zipr_State Zipr_Patcher_X86 Zipr_Sled
begin

text \<open>
  The x86 pinner (\<open>zipr/src/pinner_x86.cpp\<close>): how the addresses that the program may jump to
  indirectly are kept alive. A pin first becomes a two-byte jump; where there is room it
  grows to five bytes, otherwise it goes through a five- or two-byte jump reserved nearby; two
  pins in a row use a push, and denser pins a 68-sled. \<open>std::set\<close>s and \<open>std::map\<close>s keyed by
  instruction pointers are lists in the order of the instructions' numbers. The order of
  pointers is not fixed by the language; no theorem depends on it.
\<close>

section \<open>State\<close>

text \<open>\<open>UnresolvedPinned_t\<close>.\<close>

record upin =
  up_insn :: iid
  up_range :: range_t
  up_updated :: addr

definition mk_upin :: "iid \<Rightarrow> upin" where
  "mk_upin i = \<lparr>up_insn = i, up_range = mk_range 0 0, up_updated = 0\<rparr>"

definition HasRange :: "upin \<Rightarrow> bool" where
  "HasRange up \<longleftrightarrow> r_start (up_range up) \<noteq> 0 \<or> r_end (up_range up) \<noteq> 0"

definition HasUpdatedAddress :: "upin \<Rightarrow> bool" where
  "HasUpdatedAddress up \<longleftrightarrow> up_updated up \<noteq> 0"

definition upin_less :: "upin \<Rightarrow> upin \<Rightarrow> bool" where
  "upin_less lhs rhs \<longleftrightarrow> up_insn lhs < up_insn rhs"

text \<open>The members of \<open>ZiprPinnerX86_t\<close> beside those shared with the rest.\<close>

record pinner = zipr +
  pn_unres :: "iid list"                       \<comment> \<open>\<open>unresolved_pinned_addrs\<close>, by pinned address\<close>
  pn_two :: "upin list"                        \<comment> \<open>\<open>two_byte_pins\<close>\<close>
  pn_five :: "(upin \<times> addr) list"              \<comment> \<open>\<open>five_byte_pins\<close>\<close>
  pn_sizes :: "addr \<rightharpoonup> iid option \<times> nat"       \<comment> \<open>\<open>m_InsnSizeAtAddrs\<close>\<close>
  pn_in_sled :: "addr \<Rightarrow> bool"                 \<comment> \<open>\<open>m_AddrInSled\<close>; an absent entry reads as false\<close>
  pn_sleds :: "sled_t list"                    \<comment> \<open>\<open>m_sleds\<close>, by start\<close>

text \<open>Sets under a strict order: inserting keeps an equivalent element that is there.\<close>

fun set_insert :: "('a \<Rightarrow> 'a \<Rightarrow> bool) \<Rightarrow> 'a \<Rightarrow> 'a list \<Rightarrow> 'a list" where
  "set_insert lt x [] = [x]"
| "set_insert lt x (y # ys) = (if lt y x then y # set_insert lt x ys else if lt x y then x # y # ys else y # ys)"

fun map_assign :: "('k \<Rightarrow> 'k \<Rightarrow> bool) \<Rightarrow> 'k \<Rightarrow> 'v \<Rightarrow> ('k \<times> 'v) list \<Rightarrow> ('k \<times> 'v) list" where
  "map_assign lt k v [] = [(k, v)]"
| "map_assign lt k v ((k', v') # ys) =
     (if lt k' k then (k', v') # map_assign lt k v ys else if lt k k' then (k, v) # (k', v') # ys else (k', v) # ys)"

definition two_insert :: "upin \<Rightarrow> pinner \<Rightarrow> pinner" where
  "two_insert up z = z\<lparr>pn_two := set_insert upin_less up (pn_two z)\<rparr>"

definition two_erase :: "upin \<Rightarrow> pinner \<Rightarrow> pinner" where
  "two_erase up z = z\<lparr>pn_two := filter (\<lambda>u. up_insn u \<noteq> up_insn up) (pn_two z)\<rparr>"

definition five_assign :: "upin \<Rightarrow> addr \<Rightarrow> pinner \<Rightarrow> pinner" where
  "five_assign up a z = z\<lparr>pn_five := map_assign upin_less up a (pn_five z)\<rparr>"

definition five_erase :: "upin \<Rightarrow> pinner \<Rightarrow> pinner" where
  "five_erase up z = z\<lparr>pn_five := filter (\<lambda>(u, _). up_insn u \<noteq> up_insn up) (pn_five z)\<rparr>"

definition mark_sled :: "addr \<Rightarrow> pinner \<Rightarrow> pinner" where
  "mark_sled a z = z\<lparr>pn_in_sled := (pn_in_sled z)(a := True)\<rparr>"

text \<open>\<open>memory_space[a] = b\<close> and the like, on the whole state.\<close>

definition put :: "addr \<Rightarrow> byte \<Rightarrow> pinner \<Rightarrow> pinner" where
  "put a b z = z\<lparr>z_ms := ms_put a b (z_ms z)\<rparr>"

definition split_at :: "addr \<Rightarrow> pinner \<Rightarrow> pinner result" where
  "split_at a = on_ms (SplitFreeRange a)"

definition merge_at :: "addr \<Rightarrow> pinner \<Rightarrow> pinner result" where
  "merge_at a = on_ms (MergeFreeRange a)"

text \<open>\<open>for (a = start; a < end; a++)\<close>\<close>

definition lt_addrs :: "addr \<Rightarrow> addr \<Rightarrow> addr list" where
  "lt_addrs s e = (if s < e then addrs s (unat (e - s)) else [])"

definition FindPinnedInsnAtAddr :: "addr \<Rightarrow> pinner \<Rightarrow> iid option" where
  "FindPinnedInsnAtAddr a z = (case pn_sizes z a of None \<Rightarrow> None | Some (i, _) \<Rightarrow> i)"

text \<open>Where the jump of a pin is: its updated address, else the pinned address.\<close>

definition up_addr :: "upin \<Rightarrow> pinner \<Rightarrow> addr result" where
  "up_addr up z =
     (if HasUpdatedAddress up then Inr (up_updated up)
      else case ibta_of (z_ir z) (up_insn up) of None \<Rightarrow> Inl NullDeref | Some a \<Rightarrow> Inr a)"

section \<open>Recording the pins\<close>

definition round_up_to :: "addr \<Rightarrow> addr \<Rightarrow> addr result" where
  "round_up_to x to = assertR (to AND (to - 1) = 0) (\<lambda>_. Inr ((x + to - 1) AND NOT (to - 1)))"

definition ShouldPinImmediately :: "iid \<Rightarrow> bool" where
  "ShouldPinImmediately upinsn = False"

text \<open>At this time no instruction is an unassembled text yet.\<close>

definition data_length :: "ir \<Rightarrow> iid \<Rightarrow> nat" where
  "data_length f i = (case i_text (the_insn f i) of DataBits bs \<Rightarrow> length bs | Asm _ \<Rightarrow> 0)"

definition RecordPinnedInsnAddr :: "iid \<Rightarrow> pinner \<Rightarrow> pinner" where
  "RecordPinnedInsnAddr insn z =
     (case ibta_of (z_ir z) insn of
        None \<Rightarrow> z
      | Some ibta_addr \<Rightarrow>
          if ibta_addr = 0 then z
          else if ShouldPinImmediately insn
          then z\<lparr>pn_sizes := (pn_sizes z)(ibta_addr \<mapsto> (Some insn, data_length (z_ir z) insn))\<rparr>
          else z\<lparr>pn_sizes := (pn_sizes z)(ibta_addr \<mapsto> (Some insn, 2))\<rparr>)"

definition RecordPinnedInsnAddrs :: "iid list \<Rightarrow> pinner \<Rightarrow> pinner" where
  "RecordPinnedInsnAddrs insns = fold RecordPinnedInsnAddr insns"

text \<open>
  \<open>pin_sorter_t\<close> asserts that the instructions it compares are pinned; only such ones are
  inserted, so \<open>pin_of\<close> is never asked about another.
\<close>

definition pin_of :: "ir \<Rightarrow> iid \<Rightarrow> addr" where
  "pin_of f i = (case ibta_of f i of Some a \<Rightarrow> a | None \<Rightarrow> 0)"

definition pin_sorter :: "ir \<Rightarrow> iid \<Rightarrow> iid \<Rightarrow> bool" where
  "pin_sorter f p1 p2 \<longleftrightarrow> pin_of f p1 < pin_of f p2"

text \<open>
  An unpinned target gets a dollop. The code that would assign it an address comes after
  that and is never reached; \<open>next_pin_addr\<close> is computed for it only.
\<close>

definition AddPinnedInstruction :: "nat \<Rightarrow> denv \<Rightarrow> iid \<Rightarrow> pinner \<Rightarrow> pinner result" where
  "AddPinnedInstruction n ev insn z =
     (case ibta_of (z_ir z) insn of
        None \<Rightarrow> Inr z
      | Some a \<Rightarrow>
          if a = 0 then bindR (on_dm (AddNewDollops n (cur_env ev z) insn) z) (\<lambda>(_, z). Inr z)
          else Inr (z\<lparr>pn_unres := set_insert (pin_sorter (z_ir z)) insn (pn_unres z)\<rparr>))"

definition AddPinnedInstructions :: "nat \<Rightarrow> denv \<Rightarrow> addr \<Rightarrow> iid list \<Rightarrow> pinner \<Rightarrow> pinner result" where
  "AddPinnedInstructions n ev pin_align_factor insns z =
     bindR (getInfiniteFreeRange (z_ms z)) (\<lambda>r.
     bindR (round_up_to (r_start r) pin_align_factor) (\<lambda>next_pin_addr.
     foldR (AddPinnedInstruction n ev) insns (RecordPinnedInsnAddrs insns z)))"

section \<open>Placing sleds\<close>

definition IsPinFreeZone :: "addr \<Rightarrow> nat \<Rightarrow> pinner \<Rightarrow> bool" where
  "IsPinFreeZone a n z = list_all (\<lambda>x. FindPinnedInsnAtAddr x z = None) (addrs a n)"

text \<open>A sled ends where \<open>sled_overhead\<close> bytes follow without a pin or a patch.\<close>

definition sled_blocked :: "pinner \<Rightarrow> addr \<Rightarrow> bool" where
  "sled_blocked z x \<longleftrightarrow> FindPinnedInsnAtAddr x z \<noteq> None \<or> FindPatchTargetAtAddr x z \<noteq> None"

fun Calc68SledSize_from :: "nat \<Rightarrow> addr \<Rightarrow> nat \<Rightarrow> pinner \<Rightarrow> nat \<Rightarrow> nat result" where
  "Calc68SledSize_from 0 a sled_overhead z sled_size = Inl OutOfFuel"
| "Calc68SledSize_from (Suc fuel) a sled_overhead z sled_size =
     (let i = length (takeWhile (\<lambda>x. \<not> sled_blocked z x) (addrs (a + of_nat sled_size) sled_overhead))
      in if i = sled_overhead then assertR (2 < sled_size) (\<lambda>_. Inr sled_size)
         else Calc68SledSize_from fuel a sled_overhead z (sled_size + (i + 1)))"

definition Calc68SledSize :: "nat \<Rightarrow> addr \<Rightarrow> nat \<Rightarrow> pinner \<Rightarrow> nat result" where
  "Calc68SledSize fuel a sled_overhead z = Calc68SledSize_from fuel a sled_overhead z 0"

definition InsertJumpPoints68SledArea :: "sled_t \<Rightarrow> pinner \<Rightarrow> sled_t" where
  "InsertJumpPoints68SledArea sled z =
     fold (\<lambda>a sled. if sled_blocked z a then AddJumpPoint a sled else sled)
       (lt_addrs (r_start (s_range sled)) (r_end (s_range sled))) sled"

definition clear_byte :: "addr \<Rightarrow> pinner \<Rightarrow> pinner result" where
  "clear_byte a z =
     bindR (if IsByteFree a (z_ms z) then Inr z else on_ms (MergeFreeRange_range (mk_range a (a + 1))) z) (\<lambda>z.
     assertR (IsByteFree a (z_ms z)) (\<lambda>_. Inr z))"

definition Clear68Point :: "range_t \<Rightarrow> addr \<Rightarrow> pinner \<Rightarrow> pinner result" where
  "Clear68Point r a z =
     (if \<not> (r_start r \<le> a \<and> a \<le> r_end r) then Inr z
      else
        bindR (if FindPatchTargetAtAddr a z \<noteq> None
               then mapR (\<lambda>p. patch_getSize (snd p)) (FindPatch a z)
               else if FindPinnedInsnAtAddr a z \<noteq> None then Inr (of_nat (snd (the (pn_sizes z a))))
               else Inl AssertFail) (\<lambda>clear_size.
        let clear_size = min (r_end r) (a + clear_size) - a
        in foldR clear_byte (addrs a (unat clear_size)) z))"

definition Clear68SledArea :: "sled_t \<Rightarrow> pinner \<Rightarrow> pinner result" where
  "Clear68SledArea sled = foldR (Clear68Point (s_range sled)) (s_jmp_pts sled)"

text \<open>The bytes of a sled, its nops and its jump.\<close>

definition sled_push_byte :: "addr \<Rightarrow> pinner \<Rightarrow> pinner result" where
  "sled_push_byte a z =
     (let z = mark_sled a (put a 0x68 z) in if IsByteFree a (z_ms z) then split_at a z else Inr z)"

definition sled_nop_byte :: "addr \<Rightarrow> pinner \<Rightarrow> pinner result" where
  "sled_nop_byte a z = assertR (IsByteFree a (z_ms z)) (\<lambda>_. split_at a (mark_sled a (put a 0x90 z)))"

definition sled_jmp_byte :: "addr \<times> byte \<Rightarrow> pinner \<Rightarrow> pinner result" where
  "sled_jmp_byte = (\<lambda>(a, b) z. assertR (IsByteFree a (z_ms z)) (\<lambda>_. split_at a (put a b z)))"

definition jmp_rel32_bytes :: "byte list" where
  "jmp_rel32_bytes = [0xe9, 0, 0, 0, 0]"

definition emit_sled :: "nat \<Rightarrow> sled_t \<Rightarrow> pinner \<Rightarrow> (iid \<times> pinner) result" where
  "emit_sled bits sled z =
     bindR (Emit68Sled bits (\<lambda>a. FindPinnedInsnAtAddr a z) (\<lambda>a. FindPatchTargetAtAddr a z) sled (z_ir z)) (\<lambda>(i, f).
     Inr (i, z\<lparr>z_ir := f\<rparr>))"

text \<open>The five-byte pin of an old dispatcher now belongs to the new one.\<close>

definition update_disambiguation :: "iid \<Rightarrow> iid option \<Rightarrow> bool \<times> pinner \<Rightarrow> bool \<times> pinner" where
  "update_disambiguation sled_disambiguation to_update = (\<lambda>(updated, z).
     case find (\<lambda>(up, _). Some (up_insn up) = to_update) (pn_five z) of
       None \<Rightarrow> (updated, z)
     | Some (up, a) \<Rightarrow>
         (True, five_assign ((mk_upin sled_disambiguation)\<lparr>up_updated := up_updated up\<rparr>) a (five_erase up z)))"

definition Update68Sled :: "nat \<Rightarrow> sled_t \<Rightarrow> sled_t \<Rightarrow> pinner \<Rightarrow> (sled_t \<times> pinner) result" where
  "Update68Sled bits new_sled existing_sled z =
     (let clearable_sled_range = mk_range (r_start (s_range new_sled)) (r_start (s_range existing_sled));
          clearable_sled = mk_sled clearable_sled_range;
          new_sled = InsertJumpPoints68SledArea new_sled z;
          clearable_sled = MergeSledJumpPoints new_sled clearable_sled
      in bindR (Clear68SledArea clearable_sled z) (\<lambda>z.
         bindR (foldR sled_push_byte (loop_addrs clearable_sled_range) z) (\<lambda>z.
         bindR (MergeSled new_sled existing_sled) (\<lambda>existing_sled.
         assertR (s_disambiguation existing_sled \<noteq> None) (\<lambda>_.
         bindR (emit_sled bits existing_sled z) (\<lambda>(sled_disambiguation, z).
         let (disambiguation_updated, z) =
               update_disambiguation sled_disambiguation (s_disambiguation new_sled)
                 (update_disambiguation sled_disambiguation (s_disambiguation existing_sled) (False, z))
         in assertR disambiguation_updated (\<lambda>_.
            Inr (existing_sled\<lparr>s_disambiguation := Some sled_disambiguation\<rparr>, z))))))))"

text \<open>A sled where there is none yet: four nops and a five-byte jump follow the pushes.\<close>

definition nop_overhead :: nat where "nop_overhead = 4"
definition jmp_overhead :: nat where "jmp_overhead = 5"

definition merge_byte :: "addr \<Rightarrow> pinner \<Rightarrow> pinner result" where
  "merge_byte a z = (if IsByteFree a (z_ms z) then Inr z else merge_at a z)"

definition lay_sled :: "nat \<Rightarrow> addr \<Rightarrow> nat \<Rightarrow> sled_t \<Rightarrow> pinner \<Rightarrow> (addr \<times> pinner) result" where
  "lay_sled bits a sled_size sled z =
     (let e = a + of_nat sled_size; j = e + of_nat nop_overhead; sled = InsertJumpPoints68SledArea sled z
      in bindR (Clear68SledArea sled z) (\<lambda>z.
         bindR (foldR merge_byte (addrs e (nop_overhead + jmp_overhead)) z) (\<lambda>z.
         bindR (foldR sled_push_byte (addrs a sled_size) z) (\<lambda>z.
         bindR (foldR sled_nop_byte (addrs e nop_overhead) z) (\<lambda>z.
         bindR (emit_sled bits sled z) (\<lambda>(sled_disambiguation, z).
         bindR (foldR sled_jmp_byte (zip (addrs j jmp_overhead) jmp_rel32_bytes) z) (\<lambda>z.
         let cup = (mk_upin sled_disambiguation)\<lparr>up_updated := j\<rparr>;
             z = five_assign cup j z;
             sled = sled\<lparr>s_disambiguation := Some sled_disambiguation\<rparr>;
             z = z\<lparr>pn_sleds := set_insert sled_less sled (pn_sleds z)\<rparr>
         in Inr (j + of_nat jmp_overhead, z))))))))"

definition Do68Sled :: "nat \<Rightarrow> nat \<Rightarrow> addr \<Rightarrow> pinner \<Rightarrow> (addr \<times> pinner) result" where
  "Do68Sled fuel bits a z =
     bindR (Calc68SledSize fuel a (nop_overhead + jmp_overhead) z) (\<lambda>sled_size.
     let sled = mk_sled (mk_range a (a + of_nat sled_size))
     in case find (\<lambda>sled_i. sled_overlaps sled_i sled) (pn_sleds z) of
          Some sled_i \<Rightarrow>
            let z = z\<lparr>pn_sleds := remove1 sled_i (pn_sleds z)\<rparr>
            in bindR (Update68Sled bits sled sled_i z) (\<lambda>(sled_i, z).
               let z = z\<lparr>pn_sleds := set_insert sled_less sled_i (pn_sleds z)\<rparr>
               in Inr (r_end (s_range sled_i), z))
        | None \<Rightarrow> lay_sled bits a sled_size sled z)"

section \<open>A jump for every pin\<close>

definition jmp_rel8_bytes :: "byte list" where
  "jmp_rel8_bytes = [0xeb, 0]"

text \<open>The byte must not have been written yet (an assertion).\<close>

definition reserve_jump :: "addr \<Rightarrow> pinner \<Rightarrow> pinner result" where
  "reserve_jump a = on_ms (reserve_bytes AssertFail a jmp_rel8_bytes)"

definition two_byte_pin :: "iid \<Rightarrow> addr \<Rightarrow> pinner \<Rightarrow> pinner result" where
  "two_byte_pin upinsn a z =
     bindR (reserve_jump a z) (\<lambda>z.
     Inr (two_insert ((mk_upin upinsn)\<lparr>up_range := mk_range a (a + 2)\<rparr>) z))"

text \<open>
  Two pins in a row: the first becomes \<open>push imm32\<close>, whose operand has room for the jump of
  the second; after it a jump leads to a new instruction that drops the pushed word.
\<close>

definition push_pin :: "nat \<Rightarrow> iid \<Rightarrow> addr \<Rightarrow> pinner \<Rightarrow> pinner result" where
  "push_pin bits upinsn a z =
     (let (lea_insn, f) = add_new (Asm (LeaSp (if bits = 64 then 8 else 4))) (z_ir z);
          z = z\<lparr>z_ir := set_ft lea_insn (Some upinsn) f\<rparr>
      in bindR (split_at a (put a 0x68 z)) (\<lambda>z.
         let a = a + 5
         in bindR (reserve_jump a z) (\<lambda>z.
            Inr (two_insert ((mk_upin lea_insn)\<lparr>up_updated := a\<rparr>) z))))"

text \<open>
  A sled takes care of all pins before its end; they are skipped. (When the sled ends before
  the pin it was made for, the iterator steps back and the loop meets the same pin again:
  hence fuel.)
\<close>

fun ReservePins :: "nat \<Rightarrow> nat \<Rightarrow> iid list \<Rightarrow> pinner \<Rightarrow> pinner result" where
  "ReservePins fuel bits [] z = Inr z"
| "ReservePins 0 bits (upinsn # it) z = Inl OutOfFuel"
| "ReservePins (Suc fuel) bits (upinsn # it) z =
     (let a = pin_of (z_ir z) upinsn in
      if \<not> i_ibta_in_file (the_insn (z_ir z) upinsn) then ReservePins fuel bits it z
      else if FindPinnedInsnAtAddr (a + 1) z = None then
        bindR (two_byte_pin upinsn a z) (ReservePins fuel bits it)
      else if IsPinFreeZone (a + 2) 5 z then
        bindR (push_pin bits upinsn a z) (ReservePins fuel bits it)
      else
        bindR (Do68Sled fuel bits a z) (\<lambda>(end_of_sled, z).
        ReservePins fuel bits (dropWhile (\<lambda>i. pin_of (z_ir z) i < end_of_sled) (upinsn # it)) z))"

definition ReservePinnedInstructions :: "nat \<Rightarrow> nat \<Rightarrow> pinner \<Rightarrow> pinner result" where
  "ReservePinnedInstructions fuel bits z = ReservePins fuel bits (pn_unres z) z"

section \<open>Growing two-byte pins\<close>

text \<open>Room for a five-byte, else a two-byte jump within 120 bytes, the furthest ahead first.\<close>

definition spots :: "(nat \<times> int) list" where
  "spots = [(n, i). n \<leftarrow> [5, 2], i \<leftarrow> rev [-120..120]]"

definition find_spot :: "addr \<Rightarrow> memory_space \<Rightarrow> (nat \<times> int) option" where
  "find_spot a ms = find (\<lambda>(n, i). AreBytesFree (a + word_of_int i) n ms) spots"

definition prereserve :: "nat \<Rightarrow> nat \<Rightarrow> upin \<Rightarrow> pinner \<Rightarrow> pinner result" where
  "prereserve fuel bits up z =
     bindR (up_addr up z) (\<lambda>a.
     if pn_in_sled z a then Inr (two_erase up z)
     else case find_spot a (z_ms z) of
       Some (n, i) \<Rightarrow>
         let r = mk_range (a + word_of_int i) (a + word_of_int i + of_nat n);
             patch = \<lparr>pt_from = r_start r, pt_type = (if n = 2 then UncondJump_rel8 else UncondJump_rel32)\<rparr>;
             new_up = (mk_upin (up_insn up))\<lparr>up_range := r, up_updated := up_updated up\<rparr>
         in bindR (foldR split_at (lt_addrs (r_start r) (r_end r)) z) (\<lambda>z.
            Inr (two_insert new_up (two_erase up (RecordNewPatch (r_start r) (up_insn up, patch) z))))
     | None \<Rightarrow>
         let emergency_patch = \<lparr>pt_from = a, pt_type = UncondJump_rel8\<rparr>;
             z = RecordNewPatch a (up_insn up, emergency_patch) z
         in bindR (Do68Sled fuel bits a z) (\<lambda>(end_of_sled, z). Inr z))"

definition PreReserve2ByteJumpTargets :: "nat \<Rightarrow> nat \<Rightarrow> pinner \<Rightarrow> pinner result" where
  "PreReserve2ByteJumpTargets fuel bits z = foldR (prereserve fuel bits) (pn_two z) z"

text \<open>The reserved place of a pin is given back, except for what a sled has taken over.\<close>

definition unreserve :: "upin \<Rightarrow> pinner \<Rightarrow> pinner result" where
  "unreserve up z =
     foldR (\<lambda>j z. if pn_in_sled z j then Inr z else merge_at j z)
       (lt_addrs (r_start (up_range up)) (r_end (up_range up))) z"

definition expand_pin :: "upin \<Rightarrow> pinner \<Rightarrow> pinner result" where
  "expand_pin up z =
     bindR (up_addr up z) (\<lambda>a.
     if pn_in_sled z a then Inr (two_erase up z)
     else if AreBytesFree (a + 2) 3 (z_ms z) \<and> \<not> pn_in_sled z (r_start (up_range up)) then
       bindR (on_ms (PlopJump a) z) (\<lambda>z.
       bindR (unreserve up z) (\<lambda>z.
       bindR (RemovePatch (r_start (up_range up)) z) (\<lambda>z.
       let z = five_assign (up\<lparr>up_range := mk_range 0 0\<rparr>) a z;
           z = z\<lparr>pn_sizes := (pn_sizes z)(a \<mapsto> (FindPinnedInsnAtAddr a z, 5))\<rparr>
       in Inr (two_erase up z))))
     else Inr z)"

definition ExpandPinnedInstructions :: "pinner \<Rightarrow> pinner result" where
  "ExpandPinnedInstructions z = foldR expand_pin (pn_two z) z"

text \<open>A range of neither size leaves the iterator where it is: the loop does not end.\<close>

definition fix_pin :: "upin \<Rightarrow> pinner \<Rightarrow> pinner result" where
  "fix_pin up z =
     bindR (up_addr up z) (\<lambda>a.
     let s = r_start (up_range up) in
     if pn_in_sled z a then
       bindR (if HasRange up then unreserve up z else Inr z) (\<lambda>z. Inr (two_erase up z))
     else if HasRange up then
       bindR (unreserve up z) (\<lambda>z.
       if pn_in_sled z s then
         bindR (on_ms (x86_PatchJump a s) z) (\<lambda>z. Inr (two_erase up z))
       else if is5ByteRange (up_range up) then
         bindR (on_ms (PlopJump s) (five_assign up s z)) (\<lambda>z.
         bindR (on_ms (x86_PatchJump a s) z) (\<lambda>z. Inr (two_erase up z)))
       else if HasRange up \<and> is2ByteRange (up_range up) then
         let new_up = (mk_upin (up_insn up))\<lparr>up_updated := s, up_range := up_range up\<rparr>
         in bindR (reserve_jump s z) (\<lambda>z.
            bindR (on_ms (x86_PatchJump a s) z) (\<lambda>z. Inr (two_insert new_up (two_erase up z))))
       else Inl OutOfFuel)
     else Inl AssertFail)"

definition Fix2BytePinnedInstructions :: "pinner \<Rightarrow> pinner result" where
  "Fix2BytePinnedInstructions z = foldR fix_pin (pn_two z) z"

definition optimize_pin :: "upin \<times> addr \<Rightarrow> pinner \<Rightarrow> pinner result" where
  "optimize_pin = (\<lambda>(up, a) z.
     if pn_in_sled z a then Inr z
     else bindR (on_ms (PlopJump a) (AddPatch (up_insn up) \<lparr>pt_from = a, pt_type = UncondJump_rel32\<rparr> z)) (\<lambda>z.
       Inr (five_erase up z)))"

definition OptimizePinnedInstructions :: "pinner \<Rightarrow> pinner result" where
  "OptimizePinnedInstructions z = assertR (pn_two z = []) (\<lambda>_. foldR optimize_pin (pn_five z) z)"

fun fix_loop :: "nat \<Rightarrow> nat \<Rightarrow> pinner \<Rightarrow> pinner result" where
  "fix_loop fuel bits z =
     (if pn_two z = [] then Inr z
      else case fuel of 0 \<Rightarrow> Inl OutOfFuel
        | Suc fuel' \<Rightarrow>
            bindR (Fix2BytePinnedInstructions z) (\<lambda>z.
            bindR (if pn_two z \<noteq> [] then PreReserve2ByteJumpTargets fuel' bits z else Inr z) (fix_loop fuel' bits)))"

declare fix_loop.simps [simp del]

definition x86_doPinning :: "nat \<Rightarrow> nat \<Rightarrow> denv \<Rightarrow> addr \<Rightarrow> iid list \<Rightarrow> pinner \<Rightarrow> pinner result" where
  "x86_doPinning fuel bits ev pin_align_factor insns z =
     bindR (AddPinnedInstructions fuel ev pin_align_factor insns z) (\<lambda>z.
     bindR (ReservePinnedInstructions fuel bits z) (\<lambda>z.
     bindR (PreReserve2ByteJumpTargets fuel bits z) (\<lambda>z.
     bindR (ExpandPinnedInstructions z) (\<lambda>z.
     bindR (fix_loop fuel bits z) OptimizePinnedInstructions))))"

end
