(* ===== verification/Zipr_Pins.thy ===== *)
theory Zipr_Pins
  imports Zipr_Pinner_X86
begin

text \<open>What the x86 pinner guarantees: the size of sleds, the reach of reserved jumps.\<close>

section \<open>The size of a sled\<close>

definition sled_room :: "pinner \<Rightarrow> addr \<Rightarrow> nat \<Rightarrow> nat \<Rightarrow> bool" where
  "sled_room z a k s \<longleftrightarrow> (\<forall>i < k. \<not> sled_blocked z (a + of_nat (s + i)))"

lemma takeWhile_addrs:
  defines "t P a k \<equiv> length (takeWhile P (addrs a k))"
  shows "t P a k \<le> k" "\<And>i. i < t P a k \<Longrightarrow> P (a + of_nat i)" "t P a k < k \<Longrightarrow> \<not> P (a + of_nat (t P a k))"
proof -
  have n: "addrs a k ! i = a + of_nat i" if "i < k" for i using that by (simp add: addrs_def)
  show le: "t P a k \<le> k" unfolding t_def using length_takeWhile_le [of P "addrs a k"] by simp
  show "P (a + of_nat i)" if "i < t P a k" for i
  proof -
    have "P (takeWhile P (addrs a k) ! i)" using that set_takeWhileD [OF nth_mem] unfolding t_def by metis
    then show ?thesis using that le n takeWhile_nth [of i P "addrs a k"] unfolding t_def by simp
  qed
  show "\<not> P (a + of_nat (t P a k))" if "t P a k < k"
    using that n nth_length_takeWhile [of P "addrs a k"] unfolding t_def by simp
qed

text \<open>Every size that is skipped has a pin or a patch in its window; each is met once.\<close>

lemma Calc68SledSize_from_steps:
  assumes fin: "finite {x. sled_blocked z x}"
    and fuel: "card {x. sled_blocked z x \<and> x \<notin> (\<lambda>i. a + of_nat i) ` {..<s}} < fuel"
    and room: "s + k * card {x. sled_blocked z x \<and> x \<notin> (\<lambda>i. a + of_nat i) ` {..<s}} + k < 2 ^ 64"
  shows "\<exists>r \<ge> s. r \<le> s + k * card {x. sled_blocked z x \<and> x \<notin> (\<lambda>i. a + of_nat i) ` {..<s}} \<and>
      sled_room z a k r \<and> (\<forall>s'. s \<le> s' \<and> s' < r \<longrightarrow> \<not> sled_room z a k s') \<and>
      Calc68SledSize_from fuel a k z s = (if 2 < r then Inr r else Inl AssertFail)"
  using fuel room
proof (induction fuel arbitrary: s)
  case (Suc fuel)
  let ?B = "\<lambda>s. {x. sled_blocked z x \<and> x \<notin> (\<lambda>i. a + of_nat i) ` {..<s}}"
  define i where "i = length (takeWhile (\<lambda>x. \<not> sled_blocked z x) (addrs (a + of_nat s) k))"
  note t = takeWhile_addrs [where P = "\<lambda>x. \<not> sled_blocked z x" and a = "a + of_nat s" and k = k, folded i_def]
  show ?case
  proof (cases "i = k")
    case True
    then have "sled_room z a k s" using t(2) by (simp add: sled_room_def add.assoc)
    then show ?thesis using True by (intro exI [of _ s]) (auto simp: i_def [symmetric] assertR_def)
  next
    case False
    then have ik: "i < k" using t(1) by simp
    let ?x = "a + of_nat (s + i)" and ?s = "s + (i + 1)"
    have blk: "sled_blocked z ?x" using t(3) [OF ik] by (simp add: add.assoc)
    have new: "?x \<notin> (\<lambda>i. a + of_nat i) ` {..<s}"
    proof
      assume "?x \<in> (\<lambda>i. a + of_nat i) ` {..<s}"
      then obtain j where j: "j < s" "(of_nat (s + i) :: addr) = of_nat j" by auto
      have "s + i < 2 ^ 64" using Suc.prems(2) ik by linarith
      then have "s + i = j" using arg_cong [OF j(2), of unat] j(1) by (simp add: unat_of_nat_64 del: of_nat_add)
      then show False using j(1) by simp
    qed
    have "?x \<in> (\<lambda>i. a + of_nat i) ` {..<?s}" by (rule image_eqI [of _ _ "s + i"]) simp_all
    moreover have "(\<lambda>i. a + of_nat i) ` {..<s} \<subseteq> (\<lambda>i. a + of_nat i) ` {..<?s}" by (rule image_mono) auto
    ultimately have sub: "?B ?s \<subseteq> ?B s - {?x}" by blast
    have f: "finite (?B s)" by (rule finite_subset [OF _ fin]) auto
    have c: "card (?B ?s) < card (?B s)"
    proof -
      have "?x \<in> ?B s" using blk new by (intro CollectI conjI)
      then have "card (?B s - {?x}) < card (?B s)" by (rule card_Diff1_less [OF f])
      moreover have "card (?B ?s) \<le> card (?B s - {?x})" by (rule card_mono [OF _ sub]) (use f in simp)
      ultimately show ?thesis by linarith
    qed
    then obtain d where d: "card (?B s) = Suc (card (?B ?s) + d)" using less_iff_Suc_add by auto
    have le: "?s + k * card (?B ?s) \<le> s + k * card (?B s)" using ik by (simp add: d algebra_simps)
    have p: "card (?B ?s) < fuel" "?s + k * card (?B ?s) + k < 2 ^ 64" using c le Suc.prems by linarith+
    obtain r where r: "?s \<le> r" "r \<le> ?s + k * card (?B ?s)" "sled_room z a k r"
        "\<forall>s'. ?s \<le> s' \<and> s' < r \<longrightarrow> \<not> sled_room z a k s'"
        "Calc68SledSize_from fuel a k z ?s = (if 2 < r then Inr r else Inl AssertFail)"
      using Suc.IH [OF p] by blast
    have "\<not> sled_room z a k s'" if "s \<le> s'" "s' < ?s" for s'
    proof -
      have "s + i = s' + (s + i - s')" "s + i - s' < k" using that ik by auto
      then show ?thesis using blk unfolding sled_room_def by metis
    qed
    then have "\<forall>s'. s \<le> s' \<and> s' < r \<longrightarrow> \<not> sled_room z a k s'" using r(4) by (meson not_le)
    moreover have "Calc68SledSize_from (Suc fuel) a k z s = Calc68SledSize_from fuel a k z ?s"
      using False by (simp add: i_def [symmetric])
    ultimately show ?thesis using r(1-3,5) le by (intro exI [of _ r]) auto
  qed
qed simp


text \<open>A state with pins at 0x180, 0x181 and 0x183, in a memory that is otherwise free.\<close>

definition pins_sample :: pinner where
  "pins_sample = \<lparr>z_ms = sample_space, z_ir = sample_ir, z_dm = dman_init, z_patch_at = Map.empty,
     z_patch_list = [], z_queue = [], z_locs = Map.empty, pn_unres = [], pn_two = [], pn_five = [],
     pn_sizes = [0x180 \<mapsto> (Some 1, 2), 0x181 \<mapsto> (Some 2, 2), 0x183 \<mapsto> (Some 3, 2)],
     pn_in_sled = (\<lambda>_. False), pn_sleds = []\<rparr>"

lemma pins_sample_blocked: "{x. sled_blocked pins_sample x} = {0x180, 0x181, 0x183}"
  by (auto simp: sled_blocked_def FindPinnedInsnAtAddr_def FindPatchTargetAtAddr_def pins_sample_def)


section \<open>A place nearby\<close>

lemma find_rev_upto: "find P (rev [l..h]) = Some i \<Longrightarrow> l \<le> i \<and> i \<le> h \<and> P i \<and> (\<forall>j. i < j \<and> j \<le> h \<longrightarrow> \<not> P j)"
proof (induction "nat (h - l + 1)" arbitrary: h)
  case 0
  then show ?case by simp
next
  case (Suc n)
  then have "[l..h] = [l..h - 1] @ [h]" by (intro upto_rec2) simp
  then have f: "find P (rev [l..h]) = (if P h then Some h else find P (rev [l..h - 1]))" by simp
  show ?case
  proof (cases "P h")
    case True
    then show ?thesis using Suc.prems f Suc.hyps(2) by auto
  next
    case False
    then have r: "l \<le> i \<and> i \<le> h - 1 \<and> P i \<and> (\<forall>j. i < j \<and> j \<le> h - 1 \<longrightarrow> \<not> P j)"
      using Suc.hyps(1) [of "h - 1"] Suc.hyps(2) Suc.prems f by simp
    have "\<not> P j" if "i < j" "j \<le> h" for j
    proof (cases "j = h")
      case neq: False
      then have "j \<le> h - 1" using that by simp
      then show ?thesis using r that by blast
    qed (use False in simp)
    then show ?thesis using r by simp
  qed
qed

lemma find_upto_None: "find P (rev [l..h]) = None \<longleftrightarrow> (\<forall>i. l \<le> i \<and> i \<le> h \<longrightarrow> \<not> P i)"
  by (auto simp: find_None_iff)

lemma find_append: "find P (xs @ ys) = (case find P xs of None \<Rightarrow> find P ys | Some x \<Rightarrow> Some x)"
  by (induction xs) auto

lemma find_spot_eq:
  "find_spot a ms = (case find (\<lambda>i. AreBytesFree (a + word_of_int i) 5 ms) (rev [-120..120]) of
     Some i \<Rightarrow> Some (5, i)
   | None \<Rightarrow> map_option (Pair 2) (find (\<lambda>i. AreBytesFree (a + word_of_int i) 2 ms) (rev [-120..120])))"
proof -
  have m: "find P (map (Pair n) xs) = map_option (Pair n) (find (\<lambda>i. P (n, i)) xs)" for P xs and n :: nat
    by (induction xs) auto
  have "spots = map (Pair 5) (rev [-120..120]) @ map (Pair 2) (rev [-120..120])"
    by (simp add: spots_def del: upto_rec_numeral)
  then have "find_spot a ms = find (\<lambda>(n, i). AreBytesFree (a + word_of_int i) n ms)
      (map (Pair 5) (rev [-120..120]) @ map (Pair 2) (rev [-120..120]))" by (simp only: find_spot_def)
  then show ?thesis by (simp only: find_append m prod.case) (simp split: option.splits)
qed

lemma near_jump: "- 120 \<le> i \<Longrightarrow> i \<le> 120 \<Longrightarrow> - 128 \<le> sint ((a + word_of_int i) - a - 2 :: addr) \<and> sint ((a + word_of_int i) - a - 2 :: addr) < 128"
proof -
  assume i: "- 120 \<le> i" "i \<le> 120"
  have "(a + word_of_int i) - a - 2 = (word_of_int (i - 2) :: addr)" by simp
  moreover have "sint (word_of_int (i - 2) :: addr) = i - 2"
    unfolding sint_sbintrunc' using i by (simp add: signed_take_bit_int_eq_self)
  ultimately show ?thesis using i by simp
qed

text \<open>C29: The place reserved for a two-byte pin is one the pin can use: it is free, at most 120
  bytes away, and a two-byte jump at the pin can be patched to it. Places of five bytes come
  before places of two, places further ahead before others; when none is found there are no
  two free bytes anywhere in reach of the search.\<close>

theorem find_spot_correct:
  "case find_spot a ms of
     Some (n, i) \<Rightarrow> n \<in> {2, 5} \<and> - 120 \<le> i \<and> i \<le> 120 \<and> AreBytesFree (a + word_of_int i) n ms \<and>
       (\<forall>j. i < j \<and> j \<le> 120 \<longrightarrow> \<not> AreBytesFree (a + word_of_int j) n ms) \<and>
       (n = 2 \<longrightarrow> (\<forall>j. - 120 \<le> j \<and> j \<le> 120 \<longrightarrow> \<not> AreBytesFree (a + word_of_int j) 5 ms)) \<and>
       (\<forall>m. ms_peek a m = 0xeb \<longrightarrow> \<not> IsByteFree a m \<longrightarrow> \<not> IsByteFree (a + 1) m \<longrightarrow>
          (\<exists>m'. x86_PatchJump a (a + word_of_int i) m = Inr m' \<and>
            a + 2 + sext8 (ms_peek (a + 1) m') = a + word_of_int i))
   | None \<Rightarrow> (\<forall>j. - 120 \<le> j \<and> j \<le> 120 \<longrightarrow> \<not> AreBytesFree (a + word_of_int j) 2 ms)"
proof -
  have jump: "\<exists>m'. x86_PatchJump a (a + word_of_int i) m = Inr m' \<and> a + 2 + sext8 (ms_peek (a + 1) m') = a + word_of_int i"
    if i: "- 120 \<le> i" "i \<le> 120" and m: "ms_peek a m = 0xeb" "\<not> IsByteFree a m" "\<not> IsByteFree (a + 1) m" for i m
  proof -
    let ?d = "(a + word_of_int i) - a - 2"
    have fit: "- 128 \<le> sint ?d \<and> sint ?d < 128" by (rule near_jump [OF i])
    then have "?d = sext8 (ucast ?d)" by (simp only: sext8_fits)
    then have "a + 2 + sext8 (ucast ?d) = a + 2 + ?d" by simp
    also have "\<dots> = a + word_of_int i" by (simp only: diff_conv_add_uminus) simp
    finally show ?thesis using x86_PatchJump_eb [OF m(1), of "a + word_of_int i"] m fit by simp
  qed
  show ?thesis
  proof (cases "find (\<lambda>i. AreBytesFree (a + word_of_int i) 5 ms) (rev [-120..120])")
    case (Some i)
    have e: "find_spot a ms = Some (5, i)" by (simp only: find_spot_eq Some option.case)
    show ?thesis unfolding e using find_rev_upto [OF Some] jump [of i] by simp
  next
    case None
    note none5 = None [unfolded find_upto_None]
    show ?thesis
    proof (cases "find (\<lambda>i. AreBytesFree (a + word_of_int i) 2 ms) (rev [-120..120])")
      case (Some i)
      have e: "find_spot a ms = Some (2, i)" by (simp only: find_spot_eq Some None option.case option.map)
      show ?thesis unfolding e using find_rev_upto [OF Some] jump [of i] none5 by simp
    next
      case N2: None
      have e: "find_spot a ms = None" by (simp only: find_spot_eq N2 None option.case option.map)
      show ?thesis unfolding e using N2 [unfolded find_upto_None] by simp
    qed
  qed
qed

lemma sample_spot: "find_spot 0x180 sample_space = Some (5, 120)"
proof -
  have "find P (rev [-120..120]) = Some 120" if "P 120" for P :: "int \<Rightarrow> bool"
  proof -
    have "rev [-120..120] = 120 # rev [-120..119::int]" by (subst upto_rec2) simp_all
    then show ?thesis using that by simp
  qed
  moreover have "AreBytesFree (0x180 + word_of_int 120) 5 sample_space"
    by (simp add: AreBytesFree_iff sample_space_ok addrs_def upt_rec)
  ultimately have "find (\<lambda>i. AreBytesFree (0x180 + word_of_int i) 5 sample_space) (rev [-120..120]) = Some 120" .
  then show ?thesis by (simp only: find_spot_eq option.case)
qed

theorem find_spot_correct_witness:
  "\<exists>m'. x86_PatchJump 0x180 0x1f8 (bytes_at 0x180 [0xeb, 0]) = Inr m' \<and>
     0x180 + 2 + sext8 (ms_peek (0x180 + 1) m') = 0x1f8"
proof -
  let ?m = "bytes_at 0x180 [0xeb, 0]"
  have "ms_peek 0x180 ?m = 0xeb" by (simp add: bytes_at_def)
  moreover have "\<not> IsByteFree x ?m" for x
    by (simp add: bytes_at_def IsByteFree_def IsValidRange_def FindFreeRange_def fr_find_def rs_find_def
        rs_lower_bound_def ms_init_def FreeRanges_init_def)
  ultimately show ?thesis using find_spot_correct [of "0x180" sample_space] unfolding sample_spot by simp
qed

end
