(* ===== verification/Zipr_SledPlace.thy ===== *)
theory Zipr_SledPlace
  imports Zipr_Pins
begin

text \<open>
  \<open>Do68Sled\<close> from end to end: the bytes it lays, and that the program, entering the sled at any
  pin, comes out at the pinned instruction with its stack as it was.
\<close>

section \<open>Writing bytes and freeing them\<close>

abbreviation fr :: "'a zipr_scheme \<Rightarrow> addr set" where
  "fr z \<equiv> free_set (z_ms z)"

abbreviation bytes :: "'a zipr_scheme \<Rightarrow> addr \<rightharpoonup> byte" where
  "bytes z \<equiv> ms_bytes (z_ms z)"

definition mem_ok :: "'a zipr_scheme \<Rightarrow> bool" where
  "mem_ok z \<longleftrightarrow> ms_ok (z_ms z) \<and> 0 \<notin> fr z"

text \<open>All but memory and \<open>m_AddrInSled\<close> is as before.\<close>

definition same_but :: "pinner \<Rightarrow> pinner \<Rightarrow> bool" where
  "same_but z z' \<longleftrightarrow> z_ir z' = z_ir z \<and> z_dm z' = z_dm z \<and> z_patch_at z' = z_patch_at z \<and>
     z_patch_list z' = z_patch_list z \<and> z_queue z' = z_queue z \<and> z_locs z' = z_locs z \<and> pn_unres z' = pn_unres z \<and>
     pn_two z' = pn_two z \<and> pn_five z' = pn_five z \<and> pn_sizes z' = pn_sizes z \<and> pn_sleds z' = pn_sleds z"

lemma same_but_refl [simp]: "same_but z z"
  by (simp add: same_but_def)

lemma same_but_trans: "same_but x y \<Longrightarrow> same_but y z \<Longrightarrow> same_but x z"
  by (simp add: same_but_def)

lemma same_butI [simp]: "same_but z (z\<lparr>z_ms := m\<rparr>)" "same_but z (z\<lparr>z_ms := m, pn_in_sled := s\<rparr>)"
  "same_but z (z\<lparr>pn_in_sled := s, z_ms := m\<rparr>)"
  by (simp_all add: same_but_def)

lemma same_butD:
  assumes "same_but z z'"
  shows "z_ir z' = z_ir z" "pn_sizes z' = pn_sizes z" "z_patch_at z' = z_patch_at z" "pn_five z' = pn_five z"
    "pn_sleds z' = pn_sleds z" "pn_two z' = pn_two z" "FindPinnedInsnAtAddr x z' = FindPinnedInsnAtAddr x z"
    "FindPatchTargetAtAddr x z' = FindPatchTargetAtAddr x z" "FindPatch x z' = FindPatch x z" "sled_blocked z' x = sled_blocked z x"
  using assms by (auto simp: same_but_def FindPinnedInsnAtAddr_def FindPatchTargetAtAddr_def FindPatch_def sled_blocked_def)

lemma ms_put_free [simp]: "ms_ok (ms_put x b m) = ms_ok m" "free_set (ms_put x b m) = free_set m"
  by (simp_all add: ms_ok_def free_set_def ms_put_def)

lemma mem_ok_free [simp]: "mem_ok z \<Longrightarrow> IsByteFree x (z_ms z) \<longleftrightarrow> x \<in> fr z"
  by (simp add: IsByteFree_iff mem_ok_def)

lemma merge_byte_ok:
  assumes "mem_ok z" "x \<noteq> 0" "x \<noteq> - 1"
  shows "\<exists>z'. merge_byte x z = Inr z' \<and> mem_ok z' \<and> same_but z z' \<and> bytes z' = bytes z \<and>
    pn_in_sled z' = pn_in_sled z \<and> fr z' = insert x (fr z)"
proof (cases "x \<in> fr z")
  case True
  then show ?thesis using assms by (auto simp: merge_byte_def IsByteFree_iff mem_ok_def)
next
  case False
  have room: "insert x (fr z) \<noteq> UNIV" using assms by (auto simp: mem_ok_def)
  have ok: "ms_ok (z_ms z)" using assms(1) by (simp add: mem_ok_def)
  obtain m where m: "MergeFreeRange x (z_ms z) = Inr m" "ms_ok m" "only_free (z_ms z) m" "free_set m = insert x (fr z)"
    by (rule MergeFreeRange_ok [OF ok False assms(2,3) room]) (rule that)
  have "merge_byte x z = Inr (z\<lparr>z_ms := m\<rparr>)"
    using False assms(1) m(1) by (simp add: merge_byte_def merge_at_def on_ms_def IsByteFree_iff mem_ok_def)
  then show ?thesis using m(2,4) only_freeD(1) [OF m(3)] assms by (simp add: mem_ok_def)
qed

lemma merge_bytes_ok:
  assumes "mem_ok z" "0 \<notin> set xs" "- 1 \<notin> set xs"
  shows "\<exists>z'. foldR merge_byte xs z = Inr z' \<and> mem_ok z' \<and> same_but z z' \<and> bytes z' = bytes z \<and>
    pn_in_sled z' = pn_in_sled z \<and> fr z' = set xs \<union> fr z"
  using assms
proof (induction xs arbitrary: z)
  case (Cons x xs)
  have "x \<noteq> 0" "x \<noteq> - 1" using Cons.prems(2,3) by auto
  then obtain z1 where 1: "merge_byte x z = Inr z1" "mem_ok z1" "same_but z z1" "bytes z1 = bytes z"
      "pn_in_sled z1 = pn_in_sled z" "fr z1 = insert x (fr z)" using merge_byte_ok [OF Cons.prems(1)] by blast
  have "0 \<notin> set xs" "- 1 \<notin> set xs" using Cons.prems(2,3) by auto
  then obtain z2 where 2: "foldR merge_byte xs z1 = Inr z2" "mem_ok z2" "same_but z1 z2" "bytes z2 = bytes z1"
      "pn_in_sled z2 = pn_in_sled z1" "fr z2 = set xs \<union> fr z1" using Cons.IH [OF 1(2)] by blast
  then show ?case using 1 same_but_trans [OF 1(3) 2(3)] by simp
qed simp

lemma clear_byte_eq:
  assumes "mem_ok z" "x \<noteq> 0" "x \<noteq> - 1"
  shows "clear_byte x z = merge_byte x z"
proof -
  have l: "loop_addrs (mk_range x (x + 1)) = [x]" by (simp add: loop_addrs_def addrs_def)
  then have e: "(if IsByteFree x (z_ms z) then Inr z else on_ms (MergeFreeRange_range (mk_range x (x + 1))) z) = merge_byte x z"
    by (cases "MergeFreeRange x (z_ms z)") (simp_all add: merge_byte_def merge_at_def on_ms_def MergeFreeRange_range_def)
  obtain z' where z': "merge_byte x z = Inr z'" "mem_ok z'" "fr z' = insert x (fr z)"
    using merge_byte_ok [OF assms] by blast
  then show ?thesis unfolding clear_byte_def e by (simp add: IsByteFree_iff mem_ok_def)
qed

text \<open>A loop that writes one byte after the other and claims it.\<close>

lemma write_fold:
  fixes f :: "'k \<Rightarrow> pinner \<Rightarrow> pinner result"
  assumes step: "\<And>k z. k \<in> set ks \<Longrightarrow> mem_ok z \<Longrightarrow> (need \<longrightarrow> key k \<in> fr z) \<Longrightarrow>
      \<exists>z'. f k z = Inr z' \<and> mem_ok z' \<and> same_but z z' \<and> bytes z' = (bytes z)(key k \<mapsto> val k) \<and>
        fr z' = fr z - {key k} \<and> pn_in_sled z' = (\<lambda>x. pn_in_sled z x \<or> marks \<and> x = key k)"
    and "distinct (map key ks)" "mem_ok z" "need \<longrightarrow> key ` set ks \<subseteq> fr z"
  shows "\<exists>z'. foldR f ks z = Inr z' \<and> mem_ok z' \<and> same_but z z' \<and>
    (\<forall>k \<in> set ks. bytes z' (key k) = Some (val k)) \<and> (\<forall>x. x \<notin> key ` set ks \<longrightarrow> bytes z' x = bytes z x) \<and>
    fr z' = fr z - key ` set ks \<and> pn_in_sled z' = (\<lambda>x. pn_in_sled z x \<or> marks \<and> x \<in> key ` set ks)"
  using assms
proof (induction ks arbitrary: z)
  case (Cons k ks)
  have "need \<longrightarrow> key k \<in> fr z" using Cons.prems(4) by auto
  from Cons.prems(1) [OF list.set_intros(1) Cons.prems(3) this]
  obtain z1 where 1: "f k z = Inr z1" "mem_ok z1" "same_but z z1" "bytes z1 = (bytes z)(key k \<mapsto> val k)"
      "fr z1 = fr z - {key k}" "pn_in_sled z1 = (\<lambda>x. pn_in_sled z x \<or> marks \<and> x = key k)" by blast
  have k: "key k \<notin> key ` set ks" using Cons.prems(2) by simp
  have "need \<longrightarrow> key ` set ks \<subseteq> fr z1" using Cons.prems(4) k unfolding 1(5) list.set image_insert by blast
  moreover have "distinct (map key ks)" using Cons.prems(2) by simp
  ultimately obtain z2 where 2: "foldR f ks z1 = Inr z2" "mem_ok z2" "same_but z1 z2"
      "\<forall>k \<in> set ks. bytes z2 (key k) = Some (val k)" "\<forall>x. x \<notin> key ` set ks \<longrightarrow> bytes z2 x = bytes z1 x"
      "fr z2 = fr z1 - key ` set ks" "pn_in_sled z2 = (\<lambda>x. pn_in_sled z1 x \<or> marks \<and> x \<in> key ` set ks)"
    using Cons.IH [OF Cons.prems(1) _ 1(2)] by fastforce
  have "foldR f (k # ks) z = Inr z2" using 1(1) 2(1) by simp
  moreover have "\<forall>j \<in> set (k # ks). bytes z2 (key j) = Some (val j)" using 1(4) 2(4,5) k by simp
  moreover have "\<forall>x. x \<notin> key ` set (k # ks) \<longrightarrow> bytes z2 x = bytes z x" using 1(4) 2(5) by simp
  moreover have "fr z2 = fr z - key ` set (k # ks)" using 1(5) 2(6) by auto
  moreover have "pn_in_sled z2 = (\<lambda>x. pn_in_sled z x \<or> marks \<and> x \<in> key ` set (k # ks))"
    unfolding 2(7) 1(6) by auto
  ultimately show ?case using 2(2) same_but_trans [OF 1(3) 2(3)] by blast
qed simp

lemma split_put:
  assumes "mem_ok z" "x \<in> fr z"
  obtains m where "SplitFreeRange x (ms_put x b (z_ms z)) = Inr m" "ms_ok m" "ms_bytes m = (bytes z)(x \<mapsto> b)"
    "free_set m = fr z - {x}"
proof -
  have ok: "ms_ok (ms_put x b (z_ms z))" "x \<in> free_set (ms_put x b (z_ms z))" using assms by (simp_all add: mem_ok_def)
  obtain m where m: "SplitFreeRange x (ms_put x b (z_ms z)) = Inr m" "ms_ok m" "only_free (ms_put x b (z_ms z)) m"
      "free_set m = free_set (ms_put x b (z_ms z)) - {x}" by (rule SplitFreeRange_ok [OF ok]) (rule that)
  show ?thesis
  proof (rule that)
    show "SplitFreeRange x (ms_put x b (z_ms z)) = Inr m" "ms_ok m" by (rule m)+
    show "ms_bytes m = (bytes z)(x \<mapsto> b)" using only_freeD(1) [OF m(3)] by (simp add: ms_put_def)
    show "free_set m = fr z - {x}" using m(4) by simp
  qed
qed

lemma free_put [simp]: "mem_ok z \<Longrightarrow> IsByteFree x (ms_put y b (z_ms z)) \<longleftrightarrow> x \<in> fr z"
  by (simp add: IsByteFree_iff mem_ok_def)

lemma sled_push_byte_ok:
  assumes "mem_ok z"
  shows "\<exists>z'. sled_push_byte x z = Inr z' \<and> mem_ok z' \<and> same_but z z' \<and> bytes z' = (bytes z)(x \<mapsto> 0x68) \<and>
    fr z' = fr z - {x} \<and> pn_in_sled z' = (\<lambda>y. pn_in_sled z y \<or> True \<and> y = x)"
proof (cases "x \<in> fr z")
  case True
  from split_put [OF assms True] obtain m where m: "SplitFreeRange x (ms_put x 0x68 (z_ms z)) = Inr m" "ms_ok m"
      "ms_bytes m = (bytes z)(x \<mapsto> 0x68)" "free_set m = fr z - {x}" .
  then show ?thesis using True assms
    by (auto simp: sled_push_byte_def put_def mark_sled_def split_at_def on_ms_def mem_ok_def fun_eq_iff)
next
  case False
  then show ?thesis using assms
    by (auto simp: sled_push_byte_def put_def mark_sled_def mem_ok_def fun_eq_iff) (auto simp: ms_put_def)
qed

lemma sled_nop_byte_ok:
  assumes "mem_ok z" "x \<in> fr z"
  shows "\<exists>z'. sled_nop_byte x z = Inr z' \<and> mem_ok z' \<and> same_but z z' \<and> bytes z' = (bytes z)(x \<mapsto> 0x90) \<and>
    fr z' = fr z - {x} \<and> pn_in_sled z' = (\<lambda>y. pn_in_sled z y \<or> True \<and> y = x)"
proof -
  from split_put [OF assms] obtain m where m: "SplitFreeRange x (ms_put x 0x90 (z_ms z)) = Inr m" "ms_ok m"
      "ms_bytes m = (bytes z)(x \<mapsto> 0x90)" "free_set m = fr z - {x}" .
  then show ?thesis using assms
    by (auto simp: sled_nop_byte_def put_def mark_sled_def split_at_def on_ms_def mem_ok_def fun_eq_iff IsByteFree_iff)
qed

lemma sled_jmp_byte_ok:
  assumes "mem_ok z" "fst p \<in> fr z"
  shows "\<exists>z'. sled_jmp_byte p z = Inr z' \<and> mem_ok z' \<and> same_but z z' \<and> bytes z' = (bytes z)(fst p \<mapsto> snd p) \<and>
    fr z' = fr z - {fst p} \<and> pn_in_sled z' = (\<lambda>y. pn_in_sled z y \<or> False \<and> y = fst p)"
proof -
  obtain x b where p: "p = (x, b)" by (cases p)
  from split_put [OF assms(1), of x b] assms(2) obtain m where m: "SplitFreeRange x (ms_put x b (z_ms z)) = Inr m" "ms_ok m"
      "ms_bytes m = (bytes z)(x \<mapsto> b)" "free_set m = fr z - {x}" by (auto simp: p)
  then show ?thesis using assms
    by (auto simp: p sled_jmp_byte_def put_def split_at_def on_ms_def mem_ok_def IsByteFree_iff)
qed

section \<open>Clearing the place of a sled\<close>

lemma addrs_iff:
  assumes "unat a + n < 2 ^ 64"
  shows "x \<in> set (addrs a n) \<longleftrightarrow> a \<le> x \<and> unat x < unat a + n"
proof
  assume "x \<in> set (addrs a n)"
  then obtain k where k: "k < n" "x = a + of_nat k" by (auto simp: set_addrs)
  then have "unat x = unat a + k" using assms by (simp add: unat_word_ariths unat_of_nat)
  then show "a \<le> x \<and> unat x < unat a + n" using k(1) by (simp add: word_le_nat_alt)
next
  assume x: "a \<le> x \<and> unat x < unat a + n"
  then have "unat (x - a) = unat x - unat a" by (simp add: unat_sub)
  then have "unat (x - a) < n" using x unfolding word_le_nat_alt by linarith
  moreover have "x = a + of_nat (unat (x - a))" by simp
  ultimately show "x \<in> set (addrs a n)" unfolding set_addrs by blast
qed

lemma addrs_safe:
  assumes "unat a + n < 2 ^ 64" "a \<noteq> 0"
  shows "0 \<notin> set (addrs a n)" "- 1 \<notin> set (addrs a n)"
proof -
  show "0 \<notin> set (addrs a n)" using assms by (simp add: addrs_iff word_le_nat_alt unat_eq_zero)
  have "unat (- 1 :: addr) = 2 ^ 64 - 1" by (simp add: unsigned_minus_1_eq_mask mask_eq_exp_minus_1)
  then show "- 1 \<notin> set (addrs a n)" using assms(1) unfolding addrs_iff [OF assms(1)] by linarith
qed

lemma clear_bytes_eq:
  assumes "mem_ok z" "0 \<notin> set xs" "- 1 \<notin> set xs"
  shows "foldR clear_byte xs z = foldR merge_byte xs z"
  using assms
proof (induction xs arbitrary: z)
  case (Cons x xs)
  have x: "x \<noteq> 0" "x \<noteq> - 1" using Cons.prems(2,3) by auto
  obtain z' where "merge_byte x z = Inr z'" "mem_ok z'" using merge_byte_ok [OF Cons.prems(1) x] by blast
  then show ?case using clear_byte_eq [OF Cons.prems(1) x] Cons.IH [of z'] Cons.prems(2,3) by simp
qed simp

definition pins_sized :: "pinner \<Rightarrow> bool" where
  "pins_sized z \<longleftrightarrow> (\<forall>x i n. pn_sizes z x = Some (i, n) \<longrightarrow> n \<le> 9)"

definition cleared :: "pinner \<Rightarrow> pinner \<Rightarrow> addr set \<Rightarrow> bool" where
  "cleared z z' A \<longleftrightarrow> mem_ok z' \<and> same_but z z' \<and> bytes z' = bytes z \<and> pn_in_sled z' = pn_in_sled z \<and>
     fr z \<subseteq> fr z' \<and> fr z' \<subseteq> fr z \<union> A"

lemma Clear68Point_ok:
  assumes z: "mem_ok z" "pins_sized z" and x: "sled_blocked z x" "r_start r \<le> x" "x < r_end r"
    and r: "r_start r \<noteq> 0" "unat (r_end r) + 9 < 2 ^ 64"
  shows "\<exists>z'. Clear68Point r x z = Inr z' \<and> cleared z z' {r_start r..<r_end r}"
proof -
  define step where "step = (if FindPatchTargetAtAddr x z \<noteq> None
               then mapR (\<lambda>p. patch_getSize (snd p)) (FindPatch x z)
               else if FindPinnedInsnAtAddr x z \<noteq> None then Inr (of_nat (snd (the (pn_sizes z x))))
               else Inl AssertFail)"
  have "\<exists>cs. step = Inr cs \<and> unat cs \<le> 9"
  proof (cases "z_patch_at z x")
    case (Some p)
    have "unat (patch_getSize (snd p)) \<le> 9" by (simp add: patch_getSize_def split: UnresolvedType_t.splits)
    then show ?thesis using Some by (simp add: step_def FindPatchTargetAtAddr_def FindPatch_def mapR_def)
  next
    case None
    then obtain i n where "pn_sizes z x = Some (i, n)" "i \<noteq> None"
      using x(1) by (auto simp: sled_blocked_def FindPatchTargetAtAddr_def FindPinnedInsnAtAddr_def split: option.splits)
    moreover from this have "n \<le> 9" using z(2) unfolding pins_sized_def by blast
    ultimately show ?thesis
      using None by (auto simp: step_def FindPatchTargetAtAddr_def FindPinnedInsnAtAddr_def unat_of_nat)
  qed
  then obtain cs where cs: "step = Inr cs" "unat cs \<le> 9" by blast
  let ?e = "min (r_end r) (x + cs)"
  have xe: "unat x < unat (r_end r)" using x(3) by (simp add: word_less_nat_alt)
  then have sum: "unat (x + cs) = unat x + unat cs" using cs(2) r(2) by (subst unat_plus_simple [THEN iffD1]) (auto simp: word_le_nat_alt unat_word_ariths)
  then have e: "unat ?e \<le> unat (r_end r)" "x \<le> ?e"
    using xe by (auto simp: min_def word_le_nat_alt)
  then have d: "unat (?e - x) = unat ?e - unat x" by (simp add: unat_sub)
  let ?xs = "addrs x (unat (?e - x))"
  have lim: "unat x + unat (?e - x) < 2 ^ 64" using e d r(2) by (simp add: word_le_nat_alt)
  have x0: "x \<noteq> 0" using x(2) r(1) by (auto simp: word_le_nat_alt unat_eq_zero)
  note safe = addrs_safe [OF lim x0]
  have sub: "set ?xs \<subseteq> {r_start r..<r_end r}"
  proof
    fix y assume "y \<in> set ?xs"
    then have "unat x \<le> unat y" "unat y < unat x + unat (?e - x)" by (simp_all only: addrs_iff [OF lim] word_le_nat_alt)
    then show "y \<in> {r_start r..<r_end r}"
      using x(2) e unfolding d atLeastLessThan_iff word_le_nat_alt word_less_nat_alt by linarith
  qed
  obtain z' where z': "foldR merge_byte ?xs z = Inr z'" "mem_ok z'" "same_but z z'" "bytes z' = bytes z"
      "pn_in_sled z' = pn_in_sled z" "fr z' = set ?xs \<union> fr z" using merge_bytes_ok [OF z(1) safe] by blast
  have "Clear68Point r x z = bindR step (\<lambda>clear_size.
      let clear_size = min (r_end r) (x + clear_size) - x in foldR clear_byte (addrs x (unat clear_size)) z)"
    using x(2) less_imp_le [OF x(3)] by (simp add: Clear68Point_def step_def)
  then have "Clear68Point r x z = Inr z'"
    using cs(1) clear_bytes_eq [OF z(1) safe] z'(1) by simp
  then show ?thesis using z'(2-6) sub unfolding cleared_def by blast
qed

lemma cleared_refl: "mem_ok z \<Longrightarrow> cleared z z A"
  by (simp add: cleared_def)

lemma cleared_trans: "cleared x y A \<Longrightarrow> cleared y z A \<Longrightarrow> cleared x z A"
  unfolding cleared_def using same_but_trans by auto

lemma Clear68Points_ok:
  assumes "mem_ok z" "pins_sized z" "\<And>x. x \<in> set xs \<Longrightarrow> sled_blocked z x \<and> r_start r \<le> x \<and> x < r_end r"
    and r: "r_start r \<noteq> 0" "unat (r_end r) + 9 < 2 ^ 64"
  shows "\<exists>z'. foldR (Clear68Point r) xs z = Inr z' \<and> cleared z z' {r_start r..<r_end r}"
  using assms(1-3)
proof (induction xs arbitrary: z)
  case Nil
  then show ?case by (simp add: cleared_refl)
next
  case (Cons x xs)
  obtain z1 where 1: "Clear68Point r x z = Inr z1" "cleared z z1 {r_start r..<r_end r}"
    using Clear68Point_ok [OF Cons.prems(1,2) _ _ _ r, of x] Cons.prems(3) [of x] by auto
  then have m: "mem_ok z1" and s: "same_but z z1" by (simp_all add: cleared_def)
  have "pins_sized z1" using Cons.prems(2) by (simp add: pins_sized_def same_butD(2) [OF s])
  moreover have "sled_blocked z1 y \<and> r_start r \<le> y \<and> y < r_end r" if "y \<in> set xs" for y
    using Cons.prems(3) [of y] that by (simp add: same_butD(10) [OF s])
  ultimately obtain z2 where "foldR (Clear68Point r) xs z1 = Inr z2" "cleared z1 z2 {r_start r..<r_end r}"
    using Cons.IH [OF m] by blast
  then show ?case using 1 cleared_trans by auto
qed

section \<open>Jump points\<close>

lemma lt_addrs_iff: "x \<in> set (lt_addrs s e) \<longleftrightarrow> s \<le> x \<and> x < e"
proof (cases "s < e")
  case True
  then have u: "unat (e - s) = unat e - unat s" by (simp add: unat_sub order.strict_implies_order)
  have "unat s + unat (e - s) < 2 ^ 64" using True unat_addr_less [of e] unfolding u by (simp add: word_less_nat_alt)
  then show ?thesis using True unfolding lt_addrs_def by (simp add: addrs_iff u word_less_nat_alt)
next
  case False
  then show ?thesis by (auto simp: lt_addrs_def)
qed

lemma InsertJumpPoints_ok:
  assumes "sled_ok s"
  shows "sled_ok (InsertJumpPoints68SledArea s z)" "s_range (InsertJumpPoints68SledArea s z) = s_range s"
    "s_disambiguation (InsertJumpPoints68SledArea s z) = s_disambiguation s"
    "set (s_jmp_pts (InsertJumpPoints68SledArea s z)) =
      set (s_jmp_pts s) \<union> {x. r_start (s_range s) \<le> x \<and> x < r_end (s_range s) \<and> sled_blocked z x}"
proof -
  define ins where "ins = fold (\<lambda>a sled. if sled_blocked z a then AddJumpPoint a sled else sled)"
  have "sled_ok (ins xs s) \<and> s_range (ins xs s) = s_range s \<and> s_disambiguation (ins xs s) = s_disambiguation s \<and>
      set (s_jmp_pts (ins xs s)) = set (s_jmp_pts s) \<union> {x \<in> set xs. sled_blocked z x}" for xs
    using assms unfolding ins_def by (induction xs arbitrary: s) auto
  then show "sled_ok (InsertJumpPoints68SledArea s z)" "s_range (InsertJumpPoints68SledArea s z) = s_range s"
    "s_disambiguation (InsertJumpPoints68SledArea s z) = s_disambiguation s"
    "set (s_jmp_pts (InsertJumpPoints68SledArea s z)) =
      set (s_jmp_pts s) \<union> {x. r_start (s_range s) \<le> x \<and> x < r_end (s_range s) \<and> sled_blocked z x}"
    by (auto simp: InsertJumpPoints68SledArea_def ins_def [symmetric] lt_addrs_iff)
qed

section \<open>A new sled\<close>

text \<open>The state after a sled was laid at \<open>a\<close>.\<close>

definition sled_laid :: "addr \<Rightarrow> nat \<Rightarrow> pinner \<Rightarrow> bool" where
  "sled_laid a n z \<longleftrightarrow>
     (\<forall>k < n. bytes z (a + of_nat k) = Some 0x68) \<and>
     (\<forall>k < 4. bytes z (a + of_nat n + of_nat k) = Some 0x90) \<and>
     (\<forall>k < 5. bytes z (a + of_nat n + 4 + of_nat k) = Some (jmp_rel32_bytes ! k)) \<and>
     (\<forall>k < n + 9. a + of_nat k \<notin> fr z) \<and> (\<forall>k < n + 4. pn_in_sled z (a + of_nat k))"

lemma lay_sled_ok:
  assumes z: "mem_ok z" "pins_sized z" and a: "a \<noteq> 0" "unat a + n + 9 < 2 ^ 64"
    and f: "ir_fresh (z_ir z)" and bits: "bits = 32 \<or> bits = 64"
  defines "s \<equiv> InsertJumpPoints68SledArea (mk_sled (mk_range a (a + of_nat n))) z"
    and "pin \<equiv> \<lambda>x. FindPinnedInsnAtAddr x z" and "patch \<equiv> \<lambda>x. FindPatchTargetAtAddr x z"
    and "j \<equiv> a + of_nat n + 4"
  obtains z' tp f' where "lay_sled bits a n (mk_sled (mk_range a (a + of_nat n))) z = Inr (a + of_nat n + 9, z')"
    "Emit68Sled bits pin patch s (z_ir z) = Inr (tp, f')" "z_ir z' = f'" "mem_ok z'" "sled_laid a n z'"
    "pn_five z' = map_assign upin_less ((mk_upin tp)\<lparr>up_updated := j\<rparr>) j (pn_five z)"
    "pn_sleds z' = set_insert sled_less (s\<lparr>s_disambiguation := Some tp\<rparr>) (pn_sleds z)"
    "pn_sizes z' = pn_sizes z" "z_patch_at z' = z_patch_at z" "pn_two z' = pn_two z"
    "\<forall>x. x \<notin> set (addrs a (n + 9)) \<longrightarrow> bytes z' x = bytes z x \<and> (x \<in> fr z' \<longleftrightarrow> x \<in> fr z) \<and> pn_in_sled z' x = pn_in_sled z x"
    "sled_placed pin patch s"
proof -
  let ?e = "a + of_nat n"
  have ue: "unat ?e = unat a + n" using a(2) by (simp add: unat_word_ariths unat_of_nat)
  have s: "sled_ok s" "s_range s = mk_range a ?e"
      "set (s_jmp_pts s) = {x. a \<le> x \<and> x < ?e \<and> sled_blocked z x}"
    using InsertJumpPoints_ok [OF sled_ok_mk, of "mk_range a ?e" z] unfolding s_def [symmetric]
    by (simp_all add: mk_sled_def mk_range_def)
  have placed: "sled_placed pin patch s"
    using s by (auto simp: sled_placed_def sled_target_def pin_def patch_def sled_blocked_def mk_range_def split: option.splits)
  have rr: "r_start (mk_range a ?e) \<noteq> 0" "unat (r_end (mk_range a ?e)) + 9 < 2 ^ 64"
    using a ue by (simp_all add: mk_range_def)
  have "sled_blocked z x \<and> r_start (mk_range a ?e) \<le> x \<and> x < r_end (mk_range a ?e)" if "x \<in> set (s_jmp_pts s)" for x
    using that s(3) by (simp add: mk_range_def)
  from Clear68Points_ok [OF z this rr] obtain z1 where
    1: "Clear68SledArea s z = Inr z1" "cleared z z1 {a..<?e}"
    unfolding Clear68SledArea_def s(2) by (auto simp: mk_range_def)
  have c1: "mem_ok z1" "same_but z z1" "bytes z1 = bytes z" "pn_in_sled z1 = pn_in_sled z"
    "fr z \<subseteq> fr z1" "fr z1 \<subseteq> fr z \<union> {a..<?e}" using 1(2) by (simp_all add: cleared_def)
  have all: "unat a + (n + 9) < 2 ^ 64" "unat ?e + 9 < 2 ^ 64" "unat a + n < 2 ^ 64" "unat ?e + 4 < 2 ^ 64"
    using a(2) ue by simp_all
  have e0: "?e \<noteq> 0" using ue a(1) by (auto simp: unat_eq_zero [symmetric])
  let ?O = "addrs ?e 9"
  obtain z2 where 2: "foldR merge_byte ?O z1 = Inr z2" "mem_ok z2" "same_but z1 z2" "bytes z2 = bytes z1"
      "pn_in_sled z2 = pn_in_sled z1" "fr z2 = set ?O \<union> fr z1"
    using merge_bytes_ok [OF c1(1) addrs_safe [OF all(2) e0]] by blast
  let ?P = "addrs a n"
  have dP: "distinct (map id ?P)" using all(3) by (simp add: distinct_addrs)
  obtain z3 where 3: "foldR sled_push_byte ?P z2 = Inr z3" "mem_ok z3" "same_but z2 z3"
      "\<forall>k \<in> set ?P. bytes z3 k = Some 0x68" "\<forall>x. x \<notin> set ?P \<longrightarrow> bytes z3 x = bytes z2 x"
      "fr z3 = fr z2 - set ?P" "pn_in_sled z3 = (\<lambda>x. pn_in_sled z2 x \<or> x \<in> set ?P)"
    using write_fold [of ?P False id sled_push_byte "\<lambda>_. 0x68" True z2, OF _ dP 2(2)] sled_push_byte_ok by (auto simp: id_def)
  have app: "?O = addrs ?e 4 @ addrs j 5" using addrs_append [of ?e 4 5] by (simp add: j_def)
  have dO: "distinct ?O" by (rule distinct_addrs) simp
  have disj: "set ?P \<inter> set ?O = {}"
    using ue by (auto simp: addrs_iff [OF all(3)] addrs_iff [OF all(2)] word_le_nat_alt)
  let ?N = "addrs ?e 4"
  have dN: "distinct (map id ?N)" "set ?N \<subseteq> fr z3" "set ?N \<inter> set (addrs j 5) = {}"
    using dO disj unfolding app 3(6) 2(6) by auto
  obtain z4 where 4: "foldR sled_nop_byte ?N z3 = Inr z4" "mem_ok z4" "same_but z3 z4"
      "\<forall>k \<in> set ?N. bytes z4 k = Some 0x90" "\<forall>x. x \<notin> set ?N \<longrightarrow> bytes z4 x = bytes z3 x"
      "fr z4 = fr z3 - set ?N" "pn_in_sled z4 = (\<lambda>x. pn_in_sled z3 x \<or> x \<in> set ?N)"
    using write_fold [of ?N True id sled_nop_byte "\<lambda>_. 0x90" True z3, OF _ dN(1) 3(2)] sled_nop_byte_ok dN(2) by (auto simp: id_def)
  have s4: "same_but z z4" using c1(2) 2(3) 3(3) 4(3) same_but_trans by blast
  note b4 = same_butD [OF s4]
  from Emit68Sled_run [OF placed f bits] obtain tp f' where em: "Emit68Sled bits pin patch s (z_ir z) = Inr (tp, f')"
    by metis
  let ?z5 = "z4\<lparr>z_ir := f'\<rparr>"
  have "emit_sled bits s z4 = Inr (tp, ?z5)"
    using em by (simp add: emit_sled_def b4 pin_def patch_def)
  let ?J = "zip (addrs j 5) jmp_rel32_bytes"
  have lJ: "map fst ?J = addrs j 5" "fst ` set ?J = set (addrs j 5)"
    by (simp_all add: jmp_rel32_bytes_def set_map [symmetric] del: set_map)
  have dJ: "distinct (map fst ?J)" using dO unfolding lJ app by simp
  have f5: "fr ?z5 = fr z4" by simp
  have sJ: "fst ` set ?J \<subseteq> fr ?z5" using disj dN(3) unfolding f5 lJ app 4(6) 3(6) 2(6) by auto
  have m5: "mem_ok ?z5" using 4(2) by (simp add: mem_ok_def)
  obtain z6 where 6: "foldR sled_jmp_byte ?J ?z5 = Inr z6" "mem_ok z6" "same_but ?z5 z6"
      "\<forall>k \<in> set ?J. bytes z6 (fst k) = Some (snd k)" "\<forall>x. x \<notin> set (addrs j 5) \<longrightarrow> bytes z6 x = bytes z4 x"
      "fr z6 = fr z4 - set (addrs j 5)" "pn_in_sled z6 = pn_in_sled z4"
    using write_fold [of ?J True fst sled_jmp_byte snd False ?z5, OF _ dJ m5] sled_jmp_byte_ok sJ unfolding lJ by auto
  let ?s = "s\<lparr>s_disambiguation := Some tp\<rparr>" and ?cup = "(mk_upin tp)\<lparr>up_updated := j\<rparr>"
  define z7 where "z7 = (five_assign ?cup j z6)\<lparr>pn_sleds := set_insert sled_less ?s (pn_sleds z6)\<rparr>"
  note b6 = same_butD [OF 6(3)]
  have z7: "z_ms z7 = z_ms z6" "z_ir z7 = f'" "pn_in_sled z7 = pn_in_sled z6"
    "pn_five z7 = map_assign upin_less ?cup j (pn_five z)" "pn_sleds z7 = set_insert sled_less ?s (pn_sleds z)"
    "pn_sizes z7 = pn_sizes z" "z_patch_at z7 = z_patch_at z" "pn_two z7 = pn_two z"
    using b6 b4 by (simp_all add: z7_def five_assign_def)
  have mem: "k \<in> set (addrs a (n + 9)) \<longleftrightarrow> k \<in> set ?P \<or> k \<in> set ?N \<or> k \<in> set (addrs j 5)" for k
    using addrs_append [of a n 9] app by auto
  have run: "lay_sled bits a n (mk_sled (mk_range a ?e)) z = Inr (a + of_nat n + 9, z7)"
    using 1(1) 2(1) 3(1) 4(1) \<open>emit_sled bits s z4 = Inr (tp, ?z5)\<close> 6(1)
    by (simp add: lay_sled_def Let_def s_def [symmetric] nop_overhead_def jmp_overhead_def z7_def j_def
        five_assign_def)
  have jp: "\<forall>k < 5. bytes z7 (a + of_nat n + 4 + of_nat k) = Some (jmp_rel32_bytes ! k)"
  proof (intro allI impI)
    fix k :: nat assume "k < 5"
    then have "(j + of_nat k, jmp_rel32_bytes ! k) \<in> set ?J"
      by (auto simp: set_zip addrs_def jmp_rel32_bytes_def intro!: exI [of _ k])
    from 6(4) [rule_format, OF this] show "bytes z7 (a + of_nat n + 4 + of_nat k) = Some (jmp_rel32_bytes ! k)"
      by (simp add: z7(1) j_def)
  qed
  have np: "\<forall>k < 4. bytes z7 (a + of_nat n + of_nat k) = Some 0x90"
  proof (intro allI impI)
    fix k :: nat assume "k < 4"
    then have k: "a + of_nat n + of_nat k \<in> set ?N" unfolding set_addrs by blast
    then have "bytes z6 (a + of_nat n + of_nat k) = bytes z4 (a + of_nat n + of_nat k)" using 6(5) dN(3) by blast
    then show "bytes z7 (a + of_nat n + of_nat k) = Some 0x90" using 4(4) k by (simp add: z7(1))
  qed
  have ps: "\<forall>k < n. bytes z7 (a + of_nat k) = Some 0x68"
  proof (intro allI impI)
    fix k assume "k < n"
    then have k: "a + of_nat k \<in> set ?P" unfolding set_addrs by blast
    then have k': "a + of_nat k \<notin> set ?N" "a + of_nat k \<notin> set (addrs j 5)" using disj unfolding app by auto
    show "bytes z7 (a + of_nat k) = Some 0x68"
      using 6(5) [rule_format, OF k'(2)] 4(5) [rule_format, OF k'(1)] 3(4) [rule_format, OF k] by (simp add: z7(1))
  qed
  have free: "fr z7 = fr z2 - set (addrs a (n + 9))"
    using mem unfolding z7(1) 6(6) 4(6) 3(6) by auto
  have out: "bytes z7 x = bytes z x \<and> (x \<in> fr z7 \<longleftrightarrow> x \<in> fr z) \<and> pn_in_sled z7 x = pn_in_sled z x"
    if x: "x \<notin> set (addrs a (n + 9))" for x
  proof -
    have x': "x \<notin> set ?P" "x \<notin> set ?N" "x \<notin> set (addrs j 5)" "x \<notin> set ?O" using x mem app by auto
    have "bytes z7 x = bytes z x"
      using 6(5) [rule_format, OF x'(3)] 4(5) [rule_format, OF x'(2)] 3(5) [rule_format, OF x'(1)] 2(4) c1(3)
      by (simp add: z7(1))
    moreover have "x \<notin> {a..<?e}" using x'(1) unfolding addrs_iff [OF all(3)] ue [symmetric] by (simp add: word_less_nat_alt)
    then have "x \<in> fr z7 \<longleftrightarrow> x \<in> fr z" using x x'(4) c1(5,6) unfolding free 2(6) by auto
    moreover have "pn_in_sled z7 x = pn_in_sled z x"
      using x' unfolding z7(3) 6(7) 4(7) 3(7) 2(5) c1(4) by simp
    ultimately show ?thesis by blast
  qed
  have marks: "pn_in_sled z7 (a + of_nat k)" if "k < n + 4" for k
  proof -
    have "a + of_nat k \<in> set (addrs a (n + 4))" using that unfolding set_addrs by blast
    then have "a + of_nat k \<in> set ?P \<or> a + of_nat k \<in> set ?N" unfolding addrs_append by simp
    then show ?thesis unfolding z7(3) 6(7) 4(7) 3(7) by blast
  qed
  have "sled_laid a n z7"
    unfolding sled_laid_def using ps np jp marks free by (auto simp: set_addrs)
  moreover have "mem_ok z7" using 6(2) by (simp add: mem_ok_def z7(1))
  ultimately show ?thesis using that [OF run em z7(2) _ _ z7(4,5,6,7,8) _ placed] out by blast
qed

section \<open>Properties\<close>

lemma map_assign_mem: "\<exists>k'. (k', v) \<in> set (map_assign upin_less k v xs) \<and> up_insn k' = up_insn k"
proof (induction xs)
  case (Cons y ys)
  obtain u w where y: "y = (u, w)" by (cases y)
  consider "up_insn u < up_insn k" | "up_insn k < up_insn u" | "up_insn u = up_insn k" by linarith
  then show ?case using Cons by cases (auto simp: y upin_less_def)
qed simp

text \<open>C27: \<open>Do68Sled\<close> works: where no sled is near, it returns the address after the sled's
  jump, the bytes of pushes, nops and jump are laid and claimed, nothing else in memory
  changes, and the jump is registered as a five-byte pin of the new dispatch code. A program
  that enters the sled at a pin or patch \<open>x\<close> runs through the bytes laid to that jump, and the
  dispatch code then continues at the instruction that belongs to \<open>x\<close> with the program's
  stack as it was (provided the stack does not itself look like pushed constants at an entry
  a multiple of five bytes earlier).\<close>

theorem Do68Sled_correct:
  assumes "mem_ok z" and "pins_sized z" and "a \<noteq> 0" and "unat a + n + 9 < 2 ^ 64" and "ir_fresh (z_ir z)"
    and "bits = 32 \<or> bits = 64" and "32 \<le> LENGTH('w::len)"
    and "Calc68SledSize fuel a 9 z = Inr n"
    and "find (\<lambda>s. sled_overlaps s (mk_sled (mk_range a (a + of_nat n)))) (pn_sleds z) = None"
    and "k < n" and "sled_target (\<lambda>x. FindPinnedInsnAtAddr x z) (\<lambda>x. FindPatchTargetAtAddr x z) (a + of_nat k) = Some t"
    and "\<And>i. i < k \<Longrightarrow> sled_blocked z (a + of_nat i) \<Longrightarrow> (k - i) mod 5 = 0 \<Longrightarrow>
           \<exists>w < (k - i) div 5. (S :: 'w stack) w \<noteq> scast (0x68686868 :: uint32)"
  shows "\<exists>z' tp up S' zf'. Do68Sled fuel bits a z = Inr (a + of_nat n + 9, z') \<and> mem_ok z' \<and> sled_laid a n z' \<and>
    (\<forall>x. x \<notin> set (addrs a (n + 9)) \<longrightarrow> bytes z' x = bytes z x \<and> IsByteFree x (z_ms z') = IsByteFree x (z_ms z)) \<and>
    (up, a + of_nat n + 4) \<in> set (pn_five z') \<and> up_insn up = tp \<and>
    cpu_run (n + 4) (\<lambda>i. ms_peek (a + of_nat i) (z_ms z')) (n + 4) (k, S) = Some (n + 4, S') \<and>
    ir_steps (int (bits div 8)) (z_ir z') (tp, zf, S') (t, zf', S)"
proof -
  let ?r = "mk_range a (a + of_nat n)"
  let ?s = "InsertJumpPoints68SledArea (mk_sled ?r) z" and ?pin = "\<lambda>x. FindPinnedInsnAtAddr x z"
    and ?patch = "\<lambda>x. FindPatchTargetAtAddr x z" and ?j = "a + of_nat n + 4"
  obtain z' tp f' where r: "lay_sled bits a n (mk_sled ?r) z = Inr (a + of_nat n + 9, z')"
      "Emit68Sled bits ?pin ?patch ?s (z_ir z) = Inr (tp, f')" "z_ir z' = f'" "mem_ok z'" "sled_laid a n z'"
      "pn_five z' = map_assign upin_less ((mk_upin tp)\<lparr>up_updated := ?j\<rparr>) ?j (pn_five z)"
      "pn_sleds z' = set_insert sled_less (?s\<lparr>s_disambiguation := Some tp\<rparr>) (pn_sleds z)"
      "pn_sizes z' = pn_sizes z" "z_patch_at z' = z_patch_at z" "pn_two z' = pn_two z"
      "\<forall>x. x \<notin> set (addrs a (n + 9)) \<longrightarrow> bytes z' x = bytes z x \<and> (x \<in> fr z' \<longleftrightarrow> x \<in> fr z) \<and> pn_in_sled z' x = pn_in_sled z x"
      "sled_placed ?pin ?patch ?s"
    using lay_sled_ok [OF assms(1-6)] .
  define s where "s = ?s"
  have placed: "sled_placed ?pin ?patch s" and em: "Emit68Sled bits ?pin ?patch s (z_ir z) = Inr (tp, f')"
    using r(2,12) by (simp_all only: s_def)
  have "nop_overhead + jmp_overhead = 9" by (simp add: nop_overhead_def jmp_overhead_def)
  then have run: "Do68Sled fuel bits a z = Inr (a + of_nat n + 9, z')"
    using assms(8,9) r(1) by (simp add: Do68Sled_def)
  obtain up where up: "(up, a + of_nat n + 4) \<in> set (pn_five z')" "up_insn up = tp"
    using map_assign_mem [of "a + of_nat n + 4" "(mk_upin tp)\<lparr>up_updated := a + of_nat n + 4\<rparr>" "pn_five z"]
    unfolding r(6) by (auto simp: mk_upin_def)
  have u: "unat (a + of_nat i) = unat a + i" if "i \<le> n" for i
    using assms(4) that by (simp add: unat_word_ariths unat_of_nat)
  let ?x = "a + of_nat k"
  have sr: "s_range s = ?r" "set (s_jmp_pts s) = {x. a \<le> x \<and> x < a + of_nat n \<and> sled_blocked z x}"
    using InsertJumpPoints_ok [OF sled_ok_mk, of ?r z] unfolding s_def [symmetric] by (simp_all add: mk_sled_def mk_range_def)
  have inr: "a \<le> ?x" "?x < a + of_nat n" using u [of k] u [of n] assms(10) by (simp_all add: word_le_nat_alt word_less_nat_alt)
  have x: "?x \<in> set (s_jmp_pts s)"
    using assms(11) inr unfolding sr(2) by (auto simp: sled_blocked_def sled_target_def split: option.splits)
  have dist: "sled_dist s ?x = n - k"
  proof -
    have "unat (a + of_nat n - ?x) = unat (a + of_nat n) - unat ?x" by (rule unat_sub) (use inr in order)
    then show ?thesis using u [of k] u [of n] assms(10) by (simp add: sled_dist_eq sr(1) mk_range_def)
  qed
  have other: "\<exists>w < unat (?x - b) div 5. S w \<noteq> scast (0x68686868 :: uint32)"
    if b: "b \<in> set (s_jmp_pts s)" "b < ?x" "unat (?x - b) mod 5 = 0" for b
  proof -
    have ab: "a \<le> b" "sled_blocked z b" using b(1) by (simp_all add: sr(2))
    let ?i = "unat b - unat a"
    have "(of_nat ?i :: addr) = of_nat (unat b) - of_nat (unat a)"
      by (rule of_nat_diff) (use ab(1) in \<open>simp add: word_le_nat_alt\<close>)
    then have bi: "b = a + of_nat ?i" by simp
    have ux: "unat ?x = unat a + k" by (rule u) (use assms(10) in simp)
    have lo: "unat a \<le> unat b" "unat b < unat a + k"
      using ab(1) b(2) unfolding word_le_nat_alt word_less_nat_alt ux .
    have "unat (?x - b) = unat ?x - unat b" by (rule unat_sub) (use b(2) in order)
    then have d: "unat (?x - b) = k - ?i" unfolding ux using lo by linarith
    have "?i < k" using lo by linarith
    moreover have "sled_blocked z (a + of_nat ?i)" using ab(2) bi by metis
    ultimately show ?thesis using assms(12) [of ?i] b(3) unfolding d by blast
  qed
  obtain tp2 f2 zf' where e2: "Emit68Sled bits ?pin ?patch s (z_ir z) = Inr (tp2, f2)"
      "ir_steps (int (bits div 8)) f2 (tp2, zf, push_all (pushed_values (n - k)) S) (the (sled_target ?pin ?patch ?x), zf', S)"
    using Emit68Sled_at_entry [OF placed assms(5,6,7) x other, of zf] unfolding dist by blast
  have "tp2 = tp" "f2 = f'" using e2(1) em by simp_all
  then have disp: "ir_steps (int (bits div 8)) f' (tp, zf, push_all (pushed_values (n - k)) S) (t, zf', S)"
    using e2(2) assms(11) by simp
  have "cpu_run (n + 4) (sled_byte n) (n + 4) (n - (n - k), S) = Some (n + 4, push_all (pushed_values (n - k)) S)"
    by (rule sled_run_aux) (use assms(10) in auto)
  then have c: "cpu_run (n + 4) (sled_byte n) (n + 4) (k, S) = Some (n + 4, push_all (pushed_values (n - k)) S)"
    using assms(10) by simp
  have m: "ms_peek (a + of_nat i) (z_ms z') = sled_byte n i" if "i < n + 4" for i
  proof (cases "i < n")
    case True
    then show ?thesis using r(5) by (simp add: sled_laid_def ms_peek_def sled_byte_def)
  next
    case False
    then have i: "i - n < 4" "a + of_nat n + of_nat (i - n) = a + of_nat i" using that by (simp_all add: of_nat_diff)
    then have "bytes z' (a + of_nat n + of_nat (i - n)) = Some 0x90" using r(5) unfolding sled_laid_def by blast
    then show ?thesis unfolding i(2) using False by (simp add: ms_peek_def sled_byte_def)
  qed
  have go: "cpu_run (n + 4) (\<lambda>i. ms_peek (a + of_nat i) (z_ms z')) (n + 4) (k, S) =
      Some (n + 4, push_all (pushed_values (n - k)) S)"
    by (rule cpu_run_cong [OF m c])
  have rest: "\<forall>x. x \<notin> set (addrs a (n + 9)) \<longrightarrow> bytes z' x = bytes z x \<and> IsByteFree x (z_ms z') = IsByteFree x (z_ms z)"
    using r(4,11) assms(1) by simp
  show ?thesis by (rule exI)+ (intro conjI, rule run, rule r(4), rule r(5), rule rest, rule up(1), rule up(2), rule go,
      unfold r(3), rule disp)
qed

theorem Do68Sled_correct_witness:
  "\<exists>z' tp up S' zf'. Do68Sled 4 64 0x180 pins_sample = Inr (0x18d, z') \<and> sled_laid 0x180 4 z' \<and>
    (up, 0x188) \<in> set (pn_five z') \<and> up_insn up = tp \<and>
    cpu_run 8 (\<lambda>i. ms_peek (0x180 + of_nat i) (z_ms z')) 8 (1, \<lambda>_. 0 :: 64 word) = Some (8, S') \<and>
    ir_steps 8 (z_ir z') (tp, False, S') (2, zf', \<lambda>_. 0)"
proof -
  have b: "sled_blocked pins_sample x \<longleftrightarrow> x \<in> {0x180, 0x181, 0x183}" for x using pins_sample_blocked by blast
  have l: "addrs x 9 = [x, x + 1, x + 2, x + 3, x + 4, x + 5, x + 6, x + 7, x + 8]" for x
    by (simp add: addrs_def upt_rec)
  have "(4::nat) = Suc (Suc (Suc (Suc 0)))" by simp
  then have calc: "Calc68SledSize 4 0x180 9 pins_sample = Inr 4"
    by (simp only: Calc68SledSize_def) (simp add: Let_def b l)
  have "mem_ok pins_sample" by (simp add: mem_ok_def pins_sample_def sample_space_ok)
  moreover have "pins_sized pins_sample" by (auto simp: pins_sized_def pins_sample_def split: if_splits)
  moreover have "ir_fresh (z_ir pins_sample)" by (simp add: pins_sample_def sample_ir_fresh)
  moreover have "sled_target (\<lambda>x. FindPinnedInsnAtAddr x pins_sample) (\<lambda>x. FindPatchTargetAtAddr x pins_sample)
      (0x180 + of_nat 1) = Some 2"
    by (simp add: sled_target_def FindPinnedInsnAtAddr_def pins_sample_def)
  moreover have "find P (pn_sleds pins_sample) = None" for P by (simp add: pins_sample_def)
  ultimately show ?thesis
    using Do68Sled_correct [of pins_sample "0x180" 4 64 4 1 2 "\<lambda>_. 0 :: 64 word" False, OF _ _ _ _ _ _ _ calc] by auto
qed

end
