(* ===== verification/Zipr_PinJumps.thy ===== *)
theory Zipr_PinJumps
  imports Zipr_SledPlace
begin

text \<open>
  Pins that need no sled: two in a row, and a two-byte jump that goes through a place
  reserved nearby.
\<close>

section \<open>Reserving a jump\<close>

lemma set_insert_mem: "\<exists>y \<in> set (set_insert lt x xs). y = x \<or> (\<not> lt y x \<and> \<not> lt x y)"
  by (induction lt x xs rule: set_insert.induct) auto

lemma two_insert_mem: "\<exists>y \<in> set (pn_two (two_insert up z)). up_insn y = up_insn up"
proof -
  have "\<exists>y \<in> set (set_insert upin_less up (pn_two z)). y = up \<or> (\<not> upin_less y up \<and> \<not> upin_less up y)"
    by (rule set_insert_mem)
  then show ?thesis by (auto simp: two_insert_def upin_less_def intro: antisym simp: not_less)
qed

lemma mem_ok_ms [simp]: "mem_ok (z\<lparr>z_ms := m\<rparr>) \<longleftrightarrow> ms_ok m \<and> 0 \<notin> free_set m"
  by (simp add: mem_ok_def)

lemma addrs_2: "addrs a 2 = [a, a + 1]"
  by (simp add: addrs_def upt_rec)

lemma reserve_jump_Inr:
  assumes "mem_ok z" "bytes z a = None" "bytes z (a + 1) = None" "a \<in> fr z" "a + 1 \<in> fr z"
  shows "\<exists>m. reserve_jump a z = Inr (z\<lparr>z_ms := m\<rparr>) \<and> ms_ok m \<and>
    ms_bytes m = (bytes z)(a \<mapsto> 0xeb, a + 1 \<mapsto> 0) \<and> free_set m = fr z - {a, a + 1}"
proof -
  have l: "length jmp_rel8_bytes = 2" by (simp add: jmp_rel8_bytes_def)
  have ok: "ms_ok (z_ms z)" using assms(1) by (simp add: mem_ok_def)
  have free: "bytes z x = None \<and> x \<in> fr z" if "x \<in> set (addrs a (length jmp_rel8_bytes))" for x
    using that assms(2-5) unfolding l addrs_2 by auto
  have "\<exists>m. reserve_bytes AssertFail a jmp_rel8_bytes (z_ms z) = Inr m"
    by (rule reserve_bytes_total [OF ok]) (use l free in auto)
  then obtain m where m: "reserve_bytes AssertFail a jmp_rel8_bytes (z_ms z) = Inr m" ..
  note r = reserve_fold_Inr [OF m [unfolded reserve_bytes_def] ok]
  have ps: "zip (addrs a (length jmp_rel8_bytes)) jmp_rel8_bytes = [(a, 0xeb), (a + 1, 0)]"
    by (simp add: l addrs_2) (simp add: jmp_rel8_bytes_def)
  have "ms_bytes m x = ((bytes z)(a \<mapsto> 0xeb, a + 1 \<mapsto> 0)) x" for x
    using r(3) [of a "0xeb"] r(3) [of "a + 1" 0] r(4) [of x] unfolding ps by auto
  then have "ms_bytes m = (bytes z)(a \<mapsto> 0xeb, a + 1 \<mapsto> 0)" by (rule ext)
  then show ?thesis using m r(1,5) unfolding ps by (auto simp: reserve_jump_def on_ms_def)
qed

section \<open>Two pins in a row\<close>

text \<open>Two pins in a row: the first pin becomes a push whose operand is left to the second.
  The opcode and the jump after the operand are written and claimed, the operand is not. A
  program that enters at the first pin pushes one word, whatever the operand is, reaches the
  jump, and the new instruction the jump will lead to drops that word and continues at the
  pinned instruction with the stack as it was.\<close>

theorem push_pin_correct:
  assumes "mem_ok z" and "ir_fresh (z_ir z)" and "bits = 32 \<or> bits = 64"
    and "a \<in> fr z" and "a + 5 \<in> fr z" and "a + 6 \<in> fr z" and "bytes z (a + 5) = None" and "bytes z (a + 6) = None"
  shows "\<exists>z' lea. push_pin bits upinsn a z = Inr z' \<and> mem_ok z' \<and>
    bytes z' = (bytes z)(a \<mapsto> 0x68, a + 5 \<mapsto> 0xeb, a + 6 \<mapsto> 0) \<and> fr z' = fr z - {a, a + 5, a + 6} \<and>
    ir_extends (z_ir z) (z_ir z') \<and> (\<exists>up \<in> set (pn_two z'). up_insn up = lea) \<and>
    (\<forall>m. m 0 = 0x68 \<longrightarrow> (\<exists>v. cpu_step m (0, S :: 'w::len stack) = Some (5, push v S) \<and>
       ir_step (int (bits div 8)) (z_ir z') (lea, zf, push v S) (upinsn, zf, S)))"
proof -
  let ?f = "set_ft (ir_next (z_ir z)) (Some upinsn) (snd (add_new (Asm (LeaSp (if bits = 64 then 8 else 4))) (z_ir z)))"
  let ?lea = "ir_next (z_ir z)" and ?z1 = "z\<lparr>z_ir := ?f\<rparr>"
  have m1: "mem_ok ?z1" using assms(1) by (simp add: mem_ok_def)
  have a1: "a \<in> fr ?z1" using assms(4) by simp
  from split_put [OF m1 a1, of "0x68"] obtain m where m: "SplitFreeRange a (ms_put a 0x68 (z_ms z)) = Inr m" "ms_ok m"
      "ms_bytes m = (bytes z)(a \<mapsto> 0x68)" "free_set m = fr z - {a}" by auto
  let ?z2 = "?z1\<lparr>z_ms := m\<rparr>"
  have ne: "a + 5 \<noteq> a" "a + 6 \<noteq> a" "a + 5 + 1 = a + 6" by simp_all
  have m2: "mem_ok ?z2" using m(2,4) assms(1) by (simp add: mem_ok_def)
  obtain m' where m': "reserve_jump (a + 5) ?z2 = Inr (?z2\<lparr>z_ms := m'\<rparr>)" "ms_ok m'"
      "ms_bytes m' = (bytes ?z2)(a + 5 \<mapsto> 0xeb, a + 5 + 1 \<mapsto> 0)" "free_set m' = fr ?z2 - {a + 5, a + 5 + 1}"
    using reserve_jump_Inr [OF m2, of "a + 5"] assms(5-8) m(3,4) ne by auto
  let ?up = "(mk_upin ?lea)\<lparr>up_updated := a + 5\<rparr>"
  let ?z = "two_insert ?up (?z2\<lparr>z_ms := m'\<rparr>)"
  have run: "push_pin bits upinsn a z = Inr ?z"
    using m(1) m'(1) by (simp add: push_pin_def Let_def add_new_def split_at_def put_def on_ms_def)
  have up: "\<exists>up \<in> set (pn_two ?z). up_insn up = ?lea"
    using two_insert_mem [of ?up] by (simp add: mk_upin_def)
  have ext: "ir_extends (z_ir z) ?f" using assms(2) by (auto simp: ir_extends_def add_new_def)
  have step: "\<exists>v. cpu_step m (0, S) = Some (5, push v S) \<and>
       ir_step (int (bits div 8)) (z_ir ?z) (?lea, zf, push v S) (upinsn, zf, S)" if "m 0 = 0x68" for m
  proof -
    let ?v = "scast (imm_at m (0 + 1)) :: 'w word"
    have c: "cpu_step m (0, S) = Some (5, push ?v S)" using that by (simp add: cpu_step_def)
    have p: "pop_n 1 (push ?v S) = S" by (simp add: pop_n_def push_def fun_eq_iff)
    have i: "ir_insns ?f ?lea = Some ((new_insn (Asm (LeaSp (if bits = 64 then 8 else 4))))\<lparr>i_ft := Some upinsn\<rparr>)"
      by (simp add: add_new_def)
    have k: "nat ((if bits = 64 then 8 else 4) div int (bits div 8)) = 1" using assms(3) by auto
    have "ir_step (int (bits div 8)) ?f (?lea, zf, push ?v S)
        (upinsn, zf, pop_n (nat ((if bits = 64 then 8 else 4) div int (bits div 8))) (push ?v S))"
      by (rule ir_step.lea [OF i]) (simp_all add: new_insn_def)
    then have "ir_step (int (bits div 8)) ?f (?lea, zf, push ?v S) (upinsn, zf, S)" unfolding k p .
    moreover have "z_ir ?z = ?f" by (simp add: two_insert_def)
    ultimately show ?thesis using c by auto
  qed
  show ?thesis
  proof (intro exI conjI)
    show "push_pin bits upinsn a z = Inr ?z" by (rule run)
    show "mem_ok ?z" using m'(2,4) m(4) assms(1) by (simp add: mem_ok_def two_insert_def)
    show "bytes ?z = (bytes z)(a \<mapsto> 0x68, a + 5 \<mapsto> 0xeb, a + 6 \<mapsto> 0)" using m'(3) m(3) ne by (simp add: two_insert_def)
    show "fr ?z = fr z - {a, a + 5, a + 6}" using m'(4) m(4) ne by (auto simp: two_insert_def)
    show "ir_extends (z_ir z) (z_ir ?z)" using ext by (simp add: two_insert_def)
    show "\<exists>up \<in> set (pn_two ?z). up_insn up = ?lea" by (rule up)
  qed (use step in blast)
qed

theorem push_pin_correct_witness:
  "\<exists>z' lea. push_pin 64 1 0x180 pins_sample = Inr z' \<and> bytes z' 0x180 = Some 0x68 \<and> bytes z' 0x185 = Some 0xeb \<and>
     (\<exists>up \<in> set (pn_two z'). up_insn up = lea) \<and>
     (\<exists>v. cpu_step (\<lambda>_. 0x68) (0, \<lambda>_. 0 :: 64 word) = Some (5, push v (\<lambda>_. 0)) \<and>
       ir_step 8 (z_ir z') (lea, False, push v (\<lambda>_. 0)) (1, False, \<lambda>_. 0))"
proof -
  have p: "mem_ok pins_sample" "ir_fresh (z_ir pins_sample)" "(64::nat) = 32 \<or> (64::nat) = 64"
    by (simp_all add: mem_ok_def pins_sample_def sample_space_ok sample_ir_fresh)
  have f: "0x180 \<in> fr pins_sample" "0x180 + 5 \<in> fr pins_sample" "0x180 + 6 \<in> fr pins_sample"
    "bytes pins_sample (0x180 + 5) = None" "bytes pins_sample (0x180 + 6) = None"
    by (simp_all add: pins_sample_def sample_space_ok) (simp_all add: sample_space_def ms_init_def)
  obtain z' lea where z': "push_pin 64 1 0x180 pins_sample = Inr z'"
    "bytes z' = (bytes pins_sample)(0x180 \<mapsto> 0x68, 0x180 + 5 \<mapsto> 0xeb, 0x180 + 6 \<mapsto> 0)"
    "\<exists>up \<in> set (pn_two z'). up_insn up = lea"
    "\<forall>m. m 0 = 0x68 \<longrightarrow> (\<exists>v. cpu_step m (0, \<lambda>_. 0 :: 64 word) = Some (5, push v (\<lambda>_. 0)) \<and>
       ir_step (int (64 div 8)) (z_ir z') (lea, False, push v (\<lambda>_. 0)) (1, False, \<lambda>_. 0))"
    using push_pin_correct [OF p f, of 1 "\<lambda>_. 0 :: 64 word" False] by blast
  have "\<exists>v. cpu_step (\<lambda>_. 0x68) (0, \<lambda>_. 0 :: 64 word) = Some (5, push v (\<lambda>_. 0)) \<and>
       ir_step 8 (z_ir z') (lea, False, push v (\<lambda>_. 0)) (1, False, \<lambda>_. 0)"
    using z'(4) [rule_format, of "\<lambda>_. 0x68"] by simp
  then show ?thesis using z'(1-3) by auto
qed

section \<open>A two-byte pin through a reserved place\<close>

lemma unreserve_eq:
  assumes "mem_ok z" "distinct xs" "0 \<notin> set xs" "- 1 \<notin> set xs" "\<forall>x \<in> set xs. x \<notin> fr z \<and> \<not> pn_in_sled z x"
  shows "foldR (\<lambda>j z. if pn_in_sled z j then Inr z else merge_at j z) xs z = foldR merge_byte xs z"
  using assms
proof (induction xs arbitrary: z)
  case (Cons x xs)
  have x: "x \<noteq> 0" "x \<noteq> - 1" "x \<notin> fr z" "\<not> pn_in_sled z x" using Cons.prems(3-5) by auto
  obtain z1 where 1: "merge_byte x z = Inr z1" "mem_ok z1" "pn_in_sled z1 = pn_in_sled z" "fr z1 = insert x (fr z)"
    using merge_byte_ok [OF Cons.prems(1) x(1,2)] by blast
  have "merge_at x z = Inr z1" using 1(1) x(3) Cons.prems(1) by (simp add: merge_byte_def)
  moreover have "\<forall>y \<in> set xs. y \<notin> fr z1 \<and> \<not> pn_in_sled z1 y" using Cons.prems(2,5) 1(3,4) by auto
  ultimately show ?case using x(4) 1(1) Cons.IH [OF 1(2)] Cons.prems(2-4) by simp
qed simp

lemma PlopJump_ok:
  assumes "ms_ok m"
  shows "\<exists>m'. PlopJump s m = Inr m' \<and> ms_ok m' \<and> free_set m' = free_set m - set (addrs s 5) \<and>
    (\<forall>k < 5. ms_peek (s + of_nat k) m' = jmp_rel32_bytes ! k) \<and>
    (\<forall>x. x \<notin> set (addrs s 5) \<longrightarrow> ms_peek x m' = ms_peek x m)"
proof -
  have l: "length jmp_rel32_bytes = 5" "length jmp_rel32_bytes \<le> 2 ^ 64" by (simp_all add: jmp_rel32_bytes_def)
  obtain m' where m': "PlopBytes s jmp_rel32_bytes m = Inr m'" "ms_ok m'" "free_set m' = free_set m - set (addrs s 5)"
    using PlopBytes_ok [OF assms l(2), of s] unfolding l(1) by blast
  then show ?thesis using PlopBytes_peek [OF assms l(2) m'(1)] unfolding l(1)
    by (auto simp: PlopJump_def jmp_rel32_bytes_def)
qed

lemma x86_PatchJump_near:
  assumes "ms_peek a m = 0xeb" "\<not> IsByteFree a m" "\<not> IsByteFree (a + 1) m" "- 120 \<le> i" "i \<le> 120"
  shows "\<exists>b. x86_PatchJump a (a + word_of_int i) m = Inr (ms_put (a + 1) b (ms_touch a m)) \<and> a + 2 + sext8 b = a + word_of_int i"
proof -
  let ?d = "(a + word_of_int i) - a - 2"
  have fit: "- 128 \<le> sint ?d \<and> sint ?d < 128" by (rule near_jump [OF assms(4,5)])
  then have "?d = sext8 (ucast ?d)" by (simp only: sext8_fits)
  then have "a + 2 + sext8 (ucast ?d) = a + 2 + ?d" by simp
  also have "\<dots> = a + word_of_int i" by (simp only: diff_conv_add_uminus) simp
  finally show ?thesis using x86_PatchJump_eb [OF assms(1), of "a + word_of_int i"] assms(2,3) fit by auto
qed

text \<open>A two-byte pin whose place of five bytes was reserved within reach: the pass that
  fixes two-byte pins gives the reservation back and writes a five-byte jump there, turns the
  pin's own jump to it, and hands the place on as a five-byte pin of the same instruction; the
  pin is no longer a two-byte pin. No byte becomes free or is lost.\<close>

theorem fix_pin_chains:
  assumes "mem_ok z" and "up_addr up z = Inr a" and "\<not> pn_in_sled z a"
    and "s = a + word_of_int i" and "- 120 \<le> i" and "i \<le> 120"
    and "up_range up = mk_range s (s + 5)" and "s \<noteq> 0" and "unat s + 5 < 2 ^ 64"
    and "\<And>x. x \<in> set (addrs s 5) \<Longrightarrow> x \<notin> fr z \<and> \<not> pn_in_sled z x \<and> x \<noteq> a \<and> x \<noteq> a + 1"
    and "ms_peek a (z_ms z) = 0xeb" and "a \<notin> fr z" and "a + 1 \<notin> fr z"
  shows "\<exists>z'. fix_pin up z = Inr z' \<and> mem_ok z' \<and> fr z' = fr z \<and>
    ms_peek a (z_ms z') = 0xeb \<and> a + 2 + sext8 (ms_peek (a + 1) (z_ms z')) = s \<and>
    (\<forall>k < 5. ms_peek (s + of_nat k) (z_ms z') = jmp_rel32_bytes ! k) \<and>
    (\<forall>x. x \<noteq> a + 1 \<longrightarrow> x \<notin> set (addrs s 5) \<longrightarrow> ms_peek x (z_ms z') = ms_peek x (z_ms z)) \<and>
    (\<forall>u \<in> set (pn_two z'). up_insn u \<noteq> up_insn up) \<and> (\<exists>u. (u, s) \<in> set (pn_five z') \<and> up_insn u = up_insn up)"
proof -
  let ?S = "addrs s 5"
  have us: "unat (s + 5) = unat s + 5" using assms(9) by (simp add: unat_word_ariths)
  have lt: "lt_addrs s (s + 5) = ?S"
    using us by (simp add: lt_addrs_def word_less_nat_alt)
  have sS: "s \<in> set ?S" by (simp add: addrs_def upt_rec)
  note safe = addrs_safe [OF assms(9,8)]
  have dS: "distinct ?S" by (rule distinct_addrs) simp
  have eq: "unreserve up z = foldR merge_byte ?S z"
    using unreserve_eq [OF assms(1) dS safe] assms(10) by (simp add: unreserve_def assms(7) mk_range_def lt)
  obtain z1 where 1: "foldR merge_byte ?S z = Inr z1" "mem_ok z1" "same_but z z1" "bytes z1 = bytes z"
      "pn_in_sled z1 = pn_in_sled z" "fr z1 = set ?S \<union> fr z" using merge_bytes_ok [OF assms(1) safe] by blast
  have ok1: "ms_ok (z_ms z1)" using 1(2) by (simp add: mem_ok_def)
  obtain m where m: "PlopJump s (z_ms z1) = Inr m" "ms_ok m" "free_set m = fr z1 - set ?S"
      "\<forall>k < 5. ms_peek (s + of_nat k) m = jmp_rel32_bytes ! k" "\<forall>x. x \<notin> set ?S \<longrightarrow> ms_peek x m = ms_peek x (z_ms z1)"
    using PlopJump_ok [OF ok1] by blast
  have fm: "free_set m = fr z" using assms(10) unfolding m(3) 1(6) by auto
  have pk: "ms_peek x m = ms_peek x (z_ms z)" if "x \<notin> set ?S" for x using m(5) that 1(4) by (simp add: ms_peek_def)
  have aS: "a \<notin> set ?S" "a + 1 \<notin> set ?S" using assms(10) by auto
  obtain b where b: "x86_PatchJump a s m = Inr (ms_put (a + 1) b (ms_touch a m))" "a + 2 + sext8 b = s"
    using x86_PatchJump_near [of a m i] assms(4-6,11-13) pk aS fm m(2) by (auto simp: IsByteFree_iff)
  let ?m = "ms_put (a + 1) b (ms_touch a m)"
  let ?z = "two_erase up ((five_assign up s z1)\<lparr>z_ms := ?m\<rparr>)"
  have "HasRange up" using assms(7,8) by (simp add: HasRange_def mk_range_def)
  then have run: "fix_pin up z = Inr ?z"
    using assms(2,3,7,10) sS eq 1(1,5) m(1) b(1)
    by (simp add: fix_pin_def mk_range_def is5ByteRange_def on_ms_def five_assign_def)
  have tf: "ms_ok (ms_touch a m) = ms_ok m" "free_set (ms_touch a m) = free_set m"
    by (simp_all add: ms_ok_def free_set_def)
  have z: "z_ms ?z = ?m" "pn_five ?z = map_assign upin_less up s (pn_five z1)"
      "pn_two ?z = filter (\<lambda>u. up_insn u \<noteq> up_insn up) (pn_two z1)"
    by (simp_all add: two_erase_def five_assign_def)
  have five: "\<exists>u. (u, s) \<in> set (pn_five ?z) \<and> up_insn u = up_insn up" unfolding z(2) by (rule map_assign_mem)
  have ne: "a \<noteq> a + 1" by simp
  show ?thesis
  proof (rule exI, intro conjI)
    show "fix_pin up z = Inr ?z" by (rule run)
    show "mem_ok ?z" using m(2) fm assms(1) unfolding mem_ok_def z(1) by (simp add: tf)
    show "fr ?z = fr z" unfolding z(1) by (simp add: tf fm)
    show "ms_peek a (z_ms ?z) = 0xeb" using assms(11) pk [OF aS(1)] ne unfolding z(1) by simp
    show "a + 2 + sext8 (ms_peek (a + 1) (z_ms ?z)) = s" using b(2) unfolding z(1) by simp
    show "\<forall>k < 5. ms_peek (s + of_nat k) (z_ms ?z) = jmp_rel32_bytes ! k"
    proof (intro allI impI)
      fix k :: nat assume k: "k < 5"
      then have "s + of_nat k \<in> set ?S" unfolding set_addrs by blast
      then have "s + of_nat k \<noteq> a + 1" using aS(2) by metis
      then show "ms_peek (s + of_nat k) (z_ms ?z) = jmp_rel32_bytes ! k" using m(4) k unfolding z(1) by simp
    qed
    show "\<forall>x. x \<noteq> a + 1 \<longrightarrow> x \<notin> set ?S \<longrightarrow> ms_peek x (z_ms ?z) = ms_peek x (z_ms z)"
      unfolding z(1) using pk by simp
    show "\<forall>u \<in> set (pn_two ?z). up_insn u \<noteq> up_insn up" unfolding z(3) by simp
    show "\<exists>u. (u, s) \<in> set (pn_five ?z) \<and> up_insn u = up_insn up" by (rule five)
  qed
qed

theorem fix_pin_chains_witness:
  "\<exists>z'. fix_pin \<lparr>up_insn = 1, up_range = mk_range 0x1f0 0x1f5, up_updated = 0x180\<rparr>
       (pins_sample\<lparr>z_ms := bytes_at 0x180 [0xeb, 0]\<rparr>) = Inr z' \<and>
     0x182 + sext8 (ms_peek 0x181 (z_ms z')) = 0x1f0 \<and> ms_peek 0x1f0 (z_ms z') = 0xe9"
proof -
  let ?z = "pins_sample\<lparr>z_ms := bytes_at 0x180 [0xeb, 0]\<rparr>"
    and ?up = "\<lparr>up_insn = 1, up_range = mk_range 0x1f0 0x1f5, up_updated = 0x180\<rparr>"
  have ok: "mem_ok ?z" by (simp add: bytes_at_def ms_ok_init)
  have fr: "fr ?z = {}" by (simp add: bytes_at_def ms_ok_init)
  have up: "up_addr ?up ?z = Inr 0x180" by (simp add: up_addr_def HasUpdatedAddress_def)
  have ns: "\<not> pn_in_sled ?z x" for x by (simp add: pins_sample_def)
  have r: "up_range ?up = mk_range 0x1f0 (0x1f0 + 5)" "(0x1f0::addr) = 0x180 + word_of_int 112"
    "unat (0x1f0 :: addr) + 5 < 2 ^ 64" by (simp_all)
  have S: "x \<notin> fr ?z \<and> \<not> pn_in_sled ?z x \<and> x \<noteq> 0x180 \<and> x \<noteq> 0x180 + 1" if "x \<in> set (addrs 0x1f0 5)" for x
    using that ns unfolding fr by (auto simp: addrs_def upt_rec)
  have pk: "ms_peek 0x180 (z_ms ?z) = 0xeb" by (simp add: bytes_at_def)
  have "\<exists>z'. fix_pin ?up ?z = Inr z' \<and> 0x180 + 2 + sext8 (ms_peek (0x180 + 1) (z_ms z')) = 0x1f0 \<and>
      (\<forall>k < 5. ms_peek (0x1f0 + of_nat k) (z_ms z') = jmp_rel32_bytes ! k)"
    using fix_pin_chains [OF ok up ns r(2) _ _ r(1) _ r(3) S pk] unfolding fr by auto
  then obtain z' where z': "fix_pin ?up ?z = Inr z'" "0x180 + 2 + sext8 (ms_peek (0x180 + 1) (z_ms z')) = 0x1f0"
      "\<forall>k < 5. ms_peek (0x1f0 + of_nat k) (z_ms z') = jmp_rel32_bytes ! k" by blast
  then show ?thesis using z'(3) [rule_format, of 0] by (auto simp: jmp_rel32_bytes_def)
qed

end
