(* ===== verification/Zipr_PlopTarget.thy ===== *)
theory Zipr_PlopTarget
  imports Zipr_Sizer Zipr_PinJumps
begin

text \<open>
  What the sizers promise: an instruction with a target is written so that it goes to its
  target, in as many bytes as were accounted for, and a place found for a dollop is aligned,
  free and large enough.
\<close>

section \<open>Writing and patching\<close>

text \<open>The bytes in \<open>W\<close> are written and claimed, nothing else happens.\<close>

definition wrote :: "addr set \<Rightarrow> memory_space \<Rightarrow> memory_space \<Rightarrow> bool" where
  "wrote W m m' \<longleftrightarrow> ms_ok m' \<and> free_set m' = free_set m - W \<and> (\<forall>x. x \<notin> W \<longrightarrow> ms_peek x m' = ms_peek x m)"

lemma wrote_trans: "wrote W m m1 \<Longrightarrow> wrote V m1 m2 \<Longrightarrow> wrote (W \<union> V) m m2"
  by (auto simp: wrote_def)

lemma wrote_ok: "wrote W m m' \<Longrightarrow> ms_ok m'"
  by (simp add: wrote_def)

lemma wrote_peek: "wrote W m m' \<Longrightarrow> x \<notin> W \<Longrightarrow> ms_peek x m' = ms_peek x m"
  by (simp add: wrote_def)

lemma plop_wrote:
  assumes "ms_ok m" "length bs \<le> 2 ^ 64"
  obtains m' where "PlopBytes a bs m = Inr m'" "wrote (set (addrs a (length bs))) m m'"
    "\<forall>i < length bs. ms_peek (a + of_nat i) m' = bs ! i"
proof -
  obtain m' where m': "PlopBytes a bs m = Inr m'" "ms_ok m'" "free_set m' = free_set m - set (addrs a (length bs))"
    using PlopBytes_ok [OF assms, of a] by blast
  show thesis
    by (rule that [OF m'(1)]) (use m' PlopBytes_peek [OF assms m'(1)] in \<open>auto simp: wrote_def\<close>)
qed

text \<open>The displacement from the instruction after \<open>a\<close> fits 32 bits.\<close>

definition near32 :: "addr \<Rightarrow> nat \<Rightarrow> addr \<Rightarrow> bool" where
  "near32 a n t \<longleftrightarrow> - (2 ^ 31) \<le> sint (t - (a + of_nat n)) \<and> sint (t - (a + of_nat n)) < 2 ^ 31"

definition branch_opcode :: "byte list \<Rightarrow> bool" where
  "branch_opcode bs \<longleftrightarrow> length bs = 6 \<and> bs ! 0 = 0x0f \<and> 0x80 \<le> bs ! 1 \<and> bs ! 1 \<le> 0x8f \<or>
     length bs = 5 \<and> (bs ! 0 = 0xe8 \<or> bs ! 0 = 0xe9)"

lemma branch_opcode_site:
  assumes "branch_opcode bs" "\<forall>i < length bs. ms_peek (a + of_nat i) m = bs ! i"
  shows "x86_site 15 bits a m = Some (0, length bs - 4)"
proof -
  have "x86_site (Suc 0) bits a m = Some (0, length bs - 4)"
  proof -
    have l: "0 < length bs" "1 < length bs" using assms(1) by (auto simp: branch_opcode_def)
    have p: "ms_peek a m = bs ! 0" "ms_peek (a + 1) m = bs ! 1"
      using assms(2) [rule_format, OF l(1)] assms(2) [rule_format, OF l(2)] by simp_all
    show ?thesis using assms(1) unfolding branch_opcode_def by (elim disjE conjE) (simp_all add: p)
  qed
  then have "x86_site (Suc 0 + 14) bits a m = Some (0, length bs - 4)" by (rule x86_site_fuel)
  moreover have "Suc 0 + 14 = (15 :: nat)" by simp
  ultimately show ?thesis by (simp only:)
qed

lemma plop_patch_x86:
  assumes ok: "ms_ok m" and op: "branch_opcode bs" and near: "near32 a (length bs) t"
  obtains m1 m2 where "PlopBytes a bs m = Inr m1" "x86_ApplyPatch 15 bits a t m1 = Inr m2"
    "wrote (set (addrs a (length bs))) m m2" "x86_target 15 bits a m2 = Some t"
    "x86_foot 15 bits a m2 = set (addrs a (length bs))" "\<forall>i < length bs - 4. ms_peek (a + of_nat i) m2 = bs ! i"
proof -
  have len: "length bs \<le> 2 ^ 64" "length bs - 4 + 4 = length bs" using op by (auto simp: branch_opcode_def)
  obtain m1 where m1: "PlopBytes a bs m = Inr m1" "wrote (set (addrs a (length bs))) m m1"
      "\<forall>i < length bs. ms_peek (a + of_nat i) m1 = bs ! i" using plop_wrote [OF ok len(1), where a = a] .
  have site: "x86_site 15 bits a m1 = Some (0, length bs - 4)" by (rule branch_opcode_site [OF op m1(3)])
  have foot: "x86_foot 15 bits a m1 = set (addrs a (length bs))" using len(2) by (simp add: x86_foot_def site)
  have reach: "x86_reach 15 bits a t m1"
    using near len(2) by (simp add: x86_reach_def site near32_def scast_ucast_fits)
  obtain m2 where m2: "x86_ApplyPatch 15 bits a t m1 = Inr m2" "x86_site 15 bits a m2 = Some (0, length bs - 4)"
      "\<forall>x. x \<notin> set (addrs a (length bs)) \<longrightarrow> ms_peek x m2 = ms_peek x m1" "free_ranges m2 = free_ranges m1"
    using x86_ApplyPatch_effect [OF site, where t = t] len(2) by auto
  note tgt = x86.patch_target [OF m2(1) reach] and ft = x86.patch_foot [OF m2(1) reach]
  have w: "wrote (set (addrs a (length bs))) m m2"
    using m1(2) m2(3,4) by (simp add: wrote_def ms_ok_def free_set_def)
  have "ms_peek (a + of_nat i) m2 = bs ! i" if i: "i < length bs - 4" for i
  proof -
    let ?p = "a + of_nat (length bs - 4)"
    obtain m where m: "m2 = ms_put_list ?p (le_bytes (ucast (t - (a + of_nat (length bs))))) m"
        "\<And>x. ms_peek x m = ms_peek x m1"
      using x86_ApplyPatch_site [OF site, of t] m2(1) len(2) by auto
    have "distinct (addrs a (length bs - 4) @ addrs ?p 4)"
      unfolding addrs_append [symmetric] len(2) by (rule distinct_addrs [OF len(1)])
    moreover have "a + of_nat i \<in> set (addrs a (length bs - 4))" using i by (simp add: addrs_def)
    ultimately have "a + of_nat i \<notin> set (addrs ?p (length (le_bytes (ucast (t - (a + of_nat (length bs))) :: uint32))))"
      by (simp only: le_bytes_def list.size plus_nat.add_0 add_0 add_Suc) (auto simp: eval_nat_numeral)
    then have "ms_peek (a + of_nat i) m2 = ms_peek (a + of_nat i) m1" using m ms_put_list_peek_other by metis
    then show ?thesis using m1(3) i by simp
  qed
  then show thesis using that [OF m1(1) m2(1) w tgt ft [unfolded foot]] by simp
qed

section \<open>x86\<close>

definition long_form :: "byte list \<Rightarrow> byte list" where
  "long_form bs =
     (if length bs = 2 then (if bs ! 0 = 0xeb then [0xe9, 0xfb, 0, 0, 0] else [0x0f, bs ! 0 + 0x10, 0, 0, 0, 0]) else bs)"

definition short_branch :: "byte list \<Rightarrow> bool" where
  "short_branch bs \<longleftrightarrow> length bs = 2 \<and> (0x70 \<le> bs ! 0 \<and> bs ! 0 \<le> 0x7f \<or> bs ! 0 = 0xeb)"

lemma jcc_opcode: "0x70 \<le> b \<Longrightarrow> b \<le> 0x7f \<Longrightarrow> 0x80 \<le> b + 0x10 \<and> b + 0x10 \<le> (0x8f :: byte)"
  by (simp add: word_le_nat_alt unat_word_ariths)

lemma long_form_opcode: "short_branch bs \<or> branch_opcode bs \<Longrightarrow> branch_opcode (long_form bs)"
  using jcc_opcode by (auto simp: short_branch_def branch_opcode_def long_form_def)

lemma x86_size_long_form:
  assumes "short_branch (data_bits asmb f i) \<or> branch_opcode (data_bits asmb f i)"
    "branch_opcode (data_bits asmb f i) \<or> tgt_of f i \<noteq> None" "i_callback (the_insn f i) = ''''"
  shows "x86_DetermineInsnSize asmb f i False = length (long_form (data_bits asmb f i))"
proof (cases "data_bits asmb f i")
  case (Cons b bs)
  then show ?thesis using assms
    by (auto simp: x86_DetermineInsnSize_def first_byte_def Let_def short_branch_def branch_opcode_def long_form_def)
qed (use assms in \<open>auto simp: short_branch_def branch_opcode_def\<close>)

lemma x86_plop_long_form:
  assumes "short_branch bs \<or> branch_opcode bs" "bs = data_bits asmb (z_ir z) (de_insn (ent (z_dm z) e))"
    "de_tgt (ent (z_dm z) e) = Some d" "entry_target (z_dm z) (ent (z_dm z) e) ot = Inr t"
    "a = entry_place (ent (z_dm z) e) op"
  shows "x86_PlopDollopEntryWithTarget asmb bits e op ot z =
    bindR (z_plop a (long_form bs) z) (\<lambda>z. bindR (x86_patch bits a t z) (\<lambda>z. Inr (a + of_nat (length (long_form bs)), z)))"
proof (cases "branch_opcode bs")
  case True
  then have "2 < length bs" "length bs \<noteq> 2" by (auto simp: branch_opcode_def)
  then show ?thesis
    using assms(3-5) unfolding assms(2) by (simp add: x86_PlopDollopEntryWithTarget_def Let_def long_form_def)
next
  case False
  then obtain b y where "bs = [b, y]" "0x70 \<le> b \<and> b \<le> 0x7f \<or> b = 0xeb"
    using assms(1) by (auto simp: short_branch_def length_Suc_conv numeral_2_eq_2)
  then show ?thesis
    using assms(2-5) by (auto simp: x86_PlopDollopEntryWithTarget_def Let_def long_form_def first_byte_def)
qed

text \<open>
  A branch in its short or its long form.
\<close>

lemma x86_plop_branch:
  assumes "ms_ok (z_ms z)" and bs: "short_branch bs \<or> branch_opcode bs" "bs = data_bits asmb (z_ir z) (de_insn (ent (z_dm z) e))"
    and "de_tgt (ent (z_dm z) e) = Some d" "entry_target (z_dm z) (ent (z_dm z) e) ot = Inr t"
    and a: "a = entry_place (ent (z_dm z) e) op" and near: "near32 a (length (long_form bs)) t"
  shows "\<exists>m. x86_PlopDollopEntryWithTarget asmb bits e op ot z = Inr (a + of_nat (length (long_form bs)), z\<lparr>z_ms := m\<rparr>) \<and>
    wrote (set (addrs a (length (long_form bs)))) (z_ms z) m \<and> x86_target 15 bits a m = Some t \<and>
    x86_foot 15 bits a m = set (addrs a (length (long_form bs))) \<and>
    (\<forall>i < length (long_form bs) - 4. ms_peek (a + of_nat i) m = long_form bs ! i)"
proof -
  obtain m1 m where m: "PlopBytes a (long_form bs) (z_ms z) = Inr m1" "x86_ApplyPatch 15 bits a t m1 = Inr m"
    "wrote (set (addrs a (length (long_form bs)))) (z_ms z) m" "x86_target 15 bits a m = Some t"
    "x86_foot 15 bits a m = set (addrs a (length (long_form bs)))"
    "\<forall>i < length (long_form bs) - 4. ms_peek (a + of_nat i) m = long_form bs ! i"
    using plop_patch_x86 [OF assms(1) long_form_opcode [OF bs(1)] near, where bits = bits] .
  have "x86_PlopDollopEntryWithTarget asmb bits e op ot z = Inr (a + of_nat (length (long_form bs)), z\<lparr>z_ms := m\<rparr>)"
    unfolding x86_plop_long_form [OF bs(1,2) assms(4,5) a]
    using m(1,2) by (simp add: z_plop_def x86_patch_def on_ms_def)
  then show ?thesis using m by (intro exI conjI)
qed

lemma plop_jump_x86:
  assumes "ms_ok (z_ms z)" "near32 a 5 t"
  obtains m where "bindR (on_ms (PlopJump a) z) (\<lambda>z. bindR (x86_patch bits a t z) f) = f (z\<lparr>z_ms := m\<rparr>)"
    "wrote (set (addrs a 5)) (z_ms z) m" "x86_target 15 bits a m = Some t" "x86_foot 15 bits a m = set (addrs a 5)"
proof -
  have op: "branch_opcode [0xe9, 0, 0, 0, 0]" and l: "length [0xe9, 0, 0, 0, 0 :: byte] = 5"
    by (simp_all add: branch_opcode_def)
  have n: "near32 a (length [0xe9, 0, 0, 0, 0 :: byte]) t" using assms(2) unfolding l .
  obtain m1 m where m: "PlopBytes a [0xe9, 0, 0, 0, 0] (z_ms z) = Inr m1" "x86_ApplyPatch 15 bits a t m1 = Inr m"
    "wrote (set (addrs a 5)) (z_ms z) m" "x86_target 15 bits a m = Some t" "x86_foot 15 bits a m = set (addrs a 5)"
    using plop_patch_x86 [OF assms(1) op n, where bits = bits] unfolding l by metis
  have "bindR (on_ms (PlopJump a) z) (\<lambda>z. bindR (x86_patch bits a t z) f) = f (z\<lparr>z_ms := m\<rparr>)"
    using m(1,2) by (simp add: PlopJump_def x86_patch_def on_ms_def)
  then show ?thesis using that m(3-5) by blast
qed

lemma x86_plop_loop_ok:
  assumes "ms_ok (z_ms z)" "x86_loop_fallthrough (z_dm z) e = Inr (Some x)" "pl_placed (ent (z_dm z) x)"
    and near: "near32 (a + 2) 5 (pl_place (ent (z_dm z) x))" "near32 (a + 7) 5 t"
  shows "\<exists>m. x86_plop_loop bits e b a t z = Inr (a + 12, z\<lparr>z_ms := m\<rparr>) \<and> wrote (set (addrs a 12)) (z_ms z) m \<and>
    ms_peek a m = b \<and> ms_peek (a + 1) m = 5 \<and>
    x86_target 15 bits (a + 2) m = Some (pl_place (ent (z_dm z) x)) \<and> x86_target 15 bits (a + 7) m = Some t \<and>
    x86_foot 15 bits (a + 2) m = set (addrs (a + 2) 5) \<and> x86_foot 15 bits (a + 7) m = set (addrs (a + 7) 5)"
proof -
  let ?ft = "pl_place (ent (z_dm z) x)"
  have l: "length [b, 5] = 2" "length [b, 5] \<le> 2 ^ 64" by simp_all
  obtain m0 where m0: "PlopBytes a [b, 5] (z_ms z) = Inr m0" "wrote (set (addrs a (length [b, 5]))) (z_ms z) m0"
      "\<forall>i < length [b, 5]. ms_peek (a + of_nat i) m0 = [b, 5] ! i"
    using plop_wrote [OF assms(1) l(2), where a = a] .
  have p0: "ms_peek a m0 = b" "ms_peek (a + 1) m0 = 5" using m0(3) by (simp_all add: l(1) less_Suc_eq numeral_2_eq_2)
  let ?z0 = "z\<lparr>z_ms := m0\<rparr>"
  let ?rest = "\<lambda>z. bindR (on_ms (PlopJump (a + 7)) z) (\<lambda>z. bindR (x86_patch bits (a + 7) t z) (\<lambda>z. Inr (a + 12, z)))"
  have ok0: "ms_ok (z_ms ?z0)" using wrote_ok [OF m0(2)] by simp
  obtain m1 where m1: "bindR (on_ms (PlopJump (a + 2)) ?z0) (\<lambda>z. bindR (x86_patch bits (a + 2) ?ft z) ?rest) = ?rest (?z0\<lparr>z_ms := m1\<rparr>)"
      "wrote (set (addrs (a + 2) 5)) (z_ms ?z0) m1" "x86_target 15 bits (a + 2) m1 = Some ?ft"
      "x86_foot 15 bits (a + 2) m1 = set (addrs (a + 2) 5)"
    using plop_jump_x86 [OF ok0 near(1), where bits = bits and f = ?rest] .
  have ok1: "ms_ok (z_ms (?z0\<lparr>z_ms := m1\<rparr>))" using wrote_ok [OF m1(2)] by simp
  obtain m2 where m2: "?rest (?z0\<lparr>z_ms := m1\<rparr>) = Inr (a + 12, ?z0\<lparr>z_ms := m1\<rparr>\<lparr>z_ms := m2\<rparr>)"
      "wrote (set (addrs (a + 7) 5)) (z_ms (?z0\<lparr>z_ms := m1\<rparr>)) m2" "x86_target 15 bits (a + 7) m2 = Some t"
      "x86_foot 15 bits (a + 7) m2 = set (addrs (a + 7) 5)"
    using plop_jump_x86 [OF ok1 near(2), where bits = bits and f = "\<lambda>z. Inr (a + 12, z)"] .
  have run: "x86_plop_loop bits e b a t z = Inr (a + 12, z\<lparr>z_ms := m2\<rparr>)"
  proof -
    have "z_plop a [b, 5] z = Inr ?z0" using m0(1) unfolding z_plop_def on_ms_def by (simp only: bindR_Inr)
    then have "x86_plop_loop bits e b a t z =
        bindR (on_ms (PlopJump (a + 2)) ?z0) (\<lambda>z. bindR (x86_patch bits (a + 2) ?ft z) ?rest)"
      using assms(2,3) by (simp add: x86_plop_loop_def Let_def)
    also have "\<dots> = ?rest (?z0\<lparr>z_ms := m1\<rparr>)" by (rule m1(1))
    finally show ?thesis using m2(1) by simp
  qed
  have w: "wrote (set (addrs a 2) \<union> set (addrs (a + 2) 5) \<union> set (addrs (a + 7) 5)) (z_ms z) m2"
    using m0(2) m1(2) m2(2) unfolding l by (auto intro!: wrote_trans)
  moreover have "addrs a 12 = addrs a 2 @ addrs (a + 2) 5 @ addrs (a + 7) 5"
    using addrs_append [of a 2 10] addrs_append [of "a + 2" 5 5] by (simp add: add.commute)
  ultimately have w: "wrote (set (addrs a 12)) (z_ms z) m2" by (simp add: Un_assoc)
  have dis: "set (addrs (a + 2) 5) \<inter> set (addrs (a + 7) 5) = {}" "a \<notin> set (addrs (a + 2) 5)" "a \<notin> set (addrs (a + 7) 5)"
      "a + 1 \<notin> set (addrs (a + 2) 5)" "a + 1 \<notin> set (addrs (a + 7) 5)"
    by (simp_all add: addrs_def upt_rec)
  have "x86_target 15 bits (a + 2) m2 = x86_target 15 bits (a + 2) m1 \<and> x86_foot 15 bits (a + 2) m2 = x86_foot 15 bits (a + 2) m1"
  proof -
    have "ms_peek y m2 = ms_peek y m1" if "y \<in> x86_foot 15 bits (a + 2) m1" for y
      using wrote_peek [OF m2(2)] that dis(1) m1(4) by auto
    then show ?thesis using x86.site_local by blast
  qed
  moreover have "ms_peek a m2 = b" "ms_peek (a + 1) m2 = 5"
    using wrote_peek [OF m2(2)] wrote_peek [OF m1(2)] p0 dis(2-5) by auto
  ultimately show ?thesis using run w m1(3,4) m2(3,4) by (intro exI conjI) simp_all
qed

lemma loop_opcode:
  assumes "0xe0 \<le> b" "b \<le> (0xe3 :: byte)"
  shows "\<not> (0x70 \<le> b \<and> b \<le> 0x7f)" "b \<noteq> 0xeb"
  using assms by (auto simp: word_le_nat_alt)

lemma x86_plop_loop_entry:
  assumes "data_bits asmb (z_ir z) (de_insn (ent (z_dm z) e)) = [b, y]" "0xe0 \<le> b" "b \<le> 0xe3"
    "de_tgt (ent (z_dm z) e) = Some d" "entry_target (z_dm z) (ent (z_dm z) e) ot = Inr t"
  shows "x86_PlopDollopEntryWithTarget asmb bits e op ot z = x86_plop_loop bits e b (entry_place (ent (z_dm z) e) op) t z"
    "tgt_of (z_ir z) (de_insn (ent (z_dm z) e)) \<noteq> None \<Longrightarrow>
       x86_DetermineInsnSize asmb (z_ir z) (de_insn (ent (z_dm z) e)) False = 12"
  using assms loop_opcode [OF assms(2,3)]
  by (auto simp: x86_PlopDollopEntryWithTarget_def x86_DetermineInsnSize_def Let_def first_byte_def)

section \<open>ARM64\<close>

definition st_of :: "'a zipr_arm64_scheme \<Rightarrow> arm64_state" where
  "st_of z = \<lparr>a64_ms = z_ms z, redirect_map = z_redirect z\<rparr>"

definition with_st :: "'a zipr_arm64_scheme \<Rightarrow> arm64_state \<Rightarrow> 'a zipr_arm64_scheme" where
  "with_st z st = z\<lparr>z_ms := a64_ms st, z_redirect := redirect_map st\<rparr>"

lemma with_st [simp]: "with_st (with_st z st) st' = with_st z st'" "st_of (with_st z st) = st" "with_st z (st_of z) = z"
  by (simp_all add: with_st_def st_of_def)

lemma z_plop_64: "z_plop a bs z = bindR (plop64 a bs (st_of z)) (\<lambda>st. Inr (with_st z st))"
  by (cases "PlopBytes a bs (z_ms z)") (simp_all add: z_plop_def on_ms_def plop64_def st_of_def with_st_def)

lemma patch_64: "arm64_patch rnd a t z = bindR (arm64_ApplyPatch 2 rnd a t (st_of z)) (\<lambda>st. Inr (with_st z st))"
  by (simp add: arm64_patch_def st_of_def with_st_def)

lemma plop_branch_step:
  assumes "ms_ok (z_ms z)" "arm64_near a t"
  obtains st where "bindR (z_plop a branch_bytes z) (\<lambda>z. bindR (arm64_patch rnd a t z) f) = f (with_st z st)"
    "arm64_writes {a, a + 1, a + 2, a + 3} (st_of z) st" "\<forall>c. arm64_step c a (a64_ms st) = Some t"
proof -
  have ok: "ms_ok (a64_ms (st_of z))" using assms(1) by (simp add: st_of_def)
  have fits: "shift_fits 6 (word_offset a t)" "rel_target a (word_offset a t) = t"
    using assms(2) rel_target_word_offset by (simp_all add: arm64_near_def)
  obtain st1 st where st: "plop64 a branch_bytes (st_of z) = Inr st1" "arm64_ApplyPatch (Suc (Suc 0)) rnd a t st1 = Inr st"
    using plop_branch_total [OF ok fits(1)] .
  have "bindR (z_plop a branch_bytes z) (\<lambda>z. bindR (arm64_patch rnd a t z) f) = f (with_st z st)"
    using st by (simp add: z_plop_64 patch_64 numeral_2_eq_2 del: arm64_ApplyPatch.simps)
  then show ?thesis using that plop_branch [OF ok st] fits(2) by metis
qed

lemma arm64_test_total:
  assumes "arm64_test (ms_peek (a + 3) (a64_ms st))" "shift_fits 18 (word_offset a t)"
  shows "\<exists>st'. arm64_ApplyPatch (Suc n) rnd a t st = Inr st'"
proof -
  have "\<not> arm64_uncond (ms_peek (a + 3) (a64_ms st))" "\<not> arm64_cond (ms_peek (a + 3) (a64_ms st))"
    using assms(1) arm64_classes by blast+
  then show ?thesis using assms by (simp add: Let_def)
qed

lemma plop_test_step:
  assumes ok: "ms_ok (z_ms z)" and bs: "length bs = 4" "arm64_test (bs ! 3)"
  obtains st where "bindR (z_plop a bs z) (\<lambda>z. bindR (arm64_patch rnd a (a + 8) z) f) = f (with_st z st)"
    "arm64_writes {a, a + 1, a + 2, a + 3} (st_of z) st"
    "\<forall>c. arm64_step c a (a64_ms st) = Some (if c then a + 8 else a + 4)"
proof -
  have len: "length bs \<le> 2 ^ 64" using bs(1) by simp
  obtain m where m: "PlopBytes a bs (z_ms z) = Inr m" "wrote (set (addrs a (length bs))) (z_ms z) m"
      "\<forall>i < length bs. ms_peek (a + of_nat i) m = bs ! i"
    using plop_wrote [OF ok len, where a = a] .
  let ?st = "st_of z\<lparr>a64_ms := m\<rparr>"
  have p: "plop64 a bs (st_of z) = Inr ?st" using m(1) by (simp add: plop64_def st_of_def)
  have "ms_peek (a + of_nat 3) m = bs ! 3" using m(3) [rule_format, of 3] bs(1) by simp
  then have t: "arm64_test (ms_peek (a + 3) (a64_ms ?st))" using bs(2) by simp
  have fit18: "shift_fits 18 (2::uint32)" by (simp add: shift_fits_def)
  obtain st where q: "arm64_ApplyPatch (Suc (Suc 0)) rnd a (a + 8) ?st = Inr st"
    using arm64_test_total [OF t, of "a + 8"] fit18 unfolding short_hop by blast
  note e = arm64_test_effect [OF q t]
  have "arm64_writes {a, a + 1, a + 2, a + 3} (st_of z) ?st"
    using m(2) bs(1) by (auto simp: wrote_def arm64_writes_def st_of_def addrs_4)
  moreover have "arm64_writes {a, a + 1, a + 2, a + 3} ?st st"
    by (rule arm64_frame_writes [OF e(2)]) (use wrote_ok [OF m(2)] in simp)
  ultimately have w: "arm64_writes {a, a + 1, a + 2, a + 3} (st_of z) st"
    using arm64_writes_trans by fastforce
  have run: "bindR (z_plop a bs z) (\<lambda>z. bindR (arm64_patch rnd a (a + 8) z) f) = f (with_st z st)"
    using p q by (simp add: z_plop_64 patch_64 numeral_2_eq_2 del: arm64_ApplyPatch.simps)
  have "arm64_step c a (a64_ms st) = Some (if c then a + 8 else a + 4)" for c
    using e(1) [of c] unfolding short_hop .
  then show ?thesis using that [OF run w] by blast
qed

lemma first4_4: "length bs = 4 \<Longrightarrow> first4 bs = Inr bs"
  by (simp add: first4_def)

lemma near_over: "arm64_near (a + 4) (a + 12)"
proof -
  have e: "a + 12 = (a + 4) + 8" by simp
  have o: "word_offset (a + 4) (a + 12) = 2" "rel_target (a + 4) 2 = a + 12"
    unfolding e by (rule short_hop)+
  moreover have "word_reach (a + 4) (a + 12)" by (simp add: word_reach_def)
  moreover have "shift_fits 6 (2::uint32)" by (simp add: shift_fits_def)
  ultimately show ?thesis by (simp add: arm64_near_def)
qed

lemma arm64_tbz_ok:
  fixes z :: "'a zipr_arm64_scheme"
  assumes ok: "ms_ok (z_ms z)" and bs: "length bs = 4" "arm64_test (bs ! 3)" and near: "arm64_near (a + 8) t"
  shows "\<exists>st. arm64_tbz_plop rnd bs a t z = Inr (a + 12, with_st z st) \<and>
    arm64_writes (set (addrs a 12)) (st_of z) st \<and>
    (\<forall>c. arm64_step c a (a64_ms st) = Some (if c then a + 8 else a + 4) \<and>
       arm64_step c (a + 4) (a64_ms st) = Some (a + 12) \<and> arm64_step c (a + 8) (a64_ms st) = Some t)"
proof -
  let ?k3 = "\<lambda>z. Inr (a + 12, z) :: (addr \<times> 'a zipr_arm64_scheme) result"
  let ?k2 = "\<lambda>z. bindR (z_plop (a + 8) branch_bytes z) (\<lambda>z. bindR (arm64_patch rnd (a + 8) t z) ?k3)"
  let ?k1 = "\<lambda>z. bindR (z_plop (a + 4) branch_bytes z) (\<lambda>z. bindR (arm64_patch rnd (a + 4) (a + 12) z) ?k2)"
  obtain s1 where s1: "bindR (z_plop a bs z) (\<lambda>z. bindR (arm64_patch rnd a (a + 8) z) ?k1) = ?k1 (with_st z s1)"
      "arm64_writes {a, a + 1, a + 2, a + 3} (st_of z) s1"
      "\<forall>c. arm64_step c a (a64_ms s1) = Some (if c then a + 8 else a + 4)"
    using plop_test_step [OF ok bs, where a = a and rnd = rnd and f = ?k1] .
  have ok1: "ms_ok (z_ms (with_st z s1))" using s1(2) by (simp add: arm64_writes_def with_st_def)
  obtain s2 where s2: "?k1 (with_st z s1) = ?k2 (with_st z s2)"
      "arm64_writes {a + 4, a + 5, a + 6, a + 7} s1 s2" "\<forall>c. arm64_step c (a + 4) (a64_ms s2) = Some (a + 12)"
    using plop_branch_step [OF ok1 near_over, where rnd = rnd and f = ?k2] by (auto simp: add.assoc)
  have ok2: "ms_ok (z_ms (with_st z s2))" using s2(2) by (simp add: arm64_writes_def with_st_def)
  obtain s3 where s3: "?k2 (with_st z s2) = ?k3 (with_st z s3)"
      "arm64_writes {a + 8, a + 9, a + 10, a + 11} s2 s3" "\<forall>c. arm64_step c (a + 8) (a64_ms s3) = Some t"
    using plop_branch_step [OF ok2 near, where rnd = rnd and f = ?k3] by (auto simp: add.assoc)
  have run: "arm64_tbz_plop rnd bs a t z = Inr (a + 12, with_st z s3)"
    unfolding arm64_tbz_plop_def first4_4 [OF bs(1)] bindR_Inr s1(1) s2(1) s3(1) ..
  have "set (addrs a 12) = {a, a + 1, a + 2, a + 3} \<union> {a + 4, a + 5, a + 6, a + 7} \<union> {a + 8, a + 9, a + 10, a + 11}"
    by (simp add: addrs_def upt_rec) blast
  moreover have "arm64_writes ({a, a + 1, a + 2, a + 3} \<union> {a + 4, a + 5, a + 6, a + 7} \<union> {a + 8, a + 9, a + 10, a + 11}) (st_of z) s3"
    by (rule arm64_writes_trans [OF arm64_writes_trans [OF s1(2) s2(2)] s3(2)])
  ultimately have w: "arm64_writes (set (addrs a 12)) (st_of z) s3" by simp
  have "arm64_step c a (a64_ms s3) = arm64_step c a (a64_ms s1)" for c
    using arm64_writes_step [OF s2(2), of a c] arm64_writes_step [OF s3(2), of a c] by simp
  moreover have "arm64_step c (a + 4) (a64_ms s3) = arm64_step c (a + 4) (a64_ms s2)" for c
    using arm64_writes_step [OF s3(2), of "a + 4" c] by simp
  ultimately show ?thesis using run w s1(3) s2(3) s3(3) by (intro exI [of _ s3]) simp
qed

section \<open>Places and sizes\<close>

lemma unat_pow2:
  assumes "k < 64"
  shows "unat (2 ^ k :: addr) = 2 ^ k"
proof -
  have "(2::nat) ^ k < 2 ^ 64" by (rule power_strict_increasing) (use assms in simp_all)
  then have "unat (of_nat (2 ^ k) :: addr) = 2 ^ k" by (simp only: unat_of_nat) simp
  then show ?thesis by simp
qed

lemma clear_low_bits: "unat ((x::addr) AND NOT (mask k)) = unat x div 2 ^ k * 2 ^ k" if "k < 64"
proof -
  have "x AND NOT (mask k) = push_bit k (drop_bit k x)" by (rule bit_word_eqI) (auto simp: bit_simps)
  then have e: "x AND NOT (mask k) = drop_bit k x * 2 ^ k" by (simp add: push_bit_eq_mult)
  have p: "unat (2 ^ k :: addr) = 2 ^ k" by (rule unat_pow2 [OF that])
  have d: "unat (drop_bit k x) = unat x div 2 ^ k" by (simp add: drop_bit_eq_div unat_div p)
  have "unat x div 2 ^ k * 2 ^ k \<le> unat x" by simp
  also have "unat x < 2 ^ LENGTH(64)" using unat_addr_less [of x] by simp
  finally have "unat (drop_bit k x) * unat (2 ^ k :: addr) < 2 ^ LENGTH(64)" by (simp only: d p)
  then have "unat (drop_bit k x * 2 ^ k) = unat (drop_bit k x) * unat (2 ^ k :: addr)" by (simp only: unat_mult_lem)
  then show ?thesis by (simp only: e d p)
qed

lemma align_up_pow2:
  fixes a :: addr
  assumes "unat a + (2 ^ k - 1) < 2 ^ 64" "k < 64"
  shows "2 ^ k dvd unat (align_up a (2 ^ k))" "unat a \<le> unat (align_up a (2 ^ k))" "unat (align_up a (2 ^ k)) \<le> unat a + (2 ^ k - 1)"
proof -
  have p: "unat (2 ^ k :: addr) = 2 ^ k" by (rule unat_pow2 [OF assms(2)])
  have m: "(2 ^ k - 1 :: addr) = mask k" by (simp add: mask_eq_decr_exp)
  have "(1::addr) \<le> 2 ^ k" by (simp add: word_le_nat_alt p)
  then have u: "unat (2 ^ k - 1 :: addr) = 2 ^ k - 1" by (simp add: unat_sub p)
  have "a + 2 ^ k - 1 = a + (2 ^ k - 1)" by simp
  moreover have "unat (a + (2 ^ k - 1)) = unat a + (2 ^ k - 1)"
    using assms(1) unat_add_lem [of a "2 ^ k - 1"] by (simp add: u)
  ultimately have e: "unat (align_up a (2 ^ k)) = (unat a + (2 ^ k - 1)) div 2 ^ k * 2 ^ k"
    unfolding align_up_def by (simp only: m clear_low_bits [OF assms(2)])
  let ?n = "unat a + (2 ^ k - 1)"
  have q: "?n = ?n div 2 ^ k * 2 ^ k + ?n mod 2 ^ k" "?n mod 2 ^ k < 2 ^ k" by (rule div_mult_mod_eq [symmetric]) simp
  show "2 ^ k dvd unat (align_up a (2 ^ k))" unfolding e by simp
  show "unat a \<le> unat (align_up a (2 ^ k))" "unat (align_up a (2 ^ k)) \<le> ?n" unfolding e using q by linarith+
qed

text \<open>The constants of the four sizers.\<close>

definition is_sizes :: "sizes \<Rightarrow> bool" where
  "is_sizes sz \<longleftrightarrow> sz = x86_sizes \<or> sz = arm64_sizes \<or> sz = arm32_sizes \<or> sz = mips32_sizes"

definition alignment_for :: "sizes \<Rightarrow> ir \<Rightarrow> iid \<Rightarrow> size_t" where
  "alignment_for sz f i = (if ibta_of f i = Some 0 then UNPIN_ALIGNMENT sz else ALIGNMENT sz)"

lemma alignment_pow2: "is_sizes sz \<Longrightarrow> \<exists>k \<le> 3. alignment_for sz f i = 2 ^ k"
proof -
  assume "is_sizes sz"
  then have "alignment_for sz f i \<in> {2 ^ 0, 2 ^ 2, 2 ^ 3}"
    by (auto simp: is_sizes_def alignment_for_def x86_sizes_def arm64_sizes_def arm32_sizes_def mips32_sizes_def)
  then show ?thesis by (auto intro: exI [of _ 0] exI [of _ 2] exI [of _ 3])
qed

lemma int_small: "m < 2 ^ 31 \<Longrightarrow> int m < 2 ^ 31" for m :: nat
  by simp

lemma int_range: "1 \<le> m \<Longrightarrow> m < 2 ^ 31 \<Longrightarrow> 1 \<le> int m \<and> int m \<le> int_max" for m :: nat
  by (simp add: int_max_def)

lemma to_int_small:
  assumes "unat n < 2 ^ 31"
  shows "to_int n = int (unat n)"
proof -
  have u: "0 \<le> int (unat n)" "int (unat n) < 2 ^ 31" using int_small [OF assms] by simp_all
  have "uint (ucast n :: 32 word) = take_bit 32 (int (unat n))"
    by (simp add: unsigned_ucast_eq)
  also have "\<dots> = int (unat n)" using u by (intro take_bit_int_eq_self) auto
  finally have e: "uint (ucast n :: 32 word) = int (unat n)" .
  have "signed_take_bit 31 (int (unat n)) = int (unat n)"
    by (rule signed_take_bit_int_eq_self) (use u in linarith)+
  then show ?thesis by (simp add: to_int_def sint_uint e)
qed

lemma addrs_in_range:
  assumes "unat (r_start r) \<le> unat s" "unat s + n \<le> unat (r_end r) + 1"
  shows "set (addrs s n) \<subseteq> range_bytes r"
proof
  fix x assume "x \<in> set (addrs s n)"
  then obtain k where k: "k < n" "x = s + of_nat k" by (auto simp: addrs_def)
  have "unat s + k < 2 ^ 64" using k(1) assms(2) unat_addr_less [of "r_end r"] by linarith
  then have "unat x = unat s + k" unfolding k(2) by (simp add: unat_word_ariths unat_of_nat)
  then show "x \<in> range_bytes r" using assms k(1) by (simp add: range_bytes_def word_le_nat_alt)
qed

lemma alloc_size:
  assumes "unat p + 7 < 2 ^ 31" "k \<le> 3"
  shows "unat (p + 2 ^ k - 1 :: addr) = unat p + (2 ^ k - 1)"
proof -
  have "k < 4" using assms(2) by simp
  then have k: "k \<in> {0, 1, 2, 3}" by auto
  have "unat (p + of_nat j) = unat p + j" if "j \<le> 7" for j
    using that assms(1) by (simp add: unat_word_ariths unat_of_nat)
  from this [of 0] this [of 1] this [of 3] this [of 7] k show ?thesis by (auto simp: add.commute)
qed

lemma DoPlacement_place:
  assumes ok: "ms_ok ms" and q: "q \<in> elems ms" and p: "1 \<le> unat p" and n: "unat p + (2 ^ k - 1) \<le> unat (getSize q)" and k: "k \<le> 3"
  defines "s \<equiv> align_up (r_start q) (2 ^ k)"
  shows "2 ^ k dvd unat s" "unat (r_start q) \<le> unat s" "unat s + unat p \<le> unat (r_end q) + 1" "set (addrs s (unat p)) \<subseteq> free_set ms"
proof -
  have rok: "range_ok q" by (rule elems_ok [OF ok q])
  then have "unat (r_start q) \<le> unat (r_end q)" by (simp add: range_ok_def word_le_nat_alt)
  then have le: "unat (r_start q) + (unat p + (2 ^ k - 1)) \<le> unat (r_end q) + 1"
    using n unat_getSize [OF rok] by linarith
  then have "unat (r_start q) + (2 ^ k - 1) < 2 ^ 64" using p unat_addr_less [of "r_end q"] by linarith
  moreover have "k < 64" using k by simp
  ultimately have al: "2 ^ k dvd unat s" "unat (r_start q) \<le> unat s" "unat s \<le> unat (r_start q) + (2 ^ k - 1)"
    unfolding s_def by (rule align_up_pow2)+
  show "2 ^ k dvd unat s" "unat (r_start q) \<le> unat s" by (rule al)+
  show fits: "unat s + unat p \<le> unat (r_end q) + 1" using al(3) le by linarith
  have "set (addrs s (unat p)) \<subseteq> range_bytes q" by (rule addrs_in_range [OF al(2) fits])
  then show "set (addrs s (unat p)) \<subseteq> free_set ms"
    using q by (auto simp: free_set_def fr_bytes_def rs_bytes_def elems_def)
qed

lemma DoPlacement_result:
  assumes ok: "ms_ok ms" and sz: "is_sizes sz" and d: "0 < d_size (dl h d)" "dinsns h d = i # is"
    and p: "1 \<le> unat p_size" "unat p_size + 7 < 2 ^ 31"
  shows "case DoPlacement sz rnd f h ms p_size d of
      Inr r \<Rightarrow> (\<exists>q \<in> elems ms. r_end r = r_end q \<and> unat (r_start q) \<le> unat (r_start r)) \<and>
        unat (alignment_for sz f i) dvd unat (r_start r) \<and>
        unat (r_start r) + unat p_size \<le> unat (r_end r) + 1 \<and> set (addrs (r_start r) (unat p_size)) \<subseteq> free_set ms
    | Inl e \<Rightarrow> e = SignedOverflow"
proof -
  obtain k where k: "k \<le> 3" "alignment_for sz f i = 2 ^ k" using alignment_pow2 [OF sz] by blast
  have b: "unat p_size + (2 ^ k - 1) < 2 ^ 31" using p(2) power_increasing [OF k(1), of "2::nat"] by simp
  from b have n: "unat (p_size + 2 ^ k - 1) < 2 ^ 31" by (simp only: alloc_size [OF p(2) k(1)])
  let ?n = "int (unat p_size + (2 ^ k - 1))"
  have ti: "to_int (p_size + 2 ^ k - 1) = ?n" unfolding to_int_small [OF n] by (simp only: alloc_size [OF p(2) k(1)])
  have r: "1 \<le> ?n" "?n \<le> int_max" using int_range [OF trans_le_add1 [OF p(1)] b] by simp_all
  have run: "DoPlacement sz rnd f h ms p_size d = bindR (getFreeRange rnd ?n ms)
      (\<lambda>q. Inr (mk_range (align_up (r_start q) (2 ^ k)) (r_end q)))"
    using d k(2) ti by (simp add: DoPlacement_def front_insn_def alignment_for_def Let_def)
  note spec = getFreeRange_spec [OF ok r, of rnd]
  show ?thesis
  proof (cases "getFreeRange rnd ?n ms")
    case (Inl e)
    then show ?thesis using spec run by simp
  next
    case (Inr q)
    then have q: "q \<in> elems ms" "unat p_size + (2 ^ k - 1) \<le> unat (getSize q)" using spec by simp_all
    note pl = DoPlacement_place [OF ok q(1) p(1) q(2) k(1)]
    have "unat (2 ^ k :: addr) = 2 ^ k" by (rule unat_pow2) (use k(1) in simp)
    then show ?thesis using run Inr pl q(1) k(2) by (auto simp: mk_range_def)
  qed
qed

end
