(* ===== verification/Zipr_WriteProg.thy ===== *)
theory Zipr_WriteProg
  imports Zipr_Plop Zipr_PlopTarget
begin

text \<open>
  The interface between the loop that writes the program and the part that writes an
  instruction with a target, and what the loop achieves with it.
\<close>

section \<open>Writing inside given addresses\<close>

definition writes :: "addr set \<Rightarrow> memory_space \<Rightarrow> memory_space \<Rightarrow> bool" where
  "writes W m m' \<longleftrightarrow> ms_ok m' \<and> free_set m' \<subseteq> free_set m \<and> free_set m - W \<subseteq> free_set m' \<and>
     (\<forall>x. x \<notin> W \<longrightarrow> ms_peek x m' = ms_peek x m)"

lemma wrote_writes: "wrote W m m' \<Longrightarrow> writes W m m'"
  by (auto simp: wrote_def writes_def)

lemma writes_ok: "writes W m m' \<Longrightarrow> ms_ok m'"
  by (simp add: writes_def)

lemma writes_refl: "ms_ok m \<Longrightarrow> writes W m m"
  by (simp add: writes_def)

lemma writes_trans: "writes W m m1 \<Longrightarrow> writes V m1 m2 \<Longrightarrow> writes (W \<union> V) m m2"
  by (auto simp: writes_def)

lemma writes_peek: "writes W m m' \<Longrightarrow> x \<notin> W \<Longrightarrow> ms_peek x m' = ms_peek x m"
  by (simp add: writes_def)

section \<open>The program in memory\<close>

text \<open>The entries that are written.\<close>

definition entries_of :: "dman \<Rightarrow> did list \<Rightarrow> eid list" where
  "entries_of h ds = concat (map (\<lambda>d. if pl_placed (dl h d) then d_entries (dl h d) else []) ds)"

text \<open>
  The addresses of an entry, whether it can be written and whether it is in memory. How much
  room an instruction has (\<open>isize\<close>), and what it is for one with a target to be writable
  (\<open>writable\<close>) and to lead to its target (\<open>goes\<close>), is the architecture's.
\<close>

definition entry_room :: "(ir \<Rightarrow> iid \<Rightarrow> nat) \<Rightarrow> ir \<Rightarrow> dman \<Rightarrow> eid \<Rightarrow> addr set" where
  "entry_room isize f h e = set (addrs (pl_place (ent h e)) (isize f (einsn h e)))"

definition entry_ready :: "(ir \<Rightarrow> iid \<Rightarrow> nat) \<Rightarrow> (ir \<Rightarrow> dman \<Rightarrow> eid \<Rightarrow> addr \<Rightarrow> addr \<Rightarrow> bool) \<Rightarrow>
    (asm \<Rightarrow> byte list) \<Rightarrow> ir \<Rightarrow> dman \<Rightarrow> eid \<Rightarrow> bool" where
  "entry_ready isize writable asmb f h e \<longleftrightarrow>
     pl_place (ent h e) \<noteq> 0 \<and> i_callback (the_insn f (einsn h e)) = '''' \<and>
     (case de_tgt (ent h e) of
        None \<Rightarrow> length (data_bits asmb f (einsn h e)) = isize f (einsn h e) \<and> isize f (einsn h e) \<le> 2 ^ 64
      | Some d \<Rightarrow> d_entries (dl h d) \<noteq> [] \<and> pl_place (ent h (hd (d_entries (dl h d)))) = pl_place (dl h d) \<and>
          writable f h e (pl_place (ent h e)) (pl_place (dl h d)))"

definition entry_there :: "(ir \<Rightarrow> iid \<Rightarrow> nat) \<Rightarrow> (ir \<Rightarrow> dman \<Rightarrow> eid \<Rightarrow> addr \<Rightarrow> addr \<Rightarrow> memory_space \<Rightarrow> bool) \<Rightarrow>
    (asm \<Rightarrow> byte list) \<Rightarrow> ir \<Rightarrow> dman \<Rightarrow> eid \<Rightarrow> memory_space \<Rightarrow> bool" where
  "entry_there isize goes asmb f h e m \<longleftrightarrow>
     (case de_tgt (ent h e) of
        None \<Rightarrow> \<forall>i < isize f (einsn h e). ms_peek (pl_place (ent h e) + of_nat i) m = data_bits asmb f (einsn h e) ! i
      | Some d \<Rightarrow> goes f h e (pl_place (ent h e)) (pl_place (dl h d)) m)"

text \<open>The recorded location of an instruction is the place of its entry.\<close>

definition located :: "eid set \<Rightarrow> 'a zplop_scheme \<Rightarrow> bool" where
  "located E z \<longleftrightarrow> (\<forall>e \<in> E. \<forall>a. z_locs z (einsn (z_dm z) e) = Some a \<longrightarrow> a = pl_place (ent (z_dm z) e))"

definition placed_at :: "'a zplop_scheme \<Rightarrow> eid \<Rightarrow> bool" where
  "placed_at z e \<longleftrightarrow> z_locs z (einsn (z_dm z) e) = Some (pl_place (ent (z_dm z) e))"

definition fronts :: "dman \<Rightarrow> eid \<Rightarrow> eid set" where
  "fronts h e = (case de_tgt (ent h e) of None \<Rightarrow> {} | Some d \<Rightarrow> {hd (d_entries (dl h d))})"

text \<open>
  The entries \<open>E\<close> have been laid out: every one can be written, no plugin writes it, its target
  is a dollop that begins with one of \<open>E\<close>, and the rooms of two entries do not meet.
\<close>

definition prog_laid :: "(ir \<Rightarrow> iid \<Rightarrow> nat) \<Rightarrow> (ir \<Rightarrow> dman \<Rightarrow> eid \<Rightarrow> addr \<Rightarrow> addr \<Rightarrow> bool) \<Rightarrow>
    (asm \<Rightarrow> byte list) \<Rightarrow> eid set \<Rightarrow> 'a zplop_scheme \<Rightarrow> bool" where
  "prog_laid isize writable asmb E z \<longleftrightarrow> ms_ok (z_ms z) \<and> located E z \<and>
     (\<forall>e \<in> E. entry_ready isize writable asmb (z_ir z) (z_dm z) e \<and> z_plopping z (einsn (z_dm z) e) = None \<and> fronts (z_dm z) e \<subseteq> E) \<and>
     (\<forall>e \<in> E. \<forall>e' \<in> E. e \<noteq> e' \<longrightarrow>
        entry_room isize (z_ir z) (z_dm z) e \<inter> entry_room isize (z_ir z) (z_dm z) e' = {} \<and> einsn (z_dm z) e \<noteq> einsn (z_dm z) e')"

definition entry_written :: "(ir \<Rightarrow> iid \<Rightarrow> nat) \<Rightarrow> (ir \<Rightarrow> dman \<Rightarrow> eid \<Rightarrow> addr \<Rightarrow> addr \<Rightarrow> memory_space \<Rightarrow> bool) \<Rightarrow>
    (asm \<Rightarrow> byte list) \<Rightarrow> 'a zplop_scheme \<Rightarrow> eid \<Rightarrow> bool" where
  "entry_written isize goes asmb z e \<longleftrightarrow> entry_there isize goes asmb (z_ir z) (z_dm z) e (z_ms z) \<and> placed_at z e"

text \<open>What the passes over the entries keep.\<close>

definition prog_same :: "'a zplop_scheme \<Rightarrow> 'a zplop_scheme \<Rightarrow> bool" where
  "prog_same z z' \<longleftrightarrow> z_ir z' = z_ir z \<and> z_dm z' = z_dm z \<and> z_plopping z' = z_plopping z \<and>
     z_patch_list z' = z_patch_list z \<and> z_callbacks z' = z_callbacks z"

lemma replop_update [simp]:
  "prog_laid isize writable asmb E (z\<lparr>z_replop := q\<rparr>) = prog_laid isize writable asmb E z"
  "entry_written isize goes asmb (z\<lparr>z_replop := q\<rparr>) = entry_written isize goes asmb z"
  by (simp_all add: prog_laid_def located_def entry_written_def placed_at_def fun_eq_iff)

section \<open>The interface\<close>

text \<open>
  \<open>isize f i\<close> is the room accounted for instruction \<open>i\<close>. \<open>writable f h e a t\<close> says that the
  instruction of entry \<open>e\<close> can be written at \<open>a\<close> with target \<open>t\<close>, and \<open>goes f h e a t m\<close> that
  the memory holds it there. The laws: the architecture then writes it in the room accounted
  for and nowhere else, and whether it is there depends on the bytes of that room only.
\<close>

locale entry_writer =
  fixes ar :: "'a zplop_scheme arch"
    and writable :: "ir \<Rightarrow> dman \<Rightarrow> eid \<Rightarrow> addr \<Rightarrow> addr \<Rightarrow> bool"
    and goes :: "ir \<Rightarrow> dman \<Rightarrow> eid \<Rightarrow> addr \<Rightarrow> addr \<Rightarrow> memory_space \<Rightarrow> bool"
    and isize :: "ir \<Rightarrow> iid \<Rightarrow> nat"
  assumes isize: "ar_DetermineInsnSize ar f i False = isize f i"
    and plop_target: "ms_ok (z_ms z) \<Longrightarrow> de_tgt (ent (z_dm z) e) \<noteq> None \<Longrightarrow>
      entry_target (z_dm z) (ent (z_dm z) e) ot = Inr t \<Longrightarrow> a \<noteq> 0 \<Longrightarrow> writable (z_ir z) (z_dm z) e a t \<Longrightarrow>
      \<exists>m r. ar_PlopDollopEntryWithTarget ar e a ot z =
          Inr (a + of_nat (isize (z_ir z) (de_insn (ent (z_dm z) e))), z\<lparr>z_ms := m, z_redirect := r\<rparr>) \<and>
        writes (set (addrs a (isize (z_ir z) (de_insn (ent (z_dm z) e))))) (z_ms z) m \<and> goes (z_ir z) (z_dm z) e a t m"
    and goes_local: "goes f h e a t m \<Longrightarrow>
      (\<And>x. x \<in> set (addrs a (isize f (de_insn (ent h e)))) \<Longrightarrow> ms_peek x m' = ms_peek x m) \<Longrightarrow> goes f h e a t m'"
begin

abbreviation "room \<equiv> entry_room isize"
abbreviation "ready \<equiv> entry_ready isize writable"
abbreviation "there \<equiv> entry_there isize goes"
abbreviation "laid \<equiv> prog_laid isize writable"
abbreviation "written \<equiv> entry_written isize goes"

lemma there_local:
  assumes "there asmb f h e m" "\<And>x. x \<in> room f h e \<Longrightarrow> ms_peek x m' = ms_peek x m"
  shows "there asmb f h e m'"
proof (cases "de_tgt (ent h e)")
  case None
  then show ?thesis using assms by (auto simp: entry_there_def einsn_def entry_room_def einsn_def addrs_def)
next
  case (Some d)
  then show ?thesis using assms goes_local [of f h e _ _ m m'] by (simp add: entry_there_def einsn_def entry_room_def einsn_def)
qed

lemma plop_entry_ok:
  assumes ok: "ms_ok (z_ms z)" and rdy: "ready asmb (z_ir z) (z_dm z) e" and np: "z_plopping z (de_insn (ent (z_dm z) e)) = None"
    and loc: "located (fronts (z_dm z) e) z" and ov: "ov = 0 \<or> ov = pl_place (ent (z_dm z) e)"
  shows "\<exists>m r. plop_entry asmb ar ps e ov z =
      Inr (pl_place (ent (z_dm z) e) + of_nat (isize (z_ir z) (de_insn (ent (z_dm z) e))),
           z\<lparr>z_ms := m, z_redirect := r, z_locs := (z_locs z)(de_insn (ent (z_dm z) e) \<mapsto> pl_place (ent (z_dm z) e))\<rparr>) \<and>
    writes (room (z_ir z) (z_dm z) e) (z_ms z) m \<and> there asmb (z_ir z) (z_dm z) e m"
proof -
  let ?E = "ent (z_dm z) e" and ?f = "z_ir z" and ?h = "z_dm z"
  let ?a = "pl_place ?E" and ?n = "isize ?f (de_insn ?E)"
  have a: "?a \<noteq> 0" "entry_place ?E ov = ?a" "entry_place ?E ?a = ?a"
    using rdy ov by (auto simp: entry_ready_def einsn_def entry_place_def)
  have cb: "i_callback (the_insn ?f (de_insn ?E)) = ''''" using rdy by (simp add: entry_ready_def einsn_def)
  have max0: "max x 0 = x" for x :: addr by (simp add: max_def)
  have h: "handles ps z (de_insn ?E) = []" by (simp add: handles_def np)
  show ?thesis
  proof (cases "de_tgt ?E")
    case None
    let ?bs = "data_bits asmb ?f (de_insn ?E)"
    have bs: "length ?bs = ?n" "length ?bs \<le> 2 ^ 64" using rdy None by (simp_all add: entry_ready_def einsn_def)
    obtain m where m: "PlopBytes ?a ?bs (z_ms z) = Inr m" "wrote (set (addrs ?a (length ?bs))) (z_ms z) m"
        "\<forall>i < length ?bs. ms_peek (?a + of_nat i) m = ?bs ! i"
      using plop_wrote [OF ok bs(2), where a = ?a] .
    have "z_plop ?a ?bs z = Inr (z\<lparr>z_ms := m\<rparr>)" by (simp add: z_plop_def on_ms_def m(1))
    then have run: "plop_entry asmb ar ps e ov z =
      Inr (?a + of_nat ?n, z\<lparr>z_ms := m, z_redirect := z_redirect z, z_locs := (z_locs z)(de_insn ?E \<mapsto> ?a)\<rparr>)"
      using None cb a by (simp add: plop_entry_def PlopDollopEntry_def Let_def h bs(1) mapR_def max0)
    moreover have "writes (room ?f ?h e) (z_ms z) m" using wrote_writes [OF m(2)] by (simp add: entry_room_def einsn_def bs(1))
    moreover have "there asmb ?f ?h e m" using m(3) bs(1) None by (simp add: entry_there_def einsn_def)
    ultimately show ?thesis by blast
  next
    case (Some d)
    have d: "d_entries (dl ?h d) \<noteq> []" "pl_place (ent ?h (hd (d_entries (dl ?h d)))) = pl_place (dl ?h d)"
      "writable ?f ?h e ?a (pl_place (dl ?h d))"
      using rdy Some by (simp_all add: entry_ready_def einsn_def)
    let ?x = "hd (d_entries (dl ?h d))"
    have fe: "front_entry ?h d = Inr ?x" using d(1) by (cases "d_entries (dl ?h d)") (simp_all add: front_entry_def)
    let ?t = "case z_locs z (de_insn (ent ?h ?x)) of Some a \<Rightarrow> a | None \<Rightarrow> 0"
    have tl: "?t = 0 \<or> ?t = pl_place (dl ?h d)"
      using loc d(2) Some by (auto simp: located_def einsn_def fronts_def split: option.splits)
    have t: "entry_target ?h ?E ?t = Inr (pl_place (dl ?h d))"
      using tl Some by (auto simp: entry_target_def)
    obtain m r where m: "ar_PlopDollopEntryWithTarget ar e ?a ?t z = Inr (?a + of_nat ?n, z\<lparr>z_ms := m, z_redirect := r\<rparr>)"
        "writes (set (addrs ?a ?n)) (z_ms z) m" "goes ?f ?h e ?a (pl_place (dl ?h d)) m"
      using plop_target [OF ok _ t a(1) d(3)] Some by auto
    have run: "plop_entry asmb ar ps e ov z =
      Inr (?a + of_nat ?n, z\<lparr>z_ms := m, z_redirect := r, z_locs := (z_locs z)(de_insn ?E \<mapsto> ?a)\<rparr>)"
      using Some cb a m(1) fe by (simp add: plop_entry_def PlopDollopEntry_def Let_def h mapR_def max0)
    then show ?thesis using m(2,3) Some by (intro exI conjI) (auto simp: entry_room_def einsn_def entry_there_def einsn_def)
  qed
qed

definition post :: "(asm \<Rightarrow> byte list) \<Rightarrow> eid set \<Rightarrow> eid list \<Rightarrow> 'a zplop_scheme \<Rightarrow> 'a zplop_scheme \<Rightarrow> bool" where
  "post asmb E es z z' \<longleftrightarrow> prog_same z z' \<and> laid asmb E z' \<and>
     writes (\<Union> (room (z_ir z) (z_dm z) ` set es)) (z_ms z) (z_ms z') \<and>
     (\<forall>e \<in> set es. written asmb z' e) \<and> (\<forall>e \<in> E. written asmb z e \<longrightarrow> written asmb z' e)"

lemma post_refl: "laid asmb E z \<Longrightarrow> post asmb E [] z z"
  by (simp add: post_def prog_same_def writes_refl prog_laid_def)

lemma post_trans:
  assumes "post asmb E es z z1" "post asmb E es' z1 z2" "set es \<subseteq> E"
  shows "post asmb E (es @ es') z z2"
proof -
  have "z_ir z1 = z_ir z" "z_dm z1 = z_dm z" using assms(1) by (simp_all add: post_def prog_same_def)
  then have "writes (\<Union> (room (z_ir z) (z_dm z) ` set es) \<union> \<Union> (room (z_ir z) (z_dm z) ` set es')) (z_ms z) (z_ms z2)"
    using assms writes_trans by (fastforce simp: post_def)
  moreover have "\<Union> (room (z_ir z) (z_dm z) ` set (es @ es')) =
      \<Union> (room (z_ir z) (z_dm z) ` set es) \<union> \<Union> (room (z_ir z) (z_dm z) ` set es')" by auto
  ultimately show ?thesis using assms unfolding post_def prog_same_def by auto
qed

lemma plop_post:
  assumes l: "laid asmb E z" and e: "e \<in> E" and ov: "ov = 0 \<or> ov = pl_place (ent (z_dm z) e)"
  obtains z' where "plop_entry asmb ar ps e ov z =
      Inr (pl_place (ent (z_dm z) e) + of_nat (isize (z_ir z) (einsn (z_dm z) e)), z')"
    "post asmb E [e] z z'" "\<And>q. post asmb E [e] z (z'\<lparr>z_replop := q\<rparr>)" "z_replop z' = z_replop z"
proof -
  let ?f = "z_ir z" and ?h = "z_dm z"
  have r: "ms_ok (z_ms z)" "ready asmb ?f ?h e" "z_plopping z (de_insn (ent ?h e)) = None" "located (fronts ?h e) z"
    using l e by (auto simp: prog_laid_def einsn_def located_def einsn_def)
  obtain m r where m: "plop_entry asmb ar ps e ov z =
      Inr (pl_place (ent ?h e) + of_nat (isize ?f (de_insn (ent ?h e))),
           z\<lparr>z_ms := m, z_redirect := r, z_locs := (z_locs z)(de_insn (ent ?h e) \<mapsto> pl_place (ent ?h e))\<rparr>)"
      "writes (room ?f ?h e) (z_ms z) m" "there asmb ?f ?h e m"
    using plop_entry_ok [OF r ov, of ps] by blast
  let ?z = "z\<lparr>z_ms := m, z_redirect := r, z_locs := (z_locs z)(de_insn (ent ?h e) \<mapsto> pl_place (ent ?h e))\<rparr>"
  have ne: "einsn ?h e' \<noteq> einsn ?h e" "room ?f ?h e' \<inter> room ?f ?h e = {}" if "e' \<in> E" "e' \<noteq> e" for e'
    using l e that by (auto simp: prog_laid_def)
  have loc: "located E ?z" using l ne unfolding prog_laid_def located_def by (auto simp: einsn_def)
  have laid': "laid asmb E ?z" using l loc writes_ok [OF m(2)] by (simp add: prog_laid_def einsn_def)
  have keep: "there asmb ?f ?h e' m" if "e' \<in> E" "e' \<noteq> e" "there asmb ?f ?h e' (z_ms z)" for e'
    by (rule there_local [OF that(3)]) (use ne(2) [OF that(1,2)] writes_peek [OF m(2)] in blast)
  have w: "written asmb ?z e" using m(3) by (simp add: entry_written_def placed_at_def einsn_def)
  have k: "written asmb ?z e'" if "e' \<in> E" "written asmb z e'" for e'
    using that keep ne w by (cases "e' = e") (auto simp: entry_written_def placed_at_def einsn_def)
  have p: "post asmb E [e] z ?z"
    using laid' m(2) w k by (simp add: post_def prog_same_def)
  moreover have "post asmb E [e] z (?z\<lparr>z_replop := q\<rparr>)" for q
    using p by (simp add: post_def prog_same_def)
  ultimately show thesis using that m(1) by (simp add: einsn_def)
qed

lemma fold_post:
  assumes "laid asmb E z" "set es \<subseteq> E"
    and step: "\<And>z e. laid asmb E z \<Longrightarrow> e \<in> E \<Longrightarrow> P z e \<Longrightarrow> \<exists>z'. F e z = Inr z' \<and> post asmb E [e] z z'"
    and P: "\<And>z z' e e'. P z e' \<Longrightarrow> post asmb E [e] z z' \<Longrightarrow> e' \<in> E \<Longrightarrow> P z' e'" "\<And>e. e \<in> set es \<Longrightarrow> P z e"
  shows "\<exists>z'. foldR F es z = Inr z' \<and> post asmb E es z z'"
  using assms(1,2) P(2)
proof (induction es arbitrary: z)
  case Nil
  then show ?case by (simp add: post_refl)
next
  case (Cons e es)
  obtain z1 where z1: "F e z = Inr z1" "post asmb E [e] z z1"
    using step [of z e] Cons.prems by auto
  have "laid asmb E z1" using z1(2) by (simp add: post_def)
  moreover have "P z1 e'" if "e' \<in> set es" for e'
    using P(1) [OF _ z1(2)] Cons.prems(2,3) that by auto
  ultimately obtain z2 where z2: "foldR F es z1 = Inr z2" "post asmb E es z1 z2"
    using Cons.IH [of z1] Cons.prems(2) by auto
  have "post asmb E ([e] @ es) z z2" by (rule post_trans [OF z1(2) z2(2)]) (use Cons.prems(2) in simp)
  then show ?case using z1(1) z2(1) by auto
qed

lemma write_entry_post:
  assumes l: "laid asmb E z" and e: "e \<in> E"
  shows "\<exists>z'. write_entry asmb ar ps e z = Inr z' \<and> post asmb E [e] z z' \<and>
    z_replop z' = z_replop z @ (if de_tgt (ent (z_dm z) e) \<noteq> None then [e] else [])"
proof -
  obtain z' where z': "plop_entry asmb ar ps e 0 z =
      Inr (pl_place (ent (z_dm z) e) + of_nat (isize (z_ir z) (einsn (z_dm z) e)), z')"
    "post asmb E [e] z z'" "\<And>q. post asmb E [e] z (z'\<lparr>z_replop := q\<rparr>)" "z_replop z' = z_replop z"
    using plop_post [OF l e, where ov = 0 and ps = ps] by auto
  have same: "z_dm z' = z_dm z" "z_ir z' = z_ir z" "z_plopping z' = z_plopping z"
    using z'(2) by (simp_all add: post_def prog_same_def)
  have np: "z_plopping z (einsn (z_dm z) e) = None" using l e by (simp add: prog_laid_def)
  have sz: "DetermineDollopEntrySize ar ps e False z' = of_nat (isize (z_ir z) (einsn (z_dm z) e))"
    using np by (simp add: DetermineDollopEntrySize_def DetermineInsnSize_def Let_def same isize einsn_def handles_def)
  show ?thesis
    using z' same sz by (auto simp: write_entry_def Let_def split: if_splits)
qed

lemma write_entries_post:
  assumes "laid asmb E z" "set es \<subseteq> E"
  shows "\<exists>z'. foldR (write_entry asmb ar ps) es z = Inr z' \<and> post asmb E es z z' \<and>
    z_replop z' = z_replop z @ List.filter (\<lambda>e. de_tgt (ent (z_dm z) e) \<noteq> None) es"
  using assms
proof (induction es arbitrary: z)
  case Nil
  then show ?case by (simp add: post_refl)
next
  case (Cons e es)
  obtain z1 where z1: "write_entry asmb ar ps e z = Inr z1" "post asmb E [e] z z1"
      "z_replop z1 = z_replop z @ (if de_tgt (ent (z_dm z) e) \<noteq> None then [e] else [])"
    using write_entry_post [OF Cons.prems(1), of e ps] Cons.prems(2) by auto
  have dm: "z_dm z1 = z_dm z" using z1(2) by (simp add: post_def prog_same_def)
  have "laid asmb E z1" using z1(2) by (simp add: post_def)
  then obtain z2 where z2: "foldR (write_entry asmb ar ps) es z1 = Inr z2" "post asmb E es z1 z2"
      "z_replop z2 = z_replop z1 @ List.filter (\<lambda>e. de_tgt (ent (z_dm z1) e) \<noteq> None) es"
    using Cons.IH [of z1] Cons.prems(2) by auto
  have "post asmb E ([e] @ es) z z2" by (rule post_trans [OF z1(2) z2(2)]) (use Cons.prems(2) in simp)
  then show ?case using z1(1,3) z2(1,3) dm by auto
qed

lemma WriteDollops_post:
  assumes "laid asmb E z" "set (entries_of (z_dm z) ds) \<subseteq> E"
  shows "\<exists>z'. WriteDollops asmb ar ps ds z = Inr z' \<and> post asmb E (entries_of (z_dm z) ds) z z' \<and>
    z_replop z' = z_replop z @ List.filter (\<lambda>e. de_tgt (ent (z_dm z) e) \<noteq> None) (entries_of (z_dm z) ds)"
  using assms
proof (induction ds arbitrary: z)
  case Nil
  then show ?case by (simp add: post_refl WriteDollops_def entries_of_def)
next
  case (Cons d ds)
  let ?es = "if pl_placed (dl (z_dm z) d) then d_entries (dl (z_dm z) d) else []"
  have sub: "set ?es \<subseteq> E" "set (entries_of (z_dm z) ds) \<subseteq> E" using Cons.prems(2) by (auto simp: entries_of_def)
  obtain z1 where z1: "foldR (write_entry asmb ar ps) ?es z = Inr z1" "post asmb E ?es z z1"
      "z_replop z1 = z_replop z @ List.filter (\<lambda>e. de_tgt (ent (z_dm z) e) \<noteq> None) ?es"
    using write_entries_post [OF Cons.prems(1) sub(1), of ps] by blast
  have dm: "z_dm z1 = z_dm z" using z1(2) by (simp add: post_def prog_same_def)
  have "laid asmb E z1" using z1(2) by (simp add: post_def)
  then obtain z2 where z2: "WriteDollops asmb ar ps ds z1 = Inr z2" "post asmb E (entries_of (z_dm z1) ds) z1 z2"
      "z_replop z2 = z_replop z1 @ List.filter (\<lambda>e. de_tgt (ent (z_dm z1) e) \<noteq> None) (entries_of (z_dm z1) ds)"
    using Cons.IH [of z1] sub(2) dm by auto
  have es: "entries_of (z_dm z) (d # ds) = ?es @ entries_of (z_dm z) ds" by (simp add: entries_of_def)
  have "post asmb E (?es @ entries_of (z_dm z) ds) z z2"
    by (rule post_trans [OF z1(2) _ sub(1)]) (use z2(2) dm in simp)
  moreover have "WriteDollops asmb ar ps (d # ds) z = Inr z2"
    using z1(1) z2(1) by (cases "pl_placed (dl (z_dm z) d)") (simp_all add: WriteDollops_def)
  ultimately show ?case using z1(3) z2(3) dm unfolding es filter_append by auto
qed

lemma replop_step:
  assumes l: "laid asmb E z" and e: "e \<in> E" and w: "written asmb z e"
  shows "\<exists>z'. (let src_insn = de_insn (ent (z_dm z) e); src_insn_addr = loc_at src_insn z;
         z = z\<lparr>z_locs := (z_locs z)(src_insn \<mapsto> src_insn_addr)\<rparr>
     in mapR snd (plop_entry asmb ar ps e src_insn_addr z)) = Inr z' \<and> post asmb E [e] z z'"
proof -
  have loc: "z_locs z (de_insn (ent (z_dm z) e)) = Some (pl_place (ent (z_dm z) e))"
    using w by (simp add: entry_written_def placed_at_def einsn_def)
  then have "(z_locs z)(de_insn (ent (z_dm z) e) \<mapsto> pl_place (ent (z_dm z) e)) = z_locs z" by (rule fun_upd_idem)
  then have z: "z\<lparr>z_locs := (z_locs z)(de_insn (ent (z_dm z) e) \<mapsto> pl_place (ent (z_dm z) e))\<rparr> = z" by simp
  obtain z' where "plop_entry asmb ar ps e (pl_place (ent (z_dm z) e)) z =
      Inr (pl_place (ent (z_dm z) e) + of_nat (isize (z_ir z) (einsn (z_dm z) e)), z')" "post asmb E [e] z z'"
    using plop_post [OF l e, where ov = "pl_place (ent (z_dm z) e)" and ps = ps] by auto
  then show ?thesis using loc z by (simp add: loc_at_def Let_def mapR_def)
qed

text \<open>Both passes: every entry of a placed dollop is in memory, at its place.\<close>

lemma WriteProgram:
  assumes l: "laid asmb (set (entries_of (z_dm z) ds)) z" and nil: "z_replop z = []"
  shows "\<exists>z'. bindR (WriteDollops asmb ar ps ds z) (ReplopDollopEntriesWithTargets asmb ar ps) = Inr z' \<and>
    post asmb (set (entries_of (z_dm z) ds)) (entries_of (z_dm z) ds) z z'"
proof -
  let ?es = "entries_of (z_dm z) ds"
  obtain z1 where z1: "WriteDollops asmb ar ps ds z = Inr z1" "post asmb (set ?es) ?es z z1"
      "z_replop z1 = List.filter (\<lambda>e. de_tgt (ent (z_dm z) e) \<noteq> None) ?es"
    using WriteDollops_post [OF l subset_refl, of ps] nil by auto
  have l1: "laid asmb (set ?es) z1" and w: "\<And>e. e \<in> set ?es \<Longrightarrow> written asmb z1 e" and dm: "z_dm z1 = z_dm z" "z_ir z1 = z_ir z"
    using z1(2) by (auto simp: post_def prog_same_def)
  have "\<exists>z'. ReplopDollopEntriesWithTargets asmb ar ps z1 = Inr z' \<and> post asmb (set ?es) (z_replop z1) z1 z'"
    unfolding ReplopDollopEntriesWithTargets_def
    by (rule fold_post [OF l1, where P = "\<lambda>z e. written asmb z e"])
      (use z1(3) w replop_step in \<open>auto simp: post_def\<close>)
  then obtain z2 where z2: "ReplopDollopEntriesWithTargets asmb ar ps z1 = Inr z2" "post asmb (set ?es) (z_replop z1) z1 z2"
    by blast
  have p: "post asmb (set ?es) (?es @ z_replop z1) z z2" by (rule post_trans [OF z1(2) z2(2)]) simp
  have "\<Union> (room (z_ir z) (z_dm z) ` set (?es @ z_replop z1)) = \<Union> (room (z_ir z) (z_dm z) ` set ?es)"
    using z1(3) by auto
  then have "post asmb (set ?es) ?es z z2" using p by (auto simp: post_def)
  then show ?thesis using z1(1) z2(1) by auto
qed

end

section \<open>The x86 sizer and patcher provide it\<close>

definition x86_isize :: "(asm \<Rightarrow> byte list) \<Rightarrow> ir \<Rightarrow> iid \<Rightarrow> nat" where
  "x86_isize asmb f i = x86_DetermineInsnSize asmb f i False"

definition loop_text :: "byte list \<Rightarrow> bool" where
  "loop_text bs \<longleftrightarrow> length bs = 2 \<and> 0xe0 \<le> bs ! 0 \<and> bs ! 0 \<le> 0xe3"

text \<open>A branch within reach, or a loop instruction with its fallthrough within reach.\<close>

definition x86_writable :: "(asm \<Rightarrow> byte list) \<Rightarrow> ir \<Rightarrow> dman \<Rightarrow> eid \<Rightarrow> addr \<Rightarrow> addr \<Rightarrow> bool" where
  "x86_writable asmb f h e a t \<longleftrightarrow>
     (let i = de_insn (ent h e); bs = data_bits asmb f i in
      (branch_opcode bs \<or> tgt_of f i \<noteq> None) \<and> i_callback (the_insn f i) = '''' \<and>
      ((short_branch bs \<or> branch_opcode bs) \<and> near32 a (x86_isize asmb f i) t \<or>
       loop_text bs \<and> near32 (a + 7) 5 t \<and>
         (case x86_loop_fallthrough h e of Inr (Some x) \<Rightarrow> pl_placed (ent h x) \<and> near32 (a + 2) 5 (pl_place (ent h x)) | _ \<Rightarrow> False)))"

text \<open>What a run of the processor over the bytes shows: the branch goes to \<open>t\<close>, and the loop
  instruction to \<open>t\<close> when taken and to its fallthrough when not.\<close>

definition x86_goes :: "(asm \<Rightarrow> byte list) \<Rightarrow> nat \<Rightarrow> ir \<Rightarrow> dman \<Rightarrow> eid \<Rightarrow> addr \<Rightarrow> addr \<Rightarrow> memory_space \<Rightarrow> bool" where
  "x86_goes asmb bits f h e a t m \<longleftrightarrow>
     (let i = de_insn (ent h e); bs = data_bits asmb f i in
      if loop_text bs then
        ms_peek a m = bs ! 0 \<and> a + 2 + sext8 (ms_peek (a + 1) m) = a + 7 \<and> x86_isize asmb f i = 12 \<and>
        x86_foot 15 bits (a + 2) m = set (addrs (a + 2) 5) \<and> x86_foot 15 bits (a + 7) m = set (addrs (a + 7) 5) \<and>
        x86_target 15 bits (a + 7) m = Some t \<and>
        (case x86_loop_fallthrough h e of Inr (Some x) \<Rightarrow> x86_target 15 bits (a + 2) m = Some (pl_place (ent h x)) | _ \<Rightarrow> False)
      else x86_foot 15 bits a m = set (addrs a (x86_isize asmb f i)) \<and> x86_target 15 bits a m = Some t \<and>
        (\<forall>k < x86_isize asmb f i - 4. ms_peek (a + of_nat k) m = long_form bs ! k))"

lemma loop_not_branch: "short_branch bs \<or> branch_opcode bs \<Longrightarrow> \<not> loop_text bs"
  using loop_opcode [of "bs ! 0"] by (auto simp: loop_text_def short_branch_def branch_opcode_def)

lemma addrs_12: "set (addrs (a + 2) 5) \<subseteq> set (addrs a 12)" "set (addrs (a + 7) 5) \<subseteq> set (addrs a 12)"
  "a \<in> set (addrs a 12)" "a + 1 \<in> set (addrs a 12)"
  by (simp_all add: addrs_def upt_rec)

lemma x86_goes_local:
  assumes "x86_goes asmb bits f h e a t m" "\<And>x. x \<in> set (addrs a (x86_isize asmb f (de_insn (ent h e)))) \<Longrightarrow> ms_peek x m' = ms_peek x m"
  shows "x86_goes asmb bits f h e a t m'"
proof -
  let ?n = "x86_isize asmb f (de_insn (ent h e))"
  have site: "x86_target 15 bits c m' = x86_target 15 bits c m \<and> x86_foot 15 bits c m' = x86_foot 15 bits c m"
    if "x86_foot 15 bits c m \<subseteq> set (addrs a ?n)" for c
    using x86.site_local [of bits c m m'] assms(2) that by blast
  have op: "ms_peek (a + of_nat k) m' = ms_peek (a + of_nat k) m" if "k < ?n - 4" for k
    using assms(2) that by (simp add: addrs_def)
  show ?thesis
  proof (cases "loop_text (data_bits asmb f (de_insn (ent h e)))")
    case True
    then have n: "?n = 12" and f: "x86_foot 15 bits (a + 2) m = set (addrs (a + 2) 5)" "x86_foot 15 bits (a + 7) m = set (addrs (a + 7) 5)"
      using assms(1) by (simp_all add: x86_goes_def Let_def)
    have "ms_peek a m' = ms_peek a m" "ms_peek (a + 1) m' = ms_peek (a + 1) m" using assms(2) n addrs_12 by simp_all
    then show ?thesis using assms(1) True site [of "a + 2"] site [of "a + 7"] f n addrs_12
      by (simp add: x86_goes_def Let_def split: sum.splits option.splits)
  next
    case False
    then show ?thesis using assms(1) site [of a] op by (simp add: x86_goes_def Let_def)
  qed
qed

lemma x86_plop_goes:
  assumes ok: "ms_ok (z_ms z)" and d: "de_tgt (ent (z_dm z) e) \<noteq> None" and t: "entry_target (z_dm z) (ent (z_dm z) e) ot = Inr t"
    and a: "a \<noteq> 0" and w: "x86_writable asmb (z_ir z) (z_dm z) e a t"
  shows "\<exists>m. x86_PlopDollopEntryWithTarget asmb bits e a ot z =
      Inr (a + of_nat (x86_isize asmb (z_ir z) (de_insn (ent (z_dm z) e))), z\<lparr>z_ms := m\<rparr>) \<and>
    wrote (set (addrs a (x86_isize asmb (z_ir z) (de_insn (ent (z_dm z) e))))) (z_ms z) m \<and>
    x86_goes asmb bits (z_ir z) (z_dm z) e a t m"
proof -
  let ?i = "de_insn (ent (z_dm z) e)"
  let ?bs = "data_bits asmb (z_ir z) ?i"
  obtain d' where d': "de_tgt (ent (z_dm z) e) = Some d'" using d by blast
  have ap: "a = entry_place (ent (z_dm z) e) a" using a by (simp add: entry_place_def)
  have i: "branch_opcode ?bs \<or> tgt_of (z_ir z) ?i \<noteq> None" "i_callback (the_insn (z_ir z) ?i) = ''''"
    using w by (simp_all add: x86_writable_def Let_def)
  show ?thesis
  proof (cases "loop_text ?bs")
    case False
    then have br: "short_branch ?bs \<or> branch_opcode ?bs" and near: "near32 a (x86_isize asmb (z_ir z) ?i) t"
      using w by (auto simp: x86_writable_def Let_def)
    have n: "x86_isize asmb (z_ir z) ?i = length (long_form ?bs)"
      unfolding x86_isize_def by (rule x86_size_long_form [OF br i])
    show ?thesis
      using x86_plop_branch [OF ok br refl d' t ap, of bits] near False unfolding n by (auto simp: x86_goes_def Let_def n)
  next
    case True
    then obtain b y where bsl: "?bs = [b, y]" "0xe0 \<le> b" "b \<le> 0xe3"
      by (auto simp: loop_text_def length_Suc_conv numeral_2_eq_2)
    obtain x where x: "x86_loop_fallthrough (z_dm z) e = Inr (Some x)" "pl_placed (ent (z_dm z) x)"
        "near32 (a + 2) 5 (pl_place (ent (z_dm z) x))" "near32 (a + 7) 5 t"
      using w True loop_not_branch [of ?bs] by (auto simp: x86_writable_def Let_def split: sum.splits option.splits)
    note pe = x86_plop_loop_entry [OF bsl d' t]
    have n: "x86_isize asmb (z_ir z) ?i = 12" using pe(2) i(1) True loop_not_branch [of ?bs] by (auto simp: x86_isize_def)
    have s: "a + 2 + sext8 5 = a + 7" by (simp add: sext8_def)
    show ?thesis
      using x86_plop_loop_ok [OF ok x, of bits b] pe(1) [of bits a] ap n s True x(1) bsl(1)
      by (auto simp: x86_goes_def Let_def)
  qed
qed

interpretation x86w: entry_writer "x86_arch asmb bits" "x86_writable asmb" "x86_goes asmb bits" "x86_isize asmb"
  for asmb bits
proof unfold_locales
  fix z :: "'a zplop_scheme" and e ot t a
  assume p: "ms_ok (z_ms z)" "de_tgt (ent (z_dm z) e) \<noteq> None" "entry_target (z_dm z) (ent (z_dm z) e) ot = Inr t" "a \<noteq> 0"
    "x86_writable asmb (z_ir z) (z_dm z) e a t"
  obtain m where m: "x86_PlopDollopEntryWithTarget asmb bits e a ot z =
      Inr (a + of_nat (x86_isize asmb (z_ir z) (de_insn (ent (z_dm z) e))), z\<lparr>z_ms := m\<rparr>)"
    "wrote (set (addrs a (x86_isize asmb (z_ir z) (de_insn (ent (z_dm z) e))))) (z_ms z) m"
    "x86_goes asmb bits (z_ir z) (z_dm z) e a t m"
    using x86_plop_goes [OF p, of bits] by blast
  have "z\<lparr>z_ms := m\<rparr> = z\<lparr>z_ms := m, z_redirect := z_redirect z\<rparr>" by simp
  then show "\<exists>m r. ar_PlopDollopEntryWithTarget (x86_arch asmb bits) e a ot z =
          Inr (a + of_nat (x86_isize asmb (z_ir z) (de_insn (ent (z_dm z) e))), z\<lparr>z_ms := m, z_redirect := r\<rparr>) \<and>
        writes (set (addrs a (x86_isize asmb (z_ir z) (de_insn (ent (z_dm z) e))))) (z_ms z) m \<and>
        x86_goes asmb bits (z_ir z) (z_dm z) e a t m"
    using m(1,3) wrote_writes [OF m(2)]
    by (intro exI [of _ m] exI [of _ "z_redirect z"] conjI) (simp_all add: x86_arch_def)
next
  fix f h e a t m m'
  assume "x86_goes asmb bits f h e a t m"
    "\<And>x. x \<in> set (addrs a (x86_isize asmb f (de_insn (ent h e)))) \<Longrightarrow> ms_peek x m' = ms_peek x m"
  then show "x86_goes asmb bits f h e a t m'" by (rule x86_goes_local)
qed (simp add: x86_arch_def x86_isize_def)

section \<open>So do those of ARM64\<close>

definition arm64_isize :: "(byte list \<Rightarrow> bool) \<Rightarrow> (asm \<Rightarrow> byte list) \<Rightarrow> ir \<Rightarrow> iid \<Rightarrow> nat" where
  "arm64_isize is_tbz asmb f i = arm64_DetermineInsnSize is_tbz asmb f i False"

text \<open>A branch that needs no trampoline; a test-and-branch is always written as a plan.\<close>

definition arm64_writable :: "(byte list \<Rightarrow> bool) \<Rightarrow> (asm \<Rightarrow> byte list) \<Rightarrow> ir \<Rightarrow> dman \<Rightarrow> eid \<Rightarrow> addr \<Rightarrow> addr \<Rightarrow> bool" where
  "arm64_writable is_tbz asmb f h e a t \<longleftrightarrow>
     (let bs = data_bits asmb f (de_insn (ent h e)) in length bs = 4 \<and>
      (if is_tbz bs then arm64_test (bs ! 3) \<and> arm64_near (a + 8) t
       else arm64_uncond (bs ! 3) \<and> arm64_near a t \<or>
         arm64_cond (bs ! 3) \<and> word_reach a t \<and> shift_fits 13 (word_offset a t)))"

definition arm64_goes :: "(byte list \<Rightarrow> bool) \<Rightarrow> (asm \<Rightarrow> byte list) \<Rightarrow> ir \<Rightarrow> dman \<Rightarrow> eid \<Rightarrow> addr \<Rightarrow> addr \<Rightarrow> memory_space \<Rightarrow> bool" where
  "arm64_goes is_tbz asmb f h e a t m \<longleftrightarrow>
     (let bs = data_bits asmb f (de_insn (ent h e)) in
      if is_tbz bs then
        arm64_step True a m = Some (a + 8) \<and> arm64_step True (a + 8) m = Some t \<and>
        arm64_step False a m = Some (a + 4) \<and> arm64_step False (a + 4) m = Some (a + 12)
      else arm64_step True a m = Some t \<and> arm64_step False a m = Some (if arm64_uncond (bs ! 3) then t else a + 4))"

lemma arm64_isize: "arm64_isize is_tbz asmb f i = (if is_tbz (data_bits asmb f i) then 12 else 4)"
  by (simp add: arm64_isize_def arm64_DetermineInsnSize_def)

lemma arm64_goes_local:
  assumes "arm64_goes is_tbz asmb f h e a t m"
    "\<And>x. x \<in> set (addrs a (arm64_isize is_tbz asmb f (de_insn (ent h e)))) \<Longrightarrow> ms_peek x m' = ms_peek x m"
  shows "arm64_goes is_tbz asmb f h e a t m'"
proof (cases "is_tbz (data_bits asmb f (de_insn (ent h e)))")
  case True
  have "ms_peek x m' = ms_peek x m" if "x \<in> set (addrs a 12)" for x
    using assms(2) that by (simp add: arm64_isize True)
  then have p: "ms_peek (a + of_nat k) m' = ms_peek (a + of_nat k) m" if "k < 12" for k
    using that by (simp add: addrs_def)
  have "arm64_step c (a + of_nat j) m' = arm64_step c (a + of_nat j) m" if j: "j \<le> 8" for c j
  proof (rule arm64_step_local)
    have k: "ms_peek (a + of_nat j + of_nat k) m' = ms_peek (a + of_nat j + of_nat k) m" if "k < 4" for k
      using p [of "j + k"] that j by (simp add: add.assoc)
    fix x assume "x \<in> {a + of_nat j, a + of_nat j + 1, a + of_nat j + 2, a + of_nat j + 3}"
    then show "ms_peek x m' = ms_peek x m" using k [of 0] k [of 1] k [of 2] k [of 3] by auto
  qed
  from this [of 0] this [of 4] this [of 8] show ?thesis using assms(1) True by (simp add: arm64_goes_def Let_def)
next
  case False
  have "ms_peek x m' = ms_peek x m" if "x \<in> {a, a + 1, a + 2, a + 3}" for x
    using assms(2) that by (simp add: arm64_isize False addrs_4)
  then have "arm64_step c a m' = arm64_step c a m" for c by (rule arm64_step_local)
  then show ?thesis using assms(1) False by (simp add: arm64_goes_def Let_def)
qed

lemma arm64_writes_writes: "arm64_writes W st st' \<Longrightarrow> writes W (a64_ms st) (a64_ms st')"
  by (auto simp: arm64_writes_def writes_def)

lemma plop_default:
  fixes z :: "'a zipr_arm64_scheme"
  assumes ok: "ms_ok (z_ms z)" and bs: "length bs = 4"
    and br: "arm64_uncond (bs ! 3) \<and> arm64_near a t \<or> arm64_cond (bs ! 3) \<and> word_reach a t \<and> shift_fits 13 (word_offset a t)"
  shows "\<exists>st. bindR (z_plop a bs z) (arm64_patch rnd a t) = Inr (with_st z st) \<and>
    arm64_writes {a, a + 1, a + 2, a + 3} (st_of z) st \<and>
    arm64_step True a (a64_ms st) = Some t \<and> arm64_step False a (a64_ms st) = Some (if arm64_uncond (bs ! 3) then t else a + 4)"
proof -
  have len: "length bs \<le> 2 ^ 64" using bs by simp
  obtain m where m: "PlopBytes a bs (z_ms z) = Inr m" "wrote (set (addrs a (length bs))) (z_ms z) m"
      "\<forall>i < length bs. ms_peek (a + of_nat i) m = bs ! i"
    using plop_wrote [OF ok len, where a = a] .
  let ?st = "st_of z\<lparr>a64_ms := m\<rparr>"
  have p: "plop64 a bs (st_of z) = Inr ?st" using m(1) by (simp add: plop64_def st_of_def)
  have b3: "ms_peek (a + 3) (a64_ms ?st) = bs ! 3" using m(3) [rule_format, of 3] bs by simp
  have w0: "arm64_writes {a, a + 1, a + 2, a + 3} (st_of z) ?st"
    using m(2) bs by (auto simp: wrote_def arm64_writes_def st_of_def addrs_4)
  have "\<exists>st. arm64_ApplyPatch (Suc (Suc 0)) rnd a t ?st = Inr st \<and> arm64_frame a ?st st \<and>
    arm64_step True a (a64_ms st) = Some t \<and> arm64_step False a (a64_ms st) = Some (if arm64_uncond (bs ! 3) then t else a + 4)"
    using br
  proof (elim disjE conjE)
    assume u: "arm64_uncond (bs ! 3)" and n: "arm64_near a t"
    have fits: "shift_fits 6 (word_offset a t)" "rel_target a (word_offset a t) = t"
      using n rel_target_word_offset by (simp_all add: arm64_near_def)
    have u': "arm64_uncond (ms_peek (a + 3) (a64_ms ?st))" using u b3 by simp
    obtain st where q: "arm64_ApplyPatch (Suc (Suc 0)) rnd a t ?st = Inr st"
      using arm64_uncond_total [OF u' fits(1)] by blast
    show ?thesis using q arm64_uncond_effect [OF q u'] fits(2) u by auto
  next
    assume u: "arm64_cond (bs ! 3)" and n: "word_reach a t" "shift_fits 13 (word_offset a t)"
    have u': "arm64_cond (ms_peek (a + 3) (a64_ms ?st))" using u b3 by simp
    obtain st where q: "arm64_ApplyPatch (Suc (Suc 0)) rnd a t ?st = Inr st"
      using arm64_cond_total [OF u' n(2)] by blast
    have "\<not> arm64_uncond (bs ! 3)" using u arm64_classes(1) by blast
    then show ?thesis using q arm64_cond_effect [OF q u' n(2)] rel_target_word_offset [OF n(1)] by auto
  qed
  then obtain st where st: "arm64_ApplyPatch (Suc (Suc 0)) rnd a t ?st = Inr st" "arm64_frame a ?st st"
    "arm64_step True a (a64_ms st) = Some t" "arm64_step False a (a64_ms st) = Some (if arm64_uncond (bs ! 3) then t else a + 4)"
    by blast
  have "arm64_writes {a, a + 1, a + 2, a + 3} ?st st"
    by (rule arm64_frame_writes [OF st(2)]) (use wrote_ok [OF m(2)] in simp)
  with w0 have w: "arm64_writes {a, a + 1, a + 2, a + 3} (st_of z) st" using arm64_writes_trans by fastforce
  have "bindR (z_plop a bs z) (arm64_patch rnd a t) = Inr (with_st z st)"
    using p st(1) by (simp add: z_plop_64 patch_64 numeral_2_eq_2 del: arm64_ApplyPatch.simps)
  then show ?thesis using w st(3,4) by blast
qed

lemma arm64_plop_goes:
  fixes z :: "'a zipr_arm64_scheme"
  assumes ok: "ms_ok (z_ms z)" and d: "de_tgt (ent (z_dm z) e) \<noteq> None" and t: "entry_target (z_dm z) (ent (z_dm z) e) ot = Inr t"
    and a: "a \<noteq> 0" and w: "arm64_writable is_tbz asmb (z_ir z) (z_dm z) e a t"
  shows "\<exists>st. arm64_PlopDollopEntryWithTarget rnd is_tbz asmb e a ot z =
      Inr (a + of_nat (arm64_isize is_tbz asmb (z_ir z) (de_insn (ent (z_dm z) e))), with_st z st) \<and>
    writes (set (addrs a (arm64_isize is_tbz asmb (z_ir z) (de_insn (ent (z_dm z) e))))) (z_ms z) (a64_ms st) \<and>
    arm64_goes is_tbz asmb (z_ir z) (z_dm z) e a t (a64_ms st)"
proof -
  let ?bs = "data_bits asmb (z_ir z) (de_insn (ent (z_dm z) e))"
  have len: "length ?bs = 4" using w by (simp add: arm64_writable_def Let_def)
  have a': "entry_place (ent (z_dm z) e) a = a" using a by (simp add: entry_place_def)
  have ms: "a64_ms (st_of z) = z_ms z" by (simp add: st_of_def)
  show ?thesis
  proof (cases "is_tbz ?bs")
    case True
    then have r: "arm64_test (?bs ! 3)" "arm64_near (a + 8) t" using w by (simp_all add: arm64_writable_def Let_def)
    obtain st where st: "arm64_tbz_plop rnd ?bs a t z = Inr (a + 12, with_st z st)" "arm64_writes (set (addrs a 12)) (st_of z) st"
      "\<forall>c. arm64_step c a (a64_ms st) = Some (if c then a + 8 else a + 4) \<and>
         arm64_step c (a + 4) (a64_ms st) = Some (a + 12) \<and> arm64_step c (a + 8) (a64_ms st) = Some t"
      using arm64_tbz_ok [OF ok len r, of rnd] by blast
    show ?thesis
      using st(1,3) arm64_writes_writes [OF st(2)] d t a' True
      by (intro exI [of _ st]) (simp add: arm64_PlopDollopEntryWithTarget_def arm64_TBZPlopDollopEntryWithTarget_def
          arm64_isize arm64_goes_def Let_def ms)
  next
    case False
    then obtain st where st: "bindR (z_plop a ?bs z) (arm64_patch rnd a t) = Inr (with_st z st)"
      "arm64_writes {a, a + 1, a + 2, a + 3} (st_of z) st"
      "arm64_step True a (a64_ms st) = Some t" "arm64_step False a (a64_ms st) = Some (if arm64_uncond (?bs ! 3) then t else a + 4)"
      using plop_default [OF ok len, of a t rnd] w by (auto simp: arm64_writable_def Let_def)
    obtain z1 where z1: "z_plop a ?bs z = Inr z1" "arm64_patch rnd a t z1 = Inr (with_st z st)"
      using st(1) by (auto simp: bindR_eq_Inr)
    show ?thesis
      using z1 st(3,4) arm64_writes_writes [OF st(2)] d t a' False first4_4 [OF len]
      by (intro exI [of _ st]) (simp add: arm64_PlopDollopEntryWithTarget_def arm64_DefaultPlopDollopEntryWithTarget_def
          arm64_isize arm64_goes_def Let_def ms addrs_4)
  qed
qed

interpretation arm64w: entry_writer "arm64_arch rnd is_tbz asmb" "arm64_writable is_tbz asmb" "arm64_goes is_tbz asmb"
    "arm64_isize is_tbz asmb"
  for rnd is_tbz asmb
proof unfold_locales
  fix z :: "'a zplop_scheme" and e ot t a
  assume p: "ms_ok (z_ms z)" "de_tgt (ent (z_dm z) e) \<noteq> None" "entry_target (z_dm z) (ent (z_dm z) e) ot = Inr t" "a \<noteq> 0"
    "arm64_writable is_tbz asmb (z_ir z) (z_dm z) e a t"
  from arm64_plop_goes [OF p, of rnd]
  show "\<exists>m r. ar_PlopDollopEntryWithTarget (arm64_arch rnd is_tbz asmb) e a ot z =
          Inr (a + of_nat (arm64_isize is_tbz asmb (z_ir z) (de_insn (ent (z_dm z) e))), z\<lparr>z_ms := m, z_redirect := r\<rparr>) \<and>
        writes (set (addrs a (arm64_isize is_tbz asmb (z_ir z) (de_insn (ent (z_dm z) e))))) (z_ms z) m \<and>
        arm64_goes is_tbz asmb (z_ir z) (z_dm z) e a t m"
    by (auto simp: arm64_arch_def with_st_def)
next
  fix f h e a t m m'
  assume "arm64_goes is_tbz asmb f h e a t m"
    "\<And>x. x \<in> set (addrs a (arm64_isize is_tbz asmb f (de_insn (ent h e)))) \<Longrightarrow> ms_peek x m' = ms_peek x m"
  then show "arm64_goes is_tbz asmb f h e a t m'" by (rule arm64_goes_local)
qed (simp add: arm64_arch_def arm64_isize_def)

end
