(* ===== verification/Zipr_Layout.thy ===== *)
theory Zipr_Layout
  imports Zipr_Place Zipr_WriteProg
begin

text \<open>
  What placement achieves: the entries of a placed dollop lie one behind the other, no two
  entries share an address, every dollop that a placed entry branches to is placed, and a
  placed dollop goes on with its fallthrough.
\<close>

section \<open>Sizes\<close>

definition isz :: "'a zplop_scheme arch \<Rightarrow> 'a zplop_scheme \<Rightarrow> eid \<Rightarrow> nat" where
  "isz ar z e = ar_DetermineInsnSize ar (z_ir z) (einsn (z_dm z) e) False"

definition placed_entries :: "'a zipr_scheme \<Rightarrow> eid set" where
  "placed_entries z = {e. e < h_enext (z_dm z) \<and> pl_placed (ent (z_dm z) e)}"

text \<open>The sizes are those of a program that fits into the address space.\<close>

definition sized :: "'a zplop_scheme arch \<Rightarrow> 'a zplop_scheme \<Rightarrow> bool" where
  "sized ar z \<longleftrightarrow> (\<Sum>e<h_enext (z_dm z). isz ar z e) < 2 ^ 64 \<and>
     (\<forall>e < h_enext (z_dm z). ar_DetermineInsnSize ar (z_ir z) (einsn (z_dm z) e) True + 8 < 2 ^ 31)"

text \<open>The size of an instruction depends on that instruction only.\<close>

definition size_local :: "'a zplop_scheme arch \<Rightarrow> bool" where
  "size_local ar \<longleftrightarrow> (\<forall>f f' i b. ir_insns f' i = ir_insns f i \<longrightarrow> ar_DetermineInsnSize ar f' i b = ar_DetermineInsnSize ar f i b)"

section \<open>The heap as placement uses it\<close>

text \<open>No reference leads out of the heap, and no two entries of dollops have the same instruction.\<close>

definition in_dollops :: "dman \<Rightarrow> eid set" where
  "in_dollops m = (\<Union>d<h_dnext m. set (d_entries (dl m d)))"

definition heap_ok :: "'a zipr_scheme \<Rightarrow> bool" where
  "heap_ok z \<longleftrightarrow>
     (\<forall>d < h_dnext (z_dm z). distinct (d_entries (dl (z_dm z) d)) \<and>
        (\<forall>x. d_ft (dl (z_dm z) d) = Some x \<longrightarrow> x < h_dnext (z_dm z)) \<and>
        (\<not> pl_placed (dl (z_dm z) d) \<longrightarrow> \<not> d_coalesced (dl (z_dm z) d))) \<and>
     (\<forall>e \<in> in_dollops (z_dm z). e < h_enext (z_dm z)) \<and> inj_on (einsn (z_dm z)) (in_dollops (z_dm z)) \<and>
     (\<forall>e < h_enext (z_dm z). einsn (z_dm z) e < ir_next (z_ir z) \<and>
        (\<forall>t. de_tgt (ent (z_dm z) e) = Some t \<longrightarrow> t < h_dnext (z_dm z))) \<and>
     (\<forall>(t, a) \<in> set (z_queue z). \<forall>x. t = Some x \<longrightarrow> x < h_dnext (z_dm z))"

text \<open>What a step keeps. \<open>X\<close> are the dollops it works on.\<close>

definition dollop_same :: "dollop \<Rightarrow> dollop \<Rightarrow> bool" where
  "dollop_same D D' \<longleftrightarrow> pl_placed D' = pl_placed D \<and> pl_place D' = pl_place D \<and> d_entries D' = d_entries D \<and>
     d_ft D' = d_ft D \<and> d_coalesced D' = d_coalesced D"

definition later :: "did set \<Rightarrow> 'a zplop_scheme \<Rightarrow> 'a zplop_scheme \<Rightarrow> bool" where
  "later X z z' \<longleftrightarrow> h_enext (z_dm z) \<le> h_enext (z_dm z') \<and> h_dnext (z_dm z) \<le> h_dnext (z_dm z') \<and>
     ir_extends (z_ir z) (z_ir z') \<and> z_plopping z' = z_plopping z \<and>
     (\<forall>i. ir_next (z_ir z) \<le> i \<longrightarrow> i < ir_next (z_ir z') \<longrightarrow> ibta_of (z_ir z') i = None) \<and>
     (\<forall>e < h_enext (z_dm z). einsn (z_dm z') e = einsn (z_dm z) e \<and> de_tgt (ent (z_dm z') e) = de_tgt (ent (z_dm z) e) \<and>
        (pl_placed (ent (z_dm z) e) \<longrightarrow> pl_placed (ent (z_dm z') e) \<and> pl_place (ent (z_dm z') e) = pl_place (ent (z_dm z) e))) \<and>
     (\<forall>d < h_dnext (z_dm z). d \<notin> X \<longrightarrow> pl_placed (dl (z_dm z) d) \<longrightarrow> dollop_same (dl (z_dm z) d) (dl (z_dm z') d))"

lemma dollop_same_refl [simp]: "dollop_same D D"
  by (simp add: dollop_same_def)

lemma dollop_same_trans: "dollop_same D D' \<Longrightarrow> dollop_same D' D'' \<Longrightarrow> dollop_same D D''"
  by (simp add: dollop_same_def)

lemma later_refl [simp]: "later X z z"
  by (simp add: later_def)

lemma later_trans:
  assumes "later X z z'" "later Y z' z''" "\<And>d. d \<in> Y \<Longrightarrow> d \<in> X \<or> h_dnext (z_dm z) \<le> d \<or> \<not> pl_placed (dl (z_dm z) d)"
  shows "later X z z''"
proof -
  note 1 = assms(1) [unfolded later_def] and 2 = assms(2) [unfolded later_def]
  have "dollop_same (dl (z_dm z) d) (dl (z_dm z'') d)"
    if "d < h_dnext (z_dm z)" "d \<notin> X" "pl_placed (dl (z_dm z) d)" for d
  proof -
    have a: "dollop_same (dl (z_dm z) d) (dl (z_dm z') d)" using 1 that by blast
    have "d \<notin> Y" using assms(3) that by force
    moreover have "pl_placed (dl (z_dm z') d)" using a that(3) by (simp add: dollop_same_def)
    moreover have "d < h_dnext (z_dm z')" using 1 that(1) by linarith
    ultimately have "dollop_same (dl (z_dm z') d) (dl (z_dm z'') d)" using 2 by blast
    then show ?thesis by (rule dollop_same_trans [OF a])
  qed
  moreover have "ir_extends (z_ir z) (z_ir z'')" using 1 2 ir_extends_trans by blast
  moreover have "einsn (z_dm z'') e = einsn (z_dm z) e \<and> de_tgt (ent (z_dm z'') e) = de_tgt (ent (z_dm z) e) \<and>
      (pl_placed (ent (z_dm z) e) \<longrightarrow> pl_placed (ent (z_dm z'') e) \<and> pl_place (ent (z_dm z'') e) = pl_place (ent (z_dm z) e))"
    if "e < h_enext (z_dm z)" for e
  proof -
    have e: "e < h_enext (z_dm z')" using 1 that by linarith
    note a = 1 [THEN conjunct2, THEN conjunct2, THEN conjunct2, THEN conjunct2, THEN conjunct2, THEN conjunct1, rule_format, OF that]
    note b = 2 [THEN conjunct2, THEN conjunct2, THEN conjunct2, THEN conjunct2, THEN conjunct2, THEN conjunct1, rule_format, OF e]
    show ?thesis using a b by simp
  qed
  moreover have "ibta_of (z_ir z'') i = None" if "ir_next (z_ir z) \<le> i" "i < ir_next (z_ir z'')" for i
  proof (cases "i < ir_next (z_ir z')")
    case True
    then have "ibta_of (z_ir z'') i = ibta_of (z_ir z') i" using 2 by (simp add: ir_extends_def ibta_of_def)
    then show ?thesis using 1 that True by simp
  next
    case False
    then show ?thesis using 2 that(2) by simp
  qed
  ultimately show ?thesis unfolding later_def using 1 2 by auto
qed

lemma later_shrink: "later X z z' \<Longrightarrow> (\<And>d. d \<in> X \<Longrightarrow> \<not> pl_placed (dl (z_dm z) d)) \<Longrightarrow> later {} z z'"
  unfolding later_def by blast

lemma later_weaken: "later X z z' \<Longrightarrow> X \<subseteq> Y \<Longrightarrow> later Y z z'"
  unfolding later_def by blast

lemma laterD:
  assumes "later X z z'"
  shows "h_enext (z_dm z) \<le> h_enext (z_dm z')" "h_dnext (z_dm z) \<le> h_dnext (z_dm z')"
    "ir_extends (z_ir z) (z_ir z')" "z_plopping z' = z_plopping z"
    "e < h_enext (z_dm z) \<Longrightarrow> einsn (z_dm z') e = einsn (z_dm z) e"
    "e < h_enext (z_dm z) \<Longrightarrow> de_tgt (ent (z_dm z') e) = de_tgt (ent (z_dm z) e)"
    "e < h_enext (z_dm z) \<Longrightarrow> pl_placed (ent (z_dm z) e) \<Longrightarrow> pl_placed (ent (z_dm z') e)"
    "e < h_enext (z_dm z) \<Longrightarrow> pl_placed (ent (z_dm z) e) \<Longrightarrow> pl_place (ent (z_dm z') e) = pl_place (ent (z_dm z) e)"
    "d < h_dnext (z_dm z) \<Longrightarrow> d \<notin> X \<Longrightarrow> pl_placed (dl (z_dm z) d) \<Longrightarrow> dollop_same (dl (z_dm z) d) (dl (z_dm z') d)"
    "ir_next (z_ir z) \<le> i \<Longrightarrow> i < ir_next (z_ir z') \<Longrightarrow> ibta_of (z_ir z') i = None"
  using assms unfolding later_def by blast+

lemma placed_mono: "later X z z' \<Longrightarrow> placed_entries z \<subseteq> placed_entries z'"
  unfolding later_def placed_entries_def by force

lemma isz_later:
  assumes "later X z z'" "size_local ar" "heap_ok z" "e < h_enext (z_dm z)"
  shows "ar_DetermineInsnSize ar (z_ir z') (einsn (z_dm z') e) b = ar_DetermineInsnSize ar (z_ir z) (einsn (z_dm z) e) b"
proof -
  have i: "einsn (z_dm z) e < ir_next (z_ir z)" using assms(3,4) unfolding heap_ok_def by blast
  have "ir_insns (z_ir z') (einsn (z_dm z) e) = ir_insns (z_ir z) (einsn (z_dm z) e)"
    using laterD(3) [OF assms(1)] i unfolding ir_extends_def by blast
  then have "ar_DetermineInsnSize ar (z_ir z') (einsn (z_dm z) e) b = ar_DetermineInsnSize ar (z_ir z) (einsn (z_dm z) e) b"
    using assms(2) unfolding size_local_def by blast
  then show ?thesis by (simp only: laterD(5) [OF assms(1,4)])
qed

lemma sized_earlier:
  assumes "later X z z'" "size_local ar" "heap_ok z" "sized ar z'"
  shows "sized ar z"
proof -
  have le: "h_enext (z_dm z) \<le> h_enext (z_dm z')" by (rule laterD(1) [OF assms(1)])
  have "(\<Sum>e<h_enext (z_dm z). isz ar z e) = (\<Sum>e<h_enext (z_dm z). isz ar z' e)"
    unfolding isz_def by (rule sum.cong) (simp_all add: isz_later [OF assms(1-3)])
  also have "\<dots> \<le> (\<Sum>e<h_enext (z_dm z'). isz ar z' e)"
    by (rule sum_mono2) (use le in auto)
  finally have "(\<Sum>e<h_enext (z_dm z). isz ar z e) < 2 ^ 64" using assms(4) unfolding sized_def by linarith
  moreover have "ar_DetermineInsnSize ar (z_ir z) (einsn (z_dm z) e) True + 8 < 2 ^ 31" if "e < h_enext (z_dm z)" for e
    using assms(4) le that isz_later [OF assms(1-3) that, of True] unfolding sized_def by (metis order_less_le_trans)
  ultimately show ?thesis unfolding sized_def by blast
qed

section \<open>Entries one behind the other\<close>

fun laid_run :: "'a zplop_scheme arch \<Rightarrow> 'a zplop_scheme \<Rightarrow> addr \<Rightarrow> eid list \<Rightarrow> bool" where
  "laid_run ar z a [] \<longleftrightarrow> True"
| "laid_run ar z a (e # es) \<longleftrightarrow> pl_placed (ent (z_dm z) e) \<and> pl_place (ent (z_dm z) e) = a \<and>
     laid_run ar z (a + of_nat (isz ar z e)) es"

definition run_size :: "'a zplop_scheme arch \<Rightarrow> 'a zplop_scheme \<Rightarrow> eid list \<Rightarrow> nat" where
  "run_size ar z es = sum_list (map (isz ar z) es)"

lemma run_size_simps [simp]:
  "run_size ar z [] = 0" "run_size ar z (e # es) = isz ar z e + run_size ar z es"
  "run_size ar z (es @ fs) = run_size ar z es + run_size ar z fs"
  by (simp_all add: run_size_def)

lemma laid_run_append: "laid_run ar z a (es @ fs) \<longleftrightarrow> laid_run ar z a es \<and> laid_run ar z (a + of_nat (run_size ar z es)) fs"
  by (induction es arbitrary: a) (auto simp: add.assoc)

lemma laid_run_placed: "laid_run ar z a es \<Longrightarrow> e \<in> set es \<Longrightarrow> pl_placed (ent (z_dm z) e)"
  by (induction es arbitrary: a) auto

lemma run_size_later:
  assumes "later X z z'" "size_local ar" "heap_ok z" "set es \<subseteq> {..<h_enext (z_dm z)}"
  shows "run_size ar z' es = run_size ar z es"
  using assms(4) unfolding run_size_def isz_def
  by (intro arg_cong [where f = sum_list] map_cong) (auto simp: isz_later [OF assms(1-3)])

lemma laid_run_later:
  assumes "later X z z'" "size_local ar" "heap_ok z" "set es \<subseteq> {..<h_enext (z_dm z)}" "laid_run ar z a es"
  shows "laid_run ar z' a es"
  using assms(4,5)
proof (induction es arbitrary: a)
  case (Cons e es)
  have e: "e < h_enext (z_dm z)" using Cons.prems(1) by simp
  have "isz ar z' e = isz ar z e" by (simp add: isz_def isz_later [OF assms(1-3) e])
  then show ?case using Cons laterD(7,8) [OF assms(1) e] by simp
qed simp

section \<open>Placing the entries of a dollop\<close>

lemma DetermineDollopEntrySize_plain:
  "z_plopping z = Map.empty \<Longrightarrow> DetermineDollopEntrySize ar [] e b z = of_nat (ar_DetermineInsnSize ar (z_ir z) (einsn (z_dm z) e) b)"
  by (simp add: DetermineDollopEntrySize_def DetermineInsnSize_def handles_def einsn_def Let_def)

lemma place_entry_Inr:
  "on_dm_unit (place_entry e a) z = Inr z' \<longleftrightarrow> \<not> pl_placed (ent (z_dm z) e) \<and>
     z' = z\<lparr>z_dm := upd_ent e (\<lambda>E. E\<lparr>pl_placed := True, pl_place := a\<rparr>) (z_dm z)\<rparr>"
  by (auto simp: on_dm_unit_def place_entry_def Place_def bindR_eq_Inr assertR_def upd_ent_def)

text \<open>What stays as it is when entries are placed.\<close>

definition entries_only :: "'a zplop_scheme \<Rightarrow> 'a zplop_scheme \<Rightarrow> bool" where
  "entries_only z z' \<longleftrightarrow> z_ms z' = z_ms z \<and> z_ir z' = z_ir z \<and> z_plopping z' = z_plopping z \<and>
     dl (z_dm z') = dl (z_dm z) \<and> h_enext (z_dm z') = h_enext (z_dm z) \<and> h_dnext (z_dm z') = h_dnext (z_dm z) \<and>
     einsn (z_dm z') = einsn (z_dm z) \<and> (\<forall>e. de_tgt (ent (z_dm z') e) = de_tgt (ent (z_dm z) e)) \<and>
     (\<forall>e. pl_placed (ent (z_dm z) e) \<longrightarrow> pl_placed (ent (z_dm z') e) \<and> pl_place (ent (z_dm z') e) = pl_place (ent (z_dm z) e)) \<and>
     set (z_queue z) \<subseteq> set (z_queue z')"

lemma entries_only_refl: "entries_only z z"
  by (simp add: entries_only_def)

lemma entries_only_trans: "entries_only z z' \<Longrightarrow> entries_only z' z'' \<Longrightarrow> entries_only z z''"
  by (auto simp: entries_only_def)

lemma entries_only_later: "entries_only z z' \<Longrightarrow> later {} z z'"
  by (auto simp: entries_only_def later_def)

lemma queue_insert_sel [simp]:
  "z_ms (queue_insert q z) = z_ms z" "z_ir (queue_insert q z) = z_ir z" "z_dm (queue_insert q z) = z_dm z"
  "z_patch_list (queue_insert q z) = z_patch_list z" "set (z_queue (queue_insert q z)) = insert q (set (z_queue z))"
  by (simp_all add: queue_insert_def)

lemma queue_insert_plop [simp]: "z_plopping (queue_insert q z) = z_plopping z"
  by (simp add: queue_insert_def)

lemma isz_same: "z_ir z' = z_ir z \<Longrightarrow> einsn (z_dm z') = einsn (z_dm z) \<Longrightarrow> isz ar z' = isz ar z"
  by (simp add: isz_def fun_eq_iff)

lemma place_entries_Inr:
  assumes "place_entries ar [] may es cur z = Inr (cur', rest, z')" "z_plopping z = Map.empty"
    "set es \<subseteq> {..<h_enext (z_dm z)}"
  shows "\<exists>done. es = done @ rest \<and> entries_only z z' \<and> laid_run ar z' cur done \<and> cur' = cur + of_nat (run_size ar z' done) \<and>
    distinct done \<and> set done \<inter> placed_entries z = {} \<and> placed_entries z' = placed_entries z \<union> set done \<and>
    (\<forall>e \<in> set done. \<forall>t. de_tgt (ent (z_dm z) e) = Some t \<longrightarrow> (\<exists>a. (Some t, a) \<in> set (z_queue z'))) \<and>
    (\<forall>q \<in> set (z_queue z'). q \<in> set (z_queue z) \<or> (\<exists>e \<in> set done. fst q = de_tgt (ent (z_dm z) e)))"
  using assms
proof (induction es arbitrary: cur z)
  case Nil
  then show ?case by (auto intro: exI [of _ "[]"] simp: entries_only_refl)
next
  case (Cons e es)
  show ?case
  proof (cases "may e (es = []) cur z")
    case False
    then show ?thesis using Cons.prems by (auto intro: exI [of _ "[]"] simp: entries_only_refl)
  next
    case True
    define z1 where "z1 = z\<lparr>z_dm := upd_ent e (\<lambda>E. E\<lparr>pl_placed := True, pl_place := cur\<rparr>) (z_dm z)\<rparr>"
    have ei: "einsn (z_dm z1) = einsn (z_dm z)" by (auto simp: z1_def heap einsn_def fun_eq_iff)
    have sz: "isz ar z1 = isz ar z" by (rule isz_same) (simp_all add: ei, simp add: z1_def)
    have pl: "DetermineDollopEntrySize ar [] e False z1 = of_nat (isz ar z e)"
    proof -
      have "z_ir z1 = z_ir z" "z_plopping z1 = Map.empty" using Cons.prems(2) by (simp_all add: z1_def)
      then show ?thesis by (simp add: DetermineDollopEntrySize_plain isz_def ei)
    qed
    let ?n = "cur + of_nat (isz ar z e)"
    define z2 where "z2 = (case de_tgt (ent (z_dm z1) e) of None \<Rightarrow> z1 | Some t \<Rightarrow> queue_insert (Some t, ?n) z1)"
    have run: "\<not> pl_placed (ent (z_dm z) e)" "place_entries ar [] may es ?n z2 = Inr (cur', rest, z')"
      using Cons.prems(1) True by (auto simp: bindR_eq_Inr place_entry_Inr Let_def z1_def [symmetric] pl z2_def cong: option.case_cong)
    have dm2: "z_dm z2 = z_dm z1" "z_ir z2 = z_ir z" "z_ms z2 = z_ms z" "z_plopping z2 = z_plopping z"
      by (auto simp: z2_def z1_def split: option.splits)
    have tg: "de_tgt (ent (z_dm z1) x) = de_tgt (ent (z_dm z) x)" for x by (simp add: z1_def heap)
    have q2: "set (z_queue z2) = set (z_queue z) \<union> {(Some t, ?n) | t. de_tgt (ent (z_dm z) e) = Some t}"
      by (auto simp: z2_def tg split: option.splits) (auto simp: z1_def)
    have eo: "entries_only z z2" unfolding entries_only_def using run(1)
      by (auto simp: dm2 ei tg q2) (auto simp: z1_def heap)
    have ie: "e < h_enext (z_dm z)" using Cons.prems(3) by simp
    have p2: "placed_entries z2 = insert e (placed_entries z)"
      using ie by (auto simp: placed_entries_def dm2) (auto simp: z1_def heap split: if_splits)
    have s: "z_plopping z2 = Map.empty" "set es \<subseteq> {..<h_enext (z_dm z2)}"
      using Cons.prems(2,3) by (simp_all add: dm2) (simp add: z1_def heap)
    obtain d where d: "es = d @ rest" "entries_only z2 z'" "laid_run ar z' ?n d"
      "cur' = ?n + of_nat (run_size ar z' d)" "distinct d" "set d \<inter> placed_entries z2 = {}"
      "placed_entries z' = placed_entries z2 \<union> set d"
      "\<forall>e \<in> set d. \<forall>t. de_tgt (ent (z_dm z2) e) = Some t \<longrightarrow> (\<exists>a. (Some t, a) \<in> set (z_queue z'))"
      "\<forall>q \<in> set (z_queue z'). q \<in> set (z_queue z2) \<or> (\<exists>e \<in> set d. fst q = de_tgt (ent (z_dm z2) e))"
      using Cons.IH [OF run(2) s] by blast
    have e2: "pl_placed (ent (z_dm z2) e)" "pl_place (ent (z_dm z2) e) = cur" by (simp_all add: dm2) (simp_all add: z1_def heap)
    have sz': "isz ar z' e = isz ar z e"
      using d(2) eo by (simp add: isz_def entries_only_def)
    have q': "set (z_queue z2) \<subseteq> set (z_queue z')" using d(2) by (simp add: entries_only_def)
    show ?thesis
    proof (intro exI [of _ "e # d"] conjI)
      show "e # es = (e # d) @ rest" by (simp add: d(1))
      show "entries_only z z'" by (rule entries_only_trans [OF eo d(2)])
      show "laid_run ar z' cur (e # d)" using d(2,3) e2 by (simp add: sz' entries_only_def)
      show "cur' = cur + of_nat (run_size ar z' (e # d))" using d(4) by (simp add: sz')
      show "distinct (e # d)" using d(5,6) p2 by auto
      show "set (e # d) \<inter> placed_entries z = {}" using d(6) p2 run(1) by (auto simp: placed_entries_def)
      show "placed_entries z' = placed_entries z \<union> set (e # d)" using d(7) p2 by auto
      show "\<forall>x \<in> set (e # d). \<forall>t. de_tgt (ent (z_dm z) x) = Some t \<longrightarrow> (\<exists>a. (Some t, a) \<in> set (z_queue z'))"
        using d(8) q' q2 by (auto simp: dm2 tg)
      show "\<forall>q \<in> set (z_queue z'). q \<in> set (z_queue z) \<or> (\<exists>x \<in> set (e # d). fst q = de_tgt (ent (z_dm z) x))"
        using d(9) q2 by (fastforce simp: dm2 tg)
    qed
  qed
qed

section \<open>Splitting off what did not fit\<close>

lemma addDollop_heap [simp]:
  "dl (addDollop d m) = dl m" "ent (addDollop d m) = ent m" "h_enext (addDollop d m) = h_enext m" "h_dnext (addDollop d m) = h_dnext m"
  by (simp_all add: addDollop_def dl_def ent_def fun_eq_iff)

lemma AddDollops_heap:
  "AddDollops n x m = Inr m' \<Longrightarrow> dl m' = dl m \<and> ent m' = ent m \<and> h_enext m' = h_enext m \<and> h_dnext m' = h_dnext m"
proof (induction n x m rule: AddDollops.induct)
  case (1 n m)
  then show ?case by (auto simp: dl_def ent_def fun_eq_iff)
next
  case (3 n d m)
  then show ?case by (auto simp: Let_def)
qed simp

lemma in_dollopsI: "d < h_dnext m \<Longrightarrow> e \<in> set (d_entries (dl m d)) \<Longrightarrow> e \<in> in_dollops m"
  by (auto simp: in_dollops_def)

lemma heap_okD:
  assumes "heap_ok z"
  shows "d < h_dnext (z_dm z) \<Longrightarrow> distinct (d_entries (dl (z_dm z) d))"
    "d < h_dnext (z_dm z) \<Longrightarrow> d_ft (dl (z_dm z) d) = Some x \<Longrightarrow> x < h_dnext (z_dm z)"
    "d < h_dnext (z_dm z) \<Longrightarrow> \<not> pl_placed (dl (z_dm z) d) \<Longrightarrow> \<not> d_coalesced (dl (z_dm z) d)"
    "d < h_dnext (z_dm z) \<Longrightarrow> set (d_entries (dl (z_dm z) d)) \<subseteq> {..<h_enext (z_dm z)}"
    "inj_on (einsn (z_dm z)) (in_dollops (z_dm z))"
    "e < h_enext (z_dm z) \<Longrightarrow> einsn (z_dm z) e < ir_next (z_ir z)"
    "e < h_enext (z_dm z) \<Longrightarrow> de_tgt (ent (z_dm z) e) = Some t \<Longrightarrow> t < h_dnext (z_dm z)"
    "(Some t, a) \<in> set (z_queue z) \<Longrightarrow> t < h_dnext (z_dm z)"
    "e \<in> in_dollops (z_dm z) \<Longrightarrow> e < h_enext (z_dm z)"
  using assms unfolding heap_ok_def by (blast, blast, blast, blast intro: in_dollopsI, blast, blast, blast, blast, blast)

text \<open>The part of the state that the dollop heap does not hold.\<close>

definition heap_only :: "'a zplop_scheme \<Rightarrow> 'a zplop_scheme \<Rightarrow> bool" where
  "heap_only z z' \<longleftrightarrow> z_ms z' = z_ms z \<and> z_ir z' = z_ir z \<and> z_plopping z' = z_plopping z \<and> z_queue z' = z_queue z \<and>
     h_enext (z_dm z') = h_enext (z_dm z) \<and> einsn (z_dm z') = einsn (z_dm z) \<and>
     (\<forall>e. de_tgt (ent (z_dm z') e) = de_tgt (ent (z_dm z) e) \<and> pl_placed (ent (z_dm z') e) = pl_placed (ent (z_dm z) e) \<and>
       pl_place (ent (z_dm z') e) = pl_place (ent (z_dm z) e))"

lemma heap_only_refl: "heap_only z z"
  by (simp add: heap_only_def)

lemma heap_only_placed: "heap_only z z' \<Longrightarrow> placed_entries z' = placed_entries z"
  by (simp add: heap_only_def placed_entries_def)

lemma heap_only_isz: "heap_only z z' \<Longrightarrow> isz ar z' = isz ar z"
  by (simp add: heap_only_def isz_def fun_eq_iff)

lemma heap_only_laid: "heap_only z z' \<Longrightarrow> laid_run ar z' a es = laid_run ar z a es"
  by (induction es arbitrary: a) (simp_all add: heap_only_isz, simp_all add: heap_only_def)

lemma split_insn_at:
  assumes "distinct (es @ f # fs)" "inj_on g (set (es @ f # fs))"
  shows "takeWhile (\<lambda>e. g e \<noteq> g f) (es @ f # fs) = es" "dropWhile (\<lambda>e. g e \<noteq> g f) (es @ f # fs) = f # fs"
proof -
  have "\<forall>e \<in> set es. g e \<noteq> g f" using assms unfolding inj_on_def by auto
  then show "takeWhile (\<lambda>e. g e \<noteq> g f) (es @ f # fs) = es" "dropWhile (\<lambda>e. g e \<noteq> g f) (es @ f # fs) = f # fs"
    by (simp_all add: takeWhile_append dropWhile_append)
qed

lemma split_rest_Inr:
  assumes "split_rest n ev d rest z = Inr z'" "heap_ok z" "d < h_dnext (z_dm z)" "d_entries (dl (z_dm z) d) = done @ rest"
  shows "heap_only z z' \<and> later {d} z z' \<and> heap_ok z' \<and> d_entries (dl (z_dm z') d) = done \<and>
    pl_placed (dl (z_dm z') d) = pl_placed (dl (z_dm z) d) \<and> pl_place (dl (z_dm z') d) = pl_place (dl (z_dm z) d) \<and>
    d_coalesced (dl (z_dm z') d) = d_coalesced (dl (z_dm z) d) \<and>
    (\<forall>x < h_dnext (z_dm z). x \<noteq> d \<longrightarrow> dollop_same (dl (z_dm z) x) (dl (z_dm z') x)) \<and>
    (\<forall>x. h_dnext (z_dm z) \<le> x \<longrightarrow> x < h_dnext (z_dm z') \<longrightarrow> \<not> pl_placed (dl (z_dm z') x))"
proof (cases rest)
  case Nil
  then show ?thesis using assms by (simp add: split_rest_def heap_only_refl)
next
  case (Cons e es)
  let ?m = "z_dm z" let ?N = "h_dnext (z_dm z)"
  note ok = heap_okD [OF assms(2)]
  have sub: "set (done @ e # es) \<subseteq> in_dollops ?m" using assms(3,4) Cons by (auto intro: in_dollopsI)
  have sp: "takeWhile (\<lambda>x. einsn ?m x \<noteq> einsn ?m e) (d_entries (dl ?m d)) = done"
    "dropWhile (\<lambda>x. einsn ?m x \<noteq> einsn ?m e) (d_entries (dl ?m d)) = e # es"
    using split_insn_at [of "done" e es "einsn ?m"] ok(1) [OF assms(3)] inj_on_subset [OF ok(5) sub] by (simp_all add: assms(4) Cons)
  have dN: "d \<noteq> ?N" "einsn ?m e \<in> set (dinsns ?m d)" using assms(3,4) Cons by (simp_all add: dinsns_def)
  obtain m1 where m1: "split (cur_env ev z) (einsn ?m e) d ?m = Inr (Some ?N, m1)"
    "\<forall>x. x \<noteq> d \<longrightarrow> x \<noteq> ?N \<longrightarrow> dl m1 x = (dl ?m x)\<lparr>d_fb := d_fb (dl m1 x)\<rparr>" "einsn m1 = einsn ?m"
    "\<forall>x. x \<notin> set (e # es) \<longrightarrow> ent m1 x = ent ?m x" "\<forall>x. x \<in> set (e # es) \<longrightarrow> ent m1 x = (ent ?m x)\<lparr>de_member := Some ?N\<rparr>"
    "h_enext m1 = h_enext ?m" "h_dnext m1 = Suc ?N"
    "dl m1 d = (dl ?m d)\<lparr>d_entries := done, d_ft := Some ?N, d_size := d_size (dl m1 d), d_fb := d_fb (dl m1 d)\<rparr>"
    "dl m1 ?N = empty_dollop\<lparr>d_entries := e # es, d_ft := d_ft (dl ?m d), d_size := d_size (dl m1 ?N), d_fb := d_fb (dl m1 ?N)\<rparr>"
    by (rule split_records [OF dN, of "cur_env ev z", unfolded sp]) (rule that; assumption)
  obtain m2 where m2: "AddDollops n (Some ?N) m1 = Inr m2"
    and z': "z' = z_upd_dm (upd_dl d (\<lambda>D. D\<lparr>d_truncated := True\<rparr>)) (z\<lparr>z_dm := m2\<rparr>)"
    using assms(1) m1(1) by (auto simp: split_rest_def Cons on_dm_def on_dm_unit_def bindR_eq_Inr einsn_def [symmetric])
  note h2 = AddDollops_heap [OF m2]
  have ent': "ent (z_dm z') = ent m1" "einsn (z_dm z') = einsn ?m" "h_enext (z_dm z') = h_enext ?m" "h_dnext (z_dm z') = Suc ?N"
    using h2 m1(3,6,7) by (simp_all add: z' z_upd_dm_def heap einsn_def fun_eq_iff)
  have dl': "dl (z_dm z') x = (if x = d then (dl m1 d)\<lparr>d_truncated := True\<rparr> else dl m1 x)" for x
    using h2 by (simp add: z' z_upd_dm_def heap)
  have rest': "z_ms z' = z_ms z" "z_ir z' = z_ir z" "z_plopping z' = z_plopping z" "z_queue z' = z_queue z"
    by (simp_all add: z' z_upd_dm_def)
  have en: "de_tgt (ent m1 x) = de_tgt (ent ?m x)" "pl_placed (ent m1 x) = pl_placed (ent ?m x)" "pl_place (ent m1 x) = pl_place (ent ?m x)" for x
  proof -
    have "ent m1 x = ent ?m x \<or> ent m1 x = (ent ?m x)\<lparr>de_member := Some ?N\<rparr>"
      using m1(4,5) by (cases "x \<in> set (e # es)") blast+
    then show "de_tgt (ent m1 x) = de_tgt (ent ?m x)" "pl_placed (ent m1 x) = pl_placed (ent ?m x)"
      "pl_place (ent m1 x) = pl_place (ent ?m x)" by fastforce+
  qed
  have D: "d_entries (dl (z_dm z') d) = done" "d_ft (dl (z_dm z') d) = Some ?N" "pl_placed (dl (z_dm z') d) = pl_placed (dl ?m d)"
    "pl_place (dl (z_dm z') d) = pl_place (dl ?m d)" "d_coalesced (dl (z_dm z') d) = d_coalesced (dl ?m d)"
    using arg_cong [OF m1(8), of d_entries] arg_cong [OF m1(8), of d_ft] arg_cong [OF m1(8), of pl_placed]
      arg_cong [OF m1(8), of pl_place] arg_cong [OF m1(8), of d_coalesced] by (simp_all add: dl')
  have N: "d_entries (dl (z_dm z') ?N) = e # es" "d_ft (dl (z_dm z') ?N) = d_ft (dl ?m d)" "\<not> pl_placed (dl (z_dm z') ?N)"
    "\<not> d_coalesced (dl (z_dm z') ?N)"
    using arg_cong [OF m1(9), of d_entries] arg_cong [OF m1(9), of d_ft] arg_cong [OF m1(9), of pl_placed]
      arg_cong [OF m1(9), of d_coalesced] dN by (simp_all add: dl' empty_dollop_def)
  have X: "dollop_same (dl ?m x) (dl (z_dm z') x)" if "x < ?N" "x \<noteq> d" for x
  proof -
    have "dl m1 x = (dl ?m x)\<lparr>d_fb := d_fb (dl m1 x)\<rparr>" using m1(2) that by simp
    note r = arg_cong [OF this]
    show ?thesis using r [of d_entries] r [of d_ft] r [of pl_placed] r [of pl_place] r [of d_coalesced] that(2)
      by (simp add: dl' dollop_same_def)
  qed
  have ho: "heap_only z z'" by (simp add: heap_only_def rest' ent' en)
  have lt: "x < Suc ?N \<longleftrightarrow> x < ?N \<and> x \<noteq> d \<or> x = d \<or> x = ?N" for x using assms(3) by auto
  have same: "in_dollops (z_dm z') = in_dollops ?m"
  proof -
    have "in_dollops (z_dm z') = (\<Union>x \<in> {..<?N} - {d}. set (d_entries (dl (z_dm z') x))) \<union> set done \<union> set (e # es)"
      using assms(3) D(1) N(1) unfolding in_dollops_def ent' by (auto simp: lt lessThan_def less_Suc_eq)
    also have "(\<Union>x \<in> {..<?N} - {d}. set (d_entries (dl (z_dm z') x))) = (\<Union>x \<in> {..<?N} - {d}. set (d_entries (dl ?m x)))"
      using X by (simp add: dollop_same_def)
    also have "\<dots> \<union> set done \<union> set (e # es) = in_dollops ?m"
      using assms(3,4) Cons unfolding in_dollops_def by (auto simp: lessThan_def)
    finally show ?thesis .
  qed
  have hok: "heap_ok z'"
    unfolding heap_ok_def
  proof (intro conjI allI impI ballI)
    fix x assume x: "x < h_dnext (z_dm z')"
    have "distinct (done @ e # es)" using ok(1) [OF assms(3)] by (simp add: assms(4) Cons)
    then show "distinct (d_entries (dl (z_dm z') x))" using x ok(1) [of x] X [of x] D(1) N(1) lt [of x]
      by (auto simp: ent' dollop_same_def)
    show "y < h_dnext (z_dm z')" if "d_ft (dl (z_dm z') x) = Some y" for y
      using x that ok(2) [of x y] ok(2) [OF assms(3), of y] X [of x] D(2) N(2) lt [of x]
      by (auto simp: ent' dollop_same_def)
    show "\<not> d_coalesced (dl (z_dm z') x)" if "\<not> pl_placed (dl (z_dm z') x)"
      using x that ok(3) [of x] X [of x] D(3,5) N(4) lt [of x] assms(3) by (auto simp: ent' dollop_same_def)
  next
    show "x < h_enext (z_dm z')" if "x \<in> in_dollops (z_dm z')" for x using that ok(9) by (simp add: same ent')
    show "inj_on (einsn (z_dm z')) (in_dollops (z_dm z'))" using ok(5) by (simp add: same ent')
    show "einsn (z_dm z') x < ir_next (z_ir z')" if "x < h_enext (z_dm z')" for x using that ok(6) by (simp add: ent' rest')
    show "t < h_dnext (z_dm z')" if "x < h_enext (z_dm z')" "de_tgt (ent (z_dm z') x) = Some t" for x t
      using that ok(7) [of x t] by (simp add: ent' en)
    show "case q of (t, a) \<Rightarrow> \<forall>x. t = Some x \<longrightarrow> x < h_dnext (z_dm z')" if "q \<in> set (z_queue z')" for q
      using that ok(8) by (auto simp: rest' ent' dest: less_SucI)
  qed
  have "later {d} z z'"
    using X by (simp add: later_def ent' rest' en)
  then show ?thesis using ho hok D X N(3) by (auto simp: ent' less_Suc_eq)
qed

section \<open>Changing a dollop\<close>

lemma upd_dollop_step:
  assumes "heap_ok z" "d_entries (u (dl (z_dm z) d)) = d_entries (dl (z_dm z) d)" "d_ft (u (dl (z_dm z) d)) = d_ft (dl (z_dm z) d)"
    "\<not> pl_placed (u (dl (z_dm z) d)) \<Longrightarrow> \<not> d_coalesced (u (dl (z_dm z) d))" "z' = z\<lparr>z_dm := upd_dl d u (z_dm z)\<rparr>"
  shows "heap_only z z' \<and> later {d} z z' \<and> heap_ok z' \<and> h_dnext (z_dm z') = h_dnext (z_dm z) \<and>
    dl (z_dm z') d = u (dl (z_dm z) d) \<and> (\<forall>x. x \<noteq> d \<longrightarrow> dl (z_dm z') x = dl (z_dm z) x)"
proof -
  note ok = heap_okD [OF assms(1)]
  have dl': "dl (z_dm z') x = (if x = d then u (dl (z_dm z) d) else dl (z_dm z) x)" for x by (simp add: assms(5) heap)
  have s: "ent (z_dm z') = ent (z_dm z)" "einsn (z_dm z') = einsn (z_dm z)" "h_enext (z_dm z') = h_enext (z_dm z)"
    "h_dnext (z_dm z') = h_dnext (z_dm z)" "z_ir z' = z_ir z" "z_queue z' = z_queue z" "z_ms z' = z_ms z" "z_plopping z' = z_plopping z"
    by (simp_all add: assms(5) heap)
  have "d_entries (dl (z_dm z') x) = d_entries (dl (z_dm z) x)" for x using assms(2) by (simp add: dl')
  then have i: "in_dollops (z_dm z') = in_dollops (z_dm z)" by (simp add: in_dollops_def s)
  have "heap_ok z'" unfolding heap_ok_def i s
    using ok(1-3) assms(2-4) ok(5-9) by (auto simp: dl')
  moreover have "heap_only z z'" by (simp add: heap_only_def s)
  moreover have "later {d} z z'" by (simp add: later_def s dl')
  ultimately show ?thesis by (simp add: s dl')
qed

lemma reCalc_step:
  assumes "on_dm_unit (reCalculateSize ev d) z = Inr z'" "heap_ok z" "d < h_dnext (z_dm z)"
  shows "heap_only z z' \<and> later {d} z z' \<and> heap_ok z' \<and> h_dnext (z_dm z') = h_dnext (z_dm z) \<and>
    dollop_same (dl (z_dm z) d) (dl (z_dm z') d) \<and> (\<forall>x. x \<noteq> d \<longrightarrow> dl (z_dm z') x = dl (z_dm z) x)"
proof -
  obtain k where "z' = z\<lparr>z_dm := upd_dl d (\<lambda>D. D\<lparr>d_size := k\<rparr>) (z_dm z)\<rparr>"
    using assms(1) by (auto simp: on_dm_unit_def bindR_eq_Inr reCalculateSize_Inr)
  from upd_dollop_step [OF assms(2) _ _ _ this] show ?thesis using heap_okD(3) [OF assms(2,3)] by (simp add: dollop_same_def)
qed

lemma place_dollop_step:
  assumes "on_dm_unit (place_dollop d a) z = Inr z'" "heap_ok z" "d < h_dnext (z_dm z)"
  shows "\<not> pl_placed (dl (z_dm z) d) \<and> heap_only z z' \<and> later {d} z z' \<and> heap_ok z' \<and> h_dnext (z_dm z') = h_dnext (z_dm z) \<and>
    dl (z_dm z') d = (dl (z_dm z) d)\<lparr>pl_placed := True, pl_place := a\<rparr> \<and> (\<forall>x. x \<noteq> d \<longrightarrow> dl (z_dm z') x = dl (z_dm z) x)"
proof -
  have "\<not> pl_placed (dl (z_dm z) d)" and "z' = z\<lparr>z_dm := upd_dl d (\<lambda>D. D\<lparr>pl_placed := True, pl_place := a\<rparr>) (z_dm z)\<rparr>"
    using assms(1) by (auto simp: on_dm_unit_def place_dollop_def Place_def bindR_eq_Inr assertR_def upd_dl_def split: if_splits)
  from this(1) upd_dollop_step [OF assms(2) _ _ _ this(2)] show ?thesis by simp
qed

lemma setCoalesced_step:
  assumes "on_dm_unit (setCoalesced ev True d) z = Inr z'" "heap_ok z" "d < h_dnext (z_dm z)" "pl_placed (dl (z_dm z) d)"
  shows "heap_only z z' \<and> later {d} z z' \<and> heap_ok z' \<and> h_dnext (z_dm z') = h_dnext (z_dm z) \<and>
    dollop_same ((dl (z_dm z) d)\<lparr>d_coalesced := True\<rparr>) (dl (z_dm z') d) \<and> (\<forall>x. x \<noteq> d \<longrightarrow> dl (z_dm z') x = dl (z_dm z) x)"
proof -
  obtain k where "z' = z\<lparr>z_dm := upd_dl d (\<lambda>D. D\<lparr>d_coalesced := True, d_size := k\<rparr>) (z_dm z)\<rparr>"
    using assms(1) by (auto simp: on_dm_unit_def bindR_eq_Inr setCoalesced_def reCalculateSize_Inr upd_dl_def dl_def)
  from upd_dollop_step [OF assms(2) _ _ _ this] show ?thesis using assms(4) by (simp add: dollop_same_def)
qed

section \<open>Ending a dollop with a jump\<close>

definition jump_with :: "byte list \<Rightarrow> iid option \<Rightarrow> ir \<Rightarrow> iid \<times> ir" where
  "jump_with bits p = addNewDataBits p bits"

lemma add_new_sel:
  "fst (add_new t f) = ir_next f" "ir_insns (snd (add_new t f)) i = (if i = ir_next f then Some (new_insn t) else ir_insns f i)"
  "ir_next (snd (add_new t f)) = Suc (ir_next f)"
  by (simp_all add: add_new_def)

lemma AskPlugins_none [simp]: "AskPluginsAboutPlopping [] insns z = z"
  unfolding AskPluginsAboutPlopping_def DoPluginsPlop_def by (induction insns) simp_all

lemma base_splitDollop_step:
  assumes "base_splitDollop (jump_with bits) ev ar [] d cur z = Inr (cur', z')" "heap_ok z" "d < h_dnext (z_dm z)"
    "z_plopping z = Map.empty" "pl_placed (dl (z_dm z) d)" "e = h_enext (z_dm z)"
  shows "later {d} z z' \<and> heap_ok z' \<and> z_ms z' = z_ms z \<and> h_dnext (z_dm z') = h_dnext (z_dm z) \<and>
    h_enext (z_dm z') = Suc e \<and> placed_entries z' = insert e (placed_entries z) \<and> e \<notin> placed_entries z \<and>
    pl_placed (ent (z_dm z') e) \<and> pl_place (ent (z_dm z') e) = cur \<and> de_tgt (ent (z_dm z') e) = d_ft (dl (z_dm z) d) \<and>
    ir_insns (z_ir z') (einsn (z_dm z') e) = Some (new_insn (DataBits bits)) \<and> cur' = cur + of_nat (isz ar z' e) \<and>
    dollop_same ((dl (z_dm z) d)\<lparr>d_entries := d_entries (dl (z_dm z) d) @ [e]\<rparr>) (dl (z_dm z') d) \<and>
    (\<forall>x. x \<noteq> d \<longrightarrow> dl (z_dm z') x = dl (z_dm z) x) \<and>
    set (z_queue z') = insert (d_ft (dl (z_dm z) d), cur') (set (z_queue z))"
proof -
  let ?m = "z_dm z" let ?ft = "d_ft (dl (z_dm z) d)" let ?i = "ir_next (z_ir z)"
  let ?f = "snd (add_new (DataBits bits) (z_ir z))"
  note ok = heap_okD [OF assms(2)]
  define E where "E = \<lparr>pl_placed = True, pl_place = cur, de_insn = ?i, de_tgt = ?ft, de_member = Some d\<rparr>"
  define m1 where "m1 = ?m\<lparr>h_ents := (h_ents ?m)(e \<mapsto> E), h_enext := Suc e\<rparr>"
  define m2 where "m2 = upd_dl d (\<lambda>D. D\<lparr>d_entries := d_entries D @ [e]\<rparr>) m1"
  obtain k where z': "z' = z\<lparr>z_ir := ?f, z_dm := upd_dl d (\<lambda>D. D\<lparr>d_ft_patched := True, d_size := k\<rparr>) m2,
      z_queue := List.insert (?ft, cur') (z_queue z)\<rparr>"
    and cur': "cur' = cur + DetermineDollopEntrySize ar [] e False (z\<lparr>z_ir := ?f, z_dm := m1\<rparr>)"
  proof -
    have 1: "jump_with bits None (z_ir z) = (?i, ?f)" by (simp add: jump_with_def addNewDataBits_def add_new_def)
    have 2: "new_entry ?i d ?m = (e, ?m\<lparr>h_ents := (h_ents ?m)(e \<mapsto> mk_dentry ?i (Some d)), h_enext := Suc e\<rparr>)"
      by (simp add: new_entry_def assms(6))
    have 3: "place_entry e cur (setTargetDollop ?ft e (?m\<lparr>h_ents := (h_ents ?m)(e \<mapsto> mk_dentry ?i (Some d)), h_enext := Suc e\<rparr>)) = Inr m1"
      by (simp add: place_entry_def setTargetDollop_def upd_ent_def ent_def mk_dentry_def Place_def assertR_def m1_def E_def)
    let ?z1 = "z\<lparr>z_ir := ?f, z_dm := m1\<rparr>"
    obtain z2 where z2: "on_dm_unit (setFallthroughPatched (cur_env ev (?z1\<lparr>z_dm := m2\<rparr>)) True d) (?z1\<lparr>z_dm := m2\<rparr>) = Inr z2"
      "cur' = cur + DetermineDollopEntrySize ar [] e False ?z1" "z' = queue_insert (?ft, cur') z2"
      using assms(1) unfolding base_splitDollop_def Let_def 1 2 case_prod_conv 3
      by (auto simp: 3 bindR_eq_Inr z_upd_dm_def push_back_def m2_def)
    obtain k where "z2 = ?z1\<lparr>z_dm := upd_dl d (\<lambda>D. D\<lparr>d_ft_patched := True, d_size := k\<rparr>) m2\<rparr>"
      using z2(1) by (auto simp: on_dm_unit_def bindR_eq_Inr setFallthroughPatched_def reCalculateSize_Inr upd_dl_def dl_def)
    then show ?thesis using z2(2,3) by (intro that [of k]) (simp_all add: queue_insert_def)
  qed
  have fr: "z_ir z' = ?f" "z_ms z' = z_ms z" "z_plopping z' = Map.empty" "set (z_queue z') = insert (?ft, cur') (set (z_queue z))"
    "h_enext (z_dm z') = Suc e" "h_dnext (z_dm z') = h_dnext ?m"
    using assms(4) by (simp_all add: z' m2_def m1_def heap)
  have ent': "ent (z_dm z') x = (if x = e then E else ent ?m x)" for x by (simp add: z' m2_def m1_def heap) (simp add: ent_def)
  have ei: "einsn (z_dm z') x = (if x = e then ?i else einsn ?m x)" for x by (simp add: einsn_def ent' E_def)
  have ei1: "einsn m1 e = ?i" by (simp add: einsn_def m1_def ent_def E_def)
  have dl1: "dl m1 = dl ?m" by (simp add: m1_def dl_def fun_eq_iff)
  have dl': "dl (z_dm z') x = (if x = d then (dl ?m d)\<lparr>d_entries := d_entries (dl ?m d) @ [e], d_ft_patched := True, d_size := k\<rparr> else dl ?m x)" for x
    by (simp add: z' m2_def heap dl1)
  have ine: "x \<in> in_dollops (z_dm z') \<longleftrightarrow> x = e \<or> x \<in> in_dollops ?m" for x
    using assms(3) by (auto simp: in_dollops_def fr dl' split: if_splits)
  have old: "x \<noteq> e" if "x \<in> in_dollops ?m" for x using ok(9) [OF that] by (simp add: assms(6))
  have hok: "heap_ok z'" unfolding heap_ok_def fr
  proof (intro conjI allI impI ballI)
    fix x assume x: "x < h_dnext ?m"
    have "e \<notin> set (d_entries (dl ?m d))" using old in_dollopsI [OF assms(3)] by blast
    then show "distinct (d_entries (dl (z_dm z') x))" using ok(1) [OF x] ok(1) [OF assms(3)] by (simp add: dl')
    show "y < h_dnext ?m" if "d_ft (dl (z_dm z') x) = Some y" for y using ok(2) [OF x, of y] that by (simp add: dl' split: if_splits)
    show "\<not> d_coalesced (dl (z_dm z') x)" if "\<not> pl_placed (dl (z_dm z') x)" using ok(3) [OF x] that by (simp add: dl' split: if_splits)
  next
    show "x < Suc e" if "x \<in> in_dollops (z_dm z')" for x using that ok(9) [of x] by (auto simp: ine assms(6))
    have ne: "einsn ?m x \<noteq> ?i" if "x \<in> in_dollops ?m" for x using ok(6) [OF ok(9) [OF that]] by simp
    show "inj_on (einsn (z_dm z')) (in_dollops (z_dm z'))"
    proof (rule inj_onI)
      fix x y assume a: "x \<in> in_dollops (z_dm z')" "y \<in> in_dollops (z_dm z')" "einsn (z_dm z') x = einsn (z_dm z') y"
      show "x = y" using a inj_onD [OF ok(5), of x y] ne [of x] ne [of y] old [of x] old [of y]
        by (cases "x = e"; cases "y = e") (auto simp: ine ei)
    qed
    show "einsn (z_dm z') x < ir_next ?f" if "x < Suc e" for x using that ok(6) [of x] by (auto simp: ei add_new_sel assms(6) less_Suc_eq)
    show "t < h_dnext ?m" if "x < Suc e" "de_tgt (ent (z_dm z') x) = Some t" for x t
      using that ok(7) [of x t] ok(2) [OF assms(3), of t] by (auto simp: ent' E_def assms(6) less_Suc_eq split: if_splits)
    show "case q of (t, a) \<Rightarrow> \<forall>x. t = Some x \<longrightarrow> x < h_dnext ?m" if "q \<in> insert (?ft, cur') (set (z_queue z))" for q
      using that ok(8) ok(2) [OF assms(3)] by auto
  qed
  have "later {d} z z'"
    by (auto simp: later_def fr ent' ei dl' assms(4,6) ir_extends_def add_new_sel ibta_of_def new_insn_def)
  moreover have "placed_entries z' = insert e (placed_entries z)"
    by (auto simp: placed_entries_def fr ent' E_def assms(6))
  moreover have "DetermineDollopEntrySize ar [] e False (z\<lparr>z_ir := ?f, z_dm := m1\<rparr>) = of_nat (isz ar z' e)"
    using assms(4) by (simp add: DetermineDollopEntrySize_plain isz_def fr ei ei1)
  ultimately show ?thesis using hok cur'
    by (simp add: fr ent' E_def ei dl' add_new_sel placed_entries_def assms(6) dollop_same_def)
qed

section \<open>One dollop\<close>

text \<open>\<open>grown z z' cur cur' es\<close>: the entries \<open>es\<close> were placed one behind the other, from \<open>cur\<close> to \<open>cur'\<close>.\<close>

definition grown :: "'a zplop_scheme arch \<Rightarrow> 'a zplop_scheme \<Rightarrow> 'a zplop_scheme \<Rightarrow> addr \<Rightarrow> addr \<Rightarrow> eid list \<Rightarrow> bool" where
  "grown ar z z' cur cur' es \<longleftrightarrow> z_ms z' = z_ms z \<and> laid_run ar z' cur es \<and> cur' = cur + of_nat (run_size ar z' es) \<and>
     distinct es \<and> set es \<inter> placed_entries z = {} \<and> placed_entries z' = placed_entries z \<union> set es \<and>
     set (z_queue z) \<subseteq> set (z_queue z') \<and>
     (\<forall>e \<in> set es. \<forall>t. de_tgt (ent (z_dm z') e) = Some t \<longrightarrow> (\<exists>a. (Some t, a) \<in> set (z_queue z')))"

lemma grown_none: "heap_only z z' \<Longrightarrow> grown ar z z' cur cur []"
  by (simp add: grown_def heap_only_placed) (simp add: heap_only_def)

lemma placed_entries_lt: "placed_entries z \<subseteq> {..<h_enext (z_dm z)}"
  by (auto simp: placed_entries_def)

lemma grown_trans:
  assumes "grown ar z z1 cur cur1 es" "grown ar z1 z2 cur1 cur2 fs" "later X z1 z2" "size_local ar" "heap_ok z1"
  shows "grown ar z z2 cur cur2 (es @ fs)"
proof -
  note 1 = assms(1) [unfolded grown_def] and 2 = assms(2) [unfolded grown_def]
  have es: "set es \<subseteq> {..<h_enext (z_dm z1)}" using 1 placed_entries_lt [of z1] by blast
  have r: "run_size ar z2 es = run_size ar z1 es" by (rule run_size_later [OF assms(3-5) es])
  have "laid_run ar z2 cur es" using laid_run_later [OF assms(3-5) es] 1 by blast
  then have "laid_run ar z2 cur (es @ fs)" using 1 2 by (simp add: laid_run_append r)
  moreover have "de_tgt (ent (z_dm z2) e) = de_tgt (ent (z_dm z1) e)" if "e \<in> set es" for e
    using laterD(6) [OF assms(3)] es that by blast
  ultimately have "\<forall>e \<in> set (es @ fs). \<forall>t. de_tgt (ent (z_dm z2) e) = Some t \<longrightarrow> (\<exists>a. (Some t, a) \<in> set (z_queue z2))"
    "laid_run ar z2 cur (es @ fs)" using 1 2 by fastforce+
  moreover have "cur2 = cur + of_nat (run_size ar z2 (es @ fs))" using 1 2 by (simp add: r add.assoc)
  moreover have "distinct (es @ fs)" "set (es @ fs) \<inter> placed_entries z = {}" "placed_entries z2 = placed_entries z \<union> set (es @ fs)"
    using 1 2 by auto
  moreover have "set (z_queue z) \<subseteq> set (z_queue z2)" using 1 2 by blast
  ultimately show ?thesis using 1 2 unfolding grown_def by simp
qed

lemma chain_head:
  assumes 1: "on_dm_unit (reCalculateSize ev1 d) z = Inr z1" and 2: "on_dm_unit (place_dollop d cur) z1 = Inr z2"
    and 3: "place_entries ar [] may (d_entries (dl (z_dm z2) d)) cur z2 = Inr (cur', rest, z3)"
    and 4: "split_rest n ev d rest z3 = Inr z4"
    and ok: "heap_ok z" "d < h_dnext (z_dm z)" "z_plopping z = Map.empty"
  shows "\<not> pl_placed (dl (z_dm z) d) \<and> later {d} z z4 \<and> heap_ok z4 \<and> pl_placed (dl (z_dm z4) d) \<and> pl_place (dl (z_dm z4) d) = cur \<and>
    \<not> d_coalesced (dl (z_dm z4) d) \<and> grown ar z z4 cur cur' (d_entries (dl (z_dm z4) d)) \<and>
    (\<forall>x < h_dnext (z_dm z). x \<noteq> d \<longrightarrow> dollop_same (dl (z_dm z) x) (dl (z_dm z4) x)) \<and>
    (\<forall>x. h_dnext (z_dm z) \<le> x \<longrightarrow> x < h_dnext (z_dm z4) \<longrightarrow> \<not> pl_placed (dl (z_dm z4) x))"
proof -
  note s1 = reCalc_step [OF 1 ok(1,2)]
  then have ok1: "heap_ok z1" "d < h_dnext (z_dm z1)" using ok(2) by auto
  note s2 = place_dollop_step [OF 2 ok1]
  then have ok2: "heap_ok z2" "d < h_dnext (z_dm z2)" using ok1 by auto
  have p2: "z_plopping z2 = Map.empty" using s1 s2 ok(3) by (simp add: heap_only_def)
  have e2: "set (d_entries (dl (z_dm z2) d)) \<subseteq> {..<h_enext (z_dm z2)}" by (rule heap_okD(4) [OF ok2])
  obtain es where s3: "d_entries (dl (z_dm z2) d) = es @ rest" "entries_only z2 z3" "laid_run ar z3 cur es"
      "cur' = cur + of_nat (run_size ar z3 es)" "distinct es" "set es \<inter> placed_entries z2 = {}"
      "placed_entries z3 = placed_entries z2 \<union> set es"
      "\<forall>e \<in> set es. \<forall>t. de_tgt (ent (z_dm z2) e) = Some t \<longrightarrow> (\<exists>a. (Some t, a) \<in> set (z_queue z3))"
      "\<forall>q \<in> set (z_queue z3). q \<in> set (z_queue z2) \<or> (\<exists>e \<in> set es. fst q = de_tgt (ent (z_dm z2) e))"
    using place_entries_Inr [OF 3 p2 e2] by blast
  note eo = s3(2) [unfolded entries_only_def]
  have ok3: "heap_ok z3"
  proof -
    have "x < h_dnext (z_dm z2)" if q: "(Some x, a) \<in> set (z_queue z3)" for x a
      using s3(9) [rule_format, OF q] heap_okD(8) [OF ok2(1)] heap_okD(7) [OF ok2(1)] e2 s3(1) by fastforce
    then have "\<forall>(t, a) \<in> set (z_queue z3). \<forall>x. t = Some x \<longrightarrow> x < h_dnext (z_dm z2)" by fast
    moreover have "in_dollops (z_dm z3) = in_dollops (z_dm z2)" using eo by (simp add: in_dollops_def)
    ultimately show ?thesis using ok2(1) eo unfolding heap_ok_def by simp
  qed
  have d3: "d < h_dnext (z_dm z3)" "d_entries (dl (z_dm z3) d) = es @ rest" using ok2(2) eo s3(1) by simp_all
  note s4 = split_rest_Inr [OF 4 ok3 d3]
  have l: "later {d} z z4"
  proof -
    have a: "later {d} z z1" "later {d} z1 z2" "later {d} z3 z4" using s1 s2 s4 by blast+
    have "later {d} z2 z3" by (rule later_weaken [OF entries_only_later [OF s3(2)]]) simp
    then show ?thesis using a by (meson later_trans)
  qed
  have pe: "placed_entries z2 = placed_entries z" using s1 s2 heap_only_placed by metis
  have g: "grown ar z z4 cur cur' es"
    using s3(3-8) eo s1 s2 s4 heap_only_placed [of z3 z4] heap_only_laid [of z3 z4] heap_only_isz [of z3 z4]
    unfolding grown_def by (simp add: pe heap_only_def run_size_def)
  have D: "d_entries (dl (z_dm z4) d) = es" "pl_placed (dl (z_dm z4) d)" "pl_place (dl (z_dm z4) d) = cur"
    "d_coalesced (dl (z_dm z4) d) = d_coalesced (dl (z_dm z) d)" "\<not> pl_placed (dl (z_dm z) d)"
    using s1 s2 s4 eo by (simp_all add: dollop_same_def)
  have "\<not> d_coalesced (dl (z_dm z) d)" using heap_okD(3) [OF ok(1,2)] D(5) by blast
  moreover have "dollop_same (dl (z_dm z) x) (dl (z_dm z4) x)" if "x < h_dnext (z_dm z)" "x \<noteq> d" for x
    using that s1 s2 s4 eo by simp
  moreover have "h_dnext (z_dm z3) = h_dnext (z_dm z)" using s1 s2 eo by simp
  ultimately show ?thesis using D g l s4 by simp
qed

section \<open>What follows a dollop\<close>

text \<open>
  A dollop with a fallthrough goes on with it, ends with a jump to it, or ends at the pinned
  address of an instruction.
\<close>

definition run_end :: "'a zplop_scheme arch \<Rightarrow> 'a zplop_scheme \<Rightarrow> did \<Rightarrow> addr" where
  "run_end ar z d = pl_place (dl (z_dm z) d) + of_nat (run_size ar z (d_entries (dl (z_dm z) d)))"

definition ends_with_jump :: "byte list \<Rightarrow> 'a zplop_scheme \<Rightarrow> did \<Rightarrow> did \<Rightarrow> bool" where
  "ends_with_jump bits z d f \<longleftrightarrow> d_entries (dl (z_dm z) d) \<noteq> [] \<and>
     (let e = last (d_entries (dl (z_dm z) d))
      in de_tgt (ent (z_dm z) e) = Some f \<and> ir_insns (z_ir z) (einsn (z_dm z) e) = Some (new_insn (DataBits bits)))"

definition pinned_at :: "'a zplop_scheme \<Rightarrow> addr \<Rightarrow> bool" where
  "pinned_at z a \<longleftrightarrow> a \<noteq> 0 \<and> (\<exists>i < ir_next (z_ir z). ibta_of (z_ir z) i = Some a)"

definition flows :: "'a zplop_scheme arch \<Rightarrow> byte list \<Rightarrow> 'a zplop_scheme \<Rightarrow> did \<Rightarrow> bool" where
  "flows ar bits z d \<longleftrightarrow> (case d_ft (dl (z_dm z) d) of None \<Rightarrow> True | Some f \<Rightarrow>
     pl_placed (dl (z_dm z) f) \<and> pl_place (dl (z_dm z) f) = run_end ar z d \<or>
     ends_with_jump bits z d f \<or> pinned_at z (run_end ar z d))"

lemma run_end_later:
  assumes "later X z z'" "size_local ar" "heap_ok z" "d < h_dnext (z_dm z)" "d \<notin> X" "pl_placed (dl (z_dm z) d)"
  shows "run_end ar z' d = run_end ar z d"
  using laterD(9) [OF assms(1,4-6)] run_size_later [OF assms(1-3) heap_okD(4) [OF assms(3,4)]]
  by (simp add: run_end_def dollop_same_def)

lemma ibta_later: "ir_extends f f' \<Longrightarrow> i < ir_next f \<Longrightarrow> ibta_of f' i = ibta_of f i"
  by (simp add: ir_extends_def ibta_of_def)

lemma pinned_at_later: "later X z z' \<Longrightarrow> pinned_at z a \<Longrightarrow> pinned_at z' a"
  using laterD(3) [of X z z'] ibta_later [of "z_ir z" "z_ir z'"] unfolding pinned_at_def ir_extends_def by (metis order_less_le_trans)

lemma ends_with_jump_later:
  assumes "later X z z'" "heap_ok z" "d < h_dnext (z_dm z)" "d \<notin> X" "pl_placed (dl (z_dm z) d)" "ends_with_jump bits z d f"
  shows "ends_with_jump bits z' d f"
proof -
  have s: "d_entries (dl (z_dm z') d) = d_entries (dl (z_dm z) d)" using laterD(9) [OF assms(1,3-5)] by (simp add: dollop_same_def)
  let ?e = "last (d_entries (dl (z_dm z) d))"
  have "?e \<in> set (d_entries (dl (z_dm z) d))" using assms(6) by (simp add: ends_with_jump_def)
  then have e: "?e < h_enext (z_dm z)" using heap_okD(4) [OF assms(2,3)] by blast
  have "ir_insns (z_ir z') (einsn (z_dm z) ?e) = ir_insns (z_ir z) (einsn (z_dm z) ?e)"
    using laterD(3) [OF assms(1)] heap_okD(6) [OF assms(2) e] by (simp add: ir_extends_def)
  then show ?thesis using assms(6) laterD(5,6) [OF assms(1) e] by (simp add: ends_with_jump_def s Let_def)
qed

lemma flows_later:
  assumes "later X z z'" "size_local ar" "heap_ok z" "d < h_dnext (z_dm z)" "pl_placed (dl (z_dm z) d)" "d \<notin> X" "flows ar bits z d"
    and "\<And>f. pl_placed (dl (z_dm z) f) \<Longrightarrow> f \<in> X \<Longrightarrow> pl_placed (dl (z_dm z') f) \<and> pl_place (dl (z_dm z') f) = pl_place (dl (z_dm z) f)"
  shows "flows ar bits z' d"
proof -
  have s: "dollop_same (dl (z_dm z) d) (dl (z_dm z') d)" by (rule laterD(9) [OF assms(1,4,6,5)])
  note re = run_end_later [OF assms(1-4,6,5)]
  show ?thesis
  proof (cases "d_ft (dl (z_dm z) d)")
    case None
    then show ?thesis using s by (simp add: flows_def dollop_same_def)
  next
    case (Some f)
    have f: "f < h_dnext (z_dm z)" by (rule heap_okD(2) [OF assms(3,4) Some])
    have "pl_placed (dl (z_dm z') f) \<and> pl_place (dl (z_dm z') f) = pl_place (dl (z_dm z) f)" if "pl_placed (dl (z_dm z) f)"
      using that assms(8) laterD(9) [OF assms(1) f _ that] by (cases "f \<in> X") (simp_all add: dollop_same_def)
    then show ?thesis
      using assms(7) Some s re ends_with_jump_later [OF assms(1,3,4,6,5), of bits f] pinned_at_later [OF assms(1)]
      by (auto simp: flows_def dollop_same_def)
  qed
qed

lemma link_fallthrough_step:
  assumes lf: "link_fallthrough n ev ar [] (base_splitDollop (jump_with bits) ev ar []) pc am allowed d cur z = Inr (nxt, cur', allowed', z')"
    and ok: "heap_ok z" "d < h_dnext (z_dm z)" "z_plopping z = Map.empty" "pl_placed (dl (z_dm z) d)" "\<not> d_coalesced (dl (z_dm z) d)"
    and np: "\<not> pc_has_preplacement pc"
  shows "\<exists>js. later {d} z z' \<and> heap_ok z' \<and> h_dnext (z_dm z') = h_dnext (z_dm z) \<and> grown ar z z' cur cur' js \<and>
    d_entries (dl (z_dm z') d) = d_entries (dl (z_dm z) d) @ js \<and> pl_placed (dl (z_dm z') d) \<and>
    pl_place (dl (z_dm z') d) = pl_place (dl (z_dm z) d) \<and> d_ft (dl (z_dm z') d) = d_ft (dl (z_dm z) d) \<and>
    (\<forall>x. x \<noteq> d \<longrightarrow> dl (z_dm z') x = dl (z_dm z) x) \<and>
    (case nxt of
       None \<Rightarrow> d_ft (dl (z_dm z) d) = None \<or> (\<exists>f. d_ft (dl (z_dm z) d) = Some f \<and> ends_with_jump bits z' d f) \<or>
         js = [] \<and> pinned_at z' cur
     | Some f \<Rightarrow> js = [] \<and> cur' = cur \<and> d_ft (dl (z_dm z) d) = Some f)"
proof (cases "d_ft (dl (z_dm z) d)")
  case None
  then have e: "nxt = None" "cur' = cur" "z' = z" using lf by (simp_all add: link_fallthrough_def)
  show ?thesis using ok(1,4) None grown_none [OF heap_only_refl, of ar z cur] by (intro exI [of _ "[]"]) (simp add: e)
next
  case (Some f)
  have fd: "f < h_dnext (z_dm z)" by (rule heap_okD(2) [OF ok(1,2) Some])
  obtain ibta where ib: "front_ibta (z_ir z) (z_dm z) f = Inr ibta" using lf ok(5) by (auto simp: link_fallthrough_def Some bindR_eq_Inr)
  obtain fe where fe: "front_entry (z_dm z) f = Inr fe" "ibta = ibta_of (z_ir z) (einsn (z_dm z) fe)"
    using ib by (auto simp: front_ibta_def mapR_def bindR_eq_Inr einsn_def)
  have "fe \<in> set (d_entries (dl (z_dm z) f))" using fe(1) by (auto simp: front_entry_def split: list.splits)
  then have fi: "einsn (z_dm z) fe < ir_next (z_ir z)" using heap_okD(4) [OF ok(1) fd] heap_okD(6) [OF ok(1)] by blast
  define pin where "pin \<longleftrightarrow> (case ibta of None \<Rightarrow> False | Some a \<Rightarrow> a \<noteq> 0 \<and> cur = a)"
  show ?thesis
  proof (cases pin)
    case True
    then have e: "nxt = None" "cur' = cur" "z' = z"
      using lf ok(5) by (simp_all add: link_fallthrough_def Some ib pin_def [symmetric])
    have "pinned_at z cur" using True fi by (auto simp: pin_def pinned_at_def fe(2) split: option.splits)
    then show ?thesis using ok(1,4) grown_none [OF heap_only_refl, of ar z cur] by (intro exI [of _ "[]"]) (simp add: e)
  next
    case False
    obtain b where "if b then \<exists>c a. base_splitDollop (jump_with bits) ev ar [] d cur z = Inr (c, z') \<and> cur' = c \<and> nxt = None
       else on_dm_unit (setCoalesced (cur_env ev z) True d) z = Inr z' \<and> cur' = cur \<and> nxt = Some f"
      using lf False np ok(5) by (auto simp: link_fallthrough_def Some ib pin_def [symmetric] bindR_eq_Inr Let_def split: if_splits)
    then consider "base_splitDollop (jump_with bits) ev ar [] d cur z = Inr (cur', z')" "nxt = None"
      | "on_dm_unit (setCoalesced (cur_env ev z) True d) z = Inr z'" "cur' = cur" "nxt = Some f"
      by (cases b) auto
    then show ?thesis
    proof cases
      case 1
      note st = base_splitDollop_step [OF 1(1) ok(1-4) refl]
      let ?e = "h_enext (z_dm z)"
      have g: "grown ar z z' cur cur' [?e]" using st Some by (auto simp: grown_def)
      have D: "d_entries (dl (z_dm z') d) = d_entries (dl (z_dm z) d) @ [?e]" "pl_placed (dl (z_dm z') d)"
        "pl_place (dl (z_dm z') d) = pl_place (dl (z_dm z) d)" "d_ft (dl (z_dm z') d) = Some f"
        using st Some ok(4) by (simp_all add: dollop_same_def)
      have "ends_with_jump bits z' d f" using st Some by (simp add: ends_with_jump_def D Let_def)
      then show ?thesis using st g D Some 1(2) by (intro exI [of _ "[?e]"]) simp
    next
      case 2
      note st = setCoalesced_step [OF 2(1) ok(1,2,4)]
      have g: "grown ar z z' cur cur' []" using grown_none [of z z' ar cur] st 2(2) by simp
      show ?thesis using st g Some 2(2,3) ok(4) by (intro exI [of _ "[]"]) (simp add: dollop_same_def)
    qed
  qed
qed

section \<open>A chain of fallthroughs\<close>

definition dollop_done :: "'a zplop_scheme arch \<Rightarrow> byte list \<Rightarrow> eid set \<Rightarrow> 'a zplop_scheme \<Rightarrow> did \<Rightarrow> bool" where
  "dollop_done ar bits E z d \<longleftrightarrow> laid_run ar z (pl_place (dl (z_dm z) d)) (d_entries (dl (z_dm z) d)) \<and>
     set (d_entries (dl (z_dm z) d)) \<subseteq> E \<and> flows ar bits z d"

lemma dollop_done_later:
  assumes "later {} z z'" "size_local ar" "heap_ok z" "d < h_dnext (z_dm z)" "pl_placed (dl (z_dm z) d)" "dollop_done ar bits E z d" "E \<subseteq> E'"
  shows "dollop_done ar bits E' z' d"
proof -
  have s: "dollop_same (dl (z_dm z) d) (dl (z_dm z') d)" using laterD(9) [OF assms(1,4) _ assms(5)] by simp
  have "flows ar bits z' d" using flows_later [OF assms(1-5)] assms(6) by (simp add: dollop_done_def)
  moreover have "laid_run ar z' (pl_place (dl (z_dm z) d)) (d_entries (dl (z_dm z) d))"
    using laid_run_later [OF assms(1-3) heap_okD(4) [OF assms(3,4)]] assms(6) by (simp add: dollop_done_def)
  ultimately show ?thesis using s assms(6,7) by (auto simp: dollop_done_def dollop_same_def)
qed

lemma place_chain_Inr:
  assumes "place_chain n ev ar [] (base_splitDollop (jump_with bits) ev ar []) pc k am allowed d cur z = Inr (cur', z')"
    "heap_ok z" "d < h_dnext (z_dm z)" "z_plopping z = Map.empty" "size_local ar" "\<not> pc_has_preplacement pc"
  shows "\<exists>es. later {} z z' \<and> heap_ok z' \<and> grown ar z z' cur cur' es \<and> \<not> pl_placed (dl (z_dm z) d) \<and>
    pl_placed (dl (z_dm z') d) \<and> pl_place (dl (z_dm z') d) = cur \<and>
    (\<forall>x < h_dnext (z_dm z'). pl_placed (dl (z_dm z') x) \<longrightarrow>
       x < h_dnext (z_dm z) \<and> pl_placed (dl (z_dm z) x) \<or> dollop_done ar bits (set es) z' x)"
  using assms(1-4)
proof (induction k arbitrary: am allowed d cur z)
  case (Suc k)
  obtain z1 z2 cur4 rest z3 z4 nxt cur5 allowed' z5 may where c: "on_dm_unit (reCalculateSize (cur_env ev z) d) z = Inr z1"
      "on_dm_unit (place_dollop d cur) z1 = Inr z2"
      "place_entries ar [] may (d_entries (dl (z_dm z2) d)) cur z2 = Inr (cur4, rest, z3)"
      "split_rest n ev d rest z3 = Inr z4"
      "link_fallthrough n ev ar [] (base_splitDollop (jump_with bits) ev ar []) pc am allowed d cur4 z4 = Inr (nxt, cur5, allowed', z5)"
    and go: "(case nxt of None \<Rightarrow> Inr (cur5, z5) | Some f \<Rightarrow>
      place_chain n ev ar [] (base_splitDollop (jump_with bits) ev ar []) pc k True allowed' f cur5 z5) = Inr (cur', z')"
    using Suc.prems(1) by (auto simp: bindR_eq_Inr Let_def)
  note h = chain_head [OF c(1-4) Suc.prems(2-4)]
  define es where "es = d_entries (dl (z_dm z4) d)"
  have ok4: "heap_ok z4" "d < h_dnext (z_dm z4)" "z_plopping z4 = Map.empty" "pl_placed (dl (z_dm z4) d)" "\<not> d_coalesced (dl (z_dm z4) d)"
    using h Suc.prems(3,4) laterD(2,4) [of "{d}" z z4] by auto
  obtain js where l: "later {d} z4 z5" "heap_ok z5" "h_dnext (z_dm z5) = h_dnext (z_dm z4)" "grown ar z4 z5 cur4 cur5 js"
      "d_entries (dl (z_dm z5) d) = es @ js" "pl_placed (dl (z_dm z5) d)"
      "pl_place (dl (z_dm z5) d) = pl_place (dl (z_dm z4) d)" "d_ft (dl (z_dm z5) d) = d_ft (dl (z_dm z4) d)"
      "\<forall>x. x \<noteq> d \<longrightarrow> dl (z_dm z5) x = dl (z_dm z4) x"
      "case nxt of None \<Rightarrow> d_ft (dl (z_dm z4) d) = None \<or> (\<exists>f. d_ft (dl (z_dm z4) d) = Some f \<and> ends_with_jump bits z5 d f) \<or>
           js = [] \<and> pinned_at z5 cur4
         | Some f \<Rightarrow> js = [] \<and> cur5 = cur4 \<and> d_ft (dl (z_dm z4) d) = Some f"
    using link_fallthrough_step [OF c(5) ok4 assms(6)] unfolding es_def by blast
  have g5: "grown ar z z5 cur cur5 (es @ js)"
    using grown_trans [OF _ l(4,1) assms(5) ok4(1)] h unfolding es_def by blast
  have l5: "later {} z z5"
    by (rule later_shrink [OF later_trans [OF _ l(1)]]) (use h in auto)
  have d5: "d < h_dnext (z_dm z5)" using ok4(2) l(3) by simp
  have p5: "z_plopping z5 = Map.empty" using laterD(4) [OF l5] Suc.prems(4) by simp
  have re5: "run_end ar z5 d = cur + of_nat (run_size ar z5 (es @ js))" "pl_place (dl (z_dm z5) d) = cur" using h l(5,7) by (simp_all add: run_end_def)
  have cur5: "cur5 = cur + of_nat (run_size ar z5 (es @ js))" "laid_run ar z5 cur (es @ js)" using g5 by (simp_all add: grown_def)
  have old5: "x < h_dnext (z_dm z) \<and> pl_placed (dl (z_dm z) x)" if "x < h_dnext (z_dm z5)" "pl_placed (dl (z_dm z5) x)" "x \<noteq> d" for x
    using that h l(3,9) unfolding dollop_same_def by (metis not_less)
  show ?case
  proof (cases nxt)
    case None
    then have e: "cur' = cur5" "z' = z5" using go by simp_all
    have "js = [] \<and> pinned_at z5 cur4 \<longrightarrow> pinned_at z5 (run_end ar z5 d)"
      using l(4) cur5(1) re5 by (auto simp: grown_def)
    then have "flows ar bits z5 d" using l(10) None by (auto simp: flows_def l(8) split: option.split)
    then have "dollop_done ar bits (set (es @ js)) z5 d" using cur5(2) by (simp add: dollop_done_def l(5) re5(2))
    then show ?thesis using l5 l(2,6) g5 h re5(2) old5 by (intro exI [of _ "es @ js"]) (auto simp: e)
  next
    case (Some f)
    then have j: "js = []" "cur5 = cur4" "d_ft (dl (z_dm z5) d) = Some f" using l(8,10) by simp_all
    have f5: "f < h_dnext (z_dm z5)" by (rule heap_okD(2) [OF l(2) d5 j(3)])
    have go': "place_chain n ev ar [] (base_splitDollop (jump_with bits) ev ar []) pc k True allowed' f cur5 z5 = Inr (cur', z')"
      using go Some by simp
    obtain fs where r: "later {} z5 z'" "heap_ok z'" "grown ar z5 z' cur5 cur' fs" "\<not> pl_placed (dl (z_dm z5) f)"
        "pl_placed (dl (z_dm z') f)" "pl_place (dl (z_dm z') f) = cur5"
        "\<forall>x < h_dnext (z_dm z'). pl_placed (dl (z_dm z') x) \<longrightarrow>
           x < h_dnext (z_dm z5) \<and> pl_placed (dl (z_dm z5) x) \<or> dollop_done ar bits (set fs) z' x"
      using Suc.IH [OF go' l(2) f5 p5] by blast
    have g: "grown ar z z' cur cur' (es @ fs)" using grown_trans [OF g5 r(3,1) assms(5) l(2)] j(1) by simp
    have lz: "later {} z z'" by (rule later_trans [OF l5 r(1)]) simp
    have sd: "dollop_same (dl (z_dm z5) d) (dl (z_dm z') d)" using laterD(9) [OF r(1) d5 _ l(6)] by simp
    have "run_end ar z' d = cur5" using run_end_later [OF r(1) assms(5) l(2) d5 _ l(6)] re5 cur5 by simp
    then have "flows ar bits z' d" using sd j(3) r(5,6) by (simp add: flows_def dollop_same_def)
    moreover have "laid_run ar z' cur (es @ js)"
      by (rule laid_run_later [OF r(1) assms(5) l(2) _ cur5(2)]) (use heap_okD(4) [OF l(2) d5] l(5) in simp)
    ultimately have dd: "dollop_done ar bits (set (es @ fs)) z' d"
      using sd re5(2) by (simp add: dollop_done_def dollop_same_def l(5) j(1))
    have mono: "dollop_done ar bits (set (es @ fs)) z' x" if "dollop_done ar bits (set fs) z' x" for x
      using that by (auto simp: dollop_done_def)
    have "x < h_dnext (z_dm z) \<and> pl_placed (dl (z_dm z) x) \<or> dollop_done ar bits (set (es @ fs)) z' x"
      if x: "x < h_dnext (z_dm z')" "pl_placed (dl (z_dm z') x)" for x
      using r(7) [rule_format, OF x] old5 [of x] mono [of x] dd by (cases "x = d") auto
    then show ?thesis using lz r(2) g h sd re5(2) l(6) by (intro exI [of _ "es @ fs"]) (auto simp: dollop_same_def)
  qed
qed simp

section \<open>The addresses\<close>

definition room :: "'a zplop_scheme arch \<Rightarrow> 'a zplop_scheme \<Rightarrow> eid \<Rightarrow> addr set" where
  "room ar z e = set (addrs (pl_place (ent (z_dm z) e)) (isz ar z e))"

lemma room_later:
  assumes "later X z z'" "size_local ar" "heap_ok z" "e \<in> placed_entries z"
  shows "room ar z' e = room ar z e"
proof -
  have e: "e < h_enext (z_dm z)" "pl_placed (ent (z_dm z) e)" using assms(4) by (simp_all add: placed_entries_def)
  show ?thesis using laterD(8) [OF assms(1) e] isz_later [OF assms(1-3) e(1), of False] by (simp add: room_def isz_def)
qed

lemma addrs_disjoint:
  assumes "m + n \<le> 2 ^ 64"
  shows "set (addrs a m) \<inter> set (addrs (a + of_nat m) n) = {}"
  using distinct_addrs [OF assms, of a] by (simp add: addrs_append)

text \<open>The rooms of a run partition its addresses.\<close>

lemma laid_run_rooms:
  assumes "laid_run ar z a es" "distinct es" "run_size ar z es < 2 ^ 64"
  shows "(\<Union>e \<in> set es. room ar z e) = set (addrs a (run_size ar z es))"
    "e \<in> set es \<Longrightarrow> e' \<in> set es \<Longrightarrow> e \<noteq> e' \<Longrightarrow> room ar z e \<inter> room ar z e' = {}"
proof -
  have "(\<Union>e \<in> set es. room ar z e) = set (addrs a (run_size ar z es)) \<and>
    (\<forall>e \<in> set es. \<forall>e' \<in> set es. e \<noteq> e' \<longrightarrow> room ar z e \<inter> room ar z e' = {})"
    using assms
  proof (induction es arbitrary: a)
    case (Cons x es)
    let ?b = "a + of_nat (isz ar z x)"
    have x: "room ar z x = set (addrs a (isz ar z x))" using Cons.prems(1) by (simp add: room_def)
    have IH: "(\<Union>e \<in> set es. room ar z e) = set (addrs ?b (run_size ar z es))"
      "\<forall>e \<in> set es. \<forall>e' \<in> set es. e \<noteq> e' \<longrightarrow> room ar z e \<inter> room ar z e' = {}"
      using Cons.IH [of ?b] Cons.prems by simp_all
    have d: "room ar z x \<inter> set (addrs ?b (run_size ar z es)) = {}"
      unfolding x by (rule addrs_disjoint) (use Cons.prems(3) in simp)
    have "room ar z x \<inter> room ar z e = {}" if "e \<in> set es" for e using d IH(1) that by blast
    then show ?case using IH by (auto simp: x addrs_append)
  qed simp
  then show "(\<Union>e \<in> set es. room ar z e) = set (addrs a (run_size ar z es))"
    "e \<in> set es \<Longrightarrow> e' \<in> set es \<Longrightarrow> e \<noteq> e' \<Longrightarrow> room ar z e \<inter> room ar z e' = {}" by blast+
qed

lemma run_size_bound:
  assumes "distinct es" "set es \<subseteq> {..<h_enext (z_dm z)}" "sized ar z"
  shows "run_size ar z es < 2 ^ 64"
proof -
  have "run_size ar z es = (\<Sum>e \<in> set es. isz ar z e)" using assms(1) by (simp add: run_size_def sum_list_distinct_conv_sum_set)
  also have "\<dots> \<le> (\<Sum>e<h_enext (z_dm z). isz ar z e)" by (rule sum_mono2) (use assms(2) in auto)
  finally show ?thesis using assms(3) by (simp add: sized_def)
qed

lemma Split_fold_Inr:
  assumes "foldR SplitFreeRange xs ms = Inr ms'" "ms_ok ms"
  shows "set xs \<subseteq> free_set ms \<and> ms_ok ms' \<and> free_set ms' = free_set ms - set xs \<and> only_free ms ms'"
  using assms
proof (induction xs arbitrary: ms)
  case (Cons x xs)
  obtain m1 where m1: "SplitFreeRange x ms = Inr m1" "foldR SplitFreeRange xs m1 = Inr ms'" using Cons.prems(1) by (auto simp: bindR_eq_Inr)
  note s = SplitFreeRange_Inr [OF Cons.prems(2) m1(1)]
  note IH = Cons.IH [OF m1(2) s(2)]
  then show ?case using s only_free_trans [OF s(4)] by auto
qed simp

text \<open>No two placed entries share an address, and none has a free one.\<close>

definition space_ok :: "'a zplop_scheme arch \<Rightarrow> 'a zplop_scheme \<Rightarrow> bool" where
  "space_ok ar z \<longleftrightarrow> ms_ok (z_ms z) \<and> (\<forall>e \<in> placed_entries z. room ar z e \<inter> free_set (z_ms z) = {}) \<and>
     (\<forall>e \<in> placed_entries z. \<forall>e' \<in> placed_entries z. e \<noteq> e' \<longrightarrow> room ar z e \<inter> room ar z e' = {})"

lemma grown_space:
  assumes "grown ar z z1 start cur es" "later X z z1" "heap_ok z" "size_local ar" "space_ok ar z" "sized ar z1"
    and s: "on_ms (SplitFreeRange_range (mk_range start cur)) z1 = Inr z2"
  shows "space_ok ar z2 \<and> (\<exists>m. z2 = z1\<lparr>z_ms := m\<rparr> \<and> free_set m = free_set (z_ms z) - (\<Union>e \<in> set es. room ar z1 e) \<and> only_free (z_ms z) m) \<and>
    (\<Union>e \<in> set es. room ar z1 e) \<subseteq> free_set (z_ms z)"
proof -
  note g = assms(1) [unfolded grown_def]
  have lt: "set es \<subseteq> {..<h_enext (z_dm z1)}" using g placed_entries_lt [of z1] by blast
  have sm: "run_size ar z1 es < 2 ^ 64" by (rule run_size_bound [OF _ lt assms(6)]) (use g in blast)
  have run: "laid_run ar z1 start es" "distinct es" using g by auto
  note rm = laid_run_rooms [OF run sm]
  have "loop_addrs (mk_range start cur) = addrs start (run_size ar z1 es)"
    using g sm by (simp add: loop_addrs_def unat_of_nat)
  then obtain m where m: "foldR SplitFreeRange (addrs start (run_size ar z1 es)) (z_ms z) = Inr m" "z2 = z1\<lparr>z_ms := m\<rparr>"
    using s g by (auto simp: on_ms_def bindR_eq_Inr SplitFreeRange_range_def)
  have mo: "ms_ok (z_ms z)" using assms(5) by (simp add: space_ok_def)
  note f = Split_fold_Inr [OF m(1) mo]
  have pe: "placed_entries z2 = placed_entries z \<union> set es" using g by (simp add: m(2) placed_entries_def)
  have r2: "room ar z2 = room ar z1" by (simp add: room_def isz_def m(2) fun_eq_iff)
  have old: "room ar z1 e = room ar z e" if "e \<in> placed_entries z" for e by (rule room_later [OF assms(2,4,3) that])
  have new: "room ar z1 e \<subseteq> free_set (z_ms z)" "room ar z1 e \<inter> free_set m = {}" if "e \<in> set es" for e
    using rm(1) f that by auto
  have "room ar z1 e \<inter> free_set m = {}" if "e \<in> placed_entries z \<union> set es" for e
    using that new(2) [of e] old [of e] assms(5) f unfolding space_ok_def by fastforce
  moreover have "room ar z1 e \<inter> room ar z1 e' = {}" if "e \<in> placed_entries z \<union> set es" "e' \<in> placed_entries z \<union> set es" "e \<noteq> e'" for e e'
  proof -
    note a = that
    consider "e \<in> placed_entries z" "e' \<in> placed_entries z" | "e \<in> placed_entries z" "e' \<in> set es"
      | "e \<in> set es" "e' \<in> placed_entries z" | "e \<in> set es" "e' \<in> set es" using a(1,2) by blast
    then show ?thesis
    proof cases
      case 1 then show ?thesis using assms(5) a(3) old unfolding space_ok_def by simp
    next
      case 2 then show ?thesis using assms(5) old [of e] new(1) [of e'] unfolding space_ok_def by blast
    next
      case 3 then show ?thesis using assms(5) old [of e'] new(1) [of e] unfolding space_ok_def by blast
    next
      case 4 then show ?thesis using rm(2) a(3) by blast
    qed
  qed
  ultimately have "space_ok ar z2" unfolding space_ok_def pe r2 using f by (simp add: m(2))
  then show ?thesis using f m(2) rm(1) by auto
qed

end
