(* ===== verification/Zipr_SizerProps.thy ===== *)
theory Zipr_SizerProps
  imports Zipr_PlopTarget
begin

text \<open>
  The properties of the sizers, and the state their witnesses use: an entry at 0x110 whose
  target is an entry at 0x150 and whose fallthrough is at 0x140.
\<close>

definition plop_ir :: "byte list \<Rightarrow> ir" where
  "plop_ir bs = \<lparr>ir_insns = [0 \<mapsto> (new_insn (DataBits bs))\<lparr>i_tgt := Some 1\<rparr>,
     1 \<mapsto> new_insn (DataBits [0x90]), 2 \<mapsto> new_insn (DataBits [0xc3])], ir_next = 3\<rparr>"

definition plop_dm :: "did option \<Rightarrow> dman" where
  "plop_dm ft = dman_init\<lparr>
     h_ents := [0 \<mapsto> (mk_dentry 0 (Some 0))\<lparr>pl_placed := True, pl_place := 0x110, de_tgt := Some 1\<rparr>,
       1 \<mapsto> (mk_dentry 1 (Some 1))\<lparr>pl_placed := True, pl_place := 0x150\<rparr>,
       2 \<mapsto> (mk_dentry 2 (Some 2))\<lparr>pl_placed := True, pl_place := 0x140\<rparr>],
     h_dls := [0 \<mapsto> empty_dollop\<lparr>d_entries := [0], d_size := 10, d_ft := ft\<rparr>,
       1 \<mapsto> empty_dollop\<lparr>pl_placed := True, pl_place := 0x150, d_entries := [1], d_size := 1\<rparr>,
       2 \<mapsto> empty_dollop\<lparr>pl_placed := True, pl_place := 0x140, d_entries := [2], d_size := 1\<rparr>]\<rparr>"

definition plop_sample :: "byte list \<Rightarrow> did option \<Rightarrow> zipr" where
  "plop_sample bs ft = \<lparr>z_ms = sample_space, z_ir = plop_ir bs, z_dm = plop_dm ft, z_patch_at = Map.empty,
     z_patch_list = [], z_queue = [], z_locs = Map.empty\<rparr>"

lemma plop_dm_ent [simp]:
  "ent (plop_dm ft) 0 = (mk_dentry 0 (Some 0))\<lparr>pl_placed := True, pl_place := 0x110, de_tgt := Some 1\<rparr>"
  "ent (plop_dm ft) 2 = (mk_dentry 2 (Some 2))\<lparr>pl_placed := True, pl_place := 0x140\<rparr>"
  by (simp_all add: ent_def plop_dm_def)

lemma plop_dm_dl [simp]:
  "dl (plop_dm ft) 0 = empty_dollop\<lparr>d_entries := [0], d_size := 10, d_ft := ft\<rparr>"
  "dl (plop_dm ft) (Suc 0) = empty_dollop\<lparr>pl_placed := True, pl_place := 0x150, d_entries := [1], d_size := 1\<rparr>"
  "dl (plop_dm ft) 2 = empty_dollop\<lparr>pl_placed := True, pl_place := 0x140, d_entries := [2], d_size := 1\<rparr>"
  by (simp_all add: dl_def plop_dm_def)

lemma plop_sample [simp]:
  "z_dm (plop_sample bs ft) = plop_dm ft" "z_ms (plop_sample bs ft) = sample_space" "z_ir (plop_sample bs ft) = plop_ir bs"
  "data_bits asmb (plop_ir bs) 0 = bs" "tgt_of (plop_ir bs) 0 = Some 1" "i_callback (the_insn (plop_ir bs) 0) = ''''"
  by (simp_all add: plop_sample_def plop_ir_def data_bits_def the_insn_def tgt_of_def new_insn_def)

section \<open>x86\<close>

text \<open>C30: An x86 branch with a target (a two-byte conditional jump or jump, or a call, jump or
  conditional jump with a 32-bit displacement) is written in exactly as many bytes as
  \<open>DetermineInsnSize\<close> accounts for, all of them claimed and no other byte changed; the short
  forms become the long forms with the same condition, and the branch written goes to the
  target, given that the distance fits 32 bits.\<close>

theorem x86_branch_reaches_target:
  assumes "ms_ok (z_ms z)" and "insn = de_insn (ent (z_dm z) e)" and "bs = data_bits asmb (z_ir z) insn"
    and "short_branch bs \<and> tgt_of (z_ir z) insn \<noteq> None \<or> branch_opcode bs" and "i_callback (the_insn (z_ir z) insn) = ''''"
    and "de_tgt (ent (z_dm z) e) = Some d" and "entry_target (z_dm z) (ent (z_dm z) e) ot = Inr t"
    and "a = entry_place (ent (z_dm z) e) op" and "n = x86_DetermineInsnSize asmb (z_ir z) insn False" and "near32 a n t"
  shows "\<exists>m. x86_PlopDollopEntryWithTarget asmb bits e op ot z = Inr (a + of_nat n, z\<lparr>z_ms := m\<rparr>) \<and>
    wrote (set (addrs a n)) (z_ms z) m \<and> x86_target 15 bits a m = Some t \<and>
    (\<forall>i < n - 4. ms_peek (a + of_nat i) m = long_form bs ! i)"
proof -
  have n: "n = length (long_form bs)"
    using x86_size_long_form [of asmb "z_ir z" insn] assms(3-5,9) by auto
  have br: "short_branch bs \<or> branch_opcode bs" using assms(4) by blast
  have bs: "bs = data_bits asmb (z_ir z) (de_insn (ent (z_dm z) e))" using assms(2,3) by simp
  show ?thesis
    using x86_plop_branch [OF assms(1) br bs assms(6,7,8) assms(10) [unfolded n], of bits] unfolding n by blast
qed

theorem x86_branch_reaches_target_witness:
  "\<exists>m. x86_PlopDollopEntryWithTarget (\<lambda>_. []) 64 0 0 0 (plop_sample [0x75, 0] None) =
       Inr (0x116, plop_sample [0x75, 0] None\<lparr>z_ms := m\<rparr>) \<and> x86_target 15 64 0x110 m = Some 0x150 \<and>
     ms_peek (0x110 + of_nat 1) m = 0x85"
proof -
  have n: "x86_DetermineInsnSize (\<lambda>_. []) (plop_ir [0x75, 0]) 0 False = 6"
    by (simp add: x86_DetermineInsnSize_def first_byte_def)
  have l: "long_form [0x75, 0] = [0x0f, 0x85, 0, 0, 0, 0]" by (simp add: long_form_def)
  have ex: "\<exists>m. x86_PlopDollopEntryWithTarget (\<lambda>_. []) 64 0 0 0 (plop_sample [0x75, 0] None) =
       Inr (0x110 + of_nat 6, plop_sample [0x75, 0] None\<lparr>z_ms := m\<rparr>) \<and>
     wrote (set (addrs 0x110 6)) (z_ms (plop_sample [0x75, 0] None)) m \<and> x86_target 15 64 0x110 m = Some 0x150 \<and>
     (\<forall>i < 6 - 4. ms_peek (0x110 + of_nat i) m = long_form [0x75, 0] ! i)"
    by (rule x86_branch_reaches_target [where d = 1 and insn = 0])
      (simp_all add: sample_space_ok short_branch_def mk_dentry_def entry_target_def entry_place_def n near32_def)
  have "1 < (6 :: nat) - 4" "[0x0f, 0x85, 0, 0, 0, 0 :: byte] ! 1 = 0x85" by simp_all
  then show ?thesis using ex unfolding l by (elim exE conjE) (rule exI, intro conjI, simp, assumption, metis)
qed



section \<open>ARM64\<close>

definition arm64_plop_sample :: "byte list \<Rightarrow> zipr_arm64" where
  "arm64_plop_sample bs = \<lparr>z_ms = sample_space, z_ir = plop_ir bs, z_dm = plop_dm None, z_patch_at = Map.empty,
     z_patch_list = [], z_queue = [], z_locs = Map.empty, z_redirect = Map.empty\<rparr>"



section \<open>Places\<close>



section \<open>The size of a chain of dollops\<close>

text \<open>
  The chain of fallthroughs from a dollop: every dollop but the last is unplaced and can be
  coalesced with the next one. \<open>stop\<close> says that the last one needs a jump behind it.
\<close>

fun size_chain :: "ir \<Rightarrow> 'a dheap_scheme \<Rightarrow> did list \<Rightarrow> bool \<Rightarrow> bool" where
  "size_chain f h [] stop \<longleftrightarrow> False"
| "size_chain f h [d] stop \<longleftrightarrow>
     (if stop then canCoalesce f h (Some d) (d_ft (dl h d)) = Inr False \<or>
         canCoalesce f h (Some d) (d_ft (dl h d)) = Inr True \<and> pl_placed (dl h d)
      else d_ft (dl h d) = None \<and> \<not> pl_placed (dl h d))"
| "size_chain f h (d # d' # ds) stop \<longleftrightarrow> d_ft (dl h d) = Some d' \<and> \<not> pl_placed (dl h d) \<and>
     canCoalesce f h (Some d) (Some d') = Inr True \<and> size_chain f h (d' # ds) stop"



end
