(* ===== verification/Zipr_PlaceProps.thy ===== *)
theory Zipr_PlaceProps
  imports Zipr_Layout Zipr_SizerProps
begin

text \<open>
  The placement loop as a whole: from one entry of the queue to the next, and the properties
  of placement.
\<close>

section \<open>One round of the loop\<close>

definition pins_reserved :: "'a zipr_scheme \<Rightarrow> bool" where
  "pins_reserved z \<longleftrightarrow> (\<forall>i < ir_next (z_ir z). \<forall>a. ibta_of (z_ir z) i = Some a \<longrightarrow> a \<noteq> 0 \<longrightarrow> a \<notin> free_set (z_ms z))"

lemma pins_reserved_later:
  assumes "later X z z'" "pins_reserved z" "free_set (z_ms z') \<subseteq> free_set (z_ms z)"
  shows "pins_reserved z'"
  unfolding pins_reserved_def
proof (intro allI impI)
  fix i a assume i: "i < ir_next (z_ir z')" "ibta_of (z_ir z') i = Some a" "a \<noteq> 0"
  have "i < ir_next (z_ir z)" using laterD(10) [OF assms(1), of i] i(1,2) by force
  then show "a \<notin> free_set (z_ms z')"
    using i(2,3) ibta_later [OF laterD(3) [OF assms(1)], of i] assms(2,3) unfolding pins_reserved_def by auto
qed

lemma unat_min_Suc:
  assumes "a + 8 < 2 ^ 31"
  shows "1 \<le> unat (min (of_nat a) s + 1 :: size_t)" "unat (min (of_nat a) s + 1 :: size_t) + 7 < 2 ^ 31"
proof -
  have a: "unat (of_nat a :: size_t) = a" using assms by (simp add: unat_of_nat)
  have m: "unat (min (of_nat a) s) \<le> a" using a by (simp add: min_def word_le_nat_alt)
  then have "unat (min (of_nat a) s + 1 :: size_t) = unat (min (of_nat a) s) + 1"
    by (subst unat_plus_simple [THEN iffD1]) (use assms m in \<open>simp_all add: word_le_nat_alt unat_word_ariths\<close>)
  then show "1 \<le> unat (min (of_nat a) s + 1 :: size_t)" "unat (min (of_nat a) s + 1 :: size_t) + 7 < 2 ^ 31"
    using m assms by simp_all
qed

lemma choose_placement_plain:
  "choose_placement n rnd ar [] d from z =
     bindR (minimum_valid_req_size n ar [] d z) (\<lambda>req.
     bindR (DoPlacement (ar_sizes ar) rnd (z_ir z) (z_dm z) (z_ms z) req d) (\<lambda>r.
     assertR (req \<le> getSize r) (\<lambda>_. Inr (\<lparr>pc_placement = r, pc_abuts_pin = False, pc_abuts_fallthrough = False,
       pc_has_preplacement = False, pc_fallthrough_place = 0, pc_allowed_coalescing = True\<rparr>, z))))"
  by (simp add: choose_placement_def)

lemma choose_placement_Inr:
  assumes "choose_placement n rnd ar [] d from z = Inr (pc, z')"
  shows "z' = z" "\<not> pc_has_preplacement pc" "pc_allowed_coalescing pc"
    "heap_ok z \<Longrightarrow> d < h_dnext (z_dm z) \<Longrightarrow> z_plopping z = Map.empty \<Longrightarrow> is_sizes (ar_sizes ar) \<Longrightarrow> ms_ok (z_ms z) \<Longrightarrow>
       sized ar z \<Longrightarrow> r_start (pc_placement pc) \<in> free_set (z_ms z)"
proof -
  obtain req r where m: "minimum_valid_req_size n ar [] d z = Inr req"
    and r: "DoPlacement (ar_sizes ar) rnd (z_ir z) (z_dm z) (z_ms z) req d = Inr r"
    and z': "z' = z" "\<not> pc_has_preplacement pc" "pc_allowed_coalescing pc" "pc_placement pc = r"
    using assms unfolding choose_placement_plain bindR_eq_Inr assertR_def by (auto split: if_splits)
  show "z' = z" "\<not> pc_has_preplacement pc" "pc_allowed_coalescing pc" by fact+
  assume ok: "heap_ok z" "d < h_dnext (z_dm z)" "z_plopping z = Map.empty" "is_sizes (ar_sizes ar)" "ms_ok (z_ms z)" "sized ar z"
  obtain e s where req: "front_entry (z_dm z) d = Inr e" "req = min (DetermineDollopEntrySize ar [] e True z) s + 1"
    using m unfolding minimum_valid_req_size_def bindR_eq_Inr by blast
  have e: "e \<in> set (d_entries (dl (z_dm z) d))" using req(1) by (auto simp: front_entry_def split: list.splits)
  then have "e < h_enext (z_dm z)" using heap_okD(4) [OF ok(1,2)] by blast
  then have a: "ar_DetermineInsnSize ar (z_ir z) (einsn (z_dm z) e) True + 8 < 2 ^ 31" using ok(6) by (simp add: sized_def)
  note rq = unat_min_Suc [OF a, of s, folded DetermineDollopEntrySize_plain [OF ok(3), of ar e True], folded req(2)]
  obtain i "is" where i: "dinsns (z_dm z) d = i # is" using e by (cases "dinsns (z_dm z) d") (auto simp: dinsns_def)
  have sz: "0 < d_size (dl (z_dm z) d)" using r by (auto simp: DoPlacement_def assertR_def split: if_splits)
  have sub: "set (addrs (r_start r) (unat req)) \<subseteq> free_set (z_ms z)"
    using DoPlacement_result [OF ok(5,4) sz i rq, of "z_ir z" rnd] r by simp
  obtain k where "unat req = Suc k" using rq(1) by (cases "unat req") auto
  then have "r_start r \<in> set (addrs (r_start r) (unat req))" by (simp add: addrs_Suc)
  then show "r_start (pc_placement pc) \<in> free_set (z_ms z)" using sub z'(4) by blast
qed

lemma clear_own_pin_frame:
  assumes "clear_own_pin n sz d a z = Inr z'"
  shows "\<exists>m ps. z' = z\<lparr>z_ms := m, z_patch_list := ps\<rparr>"
proof -
  have "z' = z \<or> (\<exists>m ps. z' = z\<lparr>z_ms := m, z_patch_list := ps\<rparr>)"
  proof -
    obtain b m where m: "ms_get a (z_ms z) = (b, m)" by (cases "ms_get a (z_ms z)")
    obtain uu where uu: "front_insn (z_dm z) d = Inr uu" using assms by (auto simp: clear_own_pin_def bindR_eq_Inr)
    show ?thesis
    proof (cases "ibta_of (z_ir z) uu = Some a \<and> a \<noteq> 0")
      case True
      then show ?thesis using assms by (auto simp: clear_own_pin_def uu m bindR_eq_Inr assertR_def split: if_splits)
    next
      case False
      then show ?thesis using assms by (auto simp: clear_own_pin_def uu split: option.splits)
    qed
  qed
  moreover have "z = z\<lparr>z_ms := z_ms z, z_patch_list := z_patch_list z\<rparr>" by (cases z) simp
  ultimately show ?thesis by blast
qed

lemma clear_own_pin_free:
  assumes "clear_own_pin n sz d a z = Inr z'" "pins_reserved z" "a \<in> free_set (z_ms z)" "heap_ok z" "d < h_dnext (z_dm z)"
  shows "z' = z"
proof -
  obtain uu where uu: "front_insn (z_dm z) d = Inr uu" using assms(1) by (auto simp: clear_own_pin_def bindR_eq_Inr)
  then have "uu \<in> set (dinsns (z_dm z) d)" by (auto simp: front_insn_def split: if_splits)
  then obtain e where "e \<in> set (d_entries (dl (z_dm z) d))" "uu = einsn (z_dm z) e" by (auto simp: dinsns_def)
  then have "uu < ir_next (z_ir z)" using heap_okD(4) [OF assms(4,5)] heap_okD(6) [OF assms(4)] by blast
  then have "\<not> (b \<noteq> 0 \<and> a = b)" if "ibta_of (z_ir z) uu = Some b" for b
    using assms(2,3) that unfolding pins_reserved_def by blast
  then show ?thesis using assms(1) uu by (auto simp: clear_own_pin_def split: option.splits if_splits)
qed

definition round :: "'a zplop_scheme arch \<Rightarrow> byte list \<Rightarrow> 'a zplop_scheme \<Rightarrow> 'a zplop_scheme \<Rightarrow> bool" where
  "round ar bits z z' \<longleftrightarrow> later {} z z' \<and> heap_ok z' \<and> space_ok ar z' \<and> pins_reserved z' \<and>
     free_set (z_ms z') \<subseteq> free_set (z_ms z) \<and> ms_bytes (z_ms z') = ms_bytes (z_ms z) \<and>
     (\<forall>e \<in> placed_entries z'. e \<in> placed_entries z \<or> room ar z' e \<subseteq> free_set (z_ms z)) \<and>
     (\<forall>x < h_dnext (z_dm z'). pl_placed (dl (z_dm z') x) \<longrightarrow>
       x < h_dnext (z_dm z) \<and> pl_placed (dl (z_dm z) x) \<or> dollop_done ar bits (placed_entries z') z' x)"

lemma place_one_Inr:
  assumes p: "place_one n rnd ev ar [] (base_splitDollop (jump_with bits) ev ar []) d from z = Inr z'"
    and ok: "heap_ok z" "d < h_dnext (z_dm z)" "z_plopping z = Map.empty" "size_local ar" "is_sizes (ar_sizes ar)"
    and sp: "space_ok ar z" "pins_reserved z" "sized ar z'"
  shows "round ar bits z z' \<and> pl_placed (dl (z_dm z') d) \<and> set (z_queue z) \<subseteq> set (z_queue z') \<and>
    (\<forall>e \<in> placed_entries z' - placed_entries z. \<forall>t. de_tgt (ent (z_dm z') e) = Some t \<longrightarrow> (\<exists>a. (Some t, a) \<in> set (z_queue z')))"
proof -
  obtain z1 pc z2 z3 cur z4 where c: "on_dm_unit (reCalculateSize (cur_env ev z) d) z = Inr z1"
      "choose_placement n rnd ar [] d from z1 = Inr (pc, z2)" "clear_own_pin n (ar_sizes ar) d (r_start (pc_placement pc)) z2 = Inr z3"
      "place_chain n ev ar [] (base_splitDollop (jump_with bits) ev ar []) pc n False (pc_allowed_coalescing pc) d (r_start (pc_placement pc)) z3 = Inr (cur, z4)"
      "on_ms (SplitFreeRange_range (mk_range (r_start (pc_placement pc)) cur)) z4 = Inr z'"
    using p by (auto simp: place_one_def bindR_eq_Inr Let_def assertR_def split: if_splits)
  let ?a = "r_start (pc_placement pc)"
  note s1 = reCalc_step [OF c(1) ok(1,2)]
  have ok1: "heap_ok z1" "d < h_dnext (z_dm z1)" "z_plopping z1 = Map.empty" "z_ms z1 = z_ms z"
    using s1 ok(2,3) by (auto simp: heap_only_def)
  obtain m where z': "z' = z4\<lparr>z_ms := m\<rparr>" using c(5) by (auto simp: on_ms_Inr)
  have sz4: "sized ar z4" using sp(3) by (simp add: z' sized_def isz_def)
  have mo: "ms_ok (z_ms z1)" using sp(1) ok1(4) by (simp add: space_ok_def)
  have pr1: "pins_reserved z1" by (rule pins_reserved_later [OF _ sp(2)]) (use s1 ok1(4) in auto)
  obtain m3 ps where z3: "z3 = z1\<lparr>z_ms := m3, z_patch_list := ps\<rparr>"
    using clear_own_pin_frame [OF c(3)] choose_placement_Inr(1) [OF c(2)] by blast
  have ok3: "heap_ok z3" "d < h_dnext (z_dm z3)" "z_plopping z3 = Map.empty" and l13: "later {} z1 z3"
    using ok1 by (simp_all add: z3 heap_ok_def later_def)
  obtain es where ch: "later {} z3 z4" "heap_ok z4" "grown ar z3 z4 ?a cur es" "\<not> pl_placed (dl (z_dm z3) d)"
      "pl_placed (dl (z_dm z4) d)"
      "\<forall>x < h_dnext (z_dm z4). pl_placed (dl (z_dm z4) x) \<longrightarrow>
         x < h_dnext (z_dm z3) \<and> pl_placed (dl (z_dm z3) x) \<or> dollop_done ar bits (set es) z4 x"
    using place_chain_Inr [OF c(4) ok3 ok(4) choose_placement_Inr(2) [OF c(2)]] by blast
  have l14: "later {} z1 z4" by (rule later_trans [OF l13 ch(1)]) simp
  have sized1: "sized ar z1" by (rule sized_earlier [OF l14 ok(4) ok1(1) sz4])
  have free: "?a \<in> free_set (z_ms z1)" by (rule choose_placement_Inr(4) [OF c(2) ok1(1-3) ok(5) mo sized1])
  have e3: "z3 = z1"
    using clear_own_pin_free [OF c(3) [unfolded choose_placement_Inr(1) [OF c(2)]] pr1 free ok1(1,2)] .
  have l0: "later {} z z4"
  proof (rule later_shrink [OF later_trans [OF _ l14]])
    show "later {d} z z1" using s1 by blast
    show "\<not> pl_placed (dl (z_dm z) x)" if "x \<in> {d}" for x using that ch(4) s1 e3 by (simp add: dollop_same_def)
  qed simp
  have g: "grown ar z z4 ?a cur es"
    using ch(3) s1 heap_only_placed [of z z1] unfolding e3 by (simp add: grown_def heap_only_def)
  note gd = g [unfolded grown_def]
  obtain m' where G: "space_ok ar z'" "z' = z4\<lparr>z_ms := m'\<rparr>" "free_set m' = free_set (z_ms z) - (\<Union>e \<in> set es. room ar z4 e)"
      "only_free (z_ms z) m'" "(\<Union>e \<in> set es. room ar z4 e) \<subseteq> free_set (z_ms z)"
    using grown_space [OF g l0 ok(1,4) sp(1) sz4 c(5)] by blast
  have same: "z_dm z' = z_dm z4" "z_ir z' = z_ir z4" "z_queue z' = z_queue z4" "z_plopping z' = z_plopping z4" "z_ms z' = m'"
    by (simp_all add: G(2))
  have lz: "later {} z z'" using l0 unfolding later_def same .
  have pe: "placed_entries z' = placed_entries z \<union> set es" using gd by (simp add: placed_entries_def same)
  have rm: "room ar z' = room ar z4" by (simp add: room_def isz_def same fun_eq_iff)
  have dd: "dollop_done ar bits (placed_entries z') z' x" if "dollop_done ar bits (set es) z4 x" for x
  proof -
    have lr: "laid_run ar z' a fs = laid_run ar z4 a fs" for a fs by (induction fs arbitrary: a) (simp_all add: isz_def same)
    have "isz ar z' = isz ar z4" by (simp add: isz_def same fun_eq_iff)
    then have "run_end ar z' x = run_end ar z4 x" by (simp add: run_end_def run_size_def same)
    then have "flows ar bits z' x = flows ar bits z4 x"
      by (simp add: flows_def ends_with_jump_def pinned_at_def same cong: option.case_cong)
    then show ?thesis using that pe by (auto simp: dollop_done_def lr same)
  qed
  have done_new: "x < h_dnext (z_dm z) \<and> pl_placed (dl (z_dm z) x) \<or> dollop_done ar bits (placed_entries z') z' x"
    if x: "x < h_dnext (z_dm z')" "pl_placed (dl (z_dm z') x)" for x
  proof -
    have "dollop_same (dl (z_dm z) x) (dl (z_dm z1) x)" using s1 by (cases "x = d") auto
    then show ?thesis using ch(6) dd [of x] x s1 unfolding e3 by (auto simp: same dollop_same_def)
  qed
  have fs: "free_set (z_ms z') \<subseteq> free_set (z_ms z)" using G(3) same(5) by blast
  have hk: "heap_ok z'" using ch(2) unfolding heap_ok_def same .
  have "round ar bits z z'"
    unfolding round_def
    using lz hk G(1) pins_reserved_later [OF lz sp(2) fs] fs only_freeD(1) [OF G(4)] pe G(5) done_new by (auto simp: same(5) rm)
  moreover have "\<forall>e \<in> placed_entries z' - placed_entries z. \<forall>t. de_tgt (ent (z_dm z') e) = Some t \<longrightarrow> (\<exists>a. (Some t, a) \<in> set (z_queue z'))"
    using gd pe by (auto simp: same)
  ultimately show ?thesis using ch(5) gd by (simp add: same)
qed

declare place_queue.simps [simp del]

text \<open>Every round leaves the layout so far alone, whatever the sizes.\<close>

lemma place_one_later:
  assumes p: "place_one n rnd ev ar [] (base_splitDollop (jump_with bits) ev ar []) d from z = Inr z'"
    and ok: "heap_ok z" "d < h_dnext (z_dm z)" "z_plopping z = Map.empty" "size_local ar"
  shows "later {} z z' \<and> heap_ok z'"
proof -
  obtain z1 pc z2 z3 cur z4 where c: "on_dm_unit (reCalculateSize (cur_env ev z) d) z = Inr z1"
      "choose_placement n rnd ar [] d from z1 = Inr (pc, z2)" "clear_own_pin n (ar_sizes ar) d (r_start (pc_placement pc)) z2 = Inr z3"
      "place_chain n ev ar [] (base_splitDollop (jump_with bits) ev ar []) pc n False (pc_allowed_coalescing pc) d (r_start (pc_placement pc)) z3 = Inr (cur, z4)"
      "on_ms (SplitFreeRange_range (mk_range (r_start (pc_placement pc)) cur)) z4 = Inr z'"
    using p by (auto simp: place_one_def bindR_eq_Inr Let_def assertR_def split: if_splits)
  note s1 = reCalc_step [OF c(1) ok(1,2)]
  obtain m3 ps where z3: "z3 = z1\<lparr>z_ms := m3, z_patch_list := ps\<rparr>"
    using clear_own_pin_frame [OF c(3)] choose_placement_Inr(1) [OF c(2)] by blast
  have ok1: "heap_ok z1" "d < h_dnext (z_dm z1)" "z_plopping z1 = Map.empty" using s1 ok(2,3) by (auto simp: heap_only_def)
  have ok3: "heap_ok z3" "d < h_dnext (z_dm z3)" "z_plopping z3 = Map.empty" and l13: "later {} z1 z3"
    using ok1 by (simp_all add: z3 heap_ok_def later_def)
  have ch: "later {} z3 z4" "heap_ok z4" "\<not> pl_placed (dl (z_dm z3) d)"
    using place_chain_Inr [OF c(4) ok3 ok(4) choose_placement_Inr(2) [OF c(2)]] by blast+
  obtain m where z': "z' = z4\<lparr>z_ms := m\<rparr>" using c(5) by (auto simp: on_ms_Inr)
  have l1: "later {} z1 z4" by (rule later_trans [OF l13 ch(1)]) simp
  have "later {} z z4"
  proof (rule later_shrink [OF later_trans [OF _ l1]])
    show "later {d} z z1" using s1 by blast
    show "\<not> pl_placed (dl (z_dm z) x)" if "x \<in> {d}" for x using that ch(3) s1 by (simp add: z3 dollop_same_def)
  qed simp
  then show ?thesis using ch(2) by (simp add: z' later_def heap_ok_def)
qed

lemma place_queue_cases:
  assumes "place_queue k n rnd ord ev ar ps spl z = Inr z'"
  obtains (empty) "z_queue z = []" "z' = z"
    | (placed) d a j where "(Some d, a) \<in> set (z_queue z)" "pl_placed (dl (z_dm z) d)" "k = Suc j"
      "place_queue j n rnd ord ev ar ps spl (z\<lparr>z_queue := remove1 (Some d, a) (z_queue z)\<rparr>) = Inr z'"
    | (place) d a j z1 where "(Some d, a) \<in> set (z_queue z)" "\<not> pl_placed (dl (z_dm z) d)" "k = Suc j"
      "place_one n (rnd j) ev ar ps spl d a (z\<lparr>z_queue := remove1 (Some d, a) (z_queue z)\<rparr>) = Inr z1"
      "place_queue j n rnd ord ev ar ps spl z1 = Inr z'"
proof (cases "sort_key ord (z_queue z)")
  case Nil
  then have "set (z_queue z) = {}" by (metis set_sort set_empty)
  then show ?thesis using assms Nil by (intro empty) (simp_all add: place_queue.simps [of k])
next
  case (Cons q qs)
  obtain x a where q: "q = (x, a)" by (cases q)
  have m: "(x, a) \<in> set (z_queue z)" by (metis Cons list.set_intros(1) set_sort q)
  let ?z = "z\<lparr>z_queue := remove1 (x, a) (z_queue z)\<rparr>"
  note r = assms [unfolded place_queue.simps [of k], unfolded Cons list.case Let_def q fst_conv snd_conv]
  obtain j where k: "k = Suc j" using r by (cases k) simp_all
  obtain d where d: "x = Some d" using r by (cases x) (simp_all add: k)
  show ?thesis
  proof (cases "pl_placed (dl (z_dm z) d)")
    case True
    then show ?thesis using r m by (intro placed [of d a j]) (simp_all add: k d)
  next
    case False
    then obtain z1 where "place_one n (rnd j) ev ar ps spl d a ?z = Inr z1" "place_queue j n rnd ord ev ar ps spl z1 = Inr z'"
      using r by (auto simp: k d bindR_eq_Inr)
    then show ?thesis using False m by (intro place [of d a j z1]) (simp_all add: k d)
  qed
qed

lemma pop_step:
  assumes "heap_ok z"
  shows "later {} z (z\<lparr>z_queue := remove1 q (z_queue z)\<rparr>)" "heap_ok (z\<lparr>z_queue := remove1 q (z_queue z)\<rparr>)"
proof -
  have "p \<in> set (z_queue z)" if "p \<in> set (remove1 q (z_queue z))" for p using that set_remove1_subset [of q "z_queue z"] by blast
  then show "heap_ok (z\<lparr>z_queue := remove1 q (z_queue z)\<rparr>)" using assms by (simp add: heap_ok_def)
qed (simp add: later_def)

lemma place_queue_later:
  assumes "place_queue k n rnd ord ev ar [] (base_splitDollop (jump_with bits) ev ar []) z = Inr z'"
    "heap_ok z" "z_plopping z = Map.empty" "size_local ar"
  shows "later {} z z'"
  using assms(1-3)
proof (induction k arbitrary: z)
  case 0
  from 0(1) show ?case by (cases rule: place_queue_cases) simp_all
next
  case (Suc k)
  from Suc.prems(1) show ?case
  proof (cases rule: place_queue_cases)
    case (placed d a j)
    note ps = pop_step [OF Suc.prems(2), of "(Some d, a)"]
    have "later {} (z\<lparr>z_queue := remove1 (Some d, a) (z_queue z)\<rparr>) z'"
      using Suc.IH [OF _ ps(2)] placed(3,4) Suc.prems(3) by simp
    then show ?thesis by (rule later_trans [OF ps(1)]) simp
  next
    case (place d a j z1)
    let ?z = "z\<lparr>z_queue := remove1 (Some d, a) (z_queue z)\<rparr>"
    note ps = pop_step [OF Suc.prems(2), of "(Some d, a)"]
    have "d < h_dnext (z_dm ?z)" using heap_okD(8) [OF Suc.prems(2) place(1)] by simp
    then have o: "later {} ?z z1" "heap_ok z1"
      using place_one_later [OF place(4) ps(2) _ _ assms(4)] Suc.prems(3) by simp_all
    have "later {} z1 z'"
      using Suc.IH [OF _ o(2)] place(3,5) laterD(4) [OF o(1)] Suc.prems(3) by simp
    then have "later {} ?z z'" by (rule later_trans [OF o(1)]) simp
    then show ?thesis by (rule later_trans [OF ps(1)]) simp
  qed simp
qed

section \<open>The whole loop\<close>

text \<open>
  What holds between two rounds: the layout so far is sound, and every dollop that a placed
  entry branches to is placed or waits in the queue.
\<close>

definition layout_ok :: "'a zplop_scheme arch \<Rightarrow> byte list \<Rightarrow> 'a zplop_scheme \<Rightarrow> bool" where
  "layout_ok ar bits z \<longleftrightarrow> heap_ok z \<and> space_ok ar z \<and>
     (\<forall>d < h_dnext (z_dm z). pl_placed (dl (z_dm z) d) \<longrightarrow> dollop_done ar bits (placed_entries z) z d)"

definition targets_ok :: "did set \<Rightarrow> 'a zipr_scheme \<Rightarrow> bool" where
  "targets_ok D z \<longleftrightarrow> (\<forall>e \<in> placed_entries z. \<forall>t. de_tgt (ent (z_dm z) e) = Some t \<longrightarrow>
     t \<in> D \<or> pl_placed (dl (z_dm z) t) \<or> (\<exists>a. (Some t, a) \<in> set (z_queue z)))"

lemma layout_pop:
  assumes "layout_ok ar bits z" "targets_ok {} z"
  shows "layout_ok ar bits (z\<lparr>z_queue := remove1 (Some d, a) (z_queue z)\<rparr>)"
    "targets_ok {d} (z\<lparr>z_queue := remove1 (Some d, a) (z_queue z)\<rparr>)"
proof -
  let ?z = "z\<lparr>z_queue := remove1 (Some d, a) (z_queue z)\<rparr>"
  have iz: "isz ar ?z = isz ar z" by (simp add: isz_def fun_eq_iff)
  have lr: "laid_run ar ?z x es = laid_run ar z x es" for x es by (induction es arbitrary: x) (simp_all add: iz)
  have "dollop_done ar bits (placed_entries z) ?z x = dollop_done ar bits (placed_entries z) z x" for x
    by (simp add: dollop_done_def lr flows_def run_end_def run_size_def iz ends_with_jump_def pinned_at_def cong: option.case_cong)
  moreover have pe: "placed_entries ?z = placed_entries z" and "room ar ?z = room ar z" by (simp_all add: placed_entries_def room_def iz fun_eq_iff)
  ultimately show "layout_ok ar bits ?z"
    using assms(1) pop_step(2) [of z "(Some d, a)"] unfolding layout_ok_def space_ok_def by simp
  have "\<exists>b. (Some t, b) \<in> set (z_queue ?z)" if "t \<noteq> d" "(Some t, b) \<in> set (z_queue z)" for t b
    using that by (intro exI [of _ b]) (simp add: in_set_remove1)
  then show "targets_ok {d} ?z" using assms(2) unfolding targets_ok_def pe by fastforce
qed

lemma targets_round:
  assumes "targets_ok {d} z" "later {} z z'" "heap_ok z" "pl_placed (dl (z_dm z') d)" "set (z_queue z) \<subseteq> set (z_queue z')"
    and "\<forall>e \<in> placed_entries z' - placed_entries z. \<forall>t. de_tgt (ent (z_dm z') e) = Some t \<longrightarrow> (\<exists>a. (Some t, a) \<in> set (z_queue z'))"
  shows "targets_ok {} z'"
  unfolding targets_ok_def
proof (intro ballI allI impI)
  fix e t assume e: "e \<in> placed_entries z'" "de_tgt (ent (z_dm z') e) = Some t"
  show "t \<in> {} \<or> pl_placed (dl (z_dm z') t) \<or> (\<exists>a. (Some t, a) \<in> set (z_queue z'))"
  proof (cases "e \<in> placed_entries z")
    case True
    then have lt: "e < h_enext (z_dm z)" by (simp add: placed_entries_def)
    have t: "de_tgt (ent (z_dm z) e) = Some t" using e(2) laterD(6) [OF assms(2) lt] by simp
    have "t < h_dnext (z_dm z)" by (rule heap_okD(7) [OF assms(3) lt t])
    then have "pl_placed (dl (z_dm z) t) \<Longrightarrow> pl_placed (dl (z_dm z') t)"
      using laterD(9) [OF assms(2), of t] by (simp add: dollop_same_def)
    then show ?thesis using assms(1,4,5) True t unfolding targets_ok_def by blast
  next
    case False
    then show ?thesis using assms(6) e by blast
  qed
qed

lemma round_layout:
  assumes "round ar bits z z'" "layout_ok ar bits z" "size_local ar"
  shows "layout_ok ar bits z'"
proof -
  note r = assms(1) [unfolded round_def]
  have l: "later {} z z'" and h: "heap_ok z" using r assms(2) by (simp_all add: layout_ok_def)
  have "dollop_done ar bits (placed_entries z') z' x" if x: "x < h_dnext (z_dm z')" "pl_placed (dl (z_dm z') x)" for x
  proof (cases "x < h_dnext (z_dm z) \<and> pl_placed (dl (z_dm z) x)")
    case True
    then show ?thesis using dollop_done_later [OF l assms(3) h _ _ _ placed_mono [OF l]] assms(2) by (simp add: layout_ok_def)
  next
    case False
    then show ?thesis using r x by blast
  qed
  then show ?thesis using r by (simp add: layout_ok_def)
qed

text \<open>\<open>laid_out z z'\<close>: what the loop makes of \<open>z\<close>.\<close>

definition laid_out :: "'a zplop_scheme arch \<Rightarrow> byte list \<Rightarrow> 'a zplop_scheme \<Rightarrow> 'a zplop_scheme \<Rightarrow> bool" where
  "laid_out ar bits z z' \<longleftrightarrow> layout_ok ar bits z' \<and> ms_bytes (z_ms z') = ms_bytes (z_ms z) \<and>
     free_set (z_ms z') \<subseteq> free_set (z_ms z) \<and>
     (\<forall>e \<in> placed_entries z'. e \<in> placed_entries z \<or> room ar z' e \<subseteq> free_set (z_ms z)) \<and>
     (\<forall>e \<in> placed_entries z'. \<forall>t. de_tgt (ent (z_dm z') e) = Some t \<longrightarrow> pl_placed (dl (z_dm z') t)) \<and>
     (\<forall>(t, a) \<in> set (z_queue z). \<forall>d. t = Some d \<longrightarrow> pl_placed (dl (z_dm z') d))"

lemma laid_out_after:
  assumes "laid_out ar bits z1 z'" "later {} z1 z'" "heap_ok z1" "size_local ar"
    and "ms_bytes (z_ms z1) = ms_bytes (z_ms z)" "free_set (z_ms z1) \<subseteq> free_set (z_ms z)"
    and "\<And>e. e \<in> placed_entries z1 \<Longrightarrow> e \<in> placed_entries z \<or> room ar z1 e \<subseteq> free_set (z_ms z)"
    and "\<And>d a. (Some d, a) \<in> set (z_queue z) \<Longrightarrow> pl_placed (dl (z_dm z') d)"
  shows "laid_out ar bits z z'"
proof -
  note l = assms(1) [unfolded laid_out_def]
  have "e \<in> placed_entries z \<or> room ar z' e \<subseteq> free_set (z_ms z)" if "e \<in> placed_entries z'" for e
  proof (cases "e \<in> placed_entries z1")
    case True
    then show ?thesis using assms(7) room_later [OF assms(2,4,3) True] by simp
  next
    case False
    then show ?thesis using l assms(6) that by blast
  qed
  then show ?thesis using l assms(5,6,8) unfolding laid_out_def by auto
qed

lemma remove1_other: "q \<in> set xs \<Longrightarrow> q = p \<or> q \<in> set (remove1 p xs)"
  by (cases "q = p") (simp_all add: in_set_remove1)

lemma place_queue_Inr:
  assumes "place_queue k n rnd ord ev ar [] (base_splitDollop (jump_with bits) ev ar []) z = Inr z'"
    "layout_ok ar bits z" "targets_ok {} z" "pins_reserved z" "z_plopping z = Map.empty"
    "size_local ar" "is_sizes (ar_sizes ar)" "sized ar z'"
  shows "laid_out ar bits z z'"
  using assms(1-5)
proof (induction k arbitrary: z)
  case 0
  from 0(1) show ?case
    by (cases rule: place_queue_cases) (use 0 in \<open>simp_all add: laid_out_def targets_ok_def\<close>)
next
  case (Suc k)
  have hk: "heap_ok z" using Suc.prems(2) by (simp add: layout_ok_def)
  note pop = layout_pop [OF Suc.prems(2,3)] and ps = pop_step [OF hk]
  from Suc.prems(1) show ?case
  proof (cases rule: place_queue_cases)
    case empty
    then show ?thesis using Suc.prems by (simp add: laid_out_def targets_ok_def)
  next
    case (placed d a j)
    let ?z = "z\<lparr>z_queue := remove1 (Some d, a) (z_queue z)\<rparr>"
    have t: "targets_ok {} ?z" using pop(2) [of d a] placed(2) by (auto simp: targets_ok_def)
    have pr: "pins_reserved ?z" using Suc.prems(4) by (simp add: pins_reserved_def)
    have q: "place_queue k n rnd ord ev ar [] (base_splitDollop (jump_with bits) ev ar []) ?z = Inr z'" using placed(3,4) by simp
    have lo: "laid_out ar bits ?z z'" by (rule Suc.IH [OF q pop(1) t pr]) (use Suc.prems(5) in simp)
    have l: "later {} ?z z'" by (rule place_queue_later [OF q ps(2) _ assms(6)]) (use Suc.prems(5) in simp)
    have "d < h_dnext (z_dm ?z)" using heap_okD(8) [OF hk placed(1)] by simp
    then have pd: "pl_placed (dl (z_dm z') d)" using laterD(9) [OF l] placed(2) by (simp add: dollop_same_def)
    have "pl_placed (dl (z_dm z') x)" if "(Some x, b) \<in> set (z_queue z)" for x b
      using remove1_other [OF that, of "(Some d, a)"] pd lo by (auto simp: laid_out_def)
    then show ?thesis
      using laid_out_after [OF lo l ps(2) assms(6)] by (simp add: placed_entries_def)
  next
    case (place d a j z1)
    let ?z = "z\<lparr>z_queue := remove1 (Some d, a) (z_queue z)\<rparr>"
    have d: "d < h_dnext (z_dm ?z)" using heap_okD(8) [OF hk place(1)] by simp
    have p0: "z_plopping ?z = Map.empty" using Suc.prems(5) by simp
    have o: "later {} ?z z1" "heap_ok z1" using place_one_later [OF place(4) ps(2) d p0 assms(6)] by blast+
    have p1: "z_plopping z1 = Map.empty" using laterD(4) [OF o(1)] p0 by simp
    have q: "place_queue k n rnd ord ev ar [] (base_splitDollop (jump_with bits) ev ar []) z1 = Inr z'" using place(3,5) by simp
    have l: "later {} z1 z'" by (rule place_queue_later [OF q o(2) p1 assms(6)])
    have s1: "sized ar z1" by (rule sized_earlier [OF l assms(6) o(2) assms(8)])
    have pr: "pins_reserved ?z" using Suc.prems(4) by (simp add: pins_reserved_def)
    have sp: "space_ok ar ?z" using pop(1) by (simp add: layout_ok_def)
    have r: "round ar bits ?z z1" "pl_placed (dl (z_dm z1) d)" "set (z_queue ?z) \<subseteq> set (z_queue z1)"
      "\<forall>e \<in> placed_entries z1 - placed_entries ?z. \<forall>t. de_tgt (ent (z_dm z1) e) = Some t \<longrightarrow> (\<exists>a. (Some t, a) \<in> set (z_queue z1))"
      using place_one_Inr [OF place(4) ps(2) d p0 assms(6,7) sp pr s1] by blast+
    note rd = r(1) [unfolded round_def]
    have t: "targets_ok {} z1" by (rule targets_round [OF pop(2) o(1) ps(2) r(2-4)])
    have lo: "laid_out ar bits z1 z'"
      by (rule Suc.IH [OF q round_layout [OF r(1) pop(1) assms(6)] t _ p1]) (use rd in blast)
    have "d < h_dnext (z_dm z1)" using laterD(2) [OF o(1)] d by simp
    then have pd: "pl_placed (dl (z_dm z') d)" using laterD(9) [OF l _ _ r(2)] r(2) by (simp add: dollop_same_def)
    have lq: "pl_placed (dl (z_dm z') x)" if "(Some x, b) \<in> set (z_queue z1)" for x b
      using lo that by (auto simp: laid_out_def)
    have "pl_placed (dl (z_dm z') x)" if "(Some x, b) \<in> set (z_queue z)" for x b
      using remove1_other [OF that, of "(Some d, a)"] pd r(3) lq [of x b] by auto
    then show ?thesis
      using laid_out_after [OF lo l o(2) assms(6)] rd by (simp add: placed_entries_def)
  qed
qed

section \<open>The interface to the architecture\<close>

text \<open>All that placement needs of an architecture: sizes that depend on the instruction, and its sizer's constants.\<close>

locale placement =
  fixes ar :: "'a zplop_scheme arch" and bits :: "byte list"
  assumes size_insn: "ir_insns f' i = ir_insns f i \<Longrightarrow> ar_DetermineInsnSize ar f' i b = ar_DetermineInsnSize ar f i b"
    and sizer: "is_sizes (ar_sizes ar)"
begin

abbreviation "spl ev \<equiv> base_splitDollop (jump_with bits) ev ar []"

lemma local_sizes: "size_local ar"
  unfolding size_local_def using size_insn by blast

lemma queue_laid_out:
  assumes "place_queue k n rnd ord ev ar [] (spl ev) z = Inr z'" "layout_ok ar bits z" "targets_ok {} z" "pins_reserved z"
    "z_plopping z = Map.empty" "sized ar z'"
  shows "laid_out ar bits z z'"
  by (rule place_queue_Inr [OF assms(1-5) local_sizes sizer assms(6)])

text \<open>The layout, for a state in which nothing is placed yet.\<close>

lemma fresh_layout:
  assumes "heap_ok z" "ms_ok (z_ms z)" "placed_entries z = {}" "\<forall>d < h_dnext (z_dm z). \<not> pl_placed (dl (z_dm z) d)"
  shows "layout_ok ar bits z" "targets_ok {} z"
  using assms by (simp_all add: layout_ok_def space_ok_def targets_ok_def)

lemma fresh_laid_out:
  assumes "place_queue k n rnd ord ev ar [] (spl ev) z = Inr z'" "heap_ok z" "ms_ok (z_ms z)" "placed_entries z = {}"
    "\<forall>d < h_dnext (z_dm z). \<not> pl_placed (dl (z_dm z) d)" "pins_reserved z" "z_plopping z = Map.empty" "sized ar z'"
  shows "laid_out ar bits z z'" "later {} z z'"
  by (rule queue_laid_out [OF assms(1) fresh_layout [OF assms(2-5)] assms(6-8)])
    (rule place_queue_later [OF assms(1,2,7) local_sizes])

end

lemma data_bits_local: "ir_insns f' i = ir_insns f i \<Longrightarrow> data_bits asmb f' i = data_bits asmb f i"
  by (simp add: data_bits_def the_insn_def)

lemma createNewJump_with:
  "x86_createNewJumpInstruction = jump_with [0xe9, 0, 0, 0, 0]"
  "arm64_createNewJumpInstruction = jump_with [0x00, 0x00, 0x00, 0x14]"
  "arm32_createNewJumpInstruction = jump_with [0x00, 0x00, 0x00, 0xea]"
  by (simp_all add: fun_eq_iff x86_createNewJumpInstruction_def arm64_createNewJumpInstruction_def
      arm32_createNewJumpInstruction_def jump_with_def)

interpretation x86pl: placement "x86_arch asmb bits" "[0xe9, 0, 0, 0, 0]" for asmb bits
proof
  fix f f' :: ir and i b
  assume s: "ir_insns f' i = ir_insns f i"
  have "tgt_of f' i = tgt_of f i" "the_insn f' i = the_insn f i" by (simp_all add: tgt_of_def the_insn_def s)
  then show "ar_DetermineInsnSize (x86_arch asmb bits) f' i b = ar_DetermineInsnSize (x86_arch asmb bits) f i b"
    by (simp add: x86_arch_def x86_DetermineInsnSize_def data_bits_local [OF s] Let_def cong: if_cong)
qed (simp add: x86_arch_def is_sizes_def)

interpretation arm64pl: placement "arm64_arch rnd is_tbz asmb" "[0x00, 0x00, 0x00, 0x14]" for rnd is_tbz asmb
proof
  fix f f' :: ir and i b
  assume s: "ir_insns f' i = ir_insns f i"
  show "ar_DetermineInsnSize (arm64_arch rnd is_tbz asmb) f' i b = ar_DetermineInsnSize (arm64_arch rnd is_tbz asmb) f i b"
    by (simp add: arm64_arch_def arm64_DetermineInsnSize_def data_bits_local [OF s])
qed (simp add: arm64_arch_def is_sizes_def)

interpretation arm32pl: placement "arm32_arch asmb" "[0x00, 0x00, 0x00, 0xea]" for asmb
  by unfold_locales (simp_all add: arm32_arch_def is_sizes_def)

section \<open>Properties\<close>

text \<open>
  A small program: a conditional jump to a return, and a no-op between them, a dollop each; and
  a pin of the first one at 0x90.
\<close>

definition lay_ir :: ir where
  "lay_ir = \<lparr>ir_insns = [0 \<mapsto> (new_insn (DataBits [0x75, 0]))\<lparr>i_tgt := Some 1, i_ft := Some 2\<rparr>,
     1 \<mapsto> new_insn (DataBits [0xc3]), 2 \<mapsto> (new_insn (DataBits [0x90]))\<lparr>i_ft := Some 1\<rparr>], ir_next = 3\<rparr>"

definition lay_dm :: dman where
  "lay_dm = dman_init\<lparr>
     h_ents := [0 \<mapsto> (mk_dentry 0 (Some 0))\<lparr>de_tgt := Some 1\<rparr>, 1 \<mapsto> mk_dentry 1 (Some 1), 2 \<mapsto> mk_dentry 2 (Some 2)],
     h_dls := [0 \<mapsto> empty_dollop\<lparr>d_entries := [0], d_ft := Some 2\<rparr>, 1 \<mapsto> empty_dollop\<lparr>d_entries := [1], d_size := 1\<rparr>,
       2 \<mapsto> empty_dollop\<lparr>d_entries := [2], d_ft := Some 1, d_size := 6\<rparr>],
     h_enext := 3, h_dnext := 3, dm_dollops := [0, 1, 2], dm_map := [0 \<mapsto> 0, 1 \<mapsto> 1, 2 \<mapsto> 2]\<rparr>"

definition lay_env :: denv where
  "lay_env = \<lparr>ev_ir = lay_ir, ev_esize = (\<lambda>i. if i = 0 then 6 else 1), ev_tramp = 5\<rparr>"

definition lay_sample :: zplop where
  "lay_sample = \<lparr>z_ms = ms_put_list 0x90 [0xe9, 0, 0, 0, 0] sample_space, z_ir = lay_ir, z_dm = lay_dm,
     z_patch_at = Map.empty, z_patch_list = [(0, \<lparr>pt_from = 0x90, pt_type = UncondJump_rel32\<rparr>)],
     z_queue = [(Some 0, 0)], z_locs = Map.empty, z_redirect = Map.empty, z_plopping = Map.empty, z_callbacks = [], z_replop = []\<rparr>"

definition lay_run :: "zplop result" where
  "lay_run = place_queue 5 5 (\<lambda>_. 0) (\<lambda>(d, a). unat a) lay_env (x86_arch (\<lambda>_. []) 64) []
     (base_splitDollop x86_createNewJumpInstruction lay_env (x86_arch (\<lambda>_. []) 64) []) lay_sample"

lemma lay_run_result:
  "case lay_run of Inr z \<Rightarrow>
     h_enext (z_dm z) = 3 \<and> h_dnext (z_dm z) = 3 \<and> z_queue z = [] \<and>
     list_all (\<lambda>d. pl_placed (dl (z_dm z) d) \<and> pl_placed (ent (z_dm z) d) \<and> d_entries (dl (z_dm z) d) = [d]) [0, 1, 2] \<and>
     pl_place (dl (z_dm z) 1) = 0x107 \<and> pl_place (dl (z_dm z) 2) = 0x106 \<and>
     map (isz (x86_arch (\<lambda>_. []) 64) z) [0, 1, 2] = [6, 1, 1] \<and>
     list_all (\<lambda>e. ar_DetermineInsnSize (x86_arch (\<lambda>_. []) 64 :: zplop arch) (z_ir z) (einsn (z_dm z) e) True < 20) [0, 1, 2]
   | Inl _ \<Rightarrow> False"
  by code_simp

lemma lt_3: "x < 3 \<longleftrightarrow> x = 0 \<or> x = 1 \<or> x = (2 :: nat)"
  by auto

lemma lay_sample_sel:
  "h_dnext lay_dm = 3" "h_enext lay_dm = 3" "dl lay_dm 0 = empty_dollop\<lparr>d_entries := [0], d_ft := Some 2\<rparr>"
  "dl lay_dm (Suc 0) = empty_dollop\<lparr>d_entries := [1], d_size := 1\<rparr>" "dl lay_dm 2 = empty_dollop\<lparr>d_entries := [2], d_ft := Some 1, d_size := 6\<rparr>"
  "ent lay_dm 0 = (mk_dentry 0 (Some 0))\<lparr>de_tgt := Some 1\<rparr>" "ent lay_dm (Suc 0) = mk_dentry 1 (Some 1)" "ent lay_dm 2 = mk_dentry 2 (Some 2)"
  "z_dm lay_sample = lay_dm" "z_ir lay_sample = lay_ir" "z_queue lay_sample = [(Some 0, 0)]" "free_set (z_ms lay_sample) = {0x100..0x1ff}"
  "ms_ok (z_ms lay_sample)" "z_plopping lay_sample = Map.empty"
  using sample_space_ok by (simp_all add: lay_dm_def dl_def ent_def lay_sample_def free_set_def ms_ok_def)

lemma lay_sample_ready:
  "heap_ok lay_sample" "ms_ok (z_ms lay_sample)" "placed_entries lay_sample = {}"
  "\<forall>d < h_dnext (z_dm lay_sample). \<not> pl_placed (dl (z_dm lay_sample) d)" "pins_reserved lay_sample" "z_plopping lay_sample = Map.empty"
proof -
  have "{..<3} = {0, 1, 2 :: nat}" unfolding lessThan_def lt_3 by blast
  then have i: "in_dollops lay_dm = {0, 1, 2}" by (simp add: in_dollops_def lay_sample_sel empty_dollop_def insert_commute)
  have f: "d_ft (dl lay_dm x) = None \<or> d_ft (dl lay_dm x) = Some 1 \<or> d_ft (dl lay_dm x) = Some 2" if "x < 3" for x
    using that unfolding lt_3 by (auto simp: lay_sample_sel empty_dollop_def)
  show "heap_ok lay_sample" unfolding heap_ok_def lay_sample_sel i
  proof (intro conjI allI impI ballI)
    fix x assume x: "x < (3 :: nat)"
    show "distinct (d_entries (dl lay_dm x))" "\<not> d_coalesced (dl lay_dm x)"
      using x unfolding lt_3 by (auto simp: lay_sample_sel empty_dollop_def)
    show "y < 3" if "d_ft (dl lay_dm x) = Some y" for y using f [OF x] that by auto
    show "einsn lay_dm x < ir_next lay_ir"
      using x unfolding lt_3 by (auto simp: lay_sample_sel einsn_def mk_dentry_def lay_ir_def)
    show "t < 3" if "de_tgt (ent lay_dm x) = Some t" for t
      using x that unfolding lt_3 by (auto simp: lay_sample_sel mk_dentry_def)
  next
    show "inj_on (einsn lay_dm) {0, 1, 2}" by (simp add: einsn_def lay_sample_sel mk_dentry_def)
  qed auto
  show "ms_ok (z_ms lay_sample)" by (rule lay_sample_sel)
  have "\<not> pl_placed (ent lay_dm x)" if "x < 3" for x using that unfolding lt_3 by (auto simp: lay_sample_sel mk_dentry_def)
  then show "placed_entries lay_sample = {}" unfolding placed_entries_def lay_sample_sel by blast
  show "\<forall>x < h_dnext (z_dm lay_sample). \<not> pl_placed (dl (z_dm lay_sample) x)"
    unfolding lay_sample_sel lt_3 by (auto simp: lay_sample_sel empty_dollop_def)
  show "pins_reserved lay_sample" unfolding pins_reserved_def lay_sample_sel
    by (simp add: lay_ir_def ibta_of_def new_insn_def)
  show "z_plopping lay_sample = Map.empty" by (rule lay_sample_sel)
qed

lemma lay_run_Inr:
  obtains z where "lay_run = Inr z" "sized (x86_arch (\<lambda>_. []) 64) z" "placed_entries z = {0, 1, 2}"
    "pl_placed (dl (z_dm z) 1)" "pl_place (dl (z_dm z) 1) = 0x107" "h_dnext (z_dm z) = 3" "pl_placed (dl (z_dm z) 0)" "d_entries (dl (z_dm z) 0) = [0]"
proof -
  obtain z where z: "lay_run = Inr z"
  proof (cases lay_run)
    case (Inl e)
    show ?thesis using lay_run_result unfolding Inl sum.case by blast
  qed
  note r = lay_run_result [unfolded z sum.case]
  have "(\<Sum>e<3. g e) = g 0 + g 1 + g (2 :: nat)" for g :: "nat \<Rightarrow> nat" by (simp add: eval_nat_numeral)
  moreover have "isz (x86_arch (\<lambda>_. []) 64) z 0 = 6" "isz (x86_arch (\<lambda>_. []) 64) z 1 = 1" "isz (x86_arch (\<lambda>_. []) 64) z 2 = 1"
    using r by simp_all
  ultimately have "(\<Sum>e<3. isz (x86_arch (\<lambda>_. []) 64) z e) = 8" by simp
  then have "sized (x86_arch (\<lambda>_. []) 64) z" using r unfolding sized_def lt_3 by (auto simp: lt_3)
  moreover have "placed_entries z = {0, 1, 2}" using r unfolding placed_entries_def by (auto simp: lt_3)
  ultimately show thesis using r by (intro that [OF z]) auto
qed

text \<open>C2: If the placement loop (without plugins) ends, starting with nothing placed, it has laid out a sound
  program on x86: every dollop of the queue is placed; the addresses of a placed entry were
  free and are reserved, and no two entries share one; no byte has been written; and of every
  placed dollop the entries lie one behind the other from its place on, the dollop that an entry
  branches to is placed, and the dollop's fallthrough follows it, is the target of a jump at its
  end, or an instruction is pinned at its end. Hypotheses: references stay in the heap, pinned
  addresses are reserved, and the program fits into the address space.\<close>

theorem x86_dollops_laid_out:
  assumes "heap_ok z" and "ms_ok (z_ms z)" and "placed_entries z = {}" and "\<forall>d < h_dnext (z_dm z). \<not> pl_placed (dl (z_dm z) d)"
    and "pins_reserved z" and "z_plopping z = Map.empty" and "sized (x86_arch asmb b) z'"
    and "place_queue k n rnd ord ev (x86_arch asmb b) [] (base_splitDollop x86_createNewJumpInstruction ev (x86_arch asmb b) []) z = Inr z'"
  shows "(\<forall>d a. (Some d, a) \<in> set (z_queue z) \<longrightarrow> pl_placed (dl (z_dm z') d)) \<and>
    (\<forall>e \<in> placed_entries z'. room (x86_arch asmb b) z' e \<subseteq> free_set (z_ms z) - free_set (z_ms z')) \<and>
    (\<forall>e \<in> placed_entries z'. \<forall>e' \<in> placed_entries z'. e \<noteq> e' \<longrightarrow> room (x86_arch asmb b) z' e \<inter> room (x86_arch asmb b) z' e' = {}) \<and>
    ms_bytes (z_ms z') = ms_bytes (z_ms z) \<and>
    (\<forall>d < h_dnext (z_dm z'). pl_placed (dl (z_dm z') d) \<longrightarrow>
       set (d_entries (dl (z_dm z') d)) \<subseteq> placed_entries z' \<and>
       laid_run (x86_arch asmb b) z' (pl_place (dl (z_dm z') d)) (d_entries (dl (z_dm z') d)) \<and>
       (\<forall>e \<in> set (d_entries (dl (z_dm z') d)). \<forall>t. de_tgt (ent (z_dm z') e) = Some t \<longrightarrow> pl_placed (dl (z_dm z') t)) \<and>
       flows (x86_arch asmb b) [0xe9, 0, 0, 0, 0] z' d)"
proof -
  note q = assms(8) [unfolded createNewJump_with]
  have l: "laid_out (x86_arch asmb b) [0xe9, 0, 0, 0, 0] z z'"
    by (rule x86pl.fresh_laid_out(1) [OF q assms(1-7)])
  have done_all: "dollop_done (x86_arch asmb b) [0xe9, 0, 0, 0, 0] (placed_entries z') z' d"
    if "d < h_dnext (z_dm z')" "pl_placed (dl (z_dm z') d)" for d
    using l that by (simp add: laid_out_def layout_ok_def)
  have targets: "pl_placed (dl (z_dm z') t)" if "e \<in> placed_entries z'" "de_tgt (ent (z_dm z') e) = Some t" for e t
    using l that unfolding laid_out_def by fast
  have space: "space_ok (x86_arch asmb b) z'" using l by (simp add: laid_out_def layout_ok_def)
  show ?thesis
  proof (intro conjI allI impI ballI)
    show "pl_placed (dl (z_dm z') d)" if "(Some d, a) \<in> set (z_queue z)" for d a using l that unfolding laid_out_def by fast
    show "room (x86_arch asmb b) z' e \<subseteq> free_set (z_ms z) - free_set (z_ms z')" if "e \<in> placed_entries z'" for e
      using l that space unfolding laid_out_def space_ok_def assms(3) by fast
    show "room (x86_arch asmb b) z' e \<inter> room (x86_arch asmb b) z' e' = {}"
      if "e \<in> placed_entries z'" "e' \<in> placed_entries z'" "e \<noteq> e'" for e e'
      using space that unfolding space_ok_def by fast
    show "ms_bytes (z_ms z') = ms_bytes (z_ms z)" using l by (simp add: laid_out_def)
  next
    fix d assume d: "d < h_dnext (z_dm z')" "pl_placed (dl (z_dm z') d)"
    note dd = done_all [OF d, unfolded dollop_done_def]
    show "set (d_entries (dl (z_dm z') d)) \<subseteq> placed_entries z'" "flows (x86_arch asmb b) [0xe9, 0, 0, 0, 0] z' d"
      "laid_run (x86_arch asmb b) z' (pl_place (dl (z_dm z') d)) (d_entries (dl (z_dm z') d))" using dd by simp_all
    show "pl_placed (dl (z_dm z') t)" if "e \<in> set (d_entries (dl (z_dm z') d))" "de_tgt (ent (z_dm z') e) = Some t" for e t
      using targets [of e t] that dd by blast
  qed
qed

theorem x86_dollops_laid_out_witness:
  "\<exists>z'. lay_run = Inr z' \<and> pl_place (dl (z_dm z') 1) = 0x107 \<and>
     room (x86_arch (\<lambda>_. []) 64) z' 0 \<inter> room (x86_arch (\<lambda>_. []) 64) z' 1 = {} \<and> flows (x86_arch (\<lambda>_. []) 64) [0xe9, 0, 0, 0, 0] z' 0"
proof -
  obtain z' where z': "lay_run = Inr z'" "sized (x86_arch (\<lambda>_. []) 64) z'" "placed_entries z' = {0, 1, 2}"
    "pl_place (dl (z_dm z') 1) = 0x107" "h_dnext (z_dm z') = 3" "pl_placed (dl (z_dm z') 0)"
    by (rule lay_run_Inr)
  note r = x86_dollops_laid_out [OF lay_sample_ready z'(2) z'(1) [unfolded lay_run_def]]
  have "room (x86_arch (\<lambda>_. []) 64) z' 0 \<inter> room (x86_arch (\<lambda>_. []) 64) z' 1 = {}" using r z'(3) by simp
  moreover have "flows (x86_arch (\<lambda>_. []) 64) [0xe9, 0, 0, 0, 0] z' 0" using r z'(5,6) by simp
  ultimately show ?thesis using z'(1,4) by blast
qed

text \<open>When a dollop goes to the pinned address of its own first instruction and that address
  needs more than 32 bits, the loop that gives the pin's bytes back never ends: its counter is an
  \<open>unsigned int\<close> and stays below the bound. No fuel yields a result.\<close>

theorem own_pin_beyond_32_bits:
  assumes "front_insn (z_dm z) d = Inr uu" and "ibta_of (z_ir z) uu = Some a" and "2 ^ 32 \<le> unat a" and "unat a < 2 ^ 64 - 5"
  shows "clear_own_pin n x86_sizes d a z \<noteq> Inr z'"
proof -
  have run: "unreserve_pin n j till ms \<noteq> Inr m" if "2 ^ 32 \<le> unat till" for n j till and ms m :: memory_space
  proof (induction n arbitrary: j ms)
    case (Suc n)
    have "unat (ucast j :: addr) < 2 ^ 32" using unsigned_less [of j, where 'a = nat] by (simp add: unsigned_ucast_eq take_bit_nat_eq_self)
    then have "ucast j < till" using that by (simp add: word_less_nat_alt)
    then show ?case using Suc by (auto simp: bindR_eq_Inr)
  qed simp
  have till: "2 ^ 32 \<le> unat (a + ucast (ucast s :: uint32) :: addr)" if "s = 2 \<or> s = (5 :: size_t)" for s
  proof -
    have s: "unat (ucast (ucast s :: uint32) :: addr) \<le> 5" using that by auto
    have "unat (a + ucast (ucast s :: uint32)) = unat a + unat (ucast (ucast s :: uint32) :: addr)"
      by (rule unat_plus_simple [THEN iffD1]) (use s assms(4) in \<open>simp add: word_le_nat_alt unat_word_ariths\<close>)
    then show ?thesis using assms(3) by simp
  qed
  then have r: "unreserve_pin n j (a + 2) ms \<noteq> Inr m" "unreserve_pin n j (a + 5) ms \<noteq> Inr m" for j ms m
    using run [OF till [of 2]] run [OF till [of 5]] by simp_all
  have "a \<noteq> 0" using assms(3) by auto
  then show ?thesis using assms(1,2) r
    by (cases "ms_get a (z_ms z)") (auto simp: clear_own_pin_def bindR_eq_Inr x86_sizes_def Let_def)
qed

theorem own_pin_beyond_32_bits_witness:
  "clear_own_pin 9 x86_sizes 0 0x140001000
     (lay_sample\<lparr>z_ir := lay_ir\<lparr>ir_insns := (ir_insns lay_ir)(0 \<mapsto> (new_insn (DataBits [0xc3]))\<lparr>i_ibta := Some 0x140001000\<rparr>)\<rparr>\<rparr>) \<noteq> Inr lay_sample"
  by (rule own_pin_beyond_32_bits [where uu = 0])
    (simp_all add: front_insn_def dinsns_def lay_sample_sel einsn_def mk_dentry_def empty_dollop_def ibta_of_def)

end
