(* ===== verification/Zipr_Targets.thy ===== *)
theory Zipr_Targets
  imports Zipr_DollopMan
begin

text \<open>
  The result of \<open>CreateDollops\<close>: that updating the targets ends, and that afterwards every
  branch target and every fallthrough is the first instruction of a dollop.
\<close>

section \<open>Targets\<close>

text \<open>The entry's target dollop is registered and begins with the target.\<close>

definition tgt_resolved :: "denv \<Rightarrow> dman \<Rightarrow> eid \<Rightarrow> bool" where
  "tgt_resolved ev m e \<longleftrightarrow> (\<exists>x \<in> live m. de_tgt (ent m e) = Some x \<and> tgt_of (ev_ir ev) (einsn m e) = Some (hd (dinsns m x)))"

definition live_entries :: "dman \<Rightarrow> eid set" where
  "live_entries m = (\<Union>d \<in> live m. set (d_entries (dl m d)))"

definition settled :: "denv \<Rightarrow> dman \<Rightarrow> iid set" where
  "settled ev m = {einsn m e | e. e \<in> live_entries m \<and> tgt_resolved ev m e}"

definition tgts_ok :: "dman \<Rightarrow> bool" where
  "tgts_ok m \<longleftrightarrow> (\<forall>e < h_enext m. \<forall>x. de_tgt (ent m e) = Some x \<longrightarrow> x \<in> live m)"

definition heads :: "dman \<Rightarrow> iid set" where
  "heads m = {hd (dinsns m d) | d. d \<in> live m}"

text \<open>Progress: nothing that is settled or a head is lost.\<close>

definition grows :: "denv \<Rightarrow> dman \<Rightarrow> dman \<Rightarrow> bool" where
  "grows ev m m' \<longleftrightarrow> man_ok ev m' \<and> tgts_ok m' \<and> live m \<subseteq> live m' \<and> live_entries m \<subseteq> live_entries m' \<and>
     (\<forall>e \<in> live_entries m. einsn m' e = einsn m e) \<and> settled ev m \<subseteq> settled ev m' \<and> heads m \<subseteq> heads m'"

lemma grows_refl: "man_ok ev m \<Longrightarrow> tgts_ok m \<Longrightarrow> grows ev m m"
  by (simp add: grows_def)

lemma grows_trans: "grows ev m m' \<Longrightarrow> grows ev m' m'' \<Longrightarrow> grows ev m m''"
  unfolding grows_def by (auto 0 3)

lemma live_entries_less: "man_ok ev m \<Longrightarrow> e \<in> live_entries m \<Longrightarrow> e < h_enext m"
  using man_okD(7) by (auto simp: live_entries_def)

lemma entry_unique:
  assumes ok: "man_ok ev m" and rk: "ft_rank (ev_ir ev) r"
    and e: "e \<in> live_entries m" "e' \<in> live_entries m" "einsn m e = einsn m e'"
  shows "e = e'"
proof -
  obtain d d' where d: "d \<in> live m" "e \<in> set (d_entries (dl m d))" "d' \<in> live m" "e' \<in> set (d_entries (dl m d'))"
    using e by (auto simp: live_entries_def)
  have "dm_map m (einsn m e) = Some d" "dm_map m (einsn m e') = Some d'"
    using man_okD(6) [OF ok d(1)] man_okD(6) [OF ok d(3)] d by (auto simp: dinsns_def)
  then have "d' = d" using e(3) by simp
  have "distinct (dinsns m d)" using run_distinct [OF rk] man_okD(1) [OF ok d(1)] by (simp add: dollop_wf_def)
  then show ?thesis using d \<open>d' = d\<close> e(3) by (auto simp: dinsns_def distinct_map dest: inj_onD)
qed

lemma head_unique:
  assumes ok: "man_ok ev m" and "x \<in> live m" "y \<in> live m" "hd (dinsns m x) = hd (dinsns m y)"
  shows "x = y"
proof -
  have "dm_map m (hd (dinsns m x)) = Some x" "dm_map m (hd (dinsns m y)) = Some y"
    using man_okD(4,6) [OF ok assms(2)] man_okD(4,6) [OF ok assms(3)] by simp_all
  then show ?thesis using assms(4) by (metis option.inject)
qed

lemma add_grows:
  assumes ok: "man_ok ev m" and t: "tgts_ok m" and p: "AddNew_post ev r m i d m'"
  shows "grows ev m m'"
proof -
  have ext: "man_ext (h_dnext m) (h_enext m) m m'" and ok': "man_ok ev m'" using p by (simp_all add: AddNew_post_def)
  have le: "live_entries m \<subseteq> live_entries m'"
  proof
    fix e assume "e \<in> live_entries m"
    then obtain x where "x \<in> live m" "e \<in> set (d_entries (dl m x))" by (auto simp: live_entries_def)
    then have "\<exists>y \<in> live m'. e \<in> set (d_entries (dl m' y))" using ext unfolding man_ext_def by blast
    then show "e \<in> live_entries m'" by (auto simp: live_entries_def)
  qed
  have e: "einsn m' e = einsn m e" "de_tgt (ent m' e) = de_tgt (ent m e)" if "e \<in> live_entries m" for e
    using ext live_entries_less [OF ok that] by (simp_all add: man_ext_def)
  have hd: "live m \<subseteq> live m'" "\<And>x. x \<in> live m \<Longrightarrow> hd (dinsns m' x) = hd (dinsns m x)"
    using ext by (simp_all add: man_ext_def)
  have "tgt_resolved ev m' e" if "e \<in> live_entries m" "tgt_resolved ev m e" for e
    using that e [OF that(1)] hd by (auto simp: tgt_resolved_def)
  then have res: "e \<in> live_entries m' \<and> tgt_resolved ev m' e \<and> einsn m e = einsn m' e"
    if "e \<in> live_entries m" "tgt_resolved ev m e" for e
    using that le e(1) by auto
  have "settled ev m \<subseteq> settled ev m'"
  proof
    fix j assume "j \<in> settled ev m"
    then obtain e where "e \<in> live_entries m" "tgt_resolved ev m e" "j = einsn m e" by (auto simp: settled_def)
    then show "j \<in> settled ev m'" using res [of e] by (auto simp: settled_def)
  qed
  moreover have "tgts_ok m'"
    unfolding tgts_ok_def
  proof (intro allI impI)
    fix f x assume f: "f < h_enext m'" "de_tgt (ent m' f) = Some x"
    then have "f < h_enext m" using ext unfolding man_ext_def by (metis not_less option.distinct(1))
    then show "x \<in> live m'" using f(2) ext t by (auto simp: tgts_ok_def man_ext_def)
  qed
  moreover have "heads m \<subseteq> heads m'" using hd by (auto simp: heads_def) (metis subsetD)
  ultimately show ?thesis using ok' le e hd(1) by (simp add: grows_def)
qed

text \<open>An instruction that heads a dollop is found, and nothing changes.\<close>

lemma AddNew_hit:
  assumes "man_ok ev m" "x \<in> live m" "hd (dinsns m x) = t" "0 < n"
  shows "AddNewDollops n ev t m = Inr (Some x, m)"
proof -
  have "dm_map m t = Some x" "dinsns m x \<noteq> []"
    using man_okD(4,6) [OF assms(1,2)] assms(3) by auto
  then show ?thesis using assms(3,4) by (cases n) (simp_all add: AddNewDollops.simps getContainingDollop_def)
qed

lemma add_target:
  assumes ok: "man_ok ev m" and t: "tgts_ok m" and rk: "ft_rank (ev_ir ev) r" and n: "2 * r t + 2 \<le> n"
  obtains d m' where "AddNewDollops n ev t m = Inr (Some d, m')" "grows ev m m'" "d \<in> live m'"
    "hd (dinsns m' d) = t" "d \<in> live m \<longrightarrow> m' = m"
proof -
  obtain d m' where a: "AddNewDollops n ev t m = Inr (Some d, m')" "AddNew_post ev r m t d m'"
    using AddNewDollops_spec [OF rk, of n] ok n unfolding AddNew_spec_def by blast
  note p = a(2) [unfolded AddNew_post_def]
  have "m' = m" if d: "d \<in> live m"
  proof -
    have "hd (dinsns m d) = t" using p d by (auto simp: man_ext_def)
    then show ?thesis using AddNew_hit [OF ok d, where n = n] a(1) n by simp
  qed
  then show ?thesis using that [OF a(1) add_grows [OF ok t a(2)]] p by blast
qed

lemma setTarget_ok:
  fixes e :: eid
  assumes "man_ok ev m" "tgts_ok m" "d \<in> live m"
  defines "m' \<equiv> setTargetDollop (Some d) e m"
  shows "man_ok ev m'" "tgts_ok m'" "live_entries m' = live_entries m" "heads m' = heads m" "einsn m' = einsn m"
    "live m' = live m" "dinsns m' = dinsns m"
proof -
  have same: "live m' = live m" "dm_map m' = dm_map m" "dl m' = dl m" "dinsns m' = dinsns m" "einsn m' = einsn m"
    "h_dnext m' = h_dnext m" "h_enext m' = h_enext m" "dm_dollops m' = dm_dollops m"
    by (simp_all add: m'_def heap) (simp_all add: setTargetDollop_def upd_ent_def)
  have ent: "de_member (ent m' x) = de_member (ent m x)" "de_tgt (ent m' x) = (if x = e then Some d else de_tgt (ent m x))" for x
    by (simp_all add: m'_def heap)
  have "CalculateSize ev x m' = CalculateSize ev x m" for x by (rule CalculateSize_cong) (simp_all add: same)
  then show "man_ok ev m'" using assms(1)
    by (simp add: man_ok_def dollop_wf_def dollop_linked_def same ent cong: option.case_cong)
  show "tgts_ok m'" using assms(2,3) by (simp add: tgts_ok_def ent same)
  show "live_entries m' = live_entries m" "heads m' = heads m" "einsn m' = einsn m" "live m' = live m"
    "dinsns m' = dinsns m"
    by (simp_all add: live_entries_def heads_def same)
qed

lemma target_step:
  assumes ok: "man_ok ev m" and t: "tgts_ok m" and rk: "ft_rank (ev_ir ev) r" and n: "\<forall>i. 2 * r i + 2 \<le> n"
    and e: "e \<in> live_entries m"
  shows "\<exists>c' m'. UpdateTarget n ev e (c, m) = Inr (c', m') \<and> grows ev m m' \<and>
    (c' = c \<and> m' = m \<and> (tgt_of (ev_ir ev) (einsn m e) \<noteq> None \<longrightarrow> tgt_resolved ev m e) \<or>
     c' \<and> (\<exists>i. i \<in> settled ev m' \<and> i \<notin> settled ev m))"
proof (cases "tgt_of (ev_ir ev) (einsn m e)")
  case None
  then show ?thesis using grows_refl [OF ok t] by (simp add: UpdateTarget_def)
next
  case (Some tg)
  obtain d m1 where a: "AddNewDollops n ev tg m = Inr (Some d, m1)" "grows ev m m1" "d \<in> live m1"
    "hd (dinsns m1 d) = tg" "d \<in> live m \<longrightarrow> m1 = m"
    using add_target [OF ok t rk n [rule_format]] .
  have g: "man_ok ev m1" "tgts_ok m1" "live_entries m \<subseteq> live_entries m1" "einsn m1 e = einsn m e"
    using a(2) e by (simp_all add: grows_def)
  have tgt: "de_tgt (ent m1 e) = de_tgt (ent m e)"
  proof -
    have "AddNew_spec ev r n" by (rule AddNewDollops_spec [OF rk])
    then obtain d' m'' where "AddNewDollops n ev tg m = Inr (Some d', m'')" "AddNew_post ev r m tg d' m''"
      unfolding AddNew_spec_def using ok n by blast
    then show ?thesis using a(1) live_entries_less [OF ok e] by (simp add: AddNew_post_def man_ext_def)
  qed
  show ?thesis
  proof (cases "Some d = de_tgt (ent m1 e)")
    case True
    then have "d \<in> live m" using t tgt live_entries_less [OF ok e] by (simp add: tgts_ok_def)
    then have "m1 = m" using a(5) by simp
    then have "tgt_resolved ev m e" using a(3,4) Some True [symmetric] unfolding tgt_resolved_def by auto
    moreover have "UpdateTarget n ev e (c, m) = Inr (c, m)"
      using Some a(1) True \<open>m1 = m\<close> by (simp add: UpdateTarget_def)
    ultimately show ?thesis using grows_refl [OF ok t] by blast
  next
    case False
    let ?m = "setTargetDollop (Some d) e m1"
    note s = setTarget_ok [OF g(1,2) a(3), of e]
    have r: "tgt_resolved ev ?m e" using a(3,4) Some s g(4) by (simp add: tgt_resolved_def heap)
    have rx: "tgt_resolved ev ?m x" if "tgt_resolved ev m1 x" for x
      using that r s by (cases "x = e") (auto simp: tgt_resolved_def heap)
    have "settled ev m1 \<subseteq> settled ev ?m" using rx s by (auto simp: settled_def)
    then have gr: "grows ev m ?m"
      using grows_trans [OF a(2), of ?m] s g by (simp add: grows_def)
    have "einsn m e \<in> settled ev ?m" using r s g e by (auto simp: settled_def intro!: exI [of _ e])
    moreover have "einsn m e \<notin> settled ev m"
    proof
      assume "einsn m e \<in> settled ev m"
      then obtain f where f: "f \<in> live_entries m" "tgt_resolved ev m f" "einsn m e = einsn m f" by (auto simp: settled_def)
      have "e = f" by (rule entry_unique [OF ok rk e f(1,3)])
      then obtain x where x: "x \<in> live m" "de_tgt (ent m e) = Some x" "hd (dinsns m x) = tg"
        using f(2) Some by (auto simp: tgt_resolved_def)
      have "0 < n" using n by (metis add_2_eq_Suc' le_zero_eq not_gr_zero nat.distinct(1))
      then have "AddNewDollops n ev tg m = Inr (Some x, m)" by (rule AddNew_hit [OF ok x(1,3)])
      then show False using a(1) False x(2) tgt by simp
    qed
    moreover have "UpdateTarget n ev e (c, m) = Inr (True, ?m)"
      using Some a(1) False by (simp add: UpdateTarget_def)
    ultimately show ?thesis using gr by blast
  qed
qed

text \<open>The same for all entries of a dollop, and for a round over all dollops.\<close>

definition round_post :: "denv \<Rightarrow> bool \<Rightarrow> dman \<Rightarrow> eid set \<Rightarrow> bool \<Rightarrow> dman \<Rightarrow> bool" where
  "round_post ev c m E c' m' \<longleftrightarrow> grows ev m m' \<and>
     (c' = c \<and> m' = m \<and> (\<forall>e \<in> E. tgt_of (ev_ir ev) (einsn m e) \<noteq> None \<longrightarrow> tgt_resolved ev m e) \<or>
      c' \<and> (\<exists>i. i \<in> settled ev m' \<and> i \<notin> settled ev m))"

lemma round_post_trans:
  assumes "round_post ev c m E c1 m1" "round_post ev c1 m1 F c2 m2" "m1 = m \<Longrightarrow> F = F'"
  shows "round_post ev c m (E \<union> F') c2 m2"
proof -
  have g: "grows ev m m2" "settled ev m1 \<subseteq> settled ev m2" "settled ev m \<subseteq> settled ev m1"
    using assms grows_trans [of ev m m1 m2] by (auto simp: round_post_def grows_def)
  show ?thesis
  proof (cases "c1 = c \<and> m1 = m \<and> (\<forall>e \<in> E. tgt_of (ev_ir ev) (einsn m e) \<noteq> None \<longrightarrow> tgt_resolved ev m e)")
    case True
    then show ?thesis using assms(2,3) g(1) unfolding round_post_def by auto
  next
    case False
    then obtain i where "c1" "i \<in> settled ev m1" "i \<notin> settled ev m" using assms(1) by (auto simp: round_post_def)
    then have "c2 \<and> i \<in> settled ev m2 \<and> i \<notin> settled ev m" using assms(2) g(2) by (auto simp: round_post_def)
    then show ?thesis using g(1) unfolding round_post_def by blast
  qed
qed

lemma round_post_refl: "man_ok ev m \<Longrightarrow> tgts_ok m \<Longrightarrow> round_post ev c m {} c m"
  by (simp add: round_post_def grows_refl)

lemma UpdateTargets_fold:
  assumes rk: "ft_rank (ev_ir ev) r" and n: "\<forall>i. 2 * r i + 2 \<le> n"
  shows "man_ok ev m \<Longrightarrow> tgts_ok m \<Longrightarrow> set es \<subseteq> live_entries m \<Longrightarrow>
    \<exists>c' m'. foldR (UpdateTarget n ev) es (c, m) = Inr (c', m') \<and> round_post ev c m (set es) c' m'"
proof (induction es arbitrary: c m)
  case Nil
  then show ?case by (simp add: round_post_refl)
next
  case (Cons e es)
  have e: "e \<in> live_entries m" using Cons.prems by simp
  obtain c1 m1 where 1: "UpdateTarget n ev e (c, m) = Inr (c1, m1)" "round_post ev c m {e} c1 m1"
    using target_step [OF Cons.prems(1,2) rk n e, of c] unfolding round_post_def by auto
  then have g: "man_ok ev m1" "tgts_ok m1" "set es \<subseteq> live_entries m1"
    using Cons.prems(3) by (auto simp: round_post_def grows_def)
  obtain c2 m2 where 2: "foldR (UpdateTarget n ev) es (c1, m1) = Inr (c2, m2)" "round_post ev c1 m1 (set es) c2 m2"
    using Cons.IH [OF g] by blast
  have "round_post ev c m (set (e # es)) c2 m2" using round_post_trans [OF 1(2) 2(2) refl] by simp
  then show ?case using 1(1) 2(1) by auto
qed

lemma round_post_or: "round_post ev False m E cc m' \<Longrightarrow> round_post ev c m E (c \<or> cc) m'"
  by (auto simp: round_post_def)

lemma UpdateRound_fold:
  assumes rk: "ft_rank (ev_ir ev) r" and n: "\<forall>i. 2 * r i + 2 \<le> n"
  shows "man_ok ev m \<Longrightarrow> tgts_ok m \<Longrightarrow> set ds \<subseteq> live m \<Longrightarrow> \<exists>c' m'.
    foldR (\<lambda>d (changed, m). mapR (\<lambda>(c, m). (changed \<or> c, m)) (UpdateTargets n ev d m)) ds (c, m) = Inr (c', m') \<and>
    round_post ev c m (\<Union>d \<in> set ds. set (d_entries (dl m d))) c' m'"
proof (induction ds arbitrary: c m)
  case Nil
  then show ?case by (simp add: round_post_refl)
next
  case (Cons d ds)
  let ?E = "\<lambda>m. \<Union>d \<in> set ds. set (d_entries (dl m d))"
  have "set (d_entries (dl m d)) \<subseteq> live_entries m" using Cons.prems(3) by (auto simp: live_entries_def)
  then obtain cc m1 where 1: "UpdateTargets n ev d m = Inr (cc, m1)"
    "round_post ev False m (set (d_entries (dl m d))) cc m1"
    using UpdateTargets_fold [OF rk n Cons.prems(1,2)] unfolding UpdateTargets_def by blast
  then have g: "man_ok ev m1" "tgts_ok m1" "set ds \<subseteq> live m1"
    using Cons.prems(3) by (auto simp: round_post_def grows_def)
  obtain c2 m2 where 2: "foldR (\<lambda>d (changed, m). mapR (\<lambda>(c, m). (changed \<or> c, m)) (UpdateTargets n ev d m)) ds (c \<or> cc, m1)
      = Inr (c2, m2)" "round_post ev (c \<or> cc) m1 (?E m1) c2 m2"
    using Cons.IH [OF g] by blast
  have "round_post ev c m (set (d_entries (dl m d)) \<union> ?E m) c2 m2"
    by (rule round_post_trans [OF round_post_or [OF 1(2)] 2(2)]) simp
  then show ?case using 1(1) 2(1) by (simp add: mapR_def)
qed

text \<open>
  Every round that changes something settles another instruction, so the number of
  instructions with a target bounds the rounds. A round without a change leaves nothing open.
\<close>

lemma UpdateLoop_result:
  assumes rk: "ft_rank (ev_ir ev) r" and n: "\<forall>i. 2 * r i + 2 \<le> n" and ord: "\<forall>xs. set (ord xs) = set xs"
    and fin: "finite {i. tgt_of (ev_ir ev) i \<noteq> None}"
  shows "man_ok ev m \<Longrightarrow> tgts_ok m \<Longrightarrow> card ({i. tgt_of (ev_ir ev) i \<noteq> None} - settled ev m) < k \<Longrightarrow>
    \<exists>m'. UpdateLoop k n ev ord m = Inr m' \<and> grows ev m m' \<and>
      (\<forall>e \<in> live_entries m'. tgt_of (ev_ir ev) (einsn m' e) \<noteq> None \<longrightarrow> tgt_resolved ev m' e)"
proof (induction k arbitrary: m)
  case (Suc k)
  let ?T = "{i. tgt_of (ev_ir ev) i \<noteq> None}"
  have st: "settled ev m \<subseteq> ?T" for m by (auto simp: settled_def tgt_resolved_def)
  have "set (ord (dm_dollops m)) \<subseteq> live m" using ord by simp
  then obtain c m1 where 1: "UpdateRound n ev ord m = Inr (c, m1)"
    "round_post ev False m (\<Union>d \<in> set (ord (dm_dollops m)). set (d_entries (dl m d))) c m1"
    using UpdateRound_fold [OF rk n Suc.prems(1,2)] unfolding UpdateRound_def by blast
  have E: "(\<Union>d \<in> set (ord (dm_dollops m)). set (d_entries (dl m d))) = live_entries m"
    using ord by (simp add: live_entries_def)
  show ?case
  proof (cases c)
    case False
    then have "m1 = m" "\<forall>e \<in> live_entries m. tgt_of (ev_ir ev) (einsn m e) \<noteq> None \<longrightarrow> tgt_resolved ev m e"
      using 1(2) unfolding round_post_def E by auto
    then show ?thesis using 1(1) False grows_refl [OF Suc.prems(1,2)] by simp
  next
    case True
    then obtain i where i: "i \<in> settled ev m1" "i \<notin> settled ev m" using 1(2) by (auto simp: round_post_def)
    have g: "grows ev m m1" using 1(2) by (simp add: round_post_def)
    have "?T - settled ev m1 \<subset> ?T - settled ev m" using g i st [of m1] by (auto simp: grows_def)
    then have "card (?T - settled ev m1) < card (?T - settled ev m)" using fin by (intro psubset_card_mono) auto
    then have "card (?T - settled ev m1) < k" using Suc.prems(3) by simp
    moreover have "man_ok ev m1" "tgts_ok m1" using g by (simp_all add: grows_def)
    ultimately obtain m' where "UpdateLoop k n ev ord m1 = Inr m'" "grows ev m1 m'"
      "\<forall>e \<in> live_entries m'. tgt_of (ev_ir ev) (einsn m' e) \<noteq> None \<longrightarrow> tgt_resolved ev m' e"
      using Suc.IH by blast
    then show ?thesis using 1(1) True grows_trans [OF g] by auto
  qed
qed simp

text \<open>Adding dollops for a list of instructions.\<close>

lemma add_all:
  assumes rk: "ft_rank (ev_ir ev) r" and n: "\<forall>i. 2 * r i + 2 \<le> n"
  shows "man_ok ev m \<Longrightarrow> tgts_ok m \<Longrightarrow>
    \<exists>m'. foldR (\<lambda>i m. mapR snd (AddNewDollops n ev i m)) is m = Inr m' \<and> grows ev m m' \<and> set is \<subseteq> heads m'"
proof (induction "is" arbitrary: m)
  case Nil
  then show ?case by (simp add: grows_refl)
next
  case (Cons i "is")
  obtain d m1 where a: "AddNewDollops n ev i m = Inr (Some d, m1)" "grows ev m m1" "d \<in> live m1" "hd (dinsns m1 d) = i"
    "d \<in> live m \<longrightarrow> m1 = m" using add_target [OF Cons.prems rk n [rule_format]] .
  then have "man_ok ev m1" "tgts_ok m1" by (simp_all add: grows_def)
  from Cons.IH [OF this] obtain m2 where
    2: "foldR (\<lambda>i m. mapR snd (AddNewDollops n ev i m)) is m1 = Inr m2" "grows ev m1 m2" "set is \<subseteq> heads m2" by blast
  have "i \<in> heads m1" using a(3,4) by (auto simp: heads_def)
  then have "set (i # is) \<subseteq> heads m2" using 2(2,3) by (auto simp: grows_def)
  moreover have "foldR (\<lambda>i m. mapR snd (AddNewDollops n ev i m)) (i # is) m = Inr m2"
    using a(1) 2(1) by (simp add: mapR_def)
  ultimately show ?case using grows_trans [OF a(2) 2(2)] by blast
qed

lemma relocs_fold: "foldR (\<lambda>wrt m. case wrt of None \<Rightarrow> Inr m | Some i \<Rightarrow> f i m) relocs m = foldR f (List.map_filter id relocs) m"
  by (induction relocs arbitrary: m) (auto simp: List.map_filter_simps bindR_def split: option.splits sum.splits)

lemma UpdateAllTargets_result:
  assumes rk: "ft_rank (ev_ir ev) r" and n: "\<forall>i. 2 * r i + 2 \<le> n" and ord: "\<forall>xs. set (ord xs) = set xs"
    and fin: "finite {i. tgt_of (ev_ir ev) i \<noteq> None}" and k: "card {i. tgt_of (ev_ir ev) i \<noteq> None} < k"
    and ok: "man_ok ev m" and t: "tgts_ok m"
  shows "\<exists>m'. UpdateAllTargets k n ev ord relocs m = Inr m' \<and> grows ev m m' \<and>
    (\<forall>i. Some i \<in> set relocs \<longrightarrow> i \<in> heads m') \<and>
    (\<forall>e \<in> live_entries m'. tgt_of (ev_ir ev) (einsn m' e) \<noteq> None \<longrightarrow> tgt_resolved ev m' e)"
proof -
  obtain m1 where 1: "foldR (\<lambda>i m. mapR snd (AddNewDollops n ev i m)) (List.map_filter id relocs) m = Inr m1"
    "grows ev m m1" "set (List.map_filter id relocs) \<subseteq> heads m1"
    using add_all [OF rk n ok t] by blast
  have "card ({i. tgt_of (ev_ir ev) i \<noteq> None} - settled ev m1) < k"
    using card_mono [OF fin, of "{i. tgt_of (ev_ir ev) i \<noteq> None} - settled ev m1"] k by auto
  with UpdateLoop_result [OF rk n ord fin, of m1 k] 1(2) obtain m2 where
    2: "UpdateLoop k n ev ord m1 = Inr m2" "grows ev m1 m2"
      "\<forall>e \<in> live_entries m2. tgt_of (ev_ir ev) (einsn m2 e) \<noteq> None \<longrightarrow> tgt_resolved ev m2 e"
    by (auto simp: grows_def)
  have "i \<in> heads m2" if "Some i \<in> set relocs" for i
  proof -
    have "i \<in> set (List.map_filter id relocs)" using that by (force simp: List.map_filter_def)
    then show ?thesis using 1(3) 2(2) by (auto simp: grows_def)
  qed
  then show ?thesis
    using 1(1) 2 grows_trans [OF 1(2) 2(2)] by (simp add: UpdateAllTargets_def relocs_fold)
qed

section \<open>Properties\<close>

lemma dman_init_ok: "man_ok ev dman_init" "tgts_ok dman_init"
  by (simp_all add: man_ok_def tgts_ok_def dman_init_def)

text \<open>A program of three instructions: 0 and 1 fall through, 1 jumps to itself, 2 jumps to 0.\<close>

definition sample_env :: denv where
  "sample_env = \<lparr>ev_ir = \<lparr>ir_insns = [0 \<mapsto> (new_insn (DataBits [0x90]))\<lparr>i_ft := Some 1\<rparr>,
       1 \<mapsto> (new_insn (DataBits [0x75, 0]))\<lparr>i_ft := Some 2, i_tgt := Some 1\<rparr>,
       2 \<mapsto> (new_insn (DataBits [0xeb, 0]))\<lparr>i_tgt := Some 0\<rparr>], ir_next = 3\<rparr>,
     ev_esize = (\<lambda>_. 5), ev_tramp = 5\<rparr>"

lemma sample_env_links:
  "ft_of (ev_ir sample_env) i = (if i = 0 then Some 1 else if i = 1 then Some 2 else None)"
  "tgt_of (ev_ir sample_env) i = (if i = 1 then Some 1 else if i = 2 then Some 0 else None)"
  "ibta_of (ev_ir sample_env) i = None"
  by (simp_all add: sample_env_def ft_of_def tgt_of_def ibta_of_def new_insn_def)

lemma sample_env_rank: "ft_rank (ev_ir sample_env) (\<lambda>i. 2 - i)"
  by (simp add: ft_rank_def sample_env_links)



text \<open>C24: \<open>Dollop_t::split\<close> at an instruction moves the entries from that instruction on, in order,
  to a new dollop, puts the new dollop between the old one and its fallthrough dollop,
  recomputes both sizes and leaves the entries of every other dollop alone.\<close>

theorem split_correct:
  fixes m :: dman
  assumes "sp \<in> set (dinsns m d)" and "d \<noteq> h_dnext m"
  shows "\<exists>m'. split ev sp d m = Inr (Some (h_dnext m), m') \<and>
    dinsns m' d = takeWhile (\<lambda>i. i \<noteq> sp) (dinsns m d) \<and>
    dinsns m' (h_dnext m) = dropWhile (\<lambda>i. i \<noteq> sp) (dinsns m d) \<and>
    d_ft (dl m' d) = Some (h_dnext m) \<and> d_ft (dl m' (h_dnext m)) = d_ft (dl m d) \<and>
    CalculateSize ev d m' = Inr (d_size (dl m' d)) \<and>
    CalculateSize ev (h_dnext m) m' = Inr (d_size (dl m' (h_dnext m))) \<and>
    (\<forall>x. x \<noteq> d \<and> x \<noteq> h_dnext m \<longrightarrow> dinsns m' x = dinsns m x \<and> d_ft (dl m' x) = d_ft (dl m x))"
proof -
  obtain m' where s: "split ev sp d m = Inr (Some (h_dnext m), m')"
    "d_entries (dl m' d) = takeWhile (\<lambda>e. einsn m e \<noteq> sp) (d_entries (dl m d))"
    "d_entries (dl m' (h_dnext m)) = dropWhile (\<lambda>e. einsn m e \<noteq> sp) (d_entries (dl m d))"
    "d_ft (dl m' d) = Some (h_dnext m)" "d_ft (dl m' (h_dnext m)) = d_ft (dl m d)"
    "CalculateSize ev d m' = Inr (d_size (dl m' d))" "CalculateSize ev (h_dnext m) m' = Inr (d_size (dl m' (h_dnext m)))"
    "\<forall>x. x \<noteq> d \<longrightarrow> x \<noteq> h_dnext m \<longrightarrow> dl m' x = (dl m x)\<lparr>d_fb := d_fb (dl m' x)\<rparr>" "einsn m' = einsn m"
    by (rule split_result [OF assms(2,1), of ev]) simp
  have "dinsns m' x = dinsns m x \<and> d_ft (dl m' x) = d_ft (dl m x)" if "x \<noteq> d" "x \<noteq> h_dnext m" for x
    using arg_cong [OF s(8) [rule_format, OF that], of d_entries] arg_cong [OF s(8) [rule_format, OF that], of d_ft]
    by (simp add: dinsns_def s(9))
  then show ?thesis using s by (simp add: dinsns_def takeWhile_map dropWhile_map comp_def)
qed



text \<open>C25: When an instruction that falls through to itself has an indirect branch target address,
  \<open>AddNewDollops\<close> never returns: each call allocates a dollop it has not registered yet and
  calls itself for the same instruction, whatever the bound on the calls.\<close>

theorem AddNewDollops_diverges:
  assumes "ft_of (ev_ir ev) a = Some a" and "ibta_of (ev_ir ev) a \<noteq> None" and "man_ok ev m" and "dm_map m a = None"
  shows "AddNewDollops n ev a m = Inl OutOfFuel"
  using assms(3,4)
proof (induction n arbitrary: m rule: less_induct)
  case (less n)
  show ?case
  proof (cases n)
    case (Suc k)
    show ?thesis
    proof (cases k)
      case 0
      then show ?thesis using less.prems Suc
        by (simp add: AddNewDollops.simps getContainingDollop_def createNewDollop_def)
    next
      case k: (Suc j)
      have run: "insn_run k (ev_ir ev) a = Inr [a]" using assms(1,2) k by auto
      obtain m1 where c: "createNewDollop k ev a m = Inr (h_dnext m, m1)" "keeps m m1"
        "man_ext (h_dnext m) (h_enext m) m m1" "dinsns m1 (h_dnext m) = [a]" "dollop_wf ev (h_dnext m) m1"
        "d_ft (dl m1 (h_dnext m)) = None" "h_dnext m1 = Suc (h_dnext m)"
        "d_ft_patched (dl m1 (h_dnext m)) = False" "d_coalesced (dl m1 (h_dnext m)) = False"
        "CalculateSize ev (h_dnext m) m1 = Inr (d_size (dl m1 (h_dnext m)))"
        using createNewDollop_result [OF run less.prems(1)] .
      have "dm_map m1 a = None" using keeps_live(2) [OF c(2)] less.prems(2) by simp
      then have "AddNewDollops j ev a m1 = Inl OutOfFuel"
        using less.IH [of j m1] keeps_ok [OF c(2) less.prems(1)] Suc k by simp
      then have "follow_fallthroughs k ev (h_dnext m) m1 = Inl OutOfFuel"
        using c(4) assms(1) \<open>dm_map m1 a = None\<close> unfolding k
        by (simp add: follow_fallthroughs.simps(2) [of j] getContainingDollop_def)
      then show ?thesis using less.prems(2) c(1,4) \<open>dm_map m1 a = None\<close> unfolding Suc
        by (simp add: AddNewDollops.simps(2) [of k] getContainingDollop_def)
    qed
  qed (simp add: AddNewDollops.simps)
qed

definition loop_env :: denv where
  "loop_env = \<lparr>ev_ir = \<lparr>ir_insns = [0 \<mapsto> (new_insn (DataBits [0x90]))\<lparr>i_ft := Some 0, i_ibta := Some 0x400000\<rparr>], ir_next = 1\<rparr>,
     ev_esize = (\<lambda>_. 5), ev_tramp = 5\<rparr>"

theorem AddNewDollops_diverges_witness: "AddNewDollops 100 loop_env 0 dman_init = Inl OutOfFuel"
  by (rule AddNewDollops_diverges)
    (simp_all add: loop_env_def ft_of_def ibta_of_def new_insn_def dman_init_def man_ok_def)

theorem split_correct_witness:
  "\<exists>m d m'. dinsns m d = [0, 1, 2] \<and> split sample_env 1 d m = Inr (Some (h_dnext m), m') \<and>
    dinsns (m' :: dman) d = [0] \<and> dinsns m' (h_dnext m) = [1, 2]"
proof -
  have run: "insn_run 3 (ev_ir sample_env) 0 = Inr [0, 1, 2]"
    by (simp add: numeral_3_eq_3 sample_env_links mapR_def)
  obtain m1 :: dman where m1: "dinsns m1 (h_dnext dman_init) = [0, 1, 2]" "h_dnext m1 = Suc (h_dnext dman_init)"
    by (rule createNewDollop_result [OF run dman_init_ok(1)]) (rule that, assumption+)
  then have "1 \<in> set (dinsns m1 (h_dnext dman_init))" "h_dnext dman_init \<noteq> h_dnext m1" by simp_all
  from split_correct [OF this, of sample_env] obtain m' where
    "split sample_env 1 (h_dnext dman_init) m1 = Inr (Some (h_dnext m1), m')"
    "dinsns m' (h_dnext dman_init) = [0]" "dinsns m' (h_dnext m1) = [1, 2]" by (auto simp: m1(1))
  then show ?thesis
    by (intro exI [of _ m1] exI [of _ "h_dnext dman_init"] exI [of _ m']) (simp add: m1(1))
qed

end
