(* ===== verification/Zipr_Pinner_RISC.thy ===== *)
theory Zipr_Pinner_RISC
  imports Zipr_State Zipr_Patcher_RISC Zipr_Targets
begin

text \<open>
  The pinners of ARM64, ARM32 and MIPS32 (\<open>zipr/src/pinner_arm64.cpp\<close>, \<open>pinner_arm32.cpp\<close>,
  \<open>pinner_mips32.cpp\<close>): at the address of every pinned instruction an unconditional branch is
  written that is patched once the instruction has its place. The three differ in the branch
  and in what happens when the place holds a byte already.
\<close>

definition pin_insn :: "error \<Rightarrow> byte list \<Rightarrow> nat \<Rightarrow> denv \<Rightarrow> iid \<Rightarrow> zipr \<Rightarrow> zipr result" where
  "pin_insn busy bytes n ev insn z =
     (case ibta_of (z_ir z) insn of
        None \<Rightarrow> Inr z
      | Some ibta_addr \<Rightarrow>
          if ibta_addr = 0 then
            bindR (on_dm (AddNewDollops n (cur_env ev z) insn) z) (\<lambda>(newDoll, z).
            Inr (queue_insert (newDoll, 0) z))
          else
            bindR (on_ms (reserve_bytes busy ibta_addr bytes) z) (\<lambda>z.
            Inr (AddPatch insn \<lparr>pt_from = ibta_addr, pt_type = UncondJump_rel26\<rparr> z)))"

definition arm64_doPinning :: "nat \<Rightarrow> denv \<Rightarrow> iid list \<Rightarrow> zipr \<Rightarrow> zipr result" where
  "arm64_doPinning n ev insns = foldR (pin_insn AssertFail [0x00, 0x00, 0x00, 0x14] n ev) insns"

definition arm32_doPinning :: "nat \<Rightarrow> denv \<Rightarrow> iid list \<Rightarrow> zipr \<Rightarrow> zipr result" where
  "arm32_doPinning n ev insns = foldR (pin_insn (ExitCode 10) [0x00, 0x00, 0x00, 0xea] n ev) insns"

definition mips32_doPinning :: "nat \<Rightarrow> denv \<Rightarrow> iid list \<Rightarrow> zipr \<Rightarrow> zipr result" where
  "mips32_doPinning n ev insns =
     foldR (pin_insn (ExitCode 10) [0x10, 0x00, 0x00, 0x00, 0x00, 0x00, 0x00, 0x00] n ev) insns"

section \<open>What pinning leaves in memory\<close>

text \<open>The pinned instructions with their addresses.\<close>

definition pins :: "ir \<Rightarrow> iid list \<Rightarrow> (iid \<times> addr) list" where
  "pins f insns = map (\<lambda>i. (i, the (ibta_of f i))) (filter (\<lambda>i. ibta_of f i \<noteq> None \<and> ibta_of f i \<noteq> Some 0) insns)"

lemma pins_Cons: "pins f (i # is) =
    (case ibta_of f i of None \<Rightarrow> pins f is | Some a \<Rightarrow> if a = 0 then pins f is else (i, a) # pins f is)"
  by (auto simp: pins_def split: option.splits)

definition pin_written :: "byte list \<Rightarrow> addr \<Rightarrow> zipr \<Rightarrow> bool" where
  "pin_written bytes a z \<longleftrightarrow> (\<forall>k < length bytes. ms_bytes (z_ms z) (a + of_nat k) = Some (bytes ! k))"

text \<open>One instruction: new bytes at fresh addresses, old bytes kept.\<close>

lemma pin_insn_Inr:
  assumes p: "pin_insn busy bytes n ev i z = Inr z'" and ok: "ms_ok (z_ms z)"
  shows "ms_ok (z_ms z')" "z_ir z' = z_ir z" "\<And>x b. ms_bytes (z_ms z) x = Some b \<Longrightarrow> ms_bytes (z_ms z') x = Some b"
    "set (z_patch_list z) \<subseteq> set (z_patch_list z')" "free_set (z_ms z') \<subseteq> free_set (z_ms z)"
    "\<And>a. ibta_of (z_ir z) i = Some a \<Longrightarrow> a \<noteq> 0 \<Longrightarrow> pin_written bytes a z' \<and>
      (\<forall>x \<in> set (addrs a (length bytes)). ms_bytes (z_ms z) x = None \<and> x \<in> free_set (z_ms z) \<and> x \<notin> free_set (z_ms z')) \<and>
      (i, \<lparr>pt_from = a, pt_type = UncondJump_rel26\<rparr>) \<in> set (z_patch_list z')"
proof -
  have "ms_ok (z_ms z') \<and> z_ir z' = z_ir z \<and> (\<forall>x b. ms_bytes (z_ms z) x = Some b \<longrightarrow> ms_bytes (z_ms z') x = Some b) \<and>
    set (z_patch_list z) \<subseteq> set (z_patch_list z') \<and> free_set (z_ms z') \<subseteq> free_set (z_ms z) \<and>
    (\<forall>a. ibta_of (z_ir z) i = Some a \<longrightarrow> a \<noteq> 0 \<longrightarrow> pin_written bytes a z' \<and>
      (\<forall>x \<in> set (addrs a (length bytes)). ms_bytes (z_ms z) x = None \<and> x \<in> free_set (z_ms z) \<and> x \<notin> free_set (z_ms z')) \<and>
      (i, \<lparr>pt_from = a, pt_type = UncondJump_rel26\<rparr>) \<in> set (z_patch_list z'))"
  proof (cases "ibta_of (z_ir z) i")
    case None
    then show ?thesis using p ok by (simp add: pin_insn_def)
  next
    case (Some a)
    show ?thesis
    proof (cases "a = 0")
      case True
      then show ?thesis using p ok Some
        by (auto simp: pin_insn_def on_dm_def bindR_eq_Inr queue_insert_def)
    next
      case False
      then obtain ms where ms: "reserve_bytes busy a bytes (z_ms z) = Inr ms"
        "z' = AddPatch i \<lparr>pt_from = a, pt_type = UncondJump_rel26\<rparr> (z\<lparr>z_ms := ms\<rparr>)"
        using p Some by (auto simp: pin_insn_def on_ms_def bindR_eq_Inr)
      note r = reserve_fold_Inr [OF ms(1) [unfolded reserve_bytes_def] ok]
      have fs: "fst ` set (zip (addrs a (length bytes)) bytes) = set (addrs a (length bytes))"
        by (simp add: set_map [symmetric] del: set_map)
      have k: "(a + of_nat k, bytes ! k) \<in> set (zip (addrs a (length bytes)) bytes)" if "k < length bytes" for k
        using that by (auto simp: set_zip addrs_def intro!: exI [of _ k])
      have "ms_bytes ms x = Some b" if "ms_bytes (z_ms z) x = Some b" for x b
        using r(3) r(4) [of x] that by fastforce
      moreover have "pin_written bytes a z'" using r(3) [OF k] by (simp add: pin_written_def ms(2) AddPatch_def)
      moreover have "\<forall>x \<in> set (addrs a (length bytes)). ms_bytes (z_ms z) x = None \<and> x \<in> free_set (z_ms z)"
      proof
        fix x assume "x \<in> set (addrs a (length bytes))"
        then have "x \<in> fst ` set (zip (addrs a (length bytes)) bytes)" by (simp only: fs)
        then obtain b where "(x, b) \<in> set (zip (addrs a (length bytes)) bytes)" by auto
        then show "ms_bytes (z_ms z) x = None \<and> x \<in> free_set (z_ms z)" using r(3) by blast
      qed
      moreover have "x \<notin> free_set ms" if "x \<in> set (addrs a (length bytes))" for x
        using r(5) fs that by blast
      moreover have "free_set ms \<subseteq> free_set (z_ms z)" using r(5) by blast
      ultimately show ?thesis using r(1) Some by (simp add: ms(2) AddPatch_def subset_insertI)
    qed
  qed
  then show "ms_ok (z_ms z')" "z_ir z' = z_ir z" "\<And>x b. ms_bytes (z_ms z) x = Some b \<Longrightarrow> ms_bytes (z_ms z') x = Some b"
    "set (z_patch_list z) \<subseteq> set (z_patch_list z')" "free_set (z_ms z') \<subseteq> free_set (z_ms z)"
    "\<And>a. ibta_of (z_ir z) i = Some a \<Longrightarrow> a \<noteq> 0 \<Longrightarrow> pin_written bytes a z' \<and>
      (\<forall>x \<in> set (addrs a (length bytes)). ms_bytes (z_ms z) x = None \<and> x \<in> free_set (z_ms z) \<and> x \<notin> free_set (z_ms z')) \<and>
      (i, \<lparr>pt_from = a, pt_type = UncondJump_rel26\<rparr>) \<in> set (z_patch_list z')" by blast+
qed

text \<open>All pins are written, recorded for patching, and no two of them overlap.\<close>

definition pins_apart :: "nat \<Rightarrow> (iid \<times> addr) list \<Rightarrow> bool" where
  "pins_apart len ps \<longleftrightarrow> sorted_wrt (\<lambda>p q. set (addrs (snd p) len) \<inter> set (addrs (snd q) len) = {}) ps"

lemma pin_all_Inr:
  assumes "foldR (pin_insn busy bytes n ev) insns z = Inr z'" "ms_ok (z_ms z)"
  shows "ms_ok (z_ms z')" "z_ir z' = z_ir z" "\<And>x b. ms_bytes (z_ms z) x = Some b \<Longrightarrow> ms_bytes (z_ms z') x = Some b"
    "set (z_patch_list z) \<subseteq> set (z_patch_list z')" "free_set (z_ms z') \<subseteq> free_set (z_ms z)"
    "pins_apart (length bytes) (pins (z_ir z) insns)"
    "\<And>i a. (i, a) \<in> set (pins (z_ir z) insns) \<Longrightarrow> pin_written bytes a z' \<and>
      (\<forall>x \<in> set (addrs a (length bytes)). ms_bytes (z_ms z) x = None \<and> x \<in> free_set (z_ms z) \<and> x \<notin> free_set (z_ms z')) \<and>
      (i, \<lparr>pt_from = a, pt_type = UncondJump_rel26\<rparr>) \<in> set (z_patch_list z')"
proof -
  have "ms_ok (z_ms z') \<and> z_ir z' = z_ir z \<and> (\<forall>x b. ms_bytes (z_ms z) x = Some b \<longrightarrow> ms_bytes (z_ms z') x = Some b) \<and>
    set (z_patch_list z) \<subseteq> set (z_patch_list z') \<and> free_set (z_ms z') \<subseteq> free_set (z_ms z) \<and>
    pins_apart (length bytes) (pins (z_ir z) insns) \<and>
    (\<forall>i a. (i, a) \<in> set (pins (z_ir z) insns) \<longrightarrow> pin_written bytes a z' \<and>
      (\<forall>x \<in> set (addrs a (length bytes)). ms_bytes (z_ms z) x = None \<and> x \<in> free_set (z_ms z) \<and> x \<notin> free_set (z_ms z')) \<and>
      (i, \<lparr>pt_from = a, pt_type = UncondJump_rel26\<rparr>) \<in> set (z_patch_list z'))"
    using assms
  proof (induction insns arbitrary: z)
    case Nil
    then show ?case by (simp add: pins_def pins_apart_def)
  next
    case (Cons j insns)
    obtain z1 where z1: "pin_insn busy bytes n ev j z = Inr z1" "foldR (pin_insn busy bytes n ev) insns z1 = Inr z'"
      using Cons.prems(1) by (auto simp: bindR_eq_Inr)
    note s = pin_insn_Inr [OF z1(1) Cons.prems(2)]
    note IH = Cons.IH [OF z1(2) s(1), unfolded s(2)]
    have fresh: "ms_bytes (z_ms z) x = None" if "ms_bytes (z_ms z1) x = None" for x
      using s(3) [of x] that by (cases "ms_bytes (z_ms z) x") auto
    have tail: "pin_written bytes a z' \<and>
        (\<forall>x \<in> set (addrs a (length bytes)). ms_bytes (z_ms z) x = None \<and> x \<in> free_set (z_ms z) \<and> x \<notin> free_set (z_ms z')) \<and>
        (i, \<lparr>pt_from = a, pt_type = UncondJump_rel26\<rparr>) \<in> set (z_patch_list z')"
      if "(i, a) \<in> set (pins (z_ir z) insns)" for i a
      using IH that fresh s(5) by blast
    show ?case
    proof (cases "pins (z_ir z) (j # insns) = pins (z_ir z) insns")
      case True
      then show ?thesis using IH tail s(3-5) by (auto simp: True)
    next
      case False
      then obtain a where a: "ibta_of (z_ir z) j = Some a" "a \<noteq> 0" "pins (z_ir z) (j # insns) = (j, a) # pins (z_ir z) insns"
        by (auto simp: pins_Cons split: option.splits if_splits)
      note h = s(6) [OF a(1,2)]
      have hw: "pin_written bytes a z'" using h IH by (auto simp: pin_written_def)
      have "set (addrs a (length bytes)) \<inter> set (addrs c (length bytes)) = {}" if "(i, c) \<in> set (pins (z_ir z) insns)" for i c
      proof -
        have "x \<notin> free_set (z_ms z1)" if "x \<in> set (addrs a (length bytes))" for x using h that by blast
        moreover have "x \<in> free_set (z_ms z1)" if "x \<in> set (addrs c (length bytes))" for x
          using IH \<open>(i, c) \<in> _\<close> that by blast
        ultimately show ?thesis by blast
      qed
      then have "\<forall>q \<in> set (pins (z_ir z) insns). set (addrs a (length bytes)) \<inter> set (addrs (snd q) (length bytes)) = {}"
        by force
      moreover have "pins_apart (length bytes) (pins (z_ir z) insns)" using IH by blast
      ultimately have "pins_apart (length bytes) (pins (z_ir z) (j # insns))"
        by (simp add: a(3) pins_apart_def)
      then show ?thesis using IH tail s(3-5) h hw by (auto simp: a(3))
    qed
  qed
  then show "ms_ok (z_ms z')" "z_ir z' = z_ir z" "\<And>x b. ms_bytes (z_ms z) x = Some b \<Longrightarrow> ms_bytes (z_ms z') x = Some b"
    "set (z_patch_list z) \<subseteq> set (z_patch_list z')" "free_set (z_ms z') \<subseteq> free_set (z_ms z)"
    "pins_apart (length bytes) (pins (z_ir z) insns)"
    "\<And>i a. (i, a) \<in> set (pins (z_ir z) insns) \<Longrightarrow> pin_written bytes a z' \<and>
      (\<forall>x \<in> set (addrs a (length bytes)). ms_bytes (z_ms z) x = None \<and> x \<in> free_set (z_ms z) \<and> x \<notin> free_set (z_ms z')) \<and>
      (i, \<lparr>pt_from = a, pt_type = UncondJump_rel26\<rparr>) \<in> set (z_patch_list z')" by blast+
qed

section \<open>Properties\<close>

lemma pins_sites:
  assumes "pins_apart n ps" "p \<in> set ps" "q \<in> set ps" "p \<noteq> q"
  shows "set (addrs (snd p) n) \<inter> set (addrs (snd q) n) = {}"
  using assms unfolding pins_apart_def by (induction ps) auto

lemma all_less_4: "(\<forall>k < 4. P k) \<longleftrightarrow> P 0 \<and> P 1 \<and> P (2::nat) \<and> P (3::nat)"
  by (auto simp: numeral_eq_Suc less_Suc_eq)

lemma pin_written_4:
  assumes "pin_written (b0 # b1 # b2 # b3 # bs) a z"
  shows "ms_peek a (z_ms z) = b0" "ms_peek (a + 1) (z_ms z) = b1" "ms_peek (a + 2) (z_ms z) = b2" "ms_peek (a + 3) (z_ms z) = b3"
proof -
  have "ms_bytes (z_ms z) (a + of_nat k) = Some ((b0 # b1 # b2 # b3 # bs) ! k)" if "k < 4" for k
    using assms that by (simp add: pin_written_def)
  from this [of 0] this [of 1] this [of 2] this [of 3]
  show "ms_peek a (z_ms z) = b0" "ms_peek (a + 1) (z_ms z) = b1" "ms_peek (a + 2) (z_ms z) = b2" "ms_peek (a + 3) (z_ms z) = b3"
    by (simp_all add: ms_peek_def)
qed

text \<open>C26: Pinning on ARM64 either stops or leaves, at the address of every pinned
  instruction, the four bytes of an unconditional branch. They were free and unwritten
  before, are reserved afterwards, overlap with no other pin, and a patch of 26 bits is
  recorded for them. Bytes that were there stay, and the memory space stays consistent.\<close>

theorem arm64_doPinning_correct:
  assumes "arm64_doPinning n ev insns z = Inr z'" and "ms_ok (z_ms z)"
    and "(i, a) \<in> set (pins (z_ir z) insns)"
  shows "arm64_uncond (ms_peek (a + 3) (z_ms z')) \<and> ms_word a (z_ms z') = 0x14000000 \<and> ms_ok (z_ms z') \<and>
    (\<forall>x \<in> set (addrs a 4). \<not> IsByteFree x (z_ms z') \<and> IsByteFree x (z_ms z) \<and> ms_bytes (z_ms z) x = None) \<and>
    (i, \<lparr>pt_from = a, pt_type = UncondJump_rel26\<rparr>) \<in> set (z_patch_list z') \<and>
    pins_apart 4 (pins (z_ir z) insns) \<and>
    (\<forall>x b. ms_bytes (z_ms z) x = Some b \<longrightarrow> ms_bytes (z_ms z') x = Some b)"
proof -
  note r = pin_all_Inr [OF assms(1) [unfolded arm64_doPinning_def] assms(2)]
  have n4: "length [0x00, 0x00, 0x00, 0x14 :: byte] = 4" by simp
  have "pin_written [0x00, 0x00, 0x00, 0x14] a z'" using r(7) [OF assms(3)] by blast
  note p = pin_written_4 [OF this]
  show ?thesis
    using r(1,3) r(6) [unfolded n4] r(7) [OF assms(3), unfolded n4] p assms(2)
    by (simp add: arm64_uncond_def ms_word_def word4_def IsByteFree_iff)
qed


text \<open>A state with a pinned instruction at 0x110, an unpinned one and free room.\<close>

definition pin_ir :: ir where
  "pin_ir = \<lparr>ir_insns = [0 \<mapsto> new_insn (DataBits [0x90]),
     1 \<mapsto> (new_insn (DataBits [0x91]))\<lparr>i_ibta := Some 0x110\<rparr>], ir_next = 2\<rparr>"

definition pin_sample :: zipr where
  "pin_sample = \<lparr>z_ms = sample_space, z_ir = pin_ir, z_dm = dman_init, z_patch_at = Map.empty,
     z_patch_list = [], z_queue = [], z_locs = Map.empty\<rparr>"

lemma pin_sample_pins [simp]: "pins (z_ir pin_sample) [0, Suc 0] = [(Suc 0, 0x110)]"
  by (simp add: pins_def pin_sample_def pin_ir_def ibta_of_def new_insn_def)

lemma pin_sample_ok: "ms_ok (z_ms pin_sample)"
  by (simp add: pin_sample_def sample_space_ok)

lemma pin_sample_runs:
  assumes "length bytes \<le> 64"
  shows "\<exists>z'. foldR (pin_insn busy bytes n ev) [0, 1] pin_sample = Inr z'"
proof -
  have "ms_bytes sample_space x = None \<and> x \<in> free_set sample_space" if x: "x \<in> set (addrs 0x110 (length bytes))" for x
  proof -
    obtain k where k: "x = 0x110 + of_nat k" "k < length bytes" using x by (auto simp: set_addrs)
    have "unat x = 272 + k" using k assms by (simp add: unat_word_ariths unat_of_nat)
    then have "x \<in> {0x100..0x1ff}" using k(2) assms by (simp add: word_le_nat_alt)
    then show ?thesis by (simp add: sample_space_ok) (simp add: sample_space_def ms_init_def)
  qed
  then obtain ms where "reserve_bytes busy 0x110 bytes sample_space = Inr ms"
    using reserve_bytes_total [OF sample_space_ok(1), of bytes "0x110" busy] assms by auto
  then show ?thesis by (simp add: pin_insn_def pin_sample_def pin_ir_def ibta_of_def new_insn_def on_ms_def)
qed

theorem arm64_doPinning_correct_witness:
  "\<exists>z'. arm64_doPinning 3 sample_env [0, 1] pin_sample = Inr z' \<and> ms_word 0x110 (z_ms z') = 0x14000000"
proof -
  obtain z' where z: "arm64_doPinning 3 sample_env [0, 1] pin_sample = Inr z'"
    using pin_sample_runs [of "[0x00, 0x00, 0x00, 0x14]" "AssertFail" 3 sample_env]
    unfolding arm64_doPinning_def by force
  show ?thesis using arm64_doPinning_correct [OF z pin_sample_ok, of 1 "0x110"] z
    by simp
qed

text \<open>The pins as patches, when every instruction \<open>i\<close> has been placed at \<open>loc i\<close>.\<close>

definition pin_patches :: "(iid \<Rightarrow> addr) \<Rightarrow> (iid \<times> addr) list \<Rightarrow> (addr \<times> addr) list" where
  "pin_patches loc ps = map (\<lambda>(i, a). (a, loc i)) ps"

lemma pin_patches_mem: "(a, t) \<in> set (pin_patches loc ps) \<longleftrightarrow> (\<exists>i. (i, a) \<in> set ps \<and> t = loc i)"
  by (force simp: pin_patches_def)

lemma pins_distinct:
  assumes "pins_apart n ps" "0 < n"
  shows "distinct (map fst (pin_patches loc ps))"
proof -
  have "a \<in> set (addrs a n)" for a using assms(2) by (auto simp: set_addrs intro!: image_eqI [of _ _ 0])
  then have "\<forall>p q. set (addrs (snd p) n) \<inter> set (addrs (snd q) n) = {} \<longrightarrow> snd p \<noteq> snd q" by (metis disjoint_iff)
  then have "sorted_wrt (\<lambda>p q. snd p \<noteq> snd q) ps"
    using assms(1) unfolding pins_apart_def by (auto intro: sorted_wrt_mono_rel [rotated])
  then show ?thesis by (induction ps) (auto simp: pin_patches_def)
qed

text \<open>What holds for every patcher: when all pins are branches that reach their
  instructions, patching all of them succeeds and each goes to its instruction.\<close>

context branch_patcher
begin

lemma pins_patched:
  assumes "pins_apart n ps" "0 < n" and foot: "\<And>a m. foot a m \<subseteq> set (addrs a n)"
    and br: "\<And>i a. (i, a) \<in> set ps \<Longrightarrow> target a ms \<noteq> None \<and> reach a (loc i) ms"
    and able: "\<And>i a m. (i, a) \<in> set ps \<Longrightarrow> target a m \<noteq> None \<Longrightarrow> reach a (loc i) m \<Longrightarrow>
      free_ranges m = free_ranges ms \<Longrightarrow> \<exists>m'. patch a (loc i) m = Inr m'"
  obtains ms' where "patches (pin_patches loc ps) ms = Inr ms'" "\<forall>(i, a) \<in> set ps. target a ms' = Some (loc i)"
    "free_ranges ms' = free_ranges ms"
proof -
  have sites: "sites_ok (pin_patches loc ps) ms"
    unfolding sites_ok_def
  proof (intro conjI allI impI)
    show "distinct (map fst (pin_patches loc ps))" by (rule pins_distinct [OF assms(1,2)])
    fix a t assume "(a, t) \<in> set (pin_patches loc ps)"
    then show "reach a t ms" using br by (auto simp: pin_patches_mem)
  next
    fix a t c u assume "(a, t) \<in> set (pin_patches loc ps)" "(c, u) \<in> set (pin_patches loc ps)" "a \<noteq> c"
    then have "set (addrs a n) \<inter> set (addrs c n) = {}"
      unfolding pin_patches_mem using pins_sites [OF assms(1)] by force
    then show "foot a ms \<inter> foot c ms = {}" using foot by blast
  qed
  have "\<exists>ms'. patches (pin_patches loc ps) ms = Inr ms'"
  proof (rule patches_total [OF sites])
    fix a t assume "(a, t) \<in> set (pin_patches loc ps)"
    then obtain i where "(i, a) \<in> set ps" "t = loc i" by (auto simp: pin_patches_mem)
    then show "target a ms \<noteq> None" "\<And>m. target a m \<noteq> None \<Longrightarrow> reach a t m \<Longrightarrow> free_ranges m = free_ranges ms \<Longrightarrow> \<exists>m'. patch a t m = Inr m'"
      using br able by blast+
  qed
  then obtain ms' where ms': "patches (pin_patches loc ps) ms = Inr ms'" ..
  have "target a ms' = Some (loc i)" if "(i, a) \<in> set ps" for i a
    by (rule patches_targets [OF ms' sites]) (use that in \<open>auto simp: pin_patches_mem\<close>)
  then show ?thesis using that [OF ms' _ patches_free [OF ms']] by blast
qed

end

text \<open>On ARM32 pinned addresses lead home: after pinning, when every pinned instruction
  has a place that a branch at its pin can reach, patching all pins succeeds, and then the
  branch at every pinned address goes to the place of the instruction that had this address
  in the original program.\<close>

theorem arm32_pins_lead_home:
  assumes "arm32_doPinning n ev insns z = Inr z'" and "ms_ok (z_ms z)"
    and "\<And>i a. (i, a) \<in> set (pins (z_ir z) insns) \<Longrightarrow>
      word_reach (a + 8) (loc i) \<and> shift_fits 8 (word_offset (a + 8) (loc i))"
  shows "\<exists>ms. foldR (\<lambda>(a, t). arm32_PatchJump a t) (pin_patches loc (pins (z_ir z) insns)) (z_ms z') = Inr ms \<and>
    (\<forall>(i, a) \<in> set (pins (z_ir z) insns). arm32_target a ms = Some (loc i)) \<and>
    free_ranges ms = free_ranges (z_ms z')"
proof -
  let ?ps = "pins (z_ir z) insns"
  have n4: "length [0x00, 0x00, 0x00, 0xea :: byte] = 4" by simp
  note r = pin_all_Inr [OF assms(1) [unfolded arm32_doPinning_def] assms(2), unfolded n4]
  obtain ms where "arm32.patches (pin_patches loc ?ps) (z_ms z') = Inr ms"
      "\<forall>(i, a) \<in> set ?ps. arm32_target a ms = Some (loc i)" "free_ranges ms = free_ranges (z_ms z')"
  proof (rule arm32.pins_patched [OF r(6), of "z_ms z'" loc])
    fix i a assume i: "(i, a) \<in> set ?ps"
    have "pin_written [0x00, 0x00, 0x00, 0xea] a z'" using r(7) [OF i] by blast
    then show "arm32_target a (z_ms z') \<noteq> None \<and> arm32_reach a (loc i) (z_ms z')"
      using pin_written_4(4) assms(3) [OF i] by (simp add: arm32_target_def arm32_is_branch_def arm32_reach_def)
    fix m assume "arm32_target a m \<noteq> None"
    then show "\<exists>m'. arm32_ApplyPatch a (loc i) m = Inr m'" using assms(3) [OF i]
      by (simp add: arm32_target_def arm32_ApplyPatch_def Let_def split: if_splits)
  qed (simp_all add: word_foot_def)
  then show ?thesis by (auto simp: arm32.patches_def arm32_PatchJump_def)
qed

theorem arm32_pins_lead_home_witness:
  "\<exists>z' ms. arm32_doPinning 3 sample_env [0, 1] pin_sample = Inr z' \<and>
     foldR (\<lambda>(a, t). arm32_PatchJump a t) [(0x110, 0x180)] (z_ms z') = Inr ms \<and> arm32_target 0x110 ms = Some 0x180"
proof -
  obtain z' where z: "arm32_doPinning 3 sample_env [0, 1] pin_sample = Inr z'"
    using pin_sample_runs [of "[0x00, 0x00, 0x00, 0xea]" "ExitCode 10" 3 sample_env]
    unfolding arm32_doPinning_def by force
  have "word_reach (a + 8) 0x180 \<and> shift_fits 8 (word_offset (a + 8) 0x180)"
    if "(i, a) \<in> set (pins (z_ir pin_sample) [0, 1])" for i a
    using that by (simp add: word_reach_def shift_fits_def word_offset_def)
  from arm32_pins_lead_home [OF z pin_sample_ok, where loc = "\<lambda>_. 0x180", OF this] show ?thesis
    using z by (force simp: pin_patches_def)
qed

text \<open>On MIPS32, where a pin is a branch and a nop in its delay slot (eight bytes),
  pinned addresses lead home as well: every pin's branch goes to the place of the instruction
  whose address it occupies, if it is within the reach of a 16-bit word offset.\<close>

theorem mips32_pins_lead_home:
  assumes "mips32_doPinning n ev insns z = Inr z'" and "ms_ok (z_ms z)"
    and "\<And>i a. (i, a) \<in> set (pins (z_ir z) insns) \<Longrightarrow>
      word_reach (a + 4) (loc i) \<and> shift_fits 16 (word_offset (a + 4) (loc i))"
  shows "\<exists>ms. foldR (\<lambda>(a, t). mips32_PatchJump a t) (pin_patches loc (pins (z_ir z) insns)) (z_ms z') = Inr ms \<and>
    (\<forall>(i, a) \<in> set (pins (z_ir z) insns). mips32_target a ms = Some (loc i)) \<and>
    free_ranges ms = free_ranges (z_ms z')"
proof -
  let ?ps = "pins (z_ir z) insns"
  have n8: "length [0x10, 0x00, 0x00, 0x00, 0x00, 0x00, 0x00, 0x00 :: byte] = 8" by simp
  note r = pin_all_Inr [OF assms(1) [unfolded mips32_doPinning_def] assms(2), unfolded n8]
  obtain ms where "mips32.patches (pin_patches loc ?ps) (z_ms z') = Inr ms"
      "\<forall>(i, a) \<in> set ?ps. mips32_target a ms = Some (loc i)" "free_ranges ms = free_ranges (z_ms z')"
  proof (rule mips32.pins_patched [OF r(6), of "z_ms z'" loc])
    fix i a assume i: "(i, a) \<in> set ?ps"
    have "pin_written [0x10, 0x00, 0x00, 0x00, 0x00, 0x00, 0x00, 0x00] a z'" using r(7) [OF i] by blast
    then show "mips32_target a (z_ms z') \<noteq> None \<and> mips32_reach a (loc i) (z_ms z')"
      using pin_written_4(1,2) assms(3) [OF i]
      by (simp add: mips32_target_def mips32_is_branch_def mips32_reach_def mips32_branch_at_def mips32_top6_def mips32_top16_nocc_def)
    fix m assume "mips32_reach a (loc i) m"
    then show "\<exists>m'. mips32_ApplyPatch a (loc i) m = Inr m'" using assms(3) [OF i]
      by (simp add: mips32_reach_def mips32_branch_at_def mips32_ApplyPatch_def Let_def)
  qed (auto simp: word_foot_def set_addrs)
  then show ?thesis by (auto simp: mips32.patches_def mips32_PatchJump_def)
qed

theorem mips32_pins_lead_home_witness:
  "\<exists>z' ms. mips32_doPinning 3 sample_env [0, 1] pin_sample = Inr z' \<and>
     foldR (\<lambda>(a, t). mips32_PatchJump a t) [(0x110, 0x180)] (z_ms z') = Inr ms \<and> mips32_target 0x110 ms = Some 0x180"
proof -
  obtain z' where z: "mips32_doPinning 3 sample_env [0, 1] pin_sample = Inr z'"
    using pin_sample_runs [of "[0x10, 0x00, 0x00, 0x00, 0x00, 0x00, 0x00, 0x00]" "ExitCode 10" 3 sample_env]
    unfolding mips32_doPinning_def by force
  have "word_reach (a + 4) 0x180 \<and> shift_fits 16 (word_offset (a + 4) 0x180)"
    if "(i, a) \<in> set (pins (z_ir pin_sample) [0, 1])" for i a
    using that by (simp add: word_reach_def shift_fits_def word_offset_def)
  from mips32_pins_lead_home [OF z pin_sample_ok, where loc = "\<lambda>_. 0x180", OF this] show ?thesis
    using z by (force simp: pin_patches_def)
qed

end
