(* ===== verification/Zipr_Jumps.thy ===== *)
theory Zipr_Jumps
  imports Zipr_WriteProg Zipr_Pinner_RISC "HOL-Library.Multiset"
begin

text \<open>
  \<open>UpdatePins\<close>: patching every pin with a jump to the place of its instruction. The x86 jumps
  (\<open>PatchJump\<close>) have the interface of a patcher too.
\<close>

section \<open>The x86 jumps as branches\<close>

definition x86_jump_target :: "addr \<Rightarrow> memory_space \<Rightarrow> addr option" where
  "x86_jump_target a ms =
     (if ms_peek a ms = 0xe9 then Some (a + 5 + scast (ms_word (a + 1) ms))
      else if ms_peek a ms = 0xeb then Some (a + 2 + sext8 (ms_peek (a + 1) ms))
      else None)"

definition x86_jump_foot :: "addr \<Rightarrow> memory_space \<Rightarrow> addr set" where
  "x86_jump_foot a ms = (if ms_peek a ms = 0xe9 then set (addrs a 5) else set (addrs a 2))"

definition x86_jump_reach :: "addr \<Rightarrow> addr \<Rightarrow> memory_space \<Rightarrow> bool" where
  "x86_jump_reach a t ms \<longleftrightarrow>
     (if ms_peek a ms = 0xe9 then near32 a 5 t
      else - 128 \<le> sint (t - a - 2) \<and> sint (t - a - 2) < 128)"

lemma near32_5: "near32 a 5 t \<longleftrightarrow> scast (ucast (t - (a + 5)) :: uint32) = t - (a + 5)"
  by (simp add: near32_def scast_ucast_fits)

lemma x86_PatchJump_e9:
  assumes "ms_peek a ms = 0xe9"
  shows "x86_PatchJump a t ms = (if IsByteFree a ms then Inl AssertFail
    else Inr (ms_put_list (a + 1) (le_bytes (ucast (t - (a + 5)))) (ms_touch a ms)))"
  using assms by (simp add: x86_PatchJump_def Let_def assertR_def x86_rewrite_eq)

lemma x86_PatchJump_other:
  assumes "x86_PatchJump a t ms = Inr ms'"
  shows "ms_peek a ms = 0xe9 \<or> ms_peek a ms = 0xeb"
  using assms by (auto simp: x86_PatchJump_def Let_def assertR_def split: if_splits)

lemma x86_jump_laws:
  assumes p: "x86_PatchJump a t ms = Inr ms'" and r: "x86_jump_reach a t ms"
  shows "x86_jump_target a ms' = Some t" "x86_jump_foot a ms' = x86_jump_foot a ms"
    "x \<notin> x86_jump_foot a ms \<Longrightarrow> ms_peek x ms' = ms_peek x ms"
proof -
  have "x86_jump_target a ms' = Some t \<and> x86_jump_foot a ms' = x86_jump_foot a ms \<and>
    (x \<notin> x86_jump_foot a ms \<longrightarrow> ms_peek x ms' = ms_peek x ms)"
  proof (cases "ms_peek a ms = 0xe9")
    case True
    let ?w = "ucast (t - (a + 5)) :: uint32"
    have ms': "ms' = ms_put_list (a + 1) (le_bytes ?w) (ms_touch a ms)"
      using p unfolding x86_PatchJump_e9 [OF True] by (simp split: if_splits)
    have fit: "scast ?w = t - (a + 5)" using r True by (simp add: x86_jump_reach_def near32_5)
    have len: "length (le_bytes ?w) = 4" by (simp add: le_bytes_def)
    have five: "addrs a 5 = a # addrs (a + 1) 4" by (simp add: addrs_def upt_rec)
    have dis: "a \<notin> set (addrs (a + 1) (length (le_bytes ?w)))" by (simp add: len addrs_4)
    have pk: "ms_peek a ms' = 0xe9" using ms_put_list_peek_other [OF dis, of "ms_touch a ms"] True by (simp add: ms')
    have "ms_word (a + 1) ms' = ?w" by (simp add: ms')
    then have "x86_jump_target a ms' = Some t" using pk fit by (simp add: x86_jump_target_def)
    moreover have "ms_peek x ms' = ms_peek x ms" if "x \<notin> set (addrs a 5)"
      using that ms_put_list_peek_other [of x "a + 1" "le_bytes ?w" "ms_touch a ms"] len by (simp add: ms' five)
    ultimately show ?thesis using pk True by (simp add: x86_jump_foot_def)
  next
    case False
    then have b: "ms_peek a ms = 0xeb" using x86_PatchJump_other [OF p] by simp
    have ms': "ms' = ms_put (a + 1) (ucast (t - a - 2)) (ms_touch a ms)"
      using p unfolding x86_PatchJump_eb [OF b] by (simp split: if_splits)
    have fit: "sext8 (ucast (t - a - 2)) = t - a - 2"
      using r False sext8_fits [of "t - a - 2"] by (simp add: x86_jump_reach_def)
    have pk: "ms_peek a ms' = 0xeb" using b by (simp add: ms')
    then show ?thesis using b fit by (auto simp: x86_jump_target_def x86_jump_foot_def ms' addrs_2)
  qed
  then show "x86_jump_target a ms' = Some t" "x86_jump_foot a ms' = x86_jump_foot a ms"
    "x \<notin> x86_jump_foot a ms \<Longrightarrow> ms_peek x ms' = ms_peek x ms" by simp_all
qed

lemma x86_PatchJump_free: "x86_PatchJump a t ms = Inr ms' \<Longrightarrow> free_ranges ms' = free_ranges ms"
  by (auto simp: x86_PatchJump_def x86_RewritePCRelOffset_def Let_def assertR_def split: if_splits)

interpretation x86j: branch_patcher x86_PatchJump x86_jump_target x86_jump_foot x86_jump_reach
proof unfold_locales
  fix a t ms ms' x
  assume p: "x86_PatchJump a t ms = Inr ms'" and r: "x86_jump_reach a t ms"
  show "x86_jump_target a ms' = Some t" "x86_jump_foot a ms' = x86_jump_foot a ms" using x86_jump_laws [OF p r] by auto
  { assume "x \<notin> x86_jump_foot a ms"
    then show "ms_peek x ms' = ms_peek x ms" by (rule x86_jump_laws(3) [OF p r]) }
next
  fix a t ms ms' assume "x86_PatchJump a t ms = Inr ms'"
  then show "free_ranges ms' = free_ranges ms" by (rule x86_PatchJump_free)
next
  fix a t ms ms' assume same: "\<And>x. x \<in> x86_jump_foot a ms \<Longrightarrow> ms_peek x ms' = ms_peek x ms"
  have a: "ms_peek a ms' = ms_peek a ms" by (rule same) (simp add: x86_jump_foot_def addrs_def upt_rec)
  have 1: "ms_peek (a + 1) ms' = ms_peek (a + 1) ms" by (rule same) (simp add: x86_jump_foot_def addrs_def upt_rec)
  have "ms_word (a + 1) ms' = ms_word (a + 1) ms" if "ms_peek a ms = 0xe9"
  proof -
    have "ms_peek y ms' = ms_peek y ms" if "y \<in> set (addrs a 5)" for y
      by (rule same) (use that \<open>ms_peek a ms = 0xe9\<close> in \<open>simp add: x86_jump_foot_def\<close>)
    then show ?thesis by (simp add: ms_word_def addrs_def upt_rec)
  qed
  then show "x86_jump_target a ms' = x86_jump_target a ms \<and> x86_jump_foot a ms' = x86_jump_foot a ms \<and>
      x86_jump_reach a t ms' = x86_jump_reach a t ms"
    using a 1 by (simp add: x86_jump_target_def x86_jump_foot_def x86_jump_reach_def)
qed

section \<open>All pins\<close>

lemma sort_key_sorted: "sorted (map f xs) \<Longrightarrow> sort_key f xs = xs"
  by (induction xs) (auto intro: insort_is_Cons)

lemma sort_key_tl: "sort_key f (tl (sort_key f xs)) = tl (sort_key f xs)"
  by (rule sort_key_sorted) (use sorted_sort_key [of f xs] in \<open>cases "sort_key f xs"; auto\<close>)

text \<open>Every pin's instruction begins a dollop and has been placed at \<open>loc\<close>.\<close>

definition pin_placed :: "(iid \<Rightarrow> addr) \<Rightarrow> 'a zipr_scheme \<Rightarrow> iid \<Rightarrow> bool" where
  "pin_placed loc z i \<longleftrightarrow> (\<exists>d e es. getContainingDollop i (z_dm z) = Some d \<and>
     d_entries (dl (z_dm z) d) = e # es \<and> einsn (z_dm z) e = i) \<and> z_locs z i = Some (loc i)"

definition pin_jumps :: "(iid \<Rightarrow> addr) \<Rightarrow> unresolved_patch list \<Rightarrow> (addr \<times> addr) list" where
  "pin_jumps loc ps = map (\<lambda>(i, p). (pt_from p, loc i)) ps"

lemma UpdatePin_run:
  assumes "pin_placed loc z i" "ar_PatchJump ar = (\<lambda>a t. on_ms (pj a t))"
  shows "UpdatePin ar [] i p z = mapR (\<lambda>m. z\<lparr>z_ms := m\<rparr>) (pj (pt_from p) (loc i) (z_ms z))"
  using assms by (auto simp: pin_placed_def UpdatePin_def front_entry_def pin_target_def einsn_def on_ms_def mapR_def)

lemma UpdatePins_run:
  assumes "\<forall>(i, p) \<in> set (z_patch_list z). pin_placed loc z i" "ar_PatchJump ar = (\<lambda>a t. on_ms (pj a t))"
    and "length (z_patch_list z) \<le> n"
  shows "UpdatePins n ord ar [] z = mapR (\<lambda>m. z\<lparr>z_ms := m, z_patch_list := []\<rparr>)
    (foldR (\<lambda>(a, t). pj a t) (pin_jumps loc (sort_key (ord \<circ> fst) (z_patch_list z))) (z_ms z))"
  using assms(1,3)
proof (induction n arbitrary: z)
  case 0
  then have "z_patch_list z = []" by simp
  then show ?case by (cases z) (simp add: pin_jumps_def mapR_def)
next
  case (Suc n)
  show ?case
  proof (cases "sort_key (ord \<circ> fst) (z_patch_list z)")
    case Nil
    then have "z_patch_list z = []" by (metis length_0_conv length_sort)
    then show ?thesis by (cases z) (simp add: pin_jumps_def mapR_def)
  next
    case (Cons x xs)
    obtain i p where x: "x = (i, p)" by (cases x)
    have "set (sort_key (ord \<circ> fst) (z_patch_list z)) = set (z_patch_list z)" by simp
    then have mem: "set (z_patch_list z) = insert x (set xs)" using Cons by simp
    have len: "length xs \<le> n" using Suc.prems(2) Cons by (metis Suc_le_mono length_Cons length_sort)
    have pl: "pin_placed loc z i" using Suc.prems(1) mem x by auto
    have srt: "sort_key (ord \<circ> fst) xs = xs" using sort_key_tl [of "ord \<circ> fst" "z_patch_list z"] Cons by simp
    show ?thesis
    proof (cases "pj (pt_from p) (loc i) (z_ms z)")
      case (Inl er)
      then show ?thesis using UpdatePin_run [OF pl assms(2)] unfolding UpdatePins.simps [of "Suc n"] Cons x
        by (simp add: pin_jumps_def mapR_def)
    next
      case (Inr m)
      let ?z = "z\<lparr>z_ms := m, z_patch_list := xs\<rparr>"
      have "\<forall>(i, p) \<in> set (z_patch_list ?z). pin_placed loc ?z i"
        using Suc.prems(1) mem by (auto simp: pin_placed_def)
      then have IH: "UpdatePins n ord ar [] ?z = mapR (\<lambda>m. ?z\<lparr>z_ms := m, z_patch_list := []\<rparr>)
          (foldR (\<lambda>(a, t). pj a t) (pin_jumps loc (sort_key (ord \<circ> fst) (z_patch_list ?z))) (z_ms ?z))"
        by (rule Suc.IH) (use len in simp)
      have tl: "tl (sort_key (ord \<circ> fst) (z_patch_list (z\<lparr>z_ms := m\<rparr>))) = xs" using Cons by simp
      have "UpdatePins (Suc n) ord ar [] z = UpdatePins n ord ar [] ?z"
        using UpdatePin_run [OF pl assms(2)] Inr tl unfolding UpdatePins.simps [of "Suc n"] Cons x
        by (simp add: mapR_def del: UpdatePins.simps)
      then show ?thesis using IH Inr srt unfolding Cons x by (simp add: pin_jumps_def mapR_def del: UpdatePins.simps)
    qed
  qed
qed

context branch_patcher
begin

lemma patches_other:
  assumes "patches ps ms = Inr ms'" "sites_ok ps ms" "\<And>a t. (a, t) \<in> set ps \<Longrightarrow> x \<notin> foot a ms"
  shows "ms_peek x ms' = ms_peek x ms"
  using assms
proof (induction ps arbitrary: ms)
  case (Cons p ps)
  obtain a t where p: "p = (a, t)" by (cases p)
  obtain m where m: "patch a t ms = Inr m" "patches ps m = Inr ms'"
    using Cons.prems(1) by (auto simp: patches_Cons p bindR_eq_Inr)
  note st = sites_ok_step [OF Cons.prems(2) [unfolded p] m(1)]
  have "x \<notin> foot a ms" by (rule Cons.prems(3) [of a t]) (simp add: p)
  then have "ms_peek x m = ms_peek x ms" by (rule patch_other [OF m(1) st(1)])
  moreover have "x \<notin> foot c m" if "(c, u) \<in> set ps" for c u
    using st(3) [OF that] Cons.prems(3) [of c u] that by simp
  then have "ms_peek x ms' = ms_peek x m" by (rule Cons.IH [OF m(2) st(2)])
  ultimately show ?case by simp
qed (simp add: patches_def)

lemma pins_updated:
  assumes ar: "ar_PatchJump ar = (\<lambda>a t. on_ms (patch a t))" and n: "length (z_patch_list z) \<le> n"
    and pl: "\<forall>(i, p) \<in> set (z_patch_list z). pin_placed loc z i"
    and apart: "distinct (map (pt_from \<circ> snd) (z_patch_list z))"
      "\<And>i p j q. (i, p) \<in> set (z_patch_list z) \<Longrightarrow> (j, q) \<in> set (z_patch_list z) \<Longrightarrow> pt_from p \<noteq> pt_from q \<Longrightarrow>
         foot (pt_from p) (z_ms z) \<inter> foot (pt_from q) (z_ms z) = {}"
    and br: "\<And>i p. (i, p) \<in> set (z_patch_list z) \<Longrightarrow> target (pt_from p) (z_ms z) \<noteq> None \<and> reach (pt_from p) (loc i) (z_ms z)"
    and able: "\<And>i p m. (i, p) \<in> set (z_patch_list z) \<Longrightarrow> target (pt_from p) m \<noteq> None \<Longrightarrow> reach (pt_from p) (loc i) m \<Longrightarrow>
      free_ranges m = free_ranges (z_ms z) \<Longrightarrow> \<exists>m'. patch (pt_from p) (loc i) m = Inr m'"
  shows "\<exists>m. UpdatePins n ord ar [] z = Inr (z\<lparr>z_ms := m, z_patch_list := []\<rparr>) \<and>
    (\<forall>(i, p) \<in> set (z_patch_list z). target (pt_from p) m = Some (loc i)) \<and> free_ranges m = free_ranges (z_ms z) \<and>
    (\<forall>x. (\<forall>(i, p) \<in> set (z_patch_list z). x \<notin> foot (pt_from p) (z_ms z)) \<longrightarrow> ms_peek x m = ms_peek x (z_ms z))"
proof -
  let ?l = "sort_key (ord \<circ> fst) (z_patch_list z)"
  have mem: "(a, t) \<in> set (pin_jumps loc ?l) \<longleftrightarrow> (\<exists>i p. (i, p) \<in> set (z_patch_list z) \<and> a = pt_from p \<and> t = loc i)" for a t
    by (force simp: pin_jumps_def)
  have "mset (map (pt_from \<circ> snd) ?l) = mset (map (pt_from \<circ> snd) (z_patch_list z))" by simp
  then have "distinct (map (pt_from \<circ> snd) ?l)" using apart(1) mset_eq_imp_distinct_iff by blast
  then have d: "distinct (map fst (pin_jumps loc ?l))" by (simp add: pin_jumps_def case_prod_beta comp_def)
  have sites: "sites_ok (pin_jumps loc ?l) (z_ms z)"
    unfolding sites_ok_def mem using d br apart(2) by blast
  have "\<exists>m. patches (pin_jumps loc ?l) (z_ms z) = Inr m"
  proof (rule patches_total [OF sites])
    fix a u m assume "(a, u) \<in> set (pin_jumps loc ?l)" "target a m \<noteq> None" "reach a u m" "free_ranges m = free_ranges (z_ms z)"
    then show "\<exists>m'. patch a u m = Inr m'" using able unfolding mem by blast
  next
    fix a u assume "(a, u) \<in> set (pin_jumps loc ?l)"
    then show "target a (z_ms z) \<noteq> None" using br unfolding mem by blast
  qed
  then obtain m where m: "patches (pin_jumps loc ?l) (z_ms z) = Inr m" ..
  have run: "UpdatePins n ord ar [] z = Inr (z\<lparr>z_ms := m, z_patch_list := []\<rparr>)"
    using UpdatePins_run [OF pl ar n, of ord] m by (simp add: patches_def mapR_def)
  have "target (pt_from p) m = Some (loc i)" if "(i, p) \<in> set (z_patch_list z)" for i p
    by (rule patches_targets [OF m sites]) (use that mem in blast)
  moreover have "ms_peek x m = ms_peek x (z_ms z)" if "\<forall>(i, p) \<in> set (z_patch_list z). x \<notin> foot (pt_from p) (z_ms z)" for x
  proof (rule patches_other [OF m sites])
    fix a t assume "(a, t) \<in> set (pin_jumps loc ?l)"
    then show "x \<notin> foot a (z_ms z)" using that unfolding mem by blast
  qed
  ultimately show ?thesis using run patches_free [OF m] by blast
qed

end

end
