(* ===== verification/Zipr_WriteProps.thy ===== *)
theory Zipr_WriteProps
  imports Zipr_Jumps Zipr_SizerProps
begin

text \<open>
  The last phases of the rewriter composed: the dollops are written, the entries with targets
  are written again, and the pins are patched.
\<close>

section \<open>The rewritten program\<close>

text \<open>
  The pins of an x86 program before they are patched: each holds a claimed jump, the jumps
  share no byte with each other or with an entry, and the place of the pin's instruction is
  within the reach of the jump.
\<close>

definition pins_ready :: "addr set \<Rightarrow> (iid \<Rightarrow> addr) \<Rightarrow> 'a zipr_scheme \<Rightarrow> bool" where
  "pins_ready R loc z \<longleftrightarrow> distinct (map (pt_from \<circ> snd) (z_patch_list z)) \<and>
     (\<forall>(i, p) \<in> set (z_patch_list z). x86_jump_target (pt_from p) (z_ms z) \<noteq> None \<and>
        x86_jump_reach (pt_from p) (loc i) (z_ms z) \<and> x86_jump_foot (pt_from p) (z_ms z) \<inter> R = {} \<and>
        pt_from p \<notin> free_set (z_ms z) \<and> pt_from p + 1 \<notin> free_set (z_ms z)) \<and>
     (\<forall>(i, p) \<in> set (z_patch_list z). \<forall>(j, q) \<in> set (z_patch_list z). pt_from p \<noteq> pt_from q \<longrightarrow>
        x86_jump_foot (pt_from p) (z_ms z) \<inter> x86_jump_foot (pt_from q) (z_ms z) = {})"

lemma x86_PatchJump_able:
  assumes "x86_jump_target a m \<noteq> None" "x86_jump_reach a t m" "ms_ok m" "a \<notin> free_set m" "a + 1 \<notin> free_set m"
  shows "\<exists>m'. x86_PatchJump a t m = Inr m'"
proof (cases "ms_peek a m = 0xe9")
  case True
  then show ?thesis using assms unfolding x86_PatchJump_e9 [OF True] by (simp add: IsByteFree_iff)
next
  case False
  then have b: "ms_peek a m = 0xeb" using assms(1) by (auto simp: x86_jump_target_def split: if_splits)
  show ?thesis unfolding x86_PatchJump_eb [OF b] using assms False by (simp add: IsByteFree_iff x86_jump_reach_def)
qed

lemma x86_jumps_kept:
  assumes "writes R (z_ms z) (z_ms z')" "pins_ready R loc z" "z_patch_list z' = z_patch_list z"
  shows "pins_ready R loc z'"
    "(i, p) \<in> set (z_patch_list z) \<Longrightarrow> x86_jump_foot (pt_from p) (z_ms z') = x86_jump_foot (pt_from p) (z_ms z)"
proof -
  have same: "ms_peek x (z_ms z') = ms_peek x (z_ms z)" if "(i, p) \<in> set (z_patch_list z)" "x \<in> x86_jump_foot (pt_from p) (z_ms z)" for i p x
    using that assms(1,2) by (auto simp: pins_ready_def intro!: writes_peek)
  have loc: "x86_jump_target (pt_from p) (z_ms z') = x86_jump_target (pt_from p) (z_ms z) \<and>
      x86_jump_foot (pt_from p) (z_ms z') = x86_jump_foot (pt_from p) (z_ms z) \<and>
      x86_jump_reach (pt_from p) t (z_ms z') = x86_jump_reach (pt_from p) t (z_ms z)"
    if "(i, p) \<in> set (z_patch_list z)" for i p t
    by (rule x86j.site_local) (rule same [OF that])
  have "free_set (z_ms z') \<subseteq> free_set (z_ms z)" using assms(1) by (simp add: writes_def)
  then have r: "x86_jump_target (pt_from p) (z_ms z) \<noteq> None" "x86_jump_reach (pt_from p) (loc i) (z_ms z)"
      "x86_jump_foot (pt_from p) (z_ms z) \<inter> R = {}" "pt_from p \<notin> free_set (z_ms z')" "pt_from p + 1 \<notin> free_set (z_ms z')"
    if "(i, p) \<in> set (z_patch_list z)" for i p using assms(2) that unfolding pins_ready_def by blast+
  have d: "x86_jump_foot (pt_from p) (z_ms z) \<inter> x86_jump_foot (pt_from q) (z_ms z) = {}"
    if "(i, p) \<in> set (z_patch_list z)" "(j, q) \<in> set (z_patch_list z)" "pt_from p \<noteq> pt_from q" for i p j q
    using assms(2) that unfolding pins_ready_def by blast
  show "pins_ready R loc z'"
    unfolding pins_ready_def assms(3)
  proof (intro conjI ballI, goal_cases)
    case 1
    then show ?case using assms(2) unfolding pins_ready_def by blast
  next
    case (2 x)
    obtain i p where x: "x = (i, p)" by (cases x)
    show ?case using 2 r [of i p] loc [of i p] by (simp add: x)
  next
    case (3 x)
    obtain i p where x: "x = (i, p)" by (cases x)
    have "x86_jump_foot (pt_from p) (z_ms z') \<inter> x86_jump_foot (pt_from q) (z_ms z') = {}"
      if "(j, q) \<in> set (z_patch_list z)" "pt_from p \<noteq> pt_from q" for j q
      using d [of i p j q] loc [of i p] loc [of j q] 3 that by (simp add: x)
    then show ?case by (auto simp: x simp del: disjoint_iff)
  qed
  show "(i, p) \<in> set (z_patch_list z) \<Longrightarrow> x86_jump_foot (pt_from p) (z_ms z') = x86_jump_foot (pt_from p) (z_ms z)"
    using loc by blast
qed

lemma x86_pins_updated:
  assumes "ms_ok (z_ms z)" "pins_ready R loc z" "length (z_patch_list z) \<le> n" "\<forall>(i, p) \<in> set (z_patch_list z). pin_placed loc z i"
  shows "\<exists>m. UpdatePins n ord (x86_arch asmb bits) [] z = Inr (z\<lparr>z_ms := m, z_patch_list := []\<rparr>) \<and>
    (\<forall>(i, p) \<in> set (z_patch_list z). x86_jump_target (pt_from p) m = Some (loc i)) \<and> free_ranges m = free_ranges (z_ms z) \<and>
    (\<forall>x. (\<forall>(i, p) \<in> set (z_patch_list z). x \<notin> x86_jump_foot (pt_from p) (z_ms z)) \<longrightarrow> ms_peek x m = ms_peek x (z_ms z))"
proof (rule x86j.pins_updated [OF _ assms(3,4)])
  show "ar_PatchJump (x86_arch asmb bits) = (\<lambda>a t. on_ms (x86_PatchJump a t))" by (simp add: x86_arch_def)
  show "distinct (map (pt_from \<circ> snd) (z_patch_list z))" using assms(2) by (simp add: pins_ready_def)
next
  fix i p j q assume "(i, p) \<in> set (z_patch_list z)" "(j, q) \<in> set (z_patch_list z)" "pt_from p \<noteq> pt_from q"
  then show "x86_jump_foot (pt_from p) (z_ms z) \<inter> x86_jump_foot (pt_from q) (z_ms z) = {}"
    using assms(2) by (fastforce simp: pins_ready_def)
next
  fix i p assume i: "(i, p) \<in> set (z_patch_list z)"
  then show "x86_jump_target (pt_from p) (z_ms z) \<noteq> None \<and> x86_jump_reach (pt_from p) (loc i) (z_ms z)"
    using assms(2) by (fastforce simp: pins_ready_def)
  fix m assume m: "x86_jump_target (pt_from p) m \<noteq> None" "x86_jump_reach (pt_from p) (loc i) m" "free_ranges m = free_ranges (z_ms z)"
  have "ms_ok m" "free_set m = free_set (z_ms z)" using m(3) assms(1) by (simp_all add: ms_ok_def free_set_def)
  moreover have "pt_from p \<notin> free_set (z_ms z)" "pt_from p + 1 \<notin> free_set (z_ms z)"
    using i assms(2) by (fastforce simp: pins_ready_def)+
  ultimately show "\<exists>m'. x86_PatchJump (pt_from p) (loc i) m = Inr m'" using x86_PatchJump_able m(1,2) by simp
qed

text \<open>Writing a program that has been laid out, and then its pins.\<close>

lemma x86_rewrite:
  assumes "prog_laid (x86_isize asmb) (x86_writable asmb) asmb (set es) z" and "es = entries_of (z_dm z) ds" and "z_replop z = []"
    and "R = \<Union> (entry_room (x86_isize asmb) (z_ir z) (z_dm z) ` set es)"
    and "pins_ready R loc z" and "length (z_patch_list z) \<le> n"
    and "\<forall>(i, p) \<in> set (z_patch_list z). \<exists>d e es'. getContainingDollop i (z_dm z) = Some d \<and>
      d_entries (dl (z_dm z) d) = e # es' \<and> e \<in> set es \<and> einsn (z_dm z) e = i \<and> loc i = pl_place (ent (z_dm z) e)"
  shows "\<exists>z'. bindR (WriteDollops asmb (x86_arch asmb bits) [] ds z) (\<lambda>z.
        bindR (ReplopDollopEntriesWithTargets asmb (x86_arch asmb bits) [] z)
          (UpdatePins n ord (x86_arch asmb bits) [])) = Inr z' \<and>
    z_ir z' = z_ir z \<and> z_dm z' = z_dm z \<and>
    (\<forall>e \<in> set es. entry_written (x86_isize asmb) (x86_goes asmb bits) asmb z' e) \<and>
    (\<forall>(i, p) \<in> set (z_patch_list z). x86_jump_target (pt_from p) (z_ms z') = Some (loc i)) \<and>
    (\<forall>x. x \<notin> R \<longrightarrow> (\<forall>(i, p) \<in> set (z_patch_list z). x \<notin> x86_jump_foot (pt_from p) (z_ms z)) \<longrightarrow>
       ms_peek x (z_ms z') = ms_peek x (z_ms z))"
proof -
  obtain z1 where z1: "bindR (WriteDollops asmb (x86_arch asmb bits) [] ds z)
        (ReplopDollopEntriesWithTargets asmb (x86_arch asmb bits) []) = Inr z1"
      "x86w.post asmb bits asmb (set es) es z z1"
    using x86w.WriteProgram [of asmb asmb z ds bits "[]"] assms(1,2,3) by auto
  have w: "writes R (z_ms z) (z_ms z1)" "\<forall>e \<in> set es. entry_written (x86_isize asmb) (x86_goes asmb bits) asmb z1 e"
    and same: "z_ir z1 = z_ir z" "z_dm z1 = z_dm z" "z_patch_list z1 = z_patch_list z"
    using z1(2) by (simp_all add: x86w.post_def prog_same_def assms(4))
  have pr: "pins_ready R loc z1" by (rule x86_jumps_kept(1) [OF w(1) assms(5) same(3)])
  have placed: "\<forall>(i, p) \<in> set (z_patch_list z1). pin_placed loc z1 i"
    using assms(7) w(2) same unfolding pin_placed_def entry_written_def placed_at_def by fastforce
  obtain m where m: "UpdatePins n ord (x86_arch asmb bits) [] z1 = Inr (z1\<lparr>z_ms := m, z_patch_list := []\<rparr>)"
    "\<forall>(i, p) \<in> set (z_patch_list z1). x86_jump_target (pt_from p) m = Some (loc i)" "free_ranges m = free_ranges (z_ms z1)"
    "\<forall>x. (\<forall>(i, p) \<in> set (z_patch_list z1). x \<notin> x86_jump_foot (pt_from p) (z_ms z1)) \<longrightarrow> ms_peek x m = ms_peek x (z_ms z1)"
    using x86_pins_updated [OF writes_ok [OF w(1)] pr, of n ord asmb bits] assms(6) same(3) placed by auto
  let ?z = "z1\<lparr>z_ms := m, z_patch_list := []\<rparr>"
  have feet: "x86_jump_foot (pt_from p) (z_ms z1) = x86_jump_foot (pt_from p) (z_ms z)" "x86_jump_foot (pt_from p) (z_ms z1) \<inter> R = {}"
    if "(i, p) \<in> set (z_patch_list z)" for i p
  proof -
    show f: "x86_jump_foot (pt_from p) (z_ms z1) = x86_jump_foot (pt_from p) (z_ms z)"
      by (rule x86_jumps_kept(2) [OF w(1) assms(5) same(3) that])
    show "x86_jump_foot (pt_from p) (z_ms z1) \<inter> R = {}"
      using assms(5) that unfolding f pins_ready_def by blast
  qed
  have "entry_written (x86_isize asmb) (x86_goes asmb bits) asmb ?z e" if e: "e \<in> set es" for e
  proof -
    have "entry_there (x86_isize asmb) (x86_goes asmb bits) asmb (z_ir z) (z_dm z) e (z_ms z1)"
      using w(2) e same by (simp add: entry_written_def)
    moreover have "ms_peek x m = ms_peek x (z_ms z1)" if "x \<in> entry_room (x86_isize asmb) (z_ir z) (z_dm z) e" for x
    proof -
      have "x \<in> R" using that e assms(4) by blast
      then have "x \<notin> x86_jump_foot (pt_from p) (z_ms z1)" if "(i, p) \<in> set (z_patch_list z)" for i p
        using feet(2) [OF that] by blast
      then have "\<forall>(i, p) \<in> set (z_patch_list z1). x \<notin> x86_jump_foot (pt_from p) (z_ms z1)"
        unfolding same(3) by blast
      then show ?thesis by (rule m(4) [THEN spec, THEN mp])
    qed
    ultimately have "entry_there (x86_isize asmb) (x86_goes asmb bits) asmb (z_ir z) (z_dm z) e m"
      by (rule x86w.there_local)
    then show ?thesis using w(2) e same by (simp add: entry_written_def placed_at_def)
  qed
  moreover have "ms_peek x m = ms_peek x (z_ms z)"
    if "x \<notin> R" "\<forall>(i, p) \<in> set (z_patch_list z). x \<notin> x86_jump_foot (pt_from p) (z_ms z)" for x
    using m(4) that feet(1) same(3) writes_peek [OF w(1) that(1)] by fastforce
  moreover have "bindR (WriteDollops asmb (x86_arch asmb bits) [] ds z) (\<lambda>z.
        bindR (ReplopDollopEntriesWithTargets asmb (x86_arch asmb bits) [] z)
          (UpdatePins n ord (x86_arch asmb bits) [])) = Inr ?z"
    using z1(1) m(1) by (auto simp: bindR_eq_Inr)
  ultimately show ?thesis using same m(2) by (intro exI [of _ ?z] conjI) auto
qed

text \<open>C6: The rewritten x86 program. Given dollops whose entries have been laid out (no two share a
  byte, targets within reach, no plugin involved) and pins that hold jumps,
  \<open>WriteDollops\<close>, \<open>ReplopDollopEntriesWithTargets\<close> and \<open>UpdatePins\<close> return, no assertion of
  theirs fails, and in the memory they leave: every entry is at its place, an instruction without
  a target byte for byte, one with a target as a branch that goes to the place of its target;
  every pinned address holds a jump to the place of the instruction that had this address; and
  outside the entries and the pins no byte has changed.\<close>

theorem x86_rewritten_program:
  assumes "prog_laid (x86_isize asmb) (x86_writable asmb) asmb (set es) z" and "es = entries_of (z_dm z) ds" and "z_replop z = []"
    and "R = \<Union> (entry_room (x86_isize asmb) (z_ir z) (z_dm z) ` set es)"
    and "pins_ready R loc z" and "length (z_patch_list z) \<le> n"
    and "\<forall>(i, p) \<in> set (z_patch_list z). \<exists>d e es'. getContainingDollop i (z_dm z) = Some d \<and>
      d_entries (dl (z_dm z) d) = e # es' \<and> e \<in> set es \<and> einsn (z_dm z) e = i \<and> loc i = pl_place (ent (z_dm z) e)"
  shows "\<exists>z'. bindR (WriteDollops asmb (x86_arch asmb bits) [] ds z) (\<lambda>z.
        bindR (ReplopDollopEntriesWithTargets asmb (x86_arch asmb bits) [] z)
          (UpdatePins n ord (x86_arch asmb bits) [])) = Inr z' \<and>
    z_ir z' = z_ir z \<and> z_dm z' = z_dm z \<and>
    (\<forall>e \<in> set es. entry_written (x86_isize asmb) (x86_goes asmb bits) asmb z' e) \<and>
    (\<forall>(i, p) \<in> set (z_patch_list z). x86_jump_target (pt_from p) (z_ms z') = Some (loc i)) \<and>
    (\<forall>x. x \<notin> R \<longrightarrow> (\<forall>(i, p) \<in> set (z_patch_list z). x \<notin> x86_jump_foot (pt_from p) (z_ms z)) \<longrightarrow>
       ms_peek x (z_ms z') = ms_peek x (z_ms z))"
  by (rule x86_rewrite [OF assms])

text \<open>A conditional jump at 0x110 to an instruction at 0x150, and its pin at 0x90.\<close>

definition prog_dm :: dman where
  "prog_dm = dman_init\<lparr>
     h_ents := [0 \<mapsto> (mk_dentry 0 (Some 0))\<lparr>pl_placed := True, pl_place := 0x110, de_tgt := Some 1\<rparr>,
       1 \<mapsto> (mk_dentry 1 (Some 1))\<lparr>pl_placed := True, pl_place := 0x150\<rparr>],
     h_dls := [0 \<mapsto> empty_dollop\<lparr>pl_placed := True, pl_place := 0x110, d_entries := [0], d_size := 6\<rparr>,
       1 \<mapsto> empty_dollop\<lparr>pl_placed := True, pl_place := 0x150, d_entries := [1], d_size := 1\<rparr>],
     dm_map := [0 \<mapsto> 0, 1 \<mapsto> 1]\<rparr>"

definition prog_sample :: zplop where
  "prog_sample = \<lparr>z_ms = ms_put_list 0x90 [0xe9, 0, 0, 0, 0] sample_space, z_ir = plop_ir [0x75, 0], z_dm = prog_dm,
     z_patch_at = Map.empty, z_patch_list = [(0, \<lparr>pt_from = 0x90, pt_type = UncondJump_rel32\<rparr>)], z_queue = [],
     z_locs = Map.empty, z_redirect = Map.empty, z_plopping = Map.empty, z_callbacks = [], z_replop = []\<rparr>"

lemma prog_dm_sel [simp]:
  "ent prog_dm 0 = (mk_dentry 0 (Some 0))\<lparr>pl_placed := True, pl_place := 0x110, de_tgt := Some 1\<rparr>"
  "ent prog_dm (Suc 0) = (mk_dentry 1 (Some 1))\<lparr>pl_placed := True, pl_place := 0x150\<rparr>"
  "dl prog_dm 0 = empty_dollop\<lparr>pl_placed := True, pl_place := 0x110, d_entries := [0], d_size := 6\<rparr>"
  "dl prog_dm (Suc 0) = empty_dollop\<lparr>pl_placed := True, pl_place := 0x150, d_entries := [1], d_size := 1\<rparr>"
  "getContainingDollop 0 prog_dm = Some 0"
  by (simp_all add: prog_dm_def ent_def dl_def getContainingDollop_def)

lemma prog_sample_sel [simp]:
  "z_dm prog_sample = prog_dm" "z_ir prog_sample = plop_ir [0x75, 0]" "z_locs prog_sample = Map.empty"
  "z_plopping prog_sample = Map.empty" "z_replop prog_sample = []"
  "z_patch_list prog_sample = [(0, \<lparr>pt_from = 0x90, pt_type = UncondJump_rel32\<rparr>)]"
  "free_set (z_ms prog_sample) = {0x100..0x1ff}" "ms_ok (z_ms prog_sample)" "ms_peek 0x90 (z_ms prog_sample) = 0xe9"
  using sample_space_ok by (simp_all add: prog_sample_def free_set_def ms_ok_def)

lemma prog_sample_entries: "entries_of prog_dm [0, 1] = [0, 1]" "einsn prog_dm 0 = 0" "einsn prog_dm (Suc 0) = Suc 0"
  by (simp_all add: entries_of_def einsn_def mk_dentry_def empty_dollop_def)

lemma prog_sample_size:
  "x86_isize (\<lambda>_. []) (plop_ir [0x75, 0]) 0 = 6" "x86_isize (\<lambda>_. []) (plop_ir [0x75, 0]) (Suc 0) = 1"
  by (simp_all add: x86_isize_def x86_DetermineInsnSize_def first_byte_def)
    (simp_all add: plop_ir_def data_bits_def the_insn_def new_insn_def first_byte_def)

lemma prog_sample_laid: "prog_laid (x86_isize (\<lambda>_. [])) (x86_writable (\<lambda>_. [])) (\<lambda>_. []) (set [0, 1]) prog_sample"
proof -
  have "x86_writable (\<lambda>_. []) (plop_ir [0x75, 0]) prog_dm 0 0x110 0x150"
    by (simp add: x86_writable_def Let_def mk_dentry_def short_branch_def near32_def prog_sample_size)
  moreover have "data_bits (\<lambda>_. []) (plop_ir [0x75, 0]) (Suc 0) = [0x90]" "i_callback (the_insn (plop_ir [0x75, 0]) (Suc 0)) = ''''"
    by (simp_all add: plop_ir_def data_bits_def the_insn_def new_insn_def)
  ultimately have r: "entry_ready (x86_isize (\<lambda>_. [])) (x86_writable (\<lambda>_. [])) (\<lambda>_. []) (plop_ir [0x75, 0]) prog_dm 0"
    "entry_ready (x86_isize (\<lambda>_. [])) (x86_writable (\<lambda>_. [])) (\<lambda>_. []) (plop_ir [0x75, 0]) prog_dm (Suc 0)"
    by (simp_all add: entry_ready_def mk_dentry_def empty_dollop_def einsn_def prog_sample_size)
  have "entry_room (x86_isize (\<lambda>_. [])) (plop_ir [0x75, 0]) prog_dm 0 \<inter> entry_room (x86_isize (\<lambda>_. [])) (plop_ir [0x75, 0]) prog_dm (Suc 0) = {}"
    by (simp add: entry_room_def prog_sample_size prog_sample_entries mk_dentry_def addrs_def upt_rec)
  then show ?thesis using r
    by (auto simp: prog_laid_def located_def fronts_def prog_sample_entries mk_dentry_def empty_dollop_def)
qed

theorem x86_rewritten_program_witness:
  "\<exists>z'. bindR (WriteDollops (\<lambda>_. []) (x86_arch (\<lambda>_. []) 64) [] [0, 1] prog_sample) (\<lambda>z.
        bindR (ReplopDollopEntriesWithTargets (\<lambda>_. []) (x86_arch (\<lambda>_. []) 64) [] z)
          (UpdatePins 1 id (x86_arch (\<lambda>_. []) 64) [])) = Inr z' \<and>
    x86_jump_target 0x90 (z_ms z') = Some 0x110"
proof -
  let ?R = "\<Union> (entry_room (x86_isize (\<lambda>_. [])) (z_ir prog_sample) (z_dm prog_sample) ` set [0, 1])"
  have t: "x86_jump_target 0x90 (z_ms prog_sample) \<noteq> None" by (simp add: x86_jump_target_def)
  have rc: "x86_jump_reach 0x90 0x110 (z_ms prog_sample)" by (simp add: x86_jump_reach_def near32_def)
  have R: "?R = set (addrs 0x110 6) \<union> set (addrs 0x150 1)"
    by (simp add: entry_room_def prog_sample_size prog_sample_entries mk_dentry_def)
  have "set (addrs 0x90 5) \<inter> (set (addrs 0x110 6) \<union> set (addrs 0x150 1)) = {}"
    by (simp add: addrs_def upt_rec)
  then have ft: "x86_jump_foot 0x90 (z_ms prog_sample) \<inter> ?R = {}" unfolding R by (simp add: x86_jump_foot_def)
  have ready: "pins_ready ?R (\<lambda>_. 0x110) prog_sample"
    using t rc ft unfolding pins_ready_def by (simp add: word_le_nat_alt)
  have es: "[0, 1] = entries_of (z_dm prog_sample) [0, 1]" by (simp only: prog_sample_sel prog_sample_entries)
  have pin: "\<forall>(i, p) \<in> set (z_patch_list prog_sample). \<exists>d e es'. getContainingDollop i (z_dm prog_sample) = Some d \<and>
      d_entries (dl (z_dm prog_sample) d) = e # es' \<and> e \<in> set [0, 1] \<and> einsn (z_dm prog_sample) e = i \<and>
      0x110 = pl_place (ent (z_dm prog_sample) e)"
    by (simp add: prog_sample_entries empty_dollop_def mk_dentry_def)
  have n: "length (z_patch_list prog_sample) \<le> 1" by simp
  have nil: "z_replop prog_sample = []" by simp
  have m: "(0, \<lparr>pt_from = 0x90, pt_type = UncondJump_rel32\<rparr>) \<in> set (z_patch_list prog_sample)" by simp
  from x86_rewritten_program [OF prog_sample_laid es nil refl ready n pin, of 64 id]
  show ?thesis
    by (elim exE conjE) (rule exI, rule conjI, assumption, drule bspec [OF _ m], simp only: prod.case patch_t.select_convs)
qed

section \<open>Callbacks\<close>

lemma plop_step_ms:
  assumes "ms_ok (z_ms z)" "length bs \<le> 2 ^ 64"
  obtains m where "z_plop a bs z = Inr (z\<lparr>z_ms := m\<rparr>)" "wrote (set (addrs a (length bs))) (z_ms z) m"
    "\<forall>i < length bs. ms_peek (a + of_nat i) m = bs ! i"
proof -
  obtain m where "PlopBytes a bs (z_ms z) = Inr m" "wrote (set (addrs a (length bs))) (z_ms z) m"
      "\<forall>i < length bs. ms_peek (a + of_nat i) m = bs ! i"
    using plop_wrote [OF assms, where a = a] .
  then show thesis using that by (simp add: z_plop_def on_ms_def)
qed

text \<open>On 32-bit x86 no instruction with a callback can be written: the call and the
  \<open>lea esp, [esp+4]\<close> behind it take nine bytes, but an assertion demands
  \<open>CALLBACK_TRAMPOLINE_SIZE\<close>, which is ten. On 64-bit x86 it takes ten bytes, the call is
  recorded for \<open>UpdateCallbacks\<close>, and nothing outside is written.\<close>

theorem callbacks_32_bit_assert:
  assumes "ms_ok (z_ms z)" and "a = entry_place (ent (z_dm z) e) op"
  shows "PlopDollopEntryWithCallback (x86_arch asmb 32) e op z = Inl AssertFail \<and>
    (\<exists>m. PlopDollopEntryWithCallback (x86_arch asmb 64) e op z =
      Inr (a + 10, z\<lparr>z_ms := m, z_callbacks := List.insert (e, a) (z_callbacks z)\<rparr>) \<and>
    wrote (set (addrs a 10)) (z_ms z) m)"
proof -
  have l: "length [0xe8, 0, 0, 0, 0 :: byte] = 5" "length [0xe8, 0, 0, 0, 0 :: byte] \<le> 2 ^ 64"
    "length [0x48, 0x8d, 0x64, 0x24, 8 :: byte] = 5" "length [0x48, 0x8d, 0x64, 0x24, 8 :: byte] \<le> 2 ^ 64"
    "length [0x8d, 0x64, 0x24, 4 :: byte] \<le> 2 ^ 64" by simp_all
  obtain m where m: "z_plop a [0xe8, 0, 0, 0, 0] z = Inr (z\<lparr>z_ms := m\<rparr>)"
      "wrote (set (addrs a (length [0xe8, 0, 0, 0, 0 :: byte]))) (z_ms z) m"
    using plop_step_ms [OF assms(1) l(2), where a = a] by blast
  let ?z = "z\<lparr>z_ms := m, z_callbacks := List.insert (e, a) (z_callbacks z)\<rparr>"
  have ok: "ms_ok (z_ms ?z)" using wrote_ok [OF m(2)] by simp
  obtain m2 where m2: "z_plop (a + 5) [0x8d, 0x64, 0x24, 4] ?z = Inr (?z\<lparr>z_ms := m2\<rparr>)"
    using plop_step_ms [OF ok l(5), where a = "a + 5"] by blast
  obtain m3 where m3: "z_plop (a + 5) [0x48, 0x8d, 0x64, 0x24, 8] ?z = Inr (?z\<lparr>z_ms := m3\<rparr>)"
      "wrote (set (addrs (a + 5) (length [0x48, 0x8d, 0x64, 0x24, 8 :: byte]))) (z_ms ?z) m3"
    using plop_step_ms [OF ok l(4), where a = "a + 5"] by blast
  have "a + 9 - a = 9" "a + 10 - a = 10" by simp_all
  then have 32: "PlopDollopEntryWithCallback (x86_arch asmb 32) e op z = Inl AssertFail"
    using m(1) m2 assms(2)
    by (simp add: PlopDollopEntryWithCallback_def Let_def x86_arch_def x86_sizes_def mapR_def assertR_def)
  have "addrs a 10 = addrs a 5 @ addrs (a + 5) 5" using addrs_append [of a 5 5] by simp
  then have w: "wrote (set (addrs a 10)) (z_ms z) m3"
    using wrote_trans [OF m(2), of "set (addrs (a + 5) 5)" m3] m3(2) unfolding l by simp
  have "PlopDollopEntryWithCallback (x86_arch asmb 64) e op z = Inr (a + 10, ?z\<lparr>z_ms := m3\<rparr>)"
    using m(1) m3(1) assms(2)
    by (simp add: PlopDollopEntryWithCallback_def Let_def x86_arch_def x86_sizes_def mapR_def assertR_def)
  then show ?thesis using w 32 by (intro conjI exI [of _ m3]) simp_all
qed

theorem callbacks_32_bit_assert_witness:
  "PlopDollopEntryWithCallback (x86_arch (\<lambda>_. []) 32) 0 0 prog_sample = Inl AssertFail"
  using callbacks_32_bit_assert [OF _ refl, of prog_sample] by simp

end
