(* ===== verification/Zipr_Program.thy ===== *)
theory Zipr_Program
  imports Zipr_PlaceProps Zipr_WriteProps
begin

text \<open>
  Placement and writing together: the layout that the placement loop makes is one that the
  writing phases can write, so that the two in sequence produce the rewritten program.
\<close>

section \<open>What a layout gives to the writer\<close>

text \<open>
  The side conditions on the entries that placement does not decide: bytes of the right length
  or a branch within reach, no callback.
\<close>

definition x86_encodable :: "(asm \<Rightarrow> byte list) \<Rightarrow> 'a zplop_scheme \<Rightarrow> eid \<Rightarrow> bool" where
  "x86_encodable asmb z e \<longleftrightarrow> pl_place (ent (z_dm z) e) \<noteq> 0 \<and> i_callback (the_insn (z_ir z) (einsn (z_dm z) e)) = '''' \<and>
     (case de_tgt (ent (z_dm z) e) of
        None \<Rightarrow> length (data_bits asmb (z_ir z) (einsn (z_dm z) e)) = x86_isize asmb (z_ir z) (einsn (z_dm z) e)
      | Some d \<Rightarrow> d_entries (dl (z_dm z) d) \<noteq> [] \<and>
          x86_writable asmb (z_ir z) (z_dm z) e (pl_place (ent (z_dm z) e)) (pl_place (dl (z_dm z) d)))"

lemma x86_room: "entry_room (x86_isize asmb) (z_ir z) (z_dm z) e = room (x86_arch asmb b) z e"
  by (simp add: entry_room_def room_def isz_def x86_isize_def x86_arch_def)

lemma laid_out_prog:
  assumes l: "laid_out (x86_arch asmb b) bits z0 z" and sz: "sized (x86_arch asmb b) z" and pl: "z_plopping z = Map.empty"
    and es: "es = entries_of (z_dm z) ds" "set ds = {..<h_dnext (z_dm z)}"
    and en: "\<forall>e \<in> set es. x86_encodable asmb z e \<and> z_locs z (einsn (z_dm z) e) = None"
  shows "prog_laid (x86_isize asmb) (x86_writable asmb) asmb (set es) z"
proof -
  have hk: "heap_ok z" and sp: "space_ok (x86_arch asmb b) z" using l by (simp_all add: laid_out_def layout_ok_def)
  have tg: "pl_placed (dl (z_dm z) t)" if "e \<in> placed_entries z" "de_tgt (ent (z_dm z) e) = Some t" for e t
    using l that unfolding laid_out_def by fast
  have mem: "e \<in> set es \<longleftrightarrow> (\<exists>d < h_dnext (z_dm z). pl_placed (dl (z_dm z) d) \<and> e \<in> set (d_entries (dl (z_dm z) d)))" for e
    using es by (auto simp: entries_of_def split: if_splits)
  have dd: "set (d_entries (dl (z_dm z) d)) \<subseteq> placed_entries z"
    "laid_run (x86_arch asmb b) z (pl_place (dl (z_dm z) d)) (d_entries (dl (z_dm z) d))"
    if "d < h_dnext (z_dm z)" "pl_placed (dl (z_dm z) d)" for d
    using l that by (simp_all add: laid_out_def layout_ok_def dollop_done_def)
  have pe: "e \<in> placed_entries z \<and> e \<in> in_dollops (z_dm z)" if "e \<in> set es" for e
    using that dd(1) in_dollopsI unfolding mem by blast
  have front: "d_entries (dl (z_dm z) d) \<noteq> [] \<Longrightarrow> pl_place (ent (z_dm z) (hd (d_entries (dl (z_dm z) d)))) = pl_place (dl (z_dm z) d)"
    if "d < h_dnext (z_dm z)" "pl_placed (dl (z_dm z) d)" for d
    using dd(2) [OF that] by (cases "d_entries (dl (z_dm z) d)") simp_all
  have small: "x86_isize asmb (z_ir z) (einsn (z_dm z) e) \<le> 2 ^ 64" if "e \<in> set es" for e
  proof -
    have "e < h_enext (z_dm z)" using pe [OF that] by (simp add: placed_entries_def)
    then have "isz (x86_arch asmb b) z e \<le> (\<Sum>e<h_enext (z_dm z). isz (x86_arch asmb b) z e)" by (intro member_le_sum) simp_all
    then show ?thesis using sz by (simp add: sized_def isz_def x86_isize_def x86_arch_def)
  qed
  show ?thesis unfolding prog_laid_def
  proof (intro conjI ballI impI)
    show "ms_ok (z_ms z)" using sp by (simp add: space_ok_def)
    show "located (set es) z" using en by (simp add: located_def)
  next
    fix e assume e: "e \<in> set es"
    note n = en [rule_format, OF e, unfolded x86_encodable_def]
    have t: "t < h_dnext (z_dm z)" "pl_placed (dl (z_dm z) t)" if "de_tgt (ent (z_dm z) e) = Some t" for t
      using tg pe [OF e] that heap_okD(7) [OF hk] by (auto simp: placed_entries_def)
    show "z_plopping z (einsn (z_dm z) e) = None" by (simp add: pl)
    show "entry_ready (x86_isize asmb) (x86_writable asmb) asmb (z_ir z) (z_dm z) e"
      using n small [OF e] front t by (auto simp: entry_ready_def split: option.splits)
    show "fronts (z_dm z) e \<subseteq> set es"
    proof (cases "de_tgt (ent (z_dm z) e)")
      case (Some t)
      have "hd (d_entries (dl (z_dm z) t)) \<in> set (d_entries (dl (z_dm z) t))" using n Some by simp
      then show ?thesis using t [OF Some] Some unfolding fronts_def by (auto simp: mem)
    qed (simp add: fronts_def)
  next
    fix e e' assume e: "e \<in> set es" "e' \<in> set es" "e \<noteq> e'"
    show "entry_room (x86_isize asmb) (z_ir z) (z_dm z) e \<inter> entry_room (x86_isize asmb) (z_ir z) (z_dm z) e' = {}"
      using sp pe e unfolding x86_room [of asmb z _ b] space_ok_def by blast
    show "einsn (z_dm z) e \<noteq> einsn (z_dm z) e'"
      using inj_onD [OF heap_okD(5) [OF hk]] pe e by blast
  qed
qed

section \<open>Placement, then writing\<close>

text \<open>C1: From placement to the finished image on x86, without plugins: if the placement loop ends on a program
  with nothing placed, then writing the dollops, writing the branches again and updating the
  pins succeeds; every placed instruction is in memory at its place (a branch leads to the place
  of its target), every pin's jump leads to the place of the pinned instruction, and no byte
  outside the placed entries and the pins' jumps has changed since before placement. Hypotheses:
  the heap is closed, pinned addresses are reserved, the program fits into the address space,
  branches are within 32-bit reach, and the pins are jumps outside the placed entries.\<close>

theorem x86_place_and_write:
  assumes "heap_ok z" and "ms_ok (z_ms z)" and "placed_entries z = {}" and "\<forall>d < h_dnext (z_dm z). \<not> pl_placed (dl (z_dm z) d)"
    and "pins_reserved z" and "z_plopping z = Map.empty" and "sized (x86_arch asmb b) z1"
    and "place_queue k n rnd ord ev (x86_arch asmb b) [] (base_splitDollop x86_createNewJumpInstruction ev (x86_arch asmb b) []) z = Inr z1"
    and "es = entries_of (z_dm z1) ds" and "set ds = {..<h_dnext (z_dm z1)}" and "z_replop z1 = []"
    and "\<forall>e \<in> set es. x86_encodable asmb z1 e \<and> z_locs z1 (einsn (z_dm z1) e) = None"
    and "R = \<Union> (room (x86_arch asmb b) z1 ` set es)" and "pins_ready R loc z1" and "length (z_patch_list z1) \<le> m"
    and "\<forall>(i, p) \<in> set (z_patch_list z1). \<exists>d e es'. getContainingDollop i (z_dm z1) = Some d \<and>
      d_entries (dl (z_dm z1) d) = e # es' \<and> e \<in> set es \<and> einsn (z_dm z1) e = i \<and> loc i = pl_place (ent (z_dm z1) e)"
  shows "\<exists>z'. bindR (WriteDollops asmb (x86_arch asmb b) [] ds z1) (\<lambda>z.
        bindR (ReplopDollopEntriesWithTargets asmb (x86_arch asmb b) [] z)
          (UpdatePins m ord' (x86_arch asmb b) [])) = Inr z' \<and> z_dm z' = z_dm z1 \<and>
    (\<forall>e \<in> set es. entry_written (x86_isize asmb) (x86_goes asmb b) asmb z' e) \<and>
    (\<forall>(i, p) \<in> set (z_patch_list z1). x86_jump_target (pt_from p) (z_ms z') = Some (loc i)) \<and>
    (\<forall>x. x \<notin> R \<longrightarrow> (\<forall>(i, p) \<in> set (z_patch_list z1). x \<notin> x86_jump_foot (pt_from p) (z_ms z1)) \<longrightarrow>
       ms_peek x (z_ms z') = ms_peek x (z_ms z))"
proof -
  note q = assms(8) [unfolded createNewJump_with]
  have l: "laid_out (x86_arch asmb b) [0xe9, 0, 0, 0, 0] z z1" "later {} z z1"
    by (rule x86pl.fresh_laid_out [OF q assms(1-7)])+
  have pl: "z_plopping z1 = Map.empty" using laterD(4) [OF l(2)] assms(6) by simp
  have laid: "prog_laid (x86_isize asmb) (x86_writable asmb) asmb (set es) z1"
    by (rule laid_out_prog [OF l(1) assms(7) pl assms(9,10,12)])
  have R: "R = \<Union> (entry_room (x86_isize asmb) (z_ir z1) (z_dm z1) ` set es)" 
    unfolding assms(13) using x86_room [of asmb z1 _ b] by simp
  have b: "ms_peek x (z_ms z1) = ms_peek x (z_ms z)" for x using l(1) by (simp add: laid_out_def ms_peek_def)
  show ?thesis
    using x86_rewrite [OF laid assms(9,11) R assms(14,15,16), of b ord'] by (simp only: b) blast
qed

lemma lay_run_program:
  "case lay_run of Inr z \<Rightarrow>
     entries_of (z_dm z) [0, 1, 2] = [0, 1, 2] \<and> z_replop z = [] \<and> h_dnext (z_dm z) = 3 \<and>
     z_patch_list z = [(0, \<lparr>pt_from = 0x90, pt_type = UncondJump_rel32\<rparr>)] \<and>
     map (\<lambda>e. z_locs z (einsn (z_dm z) e)) [0, 1, 2] = [None, None, None] \<and>
     map (\<lambda>e. pl_place (ent (z_dm z) e) + 1) [0, 1, 2] = [0x101, 0x108, 0x107] \<and> pl_place (dl (z_dm z) 1) = 0x107 \<and>
     map (\<lambda>e. de_tgt (ent (z_dm z) e)) [0, 1, 2] = [Some 1, None, None] \<and> map (einsn (z_dm z)) [0, 1, 2] = [0, 1, 2] \<and>
     map (data_bits (\<lambda>_. []) (z_ir z)) [0, 1, 2] = [[0x75, 0], [0xc3], [0x90]] \<and> tgt_of (z_ir z) 0 = Some 1 \<and>
     map (\<lambda>i. i_callback (the_insn (z_ir z) i)) [0, 1, 2] = ['''', '''', ''''] \<and>
     map (x86_isize (\<lambda>_. []) (z_ir z)) [0, 1, 2] = [6, 1, 1] \<and> getContainingDollop 0 (z_dm z) = Some 0 \<and>
     map (\<lambda>d. d_entries (dl (z_dm z) d)) [0, 1] = [[0], [1]]
   | Inl _ \<Rightarrow> False"
  by code_simp

theorem x86_place_and_write_witness:
  "\<exists>z1 z'. lay_run = Inr z1 \<and> bindR (WriteDollops (\<lambda>_. []) (x86_arch (\<lambda>_. []) 64) [] [0, 1, 2] z1) (\<lambda>z.
        bindR (ReplopDollopEntriesWithTargets (\<lambda>_. []) (x86_arch (\<lambda>_. []) 64) [] z)
          (UpdatePins 1 id (x86_arch (\<lambda>_. []) 64) [])) = Inr z' \<and>
    x86_jump_target 0x90 (z_ms z') = Some 0x100"
proof -
  obtain z1 where z1: "lay_run = Inr z1" "sized (x86_arch (\<lambda>_. []) 64) z1" by (rule lay_run_Inr)
  note q = z1(1) [unfolded lay_run_def]
  note r = lay_run_program [unfolded z1(1) sum.case]
  have l: "laid_out (x86_arch (\<lambda>_. []) 64) [0xe9, 0, 0, 0, 0] lay_sample z1"
    by (rule x86pl.fresh_laid_out(1) [OF q [unfolded createNewJump_with] lay_sample_ready z1(2)])
  have places: "pl_place (ent (z_dm z1) 0) = 0x100" "pl_place (ent (z_dm z1) 1) = 0x107" "pl_place (ent (z_dm z1) 2) = 0x106"
  proof -
    have s: "a + 1 = b + 1 \<Longrightarrow> a = b" for a b :: addr by simp
    show "pl_place (ent (z_dm z1) 0) = 0x100" by (rule s) (use r in simp)
    show "pl_place (ent (z_dm z1) 1) = 0x107" by (rule s) (use r in simp)
    show "pl_place (ent (z_dm z1) 2) = 0x106" by (rule s) (use r in simp)
  qed
  have en: "x86_encodable (\<lambda>_. []) z1 e \<and> z_locs z1 (einsn (z_dm z1) e) = None" if "e \<in> set [0, 1, 2]" for e
  proof -
    have 0: "x86_encodable (\<lambda>_. []) z1 0"
      using r places by (simp add: x86_encodable_def x86_writable_def Let_def short_branch_def near32_def einsn_def)
    have "x86_encodable (\<lambda>_. []) z1 1" "x86_encodable (\<lambda>_. []) z1 2" using r places by (simp_all add: x86_encodable_def)
    then show ?thesis using 0 r that by auto
  qed
  let ?R = "\<Union> (room (x86_arch (\<lambda>_. []) 64) z1 ` set [0, 1, 2])"
  have ms: "ms_peek x (z_ms z1) = ms_peek x (z_ms lay_sample)" for x using l by (simp add: laid_out_def ms_peek_def)
  have e9: "ms_peek 0x90 (z_ms z1) = 0xe9" by (simp add: ms lay_sample_def)
  have fs: "free_set (z_ms z1) \<subseteq> {0x100..0x1ff}" using l by (simp add: laid_out_def lay_sample_sel)
  have R: "?R = set (addrs 0x100 6) \<union> set (addrs 0x107 1) \<union> set (addrs 0x106 1)"
    using r places by (simp add: room_def isz_def x86_isize_def x86_arch_def Un_assoc)
  have "set (addrs 0x90 5) \<inter> (set (addrs 0x100 6) \<union> set (addrs 0x107 1) \<union> set (addrs 0x106 1)) = {}"
    by (simp add: addrs_def upt_rec)
  then have ft: "x86_jump_foot 0x90 (z_ms z1) \<inter> ?R = {}" unfolding R by (simp add: x86_jump_foot_def e9)
  have nf: "0x90 \<notin> free_set (z_ms z1)" "0x91 \<notin> free_set (z_ms z1)" using fs by (auto simp: word_le_nat_alt)
  have "x86_jump_reach 0x90 0x100 (z_ms z1)" by (simp add: x86_jump_reach_def e9 near32_def)
  then have ready: "pins_ready ?R (\<lambda>_. 0x100) z1"
    using r ft nf unfolding pins_ready_def by (simp add: x86_jump_target_def e9)
  have es: "[0, 1, 2] = entries_of (z_dm z1) [0, 1, 2]" and nil: "z_replop z1 = []" and n: "length (z_patch_list z1) \<le> 1"
    using r by simp_all
  have "h_dnext (z_dm z1) = 3" using r by simp
  then have ds: "set [0, 1, 2] = {..<h_dnext (z_dm z1)}" unfolding lessThan_def by (simp only: lt_3) auto
  have pin: "\<forall>(i, p) \<in> set (z_patch_list z1). \<exists>d e es'. getContainingDollop i (z_dm z1) = Some d \<and>
      d_entries (dl (z_dm z1) d) = e # es' \<and> e \<in> set [0, 1, 2] \<and> einsn (z_dm z1) e = i \<and> 0x100 = pl_place (ent (z_dm z1) e)"
    using r places by simp
  have m: "(0, \<lparr>pt_from = 0x90, pt_type = UncondJump_rel32\<rparr>) \<in> set (z_patch_list z1)" using r by simp
  have "\<forall>e \<in> set [0, 1, 2]. x86_encodable (\<lambda>_. []) z1 e \<and> z_locs z1 (einsn (z_dm z1) e) = None" using en by blast
  from x86_place_and_write [OF lay_sample_ready z1(2) q es ds nil this refl ready n pin, of id]
  obtain z' where "bindR (WriteDollops (\<lambda>_. []) (x86_arch (\<lambda>_. []) 64) [] [0, 1, 2] z1) (\<lambda>z.
        bindR (ReplopDollopEntriesWithTargets (\<lambda>_. []) (x86_arch (\<lambda>_. []) 64) [] z)
          (UpdatePins 1 id (x86_arch (\<lambda>_. []) 64) [])) = Inr z'"
    "\<forall>(i, p) \<in> set (z_patch_list z1). x86_jump_target (pt_from p) (z_ms z') = Some 0x100" by blast
  then show ?thesis using z1(1) m by (intro exI [of _ z1] exI [of _ z']) auto
qed

end
