(* ===== verification/Zipr_FixIR.thy ===== *)
theory Zipr_FixIR
  imports Zipr_Layout
begin

text \<open>
  Making the program fit for placement (\<open>zipr/src/zipr.cpp\<close>): prefixes that change the size of
  a branch are dropped (\<open>FixTwoByteWithPrefix\<close>), branches without a fallthrough or a target
  get one (\<open>FixNoFallthroughs\<close>), and of several instructions with one fallthrough all but one
  get a jump to it (\<open>FixMultipleFallthroughs\<close>), since code can run into an address from one
  place only.

  The decoder is not part of the sources: \<open>dec\<close> gives its answers for the bytes of an
  instruction. The set of instructions is iterated in the order of the objects' addresses,
  \<open>ptr\<close>.
\<close>

record decoded =
  dc_branch :: bool            \<comment> \<open>\<open>isBranch\<close>: calls, returns and jumps\<close>
  dc_return :: bool
  dc_conditional :: bool
  dc_operands :: nat
  dc_constant :: bool          \<comment> \<open>the first operand is a constant\<close>

definition getInstructions :: "(iid \<Rightarrow> nat) \<Rightarrow> ir \<Rightarrow> iid list" where
  "getInstructions ptr f = sort_key ptr (List.filter (\<lambda>i. ir_insns f i \<noteq> None) [0..<ir_next f])"

lemma getInstructions_set: "ir_fresh f \<Longrightarrow> set (getInstructions ptr f) = dom (ir_insns f)"
  unfolding ir_fresh_def getInstructions_def by (auto simp: not_less [symmetric])

lemma getInstructions_less: "i \<in> set (getInstructions ptr f) \<Longrightarrow> i < ir_next f"
  by (simp add: getInstructions_def)

lemma getInstructions_distinct [simp]: "distinct (getInstructions ptr f)"
  by (simp add: getInstructions_def)

section \<open>Prefixes\<close>

definition branch_prefixes :: "byte list" where
  "branch_prefixes = [0x2e, 0x36, 0x3e, 0x26, 0x64, 0x65, 0x2e, 0x3e, 0xf0, 0xf2, 0xf3, 0x66, 0x67]"

text \<open>\<open>bits\<close> is the width of the machine; on 64 bits \<open>0x40\<close> to \<open>0x4f\<close> are prefixes too.\<close>

fun strip_prefixes :: "nat \<Rightarrow> byte list \<Rightarrow> byte list" where
  "strip_prefixes bits [] = []"
| "strip_prefixes bits (b # bs) =
     (if b \<in> set branch_prefixes then strip_prefixes bits bs
      else if bits = 64 \<and> b AND 0xf0 = 0x40 then strip_prefixes bits bs
      else b # bs)"

definition jmp8bitOffset :: "byte list" where
  "jmp8bitOffset = [0xeb,0x71,0x72,0x73,0x74,0x75,0x76,0x77,0x78,0x79,0x7a,0x7b,0x7c,0x7d,0x7e,0x7f]"

definition jcc32bitOffset :: "byte list" where
  "jcc32bitOffset = [0x81,0x82,0x83,0x84,0x85,0x86,0x88,0x88,0x89,0x8a,0x8b,0x8c,0x8d,0x8e,0x8f]"

text \<open>The element after the first is read even if the string is empty, which it may not be.\<close>

definition normal_branch :: "nat \<Rightarrow> byte list \<Rightarrow> byte list result" where
  "normal_branch bits data =
     (let bs = strip_prefixes bits data; b = first_byte bs; c = first_byte (tl bs) in
      if bs = [] then Inl OutOfBounds
      else if b \<in> set jmp8bitOffset then Inr [b, 0]
      else if b = 0xe9 then Inr [b, 0, 0, 0, 0]
      else if b = 0xe8 then Inr [0xe8, 0, 0, 0, 0]
      else if b = 0x0f \<and> c \<in> set jcc32bitOffset then Inr [b, c, 0, 0, 0, 0]
      else Inr bs)"

definition set_bits :: "iid \<Rightarrow> byte list \<Rightarrow> ir \<Rightarrow> ir" where
  "set_bits i bs = update_insn i (\<lambda>n. n\<lparr>i_text := DataBits bs\<rparr>)"

definition fix_prefix :: "(asm \<Rightarrow> byte list) \<Rightarrow> (byte list \<Rightarrow> decoded) \<Rightarrow> nat \<Rightarrow> iid \<Rightarrow> ir \<Rightarrow> ir result" where
  "fix_prefix asmb dec bits insn f =
     (let bs = data_bits asmb f insn; d = dec bs in
      if \<not> dc_branch d then Inr f
      else if dc_return d then Inr f
      else if dc_operands d \<noteq> 1 then Inr f
      else if \<not> dc_constant d then Inr f
      else bindR (normal_branch bits bs) (\<lambda>bs'. Inr (set_bits insn bs' f)))"

definition FixTwoByteWithPrefix :: "(asm \<Rightarrow> byte list) \<Rightarrow> (byte list \<Rightarrow> decoded) \<Rightarrow> bool \<Rightarrow> nat \<Rightarrow> (iid \<Rightarrow> nat) \<Rightarrow> ir \<Rightarrow> ir result" where
  "FixTwoByteWithPrefix asmb dec is_x86 bits ptr f =
     (if \<not> is_x86 then Inr f else foldR (fix_prefix asmb dec bits) (getInstructions ptr f) f)"

section \<open>Branches without a fallthrough or a target\<close>

definition direct_branch :: "decoded \<Rightarrow> bool" where
  "direct_branch d \<longleftrightarrow> dc_branch d \<and> \<not> dc_return d \<and> 0 < dc_operands d \<and> dc_constant d"

definition fix_no_fallthrough :: "(asm \<Rightarrow> byte list) \<Rightarrow> (byte list \<Rightarrow> decoded) \<Rightarrow> iid \<Rightarrow> iid \<Rightarrow> iid \<Rightarrow> ir \<Rightarrow> ir" where
  "fix_no_fallthrough asmb dec hlt jmp insn f =
     (if insn = hlt \<or> insn = jmp then f
      else
        let f = (if ft_of f insn = None \<and> dc_conditional (dec (data_bits asmb f insn)) then set_ft insn (Some hlt) f else f)
        in if tgt_of f insn = None \<and> direct_branch (dec (data_bits asmb f insn)) then set_tgt insn (Some hlt) f else f)"

definition FixNoFallthroughs :: "(asm \<Rightarrow> byte list) \<Rightarrow> (byte list \<Rightarrow> decoded) \<Rightarrow> (iid option \<Rightarrow> ir \<Rightarrow> iid \<times> ir) \<Rightarrow>
    (iid option \<Rightarrow> ir \<Rightarrow> iid \<times> ir) \<Rightarrow> (iid \<Rightarrow> nat) \<Rightarrow> ir \<Rightarrow> ir" where
  "FixNoFallthroughs asmb dec halt jump ptr f =
     (let (hlt, f) = halt None f; (jmp, f) = jump None f;
          f = set_tgt jmp (Some hlt) (set_ft hlt (Some jmp) f)
      in fold (fix_no_fallthrough asmb dec hlt jmp) (getInstructions ptr f) f)"

section \<open>Several instructions with one fallthrough\<close>

text \<open>The map from fallthroughs to the instructions that have them, made before anything changes.\<close>

definition fallthrough_from :: "(iid \<Rightarrow> nat) \<Rightarrow> ir \<Rightarrow> iid \<Rightarrow> iid list" where
  "fallthrough_from ptr f ft = List.filter (\<lambda>i. ft_of f i = Some ft) (getInstructions ptr f)"

definition fallthroughs :: "(iid \<Rightarrow> nat) \<Rightarrow> ir \<Rightarrow> iid list" where
  "fallthroughs ptr f = sort_key ptr (remdups (List.map_filter (ft_of f) (getInstructions ptr f)))"

definition jump_instead :: "(iid option \<Rightarrow> ir \<Rightarrow> iid \<times> ir) \<Rightarrow> iid \<Rightarrow> iid \<Rightarrow> ir \<Rightarrow> ir" where
  "jump_instead jump ft from f =
     (let (newjmp, f) = jump None f in set_ft from (Some newjmp) (set_tgt newjmp (Some ft) f))"

definition FixMultipleFallthroughs :: "(iid option \<Rightarrow> ir \<Rightarrow> iid \<times> ir) \<Rightarrow> (iid \<Rightarrow> nat) \<Rightarrow> ir \<Rightarrow> ir" where
  "FixMultipleFallthroughs jump ptr f =
     fold (\<lambda>ft. if 1 < length (fallthrough_from ptr f ft) then fold (jump_instead jump ft) (tl (fallthrough_from ptr f ft))
                else id) (fallthroughs ptr f) f"

text \<open>The three phases in the order of \<open>CreateBinaryFile\<close>.\<close>

definition FixFallthroughs :: "(asm \<Rightarrow> byte list) \<Rightarrow> (byte list \<Rightarrow> decoded) \<Rightarrow> bool \<Rightarrow> nat \<Rightarrow> (iid option \<Rightarrow> ir \<Rightarrow> iid \<times> ir) \<Rightarrow>
    (iid option \<Rightarrow> ir \<Rightarrow> iid \<times> ir) \<Rightarrow> (iid \<Rightarrow> nat) \<Rightarrow> ir \<Rightarrow> ir result" where
  "FixFallthroughs asmb dec is_x86 bits halt jump ptr f =
     mapR (\<lambda>f. FixMultipleFallthroughs jump ptr (FixNoFallthroughs asmb dec halt jump ptr f))
       (FixTwoByteWithPrefix asmb dec is_x86 bits ptr f)"

section \<open>What the phases do to an instruction\<close>

definition text_bytes :: "(asm \<Rightarrow> byte list) \<Rightarrow> insn \<Rightarrow> byte list" where
  "text_bytes asmb n = (case i_text n of DataBits bs \<Rightarrow> bs | Asm t \<Rightarrow> asmb t)"

lemma data_bits_text: "ir_insns f i = Some n \<Longrightarrow> data_bits asmb f i = text_bytes asmb n"
  by (simp add: data_bits_def text_bytes_def the_insn_def)

lemma text_bytes_updates [simp]:
  "text_bytes asmb (n\<lparr>i_ft := x\<rparr>) = text_bytes asmb n" "text_bytes asmb (n\<lparr>i_tgt := x\<rparr>) = text_bytes asmb n"
  "text_bytes asmb (n\<lparr>i_text := DataBits bs\<rparr>) = bs" "text_bytes asmb (new_insn (DataBits bs)) = bs"
  by (simp_all add: text_bytes_def new_insn_def)

lemma new_insn_sel [simp]: "i_text (new_insn t) = t" "i_ft (new_insn t) = None" "i_tgt (new_insn t) = None"
  by (simp_all add: new_insn_def)

lemma jump_with_None:
  "jump_with bits None f = (ir_next f, f\<lparr>ir_insns := (ir_insns f)(ir_next f \<mapsto> new_insn (DataBits bits)), ir_next := Suc (ir_next f)\<rparr>)"
  by (simp add: jump_with_def addNewDataBits_def add_new_def)

definition with_exits :: "(asm \<Rightarrow> byte list) \<Rightarrow> (byte list \<Rightarrow> decoded) \<Rightarrow> iid \<Rightarrow> insn \<Rightarrow> insn" where
  "with_exits asmb dec hlt n = n\<lparr>
     i_ft := if i_ft n = None \<and> dc_conditional (dec (text_bytes asmb n)) then Some hlt else i_ft n,
     i_tgt := if i_tgt n = None \<and> direct_branch (dec (text_bytes asmb n)) then Some hlt else i_tgt n\<rparr>"

lemma fix_no_fallthrough_get:
  "ir_insns (fix_no_fallthrough asmb dec hlt jmp i f) j =
     (if j = i \<and> i \<noteq> hlt \<and> i \<noteq> jmp then map_option (with_exits asmb dec hlt) (ir_insns f i) else ir_insns f j)"
  "ir_next (fix_no_fallthrough asmb dec hlt jmp i f) = ir_next f" if "ir_insns f i \<noteq> None"
  using that by (auto simp: fix_no_fallthrough_def Let_def with_exits_def ft_of_def tgt_of_def data_bits_text)

lemma fix_no_fallthroughs:
  assumes "distinct xs" "\<forall>i \<in> set xs. ir_insns f i \<noteq> None"
  shows "(\<forall>j. ir_insns (fold (fix_no_fallthrough asmb dec hlt jmp) xs f) j =
      (if j \<in> set xs \<and> j \<noteq> hlt \<and> j \<noteq> jmp then map_option (with_exits asmb dec hlt) (ir_insns f j) else ir_insns f j)) \<and>
    ir_next (fold (fix_no_fallthrough asmb dec hlt jmp) xs f) = ir_next f"
  using assms
proof (induction xs arbitrary: f)
  case (Cons i xs)
  let ?f = "fix_no_fallthrough asmb dec hlt jmp i f"
  have f: "ir_insns f i \<noteq> None" using Cons.prems by simp
  note get = fix_no_fallthrough_get [OF f, of asmb dec hlt jmp]
  have d: "distinct xs" "i \<notin> set xs" using Cons.prems by auto
  have "ir_insns ?f k \<noteq> None" if "k \<in> set xs" for k
    using Cons.prems(2) that d(2) get(1) [of k] by auto
  then have p: "\<forall>k \<in> set xs. ir_insns ?f k \<noteq> None" by blast
  show ?case using Cons.IH [OF d(1) p] d(2) get by auto
qed simp

subsection \<open>Jumps to shared fallthroughs\<close>

definition reroutes :: "(iid \<Rightarrow> nat) \<Rightarrow> ir \<Rightarrow> (iid \<times> iid) list" where
  "reroutes ptr f = concat (map (\<lambda>ft. map (Pair ft) (tl (fallthrough_from ptr f ft))) (fallthroughs ptr f))"

lemma fold_concat_map: "fold g (concat (map h xs)) s = fold (\<lambda>x. fold g (h x)) xs s"
  by (induction xs arbitrary: s) simp_all

lemma FixMultipleFallthroughs_eq:
  "FixMultipleFallthroughs jump ptr f = fold (\<lambda>(ft, from). jump_instead jump ft from) (reroutes ptr f) f"
proof -
  have "(if 1 < length xs then fold g (tl xs) else id) = fold g (tl xs)" for g :: "iid \<Rightarrow> ir \<Rightarrow> ir" and xs
    by (cases xs; cases "tl xs") auto
  moreover have "fold (\<lambda>(ft, from). jump_instead jump ft from) (map (Pair a) xs) = fold (jump_instead jump a) xs" for a xs
    by (simp add: fold_map comp_def)
  ultimately show ?thesis
    unfolding FixMultipleFallthroughs_def reroutes_def fold_concat_map by simp
qed

lemma fallthroughs_set: "set (fallthroughs ptr f) = {ft. \<exists>i \<in> set (getInstructions ptr f). ft_of f i = Some ft}"
  by (force simp: fallthroughs_def List.map_filter_def)

lemma reroutes_set:
  "(ft, i) \<in> set (reroutes ptr f) \<longleftrightarrow> i \<in> set (tl (fallthrough_from ptr f ft))"
proof -
  have "\<exists>i \<in> set (getInstructions ptr f). ft_of f i = Some ft" if "i \<in> set (tl (fallthrough_from ptr f ft))"
    using list.set_sel(2) [OF _ that] that by (cases "fallthrough_from ptr f ft = []") (auto simp: fallthrough_from_def)
  then show ?thesis by (auto simp: reroutes_def fallthroughs_set)
qed

lemma tl_fallthrough_from: "i \<in> set (tl (fallthrough_from ptr f ft)) \<Longrightarrow> i \<in> set (getInstructions ptr f) \<and> ft_of f i = Some ft"
  using list.set_sel(2) [of "fallthrough_from ptr f ft" i] by (cases "fallthrough_from ptr f ft = []") (auto simp: fallthrough_from_def)

lemma reroutes_distinct: "distinct (map snd (reroutes ptr f))"
proof -
  have d: "distinct (fallthroughs ptr f)" by (simp add: fallthroughs_def)
  have *: "map snd (reroutes ptr f) = concat (map (\<lambda>ft. tl (fallthrough_from ptr f ft)) (fallthroughs ptr f))"
    by (simp add: reroutes_def map_concat comp_def)
  have "distinct (concat (map (\<lambda>ft. tl (fallthrough_from ptr f ft)) xs))" if "distinct xs" for xs
    using that
  proof (induction xs)
    case (Cons a xs)
    have "distinct (tl (fallthrough_from ptr f a))" by (simp add: fallthrough_from_def distinct_tl)
    moreover have "set (tl (fallthrough_from ptr f a)) \<inter> set (tl (fallthrough_from ptr f b)) = {}" if "b \<in> set xs" for b
      using tl_fallthrough_from [of _ ptr f a] tl_fallthrough_from [of _ ptr f b] that Cons.prems by fastforce
    ultimately show ?case using Cons by auto
  qed simp
  then show ?thesis using d * by simp
qed

lemma jump_instead_get:
  fixes bits :: "byte list" and ft j :: iid
  assumes "ir_fresh f" "ir_insns f from = Some n"
  defines "f' \<equiv> jump_instead (jump_with bits) ft from f"
  shows "ir_next f' = Suc (ir_next f)" "ir_fresh f'"
    "ir_insns f' j = (if j = from then Some (n\<lparr>i_ft := Some (ir_next f)\<rparr>)
       else if j = ir_next f then Some ((new_insn (DataBits bits))\<lparr>i_tgt := Some ft\<rparr>) else ir_insns f j)"
proof -
  have "from \<noteq> ir_next f" using assms(1,2) by (auto simp: ir_fresh_def)
  then show g: "ir_insns f' j = (if j = from then Some (n\<lparr>i_ft := Some (ir_next f)\<rparr>)
       else if j = ir_next f then Some ((new_insn (DataBits bits))\<lparr>i_tgt := Some ft\<rparr>) else ir_insns f j)" for j
    using assms(2) by (simp add: f'_def jump_instead_def jump_with_None)
  show n: "ir_next f' = Suc (ir_next f)" by (simp add: f'_def jump_instead_def jump_with_None)
  have "from < ir_next f" using assms(1,2) by (metis ir_fresh_def not_le option.distinct(1))
  then show "ir_fresh f'" using assms(1) by (simp add: ir_fresh_def n g)
qed

lemma jumps_instead:
  assumes "ir_fresh f" "distinct (map snd ps)" "\<forall>p \<in> set ps. ir_insns f (snd p) \<noteq> None"
  shows "let f' = fold (\<lambda>(ft, from). jump_instead (jump_with bits) ft from) ps f in
     ir_next f' = ir_next f + length ps \<and> ir_fresh f' \<and>
     (\<forall>k < length ps. ir_insns f' (ir_next f + k) = Some ((new_insn (DataBits bits))\<lparr>i_tgt := Some (fst (ps ! k))\<rparr>)) \<and>
     (\<forall>k < length ps. ir_insns f' (snd (ps ! k)) = map_option (\<lambda>n. n\<lparr>i_ft := Some (ir_next f + k)\<rparr>) (ir_insns f (snd (ps ! k)))) \<and>
     (\<forall>i < ir_next f. i \<notin> snd ` set ps \<longrightarrow> ir_insns f' i = ir_insns f i)"
  using assms(2,3)
proof (induction ps rule: rev_induct)
  case Nil
  then show ?case using assms(1) by simp
next
  case (snoc p ps)
  obtain ft from' where p: "p = (ft, from')" by (cases p)
  define g where "g = fold (\<lambda>(ft, from). jump_instead (jump_with bits) ft from) ps f"
  have nf: "from' \<notin> snd ` set ps" using snoc.prems(1) by (simp add: p)
  have less: "i < ir_next f" if "ir_insns f i \<noteq> None" for i using assms(1) that by (metis ir_fresh_def not_le)
  have d: "distinct (map snd ps)" "\<forall>p \<in> set ps. ir_insns f (snd p) \<noteq> None" using snoc.prems by auto
  have fr: "ir_insns f from' \<noteq> None" using snoc.prems(2) by (simp add: p)
  note ih = snoc.IH [OF d, folded g_def, unfolded Let_def]
  obtain n where n: "ir_insns f from' = Some n" using fr by auto
  then have n': "ir_insns g from' = Some n" using ih less nf by simp
  have gf: "ir_fresh g" and gn: "ir_next g = ir_next f + length ps" using ih by blast+
  note get = jump_instead_get [OF gf n', of bits ft]
  have sn: "snd (ps ! k) \<noteq> from'" "snd (ps ! k) < ir_next f" if "k < length ps" for k
    using that nf d(2) less by (auto simp: image_iff)
  have fl: "from' < ir_next f" using less [OF fr] .
  let ?f = "jump_instead (jump_with bits) ft from' g"
  have new: "ir_insns ?f (ir_next f + k) = Some ((new_insn (DataBits bits))\<lparr>i_tgt := Some (fst ((ps @ [p]) ! k))\<rparr>)"
    if "k < Suc (length ps)" for k
    using that ih fl by (cases "k = length ps") (auto simp: get(3) gn nth_append p)
  have old: "ir_insns ?f (snd ((ps @ [p]) ! k)) =
      map_option (\<lambda>n. n\<lparr>i_ft := Some (ir_next f + k)\<rparr>) (ir_insns f (snd ((ps @ [p]) ! k)))" if "k < Suc (length ps)" for k
    using that ih sn [of k] by (cases "k = length ps") (auto simp: get(3) gn nth_append p n)
  have "fold (\<lambda>(ft, from). jump_instead (jump_with bits) ft from) (ps @ [p]) f = ?f" by (simp add: g_def p)
  then show ?case using new old get(1,2) gn ih by (auto simp: get(3) p Let_def)
qed

text \<open>Every fallthrough is in the IR.\<close>

definition ft_closed :: "ir \<Rightarrow> bool" where
  "ft_closed f \<longleftrightarrow> (\<forall>i k. ft_of f i = Some k \<longrightarrow> ir_insns f k \<noteq> None)"

definition jump_to :: "byte list \<Rightarrow> iid \<Rightarrow> insn" where
  "jump_to bits ft = (new_insn (DataBits bits))\<lparr>i_tgt := Some ft\<rparr>"

text \<open>Control that runs out of an instruction gets to \<open>k\<close>, at once or by a jump.\<close>

definition falls_to :: "byte list \<Rightarrow> ir \<Rightarrow> iid \<Rightarrow> iid \<Rightarrow> bool" where
  "falls_to bits f i k \<longleftrightarrow> ft_of f i = Some k \<or> (\<exists>j. ft_of f i = Some j \<and> ir_insns f j = Some (jump_to bits k))"

lemma multiple_fallthroughs:
  fixes bits :: "byte list" and ptr :: "iid \<Rightarrow> nat"
  assumes fresh: "ir_fresh f" and closed: "ft_closed f"
  defines "f' \<equiv> FixMultipleFallthroughs (jump_with bits) ptr f"
  shows "ft_of f' i = Some k \<Longrightarrow> ft_of f' j = Some k \<Longrightarrow> i = j"
    "ir_insns f i = Some n \<Longrightarrow> \<exists>x. ir_insns f' i = Some (n\<lparr>i_ft := x\<rparr>) \<and> (x = None \<longleftrightarrow> i_ft n = None)"
    "ft_of f i = Some k \<Longrightarrow> falls_to bits f' i k"
    "ir_insns f i = None \<Longrightarrow> ir_insns f' i = Some n \<Longrightarrow> \<exists>t. n = jump_to bits t"
proof -
  let ?ps = "reroutes ptr f"
  have less: "x < ir_next f" if "ir_insns f x \<noteq> None" for x using fresh that by (metis ir_fresh_def not_le)
  have src: "ir_insns f (snd p) \<noteq> None \<and> ft_of f (snd p) = Some (fst p)" if "p \<in> set ?ps" for p
  proof -
    have "snd p \<in> set (tl (fallthrough_from ptr f (fst p)))" using that reroutes_set [of "fst p" "snd p"] by simp
    from tl_fallthrough_from [OF this] show ?thesis by (auto simp: ft_of_def split: option.splits)
  qed
  have "\<forall>p \<in> set ?ps. ir_insns f (snd p) \<noteq> None" using src by blast
  from jumps_instead [OF fresh reroutes_distinct this, of bits, folded FixMultipleFallthroughs_eq, folded f'_def, unfolded Let_def]
  have nx: "ir_next f' = ir_next f + length ?ps" and fr': "ir_fresh f'"
    and new: "\<And>m. m < length ?ps \<Longrightarrow> ir_insns f' (ir_next f + m) = Some (jump_to bits (fst (?ps ! m)))"
    and moved: "\<And>m. m < length ?ps \<Longrightarrow>
        ir_insns f' (snd (?ps ! m)) = map_option (\<lambda>n. n\<lparr>i_ft := Some (ir_next f + m)\<rparr>) (ir_insns f (snd (?ps ! m)))"
    and same: "\<And>x. x < ir_next f \<Longrightarrow> x \<notin> snd ` set ?ps \<Longrightarrow> ir_insns f' x = ir_insns f x"
    by (auto simp: jump_to_def)
  have idx: "\<exists>m < length ?ps. x = snd (?ps ! m)" if "x \<in> snd ` set ?ps" for x
    using that by (metis imageE in_set_conv_nth)
  have cases: "(\<exists>m < length ?ps. x = snd (?ps ! m)) \<or> x < ir_next f \<and> x \<notin> snd ` set ?ps \<or> (\<exists>m < length ?ps. x = ir_next f + m) \<or>
      ir_next f' \<le> x" for x
  proof (cases "x < ir_next f")
    case True
    then show ?thesis using idx [of x] by blast
  next
    case False
    then show ?thesis using nx by (metis le_add_diff_inverse less_diff_conv2 not_le add.commute)
  qed
  have ft': "(\<exists>m < length ?ps. x = snd (?ps ! m) \<and> k = ir_next f + m) \<or> x \<notin> snd ` set ?ps \<and> ft_of f x = Some k \<and> k < ir_next f"
    if "ft_of f' x = Some k" for x k
    using cases [of x]
  proof (elim disjE exE conjE)
    fix m assume m: "m < length ?ps" "x = snd (?ps ! m)"
    then show ?thesis using moved [OF m(1)] that by (auto simp: ft_of_def split: option.splits)
  next
    assume x: "x < ir_next f" "x \<notin> snd ` set ?ps"
    then have "ft_of f x = Some k" using same [OF x] that by (simp add: ft_of_def)
    then show ?thesis using x closed less by (auto simp: ft_closed_def)
  next
    fix m assume "m < length ?ps" "x = ir_next f + m"
    then show ?thesis using new [of m] that by (simp add: ft_of_def jump_to_def)
  next
    assume "ir_next f' \<le> x"
    then show ?thesis using fr' that by (simp add: ir_fresh_def ft_of_def)
  qed
  show "i = j" if a: "ft_of f' i = Some k" and b: "ft_of f' j = Some k"
  proof (cases "k < ir_next f")
    case True
    have *: "x = hd (fallthrough_from ptr f k)" if "ft_of f' x = Some k" for x
    proof -
      have x: "x \<notin> snd ` set ?ps" "ft_of f x = Some k" using ft' [OF that] True by auto
      then have "x \<in> set (fallthrough_from ptr f k)"
        using getInstructions_set [OF fresh, of ptr] by (auto simp: fallthrough_from_def ft_of_def split: option.splits)
      moreover have "x \<notin> set (tl (fallthrough_from ptr f k))" using x(1) reroutes_set [of k x ptr f] by force
      ultimately show ?thesis by (cases "fallthrough_from ptr f k") auto
    qed
    show ?thesis using * [OF a] * [OF b] by simp
  next
    case False
    then show ?thesis using ft' [OF a] ft' [OF b] by auto
  qed
  show "\<exists>x. ir_insns f' i = Some (n\<lparr>i_ft := x\<rparr>) \<and> (x = None \<longleftrightarrow> i_ft n = None)" if n: "ir_insns f i = Some n"
  proof (cases "i \<in> snd ` set ?ps")
    case True
    then obtain m where m: "m < length ?ps" "i = snd (?ps ! m)" using idx [of i] by blast
    have "i_ft n \<noteq> None" using src [of "?ps ! m"] m n by (simp add: ft_of_def)
    then show ?thesis using moved [OF m(1)] m(2) n by auto
  next
    case False
    then show ?thesis using same [of i] less [of i] n by (intro exI [of _ "i_ft n"]) simp
  qed
  show "falls_to bits f' i k" if k: "ft_of f i = Some k"
  proof (cases "i \<in> snd ` set ?ps")
    case True
    then obtain m where m: "m < length ?ps" "i = snd (?ps ! m)" using idx [of i] by blast
    have "fst (?ps ! m) = k" using src [of "?ps ! m"] m k by simp
    moreover have "ft_of f' i = Some (ir_next f + m)" 
      using moved [OF m(1)] m(2) src [of "?ps ! m"] m(1) by (auto simp: ft_of_def)
    ultimately show ?thesis using new [OF m(1)] by (simp add: falls_to_def)
  next
    case False
    have "ir_insns f i \<noteq> None" using k by (auto simp: ft_of_def split: option.splits)
    then have "ft_of f' i = Some k" using same [of i] less [of i] False k by (simp add: ft_of_def)
    then show ?thesis by (simp add: falls_to_def)
  qed
  show "\<exists>t. n = jump_to bits t" if "ir_insns f i = None" "ir_insns f' i = Some n"
    using cases [of i]
  proof (elim disjE exE conjE)
    fix m assume "m < length ?ps" "i = snd (?ps ! m)"
    then show ?thesis using src [of "?ps ! m"] that by auto
  next
    assume "i < ir_next f" "i \<notin> snd ` set ?ps"
    then show ?thesis using same that by simp
  next
    fix m assume "m < length ?ps" "i = ir_next f + m"
    then show ?thesis using new [of m] that by auto
  next
    assume "ir_next f' \<le> i"
    then show ?thesis using fr' that by (simp add: ir_fresh_def)
  qed
qed

subsection \<open>Prefixes\<close>

lemma fix_prefix_Inr:
  assumes "fix_prefix asmb dec bits i f = Inr f'"
  shows "ir_next f' = ir_next f \<and> (\<forall>j. \<exists>t. ir_insns f' j = map_option (\<lambda>n. n\<lparr>i_text := t n\<rparr>) (ir_insns f j))"
proof -
  have "\<exists>t. x = map_option (\<lambda>n. n\<lparr>i_text := t n\<rparr>) x" for x :: "insn option"
    by (rule exI [of _ i_text]) (cases x; simp)
  then show ?thesis
    using assms by (auto simp: fix_prefix_def Let_def set_bits_def bindR_eq_Inr split: if_splits)
qed

lemma fix_prefixes_Inr:
  assumes "foldR (fix_prefix asmb dec bits) xs f = Inr f'"
  shows "ir_next f' = ir_next f \<and> (\<forall>j. \<exists>t. ir_insns f' j = map_option (\<lambda>n. n\<lparr>i_text := t n\<rparr>) (ir_insns f j))"
  using assms
proof (induction xs arbitrary: f)
  case Nil
  have "\<exists>t. x = map_option (\<lambda>n. n\<lparr>i_text := t n\<rparr>) x" for x :: "insn option"
    by (rule exI [of _ i_text]) (cases x; simp)
  then show ?case using Nil by simp
next
  case (Cons i xs)
  then obtain g where g: "fix_prefix asmb dec bits i f = Inr g" "foldR (fix_prefix asmb dec bits) xs g = Inr f'"
    by (auto simp: bindR_eq_Inr)
  note 1 = fix_prefix_Inr [OF g(1)] and 2 = Cons.IH [OF g(2)]
  have "\<exists>t. ir_insns f' j = map_option (\<lambda>n. n\<lparr>i_text := t n\<rparr>) (ir_insns f j)" for j
  proof -
    obtain t u where "ir_insns g j = map_option (\<lambda>n. n\<lparr>i_text := t n\<rparr>) (ir_insns f j)"
      "ir_insns f' j = map_option (\<lambda>n. n\<lparr>i_text := u n\<rparr>) (ir_insns g j)" using 1 2 by meson
    then show ?thesis
      by (intro exI [of _ "\<lambda>n. u (n\<lparr>i_text := t n\<rparr>)"]) (cases "ir_insns f j"; simp)
  qed
  then show ?case using 1 2 by simp
qed

subsection \<open>Exits for all branches\<close>

lemma no_fallthroughs:
  fixes hb jb :: "byte list" and ptr :: "iid \<Rightarrow> nat" and asmb :: "asm \<Rightarrow> byte list" and dec :: "byte list \<Rightarrow> decoded"
  assumes "ir_fresh f"
  defines "h \<equiv> FixNoFallthroughs asmb dec (jump_with hb) (jump_with jb) ptr f"
  shows "ir_insns h i =
      (if i = ir_next f then Some ((new_insn (DataBits hb))\<lparr>i_ft := Some (Suc (ir_next f))\<rparr>)
       else if i = Suc (ir_next f) then Some (jump_to jb (ir_next f))
       else map_option (with_exits asmb dec (ir_next f)) (ir_insns f i))"
    "ir_fresh h"
proof -
  let ?h = "ir_next f" and ?j = "Suc (ir_next f)"
  define g where "g = set_tgt ?j (Some ?h) (set_ft ?h (Some ?j) (snd (jump_with jb None (snd (jump_with hb None f)))))"
  have g: "ir_next g = Suc (Suc (ir_next f))" "ir_insns g i = (if i = ?h then Some ((new_insn (DataBits hb))\<lparr>i_ft := Some ?j\<rparr>)
      else if i = ?j then Some (jump_to jb ?h) else ir_insns f i)" for i
    by (simp_all add: g_def jump_with_None jump_to_def)
  have gf: "ir_fresh g" using assms(1) by (auto simp: ir_fresh_def g)
  have "\<forall>k \<in> set (getInstructions ptr g). ir_insns g k \<noteq> None" using getInstructions_set [OF gf, of ptr] by auto
  from fix_no_fallthroughs [OF getInstructions_distinct this, of asmb dec ?h ?j]
  have h: "ir_next h = ir_next g"
    "ir_insns h i = (if i \<in> set (getInstructions ptr g) \<and> i \<noteq> ?h \<and> i \<noteq> ?j then map_option (with_exits asmb dec ?h) (ir_insns g i)
       else ir_insns g i)" for i
    unfolding h_def FixNoFallthroughs_def g_def by (simp_all add: jump_with_None Let_def)
  have "i \<in> set (getInstructions ptr g) \<longleftrightarrow> ir_insns g i \<noteq> None" for i using getInstructions_set [OF gf] by auto
  then show "ir_insns h i =
      (if i = ir_next f then Some ((new_insn (DataBits hb))\<lparr>i_ft := Some (Suc (ir_next f))\<rparr>)
       else if i = Suc (ir_next f) then Some (jump_to jb (ir_next f))
       else map_option (with_exits asmb dec (ir_next f)) (ir_insns f i))" for i
    by (auto simp: h(2) g(2))
  then show "ir_fresh h" using assms(1) by (auto simp: ir_fresh_def h(1) g(1))
qed

lemma with_exits_sel [simp]:
  "text_bytes asmb (with_exits asmb dec hlt n) = text_bytes asmb n" "i_ft n = Some k \<Longrightarrow> i_ft (with_exits asmb dec hlt n) = Some k"
  "i_tgt n = Some k \<Longrightarrow> i_tgt (with_exits asmb dec hlt n) = Some k"
  by (auto simp: with_exits_def text_bytes_def split: if_splits)

lemma with_exits_Some:
  "dc_conditional (dec (text_bytes asmb n)) \<Longrightarrow> \<exists>y. i_ft (with_exits asmb dec hlt n) = Some y"
  "direct_branch (dec (text_bytes asmb n)) \<Longrightarrow> \<exists>y. i_tgt (with_exits asmb dec hlt n) = Some y"
  by (simp_all add: with_exits_def)

lemma with_exits_ft: "i_ft (with_exits asmb dec hlt n) = Some k \<Longrightarrow> k \<noteq> hlt \<Longrightarrow> i_ft n = Some k"
  by (auto simp: with_exits_def split: if_splits)

lemma jump_to_sel [simp]: "text_bytes asmb (jump_to bits t) = bits" "i_ft (jump_to bits t) = None" "i_tgt (jump_to bits t) = Some t"
  by (simp_all add: jump_to_def)

lemma no_fallthroughs_closed:
  assumes "ir_fresh f" "ft_closed f"
  shows "ft_closed (FixNoFallthroughs asmb dec (jump_with hb) (jump_with jb) ptr f)"
  unfolding ft_closed_def
proof (intro allI impI)
  let ?h = "FixNoFallthroughs asmb dec (jump_with hb) (jump_with jb) ptr f"
  note get = no_fallthroughs(1) [OF assms(1), of asmb dec hb jb ptr]
  fix i k assume k: "ft_of ?h i = Some k"
  have "ir_insns f k \<noteq> None" if "ir_insns f i = Some n" "i_ft n = Some k" for n
  proof -
    have "ft_of f i = Some k" using that by (simp add: ft_of_def)
    then show ?thesis using assms(2) unfolding ft_closed_def by blast
  qed
  then have "k = ir_next f \<or> k = Suc (ir_next f) \<or> ir_insns f k \<noteq> None"
    using k by (cases "ir_insns f i") (auto simp: ft_of_def get dest!: with_exits_ft split: if_splits)
  then show "ir_insns ?h k \<noteq> None" by (auto simp: get)
qed

lemma FixFallthroughs_ok:
  assumes run: "FixFallthroughs asmb dec is_x86 bits (jump_with hb) (jump_with jb) ptr f = Inr f'"
    and fresh: "ir_fresh f" and closed: "ft_closed f"
    and dec: "\<not> dc_conditional (dec jb)" "\<not> direct_branch (dec hb)"
  shows "ft_of f' i = Some k \<Longrightarrow> ft_of f' j = Some k \<Longrightarrow> i = j"
    "ir_insns f' i = Some n \<Longrightarrow> (dc_conditional (dec (text_bytes asmb n)) \<longrightarrow> i_ft n \<noteq> None) \<and>
       (direct_branch (dec (text_bytes asmb n)) \<longrightarrow> i_tgt n \<noteq> None)"
    "ir_insns f i = Some n \<Longrightarrow> (\<forall>k. i_ft n = Some k \<longrightarrow> falls_to jb f' i k) \<and> (\<forall>k. i_tgt n = Some k \<longrightarrow> tgt_of f' i = Some k)"
proof -
  obtain g where g: "FixTwoByteWithPrefix asmb dec is_x86 bits ptr f = Inr g"
    and f': "f' = FixMultipleFallthroughs (jump_with jb) ptr (FixNoFallthroughs asmb dec (jump_with hb) (jump_with jb) ptr g)"
    using run by (auto simp: FixFallthroughs_def mapR_def bindR_eq_Inr)
  have t: "ir_next g = ir_next f \<and> (\<forall>j. \<exists>t. ir_insns g j = map_option (\<lambda>n. n\<lparr>i_text := t n\<rparr>) (ir_insns f j))"
  proof (cases is_x86)
    case True
    then show ?thesis using g fix_prefixes_Inr by (simp add: FixTwoByteWithPrefix_def)
  next
    case False
    have "\<exists>t. x = map_option (\<lambda>n. n\<lparr>i_text := t n\<rparr>) x" for x :: "insn option"
      by (rule exI [of _ i_text]) (cases x; simp)
    then show ?thesis using False g by (simp add: FixTwoByteWithPrefix_def)
  qed
  have gN: "ir_insns g x = None \<longleftrightarrow> ir_insns f x = None" for x using t by (metis option.map_disc_iff)
  have gS: "\<exists>m. ir_insns g x = Some m \<and> i_ft m = i_ft n \<and> i_tgt m = i_tgt n" if "ir_insns f x = Some n" for x n
    using t [THEN conjunct2, rule_format, of x] that by auto
  have gft: "ft_of g x = ft_of f x" for x using gN [of x] gS [of x] by (cases "ir_insns f x") (auto simp: ft_of_def)
  have gf: "ir_fresh g" using fresh t gN by (simp add: ir_fresh_def)
  have gc: "ft_closed g" using closed by (simp add: ft_closed_def gft gN)
  define h where "h = FixNoFallthroughs asmb dec (jump_with hb) (jump_with jb) ptr g"
  note hget = no_fallthroughs(1) [OF gf, of asmb dec hb jb ptr, folded h_def]
  have hf: "ir_fresh h" using no_fallthroughs(2) [OF gf] by (simp add: h_def)
  have hc: "ft_closed h" using no_fallthroughs_closed [OF gf gc] by (simp add: h_def)
  note m = multiple_fallthroughs [OF hf hc, where bits = jb and ptr = ptr, folded f' [folded h_def]]
  show "ft_of f' i = Some k \<Longrightarrow> ft_of f' j = Some k \<Longrightarrow> i = j" by (rule m(1))
  have exits: "(dc_conditional (dec (text_bytes asmb n)) \<longrightarrow> i_ft n \<noteq> None) \<and> (direct_branch (dec (text_bytes asmb n)) \<longrightarrow> i_tgt n \<noteq> None)"
    if "ir_insns h i = Some n" for i n
    using that dec by (auto simp: hget with_exits_Some split: if_splits)
  show "(dc_conditional (dec (text_bytes asmb n)) \<longrightarrow> i_ft n \<noteq> None) \<and> (direct_branch (dec (text_bytes asmb n)) \<longrightarrow> i_tgt n \<noteq> None)"
    if n: "ir_insns f' i = Some n"
  proof (cases "ir_insns h i")
    case None
    then show ?thesis using m(4) [OF None n] dec by auto
  next
    case (Some n0)
    then obtain x where "n = n0\<lparr>i_ft := x\<rparr>" "x = None \<longleftrightarrow> i_ft n0 = None" using m(2) [OF Some] n by auto
    then show ?thesis using exits [OF Some] by auto
  qed
  show "(\<forall>k. i_ft n = Some k \<longrightarrow> falls_to jb f' i k) \<and> (\<forall>k. i_tgt n = Some k \<longrightarrow> tgt_of f' i = Some k)" if n: "ir_insns f i = Some n"
  proof -
    obtain n1 where n1: "ir_insns g i = Some n1" "i_ft n1 = i_ft n" "i_tgt n1 = i_tgt n" using gS [OF n] by blast
    have "i < ir_next g" using gf n1(1) by (metis ir_fresh_def not_le option.distinct(1))
    then have h: "ir_insns h i = Some (with_exits asmb dec (ir_next g) n1)" using n1(1) by (simp add: hget)
    obtain x where x: "ir_insns f' i = Some ((with_exits asmb dec (ir_next g) n1)\<lparr>i_ft := x\<rparr>)" using m(2) [OF h] by blast
    have "falls_to jb f' i k" if "i_ft n = Some k" for k
      by (rule m(3)) (use that n1 h in \<open>simp add: ft_of_def\<close>)
    moreover have "tgt_of f' i = Some k" if "i_tgt n = Some k" for k using that n1 x by (simp add: tgt_of_def)
    ultimately show ?thesis by blast
  qed
qed

section \<open>Properties\<close>

text \<open>C7: After the three phases that prepare the program for placement
  (\<open>FixTwoByteWithPrefix\<close>, \<open>FixNoFallthroughs\<close>, \<open>FixMultipleFallthroughs\<close>) no two instructions
  have the same fallthrough, every conditional branch has a fallthrough and every direct branch
  a target; and each instruction of the program goes on where it did before: its target is the
  same, and its fallthrough is reached at once or by a jump of the architecture that leads
  there. The decoder only has to know that this jump is not conditional and the architecture's
  halt no direct branch.\<close>

theorem FixFallthroughs_correct:
  assumes "FixFallthroughs asmb dec is_x86 bits (jump_with hb) (jump_with jb) ptr f = Inr f'"
    and "ir_fresh f" and "ft_closed f"
    and "\<not> dc_conditional (dec jb)" and "\<not> direct_branch (dec hb)"
  shows "(\<forall>i j k. ft_of f' i = Some k \<and> ft_of f' j = Some k \<longrightarrow> i = j) \<and>
    (\<forall>i n. ir_insns f' i = Some n \<longrightarrow> (dc_conditional (dec (text_bytes asmb n)) \<longrightarrow> i_ft n \<noteq> None) \<and>
       (direct_branch (dec (text_bytes asmb n)) \<longrightarrow> i_tgt n \<noteq> None)) \<and>
    (\<forall>i n. ir_insns f i = Some n \<longrightarrow> (\<forall>k. i_ft n = Some k \<longrightarrow> falls_to jb f' i k) \<and>
       (\<forall>k. i_tgt n = Some k \<longrightarrow> tgt_of f' i = Some k))"
  using FixFallthroughs_ok [OF assms] by blast

definition sample_dec :: "byte list \<Rightarrow> decoded" where
  "sample_dec bs = (let b = first_byte (strip_prefixes 64 bs) in
     \<lparr>dc_branch = b \<in> {0x74, 0xe9, 0xc3}, dc_return = b = 0xc3, dc_conditional = b = 0x74,
      dc_operands = if b \<in> {0x74, 0xe9} then 1 else 0, dc_constant = b \<in> {0x74, 0xe9}\<rparr>)"

definition sample_ir :: ir where
  "sample_ir = \<lparr>ir_insns = [0 \<mapsto> (new_insn (DataBits [0x2e, 0x74, 5]))\<lparr>i_tgt := Some 2\<rparr>,
      1 \<mapsto> (new_insn (DataBits [0x90]))\<lparr>i_ft := Some 2\<rparr>, 2 \<mapsto> new_insn (DataBits [0xc3]),
      3 \<mapsto> (new_insn (DataBits [0x90]))\<lparr>i_ft := Some 2\<rparr>], ir_next = 4\<rparr>"

lemma sample_ir_run:
  "case FixFallthroughs (\<lambda>_. []) sample_dec True 64 (jump_with [0xf4]) (jump_with [0xe9, 0, 0, 0, 0]) id sample_ir of
     Inr f' \<Rightarrow> map (ft_of f') [0, 1, 2, 3, 4] = [Some 4, Some 2, None, Some 6, Some 5] \<and>
       map (data_bits (\<lambda>_. []) f') [0, 4, 5, 6] = [[0x74, 0], [0xf4], [0xe9, 0, 0, 0, 0], [0xe9, 0, 0, 0, 0]]
   | Inl _ \<Rightarrow> False"
  by code_simp

theorem FixFallthroughs_correct_witness:
  "\<exists>f'. FixFallthroughs (\<lambda>_. []) sample_dec True 64 (jump_with [0xf4]) (jump_with [0xe9, 0, 0, 0, 0]) id sample_ir = Inr f' \<and>
     falls_to [0xe9, 0, 0, 0, 0] f' 3 2 \<and> tgt_of f' 0 = Some 2 \<and> ft_of f' 1 \<noteq> ft_of f' 3"
proof -
  obtain f' where run: "FixFallthroughs (\<lambda>_. []) sample_dec True 64 (jump_with [0xf4]) (jump_with [0xe9, 0, 0, 0, 0]) id sample_ir = Inr f'"
    and ft: "ft_of f' 1 = Some 2"
    using sample_ir_run by (auto split: sum.splits)
  have "ir_fresh sample_ir" by (auto simp: ir_fresh_def sample_ir_def)
  moreover have "ft_closed sample_ir" by (auto simp: ft_closed_def ft_of_def sample_ir_def split: if_splits)
  moreover have "\<not> dc_conditional (sample_dec [0xe9, 0, 0, 0, 0])" "\<not> direct_branch (sample_dec [0xf4])" by code_simp+
  ultimately have *: "(\<forall>i j k. ft_of f' i = Some k \<and> ft_of f' j = Some k \<longrightarrow> i = j)"
    "\<forall>i n. ir_insns sample_ir i = Some n \<longrightarrow> (\<forall>k. i_ft n = Some k \<longrightarrow> falls_to [0xe9, 0, 0, 0, 0] f' i k) \<and>
       (\<forall>k. i_tgt n = Some k \<longrightarrow> tgt_of f' i = Some k)"
    using FixFallthroughs_correct [OF run] by blast+
  have "falls_to [0xe9, 0, 0, 0, 0] f' 3 2" using *(2) [rule_format, of 3] by (simp add: sample_ir_def)
  moreover have "tgt_of f' 0 = Some 2" using *(2) [rule_format, of 0] by (simp add: sample_ir_def)
  moreover have "ft_of f' 1 \<noteq> ft_of f' 3" using *(1) [rule_format, of 1 2 3] ft by auto
  ultimately show ?thesis using run by blast
qed

section \<open>The form of a branch without its prefixes\<close>

text \<open>The two tables lack \<open>jo\<close> and \<open>ja\<close>; the other branches come out in the form the sizer expects.\<close>

lemma normal_branch_form:
  assumes "normal_branch bits data = Inr bs"
    and "first_byte (strip_prefixes bits data) \<in> set jmp8bitOffset \<union> {0xe8, 0xe9} \<or>
      first_byte (strip_prefixes bits data) = 0x0f \<and> first_byte (tl (strip_prefixes bits data)) \<in> set jcc32bitOffset"
  shows "short_branch bs \<or> branch_opcode bs"
proof -
  have s: "b \<in> set jmp8bitOffset \<Longrightarrow> short_branch [b, 0]" for b by (auto simp: jmp8bitOffset_def short_branch_def)
  have j: "c \<in> set jcc32bitOffset \<Longrightarrow> branch_opcode [0x0f, c, 0, 0, 0, 0]" for c by (auto simp: jcc32bitOffset_def branch_opcode_def)
  have o: "branch_opcode [0xe8, 0, 0, 0, 0]" "branch_opcode [0xe9, 0, 0, 0, 0]" by (simp_all add: branch_opcode_def)
  show ?thesis using assms s j o by (auto simp: normal_branch_def Let_def split: if_splits)
qed

text \<open>Of a \<open>ja\<close> with a 16-bit displacement four bytes are left, which are no instruction.\<close>

lemma ja_rel16_broken:
  "normal_branch 32 [0x66, 0x0f, 0x87, lo, hi] = Inr [0x0f, 0x87, lo, hi]"
  by (simp add: normal_branch_def branch_prefixes_def jmp8bitOffset_def jcc32bitOffset_def first_byte_def)

text \<open>
  How many bits of the counter \<open>loop\<close> and \<open>jcxz\<close> use: the machine's address size, which
  the prefix \<open>0x67\<close> halves.
\<close>

definition counter_width :: "nat \<Rightarrow> byte list \<Rightarrow> nat option" where
  "counter_width bits bs =
     (case bs of
        [op, _] \<Rightarrow> if 0xe0 \<le> op \<and> op \<le> 0xe3 then Some bits else None
      | [p, op, _] \<Rightarrow> if p = 0x67 \<and> 0xe0 \<le> op \<and> op \<le> 0xe3 then Some (bits div 2) else None
      | _ \<Rightarrow> None)"

theorem loop_counter_changes:
  assumes "0xe0 \<le> op" "op \<le> 0xe3"
  shows "\<exists>bs. normal_branch 64 [0x67, op, d] = Inr bs \<and> counter_width 64 [0x67, op, d] = Some 32 \<and> counter_width 64 bs = Some 64"
proof -
  have "op = 0xe0 \<or> op = 0xe1 \<or> op = 0xe2 \<or> op = 0xe3"
    using assms by (simp add: word_le_nat_alt word_unat_eq_iff) arith
  then show ?thesis
    by (elim disjE) (simp_all add: normal_branch_def branch_prefixes_def jmp8bitOffset_def jcc32bitOffset_def first_byte_def counter_width_def)
qed

end
