(* ===== verification/Zipr_Scoops.thy ===== *)
theory Zipr_Scoops
  imports Zipr_MemorySpace
begin

text \<open>
  The regions of the new program (\<open>FindFreeRanges\<close>, \<open>CreateExecutableScoops\<close>,
  \<open>PlaceUnplacedScoops\<close>, \<open>FindScoop\<close> and \<open>UpdateScoops\<close> of \<open>zipr/src/zipr.cpp\<close>): the
  executable sections, the gaps between regions and the space behind the program are made
  free for code, and once the code is written the regions are cut down to the bytes in use.

  A scoop (\<open>DataScoop_t\<close>) is an object of the IR; here a number names it. Sets of scoops are
  iterated in the order of the objects' addresses, \<open>ptr\<close>. The sections of the input file are
  read by a library and given as a list.
\<close>

section \<open>State\<close>

type_synonym sid = nat

record scoop =
  sc_name :: string
  sc_start :: addr
  sc_end :: addr                     \<comment> \<open>its last byte\<close>
  sc_perms :: byte                   \<comment> \<open>4: read, 2: write, 1: execute\<close>
  sc_relro :: bool
  sc_contents :: "byte list"
  sc_registered :: bool              \<comment> \<open>read from the database: \<open>getBaseID\<close> is not \<open>NOT_IN_DATABASE\<close>\<close>

record section_t =
  sec_addr :: addr
  sec_size :: addr
  sec_loadable :: bool
  sec_exec :: bool

record zscoops =
  zs_scoops :: "sid \<rightharpoonup> scoop"         \<comment> \<open>\<open>getDataScoops\<close>\<close>
  zs_next :: sid
  zs_zipr :: "sid list"              \<comment> \<open>\<open>m_zipr_scoops\<close>\<close>
  zs_ms :: memory_space
  zs_new_space :: addr               \<comment> \<open>\<open>start_of_new_space\<close>\<close>

definition isWriteable :: "scoop \<Rightarrow> bool" where
  "isWriteable s \<longleftrightarrow> sc_perms s AND 2 = 2"

definition isExecuteable :: "scoop \<Rightarrow> bool" where
  "isExecuteable s \<longleftrightarrow> sc_perms s AND 1 = 1"

definition scoop_size :: "scoop \<Rightarrow> addr" where
  "scoop_size s = sc_end s - sc_start s + 1"

definition the_scoop :: "zscoops \<Rightarrow> sid \<Rightarrow> scoop" where
  "the_scoop z i = the (zs_scoops z i)"

definition getDataScoops :: "(sid \<Rightarrow> nat) \<Rightarrow> zscoops \<Rightarrow> sid list" where
  "getDataScoops ptr z = sort_key ptr (List.filter (\<lambda>i. zs_scoops z i \<noteq> None) [0..<zs_next z])"

definition addNewDataScoop :: "scoop \<Rightarrow> zscoops \<Rightarrow> sid \<times> zscoops" where
  "addNewDataScoop s z = (zs_next z, z\<lparr>zs_scoops := (zs_scoops z)(zs_next z \<mapsto> s), zs_next := Suc (zs_next z)\<rparr>)"

definition new_scoop :: "string \<Rightarrow> addr \<Rightarrow> addr \<Rightarrow> byte list \<Rightarrow> scoop" where
  "new_scoop name s e bs = \<lparr>sc_name = name, sc_start = s, sc_end = e, sc_perms = 5, sc_relro = False,
     sc_contents = bs, sc_registered = False\<rparr>"

definition set_range :: "addr \<Rightarrow> addr \<Rightarrow> scoop \<Rightarrow> scoop" where
  "set_range s e = (\<lambda>c. c\<lparr>sc_start := s, sc_end := e\<rparr>)"

definition update_scoop :: "sid \<Rightarrow> (scoop \<Rightarrow> scoop) \<Rightarrow> zscoops \<Rightarrow> zscoops" where
  "update_scoop i u z = z\<lparr>zs_scoops := (zs_scoops z)(i := map_option u (zs_scoops z i))\<rparr>"

definition on_zs_ms :: "(memory_space \<Rightarrow> memory_space result) \<Rightarrow> zscoops \<Rightarrow> zscoops result" where
  "on_zs_ms f z = bindR (f (zs_ms z)) (\<lambda>ms. Inr (z\<lparr>zs_ms := ms\<rparr>))"

section \<open>Rounding\<close>

lemma and_page: "unat (x AND - 4096 :: addr) = unat x - unat x mod 4096"
proof -
  have m: "- 4096 = NOT (mask 12 :: addr)" by (simp add: mask_eq_exp_minus_1)
  have "x AND - 4096 = push_bit 12 (drop_bit 12 x)"
    unfolding m by (rule bit_word_eqI) (auto simp: bit_simps)
  moreover have "unat (push_bit 12 w) = take_bit 64 (push_bit 12 (unat w))" for w :: addr
    by (simp only: unsigned_push_bit_eq) simp
  moreover have "unat (drop_bit n x) = unat x div 2 ^ n" for n unfolding unat_drop_bit_eq by (rule drop_bit_eq_div)
  then have "unat (drop_bit 12 x) = unat x div 4096" by simp
  ultimately have "unat (x AND - 4096) = take_bit 64 (unat x div 4096 * 4096)" by (simp only:) (simp add: push_bit_eq_mult)
  also have "\<dots> = unat x div 4096 * 4096"
  proof -
    have "unat x div 4096 * 4096 \<le> unat x" by simp
    then show ?thesis using unat_addr_less [of x] by (intro take_bit_nat_eq_self) linarith
  qed
  finally show ?thesis by (simp add: minus_mod_eq_div_mult)
qed

definition page_round_up :: "addr \<Rightarrow> addr" where
  "page_round_up x = (x + 4095) AND (NOT 4095)"

definition page_round_down :: "addr \<Rightarrow> addr" where
  "page_round_down x = (x - 4095) AND (NOT 4095)"

definition align_by :: "addr \<Rightarrow> addr \<Rightarrow> addr" where
  "align_by x by' = x AND NOT (by' - 1)"

definition align_up_to :: "addr \<Rightarrow> addr \<Rightarrow> addr" where
  "align_up_to x by' = align_by (x + by' - 1) by'"

text \<open>\<open>to_string\<close> of a number, and a string of null characters.\<close>

fun decimal :: "nat \<Rightarrow> string" where
  "decimal n = (if n < 10 then [''0123456789'' ! n] else decimal (n div 10) @ [''0123456789'' ! (n mod 10)])"

declare decimal.simps [simp del]

definition zeros :: "nat \<Rightarrow> addr \<Rightarrow> byte list result" where
  "zeros max_size n = (if max_size < unat n then Inl LengthError else Inr (replicate (unat n) 0))"

section \<open>Executable sections\<close>

text \<open>\<open>map::insert\<close> keeps the first section of an address.\<close>

definition ordered_sections :: "section_t list \<Rightarrow> section_t list" where
  "ordered_sections secs = sort_key sec_addr (rev (foldr (\<lambda>s xs. if sec_addr s \<in> sec_addr ` set xs then xs else s # xs) (rev secs) []))"

text \<open>
  The inner loop: the last section looked at, and the ones from where it stopped. Having
  passed a section that is not loadable it reads the next one without asking for the end.
\<close>

fun exec_run :: "section_t list \<Rightarrow> (section_t \<times> section_t list) result" where
  "exec_run [] = Inl NullDeref"
| "exec_run (s # rest) =
     (if \<not> sec_loadable s then exec_run rest
      else if \<not> sec_exec s then Inr (s, s # rest)
      else if rest = [] then Inr (s, [])
      else exec_run rest)"

lemma exec_run_shorter: "exec_run ss = Inr (s, rest) \<Longrightarrow> length rest \<le> length ss"
  by (induction ss rule: exec_run.induct) (auto split: if_splits)

lemma exec_run_shorter_exec:
  "exec_run (s # ss) = Inr (s', rest) \<Longrightarrow> sec_loadable s \<Longrightarrow> sec_exec s \<Longrightarrow> length rest \<le> length ss"
  by (auto split: if_splits dest: exec_run_shorter)

definition add_text_scoop :: "nat \<Rightarrow> nat \<Rightarrow> addr \<Rightarrow> addr \<Rightarrow> zscoops \<Rightarrow> zscoops result" where
  "add_text_scoop max_size count text_start text_end z =
     bindR (zeros max_size (text_end - text_start + 1)) (\<lambda>text_contents.
     let text_name = (if count = 0 then ''.text'' else ''.zipr_text_'' @ decimal (Suc count));
         (text_scoop, z) = addNewDataScoop (new_scoop text_name text_start text_end text_contents) z
     in on_zs_ms (AddFreeRange_original (mk_range text_start text_end) True) (z\<lparr>zs_zipr := text_scoop # zs_zipr z\<rparr>))"

function CreateExecutableScoops :: "nat \<Rightarrow> nat \<Rightarrow> section_t list \<Rightarrow> zscoops \<Rightarrow> zscoops result" where
  "CreateExecutableScoops max_size count [] z = Inr z"
| "CreateExecutableScoops max_size count (s # ss) z =
     (if \<not> sec_loadable s \<or> \<not> sec_exec s then CreateExecutableScoops max_size count ss z
      else
        (case exec_run (s # ss) of
           Inl e \<Rightarrow> Inl e
         | Inr (l, rest) \<Rightarrow>
             let text_end = (if rest = [] then page_round_up (sec_addr l + sec_size l - 1) - 1 else sec_addr l - 1)
             in bindR (add_text_scoop max_size count (sec_addr s) text_end z) (CreateExecutableScoops max_size (Suc count) rest)))"
  by pat_completeness auto
termination
  by (relation "measure (\<lambda>(max_size, count, ss, z). length ss)")
    (auto simp del: exec_run.simps dest: exec_run_shorter_exec)

section \<open>Gaps\<close>

definition max_section_end :: "section_t list \<Rightarrow> addr" where
  "max_section_end secs = fold (\<lambda>s m. let start = sec_addr s; e = sec_size s + (start - 1) in
     if start \<noteq> 0 \<and> m < e then e else m) secs 0"

text \<open>Pinned scoops by address, without executable ones of the input.\<close>

definition sorted_scoops :: "(sid \<Rightarrow> nat) \<Rightarrow> zscoops \<Rightarrow> sid list" where
  "sorted_scoops ptr z = sort_key (\<lambda>i. sc_start (the_scoop z i))
     (List.filter (\<lambda>i. sc_start (the_scoop z i) \<noteq> 0 \<and> \<not> (isExecuteable (the_scoop z i) \<and> i \<notin> set (zs_zipr z)))
        (getDataScoops ptr z))"

definition padding_scoop :: "nat \<Rightarrow> addr \<Rightarrow> addr \<Rightarrow> zscoops \<Rightarrow> zscoops result" where
  "padding_scoop max_size s e z =
     bindR (zeros max_size (e - s + 1)) (\<lambda>contents.
     let (i, z) = addNewDataScoop (new_scoop (''zipr_scoop_'' @ decimal (unat s)) s e contents) z
     in on_zs_ms (AddFreeRange (mk_range s e)) (z\<lparr>zs_zipr := i # zs_zipr z\<rparr>))"

text \<open>The size is the start minus the end, as an \<open>unsigned int\<close>.\<close>

definition pad_gap :: "nat \<Rightarrow> uint32 \<Rightarrow> scoop \<Rightarrow> scoop \<Rightarrow> zscoops \<Rightarrow> zscoops result" where
  "pad_gap max_size min_distance this next z =
     (let this_end = sc_end this; next_start = sc_start next in
      if next_start < this_end then Inr z
      else
        let s = (if isWriteable this then page_round_up (this_end + 1) else this_end + 1);
            e = (if isWriteable next then page_round_down (next_start - 1) else next_start - 1);
            new_padding_scoop_size = (ucast (s - e) :: uint32)
        in if min_distance < new_padding_scoop_size \<and> (\<not> isWriteable this \<or> \<not> isWriteable next)
           then padding_scoop max_size s e z else Inr z)"

fun pad_gaps :: "nat \<Rightarrow> uint32 \<Rightarrow> sid list \<Rightarrow> zscoops \<Rightarrow> zscoops result" where
  "pad_gaps max_size min_distance (i # j # is) z =
     bindR (pad_gap max_size min_distance (the_scoop z i) (the_scoop z j) z) (pad_gaps max_size min_distance (j # is))"
| "pad_gaps max_size min_distance _ z = Inr z"

section \<open>Scoops without an address\<close>

definition perms_key :: "scoop \<Rightarrow> nat" where
  "perms_key s = (if sc_relro s then 2 ^ 16 else 0) + unat (sc_perms s)"

definition place_scoop :: "sid \<Rightarrow> addr \<times> zscoops \<Rightarrow> addr \<times> zscoops" where
  "place_scoop i = (\<lambda>(max_addr, z).
     let m = align_up_to max_addr 16; s = the_scoop z i
     in (sc_end s + m + 1, update_scoop i (set_range (sc_start s + m) (sc_end s + m)) z))"

definition place_group :: "(sid \<Rightarrow> nat) \<Rightarrow> zscoops \<Rightarrow> nat \<Rightarrow> addr \<times> zscoops \<Rightarrow> addr \<times> zscoops" where
  "place_group ptr z0 k = (\<lambda>(max_addr, z).
     fold place_scoop (List.filter (\<lambda>i. sc_start (the_scoop z0 i) = 0 \<and> perms_key (the_scoop z0 i) = k) (getDataScoops ptr z0))
       (page_round_up max_addr, z))"

text \<open>\<open>pb\<close> and \<open>pe\<close> are the plugins' answers before and after.\<close>

definition PlaceUnplacedScoops :: "(sid \<Rightarrow> nat) \<Rightarrow> (addr \<Rightarrow> zscoops \<Rightarrow> addr \<times> zscoops) \<Rightarrow> (addr \<Rightarrow> zscoops \<Rightarrow> addr \<times> zscoops) \<Rightarrow>
    addr \<Rightarrow> zscoops \<Rightarrow> (addr \<times> zscoops) result" where
  "PlaceUnplacedScoops ptr pb pe max_addr z =
     (let (max_addr, z) = pb max_addr z;
          keys = sort (remdups (map (\<lambda>i. perms_key (the_scoop z i))
                   (List.filter (\<lambda>i. sc_start (the_scoop z i) = 0) (getDataScoops ptr z))));
          (max_addr, z) = fold (place_group ptr z) keys (max_addr, z)
      in assertR (list_all (\<lambda>i. sc_start (the_scoop z i) \<noteq> 0) (getDataScoops ptr z)) (\<lambda>_. Inr (pe max_addr z)))"

section \<open>All free space\<close>

definition add_textra :: "addr \<Rightarrow> zscoops \<Rightarrow> zscoops result" where
  "add_textra new_free_page z =
     (let (i, z) = addNewDataScoop (new_scoop ''textra'' new_free_page (- 1) []) z in
      bindR (on_zs_ms (AddFreeRange_original (mk_range new_free_page (- 1)) True) (z\<lparr>zs_zipr := i # zs_zipr z\<rparr>)) (\<lambda>z.
      Inr (z\<lparr>zs_new_space := new_free_page\<rparr>)))"

definition preallocate :: "sid \<Rightarrow> zscoops \<Rightarrow> zscoops result" where
  "preallocate i z = (let s = the_scoop z i in
     if \<not> sc_registered s then Inr z else on_zs_ms (PlopBytes (sc_start s) (sc_contents s)) z)"

definition FindFreeRanges :: "nat \<Rightarrow> uint32 \<Rightarrow> (sid \<Rightarrow> nat) \<Rightarrow> (addr \<Rightarrow> zscoops \<Rightarrow> addr \<times> zscoops) \<Rightarrow>
    (addr \<Rightarrow> zscoops \<Rightarrow> addr \<times> zscoops) \<Rightarrow> section_t list \<Rightarrow> zscoops \<Rightarrow> zscoops result" where
  "FindFreeRanges max_size min_distance ptr pb pe secs z =
     assertR (zs_zipr z = []) (\<lambda>_.
     let ss = ordered_sections secs in
     bindR (CreateExecutableScoops max_size 0 ss z) (\<lambda>z.
     let max_addr = max_section_end ss in
     bindR (pad_gaps max_size min_distance (sorted_scoops ptr z) z) (\<lambda>z.
     if zs_zipr z = [] then Inl NullDeref
     else assertR (fold (\<lambda>i m. max (sc_end (the_scoop z i)) m) (zs_zipr z) 0 \<le> max_addr) (\<lambda>_.
     bindR (PlaceUnplacedScoops ptr pb pe max_addr z) (\<lambda>(max_addr, z).
     bindR (add_textra (page_round_up max_addr) z) (\<lambda>z.
     foldR preallocate (getDataScoops ptr z) z))))))"

section \<open>The final contents\<close>

definition FindScoop :: "(sid \<Rightarrow> nat) \<Rightarrow> addr \<Rightarrow> zscoops \<Rightarrow> sid option" where
  "FindScoop ptr a z = find (\<lambda>i. sc_start (the_scoop z i) \<le> a \<and> a < sc_end (the_scoop z i)) (getDataScoops ptr z)"

text \<open>The first and the last busy address, 0 for none. The loop ends if \<open>e\<close> is not the last address of all.\<close>

fun scan_busy :: "nat \<Rightarrow> addr \<Rightarrow> addr \<Rightarrow> memory_space \<Rightarrow> addr \<times> addr \<Rightarrow> (addr \<times> addr) result" where
  "scan_busy 0 i e ms fl = Inl OutOfFuel"
| "scan_busy (Suc n) i e ms fl =
     (if i \<le> e then
        scan_busy n (i + 1) e ms
          (if \<not> IsByteFree i ms then (if fst fl = 0 then i else fst fl, i) else fl)
      else Inr fl)"

fun read_bytes :: "addr list \<Rightarrow> memory_space \<Rightarrow> byte list \<times> memory_space" where
  "read_bytes [] ms = ([], ms)"
| "read_bytes (a # as) ms = (let (b, ms) = ms_get a ms; (bs, ms) = read_bytes as ms in (b # bs, ms))"

definition remove_scoop :: "sid \<Rightarrow> zscoops \<Rightarrow> zscoops" where
  "remove_scoop i z = z\<lparr>zs_scoops := (zs_scoops z)(i := None), zs_zipr := removeAll i (zs_zipr z)\<rparr>"

text \<open>The region behind the program ends at the first byte of its last free range.\<close>

definition cut_textra :: "sid \<Rightarrow> zscoops \<Rightarrow> zscoops result" where
  "cut_textra i z =
     (if sc_name (the_scoop z i) = ''textra'' then
        let frit = FindFreeRange (- 1) (zs_ms z) in
        assertR (IsValidRange frit) (\<lambda>_. Inr (update_scoop i (\<lambda>c. c\<lparr>sc_end := r_start (the frit)\<rparr>) z))
      else Inr z)"

definition UpdateScoop :: "nat \<Rightarrow> sid \<Rightarrow> zscoops \<Rightarrow> zscoops result" where
  "UpdateScoop n i z =
     (if \<not> isExecuteable (the_scoop z i) then Inr z
      else
        bindR (cut_textra i z) (\<lambda>z.
        bindR (scan_busy n (sc_start (the_scoop z i)) (sc_end (the_scoop z i)) (zs_ms z) (0, 0)) (\<lambda>(first, last).
        if last = 0 \<or> first = 0 then Inr (remove_scoop i z)
        else
          let (bs, ms) = read_bytes (addrs first (Suc (unat (last - first)))) (zs_ms z)
          in Inr ((update_scoop i (\<lambda>c. (set_range first last c)\<lparr>sc_contents := bs\<rparr>) z)\<lparr>zs_ms := ms\<rparr>))))"

definition UpdateScoops :: "nat \<Rightarrow> (sid \<Rightarrow> nat) \<Rightarrow> zscoops \<Rightarrow> zscoops result" where
  "UpdateScoops n ptr z = foldR (UpdateScoop n) (sort_key ptr (zs_zipr z)) z"

section \<open>Cutting the regions down\<close>

definition busy_in :: "memory_space \<Rightarrow> addr \<Rightarrow> addr \<Rightarrow> addr set" where
  "busy_in ms s e = {a. s \<le> a \<and> a \<le> e \<and> \<not> IsByteFree a ms}"

text \<open>\<open>fl\<close> is the pair before the scan, \<open>r\<close> the one after it, \<open>B\<close> the busy addresses scanned.\<close>

definition scanned :: "addr set \<Rightarrow> addr \<times> addr \<Rightarrow> addr \<times> addr \<Rightarrow> bool" where
  "scanned B fl r \<longleftrightarrow> (if B = {} then r = fl
     else snd r \<in> B \<and> (\<forall>a \<in> B. a \<le> snd r) \<and>
       (if fst fl = 0 then fst r \<in> B \<and> (\<forall>a \<in> B. fst r \<le> a) else fst r = fst fl))"

lemma not_last: "i \<le> e \<Longrightarrow> e \<noteq> - 1 \<Longrightarrow> i \<noteq> - 1" for i e :: addr
  using word_order.extremum_unique [of e] by metis

lemma next_le: "i \<le> e \<Longrightarrow> e \<noteq> - 1 \<Longrightarrow> i < i + 1" for i e :: addr
  using word_less_Suc_le [of i i] not_last by blast

lemma busy_in_step:
  assumes "i \<le> e" "e \<noteq> - 1"
  shows "busy_in ms i e = (if IsByteFree i ms then {} else {i}) \<union> busy_in ms (i + 1) e"
proof -
  have "i \<le> a \<longleftrightarrow> a = i \<or> i + 1 \<le> a" for a
    using word_Suc_le_iff [OF not_last [OF assms], of a] unfolding le_less [of i a] by blast
  then show ?thesis using assms(1) by (auto simp: busy_in_def)
qed

lemma scan_busy_spec:
  assumes "e \<noteq> - 1" "i \<le> e \<Longrightarrow> unat (e - i) + 1 < n" "0 < n" "i \<noteq> 0"
  shows "\<exists>r. scan_busy n i e ms fl = Inr r \<and> scanned (busy_in ms i e) fl r"
  using assms
proof (induction n arbitrary: i fl)
  case (Suc n)
  show ?case
  proof (cases "i \<le> e")
    case False
    then have "busy_in ms i e = {}" by (auto simp: busy_in_def)
    then show ?thesis using False by (simp add: scanned_def)
  next
    case True
    let ?fl = "if \<not> IsByteFree i ms then (if fst fl = 0 then i else fst fl, i) else fl"
    have lt: "i < i + 1" by (rule next_le [OF True Suc.prems(1)])
    have fuel: "unat (e - i) < n" using Suc.prems(2) [OF True] by simp
    have "unat (e - (i + 1)) + 1 < n" if "i + 1 \<le> e"
    proof -
      have "i < e" using lt that by (rule order.strict_trans2)
      then have "e - i \<noteq> 0" by simp
      then have "unat (e - i) = Suc (unat (e - i - 1))" using unat_minus_one [of "e - i"] unat_gt_0 [of "e - i"] by linarith
      then have "Suc (unat (e - (i + 1))) = unat (e - i)" by (simp add: diff_diff_eq)
      then show ?thesis using fuel by simp
    qed
    moreover have "0 < n" using fuel by simp
    moreover have "i + 1 \<noteq> 0" using lt by auto
    ultimately obtain r where r: "scan_busy n (i + 1) e ms ?fl = Inr r" "scanned (busy_in ms (i + 1) e) ?fl r"
      using Suc.IH [of "i + 1" ?fl] Suc.prems(1) by blast
    have above: "i < a" if "a \<in> busy_in ms (i + 1) e" for a
      using that lt by (auto simp: busy_in_def)
    have "scanned (busy_in ms i e) fl r"
    proof (cases "IsByteFree i ms")
      case True
      then show ?thesis using r(2) \<open>i \<le> e\<close> Suc.prems(1) by (simp add: busy_in_step)
    next
      case False
      define B where "B = busy_in ms (i + 1) e"
      have 1: "busy_in ms i e = insert i B" using busy_in_step [OF \<open>i \<le> e\<close> Suc.prems(1), of ms] False by (simp add: B_def)
      have 2: "scanned B (if fst fl = 0 then i else fst fl, i) r" using r(2) False by (simp add: B_def)
      have 3: "\<forall>a \<in> B. i \<le> a" using above by (auto simp: B_def intro: less_imp_le)
      show ?thesis unfolding 1 using 2 3 Suc.prems(4)
        by (cases "B = {}"; cases "fst fl = 0") (auto simp: scanned_def)
    qed
    then show ?thesis using r(1) True by auto
  qed
qed simp

lemma read_bytes_spec:
  "fst (read_bytes as ms) = map (\<lambda>a. ms_peek a ms) as"
  "free_ranges (snd (read_bytes as ms)) = free_ranges ms"
  "ms_peek a (snd (read_bytes as ms)) = ms_peek a ms"
proof (induction as arbitrary: ms)
  case (Cons x as)
  have p: "ms_peek b (snd (ms_get x ms)) = ms_peek b ms" "free_ranges (snd (ms_get x ms)) = free_ranges ms" "fst (ms_get x ms) = ms_peek x ms" for b ms
    by (auto simp: ms_get_def ms_peek_def)
  {
    case 1
    show ?case using Cons.IH(1) [of "snd (ms_get x ms)"] by (simp add: p case_prod_beta Let_def)
  next
    case 2
    show ?case using Cons.IH(2) [of "snd (ms_get x ms)"] by (simp add: p case_prod_beta Let_def)
  next
    case 3
    show ?case using Cons.IH(3) [of "snd (ms_get x ms)"] by (simp add: p case_prod_beta Let_def)
  }
qed simp_all

text \<open>Where the scan of a scoop ends.\<close>

definition scan_end :: "memory_space \<Rightarrow> scoop \<Rightarrow> addr" where
  "scan_end ms s = (if sc_name s = ''textra'' then r_start (the (FindFreeRange (- 1) ms)) else sc_end s)"

text \<open>The scan of an executable scoop ends, and \<open>n\<close> steps are enough.\<close>

definition can_scan :: "nat \<Rightarrow> memory_space \<Rightarrow> scoop \<Rightarrow> bool" where
  "can_scan n ms s \<longleftrightarrow> sc_start s \<noteq> 0 \<and> scan_end ms s \<noteq> - 1 \<and> 0 < n \<and>
     (sc_start s \<le> scan_end ms s \<longrightarrow> unat (scan_end ms s - sc_start s) + 1 < n) \<and>
     (sc_name s = ''textra'' \<longrightarrow> sc_end s = - 1 \<and> FindFreeRange (- 1) ms \<noteq> None)"

text \<open>What becomes of a scoop: it is cut to the busy bytes in it, or removed.\<close>

definition cut_down :: "memory_space \<Rightarrow> scoop \<Rightarrow> scoop option \<Rightarrow> bool" where
  "cut_down ms s r \<longleftrightarrow>
     (case r of
        None \<Rightarrow> busy_in ms (sc_start s) (sc_end s) = {}
      | Some s' \<Rightarrow> sc_start s' \<in> busy_in ms (sc_start s) (sc_end s) \<and> sc_end s' \<in> busy_in ms (sc_start s) (sc_end s) \<and>
          (\<forall>a \<in> busy_in ms (sc_start s) (sc_end s). sc_start s' \<le> a \<and> a \<le> sc_end s') \<and>
          sc_contents s' = map (\<lambda>a. ms_peek a ms) (addrs (sc_start s') (Suc (unat (sc_end s' - sc_start s')))) \<and>
          sc_perms s' = sc_perms s \<and> sc_name s' = sc_name s)"

lemma update_scoop_sel [simp]:
  "zs_scoops (update_scoop i u z) j = (if j = i then map_option u (zs_scoops z i) else zs_scoops z j)"
  "zs_zipr (update_scoop i u z) = zs_zipr z" "zs_ms (update_scoop i u z) = zs_ms z" "zs_next (update_scoop i u z) = zs_next z"
  by (simp_all add: update_scoop_def)

lemma FindFreeRange_busy:
  assumes "ms_ok ms" "FindFreeRange (- 1) ms = Some r"
  shows "busy_in ms s (- 1) = busy_in ms s (r_start r)"
proof -
  have r: "r \<in> set (by_address (free_ranges ms))" "r_end r = - 1"
    using FindFreeRange_iff [OF assms(1), of "- 1" r] assms(2) by (auto simp: word_order.extremum_unique)
  have "IsByteFree a ms" if "r_start r \<le> a" for a
    using FindFreeRange_iff [OF assms(1), of a r] r that by (auto simp: IsByteFree_def IsValidRange_def)
  then have "\<not> IsByteFree a ms \<Longrightarrow> a \<le> r_start r" for a using linear by blast
  then show ?thesis by (auto simp: busy_in_def)
qed

lemma UpdateScoop_spec:
  assumes s: "zs_scoops z i = Some s" and ex: "isExecuteable s" and ok: "ms_ok (zs_ms z)" and scan: "can_scan n (zs_ms z) s"
  obtains z' where "UpdateScoop n i z = Inr z'" "cut_down (zs_ms z) s (zs_scoops z' i)" "\<forall>j. j \<noteq> i \<longrightarrow> zs_scoops z' j = zs_scoops z j"
    "set (zs_zipr z') = set (zs_zipr z) - (if zs_scoops z' i = None then {i} else {})"
    "free_ranges (zs_ms z') = free_ranges (zs_ms z)" "\<forall>a. ms_peek a (zs_ms z') = ms_peek a (zs_ms z)"
proof -
  let ?e = "scan_end (zs_ms z) s"
  define s1 where "s1 = s\<lparr>sc_end := ?e\<rparr>"
  obtain z1 where z1: "cut_textra i z = Inr z1" "zs_scoops z1 = (zs_scoops z)(i \<mapsto> s1)" "zs_ms z1 = zs_ms z" "zs_zipr z1 = zs_zipr z"
  proof (cases "sc_name s = ''textra''")
    case True
    then have "FindFreeRange (- 1) (zs_ms z) \<noteq> None" using scan by (simp add: can_scan_def)
    then show ?thesis using True s
      by (intro that [of "update_scoop i (\<lambda>c. c\<lparr>sc_end := ?e\<rparr>) z"])
        (auto simp: cut_textra_def the_scoop_def scan_end_def assertR_def IsValidRange_def s1_def fun_eq_iff)
  next
    case False
    then have "s1 = s" by (simp add: s1_def scan_end_def)
    then show ?thesis using False s by (intro that [of z]) (auto simp: cut_textra_def the_scoop_def fun_eq_iff)
  qed
  have e: "?e \<noteq> - 1" "sc_start s \<le> ?e \<Longrightarrow> unat (?e - sc_start s) + 1 < n" "0 < n" "sc_start s \<noteq> 0" using scan by (auto simp: can_scan_def)
  have B: "busy_in (zs_ms z) (sc_start s) (sc_end s) = busy_in (zs_ms z) (sc_start s) ?e" (is "?B = _")
    using FindFreeRange_busy [OF ok] scan by (auto simp: can_scan_def scan_end_def)
  obtain first last where fl: "scan_busy n (sc_start s) ?e (zs_ms z) (0, 0) = Inr (first, last)" "scanned ?B (0, 0) (first, last)"
    using scan_busy_spec [OF e, of "zs_ms z" "(0, 0)"] unfolding B by force
  have pos: "a \<noteq> 0" if "a \<in> ?B" for a
    using that e(4) by (auto simp: busy_in_def)
  have u: "UpdateScoop n i z = (if last = 0 \<or> first = 0 then Inr (remove_scoop i z1)
        else let (bs, ms) = read_bytes (addrs first (Suc (unat (last - first)))) (zs_ms z1)
          in Inr ((update_scoop i (\<lambda>c. (set_range first last c)\<lparr>sc_contents := bs\<rparr>) z1)\<lparr>zs_ms := ms\<rparr>))"
    using ex s fl(1) by (simp add: UpdateScoop_def the_scoop_def z1 s1_def)
  show ?thesis
  proof (cases "?B = {}")
    case True
    then have "first = 0" using fl(2) by (simp add: scanned_def)
    then show ?thesis using True u z1
      by (intro that [of "remove_scoop i z1"]) (auto simp: remove_scoop_def cut_down_def)
  next
    case False
    then have f: "first \<in> ?B" "last \<in> ?B" "\<forall>a \<in> ?B. first \<le> a \<and> a \<le> last" using fl(2) by (auto simp: scanned_def)
    then have "first \<noteq> 0" "last \<noteq> 0" using pos by blast+
    then show ?thesis using u z1 f
      by (intro that [of "(update_scoop i (\<lambda>c. (set_range first last c)\<lparr>sc_contents := fst (read_bytes (addrs first (Suc (unat (last - first)))) (zs_ms z1))\<rparr>) z1)
            \<lparr>zs_ms := snd (read_bytes (addrs first (Suc (unat (last - first)))) (zs_ms z1))\<rparr>"])
        (simp_all add: case_prod_beta Let_def cut_down_def set_range_def s1_def read_bytes_spec)
  qed
qed

lemma cut_down_cong:
  assumes "free_ranges ms' = free_ranges ms" "\<forall>a. ms_peek a ms' = ms_peek a ms"
  shows "cut_down ms' = cut_down ms" "can_scan n ms' = can_scan n ms" "ms_ok ms' = ms_ok ms"
proof -
  have f: "FindFreeRange a ms' = FindFreeRange a ms" for a using assms(1) by (simp add: FindFreeRange_def)
  then have b: "busy_in ms' s e = busy_in ms s e" for s e by (simp add: busy_in_def IsByteFree_def)
  show "cut_down ms' = cut_down ms" using assms(2) by (auto simp: cut_down_def b fun_eq_iff split: option.splits)
  show "can_scan n ms' = can_scan n ms" by (simp add: can_scan_def scan_end_def f fun_eq_iff)
  show "ms_ok ms' = ms_ok ms" using assms(1) by (simp add: ms_ok_def)
qed

lemma UpdateScoops_list:
  assumes "ms_ok (zs_ms z)" "distinct xs"
    and "\<forall>i \<in> set xs. \<exists>s. zs_scoops z i = Some s \<and> (isExecuteable s \<longrightarrow> can_scan n (zs_ms z) s)"
  shows "\<exists>z'. foldR (UpdateScoop n) xs z = Inr z' \<and>
    (\<forall>i \<in> set xs. isExecuteable (the_scoop z i) \<longrightarrow> cut_down (zs_ms z) (the_scoop z i) (zs_scoops z' i)) \<and>
    (\<forall>j. j \<notin> set xs \<or> \<not> isExecuteable (the_scoop z j) \<longrightarrow> zs_scoops z' j = zs_scoops z j) \<and>
    set (zs_zipr z') = {i \<in> set (zs_zipr z). i \<in> set xs \<longrightarrow> zs_scoops z' i \<noteq> None}"
  using assms
proof (induction xs arbitrary: z)
  case (Cons i xs)
  obtain s where s: "zs_scoops z i = Some s" and scan: "isExecuteable s \<longrightarrow> can_scan n (zs_ms z) s" using Cons.prems(3) by auto
  have the_s: "the_scoop z i = s" using s by (simp add: the_scoop_def)
  obtain z1 where z1: "UpdateScoop n i z = Inr z1" "isExecuteable s \<longrightarrow> cut_down (zs_ms z) s (zs_scoops z1 i)"
      "\<not> isExecuteable s \<longrightarrow> zs_scoops z1 i = Some s"
      "\<forall>j. j \<noteq> i \<longrightarrow> zs_scoops z1 j = zs_scoops z j" "set (zs_zipr z1) = set (zs_zipr z) - (if zs_scoops z1 i = None then {i} else {})"
      "free_ranges (zs_ms z1) = free_ranges (zs_ms z)" "\<forall>a. ms_peek a (zs_ms z1) = ms_peek a (zs_ms z)"
  proof (cases "isExecuteable s")
    case True
    then show ?thesis using UpdateScoop_spec [OF s True Cons.prems(1)] scan that by metis
  next
    case False
    then show ?thesis using s by (intro that [of z]) (simp_all add: UpdateScoop_def the_s)
  qed
  note cong = cut_down_cong [OF z1(6,7)]
  have d: "distinct xs" "i \<notin> set xs" using Cons.prems(2) by auto
  have same: "zs_scoops z1 j = zs_scoops z j" "the_scoop z1 j = the_scoop z j" if "j \<noteq> i" for j
    using z1(4) that by (simp_all add: the_scoop_def)
  have "\<forall>j \<in> set xs. \<exists>s. zs_scoops z1 j = Some s \<and> (isExecuteable s \<longrightarrow> can_scan n (zs_ms z1) s)"
  proof
    fix j assume j: "j \<in> set xs"
    then have "j \<noteq> i" using d(2) by blast
    then show "\<exists>s. zs_scoops z1 j = Some s \<and> (isExecuteable s \<longrightarrow> can_scan n (zs_ms z1) s)"
      using Cons.prems(3) [rule_format, of j] j unfolding cong(2) same(1) [OF \<open>j \<noteq> i\<close>] by simp
  qed
  moreover have "ms_ok (zs_ms z1)" using Cons.prems(1) cong(3) by simp
  ultimately obtain z' where z': "foldR (UpdateScoop n) xs z1 = Inr z'"
    "\<forall>i \<in> set xs. isExecuteable (the_scoop z1 i) \<longrightarrow> cut_down (zs_ms z1) (the_scoop z1 i) (zs_scoops z' i)"
    "\<forall>j. j \<notin> set xs \<or> \<not> isExecuteable (the_scoop z1 j) \<longrightarrow> zs_scoops z' j = zs_scoops z1 j"
    "set (zs_zipr z') = {i \<in> set (zs_zipr z1). i \<in> set xs \<longrightarrow> zs_scoops z' i \<noteq> None}"
    using Cons.IH [OF _ d(1), of z1] by blast
  have i': "zs_scoops z' i = zs_scoops z1 i" using z'(3) d(2) by blast
  have "foldR (UpdateScoop n) (i # xs) z = Inr z'" using z1(1) z'(1) by simp
  moreover have "isExecuteable (the_scoop z j) \<longrightarrow> cut_down (zs_ms z) (the_scoop z j) (zs_scoops z' j)" if "j \<in> set (i # xs)" for j
    using that z'(2) same [of j] z1(2) i' the_s cong(1) by (cases "j = i") auto
  moreover have "zs_scoops z' j = zs_scoops z j" if "j \<notin> set (i # xs) \<or> \<not> isExecuteable (the_scoop z j)" for j
    using that z'(3) same [of j] z1(3) i' the_s s by (cases "j = i") auto
  moreover have "set (zs_zipr z') = {j \<in> set (zs_zipr z). j \<in> set (i # xs) \<longrightarrow> zs_scoops z' j \<noteq> None}"
    using z'(4) z1(5) i' d(2) by (auto split: if_splits)
  ultimately show ?case by blast
qed auto

lemma cut_down_byte:
  assumes "cut_down ms s r" "a \<in> busy_in ms (sc_start s) (sc_end s)"
  shows "\<exists>s'. r = Some s' \<and> sc_start s' \<le> a \<and> a \<le> sc_end s' \<and> sc_contents s' ! unat (a - sc_start s') = ms_peek a ms"
proof -
  obtain s' where s': "r = Some s'" "sc_start s' \<le> a" "a \<le> sc_end s'"
    "sc_contents s' = map (\<lambda>a. ms_peek a ms) (addrs (sc_start s') (Suc (unat (sc_end s' - sc_start s'))))"
    using assms by (auto simp: cut_down_def split: option.splits)
  have "unat (a - sc_start s') \<le> unat (sc_end s' - sc_start s')"
    using s'(2,3) order.trans [OF s'(2,3)] by (simp add: unat_sub word_le_nat_alt diff_le_mono)
  then have "sc_contents s' ! unat (a - sc_start s') = ms_peek a ms"
    unfolding s'(4) by (simp add: addrs_def del: upt_Suc)
  then show ?thesis using s' by blast
qed

text \<open>C5: \<open>UpdateScoops\<close> returns and loses no code. Every executable region made for the new
  program is cut to the bytes in use: it starts and ends with a busy byte and no busy byte of
  it is left out, or it is removed when it has none; and every busy byte of the region is in
  the region's new contents, at its address, with the value the memory space has there. The
  regions of the input stay as they are. (The region behind the program must end at the last
  address and have a free byte there; \<open>n\<close> bounds the length of the scans.)\<close>

theorem UpdateScoops_keeps_code:
  assumes "ms_ok (zs_ms z)" and "distinct (zs_zipr z)"
    and "\<forall>i \<in> set (zs_zipr z). \<exists>s. zs_scoops z i = Some s \<and> (isExecuteable s \<longrightarrow> can_scan n (zs_ms z) s)"
  shows "\<exists>z'. UpdateScoops n ptr z = Inr z' \<and>
    (\<forall>i \<in> set (zs_zipr z). isExecuteable (the_scoop z i) \<longrightarrow>
       cut_down (zs_ms z) (the_scoop z i) (zs_scoops z' i) \<and> (i \<in> set (zs_zipr z') \<longleftrightarrow> zs_scoops z' i \<noteq> None) \<and>
       (\<forall>a. sc_start (the_scoop z i) \<le> a \<and> a \<le> sc_end (the_scoop z i) \<and> \<not> IsByteFree a (zs_ms z) \<longrightarrow>
          (\<exists>s'. zs_scoops z' i = Some s' \<and> sc_start s' \<le> a \<and> a \<le> sc_end s' \<and>
             sc_contents s' ! unat (a - sc_start s') = ms_peek a (zs_ms z)))) \<and>
    (\<forall>j. j \<notin> set (zs_zipr z) \<longrightarrow> zs_scoops z' j = zs_scoops z j)"
proof -
  have "distinct (sort_key ptr (zs_zipr z))"
    "\<forall>i \<in> set (sort_key ptr (zs_zipr z)). \<exists>s. zs_scoops z i = Some s \<and> (isExecuteable s \<longrightarrow> can_scan n (zs_ms z) s)"
    using assms(2,3) by simp_all
  from UpdateScoops_list [OF assms(1) this] obtain z' where z': "UpdateScoops n ptr z = Inr z'"
    "\<forall>i \<in> set (zs_zipr z). isExecuteable (the_scoop z i) \<longrightarrow> cut_down (zs_ms z) (the_scoop z i) (zs_scoops z' i)"
    "\<forall>j. j \<notin> set (zs_zipr z) \<or> \<not> isExecuteable (the_scoop z j) \<longrightarrow> zs_scoops z' j = zs_scoops z j"
    "set (zs_zipr z') = {i \<in> set (zs_zipr z). i \<in> set (zs_zipr z) \<longrightarrow> zs_scoops z' i \<noteq> None}"
    by (auto simp: UpdateScoops_def)
  have "\<exists>s'. zs_scoops z' i = Some s' \<and> sc_start s' \<le> a \<and> a \<le> sc_end s' \<and> sc_contents s' ! unat (a - sc_start s') = ms_peek a (zs_ms z)"
    if "i \<in> set (zs_zipr z)" "isExecuteable (the_scoop z i)"
      "sc_start (the_scoop z i) \<le> a \<and> a \<le> sc_end (the_scoop z i) \<and> \<not> IsByteFree a (zs_ms z)" for i a
    using cut_down_byte [of "zs_ms z" "the_scoop z i" "zs_scoops z' i" a] z'(2) that by (simp add: busy_in_def)
  then show ?thesis using z' by blast
qed

definition cut_sample :: zscoops where
  "cut_sample = \<lparr>zs_scoops = [0 \<mapsto> new_scoop ''textra'' 0x5ffff0 (- 1) [], 1 \<mapsto> new_scoop ''zipr_scoop_7340032'' 0x700000 0x700003 [0, 0, 0, 0]],
     zs_next = 2, zs_zipr = [0, 1], zs_ms = tail_space\<lparr>ms_bytes := [0x5ffff5 \<mapsto> 0x90]\<rparr>, zs_new_space = 0x5ffff0\<rparr>"

lemma tail_space_free: "ms_ok (tail_space\<lparr>ms_bytes := b\<rparr>)" "FindFreeRange (- 1) (tail_space\<lparr>ms_bytes := b\<rparr>) = Some (mk_range 0x600000 (- 1))"
  "IsByteFree a (tail_space\<lparr>ms_bytes := b\<rparr>) \<longleftrightarrow> 0x600000 \<le> a"
proof -
  show ok: "ms_ok (tail_space\<lparr>ms_bytes := b\<rparr>)" using tail_space_ok by (simp add: ms_ok_def)
  have e: "by_address (free_ranges (tail_space\<lparr>ms_bytes := b\<rparr>)) = [mk_range 0x600000 (- 1)]" by (simp add: tail_space_def)
  show "FindFreeRange (- 1) (tail_space\<lparr>ms_bytes := b\<rparr>) = Some (mk_range 0x600000 (- 1))"
    using FindFreeRange_iff [OF ok] e by simp
  show "IsByteFree a (tail_space\<lparr>ms_bytes := b\<rparr>) \<longleftrightarrow> 0x600000 \<le> a"
    using IsByteFree_iff [OF ok] e by (simp add: free_set_elems elems_def range_bytes_def)
qed

theorem UpdateScoops_keeps_code_witness:
  "\<exists>z'. UpdateScoops 20 id cut_sample = Inr z' \<and> zs_scoops z' 1 = None \<and>
     (\<exists>s'. zs_scoops z' 0 = Some s' \<and> sc_contents s' ! unat (0x5ffff5 - sc_start s') = 0x90)"
proof -
  have x: "isExecuteable (new_scoop s a b c)" for s a b c by (simp add: isExecuteable_def new_scoop_def)
  have "can_scan 20 (zs_ms cut_sample) (new_scoop ''textra'' 0x5ffff0 (- 1) [])"
    "can_scan 20 (zs_ms cut_sample) (new_scoop ''zipr_scoop_7340032'' 0x700000 0x700003 [0, 0, 0, 0])"
    by (simp_all add: can_scan_def scan_end_def cut_sample_def new_scoop_def tail_space_free)
  then have "\<forall>i \<in> set (zs_zipr cut_sample). \<exists>s. zs_scoops cut_sample i = Some s \<and> (isExecuteable s \<longrightarrow> can_scan 20 (zs_ms cut_sample) s)"
    by (simp add: cut_sample_def)
  moreover have "ms_ok (zs_ms cut_sample)" "distinct (zs_zipr cut_sample)" by (simp_all add: cut_sample_def tail_space_free tail_space_ok)
  ultimately obtain z' where run: "UpdateScoops 20 id cut_sample = Inr z'" and
    *: "\<And>i. i \<in> set (zs_zipr cut_sample) \<Longrightarrow> isExecuteable (the_scoop cut_sample i) \<Longrightarrow>
         cut_down (zs_ms cut_sample) (the_scoop cut_sample i) (zs_scoops z' i)"
    "\<And>i a. i \<in> set (zs_zipr cut_sample) \<Longrightarrow> isExecuteable (the_scoop cut_sample i) \<Longrightarrow>
       sc_start (the_scoop cut_sample i) \<le> a \<and> a \<le> sc_end (the_scoop cut_sample i) \<and> \<not> IsByteFree a (zs_ms cut_sample) \<Longrightarrow>
       \<exists>s'. zs_scoops z' i = Some s' \<and> sc_start s' \<le> a \<and> a \<le> sc_end s' \<and>
         sc_contents s' ! unat (a - sc_start s') = ms_peek a (zs_ms cut_sample)"
    using UpdateScoops_keeps_code [of cut_sample 20 id] by blast
  have "cut_down (zs_ms cut_sample) (the_scoop cut_sample 1) (zs_scoops z' 1)"
    by (rule *(1)) (simp_all add: cut_sample_def the_scoop_def x)
  moreover have "busy_in (zs_ms cut_sample) 0x700000 e = {}" for e
  proof -
    have "(0x600000 :: addr) \<le> a" if "0x700000 \<le> a" for a using that by (rule order.trans [rotated]) simp
    then show ?thesis by (auto simp: busy_in_def cut_sample_def tail_space_free)
  qed
  ultimately have "zs_scoops z' 1 = None"
    by (auto simp: cut_down_def cut_sample_def the_scoop_def new_scoop_def split: option.splits)
  moreover have "\<exists>s'. zs_scoops z' 0 = Some s' \<and> sc_start s' \<le> 0x5ffff5 \<and> 0x5ffff5 \<le> sc_end s' \<and>
         sc_contents s' ! unat (0x5ffff5 - sc_start s') = ms_peek 0x5ffff5 (zs_ms cut_sample)"
    by (rule *(2)) (simp_all add: cut_sample_def the_scoop_def isExecuteable_def new_scoop_def tail_space_free word_order.extremum)
  moreover have "ms_peek 0x5ffff5 (zs_ms cut_sample) = 0x90" by (simp add: ms_peek_def cut_sample_def)
  ultimately show ?thesis using run by auto
qed

text \<open>A scoop's end is its last byte, which \<open>FindScoop\<close> does not take to be in the scoop.\<close>

lemma FindScoop_misses_last:
  assumes "zs_scoops z = [0 \<mapsto> s]" "zs_next z = 1" "sc_start s \<le> sc_end s"
  shows "FindScoop ptr (sc_end s) z = None"
  using assms by (simp add: FindScoop_def getDataScoops_def the_scoop_def)

end
