(* ===== verification/Zipr_ScoopProps.thy ===== *)
theory Zipr_ScoopProps
  imports Zipr_Scoops
begin

text \<open>
  What \<open>FindFreeRanges\<close> leaves free: exactly the regions made for the new program, without
  the bytes of the regions of the input.
\<close>

section \<open>Rounding to pages\<close>

lemma page_round_up_le:
  assumes "x \<le> 2 ^ 63"
  shows "x \<le> page_round_up x" "page_round_up x \<le> x + 4095" "unat (page_round_up x) \<le> unat x + 4095"
proof -
  have x: "unat x \<le> 2 ^ 63" using assms by (simp add: word_le_nat_alt)
  have u: "unat (x + 4095) = unat x + 4095" using x by (simp add: unat_word_ariths)
  then have "unat (page_round_up x) = unat x + 4095 - (unat x + 4095) mod 4096" by (simp add: page_round_up_def and_page)
  moreover have "(unat x + 4095) mod 4096 \<le> 4095" by simp
  ultimately show "x \<le> page_round_up x" "page_round_up x \<le> x + 4095" "unat (page_round_up x) \<le> unat x + 4095"
    using u by (simp_all add: word_le_nat_alt)
qed

text \<open>Rounding down subtracts too much, and below \<open>4095\<close> it leads to the last pages.\<close>

lemma page_round_down_le:
  "4095 \<le> x \<Longrightarrow> page_round_down x \<le> x"
  "x < 4095 \<Longrightarrow> 2 ^ 63 \<le> page_round_down x"
proof -
  assume "4095 \<le> x"
  then have "unat (x - 4095) = unat x - 4095" by (simp add: unat_sub)
  then show "page_round_down x \<le> x" by (simp add: page_round_down_def word_le_nat_alt and_page)
next
  assume x: "x < 4095"
  then have ux: "unat x < 4095" by (simp add: word_less_nat_alt)
  have "unat (x - 4095) = unat x + 2 ^ 64 - 4095" using ux by (simp add: unat_sub_if_size word_size)
  moreover have "(unat x + 2 ^ 64 - 4095) mod 4096 \<le> 4095" by simp
  ultimately show "2 ^ 63 \<le> page_round_down x" by (simp add: page_round_down_def word_le_nat_alt and_page)
qed

lemma page_round_down_off: "page_round_down 0x5000 = 0x4000" "page_round_down 0x5fff = 0x5000" "page_round_down 0x5ffe = 0x4000"
  by (simp_all add: page_round_down_def)

section \<open>One gap\<close>

definition extent :: "scoop \<Rightarrow> addr set" where
  "extent s = {sc_start s..sc_end s}"

lemma zeros_Inr: "zeros m n = Inr bs \<longleftrightarrow> unat n \<le> m \<and> bs = replicate (unat n) 0"
  by (auto simp: zeros_def not_less)

lemma length_ok:
  assumes "unat (e - s + 1 :: addr) < 2 ^ 62" "unat s \<le> 2 ^ 62 + 4095"
  shows "s \<le> e \<or> s = e + 1"
proof (rule ccontr)
  assume "\<not> ?thesis"
  then have less: "unat e < unat s" and ne: "s \<noteq> e + 1" by (auto simp: word_le_nat_alt)
  have d: "unat (e - s) = 2 ^ 64 - (unat s - unat e)"
    using less unat_addr_less [of s] by (simp add: unat_sub_if_size word_size)
  have "unat s - unat e \<noteq> 1"
  proof
    assume "unat s - unat e = 1"
    then have "unat s = Suc (unat e)" using less by simp
    moreover have "e \<noteq> - 1" using less word_order.extremum [of s] by (metis not_le word_le_nat_alt)
    then have "e + 1 \<noteq> 0" by (simp add: word_Suc_eq_0)
    ultimately have "unat s = unat (e + 1)" by (metis Suc_eq_plus1 add.commute unatSuc)
    then show False using ne by (simp add: word_unat_eq_iff)
  qed
  then have "unat (e - s + 1) = 2 ^ 64 - (unat s - unat e) + 1"
    using d less unat_addr_less [of s] by (simp add: unat_word_ariths)
  then show False using assms less by simp
qed

text \<open>
  A padding region lies between its neighbours. The rounding can make a region whose end lies
  before its start, but then it has no contents: the string would be too long.
\<close>

lemma pad_gap_cases:
  assumes run: "pad_gap max_size min_distance this next z = Inr z'"
    and less: "sc_end this < sc_start next" "sc_start next \<le> 2 ^ 62"
    and max: "max_size < 2 ^ 62" and min: "1 \<le> min_distance"
  obtains (none) "z' = z"
  | (pad) s e where "sc_end this < s" "s \<le> e" "e < sc_start next" "padding_scoop max_size s e z = Inr z'"
proof -
  define s where "s = (if isWriteable this then page_round_up (sc_end this + 1) else sc_end this + 1)"
  define e where "e = (if isWriteable next then page_round_down (sc_start next - 1) else sc_start next - 1)"
  have "\<not> sc_start next < sc_end this" using less(1) by simp
  then have run': "(if min_distance < (ucast (s - e) :: uint32) \<and> (\<not> isWriteable this \<or> \<not> isWriteable next)
           then padding_scoop max_size s e z else Inr z) = Inr z'"
    using run unfolding pad_gap_def Let_def s_def [symmetric] e_def [symmetric] by (simp only: if_False)
  show ?thesis
  proof (cases "min_distance < (ucast (s - e) :: uint32) \<and> padding_scoop max_size s e z = Inr z'")
    case False
    then show ?thesis using run' none by (auto split: if_splits)
  next
    case True
    then have p: "padding_scoop max_size s e z = Inr z'" and d: "min_distance < (ucast (s - e) :: uint32)" by blast+
    have pos: "sc_start next \<noteq> 0" "sc_end this \<noteq> - 1" using less(1) by auto
    have ut: "unat (sc_end this + 1) = unat (sc_end this) + 1"
      using pos(2) by (metis Suc_eq_plus1 add.commute unatSuc word_Suc_eq_0)
    have lim: "unat (sc_start next) \<le> 2 ^ 62" "unat (sc_end this) < unat (sc_start next)"
      using less by (simp_all add: word_le_nat_alt word_less_nat_alt)
    have a: "sc_end this + 1 \<le> 2 ^ 63" using ut lim by (simp add: word_le_nat_alt)
    have s2: "unat s \<le> unat (sc_end this) + 1 + 4095" using page_round_up_le(3) [OF a] ut by (simp add: s_def)
    have "sc_end this < sc_end this + 1" using ut by (simp add: word_less_nat_alt)
    moreover have "sc_end this + 1 \<le> s" using page_round_up_le(1) [OF a] by (simp add: s_def)
    ultimately have s: "sc_end this < s" by (rule order.strict_trans2)
    have n: "unat (e - s + 1) < 2 ^ 62" using p max by (auto simp: padding_scoop_def bindR_eq_Inr zeros_Inr)
    have "s \<le> e \<or> s = e + 1" by (rule length_ok [OF n]) (use s2 lim in linarith)
    moreover have "s \<noteq> e + 1" using d min by (auto simp: word_le_nat_alt word_less_nat_alt)
    ultimately have se: "s \<le> e" by blast
    have "e < sc_start next"
    proof (cases "isWriteable next \<and> sc_start next - 1 < 4095")
      case True
      then have "2 ^ 63 \<le> unat e" using page_round_down_le(2) by (simp add: e_def word_le_nat_alt)
      moreover have "unat (sc_start next) \<le> 4095" using True pos(1) by (simp add: word_less_nat_alt unat_minus_one) arith
      moreover have "unat (e - s) = unat e - unat s" using se by (simp add: unat_sub)
      moreover have "unat (e - s + 1) = unat (e - s) + 1 \<or> e - s = - 1"
        by (metis Suc_eq_plus1 add.commute unatSuc word_Suc_eq_0)
      moreover have "e - s \<noteq> - 1"
      proof
        assume "e - s = - 1"
        then have "s = e + 1" by (simp add: diff_eq_eq)
        then show False using \<open>s \<noteq> e + 1\<close> by blast
      qed
      ultimately have "2 ^ 63 \<le> unat e" "unat (sc_start next) \<le> 4095" "unat e - unat s + 1 < 2 ^ 62" using n by auto
      then have False using s2 lim(2) by simp
      then show ?thesis ..
    next
      case False
      have "sc_start next - 1 < sc_start next" using pos(1) by (simp add: word_less_nat_alt unat_minus_one unat_gt_0)
      moreover have "e \<le> sc_start next - 1" using False page_round_down_le(1) [of "sc_start next - 1"] by (auto simp: e_def not_less)
      ultimately show ?thesis by (rule order.strict_trans1 [rotated])
    qed
    then show ?thesis using pad [OF s se _ p] by blast
  qed
qed

section \<open>Regions and free space\<close>

definition regions :: "zscoops \<Rightarrow> addr set" where
  "regions z = (\<Union>i \<in> set (zs_zipr z). extent (the_scoop z i))"

text \<open>The free addresses are those of the regions made so far.\<close>

definition zs_ok :: "zscoops \<Rightarrow> bool" where
  "zs_ok z \<longleftrightarrow> ms_ok (zs_ms z) \<and> free_set (zs_ms z) = regions z \<and> (\<forall>i \<in> set (zs_zipr z). zs_scoops z i \<noteq> None \<and> sc_start (the_scoop z i) \<noteq> 0) \<and>
     (\<forall>i \<ge> zs_next z. zs_scoops z i = None)"

definition zs_extends :: "zscoops \<Rightarrow> zscoops \<Rightarrow> bool" where
  "zs_extends z z' \<longleftrightarrow> zs_next z \<le> zs_next z' \<and> (\<forall>i < zs_next z. zs_scoops z' i = zs_scoops z i) \<and>
     set (zs_zipr z) \<subseteq> set (zs_zipr z')"

lemma zs_extends_refl [simp]: "zs_extends z z"
  by (simp add: zs_extends_def)

lemma zs_extends_trans: "zs_extends x y \<Longrightarrow> zs_extends y z \<Longrightarrow> zs_extends x z"
  by (auto simp: zs_extends_def)

lemma zs_extends_scoop: "zs_extends z z' \<Longrightarrow> i < zs_next z \<Longrightarrow> the_scoop z' i = the_scoop z i"
  by (simp add: zs_extends_def the_scoop_def)

lemma zs_ok_less: "zs_ok z \<Longrightarrow> i \<in> set (zs_zipr z) \<Longrightarrow> i < zs_next z"
  by (auto simp: zs_ok_def not_le [symmetric])

definition with_region :: "scoop \<Rightarrow> zscoops \<Rightarrow> zscoops" where
  "with_region c z = z\<lparr>zs_scoops := (zs_scoops z)(zs_next z \<mapsto> c), zs_next := Suc (zs_next z), zs_zipr := zs_next z # zs_zipr z\<rparr>"

definition add_region :: "bool \<Rightarrow> scoop \<Rightarrow> zscoops \<Rightarrow> zscoops result" where
  "add_region b c z = on_zs_ms (AddFreeRange_original (mk_range (sc_start c) (sc_end c)) b) (with_region c z)"

lemma add_text_scoop_region:
  "add_text_scoop m count s e z = Inr z' \<Longrightarrow> \<exists>name bs. add_region True (new_scoop name s e bs) z = Inr z'"
  by (auto simp: add_text_scoop_def bindR_eq_Inr addNewDataScoop_def add_region_def with_region_def new_scoop_def)

lemma padding_scoop_region:
  "padding_scoop m s e z = Inr z' \<Longrightarrow> \<exists>name bs. add_region False (new_scoop name s e bs) z = Inr z'"
proof -
  have "AddFreeRange r = AddFreeRange_original r False" for r by (simp add: AddFreeRange_original_def fun_eq_iff)
  then show "padding_scoop m s e z = Inr z' \<Longrightarrow> ?thesis"
    by (auto simp: padding_scoop_def bindR_eq_Inr addNewDataScoop_def add_region_def with_region_def new_scoop_def)
qed

lemma add_region_sel:
  assumes "add_region b c z = Inr z'"
  shows "zs_scoops z' = (zs_scoops z)(zs_next z \<mapsto> c)" "zs_next z' = Suc (zs_next z)" "zs_zipr z' = zs_next z # zs_zipr z"
    "zs_new_space z' = zs_new_space z" "zs_extends z z'" "the_scoop z' (zs_next z) = c"
  using assms by (auto simp: add_region_def with_region_def on_zs_ms_def bindR_eq_Inr zs_extends_def the_scoop_def)

lemma add_region_ok:
  assumes run: "add_region b c z = Inr z'" and ok: "zs_ok z"
    and c: "sc_start c \<le> sc_end c" "sc_start c \<noteq> 0" "extent c \<inter> regions z = {}"
  shows "zs_ok z'"
proof -
  note sel = add_region_sel [OF run]
  let ?r = "mk_range (sc_start c) (sc_end c)"
  define m where "m = (if b then (zs_ms z)\<lparr>original_free_ranges := rs_insert ?r (original_free_ranges (zs_ms z))\<rparr> else zs_ms z)"
  have m: "ms_ok m" "free_set m = free_set (zs_ms z)" using ok by (simp_all add: m_def zs_ok_def ms_ok_def free_set_def)
  have "lift_fr (fr_insert ?r) m = Inr (zs_ms z')"
    using run by (auto simp: add_region_def on_zs_ms_def bindR_eq_Inr AddFreeRange_original_def AddFreeRange_def m_def with_region_def)
  moreover obtain ms' where "lift_fr (fr_insert ?r) m = Inr ms'" "ms_ok ms'" "free_set ms' = range_bytes ?r \<union> free_set m"
  proof -
    have "range_ok ?r" "range_bytes ?r \<inter> free_set m = {}"
      using c ok m(2) by (auto simp: range_ok_def range_bytes_def extent_def zs_ok_def)
    then show ?thesis using ms_insert [OF m(1)] that by metis
  qed
  ultimately have ms: "ms_ok (zs_ms z')" "free_set (zs_ms z') = extent c \<union> free_set (zs_ms z)"
    using m(2) by (simp_all add: range_bytes_def extent_def)
  have old: "the_scoop z' i = the_scoop z i" if "i \<in> set (zs_zipr z)" for i
    using zs_extends_scoop [OF sel(5) zs_ok_less [OF ok that]] .
  then have "regions z' = extent c \<union> regions z" by (simp add: regions_def sel(3,6))
  moreover have "\<forall>i \<in> set (zs_zipr z'). zs_scoops z' i \<noteq> None \<and> sc_start (the_scoop z' i) \<noteq> 0"
    using ok c(2) old sel(6) by (auto simp: sel(1,3) zs_ok_def)
  ultimately show ?thesis using ok ms by (simp add: zs_ok_def sel(1,2))
qed

text \<open>A region next to others it does not meet, all of them as in a later state.\<close>

lemma add_region_later:
  assumes "add_region b c z = Inr z'" "zs_ok z" "zs_extends z' z1"
    and "\<forall>i \<in> set (zs_zipr z1). sc_start (the_scoop z1 i) \<le> sc_end (the_scoop z1 i) \<and> sc_start (the_scoop z1 i) \<noteq> 0 \<and>
      (\<forall>j \<in> set (zs_zipr z1). i \<noteq> j \<longrightarrow> extent (the_scoop z1 i) \<inter> extent (the_scoop z1 j) = {})"
  shows "zs_ok z'"
proof -
  note sel = add_region_sel [OF assms(1)]
  have new: "zs_next z \<in> set (zs_zipr z1)" "the_scoop z1 (zs_next z) = c"
    using assms(3) sel(2,3,6) zs_extends_scoop [OF assms(3)] by (auto simp: zs_extends_def)
  have "extent c \<inter> extent (the_scoop z i) = {}" if "i \<in> set (zs_zipr z)" for i
  proof -
    have i: "i < zs_next z" using zs_ok_less [OF assms(2) that] .
    then have "the_scoop z1 i = the_scoop z i"
      using zs_extends_scoop [OF zs_extends_trans [OF sel(5) assms(3)]] by simp
    moreover have "i \<in> set (zs_zipr z1)" using that sel(3) assms(3) by (auto simp: zs_extends_def)
    ultimately show ?thesis using assms(4) new i by (metis nat_neq_iff)
  qed
  then have "extent c \<inter> regions z = {}" by (auto simp: regions_def)
  then show ?thesis using add_region_ok [OF assms(1,2)] assms(4) new by metis
qed

lemma CreateExecutableScoops_step:
  assumes "CreateExecutableScoops m count (s # ss) z = Inr z1"
  obtains (skip) "CreateExecutableScoops m count ss z = Inr z1"
  | (add) rest e name bs z2 where "length rest \<le> length ss" "add_region True (new_scoop name (sec_addr s) e bs) z = Inr z2"
      "CreateExecutableScoops m (Suc count) rest z2 = Inr z1"
proof (cases "\<not> sec_loadable s \<or> \<not> sec_exec s")
  case True
  then show ?thesis using assms skip by simp
next
  case False
  obtain l rest where l: "exec_run (s # ss) = Inr (l, rest)"
    using assms False by (auto simp del: exec_run.simps split: sum.splits)
  let ?e = "if rest = [] then page_round_up (sec_addr l + sec_size l - 1) - 1 else sec_addr l - 1"
  obtain z2 where z2: "add_text_scoop m count (sec_addr s) ?e z = Inr z2" "CreateExecutableScoops m (Suc count) rest z2 = Inr z1"
    using assms False l by (auto simp: Let_def bindR_eq_Inr simp del: exec_run.simps)
  obtain name bs where "add_region True (new_scoop name (sec_addr s) ?e bs) z = Inr z2"
    using add_text_scoop_region [OF z2(1)] by blast
  then show ?thesis using add exec_run_shorter_exec [OF l] False z2(2) by blast
qed

lemma CreateExecutableScoops_extends:
  "CreateExecutableScoops m count ss z = Inr z1 \<Longrightarrow> zs_extends z z1"
proof (induction ss arbitrary: count z rule: length_induct)
  case (1 ss)
  show ?case
  proof (cases ss)
    case (Cons s ss')
    from "1.prems" [unfolded Cons] show ?thesis
    proof (cases rule: CreateExecutableScoops_step)
      case skip
      then show ?thesis using "1.IH" [rule_format, of ss'] Cons by simp
    next
      case (add rest e name bs z2)
      have "zs_extends z2 z1" using "1.IH" [rule_format, of rest] add Cons by simp
      then show ?thesis using add_region_sel(5) [OF add(2)] zs_extends_trans by blast
    qed
  qed (use 1 in simp)
qed

definition apart :: "zscoops \<Rightarrow> sid set \<Rightarrow> bool" where
  "apart z I \<longleftrightarrow> (\<forall>i \<in> I. sc_start (the_scoop z i) \<le> sc_end (the_scoop z i) \<and> sc_start (the_scoop z i) \<noteq> 0 \<and>
      (\<forall>j \<in> I. i \<noteq> j \<longrightarrow> extent (the_scoop z i) \<inter> extent (the_scoop z j) = {}))"

lemma CreateExecutableScoops_ok:
  assumes "CreateExecutableScoops m count ss z = Inr z1" "zs_ok z" "apart z1 (set (zs_zipr z1))"
  shows "zs_ok z1"
  using assms
proof (induction ss arbitrary: count z rule: length_induct)
  case (1 ss)
  show ?case
  proof (cases ss)
    case (Cons s ss')
    from "1.prems"(1) [unfolded Cons] show ?thesis
    proof (cases rule: CreateExecutableScoops_step)
      case skip
      then show ?thesis using "1.IH" [rule_format, of ss'] "1.prems"(2,3) Cons by simp
    next
      case (add rest e name bs z2)
      have "zs_ok z2"
        using add_region_later [OF add(2) "1.prems"(2) CreateExecutableScoops_extends [OF add(3)]] "1.prems"(3)
        unfolding apart_def by blast
      then show ?thesis using "1.IH" [rule_format, of rest] add "1.prems"(3) Cons by simp
    qed
  qed (use 1 in simp)
qed

section \<open>All gaps\<close>

fun gaps :: "zscoops \<Rightarrow> sid list \<Rightarrow> addr set" where
  "gaps z (i # j # is) = {a. sc_end (the_scoop z i) < a \<and> a < sc_start (the_scoop z j)} \<union> gaps z (j # is)"
| "gaps z _ = {}"

definition in_order :: "zscoops \<Rightarrow> sid list \<Rightarrow> bool" where
  "in_order z is \<longleftrightarrow> sorted_wrt (\<lambda>i j. sc_end (the_scoop z i) < sc_start (the_scoop z j)) is \<and>
     (\<forall>i \<in> set is. sc_start (the_scoop z i) \<le> sc_end (the_scoop z i) \<and> sc_end (the_scoop z i) \<le> 2 ^ 62)"

lemma in_order_Cons: "in_order z (i # is) \<Longrightarrow> in_order z is"
  by (simp add: in_order_def)

lemma gaps_above: "in_order z (i # is) \<Longrightarrow> gaps z (i # is) \<subseteq> {a. sc_end (the_scoop z i) < a}"
proof (induction "is" arbitrary: i)
  case (Cons j js)
  have "sc_end (the_scoop z i) < sc_start (the_scoop z j)" "sc_start (the_scoop z j) \<le> sc_end (the_scoop z j)"
    using Cons.prems by (simp_all add: in_order_def)
  then have "sc_end (the_scoop z i) < sc_end (the_scoop z j)" by simp
  moreover have "gaps z (j # js) \<subseteq> {a. sc_end (the_scoop z j) < a}" using Cons.IH in_order_Cons [OF Cons.prems] by simp
  ultimately show ?case by (auto dest: order.strict_trans)
qed simp

lemma gaps_extents: "in_order z is \<Longrightarrow> gaps z is \<inter> (\<Union>i \<in> set is. extent (the_scoop z i)) = {}"
proof (induction "is" rule: gaps.induct [of _ z])
  case (1 z i j js)
  let ?G = "{a. sc_end (the_scoop z i) < a \<and> a < sc_start (the_scoop z j)}"
  have j: "in_order z (j # js)" using in_order_Cons [OF 1(2)] .
  have "sc_start (the_scoop z j) \<le> sc_start (the_scoop z k)" if "k \<in> set (j # js)" for k
    using 1(2) that unfolding in_order_def
    by (auto intro: less_imp_le [OF order.strict_trans1])
  then have "?G \<inter> extent (the_scoop z k) = {}" if "k \<in> set (j # js)" for k
    using that by (fastforce simp: extent_def)
  moreover have "?G \<inter> extent (the_scoop z i) = {}" by (auto simp: extent_def)
  moreover have "gaps z (j # js) \<inter> extent (the_scoop z i) = {}"
  proof -
    have "sc_end (the_scoop z i) < a" if "a \<in> gaps z (j # js)" for a
      using gaps_above [OF 1(2)] that by auto
    then show ?thesis by (fastforce simp: extent_def)
  qed
  ultimately show ?case using 1(1) [OF j] by auto
qed simp_all

lemma gaps_cong: "\<forall>i \<in> set is. the_scoop z' i = the_scoop z i \<Longrightarrow> gaps z' is = gaps z is"
  by (induction "is" rule: gaps.induct [of _ z]) simp_all

lemma in_order_cong: "\<forall>i \<in> set is. the_scoop z' i = the_scoop z i \<Longrightarrow> in_order z' is = in_order z is"
  by (induction "is") (auto simp: in_order_def)

lemma add_region_regions:
  assumes "add_region b c z = Inr z'" "zs_ok z"
  shows "regions z' = extent c \<union> regions z"
proof -
  note sel = add_region_sel [OF assms(1)]
  have "the_scoop z' i = the_scoop z i" if "i \<in> set (zs_zipr z)" for i
    using zs_extends_scoop [OF sel(5) zs_ok_less [OF assms(2) that]] .
  then show ?thesis by (simp add: regions_def sel(3,6))
qed

lemma pad_gaps_ok:
  assumes "pad_gaps max_size min_distance is z = Inr z'" "zs_ok z" "\<forall>i \<in> set is. i < zs_next z" "in_order z is"
    and "regions z \<inter> gaps z is = {}" "max_size < 2 ^ 62" "1 \<le> min_distance"
  shows "zs_ok z' \<and> zs_extends z z' \<and> regions z' \<subseteq> regions z \<union> gaps z is"
  using assms
proof (induction "is" arbitrary: z)
  case (Cons i "is")
  show ?case
  proof (cases "is")
    case Nil
    then show ?thesis using Cons.prems by simp
  next
    case (Cons j js)
    let ?G = "{a. sc_end (the_scoop z i) < a \<and> a < sc_start (the_scoop z j)}"
    obtain z2 where z2: "pad_gap max_size min_distance (the_scoop z i) (the_scoop z j) z = Inr z2"
      "pad_gaps max_size min_distance (j # js) z2 = Inr z'"
      using Cons.prems(1) Cons by (auto simp: bindR_eq_Inr)
    have less: "sc_end (the_scoop z i) < sc_start (the_scoop z j)" "sc_start (the_scoop z j) \<le> 2 ^ 62"
      using Cons.prems(4) Cons by (auto simp: in_order_def)
    have step: "zs_ok z2 \<and> zs_extends z z2 \<and> regions z2 \<subseteq> regions z \<union> ?G"
      using z2(1) less Cons.prems(6,7)
    proof (cases rule: pad_gap_cases)
      case none
      then show ?thesis using Cons.prems(2) by simp
    next
      case (pad s e)
      obtain name bs where r: "add_region False (new_scoop name s e bs) z = Inr z2" using padding_scoop_region [OF pad(4)] by blast
      have ex: "extent (new_scoop name s e bs) \<subseteq> ?G" using pad(1-3) by (auto simp: extent_def new_scoop_def)
      have "zs_ok z2"
        by (rule add_region_ok [OF r Cons.prems(2)]) (use pad(1,2) ex Cons.prems(5) Cons in \<open>auto simp: new_scoop_def\<close>)
      then show ?thesis using add_region_regions [OF r Cons.prems(2)] add_region_sel(5) [OF r] ex by blast
    qed
    have sc: "\<forall>k \<in> set (j # js). the_scoop z2 k = the_scoop z k"
      using step Cons.prems(3) Cons zs_extends_scoop by auto
    have j: "in_order z (j # js)" using in_order_Cons Cons.prems(4) Cons by simp
    have "?G \<inter> gaps z (j # js) = {}"
    proof -
      have "sc_start (the_scoop z j) \<le> sc_end (the_scoop z j)" using j by (simp add: in_order_def)
      then show ?thesis using gaps_above [OF j] by fastforce
    qed
    then have "regions z2 \<inter> gaps z2 (j # js) = {}"
      using step Cons.prems(5) Cons unfolding gaps_cong [OF sc] by auto
    moreover have "\<forall>k \<in> set (j # js). k < zs_next z2" using step Cons.prems(3) Cons by (auto simp: zs_extends_def)
    moreover have "in_order z2 (j # js)" using j in_order_cong [OF sc] by simp
    ultimately have "zs_ok z' \<and> zs_extends z2 z' \<and> regions z' \<subseteq> regions z2 \<union> gaps z2 (j # js)"
      using Cons.IH [of z2] z2(2) step Cons.prems(6,7) Cons by simp
    then show ?thesis using step zs_extends_trans Cons unfolding gaps_cong [OF sc] by auto
  qed
qed simp

lemma sorted_scoops_in_order:
  assumes "apart z (set (sorted_scoops ptr z))" "\<forall>i \<in> set (sorted_scoops ptr z). sc_end (the_scoop z i) \<le> 2 ^ 62"
  shows "in_order z (sorted_scoops ptr z)"
proof -
  let ?is = "sorted_scoops ptr z"
  have "distinct ?is" by (simp add: sorted_scoops_def getDataScoops_def)
  moreover have "sorted_wrt (\<lambda>i j. sc_start (the_scoop z i) \<le> sc_start (the_scoop z j)) ?is"
    using sorted_sort_key [of "\<lambda>i. sc_start (the_scoop z i)"] by (simp add: sorted_scoops_def sorted_map)
  ultimately have "sorted_wrt (\<lambda>i j. i \<noteq> j \<and> sc_start (the_scoop z i) \<le> sc_start (the_scoop z j)) ?is"
    by (simp add: distinct_conv_nth sorted_wrt_iff_nth_less)
  then have "sorted_wrt (\<lambda>i j. sc_end (the_scoop z i) < sc_start (the_scoop z j)) ?is"
  proof (rule sorted_wrt_mono_rel [rotated])
    fix i j assume ij: "i \<in> set ?is" "j \<in> set ?is" "i \<noteq> j \<and> sc_start (the_scoop z i) \<le> sc_start (the_scoop z j)"
    then have "extent (the_scoop z i) \<inter> extent (the_scoop z j) = {}" "sc_start (the_scoop z j) \<le> sc_end (the_scoop z j)"
      using assms(1) by (auto simp: apart_def)
    then show "sc_end (the_scoop z i) < sc_start (the_scoop z j)" using ij(3) by (auto simp: extent_def not_le [symmetric])
  qed
  then show ?thesis using assms by (simp add: in_order_def apart_def)
qed

section \<open>Scoops that are placed, and bytes that are taken\<close>

text \<open>The memory space and the regions stay as they are.\<close>

definition same_regions :: "zscoops \<Rightarrow> zscoops \<Rightarrow> bool" where
  "same_regions z z' \<longleftrightarrow> zs_ms z' = zs_ms z \<and> zs_zipr z' = zs_zipr z \<and> zs_next z' = zs_next z \<and>
     (\<forall>i \<in> set (zs_zipr z). zs_scoops z' i = zs_scoops z i) \<and> (\<forall>i. zs_scoops z' i = None \<longleftrightarrow> zs_scoops z i = None)"

lemma same_regions_refl [simp]: "same_regions z z"
  by (simp add: same_regions_def)

lemma same_regions_trans: "same_regions x y \<Longrightarrow> same_regions y z \<Longrightarrow> same_regions x z"
  by (simp add: same_regions_def)

lemma same_regions_ok: "same_regions z z' \<Longrightarrow> zs_ok z \<Longrightarrow> zs_ok z'" "same_regions z z' \<Longrightarrow> regions z' = regions z"
proof -
  assume s: "same_regions z z'"
  then have "\<forall>i \<in> set (zs_zipr z). the_scoop z' i = the_scoop z i" by (simp add: same_regions_def the_scoop_def)
  then show r: "regions z' = regions z" using s by (simp add: regions_def same_regions_def)
  show "zs_ok z \<Longrightarrow> zs_ok z'" using s r by (simp add: zs_ok_def same_regions_def the_scoop_def)
qed

lemma place_scoops_same:
  assumes "set is \<inter> set (zs_zipr (snd mz)) = {}"
  shows "same_regions (snd mz) (snd (fold place_scoop is mz))"
  using assms
proof (induction "is" arbitrary: mz)
  case (Cons i "is")
  have s: "same_regions (snd mz) (snd (place_scoop i mz))"
    using Cons.prems by (auto simp: place_scoop_def same_regions_def Let_def split: prod.splits)
  then have "zs_zipr (snd (place_scoop i mz)) = zs_zipr (snd mz)" by (simp add: same_regions_def)
  then show ?case using Cons.IH [of "place_scoop i mz"] Cons.prems s same_regions_trans by auto
qed simp

lemma place_group_same:
  assumes "\<forall>i \<in> set (zs_zipr z0). sc_start (the_scoop z0 i) \<noteq> 0" "zs_zipr (snd mz) = zs_zipr z0"
  shows "same_regions (snd mz) (snd (place_group ptr z0 k mz))"
proof -
  have "place_group ptr z0 k mz = fold place_scoop (List.filter (\<lambda>i. sc_start (the_scoop z0 i) = 0 \<and> perms_key (the_scoop z0 i) = k)
      (getDataScoops ptr z0)) (page_round_up (fst mz), snd mz)" by (simp add: place_group_def case_prod_beta)
  then show ?thesis using place_scoops_same [of _ "(page_round_up (fst mz), snd mz)"] assms by force
qed

lemma place_groups_same:
  assumes "\<forall>i \<in> set (zs_zipr z0). sc_start (the_scoop z0 i) \<noteq> 0" "zs_zipr (snd mz) = zs_zipr z0"
  shows "same_regions (snd mz) (snd (fold (place_group ptr z0) ks mz))"
  using assms(2)
proof (induction ks arbitrary: mz)
  case (Cons k ks)
  have s: "same_regions (snd mz) (snd (place_group ptr z0 k mz))" by (rule place_group_same [OF assms(1) Cons.prems])
  then have "zs_zipr (snd (place_group ptr z0 k mz)) = zs_zipr z0" using Cons.prems by (simp add: same_regions_def)
  from Cons.IH [OF this] show ?case using s same_regions_trans by simp
qed simp

lemma PlaceUnplacedScoops_same:
  assumes run: "PlaceUnplacedScoops ptr pb pe m z = Inr (m', z')"
    and plugins: "\<forall>m z. same_regions z (snd (pb m z))" "\<forall>m z. same_regions z (snd (pe m z))"
    and pinned: "\<forall>i \<in> set (zs_zipr z). sc_start (the_scoop z i) \<noteq> 0"
  shows "same_regions z z'"
proof -
  obtain m0 z0 where 0: "pb m z = (m0, z0)" by fastforce
  have s0: "same_regions z z0" using plugins(1) [rule_format, of z m] 0 by simp
  have p0: "\<forall>i \<in> set (zs_zipr z0). sc_start (the_scoop z0 i) \<noteq> 0" using pinned s0 by (simp add: same_regions_def the_scoop_def)
  obtain m1 z1 where 1: "fold (place_group ptr z0) (sort (remdups (map (\<lambda>i. perms_key (the_scoop z0 i))
      (List.filter (\<lambda>i. sc_start (the_scoop z0 i) = 0) (getDataScoops ptr z0))))) (m0, z0) = (m1, z1)" by fastforce
  have s1: "same_regions z0 z1" using place_groups_same [OF p0, of "(m0, z0)" ptr] 1 by (metis snd_conv)
  have "pe m1 z1 = (m', z')" using run 0 1 by (simp add: PlaceUnplacedScoops_def Let_def assertR_eq_Inr)
  then have "same_regions z1 z'" using plugins(2) [rule_format, of z1 m1] by simp
  then show ?thesis using s0 s1 same_regions_trans by blast
qed

definition taken :: "zscoops \<Rightarrow> sid \<Rightarrow> addr set" where
  "taken z i = (if sc_registered (the_scoop z i) then set (addrs (sc_start (the_scoop z i)) (length (sc_contents (the_scoop z i)))) else {})"

lemma preallocate_same: "foldR preallocate is z = Inr z' \<Longrightarrow> zs_scoops z' = zs_scoops z \<and> zs_zipr z' = zs_zipr z \<and> zs_new_space z' = zs_new_space z \<and> zs_next z' = zs_next z"
proof (induction "is" arbitrary: z)
  case (Cons i "is")
  obtain z2 where z2: "preallocate i z = Inr z2" "foldR preallocate is z2 = Inr z'" using Cons.prems by (auto simp: bindR_eq_Inr)
  have "zs_scoops z2 = zs_scoops z \<and> zs_zipr z2 = zs_zipr z \<and> zs_new_space z2 = zs_new_space z \<and> zs_next z2 = zs_next z"
    using z2(1) by (auto simp: preallocate_def Let_def on_zs_ms_def bindR_eq_Inr split: if_splits)
  then show ?case using Cons.IH [OF z2(2)] by simp
qed simp

lemma preallocate_ok:
  assumes "foldR preallocate is z = Inr z'" "ms_ok (zs_ms z)"
    and "\<forall>i \<in> set is. sc_registered (the_scoop z i) \<longrightarrow> length (sc_contents (the_scoop z i)) \<le> 2 ^ 64"
  shows "ms_ok (zs_ms z') \<and> free_set (zs_ms z') = free_set (zs_ms z) - (\<Union>i \<in> set is. taken z i) \<and> z' = z\<lparr>zs_ms := zs_ms z'\<rparr>"
  using assms
proof (induction "is" arbitrary: z)
  case (Cons i "is")
  obtain z2 where z2: "preallocate i z = Inr z2" "foldR preallocate is z2 = Inr z'"
    using Cons.prems(1) by (auto simp: bindR_eq_Inr)
  have s: "ms_ok (zs_ms z2) \<and> free_set (zs_ms z2) = free_set (zs_ms z) - taken z i \<and> z2 = z\<lparr>zs_ms := zs_ms z2\<rparr>"
  proof (cases "sc_registered (the_scoop z i)")
    case True
    then have l: "length (sc_contents (the_scoop z i)) \<le> 2 ^ 64" using Cons.prems(3) by simp
    obtain ms where ms: "PlopBytes (sc_start (the_scoop z i)) (sc_contents (the_scoop z i)) (zs_ms z) = Inr ms" "ms_ok ms"
        "free_set ms = free_set (zs_ms z) - set (addrs (sc_start (the_scoop z i)) (length (sc_contents (the_scoop z i))))"
      using PlopBytes_ok [OF Cons.prems(2) l] by blast
    have "z2 = z\<lparr>zs_ms := ms\<rparr>" using z2(1) True ms(1) by (simp add: preallocate_def Let_def on_zs_ms_def)
    then show ?thesis using ms True by (simp add: taken_def)
  next
    case False
    then have "z2 = z" using z2(1) by (simp add: preallocate_def Let_def)
    then show ?thesis using False Cons.prems(2) by (simp add: taken_def)
  qed
  then have t: "the_scoop z2 j = the_scoop z j" "taken z2 j = taken z j" for j
  proof -
    have "zs_scoops z2 = zs_scoops z" using arg_cong [OF s [THEN conjunct2, THEN conjunct2], of zs_scoops] by simp
    then show "the_scoop z2 j = the_scoop z j" "taken z2 j = taken z j" by (simp_all add: the_scoop_def taken_def)
  qed
  have "ms_ok (zs_ms z') \<and> free_set (zs_ms z') = free_set (zs_ms z2) - (\<Union>i \<in> set is. taken z2 i) \<and> z' = z2\<lparr>zs_ms := zs_ms z'\<rparr>"
    using Cons.IH [OF z2(2)] s Cons.prems(3) by (simp add: t)
  moreover from this have "z' = z\<lparr>zs_ms := zs_ms z'\<rparr>" using s by (cases z; cases z2; cases z') simp
  ultimately show ?case using s t(2) by auto
qed simp

lemma fold_max_le: "fold (\<lambda>i m. max (f i) m) is a \<le> b \<longleftrightarrow> a \<le> b \<and> (\<forall>i \<in> set is. f i \<le> (b :: addr))"
  by (induction "is" arbitrary: a) auto

lemma getDataScoops_set: "\<forall>i \<ge> zs_next z. zs_scoops z i = None \<Longrightarrow> set (getDataScoops ptr z) = {i. zs_scoops z i \<noteq> None}"
  by (auto simp: getDataScoops_def not_less [symmetric])

lemma free_space:
  assumes run: "FindFreeRanges max_size min_distance ptr pb pe secs z = Inr z'"
    and init: "zs_ms z = ms_init" "\<forall>i \<ge> zs_next z. zs_scoops z i = None"
    and ces: "CreateExecutableScoops max_size 0 (ordered_sections secs) z = Inr z1"
    and apart: "apart z1 (set (sorted_scoops ptr z1) \<union> set (zs_zipr z1))"
      "\<forall>i \<in> set (sorted_scoops ptr z1). sc_end (the_scoop z1 i) \<le> 2 ^ 62"
    and plugins: "\<forall>m z. same_regions z (snd (pb m z))" "\<forall>m z. same_regions z (snd (pe m z))"
    and behind: "max_section_end (ordered_sections secs) < zs_new_space z'"
    and strings: "\<forall>i \<in> set (getDataScoops ptr z'). sc_registered (the_scoop z' i) \<longrightarrow> length (sc_contents (the_scoop z' i)) \<le> 2 ^ 64"
    and params: "max_size < 2 ^ 62" "1 \<le> min_distance"
  shows "ms_ok (zs_ms z') \<and> free_set (zs_ms z') = regions z' - (\<Union>i \<in> set (getDataScoops ptr z'). taken z' i)"
proof -
  let ?ss = "ordered_sections secs"
  let ?P = "\<lambda>m. page_round_up m"
  have nil: "zs_zipr z = []" using run by (simp add: FindFreeRanges_def assertR_eq_Inr)
  have run': "bindR (pad_gaps max_size min_distance (sorted_scoops ptr z1) z1) (\<lambda>z.
     if zs_zipr z = [] then Inl NullDeref
     else assertR (fold (\<lambda>i m. max (sc_end (the_scoop z i)) m) (zs_zipr z) 0 \<le> max_section_end ?ss) (\<lambda>_.
     bindR (PlaceUnplacedScoops ptr pb pe (max_section_end ?ss) z) (\<lambda>(max_addr, z).
     bindR (add_textra (page_round_up max_addr) z) (\<lambda>z.
     foldR preallocate (getDataScoops ptr z) z)))) = Inr z'"
    using run nil ces by (simp add: FindFreeRanges_def assertR_def Let_def)
  then obtain z2 m3 z3 z4 where z2: "pad_gaps max_size min_distance (sorted_scoops ptr z1) z1 = Inr z2"
      and top: "fold (\<lambda>i m. max (sc_end (the_scoop z2 i)) m) (zs_zipr z2) 0 \<le> max_section_end ?ss"
      and z3: "PlaceUnplacedScoops ptr pb pe (max_section_end ?ss) z2 = Inr (m3, z3)"
      and z4: "add_textra (page_round_up m3) z3 = Inr z4" and z5: "foldR preallocate (getDataScoops ptr z4) z4 = Inr z'"
    by (auto simp: bindR_eq_Inr assertR_eq_Inr split: if_splits)
  have ok0: "zs_ok z" using init nil by (simp add: zs_ok_def ms_ok_init regions_def)
  have apart1: "apart z1 (set (sorted_scoops ptr z1))" "apart z1 (set (zs_zipr z1))" using apart(1) by (auto simp: apart_def)
  have ok1: "zs_ok z1" by (rule CreateExecutableScoops_ok [OF ces ok0 apart1(2)])
  have order: "in_order z1 (sorted_scoops ptr z1)" by (rule sorted_scoops_in_order [OF apart1(1) apart(2)])
  have less: "\<forall>i \<in> set (sorted_scoops ptr z1). i < zs_next z1"
    by (simp add: sorted_scoops_def getDataScoops_def)
  have sub: "set (zs_zipr z1) \<subseteq> set (sorted_scoops ptr z1)"
  proof
    fix i assume i: "i \<in> set (zs_zipr z1)"
    have "zs_scoops z1 i \<noteq> None" using ok1 i by (simp add: zs_ok_def)
    moreover have "sc_start (the_scoop z1 i) \<noteq> 0" using apart1(2) i by (simp add: apart_def)
    ultimately show "i \<in> set (sorted_scoops ptr z1)" using i zs_ok_less [OF ok1 i] by (simp add: sorted_scoops_def getDataScoops_def)
  qed
  then have "regions z1 \<inter> gaps z1 (sorted_scoops ptr z1) = {}" using gaps_extents [OF order] by (auto simp: regions_def)
  from pad_gaps_ok [OF z2 ok1 less order this params] have ok2: "zs_ok z2" and
    sub2: "zs_extends z1 z2" "regions z2 \<subseteq> regions z1 \<union> gaps z1 (sorted_scoops ptr z1)" by blast+
  have above: "sc_end (the_scoop z2 i) \<le> max_section_end ?ss" if "i \<in> set (zs_zipr z2)" for i
    using top that by (simp add: fold_max_le)
  have pinned: "sc_start (the_scoop z2 i) \<noteq> 0" if "i \<in> set (zs_zipr z2)" for i
    using ok2 that by (simp add: zs_ok_def)
  have s3: "same_regions z2 z3" using PlaceUnplacedScoops_same [OF z3 plugins] pinned by blast
  note ok3 = same_regions_ok [OF s3]
  define c where "c = new_scoop ''textra'' (page_round_up m3) (- 1) []"
  obtain z4' where z4': "add_region True c z3 = Inr z4'" "z4 = z4'\<lparr>zs_new_space := page_round_up m3\<rparr>"
    using z4 by (auto simp: add_textra_def addNewDataScoop_def bindR_eq_Inr add_region_def with_region_def c_def new_scoop_def)
  have same: "zs_scoops z' = zs_scoops z4 \<and> zs_zipr z' = zs_zipr z4 \<and> zs_new_space z' = zs_new_space z4 \<and> zs_next z' = zs_next z4" by (rule preallocate_same [OF z5])
  have new: "zs_new_space z' = page_round_up m3" using same z4'(2) by simp
  have "sc_end (the_scoop z3 i) < page_round_up m3" if "i \<in> set (zs_zipr z3)" for i
  proof -
    have "i \<in> set (zs_zipr z2)" "the_scoop z3 i = the_scoop z2 i" using s3 that by (simp_all add: same_regions_def the_scoop_def)
    then show ?thesis using above behind new by (metis order.strict_trans1)
  qed
  then have "extent c \<inter> regions z3 = {}" by (fastforce simp: regions_def extent_def c_def new_scoop_def)
  moreover have "page_round_up m3 \<noteq> 0" using behind new by auto
  ultimately have ok4: "zs_ok z4'" using add_region_ok [OF z4'(1) ok3(1) [OF ok2]] by (simp add: c_def new_scoop_def)
  have ok: "ms_ok (zs_ms z4)" "free_set (zs_ms z4) = regions z4" "\<forall>i \<ge> zs_next z4. zs_scoops z4 i = None"
    using ok4 z4'(2) by (simp_all add: zs_ok_def regions_def the_scoop_def)
  have t: "the_scoop z' i = the_scoop z4 i" "taken z' i = taken z4 i" for i using same by (simp_all add: the_scoop_def taken_def)
  have r: "regions z' = regions z4" using same t(1) by (simp add: regions_def)
  have "\<forall>i \<in> set (getDataScoops ptr z4). sc_registered (the_scoop z4 i) \<longrightarrow> length (sc_contents (the_scoop z4 i)) \<le> 2 ^ 64"
    using strings same t(1) by (simp add: getDataScoops_def)
  from preallocate_ok [OF z5 ok(1) this] show ?thesis
    using ok(2) r same t(2) by (simp add: getDataScoops_def)
qed

section \<open>Properties\<close>

text \<open>C4: After \<open>FindFreeRanges\<close> the free addresses are exactly the addresses of the regions made
  for the new program (the executable sections, the gaps that are filled, and the space behind
  the program) without the bytes of the regions of the input, and both views of the free ranges
  agree. So no code is ever put outside these regions or over a byte of the input's data. The
  theorem needs the pinned regions to lie apart and below \<open>2 ^ 62\<close>, the space behind the program
  to start behind the last section, and plugins that leave the regions alone.\<close>

theorem FindFreeRanges_free_space:
  assumes "FindFreeRanges max_size min_distance ptr pb pe secs z = Inr z'"
    and "zs_ms z = ms_init" "\<forall>i \<ge> zs_next z. zs_scoops z i = None"
    and "CreateExecutableScoops max_size 0 (ordered_sections secs) z = Inr z1"
    and "apart z1 (set (sorted_scoops ptr z1) \<union> set (zs_zipr z1))"
      "\<forall>i \<in> set (sorted_scoops ptr z1). sc_end (the_scoop z1 i) \<le> 2 ^ 62"
    and "\<forall>m z. same_regions z (snd (pb m z))" "\<forall>m z. same_regions z (snd (pe m z))"
    and "max_section_end (ordered_sections secs) < zs_new_space z'"
    and "\<forall>i \<in> set (getDataScoops ptr z'). sc_registered (the_scoop z' i) \<longrightarrow> length (sc_contents (the_scoop z' i)) \<le> 2 ^ 64"
    and "max_size < 2 ^ 62" "1 \<le> min_distance"
  shows "ms_ok (zs_ms z') \<and>
    (\<forall>a. IsByteFree a (zs_ms z') \<longleftrightarrow>
       (\<exists>i \<in> set (zs_zipr z'). sc_start (the_scoop z' i) \<le> a \<and> a \<le> sc_end (the_scoop z' i)) \<and>
       (\<forall>i \<in> set (getDataScoops ptr z'). a \<notin> taken z' i))"
  using free_space [OF assms] by (simp add: IsByteFree_iff regions_def extent_def)


definition small_scoop :: "addr \<Rightarrow> addr \<Rightarrow> byte list \<Rightarrow> scoop" where
  "small_scoop s e bs = (new_scoop ''data'' s e bs)\<lparr>sc_perms := 4, sc_registered := True\<rparr>"

definition scoops_sample :: zscoops where
  "scoops_sample = \<lparr>zs_scoops = [0 \<mapsto> small_scoop 0x1010 0x1013 [1, 2, 3, 4], 1 \<mapsto> small_scoop 0x1040 0x1043 [5, 6, 7, 8],
       2 \<mapsto> small_scoop 0 3 [9, 9, 9, 9]],
     zs_next = 3, zs_zipr = [], zs_ms = ms_init, zs_new_space = 0\<rparr>"

definition sections_sample :: "section_t list" where
  "sections_sample = [\<lparr>sec_addr = 0x1010, sec_size = 4, sec_loadable = True, sec_exec = False\<rparr>,
     \<lparr>sec_addr = 0x1000, sec_size = 0x10, sec_loadable = True, sec_exec = True\<rparr>,
     \<lparr>sec_addr = 0x1040, sec_size = 4, sec_loadable = True, sec_exec = False\<rparr>]"

definition no_plugins :: "addr \<Rightarrow> zscoops \<Rightarrow> addr \<times> zscoops" where
  "no_plugins m z = (m, z)"

lemma scoops_sample_ces:
  "case CreateExecutableScoops 100 0 (ordered_sections sections_sample) scoops_sample of
     Inr z \<Rightarrow> zs_zipr z = [3] \<and> sorted_scoops id z = [3, 0, 1] \<and>
       map (\<lambda>i. (sc_start (the_scoop z i), sc_end (the_scoop z i))) [3, 0, 1] = [(0x1000, 0x100f), (0x1010, 0x1013), (0x1040, 0x1043)]
   | Inl _ \<Rightarrow> False"
  by code_simp

lemma scoops_sample_run:
  "case FindFreeRanges 100 1 id no_plugins no_plugins sections_sample scoops_sample of
     Inr z \<Rightarrow> zs_zipr z = [5, 4, 3] \<and> getDataScoops id z = [0, 1, 2, 3, 4, 5] \<and> zs_new_space z = 0x3000 \<and>
       map (\<lambda>i. (sc_start (the_scoop z i), sc_end (the_scoop z i), length (sc_contents (the_scoop z i)), sc_registered (the_scoop z i))) [0, 1, 2, 3, 4, 5] =
         [(0x1010, 0x1013, 4, True), (0x1040, 0x1043, 4, True), (0x2000, 0x2003, 4, True), (0x1000, 0x100f, 16, False),
          (0x1014, 0x103f, 44, False), (0x3000, - 1, 0, False)]
   | Inl _ \<Rightarrow> False"
  by code_simp

theorem FindFreeRanges_free_space_witness:
  "\<exists>z'. FindFreeRanges 100 1 id no_plugins no_plugins sections_sample scoops_sample = Inr z' \<and>
     IsByteFree 0x1014 (zs_ms z') \<and> \<not> IsByteFree 0x1010 (zs_ms z') \<and> \<not> IsByteFree 0x2100 (zs_ms z')"
proof -
  obtain z1 where ces: "CreateExecutableScoops 100 0 (ordered_sections sections_sample) scoops_sample = Inr z1"
    using scoops_sample_ces by (auto split: sum.splits)
  note c = scoops_sample_ces [unfolded ces sum.case]
  obtain z' where run: "FindFreeRanges 100 1 id no_plugins no_plugins sections_sample scoops_sample = Inr z'"
    using scoops_sample_run by (auto split: sum.splits)
  note r = scoops_sample_run [unfolded run sum.case]
  have set1: "set (sorted_scoops id z1) \<union> set (zs_zipr z1) = {3, 0, 1}" "set (sorted_scoops id z1) = {3, 0, 1}" using c by auto
  have s1: "sc_start (the_scoop z1 3) = 0x1000" "sc_end (the_scoop z1 3) = 0x100f" "sc_start (the_scoop z1 0) = 0x1010"
    "sc_end (the_scoop z1 0) = 0x1013" "sc_start (the_scoop z1 1) = 0x1040" "sc_end (the_scoop z1 1) = 0x1043"
    using c by simp_all
  have "apart z1 {3, 0, 1}" unfolding apart_def extent_def by (simp add: s1 del: One_nat_def)
  then have a: "apart z1 (set (sorted_scoops id z1) \<union> set (zs_zipr z1))" by (simp only: set1(1))
  have e: "\<forall>i \<in> set (sorted_scoops id z1). sc_end (the_scoop z1 i) \<le> 2 ^ 62"
    unfolding set1(2) by (simp add: s1 del: One_nat_def)
  have p: "\<forall>m z. same_regions z (snd (no_plugins m z))" by (simp add: no_plugins_def)
  have "max_section_end (ordered_sections sections_sample) = 0x1043" by code_simp
  then have b: "max_section_end (ordered_sections sections_sample) < zs_new_space z'" using r by simp
  have l: "\<forall>i \<in> set (getDataScoops id z'). sc_registered (the_scoop z' i) \<longrightarrow> length (sc_contents (the_scoop z' i)) \<le> 2 ^ 64"
    using r by simp
  have i: "zs_ms scoops_sample = ms_init" "\<forall>i \<ge> zs_next scoops_sample. zs_scoops scoops_sample i = None"
    by (auto simp: scoops_sample_def)
  have f: "IsByteFree a (zs_ms z') \<longleftrightarrow>
       (\<exists>i \<in> set (zs_zipr z'). sc_start (the_scoop z' i) \<le> a \<and> a \<le> sc_end (the_scoop z' i)) \<and>
       (\<forall>i \<in> set (getDataScoops id z'). a \<notin> taken z' i)" for a
  proof -
    have "(100 :: nat) < 2 ^ 62" "1 \<le> (1 :: uint32)" by simp_all
    from FindFreeRanges_free_space [OF run i ces a e p p b l this] show ?thesis by blast
  qed
  have sets: "set (zs_zipr z') = {3, 4, 5}" "set (getDataScoops id z') = {0, 1, 2, 3, 4, 5}" using r by auto
  have z: "map (\<lambda>i. (sc_start (the_scoop z' i), sc_end (the_scoop z' i), length (sc_contents (the_scoop z' i)), sc_registered (the_scoop z' i))) [0, 1, 2, 3, 4, 5] =
         [(0x1010, 0x1013, 4, True), (0x1040, 0x1043, 4, True), (0x2000, 0x2003, 4, True), (0x1000, 0x100f, 16, False),
          (0x1014, 0x103f, 44, False), (0x3000, - 1, 0, False)]" using r by blast
  have t: "taken z' 0 = set (addrs 0x1010 4)" "taken z' 1 = set (addrs 0x1040 4)" "taken z' 2 = set (addrs 0x2000 4)"
    "taken z' 3 = {}" "taken z' 4 = {}" "taken z' 5 = {}" using z by (simp_all add: taken_def)
  have x: "sc_start (the_scoop z' 3) = 0x1000" "sc_end (the_scoop z' 3) = 0x100f" "sc_start (the_scoop z' 4) = 0x1014"
    "sc_end (the_scoop z' 4) = 0x103f" "sc_start (the_scoop z' 5) = 0x3000" using z by simp_all
  have "IsByteFree 0x1014 (zs_ms z')"
    unfolding f sets by (simp add: x t addrs_def upt_rec del: One_nat_def)
  moreover have "\<not> IsByteFree 0x1010 (zs_ms z')" unfolding f sets by (simp add: x t addrs_def upt_rec del: One_nat_def)
  moreover have "\<not> IsByteFree 0x2100 (zs_ms z')" unfolding f sets by (simp add: x t addrs_def upt_rec del: One_nat_def)
  ultimately show ?thesis using run by blast
qed

section \<open>Where the code does not do what it means to\<close>

text \<open>
  The size of a gap is computed as start minus end, so the minimal size has no effect: any gap
  of two bytes or more, up to almost 4 gigabytes, is filled.
\<close>

lemma negative_mod:
  assumes "0 < k" "k < (2 :: nat) ^ 32"
  shows "(2 ^ 64 - k) mod 2 ^ 32 = 2 ^ 32 - k"
proof -
  have "2 ^ 64 - k = (2 ^ 32 - k) + (2 ^ 32 - 1) * 2 ^ 32" using assms by simp
  then have "(2 ^ 64 - k) mod 2 ^ 32 = (2 ^ 32 - k) mod 2 ^ 32" by (metis mod_mult_self1)
  then show ?thesis using assms by simp
qed

lemma min_distance_ignored:
  assumes "\<not> isWriteable this" "\<not> isWriteable next" "sc_end this < sc_start next"
    and "sc_end this + 1 < sc_start next - 1"
    and "sc_start next - 1 - (sc_end this + 1) < 2 ^ 32 - ucast (min_distance :: uint32)"
  shows "pad_gap max_size min_distance this next z = padding_scoop max_size (sc_end this + 1) (sc_start next - 1) z"
proof -
  define s where "s = sc_end this + 1"
  define e where "e = sc_start next - 1"
  have se: "s < e" "e - s < 2 ^ 32 - ucast min_distance" using assms(4,5) by (simp_all add: s_def e_def)
  have m: "unat min_distance < 2 ^ 32" using unsigned_less [of min_distance] by simp
  have um: "unat (ucast min_distance :: addr) = unat min_distance" using m by (simp add: unsigned_ucast_eq take_bit_nat_eq_self)
  have d: "unat (e - s) = unat e - unat s" using se(1) by (simp add: unat_sub)
  have "unat (2 ^ 32 - ucast min_distance :: addr) = 2 ^ 32 - unat min_distance"
    using m um by (subst unat_sub) (simp_all add: word_le_nat_alt)
  then have lt: "unat e - unat s < 2 ^ 32 - unat min_distance" "0 < unat e - unat s"
    using se d by (simp_all add: word_less_nat_alt)
  have "unat (s - e) = 2 ^ 64 - (unat e - unat s)"
    using se(1) unat_addr_less [of e] by (simp add: unat_sub_if_size word_size word_less_nat_alt)
  then have "unat (ucast (s - e) :: uint32) = (2 ^ 64 - (unat e - unat s)) mod 2 ^ 32" by (simp add: unsigned_ucast_eq take_bit_eq_mod)
  also have "\<dots> = 2 ^ 32 - (unat e - unat s)" by (rule negative_mod) (use lt in linarith)+
  finally have "min_distance < (ucast (s - e) :: uint32)" using lt m by (simp add: word_less_nat_alt)
  moreover have "\<not> sc_start next < sc_end this" using assms(3) by simp
  ultimately show ?thesis
    unfolding pad_gap_def Let_def s_def [symmetric] e_def [symmetric] using assms(1,2) by (simp only: if_False not_False_eq_True simp_thms if_True)
qed

text \<open>
  Rounding down goes to the page before, and past the start of the gap: with the default
  minimum of 5 kilobytes the call for the contents of the region that results throws.
\<close>

lemma pad_gap_throws:
  assumes "max_size < 2 ^ 63"
  shows "pad_gap max_size 5120 (new_scoop ''a'' 0x11000 0x11ffd []) ((new_scoop ''b'' 0x11fff 0x12fff [])\<lparr>sc_perms := 6\<rparr>) z = Inl LengthError"
  using assms
  by (simp add: pad_gap_def new_scoop_def isWriteable_def page_round_down_def padding_scoop_def zeros_def)

text \<open>
  A region that overlaps a free range is only entered into the view by size, from which
  \<open>getFreeRange\<close> chooses; the view by address, which the assertions consult, does not change.
\<close>

lemma AddFreeRange_overlap:
  assumes "ms_ok ms" "range_ok v" "range_bytes v \<inter> free_set ms \<noteq> {}" "AddFreeRange v ms = Inr ms'"
  shows "by_address (free_ranges ms') = by_address (free_ranges ms)" "\<And>a. IsByteFree a ms' \<longleftrightarrow> IsByteFree a ms"
proof -
  have "rs_ok (by_address (free_ranges ms))" using assms(1) by (simp add: ms_ok_def fr_ok_rs)
  moreover obtain x r where "r \<in> set (by_address (free_ranges ms))" "r_start r \<le> x" "x \<le> r_end r" "r_start v \<le> x" "x \<le> r_end v"
    using assms(3) by (auto simp: free_set_elems elems_def range_bytes_def)
  then have "\<exists>r \<in> set (by_address (free_ranges ms)). overlap r v"
    unfolding overlap_def range_less_def by (metis leD order.trans)
  ultimately have "rs_find v (by_address (free_ranges ms)) \<noteq> None"
    using rs_find_iff [of "by_address (free_ranges ms)" v] assms(2) by (auto simp: range_ok_def)
  then show b: "by_address (free_ranges ms') = by_address (free_ranges ms)"
    using assms(4) by (auto simp: AddFreeRange_def lift_fr_def bindR_eq_Inr fr_insert_def assertR_eq_Inr Let_def rs_insert_def)
  show "IsByteFree a ms' \<longleftrightarrow> IsByteFree a ms" for a using b by (simp add: IsByteFree_def FindFreeRange_def fr_find_def)
qed

end
