(* ===== verification/Zipr_ElfHdr.thy ===== *)
theory Zipr_ElfHdr
  imports Zipr_Prelude
begin

text \<open>
  The three headers of an ELF file and their byte order (\<open>zipr/src/elfwrite.cpp\<close>, the
  functions in front of \<open>ElfWriter::Write\<close>). The templates take the 32-bit and the 64-bit
  structures; here the width of an address is the type \<open>'w\<close>, and the test
  \<open>sizeof(ehdr.e_entry)\<close> is one on \<open>LENGTH('w)\<close>. The host is little-endian.
\<close>

section \<open>Byte order\<close>

text \<open>The conversions of \<open>endian.h\<close>. An argument of another width is converted, as C does.\<close>

definition swap_bytes :: "nat \<Rightarrow> 'a::len word \<Rightarrow> 'a word" where
  "swap_bytes n x = foldl (\<lambda>a i. push_bit 8 a OR (drop_bit (8 * i) x AND 0xff)) 0 [0..<n]"

definition be16 :: "'a::len word \<Rightarrow> 'a word" where
  "be16 x = ucast (swap_bytes 2 (ucast x :: 16 word))"

definition be32 :: "'a::len word \<Rightarrow> 'a word" where
  "be32 x = ucast (swap_bytes 4 (ucast x :: 32 word))"

definition be64 :: "'a::len word \<Rightarrow> 'a word" where
  "be64 x = ucast (swap_bytes 8 (ucast x :: 64 word))"

definition le16 :: "'a::len word \<Rightarrow> 'a word" where
  "le16 x = ucast (ucast x :: 16 word)"

definition le32 :: "'a::len word \<Rightarrow> 'a word" where
  "le32 x = ucast (ucast x :: 32 word)"

definition le64 :: "'a::len word \<Rightarrow> 'a word" where
  "le64 x = ucast (ucast x :: 64 word)"

text \<open>The bytes of a number in the memory of the host.\<close>

definition to_bytes :: "'a::len word \<Rightarrow> byte list" where
  "to_bytes x = map (\<lambda>i. ucast (drop_bit (8 * i) x)) [0..<LENGTH('a) div 8]"

definition of_bytes :: "byte list \<Rightarrow> 'a::len word" where
  "of_bytes bs = foldr (\<lambda>b a. push_bit 8 a OR ucast b) bs 0"

lemma and_byte_mask: "(x :: 'a::len word) AND 0xff = take_bit 8 x"
proof -
  have "(0xff :: 'a word) = mask 8" by (simp add: mask_eq_exp_minus_1)
  then show ?thesis by (simp only: take_bit_eq_mask)
qed

lemma swap_bytes_Suc:
  "swap_bytes (Suc n) x = push_bit 8 (swap_bytes n x) OR take_bit 8 (drop_bit (8 * n) x)"
  by (simp add: swap_bytes_def and_byte_mask)

lemma bit_swap_bytes:
  fixes x :: "'a::len word"
  assumes "8 * n \<le> LENGTH('a)"
  shows "bit (swap_bytes n x) k \<longleftrightarrow> k < 8 * n \<and> bit x (8 * (n - 1 - k div 8) + k mod 8)"
  using assms
proof (induction n arbitrary: k)
  case 0
  show ?case by (simp add: swap_bytes_def)
next
  case (Suc n)
  show ?case
  proof (cases "k < 8")
    case True
    with Suc.prems show ?thesis by (simp add: swap_bytes_Suc bit_simps)
  next
    case False
    then have d: "k div 8 = Suc ((k - 8) div 8)" "k mod 8 = (k - 8) mod 8"
      by (simp_all add: le_div_geq le_mod_geq)
    have "bit (swap_bytes (Suc n) x) k \<longleftrightarrow> k < LENGTH('a) \<and> bit (swap_bytes n x) (k - 8)"
      using False by (auto simp: swap_bytes_Suc bit_simps)
    then show ?thesis
      using False Suc.prems Suc.IH [of "k - 8"] by (auto simp: d)
  qed
qed

lemma swap_bytes_swap_bytes:
  fixes x :: "'a::len word"
  assumes "LENGTH('a) = 8 * n"
  shows "swap_bytes n (swap_bytes n x) = x"
proof (rule bit_word_eqI)
  fix k
  assume "k < LENGTH('a)"
  then have k: "k < 8 * n" by (simp add: assms)
  then have "k div 8 < n" by auto
  moreover have "(8 * (n - 1 - k div 8) + k mod 8) div 8 = n - 1 - k div 8"
    by simp
  ultimately show "bit (swap_bytes n (swap_bytes n x)) k \<longleftrightarrow> bit x k"
    using k by (auto simp: bit_swap_bytes assms)
qed

lemma be_be [simp]:
  "be16 (be16 h) = (h :: 16 word)" "be32 (be32 w) = (w :: 32 word)" "be64 (be64 x) = (x :: 64 word)"
  by (simp_all add: be16_def be32_def be64_def swap_bytes_swap_bytes)

lemma le_id [simp]:
  "le16 h = (h :: 16 word)" "le32 w = (w :: 32 word)" "le64 x = (x :: 64 word)"
  by (simp_all add: le16_def le32_def le64_def)

text \<open>At a type whose width is that of the conversion.\<close>

lemma ucast_back:
  fixes x :: "'a::len word"
  assumes "LENGTH('a) = LENGTH('b::len)"
  shows "ucast (ucast x :: 'b word) = x"
  by (rule bit_word_eqI) (simp add: bit_simps flip: assms)

lemma be32_be32: "LENGTH('a::len) = 32 \<Longrightarrow> be32 (be32 x) = (x :: 'a word)"
  by (simp add: be32_def swap_bytes_swap_bytes ucast_back)

lemma be64_be64: "LENGTH('a::len) = 64 \<Longrightarrow> be64 (be64 x) = (x :: 'a word)"
  by (simp add: be64_def swap_bytes_swap_bytes ucast_back)

lemma le32_id: "LENGTH('a::len) = 32 \<Longrightarrow> le32 x = (x :: 'a word)"
  by (simp add: le32_def ucast_back)

lemma le64_id: "LENGTH('a::len) = 64 \<Longrightarrow> le64 x = (x :: 'a word)"
  by (simp add: le64_def ucast_back)

lemma length_to_bytes [simp]: "length (to_bytes (x :: 'a::len word)) = LENGTH('a) div 8"
  by (simp add: to_bytes_def)

lemma bit_of_bytes:
  "bit (of_bytes bs :: 'a::len word) k \<longleftrightarrow> k < LENGTH('a) \<and> k div 8 < length bs \<and> bit (bs ! (k div 8)) (k mod 8)"
proof (induction bs arbitrary: k)
  case Nil
  show ?case by (simp add: of_bytes_def)
next
  case (Cons b bs)
  have "(of_bytes (b # bs) :: 'a word) = push_bit 8 (of_bytes bs) OR ucast b"
    by (simp add: of_bytes_def)
  note this [simp]
  show ?case
  proof (cases "k < 8")
    case True
    then show ?thesis by (auto simp: bit_simps)
  next
    case False
    then have d: "k div 8 = Suc ((k - 8) div 8)" "k mod 8 = (k - 8) mod 8"
      by (simp_all add: le_div_geq le_mod_geq)
    have "\<not> bit b k" using False bit_imp_le_length [of b k] by auto
    then show ?thesis
      using False Cons.IH [of "k - 8"] by (auto simp: bit_simps d)
  qed
qed

lemma of_bytes_to_bytes:
  assumes "8 dvd LENGTH('a::len)"
  shows "of_bytes (to_bytes x) = (x :: 'a word)"
proof (rule bit_word_eqI)
  fix k
  assume k: "k < LENGTH('a)"
  obtain m where m: "LENGTH('a) = 8 * m" using assms by (rule dvdE)
  have "k div 8 < m" using k by (auto simp: m)
  then show "bit (of_bytes (to_bytes x) :: 'a word) k \<longleftrightarrow> bit x k"
    using k by (simp add: bit_of_bytes to_bytes_def m bit_simps)
qed

lemma swap_is_rev:
  fixes x :: "'a::len word"
  assumes "LENGTH('a) = 8 * n"
  shows "to_bytes (swap_bytes n x) = rev (to_bytes x)"
proof (rule nth_equalityI)
  fix i
  assume "i < length (to_bytes (swap_bytes n x))"
  then have i: "i < n" by (simp add: assms)
  have "to_bytes (swap_bytes n x) ! i = ucast (drop_bit (8 * (n - 1 - i)) x)"
  proof (rule bit_word_eqI)
    fix k
    assume "k < LENGTH(8)"
    then have k: "k < 8" by simp
    then have "(8 * i + k) div 8 = i" "(8 * i + k) mod 8 = k" by simp_all
    then show "bit (to_bytes (swap_bytes n x) ! i) k \<longleftrightarrow> bit (ucast (drop_bit (8 * (n - 1 - i)) x) :: byte) k"
      using i k by (auto simp: to_bytes_def assms bit_simps bit_swap_bytes)
  qed
  then show "to_bytes (swap_bytes n x) ! i = rev (to_bytes x) ! i"
    using i by (simp add: to_bytes_def assms rev_nth)
qed (simp add: assms)

section \<open>The structures\<close>

record (overloaded) ('w::len) ehdr =
  e_ident :: "byte list"                 \<comment> \<open>an array of 16\<close>
  e_type :: "16 word"
  e_machine :: "16 word"
  e_version :: uint32
  e_entry :: "'w word"
  e_phoff :: "'w word"
  e_shoff :: "'w word"
  e_flags :: uint32
  e_ehsize :: "16 word"
  e_phentsize :: "16 word"
  e_phnum :: "16 word"
  e_shentsize :: "16 word"
  e_shnum :: "16 word"
  e_shstrndx :: "16 word"

record (overloaded) ('w::len) phdr =
  p_type :: uint32
  p_flags :: uint32
  p_offset :: "'w word"
  p_vaddr :: "'w word"
  p_paddr :: "'w word"
  p_filesz :: "'w word"
  p_memsz :: "'w word"
  p_align :: "'w word"

record (overloaded) ('w::len) shdr =
  sh_name :: uint32
  sh_type :: uint32
  sh_flags :: "'w word"
  sh_addr :: "'w word"
  sh_offset :: "'w word"
  sh_size :: "'w word"
  sh_link :: uint32
  sh_info :: uint32
  sh_addralign :: "'w word"
  sh_entsize :: "'w word"

text \<open>The branches on \<open>sizeof(ehdr.e_entry)\<close>: the 32-bit conversion, the 64-bit one, or \<open>assert(0)\<close>.\<close>

definition at_width ::
  "('w::len word \<Rightarrow> 'w word) \<Rightarrow> ('w word \<Rightarrow> 'w word) \<Rightarrow> (('w word \<Rightarrow> 'w word) \<Rightarrow> 'a result) \<Rightarrow> 'a result" where
  "at_width c32 c64 k =
     (if LENGTH('w) = 32 then k c32 else if LENGTH('w) = 64 then k c64 else Inl AssertFail)"

definition shdr_with :: "(uint32 \<Rightarrow> uint32) \<Rightarrow> 'w::len shdr \<Rightarrow> ('w word \<Rightarrow> 'w word) \<Rightarrow> 'w shdr result" where
  "shdr_with w s a = Inr (s\<lparr>
     sh_name := w (sh_name s), sh_type := w (sh_type s), sh_link := w (sh_link s), sh_info := w (sh_info s),
     sh_flags := a (sh_flags s), sh_addr := a (sh_addr s), sh_offset := a (sh_offset s), sh_size := a (sh_size s),
     sh_addralign := a (sh_addralign s), sh_entsize := a (sh_entsize s)\<rparr>)"

definition host_to_shdr :: "'w::len ehdr \<Rightarrow> 'w shdr \<Rightarrow> 'w shdr result" where
  "host_to_shdr e s =
     (if e_ident e ! 5 = 1 then at_width le32 le64 (shdr_with le32 s)
      else if e_ident e ! 5 = 2 then at_width be32 be64 (shdr_with be32 s)
      else Inl AssertFail)"

definition shdr_to_host :: "'w::len ehdr \<Rightarrow> 'w shdr \<Rightarrow> 'w shdr result" where
  "shdr_to_host e s =
     (if e_ident e ! 5 = 1 then at_width le32 le64 (shdr_with le32 s)
      else if e_ident e ! 5 = 2 then at_width be32 be64 (shdr_with be32 s)
      else Inl AssertFail)"

definition phdr_with :: "(uint32 \<Rightarrow> uint32) \<Rightarrow> (uint32 \<Rightarrow> uint32) \<Rightarrow> 'w::len phdr \<Rightarrow> ('w word \<Rightarrow> 'w word) \<Rightarrow> 'w phdr result" where
  "phdr_with t w p a = Inr (p\<lparr>
     p_type := t (p_type p), p_flags := w (p_flags p),
     p_offset := a (p_offset p), p_vaddr := a (p_vaddr p), p_paddr := a (p_paddr p),
     p_filesz := a (p_filesz p), p_memsz := a (p_memsz p), p_align := a (p_align p)\<rparr>)"

text \<open>The little-endian branches leave \<open>p_type\<close> alone.\<close>

definition phdr_to_host :: "'w::len ehdr \<Rightarrow> 'w phdr \<Rightarrow> 'w phdr result" where
  "phdr_to_host e p =
     (if e_ident e ! 5 = 1 then at_width le32 le64 (phdr_with id le32 p)
      else if e_ident e ! 5 = 2 then at_width be32 be64 (phdr_with be32 be32 p)
      else Inl AssertFail)"

definition host_to_phdr :: "'w::len ehdr \<Rightarrow> 'w phdr \<Rightarrow> 'w phdr result" where
  "host_to_phdr e p =
     (if e_ident e ! 5 = 1 then at_width le32 le64 (phdr_with id le32 p)
      else if e_ident e ! 5 = 2 then at_width be32 be64 (phdr_with be32 be32 p)
      else Inl AssertFail)"

text \<open>\<open>z\<close> converts \<open>e_ehsize\<close>, for which the big-endian branches take the function for 32 bits.\<close>

definition ehdr_with ::
  "(16 word \<Rightarrow> 16 word) \<Rightarrow> (16 word \<Rightarrow> 16 word) \<Rightarrow> (uint32 \<Rightarrow> uint32) \<Rightarrow> 'w::len ehdr \<Rightarrow> ('w word \<Rightarrow> 'w word) \<Rightarrow> 'w ehdr result" where
  "ehdr_with h z w e a = Inr (e\<lparr>
     e_type := h (e_type e), e_machine := h (e_machine e), e_version := w (e_version e), e_flags := w (e_flags e),
     e_ehsize := z (e_ehsize e), e_phentsize := h (e_phentsize e), e_phnum := h (e_phnum e),
     e_shentsize := h (e_shentsize e), e_shnum := h (e_shnum e), e_shstrndx := h (e_shstrndx e),
     e_entry := a (e_entry e), e_phoff := a (e_phoff e), e_shoff := a (e_shoff e)\<rparr>)"

definition ehdr_to_host :: "'w::len ehdr \<Rightarrow> 'w ehdr result" where
  "ehdr_to_host e =
     (if e_ident e ! 5 = 1 then at_width le32 le64 (ehdr_with le16 le16 le32 e)
      else if e_ident e ! 5 = 2 then at_width be32 be64 (ehdr_with be16 be32 be32 e)
      else Inl AssertFail)"

definition host_to_ehdr :: "'w::len ehdr \<Rightarrow> 'w ehdr result" where
  "host_to_ehdr e =
     (if e_ident e ! 5 = 1 then at_width le32 le64 (ehdr_with le16 le16 le32 e)
      else if e_ident e ! 5 = 2 then at_width be32 be64 (ehdr_with be16 be32 be32 e)
      else Inl AssertFail)"

subsection \<open>In memory and in the file\<close>

text \<open>The layout of the structures, which have no padding.\<close>

definition ehdr_bytes :: "'w::len ehdr \<Rightarrow> byte list" where
  "ehdr_bytes e =
     e_ident e @ to_bytes (e_type e) @ to_bytes (e_machine e) @ to_bytes (e_version e) @
     to_bytes (e_entry e) @ to_bytes (e_phoff e) @ to_bytes (e_shoff e) @ to_bytes (e_flags e) @
     to_bytes (e_ehsize e) @ to_bytes (e_phentsize e) @ to_bytes (e_phnum e) @
     to_bytes (e_shentsize e) @ to_bytes (e_shnum e) @ to_bytes (e_shstrndx e)"

definition phdr_bytes :: "'w::len phdr \<Rightarrow> byte list" where
  "phdr_bytes p =
     (if LENGTH('w) = 32 then
        to_bytes (p_type p) @ to_bytes (p_offset p) @ to_bytes (p_vaddr p) @ to_bytes (p_paddr p) @
        to_bytes (p_filesz p) @ to_bytes (p_memsz p) @ to_bytes (p_flags p) @ to_bytes (p_align p)
      else
        to_bytes (p_type p) @ to_bytes (p_flags p) @ to_bytes (p_offset p) @ to_bytes (p_vaddr p) @
        to_bytes (p_paddr p) @ to_bytes (p_filesz p) @ to_bytes (p_memsz p) @ to_bytes (p_align p))"

definition shdr_bytes :: "'w::len shdr \<Rightarrow> byte list" where
  "shdr_bytes s =
     to_bytes (sh_name s) @ to_bytes (sh_type s) @ to_bytes (sh_flags s) @ to_bytes (sh_addr s) @
     to_bytes (sh_offset s) @ to_bytes (sh_size s) @ to_bytes (sh_link s) @ to_bytes (sh_info s) @
     to_bytes (sh_addralign s) @ to_bytes (sh_entsize s)"

definition field :: "nat \<Rightarrow> nat \<Rightarrow> byte list \<Rightarrow> 'a::len word" where
  "field k n bs = of_bytes (take n (drop k bs))"

definition ehdr_of_bytes :: "byte list \<Rightarrow> 'w::len ehdr" where
  "ehdr_of_bytes bs =
     (let n = LENGTH('w) div 8; k = 24 + 3 * n in
      \<lparr>e_ident = take 16 bs, e_type = field 16 2 bs, e_machine = field 18 2 bs, e_version = field 20 4 bs,
       e_entry = field 24 n bs, e_phoff = field (24 + n) n bs, e_shoff = field (24 + 2 * n) n bs, e_flags = field k 4 bs,
       e_ehsize = field (k + 4) 2 bs, e_phentsize = field (k + 6) 2 bs, e_phnum = field (k + 8) 2 bs,
       e_shentsize = field (k + 10) 2 bs, e_shnum = field (k + 12) 2 bs, e_shstrndx = field (k + 14) 2 bs\<rparr>)"

definition phdr_of_bytes :: "byte list \<Rightarrow> 'w::len phdr" where
  "phdr_of_bytes bs =
     (if LENGTH('w) = 32 then
      \<lparr>p_type = field 0 4 bs, p_flags = field 24 4 bs, p_offset = field 4 4 bs, p_vaddr = field 8 4 bs,
       p_paddr = field 12 4 bs, p_filesz = field 16 4 bs, p_memsz = field 20 4 bs, p_align = field 28 4 bs\<rparr>
      else
      \<lparr>p_type = field 0 4 bs, p_flags = field 4 4 bs, p_offset = field 8 8 bs, p_vaddr = field 16 8 bs,
       p_paddr = field 24 8 bs, p_filesz = field 32 8 bs, p_memsz = field 40 8 bs, p_align = field 48 8 bs\<rparr>)"

lemma field_at:
  assumes "length a = k" "length b = n"
  shows "field k n (a @ b @ c) = of_bytes b"
  using assms by (auto simp: field_def)

lemma ehdr_bytes_64:
  fixes e :: "64 ehdr"
  assumes "length (e_ident e) = 16"
  shows "length (ehdr_bytes e) = 64" "ehdr_of_bytes (ehdr_bytes e @ r) = e"
  using assms
  by (cases e; simp add: ehdr_bytes_def ehdr_of_bytes_def Let_def field_def of_bytes_to_bytes)+

lemma phdr_bytes_64:
  fixes p :: "64 phdr"
  shows "length (phdr_bytes p) = 56" "phdr_of_bytes (phdr_bytes p @ r) = p"
  by (cases p; simp add: phdr_bytes_def phdr_of_bytes_def field_def of_bytes_to_bytes)+

lemma ehdr_bytes_32:
  fixes e :: "32 ehdr"
  assumes "length (e_ident e) = 16"
  shows "length (ehdr_bytes e) = 52" "ehdr_of_bytes (ehdr_bytes e @ r) = e"
  using assms
  by (cases e; simp add: ehdr_bytes_def ehdr_of_bytes_def Let_def field_def of_bytes_to_bytes)+

lemma phdr_bytes_32:
  fixes p :: "32 phdr"
  shows "length (phdr_bytes p) = 32" "phdr_of_bytes (phdr_bytes p @ r) = p"
  by (cases p; simp add: phdr_bytes_def phdr_of_bytes_def field_def of_bytes_to_bytes)+

section \<open>Round trips\<close>

lemma be32_of_half: "be32 (h :: 16 word) = 0"
proof (rule bit_word_eqI)
  fix k
  assume "k < LENGTH(16)"
  then have k: "k < 16" by simp
  then have "k div 8 \<le> 1" by linarith
  then have "16 \<le> 8 * (3 - k div 8) + k mod 8" by linarith
  then show "bit (be32 h) k \<longleftrightarrow> bit (0 :: 16 word) k"
    using bit_imp_le_length [of h "8 * (3 - k div 8) + k mod 8"]
    by (auto simp: be32_def bit_simps bit_swap_bytes)
qed

lemma ehdr_roundtrip:
  fixes e :: "'w::len ehdr"
  assumes w: "LENGTH('w) = 32 \<or> LENGTH('w) = 64" and o: "e_ident e ! 5 = 1 \<or> e_ident e ! 5 = 2"
  shows "bindR (ehdr_to_host e) host_to_ehdr = Inr (if e_ident e ! 5 = 1 then e else e\<lparr>e_ehsize := 0\<rparr>)"
    "bindR (host_to_ehdr e) ehdr_to_host = Inr (if e_ident e ! 5 = 1 then e else e\<lparr>e_ehsize := 0\<rparr>)"
  using w o
  by (cases e; elim disjE;
    simp add: ehdr_to_host_def host_to_ehdr_def at_width_def ehdr_with_def le32_id le64_id
      be32_be32 be64_be64 be32_of_half)+

lemma phdr_roundtrip:
  fixes e :: "'w::len ehdr"
  assumes w: "LENGTH('w) = 32 \<or> LENGTH('w) = 64" and o: "e_ident e ! 5 = 1 \<or> e_ident e ! 5 = 2"
  shows "bindR (phdr_to_host e p) (host_to_phdr e) = Inr p" "bindR (host_to_phdr e p) (phdr_to_host e) = Inr p"
  using w o
  by (cases p; elim disjE;
    simp add: phdr_to_host_def host_to_phdr_def at_width_def phdr_with_def le32_id le64_id be32_be32 be64_be64)+

lemma shdr_roundtrip:
  fixes e :: "'w::len ehdr"
  assumes w: "LENGTH('w) = 32 \<or> LENGTH('w) = 64" and o: "e_ident e ! 5 = 1 \<or> e_ident e ! 5 = 2"
  shows "bindR (shdr_to_host e s) (host_to_shdr e) = Inr s" "bindR (host_to_shdr e s) (shdr_to_host e) = Inr s"
  using w o
  by (cases s; elim disjE;
    simp add: shdr_to_host_def host_to_shdr_def at_width_def shdr_with_def le32_id le64_id be32_be32 be64_be64)+

text \<open>C35: Reading a header in the order of the file and writing it back gives the header again, for
  both widths and both orders; the exception is \<open>e_ehsize\<close> of a big-endian file, which is lost: it
  is a 16-bit number that goes through the function for 32 bits.
\<close>

theorem elf_headers_roundtrip:
  fixes e :: "'w::len ehdr" and p :: "'w phdr" and s :: "'w shdr"
  assumes w: "LENGTH('w) = 32 \<or> LENGTH('w) = 64" and o: "e_ident e ! 5 = 1 \<or> e_ident e ! 5 = 2"
  shows "bindR (ehdr_to_host e) host_to_ehdr = Inr (if e_ident e ! 5 = 1 then e else e\<lparr>e_ehsize := 0\<rparr>) \<and>
    bindR (phdr_to_host e p) (host_to_phdr e) = Inr p \<and> bindR (shdr_to_host e s) (host_to_shdr e) = Inr s"
  using ehdr_roundtrip(1) [OF assms] phdr_roundtrip(1) [OF assms] shdr_roundtrip(1) [OF assms] by simp

theorem elf_headers_roundtrip_witness:
  fixes e :: "32 ehdr"
  defines "e \<equiv> \<lparr>e_ident = [0x7f, 0x45, 0x4c, 0x46, 1, 2], e_type = 0x200, e_machine = 0x800, e_version = 0x1000000,
     e_entry = 0x401000, e_phoff = 0x34000000, e_shoff = 0, e_flags = 0, e_ehsize = 0x3400, e_phentsize = 0x2000,
     e_phnum = 0x100, e_shentsize = 0x2800, e_shnum = 0, e_shstrndx = 0\<rparr>"
  shows "bindR (ehdr_to_host e) host_to_ehdr = Inr (e\<lparr>e_ehsize := 0\<rparr>) \<and> e_ehsize e \<noteq> 0"
  using elf_headers_roundtrip [of e undefined undefined] by (simp add: e_def)

end
