(* ===== verification/Zipr_Elf.thy ===== *)
theory Zipr_Elf
  imports Zipr_Scoops Zipr_ElfHdr
begin

text \<open>
  Writing the new program as an ELF file (\<open>zipr/src/elfwrite.cpp\<close>,
  \<open>zipr/include/exewrite.h\<close>): the contents of the scoops go to a map of pages, runs of pages with
  the same permissions become segments, a place for the program headers is found, and the file
  is written. This is the 64-bit writer.

  A file has a length and a function from offsets to bytes, zero where nothing is written.
\<close>

section \<open>Pages\<close>

record page_data =
  pd_perms :: uint32
  pd_relro :: bool
  pd_data :: "nat \<Rightarrow> byte"            \<comment> \<open>a vector of \<open>PAGE_SIZE\<close> elements; only these are used\<close>
  pd_inuse :: "nat \<Rightarrow> bool"

definition PAGE_SIZE :: nat where
  "PAGE_SIZE = 4096"

definition new_page :: page_data where
  "new_page = \<lparr>pd_perms = 0, pd_relro = False, pd_data = (\<lambda>_. 0), pd_inuse = (\<lambda>_. False)\<rparr>"

definition union_permissions :: "uint32 \<Rightarrow> page_data \<Rightarrow> page_data" where
  "union_permissions p_perms p = p\<lparr>pd_perms := pd_perms p OR p_perms\<rparr>"

definition is_zero_initialized :: "page_data \<Rightarrow> bool" where
  "is_zero_initialized p = list_all (\<lambda>i. pd_data p i = 0) [0..<PAGE_SIZE]"

text \<open>A \<open>std::map\<close>, by key; \<open>operator[]\<close> makes a new page.\<close>

type_synonym pagemap = "(addr \<times> page_data) list"

definition pm_at :: "addr \<Rightarrow> pagemap \<Rightarrow> page_data" where
  "pm_at a pm = (case map_of pm a of Some p \<Rightarrow> p | None \<Rightarrow> new_page)"

fun pm_put :: "addr \<Rightarrow> page_data \<Rightarrow> pagemap \<Rightarrow> pagemap" where
  "pm_put a p [] = [(a, p)]"
| "pm_put a p ((b, q) # r) = (if a < b then (a, p) # (b, q) # r else if a = b then (a, p) # r else (b, q) # pm_put a p r)"

definition pm_update :: "addr \<Rightarrow> (page_data \<Rightarrow> page_data) \<Rightarrow> pagemap \<Rightarrow> pagemap" where
  "pm_update a u pm = pm_put a (u (pm_at a pm)) pm"

definition page_align :: "addr \<Rightarrow> addr" where
  "page_align x = x AND NOT 4095"

section \<open>Contents\<close>

text \<open>The loop over a page; each turn concerns its own byte.\<close>

definition fill_page :: "scoop \<Rightarrow> addr \<Rightarrow> page_data \<Rightarrow> page_data" where
  "fill_page s i p =
     (let put = (\<lambda>j. j < PAGE_SIZE \<and> sc_start s \<le> i + of_nat j \<and> i + of_nat j \<le> sc_end s \<and>
                  unat (i + of_nat j - sc_start s) < length (sc_contents s))
      in (union_permissions (ucast (sc_perms s)) p)\<lparr>
           pd_relro := pd_relro p \<or> sc_relro s,
           pd_data := (\<lambda>j. if put j then sc_contents s ! unat (i + of_nat j - sc_start s) else pd_data p j),
           pd_inuse := (\<lambda>j. put j \<or> pd_inuse p j)\<rparr>)"

text \<open>The loop over the pages ends if the last page of all is not among them.\<close>

fun fill_pages :: "nat \<Rightarrow> scoop \<Rightarrow> addr \<Rightarrow> pagemap \<Rightarrow> pagemap result" where
  "fill_pages 0 s i pm = Inl OutOfFuel"
| "fill_pages (Suc n) s i pm = (if i \<le> sc_end s then fill_pages n s (i + 4096) (pm_update i (fill_page s i) pm) else Inr pm)"

definition map_scoop :: "nat \<Rightarrow> scoop \<Rightarrow> pagemap \<Rightarrow> pagemap result" where
  "map_scoop n s pm =
     (if sc_name s = ''.tbss'' then Inr pm
      else assertR (sc_start s \<noteq> 0) (\<lambda>_. fill_pages n s (page_align (sc_start s)) pm))"

definition CreatePagemap :: "nat \<Rightarrow> scoop list \<Rightarrow> pagemap \<Rightarrow> pagemap result" where
  "CreatePagemap n scoops = foldR (map_scoop n) scoops"

section \<open>Segments\<close>

record load_segment =
  ls_filesz :: addr
  ls_memsz :: addr
  ls_filepos :: addr
  ls_start_page :: addr
  ls_perms :: addr

text \<open>The constructor takes each number as an \<open>unsigned int\<close>.\<close>

definition mk_segment :: "addr \<Rightarrow> addr \<Rightarrow> addr \<Rightarrow> addr \<Rightarrow> uint32 \<Rightarrow> load_segment" where
  "mk_segment filesz memsz filepos start_page perms =
     (let u = (\<lambda>x :: addr. ucast (ucast x :: uint32)) in
      \<lparr>ls_filesz = u filesz, ls_memsz = u memsz, ls_filepos = u filepos, ls_start_page = u start_page, ls_perms = ucast perms\<rparr>)"

definition should_bss_optimize :: "bool \<Rightarrow> page_data \<Rightarrow> bool" where
  "should_bss_optimize bss_opts p \<longleftrightarrow> is_zero_initialized p \<and> bss_opts"

fun segmap_loop :: "bool \<Rightarrow> addr \<Rightarrow> uint32 \<Rightarrow> addr \<Rightarrow> addr \<Rightarrow> pagemap \<Rightarrow> load_segment list" where
  "segmap_loop opts segstart segperms segend initend [] = [mk_segment (initend - segstart) (segend - segstart) 0 segstart segperms]"
| "segmap_loop opts segstart segperms segend initend ((pagestart, p) # pm) =
     (if pd_perms p \<noteq> segperms \<or> segend \<noteq> pagestart then
        mk_segment (initend - segstart) (segend - segstart) 0 segstart segperms #
        segmap_loop opts pagestart (pd_perms p) (pagestart + 4096)
          (if should_bss_optimize opts p then pagestart else pagestart + 4096) pm
      else
        segmap_loop opts segstart segperms (pagestart + 4096)
          (if \<not> should_bss_optimize opts p then pagestart + 4096 else initend) pm)"

definition CreateSegmap :: "bool \<Rightarrow> pagemap \<Rightarrow> load_segment list result" where
  "CreateSegmap opts pm =
     (case pm of
        [] \<Rightarrow> Inl NullDeref
      | (segstart, p) # pm \<Rightarrow>
          let segend = segstart + 4096
          in Inr (segmap_loop opts segstart (pd_perms p) segend (if should_bss_optimize opts p then segstart else segend) pm))"

section \<open>Program headers\<close>

definition PT_LOAD :: uint32 where "PT_LOAD = 1"
definition PT_DYNAMIC :: uint32 where "PT_DYNAMIC = 2"
definition PT_INTERP :: uint32 where "PT_INTERP = 3"
definition PT_NOTE :: uint32 where "PT_NOTE = 4"
definition PT_PHDR :: uint32 where "PT_PHDR = 6"
definition PT_GNU_EH_FRAME :: uint32 where "PT_GNU_EH_FRAME = 0x6474e550"
definition PT_GNU_RELRO :: uint32 where "PT_GNU_RELRO = 0x6474e552"

record elf_writer =
  ew_pagemap :: pagemap
  ew_segvec :: "load_segment list"
  ew_phdrs :: "64 phdr list"              \<comment> \<open>of the input\<close>
  ew_new_phdrs :: "64 phdr list"
  ew_ehdr :: "64 ehdr"                 \<comment> \<open>of the input\<close>
  ew_new_ehdr :: "64 ehdr"

definition DetectMinAddr :: "scoop list \<Rightarrow> addr result" where
  "DetectMinAddr scoops = (case scoops of [] \<Rightarrow> Inl NullDeref
     | s # _ \<Rightarrow> Inr (fold (\<lambda>s m. if sc_start s < m then sc_start s else m) scoops (sc_start s)))"

definition DetectMaxAddr :: "scoop list \<Rightarrow> addr result" where
  "DetectMaxAddr scoops = (case scoops of [] \<Rightarrow> Inl NullDeref
     | s # _ \<Rightarrow> Inr (fold (\<lambda>s m. if m < sc_end s then sc_end s else m) scoops (sc_end s)))"

definition DetermineMaxPhdrSize :: "elf_writer \<Rightarrow> uint32" where
  "DetermineMaxPhdrSize w =
     of_nat ((length (List.filter (\<lambda>p. p_type p \<noteq> PT_LOAD \<and> p_type p \<noteq> PT_PHDR) (ew_phdrs w)) +
              length (ew_segvec w) * 2 + 2) * 56)"

definition readonly_space_at :: "pagemap \<Rightarrow> addr \<Rightarrow> uint32 \<Rightarrow> bool" where
  "readonly_space_at pm a sz \<longleftrightarrow>
     list_all (\<lambda>i. let x = a + of_nat i in
       case map_of pm (page_align x) of
         None \<Rightarrow> True
       | Some p \<Rightarrow> \<not> pd_inuse p (unat (x - page_align x)) \<and> pd_perms p AND 2 = 0) [0..<unat sz]"

text \<open>\<open>None\<close> is \<open>-1\<close>.\<close>

fun locate_from :: "nat \<Rightarrow> load_segment list \<Rightarrow> addr \<Rightarrow> nat option" where
  "locate_from i [] a = None"
| "locate_from i (s # ss) a =
     (if ls_filesz s < ls_memsz s then None
      else if ls_start_page s \<le> a \<and> a < ls_start_page s + ls_filesz s then Some i
      else locate_from (Suc i) ss a)"

definition locate_segment_index :: "load_segment list \<Rightarrow> addr \<Rightarrow> nat option" where
  "locate_segment_index = locate_from 0"

definition count_filesz_to_seg :: "load_segment list \<Rightarrow> nat \<Rightarrow> uint32" where
  "count_filesz_to_seg segs n = fold (\<lambda>s f. f + ucast (ls_filesz s)) (take n segs) 0"

subsection \<open>\<open>CreateNewPhdrs_internal\<close>\<close>

fun load_phdrs :: "uint32 \<Rightarrow> load_segment list \<Rightarrow> 64 phdr list" where
  "load_phdrs fileoff [] = []"
| "load_phdrs fileoff (s # ss) =
     \<lparr>p_type = PT_LOAD, p_flags = ucast (ls_perms s), p_offset = ucast fileoff, p_vaddr = ls_start_page s,
       p_paddr = ls_start_page s, p_filesz = ls_filesz s, p_memsz = ls_memsz s, p_align = 0x1000\<rparr> #
     load_phdrs (fileoff + ucast (ls_filesz s)) ss"

text \<open>The offset of a header of the input follows from the first segment that has its address.\<close>

definition moved_phdr :: "64 phdr list \<Rightarrow> 64 phdr \<Rightarrow> 64 phdr" where
  "moved_phdr loads p =
     (case find (\<lambda>l. p_vaddr l \<le> p_vaddr p \<and> p_vaddr p \<le> p_vaddr l + p_filesz l) loads of
        None \<Rightarrow> p
      | Some l \<Rightarrow> p\<lparr>p_offset := p_offset l + (p_vaddr p - p_vaddr l)\<rparr>)"

definition kept_phdrs :: "64 phdr list \<Rightarrow> 64 phdr list \<Rightarrow> 64 phdr list" where
  "kept_phdrs loads phdrs =
     map (moved_phdr loads) (List.filter (\<lambda>p. p_type p \<noteq> PT_LOAD \<and> p_type p \<noteq> PT_PHDR \<and> p_type p \<noteq> PT_GNU_RELRO) phdrs)"

definition elf_round_up :: "addr \<Rightarrow> addr" where
  "elf_round_up x = (x + 4095) AND NOT 4095"

definition header_phdr :: "64 phdr list \<Rightarrow> addr \<Rightarrow> 64 phdr" where
  "header_phdr ps new_phdr_addr =
     (let size = elf_round_up (of_nat ((length ps + 1) * 56)) in
      \<lparr>p_type = PT_LOAD, p_flags = 4, p_offset = 0, p_vaddr = page_align new_phdr_addr, p_paddr = page_align new_phdr_addr,
        p_filesz = size, p_memsz = size, p_align = 0x1000\<rparr>)"

text \<open>The pages of the headers; the permissions they get are an address, in its low 32 bits.\<close>

definition header_page :: "64 phdr \<Rightarrow> addr \<Rightarrow> page_data \<Rightarrow> page_data" where
  "header_page h i p =
     (let size = p_vaddr h + p_memsz h;
          put = (\<lambda>j. j < PAGE_SIZE \<and> p_vaddr h \<le> i + of_nat j \<and> i + of_nat j < p_vaddr h + size)
      in (union_permissions (ucast size) p)\<lparr>
           pd_data := (\<lambda>j. if put j then 0xf4 else pd_data p j), pd_inuse := (\<lambda>j. put j \<or> pd_inuse p j)\<rparr>)"

fun header_pages :: "nat \<Rightarrow> 64 phdr \<Rightarrow> addr \<Rightarrow> pagemap \<Rightarrow> pagemap result" where
  "header_pages 0 h i pm = Inl OutOfFuel"
| "header_pages (Suc n) h i pm =
     (if i < p_vaddr h + p_memsz h then header_pages n h (i + 4096) (pm_update i (header_page h i) pm) else Inr pm)"

definition phdr_phdr :: "64 phdr list \<Rightarrow> addr \<Rightarrow> addr \<Rightarrow> 64 phdr" where
  "phdr_phdr ps offset a =
     (let size = of_nat ((length ps + 1) * 56) in
      \<lparr>p_type = PT_PHDR, p_flags = 4, p_offset = offset, p_vaddr = a, p_paddr = a, p_filesz = size, p_memsz = size, p_align = 0x1000\<rparr>)"

definition pt_type_to_sec_name :: "(uint32 \<times> string) list" where
  "pt_type_to_sec_name = [(PT_INTERP, ''.interp''), (PT_DYNAMIC, ''.dynamic''), (PT_NOTE, ''.note.ABI-tag''), (PT_GNU_EH_FRAME, ''.eh_frame_hdr'')]"

definition find_scoop_by_name :: "string \<Rightarrow> scoop list \<Rightarrow> scoop option" where
  "find_scoop_by_name name scoops = find (\<lambda>s. sc_name s = name) scoops"

text \<open>The header of a named section gets the section's place; the last header that has its address tells its offset.\<close>

definition phdr_for_scoop :: "64 phdr list \<Rightarrow> nat \<Rightarrow> scoop \<Rightarrow> 64 phdr result" where
  "phdr_for_scoop ps i s =
     (let size = sc_end s - sc_start s + 1;
          p = (ps ! i)\<lparr>p_vaddr := sc_start s, p_paddr := sc_start s, p_filesz := size, p_memsz := size, p_offset := 0\<rparr>;
          p = fold (\<lambda>j p. let q = if j = i then p else ps ! j in
                if p_vaddr q \<le> p_vaddr p \<and> p_vaddr p < p_vaddr q + p_filesz q
                then p\<lparr>p_offset := p_offset q + p_vaddr p - p_vaddr q\<rparr> else p) [0..<length ps] p
      in assertR (p_offset p \<noteq> 0) (\<lambda>_. Inr p))"

definition update_phdr :: "scoop list \<Rightarrow> nat \<Rightarrow> 64 phdr list \<Rightarrow> 64 phdr list result" where
  "update_phdr scoops i ps =
     (case map_of pt_type_to_sec_name (p_type (ps ! i)) of
        None \<Rightarrow> Inr ps
      | Some name \<Rightarrow>
          (case find_scoop_by_name name scoops of
             None \<Rightarrow> Inr ps
           | Some s \<Rightarrow> mapR (\<lambda>p. ps[i := p]) (phdr_for_scoop ps i s)))"

definition update_phdr_for_scoop_sections :: "scoop list \<Rightarrow> 64 phdr list \<Rightarrow> 64 phdr list result" where
  "update_phdr_for_scoop_sections scoops ps = foldR (update_phdr scoops) [0..<length ps] ps"

definition CreateNewPhdrs_internal :: "nat \<Rightarrow> scoop list \<Rightarrow> uint32 \<Rightarrow> bool \<Rightarrow> addr \<Rightarrow> addr \<Rightarrow> elf_writer \<Rightarrow> elf_writer result" where
  "CreateNewPhdrs_internal n scoops first_seg_file_offset add_pt_load_for_phdr phdr_map_offset new_phdr_addr w =
     (let loads = load_phdrs first_seg_file_offset (ew_segvec w);
          ps = ew_new_phdrs w @ loads;
          ps = ps @ kept_phdrs (take (length (ew_segvec w)) ps) (ew_phdrs w);
          h = header_phdr ps new_phdr_addr
      in bindR (if add_pt_load_for_phdr then header_pages n h (page_align (p_vaddr h)) (ew_pagemap w) else Inr (ew_pagemap w)) (\<lambda>pm.
         let ps = (if add_pt_load_for_phdr then h # ps else ps);
             ps = phdr_phdr ps phdr_map_offset new_phdr_addr # ps
         in bindR (update_phdr_for_scoop_sections scoops ps) (\<lambda>ps.
            Inr (w\<lparr>ew_pagemap := pm, ew_new_phdrs := ps,
              ew_new_ehdr := (ew_ehdr w)\<lparr>e_phoff := phdr_map_offset, e_shoff := 0, e_shnum := 0,
                e_phnum := of_nat (length ps), e_shstrndx := 0\<rparr>\<rparr>))))"

subsection \<open>A place for the headers\<close>

text \<open>
  The three attempts; \<open>None\<close> is \<open>false\<close>, which leaves the writer as it was. The search for a gap
  counts in an \<open>unsigned int\<close> up to a 64-bit bound: it may never end.
\<close>

fun gap_search :: "nat \<Rightarrow> pagemap \<Rightarrow> uint32 \<Rightarrow> addr \<Rightarrow> uint32 \<Rightarrow> addr result" where
  "gap_search 0 pm sz max_addr i = Inl OutOfFuel"
| "gap_search (Suc n) pm sz max_addr i =
     (if ucast i < max_addr then
        if readonly_space_at pm (ucast i) sz then Inr (ucast i) else gap_search n pm sz max_addr (i + 1)
      else Inr 0)"

fun pages_to_extend :: "load_segment list \<Rightarrow> nat \<Rightarrow> nat \<Rightarrow> addr list \<Rightarrow> nat result" where
  "pages_to_extend segs idx n [] = Inr n"
| "pages_to_extend segs idx n (a # as) =
     (case locate_segment_index segs a of
        None \<Rightarrow> pages_to_extend segs idx (if page_align a = a then Suc n else n) as
      | Some seg \<Rightarrow>
          if seg = idx then pages_to_extend segs idx n as
          else assertR (list_all (\<lambda>b. locate_segment_index segs b = Some seg) as) (\<lambda>_. Inr n))"

definition mark_byte :: "addr \<Rightarrow> pagemap \<Rightarrow> pagemap" where
  "mark_byte a pm =
     pm_update (page_align a) (\<lambda>p. union_permissions 4 (p\<lparr>pd_inuse := (pd_inuse p)(unat (a - page_align a) := True)\<rparr>)) pm"

definition extend_segment :: "nat \<Rightarrow> load_segment \<Rightarrow> load_segment" where
  "extend_segment pages s =
     s\<lparr>ls_filesz := ls_filesz s + 4096 * of_nat pages, ls_memsz := ls_memsz s + 4096 * of_nat pages\<rparr>"

definition CreateNewPhdrs_GapAllocate :: "nat \<Rightarrow> scoop list \<Rightarrow> addr \<Rightarrow> addr \<Rightarrow> elf_writer \<Rightarrow> elf_writer option result" where
  "CreateNewPhdrs_GapAllocate n scoops min_addr max_addr w =
     (if min_addr \<le> page_align min_addr + 64 then Inr None
      else
        let sz = DetermineMaxPhdrSize w in
        bindR (gap_search n (ew_pagemap w) sz max_addr (ucast min_addr)) (\<lambda>a.
          case locate_segment_index (ew_segvec w) (a - 1) of
            None \<Rightarrow> Inr None
          | Some idx \<Rightarrow>
              bindR (pages_to_extend (ew_segvec w) idx 0 (addrs a (unat sz))) (\<lambda>pages.
                let pm = fold mark_byte (addrs a (unat sz)) (ew_pagemap w);
                    segs = (ew_segvec w)[idx := extend_segment pages (ew_segvec w ! idx)];
                    fileoff = count_filesz_to_seg segs idx + ucast (a - ls_start_page (segs ! idx))
                in mapR Some (CreateNewPhdrs_internal n scoops 0 False (ucast fileoff) a
                     (w\<lparr>ew_pagemap := pm, ew_segvec := segs\<rparr>)))))"

definition CreateNewPhdrs_FirstPageAllocate :: "nat \<Rightarrow> scoop list \<Rightarrow> addr \<Rightarrow> addr \<Rightarrow> elf_writer \<Rightarrow> elf_writer option result" where
  "CreateNewPhdrs_FirstPageAllocate n scoops min_addr max_addr w =
     (let total_header_size = ucast (DetermineMaxPhdrSize w) + 64 :: addr;
          header_end_address = page_align min_addr + total_header_size
      in if min_addr \<le> header_end_address then Inr None
         else mapR Some (CreateNewPhdrs_internal n scoops 0 False 64 (page_align min_addr + 64) w))"

definition CreateNewPhdrs_PreAllocate :: "nat \<Rightarrow> scoop list \<Rightarrow> addr \<Rightarrow> addr \<Rightarrow> elf_writer \<Rightarrow> elf_writer option result" where
  "CreateNewPhdrs_PreAllocate n scoops min_addr max_addr w =
     (let phdr_size = DetermineMaxPhdrSize w;
          aligned_phdr_size = elf_round_up (ucast phdr_size);
          total_header_size = ucast phdr_size + 64 :: addr
      in if min_addr < total_header_size then Inr None
         else mapR Some (CreateNewPhdrs_internal n scoops (ucast aligned_phdr_size) True 64
                (page_align min_addr - 4096 + 64) w))"

text \<open>\<open>CreateNewPhdrs_PostAllocate\<close> is \<open>return false\<close>.\<close>

definition orElseR :: "'a option result \<Rightarrow> (unit \<Rightarrow> 'a option result) \<Rightarrow> 'a option result" where
  "orElseR m k = bindR m (\<lambda>x. case x of None \<Rightarrow> k () | Some y \<Rightarrow> Inr (Some y))"

definition CreateNewPhdrs :: "nat \<Rightarrow> scoop list \<Rightarrow> addr \<Rightarrow> addr \<Rightarrow> elf_writer \<Rightarrow> elf_writer result" where
  "CreateNewPhdrs n scoops min_addr max_addr w =
     bindR (orElseR (CreateNewPhdrs_GapAllocate n scoops min_addr max_addr w) (\<lambda>_.
            orElseR (CreateNewPhdrs_FirstPageAllocate n scoops min_addr max_addr w) (\<lambda>_.
            CreateNewPhdrs_PreAllocate n scoops min_addr max_addr w)))
       (\<lambda>r. case r of None \<Rightarrow> Inl AssertFail | Some w \<Rightarrow> Inr w)"

section \<open>The file\<close>

record out_file =
  fl_size :: nat
  fl_data :: "nat \<Rightarrow> byte"

definition fwrite_at :: "nat \<Rightarrow> byte list \<Rightarrow> out_file \<Rightarrow> out_file" where
  "fwrite_at pos bs f =
     \<lparr>fl_size = (if bs = [] then fl_size f else max (fl_size f) (pos + length bs)),
      fl_data = (\<lambda>o'. if pos \<le> o' \<and> o' < pos + length bs then bs ! (o' - pos) else fl_data f o')\<rparr>"

definition fread_at :: "nat \<Rightarrow> nat \<Rightarrow> out_file \<Rightarrow> byte list result" where
  "fread_at pos n f = assertR (pos + n \<le> fl_size f) (\<lambda>_. Inr (map (fl_data f) [pos..<pos + n]))"

definition LoadEhdr :: "out_file \<Rightarrow> elf_writer \<Rightarrow> elf_writer result" where
  "LoadEhdr fin w =
     bindR (fread_at 0 64 fin) (\<lambda>bs. bindR (ehdr_to_host (ehdr_of_bytes bs)) (\<lambda>e. Inr (w\<lparr>ew_ehdr := e\<rparr>)))"

definition load_phdr :: "64 ehdr \<Rightarrow> out_file \<Rightarrow> nat \<Rightarrow> 64 phdr list \<Rightarrow> 64 phdr list result" where
  "load_phdr e fin i ps =
     bindR (fread_at (unat (e_phoff e) + 56 * i) 56 fin) (\<lambda>bs.
     bindR (phdr_to_host e (phdr_of_bytes bs)) (\<lambda>p. Inr (ps @ [p])))"

definition LoadPhdrs :: "out_file \<Rightarrow> elf_writer \<Rightarrow> elf_writer result" where
  "LoadPhdrs fin w =
     bindR (foldR (load_phdr (ew_ehdr w) fin) [0..<unat (e_phnum (ew_ehdr w))] []) (\<lambda>ps. Inr (w\<lparr>ew_phdrs := ps\<rparr>))"

text \<open>
  A page of a segment; \<open>pagemap[]\<close> makes an absent page. The loop counts in an \<open>unsigned int\<close>:
  it does not end if the last page of a segment starts above \<open>0xfffff000\<close>.
\<close>

definition page_bytes :: "page_data \<Rightarrow> nat \<Rightarrow> byte list" where
  "page_bytes p n = map (pd_data p) [0..<n]"

definition write_page :: "bool \<Rightarrow> pagemap \<Rightarrow> 64 phdr \<Rightarrow> nat \<Rightarrow> out_file \<Rightarrow> out_file result" where
  "write_page sections pm p j f =
     (let page = pm_at (p_vaddr p + of_nat j) pm;
          pos = unat (p_offset p) + j
      in if j + PAGE_SIZE < unat (p_filesz p) \<or> sections then Inr (fwrite_at pos (page_bytes page PAGE_SIZE) f)
         else assertR (unat (p_filesz p) - j \<le> PAGE_SIZE) (\<lambda>_.
                Inr (fwrite_at pos (page_bytes page (unat (p_filesz p) - j)) f)))"

definition page_starts :: "nat \<Rightarrow> nat list" where
  "page_starts n = map (\<lambda>i. i * PAGE_SIZE) [0..<(n + PAGE_SIZE - 1) div PAGE_SIZE]"

definition write_segment :: "bool \<Rightarrow> pagemap \<Rightarrow> 64 phdr \<Rightarrow> out_file \<Rightarrow> out_file result" where
  "write_segment sections pm p f =
     (if p_type p = PT_LOAD then
        if 0xfffff000 < p_filesz p then Inl OutOfFuel
        else foldR (write_page sections pm p) (page_starts (unat (p_filesz p))) f else Inr f)"

definition write_phdr :: "64 ehdr \<Rightarrow> nat \<times> 64 phdr \<Rightarrow> out_file \<Rightarrow> out_file result" where
  "write_phdr e ip f =
     bindR (host_to_phdr e (snd ip)) (\<lambda>p. Inr (fwrite_at (fst ip) (phdr_bytes p) f))"

definition WriteElf :: "bool \<Rightarrow> elf_writer \<Rightarrow> out_file result" where
  "WriteElf sections w =
     bindR (foldR (write_segment sections (ew_pagemap w)) (ew_new_phdrs w) \<lparr>fl_size = 0, fl_data = (\<lambda>_. 0)\<rparr>) (\<lambda>f.
     bindR (host_to_ehdr (ew_new_ehdr w)) (\<lambda>e.
     foldR (write_phdr (ew_ehdr w))
       (List.zip (map (\<lambda>i. unat (e_phoff (ew_new_ehdr w)) + 56 * i) [0..<length (ew_new_phdrs w)]) (ew_new_phdrs w))
       (fwrite_at 0 (ehdr_bytes e) f)))"

end
