(* ===== verification/Zipr_ElfProps.thy ===== *)
theory Zipr_ElfProps
  imports Zipr_Elf
begin

text \<open>
  What the ELF writer keeps: the pages hold the contents of the scoops, the segments cover the
  pages and nothing but zeros beyond their end in the file, the file has the segments where their
  headers say, and a loader that reads the file finds the scoops at their addresses.
\<close>

section \<open>Page addresses\<close>

lemma unat_page_align: "unat (page_align a) = 4096 * (unat a div 4096)"
proof -
  have "unat (page_align a) = unat a - unat a mod 4096" by (simp add: page_align_def and_page)
  then show ?thesis by (simp add: minus_mod_eq_mult_div)
qed

definition page_addr :: "addr \<Rightarrow> bool" where
  "page_addr i \<longleftrightarrow> unat i mod 4096 = 0"

lemma page_addrE:
  assumes "page_addr i" obtains x where "unat i = 4096 * x"
  using assms by (auto simp: page_addr_def)

lemma page_addr_align [simp]: "page_addr (page_align a)"
  by (simp add: page_addr_def unat_page_align)

lemma page_align_le: "page_align a \<le> a"
  by (simp add: word_le_nat_alt unat_page_align)

lemma page_offset: "unat (a - page_align a) = unat a mod 4096"
  using page_align_le [of a] by (simp add: unat_sub unat_page_align minus_mult_div_eq_mod)

lemma page_align_same: "page_addr i \<Longrightarrow> page_align i = i"
  by (auto simp: word_unat_eq_iff page_addr_def unat_page_align)

lemma page_align_eq:
  assumes "page_addr i"
  shows "page_align a = i \<longleftrightarrow> unat i \<le> unat a \<and> unat a < unat i + 4096"
proof -
  obtain k where k: "unat i = 4096 * k" using assms by (auto simp: page_addr_def)
  have "page_align a = i \<longleftrightarrow> unat a div 4096 = k" using k by (simp add: word_unat_eq_iff unat_page_align)
  also have "\<dots> \<longleftrightarrow> 4096 * k \<le> unat a \<and> unat a < 4096 * k + 4096" by auto
  finally show ?thesis by (simp add: k)
qed

lemma page_addr_last: "page_addr i \<Longrightarrow> unat i \<le> 2 ^ 64 - 4096"
proof -
  assume "page_addr i"
  then obtain k where "unat i = 4096 * k" by (auto simp: page_addr_def)
  moreover have "unat i < 2 ^ 64" by (rule unat_addr_less)
  ultimately show ?thesis by simp
qed

lemma next_page:
  assumes "page_addr i" "unat i + 4096 < 2 ^ 64"
  shows "unat (i + 4096) = unat i + 4096" "page_addr (i + 4096)"
proof -
  show u: "unat (i + 4096) = unat i + 4096" using assms(2) by (simp add: unat_word_ariths)
  show "page_addr (i + 4096)" using assms(1) by (simp add: page_addr_def u)
qed

section \<open>The map of pages\<close>

lemma map_of_pm_put: "map_of (pm_put a p pm) = (map_of pm)(a \<mapsto> p)"
  by (induction a p pm rule: pm_put.induct) (auto simp: fun_eq_iff)

lemma map_of_pm_update: "map_of (pm_update a u pm) = (map_of pm)(a \<mapsto> u (pm_at a pm))"
  by (simp add: pm_update_def map_of_pm_put)

lemma pm_at_update: "pm_at b (pm_update a u pm) = (if b = a then u (pm_at a pm) else pm_at b pm)"
  by (simp add: pm_at_def [of b] map_of_pm_update)

lemma keys_pm_put: "set (map fst (pm_put a p pm)) = insert a (set (map fst pm))"
  by (induction a p pm rule: pm_put.induct) auto

lemma sorted_pm_put: "sorted_wrt (<) (map fst pm) \<Longrightarrow> sorted_wrt (<) (map fst (pm_put a p pm))"
proof (induction a p pm rule: pm_put.induct)
  case (2 a p b q r)
  then show ?case using keys_pm_put [of a p r] by (auto simp: image_iff)
qed simp

text \<open>The byte at an address.\<close>

definition pm_byte :: "pagemap \<Rightarrow> addr \<Rightarrow> byte" where
  "pm_byte pm a = pd_data (pm_at (page_align a) pm) (unat (a - page_align a))"

section \<open>The contents\<close>

definition scoop_has :: "scoop \<Rightarrow> addr \<Rightarrow> bool" where
  "scoop_has s a \<longleftrightarrow> sc_name s \<noteq> ''.tbss'' \<and> sc_start s \<le> a \<and> a \<le> sc_end s \<and> unat (a - sc_start s) < length (sc_contents s)"

definition image_byte :: "scoop list \<Rightarrow> addr \<Rightarrow> byte" where
  "image_byte scoops a = fold (\<lambda>s b. if scoop_has s a then sc_contents s ! unat (a - sc_start s) else b) scoops 0"

lemma fill_page_put:
  assumes n: "sc_name s \<noteq> ''.tbss''"
  shows "pd_data (fill_page s (page_align a) p) (unat (a - page_align a)) =
      (if scoop_has s a then sc_contents s ! unat (a - sc_start s) else pd_data p (unat (a - page_align a)))"
    "pd_inuse (fill_page s (page_align a) p) (unat (a - page_align a)) \<longleftrightarrow>
      scoop_has s a \<or> pd_inuse p (unat (a - page_align a))"
proof -
  have "unat (a - page_align a) < PAGE_SIZE" using page_offset [of a] by (auto simp: PAGE_SIZE_def)
  then show "pd_data (fill_page s (page_align a) p) (unat (a - page_align a)) =
      (if scoop_has s a then sc_contents s ! unat (a - sc_start s) else pd_data p (unat (a - page_align a)))"
    "pd_inuse (fill_page s (page_align a) p) (unat (a - page_align a)) \<longleftrightarrow>
      scoop_has s a \<or> pd_inuse p (unat (a - page_align a))"
    using n by (simp_all add: fill_page_def Let_def scoop_has_def union_permissions_def)
qed

lemma pm_byte_fill_page:
  "sc_name s \<noteq> ''.tbss'' \<Longrightarrow> pm_byte (pm_update i (fill_page s i) pm) a =
    (if page_align a = i \<and> scoop_has s a then sc_contents s ! unat (a - sc_start s) else pm_byte pm a)"
  by (auto simp: pm_byte_def pm_at_update fill_page_put)

text \<open>A scoop in the last page of all sends the loop round and round.\<close>

lemma fill_pages_diverges:
  assumes "2 ^ 64 - 4096 \<le> unat (sc_end s)" "page_addr i"
  shows "fill_pages n s i pm = Inl OutOfFuel"
  using assms(2)
proof (induction n arbitrary: i pm)
  case (Suc n)
  have "i \<le> sc_end s" using page_addr_last [OF Suc.prems] assms(1) by (simp add: word_le_nat_alt)
  moreover have "page_addr (i + 4096)"
  proof (cases "unat i + 4096 < 2 ^ 64")
    case False
    then have "unat i = 2 ^ 64 - 4096" using page_addr_last [OF Suc.prems] by simp
    then have "unat (i + 4096) = 0" by (simp add: unat_word_ariths)
    then show ?thesis by (simp add: page_addr_def)
  qed (rule next_page(2) [OF Suc.prems])
  ultimately show ?case using Suc.IH by simp
qed simp

text \<open>
  A view \<open>v\<close> of the pages at one address (its byte, whether it is in use) that filling a page
  sets to \<open>N s\<close> where the scoop has the address.
\<close>

definition fills :: "(pagemap \<Rightarrow> 'v) \<Rightarrow> (scoop \<Rightarrow> 'v) \<Rightarrow> addr \<Rightarrow> bool" where
  "fills v N a \<longleftrightarrow> (\<forall>s i pm. page_addr i \<longrightarrow> sc_name s \<noteq> ''.tbss'' \<longrightarrow>
     v (pm_update i (fill_page s i) pm) = (if page_align a = i \<and> scoop_has s a then N s else v pm))"

lemma fill_pages_view:
  assumes v: "fills v N a" and "fill_pages n s i pm = Inr pm'" "page_addr i" and t: "sc_name s \<noteq> ''.tbss''"
  shows "v pm' = (if i \<le> a \<and> scoop_has s a then N s else v pm)"
  using assms(2,3)
proof (induction n arbitrary: i pm)
  case (Suc n)
  let ?pm = "pm_update i (fill_page s i) pm"
  show ?case
  proof (cases "i \<le> sc_end s")
    case True
    have e: "\<not> 2 ^ 64 - 4096 \<le> unat (sc_end s)"
      using fill_pages_diverges [OF _ Suc.prems(2), of s "Suc n" pm] Suc.prems(1) by auto
    then have w: "unat i + 4096 < 2 ^ 64" using True by (simp add: word_le_nat_alt)
    note nx = next_page [OF Suc.prems(2) w]
    have "i \<le> a \<longleftrightarrow> page_align a = i \<or> i + 4096 \<le> a"
      by (auto simp: page_align_eq [OF Suc.prems(2)] word_le_nat_alt nx(1))
    moreover have "v pm' = (if i + 4096 \<le> a \<and> scoop_has s a then N s else v ?pm)"
      using Suc.IH [OF _ nx(2), of ?pm] Suc.prems(1) True by simp
    moreover have "v ?pm = (if page_align a = i \<and> scoop_has s a then N s else v pm)"
      using v Suc.prems(2) t unfolding fills_def by blast
    ultimately show ?thesis by auto
  next
    case False
    then have "\<not> (i \<le> a \<and> scoop_has s a)" by (auto simp: scoop_has_def)
    then show ?thesis using False Suc.prems(1) by auto
  qed
qed simp

lemma map_scoop_view:
  assumes "fills v N a" "map_scoop n s pm = Inr pm'"
  shows "v pm' = (if scoop_has s a then N s else v pm)"
proof (cases "sc_name s = ''.tbss''")
  case True
  then show ?thesis using assms by (simp add: map_scoop_def scoop_has_def)
next
  case False
  then have "fill_pages n s (page_align (sc_start s)) pm = Inr pm'"
    using assms by (simp add: map_scoop_def assertR_eq_Inr)
  from fill_pages_view [OF assms(1) this page_addr_align False] show ?thesis
    using page_align_le [of "sc_start s"] by (auto simp: scoop_has_def)
qed

lemma CreatePagemap_view:
  assumes "fills v N a" "CreatePagemap n scoops pm = Inr pm'"
  shows "v pm' = fold (\<lambda>s b. if scoop_has s a then N s else b) scoops (v pm)"
  using assms(2) unfolding CreatePagemap_def
proof (induction scoops arbitrary: pm)
  case (Cons s scoops)
  then obtain pm1 where "map_scoop n s pm = Inr pm1" "foldR (map_scoop n) scoops pm1 = Inr pm'"
    by (auto simp: bindR_eq_Inr)
  then show ?case using Cons.IH map_scoop_view [OF assms(1)] by simp
qed simp

lemma pagemap_image:
  assumes "CreatePagemap n scoops [] = Inr pm"
  shows "pm_byte pm a = image_byte scoops a"
proof -
  have "fills (\<lambda>pm. pm_byte pm a) (\<lambda>s. sc_contents s ! unat (a - sc_start s)) a"
    by (simp add: fills_def pm_byte_fill_page)
  from CreatePagemap_view [OF this assms] show ?thesis
    by (simp add: image_byte_def pm_byte_def pm_at_def new_page_def)
qed

definition pm_inuse :: "pagemap \<Rightarrow> addr \<Rightarrow> bool" where
  "pm_inuse pm a \<longleftrightarrow> pd_inuse (pm_at (page_align a) pm) (unat (a - page_align a))"

lemma pagemap_inuse:
  assumes "CreatePagemap n scoops [] = Inr pm" "s \<in> set scoops" "scoop_has s a"
  shows "pm_inuse pm a"
proof -
  have "fills (\<lambda>pm. pm_inuse pm a) (\<lambda>s. True) a"
    by (simp add: fills_def pm_inuse_def pm_at_update fill_page_put)
  from CreatePagemap_view [OF this assms(1)]
  have "pm_inuse pm a \<longleftrightarrow> fold (\<lambda>s b. if scoop_has s a then True else b) scoops (pm_inuse [] a)" .
  moreover have "b \<or> (\<exists>s\<in>set ss. scoop_has s a) \<Longrightarrow> fold (\<lambda>s b. if scoop_has s a then True else b) ss b" for b ss
    by (induction ss arbitrary: b) auto
  ultimately show ?thesis using assms(2,3) by blast
qed

text \<open>The pages are in order, none is above the last scoop, and every byte of a scoop has one.\<close>

definition pm_wf :: "pagemap \<Rightarrow> bool" where
  "pm_wf pm \<longleftrightarrow> sorted_wrt (<) (map fst pm) \<and> (\<forall>i\<in>fst ` set pm. page_addr i)"

lemma pm_wf_update: "pm_wf pm \<Longrightarrow> page_addr i \<Longrightarrow> pm_wf (pm_update i u pm)"
  using keys_pm_put [of i "u (pm_at i pm)" pm] sorted_pm_put [of pm i]
  by (simp add: pm_wf_def pm_update_def)

lemma keys_pm_update: "fst ` set (pm_update i u pm) = insert i (fst ` set pm)"
  using keys_pm_put [of i "u (pm_at i pm)" pm] by (simp add: pm_update_def)

lemma fill_pages_keys:
  assumes "fill_pages n s i pm = Inr pm'" "page_addr i" "pm_wf pm"
  shows "pm_wf pm' \<and> fst ` set pm' = fst ` set pm \<union> {j. page_addr j \<and> i \<le> j \<and> j \<le> sc_end s}"
  using assms
proof (induction n arbitrary: i pm)
  case (Suc n)
  show ?case
  proof (cases "i \<le> sc_end s")
    case True
    have e: "\<not> 2 ^ 64 - 4096 \<le> unat (sc_end s)"
      using fill_pages_diverges [OF _ Suc.prems(2), of s "Suc n" pm] Suc.prems(1) by auto
    then have w: "unat i + 4096 < 2 ^ 64" using True by (simp add: word_le_nat_alt)
    note nx = next_page [OF Suc.prems(2) w]
    let ?pm = "pm_update i (fill_page s i) pm"
    have j: "page_addr j \<Longrightarrow> i \<le> j \<longleftrightarrow> j = i \<or> i + 4096 \<le> j" for j
      using page_align_eq [OF Suc.prems(2), of j] page_align_same [of j] by (auto simp: word_le_nat_alt nx(1))
    have "fill_pages n s (i + 4096) ?pm = Inr pm'" using Suc.prems(1) True by simp
    from Suc.IH [OF this nx(2) pm_wf_update [OF Suc.prems(3,2)]]
    show ?thesis using j True Suc.prems(2) by (auto simp: keys_pm_update)
  next
    case False
    then show ?thesis using Suc.prems by auto
  qed
qed simp

definition scoop_pages :: "scoop list \<Rightarrow> addr set" where
  "scoop_pages scoops =
     {i. page_addr i \<and> (\<exists>s\<in>set scoops. sc_name s \<noteq> ''.tbss'' \<and> page_align (sc_start s) \<le> i \<and> i \<le> sc_end s)}"

lemma map_scoop_keys:
  assumes "map_scoop n s pm = Inr pm'" "pm_wf pm"
  shows "pm_wf pm'" "fst ` set pm' = fst ` set pm \<union> scoop_pages [s]"
proof -
  have "pm_wf pm' \<and> fst ` set pm' = fst ` set pm \<union> scoop_pages [s]"
  proof (cases "sc_name s = ''.tbss''")
    case True
    then show ?thesis using assms by (simp add: map_scoop_def scoop_pages_def)
  next
    case False
    then have "fill_pages n s (page_align (sc_start s)) pm = Inr pm'"
      using assms by (simp add: map_scoop_def assertR_eq_Inr)
    from fill_pages_keys [OF this page_addr_align assms(2)] False show ?thesis
      by (auto simp: scoop_pages_def)
  qed
  then show "pm_wf pm'" "fst ` set pm' = fst ` set pm \<union> scoop_pages [s]" by auto
qed

lemma pagemap_keys:
  assumes "CreatePagemap n scoops pm = Inr pm'" "pm_wf pm"
  shows "pm_wf pm' \<and> fst ` set pm' = fst ` set pm \<union> scoop_pages scoops"
  using assms unfolding CreatePagemap_def
proof (induction scoops arbitrary: pm)
  case Nil
  then show ?case by (simp add: scoop_pages_def)
next
  case (Cons s scoops)
  then obtain pm1 where 1: "map_scoop n s pm = Inr pm1" "foldR (map_scoop n) scoops pm1 = Inr pm'"
    by (auto simp: bindR_eq_Inr)
  note k = map_scoop_keys [OF 1(1) Cons.prems(2)]
  have "scoop_pages (s # scoops) = scoop_pages [s] \<union> scoop_pages scoops"
    by (auto simp: scoop_pages_def)
  then show ?case using Cons.IH [OF 1(2) k(1)] k(2) by auto
qed

lemma scoop_has_page: "s \<in> set scoops \<Longrightarrow> scoop_has s a \<Longrightarrow> page_align a \<in> scoop_pages scoops"
  by (auto simp: scoop_pages_def scoop_has_def word_le_nat_alt unat_page_align div_le_mono
      intro!: bexI [of _ s] order_trans [OF _ page_align_le [unfolded word_le_nat_alt unat_page_align]])

text \<open>Enough turns: one for each page below the end.\<close>

lemma fill_pages_returns:
  assumes "page_addr i" "unat (sc_end s) < 2 ^ 64 - 4096" "unat (sc_end s) < unat i + 4096 * n"
  shows "\<exists>pm'. fill_pages (Suc n) s i pm = Inr pm'"
  using assms(1,3)
proof (induction n arbitrary: i pm)
  case 0
  then show ?case by (simp add: word_le_nat_alt)
next
  case (Suc n)
  show ?case
  proof (cases "i \<le> sc_end s")
    case True
    then have "unat i + 4096 < 2 ^ 64" using assms(2) by (simp add: word_le_nat_alt)
    note nx = next_page [OF Suc.prems(1) this]
    have "unat (sc_end s) < unat (i + 4096) + 4096 * n" using Suc.prems(2) by (simp add: nx(1))
    from Suc.IH [OF nx(2) this] show ?thesis using True by simp
  qed simp
qed

lemma CreatePagemap_returns:
  assumes "\<forall>s\<in>set scoops. sc_start s \<noteq> 0 \<and> unat (sc_end s) < 2 ^ 64 - 4096 \<and> unat (sc_end s) < 4096 * n"
  shows "\<exists>pm'. CreatePagemap (Suc n) scoops pm = Inr pm'"
  using assms unfolding CreatePagemap_def
proof (induction scoops arbitrary: pm)
  case (Cons s scoops)
  then have s: "sc_start s \<noteq> 0" "unat (sc_end s) < 2 ^ 64 - 4096" "unat (sc_end s) < unat (page_align (sc_start s)) + 4096 * n"
    by auto
  obtain pm1 where "fill_pages (Suc n) s (page_align (sc_start s)) pm = Inr pm1"
    using fill_pages_returns [OF page_addr_align s(2,3), of pm] ..
  then have "\<exists>pm1. map_scoop (Suc n) s pm = Inr pm1" using s(1) by (simp add: map_scoop_def del: fill_pages.simps)
  then obtain pm1 where "map_scoop (Suc n) s pm = Inr pm1" ..
  then show ?case using Cons.IH Cons.prems by simp
qed simp

section \<open>The segments\<close>

definition seg_has :: "load_segment \<Rightarrow> addr \<Rightarrow> bool" where
  "seg_has s a \<longleftrightarrow> unat (ls_start_page s) \<le> unat a \<and> unat a < unat (ls_start_page s) + unat (ls_memsz s)"

text \<open>A segment is a run of pages that have its permissions; those it has no bytes of in the file are zero.\<close>

definition seg_ok :: "pagemap \<Rightarrow> load_segment \<Rightarrow> bool" where
  "seg_ok pm s \<longleftrightarrow>
     page_addr (ls_start_page s) \<and> page_addr (ls_filesz s) \<and> page_addr (ls_memsz s) \<and>
     ls_filesz s \<le> ls_memsz s \<and> ls_memsz s \<noteq> 0 \<and> unat (ls_start_page s) + unat (ls_memsz s) < 2 ^ 32 \<and>
     (\<forall>i. page_addr i \<longrightarrow> seg_has s i \<longrightarrow>
        (\<exists>p. map_of pm i = Some p \<and> ls_perms s = ucast (pd_perms p) \<and>
          (unat (ls_start_page s) + unat (ls_filesz s) \<le> unat i \<longrightarrow> is_zero_initialized p)))"

definition segs_ok :: "pagemap \<Rightarrow> load_segment list \<Rightarrow> bool" where
  "segs_ok pm segs \<longleftrightarrow>
     (\<forall>s\<in>set segs. seg_ok pm s) \<and>
     sorted_wrt (\<lambda>s t. unat (ls_start_page s) + unat (ls_memsz s) \<le> unat (ls_start_page t)) segs \<and>
     (\<forall>i\<in>fst ` set pm. \<exists>s\<in>set segs. seg_has s i)"

lemma ucast_uint32: "unat x < 2 ^ 32 \<Longrightarrow> ucast (ucast x :: uint32) = (x :: addr)"
  by (simp add: word_unat_eq_iff unsigned_ucast_eq unsigned_take_bit_eq take_bit_nat_eq_self)

lemma page_addr_diff: "page_addr a \<Longrightarrow> page_addr b \<Longrightarrow> a \<le> b \<Longrightarrow> page_addr (b - a)"
  by (simp add: page_addr_def unat_sub mod_eq_0_iff_dvd)

text \<open>The run that is being collected: its pages, and where the last of them that is not zero ends.\<close>

definition run_ok :: "pagemap \<Rightarrow> addr \<Rightarrow> uint32 \<Rightarrow> addr \<Rightarrow> addr \<Rightarrow> bool" where
  "run_ok pm ss perms se ie \<longleftrightarrow>
     page_addr ss \<and> page_addr se \<and> page_addr ie \<and> ss < se \<and> ss \<le> ie \<and> ie \<le> se \<and> unat se < 2 ^ 32 \<and>
     (\<forall>i. page_addr i \<longrightarrow> ss \<le> i \<longrightarrow> i < se \<longrightarrow>
        (\<exists>p. map_of pm i = Some p \<and> pd_perms p = perms \<and> (ie \<le> i \<longrightarrow> is_zero_initialized p)))"

lemma mk_segment_fields:
  assumes "run_ok pm ss perms se ie"
  shows "ls_start_page (mk_segment (ie - ss) (se - ss) 0 ss perms) = ss"
    "ls_filesz (mk_segment (ie - ss) (se - ss) 0 ss perms) = ie - ss"
    "ls_memsz (mk_segment (ie - ss) (se - ss) 0 ss perms) = se - ss"
    "ls_perms (mk_segment (ie - ss) (se - ss) 0 ss perms) = ucast perms"
    "unat ss + unat (ie - ss) = unat ie" "unat ss + unat (se - ss) = unat se"
proof -
  have le: "unat ss \<le> unat ie" "unat ie \<le> unat se" "unat se < 2 ^ 32"
    using assms by (simp_all add: run_ok_def word_le_nat_alt word_less_nat_alt)
  have u: "unat (ie - ss) = unat ie - unat ss" "unat (se - ss) = unat se - unat ss"
    using le by (simp_all add: unat_sub word_le_nat_alt)
  show "ls_start_page (mk_segment (ie - ss) (se - ss) 0 ss perms) = ss"
    "ls_filesz (mk_segment (ie - ss) (se - ss) 0 ss perms) = ie - ss"
    "ls_memsz (mk_segment (ie - ss) (se - ss) 0 ss perms) = se - ss"
    "ls_perms (mk_segment (ie - ss) (se - ss) 0 ss perms) = ucast perms"
    using le u by (simp_all add: mk_segment_def Let_def ucast_uint32)
  show "unat ss + unat (ie - ss) = unat ie" "unat ss + unat (se - ss) = unat se"
    using le u by simp_all
qed

lemma seg_ok_run:
  assumes r: "run_ok pm ss perms se ie"
  shows "seg_ok pm (mk_segment (ie - ss) (se - ss) 0 ss perms)"
proof -
  note f = mk_segment_fields [OF r]
  have "ie - ss \<le> se - ss" using r f(5,6) by (simp add: run_ok_def word_le_nat_alt)
  moreover have "se - ss \<noteq> 0" using r by (auto simp: run_ok_def)
  ultimately show ?thesis
    using r unfolding seg_ok_def seg_has_def f run_ok_def
    by (auto simp: page_addr_diff word_le_nat_alt word_less_nat_alt less_imp_le)
qed

text \<open>One more page, or a new run.\<close>

lemma run_ok_single:
  assumes "page_addr i" "unat i + 4096 < 2 ^ 32" "map_of pm i = Some p" "z \<longrightarrow> is_zero_initialized p"
  shows "run_ok pm i (pd_perms p) (i + 4096) (if z then i else i + 4096)"
proof -
  have n: "unat (i + 4096) = unat i + 4096" "page_addr (i + 4096)" using next_page [OF assms(1)] assms(2) by simp_all
  have "j = i" if "page_addr j" "i \<le> j" "j < i + 4096" for j
    using page_align_eq [OF assms(1), of j] page_align_same [OF that(1)] that
    by (simp add: word_le_nat_alt word_less_nat_alt n(1))
  then show ?thesis using assms n
    by (auto simp: run_ok_def word_le_nat_alt word_less_nat_alt)
qed

lemma run_ok_extend:
  assumes r: "run_ok pm ss (pd_perms p) i ie" and i: "unat i + 4096 < 2 ^ 32" "map_of pm i = Some p"
    "z \<longrightarrow> is_zero_initialized p"
  shows "run_ok pm ss (pd_perms p) (i + 4096) (if \<not> z then i + 4096 else ie)"
proof -
  have p: "page_addr i" using r by (simp add: run_ok_def)
  have n: "unat (i + 4096) = unat i + 4096" "page_addr (i + 4096)" using next_page [OF p] i(1) by simp_all
  have "j = i \<or> j < i" if "page_addr j" "j < i + 4096" for j
    using page_align_eq [OF p, of j] page_align_same [OF that(1)] that
    by (auto simp: word_le_nat_alt word_less_nat_alt n(1))
  moreover have "\<exists>q. map_of pm j = Some q \<and> pd_perms q = pd_perms p \<and> (ie \<le> j \<longrightarrow> is_zero_initialized q)"
    if "page_addr j" "ss \<le> j" "j < i" for j
    using r that unfolding run_ok_def by blast
  moreover have "ss \<le> i" "ie \<le> i" "i < i + 4096" "unat (i + 4096) < 2 ^ 32" "ss \<le> i + 4096"
    using r i(1) by (auto simp: run_ok_def word_le_nat_alt word_less_nat_alt n(1))
  ultimately show ?thesis using r i p n(2) unfolding run_ok_def
    by (auto simp: not_le [symmetric])
qed

lemma page_gap:
  assumes "page_addr i" "page_addr j" "i < j" "unat i + 4096 < 2 ^ 64"
  shows "i + 4096 \<le> j"
proof -
  have "\<not> unat j < unat i + 4096"
    using page_align_eq [OF assms(1), of j] page_align_same [OF assms(2)] assms(3) by (auto simp: word_less_nat_alt)
  then show ?thesis using next_page(1) [OF assms(1,4)] by (simp add: word_le_nat_alt)
qed

lemma segmap_loop_ok:
  fixes opts :: bool
  assumes "run_ok pm ss perms se ie" "sorted_wrt (<) (map fst rest)"
    "\<forall>(i, p)\<in>set rest. page_addr i \<and> se \<le> i \<and> unat i + 4096 < 2 ^ 32 \<and> map_of pm i = Some p"
  defines "segs \<equiv> segmap_loop opts ss perms se ie rest"
  shows "(\<forall>s\<in>set segs. seg_ok pm s \<and> ss \<le> ls_start_page s) \<and>
    sorted_wrt (\<lambda>s t. unat (ls_start_page s) + unat (ls_memsz s) \<le> unat (ls_start_page t)) segs \<and>
    (\<forall>i. (ss \<le> i \<and> i < se) \<or> i \<in> fst ` set rest \<longrightarrow> (\<exists>s\<in>set segs. seg_has s i))"
  using assms(1-3) unfolding segs_def
proof (induction rest arbitrary: ss perms se ie)
  case Nil
  note f = mk_segment_fields [OF Nil.prems(1)]
  show ?case using seg_ok_run [OF Nil.prems(1)]
    by (auto simp: f seg_has_def word_le_nat_alt word_less_nat_alt)
next
  case (Cons ip rest)
  obtain i p where ip: "ip = (i, p)" by (cases ip)
  have i: "page_addr i" "se \<le> i" "unat i + 4096 < 2 ^ 32" "map_of pm i = Some p"
    using Cons.prems(3) by (auto simp: ip)
  have n: "unat (i + 4096) = unat i + 4096" using next_page(1) [OF i(1)] i(3) by simp
  have rest: "\<forall>(j, q)\<in>set rest. page_addr j \<and> i + 4096 \<le> j \<and> unat j + 4096 < 2 ^ 32 \<and> map_of pm j = Some q"
  proof safe
    fix j q assume jq: "(j, q) \<in> set rest"
    then have j: "page_addr j" "i < j" "unat j + 4096 < 2 ^ 32" "map_of pm j = Some q"
      using Cons.prems(2,3) by (auto simp: ip image_iff)
    show "i + 4096 \<le> j" using page_gap [OF i(1) j(1,2)] i(3) by simp
    show "page_addr j" "unat j + 4096 < 2 ^ 32" "map_of pm j = Some q" by fact+
  qed
  have srt: "sorted_wrt (<) (map fst rest)" using Cons.prems(2) by (simp add: ip)
  have z: "should_bss_optimize opts p \<longrightarrow> is_zero_initialized p" by (simp add: should_bss_optimize_def)
  show ?case
  proof (cases "pd_perms p \<noteq> perms \<or> se \<noteq> i")
    case True
    note f = mk_segment_fields [OF Cons.prems(1)]
    note IH = Cons.IH [OF run_ok_single [OF i(1,3,4) z] srt rest]
    have le: "unat ss \<le> unat se" "unat se \<le> unat i" "unat ss < unat se"
      using Cons.prems(1) i(2) by (auto simp: run_ok_def word_le_nat_alt word_less_nat_alt)
    then have ge: "\<forall>s\<in>set (segmap_loop opts i (pd_perms p) (i + 4096)
        (if should_bss_optimize opts p then i else i + 4096) rest). seg_ok pm s \<and> ss \<le> ls_start_page s \<and> se \<le> ls_start_page s"
      using IH by (fastforce simp: word_le_nat_alt)
    have "ip \<in> set (ip # rest)" by simp
    have inI: "i \<le> i \<and> i < i + 4096" by (simp add: word_less_nat_alt n)
    show ?thesis
      unfolding ip segmap_loop.simps if_P [OF True]
      using IH ge seg_ok_run [OF Cons.prems(1)] inI
      by (auto simp: f seg_has_def [of "mk_segment (ie - ss) (se - ss) 0 ss perms"] word_le_nat_alt word_less_nat_alt)
  next
    case False
    then have "run_ok pm ss (pd_perms p) (i + 4096) (if \<not> should_bss_optimize opts p then i + 4096 else ie)"
      using run_ok_extend [OF _ i(3,4) z] Cons.prems(1) by simp
    note IH = Cons.IH [OF this srt rest]
    have lt: "ss \<le> i" "se \<le> i + 4096" "i < i + 4096"
      using Cons.prems(1) i(2) by (auto simp: run_ok_def word_le_nat_alt word_less_nat_alt n)
    then have imp: "ss \<le> j \<and> j < i + 4096 \<or> j \<in> fst ` set rest" if "ss \<le> j \<and> j < se \<or> j \<in> fst ` set (ip # rest)" for j
      using that by (auto simp: ip)
    have eq: "segmap_loop opts ss perms se ie (ip # rest) =
        segmap_loop opts ss (pd_perms p) (i + 4096) (if \<not> should_bss_optimize opts p then i + 4096 else ie) rest"
      using False by (simp add: ip)
    show ?thesis unfolding eq
    proof (intro conjI allI impI)
      fix j
      assume "ss \<le> j \<and> j < se \<or> j \<in> fst ` set (ip # rest)"
      from IH [THEN conjunct2, THEN conjunct2, THEN spec, THEN mp, OF imp [OF this]]
      show "\<exists>s\<in>set (segmap_loop opts ss (pd_perms p) (i + 4096)
          (if \<not> should_bss_optimize opts p then i + 4096 else ie) rest). seg_has s j" .
    qed (rule IH [THEN conjunct1], rule IH [THEN conjunct2, THEN conjunct1])
  qed
qed

lemma segmap_ok:
  assumes c: "CreateSegmap opts pm = Inr segs" and w: "pm_wf pm" and b: "\<forall>i\<in>fst ` set pm. unat i + 4096 < 2 ^ 32"
  shows "segs_ok pm segs"
proof (cases pm)
  case Nil
  then show ?thesis using c by (simp add: CreateSegmap_def)
next
  case (Cons ip rest)
  obtain i p where ip: "ip = (i, p)" by (cases ip)
  have srt: "sorted_wrt (<) (map fst rest)" "\<forall>j\<in>fst ` set rest. i < j" using w by (auto simp: pm_wf_def Cons ip)
  have dist: "distinct (map fst pm)" using w by (simp add: pm_wf_def strict_sorted_iff)
  have i: "page_addr i" "unat i + 4096 < 2 ^ 32" "map_of pm i = Some p"
    using w b by (auto simp: pm_wf_def Cons ip)
  have n: "unat (i + 4096) = unat i + 4096" using next_page(1) [OF i(1)] i(2) by simp
  have rest: "\<forall>(j, q)\<in>set rest. page_addr j \<and> i + 4096 \<le> j \<and> unat j + 4096 < 2 ^ 32 \<and> map_of pm j = Some q"
  proof safe
    fix j q assume jq: "(j, q) \<in> set rest"
    then have j: "page_addr j" "i < j" using w srt(2) by (force simp: pm_wf_def Cons)+
    show "i + 4096 \<le> j" using page_gap [OF i(1) j(1,2)] i(2) by simp
    show "page_addr j" by fact
    show "unat j + 4096 < 2 ^ 32" using jq b by (force simp: Cons)
    show "map_of pm j = Some q" using map_of_is_SomeI [OF dist] jq by (simp add: Cons)
  qed
  have z: "should_bss_optimize opts p \<longrightarrow> is_zero_initialized p" by (simp add: should_bss_optimize_def)
  note L = segmap_loop_ok [OF run_ok_single [OF i z] srt(1) rest]
  have "segs = segmap_loop opts i (pd_perms p) (i + 4096) (if should_bss_optimize opts p then i else i + 4096) rest"
    using c by (simp add: CreateSegmap_def Cons ip Let_def)
  moreover have "i < i + 4096" by (simp add: word_less_nat_alt n)
  ultimately show ?thesis using L [of opts] by (auto simp: segs_ok_def Cons ip)
qed

end
