(* ===== verification/Zipr_ElfFile.thy ===== *)
theory Zipr_ElfFile
  imports Zipr_ElfProps
begin

text \<open>
  The file that \<open>WriteElf\<close> writes, and what a loader makes of it: the headers are read back as
  they were, and an address of a segment has the byte of its page.
\<close>

section \<open>Writing segments\<close>

lemma fl_data_fwrite:
  "fl_data (fwrite_at pos bs f) k = (if pos \<le> k \<and> k < pos + length bs then bs ! (k - pos) else fl_data f k)"
  by (simp add: fwrite_at_def)

lemma fl_size_fwrite: "fl_size f \<le> fl_size (fwrite_at pos bs f)" "bs \<noteq> [] \<Longrightarrow> pos + length bs \<le> fl_size (fwrite_at pos bs f)"
  by (simp_all add: fwrite_at_def)

text \<open>The byte at a distance from the start of a segment.\<close>

definition seg_byte :: "pagemap \<Rightarrow> 64 phdr \<Rightarrow> nat \<Rightarrow> byte" where
  "seg_byte pm p k = pd_data (pm_at (p_vaddr p + of_nat (k div 4096 * 4096)) pm) (k mod 4096)"

definition in_file :: "64 phdr \<Rightarrow> nat \<Rightarrow> bool" where
  "in_file p k \<longleftrightarrow> unat (p_offset p) \<le> k \<and> k < unat (p_offset p) + unat (p_filesz p)"

lemma write_page_full:
  assumes "page_addr (p_filesz p)" "i * 4096 < unat (p_filesz p)"
  shows "write_page sections pm p (i * 4096) f =
    Inr (fwrite_at (unat (p_offset p) + i * 4096) (page_bytes (pm_at (p_vaddr p + of_nat (i * 4096)) pm) 4096) f)"
proof -
  obtain m where m: "unat (p_filesz p) = 4096 * m" using assms(1) by (auto simp: page_addr_def)
  then have "i < m" using assms(2) by simp
  moreover have "unat (p_filesz p) - i * 4096 = 4096" if "\<not> i * 4096 + 4096 < unat (p_filesz p)"
    using that assms(2) m by simp
  ultimately show ?thesis by (simp add: write_page_def Let_def PAGE_SIZE_def)
qed

lemma write_pages_data:
  assumes "page_addr (p_filesz p)" "m * 4096 \<le> unat (p_filesz p)"
    "foldR (write_page sections pm p) (map (\<lambda>i. i * PAGE_SIZE) [0..<m]) f = Inr f'"
  shows "fl_data f' k =
      (if unat (p_offset p) \<le> k \<and> k < unat (p_offset p) + m * 4096 then seg_byte pm p (k - unat (p_offset p)) else fl_data f k) \<and>
    fl_size f \<le> fl_size f' \<and> (0 < m \<longrightarrow> unat (p_offset p) + m * 4096 \<le> fl_size f')"
  using assms(2,3)
proof (induction m arbitrary: f')
  case (Suc m)
  then obtain g where g: "foldR (write_page sections pm p) (map (\<lambda>i. i * PAGE_SIZE) [0..<m]) f = Inr g"
      "write_page sections pm p (m * 4096) g = Inr f'"
    by (auto simp: foldR_append bindR_eq_Inr PAGE_SIZE_def)
  define page where "page = pm_at (p_vaddr p + of_nat (m * 4096)) pm"
  have m: "m * 4096 < unat (p_filesz p)" using Suc.prems(1) by simp
  have f': "f' = fwrite_at (unat (p_offset p) + m * 4096) (page_bytes page 4096) g"
    using g(2) write_page_full [OF assms(1) m] by (simp add: page_def)
  have l: "length (page_bytes page 4096) = 4096" by (simp add: page_bytes_def)
  have "fl_data f' k = seg_byte pm p (k - unat (p_offset p))"
    if c: "unat (p_offset p) + m * 4096 \<le> k" "k < unat (p_offset p) + m * 4096 + 4096"
  proof -
    obtain j where j: "k = unat (p_offset p) + (m * 4096 + j)"
      using le_Suc_ex [OF c(1)] by (metis add.assoc)
    then have "j < 4096" "(m * 4096 + j) div 4096 = m" "(m * 4096 + j) mod 4096 = j" using c(2) by auto
    then show ?thesis by (simp add: f' fl_data_fwrite l j seg_byte_def page_bytes_def page_def)
  qed
  moreover have "fl_data f' k = fl_data g k" if "\<not> (unat (p_offset p) + m * 4096 \<le> k \<and> k < unat (p_offset p) + m * 4096 + 4096)"
    using that by (auto simp: f' fl_data_fwrite l)
  moreover have "fl_size g \<le> fl_size f'" "unat (p_offset p) + Suc m * 4096 \<le> fl_size f'"
    using fl_size_fwrite(1) [of g "unat (p_offset p) + m * 4096" "page_bytes page 4096"]
      fl_size_fwrite(2) [of "page_bytes page 4096" "unat (p_offset p) + m * 4096" g] l
    by (auto simp: f' page_bytes_def)
  ultimately show ?case using Suc.IH [OF _ g(1)] Suc.prems(1)
    by (cases "unat (p_offset p) + m * 4096 \<le> k") auto
qed auto

lemma write_segment_data:
  assumes "write_segment sections pm p f = Inr f'" "page_addr (p_filesz p)"
  shows "fl_data f' k = (if p_type p = PT_LOAD \<and> in_file p k then seg_byte pm p (k - unat (p_offset p)) else fl_data f k)"
    "fl_size f \<le> fl_size f'"
    "p_type p = PT_LOAD \<Longrightarrow> p_filesz p \<noteq> 0 \<Longrightarrow> unat (p_offset p) + unat (p_filesz p) \<le> fl_size f'"
proof -
  obtain m where m: "unat (p_filesz p) = 4096 * m" using assms(2) by (auto simp: page_addr_def)
  then have starts: "page_starts (unat (p_filesz p)) = map (\<lambda>i. i * PAGE_SIZE) [0..<m]"
    by (simp add: page_starts_def PAGE_SIZE_def)
  have W: "fl_data f' k = (if unat (p_offset p) \<le> k \<and> k < unat (p_offset p) + m * 4096
        then seg_byte pm p (k - unat (p_offset p)) else fl_data f k) \<and>
      fl_size f \<le> fl_size f' \<and> (0 < m \<longrightarrow> unat (p_offset p) + m * 4096 \<le> fl_size f')" if "p_type p = PT_LOAD"
  proof (rule write_pages_data [OF assms(2)])
    show "m * 4096 \<le> unat (p_filesz p)" using m by simp
    show "foldR (write_page sections pm p) (map (\<lambda>i. i * PAGE_SIZE) [0..<m]) f = Inr f'"
      using assms(1) that by (simp add: write_segment_def starts split: if_splits)
  qed
  show "fl_data f' k = (if p_type p = PT_LOAD \<and> in_file p k then seg_byte pm p (k - unat (p_offset p)) else fl_data f k)"
    "fl_size f \<le> fl_size f'"
    using W assms(1) m by (cases "p_type p = PT_LOAD"; auto simp: in_file_def write_segment_def)+
  show "unat (p_offset p) + unat (p_filesz p) \<le> fl_size f'" if "p_type p = PT_LOAD" "p_filesz p \<noteq> 0"
    using W [OF that(1)] that(2) m by (auto simp: word_neq_0_conv [symmetric] unat_eq_0 [symmetric] mult.commute)
qed

lemma write_segments_data:
  assumes "foldR (write_segment sections pm) ps f = Inr f'" "\<forall>p\<in>set ps. page_addr (p_filesz p) \<or> p_type p \<noteq> PT_LOAD"
    "\<forall>q\<in>set ps. p_type q = PT_LOAD \<longrightarrow> in_file q k \<longrightarrow> q = p"
  shows "fl_data f' k = (if p \<in> set ps \<and> p_type p = PT_LOAD \<and> in_file p k then seg_byte pm p (k - unat (p_offset p)) else fl_data f k)
    \<and> fl_size f \<le> fl_size f' \<and>
    (\<forall>q\<in>set ps. p_type q = PT_LOAD \<longrightarrow> p_filesz q \<noteq> 0 \<longrightarrow> unat (p_offset q) + unat (p_filesz q) \<le> fl_size f')"
  using assms
proof (induction ps arbitrary: f)
  case (Cons q ps)
  then obtain g where g: "write_segment sections pm q f = Inr g" "foldR (write_segment sections pm) ps g = Inr f'"
    by (auto simp: bindR_eq_Inr)
  have IH: "fl_data f' k = (if p \<in> set ps \<and> p_type p = PT_LOAD \<and> in_file p k then seg_byte pm p (k - unat (p_offset p)) else fl_data g k)
    \<and> fl_size g \<le> fl_size f' \<and>
    (\<forall>q\<in>set ps. p_type q = PT_LOAD \<longrightarrow> p_filesz q \<noteq> 0 \<longrightarrow> unat (p_offset q) + unat (p_filesz q) \<le> fl_size f')"
    using Cons.IH [OF g(2)] Cons.prems(2,3) by auto
  show ?case
  proof (cases "p_type q = PT_LOAD")
    case True
    then have q: "page_addr (p_filesz q)" "in_file q k \<longrightarrow> q = p" using Cons.prems(2,3) by auto
    note W = write_segment_data [OF g(1) q(1)]
    show ?thesis using IH W(1) [of k] W(2) W(3) [OF True] q(2) True by auto
  next
    case False
    then have "g = f" using g(1) by (simp add: write_segment_def)
    then show ?thesis using IH False by auto
  qed
qed simp

section \<open>Writing headers\<close>

lemma write_phdr_Inr:
  "write_phdr e ip f = Inr f' \<longleftrightarrow> (\<exists>p. host_to_phdr e (snd ip) = Inr p \<and> f' = fwrite_at (fst ip) (phdr_bytes p) f)"
  by (auto simp: write_phdr_def bindR_eq_Inr)

lemma write_phdr_data:
  assumes "foldR (write_phdr e) ips f = Inr f'"
  shows "(\<forall>ip\<in>set ips. \<not> (fst ip \<le> k \<and> k < fst ip + 56)) \<longrightarrow> fl_data f' k = fl_data f k" "fl_size f \<le> fl_size f'"
    "\<forall>ip\<in>set ips. fst ip + 56 \<le> fl_size f'"
proof -
  have "((\<forall>ip\<in>set ips. \<not> (fst ip \<le> k \<and> k < fst ip + 56)) \<longrightarrow> fl_data f' k = fl_data f k) \<and> fl_size f \<le> fl_size f' \<and>
      (\<forall>ip\<in>set ips. fst ip + 56 \<le> fl_size f')"
    using assms
  proof (induction ips arbitrary: f)
    case (Cons ip ips)
    then obtain p where p: "host_to_phdr e (snd ip) = Inr p"
        "foldR (write_phdr e) ips (fwrite_at (fst ip) (phdr_bytes p) f) = Inr f'"
      by (auto simp: bindR_eq_Inr write_phdr_Inr)
    have "phdr_bytes p \<noteq> []" using phdr_bytes_64(1) [of p] by (metis list.size(3) zero_neq_numeral)
    then show ?case
      using Cons.IH [OF p(2)] fl_size_fwrite(1) [of f "fst ip" "phdr_bytes p"] fl_size_fwrite(2) [of "phdr_bytes p" "fst ip" f] phdr_bytes_64(1) [of p]
      by (auto simp: fl_data_fwrite)
  qed simp
  then show "(\<forall>ip\<in>set ips. \<not> (fst ip \<le> k \<and> k < fst ip + 56)) \<longrightarrow> fl_data f' k = fl_data f k" "fl_size f \<le> fl_size f'"
    "\<forall>ip\<in>set ips. fst ip + 56 \<le> fl_size f'" by auto
qed

text \<open>Each of the headers is where it was written: they do not overlap.\<close>

lemma write_phdrs_at:
  assumes "foldR (write_phdr e) (List.zip (map (\<lambda>i. b + 56 * i) [k..<k + length ps]) ps) f = Inr f'" "i < length ps"
  shows "\<exists>p. host_to_phdr e (ps ! i) = Inr p \<and> (\<forall>j<56. fl_data f' (b + 56 * (k + i) + j) = phdr_bytes p ! j)"
  using assms
proof (induction ps arbitrary: k i f)
  case (Cons p ps)
  have up: "[k..<k + length (p # ps)] = k # [Suc k..<Suc k + length ps]" by (simp add: upt_rec)
  obtain q where q: "host_to_phdr e p = Inr q"
      "foldR (write_phdr e) (List.zip (map (\<lambda>i. b + 56 * i) [Suc k..<Suc k + length ps]) ps)
        (fwrite_at (b + 56 * k) (phdr_bytes q) f) = Inr f'"
    using Cons.prems(1) unfolding up by (auto simp: write_phdr_Inr bindR_eq_Inr simp del: upt_Suc)
  show ?case
  proof (cases i)
    case 0
    have "fl_data f' (b + 56 * k + j) = phdr_bytes q ! j" if "j < 56" for j
    proof -
      have "\<forall>ip\<in>set (List.zip (map (\<lambda>i. b + 56 * i) [Suc k..<Suc k + length ps]) ps). \<not> (fst ip \<le> b + 56 * k + j \<and> b + 56 * k + j < fst ip + 56)"
        using that by (auto dest!: set_zip_leftD)
      from write_phdr_data(1) [OF q(2), THEN mp, OF this] show ?thesis
        using that phdr_bytes_64(1) [of q] by (simp add: fl_data_fwrite)
    qed
    then show ?thesis using q(1) 0 by auto
  next
    case (Suc i')
    then show ?thesis using Cons.IH [OF q(2), of i'] Cons.prems(2) by auto
  qed
qed simp

section \<open>The whole file\<close>

definition in_headers :: "elf_writer \<Rightarrow> nat \<Rightarrow> bool" where
  "in_headers w k \<longleftrightarrow> k < 64 \<or>
     (unat (e_phoff (ew_new_ehdr w)) \<le> k \<and> k < unat (e_phoff (ew_new_ehdr w)) + 56 * length (ew_new_phdrs w))"

definition loads_of :: "elf_writer \<Rightarrow> 64 phdr list" where
  "loads_of w = List.filter (\<lambda>p. p_type p = PT_LOAD) (ew_new_phdrs w)"

lemma length_ehdr_bytes: "length (ehdr_bytes (e :: 64 ehdr)) = length (e_ident e) + 48"
  by (simp add: ehdr_bytes_def)

lemma host_to_ehdr_ident: "host_to_ehdr (e :: 64 ehdr) = Inr e' \<Longrightarrow> e_ident e' = e_ident e"
  by (auto simp: host_to_ehdr_def at_width_def ehdr_with_def split: if_splits)

text \<open>Outside the headers the file has the pages of the segments.\<close>

lemma WriteElf_data:
  assumes w: "WriteElf sections w = Inr f" and e: "length (e_ident (ew_new_ehdr w)) = 16"
    and al: "\<forall>p\<in>set (loads_of w). page_addr (p_filesz p)"
    and p: "p \<in> set (loads_of w)" "in_file p k" and one: "\<forall>q\<in>set (loads_of w). in_file q k \<longrightarrow> q = p"
    and h: "\<not> in_headers w k"
  shows "fl_data f k = seg_byte (ew_pagemap w) p (k - unat (p_offset p))" "k < fl_size f"
proof -
  let ?b = "unat (e_phoff (ew_new_ehdr w))" and ?n = "length (ew_new_phdrs w)"
  let ?ips = "List.zip (map (\<lambda>i. ?b + 56 * i) [0..<?n]) (ew_new_phdrs w)"
  obtain g e' where g: "foldR (write_segment sections (ew_pagemap w)) (ew_new_phdrs w) \<lparr>fl_size = 0, fl_data = (\<lambda>_. 0)\<rparr> = Inr g"
      "host_to_ehdr (ew_new_ehdr w) = Inr e'" "foldR (write_phdr (ew_ehdr w)) ?ips (fwrite_at 0 (ehdr_bytes e') g) = Inr f"
    using w by (auto simp: WriteElf_def bindR_eq_Inr)
  have l: "length (ehdr_bytes e') = 64" using host_to_ehdr_ident [OF g(2)] e by (simp add: length_ehdr_bytes)
  have "\<forall>ip\<in>set ?ips. \<not> (fst ip \<le> k \<and> k < fst ip + 56)"
  proof
    fix ip assume "ip \<in> set ?ips"
    then obtain i where "fst ip = ?b + 56 * i" "i < ?n" by (auto simp: set_zip)
    then show "\<not> (fst ip \<le> k \<and> k < fst ip + 56)" using h by (auto simp: in_headers_def)
  qed
  from write_phdr_data(1) [OF g(3), THEN mp, OF this]
  have "fl_data f k = fl_data g k" using h l by (simp add: fl_data_fwrite in_headers_def)
  moreover have S: "fl_data g k = (if p \<in> set (ew_new_phdrs w) \<and> p_type p = PT_LOAD \<and> in_file p k
        then seg_byte (ew_pagemap w) p (k - unat (p_offset p)) else fl_data \<lparr>fl_size = 0, fl_data = (\<lambda>_. 0)\<rparr> k) \<and>
      fl_size \<lparr>fl_size = 0, fl_data = (\<lambda>_. 0)\<rparr> \<le> fl_size g \<and>
      (\<forall>q\<in>set (ew_new_phdrs w). p_type q = PT_LOAD \<longrightarrow> p_filesz q \<noteq> 0 \<longrightarrow> unat (p_offset q) + unat (p_filesz q) \<le> fl_size g)"
    by (rule write_segments_data [OF g(1)]) (use al one in \<open>auto simp: loads_of_def\<close>)
  ultimately show "fl_data f k = seg_byte (ew_pagemap w) p (k - unat (p_offset p))"
    using p by (simp add: loads_of_def)
  have "p_filesz p \<noteq> 0" using p(2) by (auto simp: in_file_def)
  then have "k < fl_size g" using S p by (auto simp: in_file_def loads_of_def)
  also have "fl_size g \<le> fl_size f" using fl_size_fwrite(1) [of g 0 "ehdr_bytes e'"] write_phdr_data(2) [OF g(3)] by linarith
  finally show "k < fl_size f" .
qed

lemma fread_at_bytes:
  assumes "pos + length bs \<le> fl_size f" "\<forall>j<length bs. fl_data f (pos + j) = bs ! j"
  shows "fread_at pos (length bs) f = Inr bs"
proof -
  have "map (fl_data f) [pos..<pos + length bs] = bs" using assms(2) by (intro nth_equalityI) auto
  then show ?thesis using assms(1) by (simp add: fread_at_def)
qed

text \<open>Reading the headers back.\<close>

lemma host_to_phdr_ident:
  "e_ident e = e_ident e' \<Longrightarrow> host_to_phdr e p = host_to_phdr e' p" "e_ident e = e_ident e' \<Longrightarrow> phdr_to_host e p = phdr_to_host e' p"
  by (simp_all add: host_to_phdr_def phdr_to_host_def)

lemma load_phdr_written:
  fixes e :: "64 ehdr"
  assumes o: "e_ident e ! 5 = 1 \<or> e_ident e ! 5 = 2" and b: "unat (e_phoff e) = b"
    and size: "\<forall>i<length ps. b + 56 * i + 56 \<le> fl_size f"
    and at: "\<forall>i<length ps. \<exists>p. host_to_phdr e (ps ! i) = Inr p \<and> (\<forall>j<56. fl_data f (b + 56 * i + j) = phdr_bytes p ! j)"
    and n: "n \<le> length ps"
  shows "foldR (load_phdr e f) [0..<n] [] = Inr (take n ps)"
  using n
proof (induction n)
  case (Suc n)
  then have n: "n < length ps" by simp
  obtain p where p: "host_to_phdr e (ps ! n) = Inr p" "\<forall>j<56. fl_data f (b + 56 * n + j) = phdr_bytes p ! j"
    using at n by blast
  have "fread_at (b + 56 * n) 56 f = Inr (phdr_bytes p)"
    using fread_at_bytes [of "b + 56 * n" "phdr_bytes p" f] p(2) size n by (simp add: phdr_bytes_64(1))
  moreover have "phdr_to_host e p = Inr (ps ! n)"
    using phdr_roundtrip(2) [OF _ o, of "ps ! n"] p(1) by simp
  ultimately have "load_phdr e f n (take n ps) = Inr (take (Suc n) ps)"
    using phdr_bytes_64(2) [of p "[]"] by (simp add: load_phdr_def b take_Suc_conv_app_nth [OF n])
  then show ?case using Suc by (simp add: foldR_append)
qed simp

lemma WriteElf_read_back:
  assumes w: "WriteElf sections w = Inr f" and i: "length (e_ident (ew_new_ehdr w)) = 16"
    and same: "e_ident (ew_ehdr w) = e_ident (ew_new_ehdr w)"
    and o: "e_ident (ew_ehdr w) ! 5 = 1 \<or> e_ident (ew_ehdr w) ! 5 = 2"
    and pos: "64 \<le> unat (e_phoff (ew_new_ehdr w))"
    and n: "unat (e_phnum (ew_new_ehdr w)) = length (ew_new_phdrs w)"
  shows "bindR (LoadEhdr f v) (LoadPhdrs f) =
    Inr (v\<lparr>ew_ehdr := (if e_ident (ew_ehdr w) ! 5 = 1 then ew_new_ehdr w else (ew_new_ehdr w)\<lparr>e_ehsize := 0\<rparr>),
      ew_phdrs := ew_new_phdrs w\<rparr>)"
proof -
  define e where "e = (if e_ident (ew_ehdr w) ! 5 = 1 then ew_new_ehdr w else (ew_new_ehdr w)\<lparr>e_ehsize := 0\<rparr>)"
  have n': "unat (e_phnum e) = length (ew_new_phdrs w)" "e_phoff e = e_phoff (ew_new_ehdr w)" using n by (simp_all add: e_def)
  let ?b = "unat (e_phoff (ew_new_ehdr w))" and ?ps = "ew_new_phdrs w"
  let ?ips = "List.zip (map (\<lambda>i. ?b + 56 * i) [0..<0 + length ?ps]) ?ps"
  obtain g e' where g: "host_to_ehdr (ew_new_ehdr w) = Inr e'"
      "foldR (write_phdr (ew_ehdr w)) ?ips (fwrite_at 0 (ehdr_bytes e') g) = Inr f"
    using w by (auto simp: WriteElf_def bindR_eq_Inr)
  have l: "length (ehdr_bytes e') = 64" using host_to_ehdr_ident [OF g(1)] i by (simp add: length_ehdr_bytes)
  have ne: "ehdr_bytes e' \<noteq> []" using l by auto
  have "fl_data f j = ehdr_bytes e' ! j" if "j < 64" for j
  proof -
    have "\<forall>ip\<in>set ?ips. \<not> (fst ip \<le> j \<and> j < fst ip + 56)" using that pos by (auto dest!: set_zip_leftD)
    from write_phdr_data(1) [OF g(2), THEN mp, OF this] show ?thesis using that l by (simp add: fl_data_fwrite)
  qed
  moreover have "64 \<le> fl_size f"
    using fl_size_fwrite(2) [OF ne, of 0 g] write_phdr_data(2) [OF g(2)] l by linarith
  ultimately have "fread_at 0 64 f = Inr (ehdr_bytes e')"
    using fread_at_bytes [of 0 "ehdr_bytes e'" f] l by simp
  moreover have "ehdr_of_bytes (ehdr_bytes e') = e'"
    using ehdr_bytes_64(2) [of e' "[]"] host_to_ehdr_ident [OF g(1)] i by simp
  moreover have "ehdr_to_host e' = Inr e" using ehdr_roundtrip(2) [of "ew_new_ehdr w"] o g(1) same by (simp add: e_def)
  ultimately have E: "LoadEhdr f v = Inr (v\<lparr>ew_ehdr := e\<rparr>)" by (simp add: LoadEhdr_def)
  have id: "e_ident e = e_ident (ew_ehdr w)" by (simp add: same e_def)
  have "\<forall>i<length ?ps. \<exists>p. host_to_phdr e (?ps ! i) = Inr p \<and> (\<forall>j<56. fl_data f (?b + 56 * i + j) = phdr_bytes p ! j)"
    using write_phdrs_at [OF g(2)] host_to_phdr_ident(1) [OF id] by simp
  moreover have "\<forall>i<length ?ps. ?b + 56 * i + 56 \<le> fl_size f"
  proof safe
    fix i assume "i < length ?ps"
    then have "(?b + 56 * i, ?ps ! i) \<in> set ?ips" by (auto simp: set_zip intro!: exI [of _ i])
    from write_phdr_data(3) [OF g(2), THEN bspec, OF this] show "?b + 56 * i + 56 \<le> fl_size f" by simp
  qed
  ultimately have "foldR (load_phdr e f) [0..<length ?ps] [] = Inr (take (length ?ps) ?ps)"
    using o id by (intro load_phdr_written [where b = ?b]) (simp_all add: n')
  then show ?thesis using E n' by (simp add: LoadPhdrs_def flip: e_def)
qed

section \<open>The program headers\<close>

text \<open>Only headers of the four named types change after they are made, and they keep their type.\<close>

definition same_loads :: "64 phdr list \<Rightarrow> 64 phdr list \<Rightarrow> bool" where
  "same_loads = list_all2 (\<lambda>p q. p_type q = p_type p \<and> (p_type p = PT_LOAD \<longrightarrow> q = p))"

lemma same_loads_refl: "same_loads ps ps"
  by (simp add: same_loads_def list_all2_refl)

lemma same_loads_trans: "same_loads ps qs \<Longrightarrow> same_loads qs rs \<Longrightarrow> same_loads ps rs"
  by (auto simp: same_loads_def list_all2_conv_all_nth)

lemma same_loads_filter:
  "same_loads ps qs \<Longrightarrow> List.filter (\<lambda>p. p_type p = PT_LOAD) qs = List.filter (\<lambda>p. p_type p = PT_LOAD) ps"
  unfolding same_loads_def by (induction rule: list_all2_induct) auto

lemma fold_type:
  assumes "\<And>j p. p_type (g j p) = p_type p"
  shows "p_type (fold g js p) = p_type p"
  using assms by (induction js arbitrary: p) auto

lemma update_phdr_loads:
  assumes "update_phdr scoops i ps = Inr ps'" "i < length ps"
  shows "same_loads ps ps'"
proof (cases "ps' = ps")
  case False
  then obtain name s p where p: "map_of pt_type_to_sec_name (p_type (ps ! i)) = Some name"
      "phdr_for_scoop ps i s = Inr p" "ps' = ps[i := p]"
    using assms(1) by (auto simp: update_phdr_def mapR_eq_Inr split: option.splits)
  have "p_type p = p_type (ps ! i)"
    using p(2) unfolding phdr_for_scoop_def Let_def assertR_eq_Inr by (auto simp: fold_type)
  moreover have "p_type (ps ! i) \<noteq> PT_LOAD"
    using p(1) by (auto simp: pt_type_to_sec_name_def PT_LOAD_def PT_INTERP_def PT_DYNAMIC_def PT_NOTE_def PT_GNU_EH_FRAME_def split: if_splits)
  ultimately show ?thesis using assms(2)
    by (auto simp: same_loads_def p(3) list_all2_conv_all_nth nth_list_update)
qed (simp add: same_loads_refl)

lemma update_sections_loads:
  assumes "update_phdr_for_scoop_sections scoops ps = Inr ps'"
  shows "same_loads ps ps'"
proof -
  have "same_loads ps qs'" if "foldR (update_phdr scoops) ks qs = Inr qs'" "same_loads ps qs" "\<forall>i\<in>set ks. i < length ps" for ks qs qs'
    using that
  proof (induction ks arbitrary: qs)
    case (Cons i ks)
    then obtain r where r: "update_phdr scoops i qs = Inr r" "foldR (update_phdr scoops) ks r = Inr qs'"
      by (auto simp: bindR_eq_Inr)
    have "length qs = length ps" using Cons.prems(2) by (simp add: same_loads_def list_all2_lengthD)
    then have "same_loads ps r" using update_phdr_loads [OF r(1)] same_loads_trans Cons.prems(2,3) by auto
    then show ?case using Cons.IH [OF r(2)] Cons.prems(3) by simp
  qed simp
  from this [of "[0..<length ps]" ps ps'] show ?thesis
    using assms same_loads_refl by (simp add: update_phdr_for_scoop_sections_def)
qed

end
