(* ===== verification/Zipr_ElfLoad.thy ===== *)
theory Zipr_ElfLoad
  imports Zipr_ElfFile
begin

text \<open>
  The file that is written, as a loader sees it. For each of the places that \<open>CreateNewPhdrs\<close>
  finds for the program headers: the headers go over no byte of the program, the segments do not
  overlap, and so every byte of a scoop is at its address when the file is loaded.
\<close>

section \<open>Offsets in the file\<close>

definition file_off :: "uint32 \<Rightarrow> load_segment list \<Rightarrow> nat \<Rightarrow> nat" where
  "file_off fo segs i = unat fo + sum_list (map (\<lambda>s. unat (ls_filesz s)) (take i segs))"

definition load_of :: "nat \<Rightarrow> load_segment \<Rightarrow> 64 phdr" where
  "load_of off s = \<lparr>p_type = PT_LOAD, p_flags = ucast (ls_perms s), p_offset = of_nat off, p_vaddr = ls_start_page s,
     p_paddr = ls_start_page s, p_filesz = ls_filesz s, p_memsz = ls_memsz s, p_align = 0x1000\<rparr>"

lemma file_off_Cons:
  assumes "unat fo + unat (ls_filesz s) < 2 ^ 32"
  shows "file_off (fo + ucast (ls_filesz s)) segs i = file_off fo (s # segs) (Suc i)"
proof -
  have "unat (ucast (ls_filesz s) :: uint32) = unat (ls_filesz s)"
    using assms by (simp add: unsigned_ucast_eq take_bit_nat_eq_self)
  then have "unat (fo + ucast (ls_filesz s)) = unat fo + unat (ls_filesz s)" using assms by (simp add: unat_word_ariths)
  then show ?thesis by (simp add: file_off_def)
qed

lemma load_phdrs_nth:
  assumes "file_off fo segs (length segs) < 2 ^ 32" "i < length segs"
  shows "load_phdrs fo segs ! i = load_of (file_off fo segs i) (segs ! i)"
  using assms
proof (induction segs arbitrary: fo i)
  case (Cons s segs)
  have b: "unat fo + unat (ls_filesz s) < 2 ^ 32" using Cons.prems(1) by (simp add: file_off_def)
  show ?case
  proof (cases i)
    case 0
    then show ?thesis by (simp add: load_of_def file_off_def word_unat_eq_iff)
  next
    case (Suc j)
    have "file_off (fo + ucast (ls_filesz s)) segs (length segs) < 2 ^ 32"
      using Cons.prems(1) by (simp add: file_off_Cons [OF b])
    from Cons.IH [OF this, of j] show ?thesis using Suc Cons.prems(2) by (simp add: file_off_Cons [OF b])
  qed
qed simp

lemma length_load_phdrs [simp]: "length (load_phdrs fo segs) = length segs"
  by (induction segs arbitrary: fo) auto

lemma load_phdrs_type: "p \<in> set (load_phdrs fo segs) \<Longrightarrow> p_type p = PT_LOAD"
  by (induction segs arbitrary: fo) auto

lemma file_off_mono:
  assumes "i < j" "j \<le> length segs"
  shows "file_off fo segs i + unat (ls_filesz (segs ! i)) \<le> file_off fo segs j"
proof -
  have "take j segs = take i (take j segs) @ take j segs ! i # drop (Suc i) (take j segs)"
    by (rule id_take_nth_drop) (use assms in simp)
  then have "take j segs = take i segs @ segs ! i # drop (Suc i) (take j segs)"
    using assms by (simp add: min_def)
  from arg_cong [OF this, of "\<lambda>l. sum_list (map (\<lambda>s. unat (ls_filesz s)) l)"]
  show ?thesis by (simp add: file_off_def)
qed

lemma file_off_bound: "i \<le> length segs \<Longrightarrow> file_off fo segs i \<le> file_off fo segs (length segs)"
  using file_off_mono [of i "length segs" segs fo] by (cases "i = length segs") auto

lemma file_off_ge: "unat fo \<le> file_off fo segs i"
  by (simp add: file_off_def)

text \<open>Each byte of the file belongs to one segment at most.\<close>

lemma file_off_unique:
  assumes "i < length segs" "j < length segs"
    "file_off fo segs i \<le> k" "k < file_off fo segs i + unat (ls_filesz (segs ! i))"
    "file_off fo segs j \<le> k" "k < file_off fo segs j + unat (ls_filesz (segs ! j))"
  shows "i = j"
  using file_off_mono [of i j segs fo] file_off_mono [of j i segs fo] assms by (cases i j rule: linorder_cases) auto

lemma unat_load_of: "off < 2 ^ 32 \<Longrightarrow> unat (p_offset (load_of off s)) = off"
  by (simp add: load_of_def unat_of_nat)

lemma written_segment:
  assumes ll: "loads_of w = hs @ load_phdrs fo segs"
    and hs: "\<forall>h\<in>set hs. unat (p_offset h) + unat (p_filesz h) \<le> unat fo \<and> page_addr (p_filesz h)"
    and al: "\<forall>s\<in>set segs. page_addr (ls_filesz s) \<and> page_addr (ls_start_page s)"
    and sum: "file_off fo segs (length segs) < 2 ^ 32"
    and w: "WriteElf sections w = Inr f" and e: "length (e_ident (ew_new_ehdr w)) = 16"
    and i: "i < length segs" "k < unat (ls_filesz (segs ! i))" "unat (ls_start_page (segs ! i)) + k < 2 ^ 64"
    and h: "\<not> in_headers w (file_off fo segs i + k)"
  shows "fl_data f (file_off fo segs i + k) = pm_byte (ew_pagemap w) (ls_start_page (segs ! i) + of_nat k)"
    "file_off fo segs i + k < fl_size f"
proof -
  let ?p = "load_phdrs fo segs ! i" and ?k = "file_off fo segs i + k"
  have off: "j < length segs \<Longrightarrow> unat (p_offset (load_phdrs fo segs ! j)) = file_off fo segs j" for j
    using file_off_bound [of j segs fo] sum by (simp add: load_phdrs_nth [OF sum] unat_load_of)
  have fsz: "j < length segs \<Longrightarrow> p_filesz (load_phdrs fo segs ! j) = ls_filesz (segs ! j)" for j
    by (simp add: load_phdrs_nth [OF sum] load_of_def)
  have inf: "in_file ?p ?k" using i(1,2) by (simp add: in_file_def off fsz)
  have one: "\<forall>q\<in>set (loads_of w). in_file q ?k \<longrightarrow> q = ?p"
  proof (intro ballI impI)
    fix q assume q: "q \<in> set (loads_of w)" "in_file q ?k"
    then have "q \<notin> set hs" using hs file_off_ge [of fo segs i] by (force simp: in_file_def)
    then obtain j where "j < length segs" "q = load_phdrs fo segs ! j"
      using q(1) by (auto simp: ll in_set_conv_nth)
    then show "q = ?p" using file_off_unique [of i segs j fo ?k] q(2) i by (auto simp: in_file_def off fsz)
  qed
  have al': "\<forall>p\<in>set (loads_of w). page_addr (p_filesz p)"
    using hs al fsz by (auto simp: ll in_set_conv_nth [of _ "load_phdrs fo segs"])
  have mem: "?p \<in> set (loads_of w)" using i(1) by (simp add: ll)
  have "fl_data f ?k = seg_byte (ew_pagemap w) ?p k"
    using WriteElf_data(1) [OF w e al' mem inf one h] i(1) by (simp add: off)
  also have "\<dots> = pm_byte (ew_pagemap w) (ls_start_page (segs ! i) + of_nat k)"
  proof -
    let ?s = "ls_start_page (segs ! i)"
    have "unat ?s mod 4096 = 0" using al i(1) by (simp add: page_addr_def)
    then obtain m where m: "unat ?s = 4096 * m" by auto
    have u: "unat (?s + of_nat j) = unat ?s + j" if "j \<le> k" for j
      using i(3) that by (simp add: unat_word_ariths unat_of_nat)
    have "unat (?s + of_nat k) div 4096 = m + k div 4096" by (simp add: u m)
    then have "page_align (?s + of_nat k) = ?s + of_nat (k div 4096 * 4096)"
      using u [of "k div 4096 * 4096"] by (simp add: word_unat_eq_iff unat_page_align m)
    moreover have "unat (?s + of_nat k) mod 4096 = k mod 4096" by (simp add: u m)
    ultimately show ?thesis
      unfolding pm_byte_def page_offset using i(1) by (simp add: seg_byte_def load_phdrs_nth [OF sum] load_of_def)
  qed
  finally show "fl_data f ?k = pm_byte (ew_pagemap w) (ls_start_page (segs ! i) + of_nat k)" .
  show "?k < fl_size f" by (rule WriteElf_data(2) [OF w e al' mem inf one h])
qed

section \<open>The loader\<close>

text \<open>It reads the headers of the file and maps the segments; the rest of a segment is zero.\<close>

definition empty_writer :: elf_writer where
  "empty_writer = \<lparr>ew_pagemap = [], ew_segvec = [], ew_phdrs = [], ew_new_phdrs = [],
     ew_ehdr = ehdr_of_bytes [], ew_new_ehdr = ehdr_of_bytes []\<rparr>"

definition phdr_has :: "64 phdr \<Rightarrow> addr \<Rightarrow> bool" where
  "phdr_has p a \<longleftrightarrow> unat (p_vaddr p) \<le> unat a \<and> unat a < unat (p_vaddr p) + unat (p_memsz p)"

definition elf_load :: "out_file \<Rightarrow> addr \<Rightarrow> byte option result" where
  "elf_load f a =
     bindR (bindR (LoadEhdr f empty_writer) (LoadPhdrs f)) (\<lambda>w. Inr (
       map_option (\<lambda>p. let k = unat (a - p_vaddr p) in if k < unat (p_filesz p) then fl_data f (unat (p_offset p) + k) else 0)
         (find (\<lambda>p. p_type p = PT_LOAD \<and> phdr_has p a) (ew_phdrs w))))"

text \<open>
  What \<open>WriteElf\<close> wrote, and more behind it: the sections. The program headers are read from it as
  they were, and so are the bytes that were there, the first header apart.
\<close>

definition read_phdrs :: "out_file \<Rightarrow> 64 phdr list result" where
  "read_phdrs f = mapR ew_phdrs (bindR (LoadEhdr f empty_writer) (LoadPhdrs f))"

definition written :: "elf_writer \<Rightarrow> out_file \<Rightarrow> bool" where
  "written w f \<longleftrightarrow> (\<exists>sections g. WriteElf sections w = Inr g \<and> read_phdrs f = read_phdrs g \<and>
     (\<forall>k. 64 \<le> k \<and> k < fl_size g \<longrightarrow> fl_data f k = fl_data g k))"

lemma WriteElf_written: "WriteElf sections w = Inr f \<Longrightarrow> written w f"
  by (auto simp: written_def)

lemma elf_load_read:
  "elf_load f a = mapR (\<lambda>ps.
     map_option (\<lambda>p. let k = unat (a - p_vaddr p) in if k < unat (p_filesz p) then fl_data f (unat (p_offset p) + k) else 0)
       (find (\<lambda>p. p_type p = PT_LOAD \<and> phdr_has p a) ps)) (read_phdrs f)"
  by (cases "bindR (LoadEhdr f empty_writer) (LoadPhdrs f)") (simp_all add: elf_load_def read_phdrs_def mapR_def)

lemma find_filter: "find (\<lambda>x. Q x \<and> R x) xs = find R (List.filter Q xs)"
  by (induction xs) auto

lemma find_in_append: "find R (xs @ ys) = (case find R xs of None \<Rightarrow> find R ys | Some x \<Rightarrow> Some x)"
  by (induction xs) auto

lemma find_nth_unique:
  assumes "i < length xs" "R (xs ! i)" "\<forall>j<i. \<not> R (xs ! j)"
  shows "find R xs = Some (xs ! i)"
  using assms by (auto simp: find_Some_iff)

lemma load_placed:
  assumes ll: "loads_of w = hs @ load_phdrs fo segs"
    and hs: "\<forall>h\<in>set hs. unat (p_offset h) + unat (p_filesz h) \<le> unat fo \<and> page_addr (p_filesz h) \<and> \<not> phdr_has h a"
    and al: "\<forall>s\<in>set segs. page_addr (ls_filesz s) \<and> page_addr (ls_start_page s)"
    and srt: "sorted_wrt (\<lambda>s t. unat (ls_start_page s) + unat (ls_memsz s) \<le> unat (ls_start_page t)) segs"
    and sum: "file_off fo segs (length segs) < 2 ^ 32"
    and w: "written w f" and e: "length (e_ident (ew_new_ehdr w)) = 16"
    and same: "e_ident (ew_ehdr w) = e_ident (ew_new_ehdr w)"
    and o: "e_ident (ew_ehdr w) ! 5 = 1 \<or> e_ident (ew_ehdr w) ! 5 = 2"
    and pos: "64 \<le> unat (e_phoff (ew_new_ehdr w))"
    and n: "unat (e_phnum (ew_new_ehdr w)) = length (ew_new_phdrs w)"
    and i: "i < length segs" "seg_has (segs ! i) a"
    and h: "unat (a - ls_start_page (segs ! i)) < unat (ls_filesz (segs ! i)) \<Longrightarrow>
      \<not> in_headers w (file_off fo segs i + unat (a - ls_start_page (segs ! i)))"
  shows "elf_load f a = Inr (Some
    (if unat (a - ls_start_page (segs ! i)) < unat (ls_filesz (segs ! i)) then pm_byte (ew_pagemap w) a else 0))"
proof -
  let ?s = "segs ! i" and ?k = "unat (a - ls_start_page (segs ! i))" and ?p = "load_phdrs fo segs ! i"
  have p: "j < length segs \<Longrightarrow> load_phdrs fo segs ! j = load_of (file_off fo segs j) (segs ! j)" for j
    by (rule load_phdrs_nth [OF sum])
  have has: "j < length segs \<Longrightarrow> phdr_has (load_phdrs fo segs ! j) a \<longleftrightarrow> seg_has (segs ! j) a" for j
    by (simp add: p phdr_has_def seg_has_def load_of_def)
  have "find (\<lambda>p. phdr_has p a) (load_phdrs fo segs) = Some ?p"
  proof (rule find_nth_unique)
    show "\<forall>j<i. \<not> phdr_has (load_phdrs fo segs ! j) a"
      using sorted_wrt_nth_less [OF srt, of _ i] i has by (fastforce simp: seg_has_def)
  qed (use i has in auto)
  moreover have "find (\<lambda>p. phdr_has p a) hs = None" using hs by (auto simp: find_None_iff)
  ultimately have F: "find (\<lambda>p. p_type p = PT_LOAD \<and> phdr_has p a) (ew_new_phdrs w) = Some ?p"
    by (simp add: find_filter ll [unfolded loads_of_def] find_in_append split: option.splits)
  have off: "unat (p_offset ?p) = file_off fo segs i"
    using file_off_bound [of i segs fo] sum i(1) by (simp add: p unat_load_of)
  have fld: "p_vaddr ?p = ls_start_page ?s" "p_filesz ?p = ls_filesz ?s" using i(1) by (simp_all add: p load_of_def)
  have a: "ls_start_page ?s + of_nat ?k = a" "unat (ls_start_page ?s) + ?k < 2 ^ 64"
    using i(2) unat_addr_less [of a] by (simp_all add: seg_has_def unat_sub word_le_nat_alt)
  obtain sections g where g: "WriteElf sections w = Inr g" "read_phdrs f = read_phdrs g"
      "\<forall>k. 64 \<le> k \<and> k < fl_size g \<longrightarrow> fl_data f k = fl_data g k"
    using w by (auto simp: written_def)
  have B: "fl_data f (file_off fo segs i + ?k) = pm_byte (ew_pagemap w) a" if "?k < unat (ls_filesz ?s)"
    using written_segment [OF ll _ al sum g(1) e i(1) that a(2) h [OF that]] hs a(1) g(3) h [OF that]
    by (simp add: in_headers_def)
  have "read_phdrs f = Inr (ew_new_phdrs w)"
    unfolding g(2) unfolding read_phdrs_def WriteElf_read_back [OF g(1) e same o pos n] by (simp add: mapR_def)
  then show ?thesis
    unfolding elf_load_read using F B by (simp add: Let_def off fld mapR_def)
qed

end
