(* ===== verification/Zipr_ElfImage.thy ===== *)
theory Zipr_ElfImage
  imports Zipr_ElfLoad
begin

text \<open>
  From the regions of the program to the memory of the rewritten program: \<open>ElfWriter::Write\<close> as a
  whole, for each of the places it finds for the program headers.
\<close>

section \<open>What \<open>CreateNewPhdrs_internal\<close> makes\<close>

lemma kept_phdrs_type: "p \<in> set (kept_phdrs loads ps) \<Longrightarrow> p_type p \<noteq> PT_LOAD"
  by (auto simp: kept_phdrs_def moved_phdr_def split: option.splits)

lemma length_kept_phdrs:
  "length (kept_phdrs loads ps) \<le> length (List.filter (\<lambda>p. p_type p \<noteq> PT_LOAD \<and> p_type p \<noteq> PT_PHDR) ps)"
  unfolding kept_phdrs_def by (induction ps) auto

definition few_headers :: "elf_writer \<Rightarrow> bool" where
  "few_headers w \<longleftrightarrow> length (ew_phdrs w) + 2 * length (ew_segvec w) + 2 < 2 ^ 16"

lemma max_phdr_count:
  assumes "few_headers w"
  shows "length (List.filter (\<lambda>p. p_type p \<noteq> PT_LOAD \<and> p_type p \<noteq> PT_PHDR) (ew_phdrs w)) + length (ew_segvec w) * 2 + 2 < 2 ^ 16"
  using assms length_filter_le [of "\<lambda>p. p_type p \<noteq> PT_LOAD \<and> p_type p \<noteq> PT_PHDR" "ew_phdrs w"]
  unfolding few_headers_def by linarith

lemma unat_max_phdr_size:
  assumes "few_headers w"
  shows "unat (DetermineMaxPhdrSize w) =
    (length (List.filter (\<lambda>p. p_type p \<noteq> PT_LOAD \<and> p_type p \<noteq> PT_PHDR) (ew_phdrs w)) + length (ew_segvec w) * 2 + 2) * 56"
  using max_phdr_count [OF assms] unfolding DetermineMaxPhdrSize_def by (intro unat_of_nat_32) simp

lemma max_phdr_size_bound: "few_headers w \<Longrightarrow> unat (DetermineMaxPhdrSize w) < 2 ^ 22"
  unfolding unat_max_phdr_size using max_phdr_count [of w] by simp

lemma internal_result:
  assumes c: "CreateNewPhdrs_internal n scoops fo add off a w = Inr w'" and e: "ew_new_phdrs w = []" and few: "few_headers w"
  defines "loads \<equiv> load_phdrs fo (ew_segvec w)"
  defines "ps \<equiv> loads @ kept_phdrs (take (length (ew_segvec w)) loads) (ew_phdrs w)"
  shows "loads_of w' = (if add then [header_phdr ps a] else []) @ loads"
    "56 * length (ew_new_phdrs w') \<le> unat (DetermineMaxPhdrSize w)"
    "length ps + (if add then 2 else 1) = length (ew_new_phdrs w')"
    "ew_new_ehdr w' = (ew_ehdr w)\<lparr>e_phoff := off, e_shoff := 0, e_shnum := 0, e_phnum := of_nat (length (ew_new_phdrs w')), e_shstrndx := 0\<rparr>"
    "ew_ehdr w' = ew_ehdr w"
    "if add then header_pages n (header_phdr ps a) (page_align (p_vaddr (header_phdr ps a))) (ew_pagemap w) = Inr (ew_pagemap w')
     else ew_pagemap w' = ew_pagemap w"
    "unat (e_phnum (ew_new_ehdr w')) = length (ew_new_phdrs w')"
proof -
  let ?qs = "phdr_phdr (if add then header_phdr ps a # ps else ps) off a # (if add then header_phdr ps a # ps else ps)"
  have "\<exists>pm ps'. (if add then header_pages n (header_phdr ps a) (page_align (p_vaddr (header_phdr ps a))) (ew_pagemap w)
        else Inr (ew_pagemap w)) = Inr pm \<and> update_phdr_for_scoop_sections scoops ?qs = Inr ps' \<and>
      w' = w\<lparr>ew_pagemap := pm, ew_new_phdrs := ps', ew_new_ehdr := (ew_ehdr w)\<lparr>e_phoff := off, e_shoff := 0, e_shnum := 0,
        e_phnum := of_nat (length ps'), e_shstrndx := 0\<rparr>\<rparr>"
    using c e unfolding CreateNewPhdrs_internal_def Let_def ps_def loads_def bindR_eq_Inr by auto
  then obtain pm ps' where 1: "(if add then header_pages n (header_phdr ps a) (page_align (p_vaddr (header_phdr ps a))) (ew_pagemap w)
        else Inr (ew_pagemap w)) = Inr pm"
    and 2: "update_phdr_for_scoop_sections scoops ?qs = Inr ps'"
    and 3: "w' = w\<lparr>ew_pagemap := pm, ew_new_phdrs := ps', ew_new_ehdr := (ew_ehdr w)\<lparr>e_phoff := off, e_shoff := 0, e_shnum := 0,
        e_phnum := of_nat (length ps'), e_shstrndx := 0\<rparr>\<rparr>" by blast
  note sl = update_sections_loads [OF 2]
  have len: "length ps' = length ?qs" using sl unfolding same_loads_def by (rule list_all2_lengthD [symmetric])
  have "List.filter (\<lambda>p. p_type p = PT_LOAD) ps = loads"
    using load_phdrs_type kept_phdrs_type by (force simp: ps_def loads_def filter_empty_conv intro!: filter_True)
  moreover have "PT_PHDR \<noteq> PT_LOAD" by (simp add: PT_PHDR_def PT_LOAD_def)
  ultimately show "loads_of w' = (if add then [header_phdr ps a] else []) @ loads"
    using same_loads_filter [OF sl] by (auto simp: loads_of_def 3 phdr_phdr_def header_phdr_def Let_def)
  show len': "length ps + (if add then 2 else 1) = length (ew_new_phdrs w')" using len by (simp add: 3)
  have kl: "length ps \<le> length (ew_segvec w) + length (List.filter (\<lambda>p. p_type p \<noteq> PT_LOAD \<and> p_type p \<noteq> PT_PHDR) (ew_phdrs w))"
    using length_kept_phdrs [of "take (length (ew_segvec w)) loads" "ew_phdrs w"] by (simp add: ps_def loads_def)
  then show "56 * length (ew_new_phdrs w') \<le> unat (DetermineMaxPhdrSize w)"
    using len' by (simp add: unat_max_phdr_size [OF few] split: if_splits)
  have "length ps \<le> length (ew_segvec w) + length (ew_phdrs w)"
    using kl length_filter_le [of "\<lambda>p. p_type p \<noteq> PT_LOAD \<and> p_type p \<noteq> PT_PHDR" "ew_phdrs w"] by linarith
  then have "length (ew_new_phdrs w') < 2 ^ 16" using few len' by (auto simp: few_headers_def split: if_splits)
  then show "unat (e_phnum (ew_new_ehdr w')) = length (ew_new_phdrs w')" by (simp add: 3 unat_of_nat)
  show "ew_new_ehdr w' = (ew_ehdr w)\<lparr>e_phoff := off, e_shoff := 0, e_shnum := 0, e_phnum := of_nat (length (ew_new_phdrs w')), e_shstrndx := 0\<rparr>"
    "ew_ehdr w' = ew_ehdr w"
    "if add then header_pages n (header_phdr ps a) (page_align (p_vaddr (header_phdr ps a))) (ew_pagemap w) = Inr (ew_pagemap w')
     else ew_pagemap w' = ew_pagemap w"
    using 1 by (simp_all add: 3 split: if_splits)
qed

section \<open>A writer with pages and segments\<close>

text \<open>What \<open>Write\<close> has made when it looks for a place for the headers.\<close>

definition prepared :: "scoop list \<Rightarrow> addr \<Rightarrow> elf_writer \<Rightarrow> bool" where
  "prepared scoops min_addr w \<longleftrightarrow>
     (\<forall>a. pm_byte (ew_pagemap w) a = image_byte scoops a) \<and>
     (\<forall>s\<in>set scoops. \<forall>a. scoop_has s a \<longrightarrow> pm_inuse (ew_pagemap w) a \<and> min_addr \<le> a) \<and>
     fst ` set (ew_pagemap w) = scoop_pages scoops \<and>
     segs_ok (ew_pagemap w) (ew_segvec w) \<and>
     (\<forall>s\<in>set (ew_segvec w). unat (ls_start_page s) + unat (ls_memsz s) \<le> 2 ^ 31) \<and>
     ew_segvec w \<noteq> [] \<and> ls_start_page (hd (ew_segvec w)) = page_align min_addr \<and> ls_filesz (hd (ew_segvec w)) \<noteq> 0 \<and>
     ew_new_phdrs w = [] \<and> length (e_ident (ew_ehdr w)) = 16 \<and>
     (e_ident (ew_ehdr w) ! 5 = 1 \<or> e_ident (ew_ehdr w) ! 5 = 2) \<and> few_headers w"

lemma page_div_bounds:
  fixes n m :: nat
  shows "4096 * (n div 4096) < 4096 * m \<longleftrightarrow> n < 4096 * m" "4096 * m \<le> 4096 * (n div 4096) \<longleftrightarrow> 4096 * m \<le> n"
  by (simp_all add: div_less_iff_less_mult less_eq_div_iff_mult_less_eq mult.commute)

lemma seg_has_page:
  assumes "page_addr (ls_start_page s)" "page_addr (ls_memsz s)" "seg_has s (page_align a)"
  shows "seg_has s a"
proof -
  obtain x where "unat (ls_start_page s) = 4096 * x" using assms(1) by (rule page_addrE)
  moreover obtain y where "unat (ls_memsz s) = 4096 * y" using assms(2) by (rule page_addrE)
  ultimately show ?thesis
    using assms(3) page_div_bounds(1) [of "unat a" "x + y"] page_div_bounds(2) [of x "unat a"]
    by (simp add: seg_has_def unat_page_align)
qed

lemma seg_ok_page:
  assumes "seg_ok pm s" "page_addr i" "seg_has s i"
  obtains p where "map_of pm i = Some p" "ls_perms s = ucast (pd_perms p)"
    "unat (ls_start_page s) + unat (ls_filesz s) \<le> unat i \<longrightarrow> is_zero_initialized p"
  using assms unfolding seg_ok_def by blast

lemma prepared_seg:
  assumes p: "prepared scoops min_addr w" and s: "s \<in> set scoops" "scoop_has s a"
  obtains i where "i < length (ew_segvec w)" "seg_has (ew_segvec w ! i) a"
    "\<not> unat (a - ls_start_page (ew_segvec w ! i)) < unat (ls_filesz (ew_segvec w ! i)) \<longrightarrow> image_byte scoops a = 0"
proof -
  have "page_align a \<in> fst ` set (ew_pagemap w)" using scoop_has_page [OF s] p by (simp add: prepared_def)
  then obtain i where i: "i < length (ew_segvec w)" "seg_has (ew_segvec w ! i) (page_align a)"
    using p unfolding prepared_def segs_ok_def by (metis in_set_conv_nth)
  let ?s = "ew_segvec w ! i"
  have ok: "seg_ok (ew_pagemap w) ?s" using p i(1) by (simp add: prepared_def segs_ok_def)
  then have al: "page_addr (ls_start_page ?s)" "page_addr (ls_memsz ?s)" "page_addr (ls_filesz ?s)" by (simp_all add: seg_ok_def)
  note has = seg_has_page [OF al(1,2) i(2)]
  have "image_byte scoops a = 0" if z: "\<not> unat (a - ls_start_page ?s) < unat (ls_filesz ?s)"
  proof -
    have "unat (ls_start_page ?s) + unat (ls_filesz ?s) \<le> unat a"
      using z has by (auto simp: seg_has_def unat_sub word_le_nat_alt)
    moreover obtain x where "unat (ls_start_page ?s) = 4096 * x" using al(1) by (rule page_addrE)
    moreover obtain y where "unat (ls_filesz ?s) = 4096 * y" using al(3) by (rule page_addrE)
    ultimately have "unat (ls_start_page ?s) + unat (ls_filesz ?s) \<le> unat (page_align a)"
      using page_div_bounds(2) [of "x + y" "unat a"] by (simp add: unat_page_align)
    then obtain q where q: "map_of (ew_pagemap w) (page_align a) = Some q" "is_zero_initialized q"
      using seg_ok_page [OF ok page_addr_align i(2)] by metis
    have "unat (a - page_align a) < PAGE_SIZE" by (simp add: page_offset PAGE_SIZE_def)
    then have "pm_byte (ew_pagemap w) a = 0"
      using q by (simp add: pm_byte_def pm_at_def is_zero_initialized_def list_all_iff)
    then show ?thesis using p by (simp add: prepared_def)
  qed
  then show ?thesis using that i(1) has by blast
qed

text \<open>The segments are disjoint, so together no larger than what they lie in.\<close>

lemma sum_segments:
  assumes "sorted_wrt (\<lambda>s t. unat (ls_start_page s) + unat (ls_memsz s) \<le> unat (ls_start_page t)) segs"
    "\<forall>s\<in>set segs. unat (ls_start_page s) + unat (ls_memsz s) \<le> B \<and> ls_filesz s \<le> ls_memsz s"
  shows "sum_list (map (\<lambda>s. unat (ls_filesz s)) segs) \<le> B"
proof -
  have "unat (ls_start_page (hd segs)) + sum_list (map (\<lambda>s. unat (ls_filesz s)) segs) \<le> B" if "segs \<noteq> []"
    using that assms
  proof (induction segs)
    case (Cons s segs)
    then show ?case by (cases segs) (auto simp: word_le_nat_alt)
  qed simp
  then show ?thesis by (cases segs) auto
qed

lemma prepared_sum:
  assumes "prepared scoops min_addr w"
  shows "file_off 0 (ew_segvec w) (length (ew_segvec w)) \<le> 2 ^ 31"
  unfolding file_off_def using assms
  by (simp add: prepared_def segs_ok_def) (intro sum_segments; auto simp: seg_ok_def)

lemma file_off_first:
  assumes "segs \<noteq> []" "0 < i"
  shows "unat fo + unat (ls_filesz (hd segs)) \<le> file_off fo segs i"
  using assms by (cases segs; cases i) (auto simp: file_off_def)

text \<open>
  The headers written, the program loaded: what each placement has to show is that no byte of a
  scoop is where the headers go.
\<close>

lemma header_phdr_offset [simp]: "p_offset (header_phdr ps na) = 0"
  by (simp add: header_phdr_def Let_def)

lemma load_after_internal:
  assumes p: "prepared scoops min_addr w" and c: "CreateNewPhdrs_internal n ss fo add off na w1 = Inr w'"
    and w1: "ew_new_phdrs w1 = []" "few_headers w1" "ew_ehdr w1 = ew_ehdr w"
    and al: "\<forall>s\<in>set (ew_segvec w1). page_addr (ls_filesz s) \<and> page_addr (ls_start_page s)"
    and srt: "sorted_wrt (\<lambda>s t. unat (ls_start_page s) + unat (ls_memsz s) \<le> unat (ls_start_page t)) (ew_segvec w1)"
    and sum: "file_off fo (ew_segvec w1) (length (ew_segvec w1)) < 2 ^ 32"
    and off: "64 \<le> unat off" and wr: "written w' f"
    and hs: "add \<Longrightarrow> (let h = header_phdr (load_phdrs fo (ew_segvec w1) @
        kept_phdrs (take (length (ew_segvec w1)) (load_phdrs fo (ew_segvec w1))) (ew_phdrs w1)) na
      in unat (p_filesz h) \<le> unat fo \<and> page_addr (p_filesz h) \<and> \<not> phdr_has h a)"
    and same: "pm_byte (ew_pagemap w') a = image_byte scoops a"
    and i: "i < length (ew_segvec w1)" "seg_has (ew_segvec w1 ! i) a"
      "\<not> unat (a - ls_start_page (ew_segvec w1 ! i)) < unat (ls_filesz (ew_segvec w1 ! i)) \<longrightarrow> image_byte scoops a = 0"
    and h: "unat (a - ls_start_page (ew_segvec w1 ! i)) < unat (ls_filesz (ew_segvec w1 ! i)) \<Longrightarrow>
      \<not> in_headers w' (file_off fo (ew_segvec w1) i + unat (a - ls_start_page (ew_segvec w1 ! i)))"
  shows "elf_load f a = Inr (Some (image_byte scoops a))"
proof -
  note r = internal_result [OF c w1(1,2)]
  have e: "length (e_ident (ew_new_ehdr w')) = 16" "e_ident (ew_ehdr w') = e_ident (ew_new_ehdr w')"
      "e_ident (ew_ehdr w') ! 5 = 1 \<or> e_ident (ew_ehdr w') ! 5 = 2" "64 \<le> unat (e_phoff (ew_new_ehdr w'))"
    using p off by (simp_all add: r(4,5) w1(3) prepared_def)
  show ?thesis
    using load_placed [OF r(1) _ al srt sum wr e r(7) i(1,2) h] hs same i(3)
    by (cases add) (auto simp: Let_def split: if_splits)
qed

text \<open>Headers and segments that \<open>WriteElf\<close> can write.\<close>

definition file_ok :: "elf_writer \<Rightarrow> bool" where
  "file_ok w \<longleftrightarrow>
     (\<forall>p\<in>set (loads_of w). page_addr (p_filesz p) \<and> unat (p_filesz p) < 2 ^ 32) \<and>
     (e_ident (ew_new_ehdr w) ! 5 = 1 \<or> e_ident (ew_new_ehdr w) ! 5 = 2) \<and>
     e_ident (ew_ehdr w) = e_ident (ew_new_ehdr w) \<and> length (e_ident (ew_new_ehdr w)) = 16 \<and>
     64 \<le> unat (e_phoff (ew_new_ehdr w)) \<and> unat (e_phnum (ew_new_ehdr w)) = length (ew_new_phdrs w)"

lemma internal_file_ok:
  assumes c: "CreateNewPhdrs_internal n ss fo add off na w1 = Inr w'" and w1: "ew_new_phdrs w1 = []" "few_headers w1"
    and al: "\<forall>s\<in>set (ew_segvec w1). page_addr (ls_filesz s) \<and> page_addr (ls_start_page s)"
    and sum: "file_off fo (ew_segvec w1) (length (ew_segvec w1)) < 2 ^ 32"
    and hs: "add \<Longrightarrow> (let h = header_phdr (load_phdrs fo (ew_segvec w1) @
        kept_phdrs (take (length (ew_segvec w1)) (load_phdrs fo (ew_segvec w1))) (ew_phdrs w1)) na
      in unat (p_filesz h) \<le> unat fo \<and> page_addr (p_filesz h))"
    and id: "e_ident (ew_ehdr w1) ! 5 = 1 \<or> e_ident (ew_ehdr w1) ! 5 = 2" "length (e_ident (ew_ehdr w1)) = 16"
    and off: "64 \<le> unat off"
  shows "file_ok w'"
proof -
  note r = internal_result [OF c w1]
  have "page_addr (p_filesz p) \<and> unat (p_filesz p) < 2 ^ 32" if p: "p \<in> set (load_phdrs fo (ew_segvec w1))" for p
  proof -
    obtain i where i: "i < length (ew_segvec w1)" "p = load_of (file_off fo (ew_segvec w1) i) (ew_segvec w1 ! i)"
      using p by (auto simp: in_set_conv_nth load_phdrs_nth [OF sum])
    have "file_off fo (ew_segvec w1) i + unat (ls_filesz (ew_segvec w1 ! i)) \<le> file_off fo (ew_segvec w1) (length (ew_segvec w1))"
      using i(1) by (intro file_off_mono) auto
    then show ?thesis using al i sum by (simp add: load_of_def)
  qed
  moreover have "unat fo < 2 ^ 32" using unsigned_less [of fo, where 'a = nat] by simp
  ultimately have "\<forall>p\<in>set (loads_of w'). page_addr (p_filesz p) \<and> unat (p_filesz p) < 2 ^ 32"
    using hs unfolding r(1) by (cases add) (auto simp: Let_def)
  then show ?thesis using id off r(7) by (simp add: file_ok_def r(4,5))
qed

lemma in_headers_internal:
  assumes "CreateNewPhdrs_internal n ss fo add off na w1 = Inr w'" "ew_new_phdrs w1 = []" "few_headers w1" "in_headers w' k"
  shows "k < 64 \<or> (unat off \<le> k \<and> k < unat off + unat (DetermineMaxPhdrSize w1))"
  using internal_result(2,4) [OF assms(1-3)] assms(4) by (auto simp: in_headers_def)

lemma prepared_sorted:
  assumes "prepared scoops min_addr w"
  shows "\<forall>s\<in>set (ew_segvec w). page_addr (ls_filesz s) \<and> page_addr (ls_start_page s)"
    "sorted_wrt (\<lambda>s t. unat (ls_start_page s) + unat (ls_memsz s) \<le> unat (ls_start_page t)) (ew_segvec w)"
  using assms by (simp_all add: prepared_def segs_ok_def seg_ok_def)

lemma first_filesz:
  assumes "prepared scoops min_addr w"
  shows "4096 \<le> unat (ls_filesz (hd (ew_segvec w)))"
proof -
  have "page_addr (ls_filesz (hd (ew_segvec w)))" "ls_filesz (hd (ew_segvec w)) \<noteq> 0"
    using assms prepared_sorted(1) [OF assms] by (simp_all add: prepared_def)
  then show ?thesis by (auto elim!: page_addrE simp: unat_eq_0 [symmetric])
qed

section \<open>The first page\<close>

lemma unat_page_min: "unat min_addr < unat (page_align min_addr) + 4096"
  by (simp add: unat_page_align)

lemma first_page_internal:
  assumes p: "prepared scoops min_addr w"
    and c: "CreateNewPhdrs_FirstPageAllocate n ss min_addr max_addr w = Inr (Some w')"
  shows "CreateNewPhdrs_internal n ss 0 False 64 (page_align min_addr + 64) w = Inr w'"
    "unat (page_align min_addr) + (unat (DetermineMaxPhdrSize w) + 64) < unat min_addr"
proof -
  let ?D = "unat (DetermineMaxPhdrSize w)"
  have D: "?D < 2 ^ 32" using unsigned_less [of "DetermineMaxPhdrSize w"] by simp
  have "\<not> min_addr \<le> page_align min_addr + (ucast (DetermineMaxPhdrSize w) + 64)"
    and I: "CreateNewPhdrs_internal n ss 0 False 64 (page_align min_addr + 64) w = Inr w'"
    using c by (auto simp: CreateNewPhdrs_FirstPageAllocate_def Let_def mapR_eq_Inr split: if_splits)
  moreover have "hd (ew_segvec w) \<in> set (ew_segvec w)" "ls_start_page (hd (ew_segvec w)) = page_align min_addr"
    using p by (simp_all add: prepared_def)
  then have "unat (page_align min_addr) \<le> 2 ^ 31" using p unfolding prepared_def by fastforce
  then have "unat (page_align min_addr + (ucast (DetermineMaxPhdrSize w) + 64)) = unat (page_align min_addr) + (?D + 64)"
    using D by (simp add: unat_word_ariths unsigned_ucast_eq take_bit_nat_eq_self)
  ultimately show "unat (page_align min_addr) + (?D + 64) < unat min_addr" by (simp add: word_le_nat_alt)
  show "CreateNewPhdrs_internal n ss 0 False 64 (page_align min_addr + 64) w = Inr w'" by (rule I)
qed

lemma first_page_file_ok:
  assumes p: "prepared scoops min_addr w"
    and c: "CreateNewPhdrs_FirstPageAllocate n ss min_addr max_addr w = Inr (Some w')"
  shows "file_ok w'"
  using internal_file_ok [OF first_page_internal(1) [OF p c] _ _ prepared_sorted(1) [OF p]] prepared_sum [OF p] p
  by (simp add: prepared_def)

lemma first_page_loads:
  assumes p: "prepared scoops min_addr w"
    and c: "CreateNewPhdrs_FirstPageAllocate n ss min_addr max_addr w = Inr (Some w')"
    and wr: "written w' f" and s: "s \<in> set scoops" "scoop_has s a"
  shows "elf_load f a = Inr (Some (image_byte scoops a))"
proof -
  let ?D = "unat (DetermineMaxPhdrSize w)" and ?segs = "ew_segvec w"
  have few: "few_headers w" "ew_new_phdrs w = []" using p by (simp_all add: prepared_def)
  note I = first_page_internal(1) [OF p c] and room = first_page_internal(2) [OF p c]
  have seg0: "ls_start_page (hd ?segs) = page_align min_addr" using p by (simp add: prepared_def)
  obtain i where i: "i < length ?segs" "seg_has (?segs ! i) a"
      "\<not> unat (a - ls_start_page (?segs ! i)) < unat (ls_filesz (?segs ! i)) \<longrightarrow> image_byte scoops a = 0"
    using prepared_seg [OF p s] by blast
  have min: "unat min_addr \<le> unat a" using p s by (auto simp: prepared_def word_le_nat_alt)
  have "\<not> in_headers w' (file_off 0 ?segs i + unat (a - ls_start_page (?segs ! i)))"
  proof
    let ?k = "file_off 0 ?segs i + unat (a - ls_start_page (?segs ! i))"
    assume "in_headers w' ?k"
    from in_headers_internal [OF I few(2,1) this] have k: "?k < 64 + ?D" by auto
    have "i = 0"
    proof (rule ccontr)
      assume "i \<noteq> 0"
      then have "4096 \<le> file_off 0 ?segs i" using file_off_first [of ?segs i 0] first_filesz [OF p] i(1) by fastforce
      then show False using k room unat_page_min [of min_addr] by linarith
    qed
    then have "ls_start_page (?segs ! i) = page_align min_addr" using seg0 i(1) by (simp add: hd_conv_nth)
    then have "unat (a - ls_start_page (?segs ! i)) = unat a - unat (page_align min_addr)"
      using i(2) by (simp add: seg_has_def unat_sub word_le_nat_alt)
    then show False using k room min by linarith
  qed
  moreover have "file_off 0 ?segs (length ?segs) < 2 ^ 32" using prepared_sum [OF p] by simp
  moreover have "pm_byte (ew_pagemap w') a = image_byte scoops a"
    using internal_result(6) [OF I few(2,1)] p by (simp add: prepared_def)
  ultimately show ?thesis
    using load_after_internal [OF p I few(2,1) refl prepared_sorted [OF p] _ _ wr _ _ i] by simp
qed

section \<open>A page in front\<close>

lemma unat_elf_round_up: "unat x + 4095 < 2 ^ 64 \<Longrightarrow> unat (elf_round_up x) = 4096 * ((unat x + 4095) div 4096)"
proof -
  assume "unat x + 4095 < 2 ^ 64"
  then have "unat (x + 4095) = unat x + 4095" by (simp add: unat_word_ariths)
  moreover have "elf_round_up x = page_align (x + 4095)" by (simp add: elf_round_up_def page_align_def)
  ultimately show ?thesis by (simp add: unat_page_align)
qed

lemma elf_round_up_one_page: "0 < unat x \<Longrightarrow> unat x \<le> 4096 \<Longrightarrow> elf_round_up x = 4096"
proof -
  assume "0 < unat x" "unat x \<le> 4096"
  moreover from this have "(unat x + 4095) div 4096 = 1" by (auto intro: div_nat_eqI)
  ultimately show ?thesis by (simp add: word_unat_eq_iff unat_elf_round_up)
qed

definition pre_header :: "elf_writer \<Rightarrow> addr \<Rightarrow> 64 phdr" where
  "pre_header w na = header_phdr (load_phdrs 4096 (ew_segvec w) @
     kept_phdrs (take (length (ew_segvec w)) (load_phdrs 4096 (ew_segvec w))) (ew_phdrs w)) na"

lemma pre_allocate_internal:
  assumes p: "prepared scoops min_addr w"
    and c: "CreateNewPhdrs_PreAllocate n ss min_addr max_addr w = Inr (Some w')"
    and D: "unat (DetermineMaxPhdrSize w) + 64 \<le> 4096" and min: "4096 \<le> min_addr"
  defines "V \<equiv> page_align min_addr - 4096"
  shows "CreateNewPhdrs_internal n ss 4096 True 64 (V + 64) w = Inr w'"
    "unat V + 4096 = unat (page_align min_addr)"
    "p_filesz (pre_header w (V + 64)) = 4096" "p_memsz (pre_header w (V + 64)) = 4096" "p_vaddr (pre_header w (V + 64)) = V"
    "\<exists>u. ew_pagemap w' = pm_update V u (ew_pagemap w)"
proof -
  let ?D = "unat (DetermineMaxPhdrSize w)" and ?segs = "ew_segvec w"
  define na where "na = V + 64"
  have few: "few_headers w" "ew_new_phdrs w = []" using p by (simp_all add: prepared_def)
  have D0: "0 < ?D" by (simp add: unat_max_phdr_size [OF few(1)])
  have "unat (ucast (DetermineMaxPhdrSize w) :: addr) = ?D"
    using D by (simp add: unsigned_ucast_eq take_bit_nat_eq_self)
  then have "ucast (elf_round_up (ucast (DetermineMaxPhdrSize w))) = (4096 :: uint32)"
    using elf_round_up_one_page [of "ucast (DetermineMaxPhdrSize w)"] D D0 by simp
  then have I: "CreateNewPhdrs_internal n ss 4096 True 64 na w = Inr w'"
    using c by (auto simp: CreateNewPhdrs_PreAllocate_def Let_def mapR_eq_Inr na_def V_def split: if_splits)
  obtain m where m: "unat (page_align min_addr) = 4096 * m" using page_addr_align by (rule page_addrE)
  have m0: "0 < m" using unat_page_min [of min_addr] min m by (simp add: word_le_nat_alt)
  have V: "unat V = 4096 * (m - 1)" using m m0 by (simp add: V_def unat_sub word_le_nat_alt diff_mult_distrib2)
  have lt: "4096 * m < 2 ^ 64" using unat_addr_less [of "page_align min_addr"] m by simp
  have una: "unat na = 4096 * (m - 1) + 64"
    using V m0 lt unat_word_ariths(1) [of "V" 64] by (cases m) (simp_all add: na_def)
  have pna: "page_align na = V"
    unfolding word_unat_eq_iff unat_page_align una V by simp
  define ps where "ps = load_phdrs 4096 ?segs @ kept_phdrs (take (length ?segs) (load_phdrs 4096 ?segs)) (ew_phdrs w)"
  define h where "h = header_phdr ps na"
  have len: "(length ps + 1) * 56 \<le> ?D" using internal_result(2,3) [OF I few(2,1)] by (simp add: ps_def)
  then have "unat (of_nat ((length ps + 1) * 56) :: addr) = (length ps + 1) * 56" using D by (intro unat_of_nat_64) simp
  then have "elf_round_up (of_nat ((length ps + 1) * 56)) = 4096" using len D by (intro elf_round_up_one_page) simp_all
  then have h: "p_filesz h = 4096" "p_memsz h = 4096" "p_vaddr h = V"
    by (simp_all add: h_def header_phdr_def Let_def pna)
  have hdr: "pre_header w na = h" by (simp add: pre_header_def h_def ps_def)
  have nxt: "V < page_align min_addr" using V m m0 by (simp add: word_less_nat_alt)
  have "header_pages n h (page_align (p_vaddr h)) (ew_pagemap w) = Inr (ew_pagemap w')"
    using internal_result(6) [OF I few(2,1)] by (simp add: h_def ps_def)
  moreover have "page_align (p_vaddr h) = V" using pna h(3) page_align_same [of "V"] page_addr_align [of na] by simp
  ultimately have pm': "ew_pagemap w' = pm_update V (header_page h V) (ew_pagemap w)"
    using nxt h by (cases n; cases "n - 1") (auto simp: V_def split: if_splits)
  show "CreateNewPhdrs_internal n ss 4096 True 64 (V + 64) w = Inr w'" using I by (simp add: na_def)
  show "unat V + 4096 = unat (page_align min_addr)" using V m m0 by (cases m) simp_all
  show "p_filesz (pre_header w (V + 64)) = 4096" "p_memsz (pre_header w (V + 64)) = 4096" "p_vaddr (pre_header w (V + 64)) = V"
    using h hdr by (simp_all add: na_def)
  show "\<exists>u. ew_pagemap w' = pm_update V u (ew_pagemap w)" using pm' by blast
qed

lemma pre_allocate_file_ok:
  assumes p: "prepared scoops min_addr w"
    and c: "CreateNewPhdrs_PreAllocate n ss min_addr max_addr w = Inr (Some w')"
    and D: "unat (DetermineMaxPhdrSize w) + 64 \<le> 4096" and min: "4096 \<le> min_addr"
  shows "file_ok w'"
proof -
  note I = pre_allocate_internal [OF p c D min]
  have "file_off 4096 (ew_segvec w) (length (ew_segvec w)) < 2 ^ 32" using prepared_sum [OF p] by (simp add: file_off_def)
  then show ?thesis
    using internal_file_ok [OF I(1) _ _ prepared_sorted(1) [OF p]] I(3) p
    by (simp add: page_addr_def prepared_def pre_header_def)
qed

lemma pre_allocate_loads:
  assumes p: "prepared scoops min_addr w"
    and c: "CreateNewPhdrs_PreAllocate n ss min_addr max_addr w = Inr (Some w')"
    and D: "unat (DetermineMaxPhdrSize w) + 64 \<le> 4096" and min: "4096 \<le> min_addr"
    and wr: "written w' f" and s: "s \<in> set scoops" "scoop_has s a"
  shows "elf_load f a = Inr (Some (image_byte scoops a))"
proof -
  let ?D = "unat (DetermineMaxPhdrSize w)" and ?segs = "ew_segvec w" and ?V = "page_align min_addr - 4096"
  note I = pre_allocate_internal [OF p c D min]
  have few: "few_headers w" "ew_new_phdrs w = []" using p by (simp_all add: prepared_def)
  obtain i where i: "i < length ?segs" "seg_has (?segs ! i) a"
      "\<not> unat (a - ls_start_page (?segs ! i)) < unat (ls_filesz (?segs ! i)) \<longrightarrow> image_byte scoops a = 0"
    using prepared_seg [OF p s] by blast
  have "min_addr \<le> a" using p s by (auto simp: prepared_def)
  then have a: "unat (page_align min_addr) \<le> unat (page_align a)"
    by (simp add: unat_page_align word_le_nat_alt div_le_mono)
  then have "page_align a \<noteq> ?V" using I(2) by auto
  then have "pm_byte (ew_pagemap w') a = image_byte scoops a" using p I(6) by (auto simp: pm_byte_def pm_at_update prepared_def)
  moreover have "\<not> phdr_has (pre_header w (?V + 64)) a"
    unfolding phdr_has_def I(4,5) using a I(2) page_align_le [of a] by (simp add: word_le_nat_alt)
  moreover have "\<not> in_headers w' (file_off 4096 ?segs i + unat (a - ls_start_page (?segs ! i)))"
  proof
    assume "in_headers w' (file_off 4096 ?segs i + unat (a - ls_start_page (?segs ! i)))"
    from in_headers_internal [OF I(1) few(2,1) this] have "file_off 4096 ?segs i < 64 + ?D" by auto
    then show False using file_off_ge [of 4096 ?segs i] D by simp
  qed
  moreover have "file_off 4096 ?segs (length ?segs) < 2 ^ 32" using prepared_sum [OF p] by (simp add: file_off_def)
  ultimately show ?thesis
    using load_after_internal [OF p I(1) few(2,1) refl prepared_sorted [OF p] _ _ wr _ _ i] I(3)
    by (simp add: page_addr_def pre_header_def)
qed

end
