(* ===== verification/Zipr_ElfGap.thy ===== *)
theory Zipr_ElfGap
  imports Zipr_ElfImage
begin

text \<open>
  Program headers in a gap (\<open>CreateNewPhdrs_GapAllocate\<close>): the gap has no byte of the program in
  use, the segment in front of it grows by exactly the pages the headers need, and never into the
  next segment.
\<close>

section \<open>The search\<close>

lemma gap_search_result:
  assumes "gap_search n pm sz max_addr i = Inr a" "unat max_addr < 2 ^ 32"
  shows "a = 0 \<or> (readonly_space_at pm a sz \<and> unat i \<le> unat a \<and> a < max_addr)"
  using assms(1)
proof (induction n arbitrary: i)
  case (Suc n)
  have u: "unat (ucast i :: addr) = unat i" using unsigned_less [of i, where 'a = nat] by (simp add: unsigned_ucast_eq take_bit_nat_eq_self)
  show ?case
  proof (cases "ucast i < max_addr \<and> \<not> readonly_space_at pm (ucast i) sz")
    case True
    then have "unat i + 1 < 2 ^ 32" using assms(2) u by (simp add: word_less_nat_alt)
    then have "unat (i + 1) = unat i + 1" by (simp add: unat_word_ariths)
    then show ?thesis using Suc.IH [of "i + 1"] Suc.prems True by auto
  next
    case False
    then show ?thesis using Suc.prems u by (auto split: if_splits)
  qed
qed simp

lemma readonly_space:
  assumes "readonly_space_at pm a sz" "unat a \<le> unat x" "unat x < unat a + unat sz"
  shows "\<not> pm_inuse pm x" "map_of pm (page_align x) = Some p \<Longrightarrow> pd_perms p AND 2 = 0"
proof -
  define i where "i = unat x - unat a"
  have i: "i < unat sz" "x = a + of_nat i" using assms(2,3) by (auto simp: i_def word_unat_eq_iff unat_word_ariths unat_of_nat)
  then have "case map_of pm (page_align x) of None \<Rightarrow> True
      | Some p \<Rightarrow> \<not> pd_inuse p (unat (x - page_align x)) \<and> pd_perms p AND 2 = 0"
    using assms(1) by (auto simp: readonly_space_at_def list_all_iff Let_def)
  then show "\<not> pm_inuse pm x" "map_of pm (page_align x) = Some p \<Longrightarrow> pd_perms p AND 2 = 0"
    by (auto simp: pm_inuse_def pm_at_def new_page_def split: option.splits)
qed

section \<open>Finding the segment of an address\<close>

definition seg_in :: "load_segment \<Rightarrow> addr \<Rightarrow> bool" where
  "seg_in s a \<longleftrightarrow> ls_start_page s \<le> a \<and> a < ls_start_page s + ls_filesz s"

lemma locate_from_Some:
  assumes "locate_from c segs a = Some r"
  shows "\<exists>j<length segs. r = c + j \<and> seg_in (segs ! j) a \<and> (\<forall>k\<le>j. \<not> ls_filesz (segs ! k) < ls_memsz (segs ! k))"
  using assms
proof (induction c segs a rule: locate_from.induct)
  case (2 i s ss a)
  show ?case
  proof (cases "\<not> ls_filesz s < ls_memsz s \<and> \<not> seg_in s a")
    case True
    then obtain j where "j < length ss" "r = Suc i + j" "seg_in (ss ! j) a" "\<forall>k\<le>j. \<not> ls_filesz (ss ! k) < ls_memsz (ss ! k)"
      using 2 by (auto simp: seg_in_def)
    then show ?thesis using True by (intro exI [of _ "Suc j"]) (auto simp: nth_Cons split: nat.splits)
  next
    case False
    then have "\<not> ls_filesz s < ls_memsz s" "seg_in s a" "r = i" using 2 by (auto simp: seg_in_def split: if_splits)
    then show ?thesis by (intro exI [of _ 0]) auto
  qed
qed simp

lemma locate_from_find:
  assumes "j < length segs" "seg_in (segs ! j) a" "\<forall>k\<le>j. \<not> ls_filesz (segs ! k) < ls_memsz (segs ! k)"
    "\<forall>k<j. \<not> seg_in (segs ! k) a"
  shows "locate_from c segs a = Some (c + j)"
  using assms
proof (induction segs arbitrary: c j)
  case (Cons s ss)
  show ?case
  proof (cases j)
    case 0
    then show ?thesis using Cons.prems by (simp add: seg_in_def)
  next
    case (Suc j')
    have "\<not> seg_in s a" "\<not> ls_filesz s < ls_memsz s" using Cons.prems(3,4) Suc by auto
    moreover have "locate_from (Suc c) ss a = Some (Suc c + j')"
      using Cons.IH [of j' "Suc c"] Cons.prems Suc by fastforce
    ultimately show ?thesis using Suc by (auto simp: seg_in_def)
  qed
qed simp

section \<open>Segments in order\<close>

text \<open>
  What the lemmas below share: segments in order, below 2 GB, aligned, none of them empty, and one
  of them, number \<open>idx\<close>, with all its bytes in the file, like those before it.
\<close>

definition seg_row :: "load_segment list \<Rightarrow> nat \<Rightarrow> bool" where
  "seg_row segs idx \<longleftrightarrow> idx < length segs \<and>
     sorted_wrt (\<lambda>s t. unat (ls_start_page s) + unat (ls_memsz s) \<le> unat (ls_start_page t)) segs \<and>
     (\<forall>s\<in>set segs. page_addr (ls_start_page s) \<and> page_addr (ls_filesz s) \<and> page_addr (ls_memsz s) \<and>
        ls_filesz s \<le> ls_memsz s \<and> ls_memsz s \<noteq> 0 \<and> unat (ls_start_page s) + unat (ls_memsz s) \<le> 2 ^ 31) \<and>
     (\<forall>k\<le>idx. ls_filesz (segs ! k) = ls_memsz (segs ! k))"

definition seg_end :: "load_segment \<Rightarrow> nat" where
  "seg_end s = unat (ls_start_page s) + unat (ls_filesz s)"

text \<open>Where the next segment starts.\<close>

definition next_start :: "load_segment list \<Rightarrow> nat \<Rightarrow> nat" where
  "next_start segs idx = (if Suc idx < length segs then unat (ls_start_page (segs ! Suc idx)) else 2 ^ 33)"

lemma seg_in_nat:
  assumes "seg_row segs idx" "s \<in> set segs"
  shows "seg_in s a \<longleftrightarrow> unat (ls_start_page s) \<le> unat a \<and> unat a < seg_end s"
proof -
  have "unat (ls_start_page s) + unat (ls_memsz s) \<le> 2 ^ 31" "unat (ls_filesz s) \<le> unat (ls_memsz s)"
    using assms by (auto simp: seg_row_def word_le_nat_alt)
  then have "unat (ls_start_page s + ls_filesz s) = seg_end s" by (simp add: seg_end_def unat_word_ariths)
  then show ?thesis by (simp add: seg_in_def word_le_nat_alt word_less_nat_alt)
qed

lemma seg_row_sorted:
  assumes "seg_row segs idx" "i < j" "j < length segs"
  shows "unat (ls_start_page (segs ! i)) + unat (ls_memsz (segs ! i)) \<le> unat (ls_start_page (segs ! j))"
    "seg_end (segs ! i) \<le> unat (ls_start_page (segs ! j))"
proof -
  show 1: "unat (ls_start_page (segs ! i)) + unat (ls_memsz (segs ! i)) \<le> unat (ls_start_page (segs ! j))"
    using sorted_wrt_nth_less [of _ segs i j] assms by (auto simp: seg_row_def)
  have "segs ! i \<in> set segs" using assms(2,3) by simp
  then have "ls_filesz (segs ! i) \<le> ls_memsz (segs ! i)" using assms(1) by (auto simp: seg_row_def)
  then show "seg_end (segs ! i) \<le> unat (ls_start_page (segs ! j))" using 1 by (simp add: seg_end_def word_le_nat_alt)
qed

lemma seg_row_end:
  assumes "seg_row segs idx"
  shows "seg_end (segs ! idx) \<le> next_start segs idx" "seg_end (segs ! idx) \<le> 2 ^ 31"
    "unat (ls_start_page (segs ! idx)) < seg_end (segs ! idx)" "seg_end (segs ! idx) mod 4096 = 0" "next_start segs idx mod 4096 = 0"
proof -
  have m: "segs ! idx \<in> set segs" "ls_filesz (segs ! idx) = ls_memsz (segs ! idx)" using assms by (auto simp: seg_row_def)
  then have e: "unat (ls_start_page (segs ! idx)) + unat (ls_memsz (segs ! idx)) \<le> 2 ^ 31" "ls_memsz (segs ! idx) \<noteq> 0"
      "page_addr (ls_start_page (segs ! idx))" "page_addr (ls_memsz (segs ! idx))"
    using assms by (auto simp: seg_row_def)
  show "seg_end (segs ! idx) \<le> next_start segs idx"
    using seg_row_sorted(2) [OF assms, of idx "Suc idx"] e(1) m(2) by (auto simp: next_start_def seg_end_def)
  show "seg_end (segs ! idx) \<le> 2 ^ 31" using e(1) m(2) by (simp add: seg_end_def)
  show "unat (ls_start_page (segs ! idx)) < seg_end (segs ! idx)"
    using e(2) m(2) by (simp add: seg_end_def unat_gt_0)
  show "seg_end (segs ! idx) mod 4096 = 0" using e(3,4) m(2) by (simp add: seg_end_def page_addr_def mod_add_eq [symmetric])
  show "next_start segs idx mod 4096 = 0"
    using assms by (auto simp: next_start_def seg_row_def page_addr_def)
qed

text \<open>What an address at or above the start of the segment may be found in.\<close>

lemma locate_in_row:
  assumes r: "seg_row segs idx" and b: "unat (ls_start_page (segs ! idx)) \<le> unat b" "unat b \<le> next_start segs idx"
    and nb: "Suc idx < length segs \<Longrightarrow> unat b = next_start segs idx \<Longrightarrow> ls_filesz (segs ! Suc idx) = ls_memsz (segs ! Suc idx)"
  shows "locate_segment_index segs b =
    (if unat b < seg_end (segs ! idx) then Some idx
     else if unat b = next_start segs idx \<and> Suc idx < length segs then Some (Suc idx) else None)"
proof -
  have mem: "k < length segs \<Longrightarrow> segs ! k \<in> set segs" for k by simp
  have idx: "idx < length segs" using r by (simp add: seg_row_def)
  have fe: "\<forall>k\<le>idx. \<not> ls_filesz (segs ! k) < ls_memsz (segs ! k)" using r by (auto simp: seg_row_def)
  have before: "\<forall>k<idx. \<not> seg_in (segs ! k) b"
    using seg_row_sorted(2) [OF r _ idx] b(1) seg_in_nat [OF r mem] idx by fastforce
  show ?thesis
  proof (cases "unat b < seg_end (segs ! idx)")
    case True
    then have "seg_in (segs ! idx) b" using seg_in_nat [OF r mem [OF idx]] b(1) by simp
    from locate_from_find [OF idx this fe before, of 0] True show ?thesis by (simp add: locate_segment_index_def)
  next
    case False
    then have not: "\<not> seg_in (segs ! idx) b" using seg_in_nat [OF r mem [OF idx]] by simp
    show ?thesis
    proof (cases "unat b = next_start segs idx \<and> Suc idx < length segs")
      case True
      then have t: "Suc idx < length segs" "unat b = unat (ls_start_page (segs ! Suc idx))" by (simp_all add: next_start_def)
      have f: "ls_filesz (segs ! Suc idx) = ls_memsz (segs ! Suc idx)" using nb True by simp
      moreover have "ls_memsz (segs ! Suc idx) \<noteq> 0" using r mem [OF t(1)] by (auto simp: seg_row_def)
      ultimately have "seg_in (segs ! Suc idx) b" using seg_in_nat [OF r mem [OF t(1)]] t(2) by (simp add: seg_end_def unat_gt_0)
      moreover have "\<forall>k\<le>Suc idx. \<not> ls_filesz (segs ! k) < ls_memsz (segs ! k)" using fe f by (auto simp: le_Suc_eq)
      moreover have "\<forall>k<Suc idx. \<not> seg_in (segs ! k) b" using before not by (auto simp: less_Suc_eq)
      ultimately have "locate_from 0 segs b = Some (0 + Suc idx)" using t(1) by (intro locate_from_find) auto
      then show ?thesis using True False by (simp add: locate_segment_index_def)
    next
      case none: False
      have "locate_segment_index segs b = None"
      proof (rule ccontr)
        assume "locate_segment_index segs b \<noteq> None"
        then obtain j where j: "j < length segs" "seg_in (segs ! j) b"
          using locate_from_Some [of 0 segs b] by (auto simp: locate_segment_index_def)
        then have "idx < j" using before not by (metis linorder_neqE_nat)
        then have "Suc idx < length segs" "unat (ls_start_page (segs ! Suc idx)) \<le> unat (ls_start_page (segs ! j))"
          using j(1) seg_row_sorted(1) [OF r, of "Suc idx" j] by (cases "j = Suc idx"; simp)+
        moreover have "unat (ls_start_page (segs ! j)) \<le> unat b" using j seg_in_nat [OF r mem] by simp
        ultimately show False using none b(2) by (simp add: next_start_def split: if_splits)
      qed
      then show ?thesis using False none by simp
    qed
  qed
qed

section \<open>Extending the segment\<close>

text \<open>
  After the addresses below \<open>b\<close>, the pages counted are those from the end of the segment up to
  \<open>b\<close>; if the headers reach the next segment, all of the rest of them is in it.
\<close>

definition counted :: "nat \<Rightarrow> nat \<Rightarrow> nat \<Rightarrow> bool" where
  "counted E b c \<longleftrightarrow> (b \<le> E \<and> c = 0) \<or> (E < b \<and> b \<le> E + 4096 * c \<and> E + 4096 * c < b + 4096)"

lemma counted_step:
  assumes "counted E b c" "E \<le> b" "E mod 4096 = 0"
  shows "counted E (Suc b) (if b mod 4096 = 0 then Suc c else c)"
proof -
  obtain e where e: "E = 4096 * e" using assms(3) by auto
  show ?thesis
  proof (cases "b mod 4096 = 0")
    case True
    then obtain x where x: "b = 4096 * x" by auto
    have ec: "e + c = x" if "b \<le> E + 4096 * c" "E + 4096 * c < b + 4096" 
    proof (rule antisym)
      show "e + c \<le> x" using that(2) unfolding e x by linarith
      show "x \<le> e + c" using that(1) unfolding e x by linarith
    qed
    have "b \<le> E + 4096 * c" "E + 4096 * c < b + 4096" using assms(1,2) by (auto simp: counted_def)
    note ec [OF this]
    then have "E + 4096 * c = b" unfolding e x by (metis distrib_left)
    then show ?thesis using True assms(2) by (simp add: counted_def)
  next
    case False
    then have "b \<noteq> E" "b \<noteq> 4096 * (e + c)" by (auto simp: e)
    then show ?thesis using assms(1,2) False by (auto simp: counted_def e)
  qed
qed

lemma counted_bound:
  assumes "counted E b c" "b \<le> T" "E \<le> T" "E mod 4096 = 0" "T mod 4096 = 0"
  shows "E + 4096 * c \<le> T"
proof -
  obtain e where "E = 4096 * e" using assms(4) by auto
  moreover obtain t where "T = 4096 * t" using assms(5) by auto
  moreover have "E + 4096 * c < T + 4096" using assms(1-3) by (auto simp: counted_def)
  ultimately have "4096 * (e + c) < 4096 * (t + 1)" by simp
  then have "e + c \<le> t" by simp
  then show ?thesis using \<open>E = 4096 * e\<close> \<open>T = 4096 * t\<close> by simp
qed

lemma pages_to_extend_row:
  assumes r: "seg_row segs idx"
    and nb: "\<forall>x :: addr. Suc idx < length segs \<longrightarrow> unat x = next_start segs idx \<longrightarrow> unat b \<le> unat x \<longrightarrow> unat x < unat b + n \<longrightarrow>
      ls_filesz (segs ! Suc idx) = ls_memsz (segs ! Suc idx)"
    and run: "pages_to_extend segs idx c (addrs b n) = Inr m"
    and b: "unat (ls_start_page (segs ! idx)) \<le> unat b" "unat b \<le> next_start segs idx" "unat b + n < 2 ^ 33"
    and c: "counted (seg_end (segs ! idx)) (unat b) c"
  shows "counted (seg_end (segs ! idx)) (unat b + n) m \<or>
    (seg_end (segs ! idx) + 4096 * m = next_start segs idx \<and> Suc idx < length segs \<and> 4096 * m < n + 4096 + (unat b - seg_end (segs ! idx)) \<and>
     (\<forall>x. next_start segs idx \<le> unat x \<longrightarrow> unat x < unat b + n \<longrightarrow> locate_segment_index segs x = Some (Suc idx)))"
    "seg_end (segs ! idx) + 4096 * m \<le> next_start segs idx"
proof -
  let ?E = "seg_end (segs ! idx)" and ?T = "next_start segs idx"
  note re = seg_row_end [OF r]
  have "(counted ?E (unat b + n) m \<and> unat b + n \<le> ?T) \<or>
    (?E + 4096 * m = ?T \<and> Suc idx < length segs \<and> 4096 * m < n + 4096 + (unat b - ?E) \<and>
     (\<forall>x. ?T \<le> unat x \<longrightarrow> unat x < unat b + n \<longrightarrow> locate_segment_index segs x = Some (Suc idx)))"
    using nb run b c
  proof (induction n arbitrary: b c)
    case 0
    then show ?case by simp
  next
    case (Suc n)
    have ub: "unat (b + 1) = unat b + 1" using Suc.prems(5) by (simp add: unat_word_ariths)
    have L: "locate_segment_index segs b =
        (if unat b < ?E then Some idx else if unat b = ?T \<and> Suc idx < length segs then Some (Suc idx) else None)"
      using Suc.prems(1) [THEN spec, of b] by (intro locate_in_row [OF r Suc.prems(3,4)]) simp
    have cons: "addrs b (Suc n) = b # addrs (b + 1) n" by (rule addrs_Suc)
    have IH: "pages_to_extend segs idx c' (addrs (b + 1) n) = Inr m \<Longrightarrow> unat b < ?T \<Longrightarrow> counted ?E (Suc (unat b)) c' \<Longrightarrow>
        (counted ?E (unat b + Suc n) m \<and> unat b + Suc n \<le> ?T) \<or>
        (?E + 4096 * m = ?T \<and> Suc idx < length segs \<and> 4096 * m < n + 4096 + (Suc (unat b) - ?E) \<and>
         (\<forall>x. ?T \<le> unat x \<longrightarrow> unat x < unat b + Suc n \<longrightarrow> locate_segment_index segs x = Some (Suc idx)))" for c'
      using Suc.IH [of "b + 1" c'] Suc.prems(1,3,5) by (simp add: ub)
    consider (idx) "unat b < ?E" | (nxt) "?E \<le> unat b" "unat b = ?T" "Suc idx < length segs"
      | (none) "?E \<le> unat b" "\<not> (unat b = ?T \<and> Suc idx < length segs)" by linarith
    then show ?case
    proof cases
      case idx
      then have "pages_to_extend segs idx c (addrs (b + 1) n) = Inr m" using Suc.prems(2) L by (simp add: cons)
      moreover have "counted ?E (Suc (unat b)) c" using Suc.prems(6) idx by (auto simp: counted_def)
      ultimately show ?thesis using IH [of c] idx re(1) by (auto split: if_splits)
    next
      case nxt
      have seg: "locate_segment_index segs b = Some (Suc idx)" using L nxt by simp
      then have "list_all (\<lambda>x. locate_segment_index segs x = Some (Suc idx)) (addrs (b + 1) n)" "m = c"
        using Suc.prems(2) by (auto simp: cons assertR_eq_Inr)
      then have all: "\<forall>i<n. locate_segment_index segs (b + 1 + of_nat i) = Some (Suc idx)"
        by (auto simp: addrs_def list_all_iff)
      have "locate_segment_index segs x = Some (Suc idx)" if "?T \<le> unat x" "unat x < unat b + Suc n" for x
      proof (cases "unat x = unat b")
        case False
        define i where "i = unat x - (unat b + 1)"
        have "unat (b + 1) \<le> unat x" using that(1) False nxt(2) ub by simp
        then have "of_nat (unat x - unat (b + 1)) = x - (b + 1)" by (simp add: of_nat_diff)
        then have "of_nat i = x - (b + 1)" by (simp only: i_def ub)
        then have "x = b + 1 + of_nat i" "i < n" using that False nxt(2) by (auto simp: i_def)
        then show ?thesis using all by blast
      qed (use seg in \<open>simp add: word_unat_eq_iff [symmetric]\<close>)
      moreover have "?E + 4096 * c = ?T"
        using counted_bound [OF Suc.prems(6,4) re(1,4,5)] Suc.prems(6) nxt by (auto simp: counted_def)
      moreover have "4096 * c < Suc n + 4096 + (unat b - ?E)" using Suc.prems(6) by (auto simp: counted_def)
      ultimately show ?thesis using nxt(3) \<open>m = c\<close> by simp
    next
      case none
      have "locate_segment_index segs b = None" using L none by auto
      then have "pages_to_extend segs idx (if page_align b = b then Suc c else c) (addrs (b + 1) n) = Inr m"
        using Suc.prems(2) by (simp add: cons)
      moreover have "page_align b = b \<longleftrightarrow> unat b mod 4096 = 0"
        using page_addr_align [of b] page_align_same [of b] by (auto simp: page_addr_def)
      ultimately have run: "pages_to_extend segs idx (if unat b mod 4096 = 0 then Suc c else c) (addrs (b + 1) n) = Inr m" by simp
      have lt: "unat b < ?T" using none Suc.prems(4,5) by (auto simp: next_start_def split: if_splits)
      have eq: "n + 4096 + (Suc (unat b) - ?E) = Suc n + 4096 + (unat b - ?E)" using none(1) by (simp add: Suc_diff_le)
      show ?thesis by (rule IH [OF run lt counted_step [OF Suc.prems(6) none(1) re(4)], unfolded eq])
    qed
  qed
  then show "counted ?E (unat b + n) m \<or>
    (?E + 4096 * m = ?T \<and> Suc idx < length segs \<and> 4096 * m < n + 4096 + (unat b - ?E) \<and>
     (\<forall>x. ?T \<le> unat x \<longrightarrow> unat x < unat b + n \<longrightarrow> locate_segment_index segs x = Some (Suc idx)))"
    "?E + 4096 * m \<le> ?T"
    using counted_bound [OF _ _ re(1,4,5)] by auto
qed

section \<open>The new layout\<close>

lemma pm_byte_mark: "pm_byte (mark_byte b pm) a = pm_byte pm a"
  by (simp add: mark_byte_def pm_byte_def pm_at_update union_permissions_def)

lemma pm_byte_marks: "pm_byte (fold mark_byte bs pm) a = pm_byte pm a"
  by (induction bs arbitrary: pm) (simp_all add: pm_byte_mark)

lemma count_filesz: "count_filesz_to_seg segs i = of_nat (file_off 0 segs i)"
proof -
  have "fold (\<lambda>s f. f + ucast (ls_filesz s)) ss z = (z + of_nat (sum_list (map (\<lambda>s. unat (ls_filesz s)) ss)) :: uint32)" for ss :: "load_segment list" and z
    by (induction ss arbitrary: z) (simp_all add: add.assoc)
  then show ?thesis by (simp add: count_filesz_to_seg_def file_off_def)
qed

lemma file_off_update:
  assumes "idx < length segs" "unat (ls_filesz s) = unat (ls_filesz (segs ! idx)) + d"
  shows "file_off fo (segs[idx := s]) j = file_off fo segs j + (if idx < j then d else 0)"
proof (cases "idx < j")
  case True
  have "take j segs ! idx \<in> set (take j segs)" using assms(1) True by (intro nth_mem) simp
  then have "unat (ls_filesz (segs ! idx)) \<in> set (map (\<lambda>s. unat (ls_filesz s)) (take j segs))"
    using True by simp
  then have "unat (ls_filesz (segs ! idx)) \<le> sum_list (map (\<lambda>s. unat (ls_filesz s)) (take j segs))"
    by (intro member_le_sum_list) simp_all
  then show ?thesis using assms True
    by (simp add: file_off_def take_update_swap map_update sum_list_update)
next
  case False
  then show ?thesis by (simp add: file_off_def)
qed

text \<open>The segment with its new pages still ends before the next one.\<close>

lemma extend_segment_row:
  assumes r: "seg_row segs idx" and e: "seg_end (segs ! idx) + 4096 * m \<le> next_start segs idx" and m: "4096 * m < 2 ^ 23"
  defines "s \<equiv> extend_segment m (segs ! idx)"
  shows "unat (ls_filesz s) = unat (ls_filesz (segs ! idx)) + 4096 * m" "unat (ls_memsz s) = unat (ls_memsz (segs ! idx)) + 4096 * m"
    "\<forall>t\<in>set (segs[idx := s]). page_addr (ls_filesz t) \<and> page_addr (ls_start_page t)"
    "sorted_wrt (\<lambda>s t. unat (ls_start_page s) + unat (ls_memsz s) \<le> unat (ls_start_page t)) (segs[idx := s])"
proof -
  have idx: "idx < length segs" "segs ! idx \<in> set segs" using r by (auto simp: seg_row_def)
  then have "unat (ls_start_page (segs ! idx)) + unat (ls_memsz (segs ! idx)) \<le> 2 ^ 31"
    using r unfolding seg_row_def by blast
  then have "unat (ls_memsz (segs ! idx)) \<le> 2 ^ 31" by linarith
  with idx have b: "unat (ls_memsz (segs ! idx)) \<le> 2 ^ 31" "ls_filesz (segs ! idx) = ls_memsz (segs ! idx)"
      "page_addr (ls_filesz (segs ! idx))" "page_addr (ls_start_page (segs ! idx))"
    using r by (auto simp: seg_row_def)
  have u: "unat (x + 4096 * of_nat m) = unat x + 4096 * m" if "unat x \<le> 2 ^ 31" for x :: addr
    using that m by (simp add: unat_word_ariths unat_of_nat)
  show f: "unat (ls_filesz s) = unat (ls_filesz (segs ! idx)) + 4096 * m" "unat (ls_memsz s) = unat (ls_memsz (segs ! idx)) + 4096 * m"
    using u b(1,2) by (simp_all add: s_def extend_segment_def)
  have start: "ls_start_page s = ls_start_page (segs ! idx)" by (simp add: s_def extend_segment_def)
  have "page_addr (ls_filesz s)" using b(3) f(1) by (simp add: page_addr_def)
  then show "\<forall>t\<in>set (segs[idx := s]). page_addr (ls_filesz t) \<and> page_addr (ls_start_page t)"
    using r b(4) by (auto simp: seg_row_def start dest!: set_update_subset_insert [THEN subsetD])
  show "sorted_wrt (\<lambda>s t. unat (ls_start_page s) + unat (ls_memsz s) \<le> unat (ls_start_page t)) (segs[idx := s])"
    unfolding sorted_wrt_iff_nth_less
  proof safe
    fix i j assume ij: "i < j" "j < length (segs[idx := s])"
    then have j: "j < length segs" by simp
    show "unat (ls_start_page (segs[idx := s] ! i)) + unat (ls_memsz (segs[idx := s] ! i)) \<le> unat (ls_start_page (segs[idx := s] ! j))"
    proof (cases "i = idx")
      case True
      have "next_start segs idx \<le> unat (ls_start_page (segs ! j))"
        using seg_row_sorted(1) [OF r, of "Suc idx" j] ij(1) j True by (cases "j = Suc idx") (auto simp: next_start_def)
      then show ?thesis using e f(2) b(2) True ij idx(1) by (simp add: seg_end_def start)
    next
      case False
      then show ?thesis using seg_row_sorted(1) [OF r ij(1) j] idx(1) by (auto simp: nth_list_update start)
    qed
  qed
qed

section \<open>The loaded program\<close>

text \<open>Trailing zero pages that the file leaves out belong to writable segments.\<close>

definition bss_writable :: "load_segment list \<Rightarrow> bool" where
  "bss_writable segs \<longleftrightarrow> list_all (\<lambda>s. ls_filesz s = ls_memsz s \<or> ls_perms s AND 2 \<noteq> 0) segs"

lemma ucast_and_2: "(p :: uint32) AND 2 = 0 \<Longrightarrow> (ucast p :: addr) AND 2 = 0"
proof -
  assume "p AND 2 = 0"
  then have "ucast (p AND 2) = (0 :: addr)" by simp
  then show ?thesis by (simp add: unsigned_and_eq)
qed

text \<open>What a successful search has found.\<close>

definition gap_at :: "load_segment list \<Rightarrow> pagemap \<Rightarrow> addr \<Rightarrow> nat \<Rightarrow> nat \<Rightarrow> nat \<Rightarrow> bool" where
  "gap_at segs pm na D idx m \<longleftrightarrow> seg_row segs idx \<and> D < 2 ^ 22 \<and>
     unat (ls_start_page (segs ! idx)) < unat na \<and> unat na \<le> seg_end (segs ! idx) \<and>
     (\<forall>x. unat na \<le> unat x \<longrightarrow> unat x < unat na + D \<longrightarrow> \<not> pm_inuse pm x) \<and>
     seg_end (segs ! idx) + 4096 * m \<le> next_start segs idx \<and> 4096 * m < D + 4096 \<and>
     (unat na + D \<le> seg_end (segs ! idx) + 4096 * m \<or>
      (seg_end (segs ! idx) + 4096 * m = next_start segs idx \<and> Suc idx < length segs \<and>
       (\<forall>x. next_start segs idx \<le> unat x \<longrightarrow> unat x < unat na + D \<longrightarrow> locate_segment_index segs x = Some (Suc idx))))"

lemma prepared_row:
  assumes p: "prepared scoops min_addr w" and l: "locate_segment_index (ew_segvec w) b = Some idx"
  shows "seg_row (ew_segvec w) idx" "seg_in (ew_segvec w ! idx) b"
proof -
  obtain j where j: "j < length (ew_segvec w)" "idx = j" "seg_in (ew_segvec w ! j) b"
      "\<forall>k\<le>j. \<not> ls_filesz (ew_segvec w ! k) < ls_memsz (ew_segvec w ! k)"
    using locate_from_Some [OF l [unfolded locate_segment_index_def]] by auto
  have ok: "\<forall>s\<in>set (ew_segvec w). seg_ok (ew_pagemap w) s \<and> unat (ls_start_page s) + unat (ls_memsz s) \<le> 2 ^ 31"
    using p by (simp add: prepared_def segs_ok_def)
  moreover have "ls_filesz (ew_segvec w ! k) = ls_memsz (ew_segvec w ! k)" if "k \<le> j" for k
    using ok j(1,4) that by (fastforce simp: seg_ok_def intro: antisym)
  ultimately show "seg_row (ew_segvec w) idx" "seg_in (ew_segvec w ! idx) b"
    using j prepared_sorted(2) [OF p] by (auto simp: seg_row_def seg_ok_def)
qed

lemma gap_found:
  assumes p: "prepared scoops min_addr w" and bss: "bss_writable (ew_segvec w)" and mx: "unat max_addr < 2 ^ 31"
    and g: "gap_search n (ew_pagemap w) (DetermineMaxPhdrSize w) max_addr i = Inr na"
    and l: "locate_segment_index (ew_segvec w) (na - 1) = Some idx"
    and e: "pages_to_extend (ew_segvec w) idx 0 (addrs na (unat (DetermineMaxPhdrSize w))) = Inr m"
  shows "gap_at (ew_segvec w) (ew_pagemap w) na (unat (DetermineMaxPhdrSize w)) idx m" "unat i \<le> unat na"
proof -
  let ?D = "unat (DetermineMaxPhdrSize w)" and ?segs = "ew_segvec w"
  note r = prepared_row(1) [OF p l] and re = seg_row_end [OF prepared_row(1) [OF p l]]
  have few: "few_headers w" using p by (simp add: prepared_def)
  have D: "?D < 2 ^ 22" by (rule max_phdr_size_bound [OF few])
  have mem: "?segs ! idx \<in> set ?segs" using r by (simp add: seg_row_def)
  have at: "unat (ls_start_page (?segs ! idx)) \<le> unat (na - 1)" "unat (na - 1) < seg_end (?segs ! idx)"
    using prepared_row(2) [OF p l] seg_in_nat [OF r mem] by simp_all
  have na0: "na \<noteq> 0"
  proof
    assume "na = 0"
    then show False using at(2) re(2) by (simp add: unsigned_minus_1_eq_mask mask_eq_exp_minus_1)
  qed
  then have una: "unat (na - 1) = unat na - 1" "0 < unat na" by (simp_all add: unat_minus_one unat_gt_0)
  have "readonly_space_at (ew_pagemap w) na (DetermineMaxPhdrSize w)" and i: "unat i \<le> unat na"
    using gap_search_result [OF g] mx na0 by auto
  note ro = readonly_space [OF this(1)]
  show "unat i \<le> unat na" by (rule i)
  have nb1: "ls_filesz (?segs ! Suc idx) = ls_memsz (?segs ! Suc idx)"
    if t: "Suc idx < length ?segs" "unat x = next_start ?segs idx" "unat na \<le> unat x" "unat x < unat na + ?D" for x :: addr
  proof -
    have m: "?segs ! Suc idx \<in> set ?segs" using t(1) by simp
    then have ok: "seg_ok (ew_pagemap w) (?segs ! Suc idx)" using p by (simp add: prepared_def segs_ok_def)
    have x: "x = ls_start_page (?segs ! Suc idx)" using t(1,2) by (simp add: next_start_def word_unat_eq_iff)
    have "page_addr x" "seg_has (?segs ! Suc idx) x" using ok by (simp_all add: x seg_ok_def seg_has_def unat_gt_0)
    from seg_ok_page [OF ok this] obtain q where "map_of (ew_pagemap w) x = Some q" "ls_perms (?segs ! Suc idx) = ucast (pd_perms q)" .
    moreover have "page_align x = x" by (rule page_align_same) fact
    ultimately have "ls_perms (?segs ! Suc idx) AND 2 = 0" using ro(2) [OF t(3,4)] ucast_and_2 by simp
    then show ?thesis using bss m by (auto simp: bss_writable_def list_all_iff)
  qed
  then have nb: "\<forall>x :: addr. Suc idx < length ?segs \<longrightarrow> unat x = next_start ?segs idx \<longrightarrow> unat na \<le> unat x \<longrightarrow>
      unat x < unat na + ?D \<longrightarrow> ls_filesz (?segs ! Suc idx) = ls_memsz (?segs ! Suc idx)" by blast
  have b: "unat (ls_start_page (?segs ! idx)) \<le> unat na" "unat na \<le> next_start ?segs idx" "unat na + ?D < 2 ^ 33"
    using at una re(1,2) D by auto
  have le: "unat na \<le> seg_end (?segs ! idx)" "unat (ls_start_page (?segs ! idx)) < unat na" using at una by linarith+
  then have c: "counted (seg_end (?segs ! idx)) (unat na) 0" by (simp add: counted_def)
  note pe = pages_to_extend_row [OF r nb e b c]
  show "gap_at ?segs (ew_pagemap w) na ?D idx m"
    using r D le ro(1) pe by (auto simp: gap_at_def counted_def)
qed

text \<open>
  The offsets where the headers go are those of the gap: no byte of a segment that is in use has
  one of them.
\<close>

lemma gap_offsets:
  assumes g: "gap_at segs pm na D idx m" and i: "i < length segs" "seg_has (segs ! i) a" and a: "pm_inuse pm a"
    and k: "unat (a - ls_start_page (segs ! i)) < unat (ls_filesz (segs ! i))"
  defines "segs' \<equiv> segs[idx := extend_segment m (segs ! idx)]"
  defines "off \<equiv> file_off 0 segs' idx + (unat na - unat (ls_start_page (segs ! idx)))"
  defines "k' \<equiv> file_off 0 segs' i + unat (a - ls_start_page (segs ! i))"
  shows "\<not> (off \<le> k' \<and> k' < off + D)"
proof
  assume H: "off \<le> k' \<and> k' < off + D"
  let ?S = "unat (ls_start_page (segs ! idx))" and ?E = "seg_end (segs ! idx)" and ?T = "next_start segs idx"
  have r: "seg_row segs idx" and S: "?S < unat na" "unat na \<le> ?E" and free: "\<not> (unat na \<le> unat a \<and> unat a < unat na + D)"
    and e: "?E + 4096 * m \<le> ?T" "4096 * m < 2 ^ 23" and D: "D < 2 ^ 22"
    using g a by (auto simp: gap_at_def)
  have idx: "idx < length segs" using r by (simp add: seg_row_def)
  have fo: "file_off 0 segs' j = file_off 0 segs j + (if idx < j then 4096 * m else 0)" for j
    unfolding segs'_def by (rule file_off_update [OF idx extend_segment_row(1) [OF r e]])
  have as: "unat (ls_start_page (segs ! i)) + unat (a - ls_start_page (segs ! i)) = unat a"
    using i(2) by (simp add: seg_has_def unat_sub word_le_nat_alt)
  have E: "?S + unat (ls_filesz (segs ! idx)) = ?E" by (simp add: seg_end_def)
  consider (before) "i < idx" | (same) "i = idx" | (nxt) "i = Suc idx" | (after) "Suc idx < i" by linarith
  then show False
  proof cases
    case before
    then have "file_off 0 segs i + unat (ls_filesz (segs ! i)) \<le> file_off 0 segs idx" using idx by (intro file_off_mono) auto
    then show False using H k before by (simp add: off_def k'_def fo)
  next
    case same
    then have "k' = file_off 0 segs idx + unat (a - ls_start_page (segs ! i))" "off = file_off 0 segs idx + (unat na - ?S)"
      by (simp_all add: off_def k'_def fo)
    moreover have "?S + unat (a - ls_start_page (segs ! i)) = unat a" using as same by simp
    ultimately show False using H free S by linarith
  next
    case nxt
    then have T: "?T = unat (ls_start_page (segs ! i))" using i(1) by (simp add: next_start_def)
    have "file_off 0 segs (Suc idx) = file_off 0 segs idx + unat (ls_filesz (segs ! idx))"
      using idx by (simp add: file_off_def take_Suc_conv_app_nth)
    then have k': "k' = file_off 0 segs idx + (?E + 4096 * m - ?S) + unat (a - ls_start_page (segs ! i))"
      using nxt E by (simp add: k'_def fo)
    have off: "off = file_off 0 segs idx + (unat na - ?S)" by (simp add: off_def fo)
    have "unat na + D \<le> ?E + 4096 * m \<or> ?E + 4096 * m = ?T" using g by (auto simp: gap_at_def)
    then show False
    proof
      assume "unat na + D \<le> ?E + 4096 * m"
      then show False using H S unfolding k' off by linarith
    next
      assume "?E + 4096 * m = ?T"
      then have "k' - off = unat a - unat na" "unat na \<le> unat a" using S as T unfolding k' off by linarith+
      then show False using H free by linarith
    qed
  next
    case after
    then have j: "Suc idx < length segs" using i(1) by simp
    let ?t = "segs ! Suc idx"
    have T: "?T = unat (ls_start_page ?t)" using j by (simp add: next_start_def)
    have "file_off 0 segs (Suc idx) = file_off 0 segs idx + unat (ls_filesz (segs ! idx))"
      using idx by (simp add: file_off_def take_Suc_conv_app_nth)
    moreover have "file_off 0 segs (Suc idx) + unat (ls_filesz ?t) \<le> file_off 0 segs i" using after i(1) by (intro file_off_mono) auto
    ultimately have k': "file_off 0 segs idx + (?E + 4096 * m - ?S) + unat (ls_filesz ?t) \<le> k'"
      using after E by (simp add: k'_def fo)
    have off: "off = file_off 0 segs idx + (unat na - ?S)" by (simp add: off_def fo)
    have "unat na + D \<le> ?E + 4096 * m + unat (ls_filesz ?t)"
    proof (cases "unat na + D \<le> ?E + 4096 * m")
      case False
      then have ET: "?E + 4096 * m = ?T" and all: "\<forall>x. ?T \<le> unat x \<longrightarrow> unat x < unat na + D \<longrightarrow> locate_segment_index segs x = Some (Suc idx)"
        using g by (auto simp: gap_at_def)
      define x where "x = (of_nat (unat na + D - 1) :: addr)"
      have "unat x = unat na + D - 1" unfolding x_def by (rule unat_of_nat_64) (use S seg_row_end(2) [OF r] D in simp)
      then have "locate_segment_index segs x = Some (Suc idx)" using all False ET S by simp
      then obtain jj where "jj = Suc idx" "seg_in (segs ! jj) x"
        using locate_from_Some [of 0 segs x] by (auto simp: locate_segment_index_def)
      then have "unat x < seg_end ?t" using seg_in_nat [OF r, of ?t] j by simp
      then show ?thesis using \<open>unat x = unat na + D - 1\<close> ET T by (simp add: seg_end_def)
    qed simp
    then show False using H k' S unfolding off by linarith
  qed
qed

lemma gap_allocate_internal:
  assumes p: "prepared scoops min_addr w" and bss: "bss_writable (ew_segvec w)" and mx: "unat max_addr < 2 ^ 31"
    and c: "CreateNewPhdrs_GapAllocate n ss min_addr max_addr w = Inr (Some w')"
  obtains na idx m segs' w1 off where "gap_at (ew_segvec w) (ew_pagemap w) na (unat (DetermineMaxPhdrSize w)) idx m"
    "segs' = (ew_segvec w)[idx := extend_segment m (ew_segvec w ! idx)]"
    "unat off = file_off 0 segs' idx + (unat na - unat (ls_start_page (ew_segvec w ! idx)))"
    "file_off 0 segs' (length segs') < 2 ^ 32"
    "CreateNewPhdrs_internal n ss 0 False off na w1 = Inr w'"
    "ew_pagemap w1 = fold mark_byte (addrs na (unat (DetermineMaxPhdrSize w))) (ew_pagemap w)"
    "ew_new_phdrs w1 = []" "few_headers w1" "ew_ehdr w1 = ew_ehdr w" "ew_segvec w1 = segs'" "DetermineMaxPhdrSize w1 = DetermineMaxPhdrSize w"
    "\<not> min_addr \<le> page_align min_addr + 64" "unat (ucast min_addr :: uint32) \<le> unat na"
proof -
  let ?D = "DetermineMaxPhdrSize w" and ?segs = "ew_segvec w"
  obtain na idx m where room: "\<not> min_addr \<le> page_align min_addr + 64"
    and G: "gap_search n (ew_pagemap w) ?D max_addr (ucast min_addr) = Inr na"
    and L: "locate_segment_index ?segs (na - 1) = Some idx"
    and P: "pages_to_extend ?segs idx 0 (addrs na (unat ?D)) = Inr m"
    and I0: "CreateNewPhdrs_internal n ss 0 False
        (ucast (count_filesz_to_seg (?segs[idx := extend_segment m (?segs ! idx)]) idx +
          ucast (na - ls_start_page (?segs[idx := extend_segment m (?segs ! idx)] ! idx)))) na
        (w\<lparr>ew_pagemap := fold mark_byte (addrs na (unat ?D)) (ew_pagemap w), ew_segvec := ?segs[idx := extend_segment m (?segs ! idx)]\<rparr>) = Inr w'"
    using c by (auto simp: CreateNewPhdrs_GapAllocate_def Let_def bindR_eq_Inr mapR_eq_Inr split: if_splits option.splits)
  note gf = gap_found [OF p bss mx G L P]
  define segs' where "segs' = ?segs[idx := extend_segment m (?segs ! idx)]"
  define w1 where "w1 = w\<lparr>ew_pagemap := fold mark_byte (addrs na (unat ?D)) (ew_pagemap w), ew_segvec := segs'\<rparr>"
  define off where "off = file_off 0 segs' idx + (unat na - unat (ls_start_page (?segs ! idx)))"
  have r: "seg_row ?segs idx" and S: "unat (ls_start_page (?segs ! idx)) < unat na" "unat na \<le> seg_end (?segs ! idx)"
    and e: "seg_end (?segs ! idx) + 4096 * m \<le> next_start ?segs idx" "4096 * m < 2 ^ 23" and D: "unat ?D < 2 ^ 22"
    using gf(1) by (auto simp: gap_at_def)
  have idx: "idx < length ?segs" using r by (simp add: seg_row_def)
  note row = extend_segment_row [OF r e]
  have fo: "file_off 0 segs' j = file_off 0 ?segs j + (if idx < j then 4096 * m else 0)" for j
    unfolding segs'_def by (rule file_off_update [OF idx row(1)])
  have sum: "file_off 0 segs' (length segs') < 2 ^ 32"
    using prepared_sum [OF p] e(2) unfolding fo by (simp add: segs'_def)
  have "off \<le> file_off 0 ?segs idx + unat (ls_filesz (?segs ! idx))" using S by (simp add: off_def fo seg_end_def)
  also have "\<dots> \<le> file_off 0 ?segs (length ?segs)" using idx by (intro file_off_mono) auto
  finally have off32: "off \<le> 2 ^ 31" using prepared_sum [OF p] by simp
  have start: "ls_start_page (segs' ! j) = ls_start_page (?segs ! j)" if "j < length ?segs" for j
    using that by (cases "j = idx") (simp_all add: segs'_def extend_segment_def)
  have "count_filesz_to_seg segs' idx + ucast (na - ls_start_page (segs' ! idx)) = (of_nat off :: uint32)"
  proof -
    have "unat (na - ls_start_page (?segs ! idx)) = unat na - unat (ls_start_page (?segs ! idx))" using S by (simp add: unat_sub word_le_nat_alt)
    then have "(ucast (na - ls_start_page (?segs ! idx)) :: uint32) = of_nat (unat na - unat (ls_start_page (?segs ! idx)))"
      by (simp add: word_unat_eq_iff unsigned_ucast_eq unat_of_nat take_bit_eq_mod)
    then show ?thesis by (simp add: start [OF idx] count_filesz off_def)
  qed
  then have I: "CreateNewPhdrs_internal n ss 0 False (ucast (of_nat off :: uint32)) na w1 = Inr w'"
    using I0 by (simp flip: segs'_def add: w1_def)
  have uoff: "unat (ucast (of_nat off :: uint32) :: addr) = off"
    using off32 by (simp add: unsigned_ucast_eq unat_of_nat take_bit_nat_eq_self)
  have w1: "ew_new_phdrs w1 = []" "few_headers w1" "ew_ehdr w1 = ew_ehdr w" "ew_segvec w1 = segs'" "DetermineMaxPhdrSize w1 = ?D"
    using p by (simp_all add: w1_def prepared_def few_headers_def segs'_def DetermineMaxPhdrSize_def)
  have pm1: "ew_pagemap w1 = fold mark_byte (addrs na (unat ?D)) (ew_pagemap w)" by (simp add: w1_def)
  show ?thesis
    by (rule that [OF gf(1) segs'_def trans [OF uoff off_def] sum I pm1 w1 room gf(2)])
qed

text \<open>The headers of a gap are behind the first page of the file, or in it behind the ELF header.\<close>

lemma gap_room:
  assumes p: "prepared scoops min_addr w" and G: "gap_at (ew_segvec w) pm na D idx m"
    and room: "\<not> min_addr \<le> page_align min_addr + 64" "unat (ucast min_addr :: uint32) \<le> unat na"
  defines "segs' \<equiv> (ew_segvec w)[idx := extend_segment m (ew_segvec w ! idx)]"
  shows "ls_start_page (ew_segvec w ! 0) = page_align min_addr" "unat (page_align min_addr) + 64 < unat min_addr"
    "j \<noteq> 0 \<Longrightarrow> 4096 \<le> file_off 0 segs' j"
    "64 \<le> file_off 0 segs' idx + (unat na - unat (ls_start_page (ew_segvec w ! idx)))"
proof -
  let ?segs = "ew_segvec w"
  have r: "seg_row ?segs idx" and e: "seg_end (?segs ! idx) + 4096 * m \<le> next_start ?segs idx" "4096 * m < 2 ^ 23"
    using G by (auto simp: gap_at_def)
  have idx: "idx < length ?segs" using r by (simp add: seg_row_def)
  have fo: "file_off 0 segs' j = file_off 0 ?segs j + (if idx < j then 4096 * m else 0)" for j
    unfolding segs'_def by (rule file_off_update [OF idx extend_segment_row(1) [OF r e]])
  show start: "ls_start_page (?segs ! 0) = page_align min_addr" using p by (auto simp: prepared_def hd_conv_nth)
  have ne: "?segs \<noteq> []" using idx by auto
  then have "hd ?segs \<in> set ?segs" by simp
  then have "unat (page_align min_addr) \<le> 2 ^ 31" using p unfolding prepared_def by fastforce
  then have pm64: "unat (page_align min_addr) + 64 < unat min_addr" "unat min_addr < 2 ^ 32"
    using room(1) unat_page_min [of min_addr] by (simp_all add: word_le_nat_alt unat_word_ariths)
  have fo0: "4096 \<le> file_off 0 segs' j" if "j \<noteq> 0" for j
    using file_off_first [of ?segs j 0] first_filesz [OF p] ne that unfolding fo by fastforce
  have "unat min_addr \<le> unat na" using room(2) pm64(2) by (simp add: unsigned_ucast_eq take_bit_nat_eq_self)
  then show "64 \<le> file_off 0 segs' idx + (unat na - unat (ls_start_page (?segs ! idx)))"
    using fo0 [of idx] start pm64(1) by (cases "idx = 0") auto
  show "unat (page_align min_addr) + 64 < unat min_addr" by (rule pm64(1))
  show "j \<noteq> 0 \<Longrightarrow> 4096 \<le> file_off 0 segs' j" by (rule fo0)
qed

lemma gap_file_ok:
  assumes p: "prepared scoops min_addr w" and bss: "bss_writable (ew_segvec w)" and mx: "unat max_addr < 2 ^ 31"
    and c: "CreateNewPhdrs_GapAllocate n ss min_addr max_addr w = Inr (Some w')"
  shows "file_ok w'"
proof -
  obtain na idx m segs' w1 off where G: "gap_at (ew_segvec w) (ew_pagemap w) na (unat (DetermineMaxPhdrSize w)) idx m"
    and segs': "segs' = (ew_segvec w)[idx := extend_segment m (ew_segvec w ! idx)]"
    and sum: "file_off 0 segs' (length segs') < 2 ^ 32"
    and I: "CreateNewPhdrs_internal n ss 0 False off na w1 = Inr w'"
    and w1: "ew_new_phdrs w1 = []" "few_headers w1" "ew_ehdr w1 = ew_ehdr w" "ew_segvec w1 = segs'"
    and uoff: "unat off = file_off 0 segs' idx + (unat na - unat (ls_start_page (ew_segvec w ! idx)))"
    and room: "\<not> min_addr \<le> page_align min_addr + 64" "unat (ucast min_addr :: uint32) \<le> unat na"
    by (rule gap_allocate_internal [OF p bss mx c])
  have off64: "64 \<le> unat off" using gap_room(4) [OF p G room] by (simp add: uoff segs')
  have "seg_row (ew_segvec w) idx" "seg_end (ew_segvec w ! idx) + 4096 * m \<le> next_start (ew_segvec w) idx" "4096 * m < 2 ^ 23"
    using G by (auto simp: gap_at_def)
  from extend_segment_row(3) [OF this] show ?thesis
    using internal_file_ok [OF I w1(1,2)] sum p off64 by (simp add: w1 prepared_def flip: segs')
qed

lemma gap_allocate_loads:
  assumes p: "prepared scoops min_addr w" and bss: "bss_writable (ew_segvec w)" and mx: "unat max_addr < 2 ^ 31"
    and c: "CreateNewPhdrs_GapAllocate n ss min_addr max_addr w = Inr (Some w')"
    and wr: "written w' f" and s: "s \<in> set scoops" "scoop_has s a"
  shows "elf_load f a = Inr (Some (image_byte scoops a))"
proof -
  let ?D = "DetermineMaxPhdrSize w" and ?segs = "ew_segvec w"
  obtain na idx m segs' w1 off where G: "gap_at ?segs (ew_pagemap w) na (unat ?D) idx m"
    and segs'_def: "segs' = ?segs[idx := extend_segment m (?segs ! idx)]"
    and uoff: "unat off = file_off 0 segs' idx + (unat na - unat (ls_start_page (?segs ! idx)))"
    and sum: "file_off 0 segs' (length segs') < 2 ^ 32"
    and I: "CreateNewPhdrs_internal n ss 0 False off na w1 = Inr w'"
    and pm1: "ew_pagemap w1 = fold mark_byte (addrs na (unat ?D)) (ew_pagemap w)"
    and w1: "ew_new_phdrs w1 = []" "few_headers w1" "ew_ehdr w1 = ew_ehdr w" "ew_segvec w1 = segs'" "DetermineMaxPhdrSize w1 = ?D"
    and room: "\<not> min_addr \<le> page_align min_addr + 64" "unat (ucast min_addr :: uint32) \<le> unat na"
    by (rule gap_allocate_internal [OF p bss mx c])
  have r: "seg_row ?segs idx" and S: "unat (ls_start_page (?segs ! idx)) < unat na"
    and e: "seg_end (?segs ! idx) + 4096 * m \<le> next_start ?segs idx" "4096 * m < 2 ^ 23"
    using G by (auto simp: gap_at_def)
  have idx: "idx < length ?segs" using r by (simp add: seg_row_def)
  note row = extend_segment_row [OF r e]
  have fo: "file_off 0 segs' j = file_off 0 ?segs j + (if idx < j then 4096 * m else 0)" for j
    unfolding segs'_def by (rule file_off_update [OF idx row(1)])
  have start: "ls_start_page (segs' ! j) = ls_start_page (?segs ! j)" if "j < length ?segs" for j
    using that by (cases "j = idx") (simp_all add: segs'_def extend_segment_def)
  obtain i where i: "i < length ?segs" "seg_has (?segs ! i) a"
      "\<not> unat (a - ls_start_page (?segs ! i)) < unat (ls_filesz (?segs ! i)) \<longrightarrow> image_byte scoops a = 0"
    using prepared_seg [OF p s] by blast
  have used: "pm_inuse (ew_pagemap w) a" "unat min_addr \<le> unat a" using p s by (auto simp: prepared_def word_le_nat_alt)
  have fsz: "unat (ls_filesz (segs' ! i)) = unat (ls_filesz (?segs ! i)) + (if i = idx then 4096 * m else 0)"
      "unat (ls_memsz (segs' ! i)) = unat (ls_memsz (?segs ! i)) + (if i = idx then 4096 * m else 0)"
    using i(1) row(1,2) by (simp_all add: segs'_def nth_list_update)
  have has: "seg_has (segs' ! i) a" using i(2) fsz(2) by (simp add: seg_has_def start [OF i(1)])
  note R = gap_room [OF p G room, folded segs'_def]
  have off64: "64 \<le> unat off" using R(4) by (simp add: uoff)
  have noth: "\<not> in_headers w' (file_off 0 segs' i + unat (a - ls_start_page (segs' ! i)))"
    if k: "unat (a - ls_start_page (segs' ! i)) < unat (ls_filesz (segs' ! i))"
  proof
    let ?k = "file_off 0 segs' i + unat (a - ls_start_page (segs' ! i))"
    assume "in_headers w' ?k"
    from in_headers_internal [OF I w1(1,2) this] have H: "?k < 64 \<or> (unat off \<le> ?k \<and> ?k < unat off + unat ?D)" by (simp add: w1(5))
    have ua: "unat (a - ls_start_page (?segs ! i)) = unat a - unat (ls_start_page (?segs ! i))"
      using i(2) by (simp add: seg_has_def unat_sub word_le_nat_alt)
    have "\<not> ?k < 64"
    proof (cases "i = 0")
      case True
      then show ?thesis using ua R(1,2) used(2) start [OF i(1)] by simp
    qed (use R(3) [of i] in simp)
    moreover have "unat (a - ls_start_page (?segs ! i)) < unat (ls_filesz (?segs ! i))"
    proof (cases "i = idx")
      case True
      then have "ls_filesz (?segs ! i) = ls_memsz (?segs ! i)" using r by (simp add: seg_row_def)
      then show ?thesis using i(2) ua by (auto simp: seg_has_def)
    qed (use k fsz(1) in \<open>simp add: start [OF i(1)]\<close>)
    then have "\<not> (unat off \<le> ?k \<and> ?k < unat off + unat ?D)"
      using gap_offsets [OF G i(1,2) used(1)] by (simp add: uoff segs'_def [symmetric] start [OF i(1)])
    ultimately show False using H by blast
  qed
  have same: "pm_byte (ew_pagemap w') a = image_byte scoops a"
    using internal_result(6) [OF I w1(1,2)] p by (simp add: pm1 pm_byte_marks prepared_def)
  have i': "i < length segs'" using i(1) by (simp add: segs'_def)
  have z: "\<not> unat (a - ls_start_page (segs' ! i)) < unat (ls_filesz (segs' ! i)) \<longrightarrow> image_byte scoops a = 0"
    using i(3) fsz(1) by (auto simp: start [OF i(1)])
  show ?thesis
    by (rule load_after_internal [OF p I w1(1-3), unfolded w1(4), OF _ _ sum off64 wr _ same i' has z noth])
      (use row(3,4) in \<open>simp_all flip: segs'_def\<close>)
qed

end
