(* ===== verification/Zipr_ElfSections.thy ===== *)
theory Zipr_ElfSections
  imports Zipr_Elf
begin

text \<open>
  The sections of the new program (\<open>ElfWriterImpl::AddSections\<close> in \<open>zipr/src/elfwrite.cpp\<close> and
  \<open>StringTable_t\<close> in \<open>zipr/include/elfwrite.h\<close>): a section for each scoop, symbols for the
  functions, a string table, the section headers; and \<open>ElfWriter::Write\<close> as a whole. A function
  is its name and its instructions, in the order of their set; their addresses come from the
  rewriter, their lengths from the decoder, which is not part of the program.
\<close>

section \<open>The string table\<close>

record strtab =
  st_table :: "byte list"
  st_locations :: "string \<rightharpoonup> nat"

definition empty_strtab :: strtab where
  "empty_strtab = \<lparr>st_table = [], st_locations = (\<lambda>_. None)\<rparr>"

definition AddString :: "string \<Rightarrow> strtab \<Rightarrow> strtab" where
  "AddString s t =
     (if st_locations t s \<noteq> None then t
      else \<lparr>st_table = st_table t @ map of_char s @ [0], st_locations = (st_locations t)(s \<mapsto> length (st_table t))\<rparr>)"

definition location :: "strtab \<Rightarrow> string \<Rightarrow> nat result" where
  "location t s = (case st_locations t s of None \<Rightarrow> Inl OutOfRange | Some i \<Rightarrow> Inr i)"

section \<open>Section headers\<close>

definition SHT_PROGBITS :: uint32 where "SHT_PROGBITS = 1"
definition SHT_SYMTAB :: uint32 where "SHT_SYMTAB = 2"
definition SHT_STRTAB :: uint32 where "SHT_STRTAB = 3"

definition SHF_WRITE :: addr where "SHF_WRITE = 1"
definition SHF_ALLOC :: addr where "SHF_ALLOC = 2"
definition SHF_EXECINSTR :: addr where "SHF_EXECINSTR = 4"

text \<open>Name, type, size of an entry, \<open>sh_info\<close>, and the name of the section it links to.\<close>

definition section_type_map :: "(string \<times> uint32 \<times> addr \<times> uint32 \<times> string) list" where
  "section_type_map = [
     (''.init_array'', 14, 0, 0, ''''),
     (''.fini_array'', 15, 0, 0, ''''),
     (''.dynamic'', 6, 16, 0, ''.dynstr''),
     (''.note.ABI-tag'', 7, 0, 0, ''''),
     (''.note.gnu.build-id'', 7, 0, 0, ''''),
     (''.gnu.hash'', 0x6ffffff6, 0, 0, ''.dynsym''),
     (''.dynstr'', SHT_STRTAB, 0, 0, ''''),
     (''.shstrtab'', SHT_STRTAB, 0, 0, ''''),
     (''.dynsym'', 11, 24, 0, ''.dynstr''),
     (''.symtab'', SHT_SYMTAB, 24, 0, ''''),
     (''.strtab'', SHT_STRTAB, 0, 0, ''''),
     (''.rel.dyn'', 9, 16, 0, ''''),
     (''.rela.dyn'', 4, 24, 0, ''.dynsym''),
     (''.rel.plt'', 9, 16, 0, ''.dynsym''),
     (''.rela.plt'', 4, 24, 0, ''.dynsym''),
     (''.gnu.version'', 0x6fffffff, 2, 1, ''.dynsym''),
     (''.gnu.version_r'', 0x6ffffffe, 0, 1, ''.dynstr''),
     (''.rela.dyn coalesced w/.rela.plt'', 4, 24, 0, ''.dynsym'')]"

definition file_position :: "64 phdr list \<Rightarrow> scoop \<Rightarrow> addr result" where
  "file_position phdrs s =
     (case find (\<lambda>p. p_vaddr p \<le> sc_start s \<and> sc_start s < p_vaddr p + p_memsz p) phdrs of
        None \<Rightarrow> Inl AssertFail
      | Some p \<Rightarrow> Inr (p_offset p + (sc_start s - p_vaddr p)))"

definition null_shdr :: "nat \<Rightarrow> 64 shdr" where
  "null_shdr name = \<lparr>sh_name = of_nat name, sh_type = 0, sh_flags = 0, sh_addr = 0, sh_offset = 0, sh_size = 0,
     sh_link = 0, sh_info = 0, sh_addralign = 0, sh_entsize = 0\<rparr>"

text \<open>The first loop leaves \<open>sh_link\<close> at \<open>SHN_UNDEF\<close>, the second one fills it in.\<close>

definition shdr_for_scoop :: "nat \<Rightarrow> addr \<Rightarrow> scoop \<Rightarrow> 64 shdr" where
  "shdr_for_scoop name pos s =
     (let (ty, ent, info) = (case map_of section_type_map (sc_name s) of
            Some (ty, ent, info, link) \<Rightarrow> (ty, ent, info) | None \<Rightarrow> (SHT_PROGBITS, 0, 0))
      in \<lparr>sh_name = of_nat name, sh_type = ty,
           sh_flags = SHF_ALLOC OR (if isExecuteable s then SHF_EXECINSTR else 0) OR (if isWriteable s then SHF_WRITE else 0),
           sh_addr = sc_start s, sh_offset = pos, sh_size = sc_end s - sc_start s + 1,
           sh_link = 0, sh_info = info, sh_addralign = 0, sh_entsize = ent\<rparr>)"

fun scoop_index :: "string \<Rightarrow> nat \<Rightarrow> scoop list \<Rightarrow> nat option" where
  "scoop_index name j [] = None"
| "scoop_index name j (s # ss) = (if sc_name s = name then Some j else scoop_index name (Suc j) ss)"

definition linked_shdr :: "scoop list \<Rightarrow> scoop \<Rightarrow> 64 shdr \<Rightarrow> 64 shdr" where
  "linked_shdr scoops s h =
     (case map_of section_type_map (sc_name s) of
        Some (_, _, _, link) \<Rightarrow>
          if link \<noteq> '''' then (case scoop_index link 1 scoops of Some j \<Rightarrow> h\<lparr>sh_link := of_nat j\<rparr> | None \<Rightarrow> h) else h
      | None \<Rightarrow> h)"

definition add_scoop_shdr :: "strtab \<Rightarrow> 64 phdr list \<Rightarrow> scoop list \<Rightarrow> scoop \<Rightarrow> 64 shdr list \<Rightarrow> 64 shdr list result" where
  "add_scoop_shdr t phdrs scoops s hs =
     bindR (file_position phdrs s) (\<lambda>pos. bindR (location t (sc_name s)) (\<lambda>name.
     Inr (hs @ [linked_shdr scoops s (shdr_for_scoop name pos s)])))"

section \<open>Symbols\<close>

record elf_sym =
  st_name :: uint32
  st_info :: byte
  st_other :: byte
  st_shndx :: "16 word"
  st_value :: addr
  st_size :: addr

definition sym_bytes :: "elf_sym \<Rightarrow> byte list" where
  "sym_bytes s = to_bytes (st_name s) @ [st_info s, st_other s] @ to_bytes (st_shndx s) @ to_bytes (st_value s) @ to_bytes (st_size s)"

record func =
  fn_name :: string
  fn_insns :: "nat list"

text \<open>Where the instructions begin (\<open>-1\<close>) and end (\<open>1\<close>), in the order of pairs.\<close>

definition range_events :: "(nat \<Rightarrow> addr option) \<Rightarrow> (nat \<Rightarrow> addr) \<Rightarrow> func \<Rightarrow> (addr \<times> int) list" where
  "range_events im len f =
     concat (map (\<lambda>i. case im i of None \<Rightarrow> [] | Some a \<Rightarrow> [(a, - 1), (a + len i, 1)]) (fn_insns f))"

definition event_less_eq :: "addr \<times> int \<Rightarrow> addr \<times> int \<Rightarrow> bool" where
  "event_less_eq x y \<longleftrightarrow> fst x < fst y \<or> (fst x = fst y \<and> snd x \<le> snd y)"

fun insert_event :: "addr \<times> int \<Rightarrow> (addr \<times> int) list \<Rightarrow> (addr \<times> int) list" where
  "insert_event x [] = [x]"
| "insert_event x (y # ys) = (if event_less_eq x y then x # y # ys else y # insert_event x ys)"

definition sort_events :: "(addr \<times> int) list \<Rightarrow> (addr \<times> int) list" where
  "sort_events xs = foldr insert_event xs []"

text \<open>The runs of addresses that instructions cover; \<open>rangeStart\<close> is set before it is read.\<close>

fun sweep :: "int \<Rightarrow> addr \<Rightarrow> (addr \<times> int) list \<Rightarrow> (addr \<times> addr) list" where
  "sweep acc start [] = []"
| "sweep acc start ((pos, d) # evs) =
     (let start = (if acc = 0 then pos else start); acc = acc + d
      in if acc = 0 then (start, pos) # sweep acc start evs else sweep acc start evs)"

definition function_ranges :: "(nat \<Rightarrow> addr option) \<Rightarrow> (nat \<Rightarrow> addr) \<Rightarrow> func \<Rightarrow> (addr \<times> addr) list" where
  "function_ranges im len f = sweep 0 0 (sort_events (range_events im len f))"

fun section_id :: "nat \<Rightarrow> addr \<Rightarrow> addr \<Rightarrow> scoop list \<Rightarrow> nat" where
  "section_id c start pos [] = 0"
| "section_id c start pos (s # ss) =
     (if sc_start s \<le> start \<and> pos \<le> sc_end s + 1 then Suc c else section_id (Suc c) start pos ss)"

text \<open>\<open>ELF64_ST_INFO(STB_LOCAL, STT_FUNC)\<close> is 2.\<close>

definition function_symbols :: "strtab \<Rightarrow> scoop list \<Rightarrow> (nat \<Rightarrow> addr option) \<Rightarrow> (nat \<Rightarrow> addr) \<Rightarrow> func \<Rightarrow> elf_sym list \<Rightarrow> elf_sym list result" where
  "function_symbols t scoops im len f syms =
     (if function_ranges im len f = [] then Inr syms
      else bindR (location t (fn_name f)) (\<lambda>name.
        Inr (syms @ map (\<lambda>(start, pos). \<lparr>st_name = of_nat name, st_info = 2, st_other = 0,
          st_shndx = of_nat (section_id 0 start pos scoops), st_value = start, st_size = pos - start\<rparr>) (function_ranges im len f))))"

section \<open>\<open>AddSections\<close>\<close>

definition sections_strtab :: "scoop list \<Rightarrow> func list \<Rightarrow> strtab" where
  "sections_strtab scoops funcs =
     fold AddString (map sc_name scoops @ map fn_name funcs @ [''.symtab'', ''.scoop_symtab'', ''nullptr'']) empty_strtab"

definition symtab_shdr :: "nat \<Rightarrow> nat \<Rightarrow> nat \<Rightarrow> nat \<Rightarrow> 64 shdr" where
  "symtab_shdr name pos nsyms nshdrs = \<lparr>sh_name = of_nat name, sh_type = SHT_SYMTAB, sh_flags = 0, sh_addr = 0, sh_offset = of_nat pos,
     sh_size = of_nat (nsyms * 24), sh_link = of_nat (nshdrs + 1), sh_info = of_nat nsyms, sh_addralign = 0, sh_entsize = 24\<rparr>"

definition strtab_shdr :: "nat \<Rightarrow> nat \<Rightarrow> nat \<Rightarrow> 64 shdr" where
  "strtab_shdr name pos sz = \<lparr>sh_name = of_nat name, sh_type = SHT_STRTAB, sh_flags = 0, sh_addr = 0, sh_offset = of_nat pos,
     sh_size = of_nat sz, sh_link = 0, sh_info = 0, sh_addralign = 0, sh_entsize = 0\<rparr>"

text \<open>The symbols go out as they are in memory, whatever the byte order of the file.\<close>

definition add_symtab :: "strtab \<Rightarrow> elf_sym list \<Rightarrow> 64 shdr list \<Rightarrow> out_file \<Rightarrow> (64 shdr list \<times> out_file) result" where
  "add_symtab t syms hs f =
     (if syms = [] then Inr (hs, f)
      else bindR (location t ''.symtab'') (\<lambda>name.
        Inr (hs @ [symtab_shdr name (fl_size f) (length syms) (length hs)],
             fwrite_at (fl_size f) (concat (map sym_bytes syms)) f)))"

definition write_shdr :: "64 ehdr \<Rightarrow> 64 shdr \<Rightarrow> out_file \<Rightarrow> out_file result" where
  "write_shdr e h f = bindR (host_to_shdr e h) (\<lambda>h. Inr (fwrite_at (fl_size f) (shdr_bytes h) f))"

definition AddSections :: "scoop list \<Rightarrow> func list \<Rightarrow> (nat \<Rightarrow> addr option) \<Rightarrow> (nat \<Rightarrow> addr) \<Rightarrow> elf_writer \<Rightarrow> out_file \<Rightarrow> out_file result" where
  "AddSections scoops funcs im len w f =
     (let t = sections_strtab scoops funcs in
      bindR (location t ''nullptr'') (\<lambda>null.
      bindR (foldR (add_scoop_shdr t (ew_new_phdrs w) scoops) scoops [null_shdr null]) (\<lambda>hs.
      bindR (foldR (function_symbols t scoops im len) funcs []) (\<lambda>syms.
      bindR (add_symtab t syms hs f) (\<lambda>(hs, f).
      bindR (location t ''.scoop_symtab'') (\<lambda>name.
      let hs = hs @ [strtab_shdr name (fl_size f) (length (st_table t))];
          f = fwrite_at (fl_size f) (st_table t) f;
          pos = fl_size f
      in bindR (foldR (write_shdr (ew_ehdr w)) hs f) (\<lambda>f.
         bindR (host_to_ehdr ((ew_new_ehdr w)\<lparr>e_shentsize := 64, e_shnum := of_nat (length hs),
            e_shstrndx := of_nat (length hs - 1), e_shoff := of_nat pos\<rparr>)) (\<lambda>e.
         Inr (fwrite_at 0 (ehdr_bytes e) f)))))))))"

section \<open>\<open>ElfWriter::Write\<close>\<close>

definition ElfWriter_Write ::
  "nat \<Rightarrow> bool \<Rightarrow> bool \<Rightarrow> scoop list \<Rightarrow> func list \<Rightarrow> (nat \<Rightarrow> addr option) \<Rightarrow> (nat \<Rightarrow> addr) \<Rightarrow> out_file \<Rightarrow> elf_writer \<Rightarrow> out_file result" where
  "ElfWriter_Write n sections bss_opts scoops funcs im len fin w =
     bindR (CreatePagemap n scoops (ew_pagemap w)) (\<lambda>pm.
     bindR (CreateSegmap bss_opts pm) (\<lambda>segs.
     bindR (DetectMinAddr scoops) (\<lambda>min_addr.
     bindR (DetectMaxAddr scoops) (\<lambda>max_addr.
     bindR (LoadEhdr fin (w\<lparr>ew_pagemap := pm, ew_segvec := ew_segvec w @ segs\<rparr>)) (\<lambda>w.
     bindR (LoadPhdrs fin w) (\<lambda>w.
     bindR (CreateNewPhdrs n scoops min_addr max_addr w) (\<lambda>w.
     bindR (WriteElf sections w) (\<lambda>f.
     if sections then AddSections scoops funcs im len w f else Inr f))))))))"

end
