(* ===== verification/Zipr_ElfTop.thy ===== *)
theory Zipr_ElfTop
  imports Zipr_ElfGap Zipr_ElfSections
begin

text \<open>
  \<open>ElfWriter::Write\<close> from end to end: what it writes returns, when it is loaded, every byte of
  every region of the program at its address.
\<close>

section \<open>What the writer starts from\<close>

lemma DetectMinAddr_least:
  assumes "DetectMinAddr scoops = Inr m"
  shows "s \<in> set scoops \<Longrightarrow> m \<le> sc_start s" "\<exists>s\<in>set scoops. m = sc_start s"
proof -
  have F: "fold (\<lambda>s. min (sc_start s)) ss z \<le> z \<and> (\<forall>s\<in>set ss. fold (\<lambda>s. min (sc_start s)) ss z \<le> sc_start s) \<and>
      (fold (\<lambda>s. min (sc_start s)) ss z = z \<or> (\<exists>s\<in>set ss. fold (\<lambda>s. min (sc_start s)) ss z = sc_start s))"
    for ss :: "scoop list" and z
  proof (induction ss arbitrary: z)
    case (Cons s ss)
    show ?case using Cons [of "min (sc_start s) z"] by (auto simp: min_def split: if_splits)
  qed simp
  have "(\<lambda>(s :: scoop) m. if sc_start s < m then sc_start s else m) = (\<lambda>s. min (sc_start s))"
    by (auto simp: fun_eq_iff min_def)
  then obtain t ts where "scoops = t # ts" "m = fold (\<lambda>s. min (sc_start s)) scoops (sc_start t)"
    using assms by (auto simp: DetectMinAddr_def split: list.splits)
  then show "s \<in> set scoops \<Longrightarrow> m \<le> sc_start s" "\<exists>s\<in>set scoops. m = sc_start s"
    using F [of scoops "sc_start t"] by auto
qed

lemma DetectMaxAddr_in:
  assumes "DetectMaxAddr scoops = Inr m"
  shows "\<exists>s\<in>set scoops. m = sc_end s"
proof -
  let ?f = "\<lambda>s m. if m < sc_end s then sc_end s else m"
  have F: "fold ?f ss z = z \<or> (\<exists>s\<in>set ss. fold ?f ss z = sc_end s)" for ss :: "scoop list" and z
  proof (induction ss arbitrary: z)
    case (Cons s ss)
    show ?case using Cons [of "?f s z"] by auto
  qed simp
  obtain t ts where "scoops = t # ts" "m = fold ?f scoops (sc_end t)"
    using assms by (auto simp: DetectMaxAddr_def split: list.splits)
  then show ?thesis using F [of scoops "sc_end t"] by auto
qed

lemma segmap_first:
  assumes "CreateSegmap opts pm = Inr segs" "pm_wf pm" "\<forall>i\<in>fst ` set pm. unat i + 4096 < 2 ^ 32"
  shows "segs \<noteq> []" "ls_start_page (hd segs) \<in> fst ` set pm" "\<forall>i\<in>fst ` set pm. ls_start_page (hd segs) \<le> i"
proof -
  obtain i p rest where pm: "pm = (i, p) # rest" using assms(1) by (auto simp: CreateSegmap_def split: list.splits)
  have "segmap_loop opts ss pe se ie r \<noteq> [] \<and> (unat ss < 2 ^ 32 \<longrightarrow> ls_start_page (hd (segmap_loop opts ss pe se ie r)) = ss)" for ss pe se ie r
    by (induction opts ss pe se ie r rule: segmap_loop.induct) (auto simp: mk_segment_def Let_def ucast_uint32)
  moreover have "unat i < 2 ^ 32" using assms(3) by (auto simp: pm)
  ultimately have "segs \<noteq> []" "ls_start_page (hd segs) = i" using assms(1) by (auto simp: CreateSegmap_def Let_def pm)
  then show "segs \<noteq> []" "ls_start_page (hd segs) \<in> fst ` set pm" "\<forall>i\<in>fst ` set pm. ls_start_page (hd segs) \<le> i"
    using assms(2) by (auto simp: pm pm_wf_def less_imp_le)
qed

text \<open>
  The regions lie below 2 GB, and the first of them is not \<open>.tbss\<close>, which has no pages.
\<close>

definition scoops_fit :: "scoop list \<Rightarrow> bool" where
  "scoops_fit scoops \<longleftrightarrow>
     list_all (\<lambda>s. sc_start s \<le> sc_end s \<and> sc_end s < 0x7ffff000) scoops \<and>
     list_ex (\<lambda>s. sc_name s \<noteq> ''.tbss'' \<and> list_all (\<lambda>t. sc_start s \<le> sc_start t) scoops) scoops"

text \<open>
  The trailing zero pages that the file leaves out are writable and are not the first page; the
  program headers fit a page, and do not end exactly where the program starts in the first page of
  all (\<open>preallocate_wraps\<close>).
\<close>

definition headers_fit :: "addr \<Rightarrow> elf_writer \<Rightarrow> bool" where
  "headers_fit min_addr w \<longleftrightarrow>
     bss_writable (ew_segvec w) \<and> ls_filesz (hd (ew_segvec w)) \<noteq> 0 \<and> few_headers w \<and>
     DetermineMaxPhdrSize w \<le> 4032 \<and> (4096 \<le> min_addr \<or> min_addr \<noteq> ucast (DetermineMaxPhdrSize w) + 64)"

lemma scoop_pages_bound:
  assumes "scoops_fit scoops" "i \<in> scoop_pages scoops"
  shows "unat i + 4096 \<le> 2 ^ 31"
proof -
  obtain s where "s \<in> set scoops" "i \<le> sc_end s" "page_addr i" using assms(2) by (auto simp: scoop_pages_def)
  then have "unat i < 2147479552" using assms(1)
    by (auto simp: scoops_fit_def list_all_iff word_le_nat_alt word_less_nat_alt intro: order_le_less_trans)
  then show ?thesis by simp
qed

lemma prepared_Write:
  assumes pm: "CreatePagemap n scoops [] = Inr pm" and segs: "CreateSegmap opts pm = Inr segs"
    and min: "DetectMinAddr scoops = Inr min_addr" and fit: "scoops_fit scoops"
    and w: "ew_pagemap w = pm" "ew_segvec w = segs" "ew_new_phdrs w = []" "length (e_ident (ew_ehdr w)) = 16"
      "e_ident (ew_ehdr w) ! 5 = 1 \<or> e_ident (ew_ehdr w) ! 5 = 2"
    and h: "headers_fit min_addr w"
  shows "prepared scoops min_addr w"
proof -
  have "pm_wf []" by (simp add: pm_wf_def)
  from pagemap_keys [OF pm this] have keys: "pm_wf pm" "fst ` set pm = scoop_pages scoops" by simp_all
  have b: "\<forall>i\<in>fst ` set pm. unat i + 4096 < 2 ^ 32" 
  proof
    fix i assume "i \<in> fst ` set pm"
    then show "unat i + 4096 < 2 ^ 32" using scoop_pages_bound [OF fit, of i] by (simp add: keys(2))
  qed
  note ok = segmap_ok [OF segs keys(1) b] and first = segmap_first [OF segs keys(1) b]
  have end31: "unat (ls_start_page s) + unat (ls_memsz s) \<le> 2 ^ 31" if s: "s \<in> set segs" for s
  proof -
    have o': "seg_ok pm s" using ok s by (simp add: segs_ok_def)
    then have e: "page_addr (ls_start_page s)" "page_addr (ls_memsz s)" "0 < unat (ls_memsz s)"
        "unat (ls_start_page s) + unat (ls_memsz s) < 2 ^ 32" by (simp_all add: seg_ok_def unat_gt_0)
    obtain y where y: "unat (ls_memsz s) = 4096 * y" using e(2) by (rule page_addrE)
    define i where "i = ls_start_page s + (ls_memsz s - 4096)"
    have "unat (ls_memsz s - 4096) = unat (ls_memsz s) - 4096" using y e(3) by (simp add: unat_sub word_le_nat_alt)
    then have i: "unat i = unat (ls_start_page s) + (unat (ls_memsz s) - 4096)" using e(4) by (simp add: i_def unat_word_ariths)
    have "page_addr i" using e(1) y i by (auto simp: page_addr_def mod_add_eq [symmetric] diff_mult_distrib2 [of 4096 y 1, simplified, symmetric])
    moreover have "seg_has s i" using i e(3) y by (auto simp: seg_has_def)
    ultimately obtain p where "map_of pm i = Some p" by (rule seg_ok_page [OF o'])
    then have "i \<in> fst ` set pm" by (force dest: map_of_SomeD)
    from scoop_pages_bound [OF fit this [unfolded keys(2)]] show ?thesis using i y e(3) by simp
  qed
  obtain s0 where s0: "s0 \<in> set scoops" "sc_name s0 \<noteq> ''.tbss''" "\<forall>t\<in>set scoops. sc_start s0 \<le> sc_start t"
    using fit by (auto simp: scoops_fit_def list_ex_iff list_all_iff)
  have m0: "min_addr = sc_start s0" using DetectMinAddr_least [OF min] s0(1,3) by (metis antisym)
  have "page_align min_addr \<in> scoop_pages scoops"
    using s0 fit page_align_le [of min_addr] by (auto simp: scoop_pages_def m0 scoops_fit_def list_all_iff intro!: bexI [of _ s0] intro: order_trans)
  then have le: "ls_start_page (hd segs) \<le> page_align min_addr" using first(3) keys(2) by blast
  obtain s1 where s1: "s1 \<in> set scoops" "page_align (sc_start s1) \<le> ls_start_page (hd segs)"
    using first(2) keys(2) by (auto simp: scoop_pages_def)
  have "page_align min_addr \<le> page_align (sc_start s1)"
    using DetectMinAddr_least(1) [OF min s1(1)] by (simp add: word_le_nat_alt unat_page_align div_le_mono)
  then have hd: "ls_start_page (hd segs) = page_align min_addr" using le s1(2) by simp
  have "pm_inuse pm a \<and> min_addr \<le> a" if "s \<in> set scoops" "scoop_has s a" for s a
    using pagemap_inuse [OF pm that] DetectMinAddr_least(1) [OF min that(1)] that(2) by (auto simp: scoop_has_def)
  then show ?thesis
    using pagemap_image [OF pm] keys(2) ok end31 first(1) hd w h by (simp add: prepared_def headers_fit_def)
qed

section \<open>The whole writer\<close>

lemma orElseR_Some: "orElseR m k = Inr (Some y) \<Longrightarrow> m = Inr (Some y) \<or> (m = Inr None \<and> k () = Inr (Some y))"
  by (cases m; cases "projr m") (auto simp: orElseR_def)

lemma placed_cases:
  assumes h: "headers_fit min_addr w" and c: "CreateNewPhdrs n ss min_addr max_addr w = Inr w'"
  obtains (gap) "CreateNewPhdrs_GapAllocate n ss min_addr max_addr w = Inr (Some w')"
    | (first) "CreateNewPhdrs_FirstPageAllocate n ss min_addr max_addr w = Inr (Some w')"
    | (pre) "CreateNewPhdrs_PreAllocate n ss min_addr max_addr w = Inr (Some w')"
        "unat (DetermineMaxPhdrSize w) + 64 \<le> 4096" "4096 \<le> min_addr"
proof -
  have D: "unat (DetermineMaxPhdrSize w) \<le> 4032" using h by (simp add: headers_fit_def word_le_nat_alt)
  consider "CreateNewPhdrs_GapAllocate n ss min_addr max_addr w = Inr (Some w')"
    | "CreateNewPhdrs_FirstPageAllocate n ss min_addr max_addr w = Inr (Some w')"
    | (pre) "CreateNewPhdrs_FirstPageAllocate n ss min_addr max_addr w = Inr None" "CreateNewPhdrs_PreAllocate n ss min_addr max_addr w = Inr (Some w')"
    using c unfolding CreateNewPhdrs_def by (auto simp: bindR_eq_Inr split: option.splits dest!: orElseR_Some)
  then show ?thesis
  proof cases
    case pre
    have "4096 \<le> min_addr"
    proof (rule ccontr)
      assume n: "\<not> 4096 \<le> min_addr"
      then have lt: "unat min_addr < 4096" by (simp add: word_le_nat_alt)
      have "page_align min_addr = 0" using lt by (simp add: word_unat_eq_iff unat_page_align)
      then have "min_addr \<le> ucast (DetermineMaxPhdrSize w) + 64"
        using pre(1) by (auto simp: CreateNewPhdrs_FirstPageAllocate_def Let_def mapR_eq_Inr split: if_splits)
      moreover have "\<not> min_addr < ucast (DetermineMaxPhdrSize w) + 64"
        using pre(2) by (auto simp: CreateNewPhdrs_PreAllocate_def Let_def split: if_splits)
      ultimately have "min_addr = ucast (DetermineMaxPhdrSize w) + 64" by simp
      then show False using h n by (simp add: headers_fit_def)
    qed
    then show ?thesis using that(3) pre(2) D by simp
  qed (use that in auto)
qed

lemma placed_loads:
  assumes p: "prepared scoops min_addr w" and h: "headers_fit min_addr w" and mx: "unat max_addr < 2 ^ 31"
    and c: "CreateNewPhdrs n ss min_addr max_addr w = Inr w'"
    and wr: "written w' f" and s: "s \<in> set scoops" "scoop_has s a"
  shows "elf_load f a = Inr (Some (image_byte scoops a))"
  using h c
proof (cases rule: placed_cases)
  case gap
  then show ?thesis using gap_allocate_loads [OF p _ mx _ wr s] h by (simp add: headers_fit_def)
next
  case first
  then show ?thesis by (rule first_page_loads [OF p _ wr s])
next
  case pre
  then show ?thesis by (rule pre_allocate_loads [OF p _ _ _ wr s])
qed

lemma placed_file_ok:
  assumes p: "prepared scoops min_addr w" and h: "headers_fit min_addr w" and mx: "unat max_addr < 2 ^ 31"
    and c: "CreateNewPhdrs n ss min_addr max_addr w = Inr w'"
  shows "file_ok w'"
  using h c
proof (cases rule: placed_cases)
  case gap
  then show ?thesis using gap_file_ok [OF p _ mx] h by (simp add: headers_fit_def)
next
  case first
  then show ?thesis by (rule first_page_file_ok [OF p])
next
  case pre
  then show ?thesis by (rule pre_allocate_file_ok [OF p])
qed

text \<open>The checks on an input, as far as the writer has to have run for them.\<close>

definition elf_input_ok :: "nat \<Rightarrow> bool \<Rightarrow> scoop list \<Rightarrow> out_file \<Rightarrow> bool" where
  "elf_input_ok n opts scoops fin \<longleftrightarrow> scoops_fit scoops \<and>
     (case bindR (CreatePagemap n scoops []) (\<lambda>pm. bindR (CreateSegmap opts pm) (\<lambda>segs. bindR (DetectMinAddr scoops) (\<lambda>min_addr.
        bindR (LoadEhdr fin (empty_writer\<lparr>ew_pagemap := pm, ew_segvec := segs\<rparr>)) (\<lambda>w. bindR (LoadPhdrs fin w) (\<lambda>w. Inr (min_addr, w)))))) of
        Inl e \<Rightarrow> False
      | Inr (min_addr, w) \<Rightarrow> headers_fit min_addr w)"

lemma LoadEhdr_frame:
  assumes "LoadEhdr fin w = Inr w1"
  shows "ew_pagemap w1 = ew_pagemap w" "ew_segvec w1 = ew_segvec w" "ew_new_phdrs w1 = ew_new_phdrs w"
    "length (e_ident (ew_ehdr w1)) = 16" "e_ident (ew_ehdr w1) ! 5 = 1 \<or> e_ident (ew_ehdr w1) ! 5 = 2"
proof -
  obtain bs e where b: "fread_at 0 64 fin = Inr bs" "ehdr_to_host (ehdr_of_bytes bs) = Inr e" "w1 = w\<lparr>ew_ehdr := e\<rparr>"
    using assms by (auto simp: LoadEhdr_def bindR_eq_Inr)
  have "length bs = 64" using b(1) by (auto simp: fread_at_def assertR_eq_Inr)
  then have "length (e_ident (ehdr_of_bytes bs :: 64 ehdr)) = 16" by (simp add: ehdr_of_bytes_def Let_def)
  then show "ew_pagemap w1 = ew_pagemap w" "ew_segvec w1 = ew_segvec w" "ew_new_phdrs w1 = ew_new_phdrs w"
    "length (e_ident (ew_ehdr w1)) = 16" "e_ident (ew_ehdr w1) ! 5 = 1 \<or> e_ident (ew_ehdr w1) ! 5 = 2"
    using b(2,3) by (auto simp: ehdr_to_host_def at_width_def ehdr_with_def split: if_splits)
qed

lemma LoadPhdrs_frame: "LoadPhdrs fin w = Inr w1 \<Longrightarrow> \<exists>ps. w1 = w\<lparr>ew_phdrs := ps\<rparr>"
  by (auto simp: LoadPhdrs_def bindR_eq_Inr)

lemma write_pages_returns:
  assumes "page_addr (p_filesz p)" "m * 4096 \<le> unat (p_filesz p)"
  shows "\<exists>f'. foldR (write_page sections pm p) (map (\<lambda>i. i * PAGE_SIZE) [0..<m]) f = Inr f'"
  using assms(2)
proof (induction m)
  case (Suc m)
  then obtain g where "foldR (write_page sections pm p) (map (\<lambda>i. i * PAGE_SIZE) [0..<m]) f = Inr g" by auto
  then show ?case using write_page_full [OF assms(1), of m sections pm g] Suc.prems by (simp add: foldR_append PAGE_SIZE_def)
qed simp

lemma write_segment_returns:
  assumes "p_type p = PT_LOAD \<longrightarrow> page_addr (p_filesz p) \<and> unat (p_filesz p) < 2 ^ 32"
  shows "\<exists>f'. write_segment sections pm p f = Inr f'"
proof (cases "p_type p = PT_LOAD")
  case True
  then have a: "page_addr (p_filesz p)" "unat (p_filesz p) < 2 ^ 32" using assms by simp_all
  obtain m where m: "unat (p_filesz p) = 4096 * m" using a(1) by (rule page_addrE)
  then have le: "\<not> 0xfffff000 < p_filesz p" using a(2) by (simp add: word_less_nat_alt)
  have "page_starts (unat (p_filesz p)) = map (\<lambda>i. i * PAGE_SIZE) [0..<m]" using m by (simp add: page_starts_def PAGE_SIZE_def)
  then show ?thesis using write_pages_returns [OF a(1), of m sections pm f] le m by (simp add: write_segment_def)
qed (simp add: write_segment_def)

lemma foldR_returns:
  assumes "\<And>x s. x \<in> set xs \<Longrightarrow> \<exists>s'. f x s = Inr s'"
  shows "\<exists>s'. foldR f xs s = Inr s'"
  using assms
proof (induction xs arbitrary: s)
  case (Cons x xs)
  then obtain t where "f x s = Inr t" by (meson list.set_intros(1))
  then show ?case using Cons by simp
qed simp

lemma WriteElf_returns:
  assumes "file_ok w"
  shows "\<exists>f. WriteElf sections w = Inr f"
proof -
  let ?f0 = "\<lparr>fl_size = 0, fl_data = (\<lambda>_. 0)\<rparr>"
  have "\<exists>g. foldR (write_segment sections (ew_pagemap w)) (ew_new_phdrs w) ?f0 = Inr g"
    using assms by (intro foldR_returns write_segment_returns) (auto simp: file_ok_def loads_of_def)
  then obtain g where g: "foldR (write_segment sections (ew_pagemap w)) (ew_new_phdrs w) ?f0 = Inr g" by blast
  obtain e where e: "host_to_ehdr (ew_new_ehdr w) = Inr e"
    using assms by (auto simp: file_ok_def host_to_ehdr_def at_width_def ehdr_with_def)
  have "\<exists>f'. write_phdr (ew_ehdr w) ip f = Inr f'" for ip f
    using assms by (auto simp: file_ok_def write_phdr_Inr host_to_phdr_def at_width_def phdr_with_def)
  then show ?thesis using g e by (auto simp: WriteElf_def intro!: foldR_returns)
qed

definition elf_placed :: "nat \<Rightarrow> bool \<Rightarrow> scoop list \<Rightarrow> out_file \<Rightarrow> elf_writer \<Rightarrow> elf_writer result" where
  "elf_placed n bss_opts scoops fin w =
     bindR (CreatePagemap n scoops (ew_pagemap w)) (\<lambda>pm.
     bindR (CreateSegmap bss_opts pm) (\<lambda>segs.
     bindR (DetectMinAddr scoops) (\<lambda>min_addr.
     bindR (DetectMaxAddr scoops) (\<lambda>max_addr.
     bindR (LoadEhdr fin (w\<lparr>ew_pagemap := pm, ew_segvec := ew_segvec w @ segs\<rparr>)) (\<lambda>w.
     bindR (LoadPhdrs fin w) (\<lambda>w.
     CreateNewPhdrs n scoops min_addr max_addr w))))))"

lemma ElfWriter_Write_placed:
  "ElfWriter_Write n sections opts scoops funcs im len fin w = bindR (elf_placed n opts scoops fin w) (\<lambda>w.
     bindR (WriteElf sections w) (\<lambda>f. if sections then AddSections scoops funcs im len w f else Inr f))"
  by (simp add: ElfWriter_Write_def elf_placed_def bindR_assoc)

text \<open>The sections go behind what is there.\<close>

definition file_grown :: "out_file \<Rightarrow> out_file \<Rightarrow> bool" where
  "file_grown f g \<longleftrightarrow> fl_size f \<le> fl_size g \<and> (\<forall>k<fl_size f. fl_data g k = fl_data f k)"

lemma file_grown_trans: "file_grown f g \<Longrightarrow> file_grown g h \<Longrightarrow> file_grown f h"
  by (auto simp: file_grown_def)

lemma file_grown_fwrite: "file_grown f g \<Longrightarrow> file_grown f (fwrite_at (fl_size g) bs g)"
  by (auto simp: file_grown_def fwrite_at_def)

lemma file_grown_shdrs:
  assumes "foldR (write_shdr e) hs g = Inr h" "file_grown f g"
  shows "file_grown f h"
  by (rule foldR_preserves [where P = "file_grown f", OF _ assms(2,1)]) (auto simp: write_shdr_def bindR_eq_Inr intro: file_grown_fwrite)

lemma AddSections_file_grown:
  assumes "AddSections scoops funcs im len w g = Inr f"
  obtains f2 e n i pos where "file_grown g f2" "f = fwrite_at 0 (ehdr_bytes e) f2"
    "host_to_ehdr ((ew_new_ehdr w)\<lparr>e_shentsize := 64, e_shnum := n, e_shstrndx := i, e_shoff := pos\<rparr>) = Inr e"
proof -
  have 0: "file_grown g g" by (simp add: file_grown_def)
  show ?thesis
    using assms
    by (auto simp: AddSections_def Let_def bindR_eq_Inr add_symtab_def split: if_splits intro!: that dest!: file_grown_shdrs
        intro: 0 file_grown_fwrite)
qed

lemma load_phdrs_file_grown:
  assumes g: "file_grown g f2" and f: "\<forall>k\<ge>64. fl_data f k = fl_data f2 k" "fl_size f2 \<le> fl_size f"
    and e: "e_phoff e' = e_phoff e" "e_ident e' = e_ident e" "64 \<le> unat (e_phoff e)"
    and l: "foldR (load_phdr e g) is ps = Inr ps'"
  shows "foldR (load_phdr e' f) is ps = Inr ps'"
  using l
proof (induction "is" arbitrary: ps)
  case (Cons i "is")
  let ?o = "unat (e_phoff e) + 56 * i"
  from Cons.prems obtain q where q: "load_phdr e g i ps = Inr q" "foldR (load_phdr e g) is q = Inr ps'"
    by (auto simp: bindR_eq_Inr)
  then have "?o + 56 \<le> fl_size g" by (auto simp: load_phdr_def fread_at_def bindR_eq_Inr assertR_eq_Inr)
  then have "fread_at ?o 56 f = fread_at ?o 56 g"
    using g f e(3) by (auto simp: fread_at_def file_grown_def)
  then have "load_phdr e' f i ps = Inr q"
    using q(1) by (simp add: load_phdr_def e host_to_phdr_ident(2) [OF e(2)])
  then show ?case using Cons.IH [OF q(2)] by simp
qed simp

lemma AddSections_written:
  assumes ok: "file_ok w" and g: "WriteElf sections w = Inr g" and a: "AddSections scoops funcs im len w g = Inr f"
  shows "written w f"
proof -
  obtain f2 e n i pos where f2: "file_grown g f2" "f = fwrite_at 0 (ehdr_bytes e) f2"
      "host_to_ehdr ((ew_new_ehdr w)\<lparr>e_shentsize := 64, e_shnum := n, e_shstrndx := i, e_shoff := pos\<rparr>) = Inr e"
    by (rule AddSections_file_grown [OF a])
  let ?E = "(ew_new_ehdr w)\<lparr>e_shentsize := 64, e_shnum := n, e_shstrndx := i, e_shoff := pos\<rparr>"
  have id: "e_ident (ew_new_ehdr w) ! 5 = 1 \<or> e_ident (ew_new_ehdr w) ! 5 = 2" "length (e_ident (ew_new_ehdr w)) = 16"
      "e_ident (ew_ehdr w) = e_ident (ew_new_ehdr w)" and off: "64 \<le> unat (e_phoff (ew_new_ehdr w))"
      "unat (e_phnum (ew_new_ehdr w)) = length (ew_new_phdrs w)"
    using ok by (simp_all add: file_ok_def)
  define e1 where "e1 = (if e_ident ?E ! 5 = 1 then ?E else ?E\<lparr>e_ehsize := 0\<rparr>)"
  have ei: "e_ident e = e_ident ?E" by (rule host_to_ehdr_ident [OF f2(3)])
  have l: "length (ehdr_bytes e) = 64" using ei id(2) by (simp add: length_ehdr_bytes)
  have "fl_size f2 \<le> fl_size f" "64 \<le> fl_size f" using l by (auto simp: f2(2) fwrite_at_def)
  moreover have D: "\<forall>k\<ge>64. fl_data f k = fl_data f2 k" using l by (simp add: f2(2) fwrite_at_def)
  moreover have "ehdr_bytes e \<noteq> []" using l by auto
  then have "fread_at 0 64 f = Inr (ehdr_bytes e)"
    using fread_at_bytes [of 0 "ehdr_bytes e" f] l by (simp add: f2(2) fwrite_at_def)
  moreover have "ehdr_of_bytes (ehdr_bytes e) = e" using ehdr_bytes_64(2) [of e "[]"] ei id(2) by simp
  moreover have "ehdr_to_host e = Inr e1" using ehdr_roundtrip(2) [of ?E] id(1) f2(3) by (simp add: e1_def)
  ultimately have E: "LoadEhdr f empty_writer = Inr (empty_writer\<lparr>ew_ehdr := e1\<rparr>)" and sz: "fl_size f2 \<le> fl_size f"
    by (simp_all add: LoadEhdr_def)
  define e0 where "e0 = (if e_ident (ew_ehdr w) ! 5 = 1 then ew_new_ehdr w else (ew_new_ehdr w)\<lparr>e_ehsize := 0\<rparr>)"
  have rb: "bindR (LoadEhdr g empty_writer) (LoadPhdrs g) = Inr (empty_writer\<lparr>ew_ehdr := e0, ew_phdrs := ew_new_phdrs w\<rparr>)"
    unfolding e0_def by (rule WriteElf_read_back [OF g id(2,3) _ off]) (use id in simp)
  then obtain w0 where w0: "LoadEhdr g empty_writer = Inr w0" "LoadPhdrs g w0 = Inr (empty_writer\<lparr>ew_ehdr := e0, ew_phdrs := ew_new_phdrs w\<rparr>)"
    by (auto simp: bindR_eq_Inr)
  then have l0: "foldR (load_phdr (ew_ehdr w0) g) [0..<unat (e_phnum (ew_ehdr w0))] [] = Inr (ew_new_phdrs w)" "ew_ehdr w0 = e0"
    by (auto simp: LoadPhdrs_def bindR_eq_Inr dest: arg_cong [where f = ew_phdrs] arg_cong [where f = ew_ehdr])
  have "foldR (load_phdr e1 f) [0..<unat (e_phnum e1)] [] = Inr (ew_new_phdrs w)"
    by (rule load_phdrs_file_grown [OF f2(1) D sz, of e1 e0]) (use l0 off id in \<open>auto simp: e1_def e0_def\<close>)
  then have "read_phdrs f = read_phdrs g" by (simp add: read_phdrs_def rb E LoadPhdrs_def mapR_def)
  moreover have "\<forall>k. 64 \<le> k \<and> k < fl_size g \<longrightarrow> fl_data f k = fl_data g k" using D f2(1) by (simp add: file_grown_def)
  ultimately show ?thesis using g unfolding written_def by blast
qed

lemma elf_placed_prepared:
  assumes pl: "elf_placed n opts scoops fin empty_writer = Inr w'" and ok: "elf_input_ok n opts scoops fin"
  obtains min_addr max_addr w where "prepared scoops min_addr w" "headers_fit min_addr w" "unat max_addr < 2 ^ 31"
    "CreateNewPhdrs n scoops min_addr max_addr w = Inr w'"
proof -
  obtain pm segs min_addr max_addr w1 w where pm: "CreatePagemap n scoops [] = Inr pm"
    and segs: "CreateSegmap opts pm = Inr segs" and min: "DetectMinAddr scoops = Inr min_addr"
    and mx: "DetectMaxAddr scoops = Inr max_addr"
    and w1: "LoadEhdr fin (empty_writer\<lparr>ew_pagemap := pm, ew_segvec := segs\<rparr>) = Inr w1" and w: "LoadPhdrs fin w1 = Inr w"
    and c: "CreateNewPhdrs n scoops min_addr max_addr w = Inr w'"
    using pl by (auto simp: elf_placed_def bindR_eq_Inr empty_writer_def)
  have ok: "scoops_fit scoops" "headers_fit min_addr w"
    using ok by (simp_all add: elf_input_ok_def pm segs min w1 w)
  note fr = LoadEhdr_frame [OF w1]
  have p: "prepared scoops min_addr w"
    using LoadPhdrs_frame [OF w] fr by (intro prepared_Write [OF pm segs min ok(1) _ _ _ _ _ ok(2)]) (auto simp: empty_writer_def)
  have "unat max_addr < 2 ^ 31"
    using DetectMaxAddr_in [OF mx] ok(1) by (fastforce simp: scoops_fit_def list_all_iff word_less_nat_alt)
  then show ?thesis by (rule that [OF p ok(2) _ c])
qed


section \<open>An example\<close>

text \<open>A program of one region, an input without program headers; the headers go on a page in front.\<close>

definition example_text :: scoop where
  "example_text = \<lparr>sc_name = ''.text'', sc_start = 0x400000, sc_end = 0x400003, sc_perms = 5, sc_relro = False,
     sc_contents = [0x55, 0x90, 0x5d, 0xc3], sc_registered = True\<rparr>"

definition example_input :: out_file where
  "example_input = \<lparr>fl_size = 64, fl_data = (\<lambda>k. if k = 5 then 1 else 0)\<rparr>"

definition example_seg :: load_segment where
  "example_seg = \<lparr>ls_filesz = 4096, ls_memsz = 4096, ls_filepos = 0, ls_start_page = 0x400000, ls_perms = 5\<rparr>"

definition example_pagemap :: pagemap where
  "example_pagemap = [(0x400000, fill_page example_text 0x400000 new_page)]"

lemma example_pages: "CreatePagemap (Suc (Suc 0)) [example_text] [] = Inr example_pagemap"
  by (simp add: example_pagemap_def CreatePagemap_def map_scoop_def example_text_def page_align_def pm_update_def pm_at_def)

lemma example_segs: "CreateSegmap False example_pagemap = Inr [example_seg]"
  by (simp add: example_pagemap_def CreateSegmap_def Let_def should_bss_optimize_def mk_segment_def example_seg_def fill_page_def
      union_permissions_def new_page_def example_text_def)

lemma example_load:
  "\<exists>e. bindR (LoadEhdr example_input w) (LoadPhdrs example_input) = Inr (w\<lparr>ew_ehdr := e, ew_phdrs := []\<rparr>)"
proof -
  define bs where "bs = map (fl_data example_input) [0..<64]"
  have rd: "fread_at 0 64 example_input = Inr bs" by (simp add: fread_at_def bs_def example_input_def)
  have "e_ident (ehdr_of_bytes bs :: 64 ehdr) ! 5 = 1"
    by (simp add: ehdr_of_bytes_def Let_def bs_def example_input_def)
  moreover have "e_phnum (ehdr_of_bytes bs :: 64 ehdr) = 0"
    by (simp add: ehdr_of_bytes_def Let_def field_def of_bytes_def bs_def example_input_def drop_map take_map upt_rec)
  ultimately obtain e where "ehdr_to_host (ehdr_of_bytes bs) = Inr (e :: 64 ehdr)" "e_phnum e = 0"
    by (simp add: ehdr_to_host_def at_width_def ehdr_with_def)
  then show ?thesis using rd by (auto simp: LoadEhdr_def LoadPhdrs_def)
qed

lemma example_fits:
  assumes "ew_segvec w = [example_seg]" "ew_phdrs w = []"
  shows "headers_fit 0x400000 w" "DetermineMaxPhdrSize w = 224"
  using assms by (simp_all add: headers_fit_def bss_writable_def example_seg_def few_headers_def DetermineMaxPhdrSize_def)

lemma update_sections_none:
  assumes "\<forall>p\<in>set ps. map_of pt_type_to_sec_name (p_type p) = None"
  shows "update_phdr_for_scoop_sections scoops ps = Inr ps"
proof -
  have "foldR (update_phdr scoops) ks ps = Inr ps" if "\<forall>k\<in>set ks. k < length ps" for ks
    using that assms by (induction ks) (auto simp: update_phdr_def)
  then show ?thesis by (simp add: update_phdr_for_scoop_sections_def)
qed

lemma example_internal:
  assumes "ew_segvec w = [example_seg]" "ew_phdrs w = []" "ew_new_phdrs w = []"
  shows "\<exists>w'. CreateNewPhdrs_internal (Suc (Suc 0)) [example_text] 4096 True 64 0x3ff040 w = Inr w'"
proof -
  have no: "map_of pt_type_to_sec_name PT_LOAD = None" "map_of pt_type_to_sec_name PT_PHDR = None"
    by (simp_all add: pt_type_to_sec_name_def PT_LOAD_def PT_PHDR_def PT_INTERP_def PT_DYNAMIC_def PT_NOTE_def PT_GNU_EH_FRAME_def)
  define loads where "loads = load_phdrs 4096 [example_seg]"
  define h where "h = header_phdr loads 0x3ff040"
  have ll: "\<forall>p\<in>set loads. p_type p = PT_LOAD" "length loads = 1" by (simp_all add: loads_def)
  have h: "p_type h = PT_LOAD" "p_vaddr h = 0x3ff000" "p_memsz h = 4096"
    by (simp_all add: h_def header_phdr_def Let_def page_align_def ll elf_round_up_def)
  have "header_pages (Suc (Suc 0)) h (page_align (p_vaddr h)) (ew_pagemap w) = Inr (pm_update 0x3ff000 (header_page h 0x3ff000) (ew_pagemap w))"
    by (simp add: h page_align_def)
  moreover have "\<forall>p\<in>set (phdr_phdr (h # loads) 64 0x3ff040 # h # loads). map_of pt_type_to_sec_name (p_type p) = None"
    using ll(1) h(1) no by (auto simp: phdr_phdr_def Let_def)
  ultimately show ?thesis
    using assms update_sections_none
    by (simp add: CreateNewPhdrs_internal_def Let_def kept_phdrs_def flip: loads_def h_def del: header_pages.simps load_phdrs.simps)
qed

lemma example_placed: "\<exists>w'. elf_placed (Suc (Suc 0)) False [example_text] example_input empty_writer = Inr w'"
proof -
  obtain e where ld: "bindR (LoadEhdr example_input (empty_writer\<lparr>ew_pagemap := example_pagemap, ew_segvec := [example_seg]\<rparr>)) (LoadPhdrs example_input) =
      Inr (empty_writer\<lparr>ew_pagemap := example_pagemap, ew_segvec := [example_seg], ew_ehdr := e, ew_phdrs := []\<rparr>)"
    using example_load by blast
  let ?w = "empty_writer\<lparr>ew_pagemap := example_pagemap, ew_segvec := [example_seg], ew_ehdr := e, ew_phdrs := []\<rparr>"
  have w: "ew_segvec ?w = [example_seg]" "ew_phdrs ?w = []" "ew_new_phdrs ?w = []" by (simp_all add: empty_writer_def)
  obtain w' where "CreateNewPhdrs_internal (Suc (Suc 0)) [example_text] 4096 True 64 0x3ff040 ?w = Inr w'"
    using example_internal [OF w] by blast
  then have "CreateNewPhdrs (Suc (Suc 0)) [example_text] 0x400000 0x400003 ?w = Inr w'"
    by (simp add: CreateNewPhdrs_def orElseR_def CreateNewPhdrs_GapAllocate_def CreateNewPhdrs_FirstPageAllocate_def
        CreateNewPhdrs_PreAllocate_def example_fits(2) [OF w(1,2)] Let_def page_align_def elf_round_up_def mapR_def)
  moreover have "DetectMinAddr [example_text] = Inr 0x400000" "DetectMaxAddr [example_text] = Inr 0x400003"
    by (simp_all add: DetectMinAddr_def DetectMaxAddr_def example_text_def)
  moreover have "ew_pagemap empty_writer = []" "ew_segvec empty_writer = []" by (simp_all add: empty_writer_def)
  ultimately show ?thesis
    using ld by (auto simp: elf_placed_def example_pages example_segs bindR_eq_Inr)
qed

lemma example_input_ok: "elf_input_ok (Suc (Suc 0)) False [example_text] example_input"
proof -
  obtain e where ld: "bindR (LoadEhdr example_input (empty_writer\<lparr>ew_pagemap := example_pagemap, ew_segvec := [example_seg]\<rparr>)) (LoadPhdrs example_input) =
      Inr (empty_writer\<lparr>ew_pagemap := example_pagemap, ew_segvec := [example_seg], ew_ehdr := e, ew_phdrs := []\<rparr>)"
    using example_load by blast
  have "scoops_fit [example_text]" by (simp add: scoops_fit_def example_text_def)
  moreover have "DetectMinAddr [example_text] = Inr 0x400000" by (simp add: DetectMinAddr_def example_text_def)
  ultimately show ?thesis
    using ld example_fits(1) by (auto simp: elf_input_ok_def example_pages example_segs bindR_eq_Inr)
qed


text \<open>C10: The pages that are made of the regions hold their bytes; the segments are runs of pages with
  the same permissions, in order, that do not overlap and leave out of the file nothing but
  zeros; and every byte of a region is in one of them. The regions have to lie below 4 GB, since
  the constructor of a segment takes 32-bit numbers.
\<close>

theorem segments_cover:
  assumes "CreatePagemap n scoops [] = Inr pm" "CreateSegmap opts pm = Inr segs" "\<forall>s\<in>set scoops. sc_end s < 0xfffff000"
  shows "(\<forall>a. pm_byte pm a = image_byte scoops a) \<and> segs_ok pm segs \<and>
    (\<forall>s\<in>set scoops. \<forall>a. scoop_has s a \<longrightarrow> (\<exists>g\<in>set segs. seg_has g a))"
proof -
  have "pm_wf []" by (simp add: pm_wf_def)
  note keys = pagemap_keys [OF assms(1) this]
  have "unat i + 4096 < 2 ^ 32" if i: "i \<in> fst ` set pm" for i
  proof -
    have "i \<in> scoop_pages scoops" using i keys by simp
    then obtain s where "s \<in> set scoops" "i \<le> sc_end s" by (auto simp: scoop_pages_def)
    then have "i < 0xfffff000" using assms(3) by (auto intro: order_le_less_trans)
    then show ?thesis by (simp add: word_less_nat_alt)
  qed
  then have ok: "segs_ok pm segs" using segmap_ok [OF assms(2)] keys by blast
  have "\<exists>g\<in>set segs. seg_has g a" if a: "s \<in> set scoops" "scoop_has s a" for s a
  proof -
    have "page_align a \<in> fst ` set pm" using scoop_has_page [OF a] keys by simp
    then obtain g where g: "g \<in> set segs" "seg_has g (page_align a)" using ok by (auto simp: segs_ok_def)
    then have "seg_ok pm g" using ok by (simp add: segs_ok_def)
    then show ?thesis using seg_has_page [of g a] g by (auto simp: seg_ok_def)
  qed
  then show ?thesis using pagemap_image [OF assms(1)] ok by simp
qed

theorem segments_cover_witness: "\<exists>g\<in>set [example_seg]. seg_has g 0x400003"
proof -
  have "scoop_has example_text 0x400003" by (simp add: scoop_has_def example_text_def)
  then show ?thesis using segments_cover [OF example_pages example_segs] by (simp add: example_text_def)
qed

section \<open>Where the writer goes wrong\<close>

text \<open>Addresses above 4 GB lose their upper half in a segment.\<close>

lemma segment_start_truncated: "ls_start_page (mk_segment filesz memsz 0 0x140000000 perms) = 0x40000000"
  by (simp add: mk_segment_def Let_def)

text \<open>
  Headers that end exactly where the program starts, in the first page of the address space: the
  first page is refused, though they fit, and the page in front of it is the last one of all.
\<close>

lemma preallocate_wraps:
  assumes "min_addr = ucast (DetermineMaxPhdrSize w) + 64" "min_addr < 4096"
  shows "CreateNewPhdrs_FirstPageAllocate n ss min_addr max_addr w = Inr None"
    "CreateNewPhdrs_PreAllocate n ss min_addr max_addr w =
       mapR Some (CreateNewPhdrs_internal n ss (ucast (elf_round_up (ucast (DetermineMaxPhdrSize w)))) True 64 (- 4032) w)"
proof -
  have z: "page_align min_addr = 0"
    using assms(2) by (simp add: word_unat_eq_iff unat_page_align word_less_nat_alt)
  show "CreateNewPhdrs_FirstPageAllocate n ss min_addr max_addr w = Inr None"
    by (simp add: CreateNewPhdrs_FirstPageAllocate_def Let_def z) (simp add: assms(1))
  show "CreateNewPhdrs_PreAllocate n ss min_addr max_addr w =
       mapR Some (CreateNewPhdrs_internal n ss (ucast (elf_round_up (ucast (DetermineMaxPhdrSize w)))) True 64 (- 4032) w)"
    by (simp add: CreateNewPhdrs_PreAllocate_def Let_def z) (simp add: assms(1))
qed

text \<open>The page in front of the program is one page, also for headers that need more.\<close>

lemma preallocate_one_page:
  assumes "4096 < (length ps + 1) * 56" "(length ps + 1) * 56 < 2 ^ 32"
  shows "8192 \<le> unat (p_filesz (header_phdr ps na))"
proof -
  have "unat (of_nat ((length ps + 1) * 56) :: addr) = (length ps + 1) * 56" using assms(2) by (intro unat_of_nat_64) simp
  moreover have "2 \<le> ((length ps + 1) * 56 + 4095) div 4096" using assms(1) by linarith
  ultimately show ?thesis using assms(2) unat_elf_round_up [of "of_nat ((length ps + 1) * 56)"] by (simp add: header_phdr_def Let_def)
qed

text \<open>The segment that gets the headers keeps its permissions, readable or not.\<close>

lemma gap_permissions_kept: "ls_perms (extend_segment m s) = ls_perms s"
  by (simp add: extend_segment_def)

end
