(* ===== verification/Zipr_ElfSyms.thy ===== *)
theory Zipr_ElfSyms
  imports Zipr_ElfSections "HOL-Library.Multiset"
begin

text \<open>
  The symbols of a function: the sweep over the ends of its instructions finds the runs of
  addresses they cover. The string table: each name is at its location.
\<close>

section \<open>The sweep\<close>

text \<open>Never more ends than beginnings, and as many in the end.\<close>

fun balanced :: "int \<Rightarrow> (addr \<times> int) list \<Rightarrow> bool" where
  "balanced acc [] \<longleftrightarrow> acc = 0"
| "balanced acc ((pos, d) # evs) \<longleftrightarrow> (d = - 1 \<or> d = 1) \<and> acc + d \<le> 0 \<and> balanced (acc + d) evs"

definition weight :: "((addr \<times> int) \<Rightarrow> bool) \<Rightarrow> (addr \<times> int) list \<Rightarrow> int" where
  "weight P evs = sum_list (map snd (List.filter P evs))"

lemma weight_simps [simp]:
  "weight P [] = 0" "weight P (e # evs) = (if P e then snd e else 0) + weight P evs"
  "weight P (xs @ ys) = weight P xs + weight P ys"
  by (simp_all add: weight_def)

lemma weight_mset: "mset xs = mset ys \<Longrightarrow> weight P xs = weight P ys"
  unfolding weight_def by (metis mset_filter mset_map sum_mset_sum_list)

lemma weight_none: "\<forall>e\<in>set evs. \<not> P e \<Longrightarrow> weight P evs = 0"
  by (induction evs) auto

lemma weight_le:
  assumes "\<forall>e\<in>set evs. (P e \<and> \<not> Q e \<longrightarrow> snd e \<le> 0) \<and> (Q e \<and> \<not> P e \<longrightarrow> 0 \<le> snd e)"
  shows "weight P evs \<le> weight Q evs"
  using assms
proof (induction evs)
  case (Cons e evs)
  then have "weight P evs \<le> weight Q evs" by simp
  then show ?case using Cons.prems by auto
qed simp

definition in_range :: "addr \<Rightarrow> addr \<times> addr \<Rightarrow> bool" where
  "in_range x r \<longleftrightarrow> fst r \<le> x \<and> x < snd r"

lemma sweep_covers:
  assumes "sorted_wrt event_less_eq evs" "acc \<le> 0" "balanced acc evs" "acc \<noteq> 0 \<longrightarrow> (\<forall>e\<in>set evs. start \<le> fst e)"
  shows "(\<exists>r\<in>set (sweep acc start evs). in_range x r) \<longleftrightarrow>
    (acc \<noteq> 0 \<longrightarrow> start \<le> x) \<and> acc + weight (\<lambda>e. fst e \<le> x) evs < 0"
  using assms
proof (induction acc start evs rule: sweep.induct)
  case (2 acc start pos d evs)
  define s a where "s = (if acc = 0 then pos else start)" and "a = acc + d"
  have later: "\<forall>e\<in>set evs. pos \<le> fst e" using 2(3) by (auto simp: event_less_eq_def)
  have le: "s \<le> pos" using 2(6) by (simp add: s_def)
  then have "\<forall>e\<in>set evs. s \<le> fst e" using later by (auto intro: order_trans)
  then have IH: "(\<exists>r\<in>set (sweep a s evs). in_range x r) \<longleftrightarrow> (a \<noteq> 0 \<longrightarrow> s \<le> x) \<and> a + weight (\<lambda>e. fst e \<le> x) evs < 0"
    using 2(1,2) [OF s_def a_def] 2(3-5) by (cases "a = 0") (simp_all add: a_def)
  have sw: "sweep acc start ((pos, d) # evs) = (if a = 0 then (s, pos) # sweep a s evs else sweep a s evs)"
    by (simp add: Let_def s_def a_def)
  show ?case
  proof (cases "x < pos")
    case True
    then have "weight (\<lambda>e. fst e \<le> x) evs = 0" using later by (intro weight_none) auto
    then show ?thesis unfolding sw using True IH 2(4,5) by (auto simp: in_range_def s_def a_def split: if_splits)
  next
    case False
    then show ?thesis unfolding sw using IH le 2(6) by (auto simp: in_range_def s_def a_def split: if_splits)
  qed
qed simp

lemma sweep_apart:
  assumes "sorted_wrt event_less_eq evs" "acc \<le> 0" "balanced acc evs"
  shows "sorted_wrt (\<lambda>r r'. snd r < fst r') (sweep acc start evs) \<and>
    (\<forall>r\<in>set (sweep acc start evs). (acc \<noteq> 0 \<and> fst r = start) \<or> (\<exists>e\<in>set evs. snd e = - 1 \<and> fst e = fst r))"
  using assms
proof (induction acc start evs rule: sweep.induct)
  case (2 acc start pos d evs)
  define s a where "s = (if acc = 0 then pos else start)" and "a = acc + d"
  have IH: "sorted_wrt (\<lambda>r r'. snd r < fst r') (sweep a s evs) \<and>
    (\<forall>r\<in>set (sweep a s evs). (a \<noteq> 0 \<and> fst r = s) \<or> (\<exists>e\<in>set evs. snd e = - 1 \<and> fst e = fst r))"
    using 2(1,2) [OF s_def a_def] 2(3-5) by (cases "a = 0") (simp_all add: a_def)
  have d: "acc = 0 \<Longrightarrow> d = - 1" using 2(4,5) by auto
  have lt: "pos < fst e" if "e \<in> set evs" "snd e = - 1" "a = 0" for e
    using that 2(3-5) by (fastforce simp: event_less_eq_def a_def)
  have sw: "sweep acc start ((pos, d) # evs) = (if a = 0 then (s, pos) # sweep a s evs else sweep a s evs)"
    by (simp add: Let_def s_def a_def)
  have "pos < fst r" if "r \<in> set (sweep a s evs)" "a = 0" for r
    using IH that lt by metis
  then have "sorted_wrt (\<lambda>r r'. snd r < fst r') (sweep acc start ((pos, d) # evs))"
    using IH unfolding sw by (cases "a = 0") simp_all
  moreover have "(acc \<noteq> 0 \<and> fst r = start) \<or> (\<exists>e\<in>set ((pos, d) # evs). snd e = - 1 \<and> fst e = fst r)"
    if r: "r \<in> set (sweep acc start ((pos, d) # evs))" for r
  proof (cases "fst r = s")
    case True
    then show ?thesis using d by (cases "acc = 0") (simp_all add: s_def)
  next
    case False
    then have "r \<in> set (sweep a s evs)" using r unfolding sw by (auto split: if_splits)
    then show ?thesis using IH False by auto
  qed
  ultimately show ?case by blast
qed simp

section \<open>The events of a function\<close>

lemma event_order:
  "event_less_eq x x" "event_less_eq x y \<or> event_less_eq y x"
  "event_less_eq x y \<Longrightarrow> event_less_eq y z \<Longrightarrow> event_less_eq x z" "event_less_eq x y \<Longrightarrow> event_less_eq y x \<Longrightarrow> x = y"
  by (auto simp: event_less_eq_def intro: prod_eqI)

lemma mset_insert_event: "mset (insert_event x ys) = add_mset x (mset ys)"
  by (induction x ys rule: insert_event.induct) auto

lemma sorted_insert_event: "sorted_wrt event_less_eq ys \<Longrightarrow> sorted_wrt event_less_eq (insert_event x ys)"
proof (induction x ys rule: insert_event.induct)
  case (2 x y ys)
  have "set (insert_event x ys) = insert x (set ys)" using arg_cong [OF mset_insert_event, of set_mset] by simp
  moreover have "\<not> event_less_eq x y \<Longrightarrow> event_less_eq y x" using event_order(2) by blast
  moreover have "event_less_eq x y \<Longrightarrow> \<forall>z\<in>set ys. event_less_eq x z" using 2(2) event_order(3) [of x y] by auto
  ultimately show ?case using 2 by (cases "event_less_eq x y") simp_all
qed simp

lemma sort_events: "mset (sort_events xs) = mset xs" "sorted_wrt event_less_eq (sort_events xs)"
  by (induction xs) (simp_all add: sort_events_def mset_insert_event sorted_insert_event)

definition placed_insns :: "(nat \<Rightarrow> addr option) \<Rightarrow> func \<Rightarrow> (nat \<times> addr) list" where
  "placed_insns im f = concat (map (\<lambda>i. case im i of None \<Rightarrow> [] | Some a \<Rightarrow> [(i, a)]) (fn_insns f))"

lemma range_events_placed:
  "range_events im len f = concat (map (\<lambda>(i, a). [(a, - 1), (a + len i, 1)]) (placed_insns im f))"
proof -
  have "concat (map (\<lambda>i. case im i of None \<Rightarrow> [] | Some a \<Rightarrow> [(a, - 1), (a + len i, 1)]) is) =
    concat (map (\<lambda>(i, a). [(a, - 1), (a + len i, 1 :: int)]) (concat (map (\<lambda>i. case im i of None \<Rightarrow> [] | Some a \<Rightarrow> [(i, a)]) is)))" for "is"
    by (induction "is") (auto split: option.splits)
  then show ?thesis by (simp add: range_events_def placed_insns_def)
qed

text \<open>An instruction lies below the end of the address space.\<close>

definition insns_fit :: "(nat \<Rightarrow> addr option) \<Rightarrow> (nat \<Rightarrow> addr) \<Rightarrow> func \<Rightarrow> bool" where
  "insns_fit im len f \<longleftrightarrow> list_all (\<lambda>(i, a). a \<le> a + len i) (placed_insns im f)"

lemma weight_events:
  assumes "\<forall>(i, a)\<in>set ps. a \<le> a + len i" "\<forall>x y. event_less_eq x y \<longrightarrow> P x \<longrightarrow> P y"
  shows "0 \<le> weight P (concat (map (\<lambda>(i, a). [(a, - 1), (a + len i, 1)]) ps))"
  using assms
proof (induction ps)
  case (Cons q ps)
  obtain i a where q: "q = (i, a)" by fastforce
  have "event_less_eq (a, - 1) (a + len i, 1)" using Cons.prems(1) le_neq_trans [of a "a + len i"] by (auto simp: event_less_eq_def q)
  then have "P (a, - 1) \<longrightarrow> P (a + len i, 1)" using Cons.prems(2) by blast
  moreover have "0 \<le> weight P (concat (map (\<lambda>(i, a). [(a, - 1), (a + len i, 1)]) ps))" using Cons by simp
  ultimately show ?case by (simp add: q)
qed simp

lemma balanced_suffix:
  assumes "\<forall>n\<le>length evs. 0 \<le> weight (\<lambda>_. True) (drop n evs)" "\<forall>e\<in>set evs. snd e = - 1 \<or> snd e = 1"
  shows "balanced (- weight (\<lambda>_. True) evs) evs"
  using assms
proof (induction evs)
  case (Cons e evs)
  obtain p d where e: "e = (p, d)" by fastforce
  have "\<forall>n\<le>length evs. 0 \<le> weight (\<lambda>_. True) (drop n evs)" using Cons.prems(1) by (metis Suc_le_mono drop_Suc_Cons length_Cons)
  then show ?case using Cons by (auto simp: e)
qed simp

lemma balanced_events:
  assumes f: "insns_fit im len f"
  shows "balanced 0 (sort_events (range_events im len f))"
proof -
  let ?evs = "sort_events (range_events im len f)"
  have signs: "\<forall>e\<in>set ?evs. snd e = - 1 \<or> snd e = 1"
    using arg_cong [OF sort_events(1), of set_mset "range_events im len f"] by (auto simp: range_events_placed)
  have up: "0 \<le> weight P ?evs" if "\<forall>x y. event_less_eq x y \<longrightarrow> P x \<longrightarrow> P y" for P
    using weight_events [OF _ that, of "placed_insns im f" len] f weight_mset [OF sort_events(1), of P "range_events im len f"]
    by (simp add: insns_fit_def list_all_iff range_events_placed case_prod_beta)
  have "0 \<le> weight (\<lambda>_. True) (drop n ?evs)" if n: "n \<le> length ?evs" for n
  proof (cases "drop n ?evs")
    case (Cons y ys)
    have app: "?evs = take n ?evs @ y # ys" using append_take_drop_id [of n ?evs] Cons by simp
    have srt: "\<forall>e\<in>set (take n ?evs). event_less_eq e y" "\<forall>e\<in>set ys. event_less_eq y e"
      using sort_events(2) [of "range_events im len f"] by (subst (asm) app, auto simp: sorted_wrt_append)+
    have ysigns: "snd y = - 1 \<or> snd y = 1" using signs app by (metis in_set_conv_decomp)
    define P where "P = (\<lambda>e. event_less_eq y e \<and> (snd y = 1 \<longrightarrow> e \<noteq> y))"
    have T: "e = y \<and> snd y = - 1" if "e \<in> set (take n ?evs)" "P e" for e
      using that srt(1) event_order(4) ysigns by (metis P_def)
    have "0 \<le> weight P ?evs" by (rule up) (unfold P_def, metis event_order(3,4))
    also have "weight P ?evs = weight P (take n ?evs) + weight P (y # ys)" by (subst app) simp
    also have "weight P (take n ?evs) \<le> weight (\<lambda>_. False) (take n ?evs)" using T by (intro weight_le) force
    also have "weight P (y # ys) \<le> weight (\<lambda>_. True) (y # ys)"
      using srt(2) event_order(1) by (intro weight_le) (auto simp: P_def)
    finally show ?thesis by (simp add: Cons weight_none)
  qed simp
  from balanced_suffix [OF _ signs] this have "balanced (- weight (\<lambda>_. True) ?evs) ?evs" by blast
  moreover have "weight (\<lambda>_. True) (concat (map (\<lambda>(i, a). [(a, - 1), (a + len i, 1)]) ps)) = 0" for ps :: "(nat \<times> addr) list"
    by (induction ps) auto
  ultimately show ?thesis by (simp add: weight_mset [OF sort_events(1)] range_events_placed)
qed

lemma weight_covering:
  assumes "\<forall>(i, a)\<in>set ps. a \<le> a + len i"
  shows "weight (\<lambda>e. fst e \<le> x) (concat (map (\<lambda>(i, a). [(a, - 1), (a + len i, 1)]) ps)) \<le> 0 \<and>
    (weight (\<lambda>e. fst e \<le> x) (concat (map (\<lambda>(i, a). [(a, - 1), (a + len i, 1)]) ps)) < 0 \<longleftrightarrow> (\<exists>(i, a)\<in>set ps. a \<le> x \<and> x < a + len i))"
  using assms
proof (induction ps)
  case (Cons q ps)
  obtain i a where q: "q = (i, a)" by fastforce
  have a: "a \<le> a + len i" using Cons.prems by (simp add: q)
  let ?W = "weight (\<lambda>e. fst e \<le> x) (concat (map (\<lambda>(i, a). [(a, - 1), (a + len i, 1)]) ps))"
  have IH: "?W \<le> 0" "?W < 0 \<longleftrightarrow> (\<exists>(i, a)\<in>set ps. a \<le> x \<and> x < a + len i)" using Cons by simp_all
  consider "x < a" | "a \<le> x" "x < a + len i" | "a + len i \<le> x" by force
  then show ?case using IH a by cases (auto simp: q)
qed simp

text \<open>C36: The symbols of a function cover the addresses of its instructions that are placed and no
  others; they are in order, and apart: adjacent instructions are under one symbol.
\<close>

theorem function_ranges_cover:
  assumes "insns_fit im len f"
  shows "((\<exists>(s, e)\<in>set (function_ranges im len f). s \<le> x \<and> x < e) \<longleftrightarrow>
      (\<exists>i\<in>set (fn_insns f). \<exists>a. im i = Some a \<and> a \<le> x \<and> x < a + len i)) \<and>
    sorted_wrt (\<lambda>r r'. snd r < fst r') (function_ranges im len f)"
proof -
  note b = balanced_events [OF assms] and s = sort_events(2) [of "range_events im len f"]
  have "(\<exists>r\<in>set (function_ranges im len f). in_range x r) \<longleftrightarrow> weight (\<lambda>e. fst e \<le> x) (range_events im len f) < 0"
    using sweep_covers [OF s _ b, of 0 x] by (simp add: function_ranges_def weight_mset [OF sort_events(1)])
  also have "\<dots> \<longleftrightarrow> (\<exists>(i, a)\<in>set (placed_insns im f). a \<le> x \<and> x < a + len i)"
    using weight_covering [of "placed_insns im f" len x] assms
    by (simp add: range_events_placed insns_fit_def list_all_iff case_prod_beta)
  also have "\<dots> \<longleftrightarrow> (\<exists>i\<in>set (fn_insns f). \<exists>a. im i = Some a \<and> a \<le> x \<and> x < a + len i)"
    by (auto simp: placed_insns_def split: option.splits; force)
  finally show ?thesis
    using sweep_apart [OF s _ b, of 0] by (simp add: function_ranges_def in_range_def case_prod_beta)
qed

theorem function_ranges_cover_witness:
  defines "f \<equiv> \<lparr>fn_name = ''main'', fn_insns = [0, 1, 2, 3]\<rparr>"
    and "im \<equiv> \<lambda>i. if i = 3 then None else Some ([0x1005, 0x1000, 0x2000] ! i)"
    and "len \<equiv> \<lambda>i. [2, 5, 1, 4] ! i"
  shows "function_ranges im len f = [(0x1000, 0x1007), (0x2000, 0x2001)] \<and>
    (\<exists>(s, e)\<in>set (function_ranges im len f). s \<le> 0x1006 \<and> 0x1006 < e)"
proof -
  have "insns_fit im len f" by (simp add: insns_fit_def placed_insns_def f_def im_def len_def)
  from function_ranges_cover [OF this, of "0x1006"]
  have "\<exists>(s, e)\<in>set (function_ranges im len f). s \<le> 0x1006 \<and> 0x1006 < e"
    by (simp add: f_def im_def len_def)
  moreover have "function_ranges im len f = [(0x1000, 0x1007), (0x2000, 0x2001)]"
    by (simp add: function_ranges_def range_events_def sort_events_def event_less_eq_def Let_def f_def im_def len_def)
  ultimately show ?thesis by blast
qed

section \<open>The string table\<close>

definition strtab_ok :: "strtab \<Rightarrow> bool" where
  "strtab_ok t \<longleftrightarrow> (\<forall>s i. st_locations t s = Some i \<longrightarrow> i + length s < length (st_table t) \<and>
     take (length s + 1) (drop i (st_table t)) = map of_char s @ [0])"

lemma AddString_ok:
  assumes "strtab_ok t"
  shows "strtab_ok (AddString s t)" "st_locations t u \<noteq> None \<Longrightarrow> st_locations (AddString s t) u = st_locations t u"
    "st_locations (AddString s t) s \<noteq> None"
proof -
  show "strtab_ok (AddString s t)"
  proof (cases "st_locations t s")
    case None
    have "take (length u + 1) (drop i (st_table t @ map of_char s @ [0])) = map of_char u @ [0]"
      if "st_locations t u = Some i" for u i
      using assms that by (fastforce simp: strtab_ok_def)
    then show ?thesis using assms None by (fastforce simp: strtab_ok_def AddString_def)
  qed (simp add: AddString_def assms)
qed (auto simp: AddString_def)

lemma sections_strtab_ok: "strtab_ok (sections_strtab scoops funcs)"
proof -
  have "strtab_ok (fold AddString ss t)" if "strtab_ok t" for ss t
    using that by (induction ss arbitrary: t) (simp_all add: AddString_ok(1))
  moreover have "strtab_ok empty_strtab" by (simp add: strtab_ok_def empty_strtab_def)
  ultimately show ?thesis unfolding sections_strtab_def by blast
qed

lemma section_name_located:
  assumes "s \<in> sc_name ` set scoops \<union> fn_name ` set funcs \<union> {''.symtab'', ''.scoop_symtab'', ''nullptr''}"
  shows "\<exists>i. location (sections_strtab scoops funcs) s = Inr i \<and>
    take (length s + 1) (drop i (st_table (sections_strtab scoops funcs))) = map of_char s @ [0]"
proof -
  have "st_locations (fold AddString ss t) s \<noteq> None" if "s \<in> set ss \<or> st_locations t s \<noteq> None" for ss t
    using that
  proof (induction ss arbitrary: t)
    case (Cons u ss)
    then show ?case by (cases "s = u") (auto simp: AddString_def)
  qed simp
  moreover have "s \<in> set (map sc_name scoops @ map fn_name funcs @ [''.symtab'', ''.scoop_symtab'', ''nullptr''])"
    using assms by (simp only: set_append set_map list.set) blast
  ultimately obtain i where "st_locations (sections_strtab scoops funcs) s = Some i"
    unfolding sections_strtab_def by blast
  then show ?thesis using sections_strtab_ok [of scoops funcs] by (auto simp: strtab_ok_def location_def)
qed

end
