(* ===== verification/Zipr_Unpin.thy ===== *)
theory Zipr_Unpin
  imports Zipr_Plop Zipr_Scoops Zipr_ElfHdr
begin

text \<open>
  The plugin that makes references to moved code right (\<open>zipr_unpin_plugin/unpin.cpp\<close>,
  \<open>unpin_x86.cpp\<close>). It runs when everything is in place: for each relocation of an instruction or
  of a data scoop it computes the new value and writes it into the instruction or the scoop.

  Relocations, the options and what the decoder says of the bytes of an instruction are parameters.
\<close>

section \<open>Relocations\<close>

datatype wrt = WrtInsn iid | WrtScoop sid | WrtOther

record reloc =
  rl_type :: string
  rl_offset :: int                  \<comment> \<open>an \<open>int\<close>\<close>
  rl_addend :: uint32               \<comment> \<open>\<open>getAddend\<close>; the field is signed\<close>
  rl_wrt :: "wrt option"

text \<open>A memory operand: its displacement, where in the instruction that is, and how many bytes.\<close>

record memop =
  mo_disp :: addr
  mo_disp_offset :: int
  mo_disp_size :: int

record unpin_env =
  up_on :: bool
  up_should_cfi_pin :: bool
  up_max_unpins :: int
  up_insns :: "iid list"                          \<comment> \<open>\<open>getInstructions\<close>, in the order of the set\<close>
  up_scoops :: "sid list"                         \<comment> \<open>\<open>getDataScoops\<close>, in the order of the set\<close>
  up_relocs :: "iid \<Rightarrow> reloc list"
  up_scoop_relocs :: "sid \<Rightarrow> reloc list"
  up_bits :: nat                                  \<comment> \<open>\<open>getArchitectureBitWidth\<close>\<close>
  up_exe :: bool                                  \<comment> \<open>the file type is \<open>adftELFEXE\<close>\<close>
  up_file_base :: addr
  up_pcrel_operand :: "byte list \<Rightarrow> memop option"
  up_mem_operand :: "byte list \<Rightarrow> memop option"    \<comment> \<open>the first memory operand that has a name\<close>
  up_immediate :: "byte list \<Rightarrow> addr"

record zunpin = zplop +
  z_scoops :: "sid \<rightharpoonup> scoop"
  z_unpins :: int                                 \<comment> \<open>\<open>unpins\<close>, one for each relocation at most\<close>

text \<open>\<open>locMap[insn]\<close> makes an entry, zero, when there is none.\<close>

definition with_loc :: "iid \<Rightarrow> (addr \<Rightarrow> 'a zipr_scheme \<Rightarrow> 'b result) \<Rightarrow> 'a zipr_scheme \<Rightarrow> 'b result" where
  "with_loc i k z = k (loc_at i z) (z\<lparr>z_locs := (z_locs z)(i \<mapsto> loc_at i z)\<rparr>)"

definition scoop_at :: "sid \<Rightarrow> 'a zunpin_scheme \<Rightarrow> scoop" where
  "scoop_at s z = the (z_scoops z s)"

definition setDataBits :: "iid \<Rightarrow> byte list \<Rightarrow> 'a zipr_scheme \<Rightarrow> 'a zipr_scheme" where
  "setDataBits i bs z = z\<lparr>z_ir := update_insn i (\<lambda>n. n\<lparr>i_text := DataBits bs\<rparr>) (z_ir z)\<rparr>"

definition replace_bytes :: "int \<Rightarrow> byte list \<Rightarrow> byte list \<Rightarrow> byte list" where
  "replace_bytes off new bs = take (nat off) bs @ new @ drop (nat off + length new) bs"

section \<open>Counting\<close>

definition limit_reached :: "unpin_env \<Rightarrow> int \<Rightarrow> bool" where
  "limit_reached env unpins \<longleftrightarrow> up_max_unpins env \<noteq> -1 \<and> up_max_unpins env \<le> unpins"

text \<open>\<open>counted\<close> says whether a relocation is one of those that are counted, or stops the rewriter.\<close>

fun count_unpins :: "unpin_env \<Rightarrow> (reloc \<Rightarrow> bool result) \<Rightarrow> reloc list \<Rightarrow> int \<Rightarrow> int result" where
  "count_unpins env counted [] unpins = Inr unpins"
| "count_unpins env counted (r # rs) unpins =
     bindR (counted r) (\<lambda>c.
     if \<not> c then count_unpins env counted rs unpins
     else if limit_reached env (unpins + 1) then Inr (unpins + 1)
     else count_unpins env counted rs (unpins + 1))"

definition fixed_call_counted :: "reloc \<Rightarrow> bool result" where
  "fixed_call_counted r =
     (if rl_type r = ''32-bit'' \<or> rl_type r = ''push64'' then
        (case rl_wrt r of None \<Rightarrow> Inr False | Some (WrtInsn _) \<Rightarrow> Inr True | _ \<Rightarrow> Inl AssertFail)
      else Inr False)"

definition scoop_counted :: "reloc \<Rightarrow> bool result" where
  "scoop_counted r =
     (if rl_type r = ''data_to_insn_ptr'' then
        (case rl_wrt r of Some (WrtInsn _) \<Rightarrow> Inr True | _ \<Rightarrow> Inl AssertFail)
      else Inr False)"

definition DoUnpinForFixedCalls :: "unpin_env \<Rightarrow> 'a zunpin_scheme \<Rightarrow> 'a zunpin_scheme result" where
  "DoUnpinForFixedCalls env z =
     (if limit_reached env (z_unpins z) then Inr z
      else mapR (\<lambda>n. z\<lparr>z_unpins := n\<rparr>)
        (count_unpins env fixed_call_counted (concat (map (up_relocs env) (up_insns env))) (z_unpins z)))"

definition DoUnpinForScoops :: "unpin_env \<Rightarrow> 'a zunpin_scheme \<Rightarrow> 'a zunpin_scheme result" where
  "DoUnpinForScoops env z =
     (if limit_reached env (z_unpins z) then Inr z
      else mapR (\<lambda>n. z\<lparr>z_unpins := n\<rparr>)
        (count_unpins env scoop_counted (concat (map (up_scoop_relocs env) (up_scoops env))) (z_unpins z)))"

definition DoUnpin :: "unpin_env \<Rightarrow> 'a zunpin_scheme \<Rightarrow> 'a zunpin_scheme result" where
  "DoUnpin env z = bindR (DoUnpinForScoops env z) (DoUnpinForFixedCalls env)"

section \<open>Callbacks\<close>

text \<open>\<open>no_retarget\<close> is what the plugin interface does by default.\<close>

definition unpin_retargetCallback ::
  "(addr \<Rightarrow> eid \<Rightarrow> addr \<Rightarrow> bool \<times> addr) \<Rightarrow> unpin_env \<Rightarrow> addr \<Rightarrow> eid \<Rightarrow> addr \<Rightarrow> 'a zunpin_scheme \<Rightarrow> (bool \<times> addr \<times> 'a zunpin_scheme) result" where
  "unpin_retargetCallback no_retarget env callback_address e target_address z =
     (let default = (\<lambda>z. case no_retarget callback_address e target_address of (must, t) \<Rightarrow> Inr (must, t, z))
      in if \<not> up_on env then default z
         else let z = z\<lparr>z_unpins := z_unpins z + 1\<rparr>
         in if limit_reached env (z_unpins z) then default z
         else mapR (\<lambda>t. (True, t, z))
           (foldR (\<lambda>r t.
              if rl_type r = ''callback_to_scoop'' then
                (case rl_wrt r of
                   Some (WrtScoop s) \<Rightarrow> Inr (sc_start (scoop_at s z) + ucast (rl_addend r))
                 | _ \<Rightarrow> Inl NullDeref)
              else Inr t) (up_relocs env (de_insn (ent (z_dm z) e))) target_address))"

section \<open>Instructions\<close>

text \<open>What a machine must say.\<close>

record 's unpin_arch =
  ua_HandleRetAddrReloc :: "iid \<Rightarrow> reloc \<Rightarrow> 's \<Rightarrow> 's result"
  ua_HandlePcrelReloc :: "iid \<Rightarrow> reloc \<Rightarrow> 's \<Rightarrow> 's result"
  ua_HandleAbsptrReloc :: "iid \<Rightarrow> reloc \<Rightarrow> 's \<Rightarrow> 's result"
  ua_HandleImmedptrReloc :: "iid \<Rightarrow> reloc \<Rightarrow> 's \<Rightarrow> 's result"
  ua_HandleCallbackReloc :: "iid \<Rightarrow> reloc \<Rightarrow> 's \<Rightarrow> 's result"

definition handle_reloc :: "'s unpin_arch \<Rightarrow> iid \<Rightarrow> reloc \<Rightarrow> 's \<Rightarrow> 's result" where
  "handle_reloc ua from_insn r z =
     (if rl_type r = ''32-bit'' \<or> rl_type r = ''push64'' then ua_HandleRetAddrReloc ua from_insn r z
      else if rl_type r = ''pcrel'' then ua_HandlePcrelReloc ua from_insn r z
      else if rl_type r = ''absoluteptr_to_scoop'' then ua_HandleAbsptrReloc ua from_insn r z
      else if rl_type r = ''immedptr_to_scoop'' then ua_HandleImmedptrReloc ua from_insn r z
      else if rl_type r = ''callback_to_scoop'' then ua_HandleCallbackReloc ua from_insn r z
      else Inr z)"

definition DoUpdateForInstructions :: "'s unpin_arch \<Rightarrow> unpin_env \<Rightarrow> 's \<Rightarrow> 's result" where
  "DoUpdateForInstructions ua env z =
     foldR (\<lambda>i. foldR (handle_reloc ua i) (up_relocs env i)) (up_insns env) z"

section \<open>Data\<close>

definition read_at :: "int \<Rightarrow> nat \<Rightarrow> byte list \<Rightarrow> byte list result" where
  "read_at off n bs = (if 0 \<le> off \<and> nat off + n \<le> length bs then Inr (take n (drop (nat off) bs)) else Inl OutOfBounds)"

definition write_at :: "int \<Rightarrow> byte list \<Rightarrow> byte list \<Rightarrow> byte list result" where
  "write_at off new bs = (if 0 \<le> off \<and> nat off + length new \<le> length bs then Inr (replace_bytes off new bs) else Inl OutOfBounds)"

definition pointer_bytes :: "nat \<Rightarrow> addr \<Rightarrow> byte list result" where
  "pointer_bytes ptrsize v =
     (if ptrsize = 4 then Inr (to_bytes (ucast v :: 32 word)) else if ptrsize = 8 then Inr (to_bytes v) else Inl AssertFail)"

definition read_pointer :: "nat \<Rightarrow> int \<Rightarrow> byte list \<Rightarrow> addr result" where
  "read_pointer ptrsize off bs =
     (if ptrsize = 4 then mapR (\<lambda>b. scast (of_bytes b :: 32 word)) (read_at off 4 bs)
      else if ptrsize = 8 then mapR of_bytes (read_at off 8 bs) else Inl AssertFail)"

definition update_data ::
  "unpin_env \<Rightarrow> reloc \<Rightarrow> byte list \<times> 'a zunpin_scheme \<Rightarrow> (byte list \<times> 'a zunpin_scheme) result" where
  "update_data env r = (\<lambda>(contents, z).
     if rl_type r = ''switch_type4'' then
       (case rl_wrt r of
          Some (WrtInsn i) \<Rightarrow> with_loc i (\<lambda>newLoc z.
            if up_should_cfi_pin env then Inr (contents, z)
            else bindR (read_at (rl_offset r) 4 contents) (\<lambda>old.
              let newValue = of_bytes old + rl_addend r + ucast newLoc :: uint32
              in mapR (\<lambda>c. (c, z)) (write_at (rl_offset r) (to_bytes newValue) contents))) z
        | _ \<Rightarrow> Inl AssertFail)
     else if rl_type r = ''data_to_insn_ptr'' then
       (case rl_wrt r of
          Some (WrtInsn i) \<Rightarrow> with_loc i (\<lambda>newLoc z.
            if up_should_cfi_pin env then Inr (contents, z)
            else bindR (pointer_bytes (up_bits env div 8) newLoc) (\<lambda>bs.
              mapR (\<lambda>c. (c, z)) (write_at (rl_offset r) bs contents))) z
        | _ \<Rightarrow> Inl AssertFail)
     else if rl_type r = ''dataptr_to_scoop'' then
       (case rl_wrt r of
          Some (WrtScoop s) \<Rightarrow>
            let byte_width = up_bits env div 8 in
            bindR (read_pointer byte_width (rl_offset r) contents) (\<lambda>val_to_patch.
            assertR (sc_start (scoop_at s z) \<noteq> 0) (\<lambda>_.
            bindR (pointer_bytes byte_width (val_to_patch + sc_start (scoop_at s z))) (\<lambda>bs.
            mapR (\<lambda>c. (c, z)) (write_at (rl_offset r) bs contents))))
        | _ \<Rightarrow> Inl AssertFail)
     else Inr (contents, z))"

definition update_scoop_data :: "unpin_env \<Rightarrow> sid \<Rightarrow> 'a zunpin_scheme \<Rightarrow> 'a zunpin_scheme result" where
  "update_scoop_data env s z =
     (let sc = scoop_at s z in
      if isExecuteable sc then Inr z
      else assertR (sc_end sc - sc_start sc + 1 = scoop_size sc) (\<lambda>_.
        assertR (of_nat (length (sc_contents sc)) = scoop_size sc) (\<lambda>_.
        bindR (foldR (update_data env) (up_scoop_relocs env s) (sc_contents sc, z)) (\<lambda>(contents, z).
        Inr (z\<lparr>z_scoops := (z_scoops z)(s := map_option (\<lambda>c. c\<lparr>sc_contents := contents\<rparr>) (z_scoops z s))\<rparr>)))))"

definition DoUpdateForScoops :: "unpin_env \<Rightarrow> 'a zunpin_scheme \<Rightarrow> 'a zunpin_scheme result" where
  "DoUpdateForScoops env z = foldR (update_scoop_data env) (up_scoops env) z"

definition DoUpdate :: "'a zunpin_scheme unpin_arch \<Rightarrow> unpin_env \<Rightarrow> 'a zunpin_scheme \<Rightarrow> 'a zunpin_scheme result" where
  "DoUpdate ua env z = bindR (DoUpdateForScoops env z) (DoUpdateForInstructions ua env)"

text \<open>The two hooks test whether there is an option, not whether it is on.\<close>

definition unpin_doPinningBegin :: "unpin_env \<Rightarrow> 'a zunpin_scheme \<Rightarrow> 'a zunpin_scheme result" where
  "unpin_doPinningBegin env = DoUnpin env"

definition unpin_doCallbackLinkingEnd :: "'a zunpin_scheme unpin_arch \<Rightarrow> unpin_env \<Rightarrow> 'a zunpin_scheme \<Rightarrow> 'a zunpin_scheme result" where
  "unpin_doCallbackLinkingEnd ua env = DoUpdate ua env"

section \<open>x86\<close>

definition x86_HandleRetAddrReloc :: "(asm \<Rightarrow> byte list) \<Rightarrow> unpin_env \<Rightarrow> iid \<Rightarrow> reloc \<Rightarrow> 'a zunpin_scheme \<Rightarrow> 'a zunpin_scheme result" where
  "x86_HandleRetAddrReloc asmb env from_insn r z =
     (case rl_wrt r of
        None \<Rightarrow> Inr z
      | Some (WrtInsn wrt_insn) \<Rightarrow>
          if up_should_cfi_pin env then Inr z
          else with_loc wrt_insn (\<lambda>wrt_insn_location. with_loc from_insn (\<lambda>from_insn_location z.
            if up_exe env then
              let bits = data_bits asmb (z_ir z) from_insn in
              assertR (first_byte bits = 0x68) (\<lambda>_.
              assertR (length bits = 5) (\<lambda>_.
              assertR (wrt_insn_location = scast (ucast wrt_insn_location :: 32 word)) (\<lambda>_.
              Inr (z\<lparr>z_ms := ms_put_list from_insn_location (0x68 # le_bytes (ucast wrt_insn_location)) (z_ms z)\<rparr>))))
            else Inr z)) z
      | _ \<Rightarrow> Inl AssertFail)"

text \<open>What a relocation is relative to.\<close>

definition with_wrt :: "wrt option \<Rightarrow> (addr \<Rightarrow> 'a zunpin_scheme \<Rightarrow> 'b result) \<Rightarrow> 'a zunpin_scheme \<Rightarrow> 'b result" where
  "with_wrt w k z =
     (case w of
        None \<Rightarrow> k 0 z
      | Some (WrtScoop s) \<Rightarrow> k (sc_start (scoop_at s z)) z
      | Some (WrtInsn i) \<Rightarrow> with_loc i k z
      | Some WrtOther \<Rightarrow> Inl AssertFail)"

definition x86_HandlePcrelReloc :: "(asm \<Rightarrow> byte list) \<Rightarrow> unpin_env \<Rightarrow> iid \<Rightarrow> reloc \<Rightarrow> 'a zunpin_scheme \<Rightarrow> 'a zunpin_scheme result" where
  "x86_HandlePcrelReloc asmb env from_insn r z =
     (let bits = data_bits asmb (z_ir z) from_insn in
      case up_pcrel_operand env bits of
        None \<Rightarrow> Inl AssertFail
      | Some the_arg \<Rightarrow>
          with_loc from_insn (\<lambda>from_insn_location_with_filebase.
            let from_insn_location_no_file_base = from_insn_location_with_filebase - up_file_base env in
            with_wrt (rl_wrt r) (\<lambda>to_addr z.
            let rel_addr1 = mo_disp the_arg + of_nat (length bits) in
            assertR (mo_disp_size the_arg = 4) (\<lambda>_.
            assertR (0 < mo_disp_offset the_arg \<and> mo_disp_offset the_arg \<le> int (length bits) - mo_disp_size the_arg) (\<lambda>_.
            let new_disp = ucast (rel_addr1 + to_addr - of_nat (length bits) - from_insn_location_no_file_base) :: uint32;
                newbits = replace_bytes (mo_disp_offset the_arg) (le_bytes new_disp) bits
            in on_ms (PlopBytes from_insn_location_with_filebase newbits) (setDataBits from_insn newbits z))))) z)"

definition x86_HandleAbsptrReloc :: "(asm \<Rightarrow> byte list) \<Rightarrow> unpin_env \<Rightarrow> iid \<Rightarrow> reloc \<Rightarrow> 'a zunpin_scheme \<Rightarrow> 'a zunpin_scheme result" where
  "x86_HandleAbsptrReloc asmb env from_insn r z =
     (let bits = data_bits asmb (z_ir z) from_insn in
      case (rl_wrt r, up_mem_operand env bits) of
        (Some (WrtScoop s), Some the_arg) \<Rightarrow>
          assertR (mo_disp_size the_arg = 4) (\<lambda>_.
          assertR (0 < mo_disp_offset the_arg \<and> mo_disp_offset the_arg \<le> int (length bits) - mo_disp_size the_arg) (\<lambda>_.
          let new_disp = ucast (mo_disp the_arg + sc_start (scoop_at s z) + ucast (rl_addend r) - up_file_base env) :: uint32;
              newbits = replace_bytes (mo_disp_offset the_arg) (le_bytes new_disp) bits
          in with_loc from_insn (\<lambda>from_insn_location z.
               Inr (z\<lparr>z_ms := ms_put_list from_insn_location newbits (z_ms z)\<rparr>)) (setDataBits from_insn newbits z)))
      | _ \<Rightarrow> Inl AssertFail)"

definition x86_HandleImmedptrReloc :: "(asm \<Rightarrow> byte list) \<Rightarrow> unpin_env \<Rightarrow> iid \<Rightarrow> reloc \<Rightarrow> 'a zunpin_scheme \<Rightarrow> 'a zunpin_scheme result" where
  "x86_HandleImmedptrReloc asmb env from_insn r z =
     (case rl_wrt r of
        Some (WrtScoop s) \<Rightarrow>
          let bits = data_bits asmb (z_ir z) from_insn;
              new_addr = up_immediate env bits + sc_start (scoop_at s z)
          in if length bits < 4 then Inl OutOfRange
             else let newbits = replace_bytes (int (length bits) - 4) (le_bytes (ucast new_addr)) bits
             in with_loc from_insn (\<lambda>from_insn_location z.
                  Inr (z\<lparr>z_ms := ms_put_list from_insn_location newbits (z_ms z)\<rparr>)) (setDataBits from_insn newbits z)
      | _ \<Rightarrow> Inl AssertFail)"

definition x86_HandleCallbackReloc :: "(asm \<Rightarrow> byte list) \<Rightarrow> unpin_env \<Rightarrow> iid \<Rightarrow> reloc \<Rightarrow> 'a zunpin_scheme \<Rightarrow> 'a zunpin_scheme result" where
  "x86_HandleCallbackReloc asmb env from_insn r z =
     with_loc from_insn (\<lambda>call_addr z.
       bindR (on_ms (PlopBytes (call_addr + of_nat (length (data_bits asmb (z_ir z) from_insn))) [0x48, 0x8d, 0x64, 0x24, 8]) z) (\<lambda>z.
       Inr (z\<lparr>z_ir := update_insn from_insn (\<lambda>n. n\<lparr>i_tgt := None, i_callback := ''''\<rparr>) (z_ir z)\<rparr>))) z"

definition x86_unpin :: "(asm \<Rightarrow> byte list) \<Rightarrow> unpin_env \<Rightarrow> 'a zunpin_scheme unpin_arch" where
  "x86_unpin asmb env = \<lparr>ua_HandleRetAddrReloc = x86_HandleRetAddrReloc asmb env,
     ua_HandlePcrelReloc = x86_HandlePcrelReloc asmb env, ua_HandleAbsptrReloc = x86_HandleAbsptrReloc asmb env,
     ua_HandleImmedptrReloc = x86_HandleImmedptrReloc asmb env, ua_HandleCallbackReloc = x86_HandleCallbackReloc asmb env\<rparr>"

text \<open>MIPS32 handles none.\<close>

definition mips32_unpin :: "'s unpin_arch" where
  "mips32_unpin = \<lparr>ua_HandleRetAddrReloc = (\<lambda>_ _ _. Inl AssertFail), ua_HandlePcrelReloc = (\<lambda>_ _ _. Inl AssertFail),
     ua_HandleAbsptrReloc = (\<lambda>_ _ _. Inl AssertFail), ua_HandleImmedptrReloc = (\<lambda>_ _ _. Inl AssertFail),
     ua_HandleCallbackReloc = (\<lambda>_ _ _. Inl AssertFail)\<rparr>"

end
