(* ===== verification/Zipr_UnpinData.thy ===== *)
theory Zipr_UnpinData
  imports Zipr_Unpin
begin

text \<open>
  The data scoops after the update: every slot a relocation names holds its new value, computed
  from what it held before, and nothing else in the scoops has changed.
\<close>

section \<open>Replacing bytes\<close>

lemma length_replace [simp]: "0 \<le> off \<Longrightarrow> nat off + length new \<le> length bs \<Longrightarrow> length (replace_bytes off new bs) = length bs"
  by (simp add: replace_bytes_def)

lemma nth_replace:
  assumes "nat off + length new \<le> length bs" "k < length bs"
  shows "replace_bytes off new bs ! k = (if nat off \<le> k \<and> k < nat off + length new then new ! (k - nat off) else bs ! k)"
  using assms by (auto simp: replace_bytes_def nth_append min_def)

lemma take_drop_eqI:
  assumes "length bs = n" "m + n \<le> length c" "\<And>k. k < n \<Longrightarrow> c ! (m + k) = bs ! k"
  shows "take n (drop m c) = bs"
  using assms by (intro nth_equalityI) auto

lemma take_drop_cong:
  assumes "length c = length c'" "\<And>k. m \<le> k \<Longrightarrow> k < m + n \<Longrightarrow> k < length c \<Longrightarrow> c ! k = c' ! k"
  shows "take n (drop m c) = take n (drop m c')"
  using assms by (intro nth_equalityI) auto

section \<open>What a relocation does to its slot\<close>

definition same_but_locs :: "'a zunpin_scheme \<Rightarrow> 'a zunpin_scheme \<Rightarrow> bool" where
  "same_but_locs z z' \<longleftrightarrow> (\<exists>L. z' = z\<lparr>z_locs := L\<rparr>) \<and> (\<forall>i. loc_at i z' = loc_at i z)"

lemma same_but_locs_refl: "same_but_locs z z"
  by (auto simp: same_but_locs_def intro: exI [of _ "z_locs z"])

lemma same_but_locs_trans: "same_but_locs x y \<Longrightarrow> same_but_locs y z \<Longrightarrow> same_but_locs x z"
  by (auto simp: same_but_locs_def)

lemma same_but_locs_sel:
  assumes "same_but_locs z z'"
  shows "z_scoops z' = z_scoops z" "z_ms z' = z_ms z" "z_ir z' = z_ir z" "loc_at i z' = loc_at i z" "scoop_at s z' = scoop_at s z"
  using assms by (auto simp: same_but_locs_def scoop_at_def)

lemma with_loc_same: "with_loc i k z = k (loc_at i z) (z\<lparr>z_locs := (z_locs z)(i \<mapsto> loc_at i z)\<rparr>)"
  "same_but_locs z (z\<lparr>z_locs := (z_locs z)(i \<mapsto> loc_at i z)\<rparr>)"
  by (auto simp: with_loc_def same_but_locs_def loc_at_def)

text \<open>The bytes of a slot, and what they become.\<close>

definition data_width :: "unpin_env \<Rightarrow> reloc \<Rightarrow> nat" where
  "data_width env r =
     (if rl_type r = ''switch_type4'' then (if up_should_cfi_pin env then 0 else 4)
      else if rl_type r = ''data_to_insn_ptr'' then (if up_should_cfi_pin env then 0 else up_bits env div 8)
      else if rl_type r = ''dataptr_to_scoop'' then up_bits env div 8
      else 0)"

definition pointer_of :: "nat \<Rightarrow> addr \<Rightarrow> byte list" where
  "pointer_of w v = (if w = 4 then to_bytes (ucast v :: 32 word) else to_bytes v)"

definition data_value :: "unpin_env \<Rightarrow> 'a zunpin_scheme \<Rightarrow> reloc \<Rightarrow> byte list \<Rightarrow> byte list" where
  "data_value env z r old =
     (case rl_wrt r of
        Some (WrtInsn i) \<Rightarrow>
          if rl_type r = ''switch_type4'' then to_bytes (of_bytes old + rl_addend r + ucast (loc_at i z) :: uint32)
          else pointer_of (data_width env r) (loc_at i z)
      | Some (WrtScoop s) \<Rightarrow>
          if data_width env r = 4 then to_bytes (of_bytes old + ucast (sc_start (scoop_at s z)) :: uint32)
          else to_bytes (of_bytes old + sc_start (scoop_at s z) :: addr)
      | _ \<Rightarrow> [])"

definition data_reloc_ok :: "unpin_env \<Rightarrow> 'a zunpin_scheme \<Rightarrow> nat \<Rightarrow> reloc \<Rightarrow> bool" where
  "data_reloc_ok env z n r \<longleftrightarrow> up_bits env \<in> {32, 64} \<and> 0 \<le> rl_offset r \<and> nat (rl_offset r) + data_width env r \<le> n \<and>
     (rl_type r = ''switch_type4'' \<or> rl_type r = ''data_to_insn_ptr'' \<longrightarrow> (\<exists>i. rl_wrt r = Some (WrtInsn i))) \<and>
     (rl_type r = ''dataptr_to_scoop'' \<longrightarrow> (\<exists>s. rl_wrt r = Some (WrtScoop s) \<and> sc_start (scoop_at s z) \<noteq> 0))"

definition data_slot :: "unpin_env \<Rightarrow> reloc \<Rightarrow> nat set" where
  "data_slot env r = {nat (rl_offset r) ..< nat (rl_offset r) + data_width env r}"

definition slot_bytes :: "unpin_env \<Rightarrow> reloc \<Rightarrow> byte list \<Rightarrow> byte list" where
  "slot_bytes env r c = take (data_width env r) (drop (nat (rl_offset r)) c)"

lemma length_slot: "data_reloc_ok env z (length c) r \<Longrightarrow> length (slot_bytes env r c) = data_width env r"
  by (auto simp: data_reloc_ok_def slot_bytes_def)

lemma length_pointer_of: "length (pointer_of w v) = (if w = 4 then 4 else 8)"
  by (simp add: pointer_of_def length_to_bytes)

lemma length_data_value:
  assumes "data_reloc_ok env z n r" "data_width env r \<noteq> 0"
  shows "length (data_value env z r old) = data_width env r"
  using assms
  by (auto simp: data_reloc_ok_def data_value_def data_width_def length_pointer_of length_to_bytes split: if_splits)

lemma sign_extended_sum: "ucast (scast (x :: 32 word) + y :: addr) = x + (ucast y :: 32 word)"
proof -
  have "ucast (scast x :: addr) = x" by (rule bit_word_eqI) (simp add: bit_simps)
  moreover have "ucast (scast x + y :: addr) = (ucast (scast x :: addr) + ucast y :: 32 word)"
    using ucast_diff [of "scast x" "- y"] ucast_diff [of 0 y] by simp
  ultimately show ?thesis by simp
qed

lemma update_data_ok:
  assumes "data_reloc_ok env z (length c) r"
  shows "\<exists>z'. update_data env r (c, z) =
      Inr (if data_width env r = 0 then c else replace_bytes (rl_offset r) (data_value env z r (slot_bytes env r c)) c, z') \<and>
    same_but_locs z z'"
proof -
  have b: "up_bits env div 8 = 4 \<or> up_bits env div 8 = 8" using assms by (auto simp: data_reloc_ok_def)
  consider i where "rl_type r = ''switch_type4'' \<or> rl_type r = ''data_to_insn_ptr''" "rl_wrt r = Some (WrtInsn i)"
    | s where "rl_type r = ''dataptr_to_scoop''" "rl_wrt r = Some (WrtScoop s)" "sc_start (scoop_at s z) \<noteq> 0"
    | "rl_type r \<notin> {''switch_type4'', ''data_to_insn_ptr'', ''dataptr_to_scoop''}"
    using assms unfolding data_reloc_ok_def by blast
  then show ?thesis
  proof cases
    case (1 i)
    let ?z = "z\<lparr>z_locs := (z_locs z)(i \<mapsto> loc_at i z)\<rparr>"
    have r: "0 \<le> rl_offset r" "nat (rl_offset r) + data_width env r \<le> length c" using assms by (simp_all add: data_reloc_ok_def)
    show ?thesis
    proof (cases "rl_type r = ''switch_type4''")
      case True
      then have "update_data env r (c, z) = (if up_should_cfi_pin env then Inr (c, ?z)
          else Inr (replace_bytes (rl_offset r) (data_value env z r (slot_bytes env r c)) c, ?z))"
        using r 1(2) by (cases "up_should_cfi_pin env") (simp_all add: mapR_def update_data_def with_loc_same(1) data_width_def read_at_def write_at_def data_value_def slot_bytes_def length_to_bytes)
      then show ?thesis using with_loc_same(2) [of z i] True by (intro exI [of _ ?z]) (simp add: data_width_def)
    next
      case False
      then have t: "rl_type r = ''data_to_insn_ptr''" using 1(1) by blast
      then have "update_data env r (c, z) = (if up_should_cfi_pin env then Inr (c, ?z)
          else Inr (replace_bytes (rl_offset r) (data_value env z r (slot_bytes env r c)) c, ?z))"
        using r 1(2) b by (cases "up_bits env div 8 = 4"; cases "up_should_cfi_pin env")
          (simp_all add: mapR_def update_data_def with_loc_same(1) data_width_def pointer_bytes_def pointer_of_def write_at_def data_value_def length_to_bytes)
      then show ?thesis using with_loc_same(2) [of z i] t b by (intro exI [of _ ?z]) (auto simp: data_width_def)
    qed
  next
    case (2 s)
    then show ?thesis
      using assms b by (auto simp: mapR_def update_data_def same_but_locs_refl data_width_def data_reloc_ok_def read_at_def write_at_def read_pointer_def
          data_value_def pointer_of_def pointer_bytes_def slot_bytes_def length_to_bytes Let_def sign_extended_sum)
  next
    case 3
    then show ?thesis by (auto simp: update_data_def data_width_def same_but_locs_refl)
  qed
qed

section \<open>All slots of a scoop\<close>

lemma data_reloc_ok_cong: "same_but_locs z z' \<Longrightarrow> data_reloc_ok env z' n r = data_reloc_ok env z n r"
  by (simp add: data_reloc_ok_def same_but_locs_sel)

lemma data_value_cong: "same_but_locs z z' \<Longrightarrow> data_value env z' r old = data_value env z r old"
  by (simp add: data_value_def same_but_locs_sel split: option.split wrt.split)

text \<open>The slots of \<open>rs\<close> hold their new values, the rest is as before.\<close>

definition slots_updated :: "unpin_env \<Rightarrow> 'a zunpin_scheme \<Rightarrow> reloc list \<Rightarrow> byte list \<Rightarrow> byte list \<Rightarrow> bool" where
  "slots_updated env z rs c c' \<longleftrightarrow> length c' = length c \<and>
     (\<forall>r\<in>set rs. data_width env r \<noteq> 0 \<longrightarrow> slot_bytes env r c' = data_value env z r (slot_bytes env r c)) \<and>
     (\<forall>k<length c. k \<notin> (\<Union>r\<in>set rs. data_slot env r) \<longrightarrow> c' ! k = c ! k)"

fun slots_apart :: "unpin_env \<Rightarrow> reloc list \<Rightarrow> bool" where
  "slots_apart env [] \<longleftrightarrow> True"
| "slots_apart env (r # rs) \<longleftrightarrow> slots_apart env rs \<and> (\<forall>q\<in>set rs. data_slot env r \<inter> data_slot env q = {})"

lemma slot_bytes_cong:
  assumes "length c' = length c" "\<And>k. k \<in> data_slot env r \<Longrightarrow> k < length c \<Longrightarrow> c' ! k = c ! k"
  shows "slot_bytes env r c' = slot_bytes env r c"
  unfolding slot_bytes_def using assms by (intro take_drop_cong) (auto simp: data_slot_def)

lemma replaced_slot:
  assumes "data_reloc_ok env z (length c) r" "length bs = data_width env r"
  shows "length (replace_bytes (rl_offset r) bs c) = length c" "slot_bytes env r (replace_bytes (rl_offset r) bs c) = bs"
    "k \<notin> data_slot env r \<Longrightarrow> k < length c \<Longrightarrow> replace_bytes (rl_offset r) bs c ! k = c ! k"
proof -
  have r: "0 \<le> rl_offset r" "nat (rl_offset r) + length bs \<le> length c" using assms by (simp_all add: data_reloc_ok_def)
  show "length (replace_bytes (rl_offset r) bs c) = length c" using r by simp
  show "slot_bytes env r (replace_bytes (rl_offset r) bs c) = bs"
    unfolding slot_bytes_def using r assms(2) by (intro take_drop_eqI) (simp_all add: nth_replace)
  show "k \<notin> data_slot env r \<Longrightarrow> k < length c \<Longrightarrow> replace_bytes (rl_offset r) bs c ! k = c ! k"
    using r assms(2) by (auto simp: nth_replace data_slot_def)
qed

lemma update_slots:
  assumes "\<forall>r\<in>set rs. data_reloc_ok env z (length c) r" "slots_apart env rs"
  shows "\<exists>c' z'. foldR (update_data env) rs (c, z) = Inr (c', z') \<and> same_but_locs z z' \<and> slots_updated env z rs c c'"
  using assms
proof (induction rs arbitrary: c z)
  case Nil
  then show ?case by (simp add: same_but_locs_refl slots_updated_def)
next
  case (Cons r rs)
  let ?v = "data_value env z r (slot_bytes env r c)"
  define c1 where "c1 = (if data_width env r = 0 then c else replace_bytes (rl_offset r) ?v c)"
  have r: "data_reloc_ok env z (length c) r" and ap: "\<forall>q\<in>set rs. data_slot env r \<inter> data_slot env q = {}" "slots_apart env rs"
    using Cons.prems by simp_all
  obtain z1 where z1: "update_data env r (c, z) = Inr (c1, z1)" "same_but_locs z z1"
    using update_data_ok [OF r] by (auto simp: c1_def)
  have c1: "length c1 = length c" "data_width env r \<noteq> 0 \<longrightarrow> slot_bytes env r c1 = ?v"
      "\<And>k. k \<notin> data_slot env r \<Longrightarrow> k < length c \<Longrightarrow> c1 ! k = c ! k"
    using replaced_slot [OF r length_data_value [OF r]] by (simp_all add: c1_def)
  obtain c' z' where c': "foldR (update_data env) rs (c1, z1) = Inr (c', z')" "same_but_locs z1 z'" "slots_updated env z1 rs c1 c'"
    using Cons.IH [of z1 c1] Cons.prems(1) ap(2) c1(1) data_reloc_ok_cong [OF z1(2)] by auto
  have "slot_bytes env q c1 = slot_bytes env q c" if "q \<in> set rs" for q
    using c1 ap(1) that by (intro slot_bytes_cong) auto
  moreover have "slot_bytes env r c' = slot_bytes env r c1"
  proof (rule slot_bytes_cong)
    show "length c' = length c1" using c'(3) by (simp add: slots_updated_def)
    show "c' ! k = c1 ! k" if "k \<in> data_slot env r" "k < length c1" for k
    proof -
      have "k \<notin> (\<Union>q\<in>set rs. data_slot env q)" using ap(1) that(1) by blast
      then show ?thesis using c'(3) that(2) by (simp add: slots_updated_def)
    qed
  qed
  ultimately have "slots_updated env z (r # rs) c c'"
    using c'(3) c1 data_value_cong [OF z1(2)] unfolding slots_updated_def by auto
  then show ?case using z1(1) c'(1) same_but_locs_trans [OF z1(2) c'(2)] by auto
qed

section \<open>All scoops\<close>

definition scoop_ready :: "unpin_env \<Rightarrow> 'a zunpin_scheme \<Rightarrow> sid \<Rightarrow> bool" where
  "scoop_ready env z s \<longleftrightarrow> z_scoops z s \<noteq> None \<and> (\<not> isExecuteable (scoop_at s z) \<longrightarrow>
     of_nat (length (sc_contents (scoop_at s z))) = scoop_size (scoop_at s z) \<and>
     (\<forall>r\<in>set (up_scoop_relocs env s). data_reloc_ok env z (length (sc_contents (scoop_at s z))) r) \<and>
     slots_apart env (up_scoop_relocs env s))"

definition scoop_updated :: "unpin_env \<Rightarrow> 'a zunpin_scheme \<Rightarrow> 'a zunpin_scheme \<Rightarrow> sid \<Rightarrow> bool" where
  "scoop_updated env z z' s \<longleftrightarrow>
     (\<exists>c. z_scoops z' s = Some ((scoop_at s z)\<lparr>sc_contents := c\<rparr>) \<and>
        (if isExecuteable (scoop_at s z) then c = sc_contents (scoop_at s z)
         else slots_updated env z (up_scoop_relocs env s) (sc_contents (scoop_at s z)) c))"

text \<open>Everything but the contents of scoops is as before.\<close>

definition same_frame :: "'a zunpin_scheme \<Rightarrow> 'a zunpin_scheme \<Rightarrow> bool" where
  "same_frame z z' \<longleftrightarrow> z_ms z' = z_ms z \<and> z_ir z' = z_ir z \<and> (\<forall>i. loc_at i z' = loc_at i z) \<and>
     (\<forall>s. map_option (\<lambda>c. c\<lparr>sc_contents := []\<rparr>) (z_scoops z' s) = map_option (\<lambda>c. c\<lparr>sc_contents := []\<rparr>) (z_scoops z s))"

lemma update_scoop_data_ok:
  assumes "scoop_ready env z s"
  shows "\<exists>z'. update_scoop_data env s z = Inr z' \<and> scoop_updated env z z' s \<and> same_frame z z' \<and>
    (\<forall>t. t \<noteq> s \<longrightarrow> z_scoops z' t = z_scoops z t)"
proof (cases "isExecuteable (scoop_at s z)")
  case True
  obtain sc where "z_scoops z s = Some sc" using assms by (auto simp: scoop_ready_def)
  then have "scoop_updated env z z s" using True by (auto simp: scoop_updated_def scoop_at_def intro: exI [of _ "sc_contents sc"])
  then show ?thesis using True by (intro exI [of _ z]) (simp add: update_scoop_data_def same_frame_def)
next
  case False
  let ?sc = "scoop_at s z"
  have sc: "z_scoops z s = Some ?sc" using assms by (auto simp: scoop_ready_def scoop_at_def)
  have r: "of_nat (length (sc_contents ?sc)) = scoop_size ?sc" "\<forall>r\<in>set (up_scoop_relocs env s). data_reloc_ok env z (length (sc_contents ?sc)) r"
      "slots_apart env (up_scoop_relocs env s)" using assms False by (simp_all add: scoop_ready_def)
  obtain c z1 where c: "foldR (update_data env) (up_scoop_relocs env s) (sc_contents ?sc, z) = Inr (c, z1)" "same_but_locs z z1"
      "slots_updated env z (up_scoop_relocs env s) (sc_contents ?sc) c"
    using update_slots [OF r(2,3)] by blast
  note same = same_but_locs_sel [OF c(2)]
  let ?z = "z1\<lparr>z_scoops := (z_scoops z1)(s := Some (?sc\<lparr>sc_contents := c\<rparr>))\<rparr>"
  have "update_scoop_data env s z = Inr ?z"
    using False r(1) c(1) sc by (simp add: update_scoop_data_def Let_def scoop_size_def same)
  moreover have "scoop_updated env z ?z s" using False c(3) unfolding scoop_updated_def by (intro exI [of _ c]) simp
  moreover have "same_frame z ?z" using same sc unfolding same_frame_def by (simp add: loc_at_def)
  ultimately show ?thesis using same(1) by (intro exI [of _ ?z]) simp
qed

lemma same_frame_trans: "same_frame x y \<Longrightarrow> same_frame y z \<Longrightarrow> same_frame x z"
  by (simp add: same_frame_def)

lemma same_frame_start:
  assumes "same_frame z z'"
  shows "sc_start (scoop_at s z') = sc_start (scoop_at s z)"
proof -
  have "map_option (\<lambda>c. c\<lparr>sc_contents := []\<rparr>) (z_scoops z' s) = map_option (\<lambda>c. c\<lparr>sc_contents := []\<rparr>) (z_scoops z s)"
    using assms by (simp add: same_frame_def)
  then have "map_option sc_start (z_scoops z' s) = map_option sc_start (z_scoops z s)"
    by (cases "z_scoops z s"; cases "z_scoops z' s") (auto dest: arg_cong [where f = sc_start])
  then show ?thesis by (cases "z_scoops z s"; cases "z_scoops z' s") (simp_all add: scoop_at_def)
qed

lemma same_frame_data:
  assumes "same_frame z z'"
  shows "data_reloc_ok env z' n r = data_reloc_ok env z n r" "data_value env z' r old = data_value env z r old"
  using assms same_frame_start [OF assms]
  by (simp_all add: data_reloc_ok_def data_value_def same_frame_def split: option.split wrt.split)

lemma same_frame_later:
  assumes "same_frame z z'" "z_scoops z' s = z_scoops z s"
  shows "scoop_ready env z' s = scoop_ready env z s" "scoop_updated env z' z'' s = scoop_updated env z z'' s"
  using same_frame_data [OF assms(1)] assms(2)
  by (simp_all add: scoop_ready_def scoop_updated_def slots_updated_def scoop_at_def)

lemma update_scoops:
  assumes "distinct (up_scoops env)" "\<forall>s\<in>set (up_scoops env). scoop_ready env z s"
  shows "\<exists>z'. DoUpdateForScoops env z = Inr z' \<and> same_frame z z' \<and>
    (\<forall>s\<in>set (up_scoops env). scoop_updated env z z' s) \<and> (\<forall>t. t \<notin> set (up_scoops env) \<longrightarrow> z_scoops z' t = z_scoops z t)"
proof -
  have "\<exists>z'. foldR (update_scoop_data env) ss z = Inr z' \<and> same_frame z z' \<and>
      (\<forall>s\<in>set ss. scoop_updated env z z' s) \<and> (\<forall>t. t \<notin> set ss \<longrightarrow> z_scoops z' t = z_scoops z t)"
    if "distinct ss" "\<forall>s\<in>set ss. scoop_ready env z s" for ss
    using that
  proof (induction ss arbitrary: z)
    case (Cons s ss)
    obtain z1 where z1: "update_scoop_data env s z = Inr z1" "scoop_updated env z z1 s" "same_frame z z1"
        "\<forall>t. t \<noteq> s \<longrightarrow> z_scoops z1 t = z_scoops z t"
      using update_scoop_data_ok Cons.prems(2) by (metis list.set_intros(1))
    have other: "z_scoops z1 t = z_scoops z t" if "t \<in> set ss" for t using z1(4) that Cons.prems(1) by auto
    note later = same_frame_later [OF z1(3) other]
    obtain z' where z': "foldR (update_scoop_data env) ss z1 = Inr z'" "same_frame z1 z'"
        "\<forall>t\<in>set ss. scoop_updated env z1 z' t" "\<forall>t. t \<notin> set ss \<longrightarrow> z_scoops z' t = z_scoops z1 t"
      using Cons.IH [of z1] Cons.prems later(1) by auto
    have "scoop_updated env z z' s" using z1(2) z'(4) Cons.prems(1) by (simp add: scoop_updated_def)
    then show ?case using z1 z' later(2) same_frame_trans [OF z1(3) z'(2)] by (intro exI [of _ z']) auto
  qed (simp add: same_frame_def)
  then show ?thesis using assms by (simp add: DoUpdateForScoops_def)
qed


definition unpin_sample_env :: unpin_env where
  "unpin_sample_env = \<lparr>up_on = True, up_should_cfi_pin = False, up_max_unpins = -1, up_insns = [0], up_scoops = [0],
     up_relocs = (\<lambda>i. [\<lparr>rl_type = ''pcrel'', rl_offset = 0, rl_addend = 0, rl_wrt = Some (WrtScoop 0)\<rparr>]),
     up_scoop_relocs = (\<lambda>s. [\<lparr>rl_type = ''data_to_insn_ptr'', rl_offset = 0, rl_addend = 0, rl_wrt = Some (WrtInsn 0)\<rparr>,
        \<lparr>rl_type = ''dataptr_to_scoop'', rl_offset = 8, rl_addend = 0, rl_wrt = Some (WrtScoop 0)\<rparr>]),
     up_bits = 64, up_exe = True, up_file_base = 0,
     up_pcrel_operand = (\<lambda>bs. Some \<lparr>mo_disp = 4, mo_disp_offset = 3, mo_disp_size = 4\<rparr>),
     up_mem_operand = (\<lambda>bs. None), up_immediate = (\<lambda>bs. 0)\<rparr>"

definition unpin_sample :: zunpin where
  "unpin_sample = \<lparr>z_ms = sample_space, z_ir = \<lparr>ir_insns = [0 \<mapsto> new_insn (DataBits [0x48, 0x8d, 5, 4, 0, 0, 0])], ir_next = 1\<rparr>,
     z_dm = dman_init, z_patch_at = Map.empty, z_patch_list = [], z_queue = [], z_locs = [0 \<mapsto> 0x1000], z_redirect = Map.empty,
     z_plopping = Map.empty, z_callbacks = [], z_replop = [],
     z_scoops = [0 \<mapsto> \<lparr>sc_name = ''.data'', sc_start = 0x2000, sc_end = 0x200f, sc_perms = 6, sc_relro = False,
       sc_contents = [0, 0, 0, 0, 0, 0, 0, 0, 5, 0, 0, 0, 0, 0, 0, 0], sc_registered = True\<rparr>], z_unpins = 0\<rparr>"

lemma unpin_sample_ready: "scoop_ready unpin_sample_env unpin_sample 0"
  by (simp add: scoop_ready_def unpin_sample_def unpin_sample_env_def scoop_at_def isExecuteable_def scoop_size_def
      data_reloc_ok_def data_width_def data_slot_def)


section \<open>The limit\<close>

text \<open>No more references than asked for are counted.\<close>

lemma count_unpins_limit:
  "count_unpins env f rs u = Inr n \<Longrightarrow> \<not> limit_reached env u \<Longrightarrow> u \<le> n \<and> (up_max_unpins env = -1 \<or> n \<le> up_max_unpins env)"
proof (induction rs arbitrary: u)
  case (Cons r rs)
  obtain c where c: "f r = Inr c" using Cons.prems(1) by (cases "f r") simp_all
  show ?case
  proof (cases "c \<and> limit_reached env (u + 1)")
    case True
    then show ?thesis using Cons.prems c by (auto simp: limit_reached_def)
  next
    case False
    then show ?thesis using Cons.prems c Cons.IH [of u] Cons.IH [of "u + 1"] by (cases c) auto
  qed
qed (auto simp: limit_reached_def)

lemma count_step:
  assumes "(if limit_reached env (z_unpins x) then Inr x else mapR (\<lambda>n. x\<lparr>z_unpins := n\<rparr>) (count_unpins env f rs (z_unpins x))) = Inr y"
    "up_max_unpins env = -1 \<or> z_unpins x \<le> up_max_unpins env"
  shows "\<exists>n. y = x\<lparr>z_unpins := n\<rparr> \<and> z_unpins x \<le> n \<and> (up_max_unpins env = -1 \<or> n \<le> up_max_unpins env)"
proof (cases "limit_reached env (z_unpins x)")
  case True
  then show ?thesis using assms by (intro exI [of _ "z_unpins x"]) simp
next
  case False
  then obtain n where "count_unpins env f rs (z_unpins x) = Inr n" "y = x\<lparr>z_unpins := n\<rparr>"
    using assms(1) by (auto simp: mapR_def bindR_def split: sum.splits)
  then show ?thesis using count_unpins_limit False by blast
qed

lemma DoUnpin_limit:
  assumes "DoUnpin env z = Inr z'" "up_max_unpins env = -1 \<or> z_unpins z \<le> up_max_unpins env"
  shows "\<exists>n. z' = z\<lparr>z_unpins := n\<rparr> \<and> z_unpins z \<le> n \<and> (up_max_unpins env = -1 \<or> n \<le> up_max_unpins env)"
proof -
  obtain z1 where 1: "DoUnpinForScoops env z = Inr z1" "DoUnpinForFixedCalls env z1 = Inr z'"
    using assms(1) by (auto simp: DoUnpin_def bindR_def split: sum.splits)
  obtain n where n: "z1 = z\<lparr>z_unpins := n\<rparr>" "z_unpins z \<le> n" "up_max_unpins env = -1 \<or> n \<le> up_max_unpins env"
    using count_step [OF 1(1) [unfolded DoUnpinForScoops_def] assms(2)] by blast
  then have "up_max_unpins env = -1 \<or> z_unpins z1 \<le> up_max_unpins env" by simp
  from count_step [OF 1(2) [unfolded DoUnpinForFixedCalls_def] this] obtain k where
    "z' = z1\<lparr>z_unpins := k\<rparr>" "z_unpins z1 \<le> k" "up_max_unpins env = -1 \<or> k \<le> up_max_unpins env" by blast
  then show ?thesis using n by (intro exI [of _ k]) simp
qed

end
