(* ===== verification/Zipr_UnpinX86.thy ===== *)
theory Zipr_UnpinX86
  imports Zipr_UnpinData Zipr_WriteProg
begin

text \<open>
  The references in instructions after the update: what is needed of one relocation of one
  instruction, the update of all instructions, and x86.
\<close>

section \<open>The update of all instructions\<close>

text \<open>
  \<open>i\<close> was updated: its bytes may be others, the addresses in \<open>R\<close> were written and are claimed.
\<close>

definition insn_frame :: "addr set \<Rightarrow> iid \<Rightarrow> 'a zunpin_scheme \<Rightarrow> 'a zunpin_scheme \<Rightarrow> bool" where
  "insn_frame R i z z' \<longleftrightarrow> writes R (z_ms z) (z_ms z') \<and> R \<inter> free_set (z_ms z') = {} \<and>
     (\<forall>j. loc_at j z' = loc_at j z) \<and> z_scoops z' = z_scoops z \<and> (\<forall>j. j \<noteq> i \<longrightarrow> ir_insns (z_ir z') j = ir_insns (z_ir z) j)"

definition handled :: "reloc \<Rightarrow> bool" where
  "handled r \<longleftrightarrow> rl_type r \<in> {''32-bit'', ''push64'', ''pcrel'', ''absoluteptr_to_scoop'', ''immedptr_to_scoop'', ''callback_to_scoop''}"

lemma handle_unhandled: "\<not> handled r \<Longrightarrow> handle_reloc ua i r z = Inr z"
  by (simp add: handled_def handle_reloc_def)

definition all_ready ::
  "('a zunpin_scheme \<Rightarrow> iid \<Rightarrow> reloc \<Rightarrow> bool) \<Rightarrow> ('a zunpin_scheme \<Rightarrow> iid \<Rightarrow> addr set) \<Rightarrow> unpin_env \<Rightarrow> iid list \<Rightarrow> 'a zunpin_scheme \<Rightarrow> bool" where
  "all_ready ready room env is z \<longleftrightarrow> distinct is \<and> ms_ok (z_ms z) \<and>
     (\<forall>i\<in>set is. room z i \<inter> free_set (z_ms z) = {} \<and> length (List.filter handled (up_relocs env i)) \<le> 1 \<and>
        (\<forall>r\<in>set (up_relocs env i). handled r \<longrightarrow> ready z i r)) \<and>
     (\<forall>i\<in>set is. \<forall>j\<in>set is. i \<noteq> j \<longrightarrow> room z i \<inter> room z j = {})"

text \<open>
  What a machine promises for a relocation that is \<open>ready\<close>: it writes in the \<open>room\<close> of the
  instruction and in free space, and as long as nobody else writes there the reference is \<open>good\<close>.
\<close>

locale reloc_update =
  fixes ua :: "'a zunpin_scheme unpin_arch" and ready :: "'a zunpin_scheme \<Rightarrow> iid \<Rightarrow> reloc \<Rightarrow> bool"
    and room :: "'a zunpin_scheme \<Rightarrow> iid \<Rightarrow> addr set" and good :: "'a zunpin_scheme \<Rightarrow> memory_space \<Rightarrow> iid \<Rightarrow> reloc \<Rightarrow> bool"
  assumes step: "ms_ok (z_ms z) \<Longrightarrow> ready z i r \<Longrightarrow> handled r \<Longrightarrow> room z i \<inter> free_set (z_ms z) = {} \<Longrightarrow>
      \<exists>z' R. handle_reloc ua i r z = Inr z' \<and> insn_frame R i z z' \<and> R \<subseteq> room z i \<union> free_set (z_ms z) \<and>
        (\<forall>m. (\<forall>x\<in>R. ms_peek x m = ms_peek x (z_ms z')) \<longrightarrow> good z m i r)"
    and later: "insn_frame R i z z' \<Longrightarrow> j \<noteq> i \<Longrightarrow> ready z' j r = ready z j r \<and> room z' j = room z j \<and> good z' m j r = good z m j r"
begin

lemma one_insn:
  assumes "ms_ok (z_ms z)" "room z i \<inter> free_set (z_ms z) = {}" "length (List.filter handled rs) \<le> 1"
    "\<forall>r\<in>set rs. handled r \<longrightarrow> ready z i r"
  shows "\<exists>z' R. foldR (handle_reloc ua i) rs z = Inr z' \<and> insn_frame R i z z' \<and> R \<subseteq> room z i \<union> free_set (z_ms z) \<and>
    (\<forall>m. (\<forall>x\<in>R. ms_peek x m = ms_peek x (z_ms z')) \<longrightarrow> (\<forall>r\<in>set rs. handled r \<longrightarrow> good z m i r))"
  using assms
proof (induction rs)
  case Nil
  then show ?case by (intro exI [of _ z] exI [of _ "{}"]) (simp add: insn_frame_def writes_refl)
next
  case (Cons r rs)
  show ?case
  proof (cases "handled r")
    case False
    then show ?thesis using Cons by (simp add: handle_unhandled)
  next
    case True
    then have none: "\<forall>q\<in>set rs. \<not> handled q" using Cons.prems(3) by (simp add: filter_empty_conv)
    have rest: "foldR (handle_reloc ua i) rs w = Inr w" for w
      using none by (induction rs) (simp_all add: handle_unhandled)
    show ?thesis using step [OF Cons.prems(1) _ True Cons.prems(2)] Cons.prems(4) True none rest by auto
  qed
qed

lemma update_all:
  assumes "all_ready ready room env is z"
  shows "\<exists>z' R. foldR (\<lambda>i. foldR (handle_reloc ua i) (up_relocs env i)) is z = Inr z' \<and>
    writes R (z_ms z) (z_ms z') \<and> R \<subseteq> (\<Union>i\<in>set is. room z i) \<union> free_set (z_ms z) \<and> R \<inter> free_set (z_ms z') = {} \<and>
    z_scoops z' = z_scoops z \<and>
    (\<forall>m. (\<forall>x\<in>R. ms_peek x m = ms_peek x (z_ms z')) \<longrightarrow> (\<forall>i\<in>set is. \<forall>r\<in>set (up_relocs env i). handled r \<longrightarrow> good z m i r))"
  using assms
proof (induction "is" arbitrary: z)
  case Nil
  then show ?case by (intro exI [of _ z] exI [of _ "{}"]) (simp add: all_ready_def writes_refl)
next
  case (Cons i "is")
  have i: "i \<notin> set is" "ms_ok (z_ms z)" "room z i \<inter> free_set (z_ms z) = {}" using Cons.prems by (simp_all add: all_ready_def)
  obtain z1 R1 where 1: "foldR (handle_reloc ua i) (up_relocs env i) z = Inr z1" "insn_frame R1 i z z1"
      "R1 \<subseteq> room z i \<union> free_set (z_ms z)"
      "\<forall>m. (\<forall>x\<in>R1. ms_peek x m = ms_peek x (z_ms z1)) \<longrightarrow> (\<forall>r\<in>set (up_relocs env i). handled r \<longrightarrow> good z m i r)"
    using one_insn [OF i(2,3), of "up_relocs env i"] Cons.prems by (auto simp: all_ready_def)
  have w1: "writes R1 (z_ms z) (z_ms z1)" "R1 \<inter> free_set (z_ms z1) = {}" using 1(2) by (simp_all add: insn_frame_def)
  have f: "free_set (z_ms z1) \<subseteq> free_set (z_ms z)" using w1(1) by (simp add: writes_def)
  have l: "ready z1 j r = ready z j r" "room z1 j = room z j" "good z1 m j r = good z m j r" if "j \<in> set is" for j r m
    using later [OF 1(2)] i(1) that by metis+
  have "all_ready ready room env is z1"
    unfolding all_ready_def
  proof (intro conjI ballI impI)
    fix j assume j: "j \<in> set is"
    then show "room z1 j \<inter> free_set (z_ms z1) = {}" "length (List.filter handled (up_relocs env j)) \<le> 1"
      using Cons.prems f l(2) by (fastforce simp: all_ready_def)+
    show "ready z1 j r" if "r \<in> set (up_relocs env j)" "handled r" for r
      using Cons.prems j that l(1) by (simp add: all_ready_def)
    show "room z1 j \<inter> room z1 k = {}" if "k \<in> set is" "j \<noteq> k" for k
      using Cons.prems j that l(2) by (simp add: all_ready_def)
  qed (use Cons.prems writes_ok [OF w1(1)] in \<open>simp_all add: all_ready_def\<close>)
  from Cons.IH [OF this] obtain z' R where 2: "foldR (\<lambda>i. foldR (handle_reloc ua i) (up_relocs env i)) is z1 = Inr z'"
      "writes R (z_ms z1) (z_ms z')" "R \<subseteq> (\<Union>i\<in>set is. room z1 i) \<union> free_set (z_ms z1)" "R \<inter> free_set (z_ms z') = {}"
      "z_scoops z' = z_scoops z1"
      "\<forall>m. (\<forall>x\<in>R. ms_peek x m = ms_peek x (z_ms z')) \<longrightarrow> (\<forall>i\<in>set is. \<forall>r\<in>set (up_relocs env i). handled r \<longrightarrow> good z1 m i r)"
    by blast
  have R: "R \<subseteq> (\<Union>i\<in>set is. room z i) \<union> free_set (z_ms z1)" using 2(3) l(2) by auto
  have "room z j \<inter> (room z i \<union> free_set (z_ms z)) = {}" if "j \<in> set is" for j
    using Cons.prems i(1) that unfolding all_ready_def by auto
  then have "R1 \<inter> R = {}" using R 1(3) w1(2) by blast
  then have "ms_peek x (z_ms z') = ms_peek x (z_ms z1)" if "x \<in> R1" for x using writes_peek [OF 2(2)] that by blast
  then have "\<forall>r\<in>set (up_relocs env i). handled r \<longrightarrow> good z m i r"
    if "\<forall>x\<in>R1 \<union> R. ms_peek x m = ms_peek x (z_ms z')" for m using 1(4) that by simp
  moreover have "\<forall>j\<in>set is. \<forall>r\<in>set (up_relocs env j). handled r \<longrightarrow> good z m j r"
    if "\<forall>x\<in>R1 \<union> R. ms_peek x m = ms_peek x (z_ms z')" for m using 2(6) that l(3) by simp
  moreover have "R1 \<inter> free_set (z_ms z') = {}" using w1(2) 2(2) by (auto simp: writes_def)
  moreover have "R1 \<union> R \<subseteq> (\<Union>j\<in>set (i # is). room z j) \<union> free_set (z_ms z)" using 1(3) R f by auto
  moreover have "z_scoops z' = z_scoops z" using 1(2) 2(5) by (simp add: insn_frame_def)
  ultimately show ?case
    using 1(1) 2(1,4) writes_trans [OF w1(1) 2(2)] by (intro exI [of _ z'] exI [of _ "R1 \<union> R"]) (simp add: Int_Un_distrib2)
qed

end

section \<open>A field of an instruction\<close>

text \<open>The instruction's bytes are \<open>bs\<close>, but for the four at \<open>off\<close>, which hold \<open>w\<close>.\<close>

definition holds_field :: "addr \<Rightarrow> byte list \<Rightarrow> int \<Rightarrow> uint32 \<Rightarrow> memory_space \<Rightarrow> bool" where
  "holds_field l bs off w m \<longleftrightarrow> ms_word (l + of_int off) m = w \<and>
     (\<forall>k<length bs. int k < off \<or> off + 4 \<le> int k \<longrightarrow> ms_peek (l + of_nat k) m = bs ! k)"

lemma field_written:
  assumes "\<forall>k<length bs. ms_peek (l + of_nat k) m = replace_bytes off (le_bytes w) bs ! k" "0 \<le> off" "off + 4 \<le> int (length bs)"
  shows "holds_field l bs off w m"
proof -
  obtain n where n: "off = int n" using assms(2) nonneg_int_cases by blast
  have len: "nat off + length (le_bytes w) \<le> length bs" using assms(3) n by (simp add: le_bytes_def)
  have b: "ms_peek (l + of_nat (n + j)) m = le_bytes w ! j" if "j < 4" for j
    using assms(1) [rule_format, of "n + j"] assms(3) that n nth_replace [OF len] by (simp add: le_bytes_def)
  have "ms_word (l + of_nat n) m = w"
    using b [of 0] b [of 1] b [of 2] b [of 3] by (simp add: ms_word_def le_bytes_def word4_bytes [unfolded One_nat_def] add_ac)
  moreover have "ms_peek (l + of_nat k) m = bs ! k" if "k < length bs" "int k < off \<or> off + 4 \<le> int k" for k
    using assms(1) that n nth_replace [OF len that(1)] by (auto simp: le_bytes_def)
  ultimately show ?thesis using n by (simp add: holds_field_def)
qed

lemma field_local:
  assumes "holds_field l bs off w m" "0 \<le> off" "off + 4 \<le> int (length bs)" "\<forall>x\<in>set (addrs l (length bs)). ms_peek x m' = ms_peek x m"
  shows "holds_field l bs off w m'"
proof -
  obtain n where n: "off = int n" using assms(2) nonneg_int_cases by blast
  have p: "ms_peek (l + of_nat k) m' = ms_peek (l + of_nat k) m" if "k < length bs" for k
    using assms(4) that by (auto simp: addrs_def)
  have "ms_word (l + of_nat n) m' = ms_word (l + of_nat n) m"
    using p [of n] p [of "n + 1"] p [of "n + 2"] p [of "n + 3"] assms(3) n by (simp add: ms_word_def add_ac)
  then show ?thesis using assms(1) n p by (simp add: holds_field_def)
qed

text \<open>Both ways to write the bytes of an instruction whose room is claimed.\<close>

lemma plop_bytes:
  assumes "ms_ok m" "length bs \<le> 15" "set (addrs l (length bs)) \<inter> free_set m = {}"
  shows "\<exists>m'. PlopBytes l bs m = Inr m' \<and> writes (set (addrs l (length bs))) m m' \<and> set (addrs l (length bs)) \<inter> free_set m' = {} \<and>
    (\<forall>k<length bs. ms_peek (l + of_nat k) m' = bs ! k)"
proof -
  have "length bs \<le> 2 ^ 64" using assms(2) by simp
  from plop_wrote [OF assms(1) this] obtain m' where "PlopBytes l bs m = Inr m'" "wrote (set (addrs l (length bs))) m m'"
      "\<forall>i<length bs. ms_peek (l + of_nat i) m' = bs ! i" by blast
  then show ?thesis using wrote_writes by (intro exI [of _ m']) (auto simp: wrote_def)
qed

lemma put_bytes:
  assumes "ms_ok m" "length bs \<le> 15" "set (addrs l (length bs)) \<inter> free_set m = {}"
  shows "writes (set (addrs l (length bs))) m (ms_put_list l bs m) \<and> set (addrs l (length bs)) \<inter> free_set (ms_put_list l bs m) = {} \<and>
    (\<forall>k<length bs. ms_peek (l + of_nat k) (ms_put_list l bs m) = bs ! k)"
  using assms by (auto simp: writes_def ms_put_list_peek_other ms_put_list_peek)

section \<open>x86\<close>

definition wrt_address :: "'a zunpin_scheme \<Rightarrow> wrt option \<Rightarrow> addr" where
  "wrt_address z w = (case w of Some (WrtScoop s) \<Rightarrow> sc_start (scoop_at s z) | Some (WrtInsn i) \<Rightarrow> loc_at i z | _ \<Rightarrow> 0)"

definition x86_code :: "(asm \<Rightarrow> byte list) \<Rightarrow> 'a zunpin_scheme \<Rightarrow> iid \<Rightarrow> addr set" where
  "x86_code asmb z i = set (addrs (loc_at i z) (length (data_bits asmb (z_ir z) i)))"

text \<open>A call that a callback replaces has five more bytes after it.\<close>

definition has_callback :: "unpin_env \<Rightarrow> iid \<Rightarrow> bool" where
  "has_callback env i \<longleftrightarrow> (\<exists>r\<in>set (up_relocs env i). rl_type r = ''callback_to_scoop'')"

definition x86_after :: "(asm \<Rightarrow> byte list) \<Rightarrow> 'a zunpin_scheme \<Rightarrow> iid \<Rightarrow> addr" where
  "x86_after asmb z i = loc_at i z + of_nat (length (data_bits asmb (z_ir z) i))"

definition reloc_room :: "(asm \<Rightarrow> byte list) \<Rightarrow> unpin_env \<Rightarrow> 'a zunpin_scheme \<Rightarrow> iid \<Rightarrow> addr set" where
  "reloc_room asmb env z i = x86_code asmb z i \<union> (if has_callback env i then set (addrs (x86_after asmb z i) 5) else {})"

definition is_disp :: "byte list \<Rightarrow> memop \<Rightarrow> bool" where
  "is_disp bs op \<longleftrightarrow> mo_disp_size op = 4 \<and> 0 < mo_disp_offset op \<and> mo_disp_offset op + 4 \<le> int (length bs)"

definition fits32 :: "addr \<Rightarrow> bool" where
  "fits32 x \<longleftrightarrow> scast (ucast x :: 32 word) = x"

definition pushes :: "unpin_env \<Rightarrow> reloc \<Rightarrow> iid option" where
  "pushes env r = (case rl_wrt r of Some (WrtInsn w) \<Rightarrow> if up_exe env \<and> \<not> up_should_cfi_pin env then Some w else None | _ \<Rightarrow> None)"

definition x86_ready :: "(asm \<Rightarrow> byte list) \<Rightarrow> unpin_env \<Rightarrow> 'a zunpin_scheme \<Rightarrow> iid \<Rightarrow> reloc \<Rightarrow> bool" where
  "x86_ready asmb env z i r \<longleftrightarrow>
     (let bs = data_bits asmb (z_ir z) i in
      ir_insns (z_ir z) i \<noteq> None \<and> length bs \<le> 15 \<and>
      (if rl_type r = ''32-bit'' \<or> rl_type r = ''push64'' then
         (\<forall>s. rl_wrt r \<noteq> Some (WrtScoop s)) \<and> rl_wrt r \<noteq> Some WrtOther \<and>
         (\<forall>w. pushes env r = Some w \<longrightarrow> first_byte bs = 0x68 \<and> length bs = 5 \<and> fits32 (loc_at w z))
       else if rl_type r = ''pcrel'' then
         rl_wrt r \<noteq> Some WrtOther \<and> (\<exists>op. up_pcrel_operand env bs = Some op \<and> is_disp bs op \<and>
           fits32 (mo_disp op + wrt_address z (rl_wrt r) + up_file_base env - loc_at i z))
       else if rl_type r = ''absoluteptr_to_scoop'' then
         (\<exists>s. rl_wrt r = Some (WrtScoop s)) \<and> (\<exists>op. up_mem_operand env bs = Some op \<and> is_disp bs op)
       else if rl_type r = ''immedptr_to_scoop'' then (\<exists>s. rl_wrt r = Some (WrtScoop s)) \<and> 4 \<le> length bs
       else rl_type r = ''callback_to_scoop'' \<and> has_callback env i))"

text \<open>
  The references: a push pushes the place of its instruction; what a displacement from the next
  instruction leads to; a displacement or an immediate that is an address; the \<open>lea rsp, [rsp+8]\<close>
  after a call that a callback replaces.
\<close>

definition lea_rsp_8 :: "byte list" where
  "lea_rsp_8 = [0x48, 0x8d, 0x64, 0x24, 8]"

definition x86_good :: "(asm \<Rightarrow> byte list) \<Rightarrow> unpin_env \<Rightarrow> 'a zunpin_scheme \<Rightarrow> memory_space \<Rightarrow> iid \<Rightarrow> reloc \<Rightarrow> bool" where
  "x86_good asmb env z m i r \<longleftrightarrow>
     (let bs = data_bits asmb (z_ir z) i; l = loc_at i z; n = of_nat (length bs) :: addr in
      (rl_type r = ''32-bit'' \<or> rl_type r = ''push64'' \<longrightarrow>
         (\<forall>w. pushes env r = Some w \<longrightarrow> ms_peek l m = 0x68 \<and> scast (ms_word (l + 1) m) = loc_at w z)) \<and>
      (rl_type r = ''pcrel'' \<longrightarrow> (\<forall>op. up_pcrel_operand env bs = Some op \<longrightarrow>
         (\<exists>w. holds_field l bs (mo_disp_offset op) w m \<and>
            l + n + scast w = wrt_address z (rl_wrt r) + (mo_disp op + n) + up_file_base env))) \<and>
      (rl_type r = ''absoluteptr_to_scoop'' \<longrightarrow> (\<forall>op. up_mem_operand env bs = Some op \<longrightarrow>
         holds_field l bs (mo_disp_offset op)
           (ucast (mo_disp op + wrt_address z (rl_wrt r) + ucast (rl_addend r) - up_file_base env)) m)) \<and>
      (rl_type r = ''immedptr_to_scoop'' \<longrightarrow>
         holds_field l bs (int (length bs) - 4) (ucast (up_immediate env bs + wrt_address z (rl_wrt r))) m) \<and>
      (rl_type r = ''callback_to_scoop'' \<longrightarrow>
         (\<forall>k<5. ms_peek (l + n + of_nat k) m = lea_rsp_8 ! k)))"

text \<open>The state after \<open>bs\<close> became the bytes of \<open>i\<close> and was written at its place.\<close>

lemma insn_frameI:
  assumes "writes R (z_ms z) m" "R \<inter> free_set m = {}" "\<forall>j. loc_at j z' = loc_at j z" "z_scoops z' = z_scoops z" "z_ms z' = m"
    "\<And>j. j \<noteq> i \<Longrightarrow> ir_insns (z_ir z') j = ir_insns (z_ir z) j"
  shows "insn_frame R i z z'"
  using assms by (simp add: insn_frame_def)

lemma loc_at_upd [simp]: "loc_at j (z\<lparr>z_locs := (z_locs z)(i \<mapsto> loc_at i z)\<rparr>) = loc_at j z"
  by (simp add: loc_at_def)

lemma loc_at_setDataBits [simp]: "loc_at j (setDataBits i bs z) = loc_at j z"
  by (simp add: loc_at_def setDataBits_def)

lemma first_nth: "bs \<noteq> [] \<Longrightarrow> first_byte bs = bs ! 0"
  by (cases bs) (simp_all add: first_byte_def)

lemma locs_frame: "loc_at j (z\<lparr>z_locs := (z_locs z)(i \<mapsto> loc_at i z), z_ms := m\<rparr>) = loc_at j z"
  by (simp add: loc_at_def)

text \<open>Bytes written over an instruction by either of the two ways.\<close>

lemma written_over:
  assumes "ms_ok (z_ms z)" "x86_code asmb z i \<inter> free_set (z_ms z) = {}" "bs = data_bits asmb (z_ir z) i" "length bs \<le> 15"
    "length new = length bs" "l = loc_at i z"
  shows "\<exists>m'. PlopBytes l new (z_ms z) = Inr m' \<and> writes (x86_code asmb z i) (z_ms z) m' \<and> x86_code asmb z i \<inter> free_set m' = {} \<and>
      (\<forall>k<length bs. ms_peek (l + of_nat k) m' = new ! k)"
    "writes (x86_code asmb z i) (z_ms z) (ms_put_list l new (z_ms z))"
    "x86_code asmb z i \<inter> free_set (ms_put_list l new (z_ms z)) = {}"
    "\<forall>k<length bs. ms_peek (l + of_nat k) (ms_put_list l new (z_ms z)) = new ! k"
proof -
  have R: "x86_code asmb z i = set (addrs l (length new))" using assms(3,5,6) by (simp add: x86_code_def)
  show "\<exists>m'. PlopBytes l new (z_ms z) = Inr m' \<and> writes (x86_code asmb z i) (z_ms z) m' \<and> x86_code asmb z i \<inter> free_set m' = {} \<and>
      (\<forall>k<length bs. ms_peek (l + of_nat k) m' = new ! k)"
    using plop_bytes [OF assms(1), of new l] assms(2,4,5) unfolding R by simp
  show "writes (x86_code asmb z i) (z_ms z) (ms_put_list l new (z_ms z))"
    "x86_code asmb z i \<inter> free_set (ms_put_list l new (z_ms z)) = {}"
    "\<forall>k<length bs. ms_peek (l + of_nat k) (ms_put_list l new (z_ms z)) = new ! k"
    using put_bytes [OF assms(1), of new l] assms(2,4,5) unfolding R by simp_all
qed

lemma length_field: "0 \<le> off \<Longrightarrow> off + 4 \<le> int (length bs) \<Longrightarrow> length (replace_bytes off (le_bytes w) bs) = length bs"
  by (simp add: le_bytes_def)

lemma with_wrt_same:
  assumes "w \<noteq> Some WrtOther"
  shows "\<exists>L. (\<forall>k. with_wrt w k z = k (wrt_address z w) (z\<lparr>z_locs := L\<rparr>)) \<and> (\<forall>j. loc_at j (z\<lparr>z_locs := L\<rparr>) = loc_at j z)"
proof -
  consider "w = None" | s where "w = Some (WrtScoop s)" | i where "w = Some (WrtInsn i)" using assms by (metis option.exhaust wrt.exhaust)
  then show ?thesis
  proof cases
    case (3 i)
    then show ?thesis
      by (intro exI [of _ "(z_locs z)(i \<mapsto> loc_at i z)"]) (simp add: with_wrt_def wrt_address_def with_loc_def)
  qed (auto simp: with_wrt_def wrt_address_def intro!: exI [of _ "z_locs z"])
qed

lemma wrt_address_locs: "\<forall>j. loc_at j (z\<lparr>z_locs := L\<rparr>) = loc_at j z \<Longrightarrow> wrt_address (z\<lparr>z_locs := L\<rparr>) w = wrt_address z w"
  by (simp add: wrt_address_def scoop_at_def split: option.split wrt.split)

lemma x86_pcrel_step:
  assumes "ms_ok (z_ms z)" "x86_ready asmb env z i r" "rl_type r = ''pcrel''" "x86_code asmb z i \<inter> free_set (z_ms z) = {}"
  shows "\<exists>z'. x86_HandlePcrelReloc asmb env i r z = Inr z' \<and> insn_frame (x86_code asmb z i) i z z' \<and>
    (\<forall>m. (\<forall>x\<in>x86_code asmb z i. ms_peek x m = ms_peek x (z_ms z')) \<longrightarrow> x86_good asmb env z m i r)"
proof -
  let ?bs = "data_bits asmb (z_ir z) i" and ?l = "loc_at i z" and ?to = "wrt_address z (rl_wrt r)"
  obtain op where op: "up_pcrel_operand env ?bs = Some op" "is_disp ?bs op"
      "fits32 (mo_disp op + ?to + up_file_base env - ?l)" and n: "length ?bs \<le> 15" and wo: "rl_wrt r \<noteq> Some WrtOther"
    using assms(2,3) by (auto simp: x86_ready_def Let_def)
  let ?d = "mo_disp op + of_nat (length ?bs) + ?to - of_nat (length ?bs) - (?l - up_file_base env)"
  define w where "w = (ucast ?d :: uint32)"
  define new where "new = replace_bytes (mo_disp_offset op) (le_bytes w) ?bs"
  have off: "0 \<le> mo_disp_offset op" "mo_disp_offset op + 4 \<le> int (length ?bs)" using op(2) by (simp_all add: is_disp_def)
  have len: "length new = length ?bs" unfolding new_def by (rule length_field [OF off])
  obtain m' where m': "PlopBytes ?l new (z_ms z) = Inr m'" "writes (x86_code asmb z i) (z_ms z) m'" "x86_code asmb z i \<inter> free_set m' = {}"
      "\<forall>k<length ?bs. ms_peek (?l + of_nat k) m' = new ! k"
    using written_over(1) [OF assms(1,4) refl n len refl] by blast
  define z1 where "z1 = z\<lparr>z_locs := (z_locs z)(i \<mapsto> ?l)\<rparr>"
  have z1: "\<forall>j. loc_at j z1 = loc_at j z" "wrt_address z1 w' = wrt_address z w'" for w'
    by (simp_all add: z1_def wrt_address_locs)
  obtain L where L: "\<forall>k :: addr \<Rightarrow> 'a zunpin_scheme \<Rightarrow> 'a zunpin_scheme result. with_wrt (rl_wrt r) k z1 = k (wrt_address z1 (rl_wrt r)) (z1\<lparr>z_locs := L\<rparr>)" "\<forall>j. loc_at j (z1\<lparr>z_locs := L\<rparr>) = loc_at j z1"
    using with_wrt_same [OF wo, of z1] by blast
  let ?z = "setDataBits i new (z1\<lparr>z_locs := L\<rparr>)\<lparr>z_ms := m'\<rparr>"
  have loc: "with_loc i k z = k ?l z1" for k :: "addr \<Rightarrow> 'a zunpin_scheme \<Rightarrow> 'a zunpin_scheme result" by (simp add: with_loc_def z1_def)
  have sel: "z_ms z1 = z_ms z" "z_ir z1 = z_ir z" by (simp_all add: z1_def)
  have h: "x86_HandlePcrelReloc asmb env i r z = Inr ?z"
    unfolding x86_HandlePcrelReloc_def Let_def op(1) option.case loc L(1) [rule_format] z1(2)
    using op(2) m'(1) by (simp add: is_disp_def new_def w_def on_ms_def setDataBits_def sel mapR_def)
  have "\<forall>j. loc_at j ?z = loc_at j z" using L(2) z1(1) by (simp add: loc_at_def setDataBits_def)
  then have "insn_frame (x86_code asmb z i) i z ?z"
    by (intro insn_frameI [OF m'(2,3)]) (simp_all add: setDataBits_def z1_def)
  moreover have "x86_good asmb env z m i r" if "\<forall>x\<in>x86_code asmb z i. ms_peek x m = ms_peek x m'" for m
  proof -
    have "holds_field ?l ?bs (mo_disp_offset op) w m'" using field_written [OF _ off] m'(4) by (simp add: new_def)
    then have f: "holds_field ?l ?bs (mo_disp_offset op) w m"
      by (rule field_local [OF _ off]) (use that in \<open>simp add: x86_code_def\<close>)
    have d: "?d = mo_disp op + ?to + up_file_base env - ?l" by (simp add: algebra_simps)
    have "scast w = mo_disp op + ?to + up_file_base env - ?l" using op(3) unfolding w_def d fits32_def .
    then have "?l + of_nat (length ?bs) + scast w = ?to + (mo_disp op + of_nat (length ?bs)) + up_file_base env" by simp
    then show ?thesis using f assms(3) op(1) by (auto simp: x86_good_def Let_def)
  qed
  ultimately show ?thesis using h by (intro exI [of _ ?z]) simp
qed

lemma x86_put_step:
  assumes "ms_ok (z_ms z)" "x86_code asmb z i \<inter> free_set (z_ms z) = {}" "length (data_bits asmb (z_ir z) i) \<le> 15"
    and z': "z' = z\<lparr>z_ir := f, z_locs := L, z_ms := ms_put_list (loc_at i z) new (z_ms z)\<rparr>"
    and "\<forall>j. loc_at j (z\<lparr>z_locs := L\<rparr>) = loc_at j z" "\<And>j. j \<noteq> i \<Longrightarrow> ir_insns f j = ir_insns (z_ir z) j"
    and "length new = length (data_bits asmb (z_ir z) i)"
    and good: "\<And>m. \<forall>k<length new. ms_peek (loc_at i z + of_nat k) m = new ! k \<Longrightarrow> x86_good asmb env z m i r"
  shows "insn_frame (x86_code asmb z i) i z z'"
    "(\<forall>x\<in>x86_code asmb z i. ms_peek x m = ms_peek x (z_ms z')) \<Longrightarrow> x86_good asmb env z m i r"
proof -
  note w = written_over(2-4) [OF assms(1,2) refl assms(3,7) refl]
  show "insn_frame (x86_code asmb z i) i z z'"
    using w(1,2) assms(5,6) by (intro insn_frameI) (simp_all add: z' loc_at_def)
  show "x86_good asmb env z m i r" if "\<forall>x\<in>x86_code asmb z i. ms_peek x m = ms_peek x (z_ms z')"
    using that w(3) assms(7) by (intro good) (auto simp: z' x86_code_def addrs_def)
qed

lemma x86_abs_step:
  assumes "ms_ok (z_ms z)" "x86_ready asmb env z i r" "rl_type r = ''absoluteptr_to_scoop''" "x86_code asmb z i \<inter> free_set (z_ms z) = {}"
  shows "\<exists>z'. x86_HandleAbsptrReloc asmb env i r z = Inr z' \<and> insn_frame (x86_code asmb z i) i z z' \<and>
    (\<forall>m. (\<forall>x\<in>x86_code asmb z i. ms_peek x m = ms_peek x (z_ms z')) \<longrightarrow> x86_good asmb env z m i r)"
proof -
  let ?bs = "data_bits asmb (z_ir z) i"
  obtain op s where op: "up_mem_operand env ?bs = Some op" "is_disp ?bs op" "rl_wrt r = Some (WrtScoop s)" and n: "length ?bs \<le> 15"
    using assms(2,3) by (auto simp: x86_ready_def Let_def)
  define w where "w = (ucast (mo_disp op + sc_start (scoop_at s z) + ucast (rl_addend r) - up_file_base env) :: uint32)"
  define new where "new = replace_bytes (mo_disp_offset op) (le_bytes w) ?bs"
  have off: "0 \<le> mo_disp_offset op" "mo_disp_offset op + 4 \<le> int (length ?bs)" using op(2) by (simp_all add: is_disp_def)
  have len: "length new = length ?bs" unfolding new_def by (rule length_field [OF off])
  let ?f = "update_insn i (\<lambda>n. n\<lparr>i_text := DataBits new\<rparr>) (z_ir z)"
  let ?z = "z\<lparr>z_ir := ?f, z_locs := (z_locs z)(i \<mapsto> loc_at i z), z_ms := ms_put_list (loc_at i z) new (z_ms z)\<rparr>"
  have h: "x86_HandleAbsptrReloc asmb env i r z = Inr ?z"
    using op by (simp add: x86_HandleAbsptrReloc_def Let_def is_disp_def with_loc_def new_def w_def setDataBits_def loc_at_def)
  have good: "x86_good asmb env z m i r" if "\<forall>k<length new. ms_peek (loc_at i z + of_nat k) m = new ! k" for m
  proof -
    have "holds_field (loc_at i z) ?bs (mo_disp_offset op) w m" using field_written [OF _ off] that len by (simp add: new_def)
    then show ?thesis using op(1,3) assms(3) by (simp add: x86_good_def Let_def wrt_address_def w_def)
  qed
  note st = x86_put_step [OF assms(1,4) n refl _ _ len good, of "(z_locs z)(i \<mapsto> loc_at i z)" ?f]
  show ?thesis using h st by (intro exI [of _ ?z]) simp
qed

lemma x86_immed_step:
  assumes "ms_ok (z_ms z)" "x86_ready asmb env z i r" "rl_type r = ''immedptr_to_scoop''" "x86_code asmb z i \<inter> free_set (z_ms z) = {}"
  shows "\<exists>z'. x86_HandleImmedptrReloc asmb env i r z = Inr z' \<and> insn_frame (x86_code asmb z i) i z z' \<and>
    (\<forall>m. (\<forall>x\<in>x86_code asmb z i. ms_peek x m = ms_peek x (z_ms z')) \<longrightarrow> x86_good asmb env z m i r)"
proof -
  let ?bs = "data_bits asmb (z_ir z) i"
  obtain s where s: "rl_wrt r = Some (WrtScoop s)" and n: "length ?bs \<le> 15" "4 \<le> length ?bs"
    using assms(2,3) by (auto simp: x86_ready_def Let_def)
  define w where "w = (ucast (up_immediate env ?bs + sc_start (scoop_at s z)) :: uint32)"
  define new where "new = replace_bytes (int (length ?bs) - 4) (le_bytes w) ?bs"
  have off: "0 \<le> int (length ?bs) - 4" "int (length ?bs) - 4 + 4 \<le> int (length ?bs)" using n(2) by simp_all
  have len: "length new = length ?bs" unfolding new_def by (rule length_field [OF off])
  let ?f = "update_insn i (\<lambda>n. n\<lparr>i_text := DataBits new\<rparr>) (z_ir z)"
  let ?z = "z\<lparr>z_ir := ?f, z_locs := (z_locs z)(i \<mapsto> loc_at i z), z_ms := ms_put_list (loc_at i z) new (z_ms z)\<rparr>"
  have h: "x86_HandleImmedptrReloc asmb env i r z = Inr ?z"
    using s n by (simp add: x86_HandleImmedptrReloc_def Let_def with_loc_def new_def w_def setDataBits_def loc_at_def)
  have good: "x86_good asmb env z m i r" if "\<forall>k<length new. ms_peek (loc_at i z + of_nat k) m = new ! k" for m
  proof -
    have "holds_field (loc_at i z) ?bs (int (length ?bs) - 4) w m" using field_written [OF _ off] that len by (simp add: new_def)
    then show ?thesis using s assms(3) by (simp add: x86_good_def Let_def wrt_address_def w_def)
  qed
  note st = x86_put_step [OF assms(1,4) n(1) refl _ _ len good, of "(z_locs z)(i \<mapsto> loc_at i z)" ?f]
  show ?thesis using h st by (intro exI [of _ ?z]) simp
qed

lemma x86_callback_step:
  assumes "ms_ok (z_ms z)" "rl_type r = ''callback_to_scoop''" "set (addrs (x86_after asmb z i) 5) \<inter> free_set (z_ms z) = {}"
  shows "\<exists>z'. x86_HandleCallbackReloc asmb env i r z = Inr z' \<and> insn_frame (set (addrs (x86_after asmb z i) 5)) i z z' \<and>
    (\<forall>m. (\<forall>x\<in>set (addrs (x86_after asmb z i) 5). ms_peek x m = ms_peek x (z_ms z')) \<longrightarrow> x86_good asmb env z m i r)"
proof -
  let ?a = "x86_after asmb z i"
  have n: "length lea_rsp_8 = 5" by (simp add: lea_rsp_8_def)
  obtain m' where m': "PlopBytes ?a lea_rsp_8 (z_ms z) = Inr m'" "writes (set (addrs ?a 5)) (z_ms z) m'" "set (addrs ?a 5) \<inter> free_set m' = {}"
      "\<forall>k<5. ms_peek (?a + of_nat k) m' = lea_rsp_8 ! k"
    using plop_bytes [OF assms(1), of lea_rsp_8 ?a] assms(3) unfolding n by auto
  let ?z = "z\<lparr>z_locs := (z_locs z)(i \<mapsto> loc_at i z), z_ms := m',
    z_ir := update_insn i (\<lambda>n. n\<lparr>i_tgt := None, i_callback := ''''\<rparr>) (z_ir z)\<rparr>"
  have "x86_HandleCallbackReloc asmb env i r z = Inr ?z"
    using m'(1) by (simp add: x86_HandleCallbackReloc_def with_loc_def on_ms_def lea_rsp_8_def x86_after_def mapR_def)
  moreover have "insn_frame (set (addrs ?a 5)) i z ?z"
    by (intro insn_frameI [OF m'(2,3)]) (simp_all add: loc_at_def update_insn_def)
  moreover have "x86_good asmb env z m i r" if "\<forall>x\<in>set (addrs ?a 5). ms_peek x m = ms_peek x m'" for m
    using that m'(4) assms(2) by (simp add: x86_good_def Let_def x86_after_def addrs_def)
  ultimately show ?thesis by (intro exI [of _ ?z]) simp
qed

lemma x86_push_step:
  assumes "ms_ok (z_ms z)" "x86_ready asmb env z i r" "rl_type r = ''32-bit'' \<or> rl_type r = ''push64''" "x86_code asmb z i \<inter> free_set (z_ms z) = {}"
  shows "\<exists>z' R. x86_HandleRetAddrReloc asmb env i r z = Inr z' \<and> R \<subseteq> x86_code asmb z i \<and> insn_frame R i z z' \<and>
    (\<forall>m. (\<forall>x\<in>R. ms_peek x m = ms_peek x (z_ms z')) \<longrightarrow> x86_good asmb env z m i r)"
proof -
  let ?bs = "data_bits asmb (z_ir z) i"
  have rdy: "length ?bs \<le> 15" "\<forall>s. rl_wrt r \<noteq> Some (WrtScoop s)" "rl_wrt r \<noteq> Some WrtOther"
      "\<forall>w. pushes env r = Some w \<longrightarrow> first_byte ?bs = 0x68 \<and> length ?bs = 5 \<and> fits32 (loc_at w z)"
    using assms(2,3) by (auto simp: x86_ready_def Let_def)
  show ?thesis
  proof (cases "pushes env r")
    case None
    have good: "x86_good asmb env z m i r" for m using None assms(3) by (auto simp: x86_good_def Let_def)
    show ?thesis
    proof (cases "rl_wrt r = None \<or> up_should_cfi_pin env")
      case True
      then have "x86_HandleRetAddrReloc asmb env i r z = Inr z"
        using rdy(2,3) by (auto simp: x86_HandleRetAddrReloc_def split: option.split wrt.split)
      then show ?thesis using good by (intro exI [of _ z] exI [of _ "{}"]) (simp add: insn_frame_def writes_refl assms(1))
    next
      case False
      then obtain w where w: "rl_wrt r = Some (WrtInsn w)" "\<not> up_exe env"
        using rdy(2,3) None by (cases "rl_wrt r") (auto simp: pushes_def split: wrt.splits if_splits)
      let ?z1 = "z\<lparr>z_locs := (z_locs z)(w \<mapsto> loc_at w z)\<rparr>"
      let ?z = "?z1\<lparr>z_locs := (z_locs ?z1)(i \<mapsto> loc_at i ?z1)\<rparr>"
      have "x86_HandleRetAddrReloc asmb env i r z = Inr ?z"
        using w False by (simp add: x86_HandleRetAddrReloc_def with_loc_def)
      moreover have "insn_frame {} i z ?z" by (intro insn_frameI) (simp_all add: writes_refl assms(1) loc_at_def)
      ultimately show ?thesis using good by (intro exI [of _ ?z] exI [of _ "{}"]) simp
    qed
  next
    case (Some w)
    then have w: "rl_wrt r = Some (WrtInsn w)" "up_exe env" "\<not> up_should_cfi_pin env"
      by (auto simp: pushes_def split: option.splits wrt.splits if_splits)
    have b: "first_byte ?bs = 0x68" "length ?bs = 5" "fits32 (loc_at w z)" using rdy(4) Some by simp_all
    define new where "new = 0x68 # le_bytes (ucast (loc_at w z) :: uint32)"
    have len: "length new = length ?bs" by (simp add: new_def b(2) le_bytes_def)
    let ?L = "(z_locs z)(w \<mapsto> loc_at w z, i \<mapsto> loc_at i (z\<lparr>z_locs := (z_locs z)(w \<mapsto> loc_at w z)\<rparr>))"
    let ?z = "z\<lparr>z_ir := z_ir z, z_locs := ?L, z_ms := ms_put_list (loc_at i z) new (z_ms z)\<rparr>"
    have L: "\<forall>j. loc_at j (z\<lparr>z_locs := ?L\<rparr>) = loc_at j z" by (simp add: loc_at_def)
    have h: "x86_HandleRetAddrReloc asmb env i r z = Inr ?z"
      using w b by (simp add: x86_HandleRetAddrReloc_def with_loc_def Let_def new_def fits32_def)
    have good: "x86_good asmb env z m i r" if "\<forall>k<length new. ms_peek (loc_at i z + of_nat k) m = new ! k" for m
    proof -
      have k: "ms_peek (loc_at i z + of_nat k) m = new ! k" if "k < 5" for k
        using \<open>\<forall>k<length new. _\<close> that len b(2) by simp
      have "ms_word (loc_at i z + 1) m = ucast (loc_at w z)"
        using k [of 1] k [of 2] k [of 3] k [of 4]
        by (simp add: ms_word_def new_def le_bytes_def word4_bytes [unfolded One_nat_def] add_ac)
      moreover have "ms_peek (loc_at i z) m = 0x68" using k [of 0] by (simp add: new_def)
      ultimately show ?thesis using Some b(3) assms(3) by (auto simp: x86_good_def Let_def fits32_def)
    qed
    note st = x86_put_step [OF assms(1,4) rdy(1) refl L refl len good]
    show ?thesis using h st by (intro exI [of _ ?z] exI [of _ "x86_code asmb z i"]) simp
  qed
qed

section \<open>x86 keeps the promise\<close>

lemma x86_step:
  assumes "ms_ok (z_ms z)" "x86_ready asmb env z i r" "handled r" "reloc_room asmb env z i \<inter> free_set (z_ms z) = {}"
  shows "\<exists>z' R. handle_reloc (x86_unpin asmb env) i r z = Inr z' \<and> insn_frame R i z z' \<and>
    R \<subseteq> reloc_room asmb env z i \<union> free_set (z_ms z) \<and>
    (\<forall>m. (\<forall>x\<in>R. ms_peek x m = ms_peek x (z_ms z')) \<longrightarrow> x86_good asmb env z m i r)"
proof -
  have c: "x86_code asmb z i \<inter> free_set (z_ms z) = {}" "x86_code asmb z i \<subseteq> reloc_room asmb env z i"
    using assms(4) by (auto simp: reloc_room_def)
  consider "rl_type r = ''32-bit'' \<or> rl_type r = ''push64''" | "rl_type r = ''pcrel''" | "rl_type r = ''absoluteptr_to_scoop''"
    | "rl_type r = ''immedptr_to_scoop''" | "rl_type r = ''callback_to_scoop''"
    using assms(3) by (auto simp: handled_def)
  then show ?thesis
  proof cases
    case 1
    then have "handle_reloc (x86_unpin asmb env) i r z = x86_HandleRetAddrReloc asmb env i r z"
      by (simp add: handle_reloc_def x86_unpin_def)
    then show ?thesis using x86_push_step [OF assms(1,2) 1 c(1)] c(2) by fastforce
  next
    case 2
    then have "handle_reloc (x86_unpin asmb env) i r z = x86_HandlePcrelReloc asmb env i r z"
      by (simp add: handle_reloc_def x86_unpin_def)
    then show ?thesis using x86_pcrel_step [OF assms(1,2) 2 c(1)] c(2) by fastforce
  next
    case 3
    then have "handle_reloc (x86_unpin asmb env) i r z = x86_HandleAbsptrReloc asmb env i r z"
      by (simp add: handle_reloc_def x86_unpin_def)
    then show ?thesis using x86_abs_step [OF assms(1,2) 3 c(1)] c(2) by fastforce
  next
    case 4
    then have "handle_reloc (x86_unpin asmb env) i r z = x86_HandleImmedptrReloc asmb env i r z"
      by (simp add: handle_reloc_def x86_unpin_def)
    then show ?thesis using x86_immed_step [OF assms(1,2) 4 c(1)] c(2) by fastforce
  next
    case 5
    then have h: "handle_reloc (x86_unpin asmb env) i r z = x86_HandleCallbackReloc asmb env i r z"
      by (simp add: handle_reloc_def x86_unpin_def)
    have "has_callback env i" using assms(2) 5 by (simp add: x86_ready_def Let_def)
    then have a: "set (addrs (x86_after asmb z i) 5) \<subseteq> reloc_room asmb env z i" by (simp add: reloc_room_def)
    then have "set (addrs (x86_after asmb z i) 5) \<inter> free_set (z_ms z) = {}" using assms(4) by blast
    from x86_callback_step [OF assms(1) 5 this, of env] a show ?thesis unfolding h by blast
  qed
qed

lemma x86_later:
  assumes "insn_frame R i z z'" "j \<noteq> i"
  shows "x86_ready asmb env z' j r = x86_ready asmb env z j r" "reloc_room asmb env z' j = reloc_room asmb env z j"
    "x86_good asmb env z' m j r = x86_good asmb env z m j r"
proof -
  have b: "ir_insns (z_ir z') j = ir_insns (z_ir z) j" using assms by (simp add: insn_frame_def)
  then have d: "data_bits asmb (z_ir z') j = data_bits asmb (z_ir z) j" by (simp add: data_bits_def the_insn_def)
  have l: "loc_at k z' = loc_at k z" for k using assms by (simp add: insn_frame_def)
  have w: "wrt_address z' x = wrt_address z x" for x
    using assms l by (simp add: wrt_address_def insn_frame_def scoop_at_def split: option.split wrt.split)
  show "x86_ready asmb env z' j r = x86_ready asmb env z j r" by (simp add: x86_ready_def b d l w)
  show "reloc_room asmb env z' j = reloc_room asmb env z j" by (simp add: reloc_room_def x86_code_def x86_after_def d l)
  show "x86_good asmb env z' m j r = x86_good asmb env z m j r" by (simp add: x86_good_def d l w)
qed

interpretation x86_update: reloc_update "x86_unpin asmb env" "x86_ready asmb env" "reloc_room asmb env" "x86_good asmb env"
  for asmb env
proof (unfold_locales, goal_cases)
  case (1 z i r)
  then show ?case by (intro x86_step)
next
  case (2 R i z z' j r m)
  show ?case using x86_later [OF 2] by blast
qed

text \<open>The update of the scoops leaves the instructions as ready as they were.\<close>

lemma x86_after_scoops:
  assumes "same_frame z z'"
  shows "x86_ready asmb env z' i r = x86_ready asmb env z i r" "reloc_room asmb env z' i = reloc_room asmb env z i"
    "x86_good asmb env z' m i r = x86_good asmb env z m i r"
proof -
  have f: "z_ir z' = z_ir z" "loc_at j z' = loc_at j z" for j using assms by (simp_all add: same_frame_def)
  have w: "wrt_address z' x = wrt_address z x" for x
    using same_frame_start [OF assms] f(2) by (simp add: wrt_address_def split: option.split wrt.split)
  show "x86_ready asmb env z' i r = x86_ready asmb env z i r" by (simp add: x86_ready_def f w)
  show "reloc_room asmb env z' i = reloc_room asmb env z i" by (simp add: reloc_room_def x86_code_def x86_after_def f)
  show "x86_good asmb env z' m i r = x86_good asmb env z m i r" by (simp add: x86_good_def f w)
qed


lemma unpin_sample_code: "reloc_room (\<lambda>_. []) unpin_sample_env unpin_sample 0 = set (addrs 0x1000 7)"
  by (simp add: reloc_room_def x86_code_def has_callback_def unpin_sample_def unpin_sample_env_def loc_at_def data_bits_def the_insn_def new_insn_def eval_nat_numeral)

lemma unpin_sample_all_ready:
  "all_ready (x86_ready (\<lambda>_. []) unpin_sample_env) (reloc_room (\<lambda>_. []) unpin_sample_env) unpin_sample_env (up_insns unpin_sample_env) unpin_sample"
proof -
  have "x86_ready (\<lambda>_. []) unpin_sample_env unpin_sample 0 (hd (up_relocs unpin_sample_env 0))"
    by (simp add: x86_ready_def unpin_sample_def unpin_sample_env_def loc_at_def data_bits_def the_insn_def new_insn_def
        is_disp_def fits32_def wrt_address_def scoop_at_def)
  moreover have "set (addrs 0x1000 7) \<inter> {0x100..0x1ff :: addr} = {}" by (simp add: addrs_def upt_rec)
  moreover have "z_ms unpin_sample = sample_space" by (simp add: unpin_sample_def)
  ultimately show ?thesis
    using sample_space_ok unpin_sample_code by (simp add: all_ready_def unpin_sample_env_def)
qed


end
