(* ===== verification/Zipr_Dom.thy ===== *)
theory Zipr_Dom
  imports Zipr_IR
begin

text \<open>
  Orders and dominators of control-flow graphs (\<open>libIRDB-cfg/src/dfs.cpp\<close> and \<open>domgraph.cpp\<close>).
  A block is named by its first instruction; the graph is given by the successors and the
  predecessors of each block, lists in the order in which the sets of block pointers are walked.
\<close>

type_synonym bid = iid

section \<open>Depth-first order\<close>

type_synonym dfs_state = "bid list \<times> (bid \<Rightarrow> bool)"

fun doDFS :: "nat \<Rightarrow> (bid \<Rightarrow> bid list) \<Rightarrow> bid \<Rightarrow> dfs_state \<Rightarrow> dfs_state result" where
  "doDFS 0 succs node st = Inl OutOfFuel"
| "doDFS (Suc n) succs node (order, visited) =
     foldR (\<lambda>s st. if \<not> snd st s then doDFS n succs s st else Inr st) (succs node)
       (order @ [node], visited(node := True))"

text \<open>
  The entry first, then what can be reached from blocks without predecessors, then the rest, each
  in the order of the map from blocks to flags. No entry: a null pointer is visited.
\<close>

definition getDFSOrder :: "nat \<Rightarrow> (bid \<Rightarrow> bid list) \<Rightarrow> (bid \<Rightarrow> bid list) \<Rightarrow> bid list \<Rightarrow> bid option \<Rightarrow> bid list result" where
  "getDFSOrder n succs preds blocks entry =
     (case entry of
        None \<Rightarrow> Inl NullDeref
      | Some r \<Rightarrow>
          bindR (doDFS n succs r ([], \<lambda>_. False)) (\<lambda>st.
          bindR (foldR (\<lambda>b st. if \<not> snd st b \<and> preds b = [] then doDFS n succs b st else Inr st) blocks st) (\<lambda>(order, visited).
          Inr (order @ List.filter (\<lambda>b. \<not> visited b) blocks))))"

section \<open>Dominators\<close>

type_synonym dom_map = "bid \<Rightarrow> bid set"

text \<open>A block without predecessors counts as a successor of the root.\<close>

definition dom_preds :: "(bid \<Rightarrow> bid list) \<Rightarrow> bid \<Rightarrow> bid \<Rightarrow> bid list" where
  "dom_preds preds r n = (if preds n = [] \<and> n \<noteq> r then [r] else preds n)"

definition dom_step :: "bid list \<Rightarrow> (bid \<Rightarrow> bid list) \<Rightarrow> bid \<Rightarrow> dom_map \<Rightarrow> bid \<Rightarrow> bid set" where
  "dom_step N preds r Domin n =
     insert n (fold (\<lambda>p T. T \<inter> Domin p) (dom_preds preds r n) (set N))"

definition dom_visit :: "bid list \<Rightarrow> (bid \<Rightarrow> bid list) \<Rightarrow> bid \<Rightarrow> bid \<Rightarrow> bool \<times> dom_map \<Rightarrow> bool \<times> dom_map" where
  "dom_visit N preds r n = (\<lambda>(change, Domin).
     if n = r then (change, Domin)
     else let D = dom_step N preds r Domin n in
       if D \<noteq> Domin n then (True, Domin(n := D)) else (change, Domin))"

fun dom_loop :: "nat \<Rightarrow> bid list \<Rightarrow> (bid \<Rightarrow> bid list) \<Rightarrow> bid \<Rightarrow> dom_map \<Rightarrow> dom_map result" where
  "dom_loop 0 N preds r Domin = Inl OutOfFuel"
| "dom_loop (Suc k) N preds r Domin =
     (let (change, Domin) = fold (dom_visit N preds r) N (False, Domin)
      in if change then dom_loop k N preds r Domin else Inr Domin)"

definition dom_init :: "bid list \<Rightarrow> bid \<Rightarrow> dom_map" where
  "dom_init N r = (\<lambda>n. if n = r then {r} else if n \<in> set N then set N else {})"

definition Dom_Comp :: "nat \<Rightarrow> bid list \<Rightarrow> (bid \<Rightarrow> bid list) \<Rightarrow> bid \<Rightarrow> dom_map result" where
  "Dom_Comp k N preds r = dom_loop k N preds r (dom_init N r)"

text \<open>
  \<open>Tmp[n]\<close> loses its elements while a copy of it is walked; the sets of the other blocks may have
  lost theirs before. The first element of an empty set is an end iterator. \<open>ord\<close> is the order of
  the block pointers.
\<close>

definition erase_idom :: "bid \<Rightarrow> bid \<Rightarrow> bid \<Rightarrow> dom_map \<Rightarrow> dom_map" where
  "erase_idom n s t Tmp = (if t \<noteq> s \<and> t \<in> Tmp s then Tmp(n := Tmp n - {t}) else Tmp)"

definition idom_visit :: "(bid set \<Rightarrow> bid list) \<Rightarrow> bid \<Rightarrow> bid \<Rightarrow> dom_map \<Rightarrow> dom_map" where
  "idom_visit ord r n Tmp =
     (if n = r then Tmp
      else let Tmp_n = ord (Tmp n) in fold (\<lambda>s. fold (erase_idom n s) Tmp_n) Tmp_n Tmp)"

definition first_idom :: "(bid set \<Rightarrow> bid list) \<Rightarrow> dom_map \<Rightarrow> bid \<Rightarrow> bid \<Rightarrow> bool \<times> (bid \<rightharpoonup> bid) \<Rightarrow> (bool \<times> (bid \<rightharpoonup> bid)) result" where
  "first_idom ord Tmp r n = (\<lambda>(warn, IDom).
     if n = r then Inr (warn, IDom)
     else (case ord (Tmp n) of
             [] \<Rightarrow> Inl NullDeref
           | d # ds \<Rightarrow> Inr (warn \<or> ds \<noteq> [], IDom(n \<mapsto> d))))"

definition Idom_Comp :: "(bid set \<Rightarrow> bid list) \<Rightarrow> bid list \<Rightarrow> dom_map \<Rightarrow> bid \<Rightarrow> (bool \<times> (bid \<rightharpoonup> bid)) result" where
  "Idom_Comp ord N Domin r =
     (let Tmp = fold (idom_visit ord r) N (\<lambda>n. if n \<in> set N then Domin n - {n} else {})
      in foldR (first_idom ord Tmp r) N (False, Map.empty))"

text \<open>Whom a block dominates: the maps the other way around.\<close>

definition Dominated_Compute :: "bid list \<Rightarrow> dom_map \<Rightarrow> dom_map" where
  "Dominated_Compute N Domin = fold (\<lambda>n dm d. if d \<in> Domin n then insert n (dm d) else dm d) N (\<lambda>_. {})"

definition IDominated_Compute :: "bid list \<Rightarrow> (bid \<rightharpoonup> bid) \<Rightarrow> dom_map" where
  "IDominated_Compute N idom = fold (\<lambda>n dm. case idom n of None \<Rightarrow> dm | Some d \<Rightarrow> dm(d := insert n (dm d))) N (\<lambda>_. {})"

record dom_graph =
  dg_dom :: dom_map
  dg_idom :: "bid \<rightharpoonup> bid"
  dg_dominated :: dom_map
  dg_idominated :: dom_map
  dg_warn :: bool

definition DominatorGraph ::
  "nat \<Rightarrow> nat \<Rightarrow> (bid set \<Rightarrow> bid list) \<Rightarrow> (bid \<Rightarrow> bid list) \<Rightarrow> (bid \<Rightarrow> bid list) \<Rightarrow> bid list \<Rightarrow> bid option \<Rightarrow> dom_graph result" where
  "DominatorGraph n k ord succs preds blocks entry =
     bindR (getDFSOrder n succs preds blocks entry) (\<lambda>dfs_order. let r = the entry in
     bindR (Dom_Comp k dfs_order preds r) (\<lambda>Domin.
     bindR (Idom_Comp ord dfs_order Domin r) (\<lambda>(warn, idom).
     Inr \<lparr>dg_dom = Domin, dg_idom = idom, dg_dominated = Dominated_Compute dfs_order Domin,
       dg_idominated = IDominated_Compute dfs_order idom, dg_warn = warn\<rparr>)))"

end
