(* ===== verification/Zipr_CFG.thy ===== *)
theory Zipr_CFG
  imports Zipr_Dom
begin

text \<open>
  Control-flow graphs of functions (\<open>libIRDB-cfg/src/BasicBlock.cpp\<close>, \<open>CFG.cpp\<close>,
  \<open>criticaledge.cpp\<close>). Of an instruction the IR gives the fallthrough, the target and the
  function; what the decoder says about it, its indirect targets and its relocations are
  parameters. A block is named by the instruction it was made for. Sets of pointers are walked in
  an order the program does not choose: \<open>io\<close> for instructions, \<open>bo\<close> for blocks.
\<close>

record cfg_env =
  ce_call :: "iid \<Rightarrow> bool"
  ce_return :: "iid \<Rightarrow> bool"
  ce_nop :: "iid \<Rightarrow> bool"
  ce_ibtargets :: "iid \<Rightarrow> iid list option"      \<comment> \<open>\<open>getIBTargets\<close>\<close>
  ce_fix_call :: "iid \<Rightarrow> iid list"             \<comment> \<open>the \<open>fix_call_fallthrough\<close> relocations with a WRT object\<close>
  ce_entry :: "nat \<Rightarrow> iid option"              \<comment> \<open>\<open>Function_t::getEntryPoint\<close>\<close>
  ce_insns :: "nat \<Rightarrow> iid list"                \<comment> \<open>\<open>Function_t::getInstructions\<close>\<close>

record basic_block =
  bb_insns :: "iid list"
  bb_preds :: "bid set"
  bb_succs :: "bid set"
  bb_exit :: bool

record cfg =
  cfg_blocks :: "bid list"
  cfg_block :: "bid \<Rightarrow> basic_block"
  cfg_entry :: "bid option"

definition new_block :: basic_block where
  "new_block = \<lparr>bb_insns = [], bb_preds = {}, bb_succs = {}, bb_exit = False\<rparr>"

definition empty_cfg :: cfg where
  "empty_cfg = \<lparr>cfg_blocks = [], cfg_block = (\<lambda>_. new_block), cfg_entry = None\<rparr>"

section \<open>Where blocks start\<close>

definition note_starts :: "ir \<Rightarrow> iid set \<Rightarrow> iid \<Rightarrow> iid set \<times> iid set \<Rightarrow> iid set \<times> iid set" where
  "note_starts f insns i = (\<lambda>(targets, found_fallthrough_to).
     let targets = (if ibta_of f i \<noteq> None then insert i targets else targets);
         targets = (case tgt_of f i of None \<Rightarrow> targets | Some t \<Rightarrow> if t \<in> insns then insert t targets else targets)
     in case ft_of f i of
          None \<Rightarrow> (targets, found_fallthrough_to)
        | Some n \<Rightarrow>
            let targets = (if tgt_of f i \<noteq> None \<and> n \<in> insns then insert n targets else targets);
                targets = (if n \<in> found_fallthrough_to then insert n targets else targets)
            in (targets, insert n found_fallthrough_to))"

definition FindBlockStarts :: "cfg_env \<Rightarrow> ir \<Rightarrow> nat \<Rightarrow> iid set" where
  "FindBlockStarts env f F =
     fst (fold (note_starts f (set (ce_insns env F))) (ce_insns env F)
       (case ce_entry env F of None \<Rightarrow> {} | Some e \<Rightarrow> {e}, {}))"

definition alloc_block :: "iid \<Rightarrow> cfg \<Rightarrow> cfg" where
  "alloc_block i g =
     (if i \<in> set (cfg_blocks g) then g
      else g\<lparr>cfg_blocks := cfg_blocks g @ [i], cfg_block := (cfg_block g)(i := new_block)\<rparr>)"

definition alloc_blocks :: "(iid set \<Rightarrow> iid list) \<Rightarrow> iid set \<Rightarrow> cfg \<Rightarrow> cfg" where
  "alloc_blocks io starts g = fold alloc_block (io starts) g"

section \<open>Building a block\<close>

definition upd_block :: "bid \<Rightarrow> (basic_block \<Rightarrow> basic_block) \<Rightarrow> cfg \<Rightarrow> cfg" where
  "upd_block b u g = g\<lparr>cfg_block := (cfg_block g)(b := u (cfg_block g b))\<rparr>"

definition link :: "bid \<Rightarrow> bid \<Rightarrow> cfg \<Rightarrow> cfg" where
  "link b t g = upd_block b (\<lambda>x. x\<lparr>bb_succs := insert t (bb_succs x)\<rparr>) (upd_block t (\<lambda>x. x\<lparr>bb_preds := insert b (bb_preds x)\<rparr>) g)"

definition link_if :: "bid \<Rightarrow> iid option \<Rightarrow> cfg \<Rightarrow> cfg" where
  "link_if b i g = (case i of None \<Rightarrow> g | Some t \<Rightarrow> if t \<in> set (cfg_blocks g) then link b t g else g)"

definition isFunctionExit :: "ir \<Rightarrow> iid \<Rightarrow> bool" where
  "isFunctionExit f i \<longleftrightarrow>
     function_of f i = None \<or>
     (case tgt_of f i of Some t \<Rightarrow> function_of f t \<noteq> function_of f i | None \<Rightarrow> False) \<or>
     (case ft_of f i of Some n \<Rightarrow> function_of f n \<noteq> function_of f i | None \<Rightarrow> False) \<or>
     (tgt_of f i = None \<and> ft_of f i = None)"

definition set_exit :: "bid \<Rightarrow> bool \<Rightarrow> cfg \<Rightarrow> cfg" where
  "set_exit b e g = upd_block b (\<lambda>x. x\<lparr>bb_exit := e\<rparr>) g"

definition visit_insn :: "cfg_env \<Rightarrow> ir \<Rightarrow> bid \<Rightarrow> iid \<Rightarrow> cfg \<Rightarrow> cfg" where
  "visit_insn env f b i g =
     (let g = upd_block b (\<lambda>x. x\<lparr>bb_insns := bb_insns x @ [i]\<rparr>) g;
          g = link_if b (if ce_call env i then None else tgt_of f i) g;
          g = (if isFunctionExit f i then set_exit b True g else g);
          g = fold (\<lambda>w g. set_exit b False (link_if b (Some w) g)) (ce_fix_call env i) g
      in link_if b (ft_of f i) g)"

fun build_loop :: "nat \<Rightarrow> cfg_env \<Rightarrow> ir \<Rightarrow> nat option \<Rightarrow> bid \<Rightarrow> iid \<Rightarrow> cfg \<Rightarrow> cfg result" where
  "build_loop 0 env f func b i g = Inl OutOfFuel"
| "build_loop (Suc n) env f func b i g =
     (let g' = visit_insn env f b i g in
      if tgt_of f i \<noteq> None then Inr g'
      else case ft_of f i of
        None \<Rightarrow> Inr g'
      | Some ft \<Rightarrow>
          if ft \<in> set (cfg_blocks g) then Inr g'
          else if function_of f ft \<noteq> func then Inr g'
          else build_loop n env f func b ft g')"

definition link_ibtarget :: "cfg_env \<Rightarrow> nat option \<Rightarrow> bid \<Rightarrow> iid \<Rightarrow> cfg \<Rightarrow> cfg result" where
  "link_ibtarget env func b t g =
     (if t \<in> set (cfg_blocks g) then
        case func of None \<Rightarrow> Inl NullDeref
        | Some F \<Rightarrow> Inr (if ce_entry env F \<noteq> Some t then link b t g else g)
      else Inr g)"

definition BuildBlock :: "nat \<Rightarrow> cfg_env \<Rightarrow> ir \<Rightarrow> bid \<Rightarrow> cfg \<Rightarrow> cfg result" where
  "BuildBlock n env f b g =
     bindR (build_loop n env f (function_of f b) b b g) (\<lambda>g.
     let insn = last (bb_insns (cfg_block g b)) in
     case ce_ibtargets env insn of
       None \<Rightarrow> Inr g
     | Some targets \<Rightarrow>
         if ce_return env insn \<or> ce_call env insn then Inr g
         else foldR (link_ibtarget env (function_of f b) b) targets g)"

definition build_blocks :: "nat \<Rightarrow> (iid set \<Rightarrow> iid list) \<Rightarrow> cfg_env \<Rightarrow> ir \<Rightarrow> cfg \<Rightarrow> cfg result" where
  "build_blocks n io env f g =
     foldR (\<lambda>b g. if bb_insns (cfg_block g b) \<noteq> [] then Inr g else BuildBlock n env f b g) (io (set (cfg_blocks g))) g"

section \<open>The graph of a function\<close>

definition find_unblocked_instructions :: "cfg_env \<Rightarrow> nat \<Rightarrow> cfg \<Rightarrow> iid set \<Rightarrow> iid set" where
  "find_unblocked_instructions env F g starts =
     starts \<union> Set.filter (\<lambda>i. \<not> ce_nop env i)
       (set (ce_insns env F) - (\<Union>b\<in>set (cfg_blocks g). set (bb_insns (cfg_block g b))))"

definition CFG_Build :: "nat \<Rightarrow> (iid set \<Rightarrow> iid list) \<Rightarrow> cfg_env \<Rightarrow> ir \<Rightarrow> nat \<Rightarrow> cfg result" where
  "CFG_Build n io env f F =
     (let starts = FindBlockStarts env f F in
      bindR (build_blocks n io env f (alloc_blocks io starts empty_cfg)) (\<lambda>g.
      let g = (if ce_entry env F \<noteq> None then g\<lparr>cfg_entry := ce_entry env F\<rparr> else g);
          starts = find_unblocked_instructions env F g starts
      in build_blocks n io env f (alloc_blocks io starts g)))"

definition hasEdge :: "cfg \<Rightarrow> bid \<Rightarrow> bid \<Rightarrow> bool" where
  "hasEdge g s t \<longleftrightarrow> s \<in> set (cfg_blocks g) \<and> t \<in> set (cfg_blocks g) \<and> t \<in> bb_succs (cfg_block g s)"

datatype edge_type = FallthroughEdge | TargetEdge | IndirectEdge

definition getEdgeType :: "ir \<Rightarrow> cfg \<Rightarrow> bid \<Rightarrow> bid \<Rightarrow> edge_type set" where
  "getEdgeType f g s t =
     (let last_in_src = last (bb_insns (cfg_block g s)); first_in_tgt = hd (bb_insns (cfg_block g t));
          ty = (if ft_of f last_in_src = Some first_in_tgt then {FallthroughEdge} else {});
          ty = (if tgt_of f last_in_src = Some first_in_tgt then insert TargetEdge ty else ty)
      in if ty = {} then {IndirectEdge} else ty)"

section \<open>Critical edges\<close>

definition direct_edge :: "ir \<Rightarrow> cfg \<Rightarrow> bid \<Rightarrow> bid \<Rightarrow> bool" where
  "direct_edge f g s t \<longleftrightarrow> TargetEdge \<in> getEdgeType f g s t \<or> FallthroughEdge \<in> getEdgeType f g s t"

definition num_successors :: "bool \<Rightarrow> ir \<Rightarrow> cfg \<Rightarrow> bid \<Rightarrow> nat" where
  "num_successors conservative f g s =
     (if conservative then card (bb_succs (cfg_block g s))
      else card (Set.filter (direct_edge f g s) (bb_succs (cfg_block g s))))"

definition num_predecessors :: "bool \<Rightarrow> ir \<Rightarrow> cfg \<Rightarrow> bid \<Rightarrow> nat" where
  "num_predecessors conservative f g t =
     (if conservative then card (bb_preds (cfg_block g t))
      else card (Set.filter (\<lambda>p. direct_edge f g p t) (bb_preds (cfg_block g t))))"

definition criticals :: "bool \<Rightarrow> ir \<Rightarrow> cfg \<Rightarrow> (bid \<times> bid) set" where
  "criticals conservative f g =
     (\<Union>s\<in>set (cfg_blocks g). if num_successors conservative f g s \<le> 1 then {}
        else Pair s ` Set.filter (\<lambda>t. 1 < num_predecessors conservative f g t) (bb_succs (cfg_block g s)))"

section \<open>Dominators of the graph\<close>

definition cfg_dominators :: "nat \<Rightarrow> nat \<Rightarrow> (bid set \<Rightarrow> bid list) \<Rightarrow> cfg \<Rightarrow> dom_graph result" where
  "cfg_dominators n k bo g =
     DominatorGraph n k bo (\<lambda>b. bo (bb_succs (cfg_block g b))) (\<lambda>b. bo (bb_preds (cfg_block g b)))
       (bo (set (cfg_blocks g))) (cfg_entry g)"

end
