(* ===== verification/Zipr_DomProps.thy ===== *)
theory Zipr_DomProps
  imports Zipr_Dom
begin

text \<open>
  The depth-first order has every block once; the iteration ends with the dominators, the blocks
  that every path from the root goes through; the immediate dominators are the closest of them.
\<close>

section \<open>Depth-first order\<close>

lemma foldR_inv:
  assumes "\<And>x s. x \<in> set xs \<Longrightarrow> Q s \<Longrightarrow> \<exists>s'. f x s = Inr s' \<and> Q s'" "Q s"
  shows "\<exists>s'. foldR f xs s = Inr s' \<and> Q s'"
  using assms
proof (induction xs arbitrary: s)
  case (Cons x xs)
  obtain s' where "f x s = Inr s'" "Q s'" using Cons.prems(1) [of x s] Cons.prems(2) by auto
  then show ?case using Cons.IH [of s'] Cons.prems(1) by simp
qed simp

definition dfs_ok :: "bid set \<Rightarrow> dfs_state \<Rightarrow> bool" where
  "dfs_ok B st \<longleftrightarrow> distinct (fst st) \<and> set (fst st) \<subseteq> B \<and> (\<forall>b. snd st b \<longleftrightarrow> b \<in> set (fst st))"

lemma doDFS_ok:
  assumes "finite B" "\<forall>b\<in>B. set (succs b) \<subseteq> B" "dfs_ok B st" "node \<in> B" "\<not> snd st node" "card (B - set (fst st)) \<le> n"
  shows "\<exists>st'. doDFS n succs node st = Inr st' \<and> dfs_ok B st' \<and> (\<exists>ext. fst st' = fst st @ node # ext)"
  using assms
proof (induction n arbitrary: node st)
  case 0
  then show ?case by (auto simp: dfs_ok_def)
next
  case (Suc n)
  obtain order vis where st: "st = (order, vis)" by fastforce
  have ok: "distinct order" "set order \<subseteq> B" "\<forall>b. vis b \<longleftrightarrow> b \<in> set order" "node \<in> B - set order"
    using Suc.prems by (auto simp: dfs_ok_def st)
  let ?Q = "\<lambda>s. dfs_ok B s \<and> (\<exists>ext. fst s = order @ node # ext)"
  have "card (B - set order - {node}) < card (B - set order)" using ok(4) Suc.prems(1) by (intro psubset_card_mono) auto
  then have c: "card (B - set order - {node}) \<le> n" using Suc.prems(6) by (simp add: st)
  have "\<exists>s'. foldR (\<lambda>s st. if \<not> snd st s then doDFS n succs s st else Inr st) (succs node) (order @ [node], vis(node := True)) = Inr s' \<and> ?Q s'"
  proof (rule foldR_inv)
    fix x s assume x: "x \<in> set (succs node)" and Q: "?Q s"
    have xB: "x \<in> B" using x Suc.prems(2,4) by auto
    have "card (B - set (fst s)) \<le> card (B - set order - {node})" using Q Suc.prems(1) by (intro card_mono) auto
    then have cs: "card (B - set (fst s)) \<le> n" using c by simp
    show "\<exists>s'. (if \<not> snd s x then doDFS n succs x s else Inr s) = Inr s' \<and> ?Q s'"
    proof (cases "snd s x")
      case False
      obtain s' where "doDFS n succs x s = Inr s'" "dfs_ok B s'" "\<exists>ext. fst s' = fst s @ x # ext"
        using Suc.IH [OF Suc.prems(1,2) _ xB False cs] Q by auto
      then show ?thesis using Q False by auto
    qed (use Q in auto)
  qed (use ok in \<open>auto simp: dfs_ok_def\<close>)
  then show ?case by (simp add: st)
qed

lemma getDFSOrder_ok:
  assumes d: "distinct blocks" and r: "r \<in> set blocks" and c: "\<forall>b\<in>set blocks. set (succs b) \<subseteq> set blocks"
    and n: "length blocks \<le> n"
  shows "\<exists>ext. getDFSOrder n succs preds blocks (Some r) = Inr (r # ext) \<and> distinct (r # ext) \<and> set (r # ext) = set blocks"
proof -
  let ?B = "set blocks"
  have nB: "card (?B - set (fst s)) \<le> n" for s :: dfs_state
    using n card_length [of blocks] card_mono [of ?B "?B - set (fst s)"] by simp
  note D = doDFS_ok [OF _ c _ _ _ nB]
  have "dfs_ok ?B ([], \<lambda>_. False)" by (simp add: dfs_ok_def)
  from D [OF _ this r] obtain st where st: "doDFS n succs r ([], \<lambda>_. False) = Inr st" "dfs_ok ?B st" "\<exists>ext. fst st = r # ext" by auto
  have "\<exists>st'. foldR (\<lambda>b st. if \<not> snd st b \<and> preds b = [] then doDFS n succs b st else Inr st) blocks st = Inr st' \<and>
      dfs_ok ?B st' \<and> (\<exists>ext. fst st' = r # ext)"
  proof (rule foldR_inv)
    fix x s assume x: "x \<in> ?B" and Q: "dfs_ok ?B s \<and> (\<exists>ext. fst s = r # ext)"
    show "\<exists>s'. (if \<not> snd s x \<and> preds x = [] then doDFS n succs x s else Inr s) = Inr s' \<and> dfs_ok ?B s' \<and> (\<exists>ext. fst s' = r # ext)"
    proof (cases "snd s x")
      case False
      obtain s' where "doDFS n succs x s = Inr s'" "dfs_ok ?B s'" "\<exists>ext. fst s' = fst s @ x # ext"
        using D [OF _ _ x False] Q by auto
      then show ?thesis using Q by (cases s; cases s'; auto)
    qed (use Q in simp)
  qed (use st in simp)
  then obtain order vis where o: "foldR (\<lambda>b st. if \<not> snd st b \<and> preds b = [] then doDFS n succs b st else Inr st) blocks st = Inr (order, vis)"
      "dfs_ok ?B (order, vis)" "\<exists>ext. order = r # ext" by auto
  have "distinct (order @ List.filter (\<lambda>b. \<not> vis b) blocks)" "set (order @ List.filter (\<lambda>b. \<not> vis b) blocks) = ?B"
    using o(2) d by (auto simp: dfs_ok_def)
  moreover have "getDFSOrder n succs preds blocks (Some r) = Inr (order @ List.filter (\<lambda>b. \<not> vis b) blocks)"
    by (simp add: getDFSOrder_def st(1) o(1))
  ultimately show ?thesis using o(3) by auto
qed

section \<open>Dominance\<close>

text \<open>The paths from the root \<open>r\<close>, along the predecessors \<open>P\<close>, with both ends.\<close>

inductive walk :: "(bid \<Rightarrow> bid list) \<Rightarrow> bid \<Rightarrow> bid list \<Rightarrow> bid \<Rightarrow> bool" for P r where
  walk_root: "walk P r [r] r"
| walk_step: "walk P r xs p \<Longrightarrow> p \<in> set (P n) \<Longrightarrow> walk P r (xs @ [n]) n"

definition dominates :: "(bid \<Rightarrow> bid list) \<Rightarrow> bid \<Rightarrow> bid \<Rightarrow> bid \<Rightarrow> bool" where
  "dominates P r d n \<longleftrightarrow> (\<forall>xs. walk P r xs n \<longrightarrow> d \<in> set xs)"

definition reached :: "(bid \<Rightarrow> bid list) \<Rightarrow> bid \<Rightarrow> bid \<Rightarrow> bool" where
  "reached P r n \<longleftrightarrow> (\<exists>xs. walk P r xs n)"

lemma walk_ends: "walk P r xs n \<Longrightarrow> xs \<noteq> [] \<and> last xs = n \<and> hd xs = r"
  by (induction rule: walk.induct) auto

lemma walk_prefix: "walk P r xs n \<Longrightarrow> xs = ys @ m # zs \<Longrightarrow> walk P r (ys @ [m]) m"
proof (induction arbitrary: zs rule: walk.induct)
  case walk_root
  then show ?case by (auto simp: Cons_eq_append_conv intro: walk.intros)
next
  case (walk_step xs p n)
  then show ?case by (cases zs rule: rev_cases) (auto intro: walk.intros)
qed

lemma walk_suffix: "walk P r xs n \<Longrightarrow> xs = ys @ m # zs \<Longrightarrow> walk P r us m \<Longrightarrow> walk P r (us @ zs) n"
proof (induction arbitrary: zs rule: walk.induct)
  case walk_root
  then show ?case by (auto simp: Cons_eq_append_conv)
next
  case (walk_step xs p n)
  show ?case
  proof (cases zs rule: rev_cases)
    case Nil
    then show ?thesis using walk_step by simp
  next
    case (snoc zs' z)
    then have "walk P r (us @ zs') p" using walk_step by simp
    then show ?thesis using walk.walk_step walk_step(2,4) snoc by fastforce
  qed
qed

lemma walk_closed:
  assumes "walk P r xs n" "\<forall>n\<in>B. set (P n) \<subseteq> B" "n \<in> B"
  shows "set xs \<subseteq> B"
  using assms by (induction rule: walk.induct) auto

lemma dominates_refl: "dominates P r n n"
  unfolding dominates_def using walk_ends last_in_set by metis

lemma dominates_root: "dominates P r d r \<Longrightarrow> d = r"
  unfolding dominates_def using walk_root [of P r] by fastforce

lemma root_dominates: "dominates P r r n"
  unfolding dominates_def using walk_ends hd_in_set by metis

lemma dominates_reached:
  assumes "dominates P r d n" "reached P r n"
  shows "reached P r d"
  using assms unfolding dominates_def reached_def by (metis split_list walk_prefix)

lemma dominates_trans:
  assumes "dominates P r c d" "dominates P r d n"
  shows "dominates P r c n"
  unfolding dominates_def
proof (intro allI impI)
  fix xs assume x: "walk P r xs n"
  then obtain ys zs where xs: "xs = ys @ d # zs" using assms(2) by (metis dominates_def split_list)
  have "walk P r (ys @ [d]) d" using walk_prefix [OF x xs] .
  then show "c \<in> set xs" using assms(1) xs by (auto simp: dominates_def)
qed

lemma dominates_antisym:
  assumes "dominates P r d e" "dominates P r e d" "reached P r d"
  shows "d = e"
proof (rule ccontr)
  assume ne: "d \<noteq> e"
  obtain xs where x: "walk P r xs d" using assms(3) by (auto simp: reached_def)
  then have "d \<in> set xs" using walk_ends last_in_set by metis
  then obtain ys zs where xs: "xs = ys @ d # zs" "d \<notin> set ys" by (meson split_list_first)
  have "walk P r (ys @ [d]) d" using walk_prefix [OF x xs(1)] .
  then have w: "walk P r (ys @ [d]) d" and "e \<in> set (ys @ [d])" using assms(2) by (auto simp: dominates_def)
  then obtain us vs where ys: "ys = us @ e # vs" using ne by (auto dest: split_list)
  have "walk P r (us @ [e]) e" by (rule walk_prefix [OF w, of us e "vs @ [d]"]) (simp add: ys)
  then show False using assms(1) xs(2) ys ne by (auto simp: dominates_def)
qed

lemma dominates_linear:
  assumes "dominates P r d n" "dominates P r e n" "reached P r n"
  shows "dominates P r d e \<or> dominates P r e d"
proof (cases "d = e")
  case False
  obtain xs where x: "walk P r xs n" using assms(3) by (auto simp: reached_def)
  have "\<exists>x\<in>set xs. x = d \<or> x = e" using x assms(1) by (auto simp: dominates_def)
  then obtain ys m zs where xs: "xs = ys @ m # zs" "m = d \<or> m = e" "\<forall>z\<in>set zs. \<not> (z = d \<or> z = e)"
    using split_list_last_prop [of xs "\<lambda>x. x = d \<or> x = e"] by blast
  have "d \<in> set (us @ zs) \<and> e \<in> set (us @ zs)" if "walk P r us m" for us
    using walk_suffix [OF x xs(1) that] assms(1,2) by (auto simp: dominates_def)
  then have "dominates P r d m \<and> dominates P r e m" using xs(3) by (auto simp: dominates_def)
  then show ?thesis using xs(2) by auto
qed (simp add: dominates_refl)

section \<open>The iteration\<close>

lemma dom_step_eq: "dom_step N preds r Domin n = insert n (set N \<inter> (\<Inter>p\<in>set (dom_preds preds r n). Domin p))"
proof -
  have "fold (\<lambda>p T. T \<inter> Domin p) ps T = T \<inter> (\<Inter>p\<in>set ps. Domin p)" for ps T
    by (induction ps arbitrary: T) auto
  then show ?thesis by (simp add: dom_step_def)
qed

definition doms :: "bid list \<Rightarrow> (bid \<Rightarrow> bid list) \<Rightarrow> bid \<Rightarrow> bid \<Rightarrow> bid set" where
  "doms N preds r n = {d \<in> set N. dominates (dom_preds preds r) r d n}"

definition dom_inv :: "bid list \<Rightarrow> (bid \<Rightarrow> bid list) \<Rightarrow> bid \<Rightarrow> dom_map \<Rightarrow> bool" where
  "dom_inv N preds r Domin \<longleftrightarrow> Domin r = {r} \<and>
     (\<forall>n\<in>set N. doms N preds r n \<subseteq> Domin n \<and> Domin n \<subseteq> set N \<and> (n \<noteq> r \<longrightarrow> dom_step N preds r Domin n \<subseteq> Domin n))"

definition dom_size :: "bid list \<Rightarrow> dom_map \<Rightarrow> nat" where
  "dom_size N Domin = (\<Sum>n\<in>set N. card (Domin n))"

lemma dom_visit_ok:
  assumes I: "dom_inv N preds r Domin" and n: "n \<in> set N" and c: "\<forall>n\<in>set N. set (dom_preds preds r n) \<subseteq> set N"
    and v: "dom_visit N preds r n (ch, Domin) = (ch', Domin')"
  shows "dom_inv N preds r Domin' \<and> dom_size N Domin' \<le> dom_size N Domin \<and>
    (ch' \<noteq> ch \<longrightarrow> dom_size N Domin' < dom_size N Domin) \<and>
    (\<not> ch' \<longrightarrow> \<not> ch \<and> Domin' = Domin \<and> (n \<noteq> r \<longrightarrow> dom_step N preds r Domin n = Domin n))"
proof (cases "n \<noteq> r \<and> dom_step N preds r Domin n \<noteq> Domin n")
  case True
  let ?D = "dom_step N preds r Domin n"
  have v': "ch'" "Domin' = Domin(n := ?D)" using v True by (auto simp: dom_visit_def Let_def)
  have sub: "?D \<subset> Domin n" using I n True by (auto simp: dom_inv_def)
  have le: "Domin' m \<subseteq> Domin m" for m using sub by (auto simp: v'(2))
  have step: "dom_step N preds r Domin' m \<subseteq> dom_step N preds r Domin m" for m
    using le by (fastforce simp: dom_step_eq)
  have "doms N preds r n \<subseteq> ?D"
  proof
    fix d assume d: "d \<in> doms N preds r n"
    have "d \<in> Domin p" if p: "p \<in> set (dom_preds preds r n)" "d \<noteq> n" for p
    proof -
      have "dominates (dom_preds preds r) r d p"
        using d that walk_step [of "dom_preds preds r" r _ p n] by (fastforce simp: doms_def dominates_def)
      then have "d \<in> doms N preds r p" using d by (simp add: doms_def)
      moreover have "p \<in> set N" using c n p(1) by blast
      ultimately show ?thesis using I unfolding dom_inv_def by blast
    qed
    then show "d \<in> ?D" using d by (auto simp: dom_step_eq doms_def)
  qed
  moreover have "Domin' m = Domin m" if "m \<noteq> n" for m using that by (simp add: v'(2))
  moreover have "dom_step N preds r Domin' m \<subseteq> Domin' m" if "m \<in> set N" "m \<noteq> r" for m
    using step [of m] that I unfolding dom_inv_def v'(2) by (cases "m = n") auto
  moreover have "Domin' m \<subseteq> set N" if "m \<in> set N" for m
    using le [of m] I that unfolding dom_inv_def by blast
  moreover have "doms N preds r m \<subseteq> Domin' m" if "m \<in> set N" for m
    using calculation(1) I that unfolding dom_inv_def v'(2) by (cases "m = n") auto
  moreover have "Domin' r = {r}" using I True by (simp add: dom_inv_def v'(2))
  ultimately have "dom_inv N preds r Domin'" unfolding dom_inv_def by blast
  moreover have fin: "finite (Domin m)" if "m \<in> set N" for m
    using I that finite_subset [of "Domin m" "set N"] by (simp add: dom_inv_def)
  have "dom_size N Domin' < dom_size N Domin"
    unfolding dom_size_def
  proof (rule sum_strict_mono_ex1)
    show "\<exists>m\<in>set N. card (Domin' m) < card (Domin m)"
      using n psubset_card_mono [OF fin [OF n] sub] by (auto simp: v'(2))
  qed (use card_mono [OF fin le] in auto)
  ultimately show ?thesis using v'(1) by simp
next
  case False
  then have "ch' = ch" "Domin' = Domin" using v by (auto simp: dom_visit_def Let_def split: if_splits)
  then show ?thesis using I False by auto
qed

lemma dom_pass_ok:
  assumes "dom_inv N preds r Domin" "set ns \<subseteq> set N" "\<forall>n\<in>set N. set (dom_preds preds r n) \<subseteq> set N"
    and "fold (dom_visit N preds r) ns (ch, Domin) = (ch', Domin')"
  shows "dom_inv N preds r Domin' \<and> dom_size N Domin' \<le> dom_size N Domin \<and>
    (ch' \<noteq> ch \<longrightarrow> dom_size N Domin' < dom_size N Domin) \<and>
    (\<not> ch' \<longrightarrow> \<not> ch \<and> Domin' = Domin \<and> (\<forall>n\<in>set ns. n \<noteq> r \<longrightarrow> dom_step N preds r Domin n = Domin n))"
  using assms
proof (induction ns arbitrary: ch Domin)
  case (Cons n ns)
  obtain ch1 D1 where v: "dom_visit N preds r n (ch, Domin) = (ch1, D1)" by fastforce
  have n: "n \<in> set N" and f: "fold (dom_visit N preds r) ns (ch1, D1) = (ch', Domin')" using Cons.prems(2,4) v by auto
  note V = dom_visit_ok [OF Cons.prems(1) n Cons.prems(3) v]
  have "dom_inv N preds r D1" "set ns \<subseteq> set N" using V Cons.prems(2) by auto
  from Cons.IH [OF this Cons.prems(3) f] V show ?case by (auto dest: le_less_trans less_le_trans le_trans)
qed simp

lemma dom_loop_ok:
  assumes "dom_inv N preds r Domin" "\<forall>n\<in>set N. set (dom_preds preds r n) \<subseteq> set N" "dom_size N Domin < k"
  shows "\<exists>D. dom_loop k N preds r Domin = Inr D \<and> dom_inv N preds r D \<and> (\<forall>n\<in>set N. n \<noteq> r \<longrightarrow> dom_step N preds r D n = D n)"
  using assms
proof (induction k arbitrary: Domin)
  case (Suc k)
  obtain ch D where f: "fold (dom_visit N preds r) N (False, Domin) = (ch, D)" by fastforce
  note V = dom_pass_ok [OF Suc.prems(1) subset_refl Suc.prems(2) f]
  show ?case
  proof (cases ch)
    case True
    then show ?thesis using V Suc.IH [of D] Suc.prems(2,3) by (simp add: f)
  next
    case False
    then show ?thesis using V Suc.prems(1) by (simp add: f)
  qed
qed simp

lemma dom_fixpoint:
  assumes I: "dom_inv N preds r D" and fx: "\<forall>n\<in>set N. n \<noteq> r \<longrightarrow> dom_step N preds r D n = D n"
    and c: "\<forall>n\<in>set N. set (dom_preds preds r n) \<subseteq> set N" and n: "n \<in> set N"
  shows "D n = doms N preds r n"
proof -
  have "D n \<subseteq> set xs" if "walk (dom_preds preds r) r xs n" "n \<in> set N" for xs
    using that
  proof (induction rule: walk.induct)
    case (walk_step xs p n)
    then have p: "p \<in> set N" using c by auto
    show ?case
    proof (cases "n = r")
      case True
      then show ?thesis using I by (simp add: dom_inv_def)
    next
      case False
      then have "D n = dom_step N preds r D n" using fx walk_step.prems by simp
      then have "D n \<subseteq> insert n (D p)" using walk_step(2) by (auto simp: dom_step_eq)
      then show ?thesis using walk_step.IH [OF p] by auto
    qed
  qed (use I in \<open>simp add: dom_inv_def\<close>)
  then have "D n \<subseteq> doms N preds r n" using I n by (auto simp: doms_def dominates_def dom_inv_def)
  then show ?thesis using I n by (auto simp: dom_inv_def)
qed

lemma Dom_Comp_ok:
  assumes r: "r \<in> set N" and c: "\<forall>n\<in>set N. set (preds n) \<subseteq> set N" and k: "length N * length N < k"
  shows "\<exists>D. Dom_Comp k N preds r = Inr D \<and> (\<forall>n\<in>set N. D n = doms N preds r n)"
proof -
  have c': "\<forall>n\<in>set N. set (dom_preds preds r n) \<subseteq> set N" using r c by (auto simp: dom_preds_def)
  have "dom_inv N preds r (dom_init N r)"
    using r dominates_root by (auto simp: dom_inv_def dom_init_def doms_def dom_step_eq)
  moreover have "dom_size N (dom_init N r) \<le> (\<Sum>n\<in>set N. card (set N))"
    unfolding dom_size_def by (intro sum_mono) (auto simp: dom_init_def Suc_le_eq card_gt_0_iff)
  then have "dom_size N (dom_init N r) \<le> card (set N) * card (set N)" by simp
  then have "dom_size N (dom_init N r) < k"
    using mult_le_mono [OF card_length [of N] card_length [of N]] k by simp
  ultimately show ?thesis
    using dom_loop_ok [of N preds r "dom_init N r" k] c' dom_fixpoint unfolding Dom_Comp_def by blast
qed

end
