(* ===== verification/Zipr_IDom.thy ===== *)
theory Zipr_IDom
  imports Zipr_DomProps
begin

text \<open>Immediate dominators, and the graph as a whole.\<close>

section \<open>The closest dominator\<close>

definition sdoms :: "bid list \<Rightarrow> (bid \<Rightarrow> bid list) \<Rightarrow> bid \<Rightarrow> bid \<Rightarrow> bid set" where
  "sdoms N P r n = {d \<in> set N. dominates P r d n \<and> d \<noteq> n}"

text \<open>Every other dominator of \<open>n\<close> dominates the immediate one.\<close>

definition is_idom :: "bid list \<Rightarrow> (bid \<Rightarrow> bid list) \<Rightarrow> bid \<Rightarrow> bid \<Rightarrow> bid \<Rightarrow> bool" where
  "is_idom N P r i n \<longleftrightarrow> i \<in> sdoms N P r n \<and> (\<forall>d\<in>sdoms N P r n. dominates P r d i)"

lemma sdoms_reached: "d \<in> sdoms N P r n \<Longrightarrow> reached P r n \<Longrightarrow> reached P r d"
  by (auto simp: sdoms_def dominates_reached)

lemma sdoms_trans:
  assumes "c \<in> sdoms N P r d" "d \<in> sdoms N P r n" "reached P r n"
  shows "c \<in> sdoms N P r n"
proof -
  have "c \<noteq> n"
  proof
    assume "c = n"
    then have "dominates P r d n" "dominates P r n d" using assms by (auto simp: sdoms_def)
    then have "d = n" using dominates_antisym dominates_reached assms(3) by metis
    then show False using assms(2) by (simp add: sdoms_def)
  qed
  then show ?thesis using assms dominates_trans by (auto simp: sdoms_def)
qed

lemma sdoms_mono: "d \<in> sdoms N P r n \<Longrightarrow> reached P r n \<Longrightarrow> sdoms N P r d \<subseteq> sdoms N P r n"
  using sdoms_trans by blast

lemma sdoms_irrefl: "d \<notin> sdoms N P r d"
  by (simp add: sdoms_def)

lemma sdoms_psubset: "d \<in> sdoms N P r n \<Longrightarrow> reached P r n \<Longrightarrow> card (sdoms N P r d) < card (sdoms N P r n)"
proof (rule psubset_card_mono)
  show "finite (sdoms N P r n)" by (simp add: sdoms_def)
qed (use sdoms_mono sdoms_irrefl in blast)

lemma sdoms_linear:
  assumes "d \<in> sdoms N P r n" "e \<in> sdoms N P r n" "reached P r n" "d \<noteq> e"
  shows "d \<in> sdoms N P r e \<or> e \<in> sdoms N P r d"
  using assms dominates_linear [of P r d n e] by (auto simp: sdoms_def)

text \<open>Of the dominators in a set the one with the most dominators is dominated by the others.\<close>

lemma sdoms_maximal:
  assumes "A \<subseteq> sdoms N P r n" "A \<noteq> {}" "reached P r n"
  obtains i where "i \<in> A" "\<forall>d\<in>A. d \<noteq> i \<longrightarrow> d \<in> sdoms N P r i"
proof -
  have "finite A" using assms(1) by (rule finite_subset) (simp add: sdoms_def)
  then have "finite ((\<lambda>d. card (sdoms N P r d)) ` A)" "(\<lambda>d. card (sdoms N P r d)) ` A \<noteq> {}" using assms(2) by auto
  from Max_in [OF this] obtain i where i: "i \<in> A" "card (sdoms N P r i) = Max ((\<lambda>d. card (sdoms N P r d)) ` A)" by auto
  have "d \<in> sdoms N P r i" if d: "d \<in> A" "d \<noteq> i" for d
  proof (rule ccontr)
    assume "d \<notin> sdoms N P r i"
    then have "i \<in> sdoms N P r d" using sdoms_linear [of d N P r n i] assms d i(1) by auto
    then have "card (sdoms N P r i) < card (sdoms N P r d)"
      using sdoms_psubset sdoms_reached assms(1,3) d(1) by (metis subsetD)
    moreover have "card (sdoms N P r d) \<le> card (sdoms N P r i)"
      unfolding i(2) using d(1) \<open>finite A\<close> by (intro Max_ge) auto
    ultimately show False by simp
  qed
  then show ?thesis using that i(1) by blast
qed

lemma idom_ex:
  assumes "r \<in> set N" "n \<noteq> r" "reached P r n"
  obtains i where "is_idom N P r i n"
proof -
  have "r \<in> sdoms N P r n" using assms root_dominates by (auto simp: sdoms_def)
  then have ne: "sdoms N P r n \<noteq> {}" by auto
  from sdoms_maximal [OF subset_refl this assms(3)] obtain i where
    "i \<in> sdoms N P r n" "\<forall>d\<in>sdoms N P r n. d \<noteq> i \<longrightarrow> d \<in> sdoms N P r i" by blast
  then have "is_idom N P r i n" using dominates_refl by (auto simp: is_idom_def sdoms_def)
  then show ?thesis by (rule that)
qed

lemma idom_unique:
  assumes "is_idom N P r i n" "is_idom N P r j n" "reached P r n"
  shows "i = j"
  using assms sdoms_reached dominates_antisym unfolding is_idom_def by metis

text \<open>Every strict dominator but the immediate one is the immediate dominator of another.\<close>

lemma idom_chain:
  assumes i: "is_idom N P r i n" and t: "t \<in> sdoms N P r n" "t \<noteq> i" and n: "reached P r n"
  obtains s where "s \<in> sdoms N P r n" "is_idom N P r t s"
proof -
  let ?A = "{s \<in> sdoms N P r n. t \<in> sdoms N P r s}"
  have "i \<in> ?A" using i t by (auto simp: is_idom_def sdoms_def)
  then obtain s where s: "s \<in> ?A" and min: "\<forall>u\<in>?A. card (sdoms N P r s) \<le> card (sdoms N P r u)"
    using ex_has_least_nat [of "\<lambda>s. s \<in> ?A" i "\<lambda>s. card (sdoms N P r s)"] by blast
  have sr: "reached P r s" using s n sdoms_reached by blast
  have "dominates P r d t" if d: "d \<in> sdoms N P r s" for d
  proof (cases "d = t")
    case False
    have "\<not> t \<in> sdoms N P r d"
    proof
      assume "t \<in> sdoms N P r d"
      then have "d \<in> ?A" using d s n sdoms_trans by blast
      then show False using min sdoms_psubset [OF d sr] by fastforce
    qed
    then show ?thesis using sdoms_linear [OF d _ sr False] s by (auto simp: sdoms_def)
  qed (simp add: dominates_refl)
  then have "is_idom N P r t s" using s by (simp add: is_idom_def)
  then show ?thesis using that s by blast
qed

section \<open>The algorithm\<close>

lemma erase_row:
  assumes "s \<noteq> n"
  shows "fold (erase_idom n s) ts Tmp m = (if m = n then Tmp n - {t \<in> set ts. t \<noteq> s \<and> t \<in> Tmp s} else Tmp m)"
proof (induction ts arbitrary: Tmp)
  case (Cons t ts)
  have "erase_idom n s t Tmp s = Tmp s" using assms by (simp add: erase_idom_def)
  moreover have "erase_idom n s t Tmp n = Tmp n - {u. u = t \<and> t \<noteq> s \<and> t \<in> Tmp s}"
    by (auto simp: erase_idom_def)
  moreover have "m \<noteq> n \<Longrightarrow> erase_idom n s t Tmp m = Tmp m" by (simp add: erase_idom_def)
  ultimately show ?case using Cons [of "erase_idom n s t Tmp"] by auto
qed simp

lemma erase_all:
  assumes "n \<notin> set ss"
  shows "fold (\<lambda>s. fold (erase_idom n s) ts) ss Tmp m =
    (if m = n then Tmp n - {t \<in> set ts. \<exists>s\<in>set ss. t \<noteq> s \<and> t \<in> Tmp s} else Tmp m)"
  using assms
proof (induction ss arbitrary: Tmp)
  case (Cons s ss)
  let ?T = "fold (erase_idom n s) ts Tmp"
  have T: "?T u = (if u = n then Tmp n - {t \<in> set ts. t \<noteq> s \<and> t \<in> Tmp s} else Tmp u)" for u
    using Cons.prems by (intro erase_row) auto
  have "{t \<in> set ts. \<exists>u\<in>set ss. t \<noteq> u \<and> t \<in> ?T u} = {t \<in> set ts. \<exists>u\<in>set ss. t \<noteq> u \<and> t \<in> Tmp u}"
    using Cons.prems T by (intro Collect_cong conj_cong bex_cong refl) auto
  then have "fold (\<lambda>s. fold (erase_idom n s) ts) ss ?T m =
      (if m = n then ?T n - {t \<in> set ts. \<exists>u\<in>set ss. t \<noteq> u \<and> t \<in> Tmp u} else ?T m)"
    using Cons by simp
  then show ?case using T by auto
qed simp

text \<open>The order of the pointers: a walk over a set sees each element once.\<close>

definition walks_sets :: "(bid set \<Rightarrow> bid list) \<Rightarrow> bool" where
  "walks_sets ord \<longleftrightarrow> (\<forall>A. finite A \<longrightarrow> set (ord A) = A \<and> distinct (ord A))"

lemma walks_sets_sorted: "walks_sets sorted_list_of_set"
  by (simp add: walks_sets_def)

definition tmp_ok :: "bid list \<Rightarrow> (bid \<Rightarrow> bid list) \<Rightarrow> bid \<Rightarrow> bid set \<Rightarrow> dom_map \<Rightarrow> bool" where
  "tmp_ok N P r don Tmp \<longleftrightarrow> (\<forall>m\<in>set N. reached P r m \<longrightarrow>
     (if m \<in> don \<and> m \<noteq> r then \<exists>i. is_idom N P r i m \<and> Tmp m = {i} else Tmp m = sdoms N P r m))"

lemma idom_visit_other:
  assumes "m \<noteq> n"
  shows "idom_visit ord r n Tmp m = Tmp m"
proof -
  have "fold (erase_idom n s) ts T m = T m" for s ts T
    using assms by (induction ts arbitrary: T) (auto simp: erase_idom_def)
  then have "fold (\<lambda>s. fold (erase_idom n s) ts) ss T m = T m" for ss ts T
    by (induction ss arbitrary: T) auto
  then show ?thesis by (simp add: idom_visit_def Let_def)
qed

lemma idom_visit_ok:
  assumes ord: "walks_sets ord" and T: "tmp_ok N P r don Tmp" and n: "n \<in> set N" "n \<notin> don" and r: "r \<in> set N"
  shows "tmp_ok N P r (insert n don) (idom_visit ord r n Tmp)"
proof (cases "n \<noteq> r \<and> reached P r n")
  case True
  then have Tn: "Tmp n = sdoms N P r n" using T n by (auto simp: tmp_ok_def)
  then have on: "set (ord (Tmp n)) = sdoms N P r n" using ord by (simp add: walks_sets_def sdoms_def)
  then have V: "idom_visit ord r n Tmp = Tmp(n := sdoms N P r n - {t \<in> sdoms N P r n. \<exists>s\<in>sdoms N P r n. t \<noteq> s \<and> t \<in> Tmp s})"
    using True erase_all [of n "ord (Tmp n)" "ord (Tmp n)" Tmp] sdoms_irrefl
    by (auto simp: idom_visit_def Let_def Tn fun_eq_iff)
  obtain i where i: "is_idom N P r i n" using idom_ex r True by metis
  have Ts: "Tmp s = sdoms N P r s \<or> (\<exists>j. is_idom N P r j s \<and> Tmp s = {j})" if "s \<in> sdoms N P r n" for s
  proof -
    have "s \<in> set N" "reached P r s" using that True sdoms_reached by (auto simp: sdoms_def)
    then show ?thesis using T by (auto simp: tmp_ok_def split: if_splits)
  qed
  have "\<exists>s\<in>sdoms N P r n. t \<noteq> s \<and> t \<in> Tmp s" if t: "t \<in> sdoms N P r n" "t \<noteq> i" for t
  proof -
    obtain s where s: "s \<in> sdoms N P r n" "is_idom N P r t s" using idom_chain [OF i t] True by blast
    have "reached P r s" using s(1) True sdoms_reached by blast
    then have "t \<in> Tmp s" using Ts [OF s(1)] s(2) idom_unique by (auto simp: is_idom_def)
    moreover have "t \<noteq> s" using s(2) sdoms_irrefl by (auto simp: is_idom_def)
    ultimately show ?thesis using s(1) by blast
  qed
  moreover have "\<not> (s \<in> sdoms N P r n \<and> i \<noteq> s \<and> i \<in> Tmp s)" for s
  proof
    assume s: "s \<in> sdoms N P r n \<and> i \<noteq> s \<and> i \<in> Tmp s"
    then have "i \<in> sdoms N P r s" using Ts [of s] by (auto simp: is_idom_def)
    moreover have "s \<in> sdoms N P r i" using s i by (auto simp: is_idom_def sdoms_def)
    moreover have "reached P r s" using s True sdoms_reached by blast
    ultimately show False using sdoms_trans sdoms_irrefl by metis
  qed
  moreover have "i \<in> sdoms N P r n" using i by (simp add: is_idom_def)
  ultimately have "sdoms N P r n - {t \<in> sdoms N P r n. \<exists>s\<in>sdoms N P r n. t \<noteq> s \<and> t \<in> Tmp s} = {i}" by blast
  then have "idom_visit ord r n Tmp = Tmp(n := {i})" unfolding V by simp
  then show ?thesis using T True i by (auto simp: tmp_ok_def)
next
  case False
  have "n = r \<Longrightarrow> idom_visit ord r n Tmp = Tmp" by (simp add: idom_visit_def)
  then show ?thesis using T False idom_visit_other unfolding tmp_ok_def by (metis insertE insertI2)
qed

lemma idom_visits_ok:
  assumes ord: "walks_sets ord" and r: "r \<in> set N"
  shows "tmp_ok N P r don Tmp \<Longrightarrow> set ns \<subseteq> set N \<Longrightarrow> distinct ns \<Longrightarrow> set ns \<inter> don = {} \<Longrightarrow>
    tmp_ok N P r (set ns \<union> don) (fold (idom_visit ord r) ns Tmp)"
proof (induction ns arbitrary: don Tmp)
  case (Cons n ns)
  have "tmp_ok N P r (insert n don) (idom_visit ord r n Tmp)"
    using idom_visit_ok [OF ord Cons.prems(1)] Cons.prems r by simp
  from Cons.IH [OF this] Cons.prems show ?case by simp
qed simp

lemma first_idoms:
  assumes "foldR (first_idom ord Tmp r) ns (w, I) = Inr (w', I')"
  shows "(\<forall>n. n \<in> set ns \<and> n \<noteq> r \<longrightarrow> (\<exists>ds. ord (Tmp n) \<noteq> [] \<and> I' n = Some (hd (ord (Tmp n))))) \<and>
    (\<forall>n. n \<notin> set ns \<or> n = r \<longrightarrow> I' n = I n) \<and> (w' \<longleftrightarrow> w \<or> (\<exists>n\<in>set ns. n \<noteq> r \<and> tl (ord (Tmp n)) \<noteq> []))"
  using assms
proof (induction ns arbitrary: w I)
  case (Cons n ns)
  obtain w1 I1 where f: "first_idom ord Tmp r n (w, I) = Inr (w1, I1)" "foldR (first_idom ord Tmp r) ns (w1, I1) = Inr (w', I')"
    using Cons.prems by (auto simp: bindR_eq_Inr)
  note IH = Cons.IH [OF f(2)]
  show ?case
  proof (cases "n = r")
    case True
    then show ?thesis using IH f(1) by (auto simp: first_idom_def)
  next
    case False
    then obtain d ds where "ord (Tmp n) = d # ds" "w1 \<longleftrightarrow> w \<or> ds \<noteq> []" "I1 = I(n \<mapsto> d)"
      using f(1) by (auto simp: first_idom_def split: list.splits)
    then show ?thesis using IH False by (cases "n \<in> set ns") auto
  qed
qed simp

lemma Idom_Comp_ok:
  assumes ord: "walks_sets ord" and N: "distinct N" "r \<in> set N" and D: "\<forall>n\<in>set N. Domin n = doms N preds r n"
  shows "Idom_Comp ord N Domin r = Inr (w, I) \<Longrightarrow> n \<in> set N \<Longrightarrow> n \<noteq> r \<Longrightarrow> reached (dom_preds preds r) r n \<Longrightarrow>
      \<exists>i. I n = Some i \<and> is_idom N (dom_preds preds r) r i n"
    "\<forall>n\<in>set N. reached (dom_preds preds r) r n \<Longrightarrow> \<exists>I. Idom_Comp ord N Domin r = Inr (False, I) \<and> dom I = set N - {r}"
proof -
  let ?P = "dom_preds preds r" and ?T0 = "\<lambda>n. if n \<in> set N then Domin n - {n} else {}"
  define Tmp where "Tmp = fold (idom_visit ord r) N ?T0"
  have "tmp_ok N ?P r {} ?T0" using D by (auto simp: tmp_ok_def doms_def sdoms_def)
  from idom_visits_ok [OF ord N(2) this] have T: "tmp_ok N ?P r (set N) Tmp" using N(1) by (simp add: Tmp_def)
  have one: "\<exists>i. is_idom N ?P r i m \<and> ord (Tmp m) = [i]" if m: "m \<in> set N" "m \<noteq> r" "reached ?P r m" for m
  proof -
    obtain i where i: "is_idom N ?P r i m" "Tmp m = {i}"
      using T [unfolded tmp_ok_def, rule_format, OF m(1,3)] m(1,2) by auto
    have "set (ord {i}) = {i}" "distinct (ord {i})" using ord by (simp_all add: walks_sets_def)
    then have "ord {i} = [i]" by (cases "ord {i}" rule: remdups_adj.cases) auto
    then show ?thesis using i by auto
  qed
  have E: "Idom_Comp ord N Domin r = foldR (first_idom ord Tmp r) N (False, Map.empty)"
    by (simp add: Idom_Comp_def Tmp_def)
  show "\<exists>i. I n = Some i \<and> is_idom N ?P r i n"
    if "Idom_Comp ord N Domin r = Inr (w, I)" "n \<in> set N" "n \<noteq> r" "reached ?P r n"
    using first_idoms [OF that(1) [unfolded E]] one [OF that(2-4)] that(2,3) by fastforce
  show "\<exists>I. Idom_Comp ord N Domin r = Inr (False, I) \<and> dom I = set N - {r}" if all: "\<forall>n\<in>set N. reached ?P r n"
  proof -
    have "\<exists>s'. foldR (first_idom ord Tmp r) N (False, Map.empty) = Inr s' \<and> True"
    proof (rule foldR_inv)
      fix x s assume "x \<in> set N"
      then show "\<exists>s'. first_idom ord Tmp r x s = Inr s' \<and> True" using one [of x] all by (cases s) (auto simp: first_idom_def)
    qed simp
    then obtain w I where I: "foldR (first_idom ord Tmp r) N (False, Map.empty) = Inr (w, I)" by auto
    have "\<not> w" "dom I = set N - {r}"
      using first_idoms [OF I] one all by (fastforce, force simp: dom_def)
    then show ?thesis using I E by simp
  qed
qed

section \<open>The whole graph\<close>

lemma Dominated_Compute_eq: "Dominated_Compute N D d = {n \<in> set N. d \<in> D n}"
proof -
  have "fold (\<lambda>n dm d. if d \<in> D n then insert n (dm d) else dm d) ns A d = A d \<union> {n \<in> set ns. d \<in> D n}" for ns A
    by (induction ns arbitrary: A) auto
  then show ?thesis by (simp add: Dominated_Compute_def)
qed

lemma IDominated_Compute_eq: "IDominated_Compute N I d = {n \<in> set N. I n = Some d}"
proof -
  have "fold (\<lambda>n dm. case I n of None \<Rightarrow> dm | Some d \<Rightarrow> dm(d := insert n (dm d))) ns A d = A d \<union> {n \<in> set ns. I n = Some d}" for ns A
    by (induction ns arbitrary: A) (auto split: option.splits)
  then show ?thesis by (simp add: IDominated_Compute_def)
qed

definition graph_ok :: "(bid \<Rightarrow> bid list) \<Rightarrow> (bid \<Rightarrow> bid list) \<Rightarrow> bid list \<Rightarrow> bool" where
  "graph_ok succs preds blocks \<longleftrightarrow> distinct blocks \<and>
     list_all (\<lambda>b. set (succs b) \<subseteq> set blocks \<and> set (preds b) \<subseteq> set blocks) blocks"

text \<open>C38: If every block can be reached, from the entry or from a block without predecessors, the
  dominator graph is computed without a warning: the dominators of a block are the blocks that all
  paths to it go through, its immediate dominator is the one of them that all others dominate, and
  the maps of dominated blocks are the inverse ones.
\<close>

theorem dominator_graph_correct:
  assumes "graph_ok succs preds blocks" "r \<in> set blocks" "walks_sets ord" "length blocks \<le> n" "length blocks * length blocks < k"
    and all: "\<forall>b\<in>set blocks. reached (dom_preds preds r) r b"
  shows "\<exists>g. DominatorGraph n k ord succs preds blocks (Some r) = Inr g \<and> \<not> dg_warn g \<and> (\<forall>b\<in>set blocks.
    dg_dom g b = {d \<in> set blocks. dominates (dom_preds preds r) r d b} \<and>
    (b \<noteq> r \<longrightarrow> (\<exists>i. dg_idom g b = Some i \<and> is_idom blocks (dom_preds preds r) r i b)) \<and>
    dg_dominated g b = {m \<in> set blocks. b \<in> dg_dom g m} \<and> dg_idominated g b = {m \<in> set blocks. dg_idom g m = Some b})"
proof -
  have g: "distinct blocks" "\<forall>b\<in>set blocks. set (succs b) \<subseteq> set blocks" "\<forall>b\<in>set blocks. set (preds b) \<subseteq> set blocks"
    using assms(1) by (simp_all add: graph_ok_def list_all_iff)
  obtain ext where N: "getDFSOrder n succs preds blocks (Some r) = Inr (r # ext)" "distinct (r # ext)" "set (r # ext) = set blocks"
    using getDFSOrder_ok [OF g(1) assms(2) g(2) assms(4)] by blast
  let ?N = "r # ext"
  have "length ?N = length blocks" using N(2,3) g(1) distinct_card by metis
  then have k: "length ?N * length ?N < k" using assms(5) by simp
  have rN: "r \<in> set ?N" by simp
  obtain D where D: "Dom_Comp k ?N preds r = Inr D" "\<forall>n\<in>set ?N. D n = doms ?N preds r n"
    using Dom_Comp_ok [OF rN _ k, of preds] g(3) N(3) by auto
  note I = Idom_Comp_ok [OF assms(3) N(2) rN D(2)]
  obtain idom where i: "Idom_Comp ord ?N D r = Inr (False, idom)" using I(2) all N(3) by auto
  have same: "is_idom ?N P r = is_idom blocks P r" "doms ?N preds r b = {d \<in> set blocks. dominates (dom_preds preds r) r d b}" for P b
    using N(3) by (auto simp: is_idom_def sdoms_def doms_def fun_eq_iff)
  have D': "\<forall>b\<in>set blocks. D b = {d \<in> set blocks. dominates (dom_preds preds r) r d b}"
    using D(2) unfolding N(3) same(2) .
  have idom: "\<exists>i. idom b = Some i \<and> is_idom blocks (dom_preds preds r) r i b" if "b \<in> set blocks" "b \<noteq> r" for b
    using I(1) [OF i] that all N(3) same(1) by fastforce
  show ?thesis
    using idom unfolding DominatorGraph_def N(1) by (simp add: D(1) i Dominated_Compute_eq IDominated_Compute_eq D' flip: N(3))
qed

theorem dominator_graph_correct_witness:
  defines "preds \<equiv> \<lambda>b. [[], [0], [0], [1, 2]] ! b" and "succs \<equiv> \<lambda>b. [[1, 2], [3], [3], []] ! b"
  shows "\<exists>g. DominatorGraph 4 17 sorted_list_of_set succs preds [0, 1, 2, 3] (Some 0) = Inr g \<and> \<not> dg_warn g \<and>
    dg_dom g 3 = {d \<in> {0, 1, 2, 3}. dominates (dom_preds preds 0) 0 d 3}"
proof -
  have ok: "graph_ok succs preds [0, 1, 2, 3]" by (auto simp: graph_ok_def preds_def succs_def)
  have w0: "walk (dom_preds preds 0) 0 [0] 0" by (rule walk_root)
  have w1: "walk (dom_preds preds 0) 0 [0, 1] 1" using walk_step [OF w0, of 1] by (simp add: preds_def dom_preds_def)
  have w2: "walk (dom_preds preds 0) 0 [0, 2] 2" using walk_step [OF w0, of 2] by (simp add: preds_def dom_preds_def)
  have w3: "walk (dom_preds preds 0) 0 [0, 1, 3] 3" using walk_step [OF w1, of 3] by (simp add: preds_def dom_preds_def)
  have "\<forall>b\<in>set [0, 1, 2, 3]. reached (dom_preds preds 0) 0 b"
    using w0 w1 w2 w3 by (auto simp: reached_def)
  from dominator_graph_correct [OF ok _ walks_sets_sorted _ _ this, of 4 17] show ?thesis by auto
qed

text \<open>A loop of three blocks that nothing leads to (the code allows for blocks that appear
  unreachable) is no block without predecessors, and each of its blocks is dominated by all. The
  sets that should keep one immediate dominator lose elements to sets that have lost theirs, and
  the first element of an empty set is taken.
\<close>

theorem unreachable_loop_no_idom:
  defines "preds \<equiv> \<lambda>b. [[], [3], [1], [2]] ! b" and "succs \<equiv> \<lambda>b. [[], [2], [3], [1]] ! b"
  shows "graph_ok succs preds [0, 1, 2, 3] \<and>
    DominatorGraph 4 17 sorted_list_of_set succs preds [0, 1, 2, 3] (Some 0) = Inl NullDeref"
proof -
  have "graph_ok succs preds [0, 1, 2, 3]" by (auto simp: graph_ok_def preds_def succs_def)
  moreover have "getDFSOrder 4 succs preds [0, 1, 2, 3] (Some 0) = Inr [0, 1, 2, 3]"
    by (simp add: getDFSOrder_def preds_def succs_def eval_nat_numeral)
  moreover have "\<exists>D. Dom_Comp 17 [0, 1, 2, 3] preds 0 = Inr D \<and> D 0 = {0} \<and> D 1 = {0, 1, 2, 3} \<and> D 2 = {0, 1, 2, 3} \<and> D 3 = {0, 1, 2, 3}"
  proof -
    let ?D = "dom_init [0, 1, 2, 3] 0"
    have "dom_step [0, 1, 2, 3] preds 0 ?D n = ?D n" if "n \<in> {1, 2, 3}" for n
      using that by (auto simp: dom_step_eq dom_preds_def preds_def dom_init_def)
    then have f: "fold (dom_visit [0, 1, 2, 3] preds 0) [0, 1, 2, 3] (False, ?D) = (False, ?D)"
      by (simp add: dom_visit_def)
    have "dom_loop (Suc 16) [0, 1, 2, 3] preds 0 ?D = Inr ?D" unfolding dom_loop.simps(2) f by simp
    then have "Dom_Comp 17 [0, 1, 2, 3] preds 0 = Inr ?D" by (simp add: Dom_Comp_def)
    then show ?thesis by (auto simp: dom_init_def)
  qed
  then obtain D where D: "Dom_Comp 17 [0, 1, 2, 3] preds 0 = Inr D" "D 0 = {0}" "D 1 = {0, 1, 2, 3}" "D 2 = {0, 1, 2, 3}" "D 3 = {0, 1, 2, 3}"
    by (elim exE conjE) (rule that)
  moreover have "Idom_Comp sorted_list_of_set [0, 1, 2, 3] D 0 = Inl NullDeref"
  proof -
    define T where "T = (\<lambda>n. if n \<in> set [0, 1, 2, 3] then D n - {n} else {})"
    have T1: "T 1 = {0, 2, 3}" and T2: "T 2 = {0, 1, 3}" and T3: "T 3 = {0, 1, 2}"
      unfolding T_def D(3-5) by auto
    define Tmp where "Tmp = fold (idom_visit sorted_list_of_set 0) [0, 1, 2, 3] T"
    have "idom_visit sorted_list_of_set 0 1 T 1 = T 1 - {t \<in> T 1. \<exists>s\<in>T 1. t \<noteq> s \<and> t \<in> T s}"
      using erase_all [of 1 "sorted_list_of_set (T 1)" "sorted_list_of_set (T 1)" T 1] T1
      by (simp add: idom_visit_def del: One_nat_def)
    also have "\<dots> = {}" unfolding T1 using T2 T3 by auto
    finally have "Tmp 1 = {}" by (simp add: Tmp_def idom_visit_other) (simp add: idom_visit_def)
    then show ?thesis
      unfolding Idom_Comp_def Let_def T_def [symmetric] Tmp_def [symmetric] by (simp add: first_idom_def)
  qed
  ultimately show ?thesis by (simp add: DominatorGraph_def)
qed

end
