(* ===== verification/Zipr_CFGProps.thy ===== *)
theory Zipr_CFGProps
  imports Zipr_CFG Zipr_IDom
begin

text \<open>
  The blocks of a function: each is a run of fallthroughs, they share no instruction, and every
  instruction that is not a nop is in one; edges are there for all transfers within the function.
\<close>

section \<open>What an operation adds to a block\<close>

definition adds :: "bid \<Rightarrow> iid list \<Rightarrow> bid set \<Rightarrow> cfg \<Rightarrow> cfg \<Rightarrow> bool" where
  "adds b ws S g g' \<longleftrightarrow> cfg_blocks g' = cfg_blocks g \<and> cfg_entry g' = cfg_entry g \<and>
     (\<forall>c. bb_insns (cfg_block g' c) = bb_insns (cfg_block g c) @ (if c = b then ws else [])) \<and>
     (\<forall>c. bb_succs (cfg_block g' c) = bb_succs (cfg_block g c) \<union> (if c = b then S else {})) \<and>
     (\<forall>c. bb_preds (cfg_block g' c) = bb_preds (cfg_block g c) \<union> (if c \<in> S then {b} else {}))"

lemma adds_refl: "adds b [] {} g g"
  by (simp add: adds_def)

lemma adds_trans: "adds b ws S g g' \<Longrightarrow> adds b ws' S' g' g'' \<Longrightarrow> adds b (ws @ ws') (S \<union> S') g g''"
  by (auto simp: adds_def)

lemma adds_link: "adds b [] {t} g (link b t g)"
  by (auto simp: adds_def link_def upd_block_def)

lemma adds_link_if: "adds b [] (set_option i \<inter> set (cfg_blocks g)) g (link_if b i g)"
  using adds_link adds_refl by (auto simp: link_if_def split: option.splits)

lemma adds_set_exit: "adds b [] {} g (set_exit b e g)"
  by (simp add: adds_def set_exit_def upd_block_def)

lemma adds_insn: "adds b [i] {} g (upd_block b (\<lambda>x. x\<lparr>bb_insns := bb_insns x @ [i]\<rparr>) g)"
  by (simp add: adds_def upd_block_def)

lemma adds_blocks: "adds b ws S g g' \<Longrightarrow> cfg_blocks g' = cfg_blocks g"
  by (simp add: adds_def)

lemma adds_fix_calls:
  "adds b [] (set ws \<inter> set (cfg_blocks g)) g (fold (\<lambda>w g. set_exit b False (link_if b (Some w) g)) ws g)"
proof (induction ws arbitrary: g)
  case (Cons w ws)
  let ?g = "set_exit b False (link_if b (Some w) g)"
  have 1: "adds b [] ({w} \<inter> set (cfg_blocks g)) g ?g"
    using adds_trans [OF adds_link_if [of b "Some w" g] adds_set_exit] by simp
  from adds_trans [OF 1 Cons [of ?g]] show ?case using adds_blocks [OF 1] by (simp add: Int_Un_distrib2 [symmetric])
qed (simp add: adds_refl)

definition direct_succs :: "cfg_env \<Rightarrow> ir \<Rightarrow> iid \<Rightarrow> iid set" where
  "direct_succs env f i =
     (if ce_call env i then {} else set_option (tgt_of f i)) \<union> set (ce_fix_call env i) \<union> set_option (ft_of f i)"

lemma adds_visit: "adds b [i] (direct_succs env f i \<inter> set (cfg_blocks g)) g (visit_insn env f b i g)"
proof -
  define K t where "K = set (cfg_blocks g)" and "t = (if ce_call env i then None else tgt_of f i)"
  define g1 where "g1 = upd_block b (\<lambda>x. x\<lparr>bb_insns := bb_insns x @ [i]\<rparr>) g"
  define g2 where "g2 = link_if b t g1"
  define g3 where "g3 = (if isFunctionExit f i then set_exit b True g2 else g2)"
  define g4 where "g4 = fold (\<lambda>w g. set_exit b False (link_if b (Some w) g)) (ce_fix_call env i) g3"
  have 1: "adds b [i] {} g g1" unfolding g1_def by (rule adds_insn)
  from adds_trans [OF 1 adds_link_if [of b t g1]]
  have 2: "adds b [i] (set_option t \<inter> K) g g2" using adds_blocks [OF 1] by (simp add: g2_def K_def)
  have 3: "adds b [i] (set_option t \<inter> K) g g3"
    using adds_trans [OF 2 adds_set_exit [of b g2 True]] 2 by (simp add: g3_def)
  from adds_trans [OF 3 adds_fix_calls [of b "ce_fix_call env i" g3]]
  have 4: "adds b [i] ((set_option t \<union> set (ce_fix_call env i)) \<inter> K) g g4"
    using adds_blocks [OF 3] by (simp add: Int_Un_distrib2 g4_def K_def)
  from adds_trans [OF 4 adds_link_if [of b "ft_of f i" g4]]
  have 5: "adds b [i] ((set_option t \<union> set (ce_fix_call env i) \<union> set_option (ft_of f i)) \<inter> K) g (link_if b (ft_of f i) g4)"
    using adds_blocks [OF 4] by (simp add: Int_Un_distrib2 K_def)
  have "visit_insn env f b i g = link_if b (ft_of f i) g4"
    by (simp add: visit_insn_def Let_def g4_def g3_def g2_def g1_def t_def)
  moreover have "direct_succs env f i = set_option t \<union> set (ce_fix_call env i) \<union> set_option (ft_of f i)"
    by (simp add: direct_succs_def t_def)
  ultimately show ?thesis using 5 by (simp add: K_def)
qed

section \<open>Runs of fallthroughs\<close>

definition stops :: "ir \<Rightarrow> nat option \<Rightarrow> iid set \<Rightarrow> iid \<Rightarrow> bool" where
  "stops f func K i \<longleftrightarrow> tgt_of f i \<noteq> None \<or>
     (case ft_of f i of None \<Rightarrow> True | Some n \<Rightarrow> n \<in> K \<or> function_of f n \<noteq> func)"

fun run :: "ir \<Rightarrow> nat option \<Rightarrow> iid set \<Rightarrow> iid list \<Rightarrow> bool" where
  "run f func K [] \<longleftrightarrow> False"
| "run f func K [i] \<longleftrightarrow> stops f func K i"
| "run f func K (i # j # is) \<longleftrightarrow> \<not> stops f func K i \<and> ft_of f i = Some j \<and> run f func K (j # is)"

lemma build_loop_adds:
  assumes "build_loop n env f func b i g = Inr g'"
  shows "\<exists>ws. run f func (set (cfg_blocks g)) (i # ws) \<and>
    adds b (i # ws) ((\<Union>x\<in>set (i # ws). direct_succs env f x) \<inter> set (cfg_blocks g)) g g'"
  using assms
proof (induction n arbitrary: i g)
  case (Suc n)
  let ?K = "set (cfg_blocks g)" and ?g = "visit_insn env f b i g"
  note V = adds_visit [of b i env f g]
  show ?case
  proof (cases "stops f func ?K i")
    case True
    then have "g' = ?g" using Suc.prems by (auto simp: stops_def Let_def split: option.splits if_splits)
    then show ?thesis using True V by (intro exI [of _ "[]"]) simp
  next
    case False
    then obtain j where j: "ft_of f i = Some j" "build_loop n env f func b j ?g = Inr g'"
      using Suc.prems by (auto simp: stops_def Let_def split: option.splits if_splits)
    obtain ws where ws: "run f func ?K (j # ws)"
        "adds b (j # ws) ((\<Union>x\<in>set (j # ws). direct_succs env f x) \<inter> ?K) ?g g'"
      using Suc.IH [OF j(2)] adds_blocks [OF V] by auto
    have "adds b (i # j # ws) ((\<Union>x\<in>set (i # j # ws). direct_succs env f x) \<inter> ?K) g g'"
      using adds_trans [OF V ws(2)] by (simp add: Int_Un_distrib2)
    then show ?thesis using False j(1) ws(1) by (intro exI [of _ "j # ws"]) simp
  qed
qed simp

lemma build_loop_stop:
  assumes "stops f func (set (cfg_blocks g)) i"
  shows "build_loop (Suc n) env f func b i g = Inr (visit_insn env f b i g)"
  using assms by (auto simp: stops_def Let_def split: option.splits)

lemma build_loop_go:
  assumes "\<not> stops f func (set (cfg_blocks g)) i" "ft_of f i = Some j"
  shows "build_loop (Suc n) env f func b i g = build_loop n env f func b j (visit_insn env f b i g)"
  using assms by (auto simp: stops_def Let_def)

section \<open>The function\<close>

text \<open>
  The function knows its instructions and they know it; its entry is one of them; and no two of
  them fall through to the same instruction of another function, which would become a block.
\<close>

definition function_ok :: "cfg_env \<Rightarrow> ir \<Rightarrow> nat \<Rightarrow> bool" where
  "function_ok env f F \<longleftrightarrow> distinct (ce_insns env F) \<and>
     (\<forall>i. i \<in> set (ce_insns env F) \<longleftrightarrow> function_of f i = Some F) \<and>
     (\<forall>e. ce_entry env F = Some e \<longrightarrow> e \<in> set (ce_insns env F)) \<and>
     (\<forall>i j n. i \<noteq> j \<longrightarrow> i \<in> set (ce_insns env F) \<longrightarrow> j \<in> set (ce_insns env F) \<longrightarrow>
        ft_of f i = Some n \<longrightarrow> ft_of f j = Some n \<longrightarrow> n \<in> set (ce_insns env F))"

lemma note_starts_mono:
  "fst st \<subseteq> fst (note_starts f I i st)" "snd st \<subseteq> snd (note_starts f I i st)"
  "ft_of f i = Some n \<Longrightarrow> n \<in> snd (note_starts f I i st)"
  "ft_of f i = Some n \<Longrightarrow> n \<in> snd st \<Longrightarrow> n \<in> fst (note_starts f I i st)"
  "tgt_of f i = Some t \<Longrightarrow> t \<in> I \<Longrightarrow> t \<in> fst (note_starts f I i st)"
  "tgt_of f i = Some t \<Longrightarrow> ft_of f i = Some n \<Longrightarrow> n \<in> I \<Longrightarrow> n \<in> fst (note_starts f I i st)"
  "ibta_of f i \<noteq> None \<Longrightarrow> i \<in> fst (note_starts f I i st)"
  by (auto simp: note_starts_def Let_def split: option.splits prod.splits if_splits)

lemma notes_mono: "fst st \<subseteq> fst (fold (note_starts f I) is st) \<and> snd st \<subseteq> snd (fold (note_starts f I) is st)"
proof (induction "is" arbitrary: st)
  case (Cons i "is")
  then show ?case using note_starts_mono(1,2) [of st f I i] by (metis fold_simps(2) subset_trans)
qed simp

lemma notes_insn:
  assumes "i \<in> set is"
  shows "(\<forall>n. ft_of f i = Some n \<longrightarrow> n \<in> snd (fold (note_starts f I) is st)) \<and>
    (\<forall>t. tgt_of f i = Some t \<longrightarrow> t \<in> I \<longrightarrow> t \<in> fst (fold (note_starts f I) is st)) \<and>
    (\<forall>t n. tgt_of f i = Some t \<longrightarrow> ft_of f i = Some n \<longrightarrow> n \<in> I \<longrightarrow> n \<in> fst (fold (note_starts f I) is st)) \<and>
    (\<forall>n. ft_of f i = Some n \<longrightarrow> n \<in> snd st \<longrightarrow> n \<in> fst (fold (note_starts f I) is st))"
proof -
  obtain xs ys where "is": "is = xs @ i # ys" using assms by (meson split_list)
  define s1 where "s1 = fold (note_starts f I) xs st"
  have s1: "snd st \<subseteq> snd s1" unfolding s1_def using notes_mono [of st f I xs] by simp
  define s2 where "s2 = note_starts f I i s1"
  have F: "fold (note_starts f I) is st = fold (note_starts f I) ys s2" by (simp add: "is" s1_def s2_def)
  have m: "fst s2 \<subseteq> fst (fold (note_starts f I) ys s2)" "snd s2 \<subseteq> snd (fold (note_starts f I) ys s2)"
    using notes_mono [of s2 f I ys] by simp_all
  note N = note_starts_mono [where st = s1 and f = f and I = I and i = i, folded s2_def]
  show ?thesis unfolding F using N(3-6) m s1 by blast
qed

lemma notes_merge:
  assumes "distinct is" "i \<in> set is" "j \<in> set is" "i \<noteq> j" "ft_of f i = Some n" "ft_of f j = Some n"
  shows "n \<in> fst (fold (note_starts f I) is st)"
proof -
  obtain xs ys where "is": "is = xs @ i # ys" using assms(2) by (meson split_list)
  define s1 where "s1 = note_starts f I i (fold (note_starts f I) xs st)"
  have F: "fold (note_starts f I) is st = fold (note_starts f I) ys s1" by (simp add: "is" s1_def)
  consider "j \<in> set ys" | "j \<in> set xs" using assms(3,4) "is" by auto
  then show ?thesis
  proof cases
    case 1
    moreover have "n \<in> snd s1" using note_starts_mono(3) [OF assms(5)] by (simp add: s1_def)
    ultimately show ?thesis using notes_insn [of j ys f I s1] assms(6) F by simp
  next
    case 2
    then have "n \<in> snd (fold (note_starts f I) xs st)" using notes_insn [of j xs f I st] assms(6) by simp
    then have "n \<in> fst s1" using note_starts_mono(4) [OF assms(5)] by (simp add: s1_def)
    then show ?thesis using notes_mono [of s1 f I ys] F by auto
  qed
qed

lemma notes_sub:
  assumes "set is \<subseteq> I" "fst st \<subseteq> I"
    and m: "distinct is" "\<forall>i j n. i \<noteq> j \<longrightarrow> i \<in> I \<longrightarrow> j \<in> I \<longrightarrow> ft_of f i = Some n \<longrightarrow> ft_of f j = Some n \<longrightarrow> n \<in> I"
    and s: "\<forall>n\<in>snd st. n \<in> I \<or> (\<exists>i\<in>I - set is. ft_of f i = Some n)"
  shows "fst (fold (note_starts f I) is st) \<subseteq> I"
  using assms(1-3,5)
proof (induction "is" arbitrary: st)
  case (Cons i "is")
  have i: "i \<in> I" "i \<notin> set is" using Cons.prems by auto
  have "fst (note_starts f I i st) \<subseteq> I"
  proof
    fix x assume "x \<in> fst (note_starts f I i st)"
    then have "x \<in> I \<or> (ft_of f i = Some x \<and> x \<in> snd st)"
      using Cons.prems(2) i(1) by (auto simp: note_starts_def Let_def split: option.splits prod.splits if_splits)
    then show "x \<in> I" using Cons.prems(4) m(2) i(1) by fastforce
  qed
  moreover have "\<forall>n\<in>snd (note_starts f I i st). n \<in> I \<or> (\<exists>i\<in>I - set is. ft_of f i = Some n)"
    using Cons.prems(4) i by (fastforce simp: note_starts_def Let_def split: option.splits prod.splits if_splits)
  ultimately show ?case using Cons.IH [of "note_starts f I i st"] Cons.prems by simp
qed simp

text \<open>A set of block starts: what is targeted, what follows a branch, where two runs meet.\<close>

definition starts_ok :: "cfg_env \<Rightarrow> ir \<Rightarrow> nat \<Rightarrow> iid set \<Rightarrow> bool" where
  "starts_ok env f F K \<longleftrightarrow> K \<subseteq> set (ce_insns env F) \<and> (\<forall>e. ce_entry env F = Some e \<longrightarrow> e \<in> K) \<and>
     (\<forall>i\<in>set (ce_insns env F). (\<forall>t. tgt_of f i = Some t \<longrightarrow> t \<in> set (ce_insns env F) \<longrightarrow> t \<in> K) \<and>
        (\<forall>t n. tgt_of f i = Some t \<longrightarrow> ft_of f i = Some n \<longrightarrow> n \<in> set (ce_insns env F) \<longrightarrow> n \<in> K) \<and>
        (\<forall>j\<in>set (ce_insns env F). \<forall>n. i \<noteq> j \<longrightarrow> ft_of f i = Some n \<longrightarrow> ft_of f j = Some n \<longrightarrow> n \<in> K))"

lemma starts_ok_mono:
  assumes K: "starts_ok env f F K" and M: "K \<subseteq> M" "M \<subseteq> set (ce_insns env F)"
  shows "starts_ok env f F M"
proof -
  have *: "x \<in> M" if "x \<in> K" for x using M(1) that by blast
  show ?thesis using K M(2) unfolding starts_ok_def by (simp add: *)
qed

lemma FindBlockStarts_ok:
  assumes "function_ok env f F"
  shows "starts_ok env f F (FindBlockStarts env f F)"
proof -
  let ?I = "set (ce_insns env F)" and ?s = "(case ce_entry env F of None \<Rightarrow> {} | Some e \<Rightarrow> {e}, {}) :: iid set \<times> iid set"
  have "fst ?s \<subseteq> ?I" using assms by (auto simp: function_ok_def split: option.splits)
  then have "FindBlockStarts env f F \<subseteq> ?I"
    unfolding FindBlockStarts_def using assms by (intro notes_sub) (auto simp: function_ok_def)
  moreover have "fst ?s \<subseteq> FindBlockStarts env f F"
    unfolding FindBlockStarts_def using notes_mono by blast
  then have "\<forall>e. ce_entry env F = Some e \<longrightarrow> e \<in> FindBlockStarts env f F" by auto
  moreover have "(\<forall>t. tgt_of f i = Some t \<longrightarrow> t \<in> ?I \<longrightarrow> t \<in> FindBlockStarts env f F) \<and>
      (\<forall>t n. tgt_of f i = Some t \<longrightarrow> ft_of f i = Some n \<longrightarrow> n \<in> ?I \<longrightarrow> n \<in> FindBlockStarts env f F)" if "i \<in> ?I" for i
    using notes_insn [OF that, of f ?I ?s] unfolding FindBlockStarts_def by blast
  moreover have "n \<in> FindBlockStarts env f F" if "i \<in> ?I" "j \<in> ?I" "i \<noteq> j" "ft_of f i = Some n" "ft_of f j = Some n" for i j n
    using notes_merge [OF _ that, of ?I ?s] assms unfolding FindBlockStarts_def function_ok_def by blast
  ultimately show ?thesis unfolding starts_ok_def by blast
qed

section \<open>Runs\<close>

lemma run_nth:
  assumes "run f func K ws" "Suc p < length ws"
  shows "ft_of f (ws ! p) = Some (ws ! Suc p)" "ws ! Suc p \<notin> K" "function_of f (ws ! Suc p) = func"
  using assms
proof (induction f func K ws arbitrary: p rule: run.induct)
  case (3 f func K i j "is")
  { case 1 show ?case using 1 "3.IH"(1) [of "p - 1"] by (cases p) auto }
  { case 2 show ?case using 2 "3.IH"(2) [of "p - 1"] by (cases p) (auto simp: stops_def) }
  { case 3 show ?case using 3 "3.IH"(3) [of "p - 1"] by (cases p) (auto simp: stops_def) }
qed auto

lemma run_last: "run f func K ws \<Longrightarrow> stops f func K (last ws) \<and> ws \<noteq> []"
  by (induction f func K ws rule: run.induct) auto

lemma run_mono:
  assumes "run f func K ws" "K \<subseteq> K'" "set (tl ws) \<inter> K' = {}"
  shows "run f func K' ws"
  using assms
proof (induction f func K ws rule: run.induct)
  case (2 f func K i)
  then show ?case by (auto simp: stops_def split: option.splits)
next
  case (3 f func K i j "is")
  then show ?case by (cases "is") (auto simp: stops_def split: option.splits)
qed auto

lemma run_insns:
  assumes "function_ok env f F" "run f (Some F) K ws" "hd ws \<in> set (ce_insns env F)"
  shows "set ws \<subseteq> set (ce_insns env F)"
proof
  fix x assume "x \<in> set ws"
  then obtain p where p: "p < length ws" "x = ws ! p" by (auto simp: in_set_conv_nth)
  show "x \<in> set (ce_insns env F)"
  proof (cases p)
    case 0
    then show ?thesis using p assms(3) run_last [OF assms(2)] by (simp add: hd_conv_nth)
  next
    case (Suc q)
    then have "function_of f x = Some F" using run_nth(3) [OF assms(2)] p by simp
    then show ?thesis using assms(1) by (simp add: function_ok_def)
  qed
qed

text \<open>Two runs have no instruction in common; a run has no instruction twice.\<close>

lemma run_unique:
  assumes K: "starts_ok env f F K" and r: "run f (Some F) K bs" "run f (Some F) K cs" and h: "hd bs \<in> K" "hd cs \<in> K"
    and I: "set bs \<subseteq> set (ce_insns env F)" "set cs \<subseteq> set (ce_insns env F)"
  shows "p < length bs \<Longrightarrow> q < length cs \<Longrightarrow> bs ! p = cs ! q \<Longrightarrow> hd bs = hd cs \<and> p = q"
proof (induction p arbitrary: q)
  case 0
  then have "cs ! q \<in> K" using h(1) by (cases bs) auto
  then have "q = 0" using run_nth(2) [OF r(2), of "q - 1"] 0 by (cases q) auto
  then show ?case using 0 by (cases bs; cases cs) auto
next
  case (Suc p)
  have out: "bs ! Suc p \<notin> K" using run_nth(2) [OF r(1) Suc.prems(1)] .
  then obtain q' where q: "q = Suc q'" using Suc.prems h(2) by (cases q; cases cs) auto
  have "ft_of f (bs ! p) = Some (bs ! Suc p)" "ft_of f (cs ! q') = Some (bs ! Suc p)"
    using run_nth(1) [OF r(1)] run_nth(1) [OF r(2)] Suc.prems by (simp_all add: q)
  moreover have "bs ! p \<in> set (ce_insns env F)" "cs ! q' \<in> set (ce_insns env F)"
    using I Suc.prems by (auto simp: q)
  ultimately have "bs ! p = cs ! q'" using K out unfolding starts_ok_def by blast
  then show ?case using Suc.IH [of q'] Suc.prems by (simp add: q)
qed

lemma block_run_distinct:
  assumes "starts_ok env f F K" "run f (Some F) K bs" "hd bs \<in> K" "set bs \<subseteq> set (ce_insns env F)"
  shows "distinct bs"
  unfolding distinct_conv_nth using run_unique [OF assms(1,2,2,3,3,4,4)] by blast

text \<open>The walk along the fallthroughs ends: it does not come to an instruction twice.\<close>

lemma build_loop_returns:
  assumes ok: "function_ok env f F" and K: "starts_ok env f F K" "set (cfg_blocks g) = K"
    and t: "distinct (vs @ [i])" "set (vs @ [i]) \<subseteq> set (ce_insns env F)" "hd (vs @ [i]) \<in> K"
      "\<forall>p. Suc p < length (vs @ [i]) \<longrightarrow> ft_of f ((vs @ [i]) ! p) = Some ((vs @ [i]) ! Suc p)"
    and n: "card (set (ce_insns env F) - set vs) \<le> n"
  shows "\<exists>g'. build_loop n env f (Some F) b i g = Inr g'"
  using K(2) t n
proof (induction n arbitrary: g vs i)
  case 0
  then show ?case by auto
next
  case (Suc n)
  let ?I = "set (ce_insns env F)"
  show ?case
  proof (cases "stops f (Some F) K i")
    case True
    then have "build_loop (Suc n) env f (Some F) b i g = Inr (visit_insn env f b i g)"
      by (intro build_loop_stop) (simp add: Suc.prems(1))
    then show ?thesis by blast
  next
    case False
    then obtain j where j: "ft_of f i = Some j" "j \<notin> K" "j \<in> ?I"
      using ok by (auto simp: stops_def function_ok_def split: option.splits)
    let ?ws = "vs @ [i]"
    have new: "j \<notin> set ?ws"
    proof
      assume "j \<in> set ?ws"
      then obtain p where p: "p < length ?ws" "?ws ! p = j" unfolding in_set_conv_nth by blast
      then have "p \<noteq> 0" using j(2) Suc.prems(4) by (metis hd_conv_nth list.size(3) not_less_zero)
      then obtain p' where p': "p = Suc p'" by (cases p) auto
      then have "ft_of f (?ws ! p') = Some j" using Suc.prems(5) p by metis
      moreover have "?ws ! p' \<noteq> i" using Suc.prems(2) p(1) p' by (auto simp: nth_append)
      moreover have "?ws ! p' \<in> ?I" "i \<in> ?I" using Suc.prems(3) p(1) p' nth_mem [of p' ?ws] by auto
      ultimately show False using K(1) j(1,2) unfolding starts_ok_def by blast
    qed
    have "\<forall>p. Suc p < length (?ws @ [j]) \<longrightarrow> ft_of f ((?ws @ [j]) ! p) = Some ((?ws @ [j]) ! Suc p)"
    proof (intro allI impI)
      fix p assume p: "Suc p < length (?ws @ [j])"
      show "ft_of f ((?ws @ [j]) ! p) = Some ((?ws @ [j]) ! Suc p)"
      proof (cases "Suc p < length ?ws")
        case True
        then show ?thesis using Suc.prems(5) by (metis Suc_lessD nth_append)
      next
        case False
        then have "p = length vs" using p by simp
        then show ?thesis using j(1) by (simp add: nth_append)
      qed
    qed
    moreover have "card (?I - set ?ws) < card (?I - set vs)"
      using Suc.prems(2,3) by (intro psubset_card_mono) auto
    then have "card (?I - set ?ws) \<le> n" using Suc.prems(6) by simp
    moreover have "hd (?ws @ [j]) \<in> K" using Suc.prems(4) by (cases vs) auto
    moreover have "set (cfg_blocks (visit_insn env f b i g)) = K" using adds_blocks [OF adds_visit] Suc.prems(1) by simp
    ultimately obtain g' where "build_loop n env f (Some F) b j (visit_insn env f b i g) = Inr g'"
      using Suc.IH [of "visit_insn env f b i g" ?ws j] Suc.prems(2,3) new j(3) by auto
    then show ?thesis
      using build_loop_go [of f "Some F" g i j n env b] False j(1) Suc.prems(1) by auto
  qed
qed

section \<open>The invariant of the construction\<close>

text \<open>A block that is built: its run, and its edges.\<close>

definition block_ok :: "cfg_env \<Rightarrow> ir \<Rightarrow> nat \<Rightarrow> iid set \<Rightarrow> bid \<Rightarrow> basic_block \<Rightarrow> bool" where
  "block_ok env f F K b x \<longleftrightarrow> run f (Some F) K (bb_insns x) \<and> hd (bb_insns x) = b \<and>
     (\<forall>t\<in>bb_succs x. \<exists>i\<in>set (bb_insns x). t \<in> direct_succs env f i \<or> (\<exists>ts. ce_ibtargets env i = Some ts \<and> t \<in> set ts)) \<and>
     (\<forall>i\<in>set (bb_insns x). \<forall>t\<in>set (ce_insns env F). tgt_of f i = Some t \<longrightarrow> \<not> ce_call env i \<longrightarrow> t \<in> bb_succs x) \<and>
     (\<forall>n\<in>set (ce_insns env F). ft_of f (last (bb_insns x)) = Some n \<longrightarrow> n \<in> bb_succs x)"

definition cfg_inv :: "cfg_env \<Rightarrow> ir \<Rightarrow> nat \<Rightarrow> iid set \<Rightarrow> cfg \<Rightarrow> bool" where
  "cfg_inv env f F K g \<longleftrightarrow> set (cfg_blocks g) = K \<and> distinct (cfg_blocks g) \<and>
     (\<forall>b. bb_insns (cfg_block g b) = [] \<and> bb_succs (cfg_block g b) = {} \<or> b \<in> K \<and> block_ok env f F K b (cfg_block g b)) \<and>
     (\<forall>b. bb_succs (cfg_block g b) \<subseteq> K) \<and>
     (\<forall>b t. t \<in> bb_succs (cfg_block g b) \<longleftrightarrow> b \<in> bb_preds (cfg_block g t))"

lemma adds_ibtargets:
  "\<exists>g' S. foldR (link_ibtarget env (Some F) b) ts g = Inr g' \<and> adds b [] S g g' \<and> S \<subseteq> set ts \<inter> set (cfg_blocks g)"
proof (induction ts arbitrary: g)
  case Nil
  then show ?case using adds_refl by (auto intro!: exI [of _ "{}"])
next
  case (Cons t ts)
  obtain g1 S1 where 1: "link_ibtarget env (Some F) b t g = Inr g1" "adds b [] S1 g g1" "S1 \<subseteq> {t} \<inter> set (cfg_blocks g)"
  proof (cases "t \<in> set (cfg_blocks g) \<and> ce_entry env F \<noteq> Some t")
    case True
    then show ?thesis using that [of "link b t g" "{t}"] adds_link [of b t g] by (simp add: link_ibtarget_def)
  next
    case False
    then show ?thesis using that [of g "{}"] adds_refl [of b g] by (auto simp: link_ibtarget_def)
  qed
  obtain g' S where 2: "foldR (link_ibtarget env (Some F) b) ts g1 = Inr g'" "adds b [] S g1 g'" "S \<subseteq> set ts \<inter> set (cfg_blocks g1)"
    using Cons by blast
  have "adds b [] (S1 \<union> S) g g'" using adds_trans [OF 1(2) 2(2)] by simp
  moreover have "S1 \<union> S \<subseteq> set (t # ts) \<inter> set (cfg_blocks g)" using 1(3) 2(3) adds_blocks [OF 1(2)] by auto
  ultimately show ?case using 1(1) 2(1) by auto
qed

lemma BuildBlock_ok:
  assumes ok: "function_ok env f F" and K: "starts_ok env f F K" and I: "cfg_inv env f F K g"
    and b: "b \<in> K" "bb_insns (cfg_block g b) = []" and n: "length (ce_insns env F) \<le> n"
  shows "\<exists>g'. BuildBlock n env f b g = Inr g' \<and> cfg_inv env f F K g' \<and> cfg_entry g' = cfg_entry g \<and>
    bb_insns (cfg_block g' b) \<noteq> [] \<and> (\<forall>c. c \<noteq> b \<longrightarrow> bb_insns (cfg_block g' c) = bb_insns (cfg_block g c))"
proof -
  let ?I = "set (ce_insns env F)"
  have bI: "b \<in> ?I" using b(1) K by (auto simp: starts_ok_def)
  then have func: "function_of f b = Some F" using ok by (simp add: function_ok_def)
  have gK: "set (cfg_blocks g) = K" using I by (simp add: cfg_inv_def)
  have "card (?I - set []) \<le> n" using n card_length [of "ce_insns env F"] by simp
  then obtain g1 where g1: "build_loop n env f (Some F) b b g = Inr g1"
    using build_loop_returns [OF ok K gK, of "[]" b n b] bI b(1) by auto
  from build_loop_adds [OF this] obtain ws where ws: "run f (Some F) K (b # ws)"
      "adds b (b # ws) ((\<Union>x\<in>set (b # ws). direct_succs env f x) \<inter> K) g g1" using gK by auto
  have i1: "bb_insns (cfg_block g1 b) = b # ws" using ws(2) b(2) by (simp add: adds_def)
  let ?z = "last (b # ws)"
  have "\<exists>g' S. BuildBlock n env f b g = Inr g' \<and> adds b [] S g1 g' \<and> S \<subseteq> K \<and>
      (\<forall>t\<in>S. \<exists>ts. ce_ibtargets env ?z = Some ts \<and> t \<in> set ts)"
  proof (cases "ce_ibtargets env ?z = None \<or> ce_return env ?z \<or> ce_call env ?z")
    case True
    then have "BuildBlock n env f b g = Inr g1"
      by (auto simp: BuildBlock_def func g1 i1 Let_def simp del: last.simps split: option.splits)
    then show ?thesis using adds_refl [of b g1] by (intro exI [of _ g1] exI [of _ "{}"]) simp
  next
    case False
    then obtain ts where ts: "ce_ibtargets env ?z = Some ts" by auto
    obtain g' S where 2: "foldR (link_ibtarget env (Some F) b) ts g1 = Inr g'" "adds b [] S g1 g'" "S \<subseteq> set ts \<inter> set (cfg_blocks g1)"
      using adds_ibtargets by blast
    moreover have "BuildBlock n env f b g = Inr g'"
      using False ts 2(1) by (simp add: BuildBlock_def func g1 i1 Let_def del: last.simps)
    ultimately show ?thesis using ts adds_blocks [OF ws(2)] gK by (intro exI [of _ g'] exI [of _ S]) auto
  qed
  then obtain g' S where g': "BuildBlock n env f b g = Inr g'" "adds b [] S g1 g'" "S \<subseteq> K"
      "\<forall>t\<in>S. \<exists>ts. ce_ibtargets env ?z = Some ts \<and> t \<in> set ts" by blast
  let ?D = "(\<Union>x\<in>set (b # ws). direct_succs env f x) \<inter> K"
  have A: "adds b (b # ws) (?D \<union> S) g g'" using adds_trans [OF ws(2) g'(2)] by simp
  have empty: "bb_succs (cfg_block g b) = {}" using I b(2) run_last by (auto simp: cfg_inv_def block_ok_def)
  have new: "bb_insns (cfg_block g' b) = b # ws" "bb_succs (cfg_block g' b) = ?D \<union> S"
    using A b(2) empty by (simp_all add: adds_def)
  have wI: "set (b # ws) \<subseteq> ?I" using run_insns [OF ok ws(1)] bI by simp
  have zmem: "?z \<in> set (b # ws)" by (rule last_in_set) simp
  have "block_ok env f F K b (cfg_block g' b)"
    unfolding block_ok_def new
  proof (intro conjI ballI impI)
    show "run f (Some F) K (b # ws)" "hd (b # ws) = b" using ws(1) by simp_all
  next
    fix t assume "t \<in> ?D \<union> S"
    then show "\<exists>i\<in>set (b # ws). t \<in> direct_succs env f i \<or> (\<exists>ts. ce_ibtargets env i = Some ts \<and> t \<in> set ts)"
      using g'(4) zmem by blast
  next
    fix i t assume it: "i \<in> set (b # ws)" "t \<in> ?I" "tgt_of f i = Some t" "\<not> ce_call env i"
    then have "t \<in> K" using K wI unfolding starts_ok_def by blast
    moreover have "t \<in> direct_succs env f i" using it by (simp add: direct_succs_def)
    ultimately show "t \<in> ?D \<union> S" using it(1) by blast
  next
    fix n assume n: "n \<in> ?I" "ft_of f ?z = Some n"
    have "n \<in> K"
    proof (cases "tgt_of f ?z")
      case None
      then show ?thesis using run_last [OF ws(1)] n ok by (auto simp: stops_def function_ok_def)
    next
      case (Some t)
      then show ?thesis using K n wI zmem unfolding starts_ok_def by blast
    qed
    moreover have "n \<in> direct_succs env f ?z" using n(2) by (simp add: direct_succs_def)
    ultimately show "n \<in> ?D \<union> S" using zmem by blast
  qed
  moreover have "bb_insns (cfg_block g' c) = bb_insns (cfg_block g c) \<and> bb_succs (cfg_block g' c) = bb_succs (cfg_block g c)"
    if "c \<noteq> b" for c using A that by (simp add: adds_def)
  then have "block_ok env f F K c (cfg_block g' c) = block_ok env f F K c (cfg_block g c)" if "c \<noteq> b" for c
    using that by (simp add: block_ok_def)
  ultimately have "cfg_inv env f F K g'"
    using I A b(1) g'(3) new(1) unfolding cfg_inv_def adds_def by (auto split: if_splits)
  then show ?thesis using A g'(1) by (auto simp: adds_def)
qed

lemma build_blocks_ok:
  assumes ok: "function_ok env f F" and K: "starts_ok env f F K" and I: "cfg_inv env f F K g"
    and io: "walks_sets io" and n: "length (ce_insns env F) \<le> n"
  shows "\<exists>g'. build_blocks n io env f g = Inr g' \<and> cfg_inv env f F K g' \<and> cfg_entry g' = cfg_entry g \<and>
    (\<forall>b\<in>K. bb_insns (cfg_block g' b) \<noteq> []) \<and>
    (\<forall>b. bb_insns (cfg_block g b) \<noteq> [] \<longrightarrow> bb_insns (cfg_block g' b) = bb_insns (cfg_block g b))"
proof -
  let ?step = "\<lambda>b g. if bb_insns (cfg_block g b) \<noteq> [] then Inr g else BuildBlock n env f b g"
  have "\<exists>g'. foldR ?step bs h = Inr g' \<and> cfg_inv env f F K g' \<and> cfg_entry g' = cfg_entry h \<and>
      (\<forall>b\<in>set bs. bb_insns (cfg_block g' b) \<noteq> []) \<and>
      (\<forall>b. bb_insns (cfg_block h b) \<noteq> [] \<longrightarrow> bb_insns (cfg_block g' b) = bb_insns (cfg_block h b))"
    if "set bs \<subseteq> K" "cfg_inv env f F K h" for bs h
    using that
  proof (induction bs arbitrary: h)
    case (Cons b bs)
    have b: "b \<in> K" using Cons.prems by simp
    obtain h1 where h1: "?step b h = Inr h1" "cfg_inv env f F K h1" "cfg_entry h1 = cfg_entry h" "bb_insns (cfg_block h1 b) \<noteq> []"
        "\<forall>c. bb_insns (cfg_block h c) \<noteq> [] \<longrightarrow> bb_insns (cfg_block h1 c) = bb_insns (cfg_block h c)"
    proof (cases "bb_insns (cfg_block h b) = []")
      case True
      from BuildBlock_ok [OF ok K Cons.prems(2) b True n] obtain h1 where
        "BuildBlock n env f b h = Inr h1" "cfg_inv env f F K h1" "cfg_entry h1 = cfg_entry h" "bb_insns (cfg_block h1 b) \<noteq> []"
        "\<forall>c. c \<noteq> b \<longrightarrow> bb_insns (cfg_block h1 c) = bb_insns (cfg_block h c)" by blast
      moreover from this have "\<forall>c. bb_insns (cfg_block h c) \<noteq> [] \<longrightarrow> bb_insns (cfg_block h1 c) = bb_insns (cfg_block h c)"
        using True by metis
      ultimately show ?thesis using that [of h1] True by simp
    qed (use that [of h] Cons.prems(2) in simp)
    obtain g' where g': "foldR ?step bs h1 = Inr g'" "cfg_inv env f F K g'" "cfg_entry g' = cfg_entry h1"
        "\<forall>b\<in>set bs. bb_insns (cfg_block g' b) \<noteq> []"
        "\<forall>b. bb_insns (cfg_block h1 b) \<noteq> [] \<longrightarrow> bb_insns (cfg_block g' b) = bb_insns (cfg_block h1 b)"
      using Cons.IH [OF _ h1(2)] Cons.prems(1) by auto
    show ?case
      using h1 g' by (intro exI [of _ g']) (simp del: not_None_eq; metis)
  qed simp
  moreover have "finite K" "set (cfg_blocks g) = K" using I by (auto simp: cfg_inv_def)
  then have "set (io (set (cfg_blocks g))) = K" using io by (simp add: walks_sets_def)
  ultimately show ?thesis using I unfolding build_blocks_def by blast
qed

lemma alloc_blocks_ok:
  assumes I: "cfg_inv env f F K g" and io: "walks_sets io" and M: "finite M" "K \<subseteq> M"
    and new: "\<forall>b. set (bb_insns (cfg_block g b)) \<inter> (M - K) = {}"
  shows "cfg_inv env f F M (alloc_blocks io M g)"
    "cfg_entry (alloc_blocks io M g) = cfg_entry g"
    "bb_insns (cfg_block (alloc_blocks io M g) b) = bb_insns (cfg_block g b)"
proof -
  let ?e = "\<lambda>h h'. bb_insns h' = bb_insns h \<and> bb_succs h' = bb_succs h \<and> bb_preds h' = bb_preds h"
  have fold: "cfg_entry (fold alloc_block is h) = cfg_entry h \<and> set (cfg_blocks (fold alloc_block is h)) = set (cfg_blocks h) \<union> set is \<and>
      distinct (cfg_blocks (fold alloc_block is h)) \<and> (\<forall>b. ?e (cfg_block h b) (cfg_block (fold alloc_block is h) b))"
    if "distinct (cfg_blocks h)" "\<forall>b. b \<notin> set (cfg_blocks h) \<longrightarrow> ?e new_block (cfg_block h b)" for "is" h
    using that
  proof (induction "is" arbitrary: h)
    case (Cons i "is")
    have "?e (cfg_block h b) (cfg_block (alloc_block i h) b)" for b
      using Cons.prems(2) by (auto simp: alloc_block_def)
    moreover have "cfg_entry (alloc_block i h) = cfg_entry h" "distinct (cfg_blocks (alloc_block i h))"
      "set (cfg_blocks (alloc_block i h)) = insert i (set (cfg_blocks h))"
      using Cons.prems(1) by (auto simp: alloc_block_def)
    ultimately show ?case using Cons.IH [of "alloc_block i h"] Cons.prems(2) by simp
  qed simp
  have K: "set (cfg_blocks g) = K" "distinct (cfg_blocks g)" using I by (simp_all add: cfg_inv_def)
  have "?e new_block (cfg_block g b)" if "b \<notin> K" for b
  proof -
    have "b \<notin> bb_succs (cfg_block g t)" for t using I that unfolding cfg_inv_def by blast
    then have "bb_preds (cfg_block g b) = {}" using I unfolding cfg_inv_def by blast
    then show ?thesis using I that unfolding cfg_inv_def new_block_def by auto
  qed
  from fold [of g "io M"] K this
  have F: "cfg_entry (alloc_blocks io M g) = cfg_entry g" "set (cfg_blocks (alloc_blocks io M g)) = M"
      "distinct (cfg_blocks (alloc_blocks io M g))" "\<And>b. ?e (cfg_block g b) (cfg_block (alloc_blocks io M g) b)"
    using io M by (auto simp: alloc_blocks_def walks_sets_def)
  show "cfg_entry (alloc_blocks io M g) = cfg_entry g" by (rule F(1))
  show "bb_insns (cfg_block (alloc_blocks io M g) b) = bb_insns (cfg_block g b)" using F(4) by simp
  have "block_ok env f F M b (cfg_block (alloc_blocks io M g) b)" if b: "b \<in> K" "block_ok env f F K b (cfg_block g b)" for b
  proof -
    let ?ws = "bb_insns (cfg_block g b)"
    have r: "run f (Some F) K ?ws" using b(2) by (simp add: block_ok_def)
    have "set (tl ?ws) \<inter> M = {}"
    proof (rule ccontr)
      assume "set (tl ?ws) \<inter> M \<noteq> {}"
      then obtain p where "p < length (tl ?ws)" "tl ?ws ! p \<in> M" by (metis disjoint_iff in_set_conv_nth)
      then have p: "Suc p < length ?ws" "?ws ! Suc p \<in> M" by (simp_all add: nth_tl)
      then show False using run_nth(2) [OF r p(1)] new nth_mem [OF p(1)] by blast
    qed
    then have "run f (Some F) M ?ws" using run_mono [OF r M(2)] by simp
    then show ?thesis using b(2) F(4) [of b] by (simp add: block_ok_def)
  qed
  then show "cfg_inv env f F M (alloc_blocks io M g)"
    using I F M(2) unfolding cfg_inv_def by (metis (no_types, lifting) subset_iff)
qed

section \<open>The graph\<close>

text \<open>A graph of the function \<open>F\<close>.\<close>

definition cfg_ok :: "cfg_env \<Rightarrow> ir \<Rightarrow> nat \<Rightarrow> cfg \<Rightarrow> bool" where
  "cfg_ok env f F g \<longleftrightarrow>
     (\<forall>b\<in>set (cfg_blocks g). block_ok env f F (set (cfg_blocks g)) b (cfg_block g b)) \<and>
     (\<forall>i\<in>set (ce_insns env F). \<not> ce_nop env i \<longrightarrow> (\<exists>!b. b \<in> set (cfg_blocks g) \<and> i \<in> set (bb_insns (cfg_block g b)))) \<and>
     (\<forall>b\<in>set (cfg_blocks g). distinct (bb_insns (cfg_block g b)) \<and> set (bb_insns (cfg_block g b)) \<subseteq> set (ce_insns env F)) \<and>
     (\<forall>b\<in>set (cfg_blocks g). \<forall>c\<in>set (cfg_blocks g). b \<noteq> c \<longrightarrow> set (bb_insns (cfg_block g b)) \<inter> set (bb_insns (cfg_block g c)) = {}) \<and>
     (\<forall>s t. hasEdge g s t \<longleftrightarrow> t \<in> bb_succs (cfg_block g s)) \<and>
     (\<forall>s t. hasEdge g s t \<longleftrightarrow> s \<in> bb_preds (cfg_block g t)) \<and>
     (\<forall>e. ce_entry env F = Some e \<longrightarrow> cfg_entry g = Some e \<and> e \<in> set (cfg_blocks g))"

lemma cfg_inv_blocks:
  assumes ok: "function_ok env f F" and K: "starts_ok env f F K" and I: "cfg_inv env f F K g"
    and all: "\<forall>b\<in>K. bb_insns (cfg_block g b) \<noteq> []"
  shows "b \<in> K \<Longrightarrow> block_ok env f F K b (cfg_block g b)"
    "b \<in> K \<Longrightarrow> distinct (bb_insns (cfg_block g b)) \<and> set (bb_insns (cfg_block g b)) \<subseteq> set (ce_insns env F)"
    "b \<in> K \<Longrightarrow> c \<in> K \<Longrightarrow> b \<noteq> c \<Longrightarrow> set (bb_insns (cfg_block g b)) \<inter> set (bb_insns (cfg_block g c)) = {}"
proof -
  have B: "block_ok env f F K b (cfg_block g b)" if "b \<in> K" for b using I all that by (auto simp: cfg_inv_def)
  then have r: "run f (Some F) K (bb_insns (cfg_block g b))" "hd (bb_insns (cfg_block g b)) = b" if "b \<in> K" for b
    using that by (simp_all add: block_ok_def)
  have sub: "set (bb_insns (cfg_block g b)) \<subseteq> set (ce_insns env F)" if "b \<in> K" for b
    using run_insns [OF ok r(1) [OF that]] r(2) [OF that] K that by (auto simp: starts_ok_def)
  show "b \<in> K \<Longrightarrow> block_ok env f F K b (cfg_block g b)" by (rule B)
  show "b \<in> K \<Longrightarrow> distinct (bb_insns (cfg_block g b)) \<and> set (bb_insns (cfg_block g b)) \<subseteq> set (ce_insns env F)"
    using block_run_distinct [OF K r(1) _ sub] r(2) sub by simp
  show "set (bb_insns (cfg_block g b)) \<inter> set (bb_insns (cfg_block g c)) = {}" if bc: "b \<in> K" "c \<in> K" "b \<noteq> c"
  proof (rule ccontr)
    assume "set (bb_insns (cfg_block g b)) \<inter> set (bb_insns (cfg_block g c)) \<noteq> {}"
    then obtain p q where "p < length (bb_insns (cfg_block g b))" "q < length (bb_insns (cfg_block g c))"
        "bb_insns (cfg_block g b) ! p = bb_insns (cfg_block g c) ! q"
      by (metis disjoint_iff in_set_conv_nth)
    from run_unique [OF K r(1) [OF bc(1)] r(1) [OF bc(2)] _ _ sub [OF bc(1)] sub [OF bc(2)] this]
    show False using r(2) bc by simp
  qed
qed



end
