(* ===== verification/Zipr_CallGraph.thy ===== *)
theory Zipr_CallGraph
  imports Zipr_IDom
begin

text \<open>
  The call graph of a program (\<open>libIRDB-cfg/src/callgraph.cpp\<close>, \<open>include/callgraph.hpp\<close>).
  A node is the hell node, which stands for whatever is outside, or an object allocated for a
  function. What the decoder says of an instruction, its relocations and the entries of functions
  are parameters; the sets of pointers are walked in orders the program does not choose.
\<close>

section \<open>The graph\<close>

datatype cg_node = HellNode | CGNode nat

instantiation cg_node :: linorder
begin

fun less_eq_cg_node :: "cg_node \<Rightarrow> cg_node \<Rightarrow> bool" where
  "HellNode \<le> y \<longleftrightarrow> True"
| "CGNode a \<le> HellNode \<longleftrightarrow> False"
| "CGNode a \<le> CGNode b \<longleftrightarrow> a \<le> b"

definition less_cg_node :: "cg_node \<Rightarrow> cg_node \<Rightarrow> bool" where
  "less_cg_node x y \<longleftrightarrow> x \<le> y \<and> \<not> y \<le> x"

instance
proof
  fix x y z :: cg_node
  show "x < y \<longleftrightarrow> x \<le> y \<and> \<not> y \<le> x" by (rule less_cg_node_def)
  show "x \<le> x" by (cases x) auto
  show "x \<le> y \<Longrightarrow> y \<le> z \<Longrightarrow> x \<le> z" by (cases x; cases y; cases z) auto
  show "x \<le> y \<Longrightarrow> y \<le> x \<Longrightarrow> x = y" by (cases x; cases y) auto
  show "x \<le> y \<or> y \<le> x" by (cases x; cases y) auto
qed

end

record cg_env =
  ge_call :: "iid \<Rightarrow> bool"
  ge_branch :: "iid \<Rightarrow> bool"
  ge_push :: "iid \<Rightarrow> bool"                  \<comment> \<open>the mnemonic is \<open>push\<close>\<close>
  ge_relocs :: "iid \<Rightarrow> nat"                 \<comment> \<open>how many relocations it has\<close>
  ge_entry :: "nat \<Rightarrow> iid option"           \<comment> \<open>\<open>Function_t::getEntryPoint\<close>\<close>

record callgraph =
  cg_callers :: "cg_node \<Rightarrow> cg_node set"
  cg_callees :: "cg_node \<Rightarrow> cg_node set"
  cg_call_sites :: "cg_node \<Rightarrow> iid set"
  cg_nodes :: "nat \<rightharpoonup> cg_node"
  cg_allocated :: nat

definition empty_callgraph :: callgraph where
  "empty_callgraph = \<lparr>cg_callers = (\<lambda>_. {}), cg_callees = (\<lambda>_. {}), cg_call_sites = (\<lambda>_. {}),
     cg_nodes = Map.empty, cg_allocated = 0\<rparr>"

definition findNode :: "callgraph \<Rightarrow> nat option \<Rightarrow> cg_node option" where
  "findNode g fn = Option.bind fn (cg_nodes g)"

definition edgeExists :: "callgraph \<Rightarrow> cg_node \<Rightarrow> cg_node \<Rightarrow> bool" where
  "edgeExists g from to \<longleftrightarrow> to \<in> cg_callers g from"

section \<open>Building it\<close>

definition IsTailJmpSite :: "cg_env \<Rightarrow> ir \<Rightarrow> iid \<Rightarrow> bool" where
  "IsTailJmpSite env f i \<longleftrightarrow>
     (if ge_branch env i then False
      else case tgt_of f i of None \<Rightarrow> True | Some t \<Rightarrow> function_of f i \<noteq> function_of f t)"

definition IsPushJmpSite :: "cg_env \<Rightarrow> ir \<Rightarrow> iid \<Rightarrow> bool" where
  "IsPushJmpSite env f i \<longleftrightarrow>
     (case ft_of f i of None \<Rightarrow> False
      | Some n \<Rightarrow> ge_push env i \<and> ge_relocs env i \<noteq> 0 \<and> ge_branch env n)"

definition add_edge :: "cg_node \<Rightarrow> cg_node \<Rightarrow> callgraph \<Rightarrow> callgraph" where
  "add_edge from to g = g\<lparr>
     cg_callees := (cg_callees g)(from := insert to (cg_callees g from)),
     cg_callers := (cg_callers g)(to := insert from (cg_callers g to))\<rparr>"

definition MarkCallSite :: "ir \<Rightarrow> iid \<Rightarrow> callgraph \<Rightarrow> callgraph" where
  "MarkCallSite f insn g =
     (let from_func = function_of f insn;
          to_func = (case tgt_of f insn of None \<Rightarrow> None | Some t \<Rightarrow> function_of f t);
          from_node = (case findNode g from_func of None \<Rightarrow> HellNode | Some n \<Rightarrow> n);
          to_node = (case findNode g to_func of None \<Rightarrow> HellNode | Some n \<Rightarrow> n)
      in add_edge from_node to_node
           (g\<lparr>cg_call_sites := (cg_call_sites g)(from_node := insert insn (cg_call_sites g from_node))\<rparr>))"

definition CreateNodes :: "nat list \<Rightarrow> callgraph \<Rightarrow> callgraph" where
  "CreateNodes fns g = fold (\<lambda>fn g. g\<lparr>cg_nodes := (cg_nodes g)(fn \<mapsto> CGNode (cg_allocated g)),
     cg_allocated := Suc (cg_allocated g)\<rparr>) fns g"

definition add_insn :: "cg_env \<Rightarrow> ir \<Rightarrow> iid \<Rightarrow> callgraph \<Rightarrow> callgraph result" where
  "add_insn env f insn g =
     (let g = (if ge_call env insn \<or> IsTailJmpSite env f insn then MarkCallSite f insn g else g);
          g = (if IsPushJmpSite env f insn then MarkCallSite f (the (ft_of f insn)) g else g)
      in case function_of f insn of
           None \<Rightarrow> Inr g
         | Some F \<Rightarrow>
             if ge_entry env F = Some insn \<and> ibta_of f insn \<noteq> None then
               (case findNode g (Some F) of
                  None \<Rightarrow> Inl AssertFail
                | Some node \<Rightarrow> Inr (add_edge HellNode node g))
             else Inr g)"

definition addFile :: "cg_env \<Rightarrow> ir \<Rightarrow> nat list \<Rightarrow> iid list \<Rightarrow> callgraph \<Rightarrow> callgraph result" where
  "addFile env f fns insns g = foldR (add_insn env f) insns (CreateNodes fns g)"

section \<open>Ancestors\<close>

fun GetAncestors_visit :: "nat \<Rightarrow> (cg_node set \<Rightarrow> cg_node list) \<Rightarrow> callgraph \<Rightarrow> bool \<Rightarrow> cg_node \<Rightarrow>
    cg_node set \<times> cg_node set \<Rightarrow> (cg_node set \<times> cg_node set) result" where
  "GetAncestors_visit 0 no g skipHellNode node st = Inl OutOfFuel"
| "GetAncestors_visit (Suc n) no g skipHellNode node (ancestors, visited) =
     (if node \<in> visited then Inr (ancestors, visited)
      else foldR (\<lambda>pred st.
          if pred \<in> snd st then Inr st
          else if pred = HellNode \<and> skipHellNode then Inr st
          else GetAncestors_visit n no g skipHellNode pred (insert pred (fst st), snd st))
        (no (cg_callers g node)) (ancestors, insert node visited))"

definition GetAncestors :: "nat \<Rightarrow> (cg_node set \<Rightarrow> cg_node list) \<Rightarrow> callgraph \<Rightarrow> bool \<Rightarrow> cg_node option \<Rightarrow> cg_node set \<Rightarrow> cg_node set result" where
  "GetAncestors n no g skipHellNode node ancestors =
     (case node of
        None \<Rightarrow> Inr ancestors
      | Some x \<Rightarrow> bindR (GetAncestors_visit n no g skipHellNode x (ancestors, {})) (\<lambda>st. Inr (fst st)))"

definition isReachable :: "nat \<Rightarrow> (cg_node set \<Rightarrow> cg_node list) \<Rightarrow> callgraph \<Rightarrow> cg_node \<Rightarrow> cg_node \<Rightarrow> bool \<Rightarrow> bool result" where
  "isReachable n no g from to skipHellNode =
     bindR (GetAncestors n no g skipHellNode (Some to) {}) (\<lambda>ancestors. Inr (from \<in> ancestors))"

section \<open>What building adds\<close>

definition cg_node_of :: "callgraph \<Rightarrow> nat option \<Rightarrow> cg_node" where
  "cg_node_of g F = (case findNode g F of None \<Rightarrow> HellNode | Some n \<Rightarrow> n)"

text \<open>The instructions marked on account of \<open>i\<close>, and the edges that \<open>i\<close> stands for.\<close>

definition marked :: "cg_env \<Rightarrow> ir \<Rightarrow> iid \<Rightarrow> iid set" where
  "marked env f i = (if ge_call env i \<or> IsTailJmpSite env f i then {i} else {}) \<union>
     (if IsPushJmpSite env f i then set_option (ft_of f i) else {})"

definition site_edge :: "callgraph \<Rightarrow> ir \<Rightarrow> iid \<Rightarrow> cg_node \<times> cg_node" where
  "site_edge g f s = (cg_node_of g (function_of f s), cg_node_of g (Option.bind (tgt_of f s) (function_of f)))"

definition insn_edges :: "cg_env \<Rightarrow> ir \<Rightarrow> callgraph \<Rightarrow> iid \<Rightarrow> (cg_node \<times> cg_node) set" where
  "insn_edges env f g i = site_edge g f ` marked env f i \<union>
     (if \<exists>F. function_of f i = Some F \<and> ge_entry env F = Some i \<and> ibta_of f i \<noteq> None
      then {(HellNode, cg_node_of g (function_of f i))} else {})"

text \<open>\<open>g'\<close> is \<open>g\<close> with the edges \<open>E\<close> and the call sites \<open>S\<close> of instructions.\<close>

definition grown :: "ir \<Rightarrow> (cg_node \<times> cg_node) set \<Rightarrow> iid set \<Rightarrow> callgraph \<Rightarrow> callgraph \<Rightarrow> bool" where
  "grown f E S g g' \<longleftrightarrow> cg_nodes g' = cg_nodes g \<and>
     (\<forall>s. cg_callees g' s = cg_callees g s \<union> {t. (s, t) \<in> E}) \<and>
     (\<forall>t. cg_callers g' t = cg_callers g t \<union> {s. (s, t) \<in> E}) \<and>
     (\<forall>n. cg_call_sites g' n = cg_call_sites g n \<union> {i\<in>S. cg_node_of g (function_of f i) = n})"

lemma cg_grown_refl: "grown f {} {} g g"
  by (simp add: grown_def)

lemma grown_node: "grown f E S g g' \<Longrightarrow> cg_node_of g' = cg_node_of g"
  by (intro ext) (simp add: grown_def cg_node_of_def findNode_def)

lemma cg_grown_trans: "grown f E S g g' \<Longrightarrow> grown f E' S' g' g'' \<Longrightarrow> grown f (E \<union> E') (S \<union> S') g g''"
  using grown_node [of f E S g g'] unfolding grown_def by auto

lemma grown_edge: "grown f {(s, t)} {} g (add_edge s t g)"
  by (auto simp: grown_def add_edge_def)

lemma grown_mark: "grown f {site_edge g f i} {i} g (MarkCallSite f i g)"
proof -
  have "(case tgt_of f i of None \<Rightarrow> None | Some t \<Rightarrow> function_of f t) = Option.bind (tgt_of f i) (function_of f)"
    by (simp split: option.split)
  then show ?thesis
    by (auto simp: grown_def MarkCallSite_def Let_def add_edge_def site_edge_def cg_node_of_def)
qed

lemma grown_insn_edges: "grown f E S g g' \<Longrightarrow> insn_edges env f g' = insn_edges env f g"
  unfolding insn_edges_def site_edge_def by (simp only: grown_node)

lemma add_insn_grown:
  assumes "\<forall>F. function_of f i = Some F \<longrightarrow> ge_entry env F = Some i \<longrightarrow> ibta_of f i \<noteq> None \<longrightarrow> F \<in> dom (cg_nodes g)"
  shows "\<exists>g'. add_insn env f i g = Inr g' \<and> grown f (insn_edges env f g i) (marked env f i) g g'"
proof -
  define g1 where "g1 = (if ge_call env i \<or> IsTailJmpSite env f i then MarkCallSite f i g else g)"
  define g2 where "g2 = (if IsPushJmpSite env f i then MarkCallSite f (the (ft_of f i)) g1 else g1)"
  let ?S1 = "if ge_call env i \<or> IsTailJmpSite env f i then {i} else {}"
    and ?S2 = "if IsPushJmpSite env f i then {the (ft_of f i)} else {}"
  have 1: "grown f (site_edge g f ` ?S1) ?S1 g g1" by (simp add: g1_def grown_mark cg_grown_refl)
  have "grown f (site_edge g f ` ?S2) ?S2 g1 g2"
    using grown_mark [of f g1 "the (ft_of f i)"] by (simp add: g2_def cg_grown_refl site_edge_def grown_node [OF 1])
  from cg_grown_trans [OF 1 this]
  have "grown f (site_edge g f ` (?S1 \<union> ?S2)) (?S1 \<union> ?S2) g g2" by (simp add: image_Un)
  moreover have "?S1 \<union> ?S2 = marked env f i" by (auto simp: marked_def IsPushJmpSite_def split: option.splits)
  ultimately have 2: "grown f (site_edge g f ` marked env f i) (marked env f i) g g2" by simp
  have add: "add_insn env f i g = (case function_of f i of None \<Rightarrow> Inr g2 | Some F \<Rightarrow>
      if ge_entry env F = Some i \<and> ibta_of f i \<noteq> None then
        (case findNode g2 (Some F) of None \<Rightarrow> Inl AssertFail | Some node \<Rightarrow> Inr (add_edge HellNode node g2)) else Inr g2)"
    unfolding add_insn_def Let_def g2_def g1_def ..
  show ?thesis
  proof (cases "\<exists>F. function_of f i = Some F \<and> ge_entry env F = Some i \<and> ibta_of f i \<noteq> None")
    case True
    then obtain F n where F: "function_of f i = Some F" "ge_entry env F = Some i" "ibta_of f i \<noteq> None" "cg_nodes g F = Some n"
      using assms by (auto simp: dom_def)
    have n: "findNode g2 (Some F) = Some n" "cg_node_of g (Some F) = n"
      using F(4) 2 by (simp_all add: findNode_def cg_node_of_def grown_def)
    have "add_insn env f i g = Inr (add_edge HellNode n g2)" using F(1-3) n(1) by (simp add: add)
    then show ?thesis using cg_grown_trans [OF 2 grown_edge [of f HellNode n g2]] F(1-3) n(2) by (simp add: insn_edges_def)
  next
    case False
    then have "add_insn env f i g = Inr g2" by (auto simp: add split: option.split)
    moreover have "insn_edges env f g i = site_edge g f ` marked env f i" unfolding insn_edges_def using False by (simp only: if_False Un_empty_right)
    ultimately show ?thesis using 2 by simp
  qed
qed

lemma add_insns_grown:
  assumes "\<forall>i\<in>set is. \<forall>F. function_of f i = Some F \<longrightarrow> ge_entry env F = Some i \<longrightarrow> ibta_of f i \<noteq> None \<longrightarrow> F \<in> dom (cg_nodes g)"
  shows "\<exists>g'. foldR (add_insn env f) is g = Inr g' \<and>
    grown f (\<Union>i\<in>set is. insn_edges env f g i) (\<Union>i\<in>set is. marked env f i) g g'"
  using assms
proof (induction "is" arbitrary: g)
  case (Cons i "is")
  obtain g1 where g1: "add_insn env f i g = Inr g1" "grown f (insn_edges env f g i) (marked env f i) g g1"
    using add_insn_grown [of f i env g] Cons.prems by auto
  have "cg_nodes g1 = cg_nodes g" using g1(2) by (simp add: grown_def)
  then obtain g2 where g2: "foldR (add_insn env f) is g1 = Inr g2"
      "grown f (\<Union>i\<in>set is. insn_edges env f g i) (\<Union>i\<in>set is. marked env f i) g1 g2"
    using Cons.IH [of g1] Cons.prems grown_insn_edges [OF g1(2), of env] by auto
  show ?case using cg_grown_trans [OF g1(2) g2(2)] g1(1) g2(1) by simp
qed (simp add: cg_grown_refl)

section \<open>What the ancestors are\<close>

definition caller_rel :: "callgraph \<Rightarrow> bool \<Rightarrow> (cg_node \<times> cg_node) set" where
  "caller_rel g skip = {(t, s). s \<in> cg_callers g t \<and> \<not> (s = HellNode \<and> skip)}"

text \<open>The visited nodes grow from \<open>V\<close> to \<open>W\<close>, within the callers of \<open>node\<close> and with all of theirs.\<close>

definition visits :: "callgraph \<Rightarrow> bool \<Rightarrow> cg_node \<Rightarrow> cg_node set \<Rightarrow> cg_node set \<Rightarrow> bool" where
  "visits g skip node V W \<longleftrightarrow> V \<subseteq> W \<and>
     (\<forall>x\<in>W - V. (node, x) \<in> (caller_rel g skip)\<^sup>* \<and> caller_rel g skip `` {x} \<subseteq> W)"

lemma visits_refl: "visits g skip a V V"
  by (simp add: visits_def)

lemma visits_trans: "visits g skip a U V \<Longrightarrow> visits g skip a V W \<Longrightarrow> visits g skip a U W"
  unfolding visits_def by blast

lemma visits_source: "(a, b) \<in> caller_rel g skip \<Longrightarrow> visits g skip b V W \<Longrightarrow> visits g skip a V W"
  unfolding visits_def by (meson converse_rtrancl_into_rtrancl)

lemma visit_ok:
  assumes no: "\<And>A. finite A \<Longrightarrow> set (no A) = A" and B: "finite B" "\<And>b. b \<in> B \<Longrightarrow> cg_callers g b \<subseteq> B"
    and "node \<in> B" "node \<notin> V" "card (B - V) \<le> n"
  shows "\<exists>W. GetAncestors_visit n no g skip node (A, V) = Inr (A \<union> (W - insert node V), W) \<and> node \<in> W \<and> visits g skip node V W"
  using assms(4-)
proof (induction n arbitrary: node A V)
  case 0
  then show ?case using B(1) by auto
next
  case (Suc n)
  let ?R = "caller_rel g skip"
  let ?f = "\<lambda>pred st. if pred \<in> snd st then Inr st else if pred = HellNode \<and> skip then Inr st
    else GetAncestors_visit n no g skip pred (insert pred (fst st), snd st)"
  have loop: "\<exists>W. foldR ?f ps (A, U) = Inr (A \<union> (W - U), W) \<and> visits g skip node U W \<and> ?R `` {node} \<inter> set ps \<subseteq> W"
    if "set ps \<subseteq> cg_callers g node" "insert node V \<subseteq> U" for ps A U
    using that
  proof (induction ps arbitrary: A U)
    case Nil
    then show ?case by (simp add: visits_refl)
  next
    case (Cons p ps)
    have "\<exists>W. ?f p (A, U) = Inr (A \<union> (W - U), W) \<and> visits g skip node U W \<and> ((node, p) \<in> ?R \<longrightarrow> p \<in> W)"
    proof (cases "p \<in> U \<or> p = HellNode \<and> skip")
      case True
      then show ?thesis by (intro exI [of _ U]) (auto simp: visits_refl caller_rel_def)
    next
      case False
      have p: "(node, p) \<in> ?R" "p \<in> B" "p \<notin> U"
        using False Cons.prems(1) B(2) [OF Suc.prems(1)] by (auto simp: caller_rel_def)
      have "card (B - U) < card (B - V)" using Cons.prems(2) Suc.prems(1,2) B(1) by (intro psubset_card_mono) auto
      then have "card (B - U) \<le> n" using Suc.prems(3) by simp
      from Suc.IH [OF p(2,3) this, of "insert p A"] obtain W where
        W: "GetAncestors_visit n no g skip p (insert p A, U) = Inr (insert p A \<union> (W - insert p U), W)" "p \<in> W" "visits g skip p U W"
        by blast
      have "insert p A \<union> (W - insert p U) = A \<union> (W - U)" using W(2) p(3) by blast
      then show ?thesis using W visits_source [OF p(1) W(3)] False by (intro exI [of _ W]) auto
    qed
    then obtain W where W: "?f p (A, U) = Inr (A \<union> (W - U), W)" "visits g skip node U W" "(node, p) \<in> ?R \<longrightarrow> p \<in> W" by blast
    have UW: "U \<subseteq> W" using W(2) by (simp add: visits_def)
    have "set ps \<subseteq> cg_callers g node" "insert node V \<subseteq> W" using Cons.prems UW by auto
    from Cons.IH [OF this, of "A \<union> (W - U)"] obtain X where
      X: "foldR ?f ps (A \<union> (W - U), W) = Inr (A \<union> (W - U) \<union> (X - W), X)" "visits g skip node W X" "?R `` {node} \<inter> set ps \<subseteq> X" by blast
    have "W \<subseteq> X" using X(2) by (simp add: visits_def)
    then have "A \<union> (W - U) \<union> (X - W) = A \<union> (X - U)" "?R `` {node} \<inter> set (p # ps) \<subseteq> X" using UW W(3) X(3) by auto
    moreover have "foldR ?f (p # ps) (A, U) = Inr (A \<union> (W - U) \<union> (X - W), X)" using W(1) X(1) by simp
    ultimately show ?case using visits_trans [OF W(2) X(2)] by (intro exI [of _ X]) simp
  qed
  have "finite (cg_callers g node)" using B Suc.prems(1) by (meson finite_subset)
  then have ps: "set (no (cg_callers g node)) = cg_callers g node" by (rule no)
  obtain W where W: "foldR ?f (no (cg_callers g node)) (A, insert node V) = Inr (A \<union> (W - insert node V), W)"
      "visits g skip node (insert node V) W" "?R `` {node} \<inter> cg_callers g node \<subseteq> W"
    using loop [of "no (cg_callers g node)" "insert node V" A] ps by auto
  have "?R `` {node} \<subseteq> W" "node \<in> W" using W(2,3) by (auto simp: caller_rel_def visits_def)
  then have "visits g skip node V W" using W(2) by (auto simp: visits_def)
  then show ?case using W(1) \<open>node \<in> W\<close> Suc.prems(2) by (intro exI [of _ W]) simp
qed

lemma GetAncestors_ok:
  assumes no: "\<And>A. finite A \<Longrightarrow> set (no A) = A" and B: "finite B" "\<And>b. b \<in> B \<Longrightarrow> cg_callers g b \<subseteq> B"
    and "node \<in> B" "card B \<le> n"
  shows "GetAncestors n no g skip (Some node) {} = Inr ((caller_rel g skip)\<^sup>* `` {node} - {node})"
proof -
  let ?R = "caller_rel g skip"
  obtain W where W: "GetAncestors_visit n no g skip node ({}, {}) = Inr (W - {node}, W)" "node \<in> W" "visits g skip node {} W"
    using visit_ok [OF no B assms(4), of "{}" n skip "{}"] assms(5) by auto
  have cl: "?R `` W \<subseteq> W" using W(3) by (auto simp: visits_def)
  have "x \<in> W" if "(node, x) \<in> ?R\<^sup>*" for x using that W(2) cl by (induction rule: rtrancl_induct) auto
  then have "?R\<^sup>* `` {node} = W" using W(3) by (auto simp: visits_def)
  then show ?thesis using W(1) by (simp add: GetAncestors_def)
qed

section \<open>The call graph of a file\<close>

text \<open>Every function has a node of its own, allocated before now.\<close>

definition nodes_ok :: "callgraph \<Rightarrow> bool" where
  "nodes_ok g \<longleftrightarrow> (\<forall>F n. cg_nodes g F = Some n \<longrightarrow> (\<exists>k<cg_allocated g. n = CGNode k)) \<and>
     (\<forall>F G n. cg_nodes g F = Some n \<longrightarrow> cg_nodes g G = Some n \<longrightarrow> F = G)"

lemma CreateNodes_ok:
  assumes "nodes_ok g"
  shows "nodes_ok (CreateNodes fns g) \<and> dom (cg_nodes (CreateNodes fns g)) = dom (cg_nodes g) \<union> set fns \<and>
    cg_callers (CreateNodes fns g) = cg_callers g \<and> cg_callees (CreateNodes fns g) = cg_callees g \<and>
    cg_call_sites (CreateNodes fns g) = cg_call_sites g"
  using assms
proof (induction fns arbitrary: g)
  case (Cons F fns)
  define h where "h = g\<lparr>cg_nodes := (cg_nodes g)(F \<mapsto> CGNode (cg_allocated g)), cg_allocated := Suc (cg_allocated g)\<rparr>"
  have C: "CreateNodes (F # fns) g = CreateNodes fns h" by (simp add: CreateNodes_def h_def)
  have new: "cg_nodes g G \<noteq> Some (CGNode (cg_allocated g))" for G
    using Cons.prems by (force simp: nodes_ok_def)
  have "nodes_ok h" unfolding nodes_ok_def
  proof (intro conjI allI impI)
    show "\<exists>k<cg_allocated h. n = CGNode k" if "cg_nodes h G = Some n" for G n
      using that Cons.prems by (auto simp: h_def nodes_ok_def less_Suc_eq split: if_splits)
    show "G = H" if "cg_nodes h G = Some n" "cg_nodes h H = Some n" for G H n
      using that Cons.prems new by (auto simp: h_def nodes_ok_def split: if_splits)
  qed
  moreover have "dom (cg_nodes h) = insert F (dom (cg_nodes g))" unfolding h_def by (simp add: fun_upd_def [symmetric] del: fun_upd_apply)
  moreover have "cg_callers h = cg_callers g" "cg_callees h = cg_callees g" "cg_call_sites h = cg_call_sites g" by (simp_all add: h_def)
  ultimately show ?case unfolding C using Cons.IH [of h] by simp
qed (simp add: CreateNodes_def)

text \<open>What the file must say of its functions: an entry that can be reached indirectly is in one of them.\<close>

definition functions_ok :: "cg_env \<Rightarrow> ir \<Rightarrow> nat list \<Rightarrow> iid list \<Rightarrow> bool" where
  "functions_ok env f fns insns \<longleftrightarrow>
     (\<forall>i\<in>set insns. \<forall>F. function_of f i = Some F \<longrightarrow> ge_entry env F = Some i \<longrightarrow> ibta_of f i \<noteq> None \<longrightarrow> F \<in> set fns)"

definition file_edges :: "cg_env \<Rightarrow> ir \<Rightarrow> iid list \<Rightarrow> callgraph \<Rightarrow> (cg_node \<times> cg_node) set" where
  "file_edges env f insns g = (\<Union>i\<in>set insns. insn_edges env f g i)"

lemma addFile_ok:
  assumes "functions_ok env f fns insns"
  shows "\<exists>g. addFile env f fns insns empty_callgraph = Inr g \<and>
    dom (cg_nodes g) = set fns \<and> inj_on (cg_nodes g) (set fns) \<and> HellNode \<notin> ran (cg_nodes g) \<and>
    (\<forall>s. cg_callees g s = {t. (s, t) \<in> file_edges env f insns g}) \<and>
    (\<forall>t. cg_callers g t = {s. (s, t) \<in> file_edges env f insns g}) \<and>
    (\<forall>n. cg_call_sites g n = {i. (\<exists>j\<in>set insns. i \<in> marked env f j) \<and> cg_node_of g (function_of f i) = n})"
proof -
  let ?h = "CreateNodes fns empty_callgraph"
  have "nodes_ok empty_callgraph" by (simp add: nodes_ok_def empty_callgraph_def)
  from CreateNodes_ok [OF this, of fns]
  have h: "cg_callers ?h = (\<lambda>_. {})" "cg_callees ?h = (\<lambda>_. {})" "cg_call_sites ?h = (\<lambda>_. {})"
      "dom (cg_nodes ?h) = set fns" "nodes_ok ?h" by (simp_all add: empty_callgraph_def)
  have inj: "inj_on (cg_nodes ?h) (set fns)"
    using h(5) unfolding h(4) [symmetric] nodes_ok_def inj_on_def by (metis domD)
  obtain g where g: "foldR (add_insn env f) insns ?h = Inr g"
      "grown f (file_edges env f insns ?h) (\<Union>i\<in>set insns. marked env f i) ?h g"
    using add_insns_grown [of insns f env ?h] assms h(4) by (auto simp: functions_ok_def file_edges_def)
  have same: "cg_nodes g = cg_nodes ?h" "file_edges env f insns g = file_edges env f insns ?h"
      "cg_node_of g = cg_node_of ?h"
    using g(2) grown_insn_edges [OF g(2), of env] grown_node [OF g(2)] by (simp_all add: grown_def file_edges_def)
  have "HellNode \<notin> ran (cg_nodes ?h)" using h(5) by (fastforce simp: ran_def nodes_ok_def)
  moreover have "cg_call_sites g n = {i. (\<exists>j\<in>set insns. i \<in> marked env f j) \<and> cg_node_of g (function_of f i) = n}" for n
    using g(2) h(3) unfolding same(3) by (auto simp: grown_def)
  moreover have "cg_callees g s = {t. (s, t) \<in> file_edges env f insns g}" "cg_callers g s = {t. (t, s) \<in> file_edges env f insns g}" for s
    using g(2) h(1,2) unfolding same(2) by (simp_all add: grown_def)
  ultimately show ?thesis using g(1) h(4) inj by (intro exI [of _ g]) (simp add: addFile_def same(1))
qed

lemma file_edges_nodes:
  assumes "(s, t) \<in> file_edges env f insns g"
  shows "s \<in> insert HellNode (ran (cg_nodes g))" "t \<in> insert HellNode (ran (cg_nodes g))"
proof -
  have "cg_node_of g F \<in> insert HellNode (ran (cg_nodes g))" for F
    by (cases F) (auto simp: cg_node_of_def findNode_def ran_def split: option.splits)
  then show "s \<in> insert HellNode (ran (cg_nodes g))" "t \<in> insert HellNode (ran (cg_nodes g))"
    using assms by (auto simp: file_edges_def insn_edges_def site_edge_def split: if_splits)
qed

text \<open>C39: The call graph of a file is built, with one node for each function. Callees and callers
  agree, and say that the function of a marked instruction, or the hell node if there is none, calls
  the function of its target, or the hell node; entries that have an indirect branch target address
  are called by the hell node. The test for an edge answers for the reverse edge.
\<close>

theorem callgraph_edges:
  assumes "functions_ok env f fns insns"
  shows "\<exists>g. addFile env f fns insns empty_callgraph = Inr g \<and>
    dom (cg_nodes g) = set fns \<and> inj_on (cg_nodes g) (set fns) \<and> HellNode \<notin> ran (cg_nodes g) \<and>
    (\<forall>s t. t \<in> cg_callees g s \<longleftrightarrow> (s, t) \<in> file_edges env f insns g) \<and>
    (\<forall>s t. s \<in> cg_callers g t \<longleftrightarrow> (s, t) \<in> file_edges env f insns g) \<and>
    (\<forall>s t. edgeExists g s t \<longleftrightarrow> (t, s) \<in> file_edges env f insns g) \<and>
    (\<forall>n. cg_call_sites g n = {i. (\<exists>j\<in>set insns. i \<in> marked env f j) \<and> cg_node_of g (function_of f i) = n})"
  using addFile_ok [OF assms] by (auto simp: edgeExists_def)

text \<open>C40: In the call graph of a file a node is reachable from another exactly if a path of calls
  leads to it, one that does not start at or go through the hell node if that is to be skipped.
  A node is not reported as reachable from itself, not even when it is on a cycle.
\<close>

theorem callgraph_reachable:
  assumes ok: "functions_ok env f fns insns" and g: "addFile env f fns insns empty_callgraph = Inr g"
    and no: "\<And>A. finite A \<Longrightarrow> set (no A) = A"
    and "to": "to \<in> insert HellNode (ran (cg_nodes g))" and n: "length fns < n"
  shows "isReachable n no g from to skip =
    Inr (from \<noteq> to \<and> (from, to) \<in> {(s, t) \<in> file_edges env f insns g. \<not> (s = HellNode \<and> skip)}\<^sup>*)"
proof -
  let ?B = "insert HellNode (ran (cg_nodes g))" and ?E = "{(s, t) \<in> file_edges env f insns g. \<not> (s = HellNode \<and> skip)}"
  have G: "dom (cg_nodes g) = set fns" "\<forall>t. cg_callers g t = {s. (s, t) \<in> file_edges env f insns g}"
    using addFile_ok [OF ok] g by auto
  have "ran (cg_nodes g) = (\<lambda>F. the (cg_nodes g F)) ` set fns" unfolding G(1) [symmetric] by (force simp: ran_def dom_def)
  then have "finite ?B" "card ?B \<le> Suc (length fns)"
    using card_image_le [of "set fns" "\<lambda>F. the (cg_nodes g F)"] card_length [of fns] card_insert_le_m1 [of "Suc (length fns)" "ran (cg_nodes g)" HellNode]
    by simp_all
  moreover have "cg_callers g b \<subseteq> ?B" for b using G(2) file_edges_nodes(1) by blast
  ultimately have "GetAncestors n no g skip (Some to) {} = Inr ((caller_rel g skip)\<^sup>* `` {to} - {to})"
    using GetAncestors_ok [OF no _ _ "to", of g n skip] n by simp
  moreover have "caller_rel g skip = ?E\<inverse>" using G(2) by (auto simp: caller_rel_def)
  ultimately show ?thesis by (auto simp: isReachable_def rtrancl_converse)
qed

theorem callgraph_edges_witness:
  "\<exists>g. addFile \<lparr>ge_call = (\<lambda>i. i = 0), ge_branch = (\<lambda>_. True), ge_push = (\<lambda>_. False), ge_relocs = (\<lambda>_. 0), ge_entry = [1 \<mapsto> 1]\<rparr>
     \<lparr>ir_insns = [0 \<mapsto> (new_insn (Asm Hlt))\<lparr>i_tgt := Some 1, i_function := Some 0\<rparr>, 1 \<mapsto> (new_insn (Asm Hlt))\<lparr>i_function := Some 1\<rparr>], ir_next = 2\<rparr>
     [0, 1] [0, 1] empty_callgraph = Inr g \<and> dom (cg_nodes g) = {0, 1}"
proof -
  have "functions_ok \<lparr>ge_call = (\<lambda>i. i = 0), ge_branch = (\<lambda>_. True), ge_push = (\<lambda>_. False), ge_relocs = (\<lambda>_. 0), ge_entry = [1 \<mapsto> 1]\<rparr>
     \<lparr>ir_insns = [0 \<mapsto> (new_insn (Asm Hlt))\<lparr>i_tgt := Some 1, i_function := Some 0\<rparr>, 1 \<mapsto> (new_insn (Asm Hlt))\<lparr>i_function := Some 1\<rparr>], ir_next = 2\<rparr>
     [0, 1] [0, 1]" by (simp add: functions_ok_def function_of_def)
  from callgraph_edges [OF this] show ?thesis by auto
qed

text \<open>The function 0 calls the function 1, which jumps back to its start.\<close>

definition two_functions :: "cg_env \<times> ir" where
  "two_functions =
     (\<lparr>ge_call = (\<lambda>i. i = 0), ge_branch = (\<lambda>_. True), ge_push = (\<lambda>_. False), ge_relocs = (\<lambda>_. 0), ge_entry = [0 \<mapsto> 0, 1 \<mapsto> 1]\<rparr>,
      \<lparr>ir_insns = [0 \<mapsto> (new_insn (Asm Hlt))\<lparr>i_tgt := Some 1, i_function := Some 0\<rparr>,
         1 \<mapsto> (new_insn (Asm Hlt))\<lparr>i_tgt := Some 0, i_function := Some 1\<rparr>], ir_next = 2\<rparr>)"

theorem callgraph_reachable_witness:
  "\<exists>g. addFile (fst two_functions) (snd two_functions) [0, 1] [0, 1] empty_callgraph = Inr g \<and>
     isReachable 3 sorted_list_of_set g (CGNode 0) (CGNode 1) True = Inr True"
proof -
  let ?f = "snd two_functions" and ?e = "fst two_functions"
  have ok: "functions_ok ?e ?f [0, 1] [0, 1]"
    by (simp add: two_functions_def functions_ok_def function_of_def)
  obtain g where g: "addFile ?e ?f [0, 1] [0, 1] empty_callgraph = Inr g" "cg_nodes g = [0 \<mapsto> CGNode 0, 1 \<mapsto> CGNode 1]"
    by (simp add: two_functions_def addFile_def CreateNodes_def add_insn_def IsTailJmpSite_def IsPushJmpSite_def empty_callgraph_def
        tgt_of_def ft_of_def function_of_def ibta_of_def new_insn_def MarkCallSite_def Let_def add_edge_def findNode_def)
  have "(CGNode 0, CGNode 1) \<in> insn_edges ?e ?f g 0"
    by (simp add: two_functions_def insn_edges_def marked_def site_edge_def cg_node_of_def findNode_def g(2) tgt_of_def function_of_def)
  then have "(CGNode 0, CGNode 1) \<in> {(s, t) \<in> file_edges ?e ?f [0, 1] g. \<not> (s = HellNode \<and> True)}"
    by (simp add: file_edges_def)
  moreover have "CGNode 1 \<in> insert HellNode (ran (cg_nodes g))" using ranI [of "cg_nodes g" 1 "CGNode 1"] by (simp add: g(2))
  ultimately have "isReachable 3 sorted_list_of_set g (CGNode 0) (CGNode 1) True = Inr True"
    using callgraph_reachable [OF ok g(1), of sorted_list_of_set "CGNode 1" 3 "CGNode 0" True] by auto
  then show ?thesis using g(1) by blast
qed

text \<open>A jump from the function 0 to the function 1 is no edge between them; the instruction before
  it, which does not branch at all, makes the hell node a callee of the function 0. (The test for
  tail jumps has its first condition reversed: it looks at instructions that do not branch.)
\<close>

theorem tail_jump_not_an_edge:
  "\<exists>g. addFile \<lparr>ge_call = (\<lambda>_. False), ge_branch = (\<lambda>i. i \<noteq> 0), ge_push = (\<lambda>_. False), ge_relocs = (\<lambda>_. 0), ge_entry = [0 \<mapsto> 0, 1 \<mapsto> 2]\<rparr>
      \<lparr>ir_insns = [0 \<mapsto> (new_insn (Asm (LeaSp 8)))\<lparr>i_ft := Some 1, i_function := Some 0\<rparr>,
         1 \<mapsto> (new_insn (DataBits [0xeb, 0]))\<lparr>i_tgt := Some 2, i_function := Some 0\<rparr>,
         2 \<mapsto> (new_insn (DataBits [0xc3]))\<lparr>i_function := Some 1\<rparr>], ir_next = 3\<rparr> [0, 1] [0, 1, 2] empty_callgraph = Inr g \<and>
    cg_nodes g = [0 \<mapsto> CGNode 0, 1 \<mapsto> CGNode 1] \<and> cg_callees g (CGNode 0) = {HellNode} \<and> cg_call_sites g (CGNode 0) = {0} \<and>
    cg_callers g (CGNode 1) = {}"
  by (simp add: addFile_def CreateNodes_def add_insn_def IsTailJmpSite_def IsPushJmpSite_def empty_callgraph_def
      tgt_of_def ft_of_def function_of_def ibta_of_def new_insn_def MarkCallSite_def Let_def add_edge_def findNode_def)

end
