(* ===== verification/Spec2Isabelle.thy ===== *)
theory Spec2Isabelle
  imports Zipr_Program Zipr_FixIR Zipr_ScoopProps Zipr_ElfTop Zipr_ElfSyms Zipr_UnpinX86 Zipr_CFGProps Zipr_CallGraph
begin

text \<open>
  \<^bold>\<open>Zipr.\<close> Zipr is a static binary rewriter. It takes a program as instructions and data (the
  IR), gives every instruction a new address and writes a new executable. What the program can
  reach indirectly is pinned: at the old address of a pinned instruction there stays a jump to
  its new place. This library models the rewriter (\<open>src/zipr\<close>) and the graphs that
  transformations of the IR use (\<open>src/irdb-libs/libIRDB-cfg\<close>), and proves what makes them right.

  \<^bold>\<open>How the code is modelled.\<close> An operation on an object is a function from the state before to
  the state after, in \<open>'a result\<close>: \<open>Inl\<close> is a failed assertion, an exception, an exit or
  undefined behaviour (\<open>Zipr_Prelude\<close>). Addresses are 64-bit words; \<open>int\<close> and \<open>unsigned int\<close> are
  32-bit words where the code computes with them. Objects behind pointers are numbers that a
  store maps to records. Sets of pointers are lists in an order that is a parameter, since the
  language does not fix it. The decoder, the assembler, random numbers, the ELF library that reads
  the input and the plugins are parameters; what is relied on is a named hypothesis.

  \<^bold>\<open>Memory space\<close> (\<open>range.cpp\<close>, \<open>zipr_mem_space.h\<close>, \<open>memory_space.cpp\<close>). \<open>Zipr_Range\<close>: ranges
  and their order. \<open>Zipr_FreeRanges\<close>: the two views of the free ranges. \<open>Zipr_MemorySpace\<close>:
  splitting and merging of free ranges, search, bytes. It is refined to a set of free addresses
  (\<open>free_set\<close>): splitting removes an address, merging adds one, the two are inverse, and a range
  that is found is free. \<open>Zipr_Bits\<close>: bytes of words.

  \<^bold>\<open>Patchers\<close> (\<open>patcher_x86.cpp\<close>, \<open>patcher_arm64.cpp\<close>, \<open>patcher_arm32.cpp\<close>,
  \<open>patcher_mips32.cpp\<close>). \<open>Zipr_Patcher_X86\<close> and \<open>Zipr_Patcher_RISC\<close>: rewriting a branch so that
  it leads elsewhere, against a decoder of the branch, with the trampolines of ARM64.

  \<^bold>\<open>Dollops\<close> (\<open>dollop.cpp\<close>, \<open>zipr_dollop_man.cpp\<close>). \<open>Zipr_IR\<close>: instructions. \<open>Zipr_Dollop\<close>:
  dollops, runs of instructions that are placed together. \<open>Zipr_DollopMan\<close>: their manager with
  its invariant. \<open>Zipr_Targets\<close>: after all are made, every target and fallthrough heads a dollop;
  the loop ends, but not for every input.

  \<^bold>\<open>Pinning\<close> (\<open>pinner_*.cpp\<close>, \<open>sled.h\<close>). \<open>Zipr_State\<close>: the state the phases share.
  \<open>Zipr_Pinner_RISC\<close>: the pinners of ARM64, ARM32 and MIPS32. \<open>Zipr_Pinner_X86\<close>: the x86 pinner;
  \<open>Zipr_Pins\<close> and \<open>Zipr_PinJumps\<close>: sizes of sleds, places of pins, chains of jumps. \<open>Zipr_Sled\<close>
  and \<open>Zipr_SledPlace\<close>: sleds of \<open>push\<close> instructions, run on a model of the stack.

  \<^bold>\<open>Placing and writing\<close> (\<open>zipr.cpp\<close>, \<open>sizer_*.cpp\<close>, \<open>plugin_man.cpp\<close>, \<open>arch_*.cpp\<close>).
  \<open>Zipr_Sizer\<close>, \<open>Zipr_PlopTarget\<close>, \<open>Zipr_SizerProps\<close>: room of instructions and writing of
  branches. \<open>Zipr_Place\<close>, \<open>Zipr_Layout\<close>, \<open>Zipr_PlaceProps\<close>: the placement loop and the layout it
  makes. \<open>Zipr_Plop\<close>, \<open>Zipr_WriteProg\<close>, \<open>Zipr_Jumps\<close>, \<open>Zipr_WriteProps\<close>: writing of dollops, of
  branches a second time, and of pins. \<open>Zipr_Program\<close>: placement and writing composed.

  \<^bold>\<open>References\<close> (\<open>zipr_unpin_plugin\<close>). \<open>Zipr_Unpin\<close>: the plugin that makes references to moved code
  right, for data, x86 and MIPS32. \<open>Zipr_UnpinData\<close>: every slot of a data scoop that a relocation
  names holds its new value. \<open>Zipr_UnpinX86\<close>: so does every instruction.

  \<^bold>\<open>Interfaces.\<close> Six locales say what one part needs from another: \<open>range_container\<close> (the set of
  free ranges), \<open>byte_allocator\<close> (splitting and merging), \<open>branch_patcher\<close> (pins and branches of a
  machine), \<open>entry_writer\<close> (writing an instruction with a target) \<open>placement\<close> (sizes and ends of
  dollops) and \<open>reloc_update\<close> (updating the reference of an instruction). Each is interpreted on the definitions of the parts that provide it.

  \<^bold>\<open>Preparation and regions\<close> (\<open>zipr.cpp\<close>). \<open>Zipr_FixIR\<close>: prefixes and missing or shared
  fallthroughs of the IR. \<open>Zipr_Scoops\<close> and \<open>Zipr_ScoopProps\<close>: which addresses become free for
  code, and cutting the regions down to the code that was written.

  \<^bold>\<open>The executable\<close> (\<open>elfwrite.cpp\<close>, \<open>exewrite.h\<close>). \<open>Zipr_ElfHdr\<close>: the headers, in either width
  and byte order. \<open>Zipr_Elf\<close>, \<open>Zipr_ElfProps\<close>: pages and segments. \<open>Zipr_ElfFile\<close>,
  \<open>Zipr_ElfLoad\<close>, \<open>Zipr_ElfImage\<close>, \<open>Zipr_ElfGap\<close>: the file, a loader for it, and the three places
  for the program headers. \<open>Zipr_ElfSections\<close>, \<open>Zipr_ElfSyms\<close>: section headers and function
  symbols. \<open>Zipr_ElfTop\<close>: loading the file that was written gives the bytes of the regions.

  \<^bold>\<open>Graphs\<close> (\<open>dfs.cpp\<close>, \<open>domgraph.cpp\<close>, \<open>CFG.cpp\<close>, \<open>BasicBlock.cpp\<close>, \<open>criticaledge.cpp\<close>,
  \<open>callgraph.cpp\<close>). \<open>Zipr_Dom\<close>, \<open>Zipr_DomProps\<close>, \<open>Zipr_IDom\<close>: depth-first order, dominators
  against all paths from the entry, immediate dominators. \<open>Zipr_CFG\<close>, \<open>Zipr_CFGProps\<close>: the blocks
  of a function. \<open>Zipr_CallGraph\<close>: calls between functions and reachability.

  \<^bold>\<open>Fuel.\<close> Recursion that the code bounds by data it walks has a fuel argument; running out is
  \<open>OutOfFuel\<close>. The theorems say how much is enough: the number of blocks or of nodes for the
  depth-first searches, more rounds than the square of the number of blocks for the dominators,
  the number of instructions for a block, the number of pins and patches for the size of a sled,
  the number of pins for the update of pins. The placement loop has no such bound: a dollop can
  be split as long as there are places too small for it. Its theorem assumes that it returned; the
  writing phases after it are proved to return. Updating the targets of dollops ends under the
  hypotheses of its theorem and goes on for ever in the example beside it.

  \<^bold>\<open>Not modelled.\<close> Loading the program from the database and the dumps and statistics (input and
  output); the tables for exception handling (\<open>ehwrite.cpp\<close>: assembly text that an assembler
  turns into bytes); PE files (\<open>pewrite.cpp\<close>); the decoder wrappers, the database layer and the
  annotations of \<open>irdb-libs\<close>; the builders of the IR (\<open>ir_builders\<close>, \<open>rida\<close>, \<open>meds2pdb\<close>), which are
  heuristics over libraries that are not part of the sources; references to moved code on ARM64 and
  ARM32, and \<open>zipr_push64_reloc_plugin\<close>; the transformations in
  \<open>builtin_xforms\<close>; tools, tests and examples.
\<close>

end
